(* ===== verification/Prelude.thy ===== *)
theory Prelude
  imports Main "HOL-Library.Word" "HOL-Library.Sublist"
begin

text \<open>
  Shared material of the development: the names of the C types the driver uses, the
  truth values of the kernel, the collections of simplification rules the components
  extend, and generic lemmas on lists, finite sets and machine words.

  The C types follow the LP64 data model of the 64-bit Solaris kernel the driver is
  built for: \<open>uchar_t\<close>, \<open>ushort_t\<close>, \<open>uint_t\<close> are 8, 16 and 32 bits wide,
  \<open>size_t\<close>, \<open>ulong_t\<close> and \<open>daddr_t\<close> 64.
\<close>

unbundle bit_operations_syntax

type_synonym u8 = "8 word"
type_synonym u16 = "16 word"
type_synonym u32 = "32 word"
type_synonym u64 = "64 word"

named_theorems l2_simps "effects of the doubly linked list operations on the store"
named_theorems wq_simps "effects of the wait queue operations on the records"
named_theorems hw_simps "effects of the register access primitives on the log"

subsection \<open>Lists\<close>

lemma filter_remove1_distinct:
  "distinct xs \<Longrightarrow> filter (\<lambda>y. y \<noteq> x) xs = remove1 x xs"
  by (induction xs) (auto simp: filter_id_conv)

lemma distinct_map_inj: "inj f \<Longrightarrow> distinct (map f xs) = distinct xs"
  by (simp add: distinct_map inj_on_def inj_def)

subsection \<open>Finite sets counted by a predicate\<close>

lemma card_Collect_insert:
  assumes "finite {g. P g}" and "\<not> P x"
  shows "card {g. P g \<or> g = x} = Suc (card {g. P g})"
proof -
  have "{g. P g \<or> g = x} = insert x {g. P g}" by auto
  then show ?thesis using assms by simp
qed

lemma card_Collect_remove:
  assumes "finite {g. P g}" and "P x"
  shows "Suc (card {g. P g \<and> g \<noteq> x}) = card {g. P g}"
proof -
  have eq: "{g. P g} = insert x {g. P g \<and> g \<noteq> x}" using assms(2) by auto
  have "finite {g. P g \<and> g \<noteq> x}" by (rule finite_subset [OF _ assms(1)]) auto
  then have "card (insert x {g. P g \<and> g \<noteq> x}) = Suc (card {g. P g \<and> g \<noteq> x})"
    by (rule card_insert_disjoint) simp
  then show ?thesis using eq by simp
qed

lemma int_card_remove:
  "finite X \<Longrightarrow> int (card (X - {g})) = int (card X) - (if g \<in> X then 1 else 0)"
  by (cases "card X") (auto simp: card_Diff_singleton)

lemma int_card_insert:
  "finite X \<Longrightarrow> int (card (insert g X)) = int (card X) + (if g \<in> X then 0 else 1)"
  by (auto simp: card_insert_if)

end
