(* ===== verification/Ghd_Queue.thy ===== *)
theory Ghd_Queue
  imports Prelude
begin

text \<open>
  The two intrusive list types of the generic HBA driver, \<open>ghd_queue.h\<close> and
  \<open>ghd_queue.c\<close>: the singly linked \<open>L1\<close> lists with a head and a tail pointer and
  the circular doubly linked \<open>L2\<close> lists.

  The model keeps the pointers: a store maps every address to the list element that
  lives there, an operation performs the assignments of the C code in their order.
  The abstraction predicates \<open>L1_repr\<close> and \<open>L2_repr\<close> say which abstract lists a store
  represents, and the laws of the locale \<open>list_world\<close> are the contract on which
  the wait queues, the done queue and the timer list rest.
\<close>

section \<open>Singly linked lists (L1)\<close>

record ('a, 'd) L1el =
  le_nextp :: "'a option"
  le_datap :: "'d option"

record 'a L1_t =
  l1_headp :: "'a option"
  l1_tailp :: "'a option"

type_synonym ('a, 'd) l1store = "'a \<Rightarrow> ('a, 'd) L1el"

definition L1HEADER_INIT :: "'a L1_t" where
  "L1HEADER_INIT = \<lparr>l1_headp = None, l1_tailp = None\<rparr>"

definition L1_EMPTY :: "'a L1_t \<Rightarrow> bool" where
  "L1_EMPTY lp \<longleftrightarrow> l1_headp lp = None"

definition set_le_nextp :: "('a, 'd) l1store \<Rightarrow> 'a \<Rightarrow> 'a option \<Rightarrow> ('a, 'd) l1store" where
  "set_le_nextp h a v = h(a := (h a)\<lparr>le_nextp := v\<rparr>)"

definition L1_add ::
  "('a, 'd) l1store \<Rightarrow> 'a L1_t \<Rightarrow> 'a \<Rightarrow> 'd option \<Rightarrow> ('a, 'd) l1store \<times> 'a L1_t" where
  "L1_add h lp lep datap =
    (let h = h(lep := \<lparr>le_nextp = None, le_datap = datap\<rparr>);
         (h, lp) = (case l1_tailp lp of
             None \<Rightarrow> (h, lp\<lparr>l1_headp := Some lep\<rparr>)
           | Some t \<Rightarrow> (set_le_nextp h t (Some lep), lp))
     in (h, lp\<lparr>l1_tailp := Some lep\<rparr>))"

text \<open>
  The search loop of \<open>L1_delete\<close> follows \<open>le_nextp\<close> until it is NULL; on a cyclic
  store it does not end, which is the result \<open>None\<close>.
\<close>

partial_function (option) L1_delete_loop ::
  "('a, 'd) l1store \<Rightarrow> 'a L1_t \<Rightarrow> 'a \<Rightarrow> 'a option \<Rightarrow> (('a, 'd) l1store \<times> 'a L1_t) option" where
  "L1_delete_loop h lp lep prevp =
    (case prevp of
       None \<Rightarrow> Some (h, lp)
     | Some p \<Rightarrow>
         if le_nextp (h p) = Some lep then
           (let h' = set_le_nextp h p (le_nextp (h lep))
            in Some (h', if le_nextp (h' p) = None then lp\<lparr>l1_tailp := Some p\<rparr> else lp))
         else L1_delete_loop h lp lep (le_nextp (h p)))"

definition L1_delete ::
  "('a, 'd) l1store \<Rightarrow> 'a L1_t \<Rightarrow> 'a \<Rightarrow> (('a, 'd) l1store \<times> 'a L1_t) option" where
  "L1_delete h lp lep =
    (if l1_headp lp = Some lep then
       (let lp = lp\<lparr>l1_headp := le_nextp (h lep)\<rparr>
        in Some (h, if l1_headp lp = None then lp\<lparr>l1_tailp := None\<rparr> else lp))
     else L1_delete_loop h lp lep (l1_headp lp))"

definition L1_remove ::
  "('a, 'd) l1store \<Rightarrow> 'a L1_t \<Rightarrow> 'd option \<times> ('a, 'd) l1store \<times> 'a L1_t" where
  "L1_remove h lp =
    (case l1_headp lp of
       None \<Rightarrow> (None, h, lp)
     | Some lep \<Rightarrow>
         (let lp = lp\<lparr>l1_headp := le_nextp (h lep)\<rparr>;
              lp = (if l1_headp lp = None then lp\<lparr>l1_tailp := None\<rparr> else lp);
              h = set_le_nextp h lep None
          in (le_datap (h lep), h, lp)))"

subsection \<open>Abstraction: the path from the head to NULL\<close>

fun l1_path :: "('a, 'd) l1store \<Rightarrow> 'a option \<Rightarrow> 'a list \<Rightarrow> bool" where
  "l1_path h p [] = (p = None)"
| "l1_path h p (x # xs) = (p = Some x \<and> l1_path h (le_nextp (h x)) xs)"

definition L1_repr :: "('a, 'd) l1store \<Rightarrow> 'a L1_t \<Rightarrow> 'a list \<Rightarrow> bool" where
  "L1_repr h lp xs \<longleftrightarrow> distinct xs \<and> l1_path h (l1_headp lp) xs \<and>
     l1_tailp lp = (if xs = [] then None else Some (last xs))"

lemma set_le_nextp_simps [simp]:
  "le_nextp (set_le_nextp h a v b) = (if b = a then v else le_nextp (h b))"
  "le_datap (set_le_nextp h a v b) = le_datap (h b)"
  by (simp_all add: set_le_nextp_def)

lemma l1_path_cong:
  "(\<And>x. x \<in> set xs \<Longrightarrow> le_nextp (h x) = le_nextp (h' x)) \<Longrightarrow> l1_path h p xs = l1_path h' p xs"
  by (induction xs arbitrary: p) auto

lemma l1_path_append_one:
  "distinct (xs @ [t]) \<Longrightarrow> l1_path h p (xs @ [t]) \<Longrightarrow> lep \<notin> set (xs @ [t]) \<Longrightarrow>
   le_nextp (h' lep) = None \<Longrightarrow> le_nextp (h' t) = Some lep \<Longrightarrow>
   (\<And>x. x \<in> set xs \<Longrightarrow> le_nextp (h' x) = le_nextp (h x)) \<Longrightarrow>
   l1_path h' p (xs @ [t, lep])"
  by (induction xs arbitrary: p) auto

lemma l1_path_last:
  "l1_path h p xs \<Longrightarrow> xs \<noteq> [] \<Longrightarrow> le_nextp (h (last xs)) = None"
  by (induction xs arbitrary: p) (auto split: if_splits)

lemma L1_repr_empty: "L1_repr h L1HEADER_INIT []"
  by (simp add: L1_repr_def L1HEADER_INIT_def)

lemma L1_EMPTY_iff: "L1_repr h lp xs \<Longrightarrow> L1_EMPTY lp \<longleftrightarrow> xs = []"
  by (cases xs) (auto simp: L1_repr_def L1_EMPTY_def)

text \<open>\<open>L1_add\<close> appends at the tail and touches no other element's data.\<close>

lemma L1_add_repr:
  assumes "L1_repr h lp xs" and "lep \<notin> set xs" and "L1_add h lp lep d = (h', lp')"
  shows "L1_repr h' lp' (xs @ [lep]) \<and> le_datap (h' lep) = d \<and>
         (\<forall>x. x \<noteq> lep \<longrightarrow> le_datap (h' x) = le_datap (h x))"
proof (cases xs rule: rev_cases)
  case Nil
  with assms show ?thesis by (auto simp: L1_repr_def L1_add_def)
next
  case (snoc ys t)
  from assms(1) snoc have d: "distinct (ys @ [t])" "l1_path h (l1_headp lp) (ys @ [t])"
    and t: "l1_tailp lp = Some t" by (auto simp: L1_repr_def)
  from assms(3) t have h': "h' = set_le_nextp (h(lep := \<lparr>le_nextp = None, le_datap = d\<rparr>)) t (Some lep)"
    and lp': "lp' = lp\<lparr>l1_tailp := Some lep\<rparr>" by (auto simp: L1_add_def)
  have "l1_path h' (l1_headp lp) (ys @ [t, lep])"
    by (rule l1_path_append_one [OF d]) (use assms(2) snoc d in \<open>auto simp: h'\<close>)
  with d assms(2) snoc show ?thesis by (auto simp: L1_repr_def h' lp')
qed

text \<open>The search loop unlinks the element wherever it is on the path.\<close>

lemma L1_delete_loop_found:
  assumes "l1_path h (Some p) (p # ys @ lep # zs)" and "distinct (p # ys @ lep # zs)"
  shows "L1_delete_loop h lp lep (Some p) =
    Some (set_le_nextp h (last (p # ys)) (le_nextp (h lep)),
          if zs = [] then lp\<lparr>l1_tailp := Some (last (p # ys))\<rparr> else lp)"
  using assms
proof (induction ys arbitrary: p)
  case Nil
  then have "le_nextp (h p) = Some lep" and "le_nextp (h lep) = None \<longleftrightarrow> zs = []"
    by (cases zs; auto)+
  then show ?case by (simp add: L1_delete_loop.simps [of h lp lep "Some p"] Let_def)
next
  case (Cons q ys)
  then have "L1_delete_loop h lp lep (Some p) = L1_delete_loop h lp lep (Some q)"
    by (simp add: L1_delete_loop.simps [of h lp lep "Some p"])
  with Cons show ?case by simp
qed

lemma L1_delete_loop_absent:
  "l1_path h p xs \<Longrightarrow> lep \<notin> set xs \<Longrightarrow> L1_delete_loop h lp lep p = Some (h, lp)"
proof (induction xs arbitrary: p)
  case Nil
  then show ?case by (simp add: L1_delete_loop.simps)
next
  case (Cons x xs)
  from Cons.prems have p: "p = Some x" and rest: "l1_path h (le_nextp (h x)) xs" by auto
  from rest Cons.prems(2) have "le_nextp (h x) \<noteq> Some lep" by (cases xs) auto
  with p have "L1_delete_loop h lp lep p = L1_delete_loop h lp lep (le_nextp (h x))"
    by (simp add: L1_delete_loop.simps [of h lp lep "Some x"])
  with Cons.IH [OF rest] Cons.prems(2) show ?case by simp
qed

lemma l1_path_unlink:
  "l1_path h p (xs @ q # lep # zs) \<Longrightarrow> distinct (xs @ q # lep # zs) \<Longrightarrow>
   l1_path (set_le_nextp h q (le_nextp (h lep))) p (xs @ q # zs)"
proof (induction xs arbitrary: p)
  case Nil
  then have "l1_path h (le_nextp (h lep)) zs" by simp
  then have "l1_path (set_le_nextp h q (le_nextp (h lep))) (le_nextp (h lep)) zs"
    by (subst l1_path_cong [of _ _ h]) (use Nil in auto)
  with Nil show ?case by simp
qed auto

text \<open>
  \<open>L1_delete\<close> always returns on a well formed list, removes the element if it is on
  the list and otherwise changes nothing.
\<close>

lemma L1_delete_repr:
  assumes "L1_repr h lp xs"
  shows "\<exists>h' lp'. L1_delete h lp lep = Some (h', lp') \<and> L1_repr h' lp' (remove1 lep xs) \<and>
         (\<forall>x. le_datap (h' x) = le_datap (h x))"
proof (cases "lep \<in> set xs")
  case False
  with assms have "l1_headp lp \<noteq> Some lep" by (cases xs) (auto simp: L1_repr_def)
  moreover have "L1_delete_loop h lp lep (l1_headp lp) = Some (h, lp)"
    by (rule L1_delete_loop_absent) (use assms False in \<open>auto simp: L1_repr_def\<close>)
  ultimately show ?thesis using assms False by (auto simp: L1_delete_def remove1_idem)
next
  case True
  then obtain ys zs where xs: "xs = ys @ lep # zs" and nys: "lep \<notin> set ys"
    by (auto dest: split_list_first)
  from assms xs have path: "l1_path h (l1_headp lp) (ys @ lep # zs)" and d: "distinct (ys @ lep # zs)"
    by (auto simp: L1_repr_def)
  show ?thesis
  proof (cases ys rule: rev_cases)
    case Nil
    with path assms xs show ?thesis
      by (cases zs) (auto simp: L1_repr_def L1_delete_def)
  next
    case (snoc us q)
    then have "ys \<noteq> []" by simp
    then obtain p vs where pv: "ys = p # vs" by (cases ys) auto
    with path have hd: "l1_headp lp = Some p" by simp
    have lq: "last ys = q" using snoc by simp
    have "L1_delete h lp lep = Some (set_le_nextp h q (le_nextp (h lep)),
          if zs = [] then lp\<lparr>l1_tailp := Some q\<rparr> else lp)"
      using L1_delete_loop_found [of h p vs lep zs lp] path d pv hd lq
      by (auto simp: L1_delete_def)
    moreover have "l1_path (set_le_nextp h q (le_nextp (h lep))) (l1_headp lp) (us @ q # zs)"
      using l1_path_unlink [of h "l1_headp lp" us q lep zs] path d snoc by simp
    ultimately show ?thesis
      using assms xs snoc nys d by (auto simp: L1_repr_def remove1_append)
  qed
qed

text \<open>\<open>L1_remove\<close> pops the head.\<close>

lemma L1_remove_repr:
  assumes "L1_repr h lp (x # xs)" and "L1_remove h lp = (r, h', lp')"
  shows "r = le_datap (h x) \<and> L1_repr h' lp' xs"
proof -
  from assms(1) have path: "l1_headp lp = Some x" "l1_path h (le_nextp (h x)) xs"
    and d: "distinct (x # xs)" by (auto simp: L1_repr_def)
  from path d have "l1_path (set_le_nextp h x None) (le_nextp (h x)) xs"
    by (subst l1_path_cong [of _ _ h]) auto
  with assms path d show ?thesis
    by (cases xs) (auto simp: L1_repr_def L1_remove_def Let_def)
qed

section \<open>Doubly linked lists (L2)\<close>

record ('a, 'p) L2el =
  l2_nextp :: 'a
  l2_prevp :: 'a
  l2_private :: "'p option"

type_synonym ('a, 'p) l2store = "'a \<Rightarrow> ('a, 'p) L2el"

definition set_l2_nextp :: "('a, 'p) l2store \<Rightarrow> 'a \<Rightarrow> 'a \<Rightarrow> ('a, 'p) l2store" where
  "set_l2_nextp h a v = h(a := (h a)\<lparr>l2_nextp := v\<rparr>)"

definition set_l2_prevp :: "('a, 'p) l2store \<Rightarrow> 'a \<Rightarrow> 'a \<Rightarrow> ('a, 'p) l2store" where
  "set_l2_prevp h a v = h(a := (h a)\<lparr>l2_prevp := v\<rparr>)"

definition set_l2_private :: "('a, 'p) l2store \<Rightarrow> 'a \<Rightarrow> 'p option \<Rightarrow> ('a, 'p) l2store" where
  "set_l2_private h a v = h(a := (h a)\<lparr>l2_private := v\<rparr>)"

lemma set_l2_simps [simp, l2_simps]:
  "l2_nextp (set_l2_nextp h a v b) = (if b = a then v else l2_nextp (h b))"
  "l2_prevp (set_l2_nextp h a v b) = l2_prevp (h b)"
  "l2_private (set_l2_nextp h a v b) = l2_private (h b)"
  "l2_nextp (set_l2_prevp h a v b) = l2_nextp (h b)"
  "l2_prevp (set_l2_prevp h a v b) = (if b = a then v else l2_prevp (h b))"
  "l2_private (set_l2_prevp h a v b) = l2_private (h b)"
  "l2_nextp (set_l2_private h a w b) = l2_nextp (h b)"
  "l2_prevp (set_l2_private h a w b) = l2_prevp (h b)"
  "l2_private (set_l2_private h a w b) = (if b = a then w else l2_private (h b))"
  by (simp_all add: set_l2_nextp_def set_l2_prevp_def set_l2_private_def)

definition L2_INIT :: "('a, 'p) l2store \<Rightarrow> 'a \<Rightarrow> ('a, 'p) l2store" where
  "L2_INIT h headp = set_l2_prevp (set_l2_nextp h headp headp) headp headp"

definition L2_EMPTY :: "('a, 'p) l2store \<Rightarrow> 'a \<Rightarrow> bool" where
  "L2_EMPTY h headp \<longleftrightarrow> l2_nextp (h headp) = headp"

definition L2_add :: "('a, 'p) l2store \<Rightarrow> 'a \<Rightarrow> 'a \<Rightarrow> 'p \<Rightarrow> ('a, 'p) l2store" where
  "L2_add h headp elementp private =
    (let h = set_l2_private h elementp (Some private);
         h = set_l2_nextp h elementp headp;
         h = set_l2_prevp h elementp (l2_prevp (h headp));
         h = set_l2_nextp h (l2_prevp (h headp)) elementp
     in set_l2_prevp h headp elementp)"

definition L2_delete :: "('a, 'p) l2store \<Rightarrow> 'a \<Rightarrow> ('a, 'p) l2store" where
  "L2_delete h elementp =
    (let h = set_l2_nextp h (l2_prevp (h elementp)) (l2_nextp (h elementp));
         h = set_l2_prevp h (l2_nextp (h elementp)) (l2_prevp (h elementp));
         h = set_l2_nextp h elementp elementp
     in set_l2_prevp h elementp elementp)"

definition L2_add_head :: "('a, 'p) l2store \<Rightarrow> 'a \<Rightarrow> 'a \<Rightarrow> 'p \<Rightarrow> ('a, 'p) l2store" where
  "L2_add_head h headp elementp private =
    (let h = set_l2_private h elementp (Some private);
         h = set_l2_prevp h elementp headp;
         h = set_l2_nextp h elementp (l2_nextp (h headp));
         h = set_l2_prevp h (l2_nextp (h headp)) elementp
     in set_l2_nextp h headp elementp)"

definition L2_remove_head :: "('a, 'p) l2store \<Rightarrow> 'a \<Rightarrow> 'p option \<times> ('a, 'p) l2store" where
  "L2_remove_head h headp =
    (if L2_EMPTY h headp then (None, h)
     else
       (let elementp = l2_nextp (h headp);
            h = set_l2_nextp h headp (l2_nextp (h elementp));
            h = set_l2_prevp h (l2_nextp (h elementp)) headp;
            h = set_l2_nextp h elementp elementp;
            h = set_l2_prevp h elementp elementp
        in (l2_private (h elementp), h)))"

definition L2_next :: "('a, 'p) l2store \<Rightarrow> 'a \<Rightarrow> 'p option" where
  "L2_next h elementp =
    (if L2_EMPTY h elementp then None else l2_private (h (l2_nextp (h elementp))))"

subsection \<open>Rings\<close>

text \<open>
  \<open>l2_links h xs\<close>: neighbours in \<open>xs\<close> point at each other. A ring is a list header
  followed by its elements and closed by the header again.
\<close>

fun l2_links :: "('a, 'p) l2store \<Rightarrow> 'a list \<Rightarrow> bool" where
  "l2_links h (a # b # xs) = (l2_nextp (h a) = b \<and> l2_prevp (h b) = a \<and> l2_links h (b # xs))"
| "l2_links h xs = True"

definition l2_ring :: "('a, 'p) l2store \<Rightarrow> 'a \<Rightarrow> 'a list \<Rightarrow> bool" where
  "l2_ring h hp xs \<longleftrightarrow> distinct (hp # xs) \<and> l2_links h (hp # xs @ [hp])"

lemma l2_links_append:
  "l2_links h (xs @ y # ys) \<longleftrightarrow> l2_links h (xs @ [y]) \<and> l2_links h (y # ys)"
proof (induction xs)
  case (Cons x xs)
  then show ?case by (cases xs) auto
qed simp

lemma l2_links_cong:
  "(\<And>x. x \<in> set (butlast xs) \<Longrightarrow> l2_nextp (h' x) = l2_nextp (h x)) \<Longrightarrow>
   (\<And>x. x \<in> set (tl xs) \<Longrightarrow> l2_prevp (h' x) = l2_prevp (h x)) \<Longrightarrow>
   l2_links h' xs = l2_links h xs"
  by (induction h xs rule: l2_links.induct) auto

lemma l2_ring_cong:
  assumes "\<And>x. x = hp \<or> x \<in> set xs \<Longrightarrow> l2_nextp (h' x) = l2_nextp (h x) \<and> l2_prevp (h' x) = l2_prevp (h x)"
  shows "l2_ring h' hp xs = l2_ring h hp xs"
proof -
  have "l2_links h' (hp # xs @ [hp]) = l2_links h (hp # xs @ [hp])"
    by (rule l2_links_cong) (use assms in \<open>auto simp: butlast_append\<close>)
  then show ?thesis by (simp add: l2_ring_def)
qed

lemma l2_ring_next: "l2_ring h hp xs \<Longrightarrow> l2_nextp (h hp) = (case xs of [] \<Rightarrow> hp | x # _ \<Rightarrow> x)"
  by (cases xs) (auto simp: l2_ring_def)

lemma l2_ring_prev: "l2_ring h hp xs \<Longrightarrow> l2_prevp (h hp) = (if xs = [] then hp else last xs)"
proof (cases xs rule: rev_cases)
  case (snoc ys y)
  moreover assume "l2_ring h hp xs"
  ultimately show ?thesis
    using l2_links_append [of h "hp # ys" y "[hp]"] by (simp add: l2_ring_def)
qed (simp add: l2_ring_def)

lemma l2_ring_EMPTY: "l2_ring h hp xs \<Longrightarrow> L2_EMPTY h hp \<longleftrightarrow> xs = []"
  by (cases xs) (auto simp: l2_ring_def L2_EMPTY_def)

text \<open>Splicing an element in and out of a chain of links.\<close>

lemma l2_links_insert:
  assumes links: "l2_links h (us @ a # b # vs)" and e: "e \<notin> set (us @ a # b # vs)"
    and d1: "distinct (us @ a # butlast (b # vs))" and d2: "distinct (tl (us @ [a]) @ b # vs)"
    and nx: "\<And>x. l2_nextp (h' x) = (if x = a then e else if x = e then b else l2_nextp (h x))"
    and pv: "\<And>x. l2_prevp (h' x) = (if x = e then a else if x = b then e else l2_prevp (h x))"
  shows "l2_links h' (us @ a # e # b # vs)"
proof -
  have l: "l2_links h (us @ [a])" and r: "l2_links h (b # vs)"
    using links l2_links_append [of h us a "b # vs"] by auto
  have etl: "e \<notin> set (tl (us @ [a]))" using e by (cases us) auto
  have ebl: "e \<notin> set (butlast (b # vs))" using e in_set_butlastD [of e "b # vs"] by auto
  have "l2_links h' (us @ [a])"
    by (subst l2_links_cong [of _ h' h]) (use l e etl d1 d2 in \<open>auto simp: nx pv dest: in_set_butlastD\<close>)
  moreover have "l2_links h' (b # vs)"
    by (subst l2_links_cong [of _ h' h]) (use r e ebl d1 d2 in \<open>auto simp: nx pv dest: in_set_butlastD\<close>)
  ultimately show ?thesis
    using l2_links_append [of h' us a "e # b # vs"] e by (auto simp: nx pv)
qed

lemma l2_links_remove:
  assumes links: "l2_links h (us @ a # e # b # vs)" and e: "e \<notin> set (us @ a # b # vs)"
    and d1: "distinct (us @ a # butlast (b # vs))" and d2: "distinct (tl (us @ [a]) @ b # vs)"
    and nx: "\<And>x. l2_nextp (h' x) = (if x = e then e else if x = a then b else l2_nextp (h x))"
    and pv: "\<And>x. l2_prevp (h' x) = (if x = e then e else if x = b then a else l2_prevp (h x))"
  shows "l2_links h' (us @ a # b # vs)"
proof -
  have l: "l2_links h (us @ [a])" and r: "l2_links h (b # vs)"
    using links l2_links_append [of h us a "e # b # vs"] by auto
  have etl: "e \<notin> set (tl (us @ [a]))" using e by (cases us) auto
  have ebl: "e \<notin> set (butlast (b # vs))" using e in_set_butlastD [of e "b # vs"] by auto
  have "l2_links h' (us @ [a])"
    by (subst l2_links_cong [of _ h' h]) (use l e etl d1 d2 in \<open>auto simp: nx pv dest: in_set_butlastD\<close>)
  moreover have "l2_links h' (b # vs)"
    by (subst l2_links_cong [of _ h' h]) (use r e ebl d1 d2 in \<open>auto simp: nx pv dest: in_set_butlastD\<close>)
  ultimately show ?thesis
    using l2_links_append [of h' us a "b # vs"] e by (auto simp: nx pv)
qed

lemma L2_add_ring:
  assumes "l2_ring h hp xs" and "e \<notin> set (hp # xs)"
  shows "l2_ring (L2_add h hp e p) hp (xs @ [e])"
proof -
  obtain us a where ua: "hp # xs = us @ [a]" by (metis rev_exhaust list.distinct(1))
  have w: "us @ a # zs = hp # xs @ zs" for zs
    using arg_cong [OF ua, of "\<lambda>l. l @ zs"] by simp
  have prev: "l2_prevp (h hp) = a"
    using l2_ring_prev [OF assms(1)] ua by (cases us) auto
  have d: "distinct (hp # xs)" and l: "l2_links h (hp # xs @ [hp])"
    using assms(1) by (auto simp: l2_ring_def)
  have "l2_links (L2_add h hp e p) (us @ a # e # hp # [])"
  proof (rule l2_links_insert)
    show "l2_links h (us @ a # hp # [])" using l by (simp only: w)
    show "e \<notin> set (us @ a # hp # [])" using assms(2) by (simp add: w)
    show "distinct (us @ a # butlast [hp])" using d by (simp add: w)
    show "distinct (tl (us @ [a]) @ [hp])" using d by (simp add: ua [symmetric])
  qed (use assms prev in \<open>auto simp: L2_add_def Let_def\<close>)
  then have "l2_links (L2_add h hp e p) (hp # (xs @ [e]) @ [hp])" by (simp add: w)
  then show ?thesis using assms(2) d by (auto simp: l2_ring_def)
qed

lemma L2_add_head_ring:
  assumes "l2_ring h hp xs" and "e \<notin> set (hp # xs)"
  shows "l2_ring (L2_add_head h hp e p) hp (e # xs)"
proof -
  obtain b vs where bv: "xs @ [hp] = b # vs" by (cases xs) auto
  have nextp: "l2_nextp (h hp) = b"
    using l2_ring_next [OF assms(1)] bv by (cases xs) auto
  have eb: "e \<noteq> b" using assms(2) bv by (cases xs) auto
  have d: "distinct (hp # xs)" and l: "l2_links h (hp # xs @ [hp])"
    using assms(1) by (auto simp: l2_ring_def)
  have "l2_links (L2_add_head h hp e p) ([] @ hp # e # b # vs)"
  proof (rule l2_links_insert)
    show "l2_links h ([] @ hp # b # vs)" using l by (simp add: bv)
    show "e \<notin> set ([] @ hp # b # vs)" using assms(2) by (simp only: bv [symmetric]) auto
    show "distinct ([] @ hp # butlast (b # vs))" using d by (simp only: bv [symmetric]) simp
    show "distinct (tl ([] @ [hp]) @ b # vs)" using d by (simp only: bv [symmetric]) simp
  qed (use assms nextp eb in \<open>auto simp: L2_add_head_def Let_def\<close>)
  then show ?thesis using assms(2) d by (auto simp: l2_ring_def bv)
qed

lemma l2_ring_split:
  assumes "l2_ring h hp (ys @ e # zs)"
  obtains us a b vs where "hp # ys = us @ [a]" "zs @ [hp] = b # vs"
    "l2_prevp (h e) = a" "l2_nextp (h e) = b" "l2_links h (us @ a # e # b # vs)"
proof -
  obtain us a where ua: "hp # ys = us @ [a]" by (metis rev_exhaust list.distinct(1))
  obtain b vs where bv: "zs @ [hp] = b # vs" by (cases zs) auto
  have "hp # (ys @ e # zs) @ [hp] = us @ a # e # b # vs" using ua bv by simp
  then have l: "l2_links h (us @ a # e # b # vs)" using assms by (metis l2_ring_def)
  then have "l2_links h (a # e # b # vs)" using l2_links_append [of h us a "e # b # vs"] by simp
  then show ?thesis using that [OF ua bv _ _ l] by simp
qed

lemma L2_delete_ring:
  assumes ring: "l2_ring h hp (ys @ e # zs)"
  shows "l2_ring (L2_delete h e) hp (ys @ zs)"
proof -
  obtain us a b vs where ua: "hp # ys = us @ [a]" and bv: "zs @ [hp] = b # vs"
    and nb: "l2_prevp (h e) = a" "l2_nextp (h e) = b" and l: "l2_links h (us @ a # e # b # vs)"
    using ring by (rule l2_ring_split)
  have d: "distinct (hp # ys @ e # zs)" using ring by (simp add: l2_ring_def)
  have ae: "a \<noteq> e" "b \<noteq> e"
    using d arg_cong [OF ua, of set] arg_cong [OF bv, of set] by auto
  have "l2_links (L2_delete h e) (us @ a # b # vs)"
  proof (rule l2_links_remove [OF l])
    show "e \<notin> set (us @ a # b # vs)"
      using d arg_cong [OF ua, of set] arg_cong [OF bv, of set] by auto
    have "us @ a # butlast (b # vs) = hp # ys @ zs" using ua by (simp add: bv [symmetric])
    then show "distinct (us @ a # butlast (b # vs))" using d by simp
    have "tl (us @ [a]) @ b # vs = ys @ zs @ [hp]" by (simp add: ua [symmetric] bv [symmetric])
    then show "distinct (tl (us @ [a]) @ b # vs)" using d by simp
  qed (use ae nb in \<open>auto simp: L2_delete_def Let_def\<close>)
  moreover have "us @ a # b # vs = hp # (ys @ zs) @ [hp]" using ua bv by simp
  ultimately show ?thesis using d by (auto simp: l2_ring_def)
qed

lemma L2_remove_head_delete:
  assumes ring: "l2_ring h hp (e # zs)"
  shows "L2_remove_head h hp = (l2_private (h e), L2_delete h e)"
proof -
  have "l2_prevp (h e) = hp" "l2_nextp (h hp) = e" "hp \<noteq> e"
    using ring by (auto simp: l2_ring_def)
  moreover from this have "\<not> L2_EMPTY h hp" by (simp add: L2_EMPTY_def)
  ultimately show ?thesis
    by (auto simp: L2_remove_head_def L2_delete_def Let_def)
qed

subsection \<open>A store of many lists\<close>

text \<open>
  \<open>Q hp\<close> is the abstract content of the list whose header lives at \<open>hp\<close>: its elements
  in order, each with the owner recorded in \<open>l2_private\<close>. Elements on no list are linked
  to themselves, as \<open>L2_INIT\<close> and \<open>L2_delete\<close> leave them. A list header owns nothing
  (it lives in zeroed memory).
\<close>

type_synonym ('a, 'p) l2content = "'a \<rightharpoonup> ('a \<times> 'p) list"

definition l2_free :: "('a, 'p) l2content \<Rightarrow> 'a \<Rightarrow> bool" where
  "l2_free Q e \<longleftrightarrow> Q e = None \<and> (\<forall>hp ps. Q hp = Some ps \<longrightarrow> e \<notin> fst ` set ps)"

definition L2_repr :: "('a, 'p) l2store \<Rightarrow> ('a, 'p) l2content \<Rightarrow> bool" where
  "L2_repr h Q \<longleftrightarrow>
     (\<forall>hp ps. Q hp = Some ps \<longrightarrow> l2_ring h hp (map fst ps) \<and>
        (\<forall>(e, p) \<in> set ps. l2_private (h e) = Some p) \<and> l2_private (h hp) = None) \<and>
     (\<forall>hp ps hp' ps'. Q hp = Some ps \<longrightarrow> Q hp' = Some ps' \<longrightarrow> hp \<noteq> hp' \<longrightarrow>
        set (hp # map fst ps) \<inter> set (hp' # map fst ps') = {}) \<and>
     (\<forall>e. l2_free Q e \<longrightarrow> l2_nextp (h e) = e \<and> l2_prevp (h e) = e)"

lemma L2_reprD:
  assumes "L2_repr h Q" and "Q hp = Some ps"
  shows "l2_ring h hp (map fst ps)" "(e, p) \<in> set ps \<Longrightarrow> l2_private (h e) = Some p"
    "l2_private (h hp) = None"
  using assms unfolding L2_repr_def by (blast, fastforce, blast)

lemma L2_repr_disjoint:
  assumes "L2_repr h Q" and "Q hp = Some ps" and "Q hp' = Some ps'" and "hp \<noteq> hp'"
    and "a = hp \<or> a \<in> fst ` set ps" and "a = hp' \<or> a \<in> fst ` set ps'"
  shows False
proof -
  have "set (hp # map fst ps) \<inter> set (hp' # map fst ps') = {}"
    using assms(1-4) by (auto simp: L2_repr_def)
  moreover have "a \<in> set (hp # map fst ps)" "a \<in> set (hp' # map fst ps')" using assms(5,6) by auto
  ultimately show False by blast
qed

lemma L2_repr_free_self:
  "L2_repr h Q \<Longrightarrow> l2_free Q e \<Longrightarrow> l2_nextp (h e) = e \<and> l2_prevp (h e) = e"
  by (simp add: L2_repr_def)

text \<open>
  The frame rule: a change confined to one list, an element that joins or leaves it and
  their neighbours on that list leaves every other list and every free element alone.
\<close>

lemma L2_repr_update:
  assumes R: "L2_repr h Q" and Q: "Q hp = Some ps"
    and ring: "l2_ring h' hp (map fst ps')"
    and own: "\<And>e p. (e, p) \<in> set ps' \<Longrightarrow> l2_private (h' e) = Some p"
    and hdr: "l2_private (h' hp) = None"
    and new: "\<And>a. a \<in> fst ` set ps' \<Longrightarrow> a \<in> fst ` set ps \<or> l2_free Q a"
    and frame: "\<And>a. a \<noteq> hp \<Longrightarrow> a \<notin> fst ` set ps \<Longrightarrow> a \<notin> fst ` set ps' \<Longrightarrow> h' a = h a"
    and gone: "\<And>a. a \<in> fst ` set ps \<Longrightarrow> a \<notin> fst ` set ps' \<Longrightarrow> l2_nextp (h' a) = a \<and> l2_prevp (h' a) = a"
  shows "L2_repr h' (Q(hp \<mapsto> ps'))"
proof -
  have other: "h' a = h a" if "Q hp' = Some qs" "hp' \<noteq> hp" "a = hp' \<or> a \<in> fst ` set qs" for hp' qs a
  proof (rule frame)
    show "a \<noteq> hp" "a \<notin> fst ` set ps"
      using L2_repr_disjoint [OF R Q that(1), of a] that(2,3) by auto
    have "\<not> l2_free Q a" using that by (auto simp: l2_free_def)
    with \<open>a \<notin> fst ` set ps\<close> show "a \<notin> fst ` set ps'" using new [of a] by blast
  qed
  show ?thesis
    unfolding L2_repr_def
  proof (intro conjI allI impI)
    fix hp' qs assume q: "(Q(hp \<mapsto> ps')) hp' = Some qs"
    show "l2_ring h' hp' (map fst qs)"
    proof (cases "hp' = hp")
      case False
      with q have q': "Q hp' = Some qs" by simp
      have "l2_ring h hp' (map fst qs)" using L2_reprD(1) [OF R q'] .
      then show ?thesis by (subst l2_ring_cong [of _ _ _ h]) (use other [OF q' False] in auto)
    qed (use q ring in simp)
    show "\<forall>(e, p) \<in> set qs. l2_private (h' e) = Some p"
    proof (cases "hp' = hp")
      case False
      with q have q': "Q hp' = Some qs" by simp
      have "l2_private (h' (fst x)) = Some (snd x)" if "x \<in> set qs" for x
        using other [OF q' False, of "fst x"] L2_reprD(2) [OF R q', of "fst x" "snd x"] that by simp
      then show ?thesis by (simp add: case_prod_unfold)
    qed (use q own in auto)
    show "l2_private (h' hp') = None"
    proof (cases "hp' = hp")
      case False
      with q have q': "Q hp' = Some qs" by simp
      show ?thesis using other [OF q' False, of hp'] L2_reprD(3) [OF R q'] by simp
    qed (use hdr in simp)
  next
    fix a as b bs
    assume a: "(Q(hp \<mapsto> ps')) a = Some as" and b: "(Q(hp \<mapsto> ps')) b = Some bs" and "a \<noteq> b"
    have part: "set (hp # map fst ps') \<inter> set (c # map fst cs) = {}" if c: "Q c = Some cs" "c \<noteq> hp" for c cs
    proof -
      have "x \<notin> set (hp # map fst ps')" if x: "x = c \<or> x \<in> fst ` set cs" for x
      proof -
        have "\<not> l2_free Q x" using x c by (auto simp: l2_free_def)
        then have "x \<in> fst ` set ps' \<Longrightarrow> x \<in> fst ` set ps" using new by blast
        then show ?thesis using L2_repr_disjoint [OF R Q c(1) c(2) [symmetric], of x] x by auto
      qed
      then show ?thesis by auto
    qed
    show "set (a # map fst as) \<inter> set (b # map fst bs) = {}"
    proof (cases "a = hp"; cases "b = hp")
      assume "a = hp" "b \<noteq> hp"
      then show ?thesis using part [of b bs] a b by simp
    next
      assume "a \<noteq> hp" "b = hp"
      then have "set (b # map fst bs) \<inter> set (a # map fst as) = {}" using part [of a as] a b by simp
      then show ?thesis by (simp only: Int_commute)
    next
      assume "a = hp" "b = hp"
      then show ?thesis using \<open>a \<noteq> b\<close> by simp
    next
      assume "a \<noteq> hp" "b \<noteq> hp"
      then have "Q a = Some as" "Q b = Some bs" using a b by auto
      then show ?thesis using R \<open>a \<noteq> b\<close> unfolding L2_repr_def by blast
    qed
  next
    fix e assume free: "l2_free (Q(hp \<mapsto> ps')) e"
    then have ne: "e \<noteq> hp" and nps': "e \<notin> fst ` set ps'" by (auto simp: l2_free_def split: if_splits)
    have "l2_nextp (h' e) = e \<and> l2_prevp (h' e) = e"
    proof (cases "e \<in> fst ` set ps")
      case True
      then show ?thesis using gone nps' by blast
    next
      case False
      then have "l2_free Q e" using free Q ne
        by (simp add: l2_free_def) (metis option.inject)
      then show ?thesis using frame [OF ne False nps'] L2_repr_free_self [OF R] by simp
    qed
    then show "l2_nextp (h' e) = e" "l2_prevp (h' e) = e" by auto
  qed
qed

subsection \<open>The interface of the list package\<close>

text \<open>
  \<open>list_world\<close> is what the rest of the driver relies on: the operations it calls and
  the abstract effect of each on the contents of all lists. \<open>delete\<close> unlinks an element
  from whichever list it is on and does nothing to an element on no list, which is why a
  second \<open>L2_delete\<close> is harmless.
\<close>

locale list_world =
  fixes repr :: "'h \<Rightarrow> ('a, 'p) l2content \<Rightarrow> bool"
    and add :: "'h \<Rightarrow> 'a \<Rightarrow> 'a \<Rightarrow> 'p \<Rightarrow> 'h"
    and add_head :: "'h \<Rightarrow> 'a \<Rightarrow> 'a \<Rightarrow> 'p \<Rightarrow> 'h"
    and delete :: "'h \<Rightarrow> 'a \<Rightarrow> 'h"
    and remove_head :: "'h \<Rightarrow> 'a \<Rightarrow> 'p option \<times> 'h"
    and next_of :: "'h \<Rightarrow> 'a \<Rightarrow> 'p option"
    and is_empty :: "'h \<Rightarrow> 'a \<Rightarrow> bool"
  assumes add: "\<lbrakk>repr h Q; Q hp = Some ps; l2_free Q e\<rbrakk> \<Longrightarrow>
      repr (add h hp e p) (Q(hp \<mapsto> ps @ [(e, p)]))"
    and add_head: "\<lbrakk>repr h Q; Q hp = Some ps; l2_free Q e\<rbrakk> \<Longrightarrow>
      repr (add_head h hp e p) (Q(hp \<mapsto> (e, p) # ps))"
    and delete_linked: "\<lbrakk>repr h Q; Q hp = Some (ps @ (e, p) # qs)\<rbrakk> \<Longrightarrow>
      repr (delete h e) (Q(hp \<mapsto> ps @ qs))"
    and delete_free: "\<lbrakk>repr h Q; l2_free Q e\<rbrakk> \<Longrightarrow> delete h e = h"
    and remove_head_empty: "\<lbrakk>repr h Q; Q hp = Some []\<rbrakk> \<Longrightarrow> remove_head h hp = (None, h)"
    and remove_head_cons: "\<lbrakk>repr h Q; Q hp = Some ((e, p) # ps)\<rbrakk> \<Longrightarrow>
      remove_head h hp = (Some p, delete h e)"
    and next_head: "\<lbrakk>repr h Q; Q hp = Some ps\<rbrakk> \<Longrightarrow>
      next_of h hp = (case ps of [] \<Rightarrow> None | (e, p) # _ \<Rightarrow> Some p)"
    and next_elem: "\<lbrakk>repr h Q; Q hp = Some (ps @ (e, p) # qs)\<rbrakk> \<Longrightarrow>
      next_of h e = (case qs of [] \<Rightarrow> None | (e', p') # _ \<Rightarrow> Some p')"
    and is_empty: "\<lbrakk>repr h Q; Q hp = Some ps\<rbrakk> \<Longrightarrow> is_empty h hp \<longleftrightarrow> ps = []"
    and elems_free: "\<lbrakk>repr h Q; Q hp = Some (ps @ (e, p) # qs)\<rbrakk> \<Longrightarrow>
      l2_free (Q(hp \<mapsto> ps @ qs)) e"
begin

text \<open>A double delete is the same as one.\<close>

lemma delete_idem:
  assumes "repr h Q" and "Q hp = Some (ps @ (e, p) # qs)"
  shows "delete (delete h e) e = delete h e"
  by (rule delete_free [OF delete_linked [OF assms] elems_free [OF assms]])

text \<open>Moving the head of one list to the tail of another (or of the same list).\<close>

lemma move_head:
  assumes R: "repr h Q" and "Q hp = Some ((e, p) # ps)" and "Q hp' = Some qs" and "hp \<noteq> hp'"
  shows "remove_head h hp = (Some p, delete h e) \<and>
         repr (add (delete h e) hp' e p) (Q(hp \<mapsto> ps, hp' \<mapsto> qs @ [(e, p)]))"
proof -
  have del: "repr (delete h e) (Q(hp \<mapsto> ps))"
    using delete_linked [OF R, of hp "[]"] assms(2) by simp
  have free: "l2_free (Q(hp \<mapsto> ps)) e" using elems_free [OF R, of hp "[]"] assms(2) by simp
  have "(Q(hp \<mapsto> ps)) hp' = Some qs" using assms(3,4) by simp
  from add [OF del this free] remove_head_cons [OF R assms(2)] show ?thesis by simp
qed

text \<open>Taking the head off and putting it back is the identity on the contents.\<close>

lemma requeue_head:
  assumes R: "repr h Q" and Q: "Q hp = Some ((e, p) # ps)"
  shows "repr (add_head (delete h e) hp e p) Q"
proof -
  have del: "repr (delete h e) (Q(hp \<mapsto> ps))" using delete_linked [OF R, of hp "[]"] Q by simp
  have free: "l2_free (Q(hp \<mapsto> ps)) e" using elems_free [OF R, of hp "[]"] Q by simp
  from add_head [OF del _ free, of hp ps p] have "repr (add_head (delete h e) hp e p) (Q(hp \<mapsto> (e, p) # ps))"
    by simp
  then show ?thesis using Q by (simp add: map_upd_triv)
qed

end

subsection \<open>The pointer implementation satisfies the interface\<close>

lemma l2_freeD:
  "l2_free Q e \<Longrightarrow> Q hp = Some ps \<Longrightarrow> e \<noteq> hp \<and> e \<notin> fst ` set ps"
  by (auto simp: l2_free_def)

lemma L2_elems_distinct:
  assumes "L2_repr h Q" and "Q hp = Some ps"
  shows "distinct (hp # map fst ps)"
  using L2_reprD(1) [OF assms] by (simp add: l2_ring_def)

lemma L2_add_private [l2_simps]:
  "l2_private (L2_add h hp e p a) = (if a = e then Some p else l2_private (h a))"
  "l2_private (L2_add_head h hp e p a) = (if a = e then Some p else l2_private (h a))"
  "l2_private (L2_delete h e a) = l2_private (h a)"
  by (auto simp: L2_add_def L2_add_head_def L2_delete_def Let_def)

lemma L2_add_frame:
  "a \<noteq> hp \<Longrightarrow> a \<noteq> e \<Longrightarrow> a \<noteq> l2_prevp (h hp) \<Longrightarrow> hp \<noteq> e \<Longrightarrow> L2_add h hp e p a = h a"
  "a \<noteq> hp \<Longrightarrow> a \<noteq> e \<Longrightarrow> a \<noteq> l2_nextp (h hp) \<Longrightarrow> hp \<noteq> e \<Longrightarrow> L2_add_head h hp e p a = h a"
  by (simp_all add: L2_add_def L2_add_head_def Let_def set_l2_nextp_def set_l2_prevp_def set_l2_private_def)

lemma L2_delete_frame:
  "a \<noteq> e \<Longrightarrow> a \<noteq> l2_prevp (h e) \<Longrightarrow> a \<noteq> l2_nextp (h e) \<Longrightarrow> l2_prevp (h e) \<noteq> e \<Longrightarrow> L2_delete h e a = h a"
  by (simp add: L2_delete_def Let_def set_l2_nextp_def set_l2_prevp_def)

lemma L2_delete_self: "l2_nextp (L2_delete h e e) = e \<and> l2_prevp (L2_delete h e e) = e"
  by (simp add: L2_delete_def Let_def)

lemma L2_delete_noop: "l2_nextp (h e) = e \<Longrightarrow> l2_prevp (h e) = e \<Longrightarrow> L2_delete h e = h"
  by (rule ext, rule L2el.equality)
    (auto simp: L2_delete_def Let_def set_l2_nextp_def set_l2_prevp_def)

lemma L2_ring_neighbours:
  assumes "l2_ring h hp xs"
  shows "l2_prevp (h hp) \<in> set (hp # xs)" "l2_nextp (h hp) \<in> set (hp # xs)"
  using l2_ring_prev [OF assms] l2_ring_next [OF assms] by (auto split: list.split)

lemma L2_add_repr:
  assumes R: "L2_repr h Q" and Q: "Q hp = Some ps" and e: "l2_free Q e"
  shows "L2_repr (L2_add h hp e p) (Q(hp \<mapsto> ps @ [(e, p)]))"
proof (rule L2_repr_update [OF R Q])
  have ring: "l2_ring h hp (map fst ps)" by (rule L2_reprD(1) [OF R Q])
  have ne: "e \<notin> set (hp # map fst ps)" using l2_freeD [OF e Q] by auto
  have nin: "(e, x) \<notin> set ps" for x using l2_freeD [OF e Q] by force
  show "l2_ring (L2_add h hp e p) hp (map fst (ps @ [(e, p)]))"
    using L2_add_ring [OF ring ne] by simp
  show "l2_private (L2_add h hp e p e') = Some p'" if "(e', p') \<in> set (ps @ [(e, p)])" for e' p'
    using that L2_reprD(2) [OF R Q, of e' p'] nin by (auto simp: l2_simps)
  show "l2_private (L2_add h hp e p hp) = None"
    using L2_reprD(3) [OF R Q] ne by (auto simp: l2_simps)
  show "L2_add h hp e p a = h a" if "a \<noteq> hp" "a \<notin> fst ` set ps" "a \<notin> fst ` set (ps @ [(e, p)])" for a
    using L2_add_frame(1) [of a hp e h p] that ne L2_ring_neighbours(1) [OF ring] by auto
qed (use e in auto)

lemma L2_add_head_repr:
  assumes R: "L2_repr h Q" and Q: "Q hp = Some ps" and e: "l2_free Q e"
  shows "L2_repr (L2_add_head h hp e p) (Q(hp \<mapsto> (e, p) # ps))"
proof (rule L2_repr_update [OF R Q])
  have ring: "l2_ring h hp (map fst ps)" by (rule L2_reprD(1) [OF R Q])
  have ne: "e \<notin> set (hp # map fst ps)" using l2_freeD [OF e Q] by auto
  have nin: "(e, x) \<notin> set ps" for x using l2_freeD [OF e Q] by force
  show "l2_ring (L2_add_head h hp e p) hp (map fst ((e, p) # ps))"
    using L2_add_head_ring [OF ring ne] by simp
  show "l2_private (L2_add_head h hp e p e') = Some p'" if "(e', p') \<in> set ((e, p) # ps)" for e' p'
    using that L2_reprD(2) [OF R Q, of e' p'] nin by (auto simp: l2_simps)
  show "l2_private (L2_add_head h hp e p hp) = None"
    using L2_reprD(3) [OF R Q] ne by (auto simp: l2_simps)
  show "L2_add_head h hp e p a = h a" if "a \<noteq> hp" "a \<notin> fst ` set ps" "a \<notin> fst ` set ((e, p) # ps)" for a
    using L2_add_frame(2) [of a hp e h p] that ne L2_ring_neighbours(2) [OF ring] by auto
qed (use e in auto)

lemma L2_delete_repr:
  assumes R: "L2_repr h Q" and Q: "Q hp = Some (ps @ (e, p) # qs)"
  shows "L2_repr (L2_delete h e) (Q(hp \<mapsto> ps @ qs))"
proof (rule L2_repr_update [OF R Q])
  have ring: "l2_ring h hp (map fst ps @ e # map fst qs)" using L2_reprD(1) [OF R Q] by simp
  have d: "distinct (hp # map fst ps @ e # map fst qs)" using L2_elems_distinct [OF R Q] by simp
  obtain us a b vs where ua: "hp # map fst ps = us @ [a]" and bv: "map fst qs @ [hp] = b # vs"
    and nb: "l2_prevp (h e) = a" "l2_nextp (h e) = b"
    using ring by (rule l2_ring_split)
  have ab: "a \<in> set (hp # map fst ps)" "b \<in> set (map fst qs @ [hp])"
    using ua bv by simp_all
  show "l2_ring (L2_delete h e) hp (map fst (ps @ qs))" using L2_delete_ring [OF ring] by simp
  show "l2_private (L2_delete h e e') = Some p'" if "(e', p') \<in> set (ps @ qs)" for e' p'
    using that L2_reprD(2) [OF R Q, of e' p'] by (auto simp: l2_simps)
  show "l2_private (L2_delete h e hp) = None" using L2_reprD(3) [OF R Q] by (simp add: l2_simps)
  show "L2_delete h e a' = h a'" if "a' \<noteq> hp" "a' \<notin> fst ` set (ps @ (e, p) # qs)" for a'
  proof (rule L2_delete_frame)
    have "a' \<notin> set (hp # map fst ps)" "a' \<notin> set (map fst qs @ [hp])" using that by auto
    then show "a' \<noteq> l2_prevp (h e)" "a' \<noteq> l2_nextp (h e)" using ab nb by metis+
    show "a' \<noteq> e" using that by auto
    have "e \<notin> set (hp # map fst ps)" using d by auto
    then show "l2_prevp (h e) \<noteq> e" using ab(1) nb(1) by metis
  qed
  show "l2_nextp (L2_delete h e a') = a' \<and> l2_prevp (L2_delete h e a') = a'"
    if "a' \<in> fst ` set (ps @ (e, p) # qs)" "a' \<notin> fst ` set (ps @ qs)" for a'
    using that L2_delete_self [of h e] by auto
qed auto

lemma L2_next_elem:
  assumes R: "L2_repr h Q" and Q: "Q hp = Some (ps @ (e, p) # qs)"
  shows "L2_next h e = (case qs of [] \<Rightarrow> None | (e', p') # _ \<Rightarrow> Some p')"
proof -
  have ring: "l2_ring h hp (map fst ps @ e # map fst qs)" using L2_reprD(1) [OF R Q] by simp
  obtain us a b vs where bv: "map fst qs @ [hp] = b # vs" and nb: "l2_nextp (h e) = b"
    using ring by (rule l2_ring_split)
  have "e \<noteq> b" using L2_elems_distinct [OF R Q] bv by (cases qs) auto
  moreover have "l2_private (h b) = (case qs of [] \<Rightarrow> None | (e', p') # _ \<Rightarrow> Some p')"
    using bv L2_reprD(3) [OF R Q] L2_reprD(2) [OF R Q] by (cases qs) auto
  ultimately show ?thesis using nb by (auto simp: L2_next_def L2_EMPTY_def)
qed

lemma L2_next_head:
  assumes R: "L2_repr h Q" and Q: "Q hp = Some ps"
  shows "L2_next h hp = (case ps of [] \<Rightarrow> None | (e, p) # _ \<Rightarrow> Some p)"
  using l2_ring_next [OF L2_reprD(1) [OF R Q]] l2_ring_EMPTY [OF L2_reprD(1) [OF R Q]]
    L2_reprD(2) [OF R Q]
  by (cases ps) (auto simp: L2_next_def)

lemma L2_elem_free:
  assumes R: "L2_repr h Q" and Q: "Q hp = Some (ps @ (e, p) # qs)"
  shows "l2_free (Q(hp \<mapsto> ps @ qs)) e"
proof -
  have ne: "e \<noteq> hp" "e \<notin> fst ` set (ps @ qs)" using L2_elems_distinct [OF R Q] by auto
  moreover have "Q e = None"
  proof (rule ccontr)
    assume "Q e \<noteq> None"
    then obtain rs where "Q e = Some rs" by auto
    from L2_repr_disjoint [OF R Q this ne(1) [symmetric], of e] show False by simp
  qed
  moreover have "e \<notin> fst ` set rs" if "Q hp' = Some rs" "hp' \<noteq> hp" for hp' rs
    using L2_repr_disjoint [OF R Q that(1) that(2) [symmetric], of e] by force
  ultimately show ?thesis by (simp add: l2_free_def)
qed

interpretation l2: list_world L2_repr L2_add L2_add_head L2_delete L2_remove_head L2_next L2_EMPTY
proof unfold_locales
  fix h :: "('a, 'p) l2store" and Q hp e p ps
  assume R: "L2_repr h Q"
  show "l2_free Q e \<Longrightarrow> L2_delete h e = h"
    using L2_repr_free_self [OF R] L2_delete_noop by metis
  show "Q hp = Some [] \<Longrightarrow> L2_remove_head h hp = (None, h)"
    using l2_ring_EMPTY [OF L2_reprD(1) [OF R]] by (fastforce simp: L2_remove_head_def)
  show "L2_remove_head h hp = (Some p, L2_delete h e)" if Q: "Q hp = Some ((e, p) # ps)"
    using L2_remove_head_delete [of h hp e "map fst ps"] L2_reprD(1) [OF R Q] L2_reprD(2) [OF R Q, of e p]
    by simp
  show "Q hp = Some ps \<Longrightarrow> L2_EMPTY h hp \<longleftrightarrow> ps = []"
    using l2_ring_EMPTY [OF L2_reprD(1) [OF R]] by fastforce
qed (simp_all add: L2_add_repr L2_add_head_repr L2_delete_repr L2_next_head L2_next_elem L2_elem_free)


subsection \<open>Properties\<close>

text \<open>On a well-formed singly linked list \<open>L1_delete\<close> always returns (its search loop ends),
  unlinks the given element wherever it is, keeps head, tail and order of the others, changes no
  element's data, and is the identity on a list that does not hold the element.\<close>

theorem L1_delete_correct:
  assumes "L1_repr h lp xs"
  shows "\<exists>h' lp'. L1_delete h lp lep = Some (h', lp') \<and> L1_repr h' lp' (remove1 lep xs) \<and>
     (\<forall>x. le_datap (h' x) = le_datap (h x)) \<and>
     (L1_EMPTY lp' \<longleftrightarrow> remove1 lep xs = [])"
proof -
  from L1_delete_repr [OF assms, of lep] obtain h' lp' where
    "L1_delete h lp lep = Some (h', lp')" "L1_repr h' lp' (remove1 lep xs)"
    "\<forall>x. le_datap (h' x) = le_datap (h x)" by blast
  with L1_EMPTY_iff show ?thesis by blast
qed

definition l1_example :: "(nat, nat) l1store \<times> nat L1_t" where
  "l1_example = (let (h, lp) = L1_add (\<lambda>a. \<lparr>le_nextp = None, le_datap = None\<rparr>) L1HEADER_INIT 1 (Some 10);
                     (h, lp) = L1_add h lp 2 (Some 20)
                 in L1_add h lp 3 (Some 30))"

lemma l1_example_repr: "L1_repr (fst l1_example) (snd l1_example) [1, 2, 3]"
  by (simp add: l1_example_def L1_add_def L1HEADER_INIT_def L1_repr_def set_le_nextp_def)

theorem L1_delete_correct_witness:
  "\<exists>h' lp'. L1_delete (fst l1_example) (snd l1_example) 2 = Some (h', lp') \<and> L1_repr h' lp' [1, 3]"
  using L1_delete_correct [OF l1_example_repr, of 2] by auto

end
