(* ===== verification/Ghd_State.thy ===== *)
theory Ghd_State
  imports Ghd_Queue
begin

text \<open>
  The state of the generic HBA driver (\<open>ghd.h\<close>, \<open>ghd_waitq.h\<close>): the per-instance
  structure \<open>ccc_t\<close>, the per-device wait queues \<open>gdev_t\<close> and the commands \<open>gcmd_t\<close>.

  A command is a number, and so is a device. The list links of all of them live in one
  store: the headers of the HBA wait queue, of each device wait queue, of the done queue,
  of the local hold queue of \<open>ghd_poll\<close> and of the active (timer) list, and the two link
  fields \<open>cmd_q\<close> and \<open>cmd_timer_link\<close> of each command.
\<close>

datatype cmdstate_t =
    GCMD_STATE_IDLE
  | GCMD_STATE_WAITQ
  | GCMD_STATE_ACTIVE
  | GCMD_STATE_DONEQ
  | GCMD_STATE_ABORTING_CMD
  | GCMD_STATE_ABORTING_DEV
  | GCMD_STATE_RESETTING_DEV
  | GCMD_STATE_RESETTING_BUS
  | GCMD_STATE_HUNG

datatype gact_t =
    GACTION_EARLY_TIMEOUT
  | GACTION_EARLY_ABORT
  | GACTION_ABORT_CMD
  | GACTION_ABORT_DEV
  | GACTION_RESET_TARGET
  | GACTION_RESET_BUS
  | GACTION_INCOMPLETE

text \<open>Addresses of list elements: \<open>&cccp->ccc_waitq.Q_qhead\<close> and so on.\<close>

datatype qaddr =
    HbaQ
  | DevQ nat
  | DoneQ
  | HoldQ
  | ActiveL
  | CmdQ nat
  | TimerL nat

record gcmd_t =
  cmd_state :: cmdstate_t
  cmd_waitq_level :: nat
  cmd_flags :: u32
  cmd_start_time :: u64
  cmd_timeout :: u64
  cmd_gdev :: nat  \<comment> \<open>\<open>GCMDP2GDEVP\<close>: the device of the command's target instance\<close>

record gdev_t =
  gd_nactive :: int     \<comment> \<open>\<open>GDEV_NACTIVE\<close>\<close>
  gd_maxactive :: int   \<comment> \<open>\<open>GDEV_MAXACTIVE\<close>\<close>
  gd_ninstances :: nat

record 'hw ccc_t =
  ccc_l2 :: "(qaddr, nat) l2store"
  ccc_gcmd :: "nat \<Rightarrow> gcmd_t"
  ccc_gdev :: "nat \<Rightarrow> gdev_t"
  ccc_nactive :: int    \<comment> \<open>\<open>GHBA_NACTIVE\<close>\<close>
  ccc_maxactive :: int  \<comment> \<open>\<open>GHBA_MAXACTIVE\<close>\<close>
  ccc_waitq_held :: bool
  ccc_waitq_frozen :: bool
  ccc_waitq_freezetime :: int
  ccc_waitq_freezedelay :: u32
  ccc_timeout_pending :: bool
  ccc_hba_pollmode :: bool
  ccc_doneq_softintr :: nat  \<comment> \<open>how often \<open>ddi_trigger_softintr\<close> was called for the done queue\<close>
  ccc_hba :: 'hw             \<comment> \<open>the soft state behind \<open>ccc_hba_handle\<close>\<close>

definition upd_gcmd :: "nat \<Rightarrow> (gcmd_t \<Rightarrow> gcmd_t) \<Rightarrow> 'hw ccc_t \<Rightarrow> 'hw ccc_t" where
  "upd_gcmd g f c = c\<lparr>ccc_gcmd := (ccc_gcmd c)(g := f (ccc_gcmd c g))\<rparr>"

definition upd_gdev :: "nat \<Rightarrow> (gdev_t \<Rightarrow> gdev_t) \<Rightarrow> 'hw ccc_t \<Rightarrow> 'hw ccc_t" where
  "upd_gdev d f c = c\<lparr>ccc_gdev := (ccc_gdev c)(d := f (ccc_gdev c d))\<rparr>"

lemma upd_gcmd_simps [simp, wq_simps]:
  "ccc_gcmd (upd_gcmd g f c) = (ccc_gcmd c)(g := f (ccc_gcmd c g))"
  "ccc_l2 (upd_gcmd g f c) = ccc_l2 c" "ccc_gdev (upd_gcmd g f c) = ccc_gdev c"
  "ccc_nactive (upd_gcmd g f c) = ccc_nactive c" "ccc_maxactive (upd_gcmd g f c) = ccc_maxactive c"
  "ccc_waitq_held (upd_gcmd g f c) = ccc_waitq_held c"
  "ccc_waitq_frozen (upd_gcmd g f c) = ccc_waitq_frozen c"
  "ccc_waitq_freezetime (upd_gcmd g f c) = ccc_waitq_freezetime c"
  "ccc_waitq_freezedelay (upd_gcmd g f c) = ccc_waitq_freezedelay c"
  "ccc_hba_pollmode (upd_gcmd g f c) = ccc_hba_pollmode c"
  "ccc_hba (upd_gcmd g f c) = ccc_hba c"
  by (simp_all add: upd_gcmd_def)

lemma upd_gdev_simps [simp, wq_simps]:
  "ccc_gdev (upd_gdev d f' c) = (ccc_gdev c)(d := f' (ccc_gdev c d))"
  "ccc_l2 (upd_gdev d f' c) = ccc_l2 c" "ccc_gcmd (upd_gdev d f' c) = ccc_gcmd c"
  "ccc_nactive (upd_gdev d f' c) = ccc_nactive c" "ccc_maxactive (upd_gdev d f' c) = ccc_maxactive c"
  "ccc_waitq_held (upd_gdev d f' c) = ccc_waitq_held c"
  "ccc_waitq_frozen (upd_gdev d f' c) = ccc_waitq_frozen c"
  "ccc_waitq_freezetime (upd_gdev d f' c) = ccc_waitq_freezetime c"
  "ccc_waitq_freezedelay (upd_gdev d f' c) = ccc_waitq_freezedelay c"
  "ccc_hba_pollmode (upd_gdev d f' c) = ccc_hba_pollmode c"
  "ccc_hba (upd_gdev d f' c) = ccc_hba c"
  by (simp_all add: upd_gdev_def)

subsection \<open>Abstract contents of the queues\<close>

text \<open>
  What the links stand for: one list of commands per queue, in order, and the set of
  outstanding commands (submitted and not yet completed).
\<close>

record wq =
  wq_dev :: "nat \<Rightarrow> nat list"
  wq_hba :: "nat list"
  wq_done :: "nat list"
  wq_hold :: "nat list"
  wq_timer :: "nat list"
  wq_live :: "nat set"

abbreviation cq :: "nat \<Rightarrow> qaddr \<times> nat" where
  "cq g \<equiv> (CmdQ g, g)"

abbreviation tl_link :: "nat \<Rightarrow> qaddr \<times> nat" where
  "tl_link g \<equiv> (TimerL g, g)"

fun wq_content :: "wq \<Rightarrow> (qaddr, nat) l2content" where
  "wq_content A HbaQ = Some (map cq (wq_hba A))"
| "wq_content A (DevQ d) = Some (map cq (wq_dev A d))"
| "wq_content A DoneQ = Some (map cq (wq_done A))"
| "wq_content A HoldQ = Some (map cq (wq_hold A))"
| "wq_content A ActiveL = Some (map tl_link (wq_timer A))"
| "wq_content A (CmdQ g) = None"
| "wq_content A (TimerL g) = None"

definition wq_repr :: "'hw ccc_t \<Rightarrow> wq \<Rightarrow> bool" where
  "wq_repr c A \<longleftrightarrow> L2_repr (ccc_l2 c) (wq_content A)"

text \<open>A command is queued when its \<open>cmd_q\<close> link is on one of the four queues.\<close>

definition wq_queued :: "wq \<Rightarrow> nat \<Rightarrow> bool" where
  "wq_queued A g \<longleftrightarrow> g \<in> set (wq_hba A) \<or> (\<exists>d. g \<in> set (wq_dev A d)) \<or>
     g \<in> set (wq_done A) \<or> g \<in> set (wq_hold A)"

lemma wq_content_upd:
  "(wq_content A)(HbaQ \<mapsto> map cq xs) = wq_content (A\<lparr>wq_hba := xs\<rparr>)"
  "(wq_content A)(DevQ d \<mapsto> map cq xs) = wq_content (A\<lparr>wq_dev := (wq_dev A)(d := xs)\<rparr>)"
  "(wq_content A)(DoneQ \<mapsto> map cq xs) = wq_content (A\<lparr>wq_done := xs\<rparr>)"
  "(wq_content A)(HoldQ \<mapsto> map cq xs) = wq_content (A\<lparr>wq_hold := xs\<rparr>)"
  "(wq_content A)(ActiveL \<mapsto> map tl_link xs) = wq_content (A\<lparr>wq_timer := xs\<rparr>)"
proof -
  have eq: "f = g" if "\<And>a. f a = g a" for f g :: "(qaddr, nat) l2content" using that by auto
  show "(wq_content A)(HbaQ \<mapsto> map cq xs) = wq_content (A\<lparr>wq_hba := xs\<rparr>)"
    by (rule eq, case_tac a) auto
  show "(wq_content A)(DevQ d \<mapsto> map cq xs) = wq_content (A\<lparr>wq_dev := (wq_dev A)(d := xs)\<rparr>)"
    by (rule eq, case_tac a) auto
  show "(wq_content A)(DoneQ \<mapsto> map cq xs) = wq_content (A\<lparr>wq_done := xs\<rparr>)"
    by (rule eq, case_tac a) auto
  show "(wq_content A)(HoldQ \<mapsto> map cq xs) = wq_content (A\<lparr>wq_hold := xs\<rparr>)"
    by (rule eq, case_tac a) auto
  show "(wq_content A)(ActiveL \<mapsto> map tl_link xs) = wq_content (A\<lparr>wq_timer := xs\<rparr>)"
    by (rule eq, case_tac a) auto
qed

lemma wq_free_cmd: "l2_free (wq_content A) (CmdQ g) \<longleftrightarrow> \<not> wq_queued A g"
proof
  assume free: "l2_free (wq_content A) (CmdQ g)"
  have "CmdQ g \<notin> fst ` set ps" if "wq_content A hp = Some ps" for hp ps
    using free that by (auto simp: l2_free_def)
  note nin = this
  have "g \<notin> set (wq_dev A d)" for d using nin [of "DevQ d"] by (auto simp: image_iff)
  with nin [of HbaQ] nin [of DoneQ] nin [of HoldQ] show "\<not> wq_queued A g"
    by (auto simp: wq_queued_def image_iff)
next
  assume "\<not> wq_queued A g"
  moreover have "CmdQ g \<notin> fst ` set ps" if "wq_content A hp = Some ps" "\<not> wq_queued A g" for hp ps
    using that by (cases hp) (auto simp: wq_queued_def)
  ultimately show "l2_free (wq_content A) (CmdQ g)" by (simp add: l2_free_def)
qed

lemma wq_free_timer: "l2_free (wq_content A) (TimerL g) \<longleftrightarrow> g \<notin> set (wq_timer A)"
proof
  assume free: "l2_free (wq_content A) (TimerL g)"
  have "TimerL g \<notin> fst ` set ps" if "wq_content A hp = Some ps" for hp ps
    using free that by (auto simp: l2_free_def)
  from this [of ActiveL] show "g \<notin> set (wq_timer A)" by (auto simp: image_iff)
next
  assume "g \<notin> set (wq_timer A)"
  moreover have "TimerL g \<notin> fst ` set ps" if "wq_content A hp = Some ps" "g \<notin> set (wq_timer A)" for hp ps
    using that by (cases hp) auto
  ultimately show "l2_free (wq_content A) (TimerL g)" by (simp add: l2_free_def)
qed

lemma wq_repr_distinct:
  assumes "wq_repr c A"
  shows "distinct (wq_hba A)" "distinct (wq_dev A d)" "distinct (wq_done A)" "distinct (wq_hold A)"
    "distinct (wq_timer A)"
proof -
  have d: "wq_content A hp = Some ps \<Longrightarrow> distinct (map fst ps)" for hp ps
    using L2_elems_distinct [of "ccc_l2 c" "wq_content A" hp ps] assms by (simp add: wq_repr_def)
  show "distinct (wq_hba A)" "distinct (wq_dev A d)" "distinct (wq_done A)" "distinct (wq_hold A)"
    "distinct (wq_timer A)"
    using d [of HbaQ] d [of "DevQ d"] d [of DoneQ] d [of HoldQ] d [of ActiveL]
    by (auto simp: distinct_map)
qed

text \<open>The list operations at the level of the queues.\<close>

lemma wq_repr_split:
  "wq_repr c A \<Longrightarrow> wq_content A hp = Some (map cq xs) \<Longrightarrow> g \<in> set xs \<Longrightarrow>
   \<exists>ys zs. xs = ys @ g # zs \<and> remove1 g xs = ys @ zs"
  by (metis remove1.simps(2) remove1_append split_list_first)

lemma wq_delete:
  assumes R: "wq_repr c A" and hp: "wq_content A hp = Some (map cq xs)" and g: "g \<in> set xs"
  shows "L2_repr (L2_delete (ccc_l2 c) (CmdQ g)) ((wq_content A)(hp \<mapsto> map cq (remove1 g xs)))"
proof -
  obtain ys zs where xs: "xs = ys @ g # zs" "remove1 g xs = ys @ zs"
    using wq_repr_split [OF R hp g] by blast
  show ?thesis
    using l2.delete_linked [of "ccc_l2 c" "wq_content A" hp "map cq ys" "CmdQ g" g "map cq zs"] R hp xs
    by (simp add: wq_repr_def)
qed

lemma wq_delete_unqueued:
  assumes "wq_repr c A" and "\<not> wq_queued A g"
  shows "L2_delete (ccc_l2 c) (CmdQ g) = ccc_l2 c"
  using l2.delete_free [of "ccc_l2 c" "wq_content A" "CmdQ g"] assms
  by (simp add: wq_repr_def wq_free_cmd)

lemma wq_add:
  assumes "wq_repr c A" and "wq_content A hp = Some (map cq xs)" and "\<not> wq_queued A g"
  shows "L2_repr (L2_add (ccc_l2 c) hp (CmdQ g) g) ((wq_content A)(hp \<mapsto> map cq (xs @ [g])))"
    and "L2_repr (L2_add_head (ccc_l2 c) hp (CmdQ g) g) ((wq_content A)(hp \<mapsto> map cq (g # xs)))"
proof -
  have R: "L2_repr (ccc_l2 c) (wq_content A)" and free: "l2_free (wq_content A) (CmdQ g)"
    using assms by (simp_all add: wq_repr_def wq_free_cmd)
  show "L2_repr (L2_add (ccc_l2 c) hp (CmdQ g) g) ((wq_content A)(hp \<mapsto> map cq (xs @ [g])))"
    using l2.add [OF R assms(2) free, of g] by simp
  show "L2_repr (L2_add_head (ccc_l2 c) hp (CmdQ g) g) ((wq_content A)(hp \<mapsto> map cq (g # xs)))"
    using l2.add_head [OF R assms(2) free, of g] by simp
qed

lemma wq_done_hold:
  assumes "wq_repr c A" and "g \<in> set (wq_done A)"
  shows "g \<notin> set (wq_hold A)"
proof
  assume "g \<in> set (wq_hold A)"
  with assms show False
    using L2_repr_disjoint [of "ccc_l2 c" "wq_content A" DoneQ "map cq (wq_done A)" HoldQ
        "map cq (wq_hold A)" "CmdQ g"] by (auto simp: wq_repr_def image_iff)
qed

end
