(* ===== verification/Ghd_Waitq.thy ===== *)
theory Ghd_Waitq
  imports Ghd_State
begin

text \<open>
  The two-level wait queues, \<open>ghd_waitq.c\<close>: requests wait on their device's queue
  (\<open>cmd_waitq_level\<close> 1), are promoted to the HBA queue (level 2) within the device's
  \<open>maxactive\<close> throttle, and are started (level 3) within the HBA's.

  Both loops of the file are \<open>partial_function\<close>s: the result \<open>None\<close> is "does not return".
\<close>

subsection \<open>The operations\<close>

partial_function (option) sol11ghd_waitq_shuffle_up :: "'hw ccc_t \<Rightarrow> nat \<Rightarrow> 'hw ccc_t option" where
  "sol11ghd_waitq_shuffle_up c d =
    (if gd_maxactive (ccc_gdev c d) \<le> gd_nactive (ccc_gdev c d) then Some c
     else if 1 < gd_ninstances (ccc_gdev c d) \<and> 0 < gd_nactive (ccc_gdev c d) then Some c
     else (case L2_remove_head (ccc_l2 c) (DevQ d) of
        (None, h) \<Rightarrow> Some (c\<lparr>ccc_l2 := h\<rparr>)
      | (Some g, h) \<Rightarrow>
          (let c = c\<lparr>ccc_l2 := L2_add h HbaQ (CmdQ g) g\<rparr>;
               c = upd_gdev d (\<lambda>q. q\<lparr>gd_nactive := gd_nactive q + 1\<rparr>) c;
               c = upd_gcmd g (\<lambda>r. r\<lparr>cmd_waitq_level := Suc (cmd_waitq_level r)\<rparr>) c
           in sol11ghd_waitq_shuffle_up c d)))"

definition sol11ghd_waitq_delete :: "'hw ccc_t \<Rightarrow> nat \<Rightarrow> 'hw ccc_t option" where
  "sol11ghd_waitq_delete c g =
    (let d = cmd_gdev (ccc_gcmd c g);
         lvl = cmd_waitq_level (ccc_gcmd c g);
         c = (if lvl = 1 then c\<lparr>ccc_l2 := L2_delete (ccc_l2 c) (CmdQ g)\<rparr>
              else if lvl = 2 then
                upd_gdev d (\<lambda>q. q\<lparr>gd_nactive := gd_nactive q - 1\<rparr>)
                  (c\<lparr>ccc_l2 := L2_delete (ccc_l2 c) (CmdQ g)\<rparr>)
              else if lvl = 3 then
                (upd_gdev d (\<lambda>q. q\<lparr>gd_nactive := gd_nactive q - 1\<rparr>) c)
                  \<lparr>ccc_nactive := ccc_nactive c - 1\<rparr>
              else c)
     in sol11ghd_waitq_shuffle_up c d)"


subsection \<open>The invariant of the wait queues\<close>

text \<open>
  The level of an outstanding command says which queue holds it, and the two kinds of
  counters count the commands past each throttle. \<open>wq_live\<close> is the set of commands that
  were queued by \<open>sol11ghd_transport\<close> and not yet taken out by \<open>sol11ghd_waitq_delete\<close>
  (the code does not reset the level, so the level alone does not tell).
\<close>

definition wq_past_dev :: "(nat \<Rightarrow> gcmd_t) \<Rightarrow> wq \<Rightarrow> nat \<Rightarrow> nat set" where
  "wq_past_dev gc A d = {g \<in> wq_live A. cmd_gdev (gc g) = d \<and> 2 \<le> cmd_waitq_level (gc g)}"

definition wq_past_hba :: "(nat \<Rightarrow> gcmd_t) \<Rightarrow> wq \<Rightarrow> nat set" where
  "wq_past_hba gc A = {g \<in> wq_live A. cmd_waitq_level (gc g) = 3}"

definition wq_levels :: "(nat \<Rightarrow> gcmd_t) \<Rightarrow> wq \<Rightarrow> bool" where
  "wq_levels gc A \<longleftrightarrow>
     (\<forall>g\<in>wq_live A. cmd_waitq_level (gc g) \<in> {1, 2, 3}) \<and>
     (\<forall>d g. g \<in> set (wq_dev A d) \<longleftrightarrow>
        g \<in> wq_live A \<and> cmd_waitq_level (gc g) = 1 \<and> cmd_gdev (gc g) = d) \<and>
     (\<forall>g. g \<in> set (wq_hba A) \<longleftrightarrow> g \<in> wq_live A \<and> cmd_waitq_level (gc g) = 2) \<and>
     (\<forall>g. g \<in> set (wq_done A) \<or> g \<in> set (wq_hold A) \<longrightarrow> g \<notin> wq_live A)"

definition wq_counts :: "(nat \<Rightarrow> gcmd_t) \<Rightarrow> (nat \<Rightarrow> gdev_t) \<Rightarrow> int \<Rightarrow> wq \<Rightarrow> bool" where
  "wq_counts gc gd n A \<longleftrightarrow> finite (wq_live A) \<and>
     (\<forall>d. gd_nactive (gd d) = int (card (wq_past_dev gc A d))) \<and>
     n = int (card (wq_past_hba gc A))"

definition wq_inv :: "'hw ccc_t \<Rightarrow> wq \<Rightarrow> bool" where
  "wq_inv c A \<longleftrightarrow> wq_repr c A \<and> wq_levels (ccc_gcmd c) A \<and>
     wq_counts (ccc_gcmd c) (ccc_gdev c) (ccc_nactive c) A"

lemma wq_inv_levels: "wq_inv c A \<Longrightarrow> wq_levels (ccc_gcmd c) A"
  and wq_inv_counts: "wq_inv c A \<Longrightarrow> wq_counts (ccc_gcmd c) (ccc_gdev c) (ccc_nactive c) A"
  and wq_inv_repr: "wq_inv c A \<Longrightarrow> wq_repr c A"
  by (simp_all add: wq_inv_def)

lemma wq_levels_devD: "wq_levels gc A \<Longrightarrow> g \<in> set (wq_dev A d) \<Longrightarrow>
    g \<in> wq_live A \<and> cmd_waitq_level (gc g) = 1 \<and> cmd_gdev (gc g) = d"
  and wq_levels_hbaD: "wq_levels gc A \<Longrightarrow> g \<in> set (wq_hba A) \<Longrightarrow>
    g \<in> wq_live A \<and> cmd_waitq_level (gc g) = 2"
  by (simp_all add: wq_levels_def)

text \<open>An outstanding command that is not on a device or HBA queue is active, and conversely.\<close>

lemma wq_live_queued:
  assumes "wq_levels gc A" "g \<in> wq_live A"
  shows "wq_queued A g \<longleftrightarrow> cmd_waitq_level (gc g) \<noteq> 3"
  using assms by (fastforce simp: wq_levels_def wq_queued_def)

subsection \<open>Promotion from the device queue\<close>

text \<open>The specification: how many requests move, and which.\<close>

definition shuffle_quota :: "gdev_t \<Rightarrow> nat \<Rightarrow> nat" where
  "shuffle_quota q len =
    (if 1 < gd_ninstances q
     then (if gd_maxactive q \<le> gd_nactive q \<or> 0 < gd_nactive q then 0 else min 1 len)
     else min len (nat (gd_maxactive q - gd_nactive q)))"

lemma shuffle_quota_bound:
  "gd_nactive q + int (shuffle_quota q len) \<le> max (gd_nactive q) (gd_maxactive q)"
  by (auto simp: shuffle_quota_def)

lemma shuffle_quota_len: "shuffle_quota q len \<le> len"
  by (simp add: shuffle_quota_def)

definition wq_promote :: "wq \<Rightarrow> nat \<Rightarrow> nat \<Rightarrow> wq" where
  "wq_promote A d k = A\<lparr>wq_dev := (wq_dev A)(d := drop k (wq_dev A d)),
                        wq_hba := wq_hba A @ take k (wq_dev A d)\<rparr>"

lemma wq_promote_0 [simp]: "wq_promote A d 0 = A"
  by (simp add: wq_promote_def)

lemma wq_promote_live [simp]: "wq_live (wq_promote A d k) = wq_live A"
  by (simp add: wq_promote_def)

lemma wq_promote_Suc:
  "wq_dev A d = g # xs \<Longrightarrow>
   wq_promote A d (Suc k) = wq_promote (wq_promote A d 1) d k"
  by (simp add: wq_promote_def)

definition wq_promote1 :: "'hw ccc_t \<Rightarrow> nat \<Rightarrow> nat \<Rightarrow> 'hw ccc_t" where
  "wq_promote1 c d g =
     upd_gcmd g (\<lambda>r. r\<lparr>cmd_waitq_level := Suc (cmd_waitq_level r)\<rparr>)
       (upd_gdev d (\<lambda>q. q\<lparr>gd_nactive := gd_nactive q + 1\<rparr>)
         (c\<lparr>ccc_l2 := L2_add (L2_delete (ccc_l2 c) (CmdQ g)) HbaQ (CmdQ g) g\<rparr>))"

lemma wq_promote1_inv:
  assumes inv: "wq_inv c A" and xs: "wq_dev A d = g # xs"
  shows "wq_inv (wq_promote1 c d g) (wq_promote A d 1)"
proof -
  let ?gc = "ccc_gcmd (wq_promote1 c d g)" and ?A = "wq_promote A d 1"
  have L: "wq_levels (ccc_gcmd c) A" and C: "wq_counts (ccc_gcmd c) (ccc_gdev c) (ccc_nactive c) A"
    and R: "wq_repr c A"
    using inv by (simp_all add: wq_inv_def)
  have g: "g \<in> wq_live A" "cmd_waitq_level (ccc_gcmd c g) = 1" "cmd_gdev (ccc_gcmd c g) = d"
    using wq_levels_devD [OF L, of g d] xs by simp_all
  have nx: "g \<notin> set xs" using wq_repr_distinct(2) [OF R, of d] xs by simp
  have gc: "cmd_waitq_level (?gc h) = (if h = g then 2 else cmd_waitq_level (ccc_gcmd c h))"
    "cmd_gdev (?gc h) = cmd_gdev (ccc_gcmd c h)" for h
    using g by (simp_all add: wq_promote1_def)
  have mem: "h \<in> set xs \<longleftrightarrow> h \<in> wq_live A \<and> cmd_waitq_level (ccc_gcmd c h) = 1 \<and>
      cmd_gdev (ccc_gcmd c h) = d \<and> h \<noteq> g" for h
    using L nx xs unfolding wq_levels_def by (metis set_ConsD list.set_intros(2))
  have "wq_levels ?gc ?A"
    using L xs g unfolding wq_levels_def gc wq_promote_def
    by (simp add: mem)
  moreover have "wq_past_dev ?gc ?A d' =
      (if d' = d then insert g (wq_past_dev (ccc_gcmd c) A d) else wq_past_dev (ccc_gcmd c) A d')" for d'
    using g by (auto simp: wq_past_dev_def gc)
  moreover have "wq_past_hba ?gc ?A = wq_past_hba (ccc_gcmd c) A"
    using g by (auto simp: wq_past_hba_def gc)
  moreover have "g \<notin> wq_past_dev (ccc_gcmd c) A d" using g by (simp add: wq_past_dev_def)
  moreover have "finite (wq_past_dev (ccc_gcmd c) A d)"
    using C by (simp add: wq_counts_def wq_past_dev_def)
  ultimately have "wq_levels ?gc ?A \<and>
      wq_counts ?gc (ccc_gdev (wq_promote1 c d g)) (ccc_nactive (wq_promote1 c d g)) ?A"
    using C by (simp add: wq_counts_def) (simp add: wq_promote1_def)
  moreover have "wq_repr (wq_promote1 c d g) ?A"
  proof -
    have "L2_repr (L2_add (L2_delete (ccc_l2 c) (CmdQ g)) HbaQ (CmdQ g) g)
        ((wq_content A)(DevQ d \<mapsto> map cq xs, HbaQ \<mapsto> map cq (wq_hba A @ [g])))"
      using l2.move_head [of "ccc_l2 c" "wq_content A" "DevQ d" "CmdQ g" g "map cq xs" HbaQ
          "map cq (wq_hba A)"] R xs by (simp add: wq_repr_def)
    then show ?thesis
      by (simp only: wq_content_upd) (simp add: wq_repr_def wq_promote1_def wq_promote_def xs)
  qed
  ultimately show ?thesis by (simp add: wq_inv_def)
qed

lemma wq_remove_dev:
  assumes "wq_repr c A"
  shows "L2_remove_head (ccc_l2 c) (DevQ d) =
     (case wq_dev A d of [] \<Rightarrow> (None, ccc_l2 c) | g # _ \<Rightarrow> (Some g, L2_delete (ccc_l2 c) (CmdQ g)))"
  using assms l2.remove_head_empty [of "ccc_l2 c" "wq_content A" "DevQ d"]
    l2.remove_head_cons [of "ccc_l2 c" "wq_content A" "DevQ d"]
  by (cases "wq_dev A d") (simp_all add: wq_repr_def)

lemma wq_remove_hba:
  assumes "wq_repr c A"
  shows "L2_remove_head (ccc_l2 c) HbaQ =
     (case wq_hba A of [] \<Rightarrow> (None, ccc_l2 c) | g # _ \<Rightarrow> (Some g, L2_delete (ccc_l2 c) (CmdQ g)))"
  using assms l2.remove_head_empty [of "ccc_l2 c" "wq_content A" HbaQ]
    l2.remove_head_cons [of "ccc_l2 c" "wq_content A" HbaQ]
  by (cases "wq_hba A") (simp_all add: wq_repr_def)

lemma wq_nactive_nonneg: "wq_inv c A \<Longrightarrow> 0 \<le> gd_nactive (ccc_gdev c d)"
  by (simp add: wq_inv_def wq_counts_def)

text \<open>What one call leaves alone, and what it does to the commands and the device counter.\<close>

definition shuffle_frame :: "'hw ccc_t \<Rightarrow> 'hw ccc_t \<Rightarrow> nat \<Rightarrow> nat list \<Rightarrow> bool" where
  "shuffle_frame c c' d gs \<longleftrightarrow>
     c' = c\<lparr>ccc_l2 := ccc_l2 c', ccc_gcmd := ccc_gcmd c', ccc_gdev := ccc_gdev c'\<rparr> \<and>
     ccc_gdev c' = (ccc_gdev c)(d := (ccc_gdev c d)
        \<lparr>gd_nactive := gd_nactive (ccc_gdev c d) + int (length gs)\<rparr>) \<and>
     (\<forall>g. ccc_gcmd c' g = (if g \<in> set gs then (ccc_gcmd c g)\<lparr>cmd_waitq_level := 2\<rparr> else ccc_gcmd c g))"

lemma shuffle_frameD:
  assumes "shuffle_frame c c' d gs"
  shows "ccc_nactive c' = ccc_nactive c" "ccc_maxactive c' = ccc_maxactive c"
    "ccc_waitq_held c' = ccc_waitq_held c" "ccc_waitq_frozen c' = ccc_waitq_frozen c"
    "ccc_hba c' = ccc_hba c" "ccc_hba_pollmode c' = ccc_hba_pollmode c"
    "ccc_doneq_softintr c' = ccc_doneq_softintr c"
    "cmd_state (ccc_gcmd c' g) = cmd_state (ccc_gcmd c g)"
    "cmd_gdev (ccc_gcmd c' g) = cmd_gdev (ccc_gcmd c g)"
    "gd_maxactive (ccc_gdev c' d') = gd_maxactive (ccc_gdev c d')"
    "gd_ninstances (ccc_gdev c' d') = gd_ninstances (ccc_gdev c d')"
proof -
  have eq: "c' = c\<lparr>ccc_l2 := ccc_l2 c', ccc_gcmd := ccc_gcmd c', ccc_gdev := ccc_gdev c'\<rparr>"
    using assms unfolding shuffle_frame_def by blast
  show "ccc_nactive c' = ccc_nactive c" by (subst eq) simp
  show "ccc_maxactive c' = ccc_maxactive c" by (subst eq) simp
  show "ccc_waitq_held c' = ccc_waitq_held c" by (subst eq) simp
  show "ccc_waitq_frozen c' = ccc_waitq_frozen c" by (subst eq) simp
  show "ccc_hba c' = ccc_hba c" by (subst eq) simp
  show "ccc_hba_pollmode c' = ccc_hba_pollmode c" by (subst eq) simp
  show "ccc_doneq_softintr c' = ccc_doneq_softintr c" by (subst eq) simp
  show "cmd_state (ccc_gcmd c' g) = cmd_state (ccc_gcmd c g)"
    "cmd_gdev (ccc_gcmd c' g) = cmd_gdev (ccc_gcmd c g)"
    "gd_maxactive (ccc_gdev c' d') = gd_maxactive (ccc_gdev c d')"
    "gd_ninstances (ccc_gdev c' d') = gd_ninstances (ccc_gdev c d')"
    using assms by (simp_all add: shuffle_frame_def)
qed

lemma shuffle_frame_refl [simp]: "shuffle_frame c c d []"
  by (simp add: shuffle_frame_def)

lemma shuffle_frame_Cons:
  assumes "shuffle_frame (wq_promote1 c d g) c' d gs" "cmd_waitq_level (ccc_gcmd c g) = 1"
    and "g \<notin> set gs"
  shows "shuffle_frame c c' d (g # gs)"
proof -
  obtain l b e where eq: "wq_promote1 c d g = c\<lparr>ccc_l2 := l, ccc_gdev := e, ccc_gcmd := b\<rparr>"
    by (simp add: wq_promote1_def upd_gcmd_def upd_gdev_def)
  have "c' = (wq_promote1 c d g)\<lparr>ccc_l2 := ccc_l2 c', ccc_gcmd := ccc_gcmd c', ccc_gdev := ccc_gdev c'\<rparr>"
    using assms(1) unfolding shuffle_frame_def by blast
  then have "c' = c\<lparr>ccc_l2 := ccc_l2 c', ccc_gcmd := ccc_gcmd c', ccc_gdev := ccc_gdev c'\<rparr>"
    unfolding eq by simp
  with assms show ?thesis by (simp add: shuffle_frame_def wq_promote1_def add.assoc)
qed

lemma shuffle_up_spec:
  assumes "wq_inv c A" and "k = shuffle_quota (ccc_gdev c d) (length (wq_dev A d))"
  shows "\<exists>c'. sol11ghd_waitq_shuffle_up c d = Some c' \<and> wq_inv c' (wq_promote A d k) \<and>
           shuffle_frame c c' d (take k (wq_dev A d))"
  using assms
proof (induction "wq_dev A d" arbitrary: c A k)
  case Nil
  then have "sol11ghd_waitq_shuffle_up c d = Some c"
    by (subst sol11ghd_waitq_shuffle_up.simps) (simp add: wq_remove_dev [OF wq_inv_repr])
  with Nil show ?case by (simp add: shuffle_quota_def split: if_splits)
next
  case (Cons g xs)
  let ?q = "ccc_gdev c d" and ?c = "wq_promote1 c d g" and ?A = "wq_promote A d 1"
  have g: "cmd_waitq_level (ccc_gcmd c g) = 1"
    using wq_levels_devD [OF wq_inv_levels [OF Cons.prems(1)], of g d] Cons.hyps(2) by (metis list.set_intros(1))
  have nx: "g \<notin> set xs" 
    using wq_repr_distinct(2) [OF wq_inv_repr [OF Cons.prems(1)], of d] Cons.hyps(2) by (metis distinct.simps(2))
  note xs = Cons.hyps(2) [symmetric]
  note nn = wq_nactive_nonneg [OF Cons.prems(1), of d]
  show ?case
  proof (cases "gd_maxactive ?q \<le> gd_nactive ?q \<or> (1 < gd_ninstances ?q \<and> 0 < gd_nactive ?q)")
    case True
    then have "sol11ghd_waitq_shuffle_up c d = Some c"
      by (subst sol11ghd_waitq_shuffle_up.simps) auto
    moreover have "k = 0" using True Cons.prems(2) by (auto simp: shuffle_quota_def)
    ultimately show ?thesis using Cons.prems(1) by simp
  next
    case False
    have step: "sol11ghd_waitq_shuffle_up c d = sol11ghd_waitq_shuffle_up ?c d"
      using False by (subst sol11ghd_waitq_shuffle_up.simps)
        (auto simp: wq_remove_dev [OF wq_inv_repr [OF Cons.prems(1)]] xs wq_promote1_def Let_def)
    have inv: "wq_inv ?c ?A" using wq_promote1_inv [OF Cons.prems(1) xs] .
    have dev: "xs = wq_dev ?A d" using xs by (simp add: wq_promote_def)
    define k' where "k' = shuffle_quota (ccc_gdev ?c d) (length (wq_dev ?A d))"
    have k: "k = Suc k'"
      using Cons.prems(2) False nn unfolding k'_def dev [symmetric] xs
      by (auto simp: shuffle_quota_def wq_promote1_def)
    from Cons.hyps(1) [OF dev inv k'_def] obtain c' where
      c': "sol11ghd_waitq_shuffle_up ?c d = Some c'" "wq_inv c' (wq_promote ?A d k')"
      "shuffle_frame ?c c' d (take k' (wq_dev ?A d))" by blast
    have "shuffle_frame c c' d (take k (wq_dev A d))"
      using shuffle_frame_Cons [OF c'(3) g] nx dev [symmetric] xs k by (metis in_set_takeD take_Suc_Cons)
    with c' step k show ?thesis by (metis wq_promote_Suc [OF xs])
  qed
qed


subsection \<open>Taking a command out of the wait queues\<close>

definition wq_remove :: "wq \<Rightarrow> nat \<Rightarrow> wq" where
  "wq_remove A g = A\<lparr>wq_dev := (\<lambda>d. remove1 g (wq_dev A d)), wq_hba := remove1 g (wq_hba A),
                     wq_live := wq_live A - {g}\<rparr>"

definition wq_del1 :: "'hw ccc_t \<Rightarrow> nat \<Rightarrow> 'hw ccc_t" where
  "wq_del1 c g =
    (let d = cmd_gdev (ccc_gcmd c g); lvl = cmd_waitq_level (ccc_gcmd c g)
     in c\<lparr>ccc_l2 := (if lvl = 3 then ccc_l2 c else L2_delete (ccc_l2 c) (CmdQ g)),
          ccc_gdev := (if lvl = 1 then ccc_gdev c else (ccc_gdev c)
             (d := (ccc_gdev c d)\<lparr>gd_nactive := gd_nactive (ccc_gdev c d) - 1\<rparr>)),
          ccc_nactive := (if lvl = 3 then ccc_nactive c - 1 else ccc_nactive c)\<rparr>)"

lemma waitq_delete_eq:
  assumes "cmd_waitq_level (ccc_gcmd c g) \<in> {1, 2, 3}"
  shows "sol11ghd_waitq_delete c g =
         sol11ghd_waitq_shuffle_up (wq_del1 c g) (cmd_gdev (ccc_gcmd c g))"
  using assms by (auto simp: sol11ghd_waitq_delete_def wq_del1_def Let_def upd_gdev_def)

lemma wq_content_remove1_dev:
  assumes "\<And>d'. d' \<noteq> d \<Longrightarrow> g \<notin> set (wq_dev A d')" "g \<notin> set (wq_hba A)"
  shows "(wq_content A)(DevQ d \<mapsto> map cq (remove1 g (wq_dev A d))) = wq_content (wq_remove A g)"
proof
  fix a
  show "((wq_content A)(DevQ d \<mapsto> map cq (remove1 g (wq_dev A d)))) a = wq_content (wq_remove A g) a"
    using assms by (cases a) (auto simp: wq_remove_def remove1_idem)
qed

lemma wq_content_remove1_hba:
  assumes "\<And>d'. g \<notin> set (wq_dev A d')"
  shows "(wq_content A)(HbaQ \<mapsto> map cq (remove1 g (wq_hba A))) = wq_content (wq_remove A g)"
proof
  fix a
  show "((wq_content A)(HbaQ \<mapsto> map cq (remove1 g (wq_hba A)))) a = wq_content (wq_remove A g) a"
    using assms by (cases a) (auto simp: wq_remove_def remove1_idem)
qed

lemma wq_content_remove_none:
  assumes "\<And>d'. g \<notin> set (wq_dev A d')" "g \<notin> set (wq_hba A)"
  shows "wq_content (wq_remove A g) = wq_content A"
proof
  fix a
  show "wq_content (wq_remove A g) a = wq_content A a"
    using assms by (cases a) (auto simp: wq_remove_def remove1_idem)
qed

lemma wq_del1_repr:
  assumes R: "wq_repr c A" and L: "wq_levels (ccc_gcmd c) A" and g: "g \<in> wq_live A"
  shows "wq_repr (wq_del1 c g) (wq_remove A g)"
proof -
  let ?d = "cmd_gdev (ccc_gcmd c g)" and ?l = "cmd_waitq_level (ccc_gcmd c g)"
  have dev: "g \<in> set (wq_dev A d') \<longleftrightarrow> ?l = 1 \<and> ?d = d'" for d'
    using L g by (simp add: wq_levels_def)
  have hba: "g \<in> set (wq_hba A) \<longleftrightarrow> ?l = 2" using L g by (simp add: wq_levels_def)
  consider "?l = 1" | "?l = 2" | "?l = 3" using L g by (auto simp: wq_levels_def)
  then show ?thesis
  proof cases
    case 1
    then have "L2_repr (L2_delete (ccc_l2 c) (CmdQ g)) (wq_content (wq_remove A g))"
      using wq_delete [OF R, of "DevQ ?d" "wq_dev A ?d" g] dev hba wq_content_remove1_dev [of ?d g A] by simp
    with 1 show ?thesis by (simp add: wq_repr_def wq_del1_def Let_def)
  next
    case 2
    then have "L2_repr (L2_delete (ccc_l2 c) (CmdQ g)) (wq_content (wq_remove A g))"
      using wq_delete [OF R, of HbaQ "wq_hba A" g] dev hba wq_content_remove1_hba [of g A] by simp
    with 2 show ?thesis by (simp add: wq_repr_def wq_del1_def Let_def)
  next
    case 3
    with R show ?thesis using wq_content_remove_none [of g A] dev hba
      by (simp add: wq_repr_def wq_del1_def Let_def)
  qed
qed

lemma wq_del1_inv:
  assumes inv: "wq_inv c A" and g: "g \<in> wq_live A"
  shows "wq_inv (wq_del1 c g) (wq_remove A g)"
proof -
  let ?gc = "ccc_gcmd c" and ?A = "wq_remove A g"
  note R = wq_inv_repr [OF inv] and L = wq_inv_levels [OF inv]
  have C: "wq_counts ?gc (ccc_gdev c) (ccc_nactive c) A" by (rule wq_inv_counts [OF inv])
  have gc: "ccc_gcmd (wq_del1 c g) = ?gc" by (simp add: wq_del1_def Let_def)
  have "wq_levels ?gc ?A"
    using L wq_repr_distinct(1) [OF R] wq_repr_distinct(2) [OF R] g
    by (auto simp: wq_levels_def wq_remove_def)
  moreover have "wq_past_dev ?gc ?A d = wq_past_dev ?gc A d - {g}" for d
    by (auto simp: wq_past_dev_def wq_remove_def)
  moreover have "wq_past_hba ?gc ?A = wq_past_hba ?gc A - {g}"
    by (auto simp: wq_past_hba_def wq_remove_def)
  moreover have "finite (wq_past_dev ?gc A d)" "finite (wq_past_hba ?gc A)" for d
    using C by (simp_all add: wq_counts_def wq_past_dev_def wq_past_hba_def)
  moreover have "finite (wq_live ?A)" using C by (simp add: wq_counts_def wq_remove_def)
  moreover have "g \<in> wq_past_dev ?gc A d \<longleftrightarrow> cmd_gdev (?gc g) = d \<and> cmd_waitq_level (?gc g) \<noteq> 1"
    "g \<in> wq_past_hba ?gc A \<longleftrightarrow> cmd_waitq_level (?gc g) = 3" for d
    using L g by (auto simp: wq_past_dev_def wq_past_hba_def wq_levels_def)
  ultimately show ?thesis
    using C wq_del1_repr [OF R L g] unfolding wq_inv_def gc wq_counts_def
    by (simp add: int_card_remove wq_del1_def Let_def)
qed

lemma waitq_delete_spec:
  assumes inv: "wq_inv c A" and g: "g \<in> wq_live A"
  defines "d \<equiv> cmd_gdev (ccc_gcmd c g)"
  defines "B \<equiv> wq_remove A g"
  defines "k \<equiv> shuffle_quota (ccc_gdev (wq_del1 c g) d) (length (wq_dev B d))"
  shows "\<exists>c'. sol11ghd_waitq_delete c g = Some c' \<and> wq_inv c' (wq_promote B d k) \<and>
           shuffle_frame (wq_del1 c g) c' d (take k (wq_dev B d))"
proof -
  have "cmd_waitq_level (ccc_gcmd c g) \<in> {1, 2, 3}"
    using wq_inv_levels [OF inv] g by (simp add: wq_levels_def)
  then show ?thesis
    using shuffle_up_spec [OF wq_del1_inv [OF inv g] refl, of d]
    by (simp add: waitq_delete_eq d_def B_def k_def)
qed

end
