(* ===== verification/Ghd_Doneq.thy ===== *)
theory Ghd_Doneq
  imports Ghd_Waitq
begin

text \<open>
  Request completion, \<open>ghd.c\<close> and the inline macros of \<open>ghd.h\<close>: the timer link of a
  command (\<open>sol11ghd_timer_start\<close>, \<open>GHD_TIMER_STOP\<close>), the done queue with its soft
  interrupt, the poll mode that suppresses it, and \<open>GHD_COMPLETE\<close>.

  The kernel clock and tick rate are arguments, collected in a record.
\<close>

record kenv =
  ke_lbolt :: int                 \<comment> \<open>\<open>ddi_get_lbolt()\<close>\<close>
  ke_usectohz :: "int \<Rightarrow> int"     \<comment> \<open>\<open>drv_usectohz()\<close>\<close>

definition ghd_HZ :: "kenv \<Rightarrow> int" where
  "ghd_HZ k = ke_usectohz k 1000000"

subsection \<open>The operations\<close>

definition sol11ghd_timer_start :: "kenv \<Rightarrow> 'hw ccc_t \<Rightarrow> nat \<Rightarrow> int \<Rightarrow> 'hw ccc_t" where
  "sol11ghd_timer_start k c g cmd_timeout' =
    (let c = upd_gcmd g (\<lambda>r. r\<lparr>cmd_start_time := word_of_int (ke_lbolt k),
                               cmd_timeout := word_of_int (cmd_timeout' * ghd_HZ k)\<rparr>) c
     in c\<lparr>ccc_l2 := L2_add (ccc_l2 c) ActiveL (TimerL g) g\<rparr>)"

definition GHD_TIMER_STOP :: "'hw ccc_t \<Rightarrow> nat \<Rightarrow> 'hw ccc_t" where
  "GHD_TIMER_STOP c g = c\<lparr>ccc_l2 := L2_delete (ccc_l2 c) (TimerL g)\<rparr>"

definition doneq_softintr :: "'hw ccc_t \<Rightarrow> 'hw ccc_t" where
  "doneq_softintr c = c\<lparr>ccc_doneq_softintr := Suc (ccc_doneq_softintr c)\<rparr>"

definition GHD_DONEQ_PUT_HEAD :: "'hw ccc_t \<Rightarrow> nat \<Rightarrow> 'hw ccc_t" where
  "GHD_DONEQ_PUT_HEAD c g =
    (let c = upd_gcmd g (\<lambda>r. r\<lparr>cmd_state := GCMD_STATE_DONEQ\<rparr>) c;
         c = c\<lparr>ccc_l2 := L2_add_head (ccc_l2 c) DoneQ (CmdQ g) g\<rparr>
     in if \<not> ccc_hba_pollmode c then doneq_softintr c else c)"

definition GHD_DONEQ_PUT_TAIL :: "'hw ccc_t \<Rightarrow> nat \<Rightarrow> 'hw ccc_t" where
  "GHD_DONEQ_PUT_TAIL c g =
    (let c = upd_gcmd g (\<lambda>r. r\<lparr>cmd_state := GCMD_STATE_DONEQ\<rparr>) c;
         c = c\<lparr>ccc_l2 := L2_add (ccc_l2 c) DoneQ (CmdQ g) g\<rparr>
     in if \<not> ccc_hba_pollmode c then doneq_softintr c else c)"

definition GHD_COMPLETE :: "'hw ccc_t \<Rightarrow> nat \<Rightarrow> 'hw ccc_t option" where
  "GHD_COMPLETE c g =
    (case sol11ghd_waitq_delete c g of
       None \<Rightarrow> None
     | Some c \<Rightarrow>
        (let c = upd_gcmd g (\<lambda>r. r\<lparr>cmd_state := GCMD_STATE_DONEQ\<rparr>) c;
             c = GHD_TIMER_STOP c g
         in Some (GHD_DONEQ_PUT_TAIL c g)))"

definition ghd_doneq_get :: "'hw ccc_t \<Rightarrow> nat option \<times> 'hw ccc_t" where
  "ghd_doneq_get c =
    (case L2_next (ccc_l2 c) DoneQ of
       None \<Rightarrow> (None, c)
     | Some g \<Rightarrow> (Some g, c\<lparr>ccc_l2 := L2_delete (ccc_l2 c) (CmdQ g)\<rparr>))"

definition ghd_doneq_pollmode_enter :: "'hw ccc_t \<Rightarrow> 'hw ccc_t" where
  "ghd_doneq_pollmode_enter c = c\<lparr>ccc_hba_pollmode := True\<rparr>"

definition ghd_doneq_pollmode_exit :: "'hw ccc_t \<Rightarrow> 'hw ccc_t" where
  "ghd_doneq_pollmode_exit c =
    (let c = c\<lparr>ccc_hba_pollmode := False\<rparr>
     in if \<not> L2_EMPTY (ccc_l2 c) DoneQ then doneq_softintr c else c)"

definition ghd_freeze_waitq :: "kenv \<Rightarrow> 'hw ccc_t \<Rightarrow> u32 \<Rightarrow> 'hw ccc_t" where
  "ghd_freeze_waitq k c delay = c\<lparr>ccc_waitq_freezetime := ke_lbolt k,
     ccc_waitq_freezedelay := delay, ccc_waitq_frozen := True\<rparr>"

definition ghd_queue_hold :: "'hw ccc_t \<Rightarrow> 'hw ccc_t" where
  "ghd_queue_hold c = c\<lparr>ccc_waitq_held := True\<rparr>"

definition ghd_queue_unhold :: "'hw ccc_t \<Rightarrow> 'hw ccc_t" where
  "ghd_queue_unhold c = c\<lparr>ccc_waitq_held := False\<rparr>"

subsection \<open>Effect on the queues\<close>

text \<open>The invariant sees only the links, the counters, and the level and device of commands.\<close>

lemma wq_inv_cong:
  assumes "wq_inv c A" and "ccc_l2 c' = ccc_l2 c" and "ccc_nactive c' = ccc_nactive c"
    and "\<And>d. gd_nactive (ccc_gdev c' d) = gd_nactive (ccc_gdev c d)"
    and "\<And>g. g \<in> wq_live A \<Longrightarrow> cmd_waitq_level (ccc_gcmd c' g) = cmd_waitq_level (ccc_gcmd c g)"
    and "\<And>g. g \<in> wq_live A \<Longrightarrow> cmd_gdev (ccc_gcmd c' g) = cmd_gdev (ccc_gcmd c g)"
  shows "wq_inv c' A"
proof -
  have "wq_past_dev (ccc_gcmd c') A d = wq_past_dev (ccc_gcmd c) A d" for d
    using assms(5,6) by (auto simp: wq_past_dev_def)
  moreover have "wq_past_hba (ccc_gcmd c') A = wq_past_hba (ccc_gcmd c) A"
    using assms(5,6) by (auto simp: wq_past_hba_def)
  moreover have "wq_levels (ccc_gcmd c') A"
    using assms(1,5,6) unfolding wq_inv_def wq_levels_def by metis
  ultimately show ?thesis using assms(1-4) by (simp add: wq_inv_def wq_counts_def wq_repr_def)
qed

lemma wq_inv_upd_state [wq_simps]:
  "wq_inv c A \<Longrightarrow> wq_inv (upd_gcmd g (cmd_state_update f) c) A"
  by (erule wq_inv_cong) (auto simp: upd_gcmd_def)

lemma wq_levels_cong:
  "wq_live B = wq_live A \<Longrightarrow> wq_dev B = wq_dev A \<Longrightarrow> wq_hba B = wq_hba A \<Longrightarrow>
   (\<forall>g. g \<in> set (wq_done B) \<or> g \<in> set (wq_hold B) \<longrightarrow> g \<notin> wq_live A) \<Longrightarrow>
   wq_levels gc A \<Longrightarrow> wq_levels gc B"
  by (simp add: wq_levels_def)

lemma wq_counts_cong:
  "wq_live B = wq_live A \<Longrightarrow> wq_counts gc gd n A \<Longrightarrow> wq_counts gc gd n B"
  by (simp add: wq_counts_def wq_past_dev_def wq_past_hba_def)

text \<open>A change of the timer, done and hold queues alone keeps the invariant.\<close>

lemma wq_inv_lists:
  assumes "wq_inv c A" and "wq_repr (c\<lparr>ccc_l2 := h\<rparr>) B"
    and "wq_live B = wq_live A" "wq_dev B = wq_dev A" "wq_hba B = wq_hba A"
    and "\<forall>g. g \<in> set (wq_done B) \<or> g \<in> set (wq_hold B) \<longrightarrow> g \<notin> wq_live A"
  shows "wq_inv (c\<lparr>ccc_l2 := h\<rparr>) B"
  using assms wq_levels_cong [of B A "ccc_gcmd c"]
    wq_counts_cong [of B A "ccc_gcmd c" "ccc_gdev c" "ccc_nactive c"]
  by (simp add: wq_inv_def)

lemma wq_done_not_live:
  "wq_inv c A \<Longrightarrow> g \<in> set (wq_done A) \<or> g \<in> set (wq_hold A) \<Longrightarrow> g \<notin> wq_live A"
  by (auto simp: wq_inv_def wq_levels_def)

lemma timer_delete_repr:
  assumes R: "wq_repr c A"
  shows "wq_repr (c\<lparr>ccc_l2 := L2_delete (ccc_l2 c) (TimerL g)\<rparr>) (A\<lparr>wq_timer := remove1 g (wq_timer A)\<rparr>)"
proof (cases "g \<in> set (wq_timer A)")
  case True
  then obtain ys zs where ys: "wq_timer A = ys @ g # zs" "remove1 g (wq_timer A) = ys @ zs"
    by (metis remove1.simps(2) remove1_append split_list_first)
  then have "L2_repr (L2_delete (ccc_l2 c) (TimerL g))
      ((wq_content A)(ActiveL \<mapsto> map tl_link (remove1 g (wq_timer A))))"
    using l2.delete_linked [of "ccc_l2 c" "wq_content A" ActiveL "map tl_link ys" "TimerL g" g "map tl_link zs"] R
    by (simp add: wq_repr_def)
  then show ?thesis by (simp only: wq_content_upd) (simp add: wq_repr_def)
next
  case False
  then have "L2_delete (ccc_l2 c) (TimerL g) = ccc_l2 c"
    using R l2.delete_free [of "ccc_l2 c" "wq_content A" "TimerL g"] by (simp add: wq_repr_def wq_free_timer)
  with False R show ?thesis by (simp add: remove1_idem)
qed

lemma timer_stop_inv:
  assumes "wq_inv c A"
  shows "wq_inv (GHD_TIMER_STOP c g) (A\<lparr>wq_timer := remove1 g (wq_timer A)\<rparr>)"
  unfolding GHD_TIMER_STOP_def
  by (rule wq_inv_lists [OF assms timer_delete_repr [OF wq_inv_repr [OF assms]]])
    (use wq_done_not_live [OF assms] in auto)

lemma timer_start_inv:
  assumes inv: "wq_inv c A" and g: "g \<notin> set (wq_timer A)"
  shows "wq_inv (sol11ghd_timer_start k c g t) (A\<lparr>wq_timer := wq_timer A @ [g]\<rparr>)"
proof -
  let ?c = "upd_gcmd g (\<lambda>r. r\<lparr>cmd_start_time := word_of_int (ke_lbolt k),
                               cmd_timeout := word_of_int (t * ghd_HZ k)\<rparr>) c"
  have c: "wq_inv ?c A" by (rule wq_inv_cong [OF inv]) (auto simp: upd_gcmd_def)
  have "L2_repr (L2_add (ccc_l2 c) ActiveL (TimerL g) g)
     ((wq_content A)(ActiveL \<mapsto> map tl_link (wq_timer A @ [g])))"
    using l2.add [of "ccc_l2 c" "wq_content A" ActiveL "map tl_link (wq_timer A)" "TimerL g" g]
      wq_inv_repr [OF inv] g by (simp add: wq_repr_def wq_free_timer)
  then have "wq_repr (?c\<lparr>ccc_l2 := L2_add (ccc_l2 ?c) ActiveL (TimerL g) g\<rparr>)
      (A\<lparr>wq_timer := wq_timer A @ [g]\<rparr>)"
    by (simp only: wq_content_upd) (simp add: wq_repr_def)
  from wq_inv_lists [OF c this] wq_done_not_live [OF inv] show ?thesis
    by (simp add: sol11ghd_timer_start_def Let_def)
qed

lemma doneq_put_tail_inv:
  assumes inv: "wq_inv c A" and g: "g \<notin> wq_live A" "\<not> wq_queued A g"
  shows "wq_inv (GHD_DONEQ_PUT_TAIL c g) (A\<lparr>wq_done := wq_done A @ [g]\<rparr>)"
proof -
  let ?c = "upd_gcmd g (\<lambda>r. r\<lparr>cmd_state := GCMD_STATE_DONEQ\<rparr>) c"
  let ?c' = "?c\<lparr>ccc_l2 := L2_add (ccc_l2 ?c) DoneQ (CmdQ g) g\<rparr>"
  have c: "wq_inv ?c A" by (rule wq_inv_cong [OF inv]) (auto simp: upd_gcmd_def)
  have "L2_repr (L2_add (ccc_l2 ?c) DoneQ (CmdQ g) g) ((wq_content A)(DoneQ \<mapsto> map cq (wq_done A @ [g])))"
    by (rule wq_add(1) [OF wq_inv_repr [OF c] _ g(2)]) simp
  then have "wq_repr ?c' (A\<lparr>wq_done := wq_done A @ [g]\<rparr>)"
    by (simp only: wq_content_upd) (simp add: wq_repr_def)
  from wq_inv_lists [OF c this] wq_done_not_live [OF inv] g
  have i: "wq_inv ?c' (A\<lparr>wq_done := wq_done A @ [g]\<rparr>)" by auto
  have "wq_inv (doneq_softintr ?c') (A\<lparr>wq_done := wq_done A @ [g]\<rparr>)"
    by (rule wq_inv_cong [OF i]) (auto simp: doneq_softintr_def)
  with i show ?thesis by (simp add: GHD_DONEQ_PUT_TAIL_def Let_def)
qed

lemma doneq_get_inv:
  assumes inv: "wq_inv c A"
  shows "case wq_done A of
      [] \<Rightarrow> ghd_doneq_get c = (None, c)
    | g # gs \<Rightarrow> \<exists>c'. ghd_doneq_get c = (Some g, c') \<and> wq_inv c' (A\<lparr>wq_done := gs\<rparr>) \<and>
        c' = c\<lparr>ccc_l2 := ccc_l2 c'\<rparr>"
proof (cases "wq_done A")
  case Nil
  then show ?thesis
    using l2.next_head [of "ccc_l2 c" "wq_content A" DoneQ "[]"] wq_inv_repr [OF inv]
    by (simp add: ghd_doneq_get_def wq_repr_def)
next
  case (Cons g gs)
  have R: "wq_repr c A" by (rule wq_inv_repr [OF inv])
  have "L2_next (ccc_l2 c) DoneQ = Some g"
    using l2.next_head [of "ccc_l2 c" "wq_content A" DoneQ "map cq (g # gs)"] R Cons
    by (simp add: wq_repr_def)
  moreover have "L2_repr (L2_delete (ccc_l2 c) (CmdQ g)) ((wq_content A)(DoneQ \<mapsto> map cq gs))"
    using wq_delete [OF R, of DoneQ "g # gs" g] Cons by simp
  then have "wq_repr (c\<lparr>ccc_l2 := L2_delete (ccc_l2 c) (CmdQ g)\<rparr>) (A\<lparr>wq_done := gs\<rparr>)"
    by (simp only: wq_content_upd) (simp add: wq_repr_def)
  from wq_inv_lists [OF inv this] wq_done_not_live [OF inv] Cons
  have "wq_inv (c\<lparr>ccc_l2 := L2_delete (ccc_l2 c) (CmdQ g)\<rparr>) (A\<lparr>wq_done := gs\<rparr>)" by auto
  ultimately show ?thesis using Cons by (simp add: ghd_doneq_get_def)
qed

subsection \<open>Completion\<close>

definition wq_complete :: "wq \<Rightarrow> nat \<Rightarrow> nat \<Rightarrow> nat \<Rightarrow> wq" where
  "wq_complete A g d k =
     (wq_promote (wq_remove A g) d k)\<lparr>wq_timer := remove1 g (wq_timer A), wq_done := wq_done A @ [g]\<rparr>"

lemma wq_promote_queued: "wq_queued (wq_promote A d k) g \<Longrightarrow> wq_queued A g"
  by (auto simp: wq_queued_def wq_promote_def split: if_splits dest: in_set_takeD in_set_dropD)

lemma wq_remove_queued:
  assumes "wq_inv c A" and "g \<in> wq_live A"
  shows "\<not> wq_queued (wq_remove A g) g"
  using wq_repr_distinct [OF wq_inv_repr [OF assms(1)]] wq_done_not_live [OF assms(1), of g] assms(2)
  by (auto simp: wq_queued_def wq_remove_def)

text \<open>Completing an outstanding command always returns; the state of the command is \<open>DONEQ\<close>, its
  timer is off, it is last on the done queue, and the freed room was given to its device.\<close>

lemma complete_spec:
  assumes inv: "wq_inv c A" and g: "g \<in> wq_live A"
  defines "d \<equiv> cmd_gdev (ccc_gcmd c g)"
  shows "\<exists>c' k. GHD_COMPLETE c g = Some c' \<and> wq_inv c' (wq_complete A g d k) \<and>
     k = shuffle_quota (ccc_gdev (wq_del1 c g) d) (length (wq_dev (wq_remove A g) d)) \<and>
     cmd_state (ccc_gcmd c' g) = GCMD_STATE_DONEQ \<and>
     (\<forall>h. h \<noteq> g \<longrightarrow> cmd_state (ccc_gcmd c' h) = cmd_state (ccc_gcmd c h)) \<and>
     (\<forall>h. cmd_gdev (ccc_gcmd c' h) = cmd_gdev (ccc_gcmd c h)) \<and>
     (ccc_waitq_held c' = ccc_waitq_held c) \<and> (ccc_waitq_frozen c' = ccc_waitq_frozen c) \<and>
     ccc_hba c' = ccc_hba c \<and> ccc_maxactive c' = ccc_maxactive c \<and>
     (\<forall>d. gd_maxactive (ccc_gdev c' d) = gd_maxactive (ccc_gdev c d)) \<and>
     (\<forall>d. gd_nactive (ccc_gdev c' d) \<le> max (gd_nactive (ccc_gdev c d)) (gd_maxactive (ccc_gdev c d))) \<and>
     (\<forall>h. cmd_waitq_level (ccc_gcmd c h) = 3 \<longrightarrow> cmd_waitq_level (ccc_gcmd c' h) = 3)"
proof -
  let ?B = "wq_remove A g"
  let ?k = "shuffle_quota (ccc_gdev (wq_del1 c g) d) (length (wq_dev ?B d))"
  obtain c1 where c1: "sol11ghd_waitq_delete c g = Some c1" "wq_inv c1 (wq_promote ?B d ?k)"
      "shuffle_frame (wq_del1 c g) c1 d (take ?k (wq_dev ?B d))"
    using waitq_delete_spec [OF inv g] unfolding d_def by blast
  let ?c2 = "upd_gcmd g (\<lambda>r. r\<lparr>cmd_state := GCMD_STATE_DONEQ\<rparr>) c1"
  let ?C = "(wq_promote ?B d ?k)\<lparr>wq_timer := remove1 g (wq_timer (wq_promote ?B d ?k))\<rparr>"
  have i2: "wq_inv (GHD_TIMER_STOP ?c2 g) ?C"
    by (rule timer_stop_inv [OF wq_inv_upd_state [OF c1(2)]])
  have "g \<notin> wq_live ?C" by (simp add: wq_remove_def)
  moreover have "\<not> wq_queued ?C g"
    using wq_promote_queued [of ?B d ?k g] wq_remove_queued [OF inv g] by (auto simp: wq_queued_def)
  ultimately have i3: "wq_inv (GHD_DONEQ_PUT_TAIL (GHD_TIMER_STOP ?c2 g) g) (?C\<lparr>wq_done := wq_done ?C @ [g]\<rparr>)"
    by (rule doneq_put_tail_inv [OF i2])
  define f where "f = GHD_DONEQ_PUT_TAIL (GHD_TIMER_STOP ?c2 g) g"
  have f: "ccc_gcmd f = (ccc_gcmd c1)(g := (ccc_gcmd c1 g)\<lparr>cmd_state := GCMD_STATE_DONEQ\<rparr>)"
    "ccc_gdev f = ccc_gdev c1" "ccc_waitq_held f = ccc_waitq_held c1"
    "ccc_waitq_frozen f = ccc_waitq_frozen c1" "ccc_hba f = ccc_hba c1" "ccc_maxactive f = ccc_maxactive c1"
    by (simp_all add: f_def GHD_DONEQ_PUT_TAIL_def GHD_TIMER_STOP_def doneq_softintr_def Let_def)
  have inv': "wq_inv f (wq_complete A g d ?k)"
    using i3 by (simp add: f_def wq_complete_def wq_promote_def wq_remove_def)
  have cpl: "GHD_COMPLETE c g = Some f"
    using c1 by (simp add: GHD_COMPLETE_def Let_def f_def)
  have nact: "gd_nactive (ccc_gdev c1 d') \<le> max (gd_nactive (ccc_gdev c d')) (gd_maxactive (ccc_gdev c d'))" for d'
    using c1(3) shuffle_quota_bound [of "ccc_gdev (wq_del1 c g) d" "length (wq_dev ?B d)"]
    by (auto simp: shuffle_frame_def wq_del1_def Let_def d_def split: if_splits)
  have l1: "cmd_waitq_level (ccc_gcmd c h) = 1" if "h \<in> set (take ?k (wq_dev ?B d))" for h
    using wq_levels_devD [OF wq_inv_levels [OF wq_del1_inv [OF inv g]], of h d] in_set_takeD [OF that]
    by (simp add: wq_del1_def Let_def)
  have "ccc_gcmd (wq_del1 c g) = ccc_gcmd c" by (simp add: wq_del1_def Let_def)
  then have gc1: "ccc_gcmd c1 h = ccc_gcmd c h" if "h \<notin> set (take ?k (wq_dev ?B d))" for h
    using c1(3) that unfolding shuffle_frame_def by metis
  have lvl: "cmd_waitq_level (ccc_gcmd c h) = 3 \<longrightarrow> cmd_waitq_level (ccc_gcmd c1 h) = 3" for h
    using l1 [of h] gc1 [of h] by (cases "h \<in> set (take ?k (wq_dev ?B d))") simp_all
  have fr: "ccc_waitq_held c1 = ccc_waitq_held c" "ccc_waitq_frozen c1 = ccc_waitq_frozen c"
    "ccc_hba c1 = ccc_hba c" "ccc_maxactive c1 = ccc_maxactive c"
    "gd_maxactive (ccc_gdev c1 d') = gd_maxactive (ccc_gdev c d')"
    "cmd_state (ccc_gcmd c1 h) = cmd_state (ccc_gcmd c h)"
    "cmd_gdev (ccc_gcmd c1 h) = cmd_gdev (ccc_gcmd c h)" for d' h
    by (simp_all add: shuffle_frameD [OF c1(3)]) (simp_all add: wq_del1_def Let_def)
  show ?thesis
    by (rule exI [of _ f], rule exI [of _ ?k])
      (intro conjI allI impI cpl inv' refl; auto simp: f fr nact lvl)
qed

lemma complete_nactive:
  assumes inv: "wq_inv c A" and g: "g \<in> wq_live A" and cpl: "GHD_COMPLETE c g = Some c'"
  shows "ccc_nactive c' = ccc_nactive c - (if cmd_waitq_level (ccc_gcmd c g) = 3 then 1 else 0)"
proof -
  obtain c1 gs where "sol11ghd_waitq_delete c g = Some c1"
      "shuffle_frame (wq_del1 c g) c1 (cmd_gdev (ccc_gcmd c g)) gs"
    using waitq_delete_spec [OF inv g] by blast
  with cpl show ?thesis
    by (auto simp: GHD_COMPLETE_def GHD_TIMER_STOP_def GHD_DONEQ_PUT_TAIL_def doneq_softintr_def Let_def
      shuffle_frameD wq_del1_def)
qed

end
