(* ===== verification/Ghd_Process.thy ===== *)
theory Ghd_Process
  imports Ghd_Doneq
begin

text \<open>
  Starting requests: \<open>sol11ghd_waitq_process_and_mutex_hold\<close> and \<open>sol11ghd_transport\<close>. The HBA
  driver's start routine (\<open>ccc_hba_start\<close>) is an argument; what GHD relies on is the
  locale \<open>hba_driver\<close>, which the ATA driver's model interprets.
\<close>

subsection \<open>The operations\<close>

type_synonym 'hw hba_start = "'hw ccc_t \<Rightarrow> nat \<Rightarrow> (bool \<times> 'hw ccc_t) option"

text \<open>\<open>time_to_wait\<close> of the frozen queue; \<open>ccc_waitq_freezedelay * 1000\<close> is a 32-bit unsigned
  product that wraps.\<close>

definition freeze_time_to_wait :: "kenv \<Rightarrow> 'hw ccc_t \<Rightarrow> int" where
  "freeze_time_to_wait k c =
     ke_usectohz k (uint (ccc_waitq_freezedelay c * 1000)) - (ke_lbolt k - ccc_waitq_freezetime c)"

definition waitq_unfreeze :: "'hw ccc_t \<Rightarrow> 'hw ccc_t" where
  "waitq_unfreeze c =
     c\<lparr>ccc_waitq_freezetime := 0, ccc_waitq_freezedelay := 0, ccc_waitq_frozen := False\<rparr>"

text \<open>The head of the HBA queue becomes active.\<close>

definition waitq_start :: "'hw ccc_t \<Rightarrow> (qaddr, nat) l2store \<Rightarrow> nat \<Rightarrow> 'hw ccc_t" where
  "waitq_start c h g =
    (let c = c\<lparr>ccc_l2 := h, ccc_nactive := ccc_nactive c + 1\<rparr>;
         c = upd_gcmd g (\<lambda>r. r\<lparr>cmd_waitq_level := Suc (cmd_waitq_level r)\<rparr>) c
     in upd_gcmd g (\<lambda>r. r\<lparr>cmd_state := GCMD_STATE_ACTIVE\<rparr>) c)"

text \<open>A rejected request goes back to the head of the HBA queue.\<close>

definition waitq_requeue :: "'hw ccc_t \<Rightarrow> nat \<Rightarrow> 'hw ccc_t" where
  "waitq_requeue c g =
    (let c = upd_gcmd g (\<lambda>r. r\<lparr>cmd_state := GCMD_STATE_WAITQ\<rparr>) c;
         c = c\<lparr>ccc_nactive := ccc_nactive c - 1\<rparr>;
         c = upd_gcmd g (\<lambda>r. r\<lparr>cmd_waitq_level := cmd_waitq_level r - 1\<rparr>) c
     in c\<lparr>ccc_l2 := L2_add_head (ccc_l2 c) HbaQ (CmdQ g) g\<rparr>)"

partial_function (option) sol11ghd_waitq_process_loop ::
  "'hw hba_start \<Rightarrow> kenv \<Rightarrow> bool \<Rightarrow> 'hw ccc_t \<Rightarrow> (bool \<times> 'hw ccc_t) option" where
  "sol11ghd_waitq_process_loop start k rc c =
    (if L2_EMPTY (ccc_l2 c) HbaQ then Some (rc, c)
     else if ccc_maxactive c \<le> ccc_nactive c then Some (rc, c)
     else if ccc_waitq_held c then Some (rc, c)
     else if ccc_waitq_frozen c \<and> 0 < freeze_time_to_wait k c then Some (rc, c)
     else
       (let c = (if ccc_waitq_frozen c then waitq_unfreeze c else c) in
        case L2_remove_head (ccc_l2 c) HbaQ of
          (None, _) \<Rightarrow> None
        | (Some g, h) \<Rightarrow>
            (case start (waitq_start c h g) g of
               None \<Rightarrow> None
             | Some (ok, c) \<Rightarrow>
                 if \<not> ok then Some (rc, waitq_requeue c g)
                 else sol11ghd_waitq_process_loop start k True c)))"

definition sol11ghd_waitq_process_and_mutex_hold ::
  "'hw hba_start \<Rightarrow> kenv \<Rightarrow> 'hw ccc_t \<Rightarrow> (bool \<times> 'hw ccc_t) option" where
  "sol11ghd_waitq_process_and_mutex_hold start k c = sol11ghd_waitq_process_loop start k False c"

definition sol11ghd_waitq_process_and_mutex_exit ::
  "'hw hba_start \<Rightarrow> kenv \<Rightarrow> 'hw ccc_t \<Rightarrow> 'hw ccc_t option" where
  "sol11ghd_waitq_process_and_mutex_exit start k c =
     map_option snd (sol11ghd_waitq_process_and_mutex_hold start k c)"

text \<open>\<open>sol11ghd_transport\<close> up to the attempt to get the HBA mutex: add the request to its device's
  queue and start its timer, then shuffle up.\<close>

definition transport_add :: "kenv \<Rightarrow> 'hw ccc_t \<Rightarrow> nat \<Rightarrow> nat \<Rightarrow> int \<Rightarrow> 'hw ccc_t" where
  "transport_add k c g d timeout =
    (let c = upd_gcmd g (\<lambda>r. r\<lparr>cmd_waitq_level := 1\<rparr>) c;
         c = c\<lparr>ccc_l2 := L2_add (ccc_l2 c) (DevQ d) (CmdQ g) g\<rparr>;
         c = upd_gcmd g (\<lambda>r. r\<lparr>cmd_state := GCMD_STATE_WAITQ\<rparr>) c
     in sol11ghd_timer_start k c g timeout)"

definition transport_enqueue :: "kenv \<Rightarrow> 'hw ccc_t \<Rightarrow> nat \<Rightarrow> nat \<Rightarrow> int \<Rightarrow> 'hw ccc_t option" where
  "transport_enqueue k c g d timeout = sol11ghd_waitq_shuffle_up (transport_add k c g d timeout) d"

text \<open>The interrupt-driven transport; \<open>got_mutex\<close> is the outcome of \<open>mutex_tryenter\<close>.\<close>

definition sol11ghd_transport ::
  "'hw hba_start \<Rightarrow> kenv \<Rightarrow> bool \<Rightarrow> 'hw ccc_t \<Rightarrow> nat \<Rightarrow> nat \<Rightarrow> int \<Rightarrow> 'hw ccc_t option" where
  "sol11ghd_transport start k got_mutex c g d timeout =
    (case transport_enqueue k c g d timeout of
       None \<Rightarrow> None
     | Some c \<Rightarrow>
         if \<not> got_mutex then Some c
         else sol11ghd_waitq_process_and_mutex_exit start k c)"

subsection \<open>One iteration\<close>

lemma waitq_start_inv:
  assumes inv: "wq_inv c A" and xs: "wq_hba A = g # xs"
  shows "wq_inv (waitq_start c (L2_delete (ccc_l2 c) (CmdQ g)) g) (A\<lparr>wq_hba := xs\<rparr>)"
    and "g \<in> wq_live A" and "cmd_waitq_level (ccc_gcmd c g) = 2"
proof -
  let ?c = "waitq_start c (L2_delete (ccc_l2 c) (CmdQ g)) g" and ?A = "A\<lparr>wq_hba := xs\<rparr>"
  note R = wq_inv_repr [OF inv] and L = wq_inv_levels [OF inv]
  show g: "g \<in> wq_live A" "cmd_waitq_level (ccc_gcmd c g) = 2"
    using wq_levels_hbaD [OF L, of g] xs by simp_all
  have nx: "g \<notin> set xs" using wq_repr_distinct(1) [OF R] xs by simp
  have gc: "cmd_waitq_level (ccc_gcmd ?c h) = (if h = g then 3 else cmd_waitq_level (ccc_gcmd c h))"
    "cmd_gdev (ccc_gcmd ?c h) = cmd_gdev (ccc_gcmd c h)" for h
    using g by (simp_all add: waitq_start_def Let_def)
  have mem: "h \<in> set xs \<longleftrightarrow> h \<in> wq_live A \<and> cmd_waitq_level (ccc_gcmd c h) = 2 \<and> h \<noteq> g" for h
    using L nx xs unfolding wq_levels_def by (metis set_ConsD list.set_intros(2))
  have "wq_levels (ccc_gcmd ?c) ?A"
    using L xs g unfolding wq_levels_def gc by (simp add: mem)
  moreover have "wq_past_dev (ccc_gcmd ?c) ?A d = wq_past_dev (ccc_gcmd c) A d" for d
    using g by (auto simp: wq_past_dev_def gc)
  moreover have "wq_past_hba (ccc_gcmd ?c) ?A = insert g (wq_past_hba (ccc_gcmd c) A)"
    using g by (auto simp: wq_past_hba_def gc)
  moreover have "g \<notin> wq_past_hba (ccc_gcmd c) A" using g by (simp add: wq_past_hba_def)
  moreover have "finite (wq_past_hba (ccc_gcmd c) A)"
    using wq_inv_counts [OF inv] by (simp add: wq_counts_def wq_past_hba_def)
  moreover have "L2_repr (L2_delete (ccc_l2 c) (CmdQ g)) ((wq_content A)(HbaQ \<mapsto> map cq xs))"
    using wq_delete [OF R, of HbaQ "g # xs" g] xs by simp
  then have "wq_repr ?c ?A"
    by (simp only: wq_content_upd) (simp add: wq_repr_def waitq_start_def Let_def)
  ultimately show "wq_inv ?c ?A"
    using wq_inv_counts [OF inv] unfolding wq_inv_def wq_counts_def
    by (simp add: waitq_start_def Let_def)
qed

lemma waitq_requeue_inv:
  assumes inv: "wq_inv c A" and g: "g \<in> wq_live A" "cmd_waitq_level (ccc_gcmd c g) = 3"
  shows "wq_inv (waitq_requeue c g) (A\<lparr>wq_hba := g # wq_hba A\<rparr>)"
proof -
  let ?c = "waitq_requeue c g" and ?A = "A\<lparr>wq_hba := g # wq_hba A\<rparr>"
  note R = wq_inv_repr [OF inv] and L = wq_inv_levels [OF inv]
  have nq: "\<not> wq_queued A g" using wq_live_queued [OF L g(1)] g(2) by simp
  have gc: "cmd_waitq_level (ccc_gcmd ?c h) = (if h = g then 2 else cmd_waitq_level (ccc_gcmd c h))"
    "cmd_gdev (ccc_gcmd ?c h) = cmd_gdev (ccc_gcmd c h)" for h
    using g by (simp_all add: waitq_requeue_def Let_def)
  have "wq_levels (ccc_gcmd ?c) ?A"
    using L g unfolding wq_levels_def gc by auto
  moreover have "wq_past_dev (ccc_gcmd ?c) ?A d = wq_past_dev (ccc_gcmd c) A d" for d
    using g by (auto simp: wq_past_dev_def gc)
  moreover have "wq_past_hba (ccc_gcmd ?c) ?A = wq_past_hba (ccc_gcmd c) A - {g}"
    using g by (auto simp: wq_past_hba_def gc)
  moreover have "g \<in> wq_past_hba (ccc_gcmd c) A" using g by (simp add: wq_past_hba_def)
  moreover have "finite (wq_past_hba (ccc_gcmd c) A)"
    using wq_inv_counts [OF inv] by (simp add: wq_counts_def wq_past_hba_def)
  moreover have "L2_repr (L2_add_head (ccc_l2 c) HbaQ (CmdQ g) g)
      ((wq_content A)(HbaQ \<mapsto> map cq (g # wq_hba A)))"
    by (rule wq_add(2) [OF R _ nq]) simp
  then have "wq_repr ?c ?A"
    by (simp only: wq_content_upd) (simp add: wq_repr_def waitq_requeue_def Let_def)
  ultimately show "wq_inv ?c ?A"
    using wq_inv_counts [OF inv] unfolding wq_inv_def wq_counts_def
    by (simp add: waitq_requeue_def Let_def int_card_remove del: card_Diff_singleton card_Diff_insert)
qed

subsection \<open>The contract with the HBA driver\<close>

text \<open>The started requests: outstanding, and in no wait queue.\<close>

definition wq_started :: "wq \<Rightarrow> nat set" where
  "wq_started A = {g \<in> wq_live A. g \<notin> set (wq_hba A) \<and> (\<forall>d. g \<notin> set (wq_dev A d))}"

text \<open>
  A start routine returns. When it rejects the request it changed nothing but its own soft
  state. When it accepts it may also have completed this request, and no other. \<open>hw_ok\<close> is
  the driver's own invariant, \<open>owned\<close> the requests it holds on to; they are always started ones.
\<close>

locale hba_driver =
  fixes start :: "'hw hba_start" and hw_ok :: "'hw \<Rightarrow> bool" and owned :: "'hw \<Rightarrow> nat set"
  assumes start_outcome:
    "\<lbrakk>wq_inv c A; g \<in> wq_started A; hw_ok (ccc_hba c); owned (ccc_hba c) \<subseteq> wq_started A - {g}\<rbrakk> \<Longrightarrow>
     \<exists>ok c' h. start c g = Some (ok, c') \<and> hw_ok h \<and>
       (c' = c\<lparr>ccc_hba := h\<rparr> \<and> owned h \<subseteq> owned (ccc_hba c) \<union> (if ok then {g} else {}) \<or>
        ok \<and> owned h \<subseteq> owned (ccc_hba c) \<and> GHD_COMPLETE (c\<lparr>ccc_hba := h\<rparr>) g = Some c')"

text \<open>The driver's soft state agrees with the queues.\<close>

definition hw_inv :: "('hw \<Rightarrow> bool) \<Rightarrow> ('hw \<Rightarrow> nat set) \<Rightarrow> 'hw ccc_t \<Rightarrow> wq \<Rightarrow> bool" where
  "hw_inv hw_ok owned c A \<longleftrightarrow> hw_ok (ccc_hba c) \<and> owned (ccc_hba c) \<subseteq> wq_started A"

lemma hw_inv_cong:
  "hw_inv ok ow c A \<Longrightarrow> ccc_hba c' = ccc_hba c \<Longrightarrow> wq_started A \<subseteq> wq_started B \<Longrightarrow> hw_inv ok ow c' B"
  by (auto simp: hw_inv_def)

lemma hw_inv_upd: "ok h \<Longrightarrow> ow h \<subseteq> wq_started A \<Longrightarrow> hw_inv ok ow (c\<lparr>ccc_hba := h\<rparr>) A"
  by (simp add: hw_inv_def)

lemma started_level:
  "wq_inv c A \<Longrightarrow> g \<in> wq_live A \<Longrightarrow> g \<in> wq_started A \<longleftrightarrow> cmd_waitq_level (ccc_gcmd c g) = 3"
  using wq_inv_levels [of c A] by (fastforce simp: wq_levels_def wq_started_def)

lemma started_frame [simp]:
  "wq_started (A\<lparr>wq_timer := xs\<rparr>) = wq_started A" "wq_started (A\<lparr>wq_done := xs\<rparr>) = wq_started A"
  "wq_started (A\<lparr>wq_hold := xs\<rparr>) = wq_started A"
  by (simp_all add: wq_started_def)

lemma started_promote [simp]: "wq_started (wq_promote A d k) = wq_started A"
proof -
  have "set (take k xs) \<union> set (drop k xs) = set xs" for xs :: "nat list"
    by (metis append_take_drop_id set_append)
  then have "x \<in> set (wq_dev A d) \<longleftrightarrow> x \<in> set (take k (wq_dev A d)) \<or> x \<in> set (drop k (wq_dev A d))" for x by auto
  then show ?thesis by (auto simp: wq_started_def wq_promote_def split: if_splits)
qed

lemma started_remove [simp]: "wq_started (wq_remove A g) = wq_started A - {g}"
proof -
  have "h \<in> set (remove1 g xs) \<longleftrightarrow> h \<in> set xs" if "h \<noteq> g" for h xs using that by simp
  then show ?thesis by (auto simp: wq_started_def wq_remove_def)
qed

lemma started_complete [simp]: "wq_started (wq_complete A g d k) = wq_started A - {g}"
  by (simp add: wq_complete_def)

lemma wq_inv_hba: "wq_inv c A \<Longrightarrow> wq_inv (c\<lparr>ccc_hba := h\<rparr>) A"
  by (erule wq_inv_cong) auto

lemma wq_inv_unfreeze: "wq_inv c A \<Longrightarrow> wq_inv (waitq_unfreeze c) A"
  by (erule wq_inv_cong) (auto simp: waitq_unfreeze_def)

text \<open>What a run of the loop may do to the queues: outstanding commands become completed ones,
  in the done queue behind those already there.\<close>

definition wq_progress :: "wq \<Rightarrow> wq \<Rightarrow> bool" where
  "wq_progress A B \<longleftrightarrow> wq_live B \<subseteq> wq_live A \<and> wq_hold B = wq_hold A \<and>
     (\<exists>gs. wq_done B = wq_done A @ gs \<and> set gs = wq_live A - wq_live B)"

lemma wq_progress_refl [simp]: "wq_progress A A"
  by (simp add: wq_progress_def)

lemma wq_progress_trans: "wq_progress A B \<Longrightarrow> wq_progress B C \<Longrightarrow> wq_progress A C"
  unfolding wq_progress_def by (elim conjE exE) auto

lemma wq_progress_complete: "g \<in> wq_live A \<Longrightarrow> wq_progress A (wq_complete A g d k)"
  by (auto simp: wq_progress_def wq_complete_def wq_promote_def wq_remove_def)

lemma wq_progress_queues:
  "wq_live B = wq_live A \<Longrightarrow> wq_hold B = wq_hold A \<Longrightarrow> wq_done B = wq_done A \<Longrightarrow> wq_progress A B"
  by (auto simp: wq_progress_def)

text \<open>The number of commands that have not been started; it drops in every iteration.\<close>

definition wq_waiting :: "wq \<Rightarrow> nat" where
  "wq_waiting A = card {g \<in> wq_live A. wq_queued A g}"

lemma wq_waiting_less:
  assumes "finite (wq_live A)" "g \<in> wq_live A" "wq_queued A g" "\<not> wq_queued B g"
    and "wq_live B \<subseteq> wq_live A" "\<And>h. h \<in> wq_live B \<Longrightarrow> wq_queued B h \<Longrightarrow> wq_queued A h"
  shows "wq_waiting B < wq_waiting A"
proof -
  have "{h \<in> wq_live B. wq_queued B h} \<subset> {h \<in> wq_live A. wq_queued A h}"
    using assms(2-6) by auto
  then show ?thesis unfolding wq_waiting_def by (rule psubset_card_mono [rotated]) (simp add: assms(1))
qed

lemma wq_waiting_complete:
  assumes "finite (wq_live A)"
  shows "wq_waiting (wq_complete A g d k) \<le> wq_waiting A"
proof -
  have "wq_queued A h" if "wq_queued (wq_complete A g d k) h" "h \<noteq> g" for h
  proof -
    have "wq_queued (wq_promote (wq_remove A g) d k) h"
      using that by (auto simp: wq_queued_def wq_complete_def wq_promote_def wq_remove_def)
    from wq_promote_queued [OF this] show ?thesis
      by (auto simp: wq_queued_def wq_remove_def dest: notin_set_remove1)
  qed
  then have "{h \<in> wq_live (wq_complete A g d k). wq_queued (wq_complete A g d k) h}
      \<subseteq> {h \<in> wq_live A. wq_queued A h}"
    by (auto simp: wq_complete_def wq_remove_def wq_promote_def)
  then show ?thesis unfolding wq_waiting_def by (rule card_mono [rotated]) (simp add: assms)
qed

lemma wq_inv_finite: "wq_inv c A \<Longrightarrow> finite (wq_live A)"
  by (simp add: wq_inv_def wq_counts_def)

lemma wq_hba_empty: "wq_inv c A \<Longrightarrow> L2_EMPTY (ccc_l2 c) HbaQ \<longleftrightarrow> wq_hba A = []"
  using l2.is_empty [of "ccc_l2 c" "wq_content A" HbaQ] by (simp add: wq_inv_def wq_repr_def)

text \<open>Why a run stops.\<close>

definition process_stop :: "'hw hba_start \<Rightarrow> kenv \<Rightarrow> 'hw ccc_t \<Rightarrow> wq \<Rightarrow> bool" where
  "process_stop start k c B \<longleftrightarrow> wq_hba B = [] \<or> ccc_maxactive c \<le> ccc_nactive c \<or> ccc_waitq_held c \<or>
     (ccc_waitq_frozen c \<and> 0 < freeze_time_to_wait k c) \<or>
     (\<exists>c0 c1. wq_hba B \<noteq> [] \<and> start c0 (hd (wq_hba B)) = Some (False, c1))"

text \<open>The iteration that takes \<open>g\<close> from the head.\<close>

abbreviation waitq_thaw :: "'hw ccc_t \<Rightarrow> 'hw ccc_t" where
  "waitq_thaw c \<equiv> (if ccc_waitq_frozen c then waitq_unfreeze c else c)"

lemma waitq_unfreeze_simps [simp]:
  "ccc_l2 (waitq_unfreeze c) = ccc_l2 c" "ccc_gcmd (waitq_unfreeze c) = ccc_gcmd c"
  "ccc_nactive (waitq_unfreeze c) = ccc_nactive c" "ccc_maxactive (waitq_unfreeze c) = ccc_maxactive c"
  "ccc_hba (waitq_unfreeze c) = ccc_hba c"
  by (simp_all add: waitq_unfreeze_def)

definition waitq_take :: "'hw ccc_t \<Rightarrow> nat \<Rightarrow> 'hw ccc_t" where
  "waitq_take c g = waitq_start (waitq_thaw c) (L2_delete (ccc_l2 c) (CmdQ g)) g"

lemma process_loop_step:
  assumes inv: "wq_inv c A" and xs: "wq_hba A = g # xs"
    and go: "ccc_nactive c < ccc_maxactive c" "\<not> ccc_waitq_held c"
      "\<not> (ccc_waitq_frozen c \<and> 0 < freeze_time_to_wait k c)"
  shows "sol11ghd_waitq_process_loop start k rc c =
     (case start (waitq_take c g) g of
        None \<Rightarrow> None
      | Some (ok, c) \<Rightarrow> if \<not> ok then Some (rc, waitq_requeue c g)
                      else sol11ghd_waitq_process_loop start k True c)"
proof -
  have "L2_remove_head (ccc_l2 c) HbaQ = (Some g, L2_delete (ccc_l2 c) (CmdQ g))"
    using wq_remove_hba [OF wq_inv_repr [OF inv]] xs by simp
  then show ?thesis
    using go by (subst sol11ghd_waitq_process_loop.simps)
      (auto simp: wq_hba_empty [OF inv] xs Let_def waitq_take_def)
qed

lemma waitq_take_inv:
  assumes inv: "wq_inv c A" and xs: "wq_hba A = g # xs"
  shows "wq_inv (waitq_take c g) (A\<lparr>wq_hba := xs\<rparr>)" "g \<in> wq_live A"
    "cmd_waitq_level (ccc_gcmd (waitq_take c g) g) = 3"
    "ccc_nactive (waitq_take c g) = ccc_nactive c + 1"
    "ccc_maxactive (waitq_take c g) = ccc_maxactive c" "ccc_hba (waitq_take c g) = ccc_hba c"
proof -
  have i: "wq_inv (waitq_thaw c) A" using inv wq_inv_unfreeze by auto
  show "wq_inv (waitq_take c g) (A\<lparr>wq_hba := xs\<rparr>)" "g \<in> wq_live A"
    "cmd_waitq_level (ccc_gcmd (waitq_take c g) g) = 3"
    using waitq_start_inv [OF i xs] by (auto simp: waitq_take_def waitq_start_def Let_def)
  show "ccc_nactive (waitq_take c g) = ccc_nactive c + 1"
    "ccc_maxactive (waitq_take c g) = ccc_maxactive c" "ccc_hba (waitq_take c g) = ccc_hba c"
    by (simp_all add: waitq_take_def waitq_start_def Let_def)
qed

lemma started_take:
  assumes inv: "wq_inv c A" and xs: "wq_hba A = g # xs"
  shows "wq_started (A\<lparr>wq_hba := xs\<rparr>) = insert g (wq_started A)" "g \<notin> wq_started A"
proof -
  have l: "g \<in> wq_live A" by (rule waitq_take_inv(2) [OF inv xs])
  have "g \<in> wq_started (A\<lparr>wq_hba := xs\<rparr>)"
    using started_level [OF waitq_take_inv(1) [OF inv xs], of g] l waitq_take_inv(3) [OF inv xs] by simp
  then show "wq_started (A\<lparr>wq_hba := xs\<rparr>) = insert g (wq_started A)" "g \<notin> wq_started A"
    using xs by (auto simp: wq_started_def)
qed

lemma waitq_take_waiting:
  assumes inv: "wq_inv c A" and xs: "wq_hba A = g # xs"
  shows "wq_waiting (A\<lparr>wq_hba := xs\<rparr>) < wq_waiting A"
proof (rule wq_waiting_less [OF wq_inv_finite [OF inv]])
  note i = waitq_take_inv [OF inv xs]
  show "g \<in> wq_live A" "wq_queued A g" using i(2) xs by (simp_all add: wq_queued_def)
  show "\<not> wq_queued (A\<lparr>wq_hba := xs\<rparr>) g"
    using wq_live_queued [OF wq_inv_levels [OF i(1)], of g] i(2,3) by simp
qed (use xs in \<open>auto simp: wq_queued_def\<close>)

subsection \<open>The invariant of the generic driver\<close>

text \<open>Beside the queues: the command states agree with them, and no throttle is exceeded.\<close>

definition ghd_states :: "(nat \<Rightarrow> gcmd_t) \<Rightarrow> wq \<Rightarrow> bool" where
  "ghd_states gc A \<longleftrightarrow> (\<forall>g\<in>wq_live A. cmd_state (gc g) \<noteq> GCMD_STATE_IDLE) \<and>
     (\<forall>g. g \<in> set (wq_done A) \<or> g \<in> set (wq_hold A) \<longrightarrow> cmd_state (gc g) = GCMD_STATE_DONEQ) \<and>
     (\<forall>g. cmd_state (gc g) = GCMD_STATE_ACTIVE \<longrightarrow> g \<in> wq_live A \<and> cmd_waitq_level (gc g) = 3) \<and>
     (\<forall>g\<in>wq_started A. cmd_state (gc g) \<noteq> GCMD_STATE_WAITQ) \<and>
     (\<forall>g. cmd_state (gc g) = GCMD_STATE_WAITQ \<longrightarrow> g \<in> wq_live A) \<and> set (wq_timer A) \<subseteq> wq_live A"

definition ghd_throttle :: "'hw ccc_t \<Rightarrow> bool" where
  "ghd_throttle c \<longleftrightarrow> ccc_nactive c \<le> ccc_maxactive c \<and>
     (\<forall>d. gd_nactive (ccc_gdev c d) \<le> gd_maxactive (ccc_gdev c d))"

definition ghd_inv :: "'hw ccc_t \<Rightarrow> wq \<Rightarrow> bool" where
  "ghd_inv c A \<longleftrightarrow> wq_inv c A \<and> ghd_states (ccc_gcmd c) A \<and> ghd_throttle c"

lemma ghd_invD:
  assumes "ghd_inv c A"
  shows "wq_inv c A" "ghd_states (ccc_gcmd c) A" "ghd_throttle c"
  using assms by (simp_all add: ghd_inv_def)

lemma ghd_inv_hba: "ghd_inv c A \<Longrightarrow> ghd_inv (c\<lparr>ccc_hba := h\<rparr>) A"
  by (simp add: ghd_inv_def wq_inv_hba ghd_throttle_def)

lemma waitq_take_gcmd:
  "ccc_gcmd (waitq_take c g) = (ccc_gcmd c)(g := (ccc_gcmd c g)
     \<lparr>cmd_waitq_level := Suc (cmd_waitq_level (ccc_gcmd c g)), cmd_state := GCMD_STATE_ACTIVE\<rparr>)"
  "ccc_gdev (waitq_take c g) = ccc_gdev c"
  by (simp_all add: waitq_take_def waitq_start_def Let_def) (simp add: waitq_unfreeze_def)

lemma ghd_inv_take:
  assumes inv: "ghd_inv c A" and xs: "wq_hba A = g # xs" and go: "ccc_nactive c < ccc_maxactive c"
  shows "ghd_inv (waitq_take c g) (A\<lparr>wq_hba := xs\<rparr>)"
  using waitq_take_inv [OF ghd_invD(1) [OF inv] xs] ghd_invD(2,3) [OF inv] go wq_done_not_live [of c A g]
    ghd_invD(1) [OF inv] started_take [OF ghd_invD(1) [OF inv] xs]
  by (auto simp: ghd_inv_def ghd_states_def ghd_throttle_def waitq_take_gcmd)

lemma ghd_inv_requeue:
  assumes inv: "ghd_inv c A" and g: "g \<in> wq_live A" "cmd_waitq_level (ccc_gcmd c g) = 3"
  shows "ghd_inv (waitq_requeue c g) (A\<lparr>wq_hba := g # wq_hba A\<rparr>)"
  using waitq_requeue_inv [OF ghd_invD(1) [OF inv] g] ghd_invD(2,3) [OF inv] wq_done_not_live [of c A g]
    ghd_invD(1) [OF inv] g(1)
  by (auto simp: ghd_inv_def ghd_states_def ghd_throttle_def waitq_requeue_def Let_def wq_started_def)

lemma complete_ghd_spec:
  assumes inv: "ghd_inv c A" and g: "g \<in> wq_live A"
  shows "\<exists>c' k. GHD_COMPLETE c g = Some c' \<and>
     ghd_inv c' (wq_complete A g (cmd_gdev (ccc_gcmd c g)) k) \<and>
     k = shuffle_quota (ccc_gdev (wq_del1 c g) (cmd_gdev (ccc_gcmd c g)))
           (length (wq_dev (wq_remove A g) (cmd_gdev (ccc_gcmd c g)))) \<and>
     ccc_hba c' = ccc_hba c \<and> ccc_maxactive c' = ccc_maxactive c \<and>
     cmd_state (ccc_gcmd c' g) = GCMD_STATE_DONEQ"
proof -
  let ?d = "cmd_gdev (ccc_gcmd c g)"
  note W = ghd_invD(1) [OF inv]
  from complete_spec [OF W g] obtain c' k where c':
    "GHD_COMPLETE c g = Some c'" "wq_inv c' (wq_complete A g ?d k)"
    "cmd_state (ccc_gcmd c' g) = GCMD_STATE_DONEQ"
    "\<And>h. h \<noteq> g \<Longrightarrow> cmd_state (ccc_gcmd c' h) = cmd_state (ccc_gcmd c h)"
    "ccc_hba c' = ccc_hba c" "ccc_maxactive c' = ccc_maxactive c"
    "\<And>d. gd_maxactive (ccc_gdev c' d) = gd_maxactive (ccc_gdev c d)"
    "\<And>d. gd_nactive (ccc_gdev c' d) \<le> max (gd_nactive (ccc_gdev c d)) (gd_maxactive (ccc_gdev c d))"
    "\<And>h. cmd_waitq_level (ccc_gcmd c h) = 3 \<Longrightarrow> cmd_waitq_level (ccc_gcmd c' h) = 3"
    "k = shuffle_quota (ccc_gdev (wq_del1 c g) ?d) (length (wq_dev (wq_remove A g) ?d))"
    by blast
  have S: "ghd_states (ccc_gcmd c) A" "ghd_throttle c" using ghd_invD [OF inv] by simp_all
  have live: "wq_live (wq_complete A g ?d k) = wq_live A - {g}"
    "wq_done (wq_complete A g ?d k) = wq_done A @ [g]" "wq_hold (wq_complete A g ?d k) = wq_hold A"
    "wq_timer (wq_complete A g ?d k) = remove1 g (wq_timer A)"
    by (simp_all add: wq_complete_def wq_remove_def wq_promote_def)
  have st: "cmd_state (ccc_gcmd c' h) = (if h = g then GCMD_STATE_DONEQ else cmd_state (ccc_gcmd c h))" for h
    using c'(3,4) by simp
  have "ghd_states (ccc_gcmd c') (wq_complete A g ?d k)"
    using S(1) wq_repr_distinct(5) [OF wq_inv_repr [OF W]] c'(9)
    by (auto simp: ghd_states_def live st split: if_splits)
  moreover have "ghd_throttle c'"
    using S(2) complete_nactive [OF W g c'(1)] c'(6,7) order_trans [OF c'(8)]
    by (simp add: ghd_throttle_def max_def split: if_splits)
  ultimately show ?thesis using c' by (auto simp: ghd_inv_def)
qed

context hba_driver
begin

text \<open>One accepted start keeps the invariant and lowers the number of waiting commands.\<close>

lemma accepted:
  assumes inv: "ghd_inv c A" and xs: "wq_hba A = g # xs" and hw: "hw_inv hw_ok owned c A"
    and go: "ccc_nactive c < ccc_maxactive c"
    and st: "start (waitq_take c g) g = Some (True, c')"
  shows "\<exists>B. ghd_inv c' B \<and> hw_inv hw_ok owned c' B \<and> wq_progress A B \<and> wq_waiting B < wq_waiting A \<and>
     ccc_maxactive c' = ccc_maxactive c"
proof -
  note i = waitq_take_inv [OF ghd_invD(1) [OF inv] xs]
  let ?A = "A\<lparr>wq_hba := xs\<rparr>"
  have j: "ghd_inv (waitq_take c g) ?A" by (rule ghd_inv_take [OF inv xs go])
  have pg: "wq_progress A ?A" by (rule wq_progress_queues) simp_all
  have lt: "wq_waiting ?A < wq_waiting A" by (rule waitq_take_waiting [OF ghd_invD(1) [OF inv] xs])
  note st_take = started_take [OF ghd_invD(1) [OF inv] xs]
  obtain h where h: "hw_ok h" and c': "c' = (waitq_take c g)\<lparr>ccc_hba := h\<rparr> \<and> owned h \<subseteq> owned (ccc_hba c) \<union> {g} \<or>
      owned h \<subseteq> owned (ccc_hba c) \<and> GHD_COMPLETE ((waitq_take c g)\<lparr>ccc_hba := h\<rparr>) g = Some c'"
    using start_outcome [OF i(1), of g] i st hw st_take by (auto simp: hw_inv_def)
  from c' show ?thesis
  proof
    assume "c' = (waitq_take c g)\<lparr>ccc_hba := h\<rparr> \<and> owned h \<subseteq> owned (ccc_hba c) \<union> {g}"
    then show ?thesis
      using ghd_inv_hba [OF j] h pg lt i hw st_take by (intro exI [of _ ?A]) (auto simp: hw_inv_def)
  next
    assume cpl: "owned h \<subseteq> owned (ccc_hba c) \<and> GHD_COMPLETE ((waitq_take c g)\<lparr>ccc_hba := h\<rparr>) g = Some c'"
    have gl: "g \<in> wq_live ?A" using i(2) by simp
    from complete_ghd_spec [OF ghd_inv_hba [OF j, of h] gl] cpl obtain d k where
      B: "ghd_inv c' (wq_complete ?A g d k)" "ccc_hba c' = h"
        "ccc_maxactive c' = ccc_maxactive (waitq_take c g)" by auto
    moreover have "wq_waiting (wq_complete ?A g d k) < wq_waiting A"
      using wq_waiting_complete [of ?A g d k] lt wq_inv_finite [OF ghd_invD(1) [OF inv]] by simp
    moreover have "hw_inv hw_ok owned c' (wq_complete ?A g d k)"
      using h B(2) cpl hw st_take by (auto simp: hw_inv_def)
    ultimately show ?thesis
      using i wq_progress_trans [OF pg wq_progress_complete [OF gl]]
      by (intro exI [of _ "wq_complete ?A g d k"]) simp
  qed
qed

text \<open>The loop returns, keeps the invariant, never exceeds the throttle, completes requests in
  order behind the done queue, and stops only for one of the reasons the code names.\<close>

lemma process_loop:
  assumes "ghd_inv c A" and "hw_inv hw_ok owned c A"
  shows "\<exists>rc' c' B. sol11ghd_waitq_process_loop start k rc c = Some (rc', c') \<and> ghd_inv c' B \<and>
     hw_inv hw_ok owned c' B \<and> wq_progress A B \<and> wq_waiting B \<le> wq_waiting A \<and>
     ccc_maxactive c' = ccc_maxactive c \<and>
     process_stop start k c' B \<and> (rc \<longrightarrow> rc') \<and> (rc' \<longrightarrow> rc \<or> wq_waiting B < wq_waiting A)"
  using assms
proof (induction "wq_waiting A" arbitrary: c A rc rule: less_induct)
  case less
  note W = ghd_invD(1) [OF less.prems(1)]
  show ?case
  proof (cases "wq_hba A \<noteq> [] \<and> ccc_nactive c < ccc_maxactive c \<and>
      \<not> ccc_waitq_held c \<and> \<not> (ccc_waitq_frozen c \<and> 0 < freeze_time_to_wait k c)")
    case False
    then have "sol11ghd_waitq_process_loop start k rc c = Some (rc, c)"
      by (subst sol11ghd_waitq_process_loop.simps) (auto simp: wq_hba_empty [OF W])
    moreover have "process_stop start k c A" using False by (auto simp: process_stop_def)
    ultimately show ?thesis using less.prems by (intro exI [of _ rc] exI [of _ c] exI [of _ A]) simp
  next
    case True
    then have go: "ccc_nactive c < ccc_maxactive c" "\<not> ccc_waitq_held c"
      "\<not> (ccc_waitq_frozen c \<and> 0 < freeze_time_to_wait k c)" by auto
    from True obtain g xs where xs: "wq_hba A = g # xs" by (cases "wq_hba A") auto
    note step = process_loop_step [OF W xs go]
    note i = waitq_take_inv [OF W xs]
    note st_take = started_take [OF W xs]
    have pre: "g \<in> wq_started (A\<lparr>wq_hba := xs\<rparr>)" "hw_ok (ccc_hba (waitq_take c g))"
      "owned (ccc_hba (waitq_take c g)) \<subseteq> wq_started (A\<lparr>wq_hba := xs\<rparr>) - {g}"
      using i(6) less.prems(2) st_take by (auto simp: hw_inv_def)
    from start_outcome [OF i(1) pre] obtain ok c1 h where r: "start (waitq_take c g) g = Some (ok, c1)" "hw_ok h"
        "c1 = (waitq_take c g)\<lparr>ccc_hba := h\<rparr> \<and> owned h \<subseteq> owned (ccc_hba (waitq_take c g)) \<union> (if ok then {g} else {}) \<or> ok"
      by blast
    then have c1: "start (waitq_take c g) g = Some (ok, c1)" "hw_ok h"
        "c1 = (waitq_take c g)\<lparr>ccc_hba := h\<rparr> \<and> (\<not> ok \<longrightarrow> owned h \<subseteq> owned (ccc_hba c)) \<or> ok"
      using i(6) by (cases ok; simp)+
    show ?thesis
    proof (cases ok)
      case True
      then have st: "start (waitq_take c g) g = Some (True, c1)" using c1(1) by simp
      from accepted [OF less.prems(1) xs less.prems(2) go(1) st] obtain B where
        B: "ghd_inv c1 B" "hw_inv hw_ok owned c1 B" "wq_progress A B" "wq_waiting B < wq_waiting A"
          "ccc_maxactive c1 = ccc_maxactive c" by blast
      from less.hyps [OF B(4,1,2), of True] obtain rc' c' C where
        C: "sol11ghd_waitq_process_loop start k True c1 = Some (rc', c')" "ghd_inv c' C" "hw_inv hw_ok owned c' C"
        "wq_progress B C" "wq_waiting C \<le> wq_waiting B" "ccc_maxactive c' = ccc_maxactive c1"
        "process_stop start k c' C" "rc'"
        by auto
      moreover have "sol11ghd_waitq_process_loop start k rc c = sol11ghd_waitq_process_loop start k True c1"
        using step st by simp
      ultimately show ?thesis using B wq_progress_trans [OF B(3) C(4)]
        by (intro exI [of _ rc'] exI [of _ c'] exI [of _ C]) simp
    next
      case False
      then have c1': "c1 = (waitq_take c g)\<lparr>ccc_hba := h\<rparr>" "owned h \<subseteq> owned (ccc_hba c)" using c1(3) by simp_all
      have Aeq: "A\<lparr>wq_hba := g # xs\<rparr> = A" using xs by (simp add: wq.equality)
      have "ghd_inv (waitq_requeue c1 g) A"
        using ghd_inv_requeue [OF ghd_inv_hba [OF ghd_inv_take [OF less.prems(1) xs go(1)]], of g h] i
        by (simp add: c1'(1) Aeq)
      moreover have "sol11ghd_waitq_process_loop start k rc c = Some (rc, waitq_requeue c1 g)"
        using step c1(1) False by simp
      moreover have "ccc_hba (waitq_requeue c1 g) = h"
        "ccc_maxactive (waitq_requeue c1 g) = ccc_maxactive c"
        using i by (simp_all add: waitq_requeue_def Let_def c1'(1))
      moreover have "process_stop start k (waitq_requeue c1 g) A"
        using c1(1) False xs by (auto simp: process_stop_def)
      moreover have "hw_inv hw_ok owned (waitq_requeue c1 g) A"
        using c1(2) c1'(2) less.prems(2) \<open>ccc_hba (waitq_requeue c1 g) = h\<close> by (auto simp: hw_inv_def)
      ultimately show ?thesis
        by (intro exI [of _ rc] exI [of _ "waitq_requeue c1 g"] exI [of _ A]) simp
    qed
  qed
qed

lemma process_exit:
  assumes "ghd_inv c A" and "hw_inv hw_ok owned c A"
  shows "\<exists>c' B. sol11ghd_waitq_process_and_mutex_exit start k c = Some c' \<and> ghd_inv c' B \<and>
     hw_inv hw_ok owned c' B \<and> wq_progress A B \<and> ccc_maxactive c' = ccc_maxactive c \<and>
     process_stop start k c' B"
  using process_loop [OF assms, of k False]
  by (auto simp: sol11ghd_waitq_process_and_mutex_exit_def sol11ghd_waitq_process_and_mutex_hold_def)

end

subsection \<open>Queueing a request\<close>

lemma idle_unqueued:
  assumes "ghd_inv c A" and "cmd_state (ccc_gcmd c g) = GCMD_STATE_IDLE"
  shows "g \<notin> wq_live A" "\<not> wq_queued A g" "g \<notin> set (wq_timer A)"
proof -
  note S = ghd_invD(2) [OF assms(1)] and L = wq_inv_levels [OF ghd_invD(1) [OF assms(1)]]
  show l: "g \<notin> wq_live A" using S assms(2) by (auto simp: ghd_states_def)
  show "\<not> wq_queued A g" using S L l assms(2) by (auto simp: wq_queued_def ghd_states_def wq_levels_def)
  show "g \<notin> set (wq_timer A)" using S l by (auto simp: ghd_states_def)
qed

definition wq_submit :: "wq \<Rightarrow> nat \<Rightarrow> nat \<Rightarrow> wq" where
  "wq_submit A g d = A\<lparr>wq_dev := (wq_dev A)(d := wq_dev A d @ [g]),
                       wq_live := insert g (wq_live A), wq_timer := wq_timer A @ [g]\<rparr>"

lemma wq_submit_frame:
  "wq_live (wq_submit A g d) = insert g (wq_live A)" "wq_done (wq_submit A g d) = wq_done A"
  "wq_hold (wq_submit A g d) = wq_hold A" "wq_timer (wq_submit A g d) = wq_timer A @ [g]"
  by (simp_all add: wq_submit_def)

lemma started_submit:
  "g \<notin> wq_started A \<Longrightarrow> wq_started (wq_submit A g d) = wq_started A"
  by (auto simp: wq_started_def wq_submit_def)

text \<open>The new command is at level 1, last on its device's queue.\<close>

lemma transport_add_frame:
  "ccc_gdev (transport_add k c g d t) = ccc_gdev c" "ccc_hba (transport_add k c g d t) = ccc_hba c"
  "ccc_maxactive (transport_add k c g d t) = ccc_maxactive c"
  "ccc_nactive (transport_add k c g d t) = ccc_nactive c"
  "cmd_state (ccc_gcmd (transport_add k c g d t) h) =
     (if h = g then GCMD_STATE_WAITQ else cmd_state (ccc_gcmd c h))"
  "cmd_waitq_level (ccc_gcmd (transport_add k c g d t) h) =
     (if h = g then 1 else cmd_waitq_level (ccc_gcmd c h))"
  "cmd_gdev (ccc_gcmd (transport_add k c g d t) h) = cmd_gdev (ccc_gcmd c h)"
  by (simp_all add: transport_add_def sol11ghd_timer_start_def Let_def)

lemma submit_inv:
  assumes inv: "ghd_inv c A" and g: "cmd_state (ccc_gcmd c g) = GCMD_STATE_IDLE" "cmd_gdev (ccc_gcmd c g) = d"
  shows "ghd_inv (transport_add k c g d t) (wq_submit A g d)"
proof -
  define c1 where "c1 = upd_gcmd g (\<lambda>r. r\<lparr>cmd_waitq_level := 1\<rparr>) c"
  define c2 where "c2 = c1\<lparr>ccc_l2 := L2_add (ccc_l2 c1) (DevQ d) (CmdQ g) g\<rparr>"
  define c3 where "c3 = upd_gcmd g (\<lambda>r. r\<lparr>cmd_state := GCMD_STATE_WAITQ\<rparr>) c2"
  note W = ghd_invD(1) [OF inv] and n = idle_unqueued [OF inv g(1)]
  let ?B = "A\<lparr>wq_dev := (wq_dev A)(d := wq_dev A d @ [g]), wq_live := insert g (wq_live A)\<rparr>"
  have gc: "cmd_waitq_level (ccc_gcmd c3 h) = (if h = g then 1 else cmd_waitq_level (ccc_gcmd c h))"
    "cmd_gdev (ccc_gcmd c3 h) = cmd_gdev (ccc_gcmd c h)" for h
    by (simp_all add: c3_def c2_def c1_def)
  have dev: "g \<notin> set (wq_dev A d')" "g \<notin> set (wq_hba A)" for d'
    using n(2) by (auto simp: wq_queued_def)
  have "wq_levels (ccc_gcmd c3) ?B"
    using wq_inv_levels [OF W] n g(2) dev unfolding wq_levels_def gc wq_queued_def by auto
  moreover have "wq_past_dev (ccc_gcmd c3) ?B d' = wq_past_dev (ccc_gcmd c) A d'" for d'
    using n(1) by (auto simp: wq_past_dev_def gc)
  moreover have "wq_past_hba (ccc_gcmd c3) ?B = wq_past_hba (ccc_gcmd c) A"
    using n(1) by (auto simp: wq_past_hba_def gc)
  moreover have "L2_repr (L2_add (ccc_l2 c) (DevQ d) (CmdQ g) g)
      ((wq_content A)(DevQ d \<mapsto> map cq (wq_dev A d @ [g])))"
    by (rule wq_add(1) [OF wq_inv_repr [OF W] _ n(2)]) simp
  then have "wq_repr c3 (A\<lparr>wq_dev := (wq_dev A)(d := wq_dev A d @ [g])\<rparr>)"
    by (simp only: wq_content_upd) (simp add: wq_repr_def c3_def c2_def c1_def)
  moreover have "wq_content ?B = wq_content (A\<lparr>wq_dev := (wq_dev A)(d := wq_dev A d @ [g])\<rparr>)"
    (is "?l = ?r")
  proof
    show "?l a = ?r a" for a by (cases a) simp_all
  qed
  ultimately have "wq_inv c3 ?B"
    using wq_inv_counts [OF W] unfolding wq_inv_def wq_counts_def wq_repr_def
    by (simp add: c3_def c2_def c1_def)
  from timer_start_inv [OF this] n(3) have "wq_inv (transport_add k c g d t) (wq_submit A g d)"
    by (simp add: wq_submit_def transport_add_def c3_def c2_def c1_def Let_def)
  moreover have "ghd_states (ccc_gcmd (transport_add k c g d t)) (wq_submit A g d)"
    using ghd_invD(2) [OF inv] n
      started_submit [of g A d]
    by (auto simp: ghd_states_def transport_add_frame wq_queued_def wq_started_def [of A] wq_submit_frame)
  moreover have "ghd_throttle (transport_add k c g d t)"
    using ghd_invD(3) [OF inv] by (simp add: ghd_throttle_def transport_add_frame)
  ultimately show ?thesis by (simp add: ghd_inv_def)
qed

lemma wq_promote_frame [simp]:
  "wq_done (wq_promote A d k) = wq_done A" "wq_hold (wq_promote A d k) = wq_hold A"
  "wq_timer (wq_promote A d k) = wq_timer A"
  by (simp_all add: wq_promote_def)

lemma transport_enqueue_spec:
  assumes inv: "ghd_inv c A" and g: "cmd_state (ccc_gcmd c g) = GCMD_STATE_IDLE" "cmd_gdev (ccc_gcmd c g) = d"
  shows "\<exists>c' n. transport_enqueue k c g d t = Some c' \<and> ghd_inv c' (wq_promote (wq_submit A g d) d n) \<and>
     n = shuffle_quota (ccc_gdev c d) (Suc (length (wq_dev A d))) \<and>
     cmd_state (ccc_gcmd c' g) = GCMD_STATE_WAITQ \<and>
     ccc_hba c' = ccc_hba c \<and> ccc_maxactive c' = ccc_maxactive c"
proof -
  let ?B = "wq_submit A g d"
  define c4 where "c4 = transport_add k c g d t"
  define n where "n = shuffle_quota (ccc_gdev c4 d) (length (wq_dev ?B d))"
  have i4: "ghd_inv c4 ?B"
    using submit_inv [OF inv g, of k t] by (simp add: c4_def)
  note c4 = ghd_invD(1) [OF i4]
  from shuffle_up_spec [OF c4 n_def] obtain c' where c':
    "sol11ghd_waitq_shuffle_up c4 d = Some c'" "wq_inv c' (wq_promote ?B d n)"
    "shuffle_frame c4 c' d (take n (wq_dev ?B d))" by blast
  note f4 = transport_add_frame [of k c g d t, folded c4_def]
  note fr = shuffle_frameD [OF c'(3)]
  have lvl: "cmd_waitq_level (ccc_gcmd c4 h) = 3 \<Longrightarrow> cmd_waitq_level (ccc_gcmd c' h) = 3" for h
    using wq_levels_devD [OF wq_inv_levels [OF c4], of h d] c'(3) in_set_takeD [of h n "wq_dev ?B d"]
    unfolding shuffle_frame_def by (cases "h \<in> set (take n (wq_dev ?B d))") auto
  have st: "cmd_state (ccc_gcmd c' h) = (if h = g then GCMD_STATE_WAITQ else cmd_state (ccc_gcmd c h))" for h
    using fr(8) f4(5) by simp
  have lv: "cmd_waitq_level (ccc_gcmd c' h) = 3" if "cmd_waitq_level (ccc_gcmd c h) = 3" "h \<noteq> g" for h
    using lvl [of h] f4(6) [of h] that by simp
  note S = ghd_invD(2,3) [OF inv] and u = idle_unqueued [OF inv g(1)]
  have "ghd_states (ccc_gcmd c') (wq_promote ?B d n)"
    using S(1) u lv started_submit [of g A d]
    by (auto simp: ghd_states_def st wq_queued_def wq_submit_frame wq_started_def [of A])
  moreover have "gd_nactive (ccc_gdev c' d') \<le> gd_maxactive (ccc_gdev c' d')" for d'
    using shuffle_quota_bound [of "ccc_gdev c d" "length (wq_dev ?B d)"] S(2) c'(3) set_take_subset [of n]
    by (auto simp: ghd_throttle_def shuffle_frame_def f4 n_def max_def min_def split: if_splits)
  then have "ghd_throttle c'" using S(2) fr f4 by (simp add: ghd_throttle_def)
  moreover have "transport_enqueue k c g d t = Some c'"
    using c'(1) by (simp add: transport_enqueue_def c4_def)
  moreover have "n = shuffle_quota (ccc_gdev c d) (Suc (length (wq_dev A d)))"
    by (simp add: n_def f4 wq_submit_def)
  ultimately show ?thesis using c'(2) fr f4 st
    by (intro exI [of _ c'] exI [of _ n]) (simp add: ghd_inv_def)
qed

end
