(* ===== verification/Ghd_System.thy ===== *)
theory Ghd_System
  imports Ghd_Process
begin

text \<open>
  The generic driver as a transition system. A step is one section of code that runs under
  the driver's mutexes: a transport (with or without getting the HBA mutex), the
  completion of an active request by the interrupt handler, a pass over the wait queue, one
  iteration of the done queue's soft interrupt, and the calls that hold, freeze or poll the queues.
  The steps of different threads interleave freely.
\<close>

subsection \<open>Done queue processing and initial state\<close>

text \<open>One iteration of \<open>ghd_doneq_process\<close>; \<open>None\<close> is the loop's exit. The result is the command
  to hand to \<open>ccc_hba_complete\<close>, or none for a reset notification.\<close>

definition GCMDFLG_RESET_NOTIFY :: u32 where
  "GCMDFLG_RESET_NOTIFY = 1"

definition ghd_doneq_process1 :: "'hw ccc_t \<Rightarrow> (nat option \<times> 'hw ccc_t) option" where
  "ghd_doneq_process1 c =
    (if ccc_hba_pollmode c then None
     else (case ghd_doneq_get c of
         (None, c) \<Rightarrow> None
       | (Some g, c) \<Rightarrow>
           (if cmd_flags (ccc_gcmd c g) AND GCMDFLG_RESET_NOTIFY \<noteq> 0 then Some (None, c)
            else Some (Some g, upd_gcmd g (\<lambda>r. r\<lparr>cmd_state := GCMD_STATE_IDLE\<rparr>) c))))"

text \<open>The whole handler, with the driver's completion routine as an argument. It loops as
  long as completions keep coming.\<close>

partial_function (option) ghd_doneq_process ::
  "('hw ccc_t \<Rightarrow> nat \<Rightarrow> 'hw ccc_t) \<Rightarrow> 'hw ccc_t \<Rightarrow> 'hw ccc_t option" where
  "ghd_doneq_process hba_complete c =
    (case ghd_doneq_process1 c of
       None \<Rightarrow> Some c
     | Some (None, c) \<Rightarrow> ghd_doneq_process hba_complete c
     | Some (Some g, c) \<Rightarrow> ghd_doneq_process hba_complete (hba_complete c g))"

text \<open>The state after \<open>sol11ghd_register\<close>, \<open>GHD_WAITQ_INIT\<close> and the target attaches: zeroed
  structures, every list header and link initialised by \<open>L2_INIT\<close>.\<close>

definition ghd_zalloc :: "'hw \<Rightarrow> 'hw ccc_t" where
  "ghd_zalloc hw = \<lparr>ccc_l2 = (\<lambda>a. \<lparr>l2_nextp = a, l2_prevp = a, l2_private = None\<rparr>),
     ccc_gcmd = (\<lambda>g. \<lparr>cmd_state = GCMD_STATE_IDLE, cmd_waitq_level = 0, cmd_flags = 0,
        cmd_start_time = 0, cmd_timeout = 0, cmd_gdev = 0\<rparr>),
     ccc_gdev = (\<lambda>d. \<lparr>gd_nactive = 0, gd_maxactive = 1, gd_ninstances = 1\<rparr>),
     ccc_nactive = 0, ccc_maxactive = 1, ccc_waitq_held = False, ccc_waitq_frozen = False,
     ccc_waitq_freezetime = 0, ccc_waitq_freezedelay = 0, ccc_timeout_pending = False,
     ccc_hba_pollmode = False, ccc_doneq_softintr = 0, ccc_hba = hw\<rparr>"

definition wq_empty :: wq where
  "wq_empty = \<lparr>wq_dev = (\<lambda>d. []), wq_hba = [], wq_done = [], wq_hold = [], wq_timer = [], wq_live = {}\<rparr>"

text \<open>Initial states of the system: any devices, throttles and target instances, nothing queued.\<close>

definition ghd_initial :: "'hw ccc_t \<Rightarrow> bool" where
  "ghd_initial c \<longleftrightarrow> ccc_l2 c = ccc_l2 (ghd_zalloc (ccc_hba c)) \<and> ccc_nactive c = 0 \<and> 0 \<le> ccc_maxactive c \<and>
     (\<forall>d. gd_nactive (ccc_gdev c d) = 0 \<and> 0 \<le> gd_maxactive (ccc_gdev c d)) \<and>
     (\<forall>g. cmd_state (ccc_gcmd c g) = GCMD_STATE_IDLE)"

lemma ghd_zalloc_initial: "ghd_initial (ghd_zalloc hw)"
  by (simp add: ghd_initial_def ghd_zalloc_def)

lemma initial_repr: "ghd_initial c \<Longrightarrow> wq_repr c wq_empty"
proof -
  assume i: "ghd_initial c"
  have "wq_content wq_empty hp = Some ps \<Longrightarrow> ps = []" for hp ps
    by (cases hp) (auto simp: wq_empty_def)
  with i show ?thesis
    unfolding wq_repr_def L2_repr_def ghd_initial_def ghd_zalloc_def
    by (auto simp: l2_ring_def l2_free_def) fastforce+
qed

lemma initial_inv: "ghd_initial c \<Longrightarrow> ghd_inv c wq_empty"
  using initial_repr [of c]
  by (simp add: ghd_inv_def wq_inv_def wq_levels_def wq_counts_def wq_past_dev_def wq_past_hba_def
    ghd_states_def ghd_throttle_def wq_empty_def ghd_initial_def)

subsection \<open>Steps\<close>

inductive ghd_step :: "'hw hba_start \<Rightarrow> ('hw \<Rightarrow> bool) \<Rightarrow> ('hw \<Rightarrow> nat set) \<Rightarrow> 'hw ccc_t \<Rightarrow> 'hw ccc_t \<Rightarrow> bool"
  for start :: "'hw hba_start" and hw_ok :: "'hw \<Rightarrow> bool" and owned :: "'hw \<Rightarrow> nat set" where
  Transport: "cmd_state (ccc_gcmd c g) = GCMD_STATE_IDLE \<Longrightarrow>
     sol11ghd_transport start k got_mutex c g (cmd_gdev (ccc_gcmd c g)) t = Some c' \<Longrightarrow>
     ghd_step start hw_ok owned c c'"
| Complete: "g \<in> owned (ccc_hba c) \<Longrightarrow> hw_ok h \<Longrightarrow> owned h \<subseteq> owned (ccc_hba c) - {g} \<Longrightarrow>
     GHD_COMPLETE (c\<lparr>ccc_hba := h\<rparr>) g = Some c' \<Longrightarrow> ghd_step start hw_ok owned c c'"
| Process: "sol11ghd_waitq_process_and_mutex_exit start k c = Some c' \<Longrightarrow> ghd_step start hw_ok owned c c'"
| Doneq: "ghd_doneq_process1 c = Some (r, c') \<Longrightarrow> ghd_step start hw_ok owned c c'"
| Poll_enter: "ghd_step start hw_ok owned c (ghd_doneq_pollmode_enter c)"
| Poll_exit: "ghd_step start hw_ok owned c (ghd_doneq_pollmode_exit c)"
| Hold: "ghd_step start hw_ok owned c (ghd_queue_hold c)"
| Unhold: "ghd_step start hw_ok owned c (ghd_queue_unhold c)"
| Freeze: "ghd_step start hw_ok owned c (ghd_freeze_waitq k c delay)"
| Driver: "hw_ok h \<Longrightarrow> owned h \<subseteq> owned (ccc_hba c) \<Longrightarrow> ghd_step start hw_ok owned c (c\<lparr>ccc_hba := h\<rparr>)"

inductive ghd_reachable :: "'hw hba_start \<Rightarrow> ('hw \<Rightarrow> bool) \<Rightarrow> ('hw \<Rightarrow> nat set) \<Rightarrow> 'hw ccc_t \<Rightarrow> bool"
  for start :: "'hw hba_start" and hw_ok :: "'hw \<Rightarrow> bool" and owned :: "'hw \<Rightarrow> nat set" where
  Init: "ghd_initial c \<Longrightarrow> hw_ok (ccc_hba c) \<Longrightarrow> owned (ccc_hba c) = {} \<Longrightarrow> ghd_reachable start hw_ok owned c"
| Step: "ghd_reachable start hw_ok owned c \<Longrightarrow> ghd_step start hw_ok owned c c' \<Longrightarrow> ghd_reachable start hw_ok owned c'"

inductive_cases ghd_stepE: "ghd_step start hw_ok owned c c'"

lemma ghd_inv_cong:
  assumes "ghd_inv c A" and "ccc_l2 c' = ccc_l2 c" "ccc_nactive c' = ccc_nactive c"
    "ccc_gdev c' = ccc_gdev c" "ccc_gcmd c' = ccc_gcmd c" "ccc_maxactive c' = ccc_maxactive c"
  shows "ghd_inv c' A"
proof -
  have "wq_inv c' A" by (rule wq_inv_cong [OF ghd_invD(1) [OF assms(1)]]) (simp_all add: assms)
  with assms show ?thesis by (simp add: ghd_inv_def ghd_throttle_def)
qed

lemma doneq_process1_inv:
  assumes inv: "ghd_inv c A" and st: "ghd_doneq_process1 c = Some (r, c')"
  shows "\<exists>g gs. wq_done A = g # gs \<and> ghd_inv c' (A\<lparr>wq_done := gs\<rparr>) \<and> ccc_hba c' = ccc_hba c \<and>
    (r = Some g \<and> cmd_state (ccc_gcmd c' g) = GCMD_STATE_IDLE \<or> r = None)"
proof -
  note W = ghd_invD(1) [OF inv]
  obtain g gs where gs: "wq_done A = g # gs"
    using doneq_get_inv [OF W] st by (cases "wq_done A") (auto simp: ghd_doneq_process1_def split: if_splits)
  obtain c1 where c1: "ghd_doneq_get c = (Some g, c1)" "wq_inv c1 (A\<lparr>wq_done := gs\<rparr>)"
      "c1 = c\<lparr>ccc_l2 := ccc_l2 c1\<rparr>"
    using doneq_get_inv [OF W] gs by auto
  have f: "ccc_gcmd c1 = ccc_gcmd c" "ccc_gdev c1 = ccc_gdev c" "ccc_nactive c1 = ccc_nactive c"
    "ccc_maxactive c1 = ccc_maxactive c" "ccc_hba c1 = ccc_hba c"
    by (subst c1(3), simp)+
  have nq: "g \<notin> wq_live A" using wq_done_not_live [OF W, of g] gs by simp
  have d: "distinct (wq_done A)" "g \<notin> set (wq_hold A)"
    using wq_repr_distinct(3) [OF wq_inv_repr [OF W]] gs wq_done_hold [OF wq_inv_repr [OF W]] by auto
  have i1: "ghd_inv c1 (A\<lparr>wq_done := gs\<rparr>)"
    using ghd_invD(2,3) [OF inv] c1(2) f gs by (auto simp: ghd_inv_def ghd_states_def ghd_throttle_def)
  let ?c2 = "upd_gcmd g (\<lambda>r. r\<lparr>cmd_state := GCMD_STATE_IDLE\<rparr>) c1"
  have i2: "ghd_inv ?c2 (A\<lparr>wq_done := gs\<rparr>)"
    using ghd_invD(2,3) [OF i1] wq_inv_upd_state [OF ghd_invD(1) [OF i1], of g "\<lambda>_. GCMD_STATE_IDLE"] nq d gs
    by (auto simp: ghd_inv_def ghd_states_def ghd_throttle_def)
  show ?thesis
    using st c1(1) i1 i2 gs f by (auto simp: ghd_doneq_process1_def split: if_splits)
qed

lemma idle_not_started: "ghd_inv c A \<Longrightarrow> cmd_state (ccc_gcmd c g) = GCMD_STATE_IDLE \<Longrightarrow> g \<notin> wq_started A"
  using idle_unqueued(1) [of c A g] by (auto simp: wq_started_def)

context hba_driver
begin

lemma transport_inv:
  assumes inv: "ghd_inv c A" and hw: "hw_inv hw_ok owned c A"
    and g: "cmd_state (ccc_gcmd c g) = GCMD_STATE_IDLE" "cmd_gdev (ccc_gcmd c g) = d"
  shows "\<exists>c' B. sol11ghd_transport start k got_mutex c g d t = Some c' \<and> ghd_inv c' B \<and> hw_inv hw_ok owned c' B \<and>
     wq_progress (wq_submit A g d) B"
proof -
  from transport_enqueue_spec [OF inv g, of k t] obtain c1 n where
    c1: "transport_enqueue k c g d t = Some c1" "ghd_inv c1 (wq_promote (wq_submit A g d) d n)"
      "ccc_hba c1 = ccc_hba c" by blast
  have pg: "wq_progress (wq_submit A g d) (wq_promote (wq_submit A g d) d n)"
    by (rule wq_progress_queues) simp_all
  have hw1: "hw_inv hw_ok owned c1 (wq_promote (wq_submit A g d) d n)"
    by (rule hw_inv_cong [OF hw c1(3)]) (simp add: started_submit [OF idle_not_started [OF inv g(1)]])
  show ?thesis
  proof (cases got_mutex)
    case True
    from process_exit [OF c1(2) hw1, of k] obtain c' B where
      "sol11ghd_waitq_process_and_mutex_exit start k c1 = Some c'" "ghd_inv c' B" "hw_inv hw_ok owned c' B"
      "wq_progress (wq_promote (wq_submit A g d) d n) B" by auto
    with c1 True wq_progress_trans [OF pg] show ?thesis
      by (intro exI [of _ c'] exI [of _ B]) (simp add: sol11ghd_transport_def)
  next
    case False
    with c1 hw1 pg show ?thesis by (auto simp: sol11ghd_transport_def)
  qed
qed

lemma complete_owned:
  assumes inv: "ghd_inv c A" and hw: "hw_inv hw_ok owned c A" and g: "g \<in> owned (ccc_hba c)"
    and h: "hw_ok h" "owned h \<subseteq> owned (ccc_hba c) - {g}"
  shows "\<exists>c' B. GHD_COMPLETE (c\<lparr>ccc_hba := h\<rparr>) g = Some c' \<and> ghd_inv c' B \<and> hw_inv hw_ok owned c' B \<and> wq_progress A B"
proof -
  have l: "g \<in> wq_live A" using g hw by (auto simp: hw_inv_def wq_started_def)
  from complete_ghd_spec [OF ghd_inv_hba [OF inv, of h] l] obtain c' d k where
    c': "GHD_COMPLETE (c\<lparr>ccc_hba := h\<rparr>) g = Some c'" "ghd_inv c' (wq_complete A g d k)" "ccc_hba c' = h" by auto
  have "hw_inv hw_ok owned c' (wq_complete A g d k)"
    using hw h c'(3) by (auto simp: hw_inv_def)
  with c' wq_progress_complete [OF l] show ?thesis by blast
qed

lemma step_inv:
  assumes "ghd_step start hw_ok owned c c'" and inv: "ghd_inv c A" and hw: "hw_inv hw_ok owned c A"
  shows "\<exists>B. ghd_inv c' B \<and> hw_inv hw_ok owned c' B"
  using assms(1)
proof cases
  case (Transport g k got_mutex t)
  with transport_inv [OF inv hw Transport(1) refl, of k got_mutex t] show ?thesis by auto
next
  case (Complete g h)
  with complete_owned [OF inv hw Complete(1-3)] show ?thesis by auto
next
  case (Process k)
  with process_exit [OF inv hw, of k] show ?thesis by auto
next
  case (Doneq r)
  from doneq_process1_inv [OF inv Doneq(1)] obtain gs where
    "ghd_inv c' (A\<lparr>wq_done := gs\<rparr>)" "ccc_hba c' = ccc_hba c" by auto
  with hw show ?thesis by (intro exI [of _ "A\<lparr>wq_done := gs\<rparr>"]) (simp add: hw_inv_def)
next
  case (Driver h)
  with ghd_inv_hba [OF inv] hw show ?thesis by (auto simp: hw_inv_def)
qed ((rule exI [of _ A], rule conjI, rule ghd_inv_cong [OF inv]);
    use hw in \<open>simp add: ghd_doneq_pollmode_enter_def ghd_doneq_pollmode_exit_def doneq_softintr_def
      Let_def ghd_queue_hold_def ghd_queue_unhold_def ghd_freeze_waitq_def hw_inv_def\<close>)+

lemma reachable_inv: "ghd_reachable start hw_ok owned c \<Longrightarrow> \<exists>A. ghd_inv c A \<and> hw_inv hw_ok owned c A"
proof (induction rule: ghd_reachable.induct)
  case (Init c)
  with initial_inv show ?case by (auto simp: hw_inv_def)
next
  case (Step c c')
  with step_inv show ?case by blast
qed

end

subsection \<open>A concrete state\<close>

text \<open>Two requests submitted to device 0 of a fresh controller, before any promotion.\<close>

definition kenv0 :: kenv where
  "kenv0 = \<lparr>ke_lbolt = 0, ke_usectohz = (\<lambda>u. u div 10000)\<rparr>"

definition ghd_two :: "unit ccc_t" where
  "ghd_two = transport_add kenv0 (transport_add kenv0 (ghd_zalloc ()) 0 0 30) 1 0 30"

definition wq_two :: wq where
  "wq_two = wq_submit (wq_submit wq_empty 0 0) 1 0"

lemma ghd_one_inv: "ghd_inv (transport_add kenv0 (ghd_zalloc ()) 0 0 30) (wq_submit wq_empty 0 0)"
  by (rule submit_inv [OF initial_inv [OF ghd_zalloc_initial]]) (simp_all add: ghd_zalloc_def)

lemma ghd_two_inv: "ghd_inv ghd_two wq_two"
  unfolding ghd_two_def wq_two_def
  by (rule submit_inv [OF ghd_one_inv]) (simp_all add: transport_add_frame ghd_zalloc_def)

lemma wq_two_simps [simp]:
  "wq_dev wq_two = (\<lambda>d. if d = 0 then [0, 1] else [])" "wq_hba wq_two = []" "wq_live wq_two = {0, 1}"
  "wq_done wq_two = []" "wq_timer wq_two = [0, 1]" "wq_hold wq_two = []"
  by (auto simp: wq_two_def wq_submit_def wq_empty_def fun_eq_iff)

lemma ghd_two_gdev: "ccc_gdev ghd_two d = \<lparr>gd_nactive = 0, gd_maxactive = 1, gd_ninstances = 1\<rparr>"
  by (simp add: ghd_two_def transport_add_frame ghd_zalloc_def)

subsection \<open>Properties\<close>

text \<open>C21: \<open>sol11ghd_waitq_shuffle_up\<close> always returns. It moves requests first-in first-out from the
  head of the device's queue to the tail of the HBA queue, exactly as many as the device's throttle
  admits (at most one, and only to an idle device, when several target instances share it), counts them,
  never exceeds the throttle by them, and keeps the invariant of the queues.\<close>

theorem waitq_shuffle_up_correct:
  fixes d :: nat
  assumes "wq_inv c A"
  defines "k \<equiv> shuffle_quota (ccc_gdev c d) (length (wq_dev A d))"
  shows "\<exists>c'. sol11ghd_waitq_shuffle_up c d = Some c' \<and>
     wq_inv c' (A\<lparr>wq_dev := (wq_dev A)(d := drop k (wq_dev A d)),
                  wq_hba := wq_hba A @ take k (wq_dev A d)\<rparr>) \<and>
     gd_nactive (ccc_gdev c' d) = gd_nactive (ccc_gdev c d) + int k \<and>
     gd_nactive (ccc_gdev c' d) \<le> max (gd_nactive (ccc_gdev c d)) (gd_maxactive (ccc_gdev c d)) \<and>
     (\<forall>g. cmd_waitq_level (ccc_gcmd c' g) =
        (if g \<in> set (take k (wq_dev A d)) then 2 else cmd_waitq_level (ccc_gcmd c g)))"
proof -
  obtain c' where c': "sol11ghd_waitq_shuffle_up c d = Some c'" "wq_inv c' (wq_promote A d k)"
      "shuffle_frame c c' d (take k (wq_dev A d))"
    using shuffle_up_spec [OF assms(1) k_def [THEN meta_eq_to_obj_eq]] by blast
  have "gd_nactive (ccc_gdev c' d) = gd_nactive (ccc_gdev c d) + int k"
    using c'(3) shuffle_quota_len [of "ccc_gdev c d" "length (wq_dev A d)"]
    by (simp add: shuffle_frame_def k_def)
  then show ?thesis
    using c' shuffle_quota_bound [of "ccc_gdev c d" "length (wq_dev A d)"]
    by (intro exI [of _ c']) (simp add: wq_promote_def shuffle_frame_def k_def)
qed

theorem waitq_shuffle_up_witness:
  "\<exists>c'. sol11ghd_waitq_shuffle_up ghd_two 0 = Some c' \<and>
     gd_nactive (ccc_gdev c' 0) = 1 \<and> cmd_waitq_level (ccc_gcmd c' 0) = 2 \<and>
     cmd_waitq_level (ccc_gcmd c' 1) = 1"
  using waitq_shuffle_up_correct [OF ghd_invD(1) [OF ghd_two_inv], of 0]
  by (auto simp: ghd_two_gdev shuffle_quota_def) (simp add: ghd_two_def transport_add_frame)

text \<open>completing an outstanding command, from whichever queue level it has reached, always
  returns and keeps the driver's invariant: the command leaves its wait queue and the timer list,
  is in state \<open>DONEQ\<close> as the last element of the done queue, the counters of the levels it had passed
  drop by one, and the room it frees is given to its device's next requests in order.\<close>

theorem ghd_complete_correct:
  assumes "ghd_inv c A" and "g \<in> wq_live A"
  shows "\<exists>c' k. GHD_COMPLETE c g = Some c' \<and>
     ghd_inv c' ((wq_promote (wq_remove A g) (cmd_gdev (ccc_gcmd c g)) k)
       \<lparr>wq_timer := remove1 g (wq_timer A), wq_done := wq_done A @ [g]\<rparr>) \<and>
     k = shuffle_quota (ccc_gdev (wq_del1 c g) (cmd_gdev (ccc_gcmd c g)))
           (length (wq_dev (wq_remove A g) (cmd_gdev (ccc_gcmd c g)))) \<and>
     cmd_state (ccc_gcmd c' g) = GCMD_STATE_DONEQ \<and>
     ccc_nactive c' = ccc_nactive c - (if cmd_waitq_level (ccc_gcmd c g) = 3 then 1 else 0)"
proof -
  obtain c' k where c': "GHD_COMPLETE c g = Some c'"
      "ghd_inv c' (wq_complete A g (cmd_gdev (ccc_gcmd c g)) k)"
      "cmd_state (ccc_gcmd c' g) = GCMD_STATE_DONEQ"
      "k = shuffle_quota (ccc_gdev (wq_del1 c g) (cmd_gdev (ccc_gcmd c g)))
           (length (wq_dev (wq_remove A g) (cmd_gdev (ccc_gcmd c g))))"
    using complete_ghd_spec [OF assms] by auto
  with complete_nactive [OF ghd_invD(1) [OF assms(1)] assms(2) c'(1)] show ?thesis
    by (intro exI [of _ c'] exI [of _ k]) (simp add: wq_complete_def)
qed

theorem ghd_complete_witness:
  "\<exists>c' k. GHD_COMPLETE ghd_two 0 = Some c' \<and> cmd_state (ccc_gcmd c' 0) = GCMD_STATE_DONEQ \<and>
     ccc_nactive c' = ccc_nactive ghd_two \<and> cmd_waitq_level (ccc_gcmd ghd_two 0) = 1"
  using ghd_complete_correct [OF ghd_two_inv, of 0]
  by (auto simp: ghd_two_def transport_add_frame)

end
