(* ===== verification/Ghd_Timer.thy ===== *)
theory Ghd_Timer
  imports Ghd_System
begin

text \<open>
  Request timeouts, \<open>ghd_timer.c\<close>: the table of recovery timeouts, the scan for expired
  requests, the escalation from aborting a command to resetting the bus
  (\<open>sol11ghd_timer_newstate\<close>), the poll that drives it, and the list of controllers behind
  the timeout callback.

  A target instance \<open>gtgt_t\<close> is represented by the number of its device, the only thing the
  timer code uses of it. Messages to the console are left out. The clock does not advance
  inside one call.
\<close>

instantiation cmdstate_t :: linorder
begin

text \<open>The order of the enumeration in \<open>ghd.h\<close>.\<close>

fun cmdstate_num :: "cmdstate_t \<Rightarrow> nat" where
  "cmdstate_num GCMD_STATE_IDLE = 0"
| "cmdstate_num GCMD_STATE_WAITQ = 1"
| "cmdstate_num GCMD_STATE_ACTIVE = 2"
| "cmdstate_num GCMD_STATE_DONEQ = 3"
| "cmdstate_num GCMD_STATE_ABORTING_CMD = 4"
| "cmdstate_num GCMD_STATE_ABORTING_DEV = 5"
| "cmdstate_num GCMD_STATE_RESETTING_DEV = 6"
| "cmdstate_num GCMD_STATE_RESETTING_BUS = 7"
| "cmdstate_num GCMD_STATE_HUNG = 8"

definition less_eq_cmdstate_t :: "cmdstate_t \<Rightarrow> cmdstate_t \<Rightarrow> bool" where
  "a \<le> b \<longleftrightarrow> cmdstate_num a \<le> cmdstate_num b"

definition less_cmdstate_t :: "cmdstate_t \<Rightarrow> cmdstate_t \<Rightarrow> bool" where
  "a < b \<longleftrightarrow> cmdstate_num a < cmdstate_num b"

instance
proof
  fix a b :: cmdstate_t
  show "a \<le> b \<Longrightarrow> b \<le> a \<Longrightarrow> a = b"
    by (cases a; cases b) (simp_all add: less_eq_cmdstate_t_def)
qed (auto simp: less_eq_cmdstate_t_def less_cmdstate_t_def)

end

subsection \<open>The timeout table\<close>

definition ghd_time_inits :: "(bool \<times> cmdstate_t \<times> int) list" where
  "ghd_time_inits =
    [(True, GCMD_STATE_ABORTING_CMD, 3), (True, GCMD_STATE_ABORTING_DEV, 3),
     (True, GCMD_STATE_RESETTING_DEV, 5), (True, GCMD_STATE_RESETTING_BUS, 10),
     (True, GCMD_STATE_HUNG, 60),
     (False, GCMD_STATE_IDLE, 0), (False, GCMD_STATE_IDLE, 0), (False, GCMD_STATE_IDLE, 0),
     (False, GCMD_STATE_IDLE, 0), (False, GCMD_STATE_IDLE, 0)]"

text \<open>The loop of \<open>sol11ghd_timer_init\<close> that fills \<open>ghd_timeout_table\<close> (zeroed static storage).\<close>

fun timer_init_table :: "(bool \<times> cmdstate_t \<times> int) list \<Rightarrow> (cmdstate_t \<Rightarrow> int) \<Rightarrow> cmdstate_t \<Rightarrow> int" where
  "timer_init_table [] tab = tab"
| "timer_init_table ((valid, state, value) # rest) tab =
     timer_init_table rest (if valid then tab(state := value) else tab)"

definition ghd_timeout_table :: "cmdstate_t \<Rightarrow> int" where
  "ghd_timeout_table = timer_init_table ghd_time_inits (\<lambda>_. 0)"

subsection \<open>Expired requests\<close>

definition gcmd_expired :: "kenv \<Rightarrow> gcmd_t \<Rightarrow> bool" where
  "gcmd_expired k r \<longleftrightarrow> 0 < cmd_timeout r \<and> cmd_timeout r \<le> word_of_int (ke_lbolt k) - cmd_start_time r"

partial_function (option) ghd_timeout_loop_from :: "kenv \<Rightarrow> 'hw ccc_t \<Rightarrow> nat option \<Rightarrow> bool \<Rightarrow> bool option" where
  "ghd_timeout_loop_from k c gcmdp got_any =
    (case gcmdp of
       None \<Rightarrow> Some got_any
     | Some g \<Rightarrow> ghd_timeout_loop_from k c (L2_next (ccc_l2 c) (TimerL g))
                  (got_any \<or> gcmd_expired k (ccc_gcmd c g)))"

definition ghd_timeout_loop :: "kenv \<Rightarrow> 'hw ccc_t \<Rightarrow> bool option" where
  "ghd_timeout_loop k c = ghd_timeout_loop_from k c (L2_next (ccc_l2 c) ActiveL) False"

partial_function (option) ghd_timeout_get_from :: "kenv \<Rightarrow> 'hw ccc_t \<Rightarrow> nat option \<Rightarrow> (nat option \<times> 'hw ccc_t) option" where
  "ghd_timeout_get_from k c gcmdp =
    (case gcmdp of
       None \<Rightarrow> Some (None, c)
     | Some g \<Rightarrow>
         if gcmd_expired k (ccc_gcmd c g)
         then Some (Some g, c\<lparr>ccc_l2 := L2_delete (ccc_l2 c) (TimerL g)\<rparr>)
         else ghd_timeout_get_from k c (L2_next (ccc_l2 c) (TimerL g)))"

definition ghd_timeout_get :: "kenv \<Rightarrow> 'hw ccc_t \<Rightarrow> (nat option \<times> 'hw ccc_t) option" where
  "ghd_timeout_get k c = ghd_timeout_get_from k c (L2_next (ccc_l2 c) ActiveL)"

subsection \<open>Escalation\<close>

text \<open>\<open>ccc_timeout_func\<close>: the driver's action for a request (or none) and a device; the last argument
  says whether the call is a target request.\<close>

type_synonym 'hw hba_timeout = "'hw ccc_t \<Rightarrow> nat option \<Rightarrow> nat \<Rightarrow> gact_t \<Rightarrow> bool \<Rightarrow> (bool \<times> 'hw ccc_t) option"

fun newstate_next :: "gact_t \<Rightarrow> cmdstate_t \<times> gact_t" where
  "newstate_next GACTION_EARLY_ABORT = (GCMD_STATE_DONEQ, GACTION_ABORT_CMD)"
| "newstate_next GACTION_EARLY_TIMEOUT = (GCMD_STATE_DONEQ, GACTION_ABORT_CMD)"
| "newstate_next GACTION_ABORT_CMD = (GCMD_STATE_ABORTING_CMD, GACTION_ABORT_DEV)"
| "newstate_next GACTION_ABORT_DEV = (GCMD_STATE_ABORTING_DEV, GACTION_RESET_TARGET)"
| "newstate_next GACTION_RESET_TARGET = (GCMD_STATE_RESETTING_DEV, GACTION_RESET_BUS)"
| "newstate_next GACTION_RESET_BUS = (GCMD_STATE_RESETTING_BUS, GACTION_INCOMPLETE)"
| "newstate_next GACTION_INCOMPLETE = (GCMD_STATE_HUNG, GACTION_INCOMPLETE)"

fun gact_rank :: "gact_t \<Rightarrow> nat" where
  "gact_rank GACTION_EARLY_ABORT = 5"
| "gact_rank GACTION_EARLY_TIMEOUT = 5"
| "gact_rank GACTION_ABORT_CMD = 4"
| "gact_rank GACTION_ABORT_DEV = 3"
| "gact_rank GACTION_RESET_TARGET = 2"
| "gact_rank GACTION_RESET_BUS = 1"
| "gact_rank GACTION_INCOMPLETE = 0"

lemma gact_rank_next: "a \<noteq> GACTION_INCOMPLETE \<Longrightarrow> gact_rank (snd (newstate_next a)) < gact_rank a"
  by (cases a) simp_all

text \<open>Set the state of the request and restart its timer from the table.\<close>

definition newstate_enter :: "kenv \<Rightarrow> 'hw ccc_t \<Rightarrow> nat option \<Rightarrow> cmdstate_t \<Rightarrow> 'hw ccc_t" where
  "newstate_enter k c gcmdp next_state =
    (case gcmdp of
       None \<Rightarrow> c
     | Some g \<Rightarrow>
         (let c = upd_gcmd g (\<lambda>r. r\<lparr>cmd_state := next_state\<rparr>) c;
              new_timeout = ghd_timeout_table next_state
          in if new_timeout \<noteq> 0 then sol11ghd_timer_start k c g new_timeout else c))"

text \<open>The loop. The result is the action that took, or none when even the HBA reset failed
  (the function then returns without the final scan).\<close>

function timer_newstate_loop ::
  "'hw hba_timeout \<Rightarrow> kenv \<Rightarrow> 'hw ccc_t \<Rightarrow> nat option \<Rightarrow> nat \<Rightarrow> gact_t \<Rightarrow> bool \<Rightarrow> (gact_t option \<times> 'hw ccc_t) option" where
  "timer_newstate_loop func k c gcmdp gtgtp action tgtreq =
    (let next_state = fst (newstate_next action);
         next_action = snd (newstate_next action);
         c = newstate_enter k c gcmdp next_state
     in if action = GACTION_RESET_BUS \<and> ccc_waitq_frozen c then Some (Some action, c)
        else (case func c gcmdp gtgtp action tgtreq of
                None \<Rightarrow> None
              | Some (took, c) \<Rightarrow>
                  if took then Some (Some action, c)
                  else if action = GACTION_INCOMPLETE then Some (None, c)
                  else (let c = (case gcmdp of
                                   Some g \<Rightarrow> if ghd_timeout_table next_state \<noteq> 0 then GHD_TIMER_STOP c g else c
                                 | None \<Rightarrow> c)
                        in timer_newstate_loop func k c gcmdp gtgtp next_action tgtreq)))"
  by pat_completeness auto
termination
  by (relation "measure (\<lambda>(func, k, c, gcmdp, gtgtp, action, tgtreq). gact_rank action)")
    (auto simp: gact_rank_next)

declare timer_newstate_loop.simps [simp del]

text \<open>The final scan raises the state of the other requests the action also hit.\<close>

fun newstate_scan_state :: "gact_t \<Rightarrow> cmdstate_t option" where
  "newstate_scan_state GACTION_ABORT_DEV = Some GCMD_STATE_ABORTING_DEV"
| "newstate_scan_state GACTION_RESET_TARGET = Some GCMD_STATE_RESETTING_DEV"
| "newstate_scan_state GACTION_RESET_BUS = Some GCMD_STATE_RESETTING_BUS"
| "newstate_scan_state _ = None"

definition newstate_scan1 :: "gact_t \<Rightarrow> nat option \<Rightarrow> nat \<Rightarrow> gcmd_t \<Rightarrow> gcmd_t" where
  "newstate_scan1 action gsav gtgtp r =
    (if cmd_state r \<le> GCMD_STATE_WAITQ then r
     else (case newstate_scan_state action of
         None \<Rightarrow> r
       | Some s \<Rightarrow>
           if action = GACTION_RESET_BUS \<or> gsav = Some (cmd_gdev r) \<or> cmd_gdev r = gtgtp
           then (if cmd_state r < s then r\<lparr>cmd_state := s\<rparr> else r) else r))"

partial_function (option) newstate_scan :: "gact_t \<Rightarrow> nat option \<Rightarrow> nat \<Rightarrow> 'hw ccc_t \<Rightarrow> nat option \<Rightarrow> 'hw ccc_t option" where
  "newstate_scan action gsav gtgtp c gcmdp =
    (case gcmdp of
       None \<Rightarrow> Some c
     | Some g \<Rightarrow>
         (let c = upd_gcmd g (newstate_scan1 action gsav gtgtp) c
          in newstate_scan action gsav gtgtp c (L2_next (ccc_l2 c) (TimerL g))))"

definition sol11ghd_timer_newstate ::
  "'hw hba_timeout \<Rightarrow> kenv \<Rightarrow> 'hw ccc_t \<Rightarrow> nat option \<Rightarrow> nat \<Rightarrow> gact_t \<Rightarrow> bool \<Rightarrow> 'hw ccc_t option" where
  "sol11ghd_timer_newstate func k c gcmdp gtgtp action tgtreq =
    (let gsav = map_option (\<lambda>g. cmd_gdev (ccc_gcmd c g)) gcmdp in
     case timer_newstate_loop func k c gcmdp gtgtp action tgtreq of
       None \<Rightarrow> None
     | Some (None, c) \<Rightarrow> Some c
     | Some (Some action, c) \<Rightarrow> newstate_scan action gsav gtgtp c (L2_next (ccc_l2 c) ActiveL))"

subsection \<open>Polling\<close>

fun timer_poll_action :: "cmdstate_t \<Rightarrow> gact_t option" where
  "timer_poll_action GCMD_STATE_IDLE = None"
| "timer_poll_action GCMD_STATE_DONEQ = None"
| "timer_poll_action GCMD_STATE_WAITQ = Some GACTION_EARLY_TIMEOUT"
| "timer_poll_action GCMD_STATE_ACTIVE = Some GACTION_ABORT_CMD"
| "timer_poll_action GCMD_STATE_ABORTING_CMD = Some GACTION_ABORT_DEV"
| "timer_poll_action GCMD_STATE_ABORTING_DEV = Some GACTION_RESET_TARGET"
| "timer_poll_action GCMD_STATE_RESETTING_DEV = Some GACTION_RESET_BUS"
| "timer_poll_action GCMD_STATE_RESETTING_BUS = Some GACTION_INCOMPLETE"
| "timer_poll_action GCMD_STATE_HUNG = Some GACTION_INCOMPLETE"

partial_function (option) sol11ghd_timer_poll :: "'hw hba_timeout \<Rightarrow> kenv \<Rightarrow> bool \<Rightarrow> 'hw ccc_t \<Rightarrow> 'hw ccc_t option" where
  "sol11ghd_timer_poll func k poll_one c =
    (case ghd_timeout_get k c of
       None \<Rightarrow> None
     | Some (None, c) \<Rightarrow> Some c
     | Some (Some g, c) \<Rightarrow>
         (case timer_poll_action (cmd_state (ccc_gcmd c g)) of
            None \<Rightarrow> Some c
          | Some action \<Rightarrow>
              (case sol11ghd_timer_newstate func k c (Some g) (cmd_gdev (ccc_gcmd c g)) action False of
                 None \<Rightarrow> None
               | Some c \<Rightarrow> if poll_one then Some c else sol11ghd_timer_poll func k poll_one c)))"

definition ghd_timeout_softintr ::
  "'hw hba_start \<Rightarrow> 'hw hba_timeout \<Rightarrow> kenv \<Rightarrow> 'hw ccc_t \<Rightarrow> 'hw ccc_t option" where
  "ghd_timeout_softintr start func k c =
    (if ccc_timeout_pending c then
       (case sol11ghd_timer_poll func k False (c\<lparr>ccc_timeout_pending := False\<rparr>) of
          None \<Rightarrow> None
        | Some c \<Rightarrow> sol11ghd_waitq_process_and_mutex_exit start k c)
     else if ccc_waitq_frozen c then sol11ghd_waitq_process_and_mutex_exit start k c
     else Some c)"

subsection \<open>The scans follow the active list\<close>

abbreviation opt_hd :: "'b list \<Rightarrow> 'b option" where
  "opt_hd xs \<equiv> (case xs of [] \<Rightarrow> None | x # _ \<Rightarrow> Some x)"

lemma timer_next:
  assumes "wq_repr c A" and "wq_timer A = ys @ g # zs"
  shows "L2_next (ccc_l2 c) (TimerL g) = opt_hd zs"
  using l2.next_elem [of "ccc_l2 c" "wq_content A" ActiveL "map tl_link ys" "TimerL g" g "map tl_link zs"] assms
  by (cases zs) (simp_all add: wq_repr_def)

lemma timer_first: "wq_repr c A \<Longrightarrow> L2_next (ccc_l2 c) ActiveL = opt_hd (wq_timer A)"
  using l2.next_head [of "ccc_l2 c" "wq_content A" ActiveL "map tl_link (wq_timer A)"]
  by (cases "wq_timer A") (simp_all add: wq_repr_def)

lemma timeout_loop_from_spec:
  assumes "wq_repr c A" and "wq_timer A = ys @ zs"
  shows "ghd_timeout_loop_from k c (opt_hd zs) b = Some (b \<or> (\<exists>g\<in>set zs. gcmd_expired k (ccc_gcmd c g)))"
  using assms(2)
proof (induction zs arbitrary: ys b)
  case Nil
  then show ?case by (subst ghd_timeout_loop_from.simps) simp
next
  case (Cons g zs)
  then show ?case
    using Cons.IH [of "ys @ [g]"] timer_next [OF assms(1) Cons.prems]
    by (subst ghd_timeout_loop_from.simps) simp
qed

lemma timeout_get_from_spec:
  assumes "wq_repr c A" and "wq_timer A = ys @ zs"
  shows "ghd_timeout_get_from k c (opt_hd zs) =
    (case List.find (\<lambda>g. gcmd_expired k (ccc_gcmd c g)) zs of
       None \<Rightarrow> Some (None, c)
     | Some g \<Rightarrow> Some (Some g, GHD_TIMER_STOP c g))"
  using assms(2)
proof (induction zs arbitrary: ys)
  case Nil
  then show ?case by (subst ghd_timeout_get_from.simps) simp
next
  case (Cons g zs)
  then show ?case
    using Cons.IH [of "ys @ [g]"] timer_next [OF assms(1) Cons.prems]
    by (subst ghd_timeout_get_from.simps) (simp add: GHD_TIMER_STOP_def)
qed

lemma timeout_get_spec:
  assumes "wq_repr c A"
  shows "ghd_timeout_get k c =
    (case List.find (\<lambda>g. gcmd_expired k (ccc_gcmd c g)) (wq_timer A) of
       None \<Rightarrow> Some (None, c)
     | Some g \<Rightarrow> Some (Some g, GHD_TIMER_STOP c g))"
  using timeout_get_from_spec [OF assms, of "[]" "wq_timer A"] timer_first [OF assms]
  by (simp add: ghd_timeout_get_def)

definition scan_gcmd :: "gact_t \<Rightarrow> nat option \<Rightarrow> nat \<Rightarrow> nat set \<Rightarrow> (nat \<Rightarrow> gcmd_t) \<Rightarrow> nat \<Rightarrow> gcmd_t" where
  "scan_gcmd action gsav gtgtp X gc g = (if g \<in> X then newstate_scan1 action gsav gtgtp (gc g) else gc g)"

lemma scan_gcmd_empty [simp]: "scan_gcmd a s d {} gc = gc"
  by (simp add: scan_gcmd_def fun_eq_iff)

lemma newstate_scan1_frame [simp]:
  "cmd_waitq_level (newstate_scan1 a s d r) = cmd_waitq_level r"
  "cmd_gdev (newstate_scan1 a s d r) = cmd_gdev r"
  "cmd_start_time (newstate_scan1 a s d r) = cmd_start_time r"
  "cmd_timeout (newstate_scan1 a s d r) = cmd_timeout r"
  by (simp_all add: newstate_scan1_def split: option.split)

lemma newstate_scan_spec:
  assumes "wq_repr c A" and "wq_timer A = ys @ zs"
  shows "newstate_scan a s d c (opt_hd zs) = Some (c\<lparr>ccc_gcmd := scan_gcmd a s d (set zs) (ccc_gcmd c)\<rparr>)"
  using assms
proof (induction zs arbitrary: ys c)
  case Nil
  then show ?case by (subst newstate_scan.simps) simp
next
  case (Cons g zs)
  let ?c = "upd_gcmd g (newstate_scan1 a s d) c"
  have R: "wq_repr ?c A" using Cons.prems(1) by (simp add: wq_repr_def)
  have "distinct (g # zs)" using wq_repr_distinct(5) [OF Cons.prems(1)] Cons.prems(2) by simp
  then have eq: "scan_gcmd a s d (set zs) (ccc_gcmd ?c) = scan_gcmd a s d (set (g # zs)) (ccc_gcmd c)"
    by (auto simp: scan_gcmd_def fun_eq_iff)
  have step: "newstate_scan a s d c (opt_hd (g # zs)) = newstate_scan a s d ?c (opt_hd zs)"
    using timer_next [OF R Cons.prems(2)] by (subst newstate_scan.simps) simp
  have "newstate_scan a s d ?c (opt_hd zs) = Some (?c\<lparr>ccc_gcmd := scan_gcmd a s d (set zs) (ccc_gcmd ?c)\<rparr>)"
    by (rule Cons.IH [OF R, of "ys @ [g]"]) (simp add: Cons.prems(2))
  also have "?c\<lparr>ccc_gcmd := scan_gcmd a s d (set zs) (ccc_gcmd ?c)\<rparr> =
      c\<lparr>ccc_gcmd := scan_gcmd a s d (set (g # zs)) (ccc_gcmd c)\<rparr>"
    by (simp only: eq) (simp add: upd_gcmd_def)
  finally show ?case by (simp only: step)
qed

lemma scan_state_cases:
  "cmd_state (newstate_scan1 a s d r) = cmd_state r \<or>
   (cmd_state r < cmd_state (newstate_scan1 a s d r) \<and>
    cmd_state (newstate_scan1 a s d r) \<in> {GCMD_STATE_ABORTING_DEV, GCMD_STATE_RESETTING_DEV, GCMD_STATE_RESETTING_BUS})"
  by (cases a) (auto simp: newstate_scan1_def)

lemma scan_inv:
  assumes inv: "ghd_inv c A"
  shows "ghd_inv (c\<lparr>ccc_gcmd := scan_gcmd a s d (set (wq_timer A)) (ccc_gcmd c)\<rparr>) A"
proof -
  let ?gc = "scan_gcmd a s d (set (wq_timer A)) (ccc_gcmd c)"
  note S = ghd_invD(2) [OF inv]
  have W: "wq_inv (c\<lparr>ccc_gcmd := ?gc\<rparr>) A"
    by (rule wq_inv_cong [OF ghd_invD(1) [OF inv]]) (auto simp: scan_gcmd_def)
  have st: "cmd_state (?gc g) = cmd_state (ccc_gcmd c g) \<or> g \<in> wq_live A \<and>
      cmd_state (?gc g) \<in> {GCMD_STATE_ABORTING_DEV, GCMD_STATE_RESETTING_DEV, GCMD_STATE_RESETTING_BUS}" for g
    using S scan_state_cases [of a s d "ccc_gcmd c g"] by (auto simp: scan_gcmd_def ghd_states_def)
  have "cmd_waitq_level (?gc g) = cmd_waitq_level (ccc_gcmd c g)" for g by (simp add: scan_gcmd_def)
  note lvl = this
  have eq: "cmd_state (?gc g) = s \<Longrightarrow> cmd_state (ccc_gcmd c g) = s"
    if "s \<notin> {GCMD_STATE_ABORTING_DEV, GCMD_STATE_RESETTING_DEV, GCMD_STATE_RESETTING_BUS}" for g s
    using st [of g] that by auto
  have dn: "cmd_state (?gc g) = cmd_state (ccc_gcmd c g)" if "g \<in> set (wq_done A) \<or> g \<in> set (wq_hold A)" for g
    using st [of g] wq_done_not_live [OF ghd_invD(1) [OF inv], of g] that by blast
  have S': "g \<in> wq_live A \<Longrightarrow> cmd_state (ccc_gcmd c g) \<noteq> GCMD_STATE_IDLE"
    "g \<in> set (wq_done A) \<or> g \<in> set (wq_hold A) \<Longrightarrow> cmd_state (ccc_gcmd c g) = GCMD_STATE_DONEQ"
    "cmd_state (ccc_gcmd c g) = GCMD_STATE_ACTIVE \<Longrightarrow> g \<in> wq_live A \<and> cmd_waitq_level (ccc_gcmd c g) = 3"
    "g \<in> wq_started A \<Longrightarrow> cmd_state (ccc_gcmd c g) \<noteq> GCMD_STATE_WAITQ"
    "cmd_state (ccc_gcmd c g) = GCMD_STATE_WAITQ \<Longrightarrow> g \<in> wq_live A" for g
    using S by (auto simp: ghd_states_def)
  have "\<forall>g\<in>wq_live A. cmd_state (?gc g) \<noteq> GCMD_STATE_IDLE"
    using S'(1) eq [of GCMD_STATE_IDLE] by blast
  moreover have "\<forall>g. g \<in> set (wq_done A) \<or> g \<in> set (wq_hold A) \<longrightarrow> cmd_state (?gc g) = GCMD_STATE_DONEQ"
    using S'(2) dn by simp
  moreover have "\<forall>g. cmd_state (?gc g) = GCMD_STATE_ACTIVE \<longrightarrow> g \<in> wq_live A \<and> cmd_waitq_level (?gc g) = 3"
    using S'(3) eq [of GCMD_STATE_ACTIVE] unfolding lvl by blast
  moreover have "\<forall>g\<in>wq_started A. cmd_state (?gc g) \<noteq> GCMD_STATE_WAITQ"
    using S'(4) eq [of GCMD_STATE_WAITQ] by blast
  moreover have "\<forall>g. cmd_state (?gc g) = GCMD_STATE_WAITQ \<longrightarrow> g \<in> wq_live A"
    using S'(5) eq [of GCMD_STATE_WAITQ] by blast
  ultimately have "ghd_states ?gc A" using S unfolding ghd_states_def by blast
  with W ghd_invD(3) [OF inv] show ?thesis by (simp add: ghd_inv_def ghd_throttle_def)
qed

subsection \<open>The contract of the recovery action\<close>

text \<open>What a step may do to the timers: only stop them.\<close>

definition timer_frame :: "'hw ccc_t \<Rightarrow> wq \<Rightarrow> 'hw ccc_t \<Rightarrow> wq \<Rightarrow> bool" where
  "timer_frame c A c' B \<longleftrightarrow> set (wq_timer B) \<subseteq> set (wq_timer A) \<and>
     (\<forall>g\<in>set (wq_timer B). cmd_start_time (ccc_gcmd c' g) = cmd_start_time (ccc_gcmd c g) \<and>
        cmd_timeout (ccc_gcmd c' g) = cmd_timeout (ccc_gcmd c g))"

text \<open>
  A recovery action returns. If it did not take, it changed nothing but the driver's own soft state;
  if it took, it may have completed outstanding requests. The actions for a request that has not been
  started are only asked for such a request.
\<close>

locale hba_recovery =
  fixes func :: "'hw hba_timeout" and hw_ok :: "'hw \<Rightarrow> bool" and owned :: "'hw \<Rightarrow> nat set"
  assumes outcome:
    "\<lbrakk>ghd_inv c A; hw_ok (ccc_hba c); owned (ccc_hba c) \<subseteq> wq_started A;
      \<And>g. gcmdp = Some g \<Longrightarrow> g \<in> wq_live A \<and> (gact_rank a = 5 \<longrightarrow> g \<notin> wq_started A);
      gcmdp = None \<Longrightarrow> gact_rank a \<le> 3\<rbrakk> \<Longrightarrow>
     \<exists>took c'. func c gcmdp d a t = Some (took, c') \<and> hw_ok (ccc_hba c') \<and>
       (\<not> took \<longrightarrow> (\<exists>h. c' = c\<lparr>ccc_hba := h\<rparr> \<and> owned h \<subseteq> owned (ccc_hba c))) \<and>
       (took \<longrightarrow> (\<exists>B. ghd_inv c' B \<and> owned (ccc_hba c') \<subseteq> wq_started B \<and> wq_progress A B \<and> timer_frame c A c' B))"

lemma timer_start_gcmd:
  "ccc_gcmd (sol11ghd_timer_start k c g t) = (ccc_gcmd c)(g := (ccc_gcmd c g)
     \<lparr>cmd_start_time := word_of_int (ke_lbolt k), cmd_timeout := word_of_int (t * ghd_HZ k)\<rparr>)"
  "ccc_gdev (sol11ghd_timer_start k c g t) = ccc_gdev c"
  "ccc_hba (sol11ghd_timer_start k c g t) = ccc_hba c"
  "ccc_nactive (sol11ghd_timer_start k c g t) = ccc_nactive c"
  "ccc_maxactive (sol11ghd_timer_start k c g t) = ccc_maxactive c"
  by (simp_all add: sol11ghd_timer_start_def Let_def)

lemma ghd_states_cong:
  "(\<And>h. cmd_state (gc' h) = cmd_state (gc h)) \<Longrightarrow>
   (\<And>h. cmd_waitq_level (gc' h) = cmd_waitq_level (gc h)) \<Longrightarrow> ghd_states gc' A = ghd_states gc A"
  by (simp add: ghd_states_def)

lemma ghd_states_timer:
  "ghd_states gc A \<Longrightarrow> set xs \<subseteq> wq_live A \<Longrightarrow> ghd_states gc (A\<lparr>wq_timer := xs\<rparr>)"
  by (simp add: ghd_states_def)

lemma ghd_states_timer_live: "ghd_states gc A \<Longrightarrow> set (wq_timer A) \<subseteq> wq_live A"
  by (simp add: ghd_states_def)

definition wq_timer_on :: "wq \<Rightarrow> nat \<Rightarrow> cmdstate_t \<Rightarrow> wq" where
  "wq_timer_on A g s = (if ghd_timeout_table s \<noteq> 0 then A\<lparr>wq_timer := wq_timer A @ [g]\<rparr> else A)"

lemma newstate_enter_inv:
  assumes inv: "ghd_inv c A" and g: "g \<in> wq_live A" "g \<notin> set (wq_timer A)"
    and s: "s \<noteq> GCMD_STATE_IDLE" "s \<noteq> GCMD_STATE_ACTIVE" "s \<noteq> GCMD_STATE_WAITQ"
  shows "ghd_inv (newstate_enter k c (Some g) s) (wq_timer_on A g s)"
proof -
  let ?c = "upd_gcmd g (\<lambda>r. r\<lparr>cmd_state := s\<rparr>) c"
  note W = ghd_invD(1) [OF inv]
  have W': "wq_inv ?c A" by (rule wq_inv_cong [OF W]) auto
  have S: "ghd_states (ccc_gcmd ?c) A"
    using ghd_invD(2) [OF inv] g s wq_done_not_live [OF W, of g] by (auto simp: ghd_states_def)
  have T: "ghd_throttle ?c" using ghd_invD(3) [OF inv] by (simp add: ghd_throttle_def)
  show ?thesis
  proof (cases "ghd_timeout_table s = 0")
    case True
    with W' S T show ?thesis by (simp add: newstate_enter_def wq_timer_on_def ghd_inv_def)
  next
    case False
    have "ghd_states (ccc_gcmd (sol11ghd_timer_start k ?c g (ghd_timeout_table s)))
        (A\<lparr>wq_timer := wq_timer A @ [g]\<rparr>)"
      using ghd_states_timer [OF S, of "wq_timer A @ [g]"] ghd_invD(2) [OF inv] g(1)
        ghd_states_cong [of "ccc_gcmd (sol11ghd_timer_start k ?c g (ghd_timeout_table s))" "ccc_gcmd ?c"]
      by (simp add: timer_start_gcmd ghd_states_timer_live)
    moreover have "ghd_throttle (sol11ghd_timer_start k ?c g (ghd_timeout_table s))"
      using T by (simp add: ghd_throttle_def timer_start_gcmd)
    ultimately show ?thesis
      using False timer_start_inv [OF W' g(2), of k "ghd_timeout_table s"]
      by (simp add: newstate_enter_def wq_timer_on_def ghd_inv_def)
  qed
qed

lemma newstate_enter_frame:
  "ccc_hba (newstate_enter k c gcmdp s) = ccc_hba c"
  "g' \<notin> set_option gcmdp \<Longrightarrow> ccc_gcmd (newstate_enter k c gcmdp s) g' = ccc_gcmd c g'"
  "cmd_gdev (ccc_gcmd (newstate_enter k c gcmdp s) g') = cmd_gdev (ccc_gcmd c g')"
  "cmd_state (ccc_gcmd (newstate_enter k c (Some g) s) g) = s"
  by (auto simp: newstate_enter_def timer_start_gcmd Let_def split: option.split)

lemma newstate_enter_timer:
  assumes "ghd_timeout_table s \<noteq> 0"
  shows "cmd_start_time (ccc_gcmd (newstate_enter k c (Some g) s) g) = word_of_int (ke_lbolt k)"
    "cmd_timeout (ccc_gcmd (newstate_enter k c (Some g) s) g) = word_of_int (ghd_timeout_table s * ghd_HZ k)"
  using assms by (simp_all add: newstate_enter_def timer_start_gcmd)

lemma ghd_timer_stop_inv:
  assumes inv: "ghd_inv c A"
  shows "ghd_inv (GHD_TIMER_STOP c g) (A\<lparr>wq_timer := remove1 g (wq_timer A)\<rparr>)"
proof -
  have "set (remove1 g (wq_timer A)) \<subseteq> wq_live A"
    using ghd_invD(2) [OF inv] set_remove1_subset [of g "wq_timer A"] by (auto simp: ghd_states_def)
  then show ?thesis
    using timer_stop_inv [OF ghd_invD(1) [OF inv], of g] ghd_invD(2,3) [OF inv]
    by (simp add: ghd_inv_def ghd_states_def ghd_throttle_def GHD_TIMER_STOP_def)
qed

lemma ghd_timeout_table_simps [simp]:
  "ghd_timeout_table GCMD_STATE_ABORTING_CMD = 3" "ghd_timeout_table GCMD_STATE_ABORTING_DEV = 3"
  "ghd_timeout_table GCMD_STATE_RESETTING_DEV = 5" "ghd_timeout_table GCMD_STATE_RESETTING_BUS = 10"
  "ghd_timeout_table GCMD_STATE_HUNG = 60" "ghd_timeout_table GCMD_STATE_DONEQ = 0"
  "ghd_timeout_table GCMD_STATE_IDLE = 0" "ghd_timeout_table GCMD_STATE_WAITQ = 0"
  "ghd_timeout_table GCMD_STATE_ACTIVE = 0"
  by (simp_all add: ghd_timeout_table_def ghd_time_inits_def)

text \<open>No timer of \<open>B\<close> other than the one of \<open>gcmdp\<close> is new or restarted, and that one does not
  expire now.\<close>

definition timers_fresh :: "kenv \<Rightarrow> 'hw ccc_t \<Rightarrow> wq \<Rightarrow> nat option \<Rightarrow> 'hw ccc_t \<Rightarrow> wq \<Rightarrow> bool" where
  "timers_fresh k c A gcmdp c' B \<longleftrightarrow>
     (\<forall>g\<in>set (wq_timer B). gcmd_expired k (ccc_gcmd c' g) \<longrightarrow>
        g \<in> set (wq_timer A) \<and> gcmd_expired k (ccc_gcmd c g))"

text \<open>The tick rate is sane: a recovery timeout is not a multiple of \<open>2 ^ 64\<close> ticks.\<close>

definition hz_ok :: "kenv \<Rightarrow> bool" where
  "hz_ok k \<longleftrightarrow> 0 < ghd_HZ k \<and> ghd_HZ k < 2 ^ 32"

lemma newstate_timer_fresh:
  assumes "hz_ok k" "ghd_timeout_table s \<noteq> 0"
  shows "\<not> gcmd_expired k (ccc_gcmd (newstate_enter k c (Some g) s) g)"
proof -
  have t: "0 < ghd_timeout_table s" "ghd_timeout_table s \<le> 60" using assms(2) by (cases s; simp)+
  have "ghd_timeout_table s * ghd_HZ k \<le> 60 * 2 ^ 32"
    using t assms(1) by (intro mult_mono) (simp_all add: hz_ok_def)
  moreover define x where "x = ghd_timeout_table s * ghd_HZ k"
  ultimately have "0 < x" "x < 2 ^ 64" using t assms(1) by (simp_all add: hz_ok_def)
  then have "0 < uint (word_of_int x :: u64)" by (simp add: uint_word_of_int)
  then have "(word_of_int (ghd_timeout_table s * ghd_HZ k) :: u64) \<noteq> 0" by (auto simp: x_def)
  then show ?thesis
    using newstate_enter_timer [OF assms(2), of k c g] by (simp add: gcmd_expired_def word_le_nat_alt unat_eq_0)
qed

lemma timer_frame_fresh:
  "timer_frame c A c' B \<Longrightarrow> g \<in> set (wq_timer B) \<Longrightarrow> gcmd_expired k (ccc_gcmd c' g) \<Longrightarrow>
   g \<in> set (wq_timer A) \<and> gcmd_expired k (ccc_gcmd c g)"
  unfolding timer_frame_def gcmd_expired_def by (metis subsetD)

lemma newstate_next_states: "fst (newstate_next a) \<noteq> GCMD_STATE_IDLE" "fst (newstate_next a) \<noteq> GCMD_STATE_ACTIVE"
  "fst (newstate_next a) \<noteq> GCMD_STATE_WAITQ"
  by (cases a; simp)+

lemma enter_fresh:
  assumes "hz_ok k" "g \<notin> set (wq_timer A)"
  shows "timers_fresh k c A (Some g) (newstate_enter k c (Some g) s) (wq_timer_on A g s)"
  unfolding timers_fresh_def
proof (intro ballI impI)
  fix h
  assume h: "h \<in> set (wq_timer (wq_timer_on A g s))"
    and e: "gcmd_expired k (ccc_gcmd (newstate_enter k c (Some g) s) h)"
  show "h \<in> set (wq_timer A) \<and> gcmd_expired k (ccc_gcmd c h)"
  proof (cases "h = g")
    case True
    then have "ghd_timeout_table s \<noteq> 0" using h assms(2) by (auto simp: wq_timer_on_def split: if_splits)
    with newstate_timer_fresh [OF assms(1)] e True show ?thesis by blast
  next
    case False
    then show ?thesis
      using h e newstate_enter_frame(2) [of h "Some g" k c s]
      by (auto simp: wq_timer_on_def split: if_splits)
  qed
qed

lemma wq_timer_on_frame [simp]:
  "wq_live (wq_timer_on A g s) = wq_live A" "wq_done (wq_timer_on A g s) = wq_done A"
  "wq_hold (wq_timer_on A g s) = wq_hold A"
  by (simp_all add: wq_timer_on_def)

lemma started_timer_on [simp]: "wq_started (wq_timer_on A g s) = wq_started A"
  by (simp add: wq_timer_on_def)

lemma gact_rank_below: "gact_rank (snd (newstate_next a)) \<noteq> 5"
  by (cases a) simp_all

lemma wq_timer_on_stop:
  assumes "g \<notin> set (wq_timer A)" "ghd_timeout_table s \<noteq> 0"
  shows "(wq_timer_on A g s)\<lparr>wq_timer := remove1 g (wq_timer (wq_timer_on A g s))\<rparr> = A"
  using assms by (simp add: wq_timer_on_def remove1_append wq.equality)

lemma timers_fresh_mono:
  "timers_fresh k c A gcmdp c' B \<Longrightarrow> timer_frame c' B c'' C \<Longrightarrow> timers_fresh k c A gcmdp c'' C"
  unfolding timers_fresh_def using timer_frame_fresh by blast

lemma timers_fresh_base:
  "timers_fresh k c1 A gcmdp c' B \<Longrightarrow>
   (\<And>g. g \<in> set (wq_timer A) \<Longrightarrow> ccc_gcmd c1 g = ccc_gcmd c g) \<Longrightarrow> timers_fresh k c A gcmdp c' B"
  unfolding timers_fresh_def by metis

context hba_recovery
begin

lemma newstate_loop:
  assumes "hz_ok k" "ghd_inv c A" "hw_inv hw_ok owned c A" "g \<in> wq_live A" "g \<notin> set (wq_timer A)"
    "gact_rank a = 5 \<longrightarrow> g \<notin> wq_started A"
  shows "\<exists>a' c' B. timer_newstate_loop func k c (Some g) d a t = Some (a', c') \<and> ghd_inv c' B \<and>
     hw_inv hw_ok owned c' B \<and> wq_progress A B \<and> timers_fresh k c A (Some g) c' B"
  using assms
proof (induction "gact_rank a" arbitrary: c a rule: less_induct)
  case less
  let ?s = "fst (newstate_next a)"
  let ?c = "newstate_enter k c (Some g) ?s" and ?A = "wq_timer_on A g ?s"
  have i: "ghd_inv ?c ?A"
    by (rule newstate_enter_inv [OF less.prems(2,4,5) newstate_next_states])
  have hw: "hw_inv hw_ok owned ?c ?A"
    by (rule hw_inv_cong [OF less.prems(3) newstate_enter_frame(1)]) simp
  have pg: "wq_progress A ?A" by (rule wq_progress_queues) simp_all
  have fr: "timers_fresh k c A (Some g) ?c ?A" by (rule enter_fresh [OF less.prems(1,5)])
  have eqn: "timer_newstate_loop func k c (Some g) d a t =
      (if a = GACTION_RESET_BUS \<and> ccc_waitq_frozen ?c then Some (Some a, ?c)
       else (case func ?c (Some g) d a t of
               None \<Rightarrow> None
             | Some (took, c') \<Rightarrow>
                 if took then Some (Some a, c')
                 else if a = GACTION_INCOMPLETE then Some (None, c')
                 else timer_newstate_loop func k (if ghd_timeout_table ?s \<noteq> 0 then GHD_TIMER_STOP c' g else c')
                        (Some g) d (snd (newstate_next a)) t))"
    by (subst timer_newstate_loop.simps) (auto simp: Let_def split: option.splits)
  obtain took c' where c': "func ?c (Some g) d a t = Some (took, c')" "hw_ok (ccc_hba c')"
      "\<not> took \<longrightarrow> (\<exists>h. c' = ?c\<lparr>ccc_hba := h\<rparr> \<and> owned h \<subseteq> owned (ccc_hba ?c))"
      "took \<longrightarrow> (\<exists>B. ghd_inv c' B \<and> owned (ccc_hba c') \<subseteq> wq_started B \<and> wq_progress ?A B \<and> timer_frame ?c ?A c' B)"
    using outcome [OF i, of "Some g" a d t] hw less.prems(4,6) by (auto simp: hw_inv_def)
  show ?case
  proof (cases "(a = GACTION_RESET_BUS \<and> ccc_waitq_frozen ?c) \<or> took")
    case True
    show ?thesis
    proof (cases "a = GACTION_RESET_BUS \<and> ccc_waitq_frozen ?c")
      case f: True
      have "timer_newstate_loop func k c (Some g) d a t = Some (Some a, ?c)"
        by (simp only: eqn if_P [OF f])
      with i hw pg fr show ?thesis by blast
    next
      case f: False
      with True have took by blast
      then have e: "timer_newstate_loop func k c (Some g) d a t = Some (Some a, c')"
        by (simp only: eqn if_not_P [OF f] c'(1)) simp
      from c'(4) \<open>took\<close> obtain B where B: "ghd_inv c' B" "wq_progress ?A B" "timer_frame ?c ?A c' B"
        "hw_inv hw_ok owned c' B" using c'(2) by (auto simp: hw_inv_def)
      show ?thesis
        using e B wq_progress_trans [OF pg B(2)] timers_fresh_mono [OF fr B(3)] by blast
    qed
  next
    case False
    then have f: "\<not> (a = GACTION_RESET_BUS \<and> ccc_waitq_frozen ?c)" by blast
    from False obtain h where h: "c' = ?c\<lparr>ccc_hba := h\<rparr>" "owned h \<subseteq> owned (ccc_hba ?c)" using c'(3) by blast
    have hw': "hw_inv hw_ok owned c' ?A" using hw h c'(2) by (auto simp: hw_inv_def)
    have i': "ghd_inv c' ?A" unfolding h(1) by (rule ghd_inv_hba [OF i])
    show ?thesis
    proof (cases "a = GACTION_INCOMPLETE")
      case True
      have e: "timer_newstate_loop func k c (Some g) d a t = Some (None, c')"
        using eqn False c'(1) True by simp
      have "timers_fresh k c A (Some g) c' ?A" using fr by (simp add: h(1) timers_fresh_def)
      with e i' hw' pg show ?thesis by blast
    next
      case nf: False
      let ?c2 = "if ghd_timeout_table ?s \<noteq> 0 then GHD_TIMER_STOP c' g else c'"
      have i2: "ghd_inv ?c2 A"
        using ghd_timer_stop_inv [OF i', of g] i' wq_timer_on_stop [OF less.prems(5), of ?s]
        by (simp add: wq_timer_on_def split: if_splits)
      have hw2: "hw_inv hw_ok owned ?c2 A"
        by (rule hw_inv_cong [OF hw']) (simp_all add: GHD_TIMER_STOP_def)
      have rk: "gact_rank (snd (newstate_next a)) = 5 \<longrightarrow> g \<notin> wq_started A" by (simp add: gact_rank_below)
      from less.hyps [OF gact_rank_next [OF nf] less.prems(1) i2 hw2 less.prems(4,5) rk] obtain a' c'' B where
        B: "timer_newstate_loop func k ?c2 (Some g) d (snd (newstate_next a)) t = Some (a', c'')"
          "ghd_inv c'' B" "hw_inv hw_ok owned c'' B" "wq_progress A B" "timers_fresh k ?c2 A (Some g) c'' B"
        by blast
      have "ccc_gcmd ?c2 x = ccc_gcmd c x" if "x \<in> set (wq_timer A)" for x
      proof -
        have "x \<noteq> g" using that less.prems(5) by auto
        then show ?thesis using newstate_enter_frame(2) [of x "Some g" k c ?s] by (simp add: h(1) GHD_TIMER_STOP_def)
      qed
      then have "timers_fresh k c A (Some g) c'' B" by (rule timers_fresh_base [OF B(5)])
      moreover have "timer_newstate_loop func k c (Some g) d a t = Some (a', c'')"
        using False nf B(1) by (simp only: eqn if_not_P [OF f] c'(1)) simp
      ultimately show ?thesis using B(2-4) by blast
    qed
  qed
qed

lemma newstate:
  assumes "hz_ok k" "ghd_inv c A" "hw_inv hw_ok owned c A" "g \<in> wq_live A" "g \<notin> set (wq_timer A)"
    "gact_rank a = 5 \<longrightarrow> g \<notin> wq_started A"
  shows "\<exists>c' B. sol11ghd_timer_newstate func k c (Some g) d a t = Some c' \<and> ghd_inv c' B \<and>
     hw_inv hw_ok owned c' B \<and> wq_progress A B \<and> timers_fresh k c A (Some g) c' B"
proof -
  from newstate_loop [OF assms, of d t] obtain a' c' B where
    L: "timer_newstate_loop func k c (Some g) d a t = Some (a', c')" "ghd_inv c' B" "hw_inv hw_ok owned c' B"
      "wq_progress A B" "timers_fresh k c A (Some g) c' B" by blast
  show ?thesis
  proof (cases a')
    case None
    with L show ?thesis by (auto simp: sol11ghd_timer_newstate_def)
  next
    case (Some a2)
    let ?s = "Some (cmd_gdev (ccc_gcmd c g))"
    let ?c2 = "c'\<lparr>ccc_gcmd := scan_gcmd a2 ?s d (set (wq_timer B)) (ccc_gcmd c')\<rparr>"
    have R: "wq_repr c' B" by (rule wq_inv_repr [OF ghd_invD(1) [OF L(2)]])
    have "sol11ghd_timer_newstate func k c (Some g) d a t = Some ?c2"
      using L(1) Some newstate_scan_spec [OF R, of "[]" "wq_timer B" a2 ?s d] timer_first [OF R]
      by (simp add: sol11ghd_timer_newstate_def)
    moreover have "ghd_inv ?c2 B" by (rule scan_inv [OF L(2)])
    moreover have "timers_fresh k c A (Some g) ?c2 B"
      using L(5) by (simp add: timers_fresh_def scan_gcmd_def gcmd_expired_def)
    moreover have "hw_inv hw_ok owned ?c2 B" by (rule hw_inv_cong [OF L(3)]) simp_all
    ultimately show ?thesis using L(4) by (intro exI [of _ ?c2] exI [of _ B]) simp
  qed
qed

end

definition expired_set :: "kenv \<Rightarrow> 'hw ccc_t \<Rightarrow> wq \<Rightarrow> nat set" where
  "expired_set k c A = {g \<in> set (wq_timer A). gcmd_expired k (ccc_gcmd c g)}"

lemma find_SomeD: "List.find P xs = Some x \<Longrightarrow> x \<in> set xs \<and> P x"
  by (induction xs) (auto split: if_splits)

context hba_recovery
begin

text \<open>The poll ends: the timers it restarts do not expire at once, so every round leaves fewer
  expired requests.\<close>

lemma timer_poll:
  assumes "hz_ok k" "ghd_inv c A" "hw_inv hw_ok owned c A"
  shows "\<exists>c' B. sol11ghd_timer_poll func k one c = Some c' \<and> ghd_inv c' B \<and> hw_inv hw_ok owned c' B \<and>
     wq_progress A B"
  using assms
proof (induction "card (expired_set k c A)" arbitrary: c A rule: less_induct)
  case less
  note W = ghd_invD(1) [OF less.prems(2)]
  show ?case
  proof (cases "List.find (\<lambda>g. gcmd_expired k (ccc_gcmd c g)) (wq_timer A)")
    case None
    then have "sol11ghd_timer_poll func k one c = Some c"
      by (subst sol11ghd_timer_poll.simps) (simp add: timeout_get_spec [OF wq_inv_repr [OF W]])
    with less.prems show ?thesis by (intro exI [of _ c] exI [of _ A]) simp
  next
    case (Some g)
    then have g: "g \<in> set (wq_timer A)" "gcmd_expired k (ccc_gcmd c g)" using find_SomeD by fastforce+
    let ?c = "GHD_TIMER_STOP c g" and ?A = "A\<lparr>wq_timer := remove1 g (wq_timer A)\<rparr>"
    have i: "ghd_inv ?c ?A" by (rule ghd_timer_stop_inv [OF less.prems(2)])
    have hw: "hw_inv hw_ok owned ?c ?A" by (rule hw_inv_cong [OF less.prems(3)]) (simp_all add: GHD_TIMER_STOP_def)
    have live: "g \<in> wq_live ?A" "g \<notin> set (wq_timer ?A)"
      using ghd_states_timer_live [OF ghd_invD(2) [OF less.prems(2)]] g(1)
        wq_repr_distinct(5) [OF wq_inv_repr [OF W]] by auto
    have pg: "wq_progress A ?A" by (rule wq_progress_queues) simp_all
    have get: "ghd_timeout_get k c = Some (Some g, ?c)"
      by (simp add: timeout_get_spec [OF wq_inv_repr [OF W]] Some)
    show ?thesis
    proof (cases "timer_poll_action (cmd_state (ccc_gcmd ?c g))")
      case None
      then have "sol11ghd_timer_poll func k one c = Some ?c"
        by (subst sol11ghd_timer_poll.simps) (simp add: get)
      with i hw pg show ?thesis by blast
    next
      case (Some a)
      have rk: "gact_rank a = 5 \<longrightarrow> g \<notin> wq_started ?A"
        using Some ghd_invD(2) [OF i] by (cases "cmd_state (ccc_gcmd ?c g)") (auto simp: ghd_states_def)
      from newstate [OF less.prems(1) i hw live rk] obtain c' B where
        B: "sol11ghd_timer_newstate func k ?c (Some g) (cmd_gdev (ccc_gcmd ?c g)) a False = Some c'"
          "ghd_inv c' B" "hw_inv hw_ok owned c' B" "wq_progress ?A B" "timers_fresh k ?c ?A (Some g) c' B" by blast
      have step: "sol11ghd_timer_poll func k one c = (if one then Some c' else sol11ghd_timer_poll func k one c')"
        by (subst sol11ghd_timer_poll.simps) (simp add: get Some B(1))
      have "expired_set k c' B \<subseteq> expired_set k c A - {g}"
        using B(5) live(2) set_remove1_subset [of g "wq_timer A"]
        by (auto simp: expired_set_def timers_fresh_def GHD_TIMER_STOP_def)
      moreover have "g \<in> expired_set k c A" using g by (simp add: expired_set_def)
      ultimately have "expired_set k c' B \<subset> expired_set k c A" by blast
      then have lt: "card (expired_set k c' B) < card (expired_set k c A)"
        by (rule psubset_card_mono [rotated]) (simp add: expired_set_def)
      show ?thesis
      proof (cases one)
        case True
        with step B wq_progress_trans [OF pg B(4)] show ?thesis by auto
      next
        case False
        with less.hyps [OF lt less.prems(1) B(2,3)] step wq_progress_trans [OF wq_progress_trans [OF pg B(4)]]
        show ?thesis by fastforce
      qed
    qed
  qed
qed

end

subsection \<open>The list of controllers and the callback\<close>

text \<open>\<open>tmr_t\<close>; controllers are numbers, and \<open>ccc_nextp\<close> is a store. \<open>timeout\<close> and \<open>untimeout\<close> are recorded
  as whether the callback is armed.\<close>

record tmr_t =
  t_ticks :: int
  t_refs :: int
  t_ccc_listp :: "nat option"
  t_armed :: bool

definition ghd_timeout_enable :: "tmr_t \<Rightarrow> tmr_t" where
  "ghd_timeout_enable t =
    (let t' = t\<lparr>t_refs := t_refs t + 1\<rparr> in if t_refs t = 0 then t'\<lparr>t_armed := True\<rparr> else t')"

definition ghd_timeout_disable :: "tmr_t \<Rightarrow> tmr_t" where
  "ghd_timeout_disable t =
    (let t' = t\<lparr>t_refs := t_refs t - 1\<rparr> in if t_refs t \<le> 1 then t'\<lparr>t_armed := False\<rparr> else t')"

definition sol11ghd_timer_attach :: "(nat \<Rightarrow> nat option) \<Rightarrow> tmr_t \<Rightarrow> nat \<Rightarrow> bool \<Rightarrow> bool \<times> (nat \<Rightarrow> nat option) \<times> tmr_t" where
  "sol11ghd_timer_attach nextp t c softintr_ok =
    (if \<not> softintr_ok then (False, nextp, t)
     else (True, nextp(c := t_ccc_listp t), ghd_timeout_enable (t\<lparr>t_ccc_listp := Some c\<rparr>)))"

text \<open>\<open>prevpp\<close> is the address of the list head (None) or of the \<open>ccc_nextp\<close> of a controller.\<close>

definition deref_prevpp :: "(nat \<Rightarrow> nat option) \<Rightarrow> tmr_t \<Rightarrow> nat option \<Rightarrow> nat option" where
  "deref_prevpp nextp t prevpp = (case prevpp of None \<Rightarrow> t_ccc_listp t | Some x \<Rightarrow> nextp x)"

partial_function (option) timer_detach_find :: "(nat \<Rightarrow> nat option) \<Rightarrow> tmr_t \<Rightarrow> nat \<Rightarrow> nat option \<Rightarrow> nat option option" where
  "timer_detach_find nextp t c prevpp =
    (case deref_prevpp nextp t prevpp of
       None \<Rightarrow> None
     | Some y \<Rightarrow>
         if y = c then Some prevpp
         else if nextp y \<noteq> None then timer_detach_find nextp t c (Some y)
         else Some (Some y))"

definition sol11ghd_timer_detach :: "(nat \<Rightarrow> nat option) \<Rightarrow> tmr_t \<Rightarrow> nat \<Rightarrow> ((nat \<Rightarrow> nat option) \<times> tmr_t) option" where
  "sol11ghd_timer_detach nextp t c =
    (case timer_detach_find nextp t c None of
       None \<Rightarrow> None
     | Some None \<Rightarrow> Some (nextp, ghd_timeout_disable (t\<lparr>t_ccc_listp := nextp c\<rparr>))
     | Some (Some x) \<Rightarrow> Some (nextp(x := nextp c), ghd_timeout_disable t))"

fun ccc_path :: "(nat \<Rightarrow> nat option) \<Rightarrow> nat option \<Rightarrow> nat list \<Rightarrow> bool" where
  "ccc_path nextp p [] = (p = None)"
| "ccc_path nextp p (x # xs) = (p = Some x \<and> ccc_path nextp (nextp x) xs)"

lemma ccc_path_cong: "(\<And>x. x \<in> set xs \<Longrightarrow> n' x = n x) \<Longrightarrow> ccc_path n' p xs = ccc_path n p xs"
  by (induction xs arbitrary: p) auto

lemma ccc_path_unlink:
  assumes "ccc_path n p (ys @ [y] @ c # zs)" "distinct (ys @ [y] @ c # zs)"
  shows "ccc_path (n(y := n c)) p (ys @ [y] @ zs)"
  using assms
proof (induction ys arbitrary: p)
  case Nil
  then have "ccc_path (n(y := n c)) (n c) zs \<longleftrightarrow> ccc_path n (n c) zs"
    by (intro ccc_path_cong) auto
  with Nil show ?case by (simp add: fun_upd_def)
qed auto

lemma detach_find_spec:
  assumes "ccc_path n (deref_prevpp n t prevpp) (ys @ c # zs)" "c \<notin> set ys"
  shows "timer_detach_find n t c prevpp = Some (if ys = [] then prevpp else Some (last ys))"
  using assms
proof (induction ys arbitrary: prevpp)
  case Nil
  then show ?case by (subst timer_detach_find.simps) simp
next
  case (Cons y ys)
  then have d: "deref_prevpp n t prevpp = Some y" "ccc_path n (n y) (ys @ c # zs)" by simp_all
  then have "n y \<noteq> None" by (cases ys) simp_all
  moreover have "deref_prevpp n t (Some y) = n y" by (simp add: deref_prevpp_def)
  ultimately show ?case
    using d Cons.prems(2) Cons.IH [of "Some y"] by (subst timer_detach_find.simps) simp
qed

lemma timer_detach_spec:
  assumes p: "ccc_path n (t_ccc_listp t) xs" and d: "distinct xs" and c: "c \<in> set xs"
  shows "\<exists>n' t'. sol11ghd_timer_detach n t c = Some (n', t') \<and>
     ccc_path n' (t_ccc_listp t') (remove1 c xs) \<and> t_refs t' = t_refs t - 1 \<and>
     t_armed t' = (t_armed t \<and> 1 < t_refs t)"
proof -
  obtain ys zs where xs: "xs = ys @ c # zs" "c \<notin> set ys" using split_list_first [OF c] by blast
  have r: "remove1 c xs = ys @ zs" using xs by (simp add: remove1_append)
  have f: "timer_detach_find n t c None = Some (if ys = [] then None else Some (last ys))"
    using detach_find_spec [of n t None ys c zs] p xs by (simp add: deref_prevpp_def)
  show ?thesis
  proof (cases ys rule: rev_cases)
    case Nil
    with p xs r f show ?thesis by (simp add: sol11ghd_timer_detach_def ghd_timeout_disable_def Let_def)
  next
    case (snoc us y)
    then have "ccc_path (n(y := n c)) (t_ccc_listp t) (us @ [y] @ zs)"
      using ccc_path_unlink [of n "t_ccc_listp t" us y c zs] p xs(1) d by simp
    with snoc f r show ?thesis
      by (simp add: sol11ghd_timer_detach_def ghd_timeout_disable_def Let_def)
  qed
qed

text \<open>One controller in the callback \<open>ghd_timeout\<close>: the new reschedule delay and the controller.
  \<open>clock_t\<close> is a \<open>long\<close>, so the arithmetic is on unbounded integers here.\<close>

definition ghd_timeout1 :: "kenv \<Rightarrow> int \<Rightarrow> 'hw ccc_t \<Rightarrow> (int \<times> bool \<times> 'hw ccc_t) option" where
  "ghd_timeout1 k resched c =
    (case ghd_timeout_loop k c of
       None \<Rightarrow> None
     | Some any \<Rightarrow>
         (let c = (if any then c\<lparr>ccc_timeout_pending := True\<rparr> else c)
          in if ccc_waitq_frozen c then
               (let ufdelay_curr = freeze_time_to_wait k c
                in Some (if ufdelay_curr < resched then ufdelay_curr else resched, True, c))
             else Some (resched, any, c)))"

text \<open>The callback over the controllers of the list, in order: the reschedule delay, and for each
  controller whether its soft interrupt was triggered.\<close>

fun ghd_timeout_all :: "kenv \<Rightarrow> int \<Rightarrow> 'hw ccc_t list \<Rightarrow> (int \<times> (bool \<times> 'hw ccc_t) list) option" where
  "ghd_timeout_all k resched [] = Some (resched, [])"
| "ghd_timeout_all k resched (c # cs) =
    (case ghd_timeout1 k resched c of
       None \<Rightarrow> None
     | Some (resched, trig, c) \<Rightarrow>
         (case ghd_timeout_all k resched cs of
            None \<Rightarrow> None
          | Some (resched, ds) \<Rightarrow> Some (resched, (trig, c) # ds)))"

definition ghd_timeout :: "kenv \<Rightarrow> int \<Rightarrow> 'hw ccc_t list \<Rightarrow> (int option \<times> (bool \<times> 'hw ccc_t) list) option" where
  "ghd_timeout k ticks cs =
    (if cs = [] then Some (None, [])
     else (case ghd_timeout_all k 0x7FFFFFFF cs of
        None \<Rightarrow> None
      | Some (resched, ds) \<Rightarrow> Some (Some (if ticks < resched then ticks else resched), ds)))"

lemma timeout_loop_spec:
  "wq_repr c A \<Longrightarrow> ghd_timeout_loop k c = Some (\<exists>g\<in>set (wq_timer A). gcmd_expired k (ccc_gcmd c g))"
  using timeout_loop_from_spec [of c A "[]" "wq_timer A" k False] timer_first [of c A]
  by (simp add: ghd_timeout_loop_def)

lemma ghd_timeout_all_returns:
  assumes "\<And>c. c \<in> set cs \<Longrightarrow> \<exists>A. wq_repr c A"
  shows "\<exists>r ds. ghd_timeout_all k resched cs = Some (r, ds) \<and> r \<le> resched \<and> length ds = length cs"
  using assms
proof (induction cs arbitrary: resched)
  case (Cons c cs)
  obtain A where "wq_repr c A" using Cons.prems [of c] by auto
  then obtain b where "ghd_timeout_loop k c = Some b" using timeout_loop_spec by blast
  then have "\<exists>r1 t c'. ghd_timeout1 k resched c = Some (r1, t, c') \<and> r1 \<le> resched"
    by (cases "ccc_waitq_frozen c") (auto simp: ghd_timeout1_def Let_def)
  then obtain r1 t c' where c': "ghd_timeout1 k resched c = Some (r1, t, c')" "r1 \<le> resched" by blast
  from Cons.IH [of r1] Cons.prems obtain r ds where
    "ghd_timeout_all k r1 cs = Some (r, ds)" "r \<le> r1" "length ds = length cs" by auto
  with c' show ?case by simp
qed simp

subsection \<open>Properties\<close>

text \<open>How recovery is meant to escalate: the actions in their order, with the state the request is in during each and the
  seconds its timer runs (none before the request was started).\<close>

definition recovery_steps :: "(gact_t \<times> cmdstate_t \<times> int) list" where
  "recovery_steps =
    [(GACTION_ABORT_CMD, GCMD_STATE_ABORTING_CMD, 3), (GACTION_ABORT_DEV, GCMD_STATE_ABORTING_DEV, 3),
     (GACTION_RESET_TARGET, GCMD_STATE_RESETTING_DEV, 5), (GACTION_RESET_BUS, GCMD_STATE_RESETTING_BUS, 10),
     (GACTION_INCOMPLETE, GCMD_STATE_HUNG, 60)]"

definition recovery_chain :: "gact_t \<Rightarrow> (gact_t \<times> cmdstate_t \<times> int) list" where
  "recovery_chain a =
    (if a = GACTION_EARLY_ABORT \<or> a = GACTION_EARLY_TIMEOUT then (a, GCMD_STATE_DONEQ, 0) # recovery_steps
     else dropWhile (\<lambda>(b, _). b \<noteq> a) recovery_steps)"

text \<open>\<open>c\<close> follows \<open>prev\<close>, with the request shown in state \<open>s\<close> and its timer just started for \<open>w\<close> seconds.\<close>

definition presented :: "kenv \<Rightarrow> nat option \<Rightarrow> cmdstate_t \<Rightarrow> int \<Rightarrow> 'hw ccc_t \<Rightarrow> 'hw ccc_t \<Rightarrow> bool" where
  "presented k gcmdp s w prev c \<longleftrightarrow>
     ccc_hba c = ccc_hba prev \<and> ccc_waitq_frozen c = ccc_waitq_frozen prev \<and>
     (\<forall>x. gcmdp \<noteq> Some x \<longrightarrow> ccc_gcmd c x = ccc_gcmd prev x) \<and>
     (\<forall>g. gcmdp = Some g \<longrightarrow> cmd_state (ccc_gcmd c g) = s \<and>
        (w \<noteq> 0 \<longrightarrow> cmd_start_time (ccc_gcmd c g) = word_of_int (ke_lbolt k) \<and>
           cmd_timeout (ccc_gcmd c g) = word_of_int (w * ghd_HZ k)))"

text \<open>A run of recovery along a chain of actions: \<open>calls\<close> are the states in which the driver's function is called, in order.
  It ends with the first action that takes, with a bus reset that is due while the wait queue is frozen, or behind
  the last action.\<close>

fun recovery_run ::
  "'hw hba_timeout \<Rightarrow> kenv \<Rightarrow> nat option \<Rightarrow> nat \<Rightarrow> bool \<Rightarrow> 'hw ccc_t \<Rightarrow> (gact_t \<times> cmdstate_t \<times> int) list \<Rightarrow> 'hw ccc_t list \<Rightarrow>
   (gact_t option \<times> 'hw ccc_t) option \<Rightarrow> bool" where
  "recovery_run func k gcmdp d t prev [] calls res \<longleftrightarrow> False"
| "recovery_run func k gcmdp d t prev ((a, s, w) # chain) [] res \<longleftrightarrow>
     a = GACTION_RESET_BUS \<and> (\<exists>c. presented k gcmdp s w prev c \<and> ccc_waitq_frozen c \<and> res = Some (Some a, c))"
| "recovery_run func k gcmdp d t prev ((a, s, w) # chain) (c # calls) res \<longleftrightarrow>
     presented k gcmdp s w prev c \<and> \<not> (a = GACTION_RESET_BUS \<and> ccc_waitq_frozen c) \<and>
     (case func c gcmdp d a t of
        None \<Rightarrow> calls = [] \<and> res = None
      | Some (True, c') \<Rightarrow> calls = [] \<and> res = Some (Some a, c')
      | Some (False, c') \<Rightarrow>
          if chain = [] then calls = [] \<and> res = Some (None, c')
          else recovery_run func k gcmdp d t c' chain calls res)"

lemma recovery_chain_next:
  "recovery_chain a = (a, fst (newstate_next a), ghd_timeout_table (fst (newstate_next a))) #
     (if a = GACTION_INCOMPLETE then [] else recovery_chain (snd (newstate_next a)))"
  by (cases a) (simp_all add: recovery_chain_def recovery_steps_def)

lemma enter_presented:
  "presented k gcmdp s (ghd_timeout_table s) c (newstate_enter k c gcmdp s)"
proof -
  have "ccc_waitq_frozen (newstate_enter k c gcmdp s) = ccc_waitq_frozen c"
    by (simp add: newstate_enter_def sol11ghd_timer_start_def Let_def split: option.split)
  then show ?thesis by (auto simp: presented_def newstate_enter_frame newstate_enter_timer)
qed

lemma presented_cong:
  assumes "presented k gcmdp s w prev c" "ccc_hba prev = ccc_hba prev'" "ccc_waitq_frozen prev = ccc_waitq_frozen prev'"
    "ccc_gcmd prev = ccc_gcmd prev'"
  shows "presented k gcmdp s w prev' c"
  using assms by (simp add: presented_def)

lemma recovery_run_cong:
  assumes "recovery_run func k gcmdp d t prev chain calls res" "ccc_hba prev = ccc_hba prev'"
    "ccc_waitq_frozen prev = ccc_waitq_frozen prev'" "ccc_gcmd prev = ccc_gcmd prev'"
  shows "recovery_run func k gcmdp d t prev' chain calls res"
  using assms(1) presented_cong [OF _ assms(2-4)] by (cases chain; cases calls) auto

lemma recovery_loop:
  "\<exists>calls. recovery_run func k gcmdp d t c (recovery_chain a) calls (timer_newstate_loop func k c gcmdp d a t)"
proof (induction "gact_rank a" arbitrary: c a rule: less_induct)
  case less
  let ?s = "fst (newstate_next a)"
  let ?c = "newstate_enter k c gcmdp ?s" and ?rest = "if a = GACTION_INCOMPLETE then [] else recovery_chain (snd (newstate_next a))"
  note p = enter_presented [of k gcmdp ?s c]
  note eqn = timer_newstate_loop.simps [of func k c gcmdp d a t, unfolded Let_def]
  show ?case
  proof (cases "a = GACTION_RESET_BUS \<and> ccc_waitq_frozen ?c")
    case True
    have "timer_newstate_loop func k c gcmdp d a t = Some (Some a, ?c)" unfolding eqn by (rule if_P [OF True])
    with p True show ?thesis by (subst recovery_chain_next) (intro exI [of _ "[]"], auto)
  next
    case f: False
    note eqn' = eqn [unfolded if_not_P [OF f]]
    show ?thesis
    proof (cases "func ?c gcmdp d a t")
      case None
      with p f eqn' show ?thesis by (subst recovery_chain_next) (intro exI [of _ "[?c]"], simp)
    next
      case (Some r)
      then obtain took c' where r: "func ?c gcmdp d a t = Some (took, c')" by (cases r) simp
      show ?thesis
      proof (cases "took \<or> a = GACTION_INCOMPLETE")
        case True
        with p f r eqn' show ?thesis by (subst recovery_chain_next) (intro exI [of _ "[?c]"], auto)
      next
        case False
        let ?c2 = "case gcmdp of Some g \<Rightarrow> if ghd_timeout_table ?s \<noteq> 0 then GHD_TIMER_STOP c' g else c' | None \<Rightarrow> c'"
        have e: "timer_newstate_loop func k c gcmdp d a t = timer_newstate_loop func k ?c2 gcmdp d (snd (newstate_next a)) t"
          using eqn' r False by simp
        have "gact_rank (snd (newstate_next a)) < gact_rank a" using gact_rank_next False by blast
        from less [OF this, of ?c2] obtain calls where
          "recovery_run func k gcmdp d t ?c2 (recovery_chain (snd (newstate_next a))) calls (timer_newstate_loop func k c gcmdp d a t)"
          unfolding e by blast
        then have "recovery_run func k gcmdp d t c' (recovery_chain (snd (newstate_next a))) calls (timer_newstate_loop func k c gcmdp d a t)"
          by (rule recovery_run_cong) (simp_all add: GHD_TIMER_STOP_def split: option.split)
        moreover have "recovery_chain (snd (newstate_next a)) \<noteq> []" by (subst recovery_chain_next) simp
        ultimately show ?thesis
          using p f r False by (subst recovery_chain_next) (intro exI [of _ "?c # calls"], simp)
      qed
    qed
  qed
qed

text \<open>C22: whatever the driver's recovery function does and answers, \<open>sol11ghd_timer_newstate\<close> calls it for abort command,
  abort device, reset target, reset bus and giving up in this order (after the early abort or timeout, if it is called
  for one), starting with the given action. At each call the request, if there is one, is in the state that belongs to the action
  and its timer has just been started with the time for that state; nothing else changes between the calls. The loop stops
  at the first action that takes, at a bus reset that is due while the wait queue is frozen, and behind the last
  action; it always ends.\<close>

theorem timer_newstate_escalation:
  "\<exists>calls. recovery_run func k gcmdp d t c (recovery_chain a) calls (timer_newstate_loop func k c gcmdp d a t)"
  by (rule recovery_loop)

text \<open>A driver that refuses everything between an early abort and the bus reset, as the ATA driver does.\<close>

definition refuses :: "'hw hba_timeout \<Rightarrow> nat option \<Rightarrow> nat \<Rightarrow> bool \<Rightarrow> bool" where
  "refuses func gcmdp d t \<longleftrightarrow>
     (\<forall>c. \<forall>a\<in>{GACTION_ABORT_CMD, GACTION_ABORT_DEV, GACTION_RESET_TARGET}. func c gcmdp d a t = Some (False, c))"

lemma frozen_loop:
  assumes "refuses func (Some g) d t" "ccc_waitq_frozen c" "ghd_inv c A" "g \<in> wq_live A" "g \<notin> set (wq_timer A)"
    and "a \<in> {GACTION_ABORT_CMD, GACTION_ABORT_DEV, GACTION_RESET_TARGET, GACTION_RESET_BUS}"
  shows "\<exists>c'. timer_newstate_loop func k c (Some g) d a t = Some (Some GACTION_RESET_BUS, c') \<and>
     presented k (Some g) GCMD_STATE_RESETTING_BUS 10 c c' \<and> ghd_inv c' (A\<lparr>wq_timer := wq_timer A @ [g]\<rparr>)"
  using assms(2,3,6)
proof (induction "gact_rank a" arbitrary: c a rule: less_induct)
  case less
  let ?s = "fst (newstate_next a)"
  let ?c = "newstate_enter k c (Some g) ?s"
  note p = enter_presented [of k "Some g" ?s c]
  have i: "ghd_inv ?c (wq_timer_on A g ?s)" by (rule newstate_enter_inv [OF less.prems(2) assms(4,5) newstate_next_states])
  have fr: "ccc_waitq_frozen ?c" using p less.prems(1) by (simp add: presented_def)
  note eqn = timer_newstate_loop.simps [of func k c "Some g" d a t, unfolded Let_def]
  show ?case
  proof (cases "a = GACTION_RESET_BUS")
    case True
    have "timer_newstate_loop func k c (Some g) d a t = Some (Some GACTION_RESET_BUS, ?c)"
      unfolding eqn using fr True by simp
    then show ?thesis using p i True by (intro exI [of _ ?c]) (simp add: wq_timer_on_def)
  next
    case False
    let ?c2 = "GHD_TIMER_STOP ?c g"
    have a: "a \<in> {GACTION_ABORT_CMD, GACTION_ABORT_DEV, GACTION_RESET_TARGET}" using less.prems(3) False by blast
    then have t: "ghd_timeout_table ?s \<noteq> 0" "a \<noteq> GACTION_INCOMPLETE"
      "snd (newstate_next a) \<in> {GACTION_ABORT_CMD, GACTION_ABORT_DEV, GACTION_RESET_TARGET, GACTION_RESET_BUS}" by auto
    have "func ?c (Some g) d a t = Some (False, ?c)" using assms(1) a unfolding refuses_def by blast
    then have e: "timer_newstate_loop func k c (Some g) d a t = timer_newstate_loop func k ?c2 (Some g) d (snd (newstate_next a)) t"
      using eqn False t by simp
    have i2: "ghd_inv ?c2 A" using ghd_timer_stop_inv [OF i, of g] wq_timer_on_stop [OF assms(5) t(1)] by simp
    have "ccc_waitq_frozen ?c2" using fr by (simp add: GHD_TIMER_STOP_def)
    from less.hyps [OF gact_rank_next [OF t(2)] this i2 t(3)] obtain c' where
      c': "timer_newstate_loop func k c (Some g) d a t = Some (Some GACTION_RESET_BUS, c')"
      "presented k (Some g) GCMD_STATE_RESETTING_BUS 10 ?c2 c'" "ghd_inv c' (A\<lparr>wq_timer := wq_timer A @ [g]\<rparr>)"
      unfolding e by blast
    have "presented k (Some g) GCMD_STATE_RESETTING_BUS 10 c c'"
      using c'(2) p by (auto simp: presented_def GHD_TIMER_STOP_def)
    with c' show ?thesis by blast
  qed
qed

lemma frozen_loop_none:
  assumes "refuses func None d t" "ccc_waitq_frozen c"
    and "a \<in> {GACTION_ABORT_CMD, GACTION_ABORT_DEV, GACTION_RESET_TARGET, GACTION_RESET_BUS}"
  shows "timer_newstate_loop func k c None d a t = Some (Some GACTION_RESET_BUS, c)"
  using assms(3)
proof (induction "gact_rank a" arbitrary: a rule: less_induct)
  case less
  note eqn = timer_newstate_loop.simps [of func k c None d a t, unfolded Let_def]
  show ?case
  proof (cases "a = GACTION_RESET_BUS")
    case True
    then show ?thesis using assms(2) unfolding eqn by (simp add: newstate_enter_def)
  next
    case False
    then have a: "a \<in> {GACTION_ABORT_CMD, GACTION_ABORT_DEV, GACTION_RESET_TARGET}" using less.prems by blast
    then have n: "a \<noteq> GACTION_INCOMPLETE"
      "snd (newstate_next a) \<in> {GACTION_ABORT_CMD, GACTION_ABORT_DEV, GACTION_RESET_TARGET, GACTION_RESET_BUS}" by auto
    have "func c None d a t = Some (False, c)" using assms(1) a unfolding refuses_def by blast
    then show ?thesis using less.hyps [OF gact_rank_next [OF n(1)] n(2)] False n(1) unfolding eqn by (simp add: newstate_enter_def)
  qed
qed

text \<open>C23: while the wait queue is frozen no bus is reset: recovery of a request (a timeout or an abort) or of a device or bus,
  from any action on and by a driver that refuses the actions before the bus reset, ends at the bus reset without having
  changed the driver's state. The request is left in \<open>GCMD_STATE_RESETTING_BUS\<close> with its timer running for ten seconds,
  and every other started request on the active list, whatever its device, is raised to that state; no other
  request is changed and no state is lowered.\<close>

theorem timer_newstate_frozen_reset:
  assumes "refuses func gcmdp d t" "ccc_waitq_frozen c" "ghd_inv c A"
    and "a \<in> {GACTION_ABORT_CMD, GACTION_ABORT_DEV, GACTION_RESET_TARGET, GACTION_RESET_BUS}"
    and "\<And>g. gcmdp = Some g \<Longrightarrow> g \<in> wq_live A \<and> g \<notin> set (wq_timer A)"
  shows "\<exists>c' B. sol11ghd_timer_newstate func k c gcmdp d a t = Some c' \<and> ghd_inv c' B \<and> ccc_hba c' = ccc_hba c \<and>
     set (wq_timer B) = set (wq_timer A) \<union> set_option gcmdp \<and>
     (\<forall>g. gcmdp = Some g \<longrightarrow> cmd_state (ccc_gcmd c' g) = GCMD_STATE_RESETTING_BUS \<and>
        cmd_start_time (ccc_gcmd c' g) = word_of_int (ke_lbolt k) \<and> cmd_timeout (ccc_gcmd c' g) = word_of_int (10 * ghd_HZ k)) \<and>
     (\<forall>g\<in>set (wq_timer A). GCMD_STATE_WAITQ < cmd_state (ccc_gcmd c g) \<longrightarrow>
        cmd_state (ccc_gcmd c' g) = max (cmd_state (ccc_gcmd c g)) GCMD_STATE_RESETTING_BUS) \<and>
     (\<forall>g. gcmdp \<noteq> Some g \<and> (g \<notin> set (wq_timer A) \<or> cmd_state (ccc_gcmd c g) \<le> GCMD_STATE_WAITQ) \<longrightarrow> ccc_gcmd c' g = ccc_gcmd c g)"
proof -
  let ?s = "map_option (\<lambda>g. cmd_gdev (ccc_gcmd c g)) gcmdp"
  obtain c1 B where L: "timer_newstate_loop func k c gcmdp d a t = Some (Some GACTION_RESET_BUS, c1)" "ghd_inv c1 B"
    "presented k gcmdp GCMD_STATE_RESETTING_BUS 10 c c1" "set (wq_timer B) = set (wq_timer A) \<union> set_option gcmdp"
  proof (cases gcmdp)
    case None
    have "presented k None GCMD_STATE_RESETTING_BUS 10 c c" by (simp add: presented_def)
    then show thesis using that [of c A] frozen_loop_none [OF assms(1) [unfolded None] assms(2,4)] assms(3) None by simp
  next
    case (Some g)
    have g: "g \<in> wq_live A" "g \<notin> set (wq_timer A)" using assms(5) [OF Some] by simp_all
    from frozen_loop [OF assms(1) [unfolded Some] assms(2,3) g assms(4), of k] that [of _ "A\<lparr>wq_timer := wq_timer A @ [g]\<rparr>"]
    show thesis unfolding Some by auto
  qed
  let ?c = "c1\<lparr>ccc_gcmd := scan_gcmd GACTION_RESET_BUS ?s d (set (wq_timer B)) (ccc_gcmd c1)\<rparr>"
  note R = wq_inv_repr [OF ghd_invD(1) [OF L(2)]]
  have n: "sol11ghd_timer_newstate func k c gcmdp d a t = Some ?c"
    using newstate_scan_spec [OF R, of "[]" "wq_timer B" GACTION_RESET_BUS ?s d] timer_first [OF R] L(1)
    by (simp add: sol11ghd_timer_newstate_def)
  have scan: "newstate_scan1 GACTION_RESET_BUS ?s d r =
      (if GCMD_STATE_WAITQ < cmd_state r then r\<lparr>cmd_state := max (cmd_state r) GCMD_STATE_RESETTING_BUS\<rparr> else r)" for r
    by (auto simp: newstate_scan1_def max_def not_le)
  have gc: "ccc_gcmd ?c x = (if x \<in> set (wq_timer B) then newstate_scan1 GACTION_RESET_BUS ?s d (ccc_gcmd c1 x) else ccc_gcmd c1 x)" for x
    by (simp add: scan_gcmd_def)
  have own: "\<forall>g. gcmdp = Some g \<longrightarrow> cmd_state (ccc_gcmd ?c g) = GCMD_STATE_RESETTING_BUS \<and>
      cmd_start_time (ccc_gcmd ?c g) = word_of_int (ke_lbolt k) \<and> cmd_timeout (ccc_gcmd ?c g) = word_of_int (10 * ghd_HZ k)"
    unfolding gc scan using L(3) by (simp add: presented_def)
  have others: "ccc_gcmd c1 g = ccc_gcmd c g" if "gcmdp \<noteq> Some g" for g using L(3) that by (simp add: presented_def)
  have raised: "\<forall>g\<in>set (wq_timer A). GCMD_STATE_WAITQ < cmd_state (ccc_gcmd c g) \<longrightarrow>
      cmd_state (ccc_gcmd ?c g) = max (cmd_state (ccc_gcmd c g)) GCMD_STATE_RESETTING_BUS"
  proof (intro ballI impI)
    fix g assume g: "g \<in> set (wq_timer A)" "GCMD_STATE_WAITQ < cmd_state (ccc_gcmd c g)"
    then have "gcmdp \<noteq> Some g" using assms(5) by blast
    then show "cmd_state (ccc_gcmd ?c g) = max (cmd_state (ccc_gcmd c g)) GCMD_STATE_RESETTING_BUS"
      unfolding gc scan using g others L(4) by simp
  qed
  have rest: "\<forall>g. gcmdp \<noteq> Some g \<and> (g \<notin> set (wq_timer A) \<or> cmd_state (ccc_gcmd c g) \<le> GCMD_STATE_WAITQ) \<longrightarrow>
      ccc_gcmd ?c g = ccc_gcmd c g"
    unfolding gc scan using others L(4) by (auto simp: not_le [symmetric])
  have "ccc_hba ?c = ccc_hba c" using L(3) by (simp add: presented_def)
  with n scan_inv [OF L(2), of GACTION_RESET_BUS ?s d] L(4) own raised rest show ?thesis
    by (intro exI [of _ ?c] exI [of _ B]) blast
qed

definition ghd_frozen_two :: "unit ccc_t" where
  "ghd_frozen_two = GHD_TIMER_STOP (ghd_freeze_waitq kenv0 ghd_two 500) 0"

lemma ghd_frozen_two_facts:
  "ghd_inv ghd_frozen_two (wq_two\<lparr>wq_timer := [1]\<rparr>)" "ccc_waitq_frozen ghd_frozen_two"
  "cmd_state (ccc_gcmd ghd_frozen_two 1) = GCMD_STATE_WAITQ"
proof -
  have "ghd_inv (ghd_freeze_waitq kenv0 ghd_two 500) wq_two"
    by (rule ghd_inv_cong [OF ghd_two_inv]) (simp_all add: ghd_freeze_waitq_def)
  from ghd_timer_stop_inv [OF this, of 0] show "ghd_inv ghd_frozen_two (wq_two\<lparr>wq_timer := [1]\<rparr>)"
    by (simp add: ghd_frozen_two_def)
  show "ccc_waitq_frozen ghd_frozen_two" by (simp add: ghd_frozen_two_def GHD_TIMER_STOP_def ghd_freeze_waitq_def)
  show "cmd_state (ccc_gcmd ghd_frozen_two 1) = GCMD_STATE_WAITQ"
    by (simp add: ghd_frozen_two_def GHD_TIMER_STOP_def ghd_freeze_waitq_def ghd_two_def transport_add_def timer_start_gcmd)
qed

text \<open>The request 0 has timed out and is not on the active list any more.\<close>

theorem timer_newstate_frozen_reset_witness:
  "\<exists>c'. sol11ghd_timer_newstate (\<lambda>c g d a t. Some (a = GACTION_RESET_BUS, c)) kenv0 ghd_frozen_two (Some 0) 0
       GACTION_ABORT_CMD False = Some c' \<and>
     cmd_state (ccc_gcmd c' 0) = GCMD_STATE_RESETTING_BUS \<and> cmd_state (ccc_gcmd c' 1) = GCMD_STATE_WAITQ"
proof -
  have r: "refuses (\<lambda>(c :: unit ccc_t) g d a t. Some (a = GACTION_RESET_BUS, c)) (Some 0) 0 False" by (simp add: refuses_def)
  obtain c' where "sol11ghd_timer_newstate (\<lambda>c g d a t. Some (a = GACTION_RESET_BUS, c)) kenv0 ghd_frozen_two (Some 0) 0
       GACTION_ABORT_CMD False = Some c'"
    "cmd_state (ccc_gcmd c' 0) = GCMD_STATE_RESETTING_BUS" "ccc_gcmd c' 1 = ccc_gcmd ghd_frozen_two 1"
    using timer_newstate_frozen_reset [OF r ghd_frozen_two_facts(2,1), of GACTION_ABORT_CMD kenv0] ghd_frozen_two_facts(3) by auto
  with ghd_frozen_two_facts(3) show ?thesis by auto
qed

text \<open>\<open>ghd_timeout_get\<close> always returns; it removes and returns the first request of the active
  list whose time is up (a timeout of zero never is), and reports none only when there is none.\<close>

theorem timeout_get_first_expired:
  assumes "ghd_inv c A"
  shows "case List.find (\<lambda>g. gcmd_expired k (ccc_gcmd c g)) (wq_timer A) of
      None \<Rightarrow> ghd_timeout_get k c = Some (None, c) \<and>
        (\<forall>g\<in>set (wq_timer A). \<not> gcmd_expired k (ccc_gcmd c g))
    | Some g \<Rightarrow> \<exists>c'. ghd_timeout_get k c = Some (Some g, c') \<and> gcmd_expired k (ccc_gcmd c g) \<and>
        ghd_inv c' (A\<lparr>wq_timer := remove1 g (wq_timer A)\<rparr>)"
proof (cases "List.find (\<lambda>g. gcmd_expired k (ccc_gcmd c g)) (wq_timer A)")
  case None
  then have "\<forall>g\<in>set (wq_timer A). \<not> gcmd_expired k (ccc_gcmd c g)" by (simp add: find_None_iff)
  with None show ?thesis
    by (simp add: timeout_get_spec [OF wq_inv_repr [OF ghd_invD(1) [OF assms]]])
next
  case (Some g)
  with find_SomeD [OF this] ghd_timer_stop_inv [OF assms, of g] show ?thesis
    by (simp add: timeout_get_spec [OF wq_inv_repr [OF ghd_invD(1) [OF assms]]])
qed

definition kenv_late :: kenv where
  "kenv_late = \<lparr>ke_lbolt = 100000, ke_usectohz = (\<lambda>u. u div 10000)\<rparr>"

lemma ghd_two_expired: "gcmd_expired kenv_late (ccc_gcmd ghd_two 0)"
  by (simp add: gcmd_expired_def ghd_two_def transport_add_def timer_start_gcmd kenv_late_def kenv0_def
    ghd_HZ_def ghd_zalloc_def)

theorem timeout_get_witness:
  "\<exists>c'. ghd_timeout_get kenv_late ghd_two = Some (Some 0, c') \<and> ghd_inv c' (wq_two\<lparr>wq_timer := [1]\<rparr>)"
  using timeout_get_first_expired [OF ghd_two_inv, of kenv_late] by (simp add: ghd_two_expired)

text \<open>detaching a controller takes it out of the driver's controller list and keeps the order of the
  rest, drops the reference count, and disarms the callback exactly with the last reference; the search
  always ends.\<close>

theorem timer_detach_correct:
  assumes "ccc_path nextp (t_ccc_listp t) xs" and "distinct xs" and "c \<in> set xs"
  shows "\<exists>nextp' t'. sol11ghd_timer_detach nextp t c = Some (nextp', t') \<and>
     ccc_path nextp' (t_ccc_listp t') (remove1 c xs) \<and> t_refs t' = t_refs t - 1 \<and>
     (t_armed t' \<longleftrightarrow> t_armed t \<and> 1 < t_refs t)"
  using timer_detach_spec [OF assms] by auto

theorem timer_detach_witness:
  "\<exists>n' t'. sol11ghd_timer_detach [1 \<mapsto> 2, 2 \<mapsto> 3] \<lparr>t_ticks = 10, t_refs = 3, t_ccc_listp = Some 1, t_armed = True\<rparr> 2
      = Some (n', t') \<and> ccc_path n' (t_ccc_listp t') [1, 3] \<and> t_armed t'"
  using timer_detach_correct [of "[1 \<mapsto> 2, 2 \<mapsto> 3]"
      "\<lparr>t_ticks = 10, t_refs = 3, t_ccc_listp = Some 1, t_armed = True\<rparr>" "[1, 2, 3]" 2] by auto

end
