(* ===== verification/Ata_Io.thy ===== *)
theory Ata_Io
  imports Prelude "HOL-Library.Monad_Syntax"
begin

text \<open>
  Register access of the ATA driver. The controller and its drives are not code of this
  repository: they are an argument of the model, an arbitrary function from the log of all
  accesses so far (and the register read) to the value read. A driver function threads the log
  and appends to it every access and delay it makes, in order.

  The second half is the polling and command layer of \<open>ata_common.c\<close>: \<open>sol11ata_wait\<close>,
  \<open>ata_wait3\<close>, \<open>ata_id_common\<close>, \<open>ata_command\<close>, \<open>sol11ata_set_feature\<close>,
  \<open>ata_flush_cache\<close>. A wait that need not end makes the result an option.
\<close>

subsection \<open>Registers and the access log\<close>

datatype ioreg =
    AC_ERROR
  | AC_FEATURE
  | AC_COUNT
  | AC_SECT
  | AC_LCYL
  | AC_HCYL
  | AC_DRVHD
  | AC_STATUS
  | AC_CMD
  | AC_ALTSTATUS
  | AC_DEVCTL
  | PCIIDE_BMICX_REG
  | PCIIDE_BMISX_REG

text \<open>Media states of \<open>sys/dkio.h\<close>.\<close>

datatype dkio_state = DKIO_NONE | DKIO_EJECTED | DKIO_INSERTED

datatype ioevent =
    Put8 ioreg u8
  | Get8 ioreg u8
  | RepGet16 u64 "u16 list"   \<comment> \<open>\<open>ddi_rep_get16\<close>: buffer address, words read from the data register\<close>
  | RepPut16 u64 nat          \<comment> \<open>\<open>ddi_rep_put16\<close>: buffer address, number of words written\<close>
  | Drain16 u16               \<comment> \<open>\<open>ddi_get16\<close> of the data register, value discarded\<close>
  | Get16Byte u64 u16         \<comment> \<open>\<open>ddi_get16\<close> of the data register, low byte stored at the address\<close>
  | Put16Byte u64             \<comment> \<open>\<open>ddi_put16\<close> of the byte at the address, widened\<close>
  | PutCDB "u8 list"          \<comment> \<open>\<open>ddi_rep_put16\<close> of the packet's command bytes\<close>
  | Put16 u16                 \<comment> \<open>\<open>ddi_put16\<close> to the data register\<close>
  | StoreState u64 dkio_state \<comment> \<open>a media state stored through a pointer held in a packet\<close>
  | PutPRD nat u32 u32        \<comment> \<open>entry of the scatter/gather table: index, address, count\<close>
  | PutBMIDTPX u32            \<comment> \<open>address of the scatter/gather table\<close>
  | Usecwait nat              \<comment> \<open>\<open>drv_usecwait\<close>\<close>

type_synonym iolog = "ioevent list"

record device =
  dev8 :: "iolog \<Rightarrow> ioreg \<Rightarrow> u8"
  dev16 :: "iolog \<Rightarrow> nat \<Rightarrow> u16"  \<comment> \<open>the \<open>n\<close>-th word of a transfer from the data register\<close>

definition ddi_put8 :: "ioreg \<Rightarrow> u8 \<Rightarrow> iolog \<Rightarrow> iolog" where
  "ddi_put8 r v l = l @ [Put8 r v]"

definition ddi_get8 :: "device \<Rightarrow> ioreg \<Rightarrow> iolog \<Rightarrow> u8 \<times> iolog" where
  "ddi_get8 dev r l = (dev8 dev l r, l @ [Get8 r (dev8 dev l r)])"

definition ddi_rep_get16 :: "device \<Rightarrow> u64 \<Rightarrow> nat \<Rightarrow> iolog \<Rightarrow> u16 list \<times> iolog" where
  "ddi_rep_get16 dev a n l = (let ws = map (dev16 dev l) [0..<n] in (ws, l @ [RepGet16 a ws]))"

definition drv_usecwait :: "nat \<Rightarrow> iolog \<Rightarrow> iolog" where
  "drv_usecwait n l = l @ [Usecwait n]"

subsection \<open>Bits\<close>

definition ATS_BSY :: u8 where "ATS_BSY = 0x80"
definition ATS_DRDY :: u8 where "ATS_DRDY = 0x40"
definition ATS_DF :: u8 where "ATS_DF = 0x20"
definition ATS_DRQ :: u8 where "ATS_DRQ = 0x08"
definition ATS_ERR :: u8 where "ATS_ERR = 0x01"
definition ATDC_NIEN :: u8 where "ATDC_NIEN = 0x02"
definition ATDC_SRST :: u8 where "ATDC_SRST = 0x04"
definition ATDC_D3 :: u8 where "ATDC_D3 = 0x08"
definition ATDC_HOB :: u8 where "ATDC_HOB = 0x80"
definition ATDH_LBA :: u8 where "ATDH_LBA = 0x40"
definition ATDH_DRIVE0 :: u8 where "ATDH_DRIVE0 = 0xa0"
definition ATDH_DRIVE1 :: u8 where "ATDH_DRIVE1 = 0xb0"

lemmas ata_bits = ATS_BSY_def ATS_DRDY_def ATS_DF_def ATS_DRQ_def ATS_ERR_def ATDC_NIEN_def
  ATDC_SRST_def ATDC_D3_def ATDC_HOB_def ATDH_LBA_def ATDH_DRIVE0_def ATDH_DRIVE1_def

definition has_bits :: "u8 \<Rightarrow> u8 \<Rightarrow> bool" where
  "has_bits v m \<longleftrightarrow> v AND m = m"

definition no_bits :: "u8 \<Rightarrow> u8 \<Rightarrow> bool" where
  "no_bits v m \<longleftrightarrow> v AND m = 0"

subsection \<open>Polling\<close>

definition ATA_DELAY_400NSEC :: "device \<Rightarrow> iolog \<Rightarrow> iolog" where
  "ATA_DELAY_400NSEC dev l =
     snd (ddi_get8 dev AC_ALTSTATUS (snd (ddi_get8 dev AC_ALTSTATUS
       (snd (ddi_get8 dev AC_ALTSTATUS (snd (ddi_get8 dev AC_ALTSTATUS l)))))))"

definition ata_usec_delay :: nat where
  "ata_usec_delay = 10"

partial_function (option) sol11ata_wait ::
  "device \<Rightarrow> u8 \<Rightarrow> u8 \<Rightarrow> u32 \<Rightarrow> iolog \<Rightarrow> (bool \<times> iolog) option" where
  "sol11ata_wait dev onbits offbits timeout_usec l =
    (let (val, l) = ddi_get8 dev AC_ALTSTATUS l in
     if has_bits val onbits \<and> no_bits val offbits then Some (True, l)
     else (let l = drv_usecwait ata_usec_delay l;
               timeout_usec = timeout_usec - of_nat ata_usec_delay
           in if timeout_usec > 0 then sol11ata_wait dev onbits offbits timeout_usec l
              else Some (False, l)))"

partial_function (option) ata_wait3 ::
  "device \<Rightarrow> u8 \<Rightarrow> u8 \<Rightarrow> u8 \<Rightarrow> u8 \<Rightarrow> u8 \<Rightarrow> u8 \<Rightarrow> u32 \<Rightarrow> iolog \<Rightarrow> (bool \<times> iolog) option" where
  "ata_wait3 dev onbits1 offbits1 failure_onbits2 failure_offbits2 failure_onbits3 failure_offbits3 timeout_usec l =
    (let (val, l) = ddi_get8 dev AC_ALTSTATUS l in
     if has_bits val onbits1 \<and> no_bits val offbits1 then Some (True, l)
     else if has_bits val failure_onbits2 \<and> no_bits val failure_offbits2 then Some (False, l)
     else if has_bits val failure_onbits3 \<and> no_bits val failure_offbits3 then Some (False, l)
     else (let l = drv_usecwait ata_usec_delay l;
               timeout_usec = timeout_usec - of_nat ata_usec_delay
           in if timeout_usec > 0
              then ata_wait3 dev onbits1 offbits1 failure_onbits2 failure_offbits2
                     failure_onbits3 failure_offbits3 timeout_usec l
              else Some (False, l)))"

subsection \<open>Identify and non-data commands\<close>

definition NBPSCTR :: nat where "NBPSCTR = 512"

text \<open>The buffer is a local of the callers; its address plays no role (zero here).\<close>

definition ata_id_common :: "device \<Rightarrow> u8 \<Rightarrow> bool \<Rightarrow> iolog \<Rightarrow> (bool \<times> u16 list \<times> iolog) option" where
  "ata_id_common dev id_cmd expect_drdy l =
    (let zero = replicate 256 0;
         l = ddi_put8 AC_FEATURE 0 l;
         l = ddi_put8 AC_DEVCTL ATDC_D3 l;
         l = ddi_put8 AC_CMD id_cmd l;
         l = ATA_DELAY_400NSEC dev l
     in do {
       (_, l) \<leftarrow> ata_wait3 dev 0 ATS_BSY ATS_ERR ATS_BSY 0x7f 0 5000000 l;
       let (status, l) = ddi_get8 dev AC_STATUS l;
       if status = 0xff \<or> status = 0x7f then Some (False, zero, l)
       else if status AND ATS_BSY \<noteq> 0 then Some (False, zero, l)
       else do {
         (ready, l) \<leftarrow>
           (if status AND ATS_DRQ \<noteq> 0 then Some (True, l)
            else if status AND (ATS_ERR OR ATS_DF) \<noteq> 0 then Some (False, l)
            else sol11ata_wait dev ATS_DRQ ATS_BSY 1000000 l);
         if \<not> ready then Some (False, zero, l)
         else do {
           let (ws, l) = ddi_rep_get16 dev 0 (NBPSCTR div 2) l;
           let l = ATA_DELAY_400NSEC dev l;
           (done, l) \<leftarrow> sol11ata_wait dev (if expect_drdy then ATS_DRDY else 0) (ATS_BSY OR ATS_DRQ) 1000000 l;
           if \<not> done then Some (False, ws, l)
           else if status AND (ATS_DF OR ATS_ERR) \<noteq> 0 then Some (False, ws, l)
           else Some (True, ws, l)
         }
       }
     })"

text \<open>Error and status reads that only feed debug messages are left out.\<close>

definition ata_command ::
  "device \<Rightarrow> u8 \<Rightarrow> bool \<Rightarrow> u32 \<Rightarrow> u8 \<Rightarrow> u8 \<Rightarrow> u8 \<Rightarrow> u8 \<Rightarrow> u8 \<Rightarrow> u8 \<Rightarrow> u8 \<Rightarrow> iolog \<Rightarrow> (bool \<times> iolog) option" where
  "ata_command dev drive_bits expect_drdy busy_wait cmd feature count sector head cyl_low cyl_hi l =
    (let l = ddi_put8 AC_DRVHD drive_bits l;
         l = ATA_DELAY_400NSEC dev l
     in do {
       (ok, l) \<leftarrow> sol11ata_wait dev (if expect_drdy then ATS_DRDY else 0) ATS_BSY busy_wait l;
       if \<not> ok then Some (False, l)
       else do {
         let l = ddi_put8 AC_DRVHD (head OR drive_bits) l;
         let l = ddi_put8 AC_SECT sector l;
         let l = ddi_put8 AC_COUNT count l;
         let l = ddi_put8 AC_LCYL cyl_low l;
         let l = ddi_put8 AC_HCYL cyl_hi l;
         let l = ddi_put8 AC_FEATURE feature l;
         let l = ddi_put8 AC_CMD cmd l;
         let l = ATA_DELAY_400NSEC dev l;
         (ok, l) \<leftarrow> sol11ata_wait dev 0 ATS_BSY busy_wait l;
         if \<not> ok then Some (False, l)
         else do {
           (_, l) \<leftarrow> ata_wait3 dev ATS_DRDY ATS_BSY ATS_ERR ATS_BSY ATS_DF ATS_BSY busy_wait l;
           let (status, l) = ddi_get8 dev AC_STATUS l;
           Some (status AND (ATS_BSY OR ATS_DF OR ATS_ERR) = 0, l)
         }
       }
     })"

definition ATC_SET_FEAT :: u8 where "ATC_SET_FEAT = 0xef"
definition ATC_FLUSH_CACHE :: u8 where "ATC_FLUSH_CACHE = 0xe7"
definition ata_set_feature_wait :: u32 where "ata_set_feature_wait = 4 * 1000000"
definition ata_flush_cache_wait :: u32 where "ata_flush_cache_wait = 60 * 1000000"

definition sol11ata_set_feature :: "device \<Rightarrow> u8 \<Rightarrow> u8 \<Rightarrow> u8 \<Rightarrow> iolog \<Rightarrow> (bool \<times> iolog) option" where
  "sol11ata_set_feature dev drive_bits feature val l =
     ata_command dev drive_bits True ata_set_feature_wait ATC_SET_FEAT feature val 0 0 0 0 l"

definition ata_flush_cache :: "device \<Rightarrow> u8 \<Rightarrow> iolog \<Rightarrow> (bool \<times> iolog) option" where
  "ata_flush_cache dev drive_bits l =
     ata_command dev drive_bits True ata_flush_cache_wait ATC_FLUSH_CACHE 0 0 0 0 0 0 l"

subsection \<open>How long the waits poll\<close>

text \<open>The log after \<open>i\<close> polls that did not end the wait.\<close>

primrec wait_log :: "device \<Rightarrow> nat \<Rightarrow> iolog \<Rightarrow> iolog" where
  "wait_log dev 0 l = l"
| "wait_log dev (Suc i) l =
     wait_log dev i (l @ [Get8 AC_ALTSTATUS (dev8 dev l AC_ALTSTATUS), Usecwait 10])"

definition wait_val :: "device \<Rightarrow> nat \<Rightarrow> iolog \<Rightarrow> u8" where
  "wait_val dev i l = dev8 dev (wait_log dev i l) AC_ALTSTATUS"

definition wait_end :: "device \<Rightarrow> nat \<Rightarrow> iolog \<Rightarrow> iolog" where
  "wait_end dev i l = wait_log dev i l @ [Get8 AC_ALTSTATUS (wait_val dev i l)]"

text \<open>The outcome of a wait of \<open>n\<close> polls: \<open>ends v\<close> says whether, and with which result, the value \<open>v\<close>
  ends it.\<close>

fun wait_result :: "device \<Rightarrow> (u8 \<Rightarrow> bool option) \<Rightarrow> nat \<Rightarrow> iolog \<Rightarrow> bool \<times> iolog" where
  "wait_result dev ends 0 l = (False, l)"
| "wait_result dev ends (Suc n) l =
    (case ends (dev8 dev l AC_ALTSTATUS) of
       Some r \<Rightarrow> (r, l @ [Get8 AC_ALTSTATUS (dev8 dev l AC_ALTSTATUS)])
     | None \<Rightarrow> wait_result dev ends n (l @ [Get8 AC_ALTSTATUS (dev8 dev l AC_ALTSTATUS), Usecwait 10]))"

definition wait_ends :: "u8 \<Rightarrow> u8 \<Rightarrow> u8 \<Rightarrow> bool option" where
  "wait_ends on off v = (if has_bits v on \<and> no_bits v off then Some True else None)"

definition wait3_ends :: "u8 \<Rightarrow> u8 \<Rightarrow> u8 \<Rightarrow> u8 \<Rightarrow> u8 \<Rightarrow> u8 \<Rightarrow> u8 \<Rightarrow> bool option" where
  "wait3_ends on1 off1 on2 off2 on3 off3 v =
    (if has_bits v on1 \<and> no_bits v off1 then Some True
     else if has_bits v on2 \<and> no_bits v off2 \<or> has_bits v on3 \<and> no_bits v off3 then Some False
     else None)"

text \<open>A timeout that reaches zero after \<open>n\<close> rounds, and not before.\<close>

definition wait_rounds :: "u32 \<Rightarrow> nat \<Rightarrow> bool" where
  "wait_rounds t n \<longleftrightarrow> 0 < n \<and> t = of_nat (10 * n) \<and> (\<forall>j. 0 < j \<and> j < n \<longrightarrow> (of_nat (10 * j) :: u32) \<noteq> 0)"

lemma wait_rounds_step:
  assumes "wait_rounds t n"
  shows "n = 1 \<and> t - 10 = 0 \<or> (\<exists>m. n = Suc m \<and> 0 < t - 10 \<and> wait_rounds (t - 10) m)"
proof (cases "n = 1")
  case True
  with assms show ?thesis by (simp add: wait_rounds_def)
next
  case False
  with assms obtain m where m: "n = Suc m" "0 < m" by (cases n) (auto simp: wait_rounds_def)
  have t: "t - 10 = of_nat (10 * m)" using assms m by (simp add: wait_rounds_def)
  moreover have "(of_nat (10 * m) :: u32) \<noteq> 0" using assms m by (simp add: wait_rounds_def)
  then have "0 < t - 10" unfolding t by (simp add: word_gt_0)
  moreover have "wait_rounds (t - 10) m"
    using assms m t unfolding wait_rounds_def by (metis less_SucI)
  ultimately show ?thesis using m by blast
qed

lemma sol11ata_wait_spec:
  assumes "wait_rounds t n"
  shows "sol11ata_wait dev on off t l = Some (wait_result dev (wait_ends on off) n l)"
  using assms
proof (induction n arbitrary: t l)
  case 0
  then show ?case by (simp add: wait_rounds_def)
next
  case (Suc n)
  let ?l = "l @ [Get8 AC_ALTSTATUS (dev8 dev l AC_ALTSTATUS), Usecwait 10]"
  have step: "sol11ata_wait dev on off t l =
     (case wait_ends on off (dev8 dev l AC_ALTSTATUS) of
        Some r \<Rightarrow> Some (r, l @ [Get8 AC_ALTSTATUS (dev8 dev l AC_ALTSTATUS)])
      | None \<Rightarrow> if 0 < t - 10 then sol11ata_wait dev on off (t - 10) ?l else Some (False, ?l))"
    by (subst sol11ata_wait.simps)
      (simp add: ddi_get8_def drv_usecwait_def ata_usec_delay_def wait_ends_def Let_def)
  from wait_rounds_step [OF Suc.prems] show ?case
  proof
    assume "Suc n = 1 \<and> t - 10 = 0"
    then show ?thesis by (simp only: step) (simp split: option.split)
  next
    assume "\<exists>m. Suc n = Suc m \<and> 0 < t - 10 \<and> wait_rounds (t - 10) m"
    then have "0 < t - 10" "wait_rounds (t - 10) n" by auto
    with Suc.IH [of "t - 10" ?l] show ?thesis by (simp only: step) (simp split: option.split)
  qed
qed

lemma ata_wait3_spec:
  assumes "wait_rounds t n"
  shows "ata_wait3 dev on1 off1 on2 off2 on3 off3 t l =
     Some (wait_result dev (wait3_ends on1 off1 on2 off2 on3 off3) n l)"
  using assms
proof (induction n arbitrary: t l)
  case 0
  then show ?case by (simp add: wait_rounds_def)
next
  case (Suc n)
  let ?l = "l @ [Get8 AC_ALTSTATUS (dev8 dev l AC_ALTSTATUS), Usecwait 10]"
  have step: "ata_wait3 dev on1 off1 on2 off2 on3 off3 t l =
     (case wait3_ends on1 off1 on2 off2 on3 off3 (dev8 dev l AC_ALTSTATUS) of
        Some r \<Rightarrow> Some (r, l @ [Get8 AC_ALTSTATUS (dev8 dev l AC_ALTSTATUS)])
      | None \<Rightarrow> if 0 < t - 10 then ata_wait3 dev on1 off1 on2 off2 on3 off3 (t - 10) ?l
                else Some (False, ?l))"
    by (subst ata_wait3.simps)
      (simp add: ddi_get8_def drv_usecwait_def ata_usec_delay_def wait3_ends_def Let_def)
  from wait_rounds_step [OF Suc.prems] show ?case
  proof
    assume "Suc n = 1 \<and> t - 10 = 0"
    then show ?thesis by (simp only: step) (simp split: option.split)
  next
    assume "\<exists>m. Suc n = Suc m \<and> 0 < t - 10 \<and> wait_rounds (t - 10) m"
    then have "0 < t - 10" "wait_rounds (t - 10) n" by auto
    with Suc.IH [of "t - 10" ?l] show ?thesis by (simp only: step) (simp split: option.split)
  qed
qed

lemma wait_rounds_mult:
  assumes "0 < n" "n \<le> 2 ^ 31"
  shows "wait_rounds (of_nat (10 * n)) n"
proof -
  have "(of_nat (10 * j) :: u32) \<noteq> 0" if "0 < j" "j < n" for j
  proof
    assume "(of_nat (10 * j) :: u32) = 0"
    then have "4294967296 dvd 10 * j" unfolding word_of_nat_eq_0_iff by simp
    then obtain k where "10 * j = 4294967296 * k" by (rule dvdE)
    then have "5 * j = 2147483648 * k" by simp
    then have "(2147483648 :: nat) dvd 5 * j" by simp
    moreover have "coprime (2147483648 :: nat) 5"
      by (simp add: coprime_iff_gcd_eq_1 gcd_nat.simps)
    ultimately have "(2147483648 :: nat) dvd j" using coprime_dvd_mult_right_iff by blast
    with that assms show False by (auto dest: dvd_imp_le)
  qed
  with assms show ?thesis by (simp add: wait_rounds_def)
qed

subsection \<open>What a wait leaves in the log\<close>

lemma wait_result_length:
  "length (snd (wait_result dev ends n l)) \<le> length l + 2 * n"
proof (induction n arbitrary: l)
  case (Suc n)
  show ?case
    using Suc [of "l @ [Get8 AC_ALTSTATUS (dev8 dev l AC_ALTSTATUS), Usecwait 10]"]
    by (simp split: option.split)
qed simp

lemma wait_result_value:
  "wait_result dev ends n l = (b, l') \<Longrightarrow>
     (\<exists>v l0. l' = l0 @ [Get8 AC_ALTSTATUS v] \<and> v = dev8 dev l0 AC_ALTSTATUS \<and> ends v = Some b) \<or>
     (\<not> b \<and> l' = wait_log dev n l \<and> (\<forall>i<n. ends (wait_val dev i l) = None))"
proof (induction n arbitrary: l)
  case (Suc n)
  let ?v = "dev8 dev l AC_ALTSTATUS" and ?l = "l @ [Get8 AC_ALTSTATUS (dev8 dev l AC_ALTSTATUS), Usecwait 10]"
  show ?case
  proof (cases "ends ?v")
    case None
    then have e: "wait_result dev ends n ?l = (b, l')" using Suc.prems by simp
    have v0: "wait_val dev 0 l = ?v" "wait_val dev (Suc i) l = wait_val dev i ?l" for i
      by (simp_all add: wait_val_def)
    from Suc.IH [OF e] show ?thesis
    proof
      assume r: "\<not> b \<and> l' = wait_log dev n ?l \<and> (\<forall>i<n. ends (wait_val dev i ?l) = None)"
      have "ends (wait_val dev i l) = None" if "i < Suc n" for i
        using that r None v0 by (cases i) auto
      with r show ?thesis by simp
    qed simp
  next
    case (Some r)
    with Suc.prems show ?thesis by auto
  qed
qed simp

text \<open>The total delay in a log, in microseconds.\<close>

fun ev_delay :: "ioevent \<Rightarrow> nat" where
  "ev_delay (Usecwait n) = n"
| "ev_delay _ = 0"

definition log_delay :: "iolog \<Rightarrow> nat" where
  "log_delay l = sum_list (map ev_delay l)"

lemma wait_log_delay: "log_delay (wait_log dev n l) = log_delay l + 10 * n"
  by (induction n arbitrary: l) (auto simp: log_delay_def)

text \<open>Register writes of a log, in order; waiting makes none.\<close>

fun is_put8 :: "ioevent \<Rightarrow> bool" where
  "is_put8 (Put8 r v) = True"
| "is_put8 _ = False"

definition puts :: "iolog \<Rightarrow> iolog" where
  "puts l = filter is_put8 l"

lemma puts_simps [simp, hw_simps]:
  "puts [] = []" "puts (l @ l') = puts l @ puts l'" "puts (Put8 r v # l) = Put8 r v # puts l"
  "puts (Get8 r v # l) = puts l" "puts (Usecwait n # l) = puts l" "puts (RepGet16 a ws # l) = puts l"
  "puts (RepPut16 a n # l) = puts l" "puts (Drain16 w # l) = puts l" "puts (PutCDB bs # l) = puts l"
  "puts (Get16Byte a w # l) = puts l" "puts (Put16Byte a # l) = puts l" "puts (Put16 w # l) = puts l"
  "puts (StoreState a z # l) = puts l"
  "puts (PutPRD i x y # l) = puts l" "puts (PutBMIDTPX x # l) = puts l"
  by (simp_all add: puts_def)

lemma puts_wait [simp]: "puts (snd (wait_result dev ends n l)) = puts l"
  by (induction n arbitrary: l) (auto split: option.split)

lemma puts_put8 [simp, hw_simps]: "puts (ddi_put8 r v l) = puts l @ [Put8 r v]"
  by (simp add: ddi_put8_def)

lemma puts_get8 [simp, hw_simps]: "puts (snd (ddi_get8 dev r l)) = puts l"
  by (simp add: ddi_get8_def)

lemma puts_delay [simp, hw_simps]: "puts (ATA_DELAY_400NSEC dev l) = puts l"
  by (simp add: ATA_DELAY_400NSEC_def)

lemma puts_usecwait [simp, hw_simps]: "puts (drv_usecwait n l) = puts l"
  by (simp add: drv_usecwait_def)

lemma sol11ata_wait_puts:
  assumes "wait_rounds t n" and "sol11ata_wait dev on off t l = Some (b, l')"
  shows "puts l' = puts l"
  using assms sol11ata_wait_spec [OF assms(1), of dev on off l]
    puts_wait [of dev "wait_ends on off" n l] by simp

lemma ata_wait3_puts:
  assumes "wait_rounds t n" and "ata_wait3 dev a1 b1 a2 b2 a3 b3 t l = Some (b, l')"
  shows "puts l' = puts l"
  using assms ata_wait3_spec [OF assms(1), of dev a1 b1 a2 b2 a3 b3 l]
    puts_wait [of dev "wait3_ends a1 b1 a2 b2 a3 b3" n l] by simp

lemma sol11ata_wait_returns: "wait_rounds t n \<Longrightarrow> \<exists>b l'. sol11ata_wait dev on off t l = Some (b, l')"
  by (metis sol11ata_wait_spec surj_pair)

lemma ata_wait3_returns: "wait_rounds t n \<Longrightarrow> \<exists>b l'. ata_wait3 dev a1 b1 a2 b2 a3 b3 t l = Some (b, l')"
  by (metis ata_wait3_spec surj_pair)

lemma sol11ata_wait_diverges_aux:
  "sol11ata_wait dev on off t l = Some r \<Longrightarrow>
   odd t \<and> (\<forall>l. wait_ends on off (dev8 dev l AC_ALTSTATUS) = None) \<longrightarrow> False"
proof (erule sol11ata_wait.raw_induct [where P = "\<lambda>dev on off t l r.
    odd t \<and> (\<forall>l. wait_ends on off (dev8 dev l AC_ALTSTATUS) = None) \<longrightarrow> False", rotated], intro impI, elim conjE)
  fix wait :: "device \<Rightarrow> u8 \<Rightarrow> u8 \<Rightarrow> u32 \<Rightarrow> iolog \<Rightarrow> (bool \<times> iolog) option"
    and dev on off t l r
  assume IH: "\<And>dev on off t l r. wait dev on off t l = Some r \<Longrightarrow>
      odd t \<and> (\<forall>l. wait_ends on off (dev8 dev l AC_ALTSTATUS) = None) \<longrightarrow> False"
    and eq: "(let (val, l) = ddi_get8 dev AC_ALTSTATUS l in
     if has_bits val on \<and> no_bits val off then Some (True, l)
     else let l = drv_usecwait ata_usec_delay l; t = t - of_nat ata_usec_delay
          in if t > 0 then wait dev on off t l else Some (False, l)) = Some r"
    and t: "odd t" and all: "\<forall>l. wait_ends on off (dev8 dev l AC_ALTSTATUS) = None"
  have n: "\<not> (has_bits (dev8 dev l AC_ALTSTATUS) on \<and> no_bits (dev8 dev l AC_ALTSTATUS) off)"
    using all by (auto simp: wait_ends_def split: if_splits)
  have o: "odd (t - 10)" using t by simp
  then have "t - 10 > 0" by (metis even_zero word_gt_0)
  with eq n have "wait dev on off (t - 10) (drv_usecwait ata_usec_delay
      (l @ [Get8 AC_ALTSTATUS (dev8 dev l AC_ALTSTATUS)])) = Some r"
    by (auto simp: ddi_get8_def ata_usec_delay_def Let_def)
  from IH [OF this] o all show False by blast
qed

subsection \<open>Properties\<close>

text \<open>The register file of a command, in the order it is written.\<close>

definition command_puts :: "u8 \<Rightarrow> u8 \<Rightarrow> u8 \<Rightarrow> u8 \<Rightarrow> u8 \<Rightarrow> u8 \<Rightarrow> u8 \<Rightarrow> u8 \<Rightarrow> iolog" where
  "command_puts drive_bits cmd feature count sector head cyl_low cyl_hi =
    [Put8 AC_DRVHD drive_bits, Put8 AC_DRVHD (head OR drive_bits), Put8 AC_SECT sector, Put8 AC_COUNT count,
     Put8 AC_LCYL cyl_low, Put8 AC_HCYL cyl_hi, Put8 AC_FEATURE feature, Put8 AC_CMD cmd]"

lemma ata_command_spec:
  assumes W: "wait_rounds t n"
  shows "\<exists>b l'. ata_command dev bits drdy t cmd feature count sector head cyl_low cyl_hi l = Some (b, l') \<and>
     (b \<longrightarrow> (\<exists>l0 v. l' = l0 @ [Get8 AC_STATUS v] \<and> v = dev8 dev l0 AC_STATUS \<and>
        v AND (ATS_BSY OR ATS_DF OR ATS_ERR) = 0)) \<and>
     (puts l' = puts l @ [Put8 AC_DRVHD bits] \<and> \<not> b \<or>
      puts l' = puts l @ command_puts bits cmd feature count sector head cyl_low cyl_hi)"
proof -
  let ?l1 = "ATA_DELAY_400NSEC dev (ddi_put8 AC_DRVHD bits l)"
  obtain b1 l2 where w1: "sol11ata_wait dev (if drdy then ATS_DRDY else 0) ATS_BSY t ?l1 = Some (b1, l2)"
    using sol11ata_wait_returns [OF W] by blast
  have p2: "puts l2 = puts l @ [Put8 AC_DRVHD bits]" using sol11ata_wait_puts [OF W w1] by simp
  show ?thesis
  proof (cases b1)
    case False
    with w1 p2 show ?thesis
      by (intro exI [of _ False] exI [of _ l2]) (simp add: ata_command_def Let_def)
  next
    case True
    let ?l3 = "ATA_DELAY_400NSEC dev (ddi_put8 AC_CMD cmd (ddi_put8 AC_FEATURE feature
      (ddi_put8 AC_HCYL cyl_hi (ddi_put8 AC_LCYL cyl_low (ddi_put8 AC_COUNT count
        (ddi_put8 AC_SECT sector (ddi_put8 AC_DRVHD (head OR bits) l2)))))))"
    obtain b2 l4 where w2: "sol11ata_wait dev 0 ATS_BSY t ?l3 = Some (b2, l4)"
      using sol11ata_wait_returns [OF W] by blast
    have p4: "puts l4 = puts l @ command_puts bits cmd feature count sector head cyl_low cyl_hi"
      using sol11ata_wait_puts [OF W w2] p2 by (simp add: command_puts_def)
    obtain b3 l5 where w3: "ata_wait3 dev ATS_DRDY ATS_BSY ATS_ERR ATS_BSY ATS_DF ATS_BSY t l4 = Some (b3, l5)"
      using ata_wait3_returns [OF W] by blast
    have p5: "puts l5 = puts l4" by (rule ata_wait3_puts [OF W w3])
    show ?thesis
    proof (cases b2)
      case False
      with w1 w2 p4 True show ?thesis
        by (intro exI [of _ False] exI [of _ l4]) (simp add: ata_command_def Let_def)
    next
      case b2: True
      have "ata_command dev bits drdy t cmd feature count sector head cyl_low cyl_hi l =
        Some (dev8 dev l5 AC_STATUS AND (ATS_BSY OR ATS_DF OR ATS_ERR) = 0, l5 @ [Get8 AC_STATUS (dev8 dev l5 AC_STATUS)])"
        using w1 w2 w3 True b2 by (simp add: ata_command_def Let_def ddi_get8_def)
      with p4 p5 show ?thesis by simp
    qed
  qed
qed

text \<open>a wait whose timeout is \<open>10 n\<close> microseconds (\<open>n\<close> positive, at most \<open>2 ^ 31\<close>) returns after at
  most \<open>n\<close> polls, 10 microseconds apart. It returns TRUE exactly on a status with every wanted bit on
  and every unwanted bit off, read by its last access; it returns FALSE (not TRUE, as the
  comment says) only after all \<open>n\<close> polls failed and \<open>10 n\<close> microseconds passed.\<close>

theorem ata_wait_bounded:
  assumes "0 < n" and "n \<le> 2 ^ 31"
  shows "\<exists>b l'. sol11ata_wait dev onbits offbits (of_nat (10 * n)) l = Some (b, l') \<and>
     length l' \<le> length l + 2 * n \<and>
     (b \<longrightarrow> (\<exists>l0 v. l' = l0 @ [Get8 AC_ALTSTATUS v] \<and> v = dev8 dev l0 AC_ALTSTATUS \<and>
        v AND onbits = onbits \<and> v AND offbits = 0)) \<and>
     (\<not> b \<longrightarrow> log_delay l' = log_delay l + 10 * n \<and>
        (\<forall>i<n. \<not> (wait_val dev i l AND onbits = onbits \<and> wait_val dev i l AND offbits = 0)))"
proof -
  obtain b l' where r: "wait_result dev (wait_ends onbits offbits) n l = (b, l')" by fastforce
  have s: "sol11ata_wait dev onbits offbits (of_nat (10 * n)) l = Some (b, l')"
    using sol11ata_wait_spec [OF wait_rounds_mult [OF assms]] r by simp
  have len: "length l' \<le> length l + 2 * n"
    using wait_result_length [of dev "wait_ends onbits offbits" n l] r by simp
  from wait_result_value [OF r] show ?thesis
  proof
    assume "\<exists>v l0. l' = l0 @ [Get8 AC_ALTSTATUS v] \<and> v = dev8 dev l0 AC_ALTSTATUS \<and>
      wait_ends onbits offbits v = Some b"
    then obtain v l0 where v: "l' = l0 @ [Get8 AC_ALTSTATUS v]" "v = dev8 dev l0 AC_ALTSTATUS"
      "wait_ends onbits offbits v = Some b" by blast
    then have b and "v AND onbits = onbits \<and> v AND offbits = 0"
      by (auto simp: wait_ends_def has_bits_def no_bits_def split: if_splits)
    with s len v(1,2) show ?thesis by blast
  next
    assume f: "\<not> b \<and> l' = wait_log dev n l \<and> (\<forall>i<n. wait_ends onbits offbits (wait_val dev i l) = None)"
    then have "\<forall>i<n. \<not> (wait_val dev i l AND onbits = onbits \<and> wait_val dev i l AND offbits = 0)"
      by (auto simp: wait_ends_def has_bits_def no_bits_def split: if_splits)
    with f s len show ?thesis
      by (intro exI [of _ False] exI [of _ "wait_log dev n l"]) (simp add: wait_log_delay)
  qed
qed

theorem ata_wait_bounded_witness:
  "\<exists>l'. sol11ata_wait \<lparr>dev8 = \<lambda>l r. if length l < 3 then 0x80 else 0x40, dev16 = \<lambda>l n. 0\<rparr> ATS_DRDY ATS_BSY
     (of_nat (10 * 3)) [] = Some (True, l') \<and> length l' \<le> 6"
proof -
  let ?d = "\<lparr>dev8 = \<lambda>l r. if length l < 3 then 0x80 else 0x40, dev16 = \<lambda>l n. 0\<rparr>"
  obtain b l' where w: "sol11ata_wait ?d ATS_DRDY ATS_BSY (of_nat (10 * 3)) [] = Some (b, l')" "length l' \<le> 6"
    "\<not> b \<longrightarrow> (\<forall>i<3. \<not> (wait_val ?d i [] AND ATS_DRDY = ATS_DRDY \<and> wait_val ?d i [] AND ATS_BSY = 0))"
    using ata_wait_bounded [of 3 ?d ATS_DRDY ATS_BSY "[]"] by auto
  have "wait_val ?d 2 [] = 0x40" by (simp add: wait_val_def numeral_2_eq_2)
  with w have b by (auto simp: ata_bits dest: spec [of _ 2])
  with w show ?thesis by auto
qed

text \<open>the microsecond counter of the wait is unsigned and compared with zero after the
  subtraction, so a timeout that is no multiple of the step misses zero: with an odd timeout and a device
  that never shows the wanted status the wait never returns, and a timeout of zero polls \<open>2 ^ 31\<close> times
  (about six hours) before it gives up.\<close>

theorem ata_wait_timeout_wraps:
  assumes "\<forall>l. \<not> (dev8 dev l AC_ALTSTATUS AND onbits = onbits \<and> dev8 dev l AC_ALTSTATUS AND offbits = 0)"
    and "odd t"
  shows "sol11ata_wait dev onbits offbits t l = None \<and>
     (\<exists>l'. sol11ata_wait dev onbits offbits 0 l = Some (False, l') \<and> log_delay l' = log_delay l + 10 * 2 ^ 31)"
proof
  have n: "wait_ends onbits offbits (dev8 dev l AC_ALTSTATUS) = None" for l
    using assms(1) by (auto simp: wait_ends_def has_bits_def no_bits_def)
  show "sol11ata_wait dev onbits offbits t l = None"
    using sol11ata_wait_diverges_aux [of dev onbits offbits t l] \<open>odd t\<close> n
    by (cases "sol11ata_wait dev onbits offbits t l") blast+
  have "(of_nat (10 * 2 ^ 31) :: u32) = 0" unfolding word_of_nat_eq_0_iff by simp
  then have W: "wait_rounds 0 (2 ^ 31)" using wait_rounds_mult [of "2 ^ 31"] by (simp only:) simp
  obtain b l' where r: "wait_result dev (wait_ends onbits offbits) (2 ^ 31) l = (b, l')" by fastforce
  from wait_result_value [OF r] n have "\<not> b \<and> l' = wait_log dev (2 ^ 31) l" by auto
  with sol11ata_wait_spec [OF W, of dev onbits offbits l] r wait_log_delay [of dev "2 ^ 31" l]
  show "\<exists>l'. sol11ata_wait dev onbits offbits 0 l = Some (False, l') \<and> log_delay l' = log_delay l + 10 * 2 ^ 31"
    by simp
qed

theorem ata_wait_timeout_wraps_witness:
  "sol11ata_wait \<lparr>dev8 = \<lambda>l r. 0x80, dev16 = \<lambda>l n. 0\<rparr> ATS_DRDY ATS_BSY 15 [] = None"
  by (rule ata_wait_timeout_wraps [THEN conjunct1]) (simp_all add: ata_bits)

lemma wait_ready_iff:
  "fst (wait_result dev (wait_ends on off) n l) \<longleftrightarrow> (\<exists>i<n. wait_val dev i l AND on = on \<and> wait_val dev i l AND off = 0)"
proof (induction n arbitrary: l)
  case (Suc n)
  let ?v = "dev8 dev l AC_ALTSTATUS" and ?l = "l @ [Get8 AC_ALTSTATUS (dev8 dev l AC_ALTSTATUS), Usecwait 10]"
  have v: "wait_val dev 0 l = ?v" "\<And>i. wait_val dev (Suc i) l = wait_val dev i ?l" by (simp_all add: wait_val_def)
  show ?case
    using Suc.IH [of ?l] unfolding Ex_less_Suc2 v by (auto simp: wait_ends_def has_bits_def no_bits_def)
qed simp

text \<open>The log when \<open>ata_command\<close> begins to wait for the drive to become ready, and whether it does within \<open>n\<close> polls.\<close>

definition selected :: "device \<Rightarrow> u8 \<Rightarrow> iolog \<Rightarrow> iolog" where
  "selected dev bits l = ATA_DELAY_400NSEC dev (l @ [Put8 AC_DRVHD bits])"

definition becomes_ready :: "device \<Rightarrow> u8 \<Rightarrow> bool \<Rightarrow> nat \<Rightarrow> iolog \<Rightarrow> bool" where
  "becomes_ready dev bits drdy n l \<longleftrightarrow>
     (\<exists>i<n. (drdy \<longrightarrow> wait_val dev i (selected dev bits l) AND ATS_DRDY = ATS_DRDY) \<and>
        wait_val dev i (selected dev bits l) AND ATS_BSY = 0)"

text \<open>C28: \<open>ata_command\<close> with a proper timeout always returns. It selects the drive first; if the drive does not become
  ready within the timeout it writes nothing more and fails; if it does, it writes the task file in the order head, sector,
  count, cylinders, feature and the command register last, each exactly once. Then either it has read the status
  register last, and succeeds exactly when BSY, DF and ERR are all clear in it, or it fails because the drive was
  busy at every poll after the command.\<close>

theorem ata_command_correct:
  assumes "0 < n" and "n \<le> 2 ^ 31"
  shows "\<exists>b l'. ata_command dev bits drdy (of_nat (10 * n)) cmd feature count sector head cyl_low cyl_hi l = Some (b, l') \<and>
     (if becomes_ready dev bits drdy n l
      then puts l' = puts l @ command_puts bits cmd feature count sector head cyl_low cyl_hi \<and>
        ((\<exists>l0 v. l' = l0 @ [Get8 AC_STATUS v] \<and> v = dev8 dev l0 AC_STATUS \<and>
            b = (v AND (ATS_BSY OR ATS_DF OR ATS_ERR) = 0)) \<or>
         \<not> b \<and> (\<exists>l0. l' = wait_log dev n l0 \<and> puts l0 = puts l' \<and> (\<forall>i<n. wait_val dev i l0 AND ATS_BSY \<noteq> 0)))
      else \<not> b \<and> puts l' = puts l @ [Put8 AC_DRVHD bits])"
proof -
  note W = wait_rounds_mult [OF assms]
  let ?t = "of_nat (10 * n) :: u32" and ?l1 = "selected dev bits l"
  have l1: "ATA_DELAY_400NSEC dev (ddi_put8 AC_DRVHD bits l) = ?l1" by (simp add: selected_def ddi_put8_def)
  have p1: "puts ?l1 = puts l @ [Put8 AC_DRVHD bits]" unfolding l1 [symmetric] by simp
  obtain b1 l2 where w1: "sol11ata_wait dev (if drdy then ATS_DRDY else 0) ATS_BSY ?t ?l1 = Some (b1, l2)"
    using sol11ata_wait_returns [OF W] by blast
  have p2: "puts l2 = puts l @ [Put8 AC_DRVHD bits]" using sol11ata_wait_puts [OF W w1] p1 by simp
  have r: "b1 = becomes_ready dev bits drdy n l"
    using wait_ready_iff [of dev "if drdy then ATS_DRDY else 0" ATS_BSY n ?l1] sol11ata_wait_spec [OF W, of dev _ ATS_BSY ?l1] w1
    by (auto simp: becomes_ready_def)
  show ?thesis
  proof (cases b1)
    case False
    with w1 p2 r show ?thesis by (intro exI [of _ False] exI [of _ l2]) (simp add: ata_command_def l1 Let_def)
  next
    case True
    let ?l3 = "ATA_DELAY_400NSEC dev (ddi_put8 AC_CMD cmd (ddi_put8 AC_FEATURE feature
      (ddi_put8 AC_HCYL cyl_hi (ddi_put8 AC_LCYL cyl_low (ddi_put8 AC_COUNT count
        (ddi_put8 AC_SECT sector (ddi_put8 AC_DRVHD (head OR bits) l2)))))))"
    have p3: "puts ?l3 = puts l @ command_puts bits cmd feature count sector head cyl_low cyl_hi"
      using p2 by (simp add: command_puts_def)
    obtain b2 l4 where w2: "sol11ata_wait dev 0 ATS_BSY ?t ?l3 = Some (b2, l4)"
      using sol11ata_wait_returns [OF W] by blast
    have p4: "puts l4 = puts ?l3" by (rule sol11ata_wait_puts [OF W w2])
    show ?thesis
    proof (cases b2)
      case False
      have e: "wait_result dev (wait_ends 0 ATS_BSY) n ?l3 = (b2, l4)" using sol11ata_wait_spec [OF W, of dev 0 ATS_BSY ?l3] w2 by simp
      have "wait_ends 0 ATS_BSY v \<noteq> Some False" for v by (simp add: wait_ends_def)
      with wait_result_value [OF e] False have "l4 = wait_log dev n ?l3" by auto
      moreover have "\<forall>i<n. wait_val dev i ?l3 AND ATS_BSY \<noteq> 0"
        using wait_ready_iff [of dev 0 ATS_BSY n ?l3] e False by simp
      moreover have "ata_command dev bits drdy ?t cmd feature count sector head cyl_low cyl_hi l = Some (False, l4)"
        using w1 w2 True False by (simp add: ata_command_def l1 Let_def)
      ultimately show ?thesis using r True p3 p4 by (intro exI [of _ False] exI [of _ l4]) auto
    next
      case b2: True
      obtain b3 l5 where w3: "ata_wait3 dev ATS_DRDY ATS_BSY ATS_ERR ATS_BSY ATS_DF ATS_BSY ?t l4 = Some (b3, l5)"
        using ata_wait3_returns [OF W] by blast
      have p5: "puts l5 = puts l4" by (rule ata_wait3_puts [OF W w3])
      have "ata_command dev bits drdy ?t cmd feature count sector head cyl_low cyl_hi l =
        Some (dev8 dev l5 AC_STATUS AND (ATS_BSY OR ATS_DF OR ATS_ERR) = 0, l5 @ [Get8 AC_STATUS (dev8 dev l5 AC_STATUS)])"
        using w1 w2 w3 True b2 by (simp add: ata_command_def l1 Let_def ddi_get8_def)
      with p3 p4 p5 r True show ?thesis by simp
    qed
  qed
qed

theorem ata_command_witness:
  "\<exists>l'. ata_command \<lparr>dev8 = \<lambda>l r. 0x50, dev16 = \<lambda>l n. 0\<rparr> 0xa0 True (of_nat (10 * 5)) 0xef 2 0 0 0 0 0 [] = Some (True, l') \<and>
     puts l' = command_puts 0xa0 0xef 2 0 0 0 0 0"
proof -
  let ?d = "\<lparr>dev8 = \<lambda>l r. 0x50, dev16 = \<lambda>l n. 0\<rparr>"
  have "becomes_ready ?d 0xa0 True 5 []"
    by (simp add: becomes_ready_def wait_val_def ata_bits) (rule exI [of _ "0 :: nat"], simp)
  moreover have "(0x50 :: u8) AND (ATS_BSY OR ATS_DF OR ATS_ERR) = 0" "\<not> (\<forall>i<(5 :: nat). (0x50 :: u8) AND ATS_BSY \<noteq> 0)"
    by (auto simp: ata_bits intro: exI [of _ 0])
  ultimately show ?thesis
    using ata_command_correct [of 5 ?d "0xa0" True "0xef" "2" "0" "0" "0" "0" "0" "[]"] by (auto simp: wait_val_def)
qed

end
