(* ===== verification/Ata_State.thy ===== *)
theory Ata_State
  imports Ata_Io Ghd_State
begin

text \<open>
  The soft state of the ATA driver (\<open>ata_common.h\<close>): the per-controller structure
  \<open>ata_ctl_t\<close> with its drives \<open>ata_drv_t\<close> and packets \<open>ata_pkt_t\<close>, and the access log of the
  controller's registers. The packet of GHD command \<open>g\<close> (\<open>GCMD2APKT\<close>) is \<open>PktOf g\<close>; the
  controller's own packet for automatic request sense is \<open>ArqPkt\<close>. A drive is named by target
  and lun. Callback pointers are constructors.
\<close>

datatype pkt_ref = PktOf nat | ArqPkt

type_synonym drv_ref = "nat \<times> nat"

datatype fsm_rc =
    ATA_FSM_RC_OKAY
  | ATA_FSM_RC_BUSY
  | ATA_FSM_RC_INTR
  | ATA_FSM_RC_FINI

datatype ap_start_fn =
    Start_atapi_fsm_start
  | Start_ata_disk_start
  | Start_ata_disk_start_dma_in
  | Start_ata_disk_start_dma_out
  | Start_ata_disk_start_pio_in
  | Start_ata_disk_start_pio_out
  | Start_ata_disk_state
  | Start_ata_disk_eject
  | Start_ata_disk_lock
  | Start_ata_disk_unlock
  | Start_ata_disk_standby
  | Start_ata_disk_recalibrate

datatype ap_intr_fn =
    Intr_atapi_fsm_intr
  | Intr_ata_disk_intr
  | Intr_ata_disk_intr_pio_in
  | Intr_ata_disk_intr_pio_out
  | Intr_ata_disk_intr_dma

text \<open>
  Disk commands and their completion codes (\<open>DCMD_*\<close>, \<open>DERR_*\<close> of \<open>sys/dktp/dadkio.h\<close>, named by
  constructors; a command the driver does not know is \<open>DCMD_OTHER\<close>).
\<close>

datatype dcmd =
    DCMD_READ
  | DCMD_WRITE
  | DCMD_FLUSH_CACHE
  | DCMD_OTHER nat

datatype derr =
    DERR_SUCCESS
  | DERR_AMNF
  | DERR_TKONF
  | DERR_ABORT
  | DERR_DWF
  | DERR_IDNF
  | DERR_BUSY
  | DERR_UNC
  | DERR_BBK
  | DERR_INVCDB
  | DERR_HARD
  | DERR_ILI
  | DERR_EOM
  | DERR_MCR
  | DERR_RECOVER
  | DERR_NOTREADY
  | DERR_MEDIUM
  | DERR_HW
  | DERR_ILL
  | DERR_UNIT_ATTN
  | DERR_DATA_PROT
  | DERR_MISCOMPARE
  | DERR_ICRC
  | DERR_RESV

text \<open>The DADA packet (\<open>cmpkt.h\<close>), as far as the driver reads or writes it. A pass-through command is
  its direction, block address and buffer length.\<close>

datatype rwcmd_dir = DADKIO_RWCMD_READ | DADKIO_RWCMD_WRITE | DADKIO_RWCMD_OTHER

record dadkio_rwcmd =
  rw_cmd :: rwcmd_dir
  rw_blkaddr :: u64
  rw_buflen :: u32

datatype cp_reason_t = CPS_SUCCESS | CPS_FAILURE | CPS_CHKERR | CPS_ABORTED

record cmpkt =
  cp_reason :: cp_reason_t
  cp_time :: int
  cp_resid :: u64
  cp_byteleft :: u64
  cp_bytexfer :: u64
  cp_srtsec :: u64
  cp_secleft :: u64
  cp_retry :: u16
  cp_passthru :: "dadkio_rwcmd option"

datatype ap_complete_fn = Complete_none | Complete_ata_disk_complete | Complete_atapi_complete

text \<open>States of the ATAPI protocol machine and of the controller machine (\<open>ata_fsm.h\<close>).\<close>

datatype atapi_state = S_IDLE | S_CMD | S_CDB | S_IN | S_OUT | S_DMA

datatype ctlr_state = AS_IDLE | AS_ACTIVE0 | AS_ACTIVE1

record prde_t =
  p_address :: u32
  p_count :: u32

record ata_id =
  ai_config :: u16
  ai_fixcyls :: u16
  ai_heads :: u16
  ai_sectors :: u16
  ai_drvser :: "u8 list"
  ai_fw :: "u8 list"
  ai_model :: "u8 list"
  ai_mult1 :: u16
  ai_cap :: u16
  ai_validinfo :: u16
  ai_curcyls :: u16
  ai_curheads :: u16
  ai_cursectrk :: u16
  ai_cursccp0 :: u16
  ai_cursccp1 :: u16
  ai_mult2 :: u16
  ai_addrsec0 :: u16
  ai_addrsec1 :: u16
  ai_dworddma :: u16
  ai_advpiomode :: u16
  ai_majorversion :: u16
  ai_cmdset83 :: u16
  ai_features85 :: u16
  ai_features86 :: u16
  ai_ultradma :: u16
  ai_addrsecxt :: "u16 list"   \<comment> \<open>four words\<close>

record ata_drv =
  ad_id :: ata_id
  ad_flags :: u32
  ad_pciide_dma :: bool
  ad_targ :: nat
  ad_lun :: u8
  ad_drive_bits :: u8
  ad_state :: atapi_state
  ad_cdb_len :: u8
  ad_bogus_drq :: bool
  ad_nec_bad_status :: bool
  ad_rd_cmd :: u8
  ad_wr_cmd :: u8
  ad_acyl :: u16
  ad_drvrcyl :: u32
  ad_drvrhd :: u32
  ad_drvrsec :: u32
  ad_phhd :: u16
  ad_phsec :: u16
  ad_block_factor :: u16      \<comment> \<open>\<open>short\<close>\<close>
  ad_bytes_per_block :: u16   \<comment> \<open>\<open>short\<close>\<close>
  ad_capacity :: u64

record ata_pkt =
  ap_gcmdp :: "nat option"
  ap_flags :: u32
  ap_bcount :: u64
  ap_v_addr :: u64
  ap_resid :: u64
  ap_pciide_dma :: bool
  ap_sg_list :: "prde_t list"
  ap_sg_cnt :: nat
  ap_startsec :: u64
  ap_count :: u16
  ap_sec :: u8
  ap_lwcyl :: u8
  ap_hicyl :: u8
  ap_hd :: u8
  ap_cmd :: u8
  ap_status :: u8
  ap_error :: u8
  ap_start :: ap_start_fn
  ap_intr :: ap_intr_fn
  ap_complete :: ap_complete_fn
  ap_cdb :: dcmd
  ap_scb :: derr
  ap_bytes_per_block :: u32
  ap_wrt_count :: u32
  ap_v_addr_sav :: u64
  ap_resid_sav :: u64
  ap_cdbp :: "u8 list"
  ap_cdb_len :: u8
  ap_cdb_pad :: u8
  ap_scbp_sense :: u64        \<comment> \<open>address of \<open>ap_scbp->sts_sensedata\<close>\<close>
  ap_statuslen :: u8

record ata_ctl =
  ac_flags :: u32
  ac_timing_flags :: u32
  ac_drvp :: "nat \<Rightarrow> nat \<Rightarrow> ata_drv option"
  ac_pkt :: "pkt_ref \<Rightarrow> ata_pkt"
  ac_max_transfer :: nat
  ac_standby_time :: u32
  ac_active_drvp :: "drv_ref option"
  ac_active_pktp :: "pkt_ref option"
  ac_state :: ctlr_state
  ac_pciide :: bool
  ac_pciide_bm :: bool
  ac_sg_paddr :: u32
  ac_fault_pktp :: "pkt_ref option"
  ac_arq_cdb :: "u8 list"
  ac_log :: iolog

subsection \<open>Flag bits\<close>

definition AD_ATAPI :: u32 where "AD_ATAPI = 0x01"
definition AD_NO_CDB_INTR :: u32 where "AD_NO_CDB_INTR = 0x20"
definition AD_INT13LBA :: u32 where "AD_INT13LBA = 0x80"
definition AD_EXT48 :: u32 where "AD_EXT48 = 0x200"
definition AC_BSY_WAIT :: u32 where "AC_BSY_WAIT = 0x1"
definition AC_ATTACHED :: u32 where "AC_ATTACHED = 0x10"
definition AC_BMSTATREG_PIO_BROKEN :: u32 where "AC_BMSTATREG_PIO_BROKEN = 0x80000000"
definition AP_ATAPI :: u32 where "AP_ATAPI = 0x0001"
definition AP_ERROR :: u32 where "AP_ERROR = 0x0002"
definition AP_TRAN_ERROR :: u32 where "AP_TRAN_ERROR = 0x0004"
definition AP_READ :: u32 where "AP_READ = 0x0008"
definition AP_WRITE :: u32 where "AP_WRITE = 0x0010"
definition AP_ABORT :: u32 where "AP_ABORT = 0x0020"
definition AP_TIMEOUT :: u32 where "AP_TIMEOUT = 0x0040"
definition AP_BUS_RESET :: u32 where "AP_BUS_RESET = 0x0080"
definition AP_DEV_RESET :: u32 where "AP_DEV_RESET = 0x0100"
definition AP_SENT_CMD :: u32 where "AP_SENT_CMD = 0x0200"
definition AP_XFERRED_DATA :: u32 where "AP_XFERRED_DATA = 0x0400"
definition AP_GOT_STATUS :: u32 where "AP_GOT_STATUS = 0x0800"
definition AP_ARQ_ON_ERROR :: u32 where "AP_ARQ_ON_ERROR = 0x1000"
definition AP_ARQ_OKAY :: u32 where "AP_ARQ_OKAY = 0x2000"
definition AP_ARQ_ERROR :: u32 where "AP_ARQ_ERROR = 0x4000"

lemmas ap_flag_defs = AP_ATAPI_def AP_ERROR_def AP_TRAN_ERROR_def AP_READ_def AP_WRITE_def AP_ABORT_def
  AP_TIMEOUT_def AP_BUS_RESET_def AP_DEV_RESET_def AP_SENT_CMD_def AP_XFERRED_DATA_def AP_GOT_STATUS_def
  AP_ARQ_ON_ERROR_def AP_ARQ_OKAY_def AP_ARQ_ERROR_def

definition flag_set :: "u32 \<Rightarrow> u32 \<Rightarrow> bool" where
  "flag_set fl m \<longleftrightarrow> fl AND m \<noteq> 0"

subsection \<open>Access to the state\<close>

definition upd_pkt :: "pkt_ref \<Rightarrow> (ata_pkt \<Rightarrow> ata_pkt) \<Rightarrow> ata_ctl \<Rightarrow> ata_ctl" where
  "upd_pkt p f s = s\<lparr>ac_pkt := (ac_pkt s)(p := f (ac_pkt s p))\<rparr>"

text \<open>\<open>CTL2DRV\<close>, for a drive known to exist.\<close>

definition drv :: "ata_ctl \<Rightarrow> drv_ref \<Rightarrow> ata_drv" where
  "drv s dr = the (ac_drvp s (fst dr) (snd dr))"

definition upd_drv :: "drv_ref \<Rightarrow> (ata_drv \<Rightarrow> ata_drv) \<Rightarrow> ata_ctl \<Rightarrow> ata_ctl" where
  "upd_drv dr f s = s\<lparr>ac_drvp := (ac_drvp s)(fst dr := (ac_drvp s (fst dr))
     (snd dr := map_option f (ac_drvp s (fst dr) (snd dr))))\<rparr>"

definition set_pkt_flags :: "pkt_ref \<Rightarrow> u32 \<Rightarrow> ata_ctl \<Rightarrow> ata_ctl" where
  "set_pkt_flags p m s = upd_pkt p (\<lambda>k. k\<lparr>ap_flags := ap_flags k OR m\<rparr>) s"

definition put8 :: "ioreg \<Rightarrow> u8 \<Rightarrow> ata_ctl \<Rightarrow> ata_ctl" where
  "put8 r v s = s\<lparr>ac_log := ddi_put8 r v (ac_log s)\<rparr>"

definition get8 :: "device \<Rightarrow> ioreg \<Rightarrow> ata_ctl \<Rightarrow> u8 \<times> ata_ctl" where
  "get8 dev r s = (let (v, l) = ddi_get8 dev r (ac_log s) in (v, s\<lparr>ac_log := l\<rparr>))"

definition log_event :: "ioevent \<Rightarrow> ata_ctl \<Rightarrow> ata_ctl" where
  "log_event e s = s\<lparr>ac_log := ac_log s @ [e]\<rparr>"

definition delay400 :: "device \<Rightarrow> ata_ctl \<Rightarrow> ata_ctl" where
  "delay400 dev s = s\<lparr>ac_log := ATA_DELAY_400NSEC dev (ac_log s)\<rparr>"

definition usecwait :: "nat \<Rightarrow> ata_ctl \<Rightarrow> ata_ctl" where
  "usecwait n s = s\<lparr>ac_log := drv_usecwait n (ac_log s)\<rparr>"

definition wait :: "device \<Rightarrow> u8 \<Rightarrow> u8 \<Rightarrow> u32 \<Rightarrow> ata_ctl \<Rightarrow> (bool \<times> ata_ctl) option" where
  "wait dev on off t s = map_option (\<lambda>(b, l). (b, s\<lparr>ac_log := l\<rparr>)) (sol11ata_wait dev on off t (ac_log s))"

definition wait3 :: "device \<Rightarrow> u8 \<Rightarrow> u8 \<Rightarrow> u8 \<Rightarrow> u8 \<Rightarrow> u8 \<Rightarrow> u8 \<Rightarrow> u32 \<Rightarrow> ata_ctl \<Rightarrow> (bool \<times> ata_ctl) option" where
  "wait3 dev on1 off1 on2 off2 on3 off3 t s =
     map_option (\<lambda>(b, l). (b, s\<lparr>ac_log := l\<rparr>)) (ata_wait3 dev on1 off1 on2 off2 on3 off3 t (ac_log s))"

subsection \<open>What the accesses leave alone\<close>

text \<open>Two states that differ in the log alone.\<close>

definition log_only :: "ata_ctl \<Rightarrow> ata_ctl \<Rightarrow> bool" where
  "log_only s s' \<longleftrightarrow> (\<exists>l. s' = s\<lparr>ac_log := l\<rparr>)"

lemma log_only_refl [simp]: "log_only s s"
  unfolding log_only_def by (rule exI [of _ "ac_log s"]) simp

lemma log_only_trans: "log_only s s' \<Longrightarrow> log_only s' s'' \<Longrightarrow> log_only s s''"
  by (auto simp: log_only_def)

lemma log_only_io [simp]:
  "log_only s (put8 r v s)" "log_only s (snd (get8 dev r s))" "log_only s (delay400 dev s)"
  "log_only s (usecwait n s)" "log_only s (log_event e s)"
  by (auto simp: log_only_def put8_def get8_def ddi_get8_def delay400_def usecwait_def log_event_def)

lemma log_onlyD:
  assumes "log_only s s'"
  shows "ac_pkt s' = ac_pkt s" "ac_drvp s' = ac_drvp s" "ac_state s' = ac_state s"
    "ac_active_pktp s' = ac_active_pktp s" "ac_active_drvp s' = ac_active_drvp s"
    "ac_fault_pktp s' = ac_fault_pktp s" "ac_flags s' = ac_flags s"
  using assms by (auto simp: log_only_def)

lemma wait_returns:
  assumes "wait_rounds t n"
  shows "\<exists>b s'. wait dev on off t s = Some (b, s') \<and> log_only s s'"
  using sol11ata_wait_returns [OF assms, of dev on off "ac_log s"] by (auto simp: wait_def log_only_def)

lemma wait3_returns:
  assumes "wait_rounds t n"
  shows "\<exists>b s'. wait3 dev a1 b1 a2 b2 a3 b3 t s = Some (b, s') \<and> log_only s s'"
  using ata_wait3_returns [OF assms, of dev a1 b1 a2 b2 a3 b3 "ac_log s"]
  by (auto simp: wait3_def log_only_def)

text \<open>The timeouts the driver uses.\<close>

lemma wait_rounds_used:
  "wait_rounds 5000000 500000" "wait_rounds 4000000 400000" "wait_rounds 6000000 600000"
  "wait_rounds 1000000 100000" "wait_rounds 60000000 6000000"
  "wait_rounds 31000000 3100000"
  using wait_rounds_mult [of 500000] wait_rounds_mult [of 400000] wait_rounds_mult [of 600000]
    wait_rounds_mult [of 100000] wait_rounds_mult [of 6000000]
    wait_rounds_mult [of 3100000] by simp_all

subsection \<open>The data a log moves\<close>

text \<open>
  Words read from the data register, in order, and the bytes the accesses of a log store in
  memory (a word is stored low byte first).
\<close>

fun ev_words :: "ioevent \<Rightarrow> u16 list" where
  "ev_words (RepGet16 a ws) = ws"
| "ev_words (Drain16 w) = [w]"
| "ev_words (Get16Byte a w) = [w]"
| "ev_words _ = []"

definition word_bytes :: "u16 \<Rightarrow> u8 list" where
  "word_bytes w = [ucast w, ucast (drop_bit 8 w)]"

definition le_bytes :: "u16 list \<Rightarrow> u8 list" where
  "le_bytes ws = concat (map word_bytes ws)"

fun stores_at :: "u64 \<Rightarrow> u8 list \<Rightarrow> (u64 \<times> u8) list" where
  "stores_at a [] = []"
| "stores_at a (b # bs) = (a, b) # stores_at (a + 1) bs"

fun ev_stores :: "ioevent \<Rightarrow> (u64 \<times> u8) list" where
  "ev_stores (RepGet16 a ws) = stores_at a (le_bytes ws)"
| "ev_stores (Get16Byte a w) = [(a, ucast w)]"
| "ev_stores _ = []"

definition data_words :: "iolog \<Rightarrow> u16 list" where
  "data_words l = concat (map ev_words l)"

definition mem_stores :: "iolog \<Rightarrow> (u64 \<times> u8) list" where
  "mem_stores l = concat (map ev_stores l)"

lemma data_log_simps [simp]:
  "data_words [] = []" "data_words (e # l) = ev_words e @ data_words l" "data_words (l @ l') = data_words l @ data_words l'"
  "mem_stores [] = []" "mem_stores (e # l) = ev_stores e @ mem_stores l" "mem_stores (l @ l') = mem_stores l @ mem_stores l'"
  by (simp_all add: data_words_def mem_stores_def)

lemma le_bytes_simps [simp]:
  "le_bytes [] = []" "le_bytes (w # ws) = ucast w # ucast (drop_bit 8 w) # le_bytes ws"
  "le_bytes (ws @ ws') = le_bytes ws @ le_bytes ws'" "length (le_bytes ws) = 2 * length ws"
  by (auto simp: le_bytes_def word_bytes_def length_concat sum_list_triv comp_def)

lemma stores_at_append: "stores_at a (bs @ bs') = stores_at a bs @ stores_at (a + of_nat (length bs)) bs'"
  by (induction bs arbitrary: a) (auto simp: algebra_simps)

text \<open>\<open>s'\<close> extends the log of \<open>s\<close> by \<open>new\<close>.\<close>

definition log_new :: "ata_ctl \<Rightarrow> ata_ctl \<Rightarrow> iolog" where
  "log_new s s' = drop (length (ac_log s)) (ac_log s')"

end
