(* ===== verification/Ata_Dma.thy ===== *)
theory Ata_Dma
  imports Ata_State
begin

text \<open>
  The PCI-IDE bus master (\<open>ata_dma.c\<close>, \<open>pciide.h\<close>): building the scatter/gather list of a packet
  (\<open>ata_pciide_dma_sg_func\<close>), handing it to the controller (\<open>ata_pciide_dma_setup\<close>), starting and
  stopping the engine, the interrupt and error latches, and \<open>ata_get_status_clear_intr\<close>.

  The last part specifies the engine's side of the table, as the bus master programming
  interface documents it, and shows that the engine is told to transfer exactly the packet's
  segments.
\<close>

subsection \<open>The operations\<close>

definition PCIIDE_BMICX_SSBM :: u8 where "PCIIDE_BMICX_SSBM = 0x01"
definition PCIIDE_BMICX_SSBM_E :: u8 where "PCIIDE_BMICX_SSBM_E = 0x01"
definition PCIIDE_BMICX_RWCON :: u8 where "PCIIDE_BMICX_RWCON = 0x08"
definition PCIIDE_BMICX_RWCON_WRITE_TO_MEMORY :: u8 where "PCIIDE_BMICX_RWCON_WRITE_TO_MEMORY = 0x08"
definition PCIIDE_BMICX_RWCON_READ_FROM_MEMORY :: u8 where "PCIIDE_BMICX_RWCON_READ_FROM_MEMORY = 0x00"
definition PCIIDE_BMICX_MASK :: u8 where
  "PCIIDE_BMICX_MASK = NOT (PCIIDE_BMICX_SSBM OR PCIIDE_BMICX_RWCON)"
definition PCIIDE_BMISX_IDERR :: u8 where "PCIIDE_BMISX_IDERR = 0x02"
definition PCIIDE_BMISX_IDEINTS :: u8 where "PCIIDE_BMISX_IDEINTS = 0x04"
definition PCIIDE_BMISX_MASK :: u8 where "PCIIDE_BMISX_MASK = 0xf8"
definition PCIIDE_PRDE_EOT :: u32 where "PCIIDE_PRDE_EOT = 0x80000000"
definition ATA_DMA_NSEGS :: nat where "ATA_DMA_NSEGS = 17"

lemmas bm_bits = PCIIDE_BMICX_SSBM_def PCIIDE_BMICX_SSBM_E_def PCIIDE_BMICX_RWCON_def
  PCIIDE_BMICX_RWCON_WRITE_TO_MEMORY_def PCIIDE_BMICX_RWCON_READ_FROM_MEMORY_def PCIIDE_BMICX_MASK_def
  PCIIDE_BMISX_IDERR_def PCIIDE_BMISX_IDEINTS_def PCIIDE_BMISX_MASK_def

text \<open>One DMA cookie: physical address and size.\<close>

record cookie_t =
  dmac_address :: u32
  dmac_size :: u64

definition ata_pciide_dma_sg_func :: "cookie_t \<Rightarrow> nat \<Rightarrow> ata_pkt \<Rightarrow> ata_pkt" where
  "ata_pciide_dma_sg_func ck seg_index k =
    (let k = k\<lparr>ap_sg_list := (ap_sg_list k)[seg_index :=
               \<lparr>p_address = dmac_address ck, p_count = ucast (dmac_size ck)\<rparr>]\<rparr>;
         k = k\<lparr>ap_sg_cnt := seg_index + 1\<rparr>;
         k = (if seg_index = 0 then k\<lparr>ap_bcount := 0\<rparr> else k)
     in k\<lparr>ap_bcount := ap_bcount k + dmac_size ck\<rparr>)"

definition prd_put :: "prde_t list \<Rightarrow> nat \<Rightarrow> ioevent" where
  "prd_put xs i = PutPRD i (p_address (xs ! i)) (p_count (xs ! i))"

definition ata_pciide_dma_setup :: "pkt_ref \<Rightarrow> ata_ctl \<Rightarrow> ata_ctl" where
  "ata_pciide_dma_setup p s =
    (let last' = ap_sg_cnt (ac_pkt s p) - 1;
         xs = ap_sg_list (ac_pkt s p);
         s = s\<lparr>ac_log := ac_log s @ map (prd_put xs) [0..<last']\<rparr>;
         xs = xs[last' := (xs ! last')\<lparr>p_count := p_count (xs ! last') OR PCIIDE_PRDE_EOT\<rparr>];
         s = upd_pkt p (\<lambda>k. k\<lparr>ap_sg_list := xs\<rparr>) s;
         s = log_event (prd_put xs last') s
     in log_event (PutBMIDTPX (ac_sg_paddr s)) s)"

definition ata_pciide_dma_start :: "device \<Rightarrow> u8 \<Rightarrow> ata_ctl \<Rightarrow> ata_ctl" where
  "ata_pciide_dma_start dev direction s =
    (let (tmp, s) = get8 dev PCIIDE_BMICX_REG s;
         tmp = tmp AND PCIIDE_BMICX_MASK;
         s = put8 PCIIDE_BMICX_REG (tmp OR direction) s
     in put8 PCIIDE_BMICX_REG (tmp OR PCIIDE_BMICX_SSBM_E OR direction) s)"

definition ata_pciide_dma_stop :: "device \<Rightarrow> ata_ctl \<Rightarrow> ata_ctl" where
  "ata_pciide_dma_stop dev s =
    (let (tmp, s) = get8 dev PCIIDE_BMICX_REG s;
         tmp = tmp AND (PCIIDE_BMICX_MASK AND NOT PCIIDE_BMICX_SSBM)
     in put8 PCIIDE_BMICX_REG tmp s)"

definition ata_pciide_status_clear :: "device \<Rightarrow> ata_ctl \<Rightarrow> u8 \<times> ata_ctl" where
  "ata_pciide_status_clear dev s =
    (let (status, s) = get8 dev PCIIDE_BMISX_REG s;
         tmp = status AND PCIIDE_BMISX_MASK;
         tmp = tmp OR (PCIIDE_BMISX_IDERR OR PCIIDE_BMISX_IDEINTS)
     in (status, put8 PCIIDE_BMISX_REG tmp s))"

definition ata_pciide_status_dmacheck_clear :: "device \<Rightarrow> ata_ctl \<Rightarrow> bool \<times> ata_ctl" where
  "ata_pciide_status_dmacheck_clear dev s =
    (let (status, s) = ata_pciide_status_clear dev s
     in if status AND PCIIDE_BMISX_IDERR \<noteq> 0 then (True, s) else (False, s))"

definition ata_pciide_status_pending :: "device \<Rightarrow> ata_ctl \<Rightarrow> bool \<times> ata_ctl" where
  "ata_pciide_status_pending dev s =
    (let (status, s) = get8 dev PCIIDE_BMISX_REG s
     in if status AND PCIIDE_BMISX_IDEINTS \<noteq> 0 then (True, s) else (False, s))"

definition ata_get_status_clear_intr :: "device \<Rightarrow> pkt_ref \<Rightarrow> ata_ctl \<Rightarrow> u8 \<times> ata_ctl" where
  "ata_get_status_clear_intr dev p s =
    (let s = (if ap_pciide_dma (ac_pkt s p)
              then (let (err, s) = ata_pciide_status_dmacheck_clear dev s
                    in if err then set_pkt_flags p (AP_ERROR OR AP_TRAN_ERROR) s else s)
              else if ac_pciide s \<and> \<not> flag_set (ac_flags s) AC_BMSTATREG_PIO_BROKEN
              then snd (ata_pciide_status_clear dev s)
              else s)
     in get8 dev AC_STATUS s)"

subsection \<open>What they change\<close>

text \<open>
  Device code works on one packet: it changes the log, that packet and fields of the drives, but
  no packet's link to its GHD command, nothing of the controller machine and not which drives
  exist.
\<close>

definition drv_fixed :: "ata_drv \<Rightarrow> ata_drv \<Rightarrow> bool" where
  "drv_fixed d d' \<longleftrightarrow> ad_targ d' = ad_targ d \<and> ad_lun d' = ad_lun d \<and> ad_drive_bits d' = ad_drive_bits d \<and>
     ad_phhd d' = ad_phhd d \<and> ad_phsec d' = ad_phsec d \<and> ad_flags d' = ad_flags d"

lemma drv_fixed_refl [simp]: "drv_fixed d d"
  by (simp add: drv_fixed_def)

definition pkt_fixed :: "ata_pkt \<Rightarrow> ata_pkt \<Rightarrow> bool" where
  [simp]: "pkt_fixed k k' \<longleftrightarrow> ap_gcmdp k' = ap_gcmdp k \<and> ap_start k' = ap_start k \<and> ap_intr k' = ap_intr k \<and>
     ap_complete k' = ap_complete k"

definition dev_frame :: "pkt_ref \<Rightarrow> ata_ctl \<Rightarrow> ata_ctl \<Rightarrow> bool" where
  "dev_frame p s s' \<longleftrightarrow> ac_active_pktp s' = ac_active_pktp s \<and> ac_active_drvp s' = ac_active_drvp s \<and>
     ac_state s' = ac_state s \<and> ac_fault_pktp s' = ac_fault_pktp s \<and> ac_flags s' = ac_flags s \<and>
     (\<forall>q. pkt_fixed (ac_pkt s q) (ac_pkt s' q)) \<and> (\<forall>q. q \<noteq> p \<longrightarrow> ac_pkt s' q = ac_pkt s q) \<and>
     (\<forall>t l. (ac_drvp s' t l = None) = (ac_drvp s t l = None)) \<and>
     (\<forall>t l d d'. ac_drvp s t l = Some d \<longrightarrow> ac_drvp s' t l = Some d' \<longrightarrow> drv_fixed d d')"

lemma dev_frame_refl [simp, intro]: "dev_frame p s s"
  by (auto simp: dev_frame_def)

lemma drv_fixed_upd [simp]:
  "drv_fixed d (d\<lparr>ad_state := st\<rparr>)" "drv_fixed d (d\<lparr>ad_bogus_drq := b\<rparr>)"
  "drv_fixed d (d\<lparr>ad_nec_bad_status := b\<rparr>)" "drv_fixed d (d\<lparr>ad_pciide_dma := b\<rparr>)"
  "drv_fixed d (d\<lparr>ad_block_factor := w\<rparr>)" "drv_fixed d (d\<lparr>ad_bytes_per_block := w\<rparr>)"
  "drv_fixed d (d\<lparr>ad_rd_cmd := u, ad_wr_cmd := v\<rparr>)"
  by (simp_all add: drv_fixed_def)

lemma drv_fixed_trans: "drv_fixed d d' \<Longrightarrow> drv_fixed d' d'' \<Longrightarrow> drv_fixed d d''"
  by (simp add: drv_fixed_def)

lemma dev_frame_drv:
  assumes "dev_frame p s s'" "ac_drvp s t l = Some d"
  shows "\<exists>d'. ac_drvp s' t l = Some d' \<and> drv_fixed d d'"
proof (cases "ac_drvp s' t l")
  case None
  with assms show ?thesis unfolding dev_frame_def by (metis option.distinct(1))
next
  case (Some d')
  with assms show ?thesis unfolding dev_frame_def by blast
qed

lemma dev_frame_trans [trans]:
  assumes "dev_frame p s s'" "dev_frame p s' s''"
  shows "dev_frame p s s''"
proof -
  have "drv_fixed d d''" if "ac_drvp s t l = Some d" "ac_drvp s'' t l = Some d''" for t l d d''
    using dev_frame_drv [OF assms(1) that(1)] dev_frame_drv [OF assms(2)] that(2) drv_fixed_trans by fastforce
  then show ?thesis using assms unfolding dev_frame_def by simp
qed

lemma dev_frame_log_only: "log_only s s' \<Longrightarrow> dev_frame p s s'"
  by (auto simp: log_only_def dev_frame_def)

lemma dev_frame_upd_pkt:
  "(\<And>k. pkt_fixed k (f k)) \<Longrightarrow> dev_frame p s (upd_pkt p f s)"
  by (auto simp: dev_frame_def upd_pkt_def)

lemma dev_frame_upd_drv:
  "(\<And>d. drv_fixed d (f d)) \<Longrightarrow> dev_frame p s (upd_drv dr f s)"
  by (auto simp: dev_frame_def upd_drv_def)

lemma dev_frame_set_flags [simp]: "dev_frame p s (set_pkt_flags p m s)"
  unfolding set_pkt_flags_def by (rule dev_frame_upd_pkt) simp


lemma log_only_dma [simp]:
  "log_only s (ata_pciide_dma_start dev d s)" "log_only s (ata_pciide_dma_stop dev s)"
  "log_only s (snd (ata_pciide_status_clear dev s))" "log_only s (snd (ata_pciide_status_dmacheck_clear dev s))"
  "log_only s (snd (ata_pciide_status_pending dev s))"
  by (auto simp: log_only_def ata_pciide_dma_start_def ata_pciide_dma_stop_def ata_pciide_status_clear_def
      ata_pciide_status_dmacheck_clear_def ata_pciide_status_pending_def get8_def ddi_get8_def put8_def Let_def)

lemma dev_frame_io [simp]:
  "dev_frame p s (put8 r v s)" "dev_frame p s (snd (get8 dev r s))" "dev_frame p s (delay400 dev s)"
  "dev_frame p s (usecwait n s)" "dev_frame p s (log_event e s)" "dev_frame p s (ata_pciide_dma_start dev d s)"
  "dev_frame p s (ata_pciide_dma_stop dev s)" "dev_frame p s (snd (ata_pciide_status_clear dev s))"
  "dev_frame p s (snd (ata_pciide_status_dmacheck_clear dev s))" "dev_frame p s (s\<lparr>ac_log := l\<rparr>)"
  by (simp_all add: dev_frame_log_only) (auto simp: dev_frame_def)

lemma get8_pair: "get8 dev r s = (dev8 dev (ac_log s) r, log_event (Get8 r (dev8 dev (ac_log s) r)) s)"
  by (simp add: get8_def ddi_get8_def log_event_def)

lemma dev_frame_dma_setup [simp]: "dev_frame p s (ata_pciide_dma_setup p s)"
  by (auto simp: ata_pciide_dma_setup_def Let_def dev_frame_def upd_pkt_def log_event_def)

lemma dev_frame_get_status [simp]: "dev_frame p s (snd (ata_get_status_clear_intr dev p s))"
proof -
  have "dev_frame p s (let (err, s) = ata_pciide_status_dmacheck_clear dev s
      in if err then set_pkt_flags p (AP_ERROR OR AP_TRAN_ERROR) s else s)"
    using dev_frame_io(9) [of p s dev]
    by (cases "ata_pciide_status_dmacheck_clear dev s") (auto intro: dev_frame_trans)
  moreover have "dev_frame p s (snd (get8 dev r s'))" if "dev_frame p s s'" for r s'
    using that dev_frame_io(2) by (rule dev_frame_trans)
  ultimately show ?thesis
    unfolding ata_get_status_clear_intr_def Let_def by auto
qed

text \<open>The same facts as rules that strip the last step off a state.\<close>

named_theorems frame_intros

lemmas [frame_intros] = dev_frame_refl dev_frame_io [THEN dev_frame_trans [rotated]]
  dev_frame_dma_setup [THEN dev_frame_trans [rotated]] dev_frame_get_status [THEN dev_frame_trans [rotated]]
  dev_frame_set_flags [THEN dev_frame_trans [rotated]]

lemma dev_frame_upd_pkt' [frame_intros]:
  "dev_frame p s0 s \<Longrightarrow> (\<And>k. pkt_fixed k (f k)) \<Longrightarrow> dev_frame p s0 (upd_pkt p f s)"
  using dev_frame_upd_pkt dev_frame_trans by blast

lemma dev_frame_upd_drv' [frame_intros]:
  "dev_frame p s0 s \<Longrightarrow> (\<And>d. drv_fixed d (f d)) \<Longrightarrow>
   dev_frame p s0 (upd_drv dr f s)"
  using dev_frame_upd_drv dev_frame_trans by blast

lemma get_status_eq_frame:
  "ata_get_status_clear_intr dev p s = (v, s') \<Longrightarrow> dev_frame p s0 s \<Longrightarrow> dev_frame p s0 s'"
  using dev_frame_get_status [of p s dev] dev_frame_trans by (metis snd_conv)

subsection \<open>Functions that return\<close>

text \<open>\<open>x\<close>, the outcome of a function started in \<open>s\<close>, is a result, in a state that \<open>s\<close> may become.\<close>

definition ret :: "('s \<Rightarrow> 's \<Rightarrow> bool) \<Rightarrow> 's \<Rightarrow> ('a \<times> 's) option \<Rightarrow> bool" where
  "ret R s x \<longleftrightarrow> (\<exists>r s'. x = Some (r, s') \<and> R s s')"

lemma ret_Some [intro]: "R s s' \<Longrightarrow> ret R s (Some (r, s'))"
  by (simp add: ret_def)

lemma ret_bind:
  assumes "ret R s x" and "\<And>r s'. R s s' \<Longrightarrow> ret R s (k (r, s'))"
  shows "ret R s (x \<bind> k)"
  using assms by (auto simp: ret_def)

lemma ret_trans: "dev_frame p s s' \<Longrightarrow> ret (dev_frame p) s' x \<Longrightarrow> ret (dev_frame p) s x"
  unfolding ret_def using dev_frame_trans by blast

lemmas ret_after = ret_trans [rotated]

lemma ret_wait: "wait_rounds t n \<Longrightarrow> ret (dev_frame p) s (wait dev a b t s)"
  using wait_returns [of t n dev a b s] by (auto simp: ret_def dest: dev_frame_log_only)

lemma ret_wait3: "wait_rounds t n \<Longrightarrow> ret (dev_frame p) s (wait3 dev a1 b1 a2 b2 a3 b3 t s)"
  using wait3_returns [of t n dev a1 b1 a2 b2 a3 b3 s] by (auto simp: ret_def dest: dev_frame_log_only)

lemmas ret_waits = ret_wait [OF wait_rounds_used(1)] ret_wait [OF wait_rounds_used(2)]
  ret_wait [OF wait_rounds_used(3)] ret_wait [OF wait_rounds_used(4)] ret_wait [OF wait_rounds_used(5)]
  ret_wait3 [OF wait_rounds_used(1)] ret_wait3 [OF wait_rounds_used(2)]

subsection \<open>The table as the engine reads it\<close>

text \<open>
  The contents of the table after the writes in a log, and the walk of the engine over it: each entry
  gives an address and a byte count in its low 16 bits, zero standing for 64 KB; the walk ends
  with the entry whose top bit is set. \<open>None\<close> is a walk that runs off the table, or that is longer
  than the fuel.
\<close>

fun prd_upd :: "ioevent \<Rightarrow> (nat \<Rightarrow> (u32 \<times> u32) option) \<Rightarrow> nat \<Rightarrow> (u32 \<times> u32) option" where
  "prd_upd (PutPRD i a c) T = T(i := Some (a, c))"
| "prd_upd _ T = T"

definition prd_table :: "iolog \<Rightarrow> nat \<Rightarrow> (u32 \<times> u32) option" where
  "prd_table l = fold prd_upd l (\<lambda>_. None)"

definition prd_bytes :: "u32 \<Rightarrow> nat" where
  "prd_bytes c = (if c AND 0xffff = 0 then 65536 else unat (c AND 0xffff))"

fun prd_walk :: "(nat \<Rightarrow> (u32 \<times> u32) option) \<Rightarrow> nat \<Rightarrow> nat \<Rightarrow> (u32 \<times> nat) list option" where
  "prd_walk T 0 i = None"
| "prd_walk T (Suc n) i =
    (case T i of
       None \<Rightarrow> None
     | Some (a, c) \<Rightarrow>
         if c AND PCIIDE_PRDE_EOT \<noteq> 0 then Some [(a, prd_bytes c)]
         else map_option (\<lambda>r. (a, prd_bytes c) # r) (prd_walk T n (Suc i)))"

text \<open>The scatter/gather callback is called once per cookie, in order.\<close>

definition sg_build :: "cookie_t list \<Rightarrow> ata_pkt \<Rightarrow> ata_pkt" where
  "sg_build cks k = fold (\<lambda>(i, ck). ata_pciide_dma_sg_func ck i) (zip [0..<length cks] cks) k"

definition prd_of :: "cookie_t \<Rightarrow> prde_t" where
  "prd_of ck = \<lparr>p_address = dmac_address ck, p_count = ucast (dmac_size ck)\<rparr>"

lemma sg_build_snoc:
  "sg_build (cks @ [ck]) k = ata_pciide_dma_sg_func ck (length cks) (sg_build cks k)"
  by (simp add: sg_build_def)

lemma sg_build_spec:
  assumes "length cks \<le> length (ap_sg_list k)" "cks \<noteq> []"
  shows "ap_sg_list (sg_build cks k) = map prd_of cks @ drop (length cks) (ap_sg_list k) \<and>
     ap_sg_cnt (sg_build cks k) = length cks \<and>
     ap_bcount (sg_build cks k) = sum_list (map dmac_size cks)"
  using assms
proof (induction cks rule: rev_induct)
  case (snoc ck cks)
  let ?xs = "ap_sg_list k"
  have upd: "(map prd_of cks @ drop (length cks) ?xs)[length cks := prd_of ck] =
      map prd_of (cks @ [ck]) @ drop (Suc (length cks)) ?xs"
    using snoc.prems by (simp add: list_update_append Cons_nth_drop_Suc [symmetric])
  have base: "ap_sg_list (sg_build cks k) = map prd_of cks @ drop (length cks) ?xs"
    "cks \<noteq> [] \<longrightarrow> ap_bcount (sg_build cks k) = sum_list (map dmac_size cks)"
    using snoc by (cases cks; simp add: sg_build_def)+
  then show ?case
    using upd unfolding sg_build_snoc by (auto simp: ata_pciide_dma_sg_func_def Let_def prd_of_def)
qed simp

lemma fold_prd_puts:
  "fold prd_upd (map (prd_put xs) [a..<b]) T =
     (\<lambda>i. if a \<le> i \<and> i < b then Some (p_address (xs ! i), p_count (xs ! i)) else T i)"
proof (induction b)
  case (Suc b)
  then show ?case by (cases "a \<le> b") (auto simp: prd_put_def fun_eq_iff)
qed simp

lemma eot_bit: "c AND PCIIDE_PRDE_EOT = 0 \<longleftrightarrow> \<not> bit c 31"
  using and_exp_eq_0_iff_not_bit [of c 31] by (simp add: PCIIDE_PRDE_EOT_def)

lemma eot_flag [simp]: "bit PCIIDE_PRDE_EOT 31"
  using eot_bit [of PCIIDE_PRDE_EOT] by (simp add: PCIIDE_PRDE_EOT_def)

lemma prd_bytes_eot [simp]: "prd_bytes (c OR PCIIDE_PRDE_EOT) = prd_bytes c"
proof -
  have "(c OR PCIIDE_PRDE_EOT) AND 0xffff = c AND 0xffff"
    by (simp add: PCIIDE_PRDE_EOT_def and.commute [of _ "0xffff"] bit.conj_disj_distrib)
  then show ?thesis by (simp add: prd_bytes_def)
qed

lemma prd_bytes_of:
  assumes "0 < unat sz" "unat sz \<le> 65536"
  shows "prd_bytes (ucast (sz :: u64)) = unat sz" "\<not> bit (ucast sz :: u32) 31"
proof -
  have u: "unat (ucast sz :: u32) = unat sz"
    using assms by (simp add: unsigned_ucast_eq take_bit_eq_mod)
  have m: "(ucast sz :: u32) AND 0xffff = take_bit 16 (ucast sz)"
    by (simp add: take_bit_eq_mask mask_eq_exp_minus_1)
  have v: "unat ((ucast sz :: u32) AND 0xffff) = unat sz mod 65536"
    by (simp only: m unsigned_take_bit_eq u) (simp add: take_bit_eq_mod)
  have z: "(ucast sz :: u32) AND 0xffff = 0 \<longleftrightarrow> unat sz mod 65536 = 0"
    by (metis v unat_eq_zero)
  show "prd_bytes (ucast sz) = unat sz"
    using assms v z by (cases "unat sz = 65536") (auto simp: prd_bytes_def)
  have "\<not> bit (unat (ucast sz :: u32)) 31" using assms unfolding u by (simp add: bit_iff_odd)
  then show "\<not> bit (ucast sz :: u32) 31" by (simp add: bit_unsigned_iff)
qed

lemma prd_walk_segments:
  assumes T: "\<And>i. i < n \<Longrightarrow> T i = Some (a i, c i)"
    and e: "\<And>i. i < n \<Longrightarrow> (c i AND PCIIDE_PRDE_EOT \<noteq> 0) = (i = n - 1)"
    and "i < n" "n - i \<le> m"
  shows "prd_walk T m i = Some (map (\<lambda>i. (a i, prd_bytes (c i))) [i..<n])"
  using \<open>i < n\<close> \<open>n - i \<le> m\<close>
proof (induction m arbitrary: i)
  case (Suc m)
  show ?case
  proof (cases "i = n - 1")
    case True
    with Suc.prems T e show ?thesis by (simp add: upt_rec)
  next
    case False
    with Suc have "prd_walk T m (Suc i) = Some (map (\<lambda>i. (a i, prd_bytes (c i))) [Suc i..<n])"
      by (intro Suc.IH) auto
    with False Suc.prems T e show ?thesis by (simp add: upt_conv_Cons)
  qed
qed simp

subsection \<open>Properties\<close>

text \<open>C24: the engine is told to transfer exactly the packet's segments. Whatever was in the table
  before, after the scatter/gather callback has run over the cookies of a request and
  \<open>ata_pciide_dma_setup\<close> has copied the list, the engine's walk of the table from its first entry
  ends within the table and yields the address and size of every cookie, in order (64 KB segments
  included), the table's address is the last thing given to the controller, and \<open>ap_bcount\<close> is the sum of the sizes.\<close>

theorem dma_table_describes_request:
  assumes "cks \<noteq> []" "length cks \<le> ATA_DMA_NSEGS" "length (ap_sg_list (ac_pkt s p)) = ATA_DMA_NSEGS"
    and "\<forall>ck\<in>set cks. 0 < unat (dmac_size ck) \<and> unat (dmac_size ck) \<le> 65536"
  shows "\<exists>l. ac_log (ata_pciide_dma_setup p (upd_pkt p (sg_build cks) s)) = l @ [PutBMIDTPX (ac_sg_paddr s)] \<and>
     prd_walk (prd_table l) ATA_DMA_NSEGS 0 = Some (map (\<lambda>ck. (dmac_address ck, unat (dmac_size ck))) cks) \<and>
     ap_bcount (ac_pkt (ata_pciide_dma_setup p (upd_pkt p (sg_build cks) s)) p) = sum_list (map dmac_size cks)"
proof -
  let ?n = "length cks"
  let ?k = "sg_build cks (ac_pkt s p)"
  let ?xs = "ap_sg_list ?k"
  let ?e = "?xs[?n - 1 := (?xs ! (?n - 1))\<lparr>p_count := p_count (?xs ! (?n - 1)) OR PCIIDE_PRDE_EOT\<rparr>]"
  let ?l = "ac_log s @ map (prd_put ?xs) [0..<?n - 1] @ [prd_put ?e (?n - 1)]"
  note b = sg_build_spec [of cks "ac_pkt s p"]
  have len: "length ?xs = ATA_DMA_NSEGS" and nn: "?n - 1 < ?n" using assms b by auto
  have xs: "?xs ! i = prd_of (cks ! i)" if "i < ?n" for i
    using b assms that by (simp add: nth_append)
  have T: "prd_table ?l i = Some (dmac_address (cks ! i), p_count (?e ! i))" if "i < ?n" for i
    using that xs [of i] len assms(2) nn unfolding prd_table_def fold_append comp_apply fold_prd_puts
    by (cases "i = ?n - 1") (auto simp: prd_put_def prd_of_def)
  have sz: "0 < unat (dmac_size (cks ! i)) \<and> unat (dmac_size (cks ! i)) \<le> 65536" if "i < ?n" for i
    using assms(4) that by simp
  have e: "p_count (?e ! i) = (if i = ?n - 1 then ucast (dmac_size (cks ! i)) OR PCIIDE_PRDE_EOT
      else ucast (dmac_size (cks ! i)))" if "i < ?n" for i
    using that xs [of i] len assms(2) by (auto simp: prd_of_def nth_list_update)
  have eot: "(p_count (?e ! i) AND PCIIDE_PRDE_EOT \<noteq> 0) = (i = ?n - 1)" if "i < ?n" for i
    using prd_bytes_of(2) [of "dmac_size (cks ! i)"] sz [OF that] unfolding e [OF that] eot_bit
    by (auto simp: bit_or_iff eot_flag)
  have bytes: "prd_bytes (p_count (?e ! i)) = unat (dmac_size (cks ! i))" if "i < ?n" for i
    using prd_bytes_of(1) [of "dmac_size (cks ! i)"] sz [OF that] unfolding e [OF that] by (simp only: prd_bytes_eot split: if_split) simp
  have "prd_walk (prd_table ?l) ATA_DMA_NSEGS 0 =
      Some (map (\<lambda>i. (dmac_address (cks ! i), prd_bytes (p_count (?e ! i)))) [0..<?n])"
    by (rule prd_walk_segments [OF T eot]) (use assms in auto)
  also have "map (\<lambda>i. (dmac_address (cks ! i), prd_bytes (p_count (?e ! i)))) [0..<?n] =
      map (\<lambda>ck. (dmac_address ck, unat (dmac_size ck))) cks"
    using bytes by (intro nth_equalityI) simp_all
  finally show ?thesis
    using b assms by (intro exI [of _ ?l])
      (simp add: ata_pciide_dma_setup_def Let_def upd_pkt_def log_event_def)
qed

text \<open>Two segments, the second of 64 KB, in a table with leftovers.\<close>

definition pkt0 :: ata_pkt where
  "pkt0 = \<lparr>ap_gcmdp = None, ap_flags = 0, ap_bcount = 7, ap_v_addr = 0, ap_resid = 0, ap_pciide_dma = False,
     ap_sg_list = replicate 17 \<lparr>p_address = 3, p_count = 0x80000001\<rparr>, ap_sg_cnt = 0, ap_startsec = 0, ap_count = 0,
     ap_sec = 0, ap_lwcyl = 0, ap_hicyl = 0, ap_hd = 0, ap_cmd = 0, ap_status = 0, ap_error = 0,
     ap_start = Start_ata_disk_start, ap_intr = Intr_ata_disk_intr, ap_complete = Complete_none, ap_cdb = DCMD_READ, ap_scb = DERR_SUCCESS,
     ap_bytes_per_block = 512, ap_wrt_count = 0, ap_v_addr_sav = 0, ap_resid_sav = 0, ap_cdbp = [], ap_cdb_len = 0,
     ap_cdb_pad = 0, ap_scbp_sense = 0, ap_statuslen = 0\<rparr>"

definition ctl0 :: ata_ctl where
  "ctl0 = \<lparr>ac_flags = AC_ATTACHED, ac_timing_flags = 0, ac_drvp = \<lambda>t l. None, ac_pkt = \<lambda>p. pkt0, ac_max_transfer = 256,
     ac_standby_time = 0, ac_active_drvp = None, ac_active_pktp = None, ac_state = AS_IDLE, ac_pciide = True,
     ac_pciide_bm = True, ac_sg_paddr = 0x1000, ac_fault_pktp = None, ac_arq_cdb = [3, 0, 0, 0, 0, 0], ac_log = []\<rparr>"

theorem dma_table_witness:
  "\<exists>l. prd_walk (prd_table l) ATA_DMA_NSEGS 0 = Some [(0x2000, 512), (0x10000, 65536)] \<and>
     ac_log (ata_pciide_dma_setup ArqPkt (upd_pkt ArqPkt (sg_build [\<lparr>dmac_address = 0x2000, dmac_size = 512\<rparr>,
       \<lparr>dmac_address = 0x10000, dmac_size = 65536\<rparr>]) ctl0)) = l @ [PutBMIDTPX 0x1000]"
proof -
  let ?c = "[\<lparr>dmac_address = 0x2000, dmac_size = 512\<rparr>, \<lparr>dmac_address = 0x10000, dmac_size = 65536\<rparr>]"
  have "length (ap_sg_list (ac_pkt ctl0 ArqPkt)) = ATA_DMA_NSEGS" "ac_sg_paddr ctl0 = 0x1000"
    by (simp_all add: ctl0_def pkt0_def ATA_DMA_NSEGS_def)
  then show ?thesis
    using dma_table_describes_request [of ?c ctl0 ArqPkt]
    by (auto simp: ATA_DMA_NSEGS_def)
qed

end
