(* ===== verification/Atapi_Fsm.thy ===== *)
theory Atapi_Fsm
  imports Ata_Dma
begin

text \<open>
  The packet protocol machine of ATAPI devices (\<open>atapi_fsm.c\<close>, \<open>ata_fsm.h\<close>): its action and
  next-state tables, starting a command, sending the command packet, the programmed data
  transfers with their odd-byte handling, completion status, device reset and the interrupt step.
\<close>

subsection \<open>Events, actions, tables\<close>

definition ATI_COD :: u8 where "ATI_COD = 0x01"
definition ATI_IO :: u8 where "ATI_IO = 0x02"
definition ATF_ATAPI_DMA :: u8 where "ATF_ATAPI_DMA = 0x01"
definition ATC_DEVICE_RESET :: u8 where "ATC_DEVICE_RESET = 0x08"

definition ATAPI_EVENT :: "u8 \<Rightarrow> u8 \<Rightarrow> nat" where
  "ATAPI_EVENT drq intr =
     unat (drop_bit 3 (drq AND ATS_DRQ) OR push_bit 1 (intr AND (ATI_IO OR ATI_COD)))"

datatype atapi_action = A_UNK | A_NADA | A_CDB | A_IN | A_OUT | A_IDLE | A_RE | A_REX

text \<open>The enumeration values of the states index the tables; \<open>S_X\<close> is another name of \<open>S_IDLE\<close>.\<close>

primrec atapi_state_index :: "atapi_state \<Rightarrow> nat" where
  "atapi_state_index S_IDLE = 0"
| "atapi_state_index S_CMD = 1"
| "atapi_state_index S_CDB = 2"
| "atapi_state_index S_IN = 3"
| "atapi_state_index S_OUT = 4"
| "atapi_state_index S_DMA = 5"

abbreviation S_X :: atapi_state where "S_X \<equiv> S_IDLE"

definition atapi_PioAction :: "atapi_action list list" where
  "atapi_PioAction =
    [[A_NADA, A_NADA, A_NADA, A_NADA, A_NADA, A_NADA, A_NADA, A_NADA],
     [A_NADA, A_NADA, A_NADA, A_CDB,  A_NADA, A_NADA, A_RE,   A_NADA],
     [A_REX,  A_OUT,  A_NADA, A_NADA, A_IDLE, A_IN,   A_RE,   A_UNK],
     [A_REX,  A_UNK,  A_IDLE, A_UNK,  A_IDLE, A_IN,   A_RE,   A_UNK],
     [A_REX,  A_OUT,  A_IDLE, A_UNK,  A_IDLE, A_UNK,  A_RE,   A_UNK],
     [A_REX,  A_UNK,  A_UNK,  A_UNK,  A_UNK,  A_UNK,  A_RE,   A_UNK]]"

definition atapi_PioNextState :: "atapi_state list list" where
  "atapi_PioNextState =
    [[S_IDLE, S_IDLE, S_IDLE, S_IDLE, S_IDLE, S_IDLE, S_IDLE, S_IDLE],
     [S_CDB,  S_CDB,  S_CDB,  S_CDB,  S_CDB,  S_CDB,  S_IDLE, S_X],
     [S_IDLE, S_OUT,  S_CDB,  S_CDB,  S_CDB,  S_IN,   S_IDLE, S_X],
     [S_IDLE, S_X,    S_IN,   S_X,    S_IN,   S_IN,   S_IDLE, S_X],
     [S_IDLE, S_OUT,  S_OUT,  S_X,    S_OUT,  S_X,    S_IDLE, S_X],
     [S_IDLE, S_DMA,  S_DMA,  S_DMA,  S_DMA,  S_DMA,  S_IDLE, S_DMA]]"

definition atapi_action :: "atapi_state \<Rightarrow> nat \<Rightarrow> atapi_action" where
  "atapi_action st ev = atapi_PioAction ! atapi_state_index st ! ev"

definition atapi_next_state :: "atapi_state \<Rightarrow> nat \<Rightarrow> atapi_state" where
  "atapi_next_state st ev = atapi_PioNextState ! atapi_state_index st ! ev"

subsection \<open>Starting a command\<close>

definition atapi_start_cmd :: "device \<Rightarrow> drv_ref \<Rightarrow> pkt_ref \<Rightarrow> ata_ctl \<Rightarrow> (fsm_rc \<times> ata_ctl) option" where
  "atapi_start_cmd dev dr p s = do {
     (ok, s) \<leftarrow> (if flag_set (ac_timing_flags s) AC_BSY_WAIT then wait dev 0 ATS_BSY 5000000 s else Some (True, s));
     if \<not> ok then Some (ATA_FSM_RC_BUSY, set_pkt_flags p AP_ERROR s)
     else do {
       let s = put8 AC_DRVHD (ap_hd (ac_pkt s p)) s;
       let s = delay400 dev s;
       (ok, s) \<leftarrow> wait dev 0 ATS_BSY 5000000 s;
       if \<not> ok then Some (ATA_FSM_RC_BUSY, s)
       else do {
         let s = put8 AC_DEVCTL ATDC_D3 s;
         let s = put8 AC_LCYL (ap_lwcyl (ac_pkt s p)) s;
         let s = put8 AC_HCYL (ap_hicyl (ac_pkt s p)) s;
         let s = put8 AC_SECT (ap_sec (ac_pkt s p)) s;
         let s = put8 AC_COUNT (ucast (ap_count (ac_pkt s p))) s;
         let s = (if ap_pciide_dma (ac_pkt s p)
                  then ata_pciide_dma_setup p (put8 AC_FEATURE ATF_ATAPI_DMA s)
                  else put8 AC_FEATURE 0 s);
         let s = put8 AC_CMD (ap_cmd (ac_pkt s p)) s;
         let s = delay400 dev s;
         if \<not> flag_set (ad_flags (drv s dr)) AD_NO_CDB_INTR then Some (ATA_FSM_RC_OKAY, s)
         else do {
           (_, s) \<leftarrow> wait3 dev ATS_DRQ ATS_BSY ATS_ERR ATS_BSY ATS_DF ATS_BSY 4000000 s;
           Some (ATA_FSM_RC_INTR, s)
         }
       }
     }
   }"

definition atapi_fsm_start :: "device \<Rightarrow> drv_ref \<Rightarrow> pkt_ref \<Rightarrow> ata_ctl \<Rightarrow> (fsm_rc \<times> ata_ctl) option" where
  "atapi_fsm_start dev dr p s =
    (if ad_state (drv s dr) \<noteq> S_IDLE then Some (ATA_FSM_RC_BUSY, s)
     else do {
       let s = upd_drv dr (\<lambda>d. d\<lparr>ad_state := S_CMD\<rparr>) s;
       (rc, s) \<leftarrow> atapi_start_cmd dev dr p s;
       (case rc of
          ATA_FSM_RC_BUSY \<Rightarrow> Some (ATA_FSM_RC_BUSY, upd_drv dr (\<lambda>d. d\<lparr>ad_state := S_IDLE\<rparr>) s)
        | _ \<Rightarrow> Some (rc, s))
     })"

subsection \<open>Packet and data transfers\<close>

primrec cdb_padding :: "nat \<Rightarrow> ata_ctl \<Rightarrow> ata_ctl" where
  "cdb_padding 0 s = s"
| "cdb_padding (Suc n) s = cdb_padding n (log_event (Put16 0) s)"

text \<open>The packet for automatic request sense points to \<open>ac_arq_cdb\<close>.\<close>

definition pkt_cdb :: "ata_ctl \<Rightarrow> pkt_ref \<Rightarrow> u8 list" where
  "pkt_cdb s p = (case p of ArqPkt \<Rightarrow> ac_arq_cdb s | PktOf g \<Rightarrow> ap_cdbp (ac_pkt s p))"

definition atapi_send_cdb :: "device \<Rightarrow> pkt_ref \<Rightarrow> ata_ctl \<Rightarrow> ata_ctl" where
  "atapi_send_cdb dev p s =
    (let k = ac_pkt s p;
         s = log_event (PutCDB (take (2 * unat (drop_bit 1 (ap_cdb_len k))) (pkt_cdb s p))) s;
         s = cdb_padding (unat (ap_cdb_pad k)) s;
         s = delay400 dev s
     in set_pkt_flags p AP_SENT_CMD s)"

definition atapi_start_dma :: "device \<Rightarrow> pkt_ref \<Rightarrow> ata_ctl \<Rightarrow> ata_ctl" where
  "atapi_start_dma dev p s =
    (let rd_wr = (if flag_set (ap_flags (ac_pkt s p)) AP_READ then PCIIDE_BMICX_RWCON_WRITE_TO_MEMORY
                  else PCIIDE_BMICX_RWCON_READ_FROM_MEMORY)
     in ata_pciide_dma_start dev rd_wr s)"

definition get16 :: "device \<Rightarrow> ata_ctl \<Rightarrow> u16" where
  "get16 dev s = dev16 dev (ac_log s) 0"

function pio_drain :: "device \<Rightarrow> int \<Rightarrow> ata_ctl \<Rightarrow> ata_ctl" where
  "pio_drain dev drive_bytes s =
    (if drive_bytes > 0 then pio_drain dev (drive_bytes - 2) (log_event (Drain16 (get16 dev s)) s) else s)"
  by pat_completeness auto
termination by (relation "measure (\<lambda>(_, n, _). nat n)") auto

declare pio_drain.simps [simp del]

definition drive_byte_count :: "device \<Rightarrow> ata_ctl \<Rightarrow> int \<times> ata_ctl" where
  "drive_byte_count dev s =
    (let (hi, s) = get8 dev AC_HCYL s;
         (lo, s) = get8 dev AC_LCYL s
     in (uint hi * 2 ^ 8 + uint lo, s))"

text \<open>The whole words, and the odd byte at the end.\<close>

definition pio_in_words :: "device \<Rightarrow> pkt_ref \<Rightarrow> int \<Rightarrow> ata_ctl \<Rightarrow> ata_ctl" where
  "pio_in_words dev p xfer_words s =
    (if xfer_words \<noteq> 0
     then (let (ws, l) = ddi_rep_get16 dev (ap_v_addr (ac_pkt s p)) (nat xfer_words) (ac_log s)
           in upd_pkt p (\<lambda>k. k\<lparr>ap_v_addr := ap_v_addr k + of_int (xfer_words * 2)\<rparr>) (s\<lparr>ac_log := l\<rparr>))
     else s)"

definition pio_in_odd :: "device \<Rightarrow> pkt_ref \<Rightarrow> int \<Rightarrow> ata_ctl \<Rightarrow> ata_ctl" where
  "pio_in_odd dev p xfer_bytes s =
    (if odd xfer_bytes
     then upd_pkt p (\<lambda>k. k\<lparr>ap_v_addr := ap_v_addr k + 1\<rparr>)
            (log_event (Get16Byte (ap_v_addr (ac_pkt s p)) (get16 dev s)) s)
     else s)"

definition atapi_pio_data_in :: "device \<Rightarrow> pkt_ref \<Rightarrow> ata_ctl \<Rightarrow> ata_ctl" where
  "atapi_pio_data_in dev p s =
    (let s = set_pkt_flags p AP_XFERRED_DATA s;
         (drive_bytes, s) = drive_byte_count dev s;
         xfer_bytes = min (uint (ap_resid (ac_pkt s p))) drive_bytes;
         xfer_words = xfer_bytes div 2;
         s = pio_in_words dev p xfer_words s;
         drive_bytes = (if xfer_words \<noteq> 0 then drive_bytes - xfer_words * 2 else drive_bytes);
         s = pio_in_odd dev p xfer_bytes s;
         drive_bytes = (if odd xfer_bytes then drive_bytes - 2 else drive_bytes);
         s = upd_pkt p (\<lambda>k. k\<lparr>ap_resid := ap_resid k - of_int xfer_bytes\<rparr>) s;
         s = (if drive_bytes > 0 then pio_drain dev drive_bytes s else s)
     in delay400 dev s)"

definition pio_out_words :: "pkt_ref \<Rightarrow> int \<Rightarrow> ata_ctl \<Rightarrow> ata_ctl" where
  "pio_out_words p xfer_words s =
    (if xfer_words \<noteq> 0
     then upd_pkt p (\<lambda>k. k\<lparr>ap_v_addr := ap_v_addr k + of_int (xfer_words * 2)\<rparr>)
            (log_event (RepPut16 (ap_v_addr (ac_pkt s p)) (nat xfer_words)) s)
     else s)"

definition pio_out_odd :: "pkt_ref \<Rightarrow> int \<Rightarrow> ata_ctl \<Rightarrow> ata_ctl" where
  "pio_out_odd p xfer_bytes s =
    (if odd xfer_bytes
     then upd_pkt p (\<lambda>k. k\<lparr>ap_v_addr := ap_v_addr k + 1\<rparr>)
            (log_event (Put16Byte (ap_v_addr (ac_pkt s p))) s)
     else s)"

definition atapi_pio_data_out :: "device \<Rightarrow> pkt_ref \<Rightarrow> ata_ctl \<Rightarrow> ata_ctl" where
  "atapi_pio_data_out dev p s =
    (let s = set_pkt_flags p AP_XFERRED_DATA s;
         (drive_bytes, s) = drive_byte_count dev s;
         xfer_bytes = min (uint (ap_resid (ac_pkt s p))) drive_bytes;
         xfer_words = xfer_bytes div 2;
         s = pio_out_words p xfer_words s;
         s = pio_out_odd p xfer_bytes s;
         s = upd_pkt p (\<lambda>k. k\<lparr>ap_resid := ap_resid k - of_int xfer_bytes\<rparr>) s
     in delay400 dev s)"

subsection \<open>Status, reset\<close>

definition atapi_status :: "device \<Rightarrow> pkt_ref \<Rightarrow> u8 \<Rightarrow> bool \<Rightarrow> ata_ctl \<Rightarrow> ata_ctl" where
  "atapi_status dev p status dma_completion s =
    (let s = set_pkt_flags p AP_GOT_STATUS s;
         s = (if status AND (ATS_DF OR ATS_ERR) \<noteq> 0 then set_pkt_flags p AP_ERROR s else s);
         s = (if flag_set (ap_flags (ac_pkt s p)) AP_ERROR
              then (let s = upd_pkt p (\<lambda>k. k\<lparr>ap_status := status\<rparr>) s;
                        (err, s) = get8 dev AC_ERROR s
                    in upd_pkt p (\<lambda>k. k\<lparr>ap_error := err\<rparr>) s)
              else s)
     in if dma_completion \<and> \<not> flag_set (ap_flags (ac_pkt s p)) AP_TRAN_ERROR
        then upd_pkt p (\<lambda>k. k\<lparr>ap_resid := 0\<rparr>) (set_pkt_flags p AP_XFERRED_DATA s)
        else s)"

definition atapi_device_reset :: "device \<Rightarrow> drv_ref \<Rightarrow> ata_ctl \<Rightarrow> (unit \<times> ata_ctl) option" where
  "atapi_device_reset dev dr s = do {
     let s = put8 AC_DRVHD (ad_drive_bits (drv s dr)) s;
     let s = delay400 dev s;
     let s = put8 AC_CMD ATC_DEVICE_RESET s;
     let s = delay400 dev s;
     let s = put8 AC_DRVHD (ad_drive_bits (drv s dr)) s;
     let s = delay400 dev s;
     (_, s) \<leftarrow> wait dev 0 ATS_BSY 6000000 s;
     Some ((), s)
   }"

definition atapi_fsm_reset1 :: "device \<Rightarrow> nat \<Rightarrow> ata_ctl \<Rightarrow> (unit \<times> ata_ctl) option" where
  "atapi_fsm_reset1 dev drive s =
    (if ac_drvp s drive 0 \<noteq> None \<and> flag_set (ad_flags (drv s (drive, 0))) AD_ATAPI
     then atapi_device_reset dev (drive, 0) (upd_drv (drive, 0) (\<lambda>d. d\<lparr>ad_state := S_IDLE\<rparr>) s)
     else Some ((), s))"

definition atapi_fsm_reset :: "device \<Rightarrow> ata_ctl \<Rightarrow> (unit \<times> ata_ctl) option" where
  "atapi_fsm_reset dev s = do { (_, s) \<leftarrow> atapi_fsm_reset1 dev 0 s; atapi_fsm_reset1 dev 1 s }"

subsection \<open>The interrupt step\<close>

definition set_drv_state :: "drv_ref \<Rightarrow> atapi_state \<Rightarrow> ata_ctl \<Rightarrow> ata_ctl" where
  "set_drv_state dr st s = upd_drv dr (\<lambda>d. d\<lparr>ad_state := st\<rparr>) s"

text \<open>The switch over the action. \<open>atapi_fsm_error\<close> only prints.\<close>

definition atapi_fsm_action ::
  "device \<Rightarrow> drv_ref \<Rightarrow> pkt_ref \<Rightarrow> atapi_state \<Rightarrow> u8 \<Rightarrow> atapi_action \<Rightarrow> ata_ctl \<Rightarrow> fsm_rc \<times> ata_ctl" where
  "atapi_fsm_action dev dr p state status action s =
    (let flags = ap_flags (ac_pkt s p);
         dma = ap_pciide_dma (ac_pkt s p)
     in case action of
          A_UNK \<Rightarrow> (ATA_FSM_RC_OKAY, s)
        | A_NADA \<Rightarrow> (ATA_FSM_RC_OKAY, usecwait 100 s)
        | A_CDB \<Rightarrow>
            (let s = atapi_send_cdb dev p s
             in (ATA_FSM_RC_OKAY, if dma then set_drv_state dr S_DMA (atapi_start_dma dev p s) else s))
        | A_IN \<Rightarrow>
            if \<not> flag_set flags AP_READ then (ATA_FSM_RC_OKAY, usecwait 100 s)
            else (ATA_FSM_RC_OKAY, if \<not> dma then atapi_pio_data_in dev p s else s)
        | A_OUT \<Rightarrow>
            if \<not> flag_set flags AP_WRITE then (ATA_FSM_RC_OKAY, usecwait 100 s)
            else (ATA_FSM_RC_OKAY, if \<not> dma then atapi_pio_data_out dev p s else s)
        | A_IDLE \<Rightarrow>
            (let s = (if \<not> ad_bogus_drq (drv s dr) then upd_drv dr (\<lambda>d. d\<lparr>ad_bogus_drq := True\<rparr>) s else s)
             in (ATA_FSM_RC_OKAY, usecwait 100 s))
        | A_RE \<Rightarrow> (ATA_FSM_RC_FINI, atapi_status dev p status (state = S_DMA) s)
        | A_REX \<Rightarrow>
            (let s = (if \<not> ad_nec_bad_status (drv s dr)
                      then usecwait 100 (upd_drv dr (\<lambda>d. d\<lparr>ad_nec_bad_status := True\<rparr>) s) else s)
             in (ATA_FSM_RC_FINI, atapi_status dev p status (state = S_DMA) s)))"

definition atapi_fsm_intr :: "device \<Rightarrow> drv_ref \<Rightarrow> pkt_ref \<Rightarrow> ata_ctl \<Rightarrow> fsm_rc \<times> ata_ctl" where
  "atapi_fsm_intr dev dr p s =
    (let state = ad_state (drv s dr);
         s = (if state = S_DMA then ata_pciide_dma_stop dev s else s);
         (status, s) = ata_get_status_clear_intr dev p s
     in if status AND ATS_BSY \<noteq> 0 then (ATA_FSM_RC_BUSY, s)
        else (let (intr_reason, s) = get8 dev AC_COUNT s;
                  event = ATAPI_EVENT status intr_reason;
                  action = atapi_action state event;
                  s = set_drv_state dr (atapi_next_state state event) s
              in atapi_fsm_action dev dr p state status action s))"

subsection \<open>What the steps change\<close>

lemma dev_frame_cdb_padding [frame_intros]:
  "dev_frame p s0 s \<Longrightarrow> dev_frame p s0 (cdb_padding n s)"
  by (induction n arbitrary: s) (auto intro: frame_intros)

lemma dev_frame_pio_drain [frame_intros]:
  "dev_frame p s0 s \<Longrightarrow> dev_frame p s0 (pio_drain dev n s)"
proof (induction dev n s rule: pio_drain.induct)
  case (1 dev n s)
  then show ?case by (subst pio_drain.simps) (auto intro: frame_intros)
qed

lemma dev_frame_send_cdb [frame_intros]:
  "dev_frame p s0 s \<Longrightarrow> dev_frame p s0 (atapi_send_cdb dev p s)"
  by (auto simp: atapi_send_cdb_def Let_def intro!: frame_intros)

lemma dev_frame_start_dma [frame_intros]:
  "dev_frame p s0 s \<Longrightarrow> dev_frame p s0 (atapi_start_dma dev p s)"
  by (auto simp: atapi_start_dma_def Let_def intro!: frame_intros)

lemma dev_frame_pio_parts [frame_intros]:
  assumes "dev_frame p s0 s"
  shows "dev_frame p s0 (pio_in_words dev p n s)" "dev_frame p s0 (pio_in_odd dev p n s)"
    "dev_frame p s0 (pio_out_words p n s)" "dev_frame p s0 (pio_out_odd p n s)"
    "dev_frame p s0 (snd (drive_byte_count dev s))"
  using assms by (auto simp: pio_in_words_def pio_in_odd_def pio_out_words_def pio_out_odd_def
      drive_byte_count_def get8_pair ddi_rep_get16_def Let_def intro!: frame_intros)

lemma dev_frame_if: "(b \<Longrightarrow> dev_frame p s0 s) \<Longrightarrow> (\<not> b \<Longrightarrow> dev_frame p s0 s') \<Longrightarrow> dev_frame p s0 (if b then s else s')"
  by simp

lemma dev_frame_pio_in [frame_intros]:
  "dev_frame p s0 s \<Longrightarrow> dev_frame p s0 (atapi_pio_data_in dev p s)"
  unfolding atapi_pio_data_in_def Let_def case_prod_beta by (intro frame_intros dev_frame_if) simp_all

lemma dev_frame_pio_out [frame_intros]:
  "dev_frame p s0 s \<Longrightarrow> dev_frame p s0 (atapi_pio_data_out dev p s)"
  unfolding atapi_pio_data_out_def Let_def case_prod_beta by (intro frame_intros) simp_all

lemma dev_frame_status [frame_intros]:
  "dev_frame p s0 s \<Longrightarrow> dev_frame p s0 (atapi_status dev p status d s)"
  by (auto simp: atapi_status_def get8_pair Let_def intro!: frame_intros)

lemma dev_frame_drv_state [frame_intros]:
  "dev_frame p s0 s \<Longrightarrow> dev_frame p s0 (set_drv_state dr st s)"
  by (auto simp: set_drv_state_def intro!: frame_intros)

lemma dev_frame_action [frame_intros]:
  "dev_frame p s0 s \<Longrightarrow> dev_frame p s0 (snd (atapi_fsm_action dev dr p st status a s))"
  by (cases a) (auto simp: atapi_fsm_action_def Let_def intro!: frame_intros)

lemma dev_frame_fsm_intr: "dev_frame p s (snd (atapi_fsm_intr dev dr p s))"
  by (auto simp: atapi_fsm_intr_def get8_pair Let_def split: prod.split
      dest: get_status_eq_frame intro!: frame_intros)

lemma ret_start_cmd: "ret (dev_frame p) s (atapi_start_cmd dev dr p s)"
  unfolding atapi_start_cmd_def Let_def
  by (auto intro!: ret_bind ret_Some ret_waits [THEN ret_after] frame_intros split: if_splits)

lemma ret_fsm_start: "ret (dev_frame p) s (atapi_fsm_start dev dr p s)"
  unfolding atapi_fsm_start_def Let_def
  by (auto intro!: ret_bind ret_Some ret_after [OF ret_start_cmd] frame_intros split: if_splits fsm_rc.split)

lemma ret_device_reset: "ret (dev_frame p) s (atapi_device_reset dev dr s)"
  unfolding atapi_device_reset_def Let_def
  by (rule ret_bind, rule ret_waits(3) [THEN ret_after]) (auto intro!: ret_Some frame_intros)

lemma ret_fsm_reset: "ret (dev_frame p) s (atapi_fsm_reset dev s)"
proof -
  have r: "ret (dev_frame p) s (atapi_fsm_reset1 dev d s)" for d s
    unfolding atapi_fsm_reset1_def
    by (cases "ac_drvp s d 0 \<noteq> None \<and> flag_set (ad_flags (drv s (d, 0))) AD_ATAPI")
      (auto intro!: ret_Some ret_device_reset [THEN ret_after] frame_intros)
  show ?thesis unfolding atapi_fsm_reset_def
    by (rule ret_bind, rule r) (auto intro: ret_after [OF r])
qed

subsection \<open>What the data-in parts move\<close>

lemma pio_drain_spec:
  "\<exists>new. pio_drain dev n s = s\<lparr>ac_log := ac_log s @ new\<rparr> \<and> mem_stores new = [] \<and>
     length (data_words new) = nat ((n + 1) div 2)"
proof (induction dev n s rule: pio_drain.induct)
  case (1 dev n s)
  show ?case
  proof (cases "0 < n")
    case True
    let ?e = "Drain16 (get16 dev s)"
    from 1 [OF True] obtain new where
      new: "pio_drain dev (n - 2) (log_event ?e s) = s\<lparr>ac_log := ac_log s @ ?e # new\<rparr>"
      "mem_stores new = []" "length (data_words new) = nat ((n - 2 + 1) div 2)"
      by (auto simp: log_event_def)
    have "nat ((n + 1) div 2) = Suc (nat ((n - 2 + 1) div 2))" using True by linarith
    with new True show ?thesis by (subst pio_drain.simps) (auto intro: exI [of _ "?e # new"])
  next
    case False
    then show ?thesis by (subst pio_drain.simps) (auto intro: exI [of _ "[]"])
  qed
qed

lemma delay400_log: "delay400 dev s = s\<lparr>ac_log := ac_log s @ log_new s (delay400 dev s)\<rparr>"
    "data_words (log_new s (delay400 dev s)) = []" "mem_stores (log_new s (delay400 dev s)) = []"
  by (simp_all add: delay400_def ATA_DELAY_400NSEC_def ddi_get8_def log_new_def)

lemma pio_in_words_spec:
  "\<exists>new ws. length ws = n \<and> ac_log (pio_in_words dev p (int n) s) = ac_log s @ new \<and> data_words new = ws \<and>
     mem_stores new = stores_at (ap_v_addr (ac_pkt s p)) (le_bytes ws) \<and>
     ap_v_addr (ac_pkt (pio_in_words dev p (int n) s) p) = ap_v_addr (ac_pkt s p) + of_nat (2 * n) \<and>
     ap_resid (ac_pkt (pio_in_words dev p (int n) s) p) = ap_resid (ac_pkt s p)"
proof (cases "n = 0")
  case True
  then show ?thesis by (auto simp: pio_in_words_def intro: exI [of _ "[]"])
next
  case False
  let ?ws = "map (dev16 dev (ac_log s)) [0..<n]"
  from False show ?thesis
    by (intro exI [of _ "[RepGet16 (ap_v_addr (ac_pkt s p)) ?ws]"] exI [of _ ?ws])
      (simp add: pio_in_words_def ddi_rep_get16_def Let_def upd_pkt_def algebra_simps)
qed

lemma pio_in_odd_spec:
  "\<exists>new ws. length ws = (if odd n then 1 else 0) \<and> ac_log (pio_in_odd dev p (int n) s) = ac_log s @ new \<and>
     data_words new = ws \<and>
     mem_stores new = stores_at (ap_v_addr (ac_pkt s p)) (take (length ws) (le_bytes ws)) \<and>
     ap_v_addr (ac_pkt (pio_in_odd dev p (int n) s) p) = ap_v_addr (ac_pkt s p) + of_nat (length ws) \<and>
     ap_resid (ac_pkt (pio_in_odd dev p (int n) s) p) = ap_resid (ac_pkt s p)"
proof (cases "odd n")
  case True
  then show ?thesis
    by (intro exI [of _ "[Get16Byte (ap_v_addr (ac_pkt s p)) (get16 dev s)]"] exI [of _ "[get16 dev s]"])
      (simp add: pio_in_odd_def upd_pkt_def log_event_def)
qed (auto simp: pio_in_odd_def intro: exI [of _ "[]"])

text \<open>The byte count the device asks for: the cylinder registers, high byte read first.\<close>

definition device_byte_count :: "device \<Rightarrow> iolog \<Rightarrow> nat" where
  "device_byte_count dev l =
     (let hi = dev8 dev l AC_HCYL
      in 256 * unat hi + unat (dev8 dev (l @ [Get8 AC_HCYL hi]) AC_LCYL))"

lemma drive_byte_count_spec:
  "\<exists>new. drive_byte_count dev s = (int (device_byte_count dev (ac_log s)), s\<lparr>ac_log := ac_log s @ new\<rparr>) \<and>
     data_words new = [] \<and> mem_stores new = []"
  by (intro exI [of _ "[Get8 AC_HCYL (dev8 dev (ac_log s) AC_HCYL),
        Get8 AC_LCYL (dev8 dev (ac_log s @ [Get8 AC_HCYL (dev8 dev (ac_log s) AC_HCYL)]) AC_LCYL)]"])
    (simp add: drive_byte_count_def get8_pair device_byte_count_def Let_def log_event_def)

lemma words_total:
  assumes "x \<le> n"
  shows "x div 2 + (if odd x then 1 else 0) + nat ((int n - int (x div 2) * 2 - (if odd x then 2 else 0) + 1) div 2) =
    (n + 1) div 2"
proof -
  from assms obtain m where n: "n = x + m" using le_Suc_ex by blast
  have h: "nat (int j div 2) = j div 2" for j by (simp add: nat_div_distrib)
  show ?thesis
  proof (cases "odd x")
    case True
    then obtain b where "x = 2 * b + 1" by (rule oddE)
    then show ?thesis using h [of m] by (simp add: n)
  next
    case False
    then obtain b where "x = 2 * b" by (auto elim: evenE)
    then show ?thesis using h [of "m + 1"] by (simp add: n add.commute)
  qed
qed

lemma atapi_pio_data_in_spec:
  fixes dev p s
  defines "n \<equiv> device_byte_count dev (ac_log s)" and "k \<equiv> ac_pkt s p"
  defines "x \<equiv> min (unat (ap_resid k)) n"
  shows "\<exists>new ws. ac_log (atapi_pio_data_in dev p s) = ac_log s @ new \<and> data_words new = ws \<and>
     length ws = (n + 1) div 2 \<and> mem_stores new = stores_at (ap_v_addr k) (take x (le_bytes ws)) \<and>
     ap_v_addr (ac_pkt (atapi_pio_data_in dev p s) p) = ap_v_addr k + of_nat x \<and>
     ap_resid (ac_pkt (atapi_pio_data_in dev p s) p) = ap_resid k - of_nat x"
proof -
  let ?s0 = "set_pkt_flags p AP_XFERRED_DATA s"
  have l0: "ac_log ?s0 = ac_log s" "ap_v_addr (ac_pkt ?s0 p) = ap_v_addr k" "ap_resid (ac_pkt ?s0 p) = ap_resid k"
    by (simp_all add: set_pkt_flags_def upd_pkt_def k_def)
  obtain n0 s1 where s1: "drive_byte_count dev ?s0 = (int n, s1)" "s1 = ?s0\<lparr>ac_log := ac_log s @ n0\<rparr>"
    "data_words n0 = []" "mem_stores n0 = []"
    using drive_byte_count_spec [of dev ?s0] l0 by (auto simp: n_def)
  have pk: "ap_v_addr (ac_pkt s1 p) = ap_v_addr k" "ap_resid (ac_pkt s1 p) = ap_resid k" "ac_log s1 = ac_log s @ n0"
    using l0 s1 by simp_all
  have x: "min (uint (ap_resid (ac_pkt s1 p))) (int n) = int x" "int x div 2 = int (x div 2)"
    by (simp_all add: x_def pk of_nat_min of_nat_div)
  obtain s2 n2 w2 where s2: "s2 = pio_in_words dev p (int (x div 2)) s1" "length w2 = x div 2" "ac_log s2 = ac_log s1 @ n2"
    "data_words n2 = w2" "mem_stores n2 = stores_at (ap_v_addr k) (le_bytes w2)"
    "ap_v_addr (ac_pkt s2 p) = ap_v_addr k + of_nat (2 * (x div 2))" "ap_resid (ac_pkt s2 p) = ap_resid k"
    using pio_in_words_spec [of "x div 2" dev p s1] pk by auto
  obtain s3 n3 w3 where s3: "s3 = pio_in_odd dev p (int x) s2" "length w3 = (if odd x then 1 else 0)"
    "ac_log s3 = ac_log s2 @ n3" "data_words n3 = w3"
    "mem_stores n3 = stores_at (ap_v_addr k + of_nat (2 * (x div 2))) (take (length w3) (le_bytes w3))"
    "ap_v_addr (ac_pkt s3 p) = ap_v_addr k + of_nat (2 * (x div 2)) + of_nat (length w3)"
    "ap_resid (ac_pkt s3 p) = ap_resid k"
    using pio_in_odd_spec [of x dev p s2] s2(6,7) by metis
  let ?s4 = "upd_pkt p (\<lambda>k. k\<lparr>ap_resid := ap_resid k - of_int (int x)\<rparr>) s3"
  define left where "left = int n - int (x div 2) * 2 - (if odd x then 2 else 0)"
  obtain n5 where n5: "(if left > 0 then pio_drain dev left ?s4 else ?s4) = ?s4\<lparr>ac_log := ac_log ?s4 @ n5\<rparr>"
    "mem_stores n5 = []" "length (data_words n5) = nat ((left + 1) div 2)"
  proof (cases "left > 0")
    case True
    with pio_drain_spec [of dev left ?s4] that show ?thesis by auto
  next
    case False
    then have "nat ((left + 1) div 2) = 0" by linarith
    with False that [of "[]"] show ?thesis by simp
  qed
  let ?s5 = "?s4\<lparr>ac_log := ac_log ?s4 @ n5\<rparr>"
  have left: "(if odd (int x) then (if int (x div 2) \<noteq> 0 then int n - int (x div 2) * 2 else int n) - 2
      else (if int (x div 2) \<noteq> 0 then int n - int (x div 2) * 2 else int n)) = left"
    by (auto simp: left_def)
  have eq: "atapi_pio_data_in dev p s = delay400 dev ?s5"
    unfolding atapi_pio_data_in_def
    by (simp only: Let_def s1(1) case_prod_conv x left s2(1) [symmetric] s3(1) [symmetric] n5(1))
  let ?new = "n0 @ n2 @ n3 @ n5 @ log_new ?s5 (delay400 dev ?s5)"
  let ?ws = "w2 @ w3 @ data_words n5"
  have xn: "x = 2 * (x div 2) + length w3" using s3(2) by (cases "odd x") simp_all
  have "x \<le> n" by (simp add: x_def)
  then have "length ?ws = (n + 1) div 2"
    using s2(2) s3(2) n5(3) words_total [of x n] unfolding left_def by simp
  moreover have "take x (le_bytes ?ws) = le_bytes w2 @ take (length w3) (le_bytes w3)"
    using s2(2) s3(2) xn by (cases "odd x") (auto simp: take_append elim!: oddE)
  moreover have "ac_log (delay400 dev ?s5) = ac_log s @ ?new"
    by (subst delay400_log(1)) (simp add: s3(3) s2(3) pk upd_pkt_def)
  moreover have "data_words ?new = ?ws" using s1(3) s2(4) s3(4) delay400_log(2) by simp
  moreover have "mem_stores ?new = stores_at (ap_v_addr k) (le_bytes w2 @ take (length w3) (le_bytes w3))"
    using s1(4) s2(2,5) s3(5) n5(2) delay400_log(3) by (simp add: stores_at_append)
  moreover have "ap_v_addr (ac_pkt (delay400 dev ?s5) p) = ap_v_addr k + of_nat x"
    using s3(6) arg_cong [OF xn, of "of_nat :: nat \<Rightarrow> u64"]
    by (simp only: of_nat_add) (simp add: delay400_def upd_pkt_def)
  moreover have "ap_resid (ac_pkt (delay400 dev ?s5) p) = ap_resid k - of_nat x"
    using s3(7) by (simp add: delay400_def upd_pkt_def)
  ultimately show ?thesis
    unfolding eq by (intro exI [of _ ?new] exI [of _ ?ws]) (simp only: simp_thms)
qed

subsection \<open>Command packets sent, and completion\<close>

fun is_cdb :: "ioevent \<Rightarrow> bool" where
  "is_cdb (PutCDB bs) = True"
| "is_cdb _ = False"

definition cdbs :: "ata_ctl \<Rightarrow> nat" where
  "cdbs s = length (filter is_cdb (ac_log s))"

lemma cdbs_upd [simp]:
  "cdbs (upd_pkt p f s) = cdbs s" "cdbs (upd_drv dr g s) = cdbs s" "cdbs (set_pkt_flags p m s) = cdbs s"
  "cdbs (set_drv_state dr st s) = cdbs s"
  by (simp_all add: cdbs_def upd_pkt_def upd_drv_def set_pkt_flags_def set_drv_state_def)

lemma cdbs_log [simp]:
  "cdbs (put8 r v s) = cdbs s" "cdbs (usecwait n s) = cdbs s" "cdbs (delay400 dev s) = cdbs s"
  "cdbs (snd (get8 dev r s)) = cdbs s" "cdbs (log_event e s) = cdbs s + (if is_cdb e then 1 else 0)"
  by (simp_all add: cdbs_def put8_def ddi_put8_def usecwait_def drv_usecwait_def delay400_def ATA_DELAY_400NSEC_def
      get8_def ddi_get8_def log_event_def)

lemma cdbs_dma [simp]:
  "cdbs (ata_pciide_dma_start dev d s) = cdbs s" "cdbs (ata_pciide_dma_stop dev s) = cdbs s"
  "cdbs (snd (ata_pciide_status_clear dev s)) = cdbs s" "cdbs (snd (ata_pciide_status_dmacheck_clear dev s)) = cdbs s"
  "cdbs (ata_pciide_dma_setup p s) = cdbs s"
proof -
  show "cdbs (ata_pciide_dma_setup p s) = cdbs s"
    by (simp add: ata_pciide_dma_setup_def Let_def prd_put_def) (simp add: cdbs_def prd_put_def filter_empty_conv)
qed (simp_all add: ata_pciide_dma_start_def ata_pciide_dma_stop_def ata_pciide_status_clear_def
    ata_pciide_status_dmacheck_clear_def get8_pair Let_def)

lemma cdbs_get_status [simp]: "cdbs (snd (ata_get_status_clear_intr dev p s)) = cdbs s"
  using cdbs_dma(4) [of dev s]
  by (cases "ata_pciide_status_dmacheck_clear dev s") (auto simp: ata_get_status_clear_intr_def Let_def)

lemma cdbs_drain [simp]: "cdbs (pio_drain dev n s) = cdbs s"
proof (induction dev n s rule: pio_drain.induct)
  case (1 dev n s)
  then show ?case by (subst pio_drain.simps) simp
qed

lemma cdbs_pio [simp]:
  "cdbs (pio_in_words dev p n s) = cdbs s" "cdbs (pio_in_odd dev p n s) = cdbs s"
  "cdbs (pio_out_words p n s) = cdbs s" "cdbs (pio_out_odd p n s) = cdbs s"
  "cdbs (snd (drive_byte_count dev s)) = cdbs s"
proof -
  show "cdbs (pio_in_words dev p n s) = cdbs s"
    by (simp add: pio_in_words_def ddi_rep_get16_def Let_def) (simp add: cdbs_def)
qed (simp_all add: pio_in_odd_def pio_out_words_def pio_out_odd_def drive_byte_count_def get8_pair)

lemma cdbs_steps [simp]:
  "cdbs (atapi_pio_data_in dev p s) = cdbs s" "cdbs (atapi_pio_data_out dev p s) = cdbs s"
  "cdbs (atapi_status dev p st d s) = cdbs s" "cdbs (atapi_start_dma dev p s) = cdbs s"
  by (simp_all add: atapi_pio_data_in_def atapi_pio_data_out_def atapi_status_def atapi_start_dma_def get8_pair
      case_prod_beta Let_def)

lemma cdbs_padding [simp]: "cdbs (cdb_padding n s) = cdbs s"
  by (induction n arbitrary: s) simp_all

lemma cdbs_send [simp]: "cdbs (atapi_send_cdb dev p s) = Suc (cdbs s)"
  by (simp add: atapi_send_cdb_def Let_def)

lemma cdbs_action: "cdbs (snd (atapi_fsm_action dev dr p st status a s)) = cdbs s + (if a = A_CDB then 1 else 0)"
  by (cases a) (simp_all add: atapi_fsm_action_def Let_def)

text \<open>What an interrupt step sees: the status it reads, and the event.\<close>

definition intr_before :: "device \<Rightarrow> drv_ref \<Rightarrow> pkt_ref \<Rightarrow> ata_ctl \<Rightarrow> u8 \<times> ata_ctl" where
  "intr_before dev dr p s =
     ata_get_status_clear_intr dev p (if ad_state (drv s dr) = S_DMA then ata_pciide_dma_stop dev s else s)"

definition intr_status :: "device \<Rightarrow> drv_ref \<Rightarrow> pkt_ref \<Rightarrow> ata_ctl \<Rightarrow> u8" where
  "intr_status dev dr p s = fst (intr_before dev dr p s)"

definition intr_busy :: "device \<Rightarrow> drv_ref \<Rightarrow> pkt_ref \<Rightarrow> ata_ctl \<Rightarrow> bool" where
  "intr_busy dev dr p s \<longleftrightarrow> intr_status dev dr p s AND ATS_BSY \<noteq> 0"

definition intr_event :: "device \<Rightarrow> drv_ref \<Rightarrow> pkt_ref \<Rightarrow> ata_ctl \<Rightarrow> nat" where
  "intr_event dev dr p s = ATAPI_EVENT (intr_status dev dr p s)
     (fst (get8 dev AC_COUNT (snd (intr_before dev dr p s))))"

lemma atapi_fsm_intr_eq:
  "atapi_fsm_intr dev dr p s =
    (if intr_busy dev dr p s then (ATA_FSM_RC_BUSY, snd (intr_before dev dr p s))
     else atapi_fsm_action dev dr p (ad_state (drv s dr)) (intr_status dev dr p s)
       (atapi_action (ad_state (drv s dr)) (intr_event dev dr p s))
       (set_drv_state dr (atapi_next_state (ad_state (drv s dr)) (intr_event dev dr p s))
         (snd (get8 dev AC_COUNT (snd (intr_before dev dr p s))))))"
  by (simp add: atapi_fsm_intr_def intr_busy_def intr_status_def intr_event_def intr_before_def Let_def case_prod_beta)

lemma ATAPI_EVENT_bits:
  "ATAPI_EVENT st ir = (if bit st 3 then 1 else 0) + (if bit ir 0 then 2 else 0) + (if bit ir 1 then 4 else 0)"
proof -
  define t where "t = take_bit 2 ir"
  have "unat t < 4" using take_bit_nat_less_exp [of 2 "unat ir"] by (simp only: t_def unsigned_take_bit_eq) simp
  then obtain n where n: "t = of_nat n" "n < 4" by (metis of_nat_unat ucast_id)
  then have "n = 0 \<or> n = 1 \<or> n = 2 \<or> n = 3" by linarith
  with n(1) have t: "t = 0 \<or> t = 1 \<or> t = 2 \<or> t = 3" by auto
  have ir: "bit ir 0 = bit t 0" "bit ir 1 = bit t 1" by (simp_all add: t_def bit_take_bit_iff)
  have m: "ir AND (ATI_IO OR ATI_COD) = t"
    by (simp add: t_def take_bit_eq_mask mask_eq_exp_minus_1 ATI_IO_def ATI_COD_def)
  have d: "drop_bit 3 (st AND ATS_DRQ) = (if bit st 3 then 1 else 0)"
    by (simp add: ATS_DRQ_def drop_bit_and and_one_eq bit_iff_odd_drop_bit mod_2_eq_odd)
  show ?thesis unfolding ATAPI_EVENT_def m d ir using t by auto
qed

subsection \<open>The drive's state\<close>

lemma drvp_ops [simp]:
  "ac_drvp (put8 r v s) = ac_drvp s" "ac_drvp (usecwait n s) = ac_drvp s" "ac_drvp (delay400 dev s) = ac_drvp s"
  "ac_drvp (snd (get8 dev r s)) = ac_drvp s" "ac_drvp (log_event e s) = ac_drvp s" "ac_drvp (upd_pkt p f s) = ac_drvp s"
  "ac_drvp (set_pkt_flags p m s) = ac_drvp s" "ac_drvp (ata_pciide_dma_start dev d s) = ac_drvp s"
  "ac_drvp (ata_pciide_dma_stop dev s) = ac_drvp s" "ac_drvp (snd (ata_pciide_status_clear dev s)) = ac_drvp s"
  "ac_drvp (snd (ata_pciide_status_dmacheck_clear dev s)) = ac_drvp s" "ac_drvp (ata_pciide_dma_setup p s) = ac_drvp s"
  by (simp_all add: put8_def usecwait_def delay400_def get8_pair log_event_def upd_pkt_def set_pkt_flags_def
      ata_pciide_dma_start_def ata_pciide_dma_stop_def ata_pciide_status_clear_def ata_pciide_status_dmacheck_clear_def
      ata_pciide_dma_setup_def Let_def)

lemma drvp_get_status [simp]: "ac_drvp (snd (ata_get_status_clear_intr dev p s)) = ac_drvp s"
  using drvp_ops(11) [of dev s]
  by (cases "ata_pciide_status_dmacheck_clear dev s") (auto simp: ata_get_status_clear_intr_def Let_def)

lemma drvp_drain [simp]: "ac_drvp (pio_drain dev n s) = ac_drvp s"
  using pio_drain_spec [of dev n s] by auto

lemma drvp_pio [simp]:
  "ac_drvp (pio_in_words dev p n s) = ac_drvp s" "ac_drvp (pio_in_odd dev p n s) = ac_drvp s"
  "ac_drvp (pio_out_words p n s) = ac_drvp s" "ac_drvp (pio_out_odd p n s) = ac_drvp s"
  "ac_drvp (snd (drive_byte_count dev s)) = ac_drvp s"
  by (simp_all add: pio_in_words_def ddi_rep_get16_def Let_def pio_in_odd_def pio_out_words_def pio_out_odd_def
      drive_byte_count_def get8_pair)

lemma drvp_padding [simp]: "ac_drvp (cdb_padding n s) = ac_drvp s"
  by (induction n arbitrary: s) simp_all

lemma drvp_steps [simp]:
  "ac_drvp (atapi_pio_data_in dev p s) = ac_drvp s" "ac_drvp (atapi_pio_data_out dev p s) = ac_drvp s"
  "ac_drvp (atapi_status dev p st d s) = ac_drvp s" "ac_drvp (atapi_start_dma dev p s) = ac_drvp s"
  "ac_drvp (atapi_send_cdb dev p s) = ac_drvp s"
  by (simp_all add: atapi_pio_data_in_def atapi_pio_data_out_def atapi_status_def atapi_start_dma_def atapi_send_cdb_def
      get8_pair case_prod_beta Let_def)

lemma drv_eq: "ac_drvp s = ac_drvp s' \<Longrightarrow> drv s dr = drv s' dr"
  by (simp add: drv_def)

lemma drvp_intr_before [simp]: "ac_drvp (snd (intr_before dev dr p s)) = ac_drvp s"
  by (simp add: intr_before_def)

definition has_drv :: "ata_ctl \<Rightarrow> drv_ref \<Rightarrow> bool" where
  "has_drv s dr \<longleftrightarrow> ac_drvp s (fst dr) (snd dr) \<noteq> None"

lemma has_drv_cong: "ac_drvp s = ac_drvp s' \<Longrightarrow> has_drv s dr = has_drv s' dr"
  by (simp add: has_drv_def)

lemma has_drv_upd [simp]: "has_drv (upd_drv dr f s) dr = has_drv s dr" "has_drv (set_drv_state dr st s) dr = has_drv s dr"
  by (simp_all add: has_drv_def upd_drv_def set_drv_state_def)

lemma drv_upd [simp]: "has_drv s dr \<Longrightarrow> drv (upd_drv dr f s) dr = f (drv s dr)"
  by (auto simp: has_drv_def drv_def upd_drv_def)

lemma drv_set_state [simp]: "has_drv s dr \<Longrightarrow> drv (set_drv_state dr st s) dr = (drv s dr)\<lparr>ad_state := st\<rparr>"
  by (simp add: set_drv_state_def)

lemma action_state:
  assumes "has_drv s dr"
  shows "has_drv (snd (atapi_fsm_action dev dr p st status a s)) dr \<and>
    ad_state (drv (snd (atapi_fsm_action dev dr p st status a s)) dr) =
      (if a = A_CDB \<and> ap_pciide_dma (ac_pkt s p) then S_DMA else ad_state (drv s dr))"
  by (cases a) (use assms in \<open>auto simp: atapi_fsm_action_def Let_def has_drv_def drv_def set_drv_state_def upd_drv_def\<close>)

lemma intr_step:
  fixes dev dr p s
  assumes "has_drv s dr"
  defines "st \<equiv> ad_state (drv s dr)" and "e \<equiv> intr_event dev dr p s"
  shows "has_drv (snd (atapi_fsm_intr dev dr p s)) dr \<and>
    (if intr_busy dev dr p s
     then ad_state (drv (snd (atapi_fsm_intr dev dr p s)) dr) = st \<and> cdbs (snd (atapi_fsm_intr dev dr p s)) = cdbs s
     else (ad_state (drv (snd (atapi_fsm_intr dev dr p s)) dr) = atapi_next_state st e \<or>
           ad_state (drv (snd (atapi_fsm_intr dev dr p s)) dr) = S_DMA \<and> atapi_action st e = A_CDB) \<and>
       cdbs (snd (atapi_fsm_intr dev dr p s)) = cdbs s + (if atapi_action st e = A_CDB then 1 else 0))"
proof -
  let ?s1 = "snd (intr_before dev dr p s)"
  let ?s2 = "set_drv_state dr (atapi_next_state st e) (snd (get8 dev AC_COUNT ?s1))"
  have h: "has_drv ?s1 dr" "drv ?s1 dr = drv s dr" using assms(1) by (simp_all add: has_drv_def drv_def)
  have h': "has_drv (snd (get8 dev AC_COUNT ?s1)) dr" using h by (simp add: has_drv_def)
  have c: "cdbs ?s1 = cdbs s" by (simp add: intr_before_def)
  have c2: "cdbs ?s2 = cdbs s" using c by simp
  show ?thesis
    unfolding atapi_fsm_intr_eq
    using h h' c c2 action_state [of ?s2 dr dev p st "intr_status dev dr p s" "atapi_action st e"]
      cdbs_action [of dev dr p st "intr_status dev dr p s" "atapi_action st e" ?s2]
    by (auto simp: st_def [symmetric] e_def [symmetric])
qed

lemma intr_event_less: "intr_event dev dr p s < 8"
  by (simp add: intr_event_def ATAPI_EVENT_bits)

lemma less_8: "(e :: nat) < 8 \<longleftrightarrow> e \<in> {0, 1, 2, 3, 4, 5, 6, 7}"
  by auto

lemma event_cases:
  "(e :: nat) < 8 \<Longrightarrow> e = 0 \<or> e = 1 \<or> e = 2 \<or> e = 3 \<or> e = 4 \<or> e = 5 \<or> e = 6 \<or> e = 7"
  by linarith

text \<open>The tables, read by rows.\<close>

lemma table_cdb: "e < 8 \<Longrightarrow> (atapi_action st e = A_CDB) = (st = S_CMD \<and> e = 3)"
  by (drule event_cases, cases st) (auto simp: atapi_action_def atapi_PioAction_def)

lemma table_leaves_cmd: "e < 8 \<Longrightarrow> atapi_next_state st e \<noteq> S_CMD"
  by (drule event_cases, cases st) (auto simp: atapi_next_state_def atapi_PioNextState_def)

lemma table_completes:
  "e < 8 \<Longrightarrow> (atapi_action st e = A_RE \<or> atapi_action st e = A_REX) =
     (st \<noteq> S_IDLE \<and> (e = 6 \<or> e = 0 \<and> st \<noteq> S_CMD))"
  by (drule event_cases, cases st) (auto simp: atapi_action_def atapi_PioAction_def)

lemma table_completes_idle:
  "e < 8 \<Longrightarrow> atapi_action st e = A_RE \<or> atapi_action st e = A_REX \<Longrightarrow> atapi_next_state st e = S_IDLE"
  by (drule event_cases, cases st)
    (auto simp: atapi_action_def atapi_PioAction_def atapi_next_state_def atapi_PioNextState_def)

text \<open>\<open>n\<close> interrupts in a row.\<close>

definition atapi_intrs :: "device \<Rightarrow> drv_ref \<Rightarrow> pkt_ref \<Rightarrow> nat \<Rightarrow> ata_ctl \<Rightarrow> ata_ctl" where
  "atapi_intrs dev dr p n = (\<lambda>s. snd (atapi_fsm_intr dev dr p s)) ^^ n"

lemma intrs_past_cmd:
  assumes "has_drv s dr" "ad_state (drv s dr) \<noteq> S_CMD"
  shows "cdbs (atapi_intrs dev dr p n s) = cdbs s \<and> has_drv (atapi_intrs dev dr p n s) dr \<and>
    ad_state (drv (atapi_intrs dev dr p n s) dr) \<noteq> S_CMD"
proof (induction n)
  case (Suc n)
  then show ?case
    using intr_step [of "atapi_intrs dev dr p n s" dr dev p] intr_event_less
    by (auto simp: atapi_intrs_def table_cdb table_leaves_cmd split: if_splits)
qed (use assms in \<open>simp add: atapi_intrs_def\<close>)

lemma intrs_once:
  assumes "has_drv s dr"
  shows "cdbs (atapi_intrs dev dr p n s) \<le> Suc (cdbs s)"
  using assms
proof (induction n arbitrary: s)
  case (Suc n)
  let ?s' = "snd (atapi_fsm_intr dev dr p s)"
  note step = intr_step [OF Suc.prems, of dev p]
  have run: "atapi_intrs dev dr p (Suc n) s = atapi_intrs dev dr p n ?s'"
    using funpow_swap1 [of "\<lambda>s. snd (atapi_fsm_intr dev dr p s)" n s] by (simp add: atapi_intrs_def)
  show ?case
  proof (cases "ad_state (drv ?s' dr) = S_CMD")
    case True
    with step have "cdbs ?s' = cdbs s" "has_drv ?s' dr"
      using table_leaves_cmd [OF intr_event_less, of "ad_state (drv s dr)" dev dr p s] by (auto split: if_splits)
    with Suc.IH [of ?s'] show ?thesis by (simp add: run)
  next
    case False
    with step intrs_past_cmd [of ?s' dr dev p n] show ?thesis by (auto simp: run split: if_splits)
  qed
qed (simp add: atapi_intrs_def)

lemma flag_set_or [simp]: "flag_set (a OR b) m \<longleftrightarrow> flag_set a m \<or> flag_set b m"
proof -
  have "(a OR b) AND m = (a AND m) OR (b AND m)" by (simp add: bit.conj_disj_distrib2)
  moreover have "x OR y = 0 \<longleftrightarrow> x = 0 \<and> y = 0" for x y :: u32 by (simp add: or_eq_0_iff)
  ultimately show ?thesis by (simp add: flag_set_def)
qed

lemma flag_consts [simp]:
  "flag_set AP_ERROR AP_ERROR" "\<not> flag_set AP_ERROR AP_TRAN_ERROR"
  "\<not> flag_set AP_ERROR AP_GOT_STATUS" "\<not> flag_set AP_ERROR AP_READ"
  "\<not> flag_set AP_ERROR AP_WRITE" "\<not> flag_set AP_TRAN_ERROR AP_ERROR"
  "flag_set AP_TRAN_ERROR AP_TRAN_ERROR" "\<not> flag_set AP_TRAN_ERROR AP_GOT_STATUS"
  "\<not> flag_set AP_TRAN_ERROR AP_READ" "\<not> flag_set AP_TRAN_ERROR AP_WRITE"
  "\<not> flag_set AP_READ AP_ERROR" "\<not> flag_set AP_READ AP_TRAN_ERROR"
  "\<not> flag_set AP_READ AP_GOT_STATUS" "flag_set AP_READ AP_READ" "\<not> flag_set AP_READ AP_WRITE"
  "\<not> flag_set AP_WRITE AP_ERROR" "\<not> flag_set AP_WRITE AP_TRAN_ERROR"
  "\<not> flag_set AP_WRITE AP_GOT_STATUS" "\<not> flag_set AP_WRITE AP_READ" "flag_set AP_WRITE AP_WRITE"
  "\<not> flag_set AP_SENT_CMD AP_ERROR" "\<not> flag_set AP_SENT_CMD AP_TRAN_ERROR"
  "\<not> flag_set AP_SENT_CMD AP_GOT_STATUS" "\<not> flag_set AP_SENT_CMD AP_READ"
  "\<not> flag_set AP_SENT_CMD AP_WRITE" "\<not> flag_set AP_XFERRED_DATA AP_ERROR"
  "\<not> flag_set AP_XFERRED_DATA AP_TRAN_ERROR" "\<not> flag_set AP_XFERRED_DATA AP_GOT_STATUS"
  "\<not> flag_set AP_XFERRED_DATA AP_READ" "\<not> flag_set AP_XFERRED_DATA AP_WRITE"
  "\<not> flag_set AP_GOT_STATUS AP_ERROR" "\<not> flag_set AP_GOT_STATUS AP_TRAN_ERROR"
  "flag_set AP_GOT_STATUS AP_GOT_STATUS" "\<not> flag_set AP_GOT_STATUS AP_READ"
  "\<not> flag_set AP_GOT_STATUS AP_WRITE"
  by (simp_all add: flag_set_def ap_flag_defs)

lemma pkt_upd [simp]: "ac_pkt (upd_pkt p f s) p = f (ac_pkt s p)"
  "ac_pkt (set_pkt_flags p m s) p = (ac_pkt s p)\<lparr>ap_flags := ap_flags (ac_pkt s p) OR m\<rparr>"
  by (simp_all add: upd_pkt_def set_pkt_flags_def)

lemma status_effects:
  fixes dev p status d s
  defines "k' \<equiv> ac_pkt (atapi_status dev p status d s) p"
  shows "flag_set (ap_flags k') AP_GOT_STATUS \<and>
    (status AND (ATS_DF OR ATS_ERR) \<noteq> 0 \<longrightarrow> flag_set (ap_flags k') AP_ERROR \<and> ap_status k' = status) \<and>
    ap_resid k' = (if d \<and> \<not> flag_set (ap_flags k') AP_TRAN_ERROR then 0 else ap_resid (ac_pkt s p))"
  unfolding k'_def atapi_status_def Let_def get8_pair
  by (simp add: log_event_def)

text \<open>Starting a command sends no packet.\<close>

definition quiet :: "ata_ctl \<Rightarrow> ata_ctl \<Rightarrow> bool" where
  "quiet s s' \<longleftrightarrow> cdbs s' = cdbs s \<and> ac_drvp s' = ac_drvp s"

lemma ret_quiet_after: "ret quiet s' x \<Longrightarrow> quiet s s' \<Longrightarrow> ret quiet s x"
  by (auto simp: ret_def quiet_def)

lemma cdb_wait_result: "filter is_cdb (snd (wait_result dev ends n l)) = filter is_cdb l"
  by (induction n arbitrary: l) (auto split: option.split)

lemma ret_quiet_wait:
  assumes "wait_rounds t n"
  shows "ret quiet s (wait dev a b t s)"
proof (cases "wait_result dev (wait_ends a b) n (ac_log s)")
  case (Pair r l)
  with sol11ata_wait_spec [OF assms, of dev a b "ac_log s"] cdb_wait_result [of dev "wait_ends a b" n "ac_log s"]
  show ?thesis by (auto simp: wait_def ret_def quiet_def cdbs_def)
qed

lemma ret_quiet_wait3:
  assumes "wait_rounds t n"
  shows "ret quiet s (wait3 dev a1 b1 a2 b2 a3 b3 t s)"
proof (cases "wait_result dev (wait3_ends a1 b1 a2 b2 a3 b3) n (ac_log s)")
  case (Pair r l)
  with ata_wait3_spec [OF assms, of dev a1 b1 a2 b2 a3 b3 "ac_log s"]
    cdb_wait_result [of dev "wait3_ends a1 b1 a2 b2 a3 b3" n "ac_log s"]
  show ?thesis by (auto simp: wait3_def ret_def quiet_def cdbs_def)
qed

lemmas ret_quiet_waits = ret_quiet_wait [OF wait_rounds_used(1)] ret_quiet_wait3 [OF wait_rounds_used(2)]

lemma ret_quiet_start_cmd: "ret quiet s (atapi_start_cmd dev dr p s)"
  unfolding atapi_start_cmd_def Let_def
  by (auto intro!: ret_bind ret_Some ret_quiet_waits [THEN ret_quiet_after] simp: quiet_def split: if_splits)

lemma fsm_start_state:
  assumes "has_drv s dr" "atapi_fsm_start dev dr p s = Some (rc, s')"
  shows "has_drv s' dr \<and> cdbs s' = cdbs s \<and> (rc \<noteq> ATA_FSM_RC_BUSY \<longrightarrow> ad_state (drv s' dr) = S_CMD)"
proof (cases "ad_state (drv s dr) = S_IDLE")
  case True
  let ?s1 = "upd_drv dr (\<lambda>d. d\<lparr>ad_state := S_CMD\<rparr>) s"
  from ret_quiet_start_cmd [of ?s1 dev dr p] obtain r s2 where
    s2: "atapi_start_cmd dev dr p ?s1 = Some (r, s2)" "cdbs s2 = cdbs s" "ac_drvp s2 = ac_drvp ?s1"
    by (auto simp: ret_def quiet_def)
  have "has_drv s2 dr \<and> drv s2 dr = drv ?s1 dr"
    using s2(3) assms(1) has_drv_upd(1) [of dr "\<lambda>d. d\<lparr>ad_state := S_CMD\<rparr>" s] by (simp add: has_drv_def drv_def)
  with s2 True assms show ?thesis
    by (auto simp: atapi_fsm_start_def split: fsm_rc.splits)
qed (use assms in \<open>simp add: atapi_fsm_start_def\<close>)

subsection \<open>Properties\<close>

text \<open>C25: a programmed data-in interrupt. The device is drained of exactly the words its byte count
  asks for, rounded up, whatever room the buffer has left; the buffer receives exactly the first
  \<open>x\<close> bytes of that stream, in order from \<open>ap_v_addr\<close> and nothing beyond, where \<open>x\<close> is the
  smaller of the two counts, odd counts included; address and residual count move by \<open>x\<close>.\<close>

theorem atapi_pio_data_in_correct:
  "\<exists>new ws x. x = min (unat (ap_resid (ac_pkt s p))) (device_byte_count dev (ac_log s)) \<and>
     ac_log (atapi_pio_data_in dev p s) = ac_log s @ new \<and> data_words new = ws \<and>
     length ws = (device_byte_count dev (ac_log s) + 1) div 2 \<and>
     mem_stores new = stores_at (ap_v_addr (ac_pkt s p)) (take x (le_bytes ws)) \<and>
     ap_v_addr (ac_pkt (atapi_pio_data_in dev p s) p) = ap_v_addr (ac_pkt s p) + of_nat x \<and>
     ap_resid (ac_pkt (atapi_pio_data_in dev p s) p) = ap_resid (ac_pkt s p) - of_nat x"
  using atapi_pio_data_in_spec [of dev p s] by blast

text \<open>C26: when a command completes. An interrupt step ends the command (\<open>ATA_FSM_RC_FINI\<close>) exactly
  when the drive is not busy, a command is in progress and the drive shows the status phase (event 6),
  or event 0, which some drives show for it, after the packet phase. Then the drive is
  idle again, the status is recorded as received, a status with DF or ERR
  is stored and flagged as an error, and the residual count becomes zero after a DMA transfer without transfer
  error. Otherwise the machine goes on.\<close>

theorem atapi_completion:
  assumes "has_drv s dr"
  shows "\<exists>rc s' st e v. atapi_fsm_intr dev dr p s = (rc, s') \<and> st = ad_state (drv s dr) \<and>
     e = intr_event dev dr p s \<and> v = intr_status dev dr p s \<and>
     (rc = ATA_FSM_RC_FINI) = (v AND ATS_BSY = 0 \<and> st \<noteq> S_IDLE \<and> (e = 6 \<or> e = 0 \<and> st \<noteq> S_CMD)) \<and>
     (rc = ATA_FSM_RC_FINI \<longrightarrow> ad_state (drv s' dr) = S_IDLE \<and> flag_set (ap_flags (ac_pkt s' p)) AP_GOT_STATUS \<and>
        (v AND (ATS_DF OR ATS_ERR) \<noteq> 0 \<longrightarrow>
           flag_set (ap_flags (ac_pkt s' p)) AP_ERROR \<and> ap_status (ac_pkt s' p) = v) \<and>
        (st = S_DMA \<and> \<not> flag_set (ap_flags (ac_pkt s' p)) AP_TRAN_ERROR \<longrightarrow> ap_resid (ac_pkt s' p) = 0)) \<and>
     (rc = ATA_FSM_RC_FINI \<or> rc = ATA_FSM_RC_OKAY \<or> rc = ATA_FSM_RC_BUSY)"
proof -
  let ?st = "ad_state (drv s dr)" and ?e = "intr_event dev dr p s" and ?v = "intr_status dev dr p s"
  let ?a = "atapi_action ?st ?e"
  let ?s2 = "set_drv_state dr (atapi_next_state ?st ?e) (snd (get8 dev AC_COUNT (snd (intr_before dev dr p s))))"
  have fin: "(fst (atapi_fsm_action dev dr p ?st ?v a s2) = ATA_FSM_RC_FINI) = (a = A_RE \<or> a = A_REX) \<and>
      fst (atapi_fsm_action dev dr p ?st ?v a s2) \<in> {ATA_FSM_RC_FINI, ATA_FSM_RC_OKAY}" for a s2
    by (cases a) (simp_all add: atapi_fsm_action_def Let_def)
  have stat: "\<exists>s3. snd (atapi_fsm_action dev dr p ?st ?v a s2) = atapi_status dev p ?v (?st = S_DMA) s3"
    if "a = A_RE \<or> a = A_REX" for a s2
    using that by (auto simp: atapi_fsm_action_def Let_def)
  show ?thesis
  proof (cases "intr_busy dev dr p s")
    case True
    then show ?thesis by (auto simp: atapi_fsm_intr_eq intr_busy_def)
  next
    case False
    let ?r = "atapi_fsm_action dev dr p ?st ?v ?a ?s2"
    have r: "atapi_fsm_intr dev dr p s = ?r" using False by (simp add: atapi_fsm_intr_eq)
    have done_iff: "(fst ?r = ATA_FSM_RC_FINI) = (?st \<noteq> S_IDLE \<and> (?e = 6 \<or> ?e = 0 \<and> ?st \<noteq> S_CMD))"
      using fin [of ?a ?s2] table_completes [OF intr_event_less, of ?st dev dr p s] by simp
    have eff: "ad_state (drv (snd ?r) dr) = S_IDLE \<and> (\<exists>s3. snd ?r = atapi_status dev p ?v (?st = S_DMA) s3)"
      if "fst ?r = ATA_FSM_RC_FINI"
      using that fin [of ?a ?s2] stat [of ?a ?s2] intr_step [OF assms, of dev p] False
        table_completes_idle [OF intr_event_less, of ?st dev dr p s] r by auto
    show ?thesis
      unfolding r using False done_iff fin [of ?a ?s2] eff status_effects [of dev p ?v "?st = S_DMA"]
      by (intro exI [of _ "fst ?r"] exI [of _ "snd ?r"]) (auto simp: intr_busy_def)
  qed
qed

text \<open>A controller with one packet drive, in a given protocol state.\<close>

definition id0 :: ata_id where
  "id0 = \<lparr>ai_config = 0, ai_fixcyls = 0, ai_heads = 0, ai_sectors = 0, ai_drvser = [], ai_fw = [], ai_model = [],
     ai_mult1 = 0, ai_cap = 0, ai_validinfo = 0, ai_curcyls = 0, ai_curheads = 0, ai_cursectrk = 0, ai_cursccp0 = 0,
     ai_cursccp1 = 0, ai_mult2 = 0, ai_addrsec0 = 0, ai_addrsec1 = 0, ai_dworddma = 0, ai_advpiomode = 0,
     ai_majorversion = 0, ai_cmdset83 = 0, ai_features85 = 0, ai_features86 = 0, ai_ultradma = 0,
     ai_addrsecxt = [0, 0, 0, 0]\<rparr>"

definition drv0 :: ata_drv where
  "drv0 = \<lparr>ad_id = id0, ad_flags = AD_ATAPI, ad_pciide_dma = False, ad_targ = 0, ad_lun = 0, ad_drive_bits = 0xa0,
     ad_state = S_IDLE, ad_cdb_len = 12, ad_bogus_drq = False, ad_nec_bad_status = False, ad_rd_cmd = 0, ad_wr_cmd = 0,
     ad_acyl = 0, ad_drvrcyl = 0, ad_drvrhd = 0, ad_drvrsec = 0, ad_phhd = 0, ad_phsec = 0, ad_block_factor = 1,
     ad_bytes_per_block = 512, ad_capacity = 0\<rparr>"

definition ctl_atapi :: "atapi_state \<Rightarrow> ata_ctl" where
  "ctl_atapi st = ctl0\<lparr>ac_drvp := (\<lambda>t l. if t = 0 \<and> l = 0 then Some (drv0\<lparr>ad_state := st\<rparr>) else None), ac_pciide := False\<rparr>"

text \<open>A device whose registers always read \<open>v\<close>, the interrupt reason \<open>ir\<close> apart.\<close>

definition const_dev :: "u8 \<Rightarrow> u8 \<Rightarrow> device" where
  "const_dev v ir = \<lparr>dev8 = \<lambda>l r. if r = AC_COUNT then ir else v, dev16 = \<lambda>l n. 0\<rparr>"

lemma const_dev_intr:
  "has_drv (ctl_atapi st) (0, 0)" "drv (ctl_atapi st) (0, 0) = drv0\<lparr>ad_state := st\<rparr>"
  "st \<noteq> S_DMA \<Longrightarrow> intr_status (const_dev v ir) (0, 0) ArqPkt (ctl_atapi st) = v"
  "st \<noteq> S_DMA \<Longrightarrow> intr_event (const_dev v ir) (0, 0) ArqPkt (ctl_atapi st) = ATAPI_EVENT v ir"
  by (simp_all add: ctl_atapi_def has_drv_def drv_def drv0_def intr_status_def intr_event_def intr_before_def
      ata_get_status_clear_intr_def get8_pair ctl0_def pkt0_def const_dev_def)

theorem atapi_completion_witness:
  "\<exists>s'. atapi_fsm_intr (const_dev 0x51 3) (0, 0) ArqPkt (ctl_atapi S_CDB) = (ATA_FSM_RC_FINI, s') \<and>
     ad_state (drv s' (0, 0)) = S_IDLE \<and> ap_status (ac_pkt s' ArqPkt) = 0x51"
proof -
  have e: "ATAPI_EVENT 0x51 3 = 6" by (simp add: ATAPI_EVENT_bits)
  have n: "(0x51 :: u8) AND ATS_BSY = 0" "(0x51 :: u8) AND (ATS_DF OR ATS_ERR) \<noteq> 0" by (simp_all add: ata_bits)
  show ?thesis
    using atapi_completion [of "ctl_atapi S_CDB" "(0, 0)" "const_dev 0x51 3" ArqPkt] e n
    by (auto simp: const_dev_intr drv0_def)
qed

text \<open>C27: the command packet is sent at most once for each command started, whatever interrupts the
  drive raises. If the first interrupt with BSY clear shows any other phase than the packet
  phase, the packet is never sent at all: the machine leaves \<open>S_CMD\<close> for good and ignores a later
  packet phase, so the command can only end by its timeout.\<close>

theorem atapi_cdb_once:
  assumes "has_drv s dr" and "atapi_fsm_start dev dr p s = Some (rc, s')"
  shows "cdbs (atapi_intrs dev dr p n s') \<le> Suc (cdbs s) \<and>
     (0 < n \<and> rc \<noteq> ATA_FSM_RC_BUSY \<and> \<not> intr_busy dev dr p s' \<and> intr_event dev dr p s' \<noteq> 3 \<longrightarrow>
        cdbs (atapi_intrs dev dr p n s') = cdbs s)"
proof -
  note st = fsm_start_state [OF assms]
  have once: "cdbs (atapi_intrs dev dr p n s') \<le> Suc (cdbs s)"
    using intrs_once [of s' dr dev p n] st by simp
  have lost: "cdbs (atapi_intrs dev dr p n s') = cdbs s"
    if n: "0 < n" and rc: "rc \<noteq> ATA_FSM_RC_BUSY" and ev: "\<not> intr_busy dev dr p s'" "intr_event dev dr p s' \<noteq> 3"
  proof -
    obtain m where m: "n = Suc m" using n by (cases n) simp_all
    let ?s1 = "snd (atapi_fsm_intr dev dr p s')"
    have run: "atapi_intrs dev dr p n s' = atapi_intrs dev dr p m ?s1"
      using funpow_swap1 [of "\<lambda>s. snd (atapi_fsm_intr dev dr p s)" m s'] by (simp add: atapi_intrs_def m)
    have "has_drv ?s1 dr \<and> cdbs ?s1 = cdbs s \<and> ad_state (drv ?s1 dr) \<noteq> S_CMD"
      using intr_step [of s' dr dev p] st ev table_cdb [OF intr_event_less, of "ad_state (drv s' dr)" dev dr p s']
        table_leaves_cmd [OF intr_event_less, of "ad_state (drv s' dr)" dev dr p s'] by auto
    then show ?thesis using intrs_past_cmd [of ?s1 dr dev p m] run by simp
  qed
  from once lost show ?thesis by blast
qed

text \<open>A drive that answers the start with an idle phase loses the command packet.\<close>

theorem atapi_cdb_once_witness:
  "\<exists>s'. atapi_fsm_start (const_dev 0x50 1) (0, 0) ArqPkt (ctl_atapi S_IDLE) = Some (ATA_FSM_RC_OKAY, s') \<and>
     cdbs (atapi_intrs (const_dev 0x50 1) (0, 0) ArqPkt 1000 s') \<le> 1"
proof -
  let ?d = "const_dev 0x50 1"
  have w: "wait ?d 0 ATS_BSY 5000000 s = Some (True, log_event (Get8 AC_ALTSTATUS 0x50) s)" for s
    by (simp add: wait_def sol11ata_wait.simps ddi_get8_def const_dev_def has_bits_def no_bits_def ata_bits log_event_def)
  have "\<exists>s'. atapi_fsm_start ?d (0, 0) ArqPkt (ctl_atapi S_IDLE) = Some (ATA_FSM_RC_OKAY, s')"
    by (simp add: atapi_fsm_start_def const_dev_intr(2) drv0_def atapi_start_cmd_def w Let_def)
      (simp add: flag_set_def upd_drv_def drv_def ctl_atapi_def ctl0_def put8_def delay400_def log_event_def pkt0_def
        drv0_def AD_NO_CDB_INTR_def AD_ATAPI_def)
  then obtain s' where s': "atapi_fsm_start ?d (0, 0) ArqPkt (ctl_atapi S_IDLE) = Some (ATA_FSM_RC_OKAY, s')" ..
  have "cdbs (ctl_atapi S_IDLE) = 0" by (simp add: cdbs_def ctl_atapi_def ctl0_def)
  with atapi_cdb_once [OF const_dev_intr(1) s', of 1000] s' show ?thesis by auto
qed

end
