(* ===== verification/Ata_Disk.thy ===== *)
theory Ata_Disk
  imports Ata_Dma "HOL-Library.Signed_Division"
begin

text \<open>
  The disk side of the ATA driver, its I/O path (\<open>ata_disk.c\<close>): loading the task file in the three
  addressing modes, starting non-data, PIO and DMA commands, their interrupt callbacks, the PIO
  transfers, the residual count of a failed DMA transfer, the completion callback and the
  removable media commands. \<open>None\<close> is a division trap (cylinder addressing with a geometry
  whose heads or sectors are zero in a byte).

  The properties: the block address survives the registers in each mode; a PIO
  read or write moves the whole buffer, in order; what the residual count is; how errors are classified.
\<close>

subsection \<open>Loading the task file\<close>

definition ata_disk_load_regs_lba28 :: "drv_ref \<Rightarrow> pkt_ref \<Rightarrow> ata_ctl \<Rightarrow> ata_ctl" where
  "ata_disk_load_regs_lba28 dr p s =
    (let lba = ucast (ap_startsec (ac_pkt s p)) :: u32;
         s = put8 AC_COUNT (ucast (ap_count (ac_pkt s p))) s;
         s = put8 AC_SECT (ucast lba) s;
         lba = drop_bit 8 lba;
         s = put8 AC_LCYL (ucast lba) s;
         lba = drop_bit 8 lba;
         s = put8 AC_HCYL (ucast lba) s;
         lba = drop_bit 8 lba;
         lba = (lba AND 0xf) OR ucast (ad_drive_bits (drv s dr))
     in put8 AC_DRVHD (ucast lba) s)"

definition ata_disk_load_regs_lba48 :: "drv_ref \<Rightarrow> pkt_ref \<Rightarrow> ata_ctl \<Rightarrow> ata_ctl" where
  "ata_disk_load_regs_lba48 dr p s =
    (let seccnt = ap_count (ac_pkt s p);
         lbalow = ucast (ap_startsec (ac_pkt s p)) :: u32;
         lbahi = ucast (signed_drop_bit 24 (ap_startsec (ac_pkt s p))) :: u32;
         s = put8 AC_COUNT (ucast (drop_bit 8 seccnt)) s;
         s = put8 AC_COUNT (ucast seccnt) s;
         s = put8 AC_SECT (ucast lbahi) s;
         lbahi = drop_bit 8 lbahi;
         s = put8 AC_LCYL (ucast lbahi) s;
         lbahi = drop_bit 8 lbahi;
         s = put8 AC_HCYL (ucast lbahi) s;
         s = put8 AC_SECT (ucast lbalow) s;
         lbalow = drop_bit 8 lbalow;
         s = put8 AC_LCYL (ucast lbalow) s;
         lbalow = drop_bit 8 lbalow;
         s = put8 AC_HCYL (ucast lbalow) s
     in put8 AC_DRVHD (ad_drive_bits (drv s dr)) s)"

text \<open>The sector number is a signed quantity; C division truncates.\<close>

definition ata_disk_load_regs_chs :: "drv_ref \<Rightarrow> pkt_ref \<Rightarrow> ata_ctl \<Rightarrow> ata_ctl option" where
  "ata_disk_load_regs_chs dr p s =
    (let drvheads = ucast (ad_phhd (drv s dr)) :: u8;
         drvsectors = ucast (ad_phsec (drv s dr)) :: u8;
         start = sint (ap_startsec (ac_pkt s p))
     in if drvsectors = 0 then None
        else (let resid = of_int (start sdiv uint drvsectors) :: u32
              in if drvheads = 0 then None
                 else (let head = ucast ((resid mod ucast drvheads) AND 0xf) :: u8;
                           cyl = resid div ucast drvheads;
                           s = put8 AC_SECT (of_int (start smod uint drvsectors + 1)) s;
                           s = put8 AC_COUNT (ucast (ap_count (ac_pkt s p))) s;
                           s = put8 AC_HCYL (ucast (drop_bit 8 cyl)) s;
                           s = put8 AC_LCYL (ucast cyl) s
                       in Some (put8 AC_DRVHD (ad_drive_bits (drv s dr) OR head) s))))"

subsection \<open>Start callbacks\<close>

definition ata_disk_start_common :: "device \<Rightarrow> drv_ref \<Rightarrow> pkt_ref \<Rightarrow> ata_ctl \<Rightarrow> (bool \<times> ata_ctl) option" where
  "ata_disk_start_common dev dr p s = do {
     (ok, s) \<leftarrow> (if flag_set (ac_timing_flags s) AC_BSY_WAIT then wait dev 0 ATS_BSY 5000000 s else Some (True, s));
     if \<not> ok then Some (False, s)
     else do {
       let s = put8 AC_DRVHD (ad_drive_bits (drv s dr)) s;
       let s = delay400 dev s;
       (ok, s) \<leftarrow> wait dev ATS_DRDY ATS_BSY (5 * 1000000) s;
       if \<not> ok then Some (False, s)
       else do {
         s \<leftarrow> (if ad_drive_bits (drv s dr) AND ATDH_LBA = 0 then ata_disk_load_regs_chs dr p s
               else if flag_set (ad_flags (drv s dr)) AD_EXT48 then Some (ata_disk_load_regs_lba48 dr p s)
               else Some (ata_disk_load_regs_lba28 dr p s));
         let s = put8 AC_FEATURE 0 s;
         let s = put8 AC_DEVCTL ATDC_D3 s;
         Some (True, s)
       }
     }
   }"

definition ata_disk_start :: "device \<Rightarrow> drv_ref \<Rightarrow> pkt_ref \<Rightarrow> ata_ctl \<Rightarrow> (fsm_rc \<times> ata_ctl) option" where
  "ata_disk_start dev dr p s = do {
     (rc, s) \<leftarrow> ata_disk_start_common dev dr p s;
     if \<not> rc then Some (ATA_FSM_RC_BUSY, s)
     else do {
       let s = put8 AC_CMD (ap_cmd (ac_pkt s p)) s;
       let s = delay400 dev s;
       Some (ATA_FSM_RC_OKAY, s)
     }
   }"

text \<open>The two DMA starts differ in the direction given to the engine.\<close>

definition disk_start_dma :: "u8 \<Rightarrow> device \<Rightarrow> drv_ref \<Rightarrow> pkt_ref \<Rightarrow> ata_ctl \<Rightarrow> (fsm_rc \<times> ata_ctl) option" where
  "disk_start_dma direction dev dr p s = do {
     (rc, s) \<leftarrow> ata_disk_start_common dev dr p s;
     if \<not> rc then Some (ATA_FSM_RC_BUSY, s)
     else do {
       let s = ata_pciide_dma_setup p s;
       let s = snd (ata_pciide_status_clear dev s);
       let s = put8 AC_CMD (ap_cmd (ac_pkt s p)) s;
       let s = delay400 dev s;
       let s = ata_pciide_dma_start dev direction s;
       Some (ATA_FSM_RC_OKAY, s)
     }
   }"

definition ata_disk_start_dma_in :: "device \<Rightarrow> drv_ref \<Rightarrow> pkt_ref \<Rightarrow> ata_ctl \<Rightarrow> (fsm_rc \<times> ata_ctl) option" where
  "ata_disk_start_dma_in = disk_start_dma PCIIDE_BMICX_RWCON_WRITE_TO_MEMORY"

definition ata_disk_start_dma_out :: "device \<Rightarrow> drv_ref \<Rightarrow> pkt_ref \<Rightarrow> ata_ctl \<Rightarrow> (fsm_rc \<times> ata_ctl) option" where
  "ata_disk_start_dma_out = disk_start_dma PCIIDE_BMICX_RWCON_READ_FROM_MEMORY"

definition ata_disk_start_pio_in :: "device \<Rightarrow> drv_ref \<Rightarrow> pkt_ref \<Rightarrow> ata_ctl \<Rightarrow> (fsm_rc \<times> ata_ctl) option" where
  "ata_disk_start_pio_in dev dr p s = do {
     (rc, s) \<leftarrow> ata_disk_start_common dev dr p s;
     if \<not> rc then Some (ATA_FSM_RC_BUSY, s)
     else do {
       let s = put8 AC_CMD (ap_cmd (ac_pkt s p)) s;
       let s = delay400 dev s;
       Some (ATA_FSM_RC_OKAY, s)
     }
   }"

definition ata_disk_start_pio_out :: "device \<Rightarrow> drv_ref \<Rightarrow> pkt_ref \<Rightarrow> ata_ctl \<Rightarrow> (fsm_rc \<times> ata_ctl) option" where
  "ata_disk_start_pio_out dev dr p s = do {
     let s = upd_pkt p (\<lambda>k. k\<lparr>ap_wrt_count := 0\<rparr>) s;
     (rc, s) \<leftarrow> ata_disk_start_common dev dr p s;
     if \<not> rc then Some (ATA_FSM_RC_BUSY, s)
     else do {
       let s = put8 AC_CMD (ap_cmd (ac_pkt s p)) s;
       let s = delay400 dev s;
       (ok, s) \<leftarrow> wait3 dev ATS_DRQ ATS_BSY ATS_ERR ATS_BSY ATS_DF ATS_BSY 4000000 s;
       if \<not> ok then Some (ATA_FSM_RC_INTR, set_pkt_flags p AP_ERROR s)
       else Some (ATA_FSM_RC_INTR, s)
     }
   }"

subsection \<open>Completion callback\<close>

definition ATE_BBK_ICRC :: u8 where "ATE_BBK_ICRC = 0x80"
definition ATE_UNC :: u8 where "ATE_UNC = 0x40"
definition ATE_IDNF :: u8 where "ATE_IDNF = 0x10"
definition ATE_TKONF :: u8 where "ATE_TKONF = 0x02"
definition ATE_NM :: u8 where "ATE_NM = 0x02"
definition ATE_AMNF :: u8 where "ATE_AMNF = 0x01"

definition IS_ATA_VERSION_SUPPORTED :: "ata_id \<Rightarrow> nat \<Rightarrow> bool" where
  "IS_ATA_VERSION_SUPPORTED idp n \<longleftrightarrow>
     ai_majorversion idp \<noteq> 0xffff \<and> ai_majorversion idp AND push_bit n 1 \<noteq> 0"

definition IS_ATA_VERSION_GE :: "ata_id \<Rightarrow> nat \<Rightarrow> bool" where
  "IS_ATA_VERSION_GE idp n \<longleftrightarrow>
     ai_majorversion idp \<noteq> 0xffff \<and> ai_majorversion idp \<noteq> 0 \<and> uint (ai_majorversion idp) \<ge> push_bit n 1"

text \<open>The new packet and DADA packet; whether the target driver is called back is \<open>do_callback\<close>.\<close>

definition ata_disk_complete :: "ata_drv \<Rightarrow> ata_pkt \<Rightarrow> cmpkt \<Rightarrow> ata_pkt \<times> cmpkt" where
  "ata_disk_complete d k c =
    (let c = c\<lparr>cp_resid := ap_resid k\<rparr>
     in if flag_set (ap_flags k) AP_ERROR
        then (k\<lparr>ap_scb :=
                (if ap_error k AND ATE_BBK_ICRC \<noteq> 0
                 then (if IS_ATA_VERSION_GE (ad_id d) 4 then DERR_ICRC else DERR_BBK)
                 else if ap_error k AND ATE_UNC \<noteq> 0 then DERR_UNC
                 else if ap_error k AND ATE_IDNF \<noteq> 0 then DERR_IDNF
                 else if ap_error k AND ATE_TKONF \<noteq> 0 then DERR_TKONF
                 else if ap_error k AND ATE_AMNF \<noteq> 0 then DERR_AMNF
                 else if ap_status k AND ATS_BSY \<noteq> 0 then DERR_BUSY
                 else if ap_status k AND ATS_DF \<noteq> 0 then DERR_DWF
                 else DERR_ABORT)\<rparr>, c\<lparr>cp_reason := CPS_CHKERR\<rparr>)
        else if flag_set (ap_flags k) (AP_ABORT OR AP_TIMEOUT OR AP_BUS_RESET)
        then (k\<lparr>ap_scb := DERR_ABORT\<rparr>, c\<lparr>cp_reason := CPS_CHKERR\<rparr>)
        else (k\<lparr>ap_scb := DERR_SUCCESS\<rparr>, c\<lparr>cp_reason := CPS_SUCCESS\<rparr>))"

subsection \<open>PIO transfers\<close>

text \<open>The count is an \<open>int\<close>.\<close>

definition pio_count :: "ata_pkt \<Rightarrow> int" where
  "pio_count k = sint (ucast (min (ap_resid k) (ucast (ap_bytes_per_block k))) :: 32 word)"

definition ata_disk_pio_xfer_data_in :: "device \<Rightarrow> pkt_ref \<Rightarrow> ata_ctl \<Rightarrow> ata_ctl" where
  "ata_disk_pio_xfer_data_in dev p s =
    (let count = pio_count (ac_pkt s p);
         l = snd (ddi_rep_get16 dev (ap_v_addr (ac_pkt s p)) (unat (of_int (count div 2) :: u64)) (ac_log s));
         s = s\<lparr>ac_log := l\<rparr>;
         s = delay400 dev s
     in upd_pkt p (\<lambda>k. k\<lparr>ap_v_addr := ap_v_addr k + of_int count, ap_resid := ap_resid k - of_int count\<rparr>) s)"

definition ata_disk_pio_xfer_data_out :: "device \<Rightarrow> pkt_ref \<Rightarrow> ata_ctl \<Rightarrow> ata_ctl" where
  "ata_disk_pio_xfer_data_out dev p s =
    (let count = pio_count (ac_pkt s p);
         s = log_event (RepPut16 (ap_v_addr (ac_pkt s p)) (unat (of_int (count div 2) :: u64))) s;
         s = delay400 dev s
     in upd_pkt p (\<lambda>k. k\<lparr>ap_wrt_count := of_int count\<rparr>) s)"

subsection \<open>Residual count\<close>

definition ata_last_block_xferred_chs :: "device \<Rightarrow> drv_ref \<Rightarrow> ata_ctl \<Rightarrow> u64 \<times> ata_ctl" where
  "ata_last_block_xferred_chs dev dr s =
    (let drvheads = ucast (ad_phhd (drv s dr)) :: u8;
         drvsectors = ucast (ad_phsec (drv s dr)) :: u8;
         (sector, s) = get8 dev AC_SECT s;
         (head, s) = get8 dev AC_DRVHD s;
         head = head AND 0xf;
         (low_cyl, s) = get8 dev AC_LCYL s;
         (hi_cyl, s) = get8 dev AC_HCYL s;
         lbastop = ucast low_cyl :: u64;
         lbastop = lbastop OR ucast (push_bit 8 (ucast hi_cyl :: u32));
         lbastop = lbastop * ucast drvheads;
         lbastop = lbastop + ucast head;
         lbastop = lbastop * ucast drvsectors;
         lbastop = lbastop + ucast ((ucast sector :: u32) - 1)
     in (lbastop, s))"

definition ata_last_block_xferred_lba28 :: "device \<Rightarrow> ata_ctl \<Rightarrow> u64 \<times> ata_ctl" where
  "ata_last_block_xferred_lba28 dev s =
    (let (v, s) = get8 dev AC_DRVHD s;
         lbastop = ucast (v AND 0xf) :: u64;
         lbastop = push_bit 8 lbastop;
         (v, s) = get8 dev AC_HCYL s;
         lbastop = lbastop + ucast v;
         lbastop = push_bit 8 lbastop;
         (v, s) = get8 dev AC_LCYL s;
         lbastop = lbastop + ucast v;
         lbastop = push_bit 8 lbastop;
         (v, s) = get8 dev AC_SECT s
     in (lbastop + ucast v, s))"

definition ata_last_block_xferred_lba48 :: "device \<Rightarrow> ata_ctl \<Rightarrow> u64 \<times> ata_ctl" where
  "ata_last_block_xferred_lba48 dev s =
    (let s = put8 AC_DEVCTL (ATDC_D3 OR ATDC_HOB) s;
         (v, s) = get8 dev AC_HCYL s;
         lbastop = ucast v :: u64;
         lbastop = push_bit 8 lbastop;
         (v, s) = get8 dev AC_LCYL s;
         lbastop = lbastop + ucast v;
         lbastop = push_bit 8 lbastop;
         (v, s) = get8 dev AC_SECT s;
         lbastop = lbastop + ucast v;
         lbastop = push_bit 8 lbastop;
         s = put8 AC_DEVCTL ATDC_D3 s;
         (v, s) = get8 dev AC_HCYL s;
         lbastop = lbastop + ucast v;
         lbastop = push_bit 8 lbastop;
         (v, s) = get8 dev AC_LCYL s;
         lbastop = lbastop + ucast v;
         lbastop = push_bit 8 lbastop;
         (v, s) = get8 dev AC_SECT s
     in (lbastop + ucast v, s))"

definition SCTRSHFT :: nat where "SCTRSHFT = 9"

definition ata_disk_get_resid :: "device \<Rightarrow> drv_ref \<Rightarrow> pkt_ref \<Rightarrow> ata_ctl \<Rightarrow> ata_ctl" where
  "ata_disk_get_resid dev dr p s =
    (let lba_start = ucast (ap_startsec (ac_pkt s p)) :: u32;
         (last', s) = (if flag_set (ad_flags (drv s dr)) AD_EXT48 then ata_last_block_xferred_lba48 dev s
                       else if ad_drive_bits (drv s dr) AND ATDH_LBA \<noteq> 0 then ata_last_block_xferred_lba28 dev s
                       else ata_last_block_xferred_chs dev dr s);
         lba_stop = ucast last' :: u32;
         resid_sectors = lba_start + ucast (ap_count (ac_pkt s p)) - lba_stop;
         resid_bytes = push_bit SCTRSHFT resid_sectors
     in upd_pkt p (\<lambda>k. k\<lparr>ap_resid := ucast resid_bytes\<rparr>) s)"

subsection \<open>Interrupt callbacks\<close>

text \<open>The lines that record an error in the packet, the same in every callback.\<close>

definition disk_error :: "device \<Rightarrow> pkt_ref \<Rightarrow> ata_ctl \<Rightarrow> ata_ctl" where
  "disk_error dev p s =
    (let s = set_pkt_flags p AP_ERROR s;
         (st, s) = get8 dev AC_ALTSTATUS s;
         s = upd_pkt p (\<lambda>k. k\<lparr>ap_status := st\<rparr>) s;
         (err, s) = get8 dev AC_ERROR s
     in upd_pkt p (\<lambda>k. k\<lparr>ap_error := err\<rparr>) s)"

definition ata_disk_intr :: "device \<Rightarrow> drv_ref \<Rightarrow> pkt_ref \<Rightarrow> ata_ctl \<Rightarrow> (fsm_rc \<times> ata_ctl) option" where
  "ata_disk_intr dev dr p s =
    (let (status, s) = ata_get_status_clear_intr dev p s;
         s = (if status AND (ATS_DF OR ATS_ERR) \<noteq> 0 then set_pkt_flags p AP_ERROR s else s);
         s = (if flag_set (ap_flags (ac_pkt s p)) AP_ERROR
              then (let (st, s) = get8 dev AC_ALTSTATUS s;
                        s = upd_pkt p (\<lambda>k. k\<lparr>ap_status := st\<rparr>) s;
                        (err, s) = get8 dev AC_ERROR s
                    in upd_pkt p (\<lambda>k. k\<lparr>ap_error := err\<rparr>) s)
              else s)
     in Some (ATA_FSM_RC_FINI, s))"

definition ata_disk_intr_pio_in :: "device \<Rightarrow> drv_ref \<Rightarrow> pkt_ref \<Rightarrow> ata_ctl \<Rightarrow> (fsm_rc \<times> ata_ctl) option" where
  "ata_disk_intr_pio_in dev dr p s = do {
     (_, s) \<leftarrow> wait3 dev ATS_DRQ ATS_BSY ATS_ERR ATS_BSY ATS_DF ATS_BSY 4000000 s;
     let (status, s) = ata_get_status_clear_intr dev p s;
     if status AND ATS_BSY \<noteq> 0 then Some (ATA_FSM_RC_BUSY, disk_error dev p s)
     else do {
       let s = (if status AND (ATS_DRQ OR ATS_DF OR ATS_ERR) \<noteq> ATS_DRQ then disk_error dev p s else s);
       let s = (if status AND ATS_DRQ \<noteq> 0 then ata_disk_pio_xfer_data_in dev p s else s);
       (fini, s) \<leftarrow>
         (if ap_resid (ac_pkt s p) = 0
          then do {
            (ok, s) \<leftarrow> wait dev 0 (ATS_DRQ OR ATS_BSY) 4000000 s;
            if ok then Some (True, s) else Some (False, disk_error dev p s)
          }
          else Some (False, s));
       if fini then Some (ATA_FSM_RC_FINI, s)
       else if flag_set (ap_flags (ac_pkt s p)) AP_ERROR then Some (ATA_FSM_RC_FINI, s)
       else Some (ATA_FSM_RC_OKAY, s)
     }
   }"

definition ata_disk_intr_pio_out :: "device \<Rightarrow> drv_ref \<Rightarrow> pkt_ref \<Rightarrow> ata_ctl \<Rightarrow> (fsm_rc \<times> ata_ctl) option" where
  "ata_disk_intr_pio_out dev dr p s = do {
     let tmp_count = sint (ap_wrt_count (ac_pkt s p));
     let (status, s) = ata_get_status_clear_intr dev p s;
     if status AND (ATS_DF OR ATS_ERR) \<noteq> 0 then Some (ATA_FSM_RC_FINI, disk_error dev p s)
     else do {
       let s = upd_pkt p (\<lambda>k. k\<lparr>ap_v_addr := ap_v_addr k + of_int tmp_count,
                                ap_resid := ap_resid k - of_int tmp_count\<rparr>) s;
       if ap_resid (ac_pkt s p) \<le> 0 then Some (ATA_FSM_RC_FINI, s)
       else do {
         (_, s) \<leftarrow> wait3 dev ATS_DRQ ATS_BSY ATS_ERR ATS_BSY ATS_DF ATS_BSY 4000000 s;
         let (status, s) = get8 dev AC_ALTSTATUS s;
         if status AND ATS_BSY \<noteq> 0 then Some (ATA_FSM_RC_BUSY, disk_error dev p s)
         else if status AND (ATS_DRQ OR ATS_DF OR ATS_ERR) \<noteq> ATS_DRQ
         then Some (ATA_FSM_RC_FINI, disk_error dev p s)
         else Some (ATA_FSM_RC_OKAY, ata_disk_pio_xfer_data_out dev p s)
       }
     }
   }"

definition ata_disk_intr_dma :: "device \<Rightarrow> drv_ref \<Rightarrow> pkt_ref \<Rightarrow> ata_ctl \<Rightarrow> (fsm_rc \<times> ata_ctl) option" where
  "ata_disk_intr_dma dev dr p s = do {
     let s = ata_pciide_dma_stop dev s;
     (ok, s) \<leftarrow> wait dev 0 (ATS_DRQ OR ATS_BSY) 4000000 s;
     if \<not> ok then Some (ATA_FSM_RC_BUSY, disk_error dev p s)
     else do {
       let (status, s) = ata_get_status_clear_intr dev p s;
       let s = (if status AND (ATS_DF OR ATS_ERR) \<noteq> 0 then disk_error dev p s else s);
       let s = (if flag_set (ap_flags (ac_pkt s p)) AP_ERROR then ata_disk_get_resid dev dr p s
                else upd_pkt p (\<lambda>k. k\<lparr>ap_resid := 0\<rparr>) s);
       Some (ATA_FSM_RC_FINI, s)
     }
   }"

subsection \<open>Removable media commands\<close>

definition ATC_DOOR_LOCK :: u8 where "ATC_DOOR_LOCK = 0xde"
definition ATC_DOOR_UNLOCK :: u8 where "ATC_DOOR_UNLOCK = 0xdf"
definition ATC_EJECT :: u8 where "ATC_EJECT = 0xed"
definition ATC_STANDBY_IM :: u8 where "ATC_STANDBY_IM = 0xe0"
definition ATC_RECAL :: u8 where "ATC_RECAL = 0x10"

definition ctl_command :: "device \<Rightarrow> drv_ref \<Rightarrow> bool \<Rightarrow> u32 \<Rightarrow> u8 \<Rightarrow> u8 \<Rightarrow> u8 \<Rightarrow> u8 \<Rightarrow> u8 \<Rightarrow> u8 \<Rightarrow> u8 \<Rightarrow> ata_ctl \<Rightarrow>
    (bool \<times> ata_ctl) option" where
  "ctl_command dev dr drdy t cmd feature count sector head cyl_low cyl_hi s =
     map_option (\<lambda>(b, l). (b, s\<lparr>ac_log := l\<rparr>))
       (ata_command dev (ad_drive_bits (drv s dr)) drdy t cmd feature count sector head cyl_low cyl_hi (ac_log s))"

definition ata_disk_state :: "device \<Rightarrow> drv_ref \<Rightarrow> pkt_ref \<Rightarrow> ata_ctl \<Rightarrow> (fsm_rc \<times> ata_ctl) option" where
  "ata_disk_state dev dr p s = do {
     let statep = ap_v_addr (ac_pkt s p);
     (ok, s) \<leftarrow> ctl_command dev dr True (5 * 1000000) ATC_DOOR_LOCK 0 0 0 0 0 0 s;
     if ok then Some (ATA_FSM_RC_FINI, log_event (StoreState statep DKIO_INSERTED) s)
     else do {
       let (err, s) = get8 dev AC_ERROR s;
       Some (ATA_FSM_RC_FINI,
         log_event (StoreState statep (if err AND ATE_NM \<noteq> 0 then DKIO_EJECTED else DKIO_NONE)) s)
     }
   }"

definition ata_disk_eject :: "device \<Rightarrow> drv_ref \<Rightarrow> pkt_ref \<Rightarrow> ata_ctl \<Rightarrow> (fsm_rc \<times> ata_ctl) option" where
  "ata_disk_eject dev dr p s = do {
     (ok, s) \<leftarrow> ctl_command dev dr True (5 * 1000000) ATC_EJECT 0 0 0 0 0 0 s;
     if ok then Some (ATA_FSM_RC_FINI, s) else Some (ATA_FSM_RC_FINI, set_pkt_flags p AP_ERROR s)
   }"

definition ata_disk_lock :: "device \<Rightarrow> drv_ref \<Rightarrow> pkt_ref \<Rightarrow> ata_ctl \<Rightarrow> (fsm_rc \<times> ata_ctl) option" where
  "ata_disk_lock dev dr p s = do {
     (ok, s) \<leftarrow> ctl_command dev dr True (5 * 1000000) ATC_DOOR_LOCK 0 0 0 0 0 0 s;
     if ok then Some (ATA_FSM_RC_FINI, s) else Some (ATA_FSM_RC_FINI, set_pkt_flags p AP_ERROR s)
   }"

definition ata_disk_unlock :: "device \<Rightarrow> drv_ref \<Rightarrow> pkt_ref \<Rightarrow> ata_ctl \<Rightarrow> (fsm_rc \<times> ata_ctl) option" where
  "ata_disk_unlock dev dr p s = do {
     (ok, s) \<leftarrow> ctl_command dev dr True (5 * 1000000) ATC_DOOR_UNLOCK 0 0 0 0 0 0 s;
     if ok then Some (ATA_FSM_RC_FINI, s) else Some (ATA_FSM_RC_FINI, set_pkt_flags p AP_ERROR s)
   }"

definition ata_disk_standby :: "device \<Rightarrow> drv_ref \<Rightarrow> pkt_ref \<Rightarrow> ata_ctl \<Rightarrow> (fsm_rc \<times> ata_ctl) option" where
  "ata_disk_standby dev dr p s = do {
     (ok, s) \<leftarrow> ctl_command dev dr True (5 * 1000000) ATC_STANDBY_IM 0 0 0 0 0 0 s;
     if ok then Some (ATA_FSM_RC_FINI, s) else Some (ATA_FSM_RC_FINI, set_pkt_flags p AP_ERROR s)
   }"

definition ata_disk_recalibrate :: "device \<Rightarrow> drv_ref \<Rightarrow> pkt_ref \<Rightarrow> ata_ctl \<Rightarrow> (fsm_rc \<times> ata_ctl) option" where
  "ata_disk_recalibrate dev dr p s = do {
     (ok, s) \<leftarrow> ctl_command dev dr True (31 * 1000000) ATC_RECAL 0 0 0 0 0 0 s;
     if ok then Some (ATA_FSM_RC_FINI, s) else Some (ATA_FSM_RC_FINI, set_pkt_flags p AP_ERROR s)
   }"


subsection \<open>What the callbacks change\<close>

text \<open>Cylinder addressing does not trap.\<close>

definition chs_ok :: "ata_drv \<Rightarrow> bool" where
  "chs_ok d \<longleftrightarrow> ad_drive_bits d AND ATDH_LBA \<noteq> 0 \<or> (ucast (ad_phhd d) :: u8) \<noteq> 0 \<and> (ucast (ad_phsec d) :: u8) \<noteq> 0"

lemma dev_frame_drv_fixed: "dev_frame p s s' \<Longrightarrow> drv_fixed (drv s dr) (drv s' dr)"
proof (cases "ac_drvp s (fst dr) (snd dr)")
  case None
  moreover assume "dev_frame p s s'"
  ultimately have "ac_drvp s' (fst dr) (snd dr) = None" by (simp add: dev_frame_def)
  with None show ?thesis by (simp add: drv_def)
next
  case (Some d)
  moreover assume "dev_frame p s s'"
  ultimately show ?thesis by (auto simp: drv_def dest: dev_frame_drv)
qed

lemma chs_ok_frame: "dev_frame p s s' \<Longrightarrow> chs_ok (drv s' dr) = chs_ok (drv s dr)"
  using dev_frame_drv_fixed [of p s s' dr] by (simp add: chs_ok_def drv_fixed_def)

lemma dev_frame_load_regs [frame_intros]:
  assumes "dev_frame p s0 s"
  shows "dev_frame p s0 (ata_disk_load_regs_lba28 dr p s)" "dev_frame p s0 (ata_disk_load_regs_lba48 dr p s)"
  using assms unfolding ata_disk_load_regs_lba28_def ata_disk_load_regs_lba48_def Let_def
  by (intro frame_intros; assumption)+

lemma load_regs_chs_returns:
  assumes "chs_ok (drv s dr)" "ad_drive_bits (drv s dr) AND ATDH_LBA = 0" "dev_frame p s0 s"
  shows "\<exists>s'. ata_disk_load_regs_chs dr p s = Some s' \<and> dev_frame p s0 s'"
  using assms unfolding chs_ok_def ata_disk_load_regs_chs_def Let_def
  by (simp del: of_int_add) (intro frame_intros; assumption)

lemma dev_frame_disk_error [frame_intros]: "dev_frame p s0 s \<Longrightarrow> dev_frame p s0 (disk_error dev p s)"
  unfolding disk_error_def Let_def case_prod_beta by (intro frame_intros) simp_all

lemma dev_frame_disk_xfer [frame_intros]:
  assumes "dev_frame p s0 s"
  shows "dev_frame p s0 (ata_disk_pio_xfer_data_in dev p s)" "dev_frame p s0 (ata_disk_pio_xfer_data_out dev p s)"
  using assms unfolding ata_disk_pio_xfer_data_in_def ata_disk_pio_xfer_data_out_def Let_def
  by (intro frame_intros; simp)+

lemma dev_frame_last_block [frame_intros]:
  assumes "dev_frame p s0 s"
  shows "dev_frame p s0 (snd (ata_last_block_xferred_chs dev dr s))"
    "dev_frame p s0 (snd (ata_last_block_xferred_lba28 dev s))"
    "dev_frame p s0 (snd (ata_last_block_xferred_lba48 dev s))"
  using assms unfolding ata_last_block_xferred_chs_def ata_last_block_xferred_lba28_def
    ata_last_block_xferred_lba48_def Let_def case_prod_beta snd_conv
  by (intro frame_intros; assumption)+

lemma dev_frame_get_resid [frame_intros]:
  assumes "dev_frame p s0 s"
  shows "dev_frame p s0 (ata_disk_get_resid dev dr p s)"
proof -
  have "dev_frame p s0 (snd (if flag_set (ad_flags (drv s dr)) AD_EXT48 then ata_last_block_xferred_lba48 dev s
                       else if ad_drive_bits (drv s dr) AND ATDH_LBA \<noteq> 0 then ata_last_block_xferred_lba28 dev s
                       else ata_last_block_xferred_chs dev dr s))"
    using assms by (auto intro: frame_intros)
  then show ?thesis
    unfolding ata_disk_get_resid_def Let_def case_prod_beta by (intro frame_intros) simp_all
qed

lemma five_s: "5 * 1000000 = (5000000 :: u32)"
  by simp

lemma ret_start_common:
  assumes ok: "chs_ok (drv s dr)"
  shows "ret (dev_frame p) s (ata_disk_start_common dev dr p s)"
proof -
  let ?load = "\<lambda>s. if ad_drive_bits (drv s dr) AND ATDH_LBA = 0 then ata_disk_load_regs_chs dr p s
       else if flag_set (ad_flags (drv s dr)) AD_EXT48 then Some (ata_disk_load_regs_lba48 dr p s)
       else Some (ata_disk_load_regs_lba28 dr p s)"
  have load: "ret (dev_frame p) s (?load s1 \<bind> (\<lambda>s. Some (True, put8 AC_DEVCTL ATDC_D3 (put8 AC_FEATURE 0 s))))"
    if f: "dev_frame p s s1" for s1
  proof -
    have c: "chs_ok (drv s1 dr)" using ok chs_ok_frame [OF f] by simp
    have "\<exists>s2. ?load s1 = Some s2 \<and> dev_frame p s s2"
      using load_regs_chs_returns [OF c _ f] f by (auto intro: frame_intros)
    with f show ?thesis by (auto intro!: ret_Some frame_intros)
  qed
  have sel: "ret (dev_frame p) s (wait dev ATS_DRDY ATS_BSY 5000000
      (delay400 dev (put8 AC_DRVHD (ad_drive_bits (drv s1 dr)) s1)) \<bind>
      (\<lambda>(ok, s). if \<not> ok then Some (False, s) else ?load s \<bind> (\<lambda>s. Some (True, put8 AC_DEVCTL ATDC_D3 (put8 AC_FEATURE 0 s)))))"
    if "dev_frame p s s1" for s1
  proof (rule ret_bind)
    show "ret (dev_frame p) s (wait dev ATS_DRDY ATS_BSY 5000000
        (delay400 dev (put8 AC_DRVHD (ad_drive_bits (drv s1 dr)) s1)))"
      by (rule ret_after [OF ret_waits(1) [of p _ dev ATS_DRDY ATS_BSY]]) (intro frame_intros that)
  next
    fix ok s2 assume f: "dev_frame p s s2"
    show "ret (dev_frame p) s (case (ok, s2) of (ok, s) \<Rightarrow> if \<not> ok then Some (False, s)
        else ?load s \<bind> (\<lambda>s. Some (True, put8 AC_DEVCTL ATDC_D3 (put8 AC_FEATURE 0 s))))"
      using load [OF f] f by (cases ok; simp only: prod.case simp_thms if_True if_False) (rule ret_Some)
  qed
  show ?thesis
    unfolding ata_disk_start_common_def Let_def five_s
    by (rule ret_bind) (auto intro!: ret_waits ret_Some sel)
qed

lemma ret_disk_starts:
  assumes "chs_ok (drv s dr)"
  shows "ret (dev_frame p) s (ata_disk_start dev dr p s)" "ret (dev_frame p) s (ata_disk_start_dma_in dev dr p s)"
    "ret (dev_frame p) s (ata_disk_start_dma_out dev dr p s)" "ret (dev_frame p) s (ata_disk_start_pio_in dev dr p s)"
  unfolding ata_disk_start_def ata_disk_start_dma_in_def ata_disk_start_dma_out_def ata_disk_start_pio_in_def
    disk_start_dma_def Let_def
  by (rule ret_bind [OF ret_start_common [OF assms]], auto intro!: ret_Some frame_intros)+


lemma ret_start_pio_out:
  assumes "chs_ok (drv s dr)"
  shows "ret (dev_frame p) s (ata_disk_start_pio_out dev dr p s)"
proof -
  let ?s1 = "upd_pkt p (\<lambda>k. k\<lparr>ap_wrt_count := 0\<rparr>) s"
  have f1: "dev_frame p s ?s1" by (intro frame_intros) simp
  have c: "ret (dev_frame p) ?s1 (ata_disk_start_common dev dr p ?s1)"
    using assms chs_ok_frame [OF f1] by (intro ret_start_common) simp
  show ?thesis
    unfolding ata_disk_start_pio_out_def Let_def
    by (rule ret_bind [OF ret_after [OF c f1]])
      (auto intro!: ret_bind ret_Some ret_waits [THEN ret_after] frame_intros)
qed

lemma dev_frame_if_error:
  "dev_frame p s0 s \<Longrightarrow> dev_frame p s0 (if b then disk_error dev p s else s)"
  "dev_frame p s0 s \<Longrightarrow> dev_frame p s0 (if b then ata_disk_pio_xfer_data_in dev p s else s)"
  by (auto intro: frame_intros)

lemma ret_disk_intr: "ret (dev_frame p) s (ata_disk_intr dev dr p s)"
  unfolding ata_disk_intr_def Let_def case_prod_beta
  by (rule ret_Some) (auto intro!: frame_intros)

lemma ret_intr_pio_in: "ret (dev_frame p) s (ata_disk_intr_pio_in dev dr p s)"
proof -
  have last_chunk: "ret (dev_frame p) s
      ((if ap_resid (ac_pkt s3 p) = 0
        then wait dev 0 (ATS_DRQ OR ATS_BSY) 4000000 s3 \<bind>
          (\<lambda>(ok, s). if ok then Some (True, s) else Some (False, disk_error dev p s))
        else Some (False, s3)) \<bind>
       (\<lambda>(fini, s). if fini then Some (ATA_FSM_RC_FINI, s)
          else if flag_set (ap_flags (ac_pkt s p)) AP_ERROR then Some (ATA_FSM_RC_FINI, s)
          else Some (ATA_FSM_RC_OKAY, s)))" if "dev_frame p s s3" for s3
    using that by (intro ret_bind [of "dev_frame p"])
      (auto intro!: ret_bind ret_Some ret_waits [THEN ret_after] frame_intros)
  have rest: "ret (dev_frame p) s (let (status, s) = ata_get_status_clear_intr dev p s1 in
     if status AND ATS_BSY \<noteq> 0 then Some (ATA_FSM_RC_BUSY, disk_error dev p s)
     else let s = (if status AND (ATS_DRQ OR ATS_DF OR ATS_ERR) \<noteq> ATS_DRQ then disk_error dev p s else s);
              s = (if status AND ATS_DRQ \<noteq> 0 then ata_disk_pio_xfer_data_in dev p s else s)
          in (if ap_resid (ac_pkt s p) = 0
        then wait dev 0 (ATS_DRQ OR ATS_BSY) 4000000 s \<bind>
          (\<lambda>(ok, s). if ok then Some (True, s) else Some (False, disk_error dev p s))
        else Some (False, s)) \<bind>
       (\<lambda>(fini, s). if fini then Some (ATA_FSM_RC_FINI, s)
          else if flag_set (ap_flags (ac_pkt s p)) AP_ERROR then Some (ATA_FSM_RC_FINI, s)
          else Some (ATA_FSM_RC_OKAY, s)))" if f: "dev_frame p s s1" for s1
  proof -
    obtain v s2 where g: "ata_get_status_clear_intr dev p s1 = (v, s2)" by fastforce
    have f2: "dev_frame p s s2" by (rule get_status_eq_frame [OF g f])
    show ?thesis
      unfolding g Let_def prod.case
      by (cases "v AND ATS_BSY \<noteq> 0"; simp only: if_True if_False simp_thms)
        (use f2 in \<open>intro ret_Some last_chunk dev_frame_if_error frame_intros; assumption\<close>)+
  qed
  show ?thesis
    unfolding ata_disk_intr_pio_in_def
    by (rule ret_bind [OF ret_waits(7)]) (simp only: prod.case, rule rest)
qed

lemma ret_intr_pio_out: "ret (dev_frame p) s (ata_disk_intr_pio_out dev dr p s)"
proof -
  obtain v s2 where g: "ata_get_status_clear_intr dev p s = (v, s2)" by fastforce
  have f2: "dev_frame p s s2" by (rule get_status_eq_frame [OF g dev_frame_refl])
  show ?thesis
    unfolding ata_disk_intr_pio_out_def Let_def g prod.case
    using f2 by (auto simp: case_prod_beta intro!: ret_Some ret_bind ret_waits(7) [THEN ret_after] frame_intros)
qed

lemma ret_intr_dma: "ret (dev_frame p) s (ata_disk_intr_dma dev dr p s)"
proof -
  have rest: "ret (dev_frame p) s (let (status, s) = ata_get_status_clear_intr dev p s1;
       s = (if status AND (ATS_DF OR ATS_ERR) \<noteq> 0 then disk_error dev p s else s);
       s = (if flag_set (ap_flags (ac_pkt s p)) AP_ERROR then ata_disk_get_resid dev dr p s
                else upd_pkt p (\<lambda>k. k\<lparr>ap_resid := 0\<rparr>) s) in
       Some (ATA_FSM_RC_FINI, s))" if f: "dev_frame p s s1" for s1
  proof -
    obtain v s2 where g: "ata_get_status_clear_intr dev p s1 = (v, s2)" by fastforce
    have f2: "dev_frame p s s2" by (rule get_status_eq_frame [OF g f])
    show ?thesis unfolding g Let_def prod.case
      using f2 by (intro ret_Some) (auto intro!: frame_intros)
  qed
  show ?thesis
    unfolding ata_disk_intr_dma_def Let_def
    by (rule ret_bind [OF ret_waits(2) [THEN ret_after]])
      (auto intro!: frame_intros ret_Some rest [unfolded Let_def])
qed

lemma ret_ctl_command:
  assumes "wait_rounds t n"
  shows "ret (dev_frame p) s (ctl_command dev dr drdy t cmd feature count sector head cl ch s)"
  using ata_command_spec [OF assms, of dev "ad_drive_bits (drv s dr)" drdy cmd feature count sector head cl ch "ac_log s"]
  by (auto simp: ctl_command_def ret_def)

lemma ret_media:
  "ret (dev_frame p) s (ata_disk_state dev dr p s)" "ret (dev_frame p) s (ata_disk_eject dev dr p s)"
  "ret (dev_frame p) s (ata_disk_lock dev dr p s)" "ret (dev_frame p) s (ata_disk_unlock dev dr p s)"
  "ret (dev_frame p) s (ata_disk_standby dev dr p s)" "ret (dev_frame p) s (ata_disk_recalibrate dev dr p s)"
  using wait_rounds_used
  by (auto simp: ata_disk_state_def ata_disk_eject_def ata_disk_lock_def ata_disk_unlock_def ata_disk_standby_def
      ata_disk_recalibrate_def get8_pair Let_def intro!: ret_bind [OF ret_ctl_command] ret_Some frame_intros)


subsection \<open>The block address in the registers\<close>

text \<open>Values written to a register, in order.\<close>

fun ev_put :: "ioreg \<Rightarrow> ioevent \<Rightarrow> u8 list" where
  "ev_put r (Put8 r' v) = (if r' = r then [v] else [])"
| "ev_put r _ = []"

definition reg_writes :: "ioreg \<Rightarrow> iolog \<Rightarrow> u8 list" where
  "reg_writes r l = concat (map (ev_put r) l)"

text \<open>
  A device that keeps its task file as written: a register reads as the last value written, or, while the
  HOB bit of the device control register is set, as the value before that.
\<close>

definition hob :: "iolog \<Rightarrow> bool" where
  "hob l = (case rev (reg_writes AC_DEVCTL l) of [] \<Rightarrow> False | v # _ \<Rightarrow> v AND ATDC_HOB \<noteq> 0)"

definition reg_value :: "bool \<Rightarrow> u8 list \<Rightarrow> u8" where
  "reg_value h ws = (case rev ws of [] \<Rightarrow> 0 | [w] \<Rightarrow> (if h then 0 else w) | w # w' # _ \<Rightarrow> (if h then w' else w))"

definition holds_task_file :: "device \<Rightarrow> bool" where
  "holds_task_file dev \<longleftrightarrow> (\<forall>l. \<forall>r\<in>{AC_COUNT, AC_SECT, AC_LCYL, AC_HCYL, AC_DRVHD}.
     dev8 dev l r = reg_value (hob l) (reg_writes r l))"

lemma reg_writes_simps [simp]:
  "reg_writes r [] = []" "reg_writes r (e # l) = ev_put r e @ reg_writes r l"
  "reg_writes r (l @ l') = reg_writes r l @ reg_writes r l'"
  by (simp_all add: reg_writes_def)

lemma reg_value_simps [simp]:
  "reg_value False (ws @ [w]) = w" "reg_value True (ws @ [w', w]) = w'" "reg_value h (ws @ [w', w]) = (if h then w' else w)"
  by (simp_all add: reg_value_def split: list.split)

lemma bytes_word:
  fixes x :: "'a :: len word"
  shows "take_bit 8 x + push_bit 8 (take_bit n (drop_bit 8 x)) = take_bit (n + 8) x"
proof -
  have "take_bit 8 x + push_bit 8 (take_bit n (drop_bit 8 x)) = take_bit 8 x OR push_bit 8 (take_bit n (drop_bit 8 x))"
    by (rule disjunctive_add) (auto simp: bit_simps)
  also have "\<dots> = take_bit (n + 8) x"
    by (rule bit_word_eqI) (auto simp: bit_simps)
  finally show ?thesis .
qed

lemma ucast_byte: "ucast (ucast (x :: 'a :: len word) :: u8) = (take_bit 8 (ucast x) :: 'b :: len word)"
  by (rule bit_word_eqI) (auto simp: bit_simps)

lemma lba28_regs:
  fixes x :: u64
  shows "push_bit 8 (push_bit 8 (push_bit 8 (take_bit 4 (drop_bit 24 x)) + take_bit 8 (drop_bit 16 x)) +
    take_bit 8 (drop_bit 8 x)) + take_bit 8 x = take_bit 28 x"
  using bytes_word [of "drop_bit 16 x" 4] bytes_word [of "drop_bit 8 x" 12] bytes_word [of x 20]
  by (simp add: drop_bit_drop_bit add.commute)

lemma lba48_regs:
  fixes x :: u64
  shows "push_bit 8 (push_bit 8 (push_bit 8 (push_bit 8 (push_bit 8 (take_bit 8 (drop_bit 40 x)) + take_bit 8 (drop_bit 32 x)) +
    take_bit 8 (drop_bit 24 x)) + take_bit 8 (drop_bit 16 x)) + take_bit 8 (drop_bit 8 x)) + take_bit 8 x = take_bit 48 x"
  using bytes_word [of "drop_bit 32 x" 8] bytes_word [of "drop_bit 24 x" 16] bytes_word [of "drop_bit 16 x" 24]
    bytes_word [of "drop_bit 8 x" 32] bytes_word [of x 40]
  by (simp add: drop_bit_drop_bit add.commute)


lemma nibble: "(x :: 'a :: len word) AND 0xf = take_bit 4 x"
  by (simp add: take_bit_eq_mask mask_eq_exp_minus_1)

lemma no_low_nibble:
  fixes b :: u8
  assumes "b AND 0xf = 0" "n < 4"
  shows "\<not> bit b n"
proof
  assume "bit b n"
  with assms(2) have "bit (b AND 0xf) n" by (simp add: nibble bit_take_bit_iff)
  with assms(1) show False by simp
qed

lemma put_logs: "ac_log (put8 r v s) = ac_log s @ [Put8 r v]" "ac_pkt (put8 r v s) = ac_pkt s"
  "drv (put8 r v s) = drv s"
  by (simp_all add: put8_def ddi_put8_def drv_def fun_eq_iff)

lemma get8_log: "fst (get8 dev r s) = dev8 dev (ac_log s) r"
  "ac_log (snd (get8 dev r s)) = ac_log s @ [Get8 r (dev8 dev (ac_log s) r)]" "drv (snd (get8 dev r s)) = drv s"
  by (simp_all add: get8_def ddi_get8_def Let_def drv_def fun_eq_iff)

lemma hob_append [simp]:
  "hob (l @ m) = (case rev (reg_writes AC_DEVCTL m) of [] \<Rightarrow> hob l | v # _ \<Rightarrow> v AND ATDC_HOB \<noteq> 0)"
  by (simp add: hob_def split: list.split)

lemma lba28_roundtrip:
  assumes dev: "holds_task_file dev" "\<not> hob (ac_log s)" and bits: "ad_drive_bits (drv s dr) AND 0xf = 0"
  shows "fst (ata_last_block_xferred_lba28 dev (ata_disk_load_regs_lba28 dr p s)) = take_bit 28 (ap_startsec (ac_pkt s p))"
proof -
  let ?x = "ap_startsec (ac_pkt s p)"
  define b where "b = ad_drive_bits (drv s dr)"
  have d: "ucast (take_bit 4 (ucast (take_bit 4 (drop_bit 24 (ucast ?x :: u32)) OR ucast b) :: u8)) = (take_bit 4 (drop_bit 24 ?x) :: u64)"
    by (rule bit_word_eqI) (use no_low_nibble [of b] bits in \<open>auto simp: bit_simps b_def\<close>)
  have e: "ucast (ucast (drop_bit n (ucast ?x :: u32)) :: u8) = (take_bit 8 (drop_bit n ?x) :: u64)" if "n \<le> 24" for n
    by (rule bit_word_eqI) (use that in \<open>auto simp: bit_simps\<close>)
  have v: "dev8 dev l r = reg_value (hob l) (reg_writes r l)" if "r \<in> {AC_COUNT, AC_SECT, AC_LCYL, AC_HCYL, AC_DRVHD}" for l r
    using that dev(1) unfolding holds_task_file_def by blast
  show ?thesis
    using d e [of 0] e [of 8] e [of 16] dev(2) lba28_regs [of ?x]
    by (simp add: ata_last_block_xferred_lba28_def ata_disk_load_regs_lba28_def Let_def case_prod_beta put_logs get8_log v
        nibble drop_bit_drop_bit b_def)
qed

lemma lba48_roundtrip:
  assumes dev: "holds_task_file dev"
  shows "fst (ata_last_block_xferred_lba48 dev (ata_disk_load_regs_lba48 dr p s)) = take_bit 48 (ap_startsec (ac_pkt s p))"
proof -
  let ?x = "ap_startsec (ac_pkt s p)"
  have e: "ucast (ucast (drop_bit n (ucast ?x :: u32)) :: u8) = (take_bit 8 (drop_bit n ?x) :: u64)" if "n \<le> 24" for n
    by (rule bit_word_eqI) (use that in \<open>auto simp: bit_simps\<close>)
  have h: "ucast (ucast (drop_bit n (ucast (signed_drop_bit 24 ?x) :: u32)) :: u8) = (take_bit 8 (drop_bit (n + 24) ?x) :: u64)"
    if "n \<le> 24" for n
    by (rule bit_word_eqI) (use that in \<open>auto simp: bit_simps add.assoc add.left_commute\<close>)
  have v: "dev8 dev l r = reg_value (hob l) (reg_writes r l)" if "r \<in> {AC_COUNT, AC_SECT, AC_LCYL, AC_HCYL, AC_DRVHD}" for l r
    using that dev(1) unfolding holds_task_file_def by blast
  show ?thesis
    using h [of 0] h [of 8] h [of 16] e [of 0] e [of 8] e [of 16] lba48_regs [of ?x]
    by (simp add: ata_last_block_xferred_lba48_def ata_disk_load_regs_lba48_def Let_def case_prod_beta put_logs get8_log v
        drop_bit_drop_bit ATDC_D3_def ATDC_HOB_def)
qed

lemma cyl_regs:
  fixes c :: u32
  shows "ucast (ucast c :: u8) OR ucast (push_bit 8 (ucast (ucast (drop_bit 8 c) :: u8) :: u32)) = (ucast (take_bit 16 c) :: u64)"
  by (rule bit_word_eqI) (auto simp: bit_simps)

lemma of_nat_fits: "n < 2 ^ LENGTH('a) \<Longrightarrow> ucast (of_nat n :: 'a :: len word) = (of_nat n :: 'b :: len word)"
  by (simp add: unsigned_of_nat take_bit_nat_eq_self)

text \<open>The cylinder registers for block \<open>b\<close>, with \<open>h\<close> heads and \<open>n\<close> sectors per track.\<close>

lemma chs_block:
  fixes b h n :: nat
  shows "((b div n div h) * h + b div n mod h) * n + b mod n = b"
  by simp


lemma sdiv_nat: "int a sdiv int b = int (a div b)" "int a smod int b = int (a mod b)"
  by (simp_all add: signed_divide_int_def signed_modulo_int_def sgn_if zdiv_int zmod_int)

lemma ucast_of_unat: "unat w = k \<Longrightarrow> ucast w = of_nat k"
  by (drule sym) simp

lemma chs_loads:
  fixes s dr p
  defines "b \<equiv> unat (ap_startsec (ac_pkt s p))" and "h \<equiv> unat (ad_phhd (drv s dr))" and "n \<equiv> unat (ad_phsec (drv s dr))"
  assumes g: "0 < h" "h \<le> 16" "0 < n" "n < 256" "b < 65536 * h * n"
  shows "\<exists>s'. ata_disk_load_regs_chs dr p s = Some s' \<and> drv s' = drv s \<and>
     (\<exists>c. ac_log s' = ac_log s @ [Put8 AC_SECT (of_nat (b mod n + 1)), Put8 AC_COUNT c,
        Put8 AC_HCYL (ucast (drop_bit 8 (of_nat (b div n div h) :: u32))),
        Put8 AC_LCYL (ucast (of_nat (b div n div h) :: u32)),
        Put8 AC_DRVHD (ad_drive_bits (drv s dr) OR of_nat (b div n mod h))])"
proof -
  let ?x = "ap_startsec (ac_pkt s p)"
  have "65536 * h * n \<le> 65536 * 16 * 255" using g(2,4) by (intro mult_le_mono) simp_all
  then have b: "b < 2147483648" using g(5) by simp
  have x: "sint ?x = int b"
  proof -
    have "uint ?x < 2147483648" using b unfolding b_def uint_nat by linarith
    moreover have "- (2 ^ 63) \<le> uint ?x" by (rule order_trans [OF _ uint_ge_0]) simp
    ultimately have "signed_take_bit 63 (uint ?x) = uint ?x" by (intro signed_take_bit_int_eq_self) simp_all
    then show ?thesis by (simp add: sint_uint b_def)
  qed
  have su: "unat (ucast (ad_phsec (drv s dr)) :: u8) = n"
    using g(4) by (simp add: n_def unsigned_ucast_eq take_bit_nat_eq_self)
  have sec: "uint (ucast (ad_phsec (drv s dr)) :: u8) = int n" unfolding uint_nat su ..
  have hu: "unat (ucast (ad_phhd (drv s dr)) :: u8) = h"
    using g(2) by (simp add: h_def unsigned_ucast_eq take_bit_nat_eq_self)
  then have hds: "(ucast (ucast (ad_phhd (drv s dr)) :: u8) :: u32) = of_nat h" by (rule ucast_of_unat)
  have nz: "(ucast (ad_phhd (drv s dr)) :: u8) \<noteq> 0" "(ucast (ad_phsec (drv s dr)) :: u8) \<noteq> 0"
    using hu su g by auto
  have r: "(of_int (int b sdiv int n) :: u32) = of_nat (b div n)" by (simp add: sdiv_nat)
  have rl: "b div n < 4294967296" using b div_le_dividend [of b n] by linarith
  have m: "(of_nat (b div n) :: u32) mod of_nat h = of_nat (b div n mod h)" "(of_nat (b div n) :: u32) div of_nat h = of_nat (b div n div h)"
    using rl g(2) by (simp_all only: word_arith_nat_mod word_arith_nat_div unsigned_of_nat of_nat_id)
      (simp_all add: take_bit_nat_eq_self)
  have hd: "b div n mod h < 16" using g(1,2) by (meson mod_less_divisor order_less_le_trans)
  then have hb: "(ucast ((of_nat (b div n mod h) :: u32) AND 0xf) :: u8) = of_nat (b div n mod h)"
    by (simp add: nibble take_bit_of_nat take_bit_nat_eq_self of_nat_fits)
  have sc: "(of_int (int b smod int n + 1) :: u8) = of_nat (b mod n + 1)" by (simp add: sdiv_nat)
  show ?thesis
    unfolding ata_disk_load_regs_chs_def Let_def x sec r hds m hb sc
    using nz by (simp add: put_logs)
qed

lemma chs_roundtrip:
  assumes dev: "holds_task_file dev" "\<not> hob (ac_log s)" and bits: "ad_drive_bits (drv s dr) AND 0xf = 0"
    and geo: "0 < ad_phhd (drv s dr)" "ad_phhd (drv s dr) \<le> 16" "0 < ad_phsec (drv s dr)" "ad_phsec (drv s dr) < 256"
    and blk: "unat (ap_startsec (ac_pkt s p)) < 65536 * unat (ad_phhd (drv s dr)) * unat (ad_phsec (drv s dr))"
  shows "\<exists>s'. ata_disk_load_regs_chs dr p s = Some s' \<and> fst (ata_last_block_xferred_chs dev dr s') = ap_startsec (ac_pkt s p)"
proof -
  define b h n where d: "b = unat (ap_startsec (ac_pkt s p))" "h = unat (ad_phhd (drv s dr))" "n = unat (ad_phsec (drv s dr))"
  have g: "0 < h" "h \<le> 16" "0 < n" "n < 256" "b < 65536 * h * n"
    using geo blk by (simp_all add: d word_less_nat_alt word_le_nat_alt)
  obtain s' c where s': "ata_disk_load_regs_chs dr p s = Some s'" "drv s' = drv s"
    and l: "ac_log s' = ac_log s @ [Put8 AC_SECT (of_nat (b mod n + 1)), Put8 AC_COUNT c,
        Put8 AC_HCYL (ucast (drop_bit 8 (of_nat (b div n div h) :: u32))),
        Put8 AC_LCYL (ucast (of_nat (b div n div h) :: u32)),
        Put8 AC_DRVHD (ad_drive_bits (drv s dr) OR of_nat (b div n mod h))]"
    using chs_loads [of s dr p] g unfolding d by blast
  have v: "dev8 dev l r = reg_value (hob l) (reg_writes r l)" if "r \<in> {AC_COUNT, AC_SECT, AC_LCYL, AC_HCYL, AC_DRVHD}" for l r
    using that dev(1) unfolding holds_task_file_def by blast
  have "b div n < 65536 * h" using g by (simp add: less_mult_imp_div_less)
  then have cb: "b div n div h < 65536" by (simp add: less_mult_imp_div_less)
  have hd: "b div n mod h < 16" using g(1,2) by (meson mod_less_divisor order_less_le_trans)
  have hb: "take_bit 4 (ad_drive_bits (drv s dr) OR of_nat (b div n mod h)) = of_nat (b div n mod h)"
    using bits hd by (simp add: nibble take_bit_or take_bit_of_nat take_bit_nat_eq_self)
  have mn: "b mod n < n" using g(3) by simp
  have sc: "(ucast (of_nat (b mod n + 1) :: u8) :: u32) - 1 = of_nat (b mod n)"
    using mn g(4) by (subst of_nat_fits) simp_all
  have hs: "(ucast (ucast (ad_phhd (drv s dr)) :: u8) :: u64) = of_nat h" "(ucast (ucast (ad_phsec (drv s dr)) :: u8) :: u64) = of_nat n"
    by (rule ucast_of_unat; use g(2,4) in \<open>simp add: d unsigned_ucast_eq take_bit_nat_eq_self\<close>)+
  have cy: "(ucast (take_bit 16 (of_nat (b div n div h) :: u32)) :: u64) = of_nat (b div n div h)"
    using cb by (simp add: take_bit_of_nat take_bit_nat_eq_self of_nat_fits)
  have "fst (ata_last_block_xferred_chs dev dr s') =
      (of_nat (b div n div h) * of_nat h + ucast (of_nat (b div n mod h) :: u8)) * of_nat n + ucast (of_nat (b mod n) :: u32)"
    using dev(2) sc hb cyl_regs [of "of_nat (b div n div h)"]
    by (simp add: ata_last_block_xferred_chs_def Let_def case_prod_beta get8_log l v s'(2) nibble hs cy)
  also have "\<dots> = of_nat ((b div n div h * h + b div n mod h) * n + b mod n)"
    using hd mn g(4) by (simp only: of_nat_add of_nat_mult) (simp add: of_nat_fits del: div_mult_mod_eq)
  also have "\<dots> = ap_startsec (ac_pkt s p)" unfolding chs_block by (simp add: d)
  finally show ?thesis using s' by blast
qed


subsection \<open>Residual counts\<close>

text \<open>The block the drive reports, in the addressing mode of the drive.\<close>

definition reported_block :: "device \<Rightarrow> drv_ref \<Rightarrow> ata_ctl \<Rightarrow> u64" where
  "reported_block dev dr s = fst
    (if flag_set (ad_flags (drv s dr)) AD_EXT48 then ata_last_block_xferred_lba48 dev s
     else if ad_drive_bits (drv s dr) AND ATDH_LBA \<noteq> 0 then ata_last_block_xferred_lba28 dev s
     else ata_last_block_xferred_chs dev dr s)"

lemma last_block_pkt [simp]:
  "ac_pkt (snd (ata_last_block_xferred_chs dev dr s)) = ac_pkt s"
  "ac_pkt (snd (ata_last_block_xferred_lba28 dev s)) = ac_pkt s"
  "ac_pkt (snd (ata_last_block_xferred_lba48 dev s)) = ac_pkt s"
  by (simp_all add: ata_last_block_xferred_chs_def ata_last_block_xferred_lba28_def ata_last_block_xferred_lba48_def
      Let_def case_prod_beta put_logs get8_def ddi_get8_def)

lemma get_resid_eq:
  "ap_resid (ac_pkt (ata_disk_get_resid dev dr p s) p) =
     ucast (push_bit 9 (ucast (ap_startsec (ac_pkt s p)) + ucast (ap_count (ac_pkt s p)) - ucast (reported_block dev dr s) :: u32))"
  by (simp add: ata_disk_get_resid_def reported_block_def Let_def case_prod_beta upd_pkt_def SCTRSHFT_def)

lemma ucast_down_add: "(ucast (x + of_nat i :: u64) :: u32) = ucast x + of_nat i"
proof -
  have "take_bit 32 (take_bit 64 (y + z)) = take_bit 32 (take_bit 32 y + take_bit 32 z)" for y z :: int
    by (simp add: take_bit_add)
  moreover have "take_bit 32 (take_bit 64 y + z) = take_bit 32 (take_bit 32 y + take_bit 32 z)" for y z :: int
    using take_bit_add [of 32 "take_bit 64 y" z] by simp
  ultimately show ?thesis by transfer (simp add: take_bit_add)
qed

lemma and_0xff: "(of_nat n AND 0xff :: u16) = of_nat (take_bit 8 n)"
proof -
  have "w AND 0xff = take_bit 8 w" for w :: u16 by (simp add: take_bit_eq_mask mask_eq_exp_minus_1)
  then show ?thesis by (simp only: take_bit_of_nat)
qed

lemma resid_small:
  assumes "i \<le> n" "n \<le> 65535"
  shows "ucast (push_bit 9 (x + of_nat n - (x + of_nat i) :: u32)) = (of_nat (512 * (n - i)) :: u64)"
proof -
  have "x + of_nat n - (x + of_nat i) = (of_nat (n - i) :: u32)" using assms by (simp add: of_nat_diff)
  moreover have "push_bit 9 (of_nat (n - i) :: u32) = of_nat (512 * (n - i))"
    by (simp add: push_bit_of_nat push_bit_eq_mult mult.commute)
  moreover have "512 * (n - i) < 2 ^ LENGTH(32)" using assms by simp
  ultimately show ?thesis by (simp only: of_nat_fits)
qed

lemma resid_wrapped:
  assumes "0 < i" "i < 256"
  shows "ucast (push_bit 9 (x + 0 - (x + of_nat i) :: u32)) = (of_nat (2 ^ 32 - 512 * i) :: u64)"
proof -
  have "(of_nat (2 ^ 32 - 512 * i) :: u32) = of_nat (2 ^ 32) - of_nat (512 * i)"
    using assms by (intro of_nat_diff) simp
  moreover have "(of_nat (2 ^ 32) :: u32) = 0" unfolding word_of_nat_eq_0_iff by simp
  ultimately have "push_bit 9 (x + 0 - (x + of_nat i) :: u32) = of_nat (2 ^ 32 - 512 * i)"
    by (simp add: push_bit_eq_mult mult.commute)
  moreover have "2 ^ 32 - 512 * i < 2 ^ LENGTH(32)" using assms by simp
  ultimately show ?thesis by (simp only: of_nat_fits)
qed

text \<open>C31: the residual count after a failed DMA transfer. For a request of \<open>n\<close> sectors
  (1 to 256) whose failing block, as the drive reports it, is the \<open>i\<close>-th, the residual is the \<open>512 (n - i)\<close>
  bytes from that block on. The one exception is a request of 256 sectors in a 28-bit mode: its count was
  masked to zero for the eight-bit register, and the residual comes out as \<open>2 ^ 32 - 512 i\<close> bytes.\<close>

theorem disk_resid_after_error:
  assumes "0 < n" "n \<le> 256" "i < n"
    and "ap_count (ac_pkt s p) = (if flag_set (ad_flags (drv s dr)) AD_EXT48 then of_nat n else of_nat n AND 0xff)"
    and "reported_block dev dr s = ap_startsec (ac_pkt s p) + of_nat i"
  shows "ap_resid (ac_pkt (ata_disk_get_resid dev dr p s) p) =
    (if flag_set (ad_flags (drv s dr)) AD_EXT48 \<or> n < 256 then of_nat (512 * (n - i))
     else if i = 0 then 0 else of_nat (2 ^ 32 - 512 * i))"
proof -
  let ?x = "ucast (ap_startsec (ac_pkt s p)) :: u32"
  have stop: "(ucast (reported_block dev dr s) :: u32) = ?x + of_nat i"
    unfolding assms(5) by (rule ucast_down_add)
  show ?thesis
  proof (cases "flag_set (ad_flags (drv s dr)) AD_EXT48 \<or> n < 256")
    case True
    have c: "ap_count (ac_pkt s p) = of_nat n"
      using True assms(4) and_0xff [of n] by (auto simp: take_bit_nat_eq_self split: if_splits)
    have "(ucast (of_nat n :: u16) :: u32) = of_nat n" using assms(2) by (simp add: of_nat_fits)
    then show ?thesis unfolding get_resid_eq stop c using resid_small [of i n ?x] assms True by simp
  next
    case False
    then have n: "n = 256" using assms(2) by simp
    have c: "ap_count (ac_pkt s p) = 0" using False assms(4) n by simp
    show ?thesis
    proof (cases "i = 0")
      case True
      then show ?thesis unfolding get_resid_eq stop c using False by simp
    next
      case False
      then show ?thesis
        unfolding get_resid_eq stop c using resid_wrapped [of i ?x] assms(3) \<open>\<not> (_ \<or> _)\<close> n by simp
    qed
  qed
qed

text \<open>A disk drive with the given drive bits.\<close>

definition disk0 :: "u8 \<Rightarrow> ata_drv" where
  "disk0 bits = \<lparr>ad_id = \<lparr>ai_config = 0, ai_fixcyls = 1000, ai_heads = 16, ai_sectors = 63, ai_drvser = [], ai_fw = [], ai_model = [],
     ai_mult1 = 16, ai_cap = 0, ai_validinfo = 0, ai_curcyls = 0, ai_curheads = 0, ai_cursectrk = 0, ai_cursccp0 = 0,
     ai_cursccp1 = 0, ai_mult2 = 0, ai_addrsec0 = 0, ai_addrsec1 = 0, ai_dworddma = 0, ai_advpiomode = 0,
     ai_majorversion = 0, ai_cmdset83 = 0, ai_features85 = 0, ai_features86 = 0, ai_ultradma = 0,
     ai_addrsecxt = [0, 0, 0, 0]\<rparr>, ad_flags = 0, ad_pciide_dma = False, ad_targ = 0, ad_lun = 0, ad_drive_bits = bits,
     ad_state = S_IDLE, ad_cdb_len = 12, ad_bogus_drq = False, ad_nec_bad_status = False, ad_rd_cmd = 0x20, ad_wr_cmd = 0x30,
     ad_acyl = 0, ad_drvrcyl = 1000, ad_drvrhd = 16, ad_drvrsec = 63, ad_phhd = 16, ad_phsec = 63, ad_block_factor = 1,
     ad_bytes_per_block = 512, ad_capacity = 1008000\<rparr>"

text \<open>A drive with 28-bit addressing whose registers read \<open>0x50\<close>, and a request of 256 sectors that failed at its sixth
  sector: 250 sectors are left, but the residual is close to 4 GB.\<close>

definition ctl_lba28 :: "u64 \<Rightarrow> u16 \<Rightarrow> ata_ctl" where
  "ctl_lba28 start n = ctl0\<lparr>ac_drvp := (\<lambda>t l. if t = 0 \<and> l = 0 then Some (disk0 0xe0) else None),
     ac_pkt := (\<lambda>p. pkt0\<lparr>ap_startsec := start, ap_count := n\<rparr>)\<rparr>"

theorem disk_resid_witness:
  "ap_resid (ac_pkt (ata_disk_get_resid \<lparr>dev8 = \<lambda>l r. 0x50, dev16 = \<lambda>l n. 0\<rparr> (0, 0) ArqPkt (ctl_lba28 0x50504b 0)) ArqPkt) = 4294964736"
proof -
  let ?dev = "\<lparr>dev8 = \<lambda>l r. 0x50, dev16 = \<lambda>l n. 0\<rparr>" and ?s = "ctl_lba28 0x50504b 0"
  have d: "drv ?s (0, 0) = disk0 0xe0" "ac_pkt ?s ArqPkt = pkt0\<lparr>ap_startsec := 0x50504b, ap_count := 0\<rparr>"
    by (simp_all add: ctl_lba28_def drv_def)
  have f: "flag_set (ad_flags (disk0 0xe0)) AD_EXT48 = False" by (simp add: disk0_def flag_set_def)
  have b: "reported_block ?dev (0, 0) ?s = 0x50504b + of_nat 5"
    by (simp add: reported_block_def d f ata_last_block_xferred_lba28_def get8_def ddi_get8_def ATDH_LBA_def) (simp add: disk0_def flag_set_def)
  show ?thesis
    using disk_resid_after_error [of 256 5 ?s ArqPkt "(0, 0)" ?dev] b by (simp add: d f)
qed


subsection \<open>Whole PIO transfers\<close>

text \<open>Addresses the accesses of a log read from memory, in order.\<close>

fun addrs_from :: "u64 \<Rightarrow> nat \<Rightarrow> u64 list" where
  "addrs_from a 0 = []"
| "addrs_from a (Suc n) = a # addrs_from (a + 1) n"

fun ev_loads :: "ioevent \<Rightarrow> u64 list" where
  "ev_loads (RepPut16 a n) = addrs_from a (2 * n)"
| "ev_loads _ = []"

definition mem_loads :: "iolog \<Rightarrow> u64 list" where
  "mem_loads l = concat (map ev_loads l)"

lemma mem_loads_simps [simp]:
  "mem_loads [] = []" "mem_loads (e # l) = ev_loads e @ mem_loads l" "mem_loads (l @ l') = mem_loads l @ mem_loads l'"
  by (simp_all add: mem_loads_def)

lemma addrs_from_add: "addrs_from a (m + n) = addrs_from a m @ addrs_from (a + of_nat m) n"
  by (induction m arbitrary: a) (simp_all add: add.assoc)

lemma length_addrs_from [simp]: "length (addrs_from a n) = n"
  by (induction n arbitrary: a) simp_all

text \<open>Steps that move no data: the log grows by register accesses and delays.\<close>

definition silent :: "ata_ctl \<Rightarrow> ata_ctl \<Rightarrow> bool" where
  "silent s s' \<longleftrightarrow> (\<exists>new. s' = s\<lparr>ac_log := ac_log s @ new\<rparr> \<and> data_words new = [] \<and> mem_stores new = [] \<and> mem_loads new = [])"

lemma silent_refl [simp, intro]: "silent s s"
  unfolding silent_def by (intro exI [of _ "[]"]) simp

lemma silent_trans: "silent s s' \<Longrightarrow> silent s' s'' \<Longrightarrow> silent s s''"
  unfolding silent_def
proof (elim exE conjE)
  fix n n'
  assume "s' = s\<lparr>ac_log := ac_log s @ n\<rparr>" "s'' = s'\<lparr>ac_log := ac_log s' @ n'\<rparr>"
    "data_words n = []" "mem_stores n = []" "mem_loads n = []" "data_words n' = []" "mem_stores n' = []" "mem_loads n' = []"
  then show "\<exists>new. s'' = s\<lparr>ac_log := ac_log s @ new\<rparr> \<and> data_words new = [] \<and> mem_stores new = [] \<and> mem_loads new = []"
    by (intro exI [of _ "n @ n'"]) simp
qed

lemma silent_io [simp]:
  "silent s (put8 r v s)" "silent s (snd (get8 dev r s))" "silent s (delay400 dev s)"
proof -
  show "silent s (put8 r v s)"
    unfolding silent_def by (intro exI [of _ "[Put8 r v]"]) (simp add: put8_def ddi_put8_def)
  show "silent s (snd (get8 dev r s))"
    unfolding silent_def by (intro exI [of _ "[Get8 r (dev8 dev (ac_log s) r)]"]) (simp add: get8_pair log_event_def)
  show "silent s (delay400 dev s)"
    unfolding silent_def by (simp add: delay400_def ATA_DELAY_400NSEC_def ddi_get8_def)
      (intro exI conjI, rule refl, simp_all)
qed

lemma silent_facts:
  assumes "silent s s'"
  shows "ac_pkt s' = ac_pkt s" "data_words (ac_log s') = data_words (ac_log s)" "mem_loads (ac_log s') = mem_loads (ac_log s)"
    "mem_stores (ac_log s') = mem_stores (ac_log s)"
  using assms by (auto simp: silent_def)

lemma silent_status_clear: "silent s (snd (ata_pciide_status_clear dev s))"
  unfolding ata_pciide_status_clear_def Let_def case_prod_beta snd_conv
  by (rule silent_trans [OF silent_io(2) silent_io(1)])

text \<open>A PIO packet's status read.\<close>

lemma pio_status:
  assumes "\<not> ap_pciide_dma (ac_pkt s p)"
  shows "\<exists>l s'. ata_get_status_clear_intr dev p s = (dev8 dev l AC_STATUS, s') \<and> silent s s' \<and>
    data_words l = data_words (ac_log s) \<and> mem_loads l = mem_loads (ac_log s)"
proof -
  let ?s1 = "if ac_pciide s \<and> \<not> flag_set (ac_flags s) AC_BMSTATREG_PIO_BROKEN then snd (ata_pciide_status_clear dev s) else s"
  have s1: "silent s ?s1" using silent_status_clear by simp
  have "ata_get_status_clear_intr dev p s = (dev8 dev (ac_log ?s1) AC_STATUS, snd (get8 dev AC_STATUS ?s1))"
    using assms by (simp add: ata_get_status_clear_intr_def Let_def get8_pair)
  with s1 silent_trans [OF s1 silent_io(2)] silent_facts [OF s1] show ?thesis by blast
qed

text \<open>Waits that end with their first poll.\<close>

lemma wait_now:
  assumes "has_bits (dev8 dev (ac_log s) AC_ALTSTATUS) on" "no_bits (dev8 dev (ac_log s) AC_ALTSTATUS) off"
  shows "\<exists>s'. wait dev on off t s = Some (True, s') \<and> silent s s'"
proof -
  have "wait dev on off t s = Some (True, snd (get8 dev AC_ALTSTATUS s))"
    using assms by (simp add: wait_def sol11ata_wait.simps [of dev on off] ddi_get8_def get8_def Let_def)
  then show ?thesis by auto
qed

lemma wait3_now:
  assumes "has_bits (dev8 dev (ac_log s) AC_ALTSTATUS) on1" "no_bits (dev8 dev (ac_log s) AC_ALTSTATUS) off1"
  shows "\<exists>s'. wait3 dev on1 off1 on2 off2 on3 off3 t s = Some (True, s') \<and> silent s s'"
proof -
  have "wait3 dev on1 off1 on2 off2 on3 off3 t s = Some (True, snd (get8 dev AC_ALTSTATUS s))"
    using assms by (simp add: wait3_def ata_wait3.simps [of dev on1 off1] ddi_get8_def get8_def Let_def)
  then show ?thesis by auto
qed

text \<open>\<open>n\<close> interrupts, of which the last ends the command: \<open>None\<close> if it ends earlier or has not ended by then.\<close>

fun intr_run :: "(ata_ctl \<Rightarrow> (fsm_rc \<times> ata_ctl) option) \<Rightarrow> nat \<Rightarrow> ata_ctl \<Rightarrow> (fsm_rc \<times> ata_ctl) option" where
  "intr_run f 0 s = None"
| "intr_run f (Suc n) s =
    (case f s of None \<Rightarrow> None
     | Some (rc, s) \<Rightarrow>
         (case rc of ATA_FSM_RC_OKAY \<Rightarrow> intr_run f n s | _ \<Rightarrow> if n = 0 then Some (rc, s) else None))"

text \<open>Status bits of a drive in a PIO command: while it expects data it shows DRQ alone, afterwards none of
  BSY, DRQ, DF and ERR. \<open>cnt\<close> counts what has moved.\<close>

definition xfer_status :: "device \<Rightarrow> (iolog \<Rightarrow> nat) \<Rightarrow> nat \<Rightarrow> bool" where
  "xfer_status dev cnt m \<longleftrightarrow> (\<forall>l. \<forall>r\<in>{AC_STATUS, AC_ALTSTATUS}.
     dev8 dev l r AND (ATS_BSY OR ATS_DRQ OR ATS_DF OR ATS_ERR) = (if cnt l < m then ATS_DRQ else 0))"

lemma and_submask: "v AND m = x \<Longrightarrow> m AND m' = m' \<Longrightarrow> v AND m' = (x AND m' :: u8)"
  by (metis and.assoc and.commute)

lemma xfer_status_bits:
  assumes "xfer_status dev cnt m" "r \<in> {AC_STATUS, AC_ALTSTATUS}"
  shows "dev8 dev l r AND ATS_BSY = 0" "dev8 dev l r AND ATS_DRQ = (if cnt l < m then ATS_DRQ else 0)"
    "dev8 dev l r AND (ATS_DRQ OR ATS_DF OR ATS_ERR) = (if cnt l < m then ATS_DRQ else 0)"
    "dev8 dev l r AND (ATS_DF OR ATS_ERR) = 0"
    "\<not> cnt l < m \<Longrightarrow> dev8 dev l r AND (ATS_DRQ OR ATS_BSY) = 0"
proof -
  have v: "dev8 dev l r AND (ATS_BSY OR ATS_DRQ OR ATS_DF OR ATS_ERR) = (if cnt l < m then ATS_DRQ else 0)"
    using assms unfolding xfer_status_def by blast
  show "dev8 dev l r AND ATS_BSY = 0" using and_submask [OF v, of ATS_BSY] by (simp add: ata_bits split: if_splits)
  show "dev8 dev l r AND ATS_DRQ = (if cnt l < m then ATS_DRQ else 0)"
    using and_submask [OF v, of ATS_DRQ] by (simp add: ata_bits split: if_splits)
  show "dev8 dev l r AND (ATS_DRQ OR ATS_DF OR ATS_ERR) = (if cnt l < m then ATS_DRQ else 0)"
    using and_submask [OF v, of "ATS_DRQ OR ATS_DF OR ATS_ERR"] by (simp add: ata_bits split: if_splits)
  show "dev8 dev l r AND (ATS_DF OR ATS_ERR) = 0"
    using and_submask [OF v, of "ATS_DF OR ATS_ERR"] by (simp add: ata_bits split: if_splits)
  show "\<not> cnt l < m \<Longrightarrow> dev8 dev l r AND (ATS_DRQ OR ATS_BSY) = 0"
    using and_submask [OF v, of "ATS_DRQ OR ATS_BSY"] by (simp add: ata_bits)
qed

text \<open>The count of a chunk.\<close>

lemma pio_count_val:
  assumes "ap_resid k = of_nat r" "r < 2 ^ 63" "ap_bytes_per_block k = of_nat b" "b < 2 ^ 31"
  shows "pio_count k = int (min r b)"
proof -
  have "(of_nat r :: u64) \<le> of_nat b \<longleftrightarrow> r \<le> b"
    using assms by (simp add: word_le_nat_alt unsigned_of_nat take_bit_nat_eq_self)
  then have m: "min (ap_resid k) (ucast (ap_bytes_per_block k)) = of_nat (min r b)"
    using assms by (simp add: of_nat_fits min_def)
  have c: "(ucast (of_nat (min r b) :: u64) :: u32) = of_nat (min r b)"
    using assms by (simp add: of_nat_fits min_def)
  have "min r b < 2147483648" using assms(4) by simp
  then have u: "uint (of_nat (min r b) :: u32) = int (min r b)"
    by (simp add: unsigned_of_nat take_bit_nat_eq_self del: of_nat_min)
  have "signed_take_bit 31 (int (min r b)) = int (min r b)"
    using \<open>min r b < 2147483648\<close> by (intro signed_take_bit_int_eq_self) simp_all
  then show ?thesis unfolding pio_count_def m c sint_uint u by simp
qed

definition pio_pkt :: "ata_pkt \<Rightarrow> nat \<Rightarrow> nat \<Rightarrow> bool" where
  "pio_pkt k r b \<longleftrightarrow> ap_resid k = of_nat r \<and> even r \<and> r < 2 ^ 63 \<and> ap_bytes_per_block k = of_nat b \<and> even b \<and> 0 < b \<and>
     b < 2 ^ 31 \<and> \<not> ap_pciide_dma k \<and> \<not> flag_set (ap_flags k) AP_ERROR"

lemma xfer_in_spec:
  assumes k: "pio_pkt (ac_pkt s p) r b" and c: "c = min r b"
  shows "\<exists>s' new. ata_disk_pio_xfer_data_in dev p s = s' \<and> ac_log s' = ac_log s @ new \<and>
     2 * length (data_words new) = c \<and>
     mem_stores new = stores_at (ap_v_addr (ac_pkt s p)) (le_bytes (data_words new)) \<and>
     pio_pkt (ac_pkt s' p) (r - c) b \<and> ap_v_addr (ac_pkt s' p) = ap_v_addr (ac_pkt s p) + of_nat c"
proof -
  let ?k = "ac_pkt s p"
  have kk: "ap_resid ?k = of_nat r" "even r" "r < 2 ^ 63" "ap_bytes_per_block ?k = of_nat b" "even b" "b < 2 ^ 31"
    using k by (simp_all add: pio_pkt_def)
  have cnt: "pio_count ?k = int c" using pio_count_val [OF kk(1,3,4,6)] c by simp
  have ev: "even c" "c \<le> r" "c < 2 ^ 31" using c kk by (simp_all add: min_def)
  have "c div 2 < 2 ^ 64" using ev(3) by simp
  moreover have "int c div 2 = int (c div 2)" by (simp add: zdiv_int)
  ultimately have n: "unat (of_int (int c div 2) :: u64) = c div 2"
    by (simp only: of_int_of_nat_eq unsigned_of_nat of_nat_id) (simp add: take_bit_nat_eq_self)
  let ?ws = "map (dev16 dev (ac_log s)) [0..<c div 2]"
  let ?s1 = "s\<lparr>ac_log := ac_log s @ [RepGet16 (ap_v_addr ?k) ?ws]\<rparr>"
  have d: "silent ?s1 (delay400 dev ?s1)" by simp
  then obtain new where new: "delay400 dev ?s1 = ?s1\<lparr>ac_log := ac_log ?s1 @ new\<rparr>" "data_words new = []" "mem_stores new = []"
    by (auto simp: silent_def)
  let ?f = "\<lambda>k. k\<lparr>ap_v_addr := ap_v_addr k + of_nat c, ap_resid := ap_resid k - of_nat c\<rparr>"
  have eq: "ata_disk_pio_xfer_data_in dev p s = upd_pkt p ?f (delay400 dev ?s1)"
    unfolding ata_disk_pio_xfer_data_in_def Let_def cnt n by (simp add: ddi_rep_get16_def Let_def)
  have res: "(of_nat r :: u64) - of_nat c = of_nat (r - c)" using ev(2) by (simp add: of_nat_diff)
  show ?thesis
    unfolding eq new(1)
    using k ev res new(2,3)
    by (intro exI [of _ "upd_pkt p ?f (?s1\<lparr>ac_log := ac_log ?s1 @ new\<rparr>)"]
        exI [of _ "RepGet16 (ap_v_addr ?k) ?ws # new"]) (auto simp: upd_pkt_def pio_pkt_def kk(1))
qed

text \<open>One interrupt of a read.\<close>

lemma pio_in_step:
  assumes dev: "xfer_status dev (\<lambda>l. length (data_words l)) m" and k: "pio_pkt (ac_pkt s p) r b" and r: "0 < r"
    and m: "2 * length (data_words (ac_log s)) + r = 2 * m" and c: "c = min r b"
  shows "\<exists>s' new. ata_disk_intr_pio_in dev dr p s = Some (if r \<le> b then ATA_FSM_RC_FINI else ATA_FSM_RC_OKAY, s') \<and>
     ac_log s' = ac_log s @ new \<and> 2 * length (data_words new) = c \<and>
     mem_stores new = stores_at (ap_v_addr (ac_pkt s p)) (le_bytes (data_words new)) \<and>
     pio_pkt (ac_pkt s' p) (r - c) b \<and> ap_v_addr (ac_pkt s' p) = ap_v_addr (ac_pkt s p) + of_nat c"
proof -
  note bits = xfer_status_bits [OF dev]
  have less: "length (data_words (ac_log s)) < m" using m r by simp
  obtain s1 where w: "wait3 dev ATS_DRQ ATS_BSY ATS_ERR ATS_BSY ATS_DF ATS_BSY 4000000 s = Some (True, s1)" "silent s s1"
    using wait3_now [of dev s ATS_DRQ ATS_BSY ATS_ERR ATS_BSY ATS_DF ATS_BSY 4000000] bits(1,2) [of AC_ALTSTATUS "ac_log s"] less
    by (auto simp: has_bits_def no_bits_def)
  have k1: "ac_pkt s1 = ac_pkt s" "data_words (ac_log s1) = data_words (ac_log s)" using silent_facts [OF w(2)] by auto
  obtain l s2 where g: "ata_get_status_clear_intr dev p s1 = (dev8 dev l AC_STATUS, s2)" "silent s1 s2"
    "data_words l = data_words (ac_log s)"
    using pio_status [of s1 p dev] k k1 by (auto simp: pio_pkt_def)
  let ?v = "dev8 dev l AC_STATUS"
  have v: "?v AND ATS_BSY = 0" "?v AND ATS_DRQ = ATS_DRQ" "?v AND (ATS_DRQ OR ATS_DF OR ATS_ERR) = ATS_DRQ"
    using bits(1-3) [of AC_STATUS l] less g(3) by simp_all
  have drq: "ATS_DRQ \<noteq> 0" by (simp add: ata_bits)
  have s2: "silent s s2" by (rule silent_trans [OF w(2) g(2)])
  then obtain n1 where n1: "ac_log s2 = ac_log s @ n1" "data_words n1 = []" "mem_stores n1 = []" "ac_pkt s2 = ac_pkt s"
    by (auto simp: silent_def)
  obtain s3 n2 where x: "ata_disk_pio_xfer_data_in dev p s2 = s3" "ac_log s3 = ac_log s2 @ n2" "2 * length (data_words n2) = c"
     "mem_stores n2 = stores_at (ap_v_addr (ac_pkt s p)) (le_bytes (data_words n2))"
     "pio_pkt (ac_pkt s3 p) (r - c) b" "ap_v_addr (ac_pkt s3 p) = ap_v_addr (ac_pkt s p) + of_nat c"
    using xfer_in_spec [of s2 p r b c dev] k c n1(4) by auto
  have e: "\<not> flag_set (ap_flags (ac_pkt s3 p)) AP_ERROR" using x(5) by (simp add: pio_pkt_def)
  have z: "(ap_resid (ac_pkt s3 p) = 0) = (r \<le> b)"
  proof -
    have "ap_resid (ac_pkt s3 p) = of_nat (r - c)" "r - c < 2 ^ 63" using x(5) by (simp_all add: pio_pkt_def)
    then have "(ap_resid (ac_pkt s3 p) = 0) = (r - c = 0)"
      by (simp only: word_of_nat_eq_0_iff) (auto dest: dvd_imp_le)
    then show ?thesis using c by auto
  qed
  show ?thesis
  proof (cases "r \<le> b")
    case True
    then have "c = r" using c by simp
    then have "\<not> length (data_words (ac_log s3)) < m" using x n1 m by simp
    then obtain s4 where w4: "wait dev 0 (ATS_DRQ OR ATS_BSY) 4000000 s3 = Some (True, s4)" "silent s3 s4"
      using wait_now [of dev s3 0 "ATS_DRQ OR ATS_BSY" 4000000] bits(5) [of AC_ALTSTATUS "ac_log s3"]
      by (auto simp: has_bits_def no_bits_def)
    then obtain n4 where n4: "ac_log s4 = ac_log s3 @ n4" "data_words n4 = []" "mem_stores n4 = []" "ac_pkt s4 = ac_pkt s3"
      by (auto simp: silent_def)
    have "ata_disk_intr_pio_in dev dr p s = Some (ATA_FSM_RC_FINI, s4)"
      using True by (simp add: ata_disk_intr_pio_in_def w(1) g(1) v drq x(1) z w4(1) Let_def)
    then show ?thesis using True x n1 n4 by (intro exI [of _ s4] exI [of _ "n1 @ n2 @ n4"]) simp
  next
    case False
    have "ata_disk_intr_pio_in dev dr p s = Some (ATA_FSM_RC_OKAY, s3)"
      using False by (simp add: ata_disk_intr_pio_in_def w(1) g(1) v drq x(1) z e Let_def)
    then show ?thesis using False x n1 by (intro exI [of _ s3] exI [of _ "n1 @ n2"]) simp
  qed
qed

lemma pio_in_run:
  assumes dev: "xfer_status dev (\<lambda>l. length (data_words l)) m"
  shows "pio_pkt (ac_pkt s p) r b \<Longrightarrow> 0 < r \<Longrightarrow> 2 * length (data_words (ac_log s)) + r = 2 * m \<Longrightarrow>
     n = (r + b - 1) div b \<Longrightarrow>
     \<exists>s' new. intr_run (ata_disk_intr_pio_in dev dr p) n s = Some (ATA_FSM_RC_FINI, s') \<and>
     ac_log s' = ac_log s @ new \<and> 2 * length (data_words new) = r \<and>
     mem_stores new = stores_at (ap_v_addr (ac_pkt s p)) (le_bytes (data_words new)) \<and>
     pio_pkt (ac_pkt s' p) 0 b"
proof (induction n arbitrary: s r)
  case 0
  then have "b \<noteq> 0" by (simp add: pio_pkt_def)
  with 0 show ?case by (simp add: div_eq_0_iff)
next
  case (Suc n)
  have b: "0 < b" using Suc.prems by (simp add: pio_pkt_def)
  obtain s1 n1 where st: "ata_disk_intr_pio_in dev dr p s = Some (if r \<le> b then ATA_FSM_RC_FINI else ATA_FSM_RC_OKAY, s1)"
     "ac_log s1 = ac_log s @ n1" "2 * length (data_words n1) = min r b"
     "mem_stores n1 = stores_at (ap_v_addr (ac_pkt s p)) (le_bytes (data_words n1))"
     "pio_pkt (ac_pkt s1 p) (r - min r b) b" "ap_v_addr (ac_pkt s1 p) = ap_v_addr (ac_pkt s p) + of_nat (min r b)"
    using pio_in_step [OF dev Suc.prems(1-3) refl, of dr] by blast
  show ?case
  proof (cases "r \<le> b")
    case True
    then have "(r + b - 1) div b = 1" using Suc.prems(2) b by (intro div_nat_eqI) simp_all
    with Suc.prems(4) True st show ?thesis by (intro exI [of _ s1] exI [of _ n1]) simp
  next
    case False
    have "n = (r - b + b - 1) div b" using Suc.prems(4) b False by (simp add: div_add_self1 le_div_geq)
    then obtain s' n2 where ih: "intr_run (ata_disk_intr_pio_in dev dr p) n s1 = Some (ATA_FSM_RC_FINI, s')"
      "ac_log s' = ac_log s1 @ n2" "2 * length (data_words n2) = r - b"
      "mem_stores n2 = stores_at (ap_v_addr (ac_pkt s1 p)) (le_bytes (data_words n2))" "pio_pkt (ac_pkt s' p) 0 b"
      using Suc.IH [of s1 "r - b"] st Suc.prems(3) False by auto
    have "of_nat (min r b) = (of_nat (length (le_bytes (data_words n1))) :: u64)" by (simp only: le_bytes_simps(4) st(3))
    with st ih False show ?thesis
      by (intro exI [of _ s'] exI [of _ "n1 @ n2"]) (simp add: stores_at_append)
  qed
qed

lemma sint_small: "c < 2 ^ 31 \<Longrightarrow> sint (of_nat c :: u32) = int c"
proof -
  assume c: "c < 2 ^ 31"
  then have u: "uint (of_nat c :: u32) = int c" by (simp add: unsigned_of_nat take_bit_nat_eq_self)
  show ?thesis unfolding sint_uint u using c by (intro signed_take_bit_int_eq_self) simp_all
qed

text \<open>A chunk of a write.\<close>

lemma xfer_out_spec:
  assumes k: "pio_pkt (ac_pkt s p) r b" and c: "c = min r b"
  shows "\<exists>s' new. ata_disk_pio_xfer_data_out dev p s = s' \<and> ac_log s' = ac_log s @ new \<and>
     mem_loads new = addrs_from (ap_v_addr (ac_pkt s p)) c \<and> ac_pkt s' p = (ac_pkt s p)\<lparr>ap_wrt_count := of_nat c\<rparr>"
proof -
  let ?k = "ac_pkt s p"
  have kk: "ap_resid ?k = of_nat r" "even r" "r < 2 ^ 63" "ap_bytes_per_block ?k = of_nat b" "even b" "b < 2 ^ 31"
    using k by (simp_all add: pio_pkt_def)
  have cnt: "pio_count ?k = int c" using pio_count_val [OF kk(1,3,4,6)] c by simp
  have ev: "even c" "c < 2 ^ 31" using c kk by (simp_all add: min_def)
  have "c div 2 < 2 ^ 64" using ev(2) by simp
  moreover have "int c div 2 = int (c div 2)" by (simp add: zdiv_int)
  ultimately have n: "unat (of_int (int c div 2) :: u64) = c div 2"
    by (simp only: of_int_of_nat_eq unsigned_of_nat of_nat_id) (simp add: take_bit_nat_eq_self)
  let ?s1 = "log_event (RepPut16 (ap_v_addr ?k) (c div 2)) s"
  have "silent ?s1 (delay400 dev ?s1)" by simp
  then obtain new where new: "delay400 dev ?s1 = ?s1\<lparr>ac_log := ac_log ?s1 @ new\<rparr>" "mem_loads new = []"
    by (auto simp: silent_def)
  have eq: "ata_disk_pio_xfer_data_out dev p s = upd_pkt p (\<lambda>k. k\<lparr>ap_wrt_count := of_nat c\<rparr>) (delay400 dev ?s1)"
    unfolding ata_disk_pio_xfer_data_out_def Let_def cnt n by simp
  have "2 * (c div 2) = c" using ev(1) by simp
  then show ?thesis
    unfolding eq new(1) using new(2)
    by (intro exI [of _ "upd_pkt p (\<lambda>k. k\<lparr>ap_wrt_count := of_nat c\<rparr>) (?s1\<lparr>ac_log := ac_log ?s1 @ new\<rparr>)"]
        exI [of _ "RepPut16 (ap_v_addr ?k) (c div 2) # new"]) (simp add: upd_pkt_def log_event_def)
qed

lemma pio_out_step:
  assumes dev: "xfer_status dev (\<lambda>l. length (mem_loads l)) m" and k: "pio_pkt (ac_pkt s p) r b"
    and c: "ap_wrt_count (ac_pkt s p) = of_nat c" "c \<le> r" "even c" "c < 2 ^ 31"
    and m: "length (mem_loads (ac_log s)) + (r - c) = m"
  shows "\<exists>s' new. ata_disk_intr_pio_out dev dr p s = Some (if r = c then ATA_FSM_RC_FINI else ATA_FSM_RC_OKAY, s') \<and>
     ac_log s' = ac_log s @ new \<and> mem_loads new = addrs_from (ap_v_addr (ac_pkt s p) + of_nat c) (min (r - c) b) \<and>
     pio_pkt (ac_pkt s' p) (r - c) b \<and> ap_v_addr (ac_pkt s' p) = ap_v_addr (ac_pkt s p) + of_nat c \<and>
     (r \<noteq> c \<longrightarrow> ap_wrt_count (ac_pkt s' p) = of_nat (min (r - c) b))"
proof -
  note bits = xfer_status_bits [OF dev]
  have w: "sint (ap_wrt_count (ac_pkt s p)) = int c" unfolding c(1) by (rule sint_small [OF c(4)])
  obtain l s1 where g: "ata_get_status_clear_intr dev p s = (dev8 dev l AC_STATUS, s1)" "silent s s1"
    using pio_status [of s p dev] k by (auto simp: pio_pkt_def)
  have v: "dev8 dev l AC_STATUS AND (ATS_DF OR ATS_ERR) = 0" using bits(4) by simp
  let ?s2 = "upd_pkt p (\<lambda>k. k\<lparr>ap_v_addr := ap_v_addr k + of_nat c, ap_resid := ap_resid k - of_nat c\<rparr>) s1"
  obtain n1 where n1: "ac_log s1 = ac_log s @ n1" "mem_loads n1 = []" "ac_pkt s1 = ac_pkt s"
    using g(2) by (auto simp: silent_def)
  have res: "(of_nat r :: u64) - of_nat c = of_nat (r - c)" using c(2) by (simp add: of_nat_diff)
  have "r - c < 2 ^ 63" using k by (simp add: pio_pkt_def less_imp_diff_less)
  then have k2: "pio_pkt (ac_pkt ?s2 p) (r - c) b" "ap_v_addr (ac_pkt ?s2 p) = ap_v_addr (ac_pkt s p) + of_nat c"
    "ac_log ?s2 = ac_log s @ n1"
    using k c(2,3) res n1 by (simp_all add: upd_pkt_def pio_pkt_def)
  have z: "(ap_resid (ac_pkt ?s2 p) = 0) = (r = c)"
  proof -
    have "ap_resid (ac_pkt ?s2 p) = of_nat (r - c)" "r - c < 2 ^ 63" using k2(1) by (simp_all add: pio_pkt_def)
    then have "(ap_resid (ac_pkt ?s2 p) = 0) = (r - c = 0)"
      by (simp only: word_of_nat_eq_0_iff) (auto dest: dvd_imp_le)
    then show ?thesis using c(2) by auto
  qed
  show ?thesis
  proof (cases "r = c")
    case True
    have "ata_disk_intr_pio_out dev dr p s = Some (ATA_FSM_RC_FINI, ?s2)"
      using True z by (simp add: ata_disk_intr_pio_out_def w g(1) v Let_def)
    then show ?thesis using True k2 n1(2) by (intro exI [of _ ?s2] exI [of _ n1]) simp
  next
    case False
    then have less: "length (mem_loads (ac_log ?s2)) < m" using m c(2) k2(3) n1(2) by simp
    obtain s3 where w3: "wait3 dev ATS_DRQ ATS_BSY ATS_ERR ATS_BSY ATS_DF ATS_BSY 4000000 ?s2 = Some (True, s3)" "silent ?s2 s3"
      using wait3_now [of dev ?s2 ATS_DRQ ATS_BSY ATS_ERR ATS_BSY ATS_DF ATS_BSY 4000000]
        bits(1,2) [of AC_ALTSTATUS "ac_log ?s2"] less by (auto simp: has_bits_def no_bits_def)
    let ?v = "dev8 dev (ac_log s3) AC_ALTSTATUS"
    obtain s4 where g4: "get8 dev AC_ALTSTATUS s3 = (?v, s4)" "silent s3 s4"
      using silent_io(2) [of s3 dev AC_ALTSTATUS] by (simp add: get8_pair)
    have s4: "silent ?s2 s4" by (rule silent_trans [OF w3(2) g4(2)])
    have v3: "?v AND ATS_BSY = 0" "?v AND (ATS_DRQ OR ATS_DF OR ATS_ERR) = ATS_DRQ"
      using bits(1,3) [of AC_ALTSTATUS "ac_log s3"] less silent_facts(3) [OF w3(2)] by simp_all
    obtain n2 where n2: "ac_log s4 = ac_log ?s2 @ n2" "mem_loads n2 = []" "ac_pkt s4 = ac_pkt ?s2"
      using s4 by (auto simp: silent_def)
    have k4: "pio_pkt (ac_pkt s4 p) (r - c) b" using k2(1) n2(3) by simp
    obtain s5 n3 where x: "ata_disk_pio_xfer_data_out dev p s4 = s5" "ac_log s5 = ac_log s4 @ n3"
       "mem_loads n3 = addrs_from (ap_v_addr (ac_pkt ?s2 p)) (min (r - c) b)"
       "ac_pkt s5 p = (ac_pkt ?s2 p)\<lparr>ap_wrt_count := of_nat (min (r - c) b)\<rparr>"
      using xfer_out_spec [OF k4 refl, of dev] unfolding n2(3) by blast
    have run: "ata_disk_intr_pio_out dev dr p s = Some (ATA_FSM_RC_OKAY, s5)"
      using False z by (simp add: ata_disk_intr_pio_out_def w g(1) v w3(1) g4(1) v3 x(1) Let_def)
    have "pio_pkt (ac_pkt s5 p) (r - c) b" using k2(1) x(4) by (simp add: pio_pkt_def)
    with run False x n1(2) n2(1,2) k2(2,3) show ?thesis
      by (intro exI [of _ s5] exI [of _ "n1 @ n2 @ n3"]) simp
  qed
qed

lemma pio_out_run:
  assumes dev: "xfer_status dev (\<lambda>l. length (mem_loads l)) m"
  shows "pio_pkt (ac_pkt s p) r b \<Longrightarrow> ap_wrt_count (ac_pkt s p) = of_nat c \<Longrightarrow> c \<le> r \<Longrightarrow> even c \<Longrightarrow> c < 2 ^ 31 \<Longrightarrow>
     length (mem_loads (ac_log s)) + (r - c) = m \<Longrightarrow> n = Suc ((r - c + b - 1) div b) \<Longrightarrow>
     \<exists>s' new. intr_run (ata_disk_intr_pio_out dev dr p) n s = Some (ATA_FSM_RC_FINI, s') \<and>
     ac_log s' = ac_log s @ new \<and> mem_loads new = addrs_from (ap_v_addr (ac_pkt s p) + of_nat c) (r - c) \<and>
     pio_pkt (ac_pkt s' p) 0 b"
proof (induction n arbitrary: s r c)
  case (Suc n)
  have b: "0 < b" "even b" "b < 2 ^ 31" "even r" using Suc.prems(1) by (simp_all add: pio_pkt_def)
  obtain s1 n1 where st: "ata_disk_intr_pio_out dev dr p s = Some (if r = c then ATA_FSM_RC_FINI else ATA_FSM_RC_OKAY, s1)"
     "ac_log s1 = ac_log s @ n1" "mem_loads n1 = addrs_from (ap_v_addr (ac_pkt s p) + of_nat c) (min (r - c) b)"
     "pio_pkt (ac_pkt s1 p) (r - c) b" "ap_v_addr (ac_pkt s1 p) = ap_v_addr (ac_pkt s p) + of_nat c"
     "r \<noteq> c \<longrightarrow> ap_wrt_count (ac_pkt s1 p) = of_nat (min (r - c) b)"
    using pio_out_step [OF dev Suc.prems(1-6), of dr] by blast
  show ?case
  proof (cases "r = c")
    case True
    then have "n = 0" using Suc.prems(7) b(1) by simp
    with True st show ?thesis by (intro exI [of _ s1] exI [of _ n1]) simp
  next
    case False
    let ?c = "min (r - c) b"
    have c: "?c \<le> r - c" "even ?c" "?c < 2 ^ 31" using b Suc.prems(3,4) by (simp_all add: min_def)
    have pos: "0 < r - c" using False Suc.prems(3) by simp
    have n: "n = Suc ((r - c - ?c + b - 1) div b)"
    proof (cases "r - c \<le> b")
      case True
      then have "(r - c + b - 1) div b = 1" using pos b(1) by (intro div_nat_eqI) simp_all
      with True Suc.prems(7) b(1) show ?thesis by simp
    next
      case False
      then have cb: "?c = b" and e: "r - c + b - 1 = (r - c - b + b - 1) + b" using b(1) by arith+
      have "(r - c + b - 1) div b = Suc ((r - c - b + b - 1) div b)"
        unfolding e using b(1) by (rule div_add_self2 [THEN trans, OF _ Suc_eq_plus1 [symmetric], OF less_imp_neq [symmetric]])
      with Suc.prems(7) show ?thesis unfolding cb by (simp only: nat.inject)
    qed
    have m: "length (mem_loads (ac_log s1)) + (r - c - ?c) = m"
      using st(2,3) Suc.prems(6) by simp
    have wr: "ap_wrt_count (ac_pkt s1 p) = of_nat ?c" using st(6) False by simp
    obtain s' n2 where ih: "intr_run (ata_disk_intr_pio_out dev dr p) n s1 = Some (ATA_FSM_RC_FINI, s')"
      "ac_log s' = ac_log s1 @ n2" "mem_loads n2 = addrs_from (ap_v_addr (ac_pkt s1 p) + of_nat ?c) (r - c - ?c)"
      "pio_pkt (ac_pkt s' p) 0 b"
      using Suc.IH [OF st(4) wr c m n] by blast
    have "addrs_from (ap_v_addr (ac_pkt s p) + of_nat c) (r - c) = mem_loads n1 @ mem_loads n2"
      using addrs_from_add [of "ap_v_addr (ac_pkt s p) + of_nat c" ?c "r - c - ?c"] le_add_diff_inverse [OF c(1)]
      unfolding st(3,5) ih(3) by (simp only: )
    with st ih False show ?thesis
      by (intro exI [of _ s'] exI [of _ "n1 @ n2"]) simp
  qed
qed simp

text \<open>C7: a whole PIO read. A drive that shows DRQ exactly until it has delivered the \<open>w\<close> words
  of the request, without error, has the request ended by exactly the number of interrupts that
  blocks of \<open>b\<close> bytes need, no earlier and no later; the words delivered, and nothing else, are stored in order from the start of the buffer,
  none is left (\<open>ap_resid\<close> is zero) and no error is flagged.\<close>

theorem disk_pio_read_complete:
  assumes "pio_pkt (ac_pkt s p) (2 * w) b" and "0 < w"
    and "xfer_status dev (\<lambda>l. length (data_words l)) (length (data_words (ac_log s)) + w)"
  shows "\<exists>s' new. intr_run (ata_disk_intr_pio_in dev dr p) ((2 * w + b - 1) div b) s = Some (ATA_FSM_RC_FINI, s') \<and>
     ac_log s' = ac_log s @ new \<and> length (data_words new) = w \<and>
     mem_stores new = stores_at (ap_v_addr (ac_pkt s p)) (le_bytes (data_words new)) \<and>
     ap_resid (ac_pkt s' p) = 0 \<and> \<not> flag_set (ap_flags (ac_pkt s' p)) AP_ERROR"
proof -
  obtain s' new where "intr_run (ata_disk_intr_pio_in dev dr p) ((2 * w + b - 1) div b) s = Some (ATA_FSM_RC_FINI, s')"
     "ac_log s' = ac_log s @ new" "2 * length (data_words new) = 2 * w"
     "mem_stores new = stores_at (ap_v_addr (ac_pkt s p)) (le_bytes (data_words new))" "pio_pkt (ac_pkt s' p) 0 b"
    using pio_in_run [OF assms(3,1) _ _ refl, of dr] assms(2) by auto
  then show ?thesis by (intro exI [of _ s'] exI [of _ new]) (simp add: pio_pkt_def)
qed

definition ctl_pio :: ata_ctl where
  "ctl_pio = ctl0\<lparr>ac_drvp := (\<lambda>t l. if t = 0 \<and> l = 0 then Some (disk0 0xe0) else None),
     ac_pkt := (\<lambda>p. pkt0\<lparr>ap_resid := 1536, ap_bytes_per_block := 1024, ap_v_addr := 0x4000\<rparr>)\<rparr>"

lemma ctl_pio_pkt: "pio_pkt (ac_pkt ctl_pio p) (2 * 768) 1024"
  by (simp add: ctl_pio_def pio_pkt_def pkt0_def flag_set_def)

text \<open>Three sectors in blocks of two: two interrupts.\<close>

theorem disk_pio_read_witness:
  "\<exists>s' new. intr_run (ata_disk_intr_pio_in
       \<lparr>dev8 = \<lambda>l r. if length (data_words l) < 768 then 0x58 else 0x50, dev16 = \<lambda>l n. of_nat n\<rparr> (0, 0) ArqPkt) 2 ctl_pio =
       Some (ATA_FSM_RC_FINI, s') \<and>
     ac_log s' = new \<and> mem_stores new = stores_at 0x4000 (le_bytes (data_words new)) \<and> length (data_words new) = 768"
proof -
  let ?d = "\<lparr>dev8 = \<lambda>l r. if length (data_words l) < 768 then 0x58 else 0x50, dev16 = \<lambda>l n. of_nat n\<rparr>"
  have log: "ac_log ctl_pio = []" "ap_v_addr (ac_pkt ctl_pio ArqPkt) = 0x4000"
    by (simp_all add: ctl_pio_def ctl0_def)
  have d: "xfer_status ?d (\<lambda>l. length (data_words l)) (length (data_words (ac_log ctl_pio)) + 768)"
    by (simp add: xfer_status_def log ata_bits)
  show ?thesis
    using disk_pio_read_complete [OF ctl_pio_pkt [of ArqPkt] _ d, of "(0, 0)"] by (auto simp: log)
qed

text \<open>C8: a whole PIO write. The start callback has reset \<open>ap_wrt_count\<close> and faked the first interrupt.
  A drive that asks for data exactly until it has taken the \<open>w\<close> words of the request, without error, has the
  request ended by exactly one interrupt more than the blocks of \<open>b\<close> bytes it needs, no earlier; the words sent are
  those of the buffer, each once and in order, none is left and no error is flagged.\<close>

theorem disk_pio_write_complete:
  assumes "pio_pkt (ac_pkt s p) (2 * w) b" and "ap_wrt_count (ac_pkt s p) = 0"
    and "xfer_status dev (\<lambda>l. length (mem_loads l)) (length (mem_loads (ac_log s)) + 2 * w)"
  shows "\<exists>s' new. intr_run (ata_disk_intr_pio_out dev dr p) (Suc ((2 * w + b - 1) div b)) s = Some (ATA_FSM_RC_FINI, s') \<and>
     ac_log s' = ac_log s @ new \<and> mem_loads new = addrs_from (ap_v_addr (ac_pkt s p)) (2 * w) \<and>
     ap_resid (ac_pkt s' p) = 0 \<and> \<not> flag_set (ap_flags (ac_pkt s' p)) AP_ERROR"
proof -
  have wc: "ap_wrt_count (ac_pkt s p) = of_nat 0" using assms(2) by simp
  obtain s' new where "intr_run (ata_disk_intr_pio_out dev dr p) (Suc ((2 * w - 0 + b - 1) div b)) s = Some (ATA_FSM_RC_FINI, s')"
     "ac_log s' = ac_log s @ new" "mem_loads new = addrs_from (ap_v_addr (ac_pkt s p) + of_nat 0) (2 * w - 0)"
     "pio_pkt (ac_pkt s' p) 0 b"
    using pio_out_run [OF assms(3,1) wc _ _ _ _ refl, of dr] by auto
  then show ?thesis by (intro exI [of _ s'] exI [of _ new]) (simp add: pio_pkt_def)
qed

theorem disk_pio_write_witness:
  "\<exists>s' new. intr_run (ata_disk_intr_pio_out
       \<lparr>dev8 = \<lambda>l r. if length (mem_loads l) < 1536 then 0x58 else 0x50, dev16 = \<lambda>l n. 0\<rparr> (0, 0) ArqPkt) 3 ctl_pio =
       Some (ATA_FSM_RC_FINI, s') \<and> mem_loads (ac_log s') = addrs_from 0x4000 1536"
proof -
  let ?d = "\<lparr>dev8 = \<lambda>l r. if length (mem_loads l) < 1536 then 0x58 else 0x50, dev16 = \<lambda>l n. 0\<rparr>"
  have log: "ac_log ctl_pio = []" "ap_v_addr (ac_pkt ctl_pio ArqPkt) = 0x4000" "ap_wrt_count (ac_pkt ctl_pio ArqPkt) = 0"
    by (simp_all add: ctl_pio_def ctl0_def pkt0_def)
  have d: "xfer_status ?d (\<lambda>l. length (mem_loads l)) (length (mem_loads (ac_log ctl_pio)) + 2 * 768)"
    by (simp add: xfer_status_def log ata_bits)
  show ?thesis
    using disk_pio_write_complete [OF ctl_pio_pkt [of ArqPkt] log(3) d, of "(0, 0)"] by (auto simp: log)
qed

subsection \<open>Block addresses\<close>

text \<open>C9: the block address survives the registers. With a drive that keeps its task file as written, the address
  read back after loading is the request's start sector, for every start sector: modulo \<open>2 ^ 28\<close>, modulo
  \<open>2 ^ 48\<close>, and in cylinder mode exactly, for a usable geometry and every
  sector that \<open>2 ^ 16\<close> cylinders of it hold.\<close>

theorem block_address_roundtrip:
  assumes "holds_task_file dev" "\<not> hob (ac_log s)" "ad_drive_bits (drv s dr) AND 0xf = 0"
  shows "fst (ata_last_block_xferred_lba28 dev (ata_disk_load_regs_lba28 dr p s)) = take_bit 28 (ap_startsec (ac_pkt s p)) \<and>
    fst (ata_last_block_xferred_lba48 dev (ata_disk_load_regs_lba48 dr p s)) = take_bit 48 (ap_startsec (ac_pkt s p)) \<and>
    (0 < ad_phhd (drv s dr) \<and> ad_phhd (drv s dr) \<le> 16 \<and> 0 < ad_phsec (drv s dr) \<and> ad_phsec (drv s dr) < 256 \<and>
      unat (ap_startsec (ac_pkt s p)) < 65536 * unat (ad_phhd (drv s dr)) * unat (ad_phsec (drv s dr)) \<longrightarrow>
      (\<exists>s'. ata_disk_load_regs_chs dr p s = Some s' \<and>
        fst (ata_last_block_xferred_chs dev dr s') = ap_startsec (ac_pkt s p)))"
  using lba28_roundtrip [OF assms] lba48_roundtrip [OF assms(1)] chs_roundtrip [OF assms] by blast

theorem block_address_witness:
  "\<exists>s'. ata_disk_load_regs_chs (0, 0) ArqPkt (ctl_lba28 1000000 1) = Some s' \<and>
     fst (ata_last_block_xferred_chs \<lparr>dev8 = \<lambda>l r. reg_value (hob l) (reg_writes r l), dev16 = \<lambda>l n. 0\<rparr> (0, 0) s') = 1000000"
proof -
  let ?d = "\<lparr>dev8 = \<lambda>l r. reg_value (hob l) (reg_writes r l), dev16 = \<lambda>l n. 0\<rparr>" and ?s = "ctl_lba28 1000000 1"
  have d: "holds_task_file ?d" "\<not> hob (ac_log ?s)" "drv ?s (0, 0) = disk0 0xe0" "ap_startsec (ac_pkt ?s ArqPkt) = 1000000"
    by (simp_all add: holds_task_file_def hob_def ctl_lba28_def ctl0_def drv_def)
  then show ?thesis
    using block_address_roundtrip [of ?d ?s "(0, 0)" ArqPkt] by (simp add: disk0_def)
qed

subsection \<open>Completion\<close>

text \<open>how a finished disk command is reported. The residual count is copied; the command
  succeeds exactly when no error, abort, timeout or bus reset was flagged; a flagged error yields the first
  matching code of the error register, then of the status register, where the top error bit
  means a CRC error from ATA-4 on and a bad block before; anything else is reported as aborted.\<close>

theorem disk_complete_reports:
  "\<exists>k' c'. ata_disk_complete d k c = (k', c') \<and> cp_resid c' = ap_resid k \<and>
     (cp_reason c' = CPS_SUCCESS) = (ap_scb k' = DERR_SUCCESS) \<and>
     (cp_reason c' = CPS_SUCCESS) = (ap_flags k AND (AP_ERROR OR AP_ABORT OR AP_TIMEOUT OR AP_BUS_RESET) = 0) \<and>
     (cp_reason c' \<noteq> CPS_SUCCESS \<longrightarrow> cp_reason c' = CPS_CHKERR) \<and>
     (ap_flags k AND AP_ERROR \<noteq> 0 \<longrightarrow>
        (ap_scb k' = DERR_ICRC) = (bit (ap_error k) 7 \<and> IS_ATA_VERSION_GE (ad_id d) 4) \<and>
        (ap_scb k' = DERR_BBK) = (bit (ap_error k) 7 \<and> \<not> IS_ATA_VERSION_GE (ad_id d) 4) \<and>
        (ap_scb k' = DERR_UNC) = (bit (ap_error k) 6 \<and> \<not> bit (ap_error k) 7) \<and>
        (ap_scb k' = DERR_ABORT) = (ap_error k AND 0xd3 = 0 \<and> ap_status k AND (ATS_BSY OR ATS_DF) = 0)) \<and>
     (ap_flags k AND AP_ERROR = 0 \<and> cp_reason c' \<noteq> CPS_SUCCESS \<longrightarrow> ap_scb k' = DERR_ABORT)"
proof -
  let ?f = "ap_flags k"
  have fl: "(?f AND (AP_ERROR OR AP_ABORT OR AP_TIMEOUT OR AP_BUS_RESET) = 0) =
      (?f AND AP_ERROR = 0 \<and> ?f AND (AP_ABORT OR AP_TIMEOUT OR AP_BUS_RESET) = 0)"
    by (simp only: bit.conj_disj_distrib or_eq_0_iff)
  have e: "(ap_error k AND ATE_BBK_ICRC \<noteq> 0) = bit (ap_error k) 7" "(ap_error k AND ATE_UNC \<noteq> 0) = bit (ap_error k) 6"
    using and_exp_eq_0_iff_not_bit [of "ap_error k" 7] and_exp_eq_0_iff_not_bit [of "ap_error k" 6]
    by (simp_all add: ATE_BBK_ICRC_def ATE_UNC_def)
  have m: "(ap_error k AND 0xd3 = 0) = (ap_error k AND ATE_BBK_ICRC = 0 \<and> ap_error k AND ATE_UNC = 0 \<and>
      ap_error k AND ATE_IDNF = 0 \<and> ap_error k AND ATE_TKONF = 0 \<and> ap_error k AND ATE_AMNF = 0)"
  proof -
    have "(0xd3 :: u8) = ATE_BBK_ICRC OR ATE_UNC OR ATE_IDNF OR ATE_TKONF OR ATE_AMNF"
      by (simp add: ATE_BBK_ICRC_def ATE_UNC_def ATE_IDNF_def ATE_TKONF_def ATE_AMNF_def)
    then show ?thesis by (simp only: bit.conj_disj_distrib or_eq_0_iff)
  qed
  have st: "(ap_status k AND (ATS_BSY OR ATS_DF) = 0) = (ap_status k AND ATS_BSY = 0 \<and> ap_status k AND ATS_DF = 0)"
    by (simp only: bit.conj_disj_distrib or_eq_0_iff)
  show ?thesis
    unfolding fl m st e(1) [symmetric] e(2) [symmetric]
    by (cases "?f AND AP_ERROR = 0") (auto simp: ata_disk_complete_def flag_set_def Let_def)
qed

definition cmpkt0 :: cmpkt where
  "cmpkt0 = \<lparr>cp_reason = CPS_FAILURE, cp_time = 0, cp_resid = 0, cp_byteleft = 0, cp_bytexfer = 0, cp_srtsec = 0,
     cp_secleft = 0, cp_retry = 0, cp_passthru = None\<rparr>"

theorem disk_complete_witness:
  "\<exists>k' c'. ata_disk_complete (disk0 0xe0) (pkt0\<lparr>ap_flags := 0x2, ap_error := 0x41\<rparr>) cmpkt0 = (k', c') \<and>
     ap_scb k' = DERR_UNC \<and> cp_reason c' = CPS_CHKERR"
proof -
  have b: "\<not> bit (0x41 :: u8) 7" "bit (0x41 :: u8) 6" by (simp_all add: bit_numeral_rec)
  have f: "(0x2 :: u32) AND AP_ERROR \<noteq> 0" "(0x2 :: u32) AND (AP_ERROR OR AP_ABORT OR AP_TIMEOUT OR AP_BUS_RESET) \<noteq> 0"
    by (simp_all add: ap_flag_defs)
  show ?thesis
    using disk_complete_reports [of "disk0 0xe0" "pkt0\<lparr>ap_flags := 0x2, ap_error := 0x41\<rparr>" cmpkt0] b f by auto
qed

end
