(* ===== verification/Ata_Disk_Setup.thy ===== *)
theory Ata_Disk_Setup
  imports Ata_Disk
begin

text \<open>
  Setting up ATA disk drives (\<open>ata_disk.c\<close>): identify data, LBA and 48-bit support, capacity and
  geometry, the parameters programmed into the drive (also after every reset), and preparing a
  request (\<open>ata_disk_iosetup\<close>).
\<close>

subsection \<open>Identify data\<close>

definition ATC_ID_DEVICE :: u8 where "ATC_ID_DEVICE = 0xec"
definition ATA_ID_COMPACT_FLASH :: u16 where "ATA_ID_COMPACT_FLASH = 0x848a"
definition ATA_ID_CF_TO_ATA :: u16 where "ATA_ID_CF_TO_ATA = 0x040a"
definition ATA_ID_REM_DRV :: u16 where "ATA_ID_REM_DRV = 0x80"
definition ATAC_LBA_SUPPORT :: u16 where "ATAC_LBA_SUPPORT = 0x0200"
definition ATAC_ATA_TYPE_MASK :: u16 where "ATAC_ATA_TYPE_MASK = 0x8001"
definition ATAC_ATA_TYPE :: u16 where "ATAC_ATA_TYPE = 0x0000"
definition ATACS_EXT48 :: u16 where "ATACS_EXT48 = 0x0400"
definition MAX_28BIT_CAPACITY :: u64 where "MAX_28BIT_CAPACITY = 0xfffffff"

text \<open>The buffer overlaid by \<open>struct ata_id\<close>; strings are the bytes of their words in memory order.\<close>

definition id_bytes :: "u16 list \<Rightarrow> nat \<Rightarrow> nat \<Rightarrow> u8 list" where
  "id_bytes ws i n = le_bytes (take n (drop i ws))"

definition ata_id_of_words :: "u16 list \<Rightarrow> ata_id" where
  "ata_id_of_words ws = \<lparr>ai_config = ws ! 0, ai_fixcyls = ws ! 1, ai_heads = ws ! 3, ai_sectors = ws ! 6,
     ai_drvser = id_bytes ws 10 10, ai_fw = id_bytes ws 23 4, ai_model = id_bytes ws 27 20, ai_mult1 = ws ! 47,
     ai_cap = ws ! 49, ai_validinfo = ws ! 53, ai_curcyls = ws ! 54, ai_curheads = ws ! 55, ai_cursectrk = ws ! 56,
     ai_cursccp0 = ws ! 57, ai_cursccp1 = ws ! 58, ai_mult2 = ws ! 59, ai_addrsec0 = ws ! 60, ai_addrsec1 = ws ! 61,
     ai_dworddma = ws ! 63, ai_advpiomode = ws ! 64, ai_majorversion = ws ! 80, ai_cmdset83 = ws ! 83,
     ai_features85 = ws ! 85, ai_features86 = ws ! 86, ai_ultradma = ws ! 88, ai_addrsecxt = take 4 (drop 100 ws)\<rparr>"

definition sol11ata_disk_id :: "device \<Rightarrow> iolog \<Rightarrow> (bool \<times> ata_id \<times> iolog) option" where
  "sol11ata_disk_id dev l = do {
     (rc, ws, l) \<leftarrow> ata_id_common dev ATC_ID_DEVICE True l;
     let idp = ata_id_of_words ws;
     if \<not> rc then Some (False, idp, l)
     else do {
       let idp = (if ai_config idp = ATA_ID_COMPACT_FLASH then idp\<lparr>ai_config := ATA_ID_CF_TO_ATA\<rparr> else idp);
       if ai_config idp AND ATAC_ATA_TYPE_MASK \<noteq> ATAC_ATA_TYPE then Some (False, idp, l)
       else if ai_heads idp = 0 \<or> ai_sectors idp = 0 then Some (False, idp, l)
       else Some (True, idp, l)
     }
   }"

definition ata_test_lba_support :: "ata_id \<Rightarrow> bool" where
  "ata_test_lba_support idp \<longleftrightarrow>
     ai_majorversion idp \<noteq> 0xffff \<and> ai_majorversion idp \<ge> 8 \<or> ai_cap idp AND ATAC_LBA_SUPPORT \<noteq> 0"

subsection \<open>Geometry and capacity\<close>

definition ata_fixup_ata6_geometry :: "ata_id \<Rightarrow> ata_id" where
  "ata_fixup_ata6_geometry idp =
    (if ai_heads idp \<noteq> 0 \<and> ai_heads idp \<noteq> 0xffff \<and> ai_sectors idp \<noteq> 0 \<and> ai_sectors idp \<noteq> 0xffff \<and>
        ai_fixcyls idp \<noteq> 0
     then idp
     else idp\<lparr>ai_heads := 0x10, ai_sectors := 0x3f, ai_fixcyls := 1\<rparr>)"

text \<open>The arithmetic is \<open>int\<close>, widened to \<open>uint64_t\<close> with its sign.\<close>

definition ata_calculate_28bits_capacity :: "ata_drv \<Rightarrow> u64" where
  "ata_calculate_28bits_capacity d =
    (let idp = ad_id d
     in if ad_drive_bits d AND ATDH_LBA \<noteq> 0
        then scast (ucast (ai_addrsec0 idp) + ucast (ai_addrsec1 idp) * 0x10000 :: u32)
        else (let curcap = ucast (ai_cursccp0 idp) + ucast (ai_cursccp1 idp) * 0x10000 :: u32
              in if ai_validinfo idp AND 1 = 1 \<and> ai_curheads idp \<ge> 1 \<and> ai_curheads idp \<le> 16 \<and>
                    ai_cursectrk idp \<ge> 1 \<and> ai_cursectrk idp \<le> 63 \<and>
                    curcap = ucast (ai_curcyls idp) * ucast (ai_curheads idp) * ucast (ai_cursectrk idp)
                 then ucast curcap
                 else scast (ucast (ai_fixcyls idp) * ucast (ai_heads idp) * ucast (ai_sectors idp) :: u32)))"

definition ata_calculate_48bits_capacity :: "ata_drv \<Rightarrow> u64" where
  "ata_calculate_48bits_capacity d =
     foldr (\<lambda>w cap48. push_bit 16 cap48 + ucast w) (take 4 (ai_addrsecxt (ad_id d))) 0"

text \<open>The mode (48-bit or not), the capacity, and the drive with its identify data fixed up.\<close>

definition ata_get_capacity :: "ata_drv \<Rightarrow> bool \<times> u64 \<times> ata_drv" where
  "ata_get_capacity d =
    (let cap28 = ata_calculate_28bits_capacity d
     in if \<not> IS_ATA_VERSION_SUPPORTED (ad_id d) 6 then (False, cap28, d)
        else if ai_cmdset83 (ad_id d) AND ATACS_EXT48 = 0 then (False, cap28, d)
        else if ai_features86 (ad_id d) AND ATACS_EXT48 = 0 then (False, cap28, d)
        else (let d = d\<lparr>ad_id := ata_fixup_ata6_geometry (ad_id d)\<rparr>;
                  cap48 = ata_calculate_48bits_capacity d
              in if cap48 \<le> MAX_28BIT_CAPACITY then (False, cap28, d)
                 else if cap28 \<noteq> MAX_28BIT_CAPACITY then (False, cap28, d)
                 else (True, cap48, d)))"

definition USHRT_MAX :: nat where "USHRT_MAX = 65535"

function fix_geometry_loop :: "ata_drv \<Rightarrow> ata_drv" where
  "fix_geometry_loop d =
    (if unat (ad_drvrcyl d) > USHRT_MAX
     then (let tempheads = sint (2 * ad_drvrhd d)
           in if tempheads > int USHRT_MAX then d\<lparr>ad_drvrcyl := of_nat USHRT_MAX\<rparr>
              else fix_geometry_loop (d\<lparr>ad_drvrcyl := ad_drvrcyl d div 2, ad_drvrhd := ad_drvrhd d * 2\<rparr>))
     else d)"
  by pat_completeness auto
termination
proof (relation "measure (\<lambda>d. unat (ad_drvrcyl d))", simp, goal_cases)
  case (1 d t)
  then have "unat (ad_drvrcyl d) div 2 < unat (ad_drvrcyl d)" by (simp add: USHRT_MAX_def)
  then show ?case by (simp add: unat_div_distrib)
qed

declare fix_geometry_loop.simps [simp del]

definition ata_fix_large_disk_geometry :: "ata_drv \<Rightarrow> ata_drv" where
  "ata_fix_large_disk_geometry d =
    (if ad_drive_bits d AND ATDH_LBA = 0 then d else fix_geometry_loop d)"

subsection \<open>Parameters of the drive\<close>

definition ATC_SETPARAM :: u8 where "ATC_SETPARAM = 0x91"
definition ATC_SETMULT :: u8 where "ATC_SETMULT = 0xc6"
definition ATC_RDMULT :: u8 where "ATC_RDMULT = 0xc4"
definition ATC_WRMULT :: u8 where "ATC_WRMULT = 0xc5"
definition ATC_RDSEC :: u8 where "ATC_RDSEC = 0x20"
definition ATC_WRSEC :: u8 where "ATC_WRSEC = 0x30"
definition ATC_READ_DMA :: u8 where "ATC_READ_DMA = 0xc8"
definition ATC_WRITE_DMA :: u8 where "ATC_WRITE_DMA = 0xca"
definition ATC_RDSEC_EXT :: u8 where "ATC_RDSEC_EXT = 0x24"
definition ATC_RDMULT_EXT :: u8 where "ATC_RDMULT_EXT = 0x29"
definition ATC_RDDMA_EXT :: u8 where "ATC_RDDMA_EXT = 0x25"
definition ATC_WRSEC_EXT :: u8 where "ATC_WRSEC_EXT = 0x34"
definition ATC_WRMULT_EXT :: u8 where "ATC_WRMULT_EXT = 0x39"
definition ATC_WRDMA_EXT :: u8 where "ATC_WRDMA_EXT = 0x35"
definition ATC_IDLE :: u8 where "ATC_IDLE = 0xe3"
definition FC_WRITE_CACHE_ON :: u8 where "FC_WRITE_CACHE_ON = 0x02"
definition FC_WRITE_CACHE_OFF :: u8 where "FC_WRITE_CACHE_OFF = 0x82"

definition ata_disk_init_dev_parm_wait :: u32 where "ata_disk_init_dev_parm_wait = 4 * 1000000"
definition ata_disk_set_mult_wait :: u32 where "ata_disk_set_mult_wait = 4 * 1000000"

text \<open>Two global tunables, with their initial values.\<close>

definition ata_disk_do_standby_timer :: bool where "ata_disk_do_standby_timer = True"
definition ata_write_cache :: int where "ata_write_cache = 1"

definition ata_disk_initialize_device_parameters :: "device \<Rightarrow> drv_ref \<Rightarrow> ata_ctl \<Rightarrow> (bool \<times> ata_ctl) option" where
  "ata_disk_initialize_device_parameters dev dr s =
     ctl_command dev dr False ata_disk_init_dev_parm_wait ATC_SETPARAM 0 (ucast (ad_phsec (drv s dr))) 0
       (ucast (ad_phhd (drv s dr) - 1)) 0 0 s"

definition ata_disk_set_multiple :: "device \<Rightarrow> drv_ref \<Rightarrow> ata_ctl \<Rightarrow> (bool \<times> ata_ctl) option" where
  "ata_disk_set_multiple dev dr s =
     ctl_command dev dr True ata_disk_set_mult_wait ATC_SETMULT 0 (ucast (ad_block_factor (drv s dr))) 0 0 0 0 s"

text \<open>The parameter of the IDLE command for a timeout in seconds.\<close>

definition standby_parm :: "int \<Rightarrow> u8" where
  "standby_parm timeout =
    (if timeout \<le> 240 * 5 then of_int ((timeout + 4) div 5)
     else if timeout \<le> 21 * 60 then 252
     else if timeout \<le> 21 * 60 + 15 then 255
     else if timeout \<le> 11 * 30 * 60 then of_int (240 + (timeout + 30 * 60 - 1) div (30 * 60))
     else 253)"

definition ata_disk_set_standby_timer :: "device \<Rightarrow> drv_ref \<Rightarrow> ata_ctl \<Rightarrow> (bool \<times> ata_ctl) option" where
  "ata_disk_set_standby_timer dev dr s =
    (let timeout = sint (ac_standby_time s)
     in if timeout < 0 \<or> timeout > 12 * 60 * 60 then Some (True, s)
        else ctl_command dev dr True (5 * 1000000) ATC_IDLE 0 (standby_parm timeout) 0 0 0 0 s)"

definition ctl_set_feature :: "device \<Rightarrow> drv_ref \<Rightarrow> u8 \<Rightarrow> u8 \<Rightarrow> ata_ctl \<Rightarrow> (bool \<times> ata_ctl) option" where
  "ctl_set_feature dev dr feature val s =
     map_option (\<lambda>(b, l). (b, s\<lparr>ac_log := l\<rparr>)) (sol11ata_set_feature dev (ad_drive_bits (drv s dr)) feature val (ac_log s))"

text \<open>A failure is only reported on the console.\<close>

definition ata_set_write_cache :: "device \<Rightarrow> drv_ref \<Rightarrow> ata_ctl \<Rightarrow> (bool \<times> ata_ctl) option" where
  "ata_set_write_cache dev dr s =
    (if ata_write_cache = 1 then ctl_set_feature dev dr FC_WRITE_CACHE_ON 0 s
     else if ata_write_cache = -1 then ctl_set_feature dev dr FC_WRITE_CACHE_OFF 0 s
     else Some (True, s))"

definition ata_disk_setup_parms :: "device \<Rightarrow> drv_ref \<Rightarrow> ata_ctl \<Rightarrow> (bool \<times> ata_ctl) option" where
  "ata_disk_setup_parms dev dr s = do {
     (ok, s) \<leftarrow> ata_disk_initialize_device_parameters dev dr s;
     if \<not> ok then Some (False, s)
     else do {
       (_, s) \<leftarrow>
         (if sint (ad_block_factor (drv s dr)) > 1
          then do {
            (ok, s) \<leftarrow> ata_disk_set_multiple dev dr s;
            Some ((), if \<not> ok then upd_drv dr (\<lambda>d. d\<lparr>ad_block_factor := 1\<rparr>) s else s)
          }
          else Some ((), s));
       let s = (if sint (ad_block_factor (drv s dr)) > 1
                then upd_drv dr (\<lambda>d. d\<lparr>ad_rd_cmd := ATC_RDMULT, ad_wr_cmd := ATC_WRMULT\<rparr>) s
                else upd_drv dr (\<lambda>d. d\<lparr>ad_rd_cmd := ATC_RDSEC, ad_wr_cmd := ATC_WRSEC\<rparr>) s);
       let s = upd_drv dr (\<lambda>d. d\<lparr>ad_bytes_per_block := push_bit SCTRSHFT (ad_block_factor d)\<rparr>) s;
       (_, s) \<leftarrow> (if ata_disk_do_standby_timer then ata_disk_set_standby_timer dev dr s else Some (True, s));
       (_, s) \<leftarrow> ata_set_write_cache dev dr s;
       Some (True, s)
     }
   }"
end
