(* ===== verification/Ata_Ctlr.thy ===== *)
theory Ata_Ctlr
  imports Ghd_Timer Atapi_Fsm Ata_Disk_Setup
begin

text \<open>
  The controller of the ATA driver (\<open>ata_common.c\<close>): the controller state machine
  \<open>ata_ctlr_fsm\<close>, automatic request sense, bus and software reset, and the callbacks GHD makes
  into the driver (\<open>ata_get_status\<close>, \<open>ata_process_intr\<close>, \<open>ata_hba_start\<close>,
  \<open>ata_timeout_func\<close>). The driver's soft state \<open>ata_ctl\<close> is the \<open>ccc_hba\<close> part of GHD's
  controller state, because the state machine completes requests by calling GHD back. The two
  interfaces of GHD, \<open>hba_driver\<close> and \<open>hba_recovery\<close>, are interpreted on these definitions.
\<close>

type_synonym actl = "ata_ctl ccc_t"

text \<open>
  What the driver is given: the devices, the drive of a command (\<open>GCMD2DRV\<close>: a command's
  target, \<open>cmd_gtgtp\<close>, is fixed when it is allocated) and \<open>SIZEOF_ARQ_HEADER\<close>, the size of
  \<open>scsi_arq_status\<close> before the sense data.
\<close>

record ata_env =
  env_dev :: device
  env_drv :: "nat \<Rightarrow> drv_ref"
  env_arq_header :: u32

subsection \<open>Tables\<close>

datatype ctlr_func =
    ATA_FSM_START0
  | ATA_FSM_START1
  | ATA_FSM_INTR
  | ATA_FSM_FINI
  | ATA_FSM_RESET

datatype ctlr_action =
    AC_NADA
  | AC_START
  | AC_INTR
  | AC_FINI
  | AC_BUSY
  | AC_RESET_A
  | AC_RESET_I

fun func_index :: "ctlr_func \<Rightarrow> nat" where
  "func_index ATA_FSM_START0 = 0"
| "func_index ATA_FSM_START1 = 1"
| "func_index ATA_FSM_INTR = 2"
| "func_index ATA_FSM_FINI = 3"
| "func_index ATA_FSM_RESET = 4"

fun state_index :: "ctlr_state \<Rightarrow> nat" where
  "state_index AS_IDLE = 0"
| "state_index AS_ACTIVE0 = 1"
| "state_index AS_ACTIVE1 = 2"

definition ata_ctlr_fsm_NextAction :: "ctlr_action list list" where
  "ata_ctlr_fsm_NextAction =
    [[AC_START, AC_START, AC_NADA, AC_NADA, AC_RESET_I],
     [AC_BUSY,  AC_BUSY,  AC_INTR, AC_FINI, AC_RESET_A],
     [AC_BUSY,  AC_BUSY,  AC_INTR, AC_FINI, AC_RESET_A]]"

definition ata_ctlr_fsm_NextState :: "ctlr_state list list" where
  "ata_ctlr_fsm_NextState =
    [[AS_ACTIVE0, AS_ACTIVE1, AS_IDLE,    AS_IDLE, AS_IDLE],
     [AS_ACTIVE0, AS_ACTIVE0, AS_ACTIVE0, AS_IDLE, AS_ACTIVE0],
     [AS_ACTIVE1, AS_ACTIVE1, AS_ACTIVE1, AS_IDLE, AS_ACTIVE1]]"

definition ctlr_action :: "ctlr_state \<Rightarrow> ctlr_func \<Rightarrow> ctlr_action" where
  "ctlr_action st f = ata_ctlr_fsm_NextAction ! state_index st ! func_index f"

definition ctlr_next_state :: "ctlr_state \<Rightarrow> ctlr_func \<Rightarrow> ctlr_state" where
  "ctlr_next_state st f = ata_ctlr_fsm_NextState ! state_index st ! func_index f"

subsection \<open>The callbacks of a packet\<close>

definition call_start :: "device \<Rightarrow> drv_ref \<Rightarrow> pkt_ref \<Rightarrow> ata_ctl \<Rightarrow> (fsm_rc \<times> ata_ctl) option" where
  "call_start dev dr p s =
    (case ap_start (ac_pkt s p) of
       Start_atapi_fsm_start \<Rightarrow> atapi_fsm_start dev dr p s
     | Start_ata_disk_start \<Rightarrow> ata_disk_start dev dr p s
     | Start_ata_disk_start_dma_in \<Rightarrow> ata_disk_start_dma_in dev dr p s
     | Start_ata_disk_start_dma_out \<Rightarrow> ata_disk_start_dma_out dev dr p s
     | Start_ata_disk_start_pio_in \<Rightarrow> ata_disk_start_pio_in dev dr p s
     | Start_ata_disk_start_pio_out \<Rightarrow> ata_disk_start_pio_out dev dr p s
     | Start_ata_disk_state \<Rightarrow> ata_disk_state dev dr p s
     | Start_ata_disk_eject \<Rightarrow> ata_disk_eject dev dr p s
     | Start_ata_disk_lock \<Rightarrow> ata_disk_lock dev dr p s
     | Start_ata_disk_unlock \<Rightarrow> ata_disk_unlock dev dr p s
     | Start_ata_disk_standby \<Rightarrow> ata_disk_standby dev dr p s
     | Start_ata_disk_recalibrate \<Rightarrow> ata_disk_recalibrate dev dr p s)"

definition call_intr :: "device \<Rightarrow> drv_ref \<Rightarrow> pkt_ref \<Rightarrow> ata_ctl \<Rightarrow> (fsm_rc \<times> ata_ctl) option" where
  "call_intr dev dr p s =
    (case ap_intr (ac_pkt s p) of
       Intr_atapi_fsm_intr \<Rightarrow> Some (atapi_fsm_intr dev dr p s)
     | Intr_ata_disk_intr \<Rightarrow> ata_disk_intr dev dr p s
     | Intr_ata_disk_intr_pio_in \<Rightarrow> ata_disk_intr_pio_in dev dr p s
     | Intr_ata_disk_intr_pio_out \<Rightarrow> ata_disk_intr_pio_out dev dr p s
     | Intr_ata_disk_intr_dma \<Rightarrow> ata_disk_intr_dma dev dr p s)"

subsection \<open>Software reset\<close>

text \<open>Selecting drive 1 when it is the only one: the loop waits until two registers hold what is
  written to them. The result is the time left, \<open>None\<close> when it ran out.\<close>

function select_drive1 :: "device \<Rightarrow> int \<Rightarrow> ata_ctl \<Rightarrow> int option \<times> ata_ctl" where
  "select_drive1 dev time_left s =
    (if time_left > 0
     then (let s = usecwait 10000 s;
               time_left = time_left - 10000;
               s = put8 AC_DRVHD ATDH_DRIVE1 s;
               s = put8 AC_SECT 0x55 s;
               s = put8 AC_SECT 0xaa s;
               (v, s) = get8 dev AC_SECT s
           in if v \<noteq> 0xaa then select_drive1 dev time_left s
              else (let s = put8 AC_COUNT 0x55 s;
                        s = put8 AC_COUNT 0xaa s;
                        (v, s) = get8 dev AC_COUNT s
                    in if v \<noteq> 0xaa then select_drive1 dev time_left s
                       else (Some time_left, s)))
     else (None, s))"
  by pat_completeness auto
termination by (relation "measure (\<lambda>(dev, t, s). nat t)") auto

declare select_drive1.simps [simp del]

definition ata_software_reset :: "device \<Rightarrow> ata_ctl \<Rightarrow> (bool \<times> ata_ctl) option" where
  "ata_software_reset dev s =
    (let s = put8 AC_DEVCTL (ATDC_D3 OR ATDC_SRST) s;
         s = usecwait 30000 s;
         s = put8 AC_DEVCTL ATDC_D3 s;
         s = usecwait 300000 s;
         time_left = 31 * 1000000;
         (r, s) = (if ac_drvp s 0 0 \<noteq> None then (Some time_left, s) else select_drive1 dev time_left s)
     in case r of
          None \<Rightarrow> Some (False, s)
        | Some time_left \<Rightarrow> do {
            (_, s) \<leftarrow> wait3 dev 0 ATS_BSY ATS_ERR ATS_BSY ATS_DF ATS_BSY (of_int time_left) s;
            Some (True, s)
          })"

subsection \<open>Automatic request sense\<close>

definition ATAPI_MAX_BYTES_PER_DRQ :: u32 where "ATAPI_MAX_BYTES_PER_DRQ = 0xf800"

definition arq_init :: "u32 \<Rightarrow> drv_ref \<Rightarrow> pkt_ref \<Rightarrow> ata_ctl \<Rightarrow> ata_ctl" where
  "arq_init hdr dr p s =
    (let senselen = ucast (ap_statuslen (ac_pkt s p)) - hdr;
         s = s\<lparr>ac_fault_pktp := Some p\<rparr>;
         s = s\<lparr>ac_active_pktp := Some ArqPkt\<rparr>;
         s = s\<lparr>ac_arq_cdb := (ac_arq_cdb s)[1 := push_bit 4 (ad_lun (drv s dr))]\<rparr>;
         s = s\<lparr>ac_arq_cdb := (ac_arq_cdb s)[4 := ucast senselen]\<rparr>;
         sense = ap_scbp_sense (ac_pkt s p);
         s = upd_pkt ArqPkt (\<lambda>k. k\<lparr>ap_v_addr := sense, ap_resid := ucast senselen,
               ap_flags := AP_ATAPI OR AP_READ\<rparr>) s;
         s = upd_pkt ArqPkt (\<lambda>k. k\<lparr>ap_cdb_pad :=
               ucast (drop_bit 1 (ucast (ad_cdb_len (drv s dr)) - ucast (ap_cdb_len k) :: u32))\<rparr>) s;
         bytes = min senselen ATAPI_MAX_BYTES_PER_DRQ;
         s = upd_pkt ArqPkt (\<lambda>k. k\<lparr>ap_hicyl := ucast (drop_bit 8 bytes), ap_lwcyl := ucast bytes\<rparr>) s
     in upd_pkt ArqPkt (\<lambda>k. k\<lparr>ap_hd := ad_drive_bits (drv s dr)\<rparr>) s)"

definition ata_start_arq :: "ata_env \<Rightarrow> drv_ref \<Rightarrow> pkt_ref \<Rightarrow> ata_ctl \<Rightarrow> (fsm_rc \<times> ata_ctl) option" where
  "ata_start_arq env dr p s =
     call_start (env_dev env) dr ArqPkt (arq_init (env_arq_header env) dr p s)"

subsection \<open>The controller state machine\<close>

definition AP_ARQ_NEEDED :: u32 where
  "AP_ARQ_NEEDED = AP_ARQ_ON_ERROR OR AP_GOT_STATUS OR AP_ERROR"

text \<open>A driver operation on the soft state that GHD's controller state holds.\<close>

definition on_hba :: "(ata_ctl \<Rightarrow> ('a \<times> ata_ctl) option) \<Rightarrow> actl \<Rightarrow> ('a \<times> actl) option" where
  "on_hba f c = map_option (\<lambda>(r, s). (r, c\<lparr>ccc_hba := s\<rparr>)) (f (ccc_hba c))"

definition disconnect :: "ata_ctl \<Rightarrow> ata_ctl" where
  "disconnect s = s\<lparr>ac_active_pktp := None, ac_active_drvp := None\<rparr>"

text \<open>\<open>all_done\<close>. The results of the machine are its return code and whether it completed a
  request (\<open>DoneFlgp\<close>, which a caller may leave out).\<close>

definition fsm_all_done :: "pkt_ref \<Rightarrow> actl \<Rightarrow> (fsm_rc \<times> bool \<times> actl) option" where
  "fsm_all_done p c =
    (let c = c\<lparr>ccc_hba := disconnect (ccc_hba c)\<rparr>
     in case ap_gcmdp (ac_pkt (ccc_hba c) p) of
          None \<Rightarrow> Some (ATA_FSM_RC_OKAY, False, c)
        | Some g \<Rightarrow> map_option (\<lambda>c. (ATA_FSM_RC_OKAY, True, c)) (GHD_COMPLETE c g))"

definition fsm_fini :: "ata_env \<Rightarrow> ctlr_state \<Rightarrow> actl \<Rightarrow> (fsm_rc \<times> bool \<times> actl) option" where
  "fsm_fini env current_state c =
    (let s = ccc_hba c in
     case (ac_active_pktp s, ac_active_drvp s) of
       (Some p, Some dr) \<Rightarrow>
         if p = ArqPkt
         then (case ac_fault_pktp s of
                 None \<Rightarrow> None
               | Some q \<Rightarrow>
                   (let s = s\<lparr>ac_fault_pktp := None\<rparr>;
                        s = set_pkt_flags q (if flag_set (ap_flags (ac_pkt s ArqPkt)) (AP_ERROR OR AP_BUS_RESET)
                              then AP_ARQ_ERROR else AP_ARQ_OKAY) s
                    in fsm_all_done q (c\<lparr>ccc_hba := s\<rparr>)))
         else if ap_flags (ac_pkt s p) AND AP_ARQ_NEEDED = AP_ARQ_NEEDED \<and> ap_status (ac_pkt s p) AND ATS_ERR \<noteq> 0
         then (case ata_start_arq env dr p (s\<lparr>ac_state := current_state\<rparr>) of
                 None \<Rightarrow> None
               | Some (rc, s) \<Rightarrow>
                   if rc = ATA_FSM_RC_BUSY
                   then fsm_all_done p (c\<lparr>ccc_hba := (disconnect (s\<lparr>ac_state := AS_IDLE\<rparr>))\<lparr>ac_fault_pktp := None\<rparr>\<rparr>)
                   else Some (rc, False, c\<lparr>ccc_hba := s\<rparr>))
         else fsm_all_done p c
     | _ \<Rightarrow> None)"

text \<open>Halting the engine before a reset with a request active.\<close>

definition reset_halt :: "device \<Rightarrow> pkt_ref \<Rightarrow> ata_ctl \<Rightarrow> ata_ctl" where
  "reset_halt dev p s =
    (let s = set_pkt_flags p (AP_DEV_RESET OR AP_BUS_RESET) s
     in if ap_pciide_dma (ac_pkt s p)
        then snd (ata_pciide_status_clear dev (ata_pciide_dma_stop dev s))
        else s)"

definition fsm_reset :: "device \<Rightarrow> fsm_rc \<Rightarrow> ata_ctl \<Rightarrow> (fsm_rc \<times> ata_ctl) option" where
  "fsm_reset dev rc s = do {
     (ok, s) \<leftarrow> ata_software_reset dev s;
     if \<not> ok then Some (ATA_FSM_RC_BUSY, s)
     else do { (_, s) \<leftarrow> atapi_fsm_reset dev s; Some (rc, s) }
   }"

definition fsm_start :: "device \<Rightarrow> drv_ref \<Rightarrow> pkt_ref \<Rightarrow> ata_ctl \<Rightarrow> (fsm_rc \<times> ata_ctl) option" where
  "fsm_start dev dr p s = do {
     (rc, s) \<leftarrow> call_start dev dr p (s\<lparr>ac_active_pktp := Some p, ac_active_drvp := Some dr\<rparr>);
     Some (rc, if rc = ATA_FSM_RC_BUSY then disconnect (s\<lparr>ac_state := AS_IDLE\<rparr>) else s)
   }"

text \<open>An action that completes nothing.\<close>

definition plain :: "(fsm_rc \<times> actl) option \<Rightarrow> (fsm_rc \<times> bool \<times> actl) option" where
  "plain x = map_option (\<lambda>(rc, c). (rc, False, c)) x"

definition ata_ctlr_fsm ::
  "ata_env \<Rightarrow> ctlr_func \<Rightarrow> (drv_ref \<times> pkt_ref) option \<Rightarrow> actl \<Rightarrow> (fsm_rc \<times> bool \<times> actl) option" where
  "ata_ctlr_fsm env fsm_func req c =
    (let current_state = ac_state (ccc_hba c);
         action = ctlr_action current_state fsm_func;
         next_state = ctlr_next_state current_state fsm_func;
         c = c\<lparr>ccc_hba := (ccc_hba c)\<lparr>ac_state := next_state\<rparr>\<rparr>;
         s = ccc_hba c
     in case action of
          AC_BUSY \<Rightarrow> Some (ATA_FSM_RC_BUSY, False, c)
        | AC_NADA \<Rightarrow> Some (ATA_FSM_RC_OKAY, False, c)
        | AC_START \<Rightarrow>
            (case req of
               None \<Rightarrow> None
             | Some (dr, p) \<Rightarrow> plain (on_hba (fsm_start (env_dev env) dr p) c))
        | AC_INTR \<Rightarrow>
            (case (ac_active_pktp s, ac_active_drvp s) of
               (Some p, Some dr) \<Rightarrow> plain (on_hba (call_intr (env_dev env) dr p) c)
             | _ \<Rightarrow> None)
        | AC_RESET_A \<Rightarrow>
            (case ac_active_pktp s of
               None \<Rightarrow> None
             | Some p \<Rightarrow> plain (on_hba (\<lambda>s. fsm_reset (env_dev env) ATA_FSM_RC_FINI (reset_halt (env_dev env) p s)) c))
        | AC_RESET_I \<Rightarrow> plain (on_hba (fsm_reset (env_dev env) ATA_FSM_RC_OKAY) c)
        | AC_FINI \<Rightarrow> fsm_fini env current_state c)"

subsection \<open>The callbacks of GHD\<close>

definition ata_hba_start_watchdog :: nat where "ata_hba_start_watchdog = 1000"
definition ata_process_intr_watchdog :: nat where "ata_process_intr_watchdog = 1000"
definition ata_reset_bus_watchdog :: nat where "ata_reset_bus_watchdog = 1000"

fun hba_start_loop ::
  "ata_env \<Rightarrow> nat \<Rightarrow> ctlr_func \<Rightarrow> (drv_ref \<times> pkt_ref) option \<Rightarrow> bool \<Rightarrow> actl \<Rightarrow> (bool \<times> actl) option" where
  "hba_start_loop env 0 f req request_started c = Some (request_started, c)"
| "hba_start_loop env (Suc n) f req request_started c =
    (case ata_ctlr_fsm env f req c of
       None \<Rightarrow> None
     | Some (rc, _, c) \<Rightarrow>
         (case rc of
            ATA_FSM_RC_OKAY \<Rightarrow> Some (True, c)
          | ATA_FSM_RC_BUSY \<Rightarrow> Some (request_started, c)
          | ATA_FSM_RC_INTR \<Rightarrow> hba_start_loop env n ATA_FSM_INTR None True c
          | ATA_FSM_RC_FINI \<Rightarrow> hba_start_loop env n ATA_FSM_FINI None True c))"

definition ata_hba_start :: "ata_env \<Rightarrow> ata_ctl hba_start" where
  "ata_hba_start env c g =
    (if ac_active_drvp (ccc_hba c) \<noteq> None then Some (False, c)
     else if ac_active_pktp (ccc_hba c) \<noteq> None then Some (False, c)
     else (let dr = env_drv env g;
               f = (if ad_targ (drv (ccc_hba c) dr) = 0 then ATA_FSM_START0 else ATA_FSM_START1)
           in hba_start_loop env ata_hba_start_watchdog f (Some (dr, PktOf g)) False c))"

fun process_intr_loop :: "ata_env \<Rightarrow> nat \<Rightarrow> ctlr_func \<Rightarrow> actl \<Rightarrow> actl option" where
  "process_intr_loop env 0 f c = Some c"
| "process_intr_loop env (Suc n) f c =
    (case ata_ctlr_fsm env f None c of
       None \<Rightarrow> None
     | Some (rc, _, c) \<Rightarrow>
         (case rc of
            ATA_FSM_RC_OKAY \<Rightarrow> Some c
          | ATA_FSM_RC_BUSY \<Rightarrow> Some c
          | ATA_FSM_RC_INTR \<Rightarrow> process_intr_loop env n ATA_FSM_INTR c
          | ATA_FSM_RC_FINI \<Rightarrow> process_intr_loop env n ATA_FSM_FINI c))"

definition ata_process_intr :: "ata_env \<Rightarrow> actl \<Rightarrow> actl option" where
  "ata_process_intr env c = process_intr_loop env ata_process_intr_watchdog ATA_FSM_INTR c"

text \<open>The second argument is \<open>*intr_status\<close>, the one-shot flag of a legacy interrupt, if there is one.\<close>

definition ata_get_status :: "device \<Rightarrow> bool option \<Rightarrow> ata_ctl \<Rightarrow> bool \<times> bool option \<times> ata_ctl" where
  "ata_get_status dev one_shot s =
    (let busy_check = (\<lambda>one_shot s. let (status, s) = get8 dev AC_ALTSTATUS s in (status AND ATS_BSY = 0, one_shot, s))
     in if \<not> flag_set (ac_flags s) AC_ATTACHED then (False, one_shot, s)
        else if ac_state s = AS_IDLE then (False, one_shot, s)
        else if ac_pciide s \<and> ac_pciide_bm s \<and>
                (ap_pciide_dma (ac_pkt s (the (ac_active_pktp s))) \<or> \<not> flag_set (ac_flags s) AC_BMSTATREG_PIO_BROKEN)
        then (let (pending, s) = ata_pciide_status_pending dev s
              in if \<not> pending then (False, one_shot, s) else busy_check one_shot s)
        else (case one_shot of
                Some False \<Rightarrow> (False, one_shot, s)
              | Some True \<Rightarrow> busy_check (Some False) s
              | None \<Rightarrow> busy_check None s))"

subsection \<open>Bus reset and the timeout callback\<close>

text \<open>The loop of \<open>ata_reset_bus\<close>: the early return, or \<open>rc\<close> and \<open>DoneFlg\<close> at \<open>fsm_done\<close>.\<close>

fun reset_bus_loop :: "ata_env \<Rightarrow> nat \<Rightarrow> ctlr_func \<Rightarrow> bool \<Rightarrow> bool \<Rightarrow> actl \<Rightarrow> ((bool \<times> bool) option \<times> actl) option" where
  "reset_bus_loop env 0 f rc DoneFlg c = Some (Some (rc, DoneFlg), c)"
| "reset_bus_loop env (Suc n) f rc DoneFlg c =
    (case ata_ctlr_fsm env f None c of
       None \<Rightarrow> None
     | Some (r, fin, c) \<Rightarrow>
         (case r of
            ATA_FSM_RC_OKAY \<Rightarrow> Some (Some (True, DoneFlg \<or> fin), c)
          | ATA_FSM_RC_BUSY \<Rightarrow> Some (None, c)
          | ATA_FSM_RC_INTR \<Rightarrow> reset_bus_loop env n ATA_FSM_INTR True (DoneFlg \<or> fin) c
          | ATA_FSM_RC_FINI \<Rightarrow> reset_bus_loop env n ATA_FSM_FINI True (DoneFlg \<or> fin) c))"

definition reset_reinit1 :: "device \<Rightarrow> nat \<Rightarrow> bool \<Rightarrow> ata_ctl \<Rightarrow> (bool \<times> ata_ctl) option" where
  "reset_reinit1 dev drive rc s =
    (if ac_drvp s drive 0 = None then Some (rc, s)
     else if flag_set (ad_flags (drv s (drive, 0))) AD_ATAPI then Some (rc, s)
     else do {
       (ok, s) \<leftarrow> ata_disk_setup_parms dev (drive, 0) s;
       Some (if \<not> ok then False else rc, s)
     })"

definition ata_reset_bus :: "ata_env \<Rightarrow> actl \<Rightarrow> (bool \<times> actl) option" where
  "ata_reset_bus env c = do {
     (r, c) \<leftarrow> reset_bus_loop env ata_reset_bus_watchdog ATA_FSM_RESET False False c;
     case r of
       None \<Rightarrow> Some (False, c)
     | Some (rc, DoneFlg) \<Rightarrow> do {
         (rc, c) \<leftarrow> on_hba (reset_reinit1 (env_dev env) 0 rc) c;
         (rc, c) \<leftarrow> on_hba (reset_reinit1 (env_dev env) 1 rc) c;
         Some (if DoneFlg then True else rc, c)
       }
   }"

text \<open>The two early actions dereference the command; they are a fault without one.\<close>

definition early_complete :: "u32 \<Rightarrow> nat option \<Rightarrow> actl \<Rightarrow> (bool \<times> actl) option" where
  "early_complete fl gcmdp c =
    (case gcmdp of
       None \<Rightarrow> None
     | Some g \<Rightarrow> map_option (\<lambda>c. (True, c)) (GHD_COMPLETE (c\<lparr>ccc_hba := set_pkt_flags (PktOf g) fl (ccc_hba c)\<rparr>) g))"

definition ata_timeout_func :: "ata_env \<Rightarrow> ata_ctl hba_timeout" where
  "ata_timeout_func env c gcmdp d action calltype =
    (case action of
       GACTION_EARLY_ABORT \<Rightarrow> early_complete AP_ABORT gcmdp c
     | GACTION_EARLY_TIMEOUT \<Rightarrow> early_complete AP_TIMEOUT gcmdp c
     | GACTION_RESET_TARGET \<Rightarrow> Some (False, c)
     | GACTION_RESET_BUS \<Rightarrow> if gcmdp = None then Some (False, c) else ata_reset_bus env c
     | _ \<Rightarrow> Some (False, c))"

subsection \<open>What the operations change\<close>

lemma ret_set_feature: "ret (dev_frame p) s (ctl_set_feature dev dr f v s)"
  using ret_ctl_command [OF wait_rounds_used(2), of p s dev dr True ATC_SET_FEAT f v 0 0 0 0]
  unfolding ctl_set_feature_def ctl_command_def sol11ata_set_feature_def ata_set_feature_wait_def
  by (simp add: ret_def)

lemma ret_write_cache: "ret (dev_frame p) s (ata_set_write_cache dev dr s)"
  unfolding ata_set_write_cache_def by (auto intro: ret_set_feature)

lemma ret_standby: "ret (dev_frame p) s (ata_disk_set_standby_timer dev dr s)"
  unfolding ata_disk_set_standby_timer_def Let_def using ret_ctl_command [OF wait_rounds_used(1)] by auto

lemma ret_init_params: "ret (dev_frame p) s (ata_disk_initialize_device_parameters dev dr s)"
  "ret (dev_frame p) s (ata_disk_set_multiple dev dr s)"
  unfolding ata_disk_initialize_device_parameters_def ata_disk_set_multiple_def ata_disk_init_dev_parm_wait_def
    ata_disk_set_mult_wait_def
  using ret_ctl_command [OF wait_rounds_used(2)] by simp_all

lemma ret_setup_parms: "ret (dev_frame p) s (ata_disk_setup_parms dev dr s)"
proof -
  have sb: "ret (dev_frame p) s (if ata_disk_do_standby_timer then ata_disk_set_standby_timer dev dr s
      else Some (True, s))" for s by (auto intro: ret_standby)
  have mult: "ret (dev_frame p) s (if 1 < sint (ad_block_factor (drv s dr)) then
      ata_disk_set_multiple dev dr s \<bind> (\<lambda>(ok, s). Some ((),
        if \<not> ok then upd_drv dr (\<lambda>d. d\<lparr>ad_block_factor := 1\<rparr>) s else s)) else Some ((), s))" for s
    by (auto intro!: ret_bind [OF ret_init_params(2)] ret_Some frame_intros)
  have rest: "ret (dev_frame p) s (ata_set_write_cache dev dr s \<bind> (\<lambda>(_, s). Some (True, s)))" for s
    by (rule ret_bind [OF ret_write_cache]) auto
  have sb': "ret (dev_frame p) s0 ((if ata_disk_do_standby_timer then ata_disk_set_standby_timer dev dr s
      else Some (True, s)) \<bind> (\<lambda>(_, s). ata_set_write_cache dev dr s \<bind> (\<lambda>(_, s). Some (True, s))))"
    if "dev_frame p s0 s" for s0 s
    using ret_bind [OF ret_after [OF sb that], of "\<lambda>(_, s). ata_set_write_cache dev dr s \<bind> (\<lambda>(_, s). Some (True, s))"]
      ret_after [OF rest] by auto
  have fin: "ret (dev_frame p) s0 (let s = (if b then upd_drv dr (\<lambda>d. d\<lparr>ad_rd_cmd := ATC_RDMULT, ad_wr_cmd := ATC_WRMULT\<rparr>) s
         else upd_drv dr (\<lambda>d. d\<lparr>ad_rd_cmd := ATC_RDSEC, ad_wr_cmd := ATC_WRSEC\<rparr>) s);
       s = upd_drv dr (\<lambda>d. d\<lparr>ad_bytes_per_block := push_bit SCTRSHFT (ad_block_factor d)\<rparr>) s
     in (if ata_disk_do_standby_timer then ata_disk_set_standby_timer dev dr s else Some (True, s)) \<bind>
        (\<lambda>(_, s). ata_set_write_cache dev dr s \<bind> (\<lambda>(_, s). Some (True, s))))"
    if "dev_frame p s0 s" for s0 s b
    unfolding Let_def using that by (intro sb' frame_intros dev_frame_if) simp_all
  show ?thesis
    unfolding ata_disk_setup_parms_def
  proof (rule ret_bind [OF ret_init_params(1)], goal_cases)
    case (1 r s1)
    show ?case
    proof (cases r)
      case True
      then show ?thesis
        by (simp only: prod.case not_True_eq_False if_False)
          (rule ret_bind [OF ret_after [OF mult 1]], simp only: prod.case split: prod.split, blast intro: fin)
    qed (use 1 in auto)
  qed
qed

lemma select_drive1_spec:
  assumes "0 \<le> t" "10000 dvd t"
  shows "log_only s (snd (select_drive1 dev t s)) \<and>
    (\<forall>t'. fst (select_drive1 dev t s) = Some t' \<longrightarrow> 0 \<le> t' \<and> t' \<le> t \<and> 10000 dvd t')"
  using assms
proof (induction dev t s rule: select_drive1.induct)
  case (1 dev t s)
  define s1 where "s1 = put8 AC_SECT 0xaa (put8 AC_SECT 0x55 (put8 AC_DRVHD ATDH_DRIVE1 (usecwait 10000 s)))"
  obtain v s2 where g1: "get8 dev AC_SECT s1 = (v, s2)" by fastforce
  define s3 where "s3 = put8 AC_COUNT 0xaa (put8 AC_COUNT 0x55 s2)"
  obtain w s4 where g2: "get8 dev AC_COUNT s3 = (w, s4)" by fastforce
  have l1: "log_only s s1" unfolding s1_def by (rule log_only_trans [OF _ log_only_io(1)])+ (rule log_only_io(4))
  have l2: "log_only s s2" using log_only_trans [OF l1, of s2] log_only_io(2) [of s1 dev AC_SECT] g1 by simp
  have l3: "log_only s s3" unfolding s3_def by (rule log_only_trans [OF _ log_only_io(1)])+ (rule l2)
  have l4: "log_only s s4" using log_only_trans [OF l3, of s4] log_only_io(2) [of s3 dev AC_COUNT] g2 by simp
  have eqn: "select_drive1 dev t s = (if t > 0 then (if v \<noteq> 0xaa then select_drive1 dev (t - 10000) s2
      else if w \<noteq> 0xaa then select_drive1 dev (t - 10000) s4 else (Some (t - 10000), s4)) else (None, s))"
    by (subst select_drive1.simps) (simp only: s1_def [symmetric] s3_def [symmetric] g1 g2 Let_def prod.case)
  show ?case
  proof (cases "t > 0")
    case False
    then show ?thesis by (simp add: eqn)
  next
    case True
    have t: "0 \<le> t - 10000" "10000 dvd t - 10000" using zdvd_imp_le [OF "1.prems"(2) True] "1.prems"(2) by (simp_all add: dvd_diff)
    have A: "log_only s2 (snd (select_drive1 dev (t - 10000) s2)) \<and>
        (\<forall>t'. fst (select_drive1 dev (t - 10000) s2) = Some t' \<longrightarrow> 0 \<le> t' \<and> t' \<le> t - 10000 \<and> 10000 dvd t')"
      if "v \<noteq> 0xaa"
      by (rule "1.IH"(1) [OF True refl refl refl refl refl _ refl that t]) (use g1 in \<open>simp add: s1_def\<close>)
    have B: "log_only s4 (snd (select_drive1 dev (t - 10000) s4)) \<and>
        (\<forall>t'. fst (select_drive1 dev (t - 10000) s4) = Some t' \<longrightarrow> 0 \<le> t' \<and> t' \<le> t - 10000 \<and> 10000 dvd t')"
      if "\<not> v \<noteq> 0xaa" "w \<noteq> 0xaa"
      by (rule "1.IH"(2) [OF True refl refl refl refl refl _ refl that(1) refl refl _ refl that(2) t])
        (use g1 g2 [symmetric] in \<open>simp_all add: s1_def s3_def\<close>)
    show ?thesis
      using A B True t l4 log_only_trans [OF l2] log_only_trans [OF l4] unfolding eqn by auto
  qed
qed

lemma reset_wait_rounds:
  assumes "0 \<le> t" "t \<le> 31 * 1000000" "10000 dvd t"
  shows "\<exists>n. wait_rounds (of_int t) n"
proof (cases "t = 0")
  case True
  have z: "(of_nat (10 * 2 ^ 31) :: u32) = 0" unfolding word_of_nat_eq_0_iff by simp
  have "wait_rounds 0 (2 ^ 31)"
    using wait_rounds_mult [of "2 ^ 31"] z by (simp only:) simp
  with True show ?thesis by auto
next
  case False
  from assms(3) obtain k where "t = 10000 * k" by (auto simp: dvd_def)
  with assms False have k: "t = int (10 * nat (1000 * k))" "0 < nat (1000 * k)" "nat (1000 * k) \<le> 2 ^ 31" by auto
  have "(of_int t :: u32) = of_nat (10 * nat (1000 * k))" by (subst k(1)) (simp only: of_int_of_nat_eq)
  with wait_rounds_mult [OF k(2,3)] show ?thesis by auto
qed

lemma ret_software_reset: "ret (dev_frame p) s (ata_software_reset dev s)"
proof -
  define s1 where "s1 = usecwait 300000 (put8 AC_DEVCTL ATDC_D3 (usecwait 30000 (put8 AC_DEVCTL (ATDC_D3 OR ATDC_SRST) s)))"
  have f1: "dev_frame p s s1" unfolding s1_def by (intro frame_intros)
  have w: "ret (dev_frame p) s (wait3 dev 0 ATS_BSY ATS_ERR ATS_BSY ATS_DF ATS_BSY (of_int t) s2 \<bind> (\<lambda>(_, s). Some (True, s)))"
    if "log_only s1 s2" "0 \<le> t" "t \<le> 31 * 1000000" "10000 dvd t" for t s2
  proof -
    from reset_wait_rounds [OF that(2-4)] obtain n where n: "wait_rounds (of_int t) n" by blast
    have "dev_frame p s s2" using f1 that(1) dev_frame_log_only dev_frame_trans by blast
    then show ?thesis by (intro ret_bind [OF ret_after [OF ret_wait3 [OF n]]]) auto
  qed
  obtain r s2 where sel: "select_drive1 dev (31 * 1000000) s1 = (r, s2)" by fastforce
  have sp: "log_only s1 s2" "\<And>t'. r = Some t' \<Longrightarrow> 0 \<le> t' \<and> t' \<le> 31 * 1000000 \<and> 10000 dvd t'"
    using select_drive1_spec [of "31 * 1000000" s1 dev] sel by auto
  have f2: "dev_frame p s s2" using f1 sp(1) dev_frame_log_only dev_frame_trans by blast
  have "ata_software_reset dev s = (if ac_drvp s1 0 0 \<noteq> None
      then wait3 dev 0 ATS_BSY ATS_ERR ATS_BSY ATS_DF ATS_BSY (of_int (31 * 1000000)) s1 \<bind> (\<lambda>(_, s). Some (True, s))
      else case r of None \<Rightarrow> Some (False, s2) | Some t \<Rightarrow>
        wait3 dev 0 ATS_BSY ATS_ERR ATS_BSY ATS_DF ATS_BSY (of_int t) s2 \<bind> (\<lambda>(_, s). Some (True, s)))"
    unfolding ata_software_reset_def Let_def s1_def [symmetric] sel by (simp split: option.splits)
  with w [of s1 "31 * 1000000"] w [of s2] sp f2 show ?thesis
    by (auto split: option.splits)
qed

lemma ret_reset_halt: "dev_frame p s (reset_halt dev p s)"
  unfolding reset_halt_def Let_def by (auto intro!: frame_intros)

lemma ret_fsm_reset': "ret (dev_frame p) s (fsm_reset dev rc s)"
  unfolding fsm_reset_def
  by (rule ret_bind [OF ret_software_reset]) (auto intro!: ret_bind [OF ret_after [OF ret_fsm_reset]])

definition disk_start_fns :: "ap_start_fn set" where
  "disk_start_fns = {Start_ata_disk_start, Start_ata_disk_start_dma_in, Start_ata_disk_start_dma_out,
     Start_ata_disk_start_pio_in, Start_ata_disk_start_pio_out}"

lemma ret_call_start:
  assumes "ap_start (ac_pkt s p) \<in> disk_start_fns \<Longrightarrow> chs_ok (drv s dr)"
  shows "ret (dev_frame p) s (call_start dev dr p s)"
  using assms
  by (cases "ap_start (ac_pkt s p)")
    (auto simp: call_start_def disk_start_fns_def intro: ret_fsm_start ret_disk_starts ret_start_pio_out ret_media)

lemma ret_call_intr: "ret (dev_frame p) s (call_intr dev dr p s)"
  using dev_frame_fsm_intr [of p s dev dr]
  by (cases "ap_intr (ac_pkt s p)"; cases "atapi_fsm_intr dev dr p s")
    (auto simp: call_intr_def intro: ret_disk_intr ret_intr_pio_in ret_intr_pio_out ret_intr_dma)

subsection \<open>The invariant of the driver's soft state\<close>

text \<open>
  Packets and drives: the packet of command \<open>g\<close> points back to \<open>g\<close>, the controller's own packet to no
  command and to the ATAPI start routine; a command's drive exists, and a packet with a data start
  routine is for a drive that its address can be loaded for.
\<close>

definition ctl_base :: "ata_env \<Rightarrow> ata_ctl \<Rightarrow> bool" where
  "ctl_base env s \<longleftrightarrow>
     (\<forall>g. ap_gcmdp (ac_pkt s (PktOf g)) = Some g) \<and> ap_gcmdp (ac_pkt s ArqPkt) = None \<and>
     ap_start (ac_pkt s ArqPkt) = Start_atapi_fsm_start \<and>
     (\<forall>g. has_drv s (env_drv env g)) \<and>
     (\<forall>g. ap_start (ac_pkt s (PktOf g)) \<in> disk_start_fns \<longrightarrow> chs_ok (drv s (env_drv env g)))"

text \<open>The controller is idle exactly when no packet and no drive is active; while the request sense packet
  is active the packet it is for is remembered.\<close>

definition ctl_link :: "ata_ctl \<Rightarrow> bool" where
  "ctl_link s \<longleftrightarrow>
     (case (ac_active_pktp s, ac_active_drvp s) of
        (None, None) \<Rightarrow> ac_state s = AS_IDLE \<and> ac_fault_pktp s = None
      | (Some p, Some dr) \<Rightarrow> ac_state s \<noteq> AS_IDLE \<and> has_drv s dr \<and>
          (if p = ArqPkt then \<exists>g. ac_fault_pktp s = Some (PktOf g) else ac_fault_pktp s = None)
      | _ \<Rightarrow> False)"

definition ctl_ok :: "ata_env \<Rightarrow> ata_ctl \<Rightarrow> bool" where
  "ctl_ok env s \<longleftrightarrow> ctl_base env s \<and> ctl_link s"

text \<open>The command the controller works on.\<close>

definition ata_owned :: "ata_ctl \<Rightarrow> nat set" where
  "ata_owned s =
     (case ac_active_pktp s of
        None \<Rightarrow> {}
      | Some (PktOf g) \<Rightarrow> {g}
      | Some ArqPkt \<Rightarrow> (case ac_fault_pktp s of Some (PktOf g) \<Rightarrow> {g} | _ \<Rightarrow> {}))"

lemma chs_ok_fixed: "drv_fixed d d' \<Longrightarrow> chs_ok d' = chs_ok d"
  by (simp add: chs_ok_def drv_fixed_def)

lemma has_drv_frame: "dev_frame p s s' \<Longrightarrow> has_drv s' dr = has_drv s dr"
  by (simp add: dev_frame_def has_drv_def)

lemma ctl_base_frame:
  assumes "ctl_base env s" "dev_frame p s s'"
  shows "ctl_base env s'"
proof -
  have f: "ap_gcmdp (ac_pkt s' q) = ap_gcmdp (ac_pkt s q)" "ap_start (ac_pkt s' q) = ap_start (ac_pkt s q)" for q
    using assms(2) by (simp_all add: dev_frame_def)
  show ?thesis
    using assms(1) unfolding ctl_base_def f chs_ok_frame [OF assms(2)] has_drv_frame [OF assms(2)] .
qed

lemma ctl_link_frame:
  assumes "ctl_link s" "dev_frame p s s'"
  shows "ctl_link s'" "ata_owned s' = ata_owned s"
  using assms(1) assms(2) [unfolded dev_frame_def] has_drv_frame [OF assms(2)]
  by (auto simp: ctl_link_def ata_owned_def split: option.splits)

lemma ctl_ok_frame: "ctl_ok env s \<Longrightarrow> dev_frame p s s' \<Longrightarrow> ctl_ok env s' \<and> ata_owned s' = ata_owned s \<and> ac_state s' = ac_state s"
  using ctl_base_frame [of env s p s'] ctl_link_frame [of s p s'] unfolding ctl_ok_def by (simp add: dev_frame_def)

text \<open>Only the packets and the drives matter to \<open>ctl_base\<close>.\<close>

lemma ctl_base_cong: "ctl_base env s \<Longrightarrow> ac_pkt s' = ac_pkt s \<Longrightarrow> ac_drvp s' = ac_drvp s \<Longrightarrow> ctl_base env s'"
  by (auto simp: ctl_base_def has_drv_def drv_def)

lemma ctl_ok_idle:
  "ctl_ok env s \<Longrightarrow> ac_state s = AS_IDLE \<longleftrightarrow> ac_active_pktp s = None"
  "ctl_ok env s \<Longrightarrow> ac_active_drvp s = None \<longleftrightarrow> ac_active_pktp s = None"
  "ctl_ok env s \<Longrightarrow> ac_state s = AS_IDLE \<Longrightarrow> ata_owned s = {}"
  by (auto simp: ctl_ok_def ctl_link_def ata_owned_def split: option.splits)

lemma ctl_ok_active:
  assumes "ctl_ok env s" "ac_state s \<noteq> AS_IDLE"
  obtains p dr g where "ac_active_pktp s = Some p" "ac_active_drvp s = Some dr" "has_drv s dr" "ata_owned s = {g}"
    "p = PktOf g \<and> ac_fault_pktp s = None \<or> p = ArqPkt \<and> ac_fault_pktp s = Some (PktOf g)"
  using assms
  by (cases "ac_active_pktp s"; cases "ac_active_drvp s"; cases "the (ac_active_pktp s)")
    (auto simp: ctl_ok_def ctl_link_def ata_owned_def split: if_splits)

lemma disconnect_ok:
  assumes "ctl_base env s" "ac_state s = AS_IDLE" "ac_fault_pktp s = None"
  shows "ctl_ok env (disconnect s)" "ata_owned (disconnect s) = {}"
  using ctl_base_cong [OF assms(1), of "disconnect s"] assms
  by (simp_all add: ctl_ok_def ctl_link_def disconnect_def ata_owned_def)

subsection \<open>Outcomes of the state machine\<close>

text \<open>Completing \<open>g\<close> succeeds whatever the soft state is.\<close>

definition completes :: "actl \<Rightarrow> nat \<Rightarrow> bool" where
  "completes c g \<longleftrightarrow> (\<forall>h. GHD_COMPLETE (c\<lparr>ccc_hba := h\<rparr>) g \<noteq> None)"

text \<open>What an operation may have done that started with \<open>g\<close> active: nothing but driver state changed and \<open>g\<close>
  is still active, or \<open>g\<close> was completed, in a state in which the driver had let go of it.\<close>

definition still_active :: "ata_env \<Rightarrow> actl \<Rightarrow> nat \<Rightarrow> actl \<Rightarrow> bool" where
  "still_active env c g c' \<longleftrightarrow>
     (\<exists>h. c' = c\<lparr>ccc_hba := h\<rparr> \<and> ctl_ok env h \<and> ata_owned h = {g} \<and> ac_state h \<noteq> AS_IDLE)"

definition let_go :: "ata_env \<Rightarrow> actl \<Rightarrow> nat \<Rightarrow> actl \<Rightarrow> bool" where
  "let_go env c g c' \<longleftrightarrow>
     (\<exists>h. ctl_ok env h \<and> ata_owned h = {} \<and> GHD_COMPLETE (c\<lparr>ccc_hba := h\<rparr>) g = Some c')"

lemma still_active_trans: "still_active env c g c' \<Longrightarrow> still_active env c' g c'' \<Longrightarrow> still_active env c g c''"
  by (auto simp: still_active_def)

lemma let_go_after: "still_active env c g c' \<Longrightarrow> let_go env c' g c'' \<Longrightarrow> let_go env c g c''"
  by (auto simp: still_active_def let_go_def)

lemma completes_after: "completes c g \<Longrightarrow> still_active env c g c' \<Longrightarrow> completes c' g"
  by (auto simp: completes_def still_active_def)

lemma all_done_outcome:
  assumes "completes c g" "ctl_base env s" "ac_state s = AS_IDLE" "ac_fault_pktp s = None"
  shows "\<exists>c'. fsm_all_done (PktOf g) (c\<lparr>ccc_hba := s\<rparr>) = Some (ATA_FSM_RC_OKAY, True, c') \<and> let_go env c g c'"
proof -
  have gp: "ap_gcmdp (ac_pkt (disconnect s) (PktOf g)) = Some g"
    using assms(2) by (simp add: ctl_base_def disconnect_def)
  from assms(1) obtain c' where "GHD_COMPLETE (c\<lparr>ccc_hba := disconnect s\<rparr>) g = Some c'"
    by (auto simp: completes_def)
  with disconnect_ok [OF assms(2-4)] gp show ?thesis
    by (auto simp: fsm_all_done_def let_go_def Let_def)
qed

lemma arq_init_spec:
  assumes "ctl_base env s" "has_drv s dr"
  shows "ctl_base env (arq_init hdr dr p s)" "has_drv (arq_init hdr dr p s) dr"
    "ac_active_pktp (arq_init hdr dr p s) = Some ArqPkt" "ac_fault_pktp (arq_init hdr dr p s) = Some p"
    "ac_active_drvp (arq_init hdr dr p s) = ac_active_drvp s" "ac_state (arq_init hdr dr p s) = ac_state s"
    "ap_start (ac_pkt (arq_init hdr dr p s) ArqPkt) = Start_atapi_fsm_start"
  using assms by (simp_all add: arq_init_def Let_def upd_pkt_def ctl_base_def has_drv_def drv_def)

lemma fini_outcome:
  assumes ok: "ctl_ok env s" "ac_state s \<noteq> AS_IDLE" "ata_owned s = {g}" and cpl: "completes c g"
  shows "\<exists>rc fin c'. fsm_fini env (ac_state s) (c\<lparr>ccc_hba := s\<lparr>ac_state := AS_IDLE\<rparr>\<rparr>) = Some (rc, fin, c') \<and>
    (\<not> fin \<and> still_active env c g c' \<or> fin \<and> rc = ATA_FSM_RC_OKAY \<and> let_go env c g c')"
proof -
  let ?s = "s\<lparr>ac_state := AS_IDLE\<rparr>"
  from ok(1,2) obtain p dr g' where a: "ac_active_pktp s = Some p" "ac_active_drvp s = Some dr" "has_drv s dr"
      "ata_owned s = {g'}" "p = PktOf g' \<and> ac_fault_pktp s = None \<or> p = ArqPkt \<and> ac_fault_pktp s = Some (PktOf g')"
    by (rule ctl_ok_active)
  with ok(3) have gg: "g' = g" by simp
  have base: "ctl_base env s" using ok(1) by (simp add: ctl_ok_def)
  have base': "ctl_base env ?s" by (rule ctl_base_cong [OF base]) simp_all
  from a(5) show ?thesis
  proof
    assume p: "p = ArqPkt \<and> ac_fault_pktp s = Some (PktOf g')"
    let ?t = "set_pkt_flags (PktOf g) (if flag_set (ap_flags (ac_pkt s ArqPkt)) (AP_ERROR OR AP_BUS_RESET)
        then AP_ARQ_ERROR else AP_ARQ_OKAY) (?s\<lparr>ac_fault_pktp := None\<rparr>)"
    have "ctl_base env (?s\<lparr>ac_fault_pktp := None\<rparr>)" by (rule ctl_base_cong [OF base]) simp_all
    from ctl_base_frame [OF this dev_frame_set_flags [of "PktOf g"]] have b: "ctl_base env ?t" .
    have i: "ac_state ?t = AS_IDLE" "ac_fault_pktp ?t = None" by (simp_all add: set_pkt_flags_def upd_pkt_def)
    have "fsm_fini env (ac_state s) (c\<lparr>ccc_hba := ?s\<rparr>) = fsm_all_done (PktOf g) (c\<lparr>ccc_hba := ?t\<rparr>)"
      using a p gg by (simp add: fsm_fini_def Let_def)
    with all_done_outcome [OF cpl b i] show ?thesis by auto
  next
    assume p: "p = PktOf g' \<and> ac_fault_pktp s = None"
    show ?thesis
    proof (cases "ap_flags (ac_pkt s p) AND AP_ARQ_NEEDED = AP_ARQ_NEEDED \<and> ap_status (ac_pkt s p) AND ATS_ERR \<noteq> 0")
      case False
      then have "fsm_fini env (ac_state s) (c\<lparr>ccc_hba := ?s\<rparr>) = fsm_all_done (PktOf g) (c\<lparr>ccc_hba := ?s\<rparr>)"
        using a p gg by (auto simp: fsm_fini_def Let_def)
      with all_done_outcome [OF cpl base'] p show ?thesis by auto
    next
      case True
      let ?a = "arq_init (env_arq_header env) dr p s"
      note A = arq_init_spec [OF base a(3), of "env_arq_header env" p]
      have "ret (dev_frame ArqPkt) ?a (call_start (env_dev env) dr ArqPkt ?a)"
        by (rule ret_call_start) (simp add: A disk_start_fns_def)
      then obtain rc t where t: "call_start (env_dev env) dr ArqPkt ?a = Some (rc, t)" "dev_frame ArqPkt ?a t"
        by (auto simp: ret_def)
      have fr: "ctl_base env t" "has_drv t dr" "ac_active_pktp t = Some ArqPkt" "ac_fault_pktp t = Some p"
          "ac_active_drvp t = Some dr" "ac_state t = ac_state s"
        using ctl_base_frame [OF A(1) t(2)] has_drv_frame [OF t(2)] A t(2) a by (auto simp: dev_frame_def)
      have st: "ata_start_arq env dr p (?s\<lparr>ac_state := ac_state s\<rparr>) = Some (rc, t)"
        using t by (simp add: ata_start_arq_def)
      show ?thesis
      proof (cases "rc = ATA_FSM_RC_BUSY")
        case busy: True
        let ?t = "(disconnect (t\<lparr>ac_state := AS_IDLE\<rparr>))\<lparr>ac_fault_pktp := None\<rparr>"
        have b: "ctl_base env ?t" by (rule ctl_base_cong [OF fr(1)]) (simp_all add: disconnect_def)
        have "fsm_fini env (ac_state s) (c\<lparr>ccc_hba := ?s\<rparr>) = fsm_all_done (PktOf g) (c\<lparr>ccc_hba := ?t\<rparr>)"
          using a p gg True st busy by (simp add: fsm_fini_def Let_def)
        with all_done_outcome [OF cpl b] show ?thesis by (auto simp: disconnect_def)
      next
        case busy: False
        have "fsm_fini env (ac_state s) (c\<lparr>ccc_hba := ?s\<rparr>) = Some (rc, False, c\<lparr>ccc_hba := t\<rparr>)"
          using a p gg True st busy by (simp add: fsm_fini_def Let_def)
        moreover have "still_active env c g (c\<lparr>ccc_hba := t\<rparr>)"
          using fr p gg ok(2) by (auto simp: still_active_def ctl_ok_def ctl_link_def ata_owned_def)
        ultimately show ?thesis by blast
      qed
    qed
  qed
qed

text \<open>One step of the machine with a request active.\<close>

lemma table_active:
  "st \<noteq> AS_IDLE \<Longrightarrow> ctlr_action st ATA_FSM_INTR = AC_INTR \<and> ctlr_next_state st ATA_FSM_INTR = st \<and>
     ctlr_action st ATA_FSM_FINI = AC_FINI \<and> ctlr_next_state st ATA_FSM_FINI = AS_IDLE \<and>
     ctlr_action st ATA_FSM_RESET = AC_RESET_A \<and> ctlr_next_state st ATA_FSM_RESET = st \<and>
     ctlr_action st ATA_FSM_START0 = AC_BUSY \<and> ctlr_action st ATA_FSM_START1 = AC_BUSY"
  by (cases st) (simp_all add: ctlr_action_def ctlr_next_state_def ata_ctlr_fsm_NextAction_def ata_ctlr_fsm_NextState_def)

lemma table_idle:
  "ctlr_action AS_IDLE ATA_FSM_INTR = AC_NADA" "ctlr_next_state AS_IDLE ATA_FSM_INTR = AS_IDLE"
  "ctlr_action AS_IDLE ATA_FSM_FINI = AC_NADA" "ctlr_next_state AS_IDLE ATA_FSM_FINI = AS_IDLE"
  "ctlr_action AS_IDLE ATA_FSM_RESET = AC_RESET_I" "ctlr_next_state AS_IDLE ATA_FSM_RESET = AS_IDLE"
  "ctlr_action AS_IDLE ATA_FSM_START0 = AC_START" "ctlr_next_state AS_IDLE ATA_FSM_START0 = AS_ACTIVE0"
  "ctlr_action AS_IDLE ATA_FSM_START1 = AC_START" "ctlr_next_state AS_IDLE ATA_FSM_START1 = AS_ACTIVE1"
  by (simp_all add: ctlr_action_def ctlr_next_state_def ata_ctlr_fsm_NextAction_def ata_ctlr_fsm_NextState_def)

lemma on_hba_ret:
  assumes "ctl_ok env (ccc_hba c)" "ac_state (ccc_hba c) \<noteq> AS_IDLE" "ata_owned (ccc_hba c) = {g}"
    and "ret (dev_frame p) (ccc_hba c) (f (ccc_hba c))"
  shows "\<exists>r c'. on_hba f c = Some (r, c') \<and> still_active env c g c'"
proof -
  from assms(4) obtain r s' where s': "f (ccc_hba c) = Some (r, s')" "dev_frame p (ccc_hba c) s'" by (auto simp: ret_def)
  from ctl_ok_frame [OF assms(1) s'(2)] assms s'(1) show ?thesis
    by (auto simp: on_hba_def still_active_def)
qed

definition fsm_outcome :: "ata_env \<Rightarrow> actl \<Rightarrow> nat \<Rightarrow> (fsm_rc \<times> bool \<times> actl) option \<Rightarrow> bool" where
  "fsm_outcome env c g x \<longleftrightarrow> (\<exists>rc fin c'. x = Some (rc, fin, c') \<and>
     (\<not> fin \<and> still_active env c g c' \<or> fin \<and> rc = ATA_FSM_RC_OKAY \<and> let_go env c g c'))"

lemma plain_outcome: "\<exists>r c'. x = Some (r, c') \<and> still_active env c g c' \<Longrightarrow> fsm_outcome env c g (plain x)"
  by (auto simp: plain_def fsm_outcome_def)

lemma hba_same [simp]: "c\<lparr>ccc_hba := (ccc_hba c)\<lparr>ac_state := ac_state (ccc_hba c)\<rparr>\<rparr> = (c :: actl)"
  by simp

lemma fsm_active:
  assumes ok: "ctl_ok env (ccc_hba c)" "ac_state (ccc_hba c) \<noteq> AS_IDLE" "ata_owned (ccc_hba c) = {g}"
    and cpl: "completes c g" and f: "f \<in> {ATA_FSM_INTR, ATA_FSM_FINI, ATA_FSM_RESET}"
  shows "fsm_outcome env c g (ata_ctlr_fsm env f req c)"
proof -
  let ?s = "ccc_hba c"
  from ok(1,2) obtain p dr where a: "ac_active_pktp ?s = Some p" "ac_active_drvp ?s = Some dr"
    by (rule ctl_ok_active)
  note T = table_active [OF ok(2)]
  consider "f = ATA_FSM_INTR" | "f = ATA_FSM_FINI" | "f = ATA_FSM_RESET" using f by auto
  then show ?thesis
  proof cases
    case 1
    have "ata_ctlr_fsm env f req c = plain (on_hba (call_intr (env_dev env) dr p) c)"
      using T a by (simp add: ata_ctlr_fsm_def 1 Let_def)
    with plain_outcome [OF on_hba_ret [OF ok, of p "call_intr (env_dev env) dr p"]] ret_call_intr show ?thesis by simp
  next
    case 2
    have "ata_ctlr_fsm env f req c = fsm_fini env (ac_state ?s) (c\<lparr>ccc_hba := ?s\<lparr>ac_state := AS_IDLE\<rparr>\<rparr>)"
      using T a by (simp add: ata_ctlr_fsm_def 2 Let_def)
    with fini_outcome [OF ok cpl] show ?thesis unfolding fsm_outcome_def by simp
  next
    case 3
    let ?f = "\<lambda>s. fsm_reset (env_dev env) ATA_FSM_RC_FINI (reset_halt (env_dev env) p s)"
    have "ata_ctlr_fsm env f req c = plain (on_hba ?f c)"
      using T a by (simp add: ata_ctlr_fsm_def 3 Let_def)
    moreover have "ret (dev_frame p) ?s (?f ?s)"
      by (rule ret_after [OF ret_fsm_reset' ret_reset_halt])
    ultimately show ?thesis using plain_outcome [OF on_hba_ret [OF ok, of p ?f]] by simp
  qed
qed

text \<open>The outcome of a whole loop: it returns, and \<open>g\<close> is still active or was completed.\<close>

definition loop_outcome :: "ata_env \<Rightarrow> actl \<Rightarrow> nat \<Rightarrow> actl \<Rightarrow> bool" where
  "loop_outcome env c g c' \<longleftrightarrow> still_active env c g c' \<or> let_go env c g c'"

lemma loop_after: "still_active env c g c' \<Longrightarrow> loop_outcome env c' g c'' \<Longrightarrow> loop_outcome env c g c''"
  unfolding loop_outcome_def by (blast intro: still_active_trans let_go_after)

lemma still_active_facts:
  "still_active env c g c' \<Longrightarrow> ctl_ok env (ccc_hba c') \<and> ac_state (ccc_hba c') \<noteq> AS_IDLE \<and> ata_owned (ccc_hba c') = {g}"
  unfolding still_active_def by (elim exE conjE) simp

lemma active_self:
  "ctl_ok env (ccc_hba c) \<Longrightarrow> ac_state (ccc_hba c) \<noteq> AS_IDLE \<Longrightarrow> ata_owned (ccc_hba c) = {g} \<Longrightarrow> still_active env c g c"
  unfolding still_active_def by (intro exI [of _ "ccc_hba c"] conjI) simp_all

lemma start_loop_active:
  assumes "ctl_ok env (ccc_hba c)" "ac_state (ccc_hba c) \<noteq> AS_IDLE" "ata_owned (ccc_hba c) = {g}" "completes c g"
    and "f \<in> {ATA_FSM_INTR, ATA_FSM_FINI}"
  shows "\<exists>c'. hba_start_loop env n f None True c = Some (True, c') \<and> loop_outcome env c g c'"
  using assms
proof (induction n arbitrary: f c)
  case 0
  then show ?case using active_self by (auto simp: loop_outcome_def)
next
  case (Suc n)
  have "fsm_outcome env c g (ata_ctlr_fsm env f None c)"
    using Suc.prems by (intro fsm_active) auto
  then obtain rc fin c1 where c1: "ata_ctlr_fsm env f None c = Some (rc, fin, c1)"
      "\<not> fin \<and> still_active env c g c1 \<or> fin \<and> rc = ATA_FSM_RC_OKAY \<and> let_go env c g c1"
    by (auto simp: fsm_outcome_def)
  have out: "loop_outcome env c g c1" using c1(2) by (auto simp: loop_outcome_def)
  show ?case
  proof (cases "rc = ATA_FSM_RC_INTR \<or> rc = ATA_FSM_RC_FINI")
    case True
    with c1(2) have sa: "still_active env c g c1" by auto
    note F = still_active_facts [OF sa] completes_after [OF Suc.prems(4) sa]
    have "\<exists>c'. hba_start_loop env n f' None True c1 = Some (True, c') \<and> loop_outcome env c1 g c'"
      if "f' \<in> {ATA_FSM_INTR, ATA_FSM_FINI}" for f'
      using F that by (intro Suc.IH) auto
    from this [of ATA_FSM_INTR] this [of ATA_FSM_FINI] True c1(1) show ?thesis
      by (elim disjE) (auto intro: loop_after [OF sa])
  next
    case False
    with c1(1) out show ?thesis by (cases rc) auto
  qed
qed

lemma intr_loop_outcome:
  assumes "ctl_ok env (ccc_hba c)" "ac_state (ccc_hba c) \<noteq> AS_IDLE" "ata_owned (ccc_hba c) = {g}" "completes c g"
    and "f \<in> {ATA_FSM_INTR, ATA_FSM_FINI}"
  shows "\<exists>c'. process_intr_loop env n f c = Some c' \<and> loop_outcome env c g c'"
proof -
  have "process_intr_loop env n f c = map_option snd (hba_start_loop env n f None True c)" for b
  proof (induction n arbitrary: f c)
    case (Suc n)
    then show ?case by (auto split: option.split prod.split fsm_rc.split)
  qed simp
  with start_loop_active [OF assms, of n] show ?thesis by auto
qed

lemma reset_loop_active:
  assumes "ctl_ok env (ccc_hba c)" "ac_state (ccc_hba c) \<noteq> AS_IDLE" "ata_owned (ccc_hba c) = {g}" "completes c g"
    and "f \<in> {ATA_FSM_INTR, ATA_FSM_FINI, ATA_FSM_RESET}"
  shows "\<exists>r c'. reset_bus_loop env n f rc False c = Some (r, c') \<and>
    (still_active env c g c' \<and> (\<forall>b D. r = Some (b, D) \<longrightarrow> \<not> D) \<or> let_go env c g c' \<and> r = Some (True, True))"
  using assms
proof (induction n arbitrary: f rc c)
  case 0
  then show ?case using active_self by auto
next
  case (Suc n)
  have "fsm_outcome env c g (ata_ctlr_fsm env f None c)"
    using Suc.prems by (intro fsm_active) auto
  then obtain r fin c1 where c1: "ata_ctlr_fsm env f None c = Some (r, fin, c1)"
      "\<not> fin \<and> still_active env c g c1 \<or> fin \<and> r = ATA_FSM_RC_OKAY \<and> let_go env c g c1"
    by (auto simp: fsm_outcome_def)
  show ?case
  proof (cases "r = ATA_FSM_RC_INTR \<or> r = ATA_FSM_RC_FINI")
    case True
    with c1(2) have sa: "still_active env c g c1" "\<not> fin" by auto
    note F = still_active_facts [OF sa(1)] completes_after [OF Suc.prems(4) sa(1)]
    have IH: "\<exists>r c'. reset_bus_loop env n f' True False c1 = Some (r, c') \<and>
      (still_active env c1 g c' \<and> (\<forall>b D. r = Some (b, D) \<longrightarrow> \<not> D) \<or> let_go env c1 g c' \<and> r = Some (True, True))"
      if "f' \<in> {ATA_FSM_INTR, ATA_FSM_FINI, ATA_FSM_RESET}" for f'
      using F that by (intro Suc.IH) auto
    obtain r' c' where c': "reset_bus_loop env (Suc n) f rc False c = Some (r', c')"
      "still_active env c1 g c' \<and> (\<forall>b D. r' = Some (b, D) \<longrightarrow> \<not> D) \<or> let_go env c1 g c' \<and> r' = Some (True, True)"
    proof -
      from IH [of ATA_FSM_INTR] IH [of ATA_FSM_FINI] obtain r1 c1' r2 c2' where
        i: "reset_bus_loop env n ATA_FSM_INTR True False c1 = Some (r1, c1')"
          "still_active env c1 g c1' \<and> (\<forall>b D. r1 = Some (b, D) \<longrightarrow> \<not> D) \<or> let_go env c1 g c1' \<and> r1 = Some (True, True)"
        and j: "reset_bus_loop env n ATA_FSM_FINI True False c1 = Some (r2, c2')"
          "still_active env c1 g c2' \<and> (\<forall>b D. r2 = Some (b, D) \<longrightarrow> \<not> D) \<or> let_go env c1 g c2' \<and> r2 = Some (True, True)"
        by blast
      from True show thesis
      proof
        assume "r = ATA_FSM_RC_INTR"
        with c1(1) sa(2) i(1) have "reset_bus_loop env (Suc n) f rc False c = Some (r1, c1')" by simp
        from that [OF this i(2)] show thesis .
      next
        assume "r = ATA_FSM_RC_FINI"
        with c1(1) sa(2) j(1) have "reset_bus_loop env (Suc n) f rc False c = Some (r2, c2')" by simp
        from that [OF this j(2)] show thesis .
      qed
    qed
    with still_active_trans [OF sa(1)] let_go_after [OF sa(1)] show ?thesis by blast
  next
    case False
    with c1 show ?thesis by (cases r) auto
  qed
qed

subsection \<open>The contract with GHD\<close>

lemma completes_live:
  assumes "wq_inv c A" "g \<in> wq_live A"
  shows "completes c g"
proof -
  have "GHD_COMPLETE (c\<lparr>ccc_hba := h\<rparr>) g \<noteq> None" for h
    using complete_spec [OF wq_inv_hba [OF assms(1), of h] assms(2)] by (elim exE conjE) simp
  then show ?thesis by (simp add: completes_def)
qed

lemma complete_times:
  assumes inv: "wq_inv c A" and g: "g \<in> wq_live A" and cpl: "GHD_COMPLETE c g = Some c'"
  shows "cmd_start_time (ccc_gcmd c' h) = cmd_start_time (ccc_gcmd c h)"
    "cmd_timeout (ccc_gcmd c' h) = cmd_timeout (ccc_gcmd c h)"
proof -
  let ?d = "cmd_gdev (ccc_gcmd c g)" and ?B = "wq_remove A g"
  obtain c1 gs where c1: "sol11ghd_waitq_delete c g = Some c1" "shuffle_frame (wq_del1 c g) c1 ?d gs"
    using waitq_delete_spec [OF inv g] by blast
  have e: "c' = GHD_DONEQ_PUT_TAIL (GHD_TIMER_STOP (upd_gcmd g (\<lambda>r. r\<lparr>cmd_state := GCMD_STATE_DONEQ\<rparr>) c1) g) g"
    using cpl c1(1) by (simp add: GHD_COMPLETE_def Let_def)
  have "ccc_gcmd c' = (ccc_gcmd c1)(g := (ccc_gcmd c1 g)\<lparr>cmd_state := GCMD_STATE_DONEQ\<rparr>)"
    unfolding e by (simp add: GHD_DONEQ_PUT_TAIL_def GHD_TIMER_STOP_def doneq_softintr_def Let_def)
  moreover have "ccc_gcmd c1 h = (if h \<in> set gs then (ccc_gcmd c h)\<lparr>cmd_waitq_level := 2\<rparr> else ccc_gcmd c h)"
    for h using c1(2) unfolding shuffle_frame_def by (simp add: wq_del1_def Let_def)
  ultimately show "cmd_start_time (ccc_gcmd c' h) = cmd_start_time (ccc_gcmd c h)"
    "cmd_timeout (ccc_gcmd c' h) = cmd_timeout (ccc_gcmd c h)" by simp_all
qed

text \<open>The first step of a start.\<close>

lemma fsm_start_outcome:
  assumes ok: "ctl_ok env s" "ac_state s = AS_IDLE" and st: "st \<noteq> AS_IDLE"
  shows "\<exists>rc s'. fsm_start dev (env_drv env g) (PktOf g) (s\<lparr>ac_state := st\<rparr>) = Some (rc, s') \<and> ctl_ok env s' \<and>
    (if rc = ATA_FSM_RC_BUSY then ata_owned s' = {} \<and> ac_state s' = AS_IDLE
     else ata_owned s' = {g} \<and> ac_state s' \<noteq> AS_IDLE)"
proof -
  let ?dr = "env_drv env g"
  let ?s = "s\<lparr>ac_state := st, ac_active_pktp := Some (PktOf g), ac_active_drvp := Some ?dr\<rparr>"
  have b: "ctl_base env s" "ac_fault_pktp s = None"
    using ok by (auto simp: ctl_ok_def ctl_link_def split: option.splits)
  have bs: "ctl_base env ?s" by (rule ctl_base_cong [OF b(1)]) simp_all
  have l: "ctl_link ?s" "ata_owned ?s = {g}"
    using bs st b(2) by (simp_all add: ctl_link_def ata_owned_def ctl_base_def)
  have "ret (dev_frame (PktOf g)) ?s (call_start dev ?dr (PktOf g) ?s)"
    by (rule ret_call_start) (use bs in \<open>simp add: ctl_base_def\<close>)
  then obtain rc t where t: "call_start dev ?dr (PktOf g) ?s = Some (rc, t)" "dev_frame (PktOf g) ?s t"
    by (auto simp: ret_def)
  have T: "ctl_ok env t" "ata_owned t = {g}" "ac_state t = st"
    using ctl_ok_frame [of env ?s "PktOf g" t] bs l t(2) by (simp_all add: ctl_ok_def)
  have f: "ac_fault_pktp t = None" using t(2) b(2) by (simp add: dev_frame_def)
  let ?t = "disconnect (t\<lparr>ac_state := AS_IDLE\<rparr>)"
  have bt: "ctl_base env (t\<lparr>ac_state := AS_IDLE\<rparr>)"
    by (rule ctl_base_cong [of env t]) (use T(1) in \<open>simp_all add: ctl_ok_def\<close>)
  have D: "ctl_ok env ?t" "ata_owned ?t = {}"
    by (rule disconnect_ok [OF bt]; simp add: f)+
  have s2: "fsm_start dev ?dr (PktOf g) (s\<lparr>ac_state := st\<rparr>) =
      Some (rc, if rc = ATA_FSM_RC_BUSY then ?t else t)"
    using t(1) by (simp add: fsm_start_def)
  show ?thesis
    unfolding s2 using T D st by (simp add: disconnect_def)
qed

lemma fsm_start_step:
  assumes ok: "ctl_ok env (ccc_hba c)" "ac_state (ccc_hba c) = AS_IDLE" and f: "f = ATA_FSM_START0 \<or> f = ATA_FSM_START1"
  shows "\<exists>rc h. ata_ctlr_fsm env f (Some (env_drv env g, PktOf g)) c = Some (rc, False, c\<lparr>ccc_hba := h\<rparr>) \<and> ctl_ok env h \<and>
    (if rc = ATA_FSM_RC_BUSY then ata_owned h = {} \<and> ac_state h = AS_IDLE
     else ata_owned h = {g} \<and> ac_state h \<noteq> AS_IDLE)"
proof -
  define st where "st = ctlr_next_state AS_IDLE f"
  have a: "ctlr_action AS_IDLE f = AC_START" "st \<noteq> AS_IDLE"
    using f by (auto simp: st_def table_idle)
  have "ata_ctlr_fsm env f (Some (env_drv env g, PktOf g)) c =
      plain (on_hba (fsm_start (env_dev env) (env_drv env g) (PktOf g)) (c\<lparr>ccc_hba := (ccc_hba c)\<lparr>ac_state := st\<rparr>\<rparr>))"
    using ok(2) a(1) by (simp add: ata_ctlr_fsm_def Let_def st_def)
  moreover obtain rc h where r: "fsm_start (env_dev env) (env_drv env g) (PktOf g) ((ccc_hba c)\<lparr>ac_state := st\<rparr>) = Some (rc, h)"
    "ctl_ok env h" "if rc = ATA_FSM_RC_BUSY then ata_owned h = {} \<and> ac_state h = AS_IDLE
     else ata_owned h = {g} \<and> ac_state h \<noteq> AS_IDLE"
    using fsm_start_outcome [OF ok a(2), of "env_dev env" g] by blast
  ultimately have "ata_ctlr_fsm env f (Some (env_drv env g, PktOf g)) c = Some (rc, False, c\<lparr>ccc_hba := h\<rparr>)"
    by (simp add: plain_def on_hba_def)
  with r show ?thesis by blast
qed

lemma hba_start_outcome:
  assumes ok: "ctl_ok env (ccc_hba c)" and cpl: "completes c g"
  shows "\<exists>r c' h. ata_hba_start env c g = Some (r, c') \<and> ctl_ok env h \<and>
    (c' = c\<lparr>ccc_hba := h\<rparr> \<and> (if r \<and> ac_state (ccc_hba c) = AS_IDLE then ata_owned h = {g} else ata_owned h = ata_owned (ccc_hba c)) \<or>
     r \<and> ac_state (ccc_hba c) = AS_IDLE \<and> ata_owned h = {} \<and> GHD_COMPLETE (c\<lparr>ccc_hba := h\<rparr>) g = Some c')"
proof (cases "ac_state (ccc_hba c) = AS_IDLE")
  case False
  then have "ata_hba_start env c g = Some (False, c)"
    using ctl_ok_idle(1,2) [OF ok] by (simp add: ata_hba_start_def)
  with ok show ?thesis by (intro exI [of _ False] exI [of _ c] exI [of _ "ccc_hba c"]) simp
next
  case idle: True
  note I = ctl_ok_idle [OF ok]
  define f where "f = (if ad_targ (drv (ccc_hba c) (env_drv env g)) = 0 then ATA_FSM_START0 else ATA_FSM_START1)"
  have f: "f = ATA_FSM_START0 \<or> f = ATA_FSM_START1" by (simp add: f_def)
  obtain rc h where h: "ata_ctlr_fsm env f (Some (env_drv env g, PktOf g)) c = Some (rc, False, c\<lparr>ccc_hba := h\<rparr>)"
      "ctl_ok env h" "if rc = ATA_FSM_RC_BUSY then ata_owned h = {} \<and> ac_state h = AS_IDLE
       else ata_owned h = {g} \<and> ac_state h \<noteq> AS_IDLE"
    using fsm_start_step [OF ok idle f, of g] by blast
  let ?c = "c\<lparr>ccc_hba := h\<rparr>"
  have start: "ata_hba_start env c g = (case rc of
       ATA_FSM_RC_OKAY \<Rightarrow> Some (True, ?c) | ATA_FSM_RC_BUSY \<Rightarrow> Some (False, ?c)
     | ATA_FSM_RC_INTR \<Rightarrow> hba_start_loop env 999 ATA_FSM_INTR None True ?c
     | ATA_FSM_RC_FINI \<Rightarrow> hba_start_loop env 999 ATA_FSM_FINI None True ?c)"
    using I idle h(1) hba_start_loop.simps(2) [of env 999 f]
    by (simp add: ata_hba_start_def Let_def f_def ata_hba_start_watchdog_def)
  have own: "ata_owned (ccc_hba c) = {}" using I idle by simp
  consider "rc = ATA_FSM_RC_BUSY" | "rc = ATA_FSM_RC_OKAY" | f' where "f' \<in> {ATA_FSM_INTR, ATA_FSM_FINI}"
      "ata_hba_start env c g = hba_start_loop env 999 f' None True ?c" "rc \<noteq> ATA_FSM_RC_BUSY"
    using start by (cases rc) auto
  then show ?thesis
  proof cases
    case 1
    with h own start show ?thesis by (intro exI [of _ False] exI [of _ ?c] exI [of _ h]) simp
  next
    case 2
    with h idle start show ?thesis by (intro exI [of _ True] exI [of _ ?c] exI [of _ h]) simp
  next
    case (3 f')
    have cpl': "completes ?c g" using cpl by (simp add: completes_def)
    from start_loop_active [of env ?c g f' 999] h 3 cpl' obtain c' where
      c': "ata_hba_start env c g = Some (True, c')" "loop_outcome env ?c g c'" by auto
    from c'(2) consider h' where "c' = c\<lparr>ccc_hba := h'\<rparr>" "ctl_ok env h'" "ata_owned h' = {g}"
      | h' where "ctl_ok env h'" "ata_owned h' = {}" "GHD_COMPLETE (c\<lparr>ccc_hba := h'\<rparr>) g = Some c'"
      by (auto simp: loop_outcome_def still_active_def let_go_def)
    then show ?thesis
    proof cases
      case (1 h')
      with c'(1) idle show ?thesis by (intro exI [of _ True] exI [of _ c'] exI [of _ h']) simp
    next
      case (2 h')
      with c'(1) idle show ?thesis by (intro exI [of _ True] exI [of _ c'] exI [of _ h']) simp
    qed
  qed
qed

interpretation ata: hba_driver "ata_hba_start env" "ctl_ok env" ata_owned for env
proof unfold_locales
  fix c A g
  assume a: "wq_inv c A" "g \<in> wq_started A" "ctl_ok env (ccc_hba c)" "ata_owned (ccc_hba c) \<subseteq> wq_started A - {g}"
  have "g \<in> wq_live A" using a(2) by (simp add: wq_started_def)
  from hba_start_outcome [OF a(3) completes_live [OF a(1) this]] ctl_ok_idle(3) [OF a(3)]
  show "\<exists>ok c' h. ata_hba_start env c g = Some (ok, c') \<and> ctl_ok env h \<and>
     (c' = c\<lparr>ccc_hba := h\<rparr> \<and> ata_owned h \<subseteq> ata_owned (ccc_hba c) \<union> (if ok then {g} else {}) \<or>
      ok \<and> ata_owned h \<subseteq> ata_owned (ccc_hba c) \<and> GHD_COMPLETE (c\<lparr>ccc_hba := h\<rparr>) g = Some c')"
    by (elim exE conjE) (rule exI, rule exI, rule exI, rule conjI, assumption, rule conjI, assumption,
        auto split: if_splits)
qed

subsection \<open>Bus reset and recovery\<close>

lemma fsm_reset_rc:
  "fsm_reset dev rc s = Some (r, s') \<Longrightarrow> r = rc \<or> r = ATA_FSM_RC_BUSY"
  by (cases "ata_software_reset dev s"; cases "atapi_fsm_reset dev (snd (the (ata_software_reset dev s)))")
    (auto simp: fsm_reset_def split: if_splits)

lemma reset_loop_idle:
  assumes ok: "ctl_ok env (ccc_hba c)" "ac_state (ccc_hba c) = AS_IDLE"
  shows "\<exists>r h. reset_bus_loop env (Suc n) ATA_FSM_RESET rc False c = Some (r, c\<lparr>ccc_hba := h\<rparr>) \<and>
    ctl_ok env h \<and> ata_owned h = {} \<and> (\<forall>b D. r = Some (b, D) \<longrightarrow> \<not> D)"
proof -
  let ?s = "ccc_hba c"
  obtain r h where r: "fsm_reset (env_dev env) ATA_FSM_RC_OKAY ?s = Some (r, h)" "dev_frame ArqPkt ?s h"
    using ret_fsm_reset' [of ArqPkt ?s "env_dev env" ATA_FSM_RC_OKAY] by (auto simp: ret_def)
  have h: "ctl_ok env h" "ata_owned h = {}"
    using ctl_ok_frame [OF ok(1) r(2)] ctl_ok_idle(3) [OF ok] by simp_all
  have same: "c\<lparr>ccc_hba := ?s\<lparr>ac_state := AS_IDLE\<rparr>\<rparr> = c" by (simp only: ok(2) [symmetric] hba_same)
  have "ata_ctlr_fsm env ATA_FSM_RESET None c = Some (r, False, c\<lparr>ccc_hba := h\<rparr>)"
    unfolding ata_ctlr_fsm_def Let_def ok(2) table_idle same by (simp add: plain_def on_hba_def r(1))
  with fsm_reset_rc [OF r(1)] h show ?thesis
    by (elim disjE) (simp_all, blast+)
qed

lemma ret_reinit: "ret (dev_frame p) s (reset_reinit1 dev d rc s)"
  unfolding reset_reinit1_def by (auto intro!: ret_bind [OF ret_setup_parms] ret_Some)

lemma reinit_outcome:
  assumes "ctl_ok env (ccc_hba c)"
  shows "\<exists>r h. on_hba (reset_reinit1 dev d rc) c = Some (r, c\<lparr>ccc_hba := h\<rparr>) \<and> ctl_ok env h \<and> ata_owned h = ata_owned (ccc_hba c) \<and>
    dev_frame ArqPkt (ccc_hba c) h"
proof -
  obtain r h where "reset_reinit1 dev d rc (ccc_hba c) = Some (r, h)" "dev_frame ArqPkt (ccc_hba c) h"
    using ret_reinit [of ArqPkt "ccc_hba c" dev d rc] by (auto simp: ret_def)
  with ctl_ok_frame [OF assms, of ArqPkt h] show ?thesis by (simp add: on_hba_def) blast
qed

lemma reset_bus_tail:
  assumes loop: "reset_bus_loop env ata_reset_bus_watchdog ATA_FSM_RESET False False c = Some (r, c1)"
    and ok: "ctl_ok env (ccc_hba c1)"
  shows "\<exists>b h. ata_reset_bus env c = Some (b, c1\<lparr>ccc_hba := h\<rparr>) \<and> ctl_ok env h \<and>
    ata_owned h = ata_owned (ccc_hba c1) \<and> dev_frame ArqPkt (ccc_hba c1) h \<and> (\<forall>b' D. r = Some (b', D) \<longrightarrow> D \<longrightarrow> b)"
proof (cases r)
  case None
  with loop ok show ?thesis
    by (intro exI [of _ False] exI [of _ "ccc_hba c1"]) (simp add: ata_reset_bus_def)
next
  case (Some q)
  obtain rc D where q: "q = (rc, D)" by fastforce
  obtain r1 h1 where 1: "on_hba (reset_reinit1 (env_dev env) 0 rc) c1 = Some (r1, c1\<lparr>ccc_hba := h1\<rparr>)"
      "ctl_ok env h1" "ata_owned h1 = ata_owned (ccc_hba c1)" "dev_frame ArqPkt (ccc_hba c1) h1"
    using reinit_outcome [OF ok] by blast
  obtain r2 h2 where 2: "on_hba (reset_reinit1 (env_dev env) 1 r1) (c1\<lparr>ccc_hba := h1\<rparr>) = Some (r2, c1\<lparr>ccc_hba := h2\<rparr>)"
      "ctl_ok env h2" "ata_owned h2 = ata_owned h1" "dev_frame ArqPkt h1 h2"
    using reinit_outcome [of env "c1\<lparr>ccc_hba := h1\<rparr>" "env_dev env" 1 r1] 1(2) by auto
  have "ata_reset_bus env c = Some (if D then True else r2, c1\<lparr>ccc_hba := h2\<rparr>)"
    using loop Some q 1(1) 2(1) by (simp add: ata_reset_bus_def)
  moreover have "dev_frame ArqPkt (ccc_hba c1) h2" by (rule dev_frame_trans [OF 1(4) 2(4)])
  ultimately show ?thesis using 1 2 Some q by auto
qed

lemma complete_hba:
  assumes "wq_inv c A" "g \<in> wq_live A" "GHD_COMPLETE (c\<lparr>ccc_hba := h\<rparr>) g = Some c'"
  shows "ccc_hba c' = h"
  using complete_spec [OF wq_inv_hba [OF assms(1), of h] assms(2)] assms(3) by (elim exE conjE) simp

lemma reset_bus_outcome:
  assumes ok: "ctl_ok env (ccc_hba c)" and inv: "wq_inv c A" and own: "ata_owned (ccc_hba c) \<subseteq> wq_live A"
  shows "\<exists>b c'. ata_reset_bus env c = Some (b, c') \<and>
    ((\<exists>h. c' = c\<lparr>ccc_hba := h\<rparr> \<and> ctl_ok env h \<and> ata_owned h = ata_owned (ccc_hba c)) \<or>
     b \<and> (\<exists>g h c1 h'. ata_owned (ccc_hba c) = {g} \<and> GHD_COMPLETE (c\<lparr>ccc_hba := h\<rparr>) g = Some c1 \<and>
       c' = c1\<lparr>ccc_hba := h'\<rparr> \<and> ctl_ok env h' \<and> ata_owned h' = {}))"
proof (cases "ac_state (ccc_hba c) = AS_IDLE")
  case True
  from reset_loop_idle [OF ok True, of 999 False] obtain r h where
    l: "reset_bus_loop env ata_reset_bus_watchdog ATA_FSM_RESET False False c = Some (r, c\<lparr>ccc_hba := h\<rparr>)"
      "ctl_ok env h" "ata_owned h = {}"
    by (auto simp: ata_reset_bus_watchdog_def)
  from reset_bus_tail [OF l(1)] l(2,3) ctl_ok_idle(3) [OF ok True] show ?thesis by auto
next
  case False
  obtain g where g: "ata_owned (ccc_hba c) = {g}" using ctl_ok_active [OF ok False] by metis
  have gl: "g \<in> wq_live A" using own g by simp
  from reset_loop_active [OF ok False g completes_live [OF inv gl], of ATA_FSM_RESET ata_reset_bus_watchdog False] obtain r c1 where
    l: "reset_bus_loop env ata_reset_bus_watchdog ATA_FSM_RESET False False c = Some (r, c1)"
      "still_active env c g c1 \<and> (\<forall>b D. r = Some (b, D) \<longrightarrow> \<not> D) \<or> let_go env c g c1 \<and> r = Some (True, True)" by auto
  from l(2) show ?thesis
  proof
    assume a: "still_active env c g c1 \<and> (\<forall>b D. r = Some (b, D) \<longrightarrow> \<not> D)"
    then obtain h where h: "c1 = c\<lparr>ccc_hba := h\<rparr>" "ctl_ok env h" "ata_owned h = {g}" by (auto simp: still_active_def)
    from reset_bus_tail [OF l(1)] h g show ?thesis by auto
  next
    assume a: "let_go env c g c1 \<and> r = Some (True, True)"
    then obtain h where h: "ctl_ok env h" "ata_owned h = {}" "GHD_COMPLETE (c\<lparr>ccc_hba := h\<rparr>) g = Some c1"
      by (auto simp: let_go_def)
    have hb: "ccc_hba c1 = h" by (rule complete_hba [OF inv gl h(3)])
    from reset_bus_tail [OF l(1)] hb h(1) obtain b h' where
      t: "ata_reset_bus env c = Some (b, c1\<lparr>ccc_hba := h'\<rparr>)" "ctl_ok env h'" "ata_owned h' = ata_owned h"
        "\<forall>b' D. r = Some (b', D) \<longrightarrow> D \<longrightarrow> b" by auto
    have b: b using t(4) a by blast
    show ?thesis
      by (rule exI [of _ b], rule exI [of _ "c1\<lparr>ccc_hba := h'\<rparr>"]) (use t g h b in auto)
  qed
qed

lemma complete_recovery:
  assumes inv: "ghd_inv c A" and own: "ata_owned (ccc_hba c) \<subseteq> wq_started A" and g: "g \<in> wq_live A"
    and cpl: "GHD_COMPLETE (c\<lparr>ccc_hba := h\<rparr>) g = Some c1" and h: "ata_owned h' \<subseteq> ata_owned (ccc_hba c) - {g}"
  shows "\<exists>B. ghd_inv (c1\<lparr>ccc_hba := h'\<rparr>) B \<and> ata_owned h' \<subseteq> wq_started B \<and> wq_progress A B \<and>
    timer_frame c A (c1\<lparr>ccc_hba := h'\<rparr>) B"
proof -
  note i = ghd_inv_hba [OF inv, of h]
  from complete_ghd_spec [OF i g] cpl obtain d k where B: "ghd_inv c1 (wq_complete A g d k)" by auto
  have "timer_frame c A (c1\<lparr>ccc_hba := h'\<rparr>) (wq_complete A g d k)"
    using complete_times [OF ghd_invD(1) [OF i] g cpl] set_remove1_subset [of g "wq_timer A"]
    by (auto simp: timer_frame_def wq_complete_def)
  with ghd_inv_hba [OF B, of h'] wq_progress_complete [OF g] h own show ?thesis
    by (intro exI [of _ "wq_complete A g d k"]) auto
qed

lemma ctl_ok_set_flags: "ctl_ok env s \<Longrightarrow> ctl_ok env (set_pkt_flags p m s) \<and> ata_owned (set_pkt_flags p m s) = ata_owned s"
  using ctl_ok_frame [OF _ dev_frame_set_flags] by blast

lemma early_outcome:
  assumes inv: "ghd_inv c A" and ok: "ctl_ok env (ccc_hba c)" and own: "ata_owned (ccc_hba c) \<subseteq> wq_started A"
    and g: "g \<in> wq_live A" "g \<notin> wq_started A"
  shows "\<exists>c'. early_complete fl (Some g) c = Some (True, c') \<and> ctl_ok env (ccc_hba c') \<and>
    (\<exists>B. ghd_inv c' B \<and> ata_owned (ccc_hba c') \<subseteq> wq_started B \<and> wq_progress A B \<and> timer_frame c A c' B)"
proof -
  let ?h = "set_pkt_flags (PktOf g) fl (ccc_hba c)"
  note W = ghd_invD(1) [OF inv]
  note F = ctl_ok_set_flags [OF ok, of "PktOf g" fl]
  from completes_live [OF W g(1)] obtain c1 where c1: "GHD_COMPLETE (c\<lparr>ccc_hba := ?h\<rparr>) g = Some c1"
    by (auto simp: completes_def)
  have hb: "ccc_hba c1 = ?h" by (rule complete_hba [OF W g(1) c1])
  have same: "c1\<lparr>ccc_hba := ?h\<rparr> = c1" using hb by (cases c1) simp
  have "ata_owned ?h \<subseteq> ata_owned (ccc_hba c) - {g}" using F g(2) own by auto
  from complete_recovery [OF inv own g(1) c1 this] same hb F c1 show ?thesis
    by (simp add: early_complete_def)
qed

interpretation ata: hba_recovery "ata_timeout_func env" "ctl_ok env" ata_owned for env
proof unfold_locales
  fix c A gcmdp a d t
  assume inv: "ghd_inv c A" and ok: "ctl_ok env (ccc_hba c)" and own: "ata_owned (ccc_hba c) \<subseteq> wq_started A"
    and g: "\<And>g. gcmdp = Some g \<Longrightarrow> g \<in> wq_live A \<and> (gact_rank a = 5 \<longrightarrow> g \<notin> wq_started A)"
    and n: "gcmdp = None \<Longrightarrow> gact_rank a \<le> 3"
  let ?P = "\<lambda>took c'. ata_timeout_func env c gcmdp d a t = Some (took, c') \<and> ctl_ok env (ccc_hba c') \<and>
       (\<not> took \<longrightarrow> (\<exists>h. c' = c\<lparr>ccc_hba := h\<rparr> \<and> ata_owned h \<subseteq> ata_owned (ccc_hba c))) \<and>
       (took \<longrightarrow> (\<exists>B. ghd_inv c' B \<and> ata_owned (ccc_hba c') \<subseteq> wq_started B \<and> wq_progress A B \<and> timer_frame c A c' B))"
  have refuse: "\<exists>took c'. ?P took c'" if "ata_timeout_func env c gcmdp d a t = Some (False, c)"
    using that ok by (intro exI [of _ False] exI [of _ c] conjI impI exI [of _ "ccc_hba c"]) simp_all
  have early: "\<exists>took c'. ?P took c'" if "ata_timeout_func env c gcmdp d a t = early_complete fl gcmdp c" "gact_rank a = 5" for fl
  proof -
    from n that(2) obtain g' where g': "gcmdp = Some g'" by (cases gcmdp) auto
    from early_outcome [OF inv ok own, of g' fl] g [OF g'] that g' show ?thesis by auto
  qed
  show "\<exists>took c'. ?P took c'"
  proof (cases "a = GACTION_RESET_BUS \<and> gcmdp \<noteq> None")
    case True
    have live: "wq_started A \<subseteq> wq_live A" by (auto simp: wq_started_def)
    from reset_bus_outcome [OF ok ghd_invD(1) [OF inv] subset_trans [OF own live]] obtain b c' where
      r: "ata_reset_bus env c = Some (b, c')"
        "(\<exists>h. c' = c\<lparr>ccc_hba := h\<rparr> \<and> ctl_ok env h \<and> ata_owned h = ata_owned (ccc_hba c)) \<or>
         b \<and> (\<exists>g h c1 h'. ata_owned (ccc_hba c) = {g} \<and> GHD_COMPLETE (c\<lparr>ccc_hba := h\<rparr>) g = Some c1 \<and>
           c' = c1\<lparr>ccc_hba := h'\<rparr> \<and> ctl_ok env h' \<and> ata_owned h' = {})" by blast
    have f: "ata_timeout_func env c gcmdp d a t = Some (b, c')" using True r(1) by (auto simp: ata_timeout_func_def)
    from r(2) show ?thesis
    proof (elim disjE conjE exE)
      fix h assume h: "c' = c\<lparr>ccc_hba := h\<rparr>" "ctl_ok env h" "ata_owned h = ata_owned (ccc_hba c)"
      have "timer_frame c A c' A" using h(1) by (simp add: timer_frame_def)
      with f h own ghd_inv_hba [OF inv, of h] show ?thesis
        by (intro exI [of _ b] exI [of _ c'] conjI impI) (simp, simp, blast, auto)
    next
      fix g' h c1 h'
      assume b and h: "ata_owned (ccc_hba c) = {g'}" "GHD_COMPLETE (c\<lparr>ccc_hba := h\<rparr>) g' = Some c1"
        "c' = c1\<lparr>ccc_hba := h'\<rparr>" "ctl_ok env h'" "ata_owned h' = {}"
      have "g' \<in> wq_live A" using own h(1) live by auto
      from complete_recovery [OF inv own this h(2), of h'] h f \<open>b\<close> show ?thesis
        by (intro exI [of _ b] exI [of _ c'] conjI impI) simp_all
    qed
  next
    case False
    then have "ata_timeout_func env c gcmdp d a t = Some (False, c) \<or>
        ata_timeout_func env c gcmdp d a t = early_complete AP_ABORT gcmdp c \<and> gact_rank a = 5 \<or>
        ata_timeout_func env c gcmdp d a t = early_complete AP_TIMEOUT gcmdp c \<and> gact_rank a = 5"
      by (cases a) (simp_all add: ata_timeout_func_def)
    with refuse early [of AP_ABORT] early [of AP_TIMEOUT] show ?thesis by blast
  qed
qed

end
