(* ===== verification/Ghd_Poll.thy ===== *)
theory Ghd_Poll
  imports Ghd_Timer "HOL-Library.Monad_Syntax"
begin

text \<open>
  The interrupt handler of GHD and everything that polls (\<open>ghd.c\<close>): \<open>sol11ghd_intr\<close>,
  \<open>ghd_poll\<close> with its hold queue, the abort and reset entry points, and the polled form of
  \<open>sol11ghd_transport\<close>. The driver's status and interrupt routines are arguments. A round of a poll takes its
  clock from a sequence of environments. A loop that need not end is a \<open>partial_function\<close>.
\<close>

subsection \<open>The interrupt handler\<close>

text \<open>\<open>ccc_get_status\<close> reads the hardware state and the caller's \<open>intr_status\<close>; \<open>ccc_process_intr\<close> may
  complete requests.\<close>

type_synonym ('i, 'hw) hba_status = "'i \<Rightarrow> 'hw \<Rightarrow> bool \<times> 'i \<times> 'hw"
type_synonym 'hw hba_process = "'hw ccc_t \<Rightarrow> 'hw ccc_t option"

text \<open>The inner loop; the flag is \<open>more\<close>, which also says that the interrupt is claimed.\<close>

partial_function (option) intr_status_loop ::
  "('i, 'hw) hba_status \<Rightarrow> 'hw hba_process \<Rightarrow> 'i \<Rightarrow> bool \<Rightarrow> 'hw ccc_t \<Rightarrow> (bool \<times> 'i \<times> 'hw ccc_t) option" where
  "intr_status_loop status process i claimed c =
    (case status i (ccc_hba c) of (pending, i, h) \<Rightarrow>
       (let c = c\<lparr>ccc_hba := h\<rparr>
        in if \<not> pending then Some (claimed, i, c)
           else (case process c of
                   None \<Rightarrow> None
                 | Some c \<Rightarrow> intr_status_loop status process i True c)))"

partial_function (option) ghd_intr_loop ::
  "('i, 'hw) hba_status \<Rightarrow> 'hw hba_process \<Rightarrow> 'hw hba_start \<Rightarrow> kenv \<Rightarrow> 'i \<Rightarrow> bool \<Rightarrow> 'hw ccc_t \<Rightarrow>
   (bool \<times> 'hw ccc_t) option" where
  "ghd_intr_loop status process start k i rc c =
    (case intr_status_loop status process i False c of
       None \<Rightarrow> None
     | Some (claimed, i, c) \<Rightarrow>
         (let rc = (rc \<or> claimed) in
          case sol11ghd_waitq_process_and_mutex_hold start k c of
            None \<Rightarrow> None
          | Some (started, c) \<Rightarrow>
              if started then ghd_intr_loop status process start k i rc c
              else if claimed then ghd_intr_loop status process start k i rc c
              else Some (rc, c)))"

definition sol11ghd_intr ::
  "('i, 'hw) hba_status \<Rightarrow> 'hw hba_process \<Rightarrow> 'hw hba_start \<Rightarrow> kenv \<Rightarrow> 'i \<Rightarrow> 'hw ccc_t \<Rightarrow> (bool \<times> 'hw ccc_t) option" where
  "sol11ghd_intr status process start k i c = ghd_intr_loop status process start k i False c"

subsection \<open>Polling for completion\<close>

datatype gpoll_t = GHD_POLL_REQUEST | GHD_POLL_DEVICE | GHD_POLL_ALL

text \<open>The completed requests: the one polled for becomes idle, the others go to the hold queue.\<close>

partial_function (option) poll_drain :: "nat option \<Rightarrow> bool \<Rightarrow> 'hw ccc_t \<Rightarrow> (bool \<times> 'hw ccc_t) option" where
  "poll_drain poll_gcmdp got_it c =
    (case ghd_doneq_get c of
       (None, c) \<Rightarrow> Some (got_it, c)
     | (Some g, c) \<Rightarrow>
         if poll_gcmdp = Some g then poll_drain poll_gcmdp True (upd_gcmd g (\<lambda>r. r\<lparr>cmd_state := GCMD_STATE_IDLE\<rparr>) c)
         else poll_drain poll_gcmdp got_it (c\<lparr>ccc_l2 := L2_add (ccc_l2 c) HoldQ (CmdQ g) g\<rparr>))"

partial_function (option) poll_put_back :: "'hw ccc_t \<Rightarrow> 'hw ccc_t option" where
  "poll_put_back c =
    (case L2_next (ccc_l2 c) HoldQ of
       None \<Rightarrow> Some c
     | Some g \<Rightarrow> poll_put_back (GHD_DONEQ_PUT_TAIL (c\<lparr>ccc_l2 := L2_delete (ccc_l2 c) (CmdQ g)\<rparr>) g))"

definition poll_got :: "gpoll_t \<Rightarrow> nat \<Rightarrow> bool \<Rightarrow> 'hw ccc_t \<Rightarrow> bool" where
  "poll_got polltype d got_it c =
    (case polltype of
       GHD_POLL_DEVICE \<Rightarrow> if gd_nactive (ccc_gdev c d) = 0 then True else got_it
     | GHD_POLL_ALL \<Rightarrow> if ccc_nactive c = 0 then True else got_it
     | GHD_POLL_REQUEST \<Rightarrow> got_it)"

text \<open>One round after the check of the time, up to the drained done queue.\<close>

definition poll_round ::
  "('i, 'hw) hba_status \<Rightarrow> 'hw hba_process \<Rightarrow> 'hw hba_start \<Rightarrow> 'hw hba_timeout \<Rightarrow> kenv \<Rightarrow> nat option \<Rightarrow> 'i \<Rightarrow> 'hw ccc_t \<Rightarrow>
   (bool \<times> 'i \<times> 'hw ccc_t) option" where
  "poll_round status process start func k poll_gcmdp i c =
    (case status i (ccc_hba c) of (pending, i, h) \<Rightarrow> do {
       c \<leftarrow> (if pending then process (c\<lparr>ccc_hba := h\<rparr>) else Some (c\<lparr>ccc_hba := h\<rparr>));
       (_, c) \<leftarrow> sol11ghd_waitq_process_and_mutex_hold start k c;
       c \<leftarrow> sol11ghd_timer_poll func k True c;
       (got_it, c) \<leftarrow> poll_drain poll_gcmdp False c;
       Some (got_it, i, c)
     })"

text \<open>\<open>ks 0\<close> is the clock at the start, \<open>ks (Suc n)\<close> that of round \<open>n\<close>. \<open>polltime\<close> is unsigned, so the
  clock difference is compared as an unsigned number.\<close>

partial_function (option) ghd_poll_loop ::
  "('i, 'hw) hba_status \<Rightarrow> 'hw hba_process \<Rightarrow> 'hw hba_start \<Rightarrow> 'hw hba_timeout \<Rightarrow> (nat \<Rightarrow> kenv) \<Rightarrow> gpoll_t \<Rightarrow> u64 \<Rightarrow>
   nat option \<Rightarrow> nat \<Rightarrow> nat \<Rightarrow> 'i \<Rightarrow> 'hw ccc_t \<Rightarrow> (bool \<times> 'hw ccc_t) option" where
  "ghd_poll_loop status process start func ks polltype polltime poll_gcmdp d n i c =
    (if polltime \<noteq> 0 \<and> polltime \<le> word_of_int (ke_lbolt (ks (Suc n)) - ke_lbolt (ks 0)) then Some (False, c)
     else (case poll_round status process start func (ks (Suc n)) poll_gcmdp i c of
             None \<Rightarrow> None
           | Some (got_it, i, c) \<Rightarrow>
               if poll_got polltype d got_it c then Some (True, c)
               else ghd_poll_loop status process start func ks polltype polltime poll_gcmdp d (Suc n) i c))"

definition ghd_poll ::
  "('i, 'hw) hba_status \<Rightarrow> 'hw hba_process \<Rightarrow> 'hw hba_start \<Rightarrow> 'hw hba_timeout \<Rightarrow> (nat \<Rightarrow> kenv) \<Rightarrow> gpoll_t \<Rightarrow> u64 \<Rightarrow>
   nat option \<Rightarrow> nat \<Rightarrow> 'i \<Rightarrow> 'hw ccc_t \<Rightarrow> (bool \<times> 'hw ccc_t) option" where
  "ghd_poll status process start func ks polltype polltime poll_gcmdp d i c = do {
     (got_it, c) \<leftarrow> ghd_poll_loop status process start func ks polltype polltime poll_gcmdp d 0 i
                      (c\<lparr>ccc_l2 := L2_INIT (ccc_l2 c) HoldQ\<rparr>);
     if L2_EMPTY (ccc_l2 c) HoldQ then Some (got_it, c)
     else do { c \<leftarrow> poll_put_back c; Some (got_it, c) }
   }"

subsection \<open>Entry points\<close>

text \<open>The timeouts of the polls. The callers hold the HBA mutex and the poll mode; \<open>k\<close> is the clock of the
  recovery, \<open>ks\<close> that of the poll, \<open>k'\<close> that of the final run of the queues.\<close>

definition ghd_tran_abort_timeout :: u64 where "ghd_tran_abort_timeout = 5"
definition ghd_tran_abort_lun_timeout :: u64 where "ghd_tran_abort_lun_timeout = 5"
definition ghd_tran_reset_target_timeout :: u64 where "ghd_tran_reset_target_timeout = 5"
definition ghd_tran_reset_bus_timeout :: u64 where "ghd_tran_reset_bus_timeout = 5"

definition poll_exit :: "'hw hba_start \<Rightarrow> kenv \<Rightarrow> 'hw ccc_t \<Rightarrow> 'hw ccc_t option" where
  "poll_exit start k c = sol11ghd_waitq_process_and_mutex_exit start k (ghd_doneq_pollmode_exit c)"

definition sol11ghd_tran_abort ::
  "('i, 'hw) hba_status \<Rightarrow> 'hw hba_process \<Rightarrow> 'hw hba_start \<Rightarrow> 'hw hba_timeout \<Rightarrow> kenv \<Rightarrow> (nat \<Rightarrow> kenv) \<Rightarrow> kenv \<Rightarrow>
   nat \<Rightarrow> nat \<Rightarrow> 'i \<Rightarrow> 'hw ccc_t \<Rightarrow> (bool \<times> 'hw ccc_t) option" where
  "sol11ghd_tran_abort status process start func k ks k' g d i c =
    (let c = ghd_doneq_pollmode_enter c;
         action = (if cmd_state (ccc_gcmd c g) = GCMD_STATE_WAITQ then Some GACTION_EARLY_ABORT
                   else if cmd_state (ccc_gcmd c g) = GCMD_STATE_ACTIVE then Some GACTION_ABORT_CMD
                   else None)
     in case action of
          None \<Rightarrow> do { c \<leftarrow> poll_exit start k' c; Some (False, c) }
        | Some action \<Rightarrow> do {
            let c = GHD_TIMER_STOP c g;
            c \<leftarrow> sol11ghd_timer_newstate func k c (Some g) d action True;
            (rc, c) \<leftarrow> ghd_poll status process start func ks GHD_POLL_REQUEST ghd_tran_abort_timeout (Some g) d i c;
            let c = (if rc then GHD_DONEQ_PUT_TAIL (upd_gcmd g (\<lambda>r. r\<lparr>cmd_state := GCMD_STATE_DONEQ\<rparr>) c) g else c);
            c \<leftarrow> poll_exit start k' c;
            Some (rc, c)
          })"

definition ghd_tran_recover ::
  "gact_t \<Rightarrow> gpoll_t \<Rightarrow> u64 \<Rightarrow>
   ('i, 'hw) hba_status \<Rightarrow> 'hw hba_process \<Rightarrow> 'hw hba_start \<Rightarrow> 'hw hba_timeout \<Rightarrow> kenv \<Rightarrow> (nat \<Rightarrow> kenv) \<Rightarrow> kenv \<Rightarrow>
   nat \<Rightarrow> 'i \<Rightarrow> 'hw ccc_t \<Rightarrow> (bool \<times> 'hw ccc_t) option" where
  "ghd_tran_recover action polltype polltime status process start func k ks k' d i c = do {
     let c = ghd_doneq_pollmode_enter c;
     c \<leftarrow> sol11ghd_timer_newstate func k c None d action True;
     (rc, c) \<leftarrow> ghd_poll status process start func ks polltype polltime None d i c;
     c \<leftarrow> poll_exit start k' c;
     Some (rc, c)
   }"

definition sol11ghd_tran_abort_lun ::
  "('i, 'hw) hba_status \<Rightarrow> 'hw hba_process \<Rightarrow> 'hw hba_start \<Rightarrow> 'hw hba_timeout \<Rightarrow> kenv \<Rightarrow> (nat \<Rightarrow> kenv) \<Rightarrow> kenv \<Rightarrow>
   nat \<Rightarrow> 'i \<Rightarrow> 'hw ccc_t \<Rightarrow> (bool \<times> 'hw ccc_t) option" where
  "sol11ghd_tran_abort_lun = ghd_tran_recover GACTION_ABORT_DEV GHD_POLL_DEVICE ghd_tran_abort_lun_timeout"

definition sol11ghd_tran_reset_target ::
  "('i, 'hw) hba_status \<Rightarrow> 'hw hba_process \<Rightarrow> 'hw hba_start \<Rightarrow> 'hw hba_timeout \<Rightarrow> kenv \<Rightarrow> (nat \<Rightarrow> kenv) \<Rightarrow> kenv \<Rightarrow>
   nat \<Rightarrow> 'i \<Rightarrow> 'hw ccc_t \<Rightarrow> (bool \<times> 'hw ccc_t) option" where
  "sol11ghd_tran_reset_target =
  ghd_tran_recover GACTION_RESET_TARGET GHD_POLL_DEVICE ghd_tran_reset_target_timeout"

definition sol11ghd_tran_reset_bus ::
  "('i, 'hw) hba_status \<Rightarrow> 'hw hba_process \<Rightarrow> 'hw hba_start \<Rightarrow> 'hw hba_timeout \<Rightarrow> kenv \<Rightarrow> (nat \<Rightarrow> kenv) \<Rightarrow> kenv \<Rightarrow>
   nat \<Rightarrow> 'i \<Rightarrow> 'hw ccc_t \<Rightarrow> (bool \<times> 'hw ccc_t) option" where
  "sol11ghd_tran_reset_bus = ghd_tran_recover GACTION_RESET_BUS GHD_POLL_ALL ghd_tran_reset_bus_timeout"

text \<open>\<open>sol11ghd_transport\<close> with \<open>polled\<close> set: the poll has no time limit; the driver's completion routine is
  called without the callback to the target.\<close>

definition transport_polled ::
  "('i, 'hw) hba_status \<Rightarrow> 'hw hba_process \<Rightarrow> 'hw hba_start \<Rightarrow> 'hw hba_timeout \<Rightarrow> ('hw ccc_t \<Rightarrow> nat \<Rightarrow> 'hw ccc_t) \<Rightarrow>
   kenv \<Rightarrow> (nat \<Rightarrow> kenv) \<Rightarrow> kenv \<Rightarrow> nat \<Rightarrow> nat \<Rightarrow> int \<Rightarrow> 'i \<Rightarrow> 'hw ccc_t \<Rightarrow> 'hw ccc_t option" where
  "transport_polled status process start func hba_complete k ks k' g d timeout i c = do {
     let c = ghd_doneq_pollmode_enter c;
     c \<leftarrow> transport_enqueue k c g d timeout;
     (_, c) \<leftarrow> ghd_poll status process start func ks GHD_POLL_REQUEST 0 (Some g) d i c;
     c \<leftarrow> poll_exit start k' c;
     Some (hba_complete c g)
   }"

subsection \<open>The loops as rules\<close>

lemma intr_status_loop_rule:
  fixes status :: "('i, 'hw) hba_status"
  assumes "intr_status_loop status process i b c = Some r" and "I c"
    and "\<And>c p i i' h. I c \<Longrightarrow> status i (ccc_hba c) = (p, i', h) \<Longrightarrow> I (c\<lparr>ccc_hba := h\<rparr>)"
    and "\<And>c c'. I c \<Longrightarrow> process c = Some c' \<Longrightarrow> I c'"
  shows "I (snd (snd r))"
proof -
  have "I c \<longrightarrow> (\<forall>c p i i' h. I c \<longrightarrow> status i (ccc_hba c) = (p, i', h) \<longrightarrow> I (c\<lparr>ccc_hba := h\<rparr>)) \<longrightarrow>
      (\<forall>c c'. I c \<longrightarrow> process c = Some c' \<longrightarrow> I c') \<longrightarrow> I (snd (snd r))"
    using assms(1)
  proof (rule intr_status_loop.raw_induct [where P = "\<lambda>status process i b c r. I c \<longrightarrow>
      (\<forall>c p i i' h. I c \<longrightarrow> status i (ccc_hba c) = (p, i', h) \<longrightarrow> I (c\<lparr>ccc_hba := h\<rparr>)) \<longrightarrow>
      (\<forall>c c'. I c \<longrightarrow> process c = Some c' \<longrightarrow> I c') \<longrightarrow> I (snd (snd r))", rotated])
    fix loop :: "('i, 'hw) hba_status \<Rightarrow> 'hw hba_process \<Rightarrow> 'i \<Rightarrow> bool \<Rightarrow> 'hw ccc_t \<Rightarrow> (bool \<times> 'i \<times> 'hw ccc_t) option"
      and st pr i b c r
    assume IH: "\<And>st pr i b c r. loop st pr i b c = Some r \<Longrightarrow> I c \<longrightarrow>
        (\<forall>c p i i' h. I c \<longrightarrow> st i (ccc_hba c) = (p, i', h) \<longrightarrow> I (c\<lparr>ccc_hba := h\<rparr>)) \<longrightarrow>
        (\<forall>c c'. I c \<longrightarrow> pr c = Some c' \<longrightarrow> I c') \<longrightarrow> I (snd (snd r))"
      and eq: "(case st i (ccc_hba c) of (pending, i, h) \<Rightarrow>
        let c = c\<lparr>ccc_hba := h\<rparr> in if \<not> pending then Some (b, i, c)
           else case pr c of None \<Rightarrow> None | Some c \<Rightarrow> loop st pr i True c) = Some r"
    show "I c \<longrightarrow> (\<forall>c p i i' h. I c \<longrightarrow> st i (ccc_hba c) = (p, i', h) \<longrightarrow> I (c\<lparr>ccc_hba := h\<rparr>)) \<longrightarrow>
        (\<forall>c c'. I c \<longrightarrow> pr c = Some c' \<longrightarrow> I c') \<longrightarrow> I (snd (snd r))"
    proof (intro impI)
      assume I: "I c" and s: "\<forall>c p i i' h. I c \<longrightarrow> st i (ccc_hba c) = (p, i', h) \<longrightarrow> I (c\<lparr>ccc_hba := h\<rparr>)"
        and p: "\<forall>c c'. I c \<longrightarrow> pr c = Some c' \<longrightarrow> I c'"
      obtain pe i' h where e: "st i (ccc_hba c) = (pe, i', h)" by (cases "st i (ccc_hba c)") auto
      have I1: "I (c\<lparr>ccc_hba := h\<rparr>)" using s I e by blast
      show "I (snd (snd r))"
      proof (cases pe)
        case False
        with eq e I1 show ?thesis by auto
      next
        case True
        with eq e obtain c1 where c1: "pr (c\<lparr>ccc_hba := h\<rparr>) = Some c1" "loop st pr i' True c1 = Some r"
          by (auto split: option.splits)
        have "I c1" using p I1 c1(1) by blast
        with IH [OF c1(2)] s p show ?thesis by blast
      qed
    qed
  qed
  with assms(2-4) show ?thesis by blast
qed

lemma ghd_intr_loop_rule:
  fixes status :: "('i, 'hw) hba_status"
  assumes "ghd_intr_loop status process start k i b c = Some r" and "I c"
    and "\<And>c p i i' h. I c \<Longrightarrow> status i (ccc_hba c) = (p, i', h) \<Longrightarrow> I (c\<lparr>ccc_hba := h\<rparr>)"
    and "\<And>c c'. I c \<Longrightarrow> process c = Some c' \<Longrightarrow> I c'"
    and "\<And>c s c'. I c \<Longrightarrow> sol11ghd_waitq_process_and_mutex_hold start k c = Some (s, c') \<Longrightarrow> I c'"
  shows "I (snd r)"
proof -
  define ok where "ok = (\<lambda>(status :: ('i, 'hw) hba_status) process start k.
      (\<forall>c p (i :: 'i) i' h. I c \<longrightarrow> status i (ccc_hba c) = (p, i', h) \<longrightarrow> I (c\<lparr>ccc_hba := h\<rparr>)) \<and>
      (\<forall>c c'. I c \<longrightarrow> process c = Some c' \<longrightarrow> I c') \<and>
      (\<forall>c s c'. I c \<longrightarrow> sol11ghd_waitq_process_and_mutex_hold start k c = Some (s, c') \<longrightarrow> I c'))"
  have "ok status process start k \<longrightarrow> I c \<longrightarrow> I (snd r)"
    using assms(1)
  proof (rule ghd_intr_loop.raw_induct [where P = "\<lambda>status process start k i b c r.
      ok status process start k \<longrightarrow> I c \<longrightarrow> I (snd r)", rotated])
    fix loop :: "('i, 'hw) hba_status \<Rightarrow> 'hw hba_process \<Rightarrow> 'hw hba_start \<Rightarrow> kenv \<Rightarrow> 'i \<Rightarrow> bool \<Rightarrow> 'hw ccc_t \<Rightarrow> (bool \<times> 'hw ccc_t) option"
      and st pr sa k i b c r
    assume IH: "\<And>st pr sa k i b c r. loop st pr sa k i b c = Some r \<Longrightarrow> ok st pr sa k \<longrightarrow> I c \<longrightarrow> I (snd r)"
      and eq: "(case intr_status_loop st pr i False c of None \<Rightarrow> None
        | Some (claimed, i, c) \<Rightarrow> let rc = b \<or> claimed in
            case sol11ghd_waitq_process_and_mutex_hold sa k c of None \<Rightarrow> None
            | Some (started, c) \<Rightarrow> if started then loop st pr sa k i rc c
                else if claimed then loop st pr sa k i rc c else Some (rc, c)) = Some r"
    show "ok st pr sa k \<longrightarrow> I c \<longrightarrow> I (snd r)"
    proof (intro impI)
      assume o: "ok st pr sa k" and I: "I c"
      from eq obtain cl i' c1 where e1: "intr_status_loop st pr i False c = Some (cl, i', c1)"
        by (cases "intr_status_loop st pr i False c") auto
      with eq obtain s c2 where e2: "sol11ghd_waitq_process_and_mutex_hold sa k c1 = Some (s, c2)"
        by (cases "sol11ghd_waitq_process_and_mutex_hold sa k c1") auto
      have "loop st pr sa k i' (b \<or> cl) c2 = Some r \<or> r = (b \<or> cl, c2)"
        using eq e1 e2 by (cases s; cases cl; simp)
      note e = e1 e2 this
      have "I (snd (snd (cl, i', c1)))"
        by (rule intr_status_loop_rule [where I = I, OF e(1) I]) (use o in \<open>unfold ok_def, blast+\<close>)
      then have "I c1" by simp
      then have "I c2" using o e(2) unfolding ok_def by blast
      from e(3) show "I (snd r)"
      proof
        assume "loop st pr sa k i' (b \<or> cl) c2 = Some r"
        from IH [OF this] o \<open>I c2\<close> show "I (snd r)" by blast
      qed (use \<open>I c2\<close> in simp)
    qed
  qed
  with assms(2-5) show ?thesis unfolding ok_def by blast
qed

lemma ghd_poll_loop_rule:
  fixes status :: "('i, 'hw) hba_status"
  assumes "ghd_poll_loop status process start func ks pt t pg d n i c = Some r" and "I n c"
    and "\<And>n i c got i' c'. I n c \<Longrightarrow> poll_round status process start func (ks (Suc n)) pg i c = Some (got, i', c') \<Longrightarrow>
       if poll_got pt d got c' then Q True c' else I (Suc n) c'"
    and "\<And>n c. t \<noteq> 0 \<Longrightarrow> I n c \<Longrightarrow> Q False c"
  shows "Q (fst r) (snd r)"
proof -
  define ok where "ok = (\<lambda>status process start func ks pt pg d.
      (\<forall>n i c got i' c'. I n c \<longrightarrow> poll_round status process start func (ks (Suc n)) pg (i :: 'i) c = Some (got, i', c') \<longrightarrow>
       (if poll_got pt d got c' then Q True c' else I (Suc n) c')))"
  have "ok status process start func ks pt pg d \<longrightarrow> (t \<noteq> 0 \<longrightarrow> (\<forall>n c. I n c \<longrightarrow> Q False c)) \<longrightarrow> I n c \<longrightarrow> Q (fst r) (snd r)"
    using assms(1)
  proof (rule ghd_poll_loop.raw_induct [where P = "\<lambda>status process start func ks pt t pg d n i c r.
      ok status process start func ks pt pg d \<longrightarrow> (t \<noteq> 0 \<longrightarrow> (\<forall>n c. I n c \<longrightarrow> Q False c)) \<longrightarrow> I n c \<longrightarrow> Q (fst r) (snd r)", rotated])
    fix loop :: "('i, 'hw) hba_status \<Rightarrow> 'hw hba_process \<Rightarrow> 'hw hba_start \<Rightarrow> 'hw hba_timeout \<Rightarrow> (nat \<Rightarrow> kenv) \<Rightarrow> gpoll_t \<Rightarrow> u64 \<Rightarrow>
        nat option \<Rightarrow> nat \<Rightarrow> nat \<Rightarrow> 'i \<Rightarrow> 'hw ccc_t \<Rightarrow> (bool \<times> 'hw ccc_t) option"
      and st pr sa fu ks pt t pg d n i c r
    assume IH: "\<And>st pr sa fu ks pt t pg d n i c r. loop st pr sa fu ks pt t pg d n i c = Some r \<Longrightarrow>
        ok st pr sa fu ks pt pg d \<longrightarrow> (t \<noteq> 0 \<longrightarrow> (\<forall>n c. I n c \<longrightarrow> Q False c)) \<longrightarrow> I n c \<longrightarrow> Q (fst r) (snd r)"
      and eq: "(if t \<noteq> 0 \<and> t \<le> word_of_int (ke_lbolt (ks (Suc n)) - ke_lbolt (ks 0)) then Some (False, c)
         else case poll_round st pr sa fu (ks (Suc n)) pg i c of None \<Rightarrow> None
             | Some (got_it, i, c) \<Rightarrow> if poll_got pt d got_it c then Some (True, c)
                 else loop st pr sa fu ks pt t pg d (Suc n) i c) = Some r"
    show "ok st pr sa fu ks pt pg d \<longrightarrow> (t \<noteq> 0 \<longrightarrow> (\<forall>n c. I n c \<longrightarrow> Q False c)) \<longrightarrow> I n c \<longrightarrow> Q (fst r) (snd r)"
    proof (intro impI)
      assume o: "ok st pr sa fu ks pt pg d" and tf: "t \<noteq> 0 \<longrightarrow> (\<forall>n c. I n c \<longrightarrow> Q False c)" and I: "I n c"
      show "Q (fst r) (snd r)"
      proof (cases "t \<noteq> 0 \<and> t \<le> word_of_int (ke_lbolt (ks (Suc n)) - ke_lbolt (ks 0))")
        case True
        with eq I tf show ?thesis by auto
      next
        case False
        with eq obtain got i' c' where e: "poll_round st pr sa fu (ks (Suc n)) pg i c = Some (got, i', c')"
            "if poll_got pt d got c' then r = (True, c') else loop st pr sa fu ks pt t pg d (Suc n) i' c' = Some r"
          by (auto split: option.splits prod.splits if_splits)
        have s: "if poll_got pt d got c' then Q True c' else I (Suc n) c'"
          using o I e(1) unfolding ok_def by blast
        show ?thesis
          by (cases "poll_got pt d got c'") (use e(2) s IH o tf in \<open>auto\<close>)
      qed
    qed
  qed
  with assms(2-4) show ?thesis unfolding ok_def by blast
qed

subsection \<open>The done queue and the hold queue\<close>

lemma ghd_inv_l2:
  assumes "ghd_inv c A" "wq_inv (c\<lparr>ccc_l2 := h\<rparr>) B" "wq_live B = wq_live A" "wq_timer B = wq_timer A"
    and "set (wq_done B) \<union> set (wq_hold B) \<subseteq> set (wq_done A) \<union> set (wq_hold A)" "wq_started B = wq_started A"
  shows "ghd_inv (c\<lparr>ccc_l2 := h\<rparr>) B"
  using assms by (auto simp: ghd_inv_def ghd_states_def ghd_throttle_def)

lemma ghd_inv_idle:
  assumes "ghd_inv c A" "g \<notin> wq_live A" "g \<notin> set (wq_done A)" "g \<notin> set (wq_hold A)"
  shows "ghd_inv (upd_gcmd g (\<lambda>r. r\<lparr>cmd_state := GCMD_STATE_IDLE\<rparr>) c) A"
  using assms wq_inv_upd_state [of c A g "\<lambda>_. GCMD_STATE_IDLE"]
  by (auto simp: ghd_inv_def ghd_states_def ghd_throttle_def wq_started_def)

lemma hold_add_inv:
  assumes inv: "wq_inv c A" and g: "g \<notin> wq_live A" "\<not> wq_queued A g"
  shows "wq_inv (c\<lparr>ccc_l2 := L2_add (ccc_l2 c) HoldQ (CmdQ g) g\<rparr>) (A\<lparr>wq_hold := wq_hold A @ [g]\<rparr>)"
proof -
  have "L2_repr (L2_add (ccc_l2 c) HoldQ (CmdQ g) g) ((wq_content A)(HoldQ \<mapsto> map cq (wq_hold A @ [g])))"
    by (rule wq_add(1) [OF wq_inv_repr [OF inv] _ g(2)]) simp
  then have "wq_repr (c\<lparr>ccc_l2 := L2_add (ccc_l2 c) HoldQ (CmdQ g) g\<rparr>) (A\<lparr>wq_hold := wq_hold A @ [g]\<rparr>)"
    by (simp only: wq_content_upd) (simp add: wq_repr_def)
  from wq_inv_lists [OF inv this] wq_done_not_live [OF inv] g show ?thesis by auto
qed

text \<open>What is taken from the done queue ends up on the hold queue in order, without the request polled for,
  which becomes idle.\<close>

definition others :: "nat option \<Rightarrow> nat list \<Rightarrow> nat list" where
  "others pg xs = filter (\<lambda>g. pg \<noteq> Some g) xs"

lemma others_simps [simp]:
  "others pg [] = []" "others pg (xs @ ys) = others pg xs @ others pg ys"
  "others pg (g # xs) = (if pg = Some g then others pg xs else g # others pg xs)" "others None xs = xs"
  by (simp_all add: others_def)

lemma poll_drain_spec:
  assumes "ghd_inv c A"
  shows "\<exists>c'. poll_drain pg b c = Some (b \<or> (\<exists>g. pg = Some g \<and> g \<in> set (wq_done A)), c') \<and>
    ghd_inv c' (A\<lparr>wq_done := [], wq_hold := wq_hold A @ others pg (wq_done A)\<rparr>) \<and> ccc_hba c' = ccc_hba c \<and>
    (\<forall>g. cmd_state (ccc_gcmd c' g) = (if pg = Some g \<and> g \<in> set (wq_done A) then GCMD_STATE_IDLE
       else cmd_state (ccc_gcmd c g)))"
  using assms
proof (induction "wq_done A" arbitrary: c A b)
  case Nil
  have "ghd_doneq_get c = (None, c)"
    using doneq_get_inv [OF ghd_invD(1) [OF Nil.prems]] Nil.hyps [symmetric] by simp
  then have "poll_drain pg b c = Some (b, c)" by (subst poll_drain.simps) simp
  moreover have eq: "A\<lparr>wq_done := []\<rparr> = A" using Nil.hyps by (simp add: wq.equality)
  have "ghd_inv c (A\<lparr>wq_done := []\<rparr>)" unfolding eq by (rule Nil.prems)
  ultimately show ?case using Nil by (intro exI [of _ c]) (simp add: Nil.hyps [symmetric])
next
  case (Cons g gs)
  note W = ghd_invD(1) [OF Cons.prems]
  obtain c1 where c1: "ghd_doneq_get c = (Some g, c1)" "wq_inv c1 (A\<lparr>wq_done := gs\<rparr>)" "c1 = c\<lparr>ccc_l2 := ccc_l2 c1\<rparr>"
    using doneq_get_inv [OF W] Cons.hyps(2) [symmetric] by auto
  let ?A1 = "A\<lparr>wq_done := gs\<rparr>"
  have f: "ccc_gcmd c1 = ccc_gcmd c" "ccc_hba c1 = ccc_hba c" by (subst c1(3), simp)+
  have i1: "ghd_inv c1 ?A1"
    using ghd_inv_l2 [OF Cons.prems, of "ccc_l2 c1" ?A1] c1(2,3) Cons.hyps(2) [symmetric] by auto
  have g: "g \<notin> wq_live A" "g \<notin> set gs" "g \<notin> set (wq_hold A)"
    using wq_done_not_live [OF W, of g] wq_repr_distinct(3) [OF wq_inv_repr [OF W]] wq_done_hold [OF wq_inv_repr [OF W], of g]
    by (simp_all add: Cons.hyps(2) [symmetric])
  show ?case
  proof (cases "pg = Some g")
    case True
    let ?c2 = "upd_gcmd g (\<lambda>r. r\<lparr>cmd_state := GCMD_STATE_IDLE\<rparr>) c1"
    have i2: "ghd_inv ?c2 ?A1" using ghd_inv_idle [OF i1] g by simp
    from Cons.hyps(1) [OF _ i2, of True] obtain c' where c':
      "poll_drain pg True ?c2 = Some (True, c')" "ghd_inv c' (A\<lparr>wq_done := [], wq_hold := wq_hold A @ others pg gs\<rparr>)"
      "ccc_hba c' = ccc_hba c" "\<forall>h. cmd_state (ccc_gcmd c' h) = (if pg = Some h \<and> h \<in> set gs then GCMD_STATE_IDLE
         else cmd_state (ccc_gcmd ?c2 h))"
      using f by auto
    have "poll_drain pg b c = Some (True, c')" using c1(1) True c'(1) by (subst poll_drain.simps) simp
    with c' True f g show ?thesis by (intro exI [of _ c']) (auto simp: Cons.hyps(2) [symmetric])
  next
    case False
    let ?c2 = "c1\<lparr>ccc_l2 := L2_add (ccc_l2 c1) HoldQ (CmdQ g) g\<rparr>"
    let ?A2 = "?A1\<lparr>wq_hold := wq_hold A @ [g]\<rparr>"
    have L: "wq_levels (ccc_gcmd c) A" by (rule wq_inv_levels [OF W])
    have nq: "\<not> wq_queued ?A1 g"
      using g wq_levels_devD [OF L] wq_levels_hbaD [OF L] by (auto simp: wq_queued_def)
    have w2: "wq_inv ?c2 ?A2" using hold_add_inv [OF c1(2) _ nq] g by simp
    have i2: "ghd_inv ?c2 ?A2"
    proof -
      have "cmd_state (ccc_gcmd c g) = GCMD_STATE_DONEQ"
        using ghd_invD(2) [OF Cons.prems] Cons.hyps(2) [symmetric] by (simp add: ghd_states_def)
      with ghd_invD(2,3) [OF i1] w2 f show ?thesis by (auto simp: ghd_inv_def ghd_states_def ghd_throttle_def)
    qed
    from Cons.hyps(1) [OF _ i2, of b] obtain c' where c':
      "poll_drain pg b ?c2 = Some (b \<or> (\<exists>g. pg = Some g \<and> g \<in> set gs), c')"
      "ghd_inv c' (A\<lparr>wq_done := [], wq_hold := wq_hold A @ g # others pg gs\<rparr>)"
      "ccc_hba c' = ccc_hba c" "\<forall>h. cmd_state (ccc_gcmd c' h) = (if pg = Some h \<and> h \<in> set gs then GCMD_STATE_IDLE
         else cmd_state (ccc_gcmd c1 h))"
      using f by auto
    have "poll_drain pg b c = Some (b \<or> (\<exists>g. pg = Some g \<and> g \<in> set gs), c')"
      using c1(1) False c'(1) by (subst poll_drain.simps) simp
    with c' False f show ?thesis by (intro exI [of _ c']) (auto simp: Cons.hyps(2) [symmetric])
  qed
qed

lemma put_back_spec:
  assumes "ghd_inv c A"
  shows "\<exists>c'. poll_put_back c = Some c' \<and> ghd_inv c' (A\<lparr>wq_hold := [], wq_done := wq_done A @ wq_hold A\<rparr>) \<and>
    ccc_hba c' = ccc_hba c \<and> (\<forall>g. cmd_state (ccc_gcmd c' g) = cmd_state (ccc_gcmd c g))"
  using assms
proof (induction "wq_hold A" arbitrary: c A)
  case Nil
  have "L2_next (ccc_l2 c) HoldQ = None"
    using l2.next_head [of "ccc_l2 c" "wq_content A" HoldQ "[]"] wq_inv_repr [OF ghd_invD(1) [OF Nil.prems]] Nil.hyps [symmetric]
    by (simp add: wq_repr_def)
  then have "poll_put_back c = Some c" by (subst poll_put_back.simps) simp
  moreover have eq: "A\<lparr>wq_hold := []\<rparr> = A" using Nil.hyps by (simp add: wq.equality)
  have "ghd_inv c (A\<lparr>wq_hold := []\<rparr>)" unfolding eq by (rule Nil.prems)
  ultimately show ?case using Nil by (intro exI [of _ c]) (simp add: Nil.hyps [symmetric])
next
  case (Cons g gs)
  note W = ghd_invD(1) [OF Cons.prems]
  note R = wq_inv_repr [OF W]
  have hd: "wq_hold A = g # gs" using Cons.hyps(2) by simp
  have nx: "L2_next (ccc_l2 c) HoldQ = Some g"
    using l2.next_head [of "ccc_l2 c" "wq_content A" HoldQ "map cq (g # gs)"] R hd by (simp add: wq_repr_def)
  let ?c1 = "c\<lparr>ccc_l2 := L2_delete (ccc_l2 c) (CmdQ g)\<rparr>" and ?A1 = "A\<lparr>wq_hold := gs\<rparr>"
  have "L2_repr (L2_delete (ccc_l2 c) (CmdQ g)) ((wq_content A)(HoldQ \<mapsto> map cq gs))"
    using wq_delete [OF R, of HoldQ "g # gs" g] hd by simp
  then have "wq_repr ?c1 ?A1" by (simp only: wq_content_upd) (simp add: wq_repr_def)
  from wq_inv_lists [OF W this] wq_done_not_live [OF W] hd have w1: "wq_inv ?c1 ?A1" by auto
  have g: "g \<notin> wq_live A" "g \<notin> set gs" "g \<notin> set (wq_done A)"
    using wq_done_not_live [OF W, of g] wq_repr_distinct(4) [OF R] wq_done_hold [OF R, of g] hd by auto
  have L: "wq_levels (ccc_gcmd c) A" by (rule wq_inv_levels [OF W])
  have nq: "\<not> wq_queued ?A1 g"
    using g wq_levels_devD [OF L] wq_levels_hbaD [OF L] by (auto simp: wq_queued_def)
  let ?c2 = "GHD_DONEQ_PUT_TAIL ?c1 g" and ?A2 = "?A1\<lparr>wq_done := wq_done A @ [g]\<rparr>"
  have w2: "wq_inv ?c2 ?A2" using doneq_put_tail_inv [OF w1 _ nq] g by simp
  have st: "cmd_state (ccc_gcmd c g) = GCMD_STATE_DONEQ"
    using ghd_invD(2) [OF Cons.prems] hd by (simp add: ghd_states_def)
  have f: "ccc_gcmd ?c2 = (ccc_gcmd c)(g := (ccc_gcmd c g)\<lparr>cmd_state := GCMD_STATE_DONEQ\<rparr>)"
    "ccc_gdev ?c2 = ccc_gdev c" "ccc_nactive ?c2 = ccc_nactive c" "ccc_maxactive ?c2 = ccc_maxactive c" "ccc_hba ?c2 = ccc_hba c"
    by (simp_all add: GHD_DONEQ_PUT_TAIL_def doneq_softintr_def Let_def)
  have i2: "ghd_inv ?c2 ?A2"
    using w2 ghd_invD(2,3) [OF Cons.prems] g hd st
    unfolding ghd_inv_def ghd_states_def ghd_throttle_def f by (auto simp: wq_started_def)
  from Cons.hyps(1) [OF _ i2] obtain c' where c': "poll_put_back ?c2 = Some c'"
      "ghd_inv c' (A\<lparr>wq_hold := [], wq_done := wq_done A @ g # gs\<rparr>)" "ccc_hba c' = ccc_hba c"
      "\<forall>h. cmd_state (ccc_gcmd c' h) = cmd_state (ccc_gcmd ?c2 h)"
    using f by auto
  moreover have "poll_put_back c = Some c'" using nx c'(1) by (subst poll_put_back.simps) simp
  ultimately show ?case using st unfolding f by (intro exI [of _ c']) (auto simp: hd)
qed

lemma hold_init:
  assumes "wq_repr c A" "wq_hold A = []"
  shows "L2_INIT (ccc_l2 c) HoldQ = ccc_l2 c"
proof -
  have "l2_ring (ccc_l2 c) HoldQ []"
    using assms L2_reprD(1) [of "ccc_l2 c" "wq_content A" HoldQ "[]"] by (simp add: wq_repr_def)
  then have n: "l2_nextp (ccc_l2 c HoldQ) = HoldQ" "l2_prevp (ccc_l2 c HoldQ) = HoldQ"
    by (simp_all add: l2_ring_def)
  have "(ccc_l2 c HoldQ)\<lparr>l2_nextp := HoldQ, l2_prevp := HoldQ\<rparr> = ccc_l2 c HoldQ"
    by (rule L2el.equality) (simp_all add: n)
  then show ?thesis by (auto simp: L2_INIT_def set_l2_nextp_def set_l2_prevp_def fun_eq_iff)
qed

subsection \<open>The contract of the interrupt routines\<close>

text \<open>
  Reading the status changes nothing GHD relies on. Processing an interrupt returns and may complete
  requests the driver holds, which become the tail of the done queue; it queues nothing.
\<close>

locale hba_interrupt = hba_driver start hw_ok owned + hba_recovery func hw_ok owned
  for start :: "'hw hba_start" and func :: "'hw hba_timeout" and hw_ok :: "'hw \<Rightarrow> bool" and owned :: "'hw \<Rightarrow> nat set" +
  fixes status :: "('i, 'hw) hba_status" and process :: "'hw hba_process"
  assumes status_frame: "hw_ok h \<Longrightarrow> status i h = (p, i', h') \<Longrightarrow> hw_ok h' \<and> owned h' = owned h"
    and process_outcome: "ghd_inv c A \<Longrightarrow> hw_inv hw_ok owned c A \<Longrightarrow>
      \<exists>c' B. process c = Some c' \<and> ghd_inv c' B \<and> hw_inv hw_ok owned c' B \<and> wq_progress A B \<and> wq_waiting B \<le> wq_waiting A"

definition polled :: "nat option \<Rightarrow> nat list \<Rightarrow> bool" where
  "polled pg xs \<longleftrightarrow> (\<exists>g. pg = Some g \<and> g \<in> set xs)"

lemma polled_simps [simp]: "\<not> polled pg []" "polled pg (xs @ ys) \<longleftrightarrow> polled pg xs \<or> polled pg ys"
  "polled None xs = False" "polled (Some g) xs \<longleftrightarrow> g \<in> set xs"
  by (auto simp: polled_def)

definition ghd_progress :: "('hw \<Rightarrow> bool) \<Rightarrow> ('hw \<Rightarrow> nat set) \<Rightarrow> wq \<Rightarrow> 'hw ccc_t \<Rightarrow> bool" where
  "ghd_progress hw_ok owned A c \<longleftrightarrow> (\<exists>B. ghd_inv c B \<and> hw_inv hw_ok owned c B \<and> wq_progress A B)"

lemma ghd_progress_refl: "ghd_inv c A \<Longrightarrow> hw_inv hw_ok owned c A \<Longrightarrow> ghd_progress hw_ok owned A c"
  by (auto simp: ghd_progress_def)

lemma ghd_progressE:
  assumes "ghd_progress hw_ok owned A c"
    and "\<And>B. ghd_inv c B \<Longrightarrow> hw_inv hw_ok owned c B \<Longrightarrow> ghd_progress hw_ok owned B c'"
  shows "ghd_progress hw_ok owned A c'"
  using assms wq_progress_trans unfolding ghd_progress_def by meson

context hba_interrupt
begin

lemma status_inv:
  assumes "ghd_inv c A" "hw_inv hw_ok owned c A" "status i (ccc_hba c) = (p, i', h)"
  shows "ghd_inv (c\<lparr>ccc_hba := h\<rparr>) A" "hw_inv hw_ok owned (c\<lparr>ccc_hba := h\<rparr>) A"
  using ghd_inv_hba [OF assms(1)] status_frame [OF _ assms(3)] assms(2) by (auto simp: hw_inv_def)

lemma hold_inv:
  assumes "ghd_inv c A" "hw_inv hw_ok owned c A"
  shows "\<exists>s c' B. sol11ghd_waitq_process_and_mutex_hold start k c = Some (s, c') \<and> ghd_inv c' B \<and>
    hw_inv hw_ok owned c' B \<and> wq_progress A B \<and> wq_waiting B \<le> wq_waiting A \<and> (s \<longrightarrow> wq_waiting B < wq_waiting A)"
  using process_loop [OF assms, of k False] unfolding sol11ghd_waitq_process_and_mutex_hold_def by blast

lemma intr_inv:
  assumes "sol11ghd_intr status process start k i c = Some (rc, c')" and "ghd_inv c A" "hw_inv hw_ok owned c A"
  shows "ghd_progress hw_ok owned A c'"
proof -
  let ?I = "ghd_progress hw_ok owned A"
  have "?I (snd (rc, c'))"
  proof (rule ghd_intr_loop_rule [where I = ?I])
    show "ghd_intr_loop status process start k i False c = Some (rc, c')" using assms(1) by (simp add: sol11ghd_intr_def)
    show "?I c" by (rule ghd_progress_refl [OF assms(2,3)])
    show "?I (c\<lparr>ccc_hba := h\<rparr>)" if "?I c" "status i (ccc_hba c) = (p, i', h)" for c p i i' h
      by (rule ghd_progressE [OF that(1)], rule ghd_progress_refl) (rule status_inv [OF _ _ that(2)]; assumption)+
    show "?I c'" if "?I c" "process c = Some c'" for c c'
    proof (rule ghd_progressE [OF that(1)])
      fix B assume "ghd_inv c B" "hw_inv hw_ok owned c B"
      from process_outcome [OF this] that(2) show "ghd_progress hw_ok owned B c'" by (auto simp: ghd_progress_def)
    qed
    show "?I c'" if "?I c" "sol11ghd_waitq_process_and_mutex_hold start k c = Some (s, c')" for c s c'
    proof (rule ghd_progressE [OF that(1)])
      fix B assume "ghd_inv c B" "hw_inv hw_ok owned c B"
      from hold_inv [OF this, of k] that(2) show "ghd_progress hw_ok owned B c'" by (auto simp: ghd_progress_def)
    qed
  qed
  then show ?thesis by simp
qed

text \<open>One round of a poll.\<close>

lemma round_inv:
  assumes "hz_ok k" "ghd_inv c A" "hw_inv hw_ok owned c A"
  shows "\<exists>got i' c' B gs. poll_round status process start func k pg i c = Some (got, i', c') \<and> ghd_inv c' B \<and>
    hw_inv hw_ok owned c' B \<and> wq_live B \<subseteq> wq_live A \<and> set gs = wq_live A - wq_live B \<and> wq_done B = [] \<and>
    wq_hold B = wq_hold A @ others pg (wq_done A @ gs) \<and>
    (got \<longleftrightarrow> polled pg (wq_done A @ gs)) \<and>
    (got \<longrightarrow> (\<forall>g. pg = Some g \<longrightarrow> cmd_state (ccc_gcmd c' g) = GCMD_STATE_IDLE))"
proof -
  obtain p i' h where st: "status i (ccc_hba c) = (p, i', h)" by (cases "status i (ccc_hba c)") auto
  let ?c0 = "c\<lparr>ccc_hba := h\<rparr>"
  note s = status_inv [OF assms(2,3) st]
  obtain c1 B1 where 1: "(if p then process ?c0 else Some ?c0) = Some c1" "ghd_inv c1 B1" "hw_inv hw_ok owned c1 B1"
      "wq_progress A B1"
    using process_outcome [OF s] s by (cases p) auto
  obtain r c2 B2 where 2: "sol11ghd_waitq_process_and_mutex_hold start k c1 = Some (r, c2)" "ghd_inv c2 B2"
      "hw_inv hw_ok owned c2 B2" "wq_progress B1 B2"
    using hold_inv [OF 1(2,3), of k] by blast
  obtain c3 B3 where 3: "sol11ghd_timer_poll func k True c2 = Some c3" "ghd_inv c3 B3" "hw_inv hw_ok owned c3 B3"
      "wq_progress B2 B3"
    using timer_poll [OF assms(1) 2(2,3), of True] by blast
  have pg: "wq_progress A B3" by (rule wq_progress_trans [OF wq_progress_trans [OF 1(4) 2(4)] 3(4)])
  obtain gs where gs: "wq_live B3 \<subseteq> wq_live A" "wq_hold B3 = wq_hold A" "wq_done B3 = wq_done A @ gs"
      "set gs = wq_live A - wq_live B3"
    using pg by (auto simp: wq_progress_def)
  let ?B = "B3\<lparr>wq_done := [], wq_hold := wq_hold B3 @ others pg (wq_done B3)\<rparr>"
  let ?got = "polled pg (wq_done A @ gs)"
  from poll_drain_spec [OF 3(2), of pg False] obtain c4 where
    4: "poll_drain pg False c3 = Some (?got, c4)"
      "ghd_inv c4 ?B" "ccc_hba c4 = ccc_hba c3"
      "\<forall>g. pg = Some g \<and> g \<in> set (wq_done B3) \<longrightarrow> cmd_state (ccc_gcmd c4 g) = GCMD_STATE_IDLE"
    unfolding polled_def gs(3) [symmetric] by auto
  have hw: "hw_inv hw_ok owned c4 ?B" by (rule hw_inv_cong [OF 3(3) 4(3)]) simp
  have rd: "poll_round status process start func k pg i c = Some (?got, i', c4)"
    using st 1(1) 2(1) 3(1) 4(1) by (simp add: poll_round_def)
  have idle: "?got \<longrightarrow> (\<forall>g. pg = Some g \<longrightarrow> cmd_state (ccc_gcmd c4 g) = GCMD_STATE_IDLE)"
    using 4(4) unfolding polled_def gs(3) by blast
  show ?thesis
    by (rule exI [of _ ?got], rule exI [of _ i'], rule exI [of _ c4], rule exI [of _ ?B], rule exI [of _ gs])
      (intro conjI rd 4(2) hw idle refl; use gs in simp)
qed

definition poll_state :: "wq \<Rightarrow> nat option \<Rightarrow> bool \<Rightarrow> 'hw ccc_t \<Rightarrow> bool" where
  "poll_state A pg got c \<longleftrightarrow> (\<exists>B gs. ghd_inv c B \<and> hw_inv hw_ok owned c B \<and> wq_live B \<subseteq> wq_live A \<and>
     set gs = wq_live A - wq_live B \<and>
     (wq_done B = [] \<and> wq_hold B = others pg (wq_done A @ gs) \<and> (polled pg (wq_done A @ gs) \<longrightarrow> got) \<or>
      \<not> got \<and> B = A \<and> gs = []) \<and>
     (got \<longrightarrow> (\<forall>g. pg = Some g \<longrightarrow> g \<in> set (wq_done A @ gs) \<and> cmd_state (ccc_gcmd c g) = GCMD_STATE_IDLE)))"

lemma poll_loop_inv:
  assumes r: "ghd_poll_loop status process start func ks pt t pg d n i c = Some r"
    and hz: "\<And>n. hz_ok (ks n)" and inv: "ghd_inv c A" "hw_inv hw_ok owned c A" "wq_hold A = []"
    and pt: "pt = GHD_POLL_REQUEST \<or> pg = None"
  shows "poll_state A pg (fst r) (snd r)"
proof (rule ghd_poll_loop_rule [where I = "\<lambda>n. poll_state A pg False" and Q = "poll_state A pg", OF r])
  show "poll_state A pg False c" using inv by (auto simp: poll_state_def)
next
  fix n i c got i' c'
  assume I: "poll_state A pg False c"
    and rd: "poll_round status process start func (ks (Suc n)) pg i c = Some (got, i', c')"
  from I obtain B gs where B: "ghd_inv c B" "hw_inv hw_ok owned c B" "wq_live B \<subseteq> wq_live A"
      "set gs = wq_live A - wq_live B" "wq_done B = [] \<and> wq_hold B = others pg (wq_done A @ gs) \<and> \<not> polled pg (wq_done A @ gs) \<or> B = A \<and> gs = []"
    by (auto simp: poll_state_def)
  from round_inv [OF hz [of "Suc n"] B(1,2), of pg i] rd obtain C hs where C: "ghd_inv c' C" "hw_inv hw_ok owned c' C"
      "wq_live C \<subseteq> wq_live B" "set hs = wq_live B - wq_live C" "wq_done C = []"
      "wq_hold C = wq_hold B @ others pg (wq_done B @ hs)" "got \<longleftrightarrow> polled pg (wq_done B @ hs)"
      "got \<longrightarrow> (\<forall>g. pg = Some g \<longrightarrow> cmd_state (ccc_gcmd c' g) = GCMD_STATE_IDLE)"
    by (elim exE conjE) (rule that, simp_all, blast)
  have hold: "wq_hold C = others pg (wq_done A @ gs @ hs)" using B(5) C(6) inv(3) by auto
  have set: "set (gs @ hs) = wq_live A - wq_live C" "wq_live C \<subseteq> wq_live A" using B(3,4) C(3,4) by auto
  have sub: "set (wq_done B @ hs) \<subseteq> set (wq_done A @ gs @ hs)" using B(5) by auto
  have g: "\<forall>g. pg = Some g \<longrightarrow> g \<in> set (wq_done A @ gs @ hs)" if got using C(7) that sub by (auto simp: polled_def)
  have pol: "polled pg (wq_done A @ gs @ hs) \<longrightarrow> got" using C(7) B(5) by auto
  have T: "poll_state A pg got c'"
    unfolding poll_state_def
    by (rule exI [of _ C], rule exI [of _ "gs @ hs"]) (use C(1,2,5,8) hold set g pol in auto)
  have N: "poll_state A None b c'" if "pg = None" for b
    unfolding poll_state_def
    by (rule exI [of _ C], rule exI [of _ "gs @ hs"]) (use C(1,2,5) hold set that in auto)
  have n: "got = False" if "pg = None" using C(7) that by simp
  show "if poll_got pt d got c' then poll_state A pg True c' else poll_state A pg False c'"
    using pt T N n by (cases got; cases pt) (auto simp: poll_got_def)
qed

lemma poll_unlimited:
  assumes "ghd_poll_loop status process start func ks pt 0 pg d n i c = Some r"
  shows "fst r"
  using ghd_poll_loop_rule [where I = "\<lambda>_ _. True" and Q = "\<lambda>b _. b", OF assms] by auto

lemma poll_inv:
  assumes r: "ghd_poll status process start func ks pt t pg d i c = Some (got, c')"
    and hz: "\<And>n. hz_ok (ks n)" and inv: "ghd_inv c A" "hw_inv hw_ok owned c A" "wq_hold A = []"
    and pt: "pt = GHD_POLL_REQUEST \<or> pg = None"
  shows "\<exists>B gs. ghd_inv c' B \<and> hw_inv hw_ok owned c' B \<and> wq_hold B = [] \<and> wq_live B \<subseteq> wq_live A \<and>
     set gs = wq_live A - wq_live B \<and>
     (wq_done B = others pg (wq_done A @ gs) \<and> (polled pg (wq_done A @ gs) \<longrightarrow> got) \<or>
      \<not> got \<and> wq_done B = wq_done A \<and> gs = []) \<and>
     (got \<longrightarrow> (\<forall>g. pg = Some g \<longrightarrow> g \<in> set (wq_done A @ gs) \<and> cmd_state (ccc_gcmd c' g) = GCMD_STATE_IDLE)) \<and>
     (t = 0 \<longrightarrow> got)"
proof -
  have same: "c\<lparr>ccc_l2 := L2_INIT (ccc_l2 c) HoldQ\<rparr> = c"
    using hold_init [OF wq_inv_repr [OF ghd_invD(1) [OF inv(1)]] inv(3)] by simp
  from r obtain c1 where l: "ghd_poll_loop status process start func ks pt t pg d 0 i c = Some (got, c1)"
    and rest: "c' = c1 \<and> L2_EMPTY (ccc_l2 c1) HoldQ \<or> poll_put_back c1 = Some c'"
    unfolding ghd_poll_def same
    by (cases "ghd_poll_loop status process start func ks pt t pg d 0 i c") (auto split: if_splits bind_splits)
  from poll_loop_inv [OF l hz inv pt] obtain B gs where B: "ghd_inv c1 B" "hw_inv hw_ok owned c1 B"
     "wq_live B \<subseteq> wq_live A" "set gs = wq_live A - wq_live B"
     "wq_done B = [] \<and> wq_hold B = others pg (wq_done A @ gs) \<and> (polled pg (wq_done A @ gs) \<longrightarrow> got) \<or>
      \<not> got \<and> B = A \<and> gs = []"
     "got \<longrightarrow> (\<forall>g. pg = Some g \<longrightarrow> g \<in> set (wq_done A @ gs) \<and> cmd_state (ccc_gcmd c1 g) = GCMD_STATE_IDLE)"
    by (auto simp: poll_state_def)
  let ?B = "B\<lparr>wq_hold := [], wq_done := wq_done B @ wq_hold B\<rparr>"
  have "ghd_inv c' ?B \<and> ccc_hba c' = ccc_hba c1 \<and> (\<forall>g. cmd_state (ccc_gcmd c' g) = cmd_state (ccc_gcmd c1 g))"
    using rest
  proof
    assume a: "c' = c1 \<and> L2_EMPTY (ccc_l2 c1) HoldQ"
    then have "wq_hold B = []"
      using l2.is_empty [of "ccc_l2 c1" "wq_content B" HoldQ] wq_inv_repr [OF ghd_invD(1) [OF B(1)]] by (simp add: wq_repr_def)
    then have "?B = B" by (simp add: wq.equality)
    with a B(1) show ?thesis by simp
  next
    assume "poll_put_back c1 = Some c'"
    with put_back_spec [OF B(1)] show ?thesis by auto
  qed
  moreover have "hw_inv hw_ok owned c' ?B" by (rule hw_inv_cong [OF B(2)]) (use calculation in simp_all)
  ultimately show ?thesis
    using poll_unlimited [of ks pt pg d 0 i c "(got, c1)"] l
    by (intro exI [of _ ?B] exI [of _ gs]) (use B(3-6) inv(3) in auto)
qed

end

subsection \<open>The entry points keep the invariant\<close>

context hba_interrupt
begin

lemma newstate_loop_none:
  assumes "ghd_inv c A" "hw_inv hw_ok owned c A" "gact_rank a \<le> 3"
  shows "\<exists>a' c' B. timer_newstate_loop func k c None d a t = Some (a', c') \<and> ghd_inv c' B \<and>
     hw_inv hw_ok owned c' B \<and> wq_progress A B"
  using assms
proof (induction "gact_rank a" arbitrary: c a rule: less_induct)
  case less
  have eqn: "timer_newstate_loop func k c None d a t =
      (if a = GACTION_RESET_BUS \<and> ccc_waitq_frozen c then Some (Some a, c)
       else (case func c None d a t of
               None \<Rightarrow> None
             | Some (took, c') \<Rightarrow>
                 if took then Some (Some a, c')
                 else if a = GACTION_INCOMPLETE then Some (None, c')
                 else timer_newstate_loop func k c' None d (snd (newstate_next a)) t))"
    by (subst timer_newstate_loop.simps) (auto simp: Let_def newstate_enter_def split: option.splits)
  obtain took c' where c': "func c None d a t = Some (took, c')" "hw_ok (ccc_hba c')"
      "\<not> took \<longrightarrow> (\<exists>h. c' = c\<lparr>ccc_hba := h\<rparr> \<and> owned h \<subseteq> owned (ccc_hba c))"
      "took \<longrightarrow> (\<exists>B. ghd_inv c' B \<and> owned (ccc_hba c') \<subseteq> wq_started B \<and> wq_progress A B \<and> timer_frame c A c' B)"
    using outcome [OF less.prems(1), of None a d t] less.prems(2,3) by (auto simp: hw_inv_def)
  show ?case
  proof (cases "a = GACTION_RESET_BUS \<and> ccc_waitq_frozen c")
    case True
    with less.prems show ?thesis unfolding eqn by (intro exI [of _ "Some a"] exI [of _ c] exI [of _ A]) simp
  next
    case nf: False
    show ?thesis
    proof (cases took)
      case True
      with c' obtain B where "ghd_inv c' B" "owned (ccc_hba c') \<subseteq> wq_started B" "wq_progress A B" by blast
      with c'(1,2) nf True show ?thesis unfolding eqn
        by (intro exI [of _ "Some a"] exI [of _ c'] exI [of _ B]) (auto simp: hw_inv_def)
    next
      case False
      then obtain h where h: "c' = c\<lparr>ccc_hba := h\<rparr>" "owned h \<subseteq> owned (ccc_hba c)" using c'(3) by blast
      have i: "ghd_inv c' A" "hw_inv hw_ok owned c' A"
        using ghd_inv_hba [OF less.prems(1), of h] less.prems(2) c'(2) h by (auto simp: hw_inv_def)
      show ?thesis
      proof (cases "a = GACTION_INCOMPLETE")
        case True
        with c'(1) nf False i show ?thesis unfolding eqn
          by (intro exI [of _ None] exI [of _ c'] exI [of _ A]) simp
      next
        case na: False
        have "gact_rank (snd (newstate_next a)) < gact_rank a" by (rule gact_rank_next [OF na])
        with less.hyps [OF this i] less.prems(3) c'(1) nf False na show ?thesis unfolding eqn by auto
      qed
    qed
  qed
qed

lemma newstate_none:
  assumes "ghd_inv c A" "hw_inv hw_ok owned c A" "gact_rank a \<le> 3"
  shows "\<exists>c' B. sol11ghd_timer_newstate func k c None d a t = Some c' \<and> ghd_inv c' B \<and>
     hw_inv hw_ok owned c' B \<and> wq_progress A B"
proof -
  from newstate_loop_none [OF assms, of k d t] obtain a' c' B where
    L: "timer_newstate_loop func k c None d a t = Some (a', c')" "ghd_inv c' B" "hw_inv hw_ok owned c' B" "wq_progress A B"
    by blast
  show ?thesis
  proof (cases a')
    case None
    with L show ?thesis by (auto simp: sol11ghd_timer_newstate_def)
  next
    case (Some a2)
    let ?c2 = "c'\<lparr>ccc_gcmd := scan_gcmd a2 None d (set (wq_timer B)) (ccc_gcmd c')\<rparr>"
    have R: "wq_repr c' B" by (rule wq_inv_repr [OF ghd_invD(1) [OF L(2)]])
    have "sol11ghd_timer_newstate func k c None d a t = Some ?c2"
      using L(1) Some newstate_scan_spec [OF R, of "[]" "wq_timer B" a2 None d] timer_first [OF R]
      by (simp add: sol11ghd_timer_newstate_def)
    moreover have "ghd_inv ?c2 B" by (rule scan_inv [OF L(2)])
    moreover have "hw_inv hw_ok owned ?c2 B" by (rule hw_inv_cong [OF L(3)]) simp_all
    ultimately show ?thesis using L(4) by (intro exI [of _ ?c2] exI [of _ B]) simp
  qed
qed

text \<open>Entering and leaving the poll mode.\<close>

lemma pollmode_inv:
  assumes "ghd_inv c A" "hw_inv hw_ok owned c A"
  shows "ghd_inv (ghd_doneq_pollmode_enter c) A" "hw_inv hw_ok owned (ghd_doneq_pollmode_enter c) A"
    "ghd_inv (ghd_doneq_pollmode_exit c) A" "hw_inv hw_ok owned (ghd_doneq_pollmode_exit c) A"
proof -
  show "ghd_inv (ghd_doneq_pollmode_enter c) A" "ghd_inv (ghd_doneq_pollmode_exit c) A"
    by (rule ghd_inv_cong [OF assms(1)];
      simp add: ghd_doneq_pollmode_enter_def ghd_doneq_pollmode_exit_def doneq_softintr_def Let_def)+
  show "hw_inv hw_ok owned (ghd_doneq_pollmode_enter c) A" "hw_inv hw_ok owned (ghd_doneq_pollmode_exit c) A"
    by (rule hw_inv_cong [OF assms(2)];
      simp add: ghd_doneq_pollmode_enter_def ghd_doneq_pollmode_exit_def doneq_softintr_def Let_def)+
qed

lemma poll_exit_inv:
  assumes "ghd_inv c A" "hw_inv hw_ok owned c A"
  shows "\<exists>c' B. poll_exit start k c = Some c' \<and> ghd_inv c' B \<and> hw_inv hw_ok owned c' B \<and> wq_progress A B"
  using process_exit [OF pollmode_inv(3,4) [OF assms], of k] unfolding poll_exit_def by blast

text \<open>What the entry points may do to the queues: every request that was outstanding still is, or is on
  the done queue; none is lost or invented.\<close>

definition ghd_moved :: "wq \<Rightarrow> 'hw ccc_t \<Rightarrow> bool" where
  "ghd_moved A c \<longleftrightarrow> (\<exists>B. ghd_inv c B \<and> hw_inv hw_ok owned c B \<and> wq_hold B = [] \<and> wq_live B \<subseteq> wq_live A \<and>
     set (wq_done B) = set (wq_done A) \<union> (wq_live A - wq_live B))"

lemma moved_progress:
  assumes "ghd_inv c B" "hw_inv hw_ok owned c B" "wq_progress A B" "wq_hold A = []"
  shows "ghd_moved A c"
  using assms unfolding ghd_moved_def wq_progress_def by (intro exI [of _ B]) auto

lemma moved_trans:
  assumes "ghd_inv c B" "hw_inv hw_ok owned c B" "wq_hold B = []" "wq_live B \<subseteq> wq_live A"
    and "set (wq_done B) = set (wq_done A) \<union> (wq_live A - wq_live B)"
    and "\<And>B. ghd_inv c B \<Longrightarrow> hw_inv hw_ok owned c B \<Longrightarrow> wq_hold B = [] \<Longrightarrow> ghd_moved B c'"
  shows "ghd_moved A c'"
proof -
  from assms(6) [OF assms(1-3)] obtain C where "ghd_inv c' C" "hw_inv hw_ok owned c' C" "wq_hold C = []"
      "wq_live C \<subseteq> wq_live B" "set (wq_done C) = set (wq_done B) \<union> (wq_live B - wq_live C)"
    by (auto simp: ghd_moved_def)
  with assms(4,5) show ?thesis unfolding ghd_moved_def by (intro exI [of _ C]) auto
qed

lemma tran_recover_inv:
  assumes r: "ghd_tran_recover action pt t status process start func k ks k' d i c = Some (rc, c')"
    and hz: "\<And>n. hz_ok (ks n)" and inv: "ghd_inv c A" "hw_inv hw_ok owned c A" "wq_hold A = []"
    and rk: "gact_rank action \<le> 3"
  shows "ghd_moved A c'"
proof -
  note E = pollmode_inv(1,2) [OF inv(1,2)]
  from newstate_none [OF E rk, of k d True] obtain c1 B1 where
    1: "sol11ghd_timer_newstate func k (ghd_doneq_pollmode_enter c) None d action True = Some c1"
      "ghd_inv c1 B1" "hw_inv hw_ok owned c1 B1" "wq_progress A B1" by blast
  with r obtain c2 where 2: "ghd_poll status process start func ks pt t None d i c1 = Some (rc, c2)"
      "poll_exit start k' c2 = Some c'"
    by (auto simp: ghd_tran_recover_def split: bind_splits)
  have h1: "wq_hold B1 = []" using 1(4) inv(3) by (simp add: wq_progress_def)
  from poll_inv [OF 2(1) hz 1(2,3) h1] obtain B2 gs where
    B2: "ghd_inv c2 B2" "hw_inv hw_ok owned c2 B2" "wq_hold B2 = []" "wq_live B2 \<subseteq> wq_live B1"
      "set gs = wq_live B1 - wq_live B2" "wq_done B2 = wq_done B1 @ gs" by auto
  from poll_exit_inv [OF B2(1,2), of k'] 2(2) obtain B3 where
    B3: "ghd_inv c' B3" "hw_inv hw_ok owned c' B3" "wq_progress B2 B3" by auto
  have "wq_progress B1 B2" using B2 h1 by (simp add: wq_progress_def)
  then have "wq_progress A B3" using wq_progress_trans 1(4) B3(3) by blast
  from moved_progress [OF B3(1,2) this inv(3)] show ?thesis .
qed

lemma doneq_put_ghd_inv:
  assumes inv: "ghd_inv c A" and g: "g \<notin> wq_live A" "\<not> wq_queued A g"
  shows "ghd_inv (GHD_DONEQ_PUT_TAIL c g) (A\<lparr>wq_done := wq_done A @ [g]\<rparr>)"
proof -
  have f: "ccc_gcmd (GHD_DONEQ_PUT_TAIL c g) = (ccc_gcmd c)(g := (ccc_gcmd c g)\<lparr>cmd_state := GCMD_STATE_DONEQ\<rparr>)"
    "ccc_gdev (GHD_DONEQ_PUT_TAIL c g) = ccc_gdev c" "ccc_nactive (GHD_DONEQ_PUT_TAIL c g) = ccc_nactive c"
    "ccc_maxactive (GHD_DONEQ_PUT_TAIL c g) = ccc_maxactive c"
    by (simp_all add: GHD_DONEQ_PUT_TAIL_def doneq_softintr_def Let_def)
  show ?thesis
    using doneq_put_tail_inv [OF ghd_invD(1) [OF inv] g] ghd_invD(2,3) [OF inv] g
    unfolding ghd_inv_def ghd_states_def ghd_throttle_def f by (auto simp: wq_started_def)
qed

text \<open>The request an abort waits for is put back on the done queue when it was got.\<close>

lemma put_polled_inv:
  assumes B: "ghd_inv c B" "hw_inv hw_ok owned c B" "wq_hold B = []" "wq_live B \<subseteq> wq_live A"
    "set gs = wq_live A - wq_live B" "wq_done B = others (Some g) (wq_done A @ gs)"
    and g: "g \<in> set (wq_done A @ gs)" "g \<notin> wq_live B"
  defines "c' \<equiv> GHD_DONEQ_PUT_TAIL (upd_gcmd g (\<lambda>r. r\<lparr>cmd_state := GCMD_STATE_DONEQ\<rparr>) c) g"
  shows "\<exists>C. ghd_inv c' C \<and> hw_inv hw_ok owned c' C \<and> wq_hold C = [] \<and> wq_live C = wq_live B \<and>
    set (wq_done C) = set (wq_done A) \<union> (wq_live A - wq_live C)"
proof -
  have nd: "g \<notin> set (wq_done B)" using B(6) by (auto simp: others_def)
  have "\<not> wq_queued B g"
    using g(2) nd B(3) wq_levels_devD [OF wq_inv_levels [OF ghd_invD(1) [OF B(1)]]]
      wq_levels_hbaD [OF wq_inv_levels [OF ghd_invD(1) [OF B(1)]]] by (auto simp: wq_queued_def)
  from doneq_put_ghd_inv [OF B(1) g(2) this] have i: "ghd_inv (GHD_DONEQ_PUT_TAIL c g) (B\<lparr>wq_done := wq_done B @ [g]\<rparr>)" .
  have same: "c' = GHD_DONEQ_PUT_TAIL c g"
    by (simp add: c'_def GHD_DONEQ_PUT_TAIL_def upd_gcmd_def doneq_softintr_def Let_def)
  have hb: "ccc_hba c' = ccc_hba c"
    by (simp add: same GHD_DONEQ_PUT_TAIL_def doneq_softintr_def Let_def)
  have "hw_inv hw_ok owned c' (B\<lparr>wq_done := wq_done B @ [g]\<rparr>)" by (rule hw_inv_cong [OF B(2) hb]) simp
  moreover have "insert g (set (others (Some g) (wq_done A @ gs))) = set (wq_done A @ gs)"
    using g(1) by (auto simp: others_def)
  ultimately show ?thesis
    using i B(3,5,6) unfolding same by (intro exI [of _ "B\<lparr>wq_done := wq_done B @ [g]\<rparr>"]) auto
qed

lemma tran_abort_inv:
  assumes r: "sol11ghd_tran_abort status process start func k ks k' g d i c = Some (rc, c')"
    and hz: "hz_ok k" "\<And>n. hz_ok (ks n)" and inv: "ghd_inv c A" "hw_inv hw_ok owned c A" "wq_hold A = []"
  shows "ghd_moved A c'"
proof -
  let ?c = "ghd_doneq_pollmode_enter c"
  note E = pollmode_inv(1,2) [OF inv(1,2)]
  have st: "ccc_gcmd ?c = ccc_gcmd c" by (simp add: ghd_doneq_pollmode_enter_def)
  define act where "act = (if cmd_state (ccc_gcmd ?c g) = GCMD_STATE_WAITQ then Some GACTION_EARLY_ABORT
      else if cmd_state (ccc_gcmd ?c g) = GCMD_STATE_ACTIVE then Some GACTION_ABORT_CMD else None)"
  show ?thesis
  proof (cases act)
    case None
    with r have "poll_exit start k' ?c = Some c'"
      by (auto simp: sol11ghd_tran_abort_def act_def Let_def split: bind_splits if_splits)
    with poll_exit_inv [OF E, of k'] obtain B where "ghd_inv c' B" "hw_inv hw_ok owned c' B" "wq_progress A B" by auto
    from moved_progress [OF this inv(3)] show ?thesis .
  next
    case (Some a)
    let ?c1 = "GHD_TIMER_STOP ?c g" and ?A1 = "A\<lparr>wq_timer := remove1 g (wq_timer A)\<rparr>"
    have i1: "ghd_inv ?c1 ?A1" by (rule ghd_timer_stop_inv [OF E(1)])
    have w1: "hw_inv hw_ok owned ?c1 ?A1" by (rule hw_inv_cong [OF E(2)]) (simp_all add: GHD_TIMER_STOP_def)
    have live: "g \<in> wq_live A" "gact_rank a = 5 \<longrightarrow> g \<notin> wq_started A"
      using Some ghd_invD(2) [OF inv(1)] by (auto simp: act_def st ghd_states_def split: if_splits)
    have nt: "g \<notin> set (wq_timer ?A1)"
      using wq_repr_distinct(5) [OF wq_inv_repr [OF ghd_invD(1) [OF inv(1)]]] by simp
    from newstate [OF hz(1) i1 w1, of g a d True] live nt obtain c2 B2 where
      2: "sol11ghd_timer_newstate func k ?c1 (Some g) d a True = Some c2" "ghd_inv c2 B2" "hw_inv hw_ok owned c2 B2"
        "wq_progress ?A1 B2" by auto
    from 2(4) inv(3) obtain gs where P: "wq_hold B2 = []" "wq_live B2 \<subseteq> wq_live A" "wq_done B2 = wq_done A @ gs"
        "set gs = wq_live A - wq_live B2" by (auto simp: wq_progress_def)
    have "\<exists>c3. ghd_poll status process start func ks GHD_POLL_REQUEST ghd_tran_abort_timeout (Some g) d i c2 = Some (rc, c3) \<and>
        poll_exit start k' (if rc then GHD_DONEQ_PUT_TAIL (upd_gcmd g (\<lambda>r. r\<lparr>cmd_state := GCMD_STATE_DONEQ\<rparr>) c3) g else c3) = Some c'"
    proof -
      have "(sol11ghd_timer_newstate func k ?c1 (Some g) d a True \<bind> (\<lambda>c.
          ghd_poll status process start func ks GHD_POLL_REQUEST ghd_tran_abort_timeout (Some g) d i c \<bind> (\<lambda>(rc, c).
          let c = (if rc then GHD_DONEQ_PUT_TAIL (upd_gcmd g (\<lambda>r. r\<lparr>cmd_state := GCMD_STATE_DONEQ\<rparr>) c) g else c)
          in poll_exit start k' c \<bind> (\<lambda>c. Some (rc, c))))) = Some (rc, c')"
        using r Some unfolding sol11ghd_tran_abort_def Let_def act_def [symmetric] by simp
      then show ?thesis unfolding 2(1) by (auto simp: Let_def split: bind_splits)
    qed
    then obtain c3 where
      3: "ghd_poll status process start func ks GHD_POLL_REQUEST ghd_tran_abort_timeout (Some g) d i c2 = Some (rc, c3)"
        "poll_exit start k' (if rc then GHD_DONEQ_PUT_TAIL (upd_gcmd g (\<lambda>r. r\<lparr>cmd_state := GCMD_STATE_DONEQ\<rparr>) c3) g else c3) = Some c'"
      by blast
    from poll_inv [OF 3(1) hz(2) 2(2,3) P(1)] obtain B3 hs where
      B3: "ghd_inv c3 B3" "hw_inv hw_ok owned c3 B3" "wq_hold B3 = []" "wq_live B3 \<subseteq> wq_live B2"
        "set hs = wq_live B2 - wq_live B3"
        "wq_done B3 = others (Some g) (wq_done B2 @ hs) \<and> (g \<in> set (wq_done B2 @ hs) \<longrightarrow> rc) \<or>
         \<not> rc \<and> wq_done B3 = wq_done B2 \<and> hs = []"
        "rc \<longrightarrow> g \<in> set (wq_done B2 @ hs)" by auto
    have sub: "wq_live B3 \<subseteq> wq_live A" "set (gs @ hs) = wq_live A - wq_live B3" using B3(4,5) P(2,4) by auto
    let ?c4 = "if rc then GHD_DONEQ_PUT_TAIL (upd_gcmd g (\<lambda>r. r\<lparr>cmd_state := GCMD_STATE_DONEQ\<rparr>) c3) g else c3"
    have "\<exists>C. ghd_inv ?c4 C \<and> hw_inv hw_ok owned ?c4 C \<and> wq_hold C = [] \<and> wq_live C \<subseteq> wq_live A \<and>
        set (wq_done C) = set (wq_done A) \<union> (wq_live A - wq_live C)"
    proof (cases rc)
      case True
      have "wq_done B3 = others (Some g) (wq_done A @ gs @ hs)" using B3(6) True P(3) by simp
      moreover have gin: "g \<in> set (wq_done A @ gs @ hs)" using B3(7) True P(3) by simp
      moreover have "g \<notin> wq_live B3"
      proof
        assume l: "g \<in> wq_live B3"
        then have "g \<in> set (wq_done A)" using gin sub(2) by auto
        then show False using wq_done_not_live [OF ghd_invD(1) [OF inv(1)], of g] l sub(1) by auto
      qed
      ultimately show ?thesis
        using put_polled_inv [OF B3(1,2,3) sub, of g] True sub(1) by auto
    next
      case False
      have "others (Some g) xs = xs" if "g \<notin> set xs" for xs using that by (induction xs) auto
      then have "wq_done B3 = wq_done A @ gs @ hs" using B3(6) False P(3) by auto
      then have "set (wq_done B3) = set (wq_done A) \<union> (wq_live A - wq_live B3)" using sub(2) by simp
      with False B3(1-3) sub(1) show ?thesis by (intro exI [of _ B3]) simp
    qed
    then obtain C where C: "ghd_inv ?c4 C" "hw_inv hw_ok owned ?c4 C" "wq_hold C = []" "wq_live C \<subseteq> wq_live A"
        "set (wq_done C) = set (wq_done A) \<union> (wq_live A - wq_live C)" by blast
    show ?thesis
    proof (rule moved_trans [OF C])
      fix D assume D: "ghd_inv ?c4 D" "hw_inv hw_ok owned ?c4 D" "wq_hold D = []"
      from poll_exit_inv [OF D(1,2), of k'] 3(2) obtain F where
        "ghd_inv c' F" "hw_inv hw_ok owned c' F" "wq_progress D F" by auto
      from moved_progress [OF this D(3)] show "ghd_moved D c'" .
    qed
  qed
qed

text \<open>A polled transport returns with its request completed: idle, not outstanding and on no queue. The other
  requests that completed meanwhile are on the done queue in order.\<close>

lemma transport_polled_inv:
  assumes r: "transport_polled status process start func hba_complete k ks k' g d tm i c = Some c'"
    and hz: "\<And>n. hz_ok (ks n)" and inv: "ghd_inv c A" "hw_inv hw_ok owned c A" "wq_hold A = []"
    and g: "cmd_state (ccc_gcmd c g) = GCMD_STATE_IDLE" "cmd_gdev (ccc_gcmd c g) = d"
    and cp: "\<And>c. hw_ok (ccc_hba c) \<Longrightarrow> \<exists>h. hba_complete c g = c\<lparr>ccc_hba := h\<rparr> \<and> hw_ok h \<and> owned h = owned (ccc_hba c)"
  shows "\<exists>B gs. ghd_inv c' B \<and> hw_inv hw_ok owned c' B \<and> wq_hold B = [] \<and> g \<notin> wq_live B \<and>
    wq_live B \<subseteq> wq_live A \<and> wq_done B = wq_done A @ gs \<and> set gs = wq_live A - wq_live B"
proof -
  let ?c = "ghd_doneq_pollmode_enter c"
  note E = pollmode_inv(1,2) [OF inv(1,2)]
  have st: "ccc_gcmd ?c = ccc_gcmd c" by (simp add: ghd_doneq_pollmode_enter_def)
  note un = idle_unqueued [OF inv(1) g(1)]
  from transport_enqueue_spec [OF E(1), of g d k tm] g st obtain c1 n where
    c1: "transport_enqueue k ?c g d tm = Some c1" "ghd_inv c1 (wq_promote (wq_submit A g d) d n)" "ccc_hba c1 = ccc_hba ?c"
    by auto
  let ?A = "wq_promote (wq_submit A g d) d n"
  have w1: "hw_inv hw_ok owned c1 ?A"
    by (rule hw_inv_cong [OF E(2) c1(3)]) (simp add: started_submit [OF idle_not_started [OF inv(1) g(1)]])
  have A1: "wq_hold ?A = []" "wq_live ?A = insert g (wq_live A)" "wq_done ?A = wq_done A"
    using inv(3) by (simp_all add: wq_submit_frame)
  from r c1(1) obtain b c2 c3 where
    p: "ghd_poll status process start func ks GHD_POLL_REQUEST 0 (Some g) d i c1 = Some (b, c2)"
      "poll_exit start k' c2 = Some c3" "c' = hba_complete c3 g"
    by (auto simp: transport_polled_def split: bind_splits)
  from poll_inv [OF p(1) hz c1(2) w1 A1(1)] obtain B gs where
    B: "ghd_inv c2 B" "hw_inv hw_ok owned c2 B" "wq_hold B = []" "wq_live B \<subseteq> insert g (wq_live A)"
      "set gs = insert g (wq_live A) - wq_live B" "wq_done B = others (Some g) (wq_done A @ gs)"
      "g \<in> set (wq_done A @ gs)" unfolding A1 by auto
  have nd: "g \<notin> set (wq_done A)" using un(2) by (simp add: wq_queued_def)
  then have gl: "g \<notin> wq_live B" using B(5,7) by auto
  have oth: "others (Some g) (wq_done A @ gs) = wq_done A @ others (Some g) gs"
    using nd by (auto simp: others_def filter_id_conv)
  have og: "set (others (Some g) gs) = wq_live A - wq_live B" using B(5) un(1) gl by (auto simp: others_def)
  from poll_exit_inv [OF B(1,2), of k'] p(2) obtain C where
    C: "ghd_inv c3 C" "hw_inv hw_ok owned c3 C" "wq_progress B C" by auto
  from C(3) obtain hs where hs: "wq_live C \<subseteq> wq_live B" "wq_hold C = []" "wq_done C = wq_done B @ hs"
      "set hs = wq_live B - wq_live C" using B(3) by (auto simp: wq_progress_def)
  from cp [of c3] C(2) obtain h where h: "c' = c3\<lparr>ccc_hba := h\<rparr>" "hw_ok h" "owned h = owned (ccc_hba c3)"
    unfolding p(3) by (auto simp: hw_inv_def)
  have "ghd_inv c' C" "hw_inv hw_ok owned c' C"
    using ghd_inv_hba [OF C(1), of h] C(2) h by (auto simp: hw_inv_def)
  then show ?thesis
    using hs gl B(4,6) oth og
    by (intro exI [of _ C] exI [of _ "others (Some g) gs @ hs"]) auto
qed

end

end
