(* ===== verification/Ata_System.thy ===== *)
theory Ata_System
  imports Ata_Ctlr Ghd_Poll
begin

text \<open>
  The ATA driver under GHD: the third interface, \<open>hba_interrupt\<close>, interpreted on the driver's status and
  interrupt routines, and the system of both. A step is one entry into the driver (a request, an
  interrupt, a timer tick, a completion pass, an abort or a reset); it is followed by any other.
\<close>

subsection \<open>Interrupts\<close>

lemma ata_status_frame:
  assumes "ata_get_status dev i s = (p, i', s')"
  shows "dev_frame ArqPkt s s'"
proof -
  have g: "dev_frame ArqPkt s (snd (get8 dev AC_ALTSTATUS s1))" if "dev_frame ArqPkt s s1" for s1
    by (rule dev_frame_trans [OF that dev_frame_io(2)])
  have q: "dev_frame ArqPkt s (snd (ata_pciide_status_pending dev s))" by (simp add: dev_frame_log_only)
  show ?thesis
    using assms g [of s] g [OF q] q
    by (auto simp: ata_get_status_def Let_def case_prod_beta split: if_splits option.splits bool.splits)
qed

lemma ata_process_intr_idle:
  assumes "ac_state (ccc_hba c) = AS_IDLE"
  shows "ata_process_intr env c = Some c"
proof -
  have same: "c\<lparr>ccc_hba := (ccc_hba c)\<lparr>ac_state := AS_IDLE\<rparr>\<rparr> = c" by (simp only: assms [symmetric] hba_same)
  have "ata_ctlr_fsm env ATA_FSM_INTR None c = Some (ATA_FSM_RC_OKAY, False, c)"
    unfolding ata_ctlr_fsm_def Let_def assms table_idle same by simp
  then have "process_intr_loop env (Suc n) ATA_FSM_INTR c = Some c" for n by simp
  from this [of 999] show ?thesis by (simp add: ata_process_intr_def ata_process_intr_watchdog_def)
qed

lemma process_intr_outcome:
  assumes inv: "ghd_inv c A" and hw: "hw_inv (ctl_ok env) ata_owned c A"
  shows "\<exists>c' B. ata_process_intr env c = Some c' \<and> ghd_inv c' B \<and> hw_inv (ctl_ok env) ata_owned c' B \<and>
    wq_progress A B \<and> wq_waiting B \<le> wq_waiting A"
proof -
  have ok: "ctl_ok env (ccc_hba c)" and own: "ata_owned (ccc_hba c) \<subseteq> wq_started A" using hw by (simp_all add: hw_inv_def)
  show ?thesis
  proof (cases "ac_state (ccc_hba c) = AS_IDLE")
    case True
    note ata_process_intr_idle [OF True, of env]
    with inv hw show ?thesis by (intro exI [of _ c] exI [of _ A]) simp
  next
    case False
    obtain g where g: "ata_owned (ccc_hba c) = {g}" using ctl_ok_active [OF ok False] by metis
    have gl: "g \<in> wq_live A" using own g by (auto simp: wq_started_def)
    from intr_loop_outcome [OF ok False g completes_live [OF ghd_invD(1) [OF inv] gl], of ATA_FSM_INTR]
    obtain c' where c': "ata_process_intr env c = Some c'" "loop_outcome env c g c'"
      by (auto simp: ata_process_intr_def)
    from c'(2) show ?thesis unfolding loop_outcome_def
    proof
      assume "still_active env c g c'"
      then obtain h where h: "c' = c\<lparr>ccc_hba := h\<rparr>" "ctl_ok env h" "ata_owned h = {g}" by (auto simp: still_active_def)
      with c'(1) ghd_inv_hba [OF inv, of h] own g show ?thesis
        by (intro exI [of _ c'] exI [of _ A]) (simp add: hw_inv_def)
    next
      assume "let_go env c g c'"
      then obtain h where h: "ctl_ok env h" "ata_owned h = {}" "GHD_COMPLETE (c\<lparr>ccc_hba := h\<rparr>) g = Some c'"
        by (auto simp: let_go_def)
      from complete_ghd_spec [OF ghd_inv_hba [OF inv, of h] gl] h(3) obtain d k where
        B: "ghd_inv c' (wq_complete A g d k)" "ccc_hba c' = h" by auto
      with c'(1) h wq_progress_complete [OF gl] wq_waiting_complete [OF wq_inv_finite [OF ghd_invD(1) [OF inv]]]
      show ?thesis by (intro exI [of _ c'] exI [of _ "wq_complete A g d k"]) (simp add: hw_inv_def)
    qed
  qed
qed

interpretation ata: hba_interrupt "ata_hba_start env" "ata_timeout_func env" "ctl_ok env" ata_owned
  "ata_get_status (env_dev env)" "ata_process_intr env" for env
proof unfold_locales
  fix h i p i' h'
  assume "ctl_ok env h" "ata_get_status (env_dev env) i h = (p, i', h')"
  with ctl_ok_frame [OF _ ata_status_frame] show "ctl_ok env h' \<and> ata_owned h' = ata_owned h" by blast
next
  fix c A assume "ghd_inv c A" "hw_inv (ctl_ok env) ata_owned c A"
  then show "\<exists>c' B. ata_process_intr env c = Some c' \<and> ghd_inv c' B \<and> hw_inv (ctl_ok env) ata_owned c' B \<and>
      wq_progress A B \<and> wq_waiting B \<le> wq_waiting A" by (rule process_intr_outcome)
qed

subsection \<open>Steps\<close>

text \<open>
  \<open>ccc_hba_complete\<close>. Disk packets are finished by \<open>ata_disk_complete\<close>; the DADA packet of a command and the
  completion of ATAPI packets (\<open>atapi_complete\<close>, which hands the status to the SCSA layer) are arguments.
\<close>

record ata_upper =
  up_cmpkt :: "nat \<Rightarrow> cmpkt"
  up_atapi_complete :: "ata_drv \<Rightarrow> ata_pkt \<Rightarrow> ata_pkt"

definition upper_ok :: "ata_upper \<Rightarrow> bool" where
  "upper_ok up \<longleftrightarrow> (\<forall>d k. pkt_fixed k (up_atapi_complete up d k))"

definition ata_hba_complete :: "ata_env \<Rightarrow> ata_upper \<Rightarrow> actl \<Rightarrow> nat \<Rightarrow> actl" where
  "ata_hba_complete env up c g =
    (let s = ccc_hba c;
         d = drv s (env_drv env g)
     in case ap_complete (ac_pkt s (PktOf g)) of
          Complete_none \<Rightarrow> c
        | Complete_ata_disk_complete \<Rightarrow>
            c\<lparr>ccc_hba := upd_pkt (PktOf g) (\<lambda>k. fst (ata_disk_complete d k (up_cmpkt up g))) s\<rparr>
        | Complete_atapi_complete \<Rightarrow> c\<lparr>ccc_hba := upd_pkt (PktOf g) (up_atapi_complete up d) s\<rparr>)"

text \<open>The state of the system at rest: the queues are well formed, the driver agrees with them.\<close>

definition ata_inv :: "ata_env \<Rightarrow> actl \<Rightarrow> bool" where
  "ata_inv env c \<longleftrightarrow> (\<exists>A. ghd_inv c A \<and> hw_inv (ctl_ok env) ata_owned c A \<and> wq_hold A = [])"

abbreviation "ata_status env \<equiv> ata_get_status (env_dev env)"

text \<open>
  \<open>Prepare\<close>: the target layer fills in the packet of an idle command. \<open>Tick\<close>: the timeout callback found an
  expired request. In the others the C function named ran to its end.
\<close>

inductive ata_step :: "ata_env \<Rightarrow> ata_upper \<Rightarrow> actl \<Rightarrow> actl \<Rightarrow> bool" for env :: ata_env and up :: ata_upper where
  Prepare: "cmd_state (ccc_gcmd c g) = GCMD_STATE_IDLE \<Longrightarrow> (\<And>k. ap_gcmdp (f k) = ap_gcmdp k) \<Longrightarrow>
     (\<And>k. ap_start (f k) \<in> disk_start_fns \<Longrightarrow> chs_ok (drv (ccc_hba c) (env_drv env g))) \<Longrightarrow>
     ata_step env up c (c\<lparr>ccc_hba := upd_pkt (PktOf g) f (ccc_hba c)\<rparr>)"
| Transport: "cmd_state (ccc_gcmd c g) = GCMD_STATE_IDLE \<Longrightarrow>
     sol11ghd_transport (ata_hba_start env) k got_mutex c g (cmd_gdev (ccc_gcmd c g)) t = Some c' \<Longrightarrow>
     ata_step env up c c'"
| Polled: "cmd_state (ccc_gcmd c g) = GCMD_STATE_IDLE \<Longrightarrow> (\<And>n. hz_ok (ks n)) \<Longrightarrow>
     transport_polled (ata_status env) (ata_process_intr env) (ata_hba_start env) (ata_timeout_func env)
       (ata_hba_complete env up) k ks k' g (cmd_gdev (ccc_gcmd c g)) t i c = Some c' \<Longrightarrow>
     ata_step env up c c'"
| Interrupt: "sol11ghd_intr (ata_status env) (ata_process_intr env) (ata_hba_start env) k i c = Some (rc, c') \<Longrightarrow>
     ata_step env up c c'"
| Tick: "ata_step env up c (c\<lparr>ccc_timeout_pending := True\<rparr>)"
| Timeout: "hz_ok k \<Longrightarrow> ghd_timeout_softintr (ata_hba_start env) (ata_timeout_func env) k c = Some c' \<Longrightarrow>
     ata_step env up c c'"
| Doneq: "ghd_doneq_process1 c = Some (r, c') \<Longrightarrow>
     ata_step env up c (case r of None \<Rightarrow> c' | Some g \<Rightarrow> ata_hba_complete env up c' g)"
| Abort: "hz_ok k \<Longrightarrow> (\<And>n. hz_ok (ks n)) \<Longrightarrow>
     sol11ghd_tran_abort (ata_status env) (ata_process_intr env) (ata_hba_start env) (ata_timeout_func env)
       k ks k' g d i c = Some (rc, c') \<Longrightarrow> ata_step env up c c'"
| Abort_lun: "(\<And>n. hz_ok (ks n)) \<Longrightarrow>
     sol11ghd_tran_abort_lun (ata_status env) (ata_process_intr env) (ata_hba_start env) (ata_timeout_func env)
       k ks k' d i c = Some (rc, c') \<Longrightarrow> ata_step env up c c'"
| Reset_target: "(\<And>n. hz_ok (ks n)) \<Longrightarrow>
     sol11ghd_tran_reset_target (ata_status env) (ata_process_intr env) (ata_hba_start env) (ata_timeout_func env)
       k ks k' d i c = Some (rc, c') \<Longrightarrow> ata_step env up c c'"
| Reset_bus: "(\<And>n. hz_ok (ks n)) \<Longrightarrow>
     sol11ghd_tran_reset_bus (ata_status env) (ata_process_intr env) (ata_hba_start env) (ata_timeout_func env)
       k ks k' d i c = Some (rc, c') \<Longrightarrow> ata_step env up c c'"
| Hold: "ata_step env up c (ghd_queue_hold c)"
| Unhold: "ata_step env up c (ghd_queue_unhold c)"
| Freeze: "ata_step env up c (ghd_freeze_waitq k c delay)"

inductive ata_reachable :: "ata_env \<Rightarrow> ata_upper \<Rightarrow> actl \<Rightarrow> bool" for env :: ata_env and up :: ata_upper where
  Attach: "ghd_initial c \<Longrightarrow> ctl_ok env (ccc_hba c) \<Longrightarrow> ac_state (ccc_hba c) = AS_IDLE \<Longrightarrow> ata_reachable env up c"
| Step: "ata_reachable env up c \<Longrightarrow> ata_step env up c c' \<Longrightarrow> ata_reachable env up c'"

subsection \<open>Every step keeps the invariant\<close>

lemma ata_complete_frame:
  assumes "upper_ok up"
  shows "\<exists>h. ata_hba_complete env up c g = c\<lparr>ccc_hba := h\<rparr> \<and> dev_frame (PktOf g) (ccc_hba c) h"
proof -
  have d: "pkt_fixed k (fst (ata_disk_complete d k ck))" for d k ck
    by (simp add: ata_disk_complete_def Let_def)
  have a: "pkt_fixed k (up_atapi_complete up d k)" for d k using assms by (simp add: upper_ok_def)
  show ?thesis
  proof (cases "ap_complete (ac_pkt (ccc_hba c) (PktOf g))")
    case Complete_none
    then show ?thesis by (intro exI [of _ "ccc_hba c"]) (simp add: ata_hba_complete_def Let_def)
  next
    case Complete_ata_disk_complete
    with dev_frame_upd_pkt [OF d] show ?thesis by (auto simp: ata_hba_complete_def Let_def)
  next
    case Complete_atapi_complete
    with dev_frame_upd_pkt [OF a] show ?thesis by (auto simp: ata_hba_complete_def Let_def)
  qed
qed

lemma ata_complete_ok:
  assumes "upper_ok up" "ctl_ok env (ccc_hba c)"
  shows "\<exists>h. ata_hba_complete env up c g = c\<lparr>ccc_hba := h\<rparr> \<and> ctl_ok env h \<and> ata_owned h = ata_owned (ccc_hba c)"
proof -
  obtain h where h: "ata_hba_complete env up c g = c\<lparr>ccc_hba := h\<rparr>" "dev_frame (PktOf g) (ccc_hba c) h"
    using ata_complete_frame [OF assms(1), of env c g] by blast
  with ctl_ok_frame [OF assms(2) h(2)] show ?thesis by blast
qed

lemma ata_invI: "ghd_inv c A \<Longrightarrow> hw_inv (ctl_ok env) ata_owned c A \<Longrightarrow> wq_hold A = [] \<Longrightarrow> ata_inv env c"
  by (auto simp: ata_inv_def)

lemma ata_inv_progress:
  "ghd_inv c B \<Longrightarrow> hw_inv (ctl_ok env) ata_owned c B \<Longrightarrow> wq_progress A B \<Longrightarrow> wq_hold A = [] \<Longrightarrow> ata_inv env c"
  by (rule ata_invI [of c B]) (simp_all add: wq_progress_def)

lemma ata_inv_moved: "ata.ghd_moved env A c \<Longrightarrow> ata_inv env c"
  by (auto simp: ata.ghd_moved_def ata_inv_def)

lemma ata_timeout_inv:
  assumes hz: "hz_ok k" and inv: "ghd_inv c A" "hw_inv (ctl_ok env) ata_owned c A"
  shows "\<exists>c' B. ghd_timeout_softintr (ata_hba_start env) (ata_timeout_func env) k c = Some c' \<and> ghd_inv c' B \<and>
    hw_inv (ctl_ok env) ata_owned c' B \<and> wq_progress A B"
proof (cases "ccc_timeout_pending c")
  case True
  let ?c = "c\<lparr>ccc_timeout_pending := False\<rparr>"
  have i: "ghd_inv ?c A" by (rule ghd_inv_cong [OF inv(1)]) simp_all
  have w: "hw_inv (ctl_ok env) ata_owned ?c A" by (rule hw_inv_cong [OF inv(2)]) simp_all
  from ata.timer_poll [OF hz i w, of False] obtain c1 B1 where
    1: "sol11ghd_timer_poll (ata_timeout_func env) k False ?c = Some c1" "ghd_inv c1 B1"
      "hw_inv (ctl_ok env) ata_owned c1 B1" "wq_progress A B1" by blast
  from ata.process_exit [OF 1(2,3), of k] obtain c2 B2 where
    2: "sol11ghd_waitq_process_and_mutex_exit (ata_hba_start env) k c1 = Some c2" "ghd_inv c2 B2"
      "hw_inv (ctl_ok env) ata_owned c2 B2" "wq_progress B1 B2" by blast
  from True 1(1) 2 wq_progress_trans [OF 1(4) 2(4)] show ?thesis by (auto simp: ghd_timeout_softintr_def)
next
  case False
  with ata.process_exit [OF inv, of k] inv show ?thesis
    by (cases "ccc_waitq_frozen c") (auto simp: ghd_timeout_softintr_def)
qed

lemma prepare_ok:
  assumes ok: "ctl_ok env s" and f: "\<And>k. ap_gcmdp (f k) = ap_gcmdp k"
    "\<And>k. ap_start (f k) \<in> disk_start_fns \<Longrightarrow> chs_ok (drv s (env_drv env g))"
  shows "ctl_ok env (upd_pkt (PktOf g) f s)" "ata_owned (upd_pkt (PktOf g) f s) = ata_owned s"
  using ok f by (auto simp: ctl_ok_def ctl_base_def ctl_link_def upd_pkt_def ata_owned_def has_drv_def drv_def
    split: option.splits)


lemma ata_step_inv:
  assumes st: "ata_step env up c c'" and up: "upper_ok up" and inv: "ata_inv env c"
  shows "ata_inv env c'"
proof -
  from inv obtain A where A: "ghd_inv c A" "hw_inv (ctl_ok env) ata_owned c A" "wq_hold A = []"
    by (auto simp: ata_inv_def)
  have ok: "ctl_ok env (ccc_hba c)" using A(2) by (simp add: hw_inv_def)
  from st show ?thesis
  proof cases
    case (Prepare g f)
    note P = prepare_ok [OF ok Prepare(3,4)]
    have "hw_inv (ctl_ok env) ata_owned c' A" using P A(2) Prepare(1) by (simp add: hw_inv_def)
    from ata_invI [OF _ this A(3)] ghd_inv_hba [OF A(1)] show ?thesis by (simp add: Prepare(1))
  next
    case (Transport g k got_mutex t)
    with ata.transport_inv [OF A(1,2) Transport(1) refl, of k got_mutex t] obtain B where
      "ghd_inv c' B" "hw_inv (ctl_ok env) ata_owned c' B" "wq_progress (wq_submit A g (cmd_gdev (ccc_gcmd c g))) B" by auto
    from ata_inv_progress [OF this] A(3) show ?thesis by (simp add: wq_submit_frame)
  next
    case (Polled g ks k k' t i)
    from ata.transport_polled_inv [OF Polled(3) Polled(2) A Polled(1) refl ata_complete_ok [OF up]] show ?thesis
      by (auto simp: ata_inv_def)
  next
    case (Interrupt k i rc)
    from ata.intr_inv [OF Interrupt A(1,2)] A(3) show ?thesis
      by (auto simp: ghd_progress_def intro: ata_inv_progress)
  next
    case Tick
    show ?thesis unfolding Tick
      by (rule ata_invI [OF ghd_inv_cong [OF A(1)] hw_inv_cong [OF A(2)] A(3)]) simp_all
  next
    case (Timeout k)
    from ata_timeout_inv [OF Timeout(1) A(1,2)] Timeout(2) A(3) show ?thesis by (auto intro: ata_inv_progress)
  next
    case (Doneq r c1)
    from doneq_process1_inv [OF A(1) Doneq(2)] obtain g gs where
      D: "ghd_inv c1 (A\<lparr>wq_done := gs\<rparr>)" "ccc_hba c1 = ccc_hba c" by blast
    have w: "hw_inv (ctl_ok env) ata_owned c1 (A\<lparr>wq_done := gs\<rparr>)" by (rule hw_inv_cong [OF A(2) D(2)]) simp
    show ?thesis
    proof (cases r)
      case None
      with Doneq(1) ata_invI [OF D(1) w] A(3) show ?thesis by simp
    next
      case (Some h)
      have "ctl_ok env (ccc_hba c1)" using w by (simp add: hw_inv_def)
      from ata_complete_ok [OF up this, of h] obtain s where s: "c' = c1\<lparr>ccc_hba := s\<rparr>" "ctl_ok env s"
          "ata_owned s = ata_owned (ccc_hba c1)" using Doneq(1) Some by auto
      have "hw_inv (ctl_ok env) ata_owned c' (A\<lparr>wq_done := gs\<rparr>)" using s w by (simp add: hw_inv_def)
      from ata_invI [OF _ this] ghd_inv_hba [OF D(1), of s] A(3) s(1) show ?thesis by simp
    qed
  next
    case (Abort k ks k' g d i rc)
    from ata.tran_abort_inv [OF Abort(3,1,2) A] show ?thesis by (rule ata_inv_moved)
  next
    case (Abort_lun ks k k' d i rc)
    from ata.tran_recover_inv [OF Abort_lun(2) [unfolded sol11ghd_tran_abort_lun_def] Abort_lun(1) A] show ?thesis
      by (auto intro: ata_inv_moved)
  next
    case (Reset_target ks k k' d i rc)
    from ata.tran_recover_inv [OF Reset_target(2) [unfolded sol11ghd_tran_reset_target_def] Reset_target(1) A] show ?thesis
      by (auto intro: ata_inv_moved)
  next
    case (Reset_bus ks k k' d i rc)
    from ata.tran_recover_inv [OF Reset_bus(2) [unfolded sol11ghd_tran_reset_bus_def] Reset_bus(1) A] show ?thesis
      by (auto intro: ata_inv_moved)
  next
    case Hold
    show ?thesis unfolding Hold
      by (rule ata_invI [OF ghd_inv_cong [OF A(1)] hw_inv_cong [OF A(2)] A(3)]) (simp_all add: ghd_queue_hold_def)
  next
    case Unhold
    show ?thesis unfolding Unhold
      by (rule ata_invI [OF ghd_inv_cong [OF A(1)] hw_inv_cong [OF A(2)] A(3)]) (simp_all add: ghd_queue_unhold_def)
  next
    case (Freeze k delay)
    show ?thesis unfolding Freeze
      by (rule ata_invI [OF ghd_inv_cong [OF A(1)] hw_inv_cong [OF A(2)] A(3)]) (simp_all add: ghd_freeze_waitq_def)
  qed
qed

lemma ata_reachable_inv:
  assumes "ata_reachable env up c" "upper_ok up"
  shows "ata_inv env c"
  using assms(1)
proof (induction rule: ata_reachable.induct)
  case (Attach c)
  have "hw_inv (ctl_ok env) ata_owned c wq_empty" using Attach ctl_ok_idle(3) [OF Attach(2,3)] by (simp add: hw_inv_def)
  from ata_invI [OF initial_inv [OF Attach(1)] this] show ?case by (simp add: wq_empty_def)
next
  case (Step c c')
  with ata_step_inv [OF _ assms(2)] show ?case by blast
qed

subsection \<open>Properties\<close>

lemma reachableE:
  assumes "ata_reachable env up c" "upper_ok up"
  obtains A where "ghd_inv c A" "hw_inv (ctl_ok env) ata_owned c A" "wq_hold A = []" "ctl_ok env (ccc_hba c)"
    "ata_owned (ccc_hba c) \<subseteq> wq_started A"
  using ata_reachable_inv [OF assms] by (auto simp: ata_inv_def hw_inv_def)

text \<open>C1: in every state the system can reach, through any sequence of requests (queued or polled), interrupts,
  timer ticks, timeouts, completion passes, aborts, resets, holds and freezes, with any device behaviour, the
  queues are well formed and no throttle is exceeded; the controller is idle exactly when no packet is
  active, and an active packet belongs to one outstanding request that has been started and not yet
  completed. While the packet of automatic request sense is active, the request it is for is remembered.\<close>

theorem ata_system_safe:
  assumes "ata_reachable env up c" "upper_ok up"
  shows "\<exists>A. ghd_inv c A \<and> wq_hold A = [] \<and>
    (case ac_active_pktp (ccc_hba c) of
       None \<Rightarrow> ac_state (ccc_hba c) = AS_IDLE \<and> ac_active_drvp (ccc_hba c) = None \<and> ac_fault_pktp (ccc_hba c) = None
     | Some p \<Rightarrow> ac_state (ccc_hba c) \<noteq> AS_IDLE \<and> ac_active_drvp (ccc_hba c) \<noteq> None \<and>
         (\<exists>g\<in>wq_live A. cmd_waitq_level (ccc_gcmd c g) = 3 \<and>
            cmd_state (ccc_gcmd c g) \<noteq> GCMD_STATE_IDLE \<and> cmd_state (ccc_gcmd c g) \<noteq> GCMD_STATE_WAITQ \<and>
            (p = PktOf g \<and> ac_fault_pktp (ccc_hba c) = None \<or>
             p = ArqPkt \<and> ac_fault_pktp (ccc_hba c) = Some (PktOf g))))"
proof -
  from reachableE [OF assms] obtain A where A: "ghd_inv c A" "hw_inv (ctl_ok env) ata_owned c A" "wq_hold A = []"
    "ctl_ok env (ccc_hba c)" "ata_owned (ccc_hba c) \<subseteq> wq_started A" .
  let ?s = "ccc_hba c"
  show ?thesis
  proof (cases "ac_active_pktp ?s")
    case None
    with A(1,3,4) show ?thesis by (auto simp: ctl_ok_def ctl_link_def split: option.splits)
  next
    case (Some p)
    then have "ac_state ?s \<noteq> AS_IDLE" using ctl_ok_idle(1) [OF A(4)] by simp
    from ctl_ok_active [OF A(4) this] obtain p' dr g where a: "ac_active_pktp ?s = Some p'" "ac_active_drvp ?s = Some dr"
      "ata_owned ?s = {g}" "p' = PktOf g \<and> ac_fault_pktp ?s = None \<or> p' = ArqPkt \<and> ac_fault_pktp ?s = Some (PktOf g)"
      by metis
    have g: "g \<in> wq_started A" "g \<in> wq_live A" using A(5) a(3) by (auto simp: wq_started_def)
    have "cmd_waitq_level (ccc_gcmd c g) = 3" using started_level [OF ghd_invD(1) [OF A(1)] g(2)] g(1) by simp
    with ghd_invD(2) [OF A(1)] g A(1,3) a Some \<open>ac_state ?s \<noteq> AS_IDLE\<close> show ?thesis
      by (intro exI [of _ A]) (auto simp: ghd_states_def)
  qed
qed

text \<open>C2: no entry into the driver gets stuck: from every reachable state a submission of an idle request, the
  processing of an interrupt, the timeout handler and a bus reset return, whatever the devices answer.\<close>

theorem ata_entries_return:
  assumes "ata_reachable env up c" "upper_ok up" "hz_ok k"
  shows "ata_process_intr env c \<noteq> None \<and> ata_reset_bus env c \<noteq> None \<and>
    ghd_timeout_softintr (ata_hba_start env) (ata_timeout_func env) k c \<noteq> None \<and>
    sol11ghd_waitq_process_and_mutex_exit (ata_hba_start env) k c \<noteq> None \<and>
    (\<forall>g got_mutex t. cmd_state (ccc_gcmd c g) = GCMD_STATE_IDLE \<longrightarrow>
       sol11ghd_transport (ata_hba_start env) k got_mutex c g (cmd_gdev (ccc_gcmd c g)) t \<noteq> None)"
proof -
  from reachableE [OF assms(1,2)] obtain A where A: "ghd_inv c A" "hw_inv (ctl_ok env) ata_owned c A" "wq_hold A = []"
    "ctl_ok env (ccc_hba c)" "ata_owned (ccc_hba c) \<subseteq> wq_started A" .
  have live: "ata_owned (ccc_hba c) \<subseteq> wq_live A" using A(5) by (auto simp: wq_started_def)
  obtain r1 where "ata_process_intr env c = Some r1" using process_intr_outcome [OF A(1,2)] by blast
  moreover obtain r2 where "ata_reset_bus env c = Some r2"
    using reset_bus_outcome [OF A(4) ghd_invD(1) [OF A(1)] live] by blast
  moreover obtain r3 where "ghd_timeout_softintr (ata_hba_start env) (ata_timeout_func env) k c = Some r3"
    using ata_timeout_inv [OF assms(3) A(1,2)] by blast
  moreover obtain r4 where "sol11ghd_waitq_process_and_mutex_exit (ata_hba_start env) k c = Some r4"
    using ata.process_exit [OF A(1,2)] by blast
  moreover have "sol11ghd_transport (ata_hba_start env) k m c g (cmd_gdev (ccc_gcmd c g)) t \<noteq> None"
    if idle: "cmd_state (ccc_gcmd c g) = GCMD_STATE_IDLE" for g m t
  proof -
    obtain r where "sol11ghd_transport (ata_hba_start env) k m c g (cmd_gdev (ccc_gcmd c g)) t = Some r"
      using ata.transport_inv [OF A(1,2) idle refl, of k m t] by blast
    then show ?thesis by simp
  qed
  ultimately show ?thesis by simp
qed

text \<open>C3: an interrupt never loses or repeats a request: the requests outstanding before and not after are the new
  tail of the done queue, each once; what was on the done queue stays in front of them.\<close>

theorem ata_interrupt_completes_once:
  assumes "ata_reachable env up c" "upper_ok up"
    and "sol11ghd_intr (ata_get_status (env_dev env)) (ata_process_intr env) (ata_hba_start env) k i c = Some (rc, c')"
  shows "\<exists>A B gs. ghd_inv c A \<and> ghd_inv c' B \<and> wq_live B \<subseteq> wq_live A \<and> wq_done B = wq_done A @ gs \<and>
    distinct gs \<and> set gs = wq_live A - wq_live B"
proof -
  from reachableE [OF assms(1,2)] obtain A where A: "ghd_inv c A" "hw_inv (ctl_ok env) ata_owned c A" "wq_hold A = []"
    "ctl_ok env (ccc_hba c)" "ata_owned (ccc_hba c) \<subseteq> wq_started A" .
  from ata.intr_inv [OF assms(3) A(1,2)] obtain B where B: "ghd_inv c' B" "wq_progress A B"
    by (auto simp: ghd_progress_def)
  from B(2) obtain gs where gs: "wq_done B = wq_done A @ gs" "set gs = wq_live A - wq_live B" "wq_live B \<subseteq> wq_live A"
    by (auto simp: wq_progress_def)
  have "distinct (wq_done B)" using wq_repr_distinct(3) [OF wq_inv_repr [OF ghd_invD(1) [OF B(1)]]] .
  with gs A(1) B(1) show ?thesis by auto
qed

text \<open>C4: a polled request is done when the polled transport returns: it is not outstanding, although the poll
  runs without a time limit and completes other requests on the way; those are added to the done queue.\<close>

theorem ata_polled_request_done:
  assumes "ata_reachable env up c" "upper_ok up" "\<And>n. hz_ok (ks n)" "cmd_state (ccc_gcmd c g) = GCMD_STATE_IDLE"
    and "transport_polled (ata_get_status (env_dev env)) (ata_process_intr env) (ata_hba_start env) (ata_timeout_func env)
       (ata_hba_complete env up) k ks k' g (cmd_gdev (ccc_gcmd c g)) t i c = Some c'"
  shows "\<exists>A B gs. ghd_inv c A \<and> ghd_inv c' B \<and> g \<notin> wq_live B \<and> wq_live B \<subseteq> wq_live A \<and> wq_done B = wq_done A @ gs \<and>
    set gs = wq_live A - wq_live B \<and> g \<notin> set gs"
proof -
  from reachableE [OF assms(1,2)] obtain A where A: "ghd_inv c A" "hw_inv (ctl_ok env) ata_owned c A" "wq_hold A = []"
    "ctl_ok env (ccc_hba c)" "ata_owned (ccc_hba c) \<subseteq> wq_started A" .
  from ata.transport_polled_inv [OF assms(5,3) A(1-3) assms(4) refl ata_complete_ok [OF assms(2)]] obtain B gs where
    "ghd_inv c' B" "g \<notin> wq_live B" "wq_live B \<subseteq> wq_live A" "wq_done B = wq_done A @ gs" "set gs = wq_live A - wq_live B"
    by auto
  with A(1) idle_unqueued(1) [OF A(1) assms(4)] show ?thesis
    by (intro exI [of _ A] exI [of _ B] exI [of _ gs]) simp
qed

text \<open>One pass of the state machine settles an interrupt whose routine neither asks for another pass nor finds the
  command finished; a finished command that wants no request sense is completed by the second.\<close>

lemma intr_okay:
  assumes "ac_state (ccc_hba c) \<noteq> AS_IDLE" "ac_active_pktp (ccc_hba c) = Some p" "ac_active_drvp (ccc_hba c) = Some dr"
    and "call_intr (env_dev env) dr p (ccc_hba c) = Some (ATA_FSM_RC_OKAY, s)"
  shows "ata_process_intr env c = Some (c\<lparr>ccc_hba := s\<rparr>)"
proof -
  have "ata_ctlr_fsm env ATA_FSM_INTR None c = Some (ATA_FSM_RC_OKAY, False, c\<lparr>ccc_hba := s\<rparr>)"
    using table_active [OF assms(1)] assms(2-4) by (simp add: ata_ctlr_fsm_def Let_def plain_def on_hba_def)
  then have "process_intr_loop env (Suc n) ATA_FSM_INTR c = Some (c\<lparr>ccc_hba := s\<rparr>)" for n by simp
  from this [of 999] show ?thesis by (simp add: ata_process_intr_def ata_process_intr_watchdog_def)
qed

lemma intr_fini:
  assumes ok: "ctl_ok env (ccc_hba c)" and a: "ac_active_pktp (ccc_hba c) = Some (PktOf g)" "ac_active_drvp (ccc_hba c) = Some dr"
    and i: "call_intr (env_dev env) dr (PktOf g) (ccc_hba c) = Some (ATA_FSM_RC_FINI, s)"
    and n: "ap_flags (ac_pkt s (PktOf g)) AND AP_ARQ_NEEDED \<noteq> AP_ARQ_NEEDED"
    and r: "ata_process_intr env c = Some c'"
  shows "GHD_COMPLETE (c\<lparr>ccc_hba := disconnect (s\<lparr>ac_state := AS_IDLE\<rparr>)\<rparr>) g = Some c'"
proof -
  have na: "ac_state (ccc_hba c) \<noteq> AS_IDLE" using ctl_ok_idle(1) [OF ok] a(1) by simp
  have fr: "dev_frame (PktOf g) (ccc_hba c) s"
    using ret_call_intr [of "PktOf g" "ccc_hba c" "env_dev env" dr] i by (simp add: ret_def)
  have F: "ctl_ok env s" "ac_state s = ac_state (ccc_hba c)" "ac_active_pktp s = Some (PktOf g)" "ac_active_drvp s = Some dr"
    using ctl_ok_frame [OF ok fr] fr a by (simp_all add: dev_frame_def)
  let ?d = "disconnect (s\<lparr>ac_state := AS_IDLE\<rparr>)"
  have gp: "ap_gcmdp (ac_pkt ?d (PktOf g)) = Some g" and fault: "ac_fault_pktp s = None"
    using F(1,3,4) by (simp_all add: ctl_ok_def ctl_base_def ctl_link_def disconnect_def)
  have 1: "ata_ctlr_fsm env ATA_FSM_INTR None c = Some (ATA_FSM_RC_FINI, False, c\<lparr>ccc_hba := s\<rparr>)"
    using table_active [OF na] a i by (simp add: ata_ctlr_fsm_def Let_def plain_def on_hba_def)
  have "ata_ctlr_fsm env ATA_FSM_FINI None (c\<lparr>ccc_hba := s\<rparr>) =
      fsm_fini env (ac_state s) (c\<lparr>ccc_hba := s\<lparr>ac_state := AS_IDLE\<rparr>\<rparr>)"
    using table_active [of "ac_state s"] F(2-4) na by (simp add: ata_ctlr_fsm_def Let_def)
  also have "\<dots> = fsm_all_done (PktOf g) (c\<lparr>ccc_hba := s\<lparr>ac_state := AS_IDLE\<rparr>\<rparr>)"
    unfolding fsm_fini_def using F(3,4) n by (simp add: Let_def)
  also have "\<dots> = map_option (\<lambda>c. (ATA_FSM_RC_OKAY, True, c)) (GHD_COMPLETE (c\<lparr>ccc_hba := ?d\<rparr>) g)"
    using gp by (simp add: fsm_all_done_def Let_def map_option_case split: option.split)
  finally have 2: "ata_ctlr_fsm env ATA_FSM_FINI None (c\<lparr>ccc_hba := s\<rparr>) =
      map_option (\<lambda>c. (ATA_FSM_RC_OKAY, True, c)) (GHD_COMPLETE (c\<lparr>ccc_hba := ?d\<rparr>) g)" .
  have "process_intr_loop env (Suc (Suc n)) ATA_FSM_INTR c = GHD_COMPLETE (c\<lparr>ccc_hba := ?d\<rparr>) g" for n
    using 1 2 by (simp split: option.split)
  from this [of 998] r show ?thesis by (simp add: ata_process_intr_def ata_process_intr_watchdog_def)
qed

text \<open>C5: the driver's interrupt processing is a step of the abstract GHD system, and one of two only: it changes nothing but
  the driver's state and holds the same request after it, or it completes the one request the driver held, once, in a
  state in which the driver holds none. Which one is decided by the routine of the active request: when that wants no
  more, only its own changes remain; when it finds the command finished and no request sense is wanted, the request is
  completed with the controller idle.\<close>

theorem ata_process_intr_refines:
  assumes "ata_reachable env up c" "upper_ok up" "ata_process_intr env c = Some c'"
  shows "ghd_step (ata_hba_start env) (ctl_ok env) ata_owned c c' \<and>
    ((\<exists>h. c' = c\<lparr>ccc_hba := h\<rparr> \<and> ctl_ok env h \<and> ata_owned h = ata_owned (ccc_hba c)) \<or>
     (\<exists>g h. ata_owned (ccc_hba c) = {g} \<and> ctl_ok env h \<and> ata_owned h = {} \<and> GHD_COMPLETE (c\<lparr>ccc_hba := h\<rparr>) g = Some c')) \<and>
    (\<forall>g dr rc s. ac_active_pktp (ccc_hba c) = Some (PktOf g) \<and> ac_active_drvp (ccc_hba c) = Some dr \<and>
        call_intr (env_dev env) dr (PktOf g) (ccc_hba c) = Some (rc, s) \<longrightarrow>
      (rc = ATA_FSM_RC_OKAY \<longrightarrow> c' = c\<lparr>ccc_hba := s\<rparr>) \<and>
      (rc = ATA_FSM_RC_FINI \<and> ap_flags (ac_pkt s (PktOf g)) AND AP_ARQ_NEEDED \<noteq> AP_ARQ_NEEDED \<longrightarrow>
         GHD_COMPLETE (c\<lparr>ccc_hba := disconnect (s\<lparr>ac_state := AS_IDLE\<rparr>)\<rparr>) g = Some c'))"
proof (intro conjI allI impI)
  from reachableE [OF assms(1,2)] obtain A where A: "ghd_inv c A" "hw_inv (ctl_ok env) ata_owned c A" "wq_hold A = []"
    "ctl_ok env (ccc_hba c)" "ata_owned (ccc_hba c) \<subseteq> wq_started A" .
  note ok = A(4)
  show cases: "(\<exists>h. c' = c\<lparr>ccc_hba := h\<rparr> \<and> ctl_ok env h \<and> ata_owned h = ata_owned (ccc_hba c)) \<or>
     (\<exists>g h. ata_owned (ccc_hba c) = {g} \<and> ctl_ok env h \<and> ata_owned h = {} \<and> GHD_COMPLETE (c\<lparr>ccc_hba := h\<rparr>) g = Some c')"
  proof (cases "ac_state (ccc_hba c) = AS_IDLE")
    case True
    have "c' = c\<lparr>ccc_hba := ccc_hba c\<rparr>" using ata_process_intr_idle [OF True] assms(3) by simp
    with ok show ?thesis by blast
  next
    case False
    obtain g where g: "ata_owned (ccc_hba c) = {g}" using ctl_ok_active [OF ok False] by metis
    have gl: "g \<in> wq_live A" using A(5) g by (auto simp: wq_started_def)
    from intr_loop_outcome [OF ok False g completes_live [OF ghd_invD(1) [OF A(1)] gl], of ATA_FSM_INTR ata_process_intr_watchdog] assms(3)
    have "still_active env c g c' \<or> let_go env c g c'" by (auto simp: ata_process_intr_def loop_outcome_def)
    with g show ?thesis unfolding still_active_def let_go_def by blast
  qed
  then show "ghd_step (ata_hba_start env) (ctl_ok env) ata_owned c c'"
    by (elim disjE exE conjE) (simp_all add: ghd_step.Driver, rule ghd_step.Complete, simp_all)
  fix g dr rc s
  assume "ac_active_pktp (ccc_hba c) = Some (PktOf g) \<and> ac_active_drvp (ccc_hba c) = Some dr \<and>
      call_intr (env_dev env) dr (PktOf g) (ccc_hba c) = Some (rc, s)"
  then have p: "ac_active_pktp (ccc_hba c) = Some (PktOf g)" "ac_active_drvp (ccc_hba c) = Some dr"
      "call_intr (env_dev env) dr (PktOf g) (ccc_hba c) = Some (rc, s)" by auto
  have na: "ac_state (ccc_hba c) \<noteq> AS_IDLE" using ctl_ok_idle(1) [OF ok] p(1) by simp
  show "c' = c\<lparr>ccc_hba := s\<rparr>" if "rc = ATA_FSM_RC_OKAY"
    using intr_okay [OF na p(1,2)] p(3) that assms(3) by simp
  show "GHD_COMPLETE (c\<lparr>ccc_hba := disconnect (s\<lparr>ac_state := AS_IDLE\<rparr>)\<rparr>) g = Some c'"
    if "rc = ATA_FSM_RC_FINI \<and> ap_flags (ac_pkt s (PktOf g)) AND AP_ARQ_NEEDED \<noteq> AP_ARQ_NEEDED"
    using intr_fini [OF ok p(1,2)] p(3) that assms(3) by simp
qed

subsection \<open>Resets\<close>

lemma log_only_frame_pkt: "dev_frame ArqPkt s s' \<Longrightarrow> ac_pkt s' (PktOf g) = ac_pkt s (PktOf g)"
  by (simp add: dev_frame_def)

lemma reset_halt_flags:
  "flag_set (ap_flags (ac_pkt (reset_halt dev (PktOf g) s) (PktOf g))) AP_BUS_RESET"
  "ap_flags (ac_pkt (reset_halt dev (PktOf g) s) (PktOf g)) =
     ap_flags (ac_pkt s (PktOf g)) OR (AP_DEV_RESET OR AP_BUS_RESET)"
proof -
  let ?s = "set_pkt_flags (PktOf g) (AP_DEV_RESET OR AP_BUS_RESET) s"
  have "dev_frame ArqPkt ?s (reset_halt dev (PktOf g) s)"
    unfolding reset_halt_def Let_def by (auto intro!: frame_intros)
  from log_only_frame_pkt [OF this] have e: "ac_pkt (reset_halt dev (PktOf g) s) (PktOf g) = ac_pkt ?s (PktOf g)" .
  show f: "ap_flags (ac_pkt (reset_halt dev (PktOf g) s) (PktOf g)) =
     ap_flags (ac_pkt s (PktOf g)) OR (AP_DEV_RESET OR AP_BUS_RESET)"
    unfolding e by (simp add: set_pkt_flags_def)
  show "flag_set (ap_flags (ac_pkt (reset_halt dev (PktOf g) s) (PktOf g))) AP_BUS_RESET"
    unfolding f by (simp, simp add: flag_set_def AP_BUS_RESET_def)
qed

lemma software_reset_drive0:
  assumes "ac_drvp s 0 0 \<noteq> None"
  shows "\<exists>s'. ata_software_reset dev s = Some (True, s') \<and> dev_frame p s s'"
proof -
  obtain b s' where s': "ata_software_reset dev s = Some (b, s')" "dev_frame p s s'"
    using ret_software_reset [of p s dev] by (auto simp: ret_def)
  have "ac_drvp (usecwait 300000 (put8 AC_DEVCTL ATDC_D3 (usecwait 30000 (put8 AC_DEVCTL (ATDC_D3 OR ATDC_SRST) s)))) 0 0 \<noteq> None"
    using assms by (simp add: usecwait_def put8_def)
  then have b using s'(1) by (auto simp: ata_software_reset_def Let_def split: bind_splits)
  with s' show ?thesis by auto
qed

lemma arq_needs_flag: "\<not> flag_set fl AP_ARQ_ON_ERROR \<Longrightarrow> fl AND AP_ARQ_NEEDED \<noteq> AP_ARQ_NEEDED"
proof
  assume n: "\<not> flag_set fl AP_ARQ_ON_ERROR" and e: "fl AND AP_ARQ_NEEDED = AP_ARQ_NEEDED"
  have ne: "AP_ARQ_NEEDED AND AP_ARQ_ON_ERROR = AP_ARQ_ON_ERROR" by (simp add: AP_ARQ_NEEDED_def ap_flag_defs)
  have "fl AND AP_ARQ_ON_ERROR = (fl AND AP_ARQ_NEEDED) AND AP_ARQ_ON_ERROR" by (simp only: and.assoc ne)
  also have "\<dots> = AP_ARQ_ON_ERROR" by (simp only: e ne)
  finally show False using n by (simp add: flag_set_def ap_flag_defs)
qed

text \<open>A reset command that is to be finished is completed, and the drives are set up again.\<close>

lemma reset_finishes:
  assumes inv: "ghd_inv c A" and gl: "g \<in> wq_live A" and ok: "ctl_ok env (ccc_hba c)" and na: "ac_state (ccc_hba c) \<noteq> AS_IDLE"
    and F: "ctl_ok env s2" "ac_state s2 = ac_state (ccc_hba c)" "ac_active_pktp s2 = Some (PktOf g)" "ac_active_drvp s2 = Some dr"
    and noarq: "ap_flags (ac_pkt s2 (PktOf g)) AND AP_ARQ_NEEDED \<noteq> AP_ARQ_NEEDED"
    and step1: "ata_ctlr_fsm env ATA_FSM_RESET None c = Some (ATA_FSM_RC_FINI, False, c\<lparr>ccc_hba := s2\<rparr>)"
  shows "\<exists>c' B. ata_reset_bus env c = Some (True, c') \<and> ghd_inv c' B \<and> g \<notin> wq_live B \<and> wq_done B = wq_done A @ [g] \<and>
    ac_state (ccc_hba c') = AS_IDLE \<and> ac_active_pktp (ccc_hba c') = None \<and>
    ap_flags (ac_pkt (ccc_hba c') (PktOf g)) = ap_flags (ac_pkt s2 (PktOf g))"
proof -
  have base: "ctl_base env (s2\<lparr>ac_state := AS_IDLE\<rparr>)" "ac_fault_pktp s2 = None"
    using ctl_base_cong [of env s2 "s2\<lparr>ac_state := AS_IDLE\<rparr>"] F by (auto simp: ctl_ok_def ctl_link_def)
  let ?d = "disconnect (s2\<lparr>ac_state := AS_IDLE\<rparr>)"
  obtain c3 where c3: "GHD_COMPLETE (c\<lparr>ccc_hba := ?d\<rparr>) g = Some c3"
    using completes_live [OF ghd_invD(1) [OF inv] gl] by (auto simp: completes_def)
  have gp: "ap_gcmdp (ac_pkt ?d (PktOf g)) = Some g" using base(1) by (simp add: ctl_base_def disconnect_def)
  have ad: "fsm_all_done (PktOf g) (c\<lparr>ccc_hba := s2\<lparr>ac_state := AS_IDLE\<rparr>\<rparr>) = Some (ATA_FSM_RC_OKAY, True, c3)"
    using gp c3 by (simp add: fsm_all_done_def Let_def)
  have fin: "fsm_fini env (ac_state (ccc_hba c)) (c\<lparr>ccc_hba := s2\<lparr>ac_state := AS_IDLE\<rparr>\<rparr>) = Some (ATA_FSM_RC_OKAY, True, c3)"
    unfolding fsm_fini_def using F(3,4) noarq ad by (simp add: Let_def)
  have step2: "ata_ctlr_fsm env ATA_FSM_FINI None (c\<lparr>ccc_hba := s2\<rparr>) = Some (ATA_FSM_RC_OKAY, True, c3)"
    using table_active [of "ac_state s2"] F na fin by (simp add: ata_ctlr_fsm_def Let_def)
  have "reset_bus_loop env (Suc (Suc n)) ATA_FSM_RESET False False c = Some (Some (True, True), c3)" for n
    using step1 step2 by simp
  from this [of 998] have loop: "reset_bus_loop env ata_reset_bus_watchdog ATA_FSM_RESET False False c = Some (Some (True, True), c3)"
    by (simp add: ata_reset_bus_watchdog_def)
  have hb: "ccc_hba c3 = ?d" by (rule complete_hba [OF ghd_invD(1) [OF inv] gl c3])
  have dok: "ctl_ok env ?d" "ata_owned ?d = {}" by (rule disconnect_ok [OF base(1)]; simp add: base(2))+
  from reset_bus_tail [OF loop] hb dok obtain b h where t: "ata_reset_bus env c = Some (b, c3\<lparr>ccc_hba := h\<rparr>)"
      "dev_frame ArqPkt ?d h" "b" by auto
  from complete_ghd_spec [OF ghd_inv_hba [OF inv, of ?d] gl] c3 obtain e k where
    B: "ghd_inv c3 (wq_complete A g e k)" by auto
  have "ap_flags (ac_pkt h (PktOf g)) = ap_flags (ac_pkt s2 (PktOf g))"
    using log_only_frame_pkt [OF t(2), of g] by (simp add: disconnect_def)
  moreover have "ac_state h = AS_IDLE" "ac_active_pktp h = None" using t(2) by (simp_all add: dev_frame_def disconnect_def)
  moreover have "g \<notin> wq_live (wq_complete A g e k)" "wq_done (wq_complete A g e k) = wq_done A @ [g]"
    by (simp_all add: wq_complete_def wq_remove_def wq_promote_def)
  ultimately show ?thesis
    using t(1,3) ghd_inv_hba [OF B, of h]
    by (intro exI [of _ "c3\<lparr>ccc_hba := h\<rparr>"] exI [of _ "wq_complete A g e k"]) simp
qed

text \<open>The reset of the active command: it is flagged, and the software reset tells whether it is to be finished.\<close>

lemma fsm_reset_spec:
  "\<exists>b s'. fsm_reset dev ATA_FSM_RC_FINI s = Some (if b then ATA_FSM_RC_FINI else ATA_FSM_RC_BUSY, s') \<and>
     dev_frame ArqPkt s s' \<and> dev_frame p s s' \<and> (ac_drvp s 0 0 \<noteq> None \<longrightarrow> b)"
proof -
  obtain b t where t: "ata_software_reset dev s = Some (b, t)" using ret_software_reset [of p s dev] by (auto simp: ret_def)
  obtain r u where u: "fsm_reset dev ATA_FSM_RC_FINI s = Some (r, u)" "dev_frame ArqPkt s u"
    using ret_fsm_reset' [of ArqPkt s dev ATA_FSM_RC_FINI] by (auto simp: ret_def)
  have "dev_frame p s u" using ret_fsm_reset' [of p s dev ATA_FSM_RC_FINI] u(1) by (simp add: ret_def)
  moreover have "r = (if b then ATA_FSM_RC_FINI else ATA_FSM_RC_BUSY)" using u(1) t by (auto simp: fsm_reset_def split: bind_splits)
  moreover have "ac_drvp s 0 0 \<noteq> None \<longrightarrow> b" using software_reset_drive0 [of s dev] t by auto
  ultimately show ?thesis using u by blast
qed

text \<open>C6: a bus reset that finds a request active, not one for which request sense is wanted, always returns and flags
  the request as reset. When it reports success, as it does whenever there is a drive 0, the request has been ended, as the
  last on the done queue, and the controller left idle; otherwise, with a drive 1 alone that could not be selected after the
  reset, nothing was ended and the request is still the active one.\<close>

theorem bus_reset_completes_active:
  assumes "ghd_inv c A" "g \<in> wq_live A" "ctl_ok env (ccc_hba c)" "ac_active_pktp (ccc_hba c) = Some (PktOf g)"
    and "\<not> flag_set (ap_flags (ac_pkt (ccc_hba c) (PktOf g))) AP_ARQ_ON_ERROR"
  shows "\<exists>b c' B. ata_reset_bus env c = Some (b, c') \<and> ghd_inv c' B \<and> (ac_drvp (ccc_hba c) 0 0 \<noteq> None \<longrightarrow> b) \<and>
    flag_set (ap_flags (ac_pkt (ccc_hba c') (PktOf g))) AP_BUS_RESET \<and>
    (if b then g \<notin> wq_live B \<and> wq_done B = wq_done A @ [g] \<and>
       ac_state (ccc_hba c') = AS_IDLE \<and> ac_active_pktp (ccc_hba c') = None
     else B = A \<and> ac_active_pktp (ccc_hba c') = Some (PktOf g) \<and> ac_state (ccc_hba c') = ac_state (ccc_hba c))"
proof -
  let ?s = "ccc_hba c" and ?dev = "env_dev env"
  have na: "ac_state ?s \<noteq> AS_IDLE" using ctl_ok_idle(1) [OF assms(3)] assms(4) by simp
  obtain dr where dr: "ac_active_drvp ?s = Some dr" using ctl_ok_idle(2) [OF assms(3)] assms(4) by auto
  let ?h = "reset_halt ?dev (PktOf g) ?s"
  have fh: "dev_frame (PktOf g) ?s ?h" by (rule ret_reset_halt)
  have d0: "(ac_drvp ?h 0 0 = None) = (ac_drvp ?s 0 0 = None)" using fh by (simp add: dev_frame_def)
  obtain b s2 where s2: "fsm_reset ?dev ATA_FSM_RC_FINI ?h = Some (if b then ATA_FSM_RC_FINI else ATA_FSM_RC_BUSY, s2)"
      "dev_frame ArqPkt ?h s2" "dev_frame (PktOf g) ?h s2" and b: "ac_drvp ?s 0 0 \<noteq> None \<longrightarrow> b"
    using fsm_reset_spec [of ?dev ?h "PktOf g"] unfolding d0 by blast
  have F: "ctl_ok env s2" "ac_state s2 = ac_state ?s" "ac_active_pktp s2 = Some (PktOf g)" "ac_active_drvp s2 = Some dr"
    using ctl_ok_frame [OF assms(3) dev_frame_trans [OF fh s2(3)]] dev_frame_trans [OF fh s2(3)] assms(4) dr
    by (simp_all add: dev_frame_def)
  have fl: "ap_flags (ac_pkt s2 (PktOf g)) = ap_flags (ac_pkt ?s (PktOf g)) OR (AP_DEV_RESET OR AP_BUS_RESET)"
    using log_only_frame_pkt [OF s2(2), of g] reset_halt_flags(2) [of ?dev g ?s] by simp
  have step1: "ata_ctlr_fsm env ATA_FSM_RESET None c = Some (if b then ATA_FSM_RC_FINI else ATA_FSM_RC_BUSY, False, c\<lparr>ccc_hba := s2\<rparr>)"
    using table_active [OF na] assms(4) s2(1) by (simp add: ata_ctlr_fsm_def Let_def plain_def on_hba_def)
  show ?thesis
  proof (cases b)
    case False
    have "reset_bus_loop env (Suc n) ATA_FSM_RESET False False c = Some (None, c\<lparr>ccc_hba := s2\<rparr>)" for n
      using step1 False by simp
    from this [of 999] have loop: "reset_bus_loop env ata_reset_bus_watchdog ATA_FSM_RESET False False c = Some (None, c\<lparr>ccc_hba := s2\<rparr>)"
      by (simp add: ata_reset_bus_watchdog_def)
    have r: "ata_reset_bus env c = Some (False, c\<lparr>ccc_hba := s2\<rparr>)" unfolding ata_reset_bus_def loop by simp
    have "flag_set (ap_flags (ac_pkt s2 (PktOf g))) AP_BUS_RESET" unfolding fl by (simp, simp add: flag_set_def AP_BUS_RESET_def)
    with r F b False ghd_inv_hba [OF assms(1), of s2] show ?thesis
      by (intro exI [of _ False] exI [of _ "c\<lparr>ccc_hba := s2\<rparr>"] exI [of _ A]) simp
  next
    case True
    have noarq: "ap_flags (ac_pkt s2 (PktOf g)) AND AP_ARQ_NEEDED \<noteq> AP_ARQ_NEEDED"
      by (rule arq_needs_flag) (use assms(5) in \<open>simp add: fl\<close>, simp add: flag_set_def ap_flag_defs)
    from reset_finishes [OF assms(1-3) na F noarq step1 [unfolded if_P [OF True]]] obtain c' B where c':
      "ata_reset_bus env c = Some (True, c')" "ghd_inv c' B" "g \<notin> wq_live B" "wq_done B = wq_done A @ [g]"
      "ac_state (ccc_hba c') = AS_IDLE" "ac_active_pktp (ccc_hba c') = None"
      "ap_flags (ac_pkt (ccc_hba c') (PktOf g)) = ap_flags (ac_pkt s2 (PktOf g))" by blast
    have "flag_set (ap_flags (ac_pkt (ccc_hba c') (PktOf g))) AP_BUS_RESET"
      unfolding c'(7) fl by (simp, simp add: flag_set_def AP_BUS_RESET_def)
    with c' show ?thesis by (intro exI [of _ True] exI [of _ c'] exI [of _ B]) simp
  qed
qed

text \<open>The driver's timeout function refuses every action between an early abort and the bus reset, so the escalation of
  \<open>timer_newstate_frozen_reset\<close> is that of this driver.\<close>

lemma ata_refuses: "refuses (ata_timeout_func env) gcmdp d t"
  by (auto simp: refuses_def ata_timeout_func_def)

subsection \<open>A concrete system\<close>

text \<open>One LBA drive at target 0; every command is for it. The devices always read ready.\<close>

definition env0 :: ata_env where
  "env0 = \<lparr>env_dev = const_dev 0x50 0, env_drv = \<lambda>g. (0, 0), env_arq_header = 8\<rparr>"

definition up0 :: ata_upper where
  "up0 = \<lparr>up_cmpkt = \<lambda>g. cmpkt0, up_atapi_complete = \<lambda>d k. k\<rparr>"

definition ctl_sys :: ata_ctl where
  "ctl_sys = ctl0\<lparr>ac_drvp := \<lambda>t l. if t = 0 \<and> l = 0 then Some (disk0 0xe0) else None,
     ac_pkt := \<lambda>p. case p of PktOf g \<Rightarrow> pkt0\<lparr>ap_gcmdp := Some g\<rparr> | ArqPkt \<Rightarrow> pkt0\<lparr>ap_start := Start_atapi_fsm_start\<rparr>\<rparr>"

lemma up0_ok: "upper_ok up0"
  by (simp add: upper_ok_def up0_def)

lemma ctl_sys_ok: "ctl_ok env0 ctl_sys" "ac_state ctl_sys = AS_IDLE"
  by (simp_all add: ctl_ok_def ctl_base_def ctl_link_def ctl_sys_def ctl0_def pkt0_def env0_def has_drv_def drv_def
      chs_ok_def disk0_def drv0_def ATDH_LBA_def)

lemma sys_idle: "ata_reachable env0 up0 (ghd_zalloc ctl_sys)"
  by (rule ata_reachable.Attach) (use ctl_sys_ok in \<open>simp_all add: ghd_zalloc_initial\<close>, simp_all add: ghd_zalloc_def)

lemma hz0: "hz_ok kenv0"
  by (simp add: hz_ok_def ghd_HZ_def kenv0_def)

lemma sys_submitted:
  "\<exists>c. ata_reachable env0 up0 c \<and> cmd_state (ccc_gcmd c 0) = GCMD_STATE_WAITQ \<and> ccc_hba c = ctl_sys"
proof -
  let ?c = "ghd_zalloc ctl_sys"
  have g: "cmd_state (ccc_gcmd ?c 0) = GCMD_STATE_IDLE" "cmd_gdev (ccc_gcmd ?c 0) = 0" by (simp_all add: ghd_zalloc_def)
  from transport_enqueue_spec [OF initial_inv [OF ghd_zalloc_initial] g, of kenv0 30] obtain c' n where
    c': "transport_enqueue kenv0 ?c 0 0 30 = Some c'" "cmd_state (ccc_gcmd c' 0) = GCMD_STATE_WAITQ" "ccc_hba c' = ccc_hba ?c"
    by blast
  have "sol11ghd_transport (ata_hba_start env0) kenv0 False ?c 0 (cmd_gdev (ccc_gcmd ?c 0)) 30 = Some c'"
    using c'(1) g(2) by (simp add: sol11ghd_transport_def)
  from ata_reachable.Step [OF sys_idle ata_step.Transport [OF g(1) this]] c'(2,3) show ?thesis
    by (auto simp: ghd_zalloc_def)
qed

theorem ata_system_safe_witness:
  "\<exists>c A. ata_reachable env0 up0 c \<and> cmd_state (ccc_gcmd c 0) = GCMD_STATE_WAITQ \<and> ghd_inv c A \<and>
     ac_state (ccc_hba c) = AS_IDLE \<and> ac_fault_pktp (ccc_hba c) = None"
proof -
  obtain c where c: "ata_reachable env0 up0 c" "cmd_state (ccc_gcmd c 0) = GCMD_STATE_WAITQ" "ccc_hba c = ctl_sys"
    using sys_submitted by blast
  moreover have "ac_active_pktp ctl_sys = None" by (simp add: ctl_sys_def ctl0_def)
  ultimately show ?thesis using ata_system_safe [OF c(1) up0_ok] by auto
qed

theorem ata_entries_return_witness:
  "\<exists>c. cmd_state (ccc_gcmd c 0) = GCMD_STATE_WAITQ \<and> ata_process_intr env0 c \<noteq> None \<and> ata_reset_bus env0 c \<noteq> None"
proof -
  obtain c where c: "ata_reachable env0 up0 c" "cmd_state (ccc_gcmd c 0) = GCMD_STATE_WAITQ"
    using sys_submitted by blast
  with ata_entries_return [OF c(1) up0_ok hz0] show ?thesis by blast
qed

text \<open>An interrupt before any request is not claimed.\<close>

lemma sys_no_intr:
  "sol11ghd_intr (ata_get_status (env_dev env0)) (ata_process_intr env0) (ata_hba_start env0) kenv0 (Some True)
     (ghd_zalloc ctl_sys) = Some (False, ghd_zalloc ctl_sys)"
proof -
  let ?c = "ghd_zalloc ctl_sys"
  have hb: "ccc_hba ?c = ctl_sys" "?c\<lparr>ccc_hba := ctl_sys\<rparr> = ?c" by (simp_all add: ghd_zalloc_def)
  have st: "ata_get_status (env_dev env0) (Some True) ctl_sys = (False, Some True, ctl_sys)"
    using ctl_sys_ok(2) by (simp add: ata_get_status_def)
  have "intr_status_loop (ata_get_status (env_dev env0)) (ata_process_intr env0) (Some True) False ?c = Some (False, Some True, ?c)"
    by (subst intr_status_loop.simps) (simp add: hb st)
  moreover have "L2_EMPTY (ccc_l2 ?c) HbaQ"
    using wq_hba_empty [OF ghd_invD(1) [OF initial_inv [OF ghd_zalloc_initial]], of ctl_sys] by (simp add: wq_empty_def)
  then have "sol11ghd_waitq_process_and_mutex_hold (ata_hba_start env0) kenv0 ?c = Some (False, ?c)"
    unfolding sol11ghd_waitq_process_and_mutex_hold_def by (subst sol11ghd_waitq_process_loop.simps) simp
  ultimately show ?thesis
    unfolding sol11ghd_intr_def by (subst ghd_intr_loop.simps) simp
qed

theorem ata_interrupt_witness:
  "\<exists>A B gs. ghd_inv (ghd_zalloc ctl_sys) A \<and> ghd_inv (ghd_zalloc ctl_sys) B \<and> wq_done B = wq_done A @ gs \<and>
     set gs = wq_live A - wq_live B"
  using ata_interrupt_completes_once [OF sys_idle up0_ok sys_no_intr] by blast

text \<open>A request that is active when the bus is reset.\<close>

definition ctl_busy :: ata_ctl where
  "ctl_busy = ctl_sys\<lparr>ac_active_pktp := Some (PktOf 0), ac_active_drvp := Some (0, 0), ac_state := AS_ACTIVE0\<rparr>"

lemma ctl_busy_ok: "ctl_ok env0 ctl_busy"
  using ctl_sys_ok(1) ctl_base_cong [of env0 ctl_sys ctl_busy]
  by (simp add: ctl_ok_def ctl_busy_def ctl_link_def) (simp add: ctl_sys_def has_drv_def ctl0_def)

theorem bus_reset_completes_witness:
  "\<exists>c'. ata_reset_bus env0 (transport_add kenv0 (ghd_zalloc ctl_busy) 0 0 30) = Some (True, c') \<and>
     ac_state (ccc_hba c') = AS_IDLE \<and> flag_set (ap_flags (ac_pkt (ccc_hba c') (PktOf 0))) AP_BUS_RESET"
proof -
  let ?c = "transport_add kenv0 (ghd_zalloc ctl_busy) 0 0 30"
  have i: "ghd_inv ?c (wq_submit wq_empty 0 0)"
    by (rule submit_inv [OF initial_inv [OF ghd_zalloc_initial]]) (simp_all add: ghd_zalloc_def)
  have h: "ccc_hba ?c = ctl_busy" by (simp add: transport_add_frame) (simp add: ghd_zalloc_def)
  have l: "0 \<in> wq_live (wq_submit wq_empty 0 0)" by (simp add: wq_submit_frame)
  have a: "ac_active_pktp ctl_busy = Some (PktOf 0)" "ac_drvp ctl_busy 0 0 \<noteq> None"
      "\<not> flag_set (ap_flags (ac_pkt ctl_busy (PktOf 0))) AP_ARQ_ON_ERROR"
    by (simp_all add: ctl_busy_def ctl_sys_def ctl0_def pkt0_def flag_set_def)
  from bus_reset_completes_active [OF i l, of env0, unfolded h, OF ctl_busy_ok a(1,3)] a(2) show ?thesis
    by fastforce
qed

text \<open>A media command is done when its start routine returns; here it is polled for.\<close>

declare sol11ata_wait.simps [code] ata_wait3.simps [code] sol11ghd_waitq_process_loop.simps [code]
  sol11ghd_waitq_shuffle_up.simps [code] poll_drain.simps [code] poll_put_back.simps [code] ghd_poll_loop.simps [code]
  L1_delete_loop.simps [code] sol11ghd_timer_poll.simps [code] ghd_timeout_get_from.simps [code] newstate_scan.simps [code]

definition ctl_media :: ata_ctl where
  "ctl_media = ctl_sys\<lparr>ac_pkt := \<lambda>p. case p of PktOf g \<Rightarrow> pkt0\<lparr>ap_gcmdp := Some g, ap_start := Start_ata_disk_unlock\<rparr>
     | ArqPkt \<Rightarrow> pkt0\<lparr>ap_start := Start_atapi_fsm_start\<rparr>\<rparr>"

lemma media_idle: "ata_reachable env0 up0 (ghd_zalloc ctl_media)"
  by (rule ata_reachable.Attach)
    (simp_all add: ghd_zalloc_initial, simp_all add: ghd_zalloc_def ctl_ok_def ctl_base_def ctl_link_def
      ctl_media_def ctl_sys_def ctl0_def pkt0_def env0_def has_drv_def drv_def chs_ok_def disk0_def drv0_def ATDH_LBA_def)

lemma polled_media:
  "transport_polled (ata_get_status (env_dev env0)) (ata_process_intr env0) (ata_hba_start env0) (ata_timeout_func env0)
     (ata_hba_complete env0 up0) kenv0 (\<lambda>n. kenv0) kenv0 0 0 30 None (ghd_zalloc ctl_media) \<noteq> None"
  by code_simp

theorem ata_polled_request_done_witness:
  "\<exists>c' B. transport_polled (ata_get_status (env_dev env0)) (ata_process_intr env0) (ata_hba_start env0) (ata_timeout_func env0)
     (ata_hba_complete env0 up0) kenv0 (\<lambda>n. kenv0) kenv0 0 0 30 None (ghd_zalloc ctl_media) = Some c' \<and>
     ghd_inv c' B \<and> 0 \<notin> wq_live B"
proof -
  let ?c = "ghd_zalloc ctl_media"
  obtain c' where c': "transport_polled (ata_get_status (env_dev env0)) (ata_process_intr env0) (ata_hba_start env0)
      (ata_timeout_func env0) (ata_hba_complete env0 up0) kenv0 (\<lambda>n. kenv0) kenv0 0 0 30 None ?c = Some c'"
    using polled_media by auto
  have g: "cmd_state (ccc_gcmd ?c 0) = GCMD_STATE_IDLE" "cmd_gdev (ccc_gcmd ?c 0) = 0" by (simp_all add: ghd_zalloc_def)
  have p: "transport_polled (ata_get_status (env_dev env0)) (ata_process_intr env0) (ata_hba_start env0)
      (ata_timeout_func env0) (ata_hba_complete env0 up0) kenv0 (\<lambda>n. kenv0) kenv0 0 (cmd_gdev (ccc_gcmd ?c 0)) 30 None ?c = Some c'"
    unfolding g(2) by (rule c')
  obtain B where "ghd_inv c' B" "0 \<notin> wq_live B"
    using ata_polled_request_done [OF media_idle up0_ok hz0 g(1) p] by blast
  with c' show ?thesis
    by auto
qed

text \<open>A read that the drive has accepted; its interrupt finds the drive in error and ends it.\<close>

definition ctl_read :: ata_ctl where
  "ctl_read = ctl_sys\<lparr>ac_pkt := \<lambda>p. case p of
       PktOf g \<Rightarrow> pkt0\<lparr>ap_gcmdp := Some g, ap_start := Start_ata_disk_start, ap_intr := Intr_ata_disk_intr\<rparr>
     | ArqPkt \<Rightarrow> pkt0\<lparr>ap_start := Start_atapi_fsm_start\<rparr>\<rparr>"

lemma read_idle: "ata_reachable env0 up0 (ghd_zalloc ctl_read)"
  by (rule ata_reachable.Attach)
    (simp_all add: ghd_zalloc_initial, simp_all add: ghd_zalloc_def ctl_ok_def ctl_base_def ctl_link_def
      ctl_read_def ctl_sys_def ctl0_def pkt0_def env0_def has_drv_def drv_def chs_ok_def disk0_def drv0_def ATDH_LBA_def)

definition read_started :: "actl option" where
  "read_started = sol11ghd_transport (ata_hba_start env0) kenv0 True (ghd_zalloc ctl_read) 0 0 30"

lemma read_runs:
  "(case read_started of None \<Rightarrow> False
    | Some c \<Rightarrow> ac_active_pktp (ccc_hba c) = Some (PktOf 0) \<and> ac_active_drvp (ccc_hba c) = Some (0, 0) \<and>
       (case call_intr (env_dev env0) (0, 0) (PktOf 0) (ccc_hba c) of None \<Rightarrow> False
        | Some (rc, s) \<Rightarrow> rc = ATA_FSM_RC_FINI \<and> ap_flags (ac_pkt s (PktOf 0)) AND AP_ARQ_NEEDED \<noteq> AP_ARQ_NEEDED) \<and>
       ata_process_intr env0 c \<noteq> None)"
  by code_simp

theorem ata_process_intr_refines_witness:
  "\<exists>c c' s. ata_reachable env0 up0 c \<and> ac_active_pktp (ccc_hba c) = Some (PktOf 0) \<and> ata_process_intr env0 c = Some c' \<and>
     GHD_COMPLETE (c\<lparr>ccc_hba := disconnect (s\<lparr>ac_state := AS_IDLE\<rparr>)\<rparr>) 0 = Some c' \<and>
     ghd_step (ata_hba_start env0) (ctl_ok env0) ata_owned c c'"
proof -
  obtain c rc s c' where c: "read_started = Some c" "ac_active_pktp (ccc_hba c) = Some (PktOf 0)"
      "ac_active_drvp (ccc_hba c) = Some (0, 0)" "call_intr (env_dev env0) (0, 0) (PktOf 0) (ccc_hba c) = Some (rc, s)"
      "rc = ATA_FSM_RC_FINI" "ap_flags (ac_pkt s (PktOf 0)) AND AP_ARQ_NEEDED \<noteq> AP_ARQ_NEEDED"
      "ata_process_intr env0 c = Some c'"
    using read_runs by (auto split: option.splits)
  let ?z = "ghd_zalloc ctl_read"
  have g: "cmd_state (ccc_gcmd ?z 0) = GCMD_STATE_IDLE" "cmd_gdev (ccc_gcmd ?z 0) = 0" by (simp_all add: ghd_zalloc_def)
  have "sol11ghd_transport (ata_hba_start env0) kenv0 True ?z 0 (cmd_gdev (ccc_gcmd ?z 0)) 30 = Some c"
    using c(1) by (simp add: read_started_def g(2))
  from ata_reachable.Step [OF read_idle ata_step.Transport [OF g(1) this]] have r: "ata_reachable env0 up0 c" .
  note R = ata_process_intr_refines [OF r up0_ok c(7)]
  from R have "GHD_COMPLETE (c\<lparr>ccc_hba := disconnect (s\<lparr>ac_state := AS_IDLE\<rparr>)\<rparr>) 0 = Some c'"
    using c(2-6) by simp
  with R r c(2,7) show ?thesis by (intro exI [of _ c] exI [of _ c'] exI [of _ s] conjI) simp_all
qed

end
