(* ===== verification/Ghd_Dma.thy ===== *)
theory Ghd_Dma
  imports Ata_Dma
begin

text \<open>
  The DMA resource helper of GHD (\<open>ghd_dma.c\<close>). A bound buffer is a sequence of windows, each a
  sequence of cookies; \<open>ghd_dmaget_attr\<close> hands the next run of cookies, one
  by one, to the driver's scatter/gather function and remembers where it stopped.

  The kernel's DMA functions are arguments: a record of the two calls the loop makes, on a
  handle of any type. What the code relies on is \<open>dma_handle_ok\<close>.
\<close>

record 'h ddi_dma_ops =
  ddi_dma_getwin :: "'h \<Rightarrow> nat \<Rightarrow> (cookie_t \<times> nat \<times> 'h) option"  \<comment> \<open>first cookie, number of cookies\<close>
  ddi_dma_nextcookie :: "'h \<Rightarrow> cookie_t \<times> 'h"

record 'h gdma_t =
  cmd_dma_handle :: "'h option"
  cmd_wcount :: nat
  cmd_windex :: nat
  cmd_ccount :: nat
  cmd_cindex :: nat
  cmd_totxfer :: u64
  cmd_first_cookie :: cookie_t
  use_first :: bool

text \<open>The result of \<open>ddi_dma_buf_bind_handle\<close>: a handle, the first cookie, the number of cookies of the
  first window, and the number of windows for a partial mapping (\<open>ddi_dma_numwin\<close>, which may fail).\<close>

datatype 'h bind_result =
    DDI_DMA_MAPPED 'h cookie_t nat
  | DDI_DMA_PARTIAL_MAP 'h cookie_t nat "nat option"
  | DDI_DMA_NORESOURCES
  | DDI_DMA_TOOBIG
  | DDI_DMA_NOMAPPING

datatype b_error = EINVAL | EFAULT

text \<open>The outcome, the command's DMA fields, and the buffer's error, if it is set. The failing cases free the
  handle; the fields a failed binding leaves behind are not read again.\<close>

definition bind_init :: "'h \<Rightarrow> cookie_t \<Rightarrow> nat \<Rightarrow> nat \<Rightarrow> 'h gdma_t \<Rightarrow> 'h gdma_t" where
  "bind_init h ck n wcount m = m\<lparr>cmd_dma_handle := Some h, cmd_first_cookie := ck, cmd_ccount := n,
     cmd_wcount := wcount, cmd_windex := 0, cmd_cindex := 0, cmd_totxfer := 0, use_first := True\<rparr>"

definition ghd_dma_buf_bind_attr ::
  "bool \<Rightarrow> 'h bind_result \<Rightarrow> 'h gdma_t \<Rightarrow> bool \<times> 'h gdma_t \<times> b_error option" where
  "ghd_dma_buf_bind_attr alloc_ok bound m =
    (if \<not> alloc_ok then (False, m, None)
     else (case bound of
         DDI_DMA_MAPPED h ck n \<Rightarrow> (True, bind_init h ck n 1 m, None)
       | DDI_DMA_PARTIAL_MAP h ck n (Some w) \<Rightarrow> (True, bind_init h ck n w m, None)
       | DDI_DMA_PARTIAL_MAP h ck n None \<Rightarrow> (False, m\<lparr>cmd_dma_handle := None\<rparr>, None)
       | DDI_DMA_NORESOURCES \<Rightarrow> (False, m\<lparr>cmd_dma_handle := None\<rparr>, None)
       | DDI_DMA_TOOBIG \<Rightarrow> (False, m\<lparr>cmd_dma_handle := None\<rparr>, Some EINVAL)
       | DDI_DMA_NOMAPPING \<Rightarrow> (False, m\<lparr>cmd_dma_handle := None\<rparr>, Some EFAULT)))"

definition ghd_dmafree_attr :: "'h gdma_t \<Rightarrow> 'h gdma_t" where
  "ghd_dmafree_attr m =
    (case cmd_dma_handle m of
       None \<Rightarrow> m
     | Some h \<Rightarrow> m\<lparr>cmd_dma_handle := None, cmd_ccount := 0, cmd_totxfer := 0\<rparr>)"

text \<open>The scatter/gather function of the driver acts on a state of its own: cookie, single segment,
  index. The loop ends with the window at the latest.\<close>

type_synonym 's sg_fun = "cookie_t \<Rightarrow> bool \<Rightarrow> nat \<Rightarrow> 's \<Rightarrow> 's"

function dma_sg_loop ::
  "'h ddi_dma_ops \<Rightarrow> 's sg_fun \<Rightarrow> u64 \<Rightarrow> nat \<Rightarrow> bool \<Rightarrow> u64 \<Rightarrow> nat \<Rightarrow> cookie_t \<Rightarrow> 'h \<Rightarrow> 'h gdma_t \<Rightarrow> 's \<Rightarrow>
     u64 \<times> 'h gdma_t \<times> 's" where
  "dma_sg_loop ops sg max_transfer_cnt sg_size single_seg toxfer num_segs cookie h m s =
    (let s = sg cookie single_seg num_segs s;
         toxfer = toxfer + dmac_size cookie;
         num_segs = num_segs + 1;
         m = m\<lparr>cmd_cindex := cmd_cindex m + 1, cmd_dma_handle := Some h\<rparr>
     in if cmd_cindex m \<ge> cmd_ccount m
        then (toxfer, m\<lparr>cmd_windex := cmd_windex m + 1, cmd_cindex := 0\<rparr>, s)
        else if toxfer \<ge> max_transfer_cnt then (toxfer, m, s)
        else if num_segs \<ge> sg_size then (toxfer, m, s)
        else (let (cookie, h) = ddi_dma_nextcookie ops h
              in dma_sg_loop ops sg max_transfer_cnt sg_size single_seg toxfer num_segs cookie h m s))"
  by pat_completeness auto
termination
  by (relation "measure (\<lambda>(_, _, _, _, _, _, _, _, _, m, _). cmd_ccount m - cmd_cindex m)") auto

declare dma_sg_loop.simps [simp del]

definition ghd_dmaget_next_attr ::
  "'h ddi_dma_ops \<Rightarrow> 's sg_fun \<Rightarrow> u64 \<Rightarrow> nat \<Rightarrow> cookie_t \<Rightarrow> 'h \<Rightarrow> 'h gdma_t \<Rightarrow> 's \<Rightarrow> u32 \<times> 'h gdma_t \<times> 's" where
  "ghd_dmaget_next_attr ops sg max_transfer_cnt sg_size cookie h m s =
    (let single_seg = \<not> (cmd_cindex m + 1 < cmd_ccount m);
         (toxfer, m, s) = dma_sg_loop ops sg max_transfer_cnt sg_size single_seg 0 0 cookie h m s
     in (ucast toxfer, m\<lparr>cmd_totxfer := cmd_totxfer m + toxfer\<rparr>, s))"

text \<open>\<open>None\<close> is the return value FALSE.\<close>

definition ghd_dmaget_attr ::
  "'h ddi_dma_ops \<Rightarrow> 's sg_fun \<Rightarrow> u64 \<Rightarrow> nat \<Rightarrow> 'h \<Rightarrow> 'h gdma_t \<Rightarrow> 's \<Rightarrow> (u32 \<times> 'h gdma_t \<times> 's) option" where
  "ghd_dmaget_attr ops sg count sg_size h m s =
    (if use_first m
     then Some (ghd_dmaget_next_attr ops sg count sg_size (cmd_first_cookie m) h (m\<lparr>use_first := False\<rparr>) s)
     else if cmd_windex m \<ge> cmd_wcount m then None
     else if cmd_cindex m = 0
     then (case ddi_dma_getwin ops h (cmd_windex m) of
         None \<Rightarrow> None
       | Some (cookie, n, h) \<Rightarrow>
           Some (ghd_dmaget_next_attr ops sg count sg_size cookie h (m\<lparr>cmd_ccount := n\<rparr>) s))
     else (let (cookie, h) = ddi_dma_nextcookie ops h
           in Some (ghd_dmaget_next_attr ops sg count sg_size cookie h m s)))"

subsection \<open>What the kernel promises, and where the walk stands\<close>

text \<open>A handle has windows of cookies, none of them empty, and a current cookie (window, index);
  \<open>ddi_dma_getwin\<close> moves to the first cookie of a window, \<open>ddi_dma_nextcookie\<close> to the
  next of the current window.\<close>

definition dma_handle_ok :: "'h ddi_dma_ops \<Rightarrow> cookie_t list list \<Rightarrow> ('h \<Rightarrow> (nat \<times> nat) option) \<Rightarrow> bool" where
  "dma_handle_ok ops wins pos \<longleftrightarrow> [] \<notin> set wins \<and>
     (\<forall>h w. w < length wins \<longrightarrow> (\<exists>h'. ddi_dma_getwin ops h w = Some (wins ! w ! 0, length (wins ! w), h') \<and> pos h' = Some (w, 0))) \<and>
     (\<forall>h w i. pos h = Some (w, i) \<and> w < length wins \<and> Suc i < length (wins ! w) \<longrightarrow>
        (\<exists>h'. ddi_dma_nextcookie ops h = (wins ! w ! Suc i, h') \<and> pos h' = Some (w, Suc i)))"

lemma dma_nextcookie:
  "dma_handle_ok ops wins pos \<Longrightarrow> pos h = Some (w, i) \<Longrightarrow> w < length wins \<Longrightarrow> Suc i < length (wins ! w) \<Longrightarrow>
   \<exists>h'. ddi_dma_nextcookie ops h = (wins ! w ! Suc i, h') \<and> pos h' = Some (w, Suc i)"
  unfolding dma_handle_ok_def by blast

lemma dma_getwin:
  "dma_handle_ok ops wins pos \<Longrightarrow> w < length wins \<Longrightarrow>
   \<exists>h'. ddi_dma_getwin ops h w = Some (wins ! w ! 0, length (wins ! w), h') \<and> pos h' = Some (w, 0)"
  unfolding dma_handle_ok_def by blast

lemma dma_window_nonempty: "dma_handle_ok ops wins pos \<Longrightarrow> w < length wins \<Longrightarrow> 0 < length (wins ! w)"
  unfolding dma_handle_ok_def by (metis length_greater_0_conv nth_mem)

text \<open>The cookies not yet handed out.\<close>

definition dma_rest :: "cookie_t list list \<Rightarrow> 'h gdma_t \<Rightarrow> cookie_t list" where
  "dma_rest wins m = drop (cmd_cindex m) (concat (drop (cmd_windex m) wins))"

text \<open>The state between two calls.\<close>

definition dma_between :: "cookie_t list list \<Rightarrow> ('h \<Rightarrow> (nat \<times> nat) option) \<Rightarrow> 'h \<Rightarrow> 'h gdma_t \<Rightarrow> bool" where
  "dma_between wins pos h m \<longleftrightarrow> cmd_wcount m = length wins \<and> cmd_windex m \<le> length wins \<and>
     (use_first m \<longrightarrow> wins \<noteq> [] \<and> cmd_windex m = 0 \<and> cmd_cindex m = 0 \<and> cmd_first_cookie m = wins ! 0 ! 0 \<and>
        cmd_ccount m = length (wins ! 0) \<and> pos h = Some (0, 0)) \<and>
     (cmd_cindex m \<noteq> 0 \<longrightarrow> cmd_windex m < length wins \<and> cmd_cindex m < length (wins ! cmd_windex m) \<and>
        cmd_ccount m = length (wins ! cmd_windex m) \<and> pos h = Some (cmd_windex m, cmd_cindex m - 1))"

lemma drop_window:
  assumes "w < length wins" "i < length (wins ! w)"
  shows "drop i (concat (drop w wins)) = wins ! w ! i # drop (Suc i) (wins ! w) @ concat (drop (Suc w) wins)"
  using assms by (simp add: Cons_nth_drop_Suc [symmetric])


text \<open>The scatter/gather calls of a run of cookies.\<close>

definition sg_calls :: "'s sg_fun \<Rightarrow> bool \<Rightarrow> nat \<Rightarrow> cookie_t list \<Rightarrow> 's \<Rightarrow> 's" where
  "sg_calls sg single n cks s = fold (\<lambda>(i, ck). sg ck single i) (zip [n..<n + length cks] cks) s"

lemma sg_calls_Cons: "sg_calls sg single n (ck # cks) s = sg_calls sg single (Suc n) cks (sg ck single n s)"
  by (simp add: sg_calls_def upt_conv_Cons del: upt_Suc)

lemma sg_loop_spec:
  assumes ops: "dma_handle_ok ops wins pos" and w: "w < length wins"
  shows "cmd_windex m = w \<Longrightarrow> cmd_cindex m = i \<Longrightarrow> i < length (wins ! w) \<Longrightarrow> cmd_ccount m = length (wins ! w) \<Longrightarrow>
     cmd_wcount m = length wins \<Longrightarrow> \<not> use_first m \<Longrightarrow> pos h = Some (w, i) \<Longrightarrow>
     \<exists>k m' h'. 0 < k \<and> k \<le> length (wins ! w) - i \<and> n + k \<le> max sg_size (n + 1) \<and>
       (k < length (wins ! w) - i \<longrightarrow>
          mx \<le> t + sum_list (map dmac_size (take k (drop i (wins ! w)))) \<or> sg_size \<le> n + k) \<and>
       dma_sg_loop ops sg mx sg_size single t n (wins ! w ! i) h m s =
         (t + sum_list (map dmac_size (take k (drop i (wins ! w)))), m',
          sg_calls sg single n (take k (drop i (wins ! w))) s) \<and>
       cmd_dma_handle m' = Some h' \<and> dma_between wins pos h' m' \<and> dma_rest wins m' = drop k (dma_rest wins m) \<and>
       cmd_totxfer m' = cmd_totxfer m"
proof (induction "length (wins ! w) - i" arbitrary: i m h t n s rule: less_induct)
  case less
  let ?ck = "wins ! w ! i"
  let ?m1 = "m\<lparr>cmd_cindex := i + 1, cmd_dma_handle := Some h\<rparr>"
  let ?t1 = "t + dmac_size ?ck" and ?s1 = "sg ?ck single n s"
  have unf: "dma_sg_loop ops sg mx sg_size single t n ?ck h m s =
     (if i + 1 \<ge> length (wins ! w)
      then (?t1, ?m1\<lparr>cmd_windex := w + 1, cmd_cindex := 0\<rparr>, ?s1)
      else if ?t1 \<ge> mx then (?t1, ?m1, ?s1)
      else if n + 1 \<ge> sg_size then (?t1, ?m1, ?s1)
      else (let (ck, h) = ddi_dma_nextcookie ops h
            in dma_sg_loop ops sg mx sg_size single ?t1 (n + 1) ck h ?m1 ?s1))"
    using less.prems by (subst dma_sg_loop.simps) (simp add: Let_def)
  have one: "take 1 (drop i (wins ! w)) = [?ck]" using less.prems(3) by (simp add: Cons_nth_drop_Suc [symmetric])
  have rest: "dma_rest wins m = ?ck # drop (Suc i) (wins ! w) @ concat (drop (Suc w) wins)"
    unfolding dma_rest_def less.prems(1,2) by (rule drop_window [OF w less.prems(3)])
  have c1: "sg_calls sg single n [?ck] s = ?s1" by (simp add: sg_calls_def)
  have stop: ?case if "i + 1 < length (wins ! w)" "?t1 \<ge> mx \<or> n + 1 \<ge> sg_size"
  proof -
    have "dma_between wins pos h ?m1" using less.prems w that(1) by (simp add: dma_between_def)
    moreover have "dma_rest wins ?m1 = drop 1 (dma_rest wins m)"
      using rest less.prems(1) drop_window [OF w that(1)] that(1) unfolding dma_rest_def
      by (simp add: Cons_nth_drop_Suc [symmetric])
    ultimately show ?thesis
      using unf that one c1 by (intro exI [of _ 1] exI [of _ ?m1] exI [of _ h]) (auto simp: less.prems(3))
  qed
  consider "length (wins ! w) \<le> i + 1" | "i + 1 < length (wins ! w)" "?t1 \<ge> mx \<or> n + 1 \<ge> sg_size"
    | "i + 1 < length (wins ! w)" "\<not> ?t1 \<ge> mx" "\<not> n + 1 \<ge> sg_size" by linarith
  then show ?case
  proof cases
    case 1
    let ?m2 = "?m1\<lparr>cmd_windex := w + 1, cmd_cindex := 0\<rparr>"
    have "dma_between wins pos h ?m2" using less.prems w by (simp add: dma_between_def)
    moreover have "dma_rest wins ?m2 = drop 1 (dma_rest wins m)" using rest 1 by (simp add: dma_rest_def)
    ultimately show ?thesis
      using unf 1 one c1 less.prems(3) by (intro exI [of _ 1] exI [of _ ?m2] exI [of _ h]) auto
  next
    case 2
    then show ?thesis by (rule stop)
  next
    case 3
    obtain h1 where h1: "ddi_dma_nextcookie ops h = (wins ! w ! Suc i, h1)" "pos h1 = Some (w, Suc i)"
      using dma_nextcookie [OF ops less.prems(7) w] 3(1) by auto
    have go: "dma_sg_loop ops sg mx sg_size single t n ?ck h m s =
        dma_sg_loop ops sg mx sg_size single ?t1 (n + 1) (wins ! w ! Suc i) h1 ?m1 ?s1"
      using unf 3 h1(1) by simp
    have r1: "dma_rest wins ?m1 = drop 1 (dma_rest wins m)"
      using rest less.prems(1) drop_window [OF w 3(1)] 3(1) unfolding dma_rest_def
      by (simp add: Cons_nth_drop_Suc [symmetric])
    have lt: "length (wins ! w) - Suc i < length (wins ! w) - i" using 3(1) by simp
    have p: "cmd_windex ?m1 = w" "cmd_cindex ?m1 = Suc i" "Suc i < length (wins ! w)" "cmd_ccount ?m1 = length (wins ! w)"
      "cmd_wcount ?m1 = length wins" "\<not> use_first ?m1" "pos h1 = Some (w, Suc i)"
      using less.prems 3(1) h1(2) by simp_all
    obtain k m' h' where ih: "0 < k" "k \<le> length (wins ! w) - Suc i" "n + 1 + k \<le> max sg_size (n + 1 + 1)"
        "k < length (wins ! w) - Suc i \<longrightarrow>
           mx \<le> ?t1 + sum_list (map dmac_size (take k (drop (Suc i) (wins ! w)))) \<or> sg_size \<le> n + 1 + k"
        "dma_sg_loop ops sg mx sg_size single ?t1 (n + 1) (wins ! w ! Suc i) h1 ?m1 ?s1 =
          (?t1 + sum_list (map dmac_size (take k (drop (Suc i) (wins ! w)))), m',
           sg_calls sg single (n + 1) (take k (drop (Suc i) (wins ! w))) ?s1)"
        "cmd_dma_handle m' = Some h'" "dma_between wins pos h' m'" "dma_rest wins m' = drop k (dma_rest wins ?m1)"
        "cmd_totxfer m' = cmd_totxfer ?m1"
      using less.hyps [OF lt p, of "n + 1" ?t1 ?s1] by blast
    have tk: "take (Suc k) (drop i (wins ! w)) = ?ck # take k (drop (Suc i) (wins ! w))"
      using less.prems(3) by (simp add: Cons_nth_drop_Suc [symmetric])
    show ?thesis
      using go ih 3 r1 tk
      by (intro exI [of _ "Suc k"] exI [of _ m'] exI [of _ h']) (auto simp: sg_calls_Cons add.assoc)
  qed
qed


text \<open>One call, from wherever the walk stands. It ends early in the window only when the requested bytes or the
  scatter/gather entries are used up.\<close>

lemma dmaget_spec:
  assumes ops: "dma_handle_ok ops wins pos" and b: "dma_between wins pos h m" and ne: "dma_rest wins m \<noteq> []"
  shows "\<exists>k m' h' single. 0 < k \<and> k \<le> max 1 sg_size \<and> cmd_windex m < length wins \<and>
     k \<le> length (wins ! cmd_windex m) - cmd_cindex m \<and>
     (k < length (wins ! cmd_windex m) - cmd_cindex m \<longrightarrow>
        count \<le> sum_list (map dmac_size (take k (dma_rest wins m))) \<or> sg_size \<le> k) \<and>
     ghd_dmaget_attr ops sg count sg_size h m s =
       Some (ucast (sum_list (map dmac_size (take k (dma_rest wins m)))), m',
         sg_calls sg single 0 (take k (dma_rest wins m)) s) \<and>
     cmd_dma_handle m' = Some h' \<and> dma_between wins pos h' m' \<and> dma_rest wins m' = drop k (dma_rest wins m) \<and>
     cmd_totxfer m' = cmd_totxfer m + sum_list (map dmac_size (take k (dma_rest wins m)))"
proof -
  let ?w = "cmd_windex m" and ?i = "cmd_cindex m"
  have nonempty: "w < length wins \<Longrightarrow> 0 < length (wins ! w)" for w
    using dma_window_nonempty [OF ops] by blast
  have w: "?w < length wins"
  proof (rule ccontr)
    assume "\<not> ?w < length wins"
    then have "dma_rest wins m = []" by (simp add: dma_rest_def)
    with ne show False ..
  qed
  have next': "\<exists>k m' h' single. 0 < k \<and> k \<le> max 1 sg_size \<and> k \<le> length (wins ! ?w) - ?i \<and>
     (k < length (wins ! ?w) - ?i \<longrightarrow> count \<le> sum_list (map dmac_size (take k (dma_rest wins m))) \<or> sg_size \<le> k) \<and>
     ghd_dmaget_next_attr ops sg count sg_size (wins ! ?w ! ?i) h1 m1 s =
       (ucast (sum_list (map dmac_size (take k (dma_rest wins m)))), m', sg_calls sg single 0 (take k (dma_rest wins m)) s) \<and>
     cmd_dma_handle m' = Some h' \<and> dma_between wins pos h' m' \<and> dma_rest wins m' = drop k (dma_rest wins m) \<and>
     cmd_totxfer m' = cmd_totxfer m + sum_list (map dmac_size (take k (dma_rest wins m)))"
    if m1: "cmd_windex m1 = ?w" "cmd_cindex m1 = ?i" "cmd_ccount m1 = length (wins ! ?w)" "cmd_wcount m1 = length wins"
      "\<not> use_first m1" "cmd_totxfer m1 = cmd_totxfer m" and i: "?i < length (wins ! ?w)" and h1: "pos h1 = Some (?w, ?i)" for m1 h1
  proof -
    let ?single = "\<not> ?i + 1 < length (wins ! ?w)"
    have r: "dma_rest wins m1 = dma_rest wins m" by (simp add: dma_rest_def m1)
    from sg_loop_spec [OF ops w m1(1,2) i m1(3,4,5) h1, of 0 sg_size count 0 sg ?single s] obtain k m' h' where
      k: "0 < k" "k \<le> length (wins ! ?w) - ?i" "k \<le> max sg_size 1"
        "k < length (wins ! ?w) - ?i \<longrightarrow>
           count \<le> sum_list (map dmac_size (take k (drop ?i (wins ! ?w)))) \<or> sg_size \<le> k" and
      l: "dma_sg_loop ops sg count sg_size ?single 0 0 (wins ! ?w ! ?i) h1 m1 s =
          (sum_list (map dmac_size (take k (drop ?i (wins ! ?w)))), m', sg_calls sg ?single 0 (take k (drop ?i (wins ! ?w))) s)"
         "cmd_dma_handle m' = Some h'" "dma_between wins pos h' m'" "dma_rest wins m' = drop k (dma_rest wins m1)"
         "cmd_totxfer m' = cmd_totxfer m1"
      by auto
    have "take k (dma_rest wins m) = take k (drop ?i (wins ! ?w))"
      using drop_window [OF w i] Cons_nth_drop_Suc [OF i, symmetric] k(2) unfolding dma_rest_def
      by (simp only: append_Cons [symmetric] take_append) simp
    with k l show ?thesis
      by (intro exI [of _ k] exI [of _ "m'\<lparr>cmd_totxfer := cmd_totxfer m' + sum_list (map dmac_size (take k (dma_rest wins m)))\<rparr>"]
          exI [of _ h'] exI [of _ ?single])
        (auto simp: ghd_dmaget_next_attr_def m1 r dma_between_def dma_rest_def)
  qed
  have m: "cmd_wcount m = length wins" using b by (simp add: dma_between_def)
  show ?thesis
  proof (cases "use_first m")
    case True
    then have "?w = 0" "?i = 0" "cmd_first_cookie m = wins ! 0 ! 0" "cmd_ccount m = length (wins ! 0)" "pos h = Some (0, 0)"
      using b by (simp_all add: dma_between_def)
    with next' [of "m\<lparr>use_first := False\<rparr>" h] True m w nonempty [OF w] show ?thesis by (auto simp: ghd_dmaget_attr_def)
  next
    case False
    show ?thesis
    proof (cases "?i = 0")
      case True
      from dma_getwin [OF ops w, of h] obtain h1 where
        "ddi_dma_getwin ops h ?w = Some (wins ! ?w ! 0, length (wins ! ?w), h1)" "pos h1 = Some (?w, 0)" by blast
      with next' [of "m\<lparr>cmd_ccount := length (wins ! ?w)\<rparr>" h1] True False m w nonempty [OF w]
      show ?thesis by (simp add: ghd_dmaget_attr_def)
    next
      case i: False
      then have bb: "?i < length (wins ! ?w)" "cmd_ccount m = length (wins ! ?w)" "pos h = Some (?w, ?i - 1)"
        using b by (simp_all add: dma_between_def)
      from dma_nextcookie [OF ops bb(3) w] i bb(1) obtain h1 where
        "ddi_dma_nextcookie ops h = (wins ! ?w ! ?i, h1)" "pos h1 = Some (?w, ?i)" by auto
      with next' [of m h1] i False m w bb show ?thesis by (simp add: ghd_dmaget_attr_def)
    qed
  qed
qed

lemma dmaget_end:
  assumes ops: "dma_handle_ok ops wins pos" and b: "dma_between wins pos h m" and e: "dma_rest wins m = []"
  shows "ghd_dmaget_attr ops sg count sg_size h m s = None"
proof -
  have "\<not> cmd_windex m < length wins"
  proof
    assume w: "cmd_windex m < length wins"
    then have n: "0 < length (wins ! cmd_windex m)" using dma_window_nonempty [OF ops] by blast
    have "cmd_cindex m < length (wins ! cmd_windex m)" using b n by (cases "cmd_cindex m = 0") (auto simp: dma_between_def)
    from drop_window [OF w this] e show False by (simp add: dma_rest_def)
  qed
  moreover from this have "\<not> use_first m" using b by (auto simp: dma_between_def)
  ultimately show ?thesis using b by (simp add: ghd_dmaget_attr_def dma_between_def)
qed

subsection \<open>Properties\<close>

text \<open>Successive requests on one bound buffer: the segments each call passes to the scatter/gather function, with
  their indices, until there is no more.\<close>

fun dma_calls :: "'h ddi_dma_ops \<Rightarrow> u64 \<Rightarrow> nat \<Rightarrow> nat \<Rightarrow> 'h gdma_t \<Rightarrow> (nat \<times> cookie_t) list list" where
  "dma_calls ops count sg_size 0 m = []"
| "dma_calls ops count sg_size (Suc n) m =
    (case cmd_dma_handle m of None \<Rightarrow> []
     | Some h \<Rightarrow>
        (case ghd_dmaget_attr ops (\<lambda>ck single i xs. xs @ [(i, ck)]) count sg_size h m [] of
           None \<Rightarrow> []
         | Some (x, m, xs) \<Rightarrow> xs # dma_calls ops count sg_size n m))"

lemma sg_calls_collect: "sg_calls (\<lambda>ck single i xs. xs @ [(i, ck)]) single n cks xs = xs @ zip [n..<n + length cks] cks"
proof (induction cks arbitrary: n xs)
  case (Cons ck cks)
  then show ?case by (simp add: sg_calls_Cons upt_conv_Cons del: upt_Suc)
qed (simp add: sg_calls_def)

text \<open>C32: every cookie of a bound buffer is handed to the scatter/gather function exactly once and in order, over all
  windows, in calls that are never empty, never exceed the scatter/gather size and number their segments from zero; no
  call is made beyond the end.\<close>

theorem dma_calls_cover_buffer:
  assumes "dma_handle_ok ops wins pos" "dma_between wins pos h m" "cmd_dma_handle m = Some h"
    and "length (dma_rest wins m) < n" "0 < sg_size"
  shows "map snd (concat (dma_calls ops count sg_size n m)) = dma_rest wins m \<and>
    (\<forall>xs\<in>set (dma_calls ops count sg_size n m). xs \<noteq> [] \<and> length xs \<le> sg_size \<and> map fst xs = [0..<length xs])"
  using assms(2-4)
proof (induction n arbitrary: h m)
  case (Suc n)
  show ?case
  proof (cases "dma_rest wins m = []")
    case True
    with dmaget_end [OF assms(1) Suc.prems(1) True, of "\<lambda>ck single i xs. xs @ [(i, ck)]" count sg_size "[]"] Suc.prems(2)
    show ?thesis by simp
  next
    case False
    let ?sg = "\<lambda>ck single i xs. xs @ [(i, ck)]" and ?r = "dma_rest wins m"
    from dmaget_spec [OF assms(1) Suc.prems(1) False, of sg_size count ?sg "[]"] assms(5) obtain k m' h' where
      k: "0 < k" "k \<le> sg_size" and
      g: "ghd_dmaget_attr ops ?sg count sg_size h m [] =
            Some (ucast (sum_list (map dmac_size (take k ?r))), m', zip [0..<length (take k ?r)] (take k ?r))"
         "cmd_dma_handle m' = Some h'" "dma_between wins pos h' m'" "dma_rest wins m' = drop k ?r"
      by (auto simp: sg_calls_collect)
    have "length (dma_rest wins m') < n" using g(4) k(1) Suc.prems(3) False by (cases ?r) auto
    note ih = Suc.IH [OF g(3,2) this]
    have z: "map snd (zip [0..<length (take k ?r)] (take k ?r)) = take k ?r"
      "map fst (zip [0..<length (take k ?r)] (take k ?r)) = [0..<length (take k ?r)]" by simp_all
    have "take k ?r \<noteq> []" using k(1) False by simp
    then show ?thesis using ih g z k Suc.prems(2) by auto
  qed
qed simp

text \<open>Two windows, of two and of one cookie, given out one segment at a time by a handle that counts.\<close>

definition ops2 :: "cookie_t list list \<Rightarrow> (nat \<times> nat) ddi_dma_ops" where
  "ops2 wins = \<lparr>ddi_dma_getwin = \<lambda>h w. if w < length wins then Some (wins ! w ! 0, length (wins ! w), (w, 0)) else None,
     ddi_dma_nextcookie = \<lambda>(w, i). (wins ! w ! Suc i, (w, Suc i))\<rparr>"

lemma ops2_ok: "[] \<notin> set wins \<Longrightarrow> dma_handle_ok (ops2 wins) wins Some"
  by (simp add: dma_handle_ok_def ops2_def)

definition wins2 :: "cookie_t list list" where
  "wins2 = [[\<lparr>dmac_address = 1, dmac_size = 512\<rparr>, \<lparr>dmac_address = 2, dmac_size = 512\<rparr>],
     [\<lparr>dmac_address = 3, dmac_size = 1024\<rparr>]]"

definition gdma0 :: "(nat \<times> nat) gdma_t" where
  "gdma0 = \<lparr>cmd_dma_handle = None, cmd_wcount = 0, cmd_windex = 7, cmd_ccount = 0, cmd_cindex = 5, cmd_totxfer = 3,
     cmd_first_cookie = \<lparr>dmac_address = 0, dmac_size = 0\<rparr>, use_first = False\<rparr>"

theorem dma_calls_witness:
  "map snd (concat (dma_calls (ops2 wins2) 4096 1 4
     (fst (snd (ghd_dma_buf_bind_attr True (DDI_DMA_PARTIAL_MAP (0, 0) (wins2 ! 0 ! 0) 2 (Some 2)) gdma0))))) = concat wins2"
proof -
  let ?m = "fst (snd (ghd_dma_buf_bind_attr True (DDI_DMA_PARTIAL_MAP (0, 0) (wins2 ! 0 ! 0) 2 (Some 2)) gdma0))"
  have b: "dma_between wins2 Some (0, 0) ?m" "cmd_dma_handle ?m = Some (0, 0)" "dma_rest wins2 ?m = concat wins2"
    by (simp_all add: ghd_dma_buf_bind_attr_def bind_init_def dma_between_def dma_rest_def wins2_def)
  have o: "dma_handle_ok (ops2 wins2) wins2 Some" by (rule ops2_ok) (simp add: wins2_def)
  have "length (concat wins2) < 4" by (simp add: wins2_def)
  then show ?thesis
    using dma_calls_cover_buffer [OF o b(1,2), of 4 1 4096] b(3) by simp
qed

end
