(* ===== verification/Ata_Iosetup.thy ===== *)
theory Ata_Iosetup
  imports Ata_Disk_Setup Ghd_Dma
begin

text \<open>
  The entry points of the disk controller object (\<open>ata_disk.c\<close>): allocating a packet, mapping the
  buffer for DMA, and \<open>ata_disk_iosetup\<close>, which turns the next part of a request into a command. It
  connects \<open>Ghd_Dma\<close>, which gives out the next run of cookies, with the scatter/gather list of \<open>Ata_Dma\<close>.

  A request is a \<open>cmpkt\<close>, an \<open>ata_pkt\<close> and the DMA fields of its \<open>gcmd_t\<close>. A result \<open>False\<close> is the C
  function's NULL; the fields it has written by then stay written.
\<close>

subsection \<open>Packets\<close>

definition AP_FREE :: u32 where "AP_FREE = 0x80000000"

text \<open>\<open>kmem_zalloc\<close>; the callbacks, which have no null, are set right after it.\<close>

definition zero_ata_pkt :: ata_pkt where
  "zero_ata_pkt = \<lparr>ap_gcmdp = None, ap_flags = 0, ap_bcount = 0, ap_v_addr = 0, ap_resid = 0, ap_pciide_dma = False,
     ap_sg_list = replicate ATA_DMA_NSEGS \<lparr>p_address = 0, p_count = 0\<rparr>, ap_sg_cnt = 0, ap_startsec = 0, ap_count = 0,
     ap_sec = 0, ap_lwcyl = 0, ap_hicyl = 0, ap_hd = 0, ap_cmd = 0, ap_status = 0, ap_error = 0,
     ap_start = Start_ata_disk_start, ap_intr = Intr_ata_disk_intr, ap_complete = Complete_none,
     ap_cdb = DCMD_OTHER 0, ap_scb = DERR_SUCCESS, ap_bytes_per_block = 0, ap_wrt_count = 0, ap_v_addr_sav = 0,
     ap_resid_sav = 0, ap_cdbp = [], ap_cdb_len = 0, ap_cdb_pad = 0, ap_scbp_sense = 0, ap_statuslen = 0\<rparr>"

definition ata_disk_pktalloc :: "ata_drv \<Rightarrow> nat option \<Rightarrow> ata_pkt option" where
  "ata_disk_pktalloc d gcmdp =
    (case gcmdp of
       None \<Rightarrow> None
     | Some g \<Rightarrow> Some (zero_ata_pkt\<lparr>ap_gcmdp := Some g, ap_start := Start_ata_disk_start, ap_intr := Intr_ata_disk_intr,
         ap_complete := Complete_ata_disk_complete, ap_bytes_per_block := scast (ad_bytes_per_block d)\<rparr>))"

definition ata_disk_pktfree :: "ata_pkt \<Rightarrow> ata_pkt" where
  "ata_disk_pktfree k = k\<lparr>ap_flags := AP_FREE\<rparr>"

record 'h disk_req =
  rq_cp :: cmpkt
  rq_pkt :: ata_pkt
  rq_dma :: "'h gdma_t"

subsection \<open>The buffer\<close>

definition ata_dma_disabled :: bool where "ata_dma_disabled = False"
definition PCIIDE_PRDE_ADDR_MASK :: u64 where "PCIIDE_PRDE_ADDR_MASK = 3"

text \<open>The fields of \<open>struct buf\<close> this code reads.\<close>

record iobuf =
  ib_bcount :: u64
  ib_read :: bool      \<comment> \<open>\<open>B_READ\<close>\<close>
  ib_pageio :: bool    \<comment> \<open>\<open>B_PAGEIO\<close>\<close>
  ib_addr :: u64       \<comment> \<open>\<open>b_un.b_addr\<close>; what \<open>bp_mapin\<close> makes of it is \<open>mapin\<close>\<close>

definition use_dma :: "ata_drv \<Rightarrow> iobuf \<Rightarrow> bool" where
  "use_dma d bp \<longleftrightarrow> ad_pciide_dma d \<and> \<not> ata_dma_disabled \<and>
     \<not> (\<not> ib_pageio bp \<and> ib_addr bp AND PCIIDE_PRDE_ADDR_MASK \<noteq> 0) \<and> ib_bcount bp AND 1 = 0"

text \<open>\<open>bound\<close> is the outcome of allocating the handle and of binding it, for the direction.\<close>

definition ata_disk_memsetup ::
  "bool \<Rightarrow> (bool \<Rightarrow> 'h bind_result) \<Rightarrow> (u64 \<Rightarrow> u64) \<Rightarrow> ata_drv \<Rightarrow> iobuf \<Rightarrow> 'h disk_req \<Rightarrow> 'h disk_req" where
  "ata_disk_memsetup alloc_ok bound mapin d bp r =
    (let r = r\<lparr>rq_pkt := (rq_pkt r)\<lparr>ap_sg_cnt := 0\<rparr>\<rparr>;
         pio = (\<lambda>r. r\<lparr>rq_pkt := (rq_pkt r)\<lparr>ap_v_addr := mapin (ib_addr bp)\<rparr>\<rparr>)
     in if ib_bcount bp = 0 then r\<lparr>rq_pkt := (rq_pkt r)\<lparr>ap_v_addr := 0\<rparr>\<rparr>
        else if \<not> use_dma d bp then pio r
        else (case ghd_dma_buf_bind_attr alloc_ok (bound (ib_read bp)) (rq_dma r) of
            (True, m, _) \<Rightarrow> r\<lparr>rq_dma := m, rq_pkt := (rq_pkt r)\<lparr>ap_v_addr := 0\<rparr>\<rparr>
          | (False, m, _) \<Rightarrow> pio (r\<lparr>rq_dma := m\<rparr>)))"

definition ata_disk_memfree :: "'h disk_req \<Rightarrow> 'h disk_req" where
  "ata_disk_memfree r =
    (if cmd_dma_handle (rq_dma r) \<noteq> None then r\<lparr>rq_dma := ghd_dmafree_attr (rq_dma r)\<rparr> else r)"

subsection \<open>Setting up the next transfer\<close>

text \<open>The sectors of a request, limited to \<open>ac_max_transfer\<close>. The comparison is signed.\<close>

definition io_sec_count :: "u64 \<Rightarrow> nat \<Rightarrow> u32" where
  "io_sec_count bytexfer max_transfer = word_of_int (min (sint (signed_drop_bit SCTRSHFT bytexfer)) (int max_transfer))"

text \<open>The first half: the sector count of a retry or of a new transfer.\<close>

definition iosetup_count :: "nat \<Rightarrow> cmpkt \<Rightarrow> ata_pkt \<Rightarrow> u32 \<times> ata_pkt" where
  "iosetup_count max_transfer cp k =
    (if flag_set (ap_flags k) AP_ERROR
     then (let retry = ap_flags k AND (AP_READ OR AP_WRITE) \<noteq> 0;
               k = k\<lparr>ap_bytes_per_block := of_nat NBPSCTR\<rparr>
           in (1, if retry then k\<lparr>ap_v_addr := ap_v_addr_sav k, ap_resid := ap_resid_sav k\<rparr> else k))
     else (io_sec_count (cp_bytexfer cp) max_transfer, k\<lparr>ap_v_addr_sav := ap_v_addr k, ap_resid_sav := ap_resid k\<rparr>))"

definition setup_read :: "u8 \<Rightarrow> ata_pkt \<Rightarrow> ata_pkt" where
  "setup_read pio_cmd k =
    (let k = (if ap_sg_cnt k \<noteq> 0
              then k\<lparr>ap_cmd := ATC_READ_DMA, ap_pciide_dma := True, ap_start := Start_ata_disk_start_dma_in,
                     ap_intr := Intr_ata_disk_intr_dma\<rparr>
              else k\<lparr>ap_cmd := pio_cmd, ap_start := Start_ata_disk_start_pio_in, ap_intr := Intr_ata_disk_intr_pio_in\<rparr>)
     in k\<lparr>ap_flags := ap_flags k OR AP_READ\<rparr>)"

definition setup_write :: "u8 \<Rightarrow> ata_pkt \<Rightarrow> ata_pkt" where
  "setup_write pio_cmd k =
    (let k = (if ap_sg_cnt k \<noteq> 0
              then k\<lparr>ap_cmd := ATC_WRITE_DMA, ap_pciide_dma := True, ap_start := Start_ata_disk_start_dma_out,
                     ap_intr := Intr_ata_disk_intr_dma\<rparr>
              else k\<lparr>ap_cmd := pio_cmd, ap_start := Start_ata_disk_start_pio_out, ap_intr := Intr_ata_disk_intr_pio_out\<rparr>)
     in k\<lparr>ap_flags := ap_flags k OR AP_WRITE\<rparr>)"

definition ext_command :: "u8 \<Rightarrow> u8" where
  "ext_command c =
    (if c = ATC_RDSEC then ATC_RDSEC_EXT else if c = ATC_WRSEC then ATC_WRSEC_EXT
     else if c = ATC_RDMULT then ATC_RDMULT_EXT else if c = ATC_WRMULT then ATC_WRMULT_EXT
     else if c = ATC_READ_DMA then ATC_RDDMA_EXT else if c = ATC_WRITE_DMA then ATC_WRDMA_EXT else c)"

definition set_bytes :: "u64 \<Rightarrow> cmpkt \<Rightarrow> cmpkt" where
  "set_bytes n cp = cp\<lparr>cp_bytexfer := n, cp_resid := n\<rparr>"

text \<open>The second half: command, callbacks and byte counts, once the sector count is known.\<close>

definition iosetup_command :: "ata_drv \<Rightarrow> u32 \<Rightarrow> cmpkt \<Rightarrow> ata_pkt \<Rightarrow> bool \<times> cmpkt \<times> ata_pkt" where
  "iosetup_command d sec_count cp k =
    (let k = k\<lparr>ap_count := ucast sec_count\<rparr>;
         k = (if \<not> flag_set (ad_flags d) AD_EXT48 then k\<lparr>ap_count := ap_count k AND 0xff\<rparr> else k);
         k = k\<lparr>ap_startsec := (case cp_passthru cp of Some w \<Rightarrow> rw_blkaddr w | None \<Rightarrow> cp_srtsec cp)\<rparr>;
         (ok, cp, k) =
          (case cp_passthru cp of
             Some w \<Rightarrow>
               (let k = (case rw_cmd w of
                      DADKIO_RWCMD_READ \<Rightarrow> setup_read ATC_RDSEC k
                    | DADKIO_RWCMD_WRITE \<Rightarrow> setup_write ATC_WRSEC k
                    | DADKIO_RWCMD_OTHER \<Rightarrow> k);
                    n = ucast (rw_buflen w)
                in (True, set_bytes n cp, k\<lparr>ap_resid := n, ap_bytes_per_block := of_nat NBPSCTR\<rparr>))
           | None \<Rightarrow>
               (let n = ucast (push_bit SCTRSHFT sec_count);
                    cp = set_bytes n cp;
                    k = k\<lparr>ap_resid := n\<rparr>
                in case ap_cdb k of
                     DCMD_READ \<Rightarrow> (True, cp, setup_read (ad_rd_cmd d) k)
                   | DCMD_WRITE \<Rightarrow> (True, cp, setup_write (ad_wr_cmd d) k)
                   | _ \<Rightarrow> (False, cp, k)))
     in (ok, cp, if ok \<and> flag_set (ad_flags d) AD_EXT48 then k\<lparr>ap_cmd := ext_command (ap_cmd k)\<rparr> else k))"

definition ata_disk_iosetup :: "'h ddi_dma_ops \<Rightarrow> ata_drv \<Rightarrow> nat \<Rightarrow> 'h disk_req \<Rightarrow> bool \<times> 'h disk_req" where
  "ata_disk_iosetup ops d max_transfer r =
    (let cp = rq_cp r; k = rq_pkt r; m = rq_dma r
     in if cp_passthru cp = None \<and> ap_cdb k = DCMD_FLUSH_CACHE
        then (True, r\<lparr>rq_pkt := k\<lparr>ap_cmd := ATC_FLUSH_CACHE, ap_flags := 0, ap_count := 0, ap_startsec := 0, ap_sg_cnt := 0,
                ap_pciide_dma := False\<rparr>\<rparr>)
        else if flag_set (ap_flags k) AP_ERROR \<and> cmd_dma_handle m \<noteq> None
        then (False, r\<lparr>rq_pkt := k\<lparr>ap_flags := 0\<rparr>\<rparr>)
        else
          (let (sec_count, k) = iosetup_count max_transfer cp k;
               k = k\<lparr>ap_flags := 0, ap_sg_cnt := 0, ap_pciide_dma := False\<rparr>;
               finish = (\<lambda>sec_count k m.
                 (let (ok, cp, k) = iosetup_command d sec_count cp k in (ok, \<lparr>rq_cp = cp, rq_pkt = k, rq_dma = m\<rparr>)))
           in case cmd_dma_handle m of
                None \<Rightarrow> finish sec_count k m
              | Some h \<Rightarrow>
                  if sec_count = 0 then finish sec_count k m
                  else (case ghd_dmaget_attr ops (\<lambda>ck single i k. ata_pciide_dma_sg_func ck i k)
                              (ucast (push_bit SCTRSHFT sec_count)) ATA_DMA_NSEGS h m k of
                          None \<Rightarrow> (False, r\<lparr>rq_pkt := k\<rparr>)
                        | Some (byte_count, m, k) \<Rightarrow>
                            if byte_count = 0 then (False, r\<lparr>rq_pkt := k, rq_dma := m\<rparr>)
                            else finish (drop_bit SCTRSHFT byte_count) k m)))"

subsection \<open>A transfer is one window\<close>

text \<open>Bytes of a run of cookies, without wrapping.\<close>

definition cookie_bytes :: "cookie_t list \<Rightarrow> nat" where
  "cookie_bytes cks = sum_list (map (unat \<circ> dmac_size) cks)"

lemma cookie_bytes_sum:
  "cookie_bytes cks < 2 ^ 64 \<Longrightarrow> unat (sum_list (map dmac_size cks)) = cookie_bytes cks"
proof (induction cks)
  case (Cons ck cks)
  then show ?case by (simp add: cookie_bytes_def unat_word_ariths)
qed (simp add: cookie_bytes_def)

lemma cookie_bytes_take_less:
  assumes "\<forall>ck\<in>set cks. 0 < dmac_size ck" "k < length cks"
  shows "cookie_bytes (take k cks) < cookie_bytes cks"
proof -
  have "0 < cookie_bytes (drop k cks)"
  proof (cases "drop k cks")
    case (Cons ck r)
    then have "ck \<in> set cks" by (metis in_set_dropD list.set_intros(1))
    then have "0 < unat (dmac_size ck)" using assms(1) by (simp add: word_less_nat_alt)
    then show ?thesis by (simp add: Cons cookie_bytes_def)
  qed (use assms(2) in simp)
  moreover have "cookie_bytes cks = cookie_bytes (take k cks) + cookie_bytes (drop k cks)"
    unfolding cookie_bytes_def by (metis append_take_drop_id map_append sum_list_append)
  ultimately show ?thesis by simp
qed

lemma cookie_bytes_take_le: "cookie_bytes (take k cks) \<le> cookie_bytes cks"
  unfolding cookie_bytes_def by (metis append_take_drop_id le_add1 map_append sum_list_append)

lemma sg_calls_build:
  "sg_calls (\<lambda>ck single i k. ata_pciide_dma_sg_func ck i k) single 0 cks k = sg_build cks k"
  by (simp add: sg_calls_def sg_build_def case_prod_beta)

text \<open>From the start of a window, a call takes cookies until they hold the bytes asked for, or the whole window.\<close>

lemma dmaget_part:
  assumes ops: "dma_handle_ok ops wins pos" and b: "dma_between wins pos h m"
    and w: "cmd_windex m < length wins" "cmd_cindex m = 0"
    and W: "length (wins ! cmd_windex m) \<le> sg_size" "cookie_bytes (wins ! cmd_windex m) < 2 ^ 64"
  shows "\<exists>k m' h' single. 0 < k \<and> k \<le> length (wins ! cmd_windex m) \<and>
     (k < length (wins ! cmd_windex m) \<longrightarrow> unat count \<le> cookie_bytes (take k (wins ! cmd_windex m))) \<and>
     ghd_dmaget_attr ops sg count sg_size h m s =
       Some (ucast (sum_list (map dmac_size (take k (wins ! cmd_windex m)))), m',
         sg_calls sg single 0 (take k (wins ! cmd_windex m)) s) \<and>
     cmd_dma_handle m' = Some h' \<and> dma_between wins pos h' m' \<and> dma_rest wins m' = drop k (dma_rest wins m)"
proof -
  let ?W = "wins ! cmd_windex m"
  have ne: "?W \<noteq> []" using dma_window_nonempty [OF ops w(1)] by simp
  have r: "dma_rest wins m = ?W @ concat (drop (Suc (cmd_windex m)) wins)"
    using w by (simp add: dma_rest_def Cons_nth_drop_Suc [symmetric])
  then have "dma_rest wins m \<noteq> []" using ne by simp
  from dmaget_spec [OF ops b this, of sg_size count sg s] obtain k m' h' single where
    k: "0 < k" "k \<le> length ?W" "k < length ?W \<longrightarrow> count \<le> sum_list (map dmac_size (take k ?W)) \<or> sg_size \<le> k" and
    g: "ghd_dmaget_attr ops sg count sg_size h m s =
          Some (ucast (sum_list (map dmac_size (take k ?W))), m', sg_calls sg single 0 (take k ?W) s)"
       "cmd_dma_handle m' = Some h'" "dma_between wins pos h' m'" "dma_rest wins m' = drop k (dma_rest wins m)"
    using r w(2) by auto
  have "cookie_bytes (take k ?W) \<le> cookie_bytes ?W" by (rule cookie_bytes_take_le)
  then have "unat (sum_list (map dmac_size (take k ?W))) = cookie_bytes (take k ?W)"
    using W(2) by (intro cookie_bytes_sum) simp
  then have "k < length ?W \<longrightarrow> unat count \<le> cookie_bytes (take k ?W)" using k(3) W(1) by (auto simp: word_le_nat_alt)
  with k g show ?thesis by (intro exI [of _ k] exI [of _ m'] exI [of _ h'] exI [of _ single]) simp
qed

lemma concat_drop_mono: "u \<le> v \<Longrightarrow> length (concat (drop v wins)) \<le> length (concat (drop u wins))"
  by (metis append_take_drop_id concat_append drop_drop le_add2 le_add_diff_inverse2 length_append)

lemma concat_drop_less:
  assumes "[] \<notin> set wins" "u < v" "u < length wins"
  shows "length (concat (drop v wins)) + length (wins ! u) \<le> length (concat (drop u wins))"
proof -
  have "concat (drop u wins) = wins ! u @ concat (drop (Suc u) wins)"
    using assms(3) by (simp add: Cons_nth_drop_Suc [symmetric])
  moreover have "length (concat (drop v wins)) \<le> length (concat (drop (Suc u) wins))"
    using assms(2) by (intro concat_drop_mono) simp
  ultimately show ?thesis by simp
qed

lemma dma_at_window:
  assumes ne: "[] \<notin> set wins" and b: "dma_between wins pos h m" and w: "w \<le> length wins"
    and r: "dma_rest wins m = concat (drop w wins)"
  shows "cmd_windex m = w \<and> cmd_cindex m = 0"
proof -
  let ?v = "cmd_windex m" and ?i = "cmd_cindex m"
  have len: "length (concat (drop ?v wins)) - ?i = length (concat (drop w wins))"
    using arg_cong [OF r, of length] by (simp add: dma_rest_def)
  have v: "?v \<le> length wins" and i: "?i \<noteq> 0 \<longrightarrow> ?v < length wins \<and> ?i < length (wins ! ?v)"
    using b by (auto simp: dma_between_def)
  have pos: "u < length wins \<Longrightarrow> 0 < length (wins ! u)" for u using ne by (metis length_greater_0_conv nth_mem)
  consider "w < ?v" | "?v < w" | "?v = w" by linarith
  then show ?thesis
  proof cases
    case 1
    then have "w < length wins" using v by simp
    from concat_drop_less [OF ne 1 this] pos [OF this] len show ?thesis by linarith
  next
    case 2
    have vl: "?v < length wins" using 2 w by simp
    then have "?i < length (wins ! ?v)" using i pos [of ?v] by (cases "?i = 0") auto
    with concat_drop_less [OF ne 2 vl] len show ?thesis by simp
  next
    case 3
    have "?i = 0"
    proof (rule ccontr)
      assume ni: "?i \<noteq> 0"
      then have "?v < length wins" "?i < length (wins ! ?v)" using i by auto
      with concat_drop_less [OF ne lessI this(1)] len 3 ni show False by simp
    qed
    with 3 show ?thesis by simp
  qed
qed

text \<open>What the setup relies on in the kernel: the attributes given to it (\<open>dma_attr_sgllen\<close>, \<open>dma_attr_maxxfer\<close>,
  \<open>dma_attr_granular\<close>) bound every window.\<close>

definition dma_attr_ok :: "nat \<Rightarrow> cookie_t list list \<Rightarrow> bool" where
  "dma_attr_ok max_transfer wins \<longleftrightarrow> (\<forall>W\<in>set wins. length W \<le> ATA_DMA_NSEGS \<and> (\<forall>ck\<in>set W. 0 < dmac_size ck) \<and>
     NBPSCTR dvd cookie_bytes W \<and> cookie_bytes W \<le> NBPSCTR * max_transfer)"

lemma io_sec_count_bytes:
  assumes "n \<le> 65535" "S = 512 * j" "j \<le> n" "S \<le> unat b" "unat b < 2 ^ 63"
  shows "unat (io_sec_count b n) = min (unat b div 512) n" "j \<le> unat (io_sec_count b n)"
    "unat (ucast (push_bit SCTRSHFT (io_sec_count b n)) :: u64) = 512 * unat (io_sec_count b n)"
proof -
  have s: "sint (signed_drop_bit SCTRSHFT b) = int (unat b div 512)"
  proof -
    have "int (unat b) < 2 ^ 63" using assms(5) by (simp del: of_nat_unat)
    then have "sint b = int (unat b)"
      unfolding sint_uint uint_nat by (intro signed_take_bit_int_eq_self) (simp_all del: of_nat_unat)
    then have "sint (signed_drop_bit SCTRSHFT b) = int (unat b) div 2 ^ 9"
      by (simp only: SCTRSHFT_def sint_signed_drop_bit_eq drop_bit_eq_div)
    then show ?thesis by (simp add: zdiv_int del: of_nat_unat)
  qed
  have i: "io_sec_count b n = of_nat (min (unat b div 512) n)"
    unfolding io_sec_count_def s by (simp flip: of_nat_min)
  have lt: "min (unat b div 512) n < 2 ^ 32" using assms(1) by simp
  then show u: "unat (io_sec_count b n) = min (unat b div 512) n"
    unfolding i using lt by (simp only: unat_of_nat) (simp add: take_bit_nat_eq_self)
  show "j \<le> unat (io_sec_count b n)" unfolding u using assms(2-4) by simp
  have "512 * min (unat b div 512) n < 2 ^ 32" using assms(1) by simp
  then show "unat (ucast (push_bit SCTRSHFT (io_sec_count b n)) :: u64) = 512 * unat (io_sec_count b n)"
    unfolding u i by (simp add: SCTRSHFT_def push_bit_eq_mult unsigned_ucast_eq take_bit_eq_mod unat_word_ariths unat_of_nat)
qed

lemma masked_count:
  assumes "n \<le> 256"
  shows "unat (ucast (of_nat n :: u32) :: u16) = n" "unat ((ucast (of_nat n :: u32) :: u16) AND 0xff) = n mod 256"
proof -
  have a: "unat (of_nat n :: u32) = n" using assms by (simp only: unat_of_nat) (simp add: take_bit_nat_eq_self)
  then show c: "unat (ucast (of_nat n :: u32) :: u16) = n"
    using assms by (simp add: unsigned_ucast_eq take_bit_nat_eq_self)
  have m: "x AND 0xff = take_bit 8 x" for x :: u16 by (simp add: take_bit_eq_mask mask_eq_exp_minus_1)
  show "unat ((ucast (of_nat n :: u32) :: u16) AND 0xff) = n mod 256"
    unfolding m unsigned_take_bit_eq c by (simp add: take_bit_eq_mod)
qed

lemma sector_words:
  assumes "j \<le> 256"
  shows "unat (of_nat (512 * j) :: u32) = 512 * j" "drop_bit SCTRSHFT (of_nat (512 * j) :: u32) = of_nat j"
    "push_bit SCTRSHFT (of_nat j :: u32) = of_nat (512 * j)" "unat (ucast (of_nat (512 * j) :: u32) :: u64) = 512 * j"
    "unat x = 512 * j \<Longrightarrow> ucast (x :: u64) = (of_nat (512 * j) :: u32)"
proof -
  show a: "unat (of_nat (512 * j) :: u32) = 512 * j"
    using assms by (simp only: unat_of_nat) (simp add: take_bit_nat_eq_self)
  have b: "unat (of_nat j :: u32) = j" using assms by (simp only: unat_of_nat) (simp add: take_bit_nat_eq_self)
  show "drop_bit SCTRSHFT (of_nat (512 * j) :: u32) = of_nat j"
    by (rule word_unat_eq_iff [THEN iffD2]) (unfold unsigned_drop_bit_eq a b, use assms in \<open>simp add: SCTRSHFT_def drop_bit_eq_div take_bit_nat_eq_self\<close>)
  show "push_bit SCTRSHFT (of_nat j :: u32) = of_nat (512 * j)" by (simp add: SCTRSHFT_def push_bit_eq_mult)
  show "unat (ucast (of_nat (512 * j) :: u32) :: u64) = 512 * j"
    using assms by (simp only: unsigned_ucast_eq a) (simp add: take_bit_nat_eq_self)
  show "ucast x = (of_nat (512 * j) :: u32)" if "unat x = 512 * j"
    using assms that by (intro word_unat_eq_iff [THEN iffD2], unfold a) (simp add: unsigned_ucast_eq take_bit_nat_eq_self)
qed

lemma part_words:
  assumes "x \<le> 131072"
  shows "drop_bit SCTRSHFT (of_nat x :: u32) = of_nat (x div 512)" "unat (y :: u64) = x \<Longrightarrow> ucast y = (of_nat x :: u32)"
    "unat (of_nat x :: u32) = x"
proof -
  show a: "unat (of_nat x :: u32) = x" using assms by (simp only: unat_of_nat) (simp add: take_bit_nat_eq_self)
  have b: "unat (of_nat (x div 512) :: u32) = x div 512" using assms by (simp only: unat_of_nat) (simp add: take_bit_nat_eq_self)
  show "drop_bit SCTRSHFT (of_nat x :: u32) = of_nat (x div 512)"
    by (rule word_unat_eq_iff [THEN iffD2]) (unfold unsigned_drop_bit_eq a b, use assms in \<open>simp add: SCTRSHFT_def drop_bit_eq_div take_bit_nat_eq_self\<close>)
  show "ucast y = (of_nat x :: u32)" if "unat y = x"
    using assms that by (intro word_unat_eq_iff [THEN iffD2], unfold a) (simp add: unsigned_ucast_eq take_bit_nat_eq_self)
qed

text \<open>The command half leaves the list, the buffer address and the other arguments alone.\<close>

lemma iosetup_command_spec:
  assumes "iosetup_command d n cp k = (ok, cp', k')" "cp_passthru cp = None" "ap_cdb k = DCMD_READ \<or> ap_cdb k = DCMD_WRITE"
  shows "ok \<and> cp' = set_bytes (ucast (push_bit SCTRSHFT n)) cp \<and> ap_resid k' = ucast (push_bit SCTRSHFT n) \<and>
     ap_sg_list k' = ap_sg_list k \<and> ap_sg_cnt k' = ap_sg_cnt k \<and> ap_bcount k' = ap_bcount k \<and>
     ap_v_addr k' = ap_v_addr k \<and> ap_v_addr_sav k' = ap_v_addr_sav k \<and> ap_bytes_per_block k' = ap_bytes_per_block k \<and>
     ap_startsec k' = cp_srtsec cp \<and> ap_cdb k' = ap_cdb k \<and>
     ap_flags k' = ap_flags k OR (if ap_cdb k = DCMD_READ then AP_READ else AP_WRITE) \<and>
     (ap_sg_cnt k = 0 \<longrightarrow> ap_start k' =
        (if ap_cdb k = DCMD_READ then Start_ata_disk_start_pio_in else Start_ata_disk_start_pio_out)) \<and>
     ap_count k' = (if flag_set (ad_flags d) AD_EXT48 then ucast n else ucast n AND 0xff)"
  using assms by (auto simp: iosetup_command_def setup_read_def setup_write_def Let_def)

lemma sg_build_frame:
  "ap_cdb (sg_build cks k) = ap_cdb k \<and> ap_v_addr (sg_build cks k) = ap_v_addr k \<and> ap_flags (sg_build cks k) = ap_flags k \<and>
   ap_pciide_dma (sg_build cks k) = ap_pciide_dma k"
  by (induction cks rule: rev_induct) (simp_all add: sg_build_snoc ata_pciide_dma_sg_func_def Let_def, simp_all add: sg_build_def)

text \<open>C10: a transfer by DMA lies in one window. At the start of a window, setting up a transfer of at least a sector
  takes the window's cookies in order: all of them when the window holds no more than the bytes asked for (the residual
  count, cut off at \<open>max_transfer\<close> sectors), and otherwise at least enough to hold these, the last of them whole even
  where it goes beyond them. The cookies taken fill the scatter/gather list; the sector count, the residual counts
  of packet and request, and the bytes of the list are those of the cookies, at most \<open>max_transfer\<close> sectors; the
  next transfer starts at the next cookie.\<close>

theorem disk_dma_request_is_window:
  fixes r :: "'h disk_req"
  assumes ops: "dma_handle_ok ops wins pos" and att: "dma_attr_ok max_transfer wins" "max_transfer \<le> 256"
    and h: "cmd_dma_handle (rq_dma r) = Some h" "dma_between wins pos h (rq_dma r)"
    and w: "w < length wins" "dma_rest wins (rq_dma r) = concat (drop w wins)"
    and cmd: "cp_passthru (rq_cp r) = None" "ap_cdb (rq_pkt r) = DCMD_READ \<or> ap_cdb (rq_pkt r) = DCMD_WRITE"
      "\<not> flag_set (ap_flags (rq_pkt r)) AP_ERROR" "length (ap_sg_list (rq_pkt r)) = ATA_DMA_NSEGS"
    and b: "NBPSCTR \<le> unat (cp_bytexfer (rq_cp r))" "unat (cp_bytexfer (rq_cp r)) < 2 ^ 63"
  shows "\<exists>n r' h' T. T = take n (wins ! w) \<and> 0 < n \<and> n \<le> length (wins ! w) \<and>
     (cookie_bytes (wins ! w) \<le> unat (cp_bytexfer (rq_cp r)) \<longrightarrow> n = length (wins ! w)) \<and>
     (n < length (wins ! w) \<longrightarrow> NBPSCTR * min (unat (cp_bytexfer (rq_cp r)) div NBPSCTR) max_transfer \<le> cookie_bytes T) \<and>
     ata_disk_iosetup ops d max_transfer r = (True, r') \<and>
     ap_sg_cnt (rq_pkt r') = n \<and> take n (ap_sg_list (rq_pkt r')) = map prd_of T \<and>
     unat (ap_bcount (rq_pkt r')) = cookie_bytes T \<and>
     unat (ap_resid (rq_pkt r')) = NBPSCTR * (cookie_bytes T div NBPSCTR) \<and>
     unat (cp_bytexfer (rq_cp r')) = NBPSCTR * (cookie_bytes T div NBPSCTR) \<and>
     unat (ap_count (rq_pkt r')) = (if flag_set (ad_flags d) AD_EXT48 then cookie_bytes T div NBPSCTR
                                    else cookie_bytes T div NBPSCTR mod 256) \<and>
     cookie_bytes T div NBPSCTR \<le> max_transfer \<and>
     cmd_dma_handle (rq_dma r') = Some h' \<and> dma_between wins pos h' (rq_dma r') \<and>
     dma_rest wins (rq_dma r') = drop n (concat (drop w wins))"
proof -
  let ?W = "wins ! w" and ?m = "rq_dma r" and ?b = "unat (cp_bytexfer (rq_cp r))"
  let ?n = "io_sec_count (cp_bytexfer (rq_cp r)) max_transfer"
  let ?k = "(rq_pkt r)\<lparr>ap_v_addr_sav := ap_v_addr (rq_pkt r), ap_resid_sav := ap_resid (rq_pkt r), ap_flags := 0, ap_sg_cnt := 0,
    ap_pciide_dma := False\<rparr>"
  have ne: "[] \<notin> set wins" using ops by (simp add: dma_handle_ok_def)
  have at: "cmd_windex ?m = w" "cmd_cindex ?m = 0" using dma_at_window [OF ne h(2) _ w(2)] w(1) by simp_all
  have Wm: "?W \<in> set wins" using w(1) by simp
  then have W: "length ?W \<le> ATA_DMA_NSEGS" "\<forall>ck\<in>set ?W. 0 < dmac_size ck" "NBPSCTR dvd cookie_bytes ?W"
      "cookie_bytes ?W \<le> NBPSCTR * max_transfer" "?W \<noteq> []"
    using att(1) ne by (auto simp: dma_attr_ok_def)
  have S0: "0 < cookie_bytes ?W" using W(2,5) cookie_bytes_take_less [of ?W 0] by (simp add: cookie_bytes_def)
  have mx: "max_transfer \<le> 65535" "0 < max_transfer" using att(2) W(4) S0 by (auto intro: gr0I)
  have n: "unat ?n = min (?b div 512) max_transfer" "unat (ucast (push_bit SCTRSHFT ?n) :: u64) = 512 * unat ?n"
    using io_sec_count_bytes(1,3) [OF mx(1), of 0 0, OF _ _ _ b(2)] by auto
  have n0: "0 < unat ?n" using n(1) b(1) mx(2) by (simp add: NBPSCTR_def div_greater_zero_iff)
  then have nz0: "?n \<noteq> 0" by auto
  have big: "cookie_bytes ?W \<le> 131072" using W(4) att(2) by (simp add: NBPSCTR_def)
  from dmaget_part [OF ops h(2), of ATA_DMA_NSEGS "ucast (push_bit SCTRSHFT ?n)"
      "\<lambda>ck single i k. ata_pciide_dma_sg_func ck i k" ?k] w(1) at W(1) big obtain t m' h' where
    t: "0 < t" "t \<le> length ?W" "t < length ?W \<longrightarrow> unat (ucast (push_bit SCTRSHFT ?n) :: u64) \<le> cookie_bytes (take t ?W)" and
    g: "ghd_dmaget_attr ops (\<lambda>ck single i k. ata_pciide_dma_sg_func ck i k) (ucast (push_bit SCTRSHFT ?n)) ATA_DMA_NSEGS h ?m ?k =
        Some (ucast (sum_list (map dmac_size (take t ?W))), m', sg_build (take t ?W) ?k)"
      "cmd_dma_handle m' = Some h'" "dma_between wins pos h' m'" "dma_rest wins m' = drop t (dma_rest wins ?m)"
    unfolding sg_calls_build at(1) by auto
  let ?T = "take t ?W" and ?S = "cookie_bytes (take t ?W)"
  have asked: "t < length ?W \<longrightarrow> NBPSCTR * min (?b div NBPSCTR) max_transfer \<le> ?S"
    using t(3) n by (simp add: NBPSCTR_def)
  have whole: "t = length ?W" if "cookie_bytes ?W \<le> ?b"
  proof (rule ccontr)
    assume "t \<noteq> length ?W"
    with t(2) have lt: "t < length ?W" by simp
    have "cookie_bytes ?W \<le> NBPSCTR * min (?b div NBPSCTR) max_transfer"
      using W(3,4) that by (auto simp: NBPSCTR_def elim!: dvdE)
    with asked lt cookie_bytes_take_less [OF W(2) lt] show False by simp
  qed
  have Sle: "?S \<le> cookie_bytes ?W" by (rule cookie_bytes_take_le)
  have S: "?S \<le> 131072" "?S div 512 \<le> 256" "?S div 512 \<le> max_transfer"
    using Sle big W(4) by (simp_all add: NBPSCTR_def)
  have Spos: "0 < ?S"
  proof (cases "t < length ?W")
    case True
    have "0 < NBPSCTR * min (?b div NBPSCTR) max_transfer" using n0 n(1) by (simp add: NBPSCTR_def)
    then show ?thesis using asked True by (meson order_less_le_trans)
  qed (use S0 t(2) in simp)
  have u: "unat (sum_list (map dmac_size ?T)) = ?S" using S(1) by (intro cookie_bytes_sum) simp
  note ps = part_words [OF S(1)] and bs = sector_words [OF S(2)]
  have bc: "ucast (sum_list (map dmac_size ?T)) = (of_nat ?S :: u32)" by (rule ps(2) [OF u])
  have nz: "(of_nat ?S :: u32) \<noteq> 0" using ps(3) Spos by (metis unat_0 less_irrefl)
  define K where "K = sg_build ?T ?k"
  have "length ?T \<le> length (ap_sg_list ?k)" using W(1) t(2) cmd(4) by simp
  from sg_build_spec [OF this] W(5) t(1,2) have K: "ap_cdb K = ap_cdb (rq_pkt r)" "ap_sg_cnt K = t"
    "take t (ap_sg_list K) = map prd_of ?T" "ap_bcount K = sum_list (map dmac_size ?T)"
    by (simp_all add: K_def sg_build_frame)
  obtain ok cp' k' where c: "iosetup_command d (of_nat (?S div 512)) (rq_cp r) K = (ok, cp', k')"
    by (cases "iosetup_command d (of_nat (?S div 512)) (rq_cp r) K") auto
  have "ata_disk_iosetup ops d max_transfer r = (ok, \<lparr>rq_cp = cp', rq_pkt = k', rq_dma = m'\<rparr>)"
    using cmd h(1) nz0 g(1) c nz unfolding bc K_def [symmetric]
    by (auto simp: ata_disk_iosetup_def iosetup_count_def Let_def ps(1) simp del: of_nat_mult)
  moreover note iosetup_command_spec [OF c cmd(1), unfolded K(1), OF cmd(2)]
  moreover have "dma_rest wins m' = drop t (concat (drop w wins))" using g(4) w(2) by simp
  ultimately show ?thesis
    using t(1,2) asked whole g(2,3) u S(3) masked_count [OF S(2)] K bs(3,4)
    by (intro exI [of _ t] exI [of _ "\<lparr>rq_cp = cp', rq_pkt = k', rq_dma = m'\<rparr>"] exI [of _ h'] exI [of _ ?T])
      (auto simp: set_bytes_def NBPSCTR_def simp del: of_nat_mult)
qed

text \<open>A read of two windows of two sectors each, from an unused packet.\<close>

definition rq_dma2 :: "(nat \<times> nat) disk_req" where
  "rq_dma2 = \<lparr>rq_cp = cmpkt0\<lparr>cp_bytexfer := 2048\<rparr>, rq_pkt = zero_ata_pkt\<lparr>ap_cdb := DCMD_READ\<rparr>,
     rq_dma = fst (snd (ghd_dma_buf_bind_attr True (DDI_DMA_PARTIAL_MAP (0, 0) (wins2 ! 0 ! 0) 2 (Some 2)) gdma0))\<rparr>"

lemma wins2_attr: "dma_handle_ok (ops2 wins2) wins2 Some" "dma_attr_ok 4 wins2" "cookie_bytes (wins2 ! 0) = 1024"
proof -
  show "dma_handle_ok (ops2 wins2) wins2 Some" by (rule ops2_ok) (simp add: wins2_def)
  show "dma_attr_ok 4 wins2" by (simp add: dma_attr_ok_def wins2_def cookie_bytes_def ATA_DMA_NSEGS_def NBPSCTR_def)
  show "cookie_bytes (wins2 ! 0) = 1024" by (simp add: cookie_bytes_def wins2_def)
qed

theorem disk_dma_request_witness:
  "\<exists>r'. ata_disk_iosetup (ops2 wins2) (disk0 0xe0) 4 rq_dma2 = (True, r') \<and> unat (cp_bytexfer (rq_cp r')) = 1024"
proof -
  have m: "cmd_dma_handle (rq_dma rq_dma2) = Some (0, 0)" "dma_between wins2 Some (0, 0) (rq_dma rq_dma2)"
    "dma_rest wins2 (rq_dma rq_dma2) = concat (drop 0 wins2)"
    by (simp_all add: rq_dma2_def ghd_dma_buf_bind_attr_def bind_init_def dma_between_def dma_rest_def wins2_def)
  have c: "cp_passthru (rq_cp rq_dma2) = None" "ap_cdb (rq_pkt rq_dma2) = DCMD_READ"
    "\<not> flag_set (ap_flags (rq_pkt rq_dma2)) AP_ERROR" "length (ap_sg_list (rq_pkt rq_dma2)) = ATA_DMA_NSEGS"
    "unat (cp_bytexfer (rq_cp rq_dma2)) = 2048"
    by (simp_all add: rq_dma2_def cmpkt0_def zero_ata_pkt_def flag_set_def)
  have "0 < length wins2" by (simp add: wins2_def)
  with disk_dma_request_is_window [OF wins2_attr(1,2) _ m(1,2) this m(3) c(1) disjI1 [OF c(2)] c(3,4), of "disk0 0xe0"]
  show ?thesis using c(5) wins2_attr(3) by (auto simp: NBPSCTR_def)
qed

subsection \<open>Well-formed packets\<close>

text \<open>The meaning of the transfer commands (ATA standard): does it read, is it DMA, is the address 48 bits wide.\<close>

definition transfer_kind :: "u8 \<Rightarrow> (bool \<times> bool \<times> bool) option" where
  "transfer_kind c = map_of
    [(0x20, (True, False, False)), (0xc4, (True, False, False)), (0xc8, (True, True, False)),
     (0x30, (False, False, False)), (0xc5, (False, False, False)), (0xca, (False, True, False)),
     (0x24, (True, False, True)), (0x29, (True, False, True)), (0x25, (True, True, True)),
     (0x34, (False, False, True)), (0x39, (False, False, True)), (0x35, (False, True, True))] c"

text \<open>The start callback that programs such a transfer and the interrupt callback that serves it.\<close>

fun transfer_callbacks :: "bool \<Rightarrow> bool \<Rightarrow> ap_start_fn \<times> ap_intr_fn" where
  "transfer_callbacks True True = (Start_ata_disk_start_dma_in, Intr_ata_disk_intr_dma)"
| "transfer_callbacks True False = (Start_ata_disk_start_pio_in, Intr_ata_disk_intr_pio_in)"
| "transfer_callbacks False True = (Start_ata_disk_start_dma_out, Intr_ata_disk_intr_dma)"
| "transfer_callbacks False False = (Start_ata_disk_start_pio_out, Intr_ata_disk_intr_pio_out)"

definition transfer_ok :: "bool \<Rightarrow> bool \<Rightarrow> ata_pkt \<Rightarrow> bool" where
  "transfer_ok reads ext k \<longleftrightarrow>
     transfer_kind (ap_cmd k) = Some (reads, ap_pciide_dma k, ext) \<and>
     (ap_start k, ap_intr k) = transfer_callbacks reads (ap_pciide_dma k) \<and>
     ap_flags k = (if reads then AP_READ else AP_WRITE) \<and> (ap_pciide_dma k \<longleftrightarrow> ap_sg_cnt k \<noteq> 0)"

text \<open>The commands a drive is set up with (\<open>ata_disk_setup_parms\<close>).\<close>

definition drive_cmds_ok :: "ata_drv \<Rightarrow> bool" where
  "drive_cmds_ok d \<longleftrightarrow> (ad_rd_cmd d, ad_wr_cmd d) \<in> {(ATC_RDSEC, ATC_WRSEC), (ATC_RDMULT, ATC_WRMULT)}"

lemma ext_command_kind:
  "ext_command ATC_RDSEC = 0x24" "ext_command ATC_WRSEC = 0x34" "ext_command ATC_RDMULT = 0x29"
  "ext_command ATC_WRMULT = 0x39" "ext_command ATC_READ_DMA = 0x25" "ext_command ATC_WRITE_DMA = 0x35"
  by (simp_all add: ext_command_def ATC_RDSEC_def ATC_WRSEC_def ATC_RDMULT_def ATC_WRMULT_def ATC_READ_DMA_def
      ATC_WRITE_DMA_def ATC_RDSEC_EXT_def ATC_WRSEC_EXT_def ATC_RDMULT_EXT_def ATC_WRMULT_EXT_def ATC_RDDMA_EXT_def ATC_WRDMA_EXT_def)

lemmas transfer_cmd_defs = ATC_RDSEC_def ATC_WRSEC_def ATC_RDMULT_def ATC_WRMULT_def ATC_READ_DMA_def ATC_WRITE_DMA_def

lemma iosetup_command_ok:
  assumes "iosetup_command d n cp k = (ok, cp', k')" "ap_flags k = 0" "\<not> ap_pciide_dma k" "drive_cmds_ok d" "ok"
    and "case cp_passthru cp of None \<Rightarrow> ap_cdb k = (if reads then DCMD_READ else DCMD_WRITE)
         | Some w \<Rightarrow> rw_cmd w = (if reads then DADKIO_RWCMD_READ else DADKIO_RWCMD_WRITE)"
  shows "transfer_ok reads (flag_set (ad_flags d) AD_EXT48) k'"
proof -
  define c where "c = (if reads then (case cp_passthru cp of None \<Rightarrow> ad_rd_cmd d | Some w \<Rightarrow> ATC_RDSEC)
    else (case cp_passthru cp of None \<Rightarrow> ad_wr_cmd d | Some w \<Rightarrow> ATC_WRSEC))"
  define cmd where "cmd = (if ap_sg_cnt k \<noteq> 0 then (if reads then ATC_READ_DMA else ATC_WRITE_DMA) else c)"
  have f: "ap_cmd k' = (if flag_set (ad_flags d) AD_EXT48 then ext_command cmd else cmd) \<and>
      ap_pciide_dma k' = (ap_sg_cnt k \<noteq> 0) \<and> ap_sg_cnt k' = ap_sg_cnt k \<and>
      (ap_start k', ap_intr k') = transfer_callbacks reads (ap_sg_cnt k \<noteq> 0) \<and>
      ap_flags k' = (if reads then AP_READ else AP_WRITE)"
    using assms(1-3,5,6)
    by (cases reads; cases "cp_passthru cp"; cases "ap_sg_cnt k = 0")
      (auto simp: iosetup_command_def setup_read_def setup_write_def c_def cmd_def Let_def)
  have "c \<in> (if reads then {ATC_RDSEC, ATC_RDMULT} else {ATC_WRSEC, ATC_WRMULT})"
    using assms(4) by (auto simp: c_def drive_cmds_ok_def split: option.splits)
  then have "transfer_kind (if flag_set (ad_flags d) AD_EXT48 then ext_command cmd else cmd) =
      Some (reads, ap_sg_cnt k \<noteq> 0, flag_set (ad_flags d) AD_EXT48)"
    by (cases reads; cases "ap_sg_cnt k = 0"; cases "flag_set (ad_flags d) AD_EXT48")
      (auto simp: cmd_def ext_command_kind, auto simp: transfer_kind_def transfer_cmd_defs)
  with f show ?thesis by (auto simp: transfer_ok_def)
qed

lemma dma_sg_loop_inv:
  shows "dma_sg_loop ops sg mx sz single t n ck h m s = (t', m', s') \<Longrightarrow> P s \<Longrightarrow>
    (\<And>ck b i s. P s \<Longrightarrow> P (sg ck b i s)) \<Longrightarrow> P s'"
proof (induction ops sg mx sz single t n ck h m s rule: dma_sg_loop.induct)
  case (1 ops sg mx sz single t n ck h m s)
  let ?m1 = "m\<lparr>cmd_cindex := cmd_cindex m + 1, cmd_dma_handle := Some h\<rparr>"
  have P: "P (sg ck single n s)" by (rule 1(4) [OF 1(3)])
  show ?case
  proof (cases "cmd_cindex ?m1 \<ge> cmd_ccount ?m1 \<or> t + dmac_size ck \<ge> mx \<or> n + 1 \<ge> sz")
    case True
    with 1(2) P show ?thesis by (subst (asm) dma_sg_loop.simps) (auto simp: Let_def split: if_splits)
  next
    case False
    obtain ck' h' where n: "ddi_dma_nextcookie ops h = (ck', h')" by fastforce
    with False 1(2) have "dma_sg_loop ops sg mx sz single (t + dmac_size ck) (n + 1) ck' h' ?m1 (sg ck single n s) = (t', m', s')"
      by (subst (asm) dma_sg_loop.simps) (simp add: Let_def)
    with 1(1) [OF refl refl refl refl _ _ _ n [symmetric] refl _ P 1(4)] False n show ?thesis by simp
  qed
qed

lemma dmaget_inv:
  assumes "ghd_dmaget_attr ops sg count sz h m s = Some (x, m', s')" "P s" "\<And>ck b i s. P s \<Longrightarrow> P (sg ck b i s)"
  shows "P s'"
  using assms(1,2) dma_sg_loop_inv [where P = P and sg = sg, OF _ _ assms(3)]
  by (auto simp: ghd_dmaget_attr_def ghd_dmaget_next_attr_def Let_def split: if_splits option.splits prod.splits) 

text \<open>Without DMA the setup is its two halves.\<close>

definition clear_setup :: "ata_pkt \<Rightarrow> ata_pkt" where
  "clear_setup k = k\<lparr>ap_flags := 0, ap_sg_cnt := 0, ap_pciide_dma := False\<rparr>"

lemma iosetup_nodma:
  assumes "iosetup_count max_transfer (rq_cp r) (rq_pkt r) = (n, k)" "iosetup_command d n (rq_cp r) (clear_setup k) = (ok, cp', k')"
    and "cmd_dma_handle (rq_dma r) = None \<or> \<not> flag_set (ap_flags (rq_pkt r)) AP_ERROR \<and> n = 0"
    and "cp_passthru (rq_cp r) \<noteq> None \<or> ap_cdb (rq_pkt r) \<noteq> DCMD_FLUSH_CACHE"
  shows "ata_disk_iosetup ops d max_transfer r = (ok, \<lparr>rq_cp = cp', rq_pkt = k', rq_dma = rq_dma r\<rparr>)"
  using assms by (cases "cmd_dma_handle (rq_dma r)") (auto simp: ata_disk_iosetup_def clear_setup_def Let_def)

text \<open>C11: every transfer that is set up is well formed.\<close>

theorem disk_iosetup_well_formed:
  assumes "ata_disk_iosetup ops d max_transfer r = (True, r')" "drive_cmds_ok d"
    and "case cp_passthru (rq_cp r) of None \<Rightarrow> ap_cdb (rq_pkt r) = (if reads then DCMD_READ else DCMD_WRITE)
         | Some w \<Rightarrow> rw_cmd w = (if reads then DADKIO_RWCMD_READ else DADKIO_RWCMD_WRITE)"
  shows "transfer_ok reads (flag_set (ad_flags d) AD_EXT48) (rq_pkt r')"
proof -
  define k where "k = clear_setup (snd (iosetup_count max_transfer (rq_cp r) (rq_pkt r)))"
  define P where "P k' \<longleftrightarrow> ap_flags k' = 0 \<and> \<not> ap_pciide_dma k' \<and> ap_cdb k' = ap_cdb (rq_pkt r)" for k' :: ata_pkt
  have Pk: "P k" by (auto simp: P_def k_def clear_setup_def iosetup_count_def Let_def)
  have fin: "transfer_ok reads (flag_set (ad_flags d) AD_EXT48) k'"
    if "iosetup_command d n (rq_cp r) k1 = (True, cp', k')" "P k1" for n k1 cp' k'
    using iosetup_command_ok [OF that(1) _ _ assms(2) TrueI, of reads] that(2) assms(3) by (cases "cp_passthru (rq_cp r)") (simp_all add: P_def)
  have nf: "\<not> (cp_passthru (rq_cp r) = None \<and> ap_cdb (rq_pkt r) = DCMD_FLUSH_CACHE)" using assms(3) by (cases reads) auto
  have "\<exists>n k1 cp' k'. iosetup_command d n (rq_cp r) k1 = (True, cp', k') \<and> P k1 \<and> rq_pkt r' = k'"
  proof (cases "cmd_dma_handle (rq_dma r) = None \<or> fst (iosetup_count max_transfer (rq_cp r) (rq_pkt r)) = 0")
    case True
    obtain n k0 where c: "iosetup_count max_transfer (rq_cp r) (rq_pkt r) = (n, k0)" by fastforce
    obtain ok cp' k' where e: "iosetup_command d n (rq_cp r) k = (ok, cp', k')" using prod_cases3 by blast
    have "cmd_dma_handle (rq_dma r) = None \<or> \<not> flag_set (ap_flags (rq_pkt r)) AP_ERROR \<and> n = 0"
      using True c assms(1) nf by (auto simp: ata_disk_iosetup_def split: if_splits)
    from iosetup_nodma [OF c _ this, of d ok cp' k' ops] e nf c assms(1)
    have "ok" "rq_pkt r' = k'" by (auto simp: k_def)
    then have "iosetup_command d n (rq_cp r) k = (True, cp', k')" "rq_pkt r' = k'" using e by simp_all
    with Pk show ?thesis by blast
  next
    case False
    then obtain h where h: "cmd_dma_handle (rq_dma r) = Some h" by auto
    obtain n k0 where c: "iosetup_count max_transfer (rq_cp r) (rq_pkt r) = (n, k0)" by fastforce
    with False h assms(1) nf obtain x m' k1 where
      g: "ghd_dmaget_attr ops (\<lambda>ck single i k. ata_pciide_dma_sg_func ck i k) (ucast (push_bit SCTRSHFT n)) ATA_DMA_NSEGS h
            (rq_dma r) k = Some (x, m', k1)"
      and e: "(case iosetup_command d (drop_bit SCTRSHFT x) (rq_cp r) k1 of (ok, cp, k) \<Rightarrow> (ok, \<lparr>rq_cp = cp, rq_pkt = k, rq_dma = m'\<rparr>)) = (True, r')"
      by (auto simp: ata_disk_iosetup_def Let_def k_def clear_setup_def split: if_splits option.splits)
    have "P k1" by (rule dmaget_inv [where P = P, OF g Pk]) (simp add: P_def ata_pciide_dma_sg_func_def Let_def)
    moreover obtain cp' k' where "iosetup_command d (drop_bit SCTRSHFT x) (rq_cp r) k1 = (True, cp', k')" "rq_pkt r' = k'"
      using e by (auto split: prod.splits)
    ultimately show ?thesis by blast
  qed
  with fin show ?thesis by blast
qed

theorem disk_iosetup_well_formed_witness:
  "\<exists>r'. ata_disk_iosetup (ops2 wins2) ((disk0 0xe0)\<lparr>ad_rd_cmd := ATC_RDMULT, ad_wr_cmd := ATC_WRMULT\<rparr>) 4
      (rq_dma2\<lparr>rq_dma := gdma0\<rparr>) = (True, r') \<and> transfer_ok True False (rq_pkt r')"
proof -
  let ?d = "(disk0 0xe0)\<lparr>ad_rd_cmd := ATC_RDMULT, ad_wr_cmd := ATC_WRMULT\<rparr>" and ?r = "rq_dma2\<lparr>rq_dma := gdma0\<rparr>"
  obtain n k where c: "iosetup_count 4 (rq_cp ?r) (rq_pkt ?r) = (n, k)" by fastforce
  obtain ok cp' k' where e: "iosetup_command ?d n (rq_cp ?r) (clear_setup k) = (ok, cp', k')" using prod_cases3 by blast
  have r: "cmd_dma_handle (rq_dma ?r) = None" "cp_passthru (rq_cp ?r) = None" "ap_cdb (rq_pkt ?r) = DCMD_READ"
    by (simp_all add: gdma0_def rq_dma2_def cmpkt0_def)
  then have "ap_cdb (clear_setup k) = DCMD_READ" using c by (auto simp: iosetup_count_def clear_setup_def Let_def split: if_splits)
  then have "ok" using iosetup_command_spec [OF e r(2)] by simp
  moreover have s: "ata_disk_iosetup (ops2 wins2) ?d 4 ?r = (ok, \<lparr>rq_cp = cp', rq_pkt = k', rq_dma = rq_dma ?r\<rparr>)"
    by (rule iosetup_nodma [OF c e]) (use r in simp_all)
  moreover have "drive_cmds_ok ?d" by (simp add: drive_cmds_ok_def)
  moreover have "\<not> flag_set (ad_flags ?d) AD_EXT48" by (simp add: disk0_def flag_set_def)
  ultimately show ?thesis
    using disk_iosetup_well_formed [of "ops2 wins2" ?d 4 ?r _ True] r by simp
qed

text \<open>A programmed transfer that failed is repeated from where it began.\<close>

theorem disk_pio_retry_restarts:
  assumes first: "ata_disk_iosetup ops d max_transfer r = (True, r1)" "\<not> flag_set (ap_flags (rq_pkt r)) AP_ERROR"
    and cmd: "cmd_dma_handle (rq_dma r) = None" "cp_passthru (rq_cp r) = None"
      "ap_cdb (rq_pkt r) = (if reads then DCMD_READ else DCMD_WRITE)"
    and failed: "rq_pkt r2 = (rq_pkt r1)\<lparr>ap_v_addr := a, ap_resid := n, ap_status := st, ap_error := er, ap_scb := sc,
      ap_flags := ap_flags (rq_pkt r1) OR AP_ERROR OR fl\<rparr>" "rq_cp r2 = (rq_cp r1)\<lparr>cp_resid := m, cp_reason := why\<rparr>" "rq_dma r2 = rq_dma r1"
  shows "\<exists>r3. ata_disk_iosetup ops d max_transfer r2 = (True, r3) \<and>
     ap_v_addr (rq_pkt r3) = ap_v_addr (rq_pkt r) \<and> ap_startsec (rq_pkt r3) = ap_startsec (rq_pkt r1) \<and>
     ap_count (rq_pkt r3) = 1 \<and> ap_bytes_per_block (rq_pkt r3) = of_nat NBPSCTR \<and>
     ap_resid (rq_pkt r3) = of_nat NBPSCTR \<and> cp_bytexfer (rq_cp r3) = of_nat NBPSCTR \<and>
     ap_flags (rq_pkt r3) = (if reads then AP_READ else AP_WRITE) \<and> ap_start (rq_pkt r3) = ap_start (rq_pkt r1)"
proof -
  obtain n1 k1 where c: "iosetup_count max_transfer (rq_cp r) (rq_pkt r) = (n1, k1)" by fastforce
  obtain ok cp' k' where e: "iosetup_command d n1 (rq_cp r) (clear_setup k1) = (ok, cp', k')" using prod_cases3 by blast
  have nf: "cp_passthru (rq_cp r) \<noteq> None \<or> ap_cdb (rq_pkt r) \<noteq> DCMD_FLUSH_CACHE" using cmd(3) by simp
  have r1: "r1 = \<lparr>rq_cp = cp', rq_pkt = k', rq_dma = rq_dma r\<rparr>"
    using iosetup_nodma [OF c e _ nf] cmd(1) first(1) by simp
  have k1: "ap_v_addr_sav k1 = ap_v_addr (rq_pkt r)" "ap_cdb k1 = ap_cdb (rq_pkt r)"
    using c first(2) by (auto simp: iosetup_count_def)
  then have cdb: "ap_cdb (clear_setup k1) = DCMD_READ \<or> ap_cdb (clear_setup k1) = DCMD_WRITE"
    using cmd(3) by (simp add: clear_setup_def)
  note s1 = iosetup_command_spec [OF e cmd(2) cdb]
  have k': "ap_cdb k' = ap_cdb (rq_pkt r)" "ap_flags k' = (if reads then AP_READ else AP_WRITE)"
    "ap_start k' = (if reads then Start_ata_disk_start_pio_in else Start_ata_disk_start_pio_out)"
    using s1 k1(2) cmd(3) by (auto simp: clear_setup_def)
  define k2 where "k2 = rq_pkt r2"
  have fl: "flag_set (ap_flags k2) AP_ERROR" "ap_flags k2 AND (AP_READ OR AP_WRITE) \<noteq> 0"
  proof -
    have "ap_flags k2 = (if reads then AP_READ else AP_WRITE) OR AP_ERROR OR fl"
      using failed(1) r1 k'(2) by (simp add: k2_def)
    moreover have "bit AP_ERROR 1" "bit AP_READ 3" "bit AP_WRITE 4"
      by (simp_all add: AP_ERROR_def AP_READ_def AP_WRITE_def bit_numeral_rec)
    ultimately have "bit (ap_flags k2 AND AP_ERROR) 1" "bit (ap_flags k2 AND (AP_READ OR AP_WRITE)) (if reads then 3 else 4)"
      by (auto simp: bit_and_iff bit_or_iff)
    moreover have nz: "bit x i \<Longrightarrow> x \<noteq> 0" for x :: u32 and i by auto
    ultimately show "flag_set (ap_flags k2) AP_ERROR" "ap_flags k2 AND (AP_READ OR AP_WRITE) \<noteq> 0"
      unfolding flag_set_def by (blast intro: nz)+
  qed
  obtain k3 where c2: "iosetup_count max_transfer (rq_cp r2) k2 = (1, k3)"
      "ap_v_addr k3 = ap_v_addr_sav k2" "ap_bytes_per_block k3 = of_nat NBPSCTR" "ap_cdb k3 = ap_cdb k2"
    using fl by (auto simp: iosetup_count_def Let_def)
  obtain ok2 cp3 k4 where e2: "iosetup_command d 1 (rq_cp r2) (clear_setup k3) = (ok2, cp3, k4)" using prod_cases3 by blast
  have r2: "cp_passthru (rq_cp r2) = None" "ap_cdb k2 = ap_cdb (rq_pkt r)" "cp_srtsec (rq_cp r2) = cp_srtsec (rq_cp r)"
    "ap_v_addr_sav k2 = ap_v_addr (rq_pkt r)" "cmd_dma_handle (rq_dma r2) = None"
    using failed r1 cmd(1,2) s1 k'(1) k1(1) by (simp_all add: k2_def set_bytes_def clear_setup_def)
  have i2: "ata_disk_iosetup ops d max_transfer r2 = (ok2, \<lparr>rq_cp = cp3, rq_pkt = k4, rq_dma = rq_dma r2\<rparr>)"
    by (rule iosetup_nodma [OF c2(1) [unfolded k2_def] e2]) (use r2 nf cmd(2) in \<open>simp_all add: k2_def\<close>)
  have cdb2: "ap_cdb (clear_setup k3) = DCMD_READ \<or> ap_cdb (clear_setup k3) = DCMD_WRITE"
    using cmd(3) c2(4) r2(2) by (simp add: clear_setup_def)
  note s2 = iosetup_command_spec [OF e2 r2(1) cdb2]
  have k4: "ap_flags k4 = (if reads then AP_READ else AP_WRITE)"
    "ap_start k4 = (if reads then Start_ata_disk_start_pio_in else Start_ata_disk_start_pio_out)"
    using s2 c2(4) r2(2) cmd(3) by (auto simp: clear_setup_def)
  have one: "ucast (1 :: u32) = (1 :: u16)" "(1 :: u16) AND 0xff = 1" "ucast (push_bit SCTRSHFT (1 :: u32)) = (512 :: u64)"
    by (simp_all add: SCTRSHFT_def)
  show ?thesis
    using i2 s2 k4 k' c2 r2 s1 r1 one by (auto simp: clear_setup_def set_bytes_def NBPSCTR_def)
qed

theorem disk_pio_retry_witness:
  "\<exists>r1 r3. ata_disk_iosetup (ops2 wins2) (disk0 0xe0) 4 (rq_dma2\<lparr>rq_dma := gdma0\<rparr>) = (True, r1) \<and>
     ata_disk_iosetup (ops2 wins2) (disk0 0xe0) 4
       (r1\<lparr>rq_pkt := (rq_pkt r1)\<lparr>ap_v_addr := 512, ap_resid := 0, ap_status := 0x51, ap_error := 0x40, ap_scb := DERR_UNC,
          ap_flags := ap_flags (rq_pkt r1) OR AP_ERROR OR 0\<rparr>, rq_cp := (rq_cp r1)\<lparr>cp_resid := 0, cp_reason := CPS_CHKERR\<rparr>\<rparr>) = (True, r3) \<and>
     ap_v_addr (rq_pkt r3) = 0 \<and> ap_count (rq_pkt r3) = 1"
proof -
  let ?r = "rq_dma2\<lparr>rq_dma := gdma0\<rparr>" and ?d = "disk0 0xe0"
  have r: "cmd_dma_handle (rq_dma ?r) = None" "cp_passthru (rq_cp ?r) = None" "ap_cdb (rq_pkt ?r) = DCMD_READ"
    "ap_v_addr (rq_pkt ?r) = 0" "\<not> flag_set (ap_flags (rq_pkt ?r)) AP_ERROR"
    by (simp_all add: gdma0_def rq_dma2_def cmpkt0_def zero_ata_pkt_def flag_set_def)
  obtain n k where c: "iosetup_count 4 (rq_cp ?r) (rq_pkt ?r) = (n, k)" by fastforce
  obtain ok cp' k' where e: "iosetup_command ?d n (rq_cp ?r) (clear_setup k) = (ok, cp', k')" using prod_cases3 by blast
  have "ap_cdb (clear_setup k) = DCMD_READ" using c r(3) by (auto simp: iosetup_count_def clear_setup_def Let_def split: if_splits)
  then have "ok" using iosetup_command_spec [OF e r(2)] by simp
  with iosetup_nodma [OF c e, of "ops2 wins2"] r obtain r1 where
    r1: "ata_disk_iosetup (ops2 wins2) ?d 4 ?r = (True, r1)" by simp
  show ?thesis
    using disk_pio_retry_restarts [OF r1 r(5,1,2), of True
        "r1\<lparr>rq_pkt := (rq_pkt r1)\<lparr>ap_v_addr := 512, ap_resid := 0, ap_status := 0x51, ap_error := 0x40, ap_scb := DERR_UNC,
          ap_flags := ap_flags (rq_pkt r1) OR AP_ERROR OR 0\<rparr>, rq_cp := (rq_cp r1)\<lparr>cp_resid := 0, cp_reason := CPS_CHKERR\<rparr>\<rparr>"
        0 DERR_UNC "0x40" "0x51" 0 512 CPS_CHKERR 0] r r1 by auto
qed

end
