(* ===== verification/Ata_Ident.thy ===== *)
theory Ata_Ident
  imports Ata_Iosetup
begin

text \<open>
  Finding and setting up drives (\<open>ata_common.c\<close>, \<open>atapi.c\<close>, \<open>ata_disk.c\<close>, \<open>ata_blacklist.c\<close>): the model
  name comparison and the blacklists, the type of a drive, initialising an ATAPI drive and a
  disk, \<open>ata_init_drive\<close>, and the decisions whether to use bus master DMA.

  Properties of the device tree are the kernel's: they are arguments, collected in records.
\<close>

subsection \<open>Comparing model names\<close>

text \<open>A C string is the list of its bytes before the NUL; a fixed-width field is the list of its bytes.
  \<open>None\<close> is a read beyond the end of the C string. The inner loop of \<open>ata_strncmp\<close>: the rest of both.\<close>

abbreviation blank :: u8 where "blank \<equiv> 0x20"

definition skip_blanks :: "u8 list \<Rightarrow> u8 list" where
  "skip_blanks = dropWhile (\<lambda>c. c = blank)"

fun strn_match :: "u8 list \<Rightarrow> u8 list \<Rightarrow> (u8 list \<times> u8 list) option" where
  "strn_match p1 [] = Some (p1, [])"
| "strn_match [] (c # p2) = (if c = 0 then None else Some ([], c # p2))"
| "strn_match (b # p1) (c # p2) = (if b = c then strn_match p1 p2 else Some (b # p1, c # p2))"

lemma strn_match_shorter: "strn_match p1 p2 = Some (r1, r2) \<Longrightarrow> length r2 \<le> length p2"
  by (induction p1 p2 rule: strn_match.induct) (auto split: if_splits)

lemma skip_blanks_shorter: "length (skip_blanks p) \<le> length p"
  by (simp add: skip_blanks_def length_dropWhile_le)

function ata_strncmp :: "u8 list \<Rightarrow> u8 list \<Rightarrow> bool option" where
  "ata_strncmp p1 p2 =
    (let p1 = skip_blanks p1; p2 = skip_blanks p2
     in if p2 = [] then Some (p1 = [])
        else if (case p1 of [] \<Rightarrow> 0 | b # _ \<Rightarrow> b) \<noteq> hd p2 then Some (p1 = [])
        else (case strn_match p1 p2 of
                None \<Rightarrow> None
              | Some (r1, r2) \<Rightarrow> ata_strncmp r1 r2))"
  by pat_completeness auto
termination
proof (relation "measure (\<lambda>(p1, p2). length p2)", simp, goal_cases)
  case (1 p1 p2 q1 q2 y r1 r2)
  have s: "strn_match q1 q2 = Some (r1, r2)" and ne: "q2 \<noteq> []" and e: "(case q1 of [] \<Rightarrow> 0 | b # _ \<Rightarrow> b) = hd q2"
    using 1 by simp_all
  then have "length r2 < length q2"
    by (cases q1; cases q2) (auto split: if_splits dest!: strn_match_shorter)
  moreover have "length q2 \<le> length p2" using 1 skip_blanks_shorter by simp
  ultimately show ?case by simp
qed

declare ata_strncmp.simps [simp del]

subsection \<open>The blacklists\<close>

definition ATA_BL_BOGUS :: u32 where "ATA_BL_BOGUS = 0x1"
definition ATA_BL_NODMA :: u32 where "ATA_BL_NODMA = 0x2"
definition ATA_BL_1SECTOR :: u32 where "ATA_BL_1SECTOR = 0x4"
definition ATA_BL_BMSTATREG_PIO_BROKEN :: u32 where "ATA_BL_BMSTATREG_PIO_BROKEN = 0x8"
definition ATA_BL_NORVRT :: u32 where "ATA_BL_NORVRT = 0x10"
definition ATA_BL_NO_SIMPLEX :: u32 where "ATA_BL_NO_SIMPLEX = 0x20"

definition c_string :: "string \<Rightarrow> u8 list" where
  "c_string = map of_char"

definition sol11ata_drive_blacklist :: "(u8 list \<times> u32) list" where
  "sol11ata_drive_blacklist =
    [(c_string ''NEC CD-ROM DRIVE:260'', ATA_BL_1SECTOR),
     (c_string ''NEC CD-ROM DRIVE:272'', ATA_BL_1SECTOR),
     (c_string ''NEC CD-ROM DRIVE:273'', ATA_BL_1SECTOR),
     (c_string ''FX001DE'', ATA_BL_1SECTOR),
     (c_string ''fubar'', ATA_BL_NODMA OR ATA_BL_1SECTOR OR ATA_BL_NORVRT OR ATA_BL_BOGUS OR ATA_BL_BMSTATREG_PIO_BROKEN)]"

fun drive_blacklist_from :: "(u8 list \<times> u32) list \<Rightarrow> u8 list \<Rightarrow> u32 \<Rightarrow> bool option" where
  "drive_blacklist_from [] model flags = Some False"
| "drive_blacklist_from ((b_model, b_flags) # blp) model flags =
    (case ata_strncmp b_model model of
       None \<Rightarrow> None
     | Some False \<Rightarrow> drive_blacklist_from blp model flags
     | Some True \<Rightarrow> Some (b_flags AND flags \<noteq> 0))"

definition ata_check_drive_blacklist :: "ata_id \<Rightarrow> u32 \<Rightarrow> bool option" where
  "ata_check_drive_blacklist idp flags = drive_blacklist_from sol11ata_drive_blacklist (ai_model idp) flags"

record pcibl_t =
  b_vendorid :: u32
  b_vmask :: u32
  b_deviceid :: u32
  b_dmask :: u32
  b_flags :: u32

definition sol11ata_pciide_blacklist :: "pcibl_t list" where
  "sol11ata_pciide_blacklist =
    [\<lparr>b_vendorid = 0x100b, b_vmask = 0xffff, b_deviceid = 0x2, b_dmask = 0xffff, b_flags = ATA_BL_BOGUS\<rparr>,
     \<lparr>b_vendorid = 0x1095, b_vmask = 0xffff, b_deviceid = 0x0646, b_dmask = 0xffff,
       b_flags = ATA_BL_BMSTATREG_PIO_BROKEN OR ATA_BL_NODMA\<rparr>,
     \<lparr>b_vendorid = 0x1166, b_vmask = 0xffff, b_deviceid = 0x0212, b_dmask = 0xffff,
       b_flags = ATA_BL_BMSTATREG_PIO_BROKEN OR ATA_BL_NO_SIMPLEX\<rparr>,
     \<lparr>b_vendorid = 0x1166, b_vmask = 0xffff, b_deviceid = 0x0213, b_dmask = 0xffff,
       b_flags = ATA_BL_BMSTATREG_PIO_BROKEN\<rparr>]"

text \<open>The entries of the property \<open>pci-ide-blacklist\<close>, of which the first match decides; then the built-in list.\<close>

fun pci_property_match :: "pcibl_t list \<Rightarrow> u32 \<Rightarrow> u32 \<Rightarrow> u32 \<Rightarrow> bool option" where
  "pci_property_match [] vendorid deviceid flags = None"
| "pci_property_match (b # blp) vendorid deviceid flags =
    (if vendorid AND b_vmask b \<noteq> b_vendorid b AND b_vmask b then pci_property_match blp vendorid deviceid flags
     else if deviceid AND b_dmask b \<noteq> b_deviceid b AND b_dmask b then pci_property_match blp vendorid deviceid flags
     else Some (b_flags b AND flags \<noteq> 0))"

fun pci_builtin_match :: "pcibl_t list \<Rightarrow> u32 \<Rightarrow> u32 \<Rightarrow> u32 \<Rightarrow> bool" where
  "pci_builtin_match [] vendorid deviceid flags = False"
| "pci_builtin_match (b # blp) vendorid deviceid flags =
    (if vendorid AND b_vmask b \<noteq> b_vendorid b then pci_builtin_match blp vendorid deviceid flags
     else if deviceid AND b_dmask b \<noteq> b_deviceid b then pci_builtin_match blp vendorid deviceid flags
     else if b_flags b AND flags = 0 then pci_builtin_match blp vendorid deviceid flags
     else True)"

text \<open>What the device tree says of the controller.\<close>

record ctl_props =
  pr_vendor_id :: u16
  pr_device_id :: u16
  pr_class_code :: u32
  pr_blacklist :: "pcibl_t list"   \<comment> \<open>empty when there is no property\<close>
  pr_options :: u32                \<comment> \<open>\<open>sol11ata-options\<close>\<close>

definition ata_check_pciide_blacklist :: "ctl_props \<Rightarrow> u32 \<Rightarrow> bool" where
  "ata_check_pciide_blacklist pr flags =
    (let vendorid = ucast (pr_vendor_id pr); deviceid = ucast (pr_device_id pr)
     in case pci_property_match (pr_blacklist pr) vendorid deviceid flags of
          Some r \<Rightarrow> r
        | None \<Rightarrow> pci_builtin_match sol11ata_pciide_blacklist vendorid deviceid flags)"

definition squeeze :: "u8 list \<Rightarrow> u8 list" where
  "squeeze = filter (\<lambda>c. c \<noteq> blank)"

lemma squeeze_append [simp]: "squeeze (xs @ ys) = squeeze xs @ squeeze ys" by (simp add: squeeze_def)

lemma squeeze_skip_blanks [simp]: "squeeze (skip_blanks p) = squeeze p"
  by (induction p) (simp_all add: squeeze_def skip_blanks_def)

lemma skip_blanks_cases: "skip_blanks p = [] \<and> squeeze p = [] \<or> (\<exists>c r. skip_blanks p = c # r \<and> c \<noteq> blank \<and> squeeze p = c # squeeze r)"
  by (induction p) (auto simp: squeeze_def skip_blanks_def)

lemma strn_match_spec:
  assumes "0 \<notin> set p1"
  shows "case strn_match p1 p2 of
      None \<Rightarrow> \<exists>r. p2 = p1 @ 0 # r
    | Some (r1, r2) \<Rightarrow> \<exists>m. p1 = m @ r1 \<and> p2 = m @ r2"
  using assms
proof (induction p1 p2 rule: strn_match.induct)
  case (3 b p1 c p2)
  show ?case
  proof (cases "b = c")
    case True
    note ih = 3(1) [OF True]
    show ?thesis
    proof (cases "strn_match p1 p2")
      case None
      with ih 3(2) True show ?thesis by simp
    next
      case (Some a)
      obtain r1 r2 where a: "a = (r1, r2)" by fastforce
      with ih 3(2) Some obtain m where "p1 = m @ r1" "p2 = m @ r2" by auto
      then have "b # p1 = (b # m) @ r1" "b # p2 = (b # m) @ r2" by simp_all
      with Some a True show ?thesis by auto
    qed
  qed simp
qed auto

lemma ata_strncmp_spec:
  assumes "0 \<notin> set p1"
  shows "ata_strncmp p1 p2 =
    (if prefix (squeeze p1 @ [0]) (squeeze p2) then None else Some (prefix (squeeze p1) (squeeze p2)))"
  using assms
proof (induction p1 p2 rule: ata_strncmp.induct)
  case (1 p1 p2)
  define q1 q2 where "q1 = skip_blanks p1" and "q2 = skip_blanks p2"
  have nz: "0 \<notin> set q1" using 1(2) by (auto simp: q1_def skip_blanks_def dest: set_dropWhileD)
  have unf: "ata_strncmp p1 p2 =
    (if q2 = [] then Some (q1 = []) else if (case q1 of [] \<Rightarrow> 0 | b # _ \<Rightarrow> b) \<noteq> hd q2 then Some (q1 = [])
     else (case strn_match q1 q2 of None \<Rightarrow> None | Some (r1, r2) \<Rightarrow> ata_strncmp r1 r2))"
    by (subst ata_strncmp.simps) (simp add: Let_def q1_def q2_def)
  have sq: "squeeze p1 = squeeze q1" "squeeze p2 = squeeze q2" by (simp_all add: q1_def q2_def)
  note c1 = skip_blanks_cases [of p1, folded q1_def, unfolded sq] and c2 = skip_blanks_cases [of p2, folded q2_def, unfolded sq]
  show ?case
  proof (cases "q2 = [] \<or> (case q1 of [] \<Rightarrow> 0 | b # _ \<Rightarrow> b) \<noteq> hd q2")
    case True
    then show ?thesis using c1 c2 unfolding unf sq by (elim disjE exE conjE) auto
  next
    case False
    show ?thesis
    proof (cases "strn_match q1 q2")
      case None
      then obtain r where "q2 = q1 @ 0 # r" using strn_match_spec [OF nz, of q2] by auto
      moreover have "squeeze (0 # r) = 0 # squeeze r" by (simp add: squeeze_def)
      ultimately show ?thesis using False None unfolding unf sq by simp
    next
      case (Some a)
      then obtain r1 r2 m where s: "strn_match q1 q2 = Some (r1, r2)" "q1 = m @ r1" "q2 = m @ r2"
        using strn_match_spec [OF nz, of q2] by (cases a) auto
      have "0 \<notin> set r1" using nz s(2) by simp
      then have "ata_strncmp r1 r2 =
          (if prefix (squeeze r1 @ [0]) (squeeze r2) then None else Some (prefix (squeeze r1) (squeeze r2)))"
        using 1(1) [OF q1_def q2_def, of "(r1, r2)" r1 r2] False s(1) by simp
      moreover have "ata_strncmp p1 p2 = ata_strncmp r1 r2" using False s(1) by (simp only: unf if_False de_Morgan_disj) simp
      ultimately show ?thesis unfolding sq s(2,3) by simp
    qed
  qed
qed

text \<open>comparing model names.\<close>

theorem ata_strncmp_correct:
  assumes "0 \<notin> set p1"
  shows "ata_strncmp p1 p2 =
    (if prefix (squeeze p1 @ [0]) (squeeze p2) then None else Some (prefix (squeeze p1) (squeeze p2)))"
  using assms by (rule ata_strncmp_spec)

theorem ata_strncmp_witness:
  "ata_strncmp (c_string ''NEC CD-ROM'') (c_string '' NEC  CD-ROM DRIVE:260'') = Some True"
proof -
  have "0 \<notin> set (c_string ''NEC CD-ROM'')" by (simp add: c_string_def of_char_def)
  from ata_strncmp_correct [OF this, of "c_string '' NEC  CD-ROM DRIVE:260''"] show ?thesis
    by (simp add: c_string_def of_char_def squeeze_def)
qed

subsection \<open>The type of a drive\<close>

definition ATC_ID_PACKET_DEVICE :: u8 where "ATC_ID_PACKET_DEVICE = 0xa1"
definition ATAC_ATAPI_TYPE_MASK :: u16 where "ATAC_ATAPI_TYPE_MASK = 0xc000"
definition ATAC_ATAPI_TYPE :: u16 where "ATAC_ATAPI_TYPE = 0x8000"
definition ATAPI_SIG_HI :: u8 where "ATAPI_SIG_HI = 0xeb"
definition ATAPI_SIG_LO :: u8 where "ATAPI_SIG_LO = 0x14"
definition ATAPI_ID_CFG_PKT_SZ :: u16 where "ATAPI_ID_CFG_PKT_SZ = 0x3"
definition ATAPI_ID_CFG_PKT_12B :: u16 where "ATAPI_ID_CFG_PKT_12B = 0x0"
definition ATAPI_ID_CFG_PKT_16B :: u16 where "ATAPI_ID_CFG_PKT_16B = 0x1"
definition ATAPI_ID_CFG_DRQ_TYPE :: u16 where "ATAPI_ID_CFG_DRQ_TYPE = 0x60"
definition ATAPI_ID_CFG_DRQ_INTR :: u16 where "ATAPI_ID_CFG_DRQ_INTR = 0x20"

definition sol11atapi_id :: "device \<Rightarrow> iolog \<Rightarrow> (bool \<times> ata_id \<times> iolog) option" where
  "sol11atapi_id dev l = do {
     (rc, ws, l) \<leftarrow> ata_id_common dev ATC_ID_PACKET_DEVICE False l;
     let idp = ata_id_of_words ws;
     if \<not> rc then Some (False, idp, l)
     else if ai_config idp AND ATAC_ATAPI_TYPE_MASK \<noteq> ATAC_ATAPI_TYPE then Some (False, idp, l)
     else Some (True, idp, l)
   }"

text \<open>The low byte is compared with \<open>!=\<close>, as the code does.\<close>

definition sol11atapi_signature :: "device \<Rightarrow> iolog \<Rightarrow> bool \<times> iolog" where
  "sol11atapi_signature dev l =
    (let (hi, l) = ddi_get8 dev AC_HCYL l;
         (rc, l) = (if hi = ATAPI_SIG_HI then (let (lo, l) = ddi_get8 dev AC_LCYL l in (lo \<noteq> ATAPI_SIG_LO, l)) else (False, l));
         l = ddi_put8 AC_HCYL 0 l;
         l = ddi_put8 AC_LCYL 0 l
     in (rc, l))"

definition sol11atapi_init_drive :: "ata_drv \<Rightarrow> bool \<times> ata_drv" where
  "sol11atapi_init_drive d =
    (let config = ai_config (ad_id d);
         sz = config AND ATAPI_ID_CFG_PKT_SZ;
         finish = (\<lambda>d. (True, if config AND ATAPI_ID_CFG_DRQ_TYPE \<noteq> ATAPI_ID_CFG_DRQ_INTR
                              then d\<lparr>ad_flags := ad_flags d OR AD_NO_CDB_INTR\<rparr> else d))
     in if sz = ATAPI_ID_CFG_PKT_12B then finish (d\<lparr>ad_cdb_len := 12\<rparr>)
        else if sz = ATAPI_ID_CFG_PKT_16B then finish (d\<lparr>ad_cdb_len := 16\<rparr>)
        else (False, d))"

datatype ata_dev_type = ATA_DEV_NONE | ATA_DEV_DISK | ATA_DEV_ATAPI

text \<open>The identify data is the buffer's last contents. \<open>ATA_DISABLE_ATAPI_1_7\<close> is not defined.\<close>

definition ata_drive_type :: "device \<Rightarrow> u8 \<Rightarrow> iolog \<Rightarrow> (ata_dev_type \<times> ata_id \<times> iolog) option" where
  "ata_drive_type dev drvhd l = do {
     let l = ddi_put8 AC_DRVHD drvhd l;
     let l = ATA_DELAY_400NSEC dev l;
     (_, l) \<leftarrow> ata_wait3 dev 0 ATS_BSY 0x7f 0 0x7f 0 (5 * 1000000) l;
     let (status, l) = ddi_get8 dev AC_ALTSTATUS l;
     if status AND ATS_BSY \<noteq> 0 then Some (ATA_DEV_NONE, ata_id_of_words (replicate 256 0), l)
     else do {
       (disk, idp, l) \<leftarrow> sol11ata_disk_id dev l;
       if disk then Some (ATA_DEV_DISK, idp, l)
       else do {
         let (sig, l) = sol11atapi_signature dev l;
         if \<not> sig then do {
           (atapi, idp, l) \<leftarrow> sol11atapi_id dev l;
           if atapi then Some (ATA_DEV_ATAPI, idp, l) else Some (ATA_DEV_NONE, idp, l)
         } else do {
           (atapi, idp, l) \<leftarrow> sol11atapi_id dev l;
           if atapi then Some (ATA_DEV_ATAPI, idp, l) else Some (ATA_DEV_NONE, idp, l)
         }
       }
     }
   }"

subsection \<open>Initialising a disk\<close>

definition AD_DISK :: u32 where "AD_DISK = 0x02"
definition AD_MUTEX_INIT :: u32 where "AD_MUTEX_INIT = 0x04"
definition AD_1SECTOR :: u32 where "AD_1SECTOR = 0x40"
definition AD_NORVRT :: u32 where "AD_NORVRT = 0x100"

text \<open>What the device tree says of a drive: the BIOS geometry (three \<open>short\<close>s), the block factor.\<close>

record drv_props =
  pr_chs :: "(u16 \<times> u16 \<times> u16) option"
  pr_block_factor :: "int option"
  pr_revert_model :: "u8 list \<Rightarrow> int"     \<comment> \<open>the property of that name, or -1\<close>
  pr_revert_global :: int
  pr_dma :: bool
  pr_disk_dma :: bool
  pr_cd_dma :: bool
  pr_atapi_dma :: bool

text \<open>The first part: physical geometry, LBA, capacity and the geometry to report. \<open>None\<close> is a division by zero.\<close>

definition disk_bios_geometry :: "u16 \<Rightarrow> u16 \<Rightarrow> u16 \<Rightarrow> ata_drv \<Rightarrow> ata_drv" where
  "disk_bios_geometry chs0 chs1 chs2 d =
    (let chs0 = (if scast chs1 = ad_drvrhd d - 1 \<and> scast chs2 = ad_drvrsec d then ai_fixcyls (ad_id d) - 1 else chs0)
     in d\<lparr>ad_drvrcyl := scast chs0 + 1, ad_drvrhd := scast chs1 + 1, ad_drvrsec := scast chs2\<rparr>)"

definition disk_lba_geometry :: "ata_drv \<Rightarrow> ata_drv option" where
  "disk_lba_geometry d =
    (let d = d\<lparr>ad_flags := ad_flags d OR AD_INT13LBA\<rparr>; track = ad_drvrhd d * ad_drvrsec d
     in if ad_capacity d \<noteq> 0
        then (if track = 0 then None else Some (d\<lparr>ad_drvrcyl := ucast (ad_capacity d div ucast track)\<rparr>))
        else Some (d\<lparr>ad_drvrcyl := 1025, ad_drvrhd := 1, ad_drvrsec := 1\<rparr>))"

definition disk_geometry :: "drv_props \<Rightarrow> ata_drv \<Rightarrow> ata_drv option" where
  "disk_geometry pr d = do {
     let idp = ad_id d;
     let d = d\<lparr>ad_phhd := ai_heads idp, ad_phsec := ai_sectors idp, ad_drvrhd := ucast (ai_heads idp),
       ad_drvrsec := ucast (ai_sectors idp), ad_drvrcyl := ucast (ai_fixcyls idp), ad_acyl := 0\<rparr>;
     let d = (if ata_test_lba_support (ad_id d) then d\<lparr>ad_drive_bits := ad_drive_bits d OR ATDH_LBA\<rparr> else d);
     let (ext48, capacity, d) = ata_get_capacity d;
     let d = d\<lparr>ad_capacity := capacity\<rparr>;
     let d = (if ext48 then d\<lparr>ad_flags := ad_flags d OR AD_EXT48\<rparr> else d);
     d \<leftarrow> (case pr_chs pr of
            Some (chs0, chs1, chs2) \<Rightarrow> Some (disk_bios_geometry chs0 chs1 chs2 d)
          | None \<Rightarrow> disk_lba_geometry d);
     Some (ata_fix_large_disk_geometry d)
   }"

text \<open>The second part: the blocking factor.\<close>

definition disk_block_factor :: "drv_props \<Rightarrow> ata_drv \<Rightarrow> u16" where
  "disk_block_factor pr d =
    (let bf = ai_mult1 (ad_id d) AND 0xff;
         val = (case pr_block_factor pr of Some v \<Rightarrow> v | None \<Rightarrow> sint bf);
         bf = word_of_int (min val (sint bf)) :: u16
     in if bf = 0 then 1 else bf)"

text \<open>Filling in the object tables and the fake inquiry data is left out.\<close>

definition sol11ata_disk_init_drive :: "device \<Rightarrow> drv_props \<Rightarrow> drv_ref \<Rightarrow> ata_ctl \<Rightarrow> (bool \<times> ata_ctl) option" where
  "sol11ata_disk_init_drive dev pr dr s =
    (if ad_lun (drv s dr) \<noteq> 0 then Some (False, s)
     else do {
       d \<leftarrow> disk_geometry pr (drv s dr);
       let d = d\<lparr>ad_flags := ad_flags d OR AD_MUTEX_INIT\<rparr>;
       let d = d\<lparr>ad_block_factor := disk_block_factor pr d\<rparr>;
       let s = upd_drv dr (\<lambda>_. d) s;
       (ok, s) \<leftarrow> ata_disk_setup_parms dev dr s;
       Some (ok, s)
     })"

subsection \<open>Revert to defaults\<close>

definition PROP_LEN_MAX :: nat where "PROP_LEN_MAX = 31"
definition PROP_BUF_SIZE :: nat where "PROP_BUF_SIZE = 8 + 40 + 1"

definition prop_lower :: "u8 \<Rightarrow> u8" where
  "prop_lower c = (if 0x41 \<le> c \<and> c \<le> 0x5a then c - 0x41 + 0x61 else c)"

definition prop_char :: "u8 \<Rightarrow> bool" where
  "prop_char c \<longleftrightarrow> 0x61 \<le> c \<and> c \<le> 0x7a \<or> 0x30 \<le> c \<and> c \<le> 0x39 \<or> c = 0x2e \<or> c = 0x5f \<or> c = 0x2d"

text \<open>The loop over the model name, appending to the buffer.\<close>

fun revert_append :: "u8 list \<Rightarrow> u8 list \<Rightarrow> u8 list" where
  "revert_append buf [] = buf"
| "revert_append buf (c # cs) =
    (let c = prop_lower c;
         buf = (if prop_char c then buf @ [c] else buf)
     in if c = 0 then buf else revert_append buf cs)"

definition revert_prop_name :: "u8 list \<Rightarrow> u8 list" where
  "revert_prop_name model = take PROP_LEN_MAX (revert_append (c_string ''revert-'') model)"

definition ata_check_revert_to_defaults :: "drv_props \<Rightarrow> ata_drv \<Rightarrow> bool" where
  "ata_check_revert_to_defaults pr d =
    (let propval = pr_revert_model pr (revert_prop_name (ai_model (ad_id d)))
     in if propval = 0 then False
        else if propval \<noteq> -1 then True
        else if pr_revert_global pr = 0 then False
        else if pr_revert_global pr \<noteq> -1 then True
        else False)"

subsection \<open>Initialising a drive\<close>

text \<open>\<open>swab\<close>, which exchanges the bytes of each pair. A drive that reports its strings in the right order already is
  recognised by its name.\<close>

fun swab :: "u8 list \<Rightarrow> u8 list" where
  "swab (a # b # r) = b # a # swab r"
| "swab r = []"

definition nec_260 :: "u8 list" where "nec_260 = c_string ''NEC CD-ROM DRIVE''"

definition ata_swap_strings :: "ata_id \<Rightarrow> ata_id option" where
  "ata_swap_strings idp =
    (case ata_strncmp nec_260 (ai_model idp) of
       None \<Rightarrow> None
     | Some nec \<Rightarrow> Some (if \<not> nec then idp\<lparr>ai_drvser := swab (ai_drvser idp), ai_fw := swab (ai_fw idp),
         ai_model := swab (ai_model idp)\<rparr> else idp))"

definition zero_drv :: ata_drv where
  "zero_drv = \<lparr>ad_id = ata_id_of_words (replicate 256 0), ad_flags = 0, ad_pciide_dma = False, ad_targ = 0, ad_lun = 0,
     ad_drive_bits = 0, ad_state = S_IDLE, ad_cdb_len = 0, ad_bogus_drq = False, ad_nec_bad_status = False, ad_rd_cmd = 0,
     ad_wr_cmd = 0, ad_acyl = 0, ad_drvrcyl = 0, ad_drvrhd = 0, ad_drvrsec = 0, ad_phhd = 0, ad_phsec = 0,
     ad_block_factor = 0, ad_bytes_per_block = 0, ad_capacity = 0\<rparr>"

text \<open>The drive structure before the type-specific part. The type is decided first.\<close>

definition new_drive :: "drv_props \<Rightarrow> nat \<Rightarrow> u8 \<Rightarrow> ata_dev_type \<Rightarrow> ata_id \<Rightarrow> ata_drv option" where
  "new_drive pr targ lun drive_type idp = do {
     idp \<leftarrow> ata_swap_strings idp;
     one \<leftarrow> ata_check_drive_blacklist idp ATA_BL_1SECTOR;
     let d = zero_drv\<lparr>ad_id := idp, ad_targ := targ, ad_lun := lun,
       ad_drive_bits := (if targ = 0 then ATDH_DRIVE0 else ATDH_DRIVE1) OR lun,
       ad_flags := (if drive_type = ATA_DEV_ATAPI then AD_ATAPI else AD_DISK)\<rparr>;
     let d = d\<lparr>ad_flags := (if one then ad_flags d OR AD_1SECTOR else ad_flags d AND NOT AD_1SECTOR)\<rparr>;
     Some (if \<not> ata_check_revert_to_defaults pr d then d\<lparr>ad_flags := ad_flags d OR AD_NORVRT\<rparr> else d)
   }"

definition set_slot :: "drv_ref \<Rightarrow> ata_drv option \<Rightarrow> ata_ctl \<Rightarrow> ata_ctl" where
  "set_slot dr x s = s\<lparr>ac_drvp := (ac_drvp s)(fst dr := (ac_drvp s (fst dr))(snd dr := x))\<rparr>"

text \<open>The result is whether there is a drive; the drive is in its slot. While it is set up the model keeps
  the new structure in the slot, which is empty until then and again after a failure. The messages are left out.\<close>

definition ata_init_drive :: "device \<Rightarrow> drv_props \<Rightarrow> nat \<Rightarrow> u8 \<Rightarrow> ata_ctl \<Rightarrow> (bool \<times> ata_ctl) option" where
  "ata_init_drive dev pr targ lun s =
    (let dr = (targ, unat lun) in
     if ac_drvp s targ (unat lun) \<noteq> None then Some (True, s)
     else do {
       (drive_type, idp, l) \<leftarrow> ata_drive_type dev ((if targ = 0 then ATDH_DRIVE0 else ATDH_DRIVE1) OR lun) (ac_log s);
       let s = s\<lparr>ac_log := l\<rparr>;
       if drive_type = ATA_DEV_NONE then Some (False, s)
       else do {
         d \<leftarrow> new_drive pr targ lun drive_type idp;
         (ok, s) \<leftarrow> (if flag_set (ad_flags d) AD_ATAPI
                    then (let (ok, d) = sol11atapi_init_drive d in Some (ok, set_slot dr (Some d) s))
                    else sol11ata_disk_init_drive dev pr dr (set_slot dr (Some d) s));
         if \<not> ok then Some (False, set_slot dr None s)
         else do {
           (_, s) \<leftarrow> ctl_set_feature dev dr 0x66 0 s;
           Some (True, s)
         }
       }
     })"

subsection \<open>Whether to use DMA\<close>

definition PCIIDE_BM_CAP_MASK :: u32 where "PCIIDE_BM_CAP_MASK = 0x80"
definition PCIIDE_BMISX_SIMPLEX :: u8 where "PCIIDE_BMISX_SIMPLEX = 0x80"
definition ATA_OPTIONS_DMA :: u32 where "ATA_OPTIONS_DMA = 0x01"
definition ATAC_DMA_SUPPORT :: u16 where "ATAC_DMA_SUPPORT = 0x0100"

text \<open>The SCSI device type of a CD-ROM (\<open>DTYPE_RODIRECT\<close>) and its mask.\<close>

definition IS_CDROM :: "ata_drv \<Rightarrow> bool" where
  "IS_CDROM d \<longleftrightarrow> flag_set (ad_flags d) AD_ATAPI \<and> drop_bit 8 (ai_config (ad_id d)) AND 0x1f = 5"

text \<open>\<open>mapped\<close>: the bus master registers are mapped; \<open>alloc_ok\<close>: \<open>ata_pciide_alloc\<close> succeeds.\<close>

definition ata_init_pciide :: "device \<Rightarrow> ctl_props \<Rightarrow> bool \<Rightarrow> bool \<Rightarrow> ata_ctl \<Rightarrow> ata_ctl" where
  "ata_init_pciide dev pr mapped alloc_ok s =
    (if \<not> mapped then s\<lparr>ac_pciide := False, ac_pciide_bm := False\<rparr>
     else if ata_check_pciide_blacklist pr ATA_BL_BOGUS then s\<lparr>ac_pciide := False, ac_pciide_bm := False\<rparr>
     else
       (let s = s\<lparr>ac_pciide := True\<rparr>;
            s = (if ata_check_pciide_blacklist pr ATA_BL_BMSTATREG_PIO_BROKEN
                 then s\<lparr>ac_flags := ac_flags s OR AC_BMSTATREG_PIO_BROKEN\<rparr> else s)
        in if ata_check_pciide_blacklist pr ATA_BL_NODMA then s\<lparr>ac_pciide_bm := False\<rparr>
           else if pr_class_code pr AND PCIIDE_BM_CAP_MASK \<noteq> PCIIDE_BM_CAP_MASK then s\<lparr>ac_pciide_bm := False\<rparr>
           else
             (let (status, s) = get8 dev PCIIDE_BMISX_REG s
              in if status AND PCIIDE_BMISX_SIMPLEX \<noteq> 0 \<and> \<not> ata_check_pciide_blacklist pr ATA_BL_NO_SIMPLEX
                 then s\<lparr>ac_pciide_bm := False\<rparr>
                 else s\<lparr>ac_pciide_bm := alloc_ok\<rparr>)))"

definition ata_init_drive_pcidma :: "ctl_props \<Rightarrow> drv_props \<Rightarrow> ata_ctl \<Rightarrow> ata_drv \<Rightarrow> bool option" where
  "ata_init_drive_pcidma cpr pr s d =
    (if \<not> ac_pciide_bm s then Some False
     else if pr_options cpr AND ATA_OPTIONS_DMA = 0 then Some False
     else
       (case ata_check_drive_blacklist (ad_id d) ATA_BL_NODMA of
          None \<Rightarrow> None
        | Some True \<Rightarrow> Some False
        | Some False \<Rightarrow>
            (let idp = ad_id d
             in if \<not> (ai_majorversion idp AND 0x8000 = 0 \<and> ai_majorversion idp \<ge> 4) \<and> ai_cap idp AND ATAC_DMA_SUPPORT = 0
                then Some False
                else if \<not> pr_dma pr then Some False
                else if IS_CDROM d then Some (pr_cd_dma pr)
                else if \<not> flag_set (ad_flags d) AD_ATAPI then Some (pr_disk_dma pr)
                else Some (pr_atapi_dma pr))))"

subsection \<open>What the operations return\<close>

lemma ata_id_common_returns: "\<exists>rc ws l'. ata_id_common dev cmd drdy l = Some (rc, ws, l')"
proof -
  have w: "\<exists>b l'. sol11ata_wait dev on off 1000000 l = Some (b, l')" for on off l
    by (rule sol11ata_wait_returns [OF wait_rounds_used(4)])
  have w3: "\<exists>b l'. ata_wait3 dev a1 b1 a2 b2 a3 b3 5000000 l = Some (b, l')" for a1 b1 a2 b2 a3 b3 l
    by (rule ata_wait3_returns [OF wait_rounds_used(1)])
  let ?l0 = "ATA_DELAY_400NSEC dev (ddi_put8 AC_CMD cmd (ddi_put8 AC_DEVCTL ATDC_D3 (ddi_put8 AC_FEATURE 0 l)))"
  obtain b l1 where l1: "ata_wait3 dev 0 ATS_BSY ATS_ERR ATS_BSY 0x7f 0 5000000 ?l0 = Some (b, l1)" using w3 by blast
  obtain status l2 where l2: "ddi_get8 dev AC_STATUS l1 = (status, l2)" by fastforce
  obtain ready l3 where l3: "(if status AND ATS_DRQ \<noteq> 0 then Some (True, l2)
      else if status AND (ATS_ERR OR ATS_DF) \<noteq> 0 then Some (False, l2)
      else sol11ata_wait dev ATS_DRQ ATS_BSY 1000000 l2) = Some (ready, l3)"
    using w [of ATS_DRQ ATS_BSY l2] by (cases "status AND ATS_DRQ \<noteq> 0"; cases "status AND (ATS_ERR OR ATS_DF) \<noteq> 0") auto
  obtain ws l4 where l4: "ddi_rep_get16 dev 0 (NBPSCTR div 2) l3 = (ws, l4)" by fastforce
  obtain ok l5 where l5: "sol11ata_wait dev (if drdy then ATS_DRDY else 0) (ATS_BSY OR ATS_DRQ) 1000000 (ATA_DELAY_400NSEC dev l4) = Some (ok, l5)"
    using w by blast
  have "ata_id_common dev cmd drdy l \<noteq> None"
    unfolding ata_id_common_def Let_def l1 l2 by (simp add: l2 l3 l4 l5 Let_def) blast
  then show ?thesis by auto
qed

lemma sol11ata_disk_id_returns:
  "\<exists>rc idp l'. sol11ata_disk_id dev l = Some (rc, idp, l') \<and>
     (rc \<longrightarrow> ai_config idp AND ATAC_ATA_TYPE_MASK = ATAC_ATA_TYPE \<and> ai_heads idp \<noteq> 0 \<and> ai_sectors idp \<noteq> 0)"
proof -
  obtain rc ws l' where c: "ata_id_common dev ATC_ID_DEVICE True l = Some (rc, ws, l')" using ata_id_common_returns by blast
  define i0 where "i0 = ata_id_of_words ws"
  define i1 where "i1 = (if ai_config i0 = ATA_ID_COMPACT_FLASH then i0\<lparr>ai_config := ATA_ID_CF_TO_ATA\<rparr> else i0)"
  have "sol11ata_disk_id dev l = (if \<not> rc then Some (False, i0, l')
      else if ai_config i1 AND ATAC_ATA_TYPE_MASK \<noteq> ATAC_ATA_TYPE then Some (False, i1, l')
      else if ai_heads i1 = 0 \<or> ai_sectors i1 = 0 then Some (False, i1, l') else Some (True, i1, l'))"
    by (simp only: sol11ata_disk_id_def c bind.bind_lunit prod.case Let_def i0_def [symmetric] i1_def [symmetric])
  then show ?thesis by auto
qed

lemma sol11atapi_id_returns:
  "\<exists>rc idp l'. sol11atapi_id dev l = Some (rc, idp, l') \<and> (rc \<longrightarrow> ai_config idp AND ATAC_ATAPI_TYPE_MASK = ATAC_ATAPI_TYPE)"
proof -
  obtain rc ws l' where c: "ata_id_common dev ATC_ID_PACKET_DEVICE False l = Some (rc, ws, l')" using ata_id_common_returns by blast
  define i0 where "i0 = ata_id_of_words ws"
  have "sol11atapi_id dev l = (if \<not> rc then Some (False, i0, l')
      else if ai_config i0 AND ATAC_ATAPI_TYPE_MASK \<noteq> ATAC_ATAPI_TYPE then Some (False, i0, l') else Some (True, i0, l'))"
    by (simp only: sol11atapi_id_def c bind.bind_lunit prod.case Let_def i0_def [symmetric])
  then show ?thesis by auto
qed

text \<open>The log at the type decision: after selecting the drive and waiting until it is not busy.\<close>

definition selected_log :: "device \<Rightarrow> u8 \<Rightarrow> iolog \<Rightarrow> iolog" where
  "selected_log dev drvhd l = snd (the (ata_wait3 dev 0 ATS_BSY 0x7f 0 0x7f 0 (5 * 1000000)
     (ATA_DELAY_400NSEC dev (ddi_put8 AC_DRVHD drvhd l))))"

text \<open>The identify data a drive of each type has given.\<close>

fun id_matches :: "ata_dev_type \<Rightarrow> ata_id \<Rightarrow> bool" where
  "id_matches ATA_DEV_NONE idp = True"
| "id_matches ATA_DEV_DISK idp =
     (ai_config idp AND ATAC_ATA_TYPE_MASK = ATAC_ATA_TYPE \<and> ai_heads idp \<noteq> 0 \<and> ai_sectors idp \<noteq> 0)"
| "id_matches ATA_DEV_ATAPI idp = (ai_config idp AND ATAC_ATAPI_TYPE_MASK = ATAC_ATAPI_TYPE)"

lemma ata_drive_type_result:
  "\<exists>ty idp l'. ata_drive_type dev drvhd l = Some (ty, idp, l') \<and>
     (let l1 = selected_log dev drvhd l; busy = dev8 dev l1 AC_ALTSTATUS AND ATS_BSY \<noteq> 0; l2 = snd (ddi_get8 dev AC_ALTSTATUS l1);
          disk = the (sol11ata_disk_id dev l2); l3 = snd (sol11atapi_signature dev (snd (snd disk)))
      in ty = (if busy then ATA_DEV_NONE else if fst disk then ATA_DEV_DISK
               else if fst (the (sol11atapi_id dev l3)) then ATA_DEV_ATAPI else ATA_DEV_NONE)) \<and>
     id_matches ty idp"
proof -
  obtain b l1 where l1: "ata_wait3 dev 0 ATS_BSY 0x7f 0 0x7f 0 (5 * 1000000)
      (ATA_DELAY_400NSEC dev (ddi_put8 AC_DRVHD drvhd l)) = Some (b, l1)"
    using ata_wait3_returns [OF wait_rounds_used(1)] by fastforce
  then have s: "selected_log dev drvhd l = l1" by (simp add: selected_log_def)
  obtain status l2 where l2: "ddi_get8 dev AC_ALTSTATUS l1 = (status, l2)" "status = dev8 dev l1 AC_ALTSTATUS"
    by (simp add: ddi_get8_def)
  obtain dk di l3 where d: "sol11ata_disk_id dev l2 = Some (dk, di, l3)"
      "dk \<longrightarrow> ai_config di AND ATAC_ATA_TYPE_MASK = ATAC_ATA_TYPE \<and> ai_heads di \<noteq> 0 \<and> ai_sectors di \<noteq> 0"
    using sol11ata_disk_id_returns by blast
  obtain sg l4 where g: "sol11atapi_signature dev l3 = (sg, l4)" by fastforce
  obtain ak ai l5 where a: "sol11atapi_id dev l4 = Some (ak, ai, l5)"
      "ak \<longrightarrow> ai_config ai AND ATAC_ATAPI_TYPE_MASK = ATAC_ATAPI_TYPE"
    using sol11atapi_id_returns by blast
  have e: "ata_drive_type dev drvhd l =
     (if status AND ATS_BSY \<noteq> 0 then Some (ATA_DEV_NONE, ata_id_of_words (replicate 256 0), l2)
      else if dk then Some (ATA_DEV_DISK, di, l3) else if ak then Some (ATA_DEV_ATAPI, ai, l5) else Some (ATA_DEV_NONE, ai, l5))"
    unfolding ata_drive_type_def Let_def l1 by (simp add: l2(1) d(1) g a(1))
  show ?thesis
    using d(2) a(2) unfolding e s by (auto simp: l2 d(1) g a(1) Let_def)
qed

text \<open>the type of a drive is always decided.\<close>

theorem ata_drive_type_decides:
  "\<exists>ty idp l'. ata_drive_type dev drvhd l = Some (ty, idp, l') \<and>
     (let l1 = selected_log dev drvhd l; busy = dev8 dev l1 AC_ALTSTATUS AND ATS_BSY \<noteq> 0; l2 = snd (ddi_get8 dev AC_ALTSTATUS l1);
          disk = the (sol11ata_disk_id dev l2); l3 = snd (sol11atapi_signature dev (snd (snd disk)))
      in ty = (if busy then ATA_DEV_NONE else if fst disk then ATA_DEV_DISK
               else if fst (the (sol11atapi_id dev l3)) then ATA_DEV_ATAPI else ATA_DEV_NONE)) \<and>
     id_matches ty idp"
  by (rule ata_drive_type_result)


lemma ctl_command_log:
  assumes "wait_rounds t n"
  shows "\<exists>b l. ctl_command dev dr drdy t cmd f c sc h lo hi s = Some (b, s\<lparr>ac_log := l\<rparr>)"
  using ata_command_spec [OF assms, of dev "ad_drive_bits (drv s dr)" drdy cmd f c sc h lo hi "ac_log s"]
  by (auto simp: ctl_command_def)

lemma setup_calls_log:
  "\<exists>b l. ata_disk_initialize_device_parameters dev dr s = Some (b, s\<lparr>ac_log := l\<rparr>)"
  "\<exists>b l. ata_disk_set_multiple dev dr s = Some (b, s\<lparr>ac_log := l\<rparr>)"
  "\<exists>b l. ata_disk_set_standby_timer dev dr s = Some (b, s\<lparr>ac_log := l\<rparr>)"
  "\<exists>b l. ctl_set_feature dev dr ft v s = Some (b, s\<lparr>ac_log := l\<rparr>)"
  "\<exists>b l. ata_set_write_cache dev dr s = Some (b, s\<lparr>ac_log := l\<rparr>)"
proof -
  have same: "s = s\<lparr>ac_log := ac_log s\<rparr>" by simp
  show "\<exists>b l. ata_disk_initialize_device_parameters dev dr s = Some (b, s\<lparr>ac_log := l\<rparr>)"
    unfolding ata_disk_initialize_device_parameters_def ata_disk_init_dev_parm_wait_def
    using ctl_command_log [OF wait_rounds_used(2)] by simp
  show "\<exists>b l. ata_disk_set_multiple dev dr s = Some (b, s\<lparr>ac_log := l\<rparr>)"
    unfolding ata_disk_set_multiple_def ata_disk_set_mult_wait_def using ctl_command_log [OF wait_rounds_used(2)] by simp
  show "\<exists>b l. ata_disk_set_standby_timer dev dr s = Some (b, s\<lparr>ac_log := l\<rparr>)"
    unfolding ata_disk_set_standby_timer_def Let_def
    using ctl_command_log [OF wait_rounds_used(1), of dev dr True ATC_IDLE 0 "standby_parm (sint (ac_standby_time s))" 0 0 0 0 s] same
    by (cases "sint (ac_standby_time s) < 0 \<or> 12 * 60 * 60 < sint (ac_standby_time s)") (simp_all only: if_True if_False, blast, simp)
  show f: "\<exists>b l. ctl_set_feature dev dr ft v s = Some (b, s\<lparr>ac_log := l\<rparr>)" for ft v
    using ctl_command_log [OF wait_rounds_used(2), of dev dr True ATC_SET_FEAT ft v 0 0 0 0 s]
    unfolding ctl_set_feature_def ctl_command_def sol11ata_set_feature_def ata_set_feature_wait_def by simp
  show "\<exists>b l. ata_set_write_cache dev dr s = Some (b, s\<lparr>ac_log := l\<rparr>)"
    unfolding ata_set_write_cache_def using f same by metis
qed

text \<open>The drive after \<open>ata_disk_setup_parms\<close>, given whether the drive took the blocking factor.\<close>

definition setup_drv :: "bool \<Rightarrow> ata_drv \<Rightarrow> ata_drv" where
  "setup_drv multi d =
    (let bf = (if sint (ad_block_factor d) > 1 \<and> \<not> multi then 1 else ad_block_factor d)
     in d\<lparr>ad_block_factor := bf, ad_rd_cmd := (if sint bf > 1 then ATC_RDMULT else ATC_RDSEC),
          ad_wr_cmd := (if sint bf > 1 then ATC_WRMULT else ATC_WRSEC), ad_bytes_per_block := push_bit SCTRSHFT bf\<rparr>)"

lemma upd_drv_log [simp]: "upd_drv dr f (s\<lparr>ac_log := l\<rparr>) = (upd_drv dr f s)\<lparr>ac_log := l\<rparr>" by (simp add: upd_drv_def)
lemma drv_log [simp]: "drv (s\<lparr>ac_log := l\<rparr>) dr = drv s dr" by (simp add: drv_def)
lemma upd_drv_twice [simp]: "upd_drv dr f (upd_drv dr g s) = upd_drv dr (f \<circ> g) s"
  by (simp add: upd_drv_def option.map_comp)
lemma drv_upd_drv: "ac_drvp s (fst dr) (snd dr) = Some d \<Longrightarrow> drv (upd_drv dr f s) dr = f d"
  by (simp add: drv_def upd_drv_def)
lemma upd_drv_id: "ac_drvp s (fst dr) (snd dr) = Some d \<Longrightarrow> upd_drv dr (\<lambda>x. f d) s = upd_drv dr f s"
  by (simp add: upd_drv_def)

lemma setup_parms_result:
  assumes "ac_drvp s (fst dr) (snd dr) = Some d"
  shows "\<exists>l. ata_disk_setup_parms dev dr s = Some (False, s\<lparr>ac_log := l\<rparr>) \<or>
    (\<exists>multi. ata_disk_setup_parms dev dr s = Some (True, (upd_drv dr (setup_drv multi) s)\<lparr>ac_log := l\<rparr>))"
proof -
  have d: "drv s dr = d" using assms by (simp add: drv_def)
  obtain ok l1 where i: "ata_disk_initialize_device_parameters dev dr s = Some (ok, s\<lparr>ac_log := l1\<rparr>)"
    using setup_calls_log(1) by blast
  show ?thesis
  proof (cases ok)
    case False
    with i show ?thesis by (auto simp: ata_disk_setup_parms_def)
  next
    case True
    obtain multi l2 where m: "ata_disk_set_multiple dev dr (s\<lparr>ac_log := l1\<rparr>) = Some (multi, s\<lparr>ac_log := l2\<rparr>)"
      using setup_calls_log(2) [of dev dr "s\<lparr>ac_log := l1\<rparr>"] by auto
    define s3 where "s3 = (upd_drv dr (setup_drv multi) s)\<lparr>ac_log := (if 1 < sint (ad_block_factor d) then l2 else l1)\<rparr>"
    obtain b4 l4 where t: "ata_disk_set_standby_timer dev dr s3 = Some (b4, s3\<lparr>ac_log := l4\<rparr>)"
      using setup_calls_log(3) by blast
    obtain b5 l5 where w: "ata_set_write_cache dev dr (s3\<lparr>ac_log := l4\<rparr>) = Some (b5, s3\<lparr>ac_log := l5\<rparr>)"
      using setup_calls_log(5) [of dev dr "s3\<lparr>ac_log := l4\<rparr>"] by auto
    have "ata_disk_setup_parms dev dr s = Some (True, s3\<lparr>ac_log := l5\<rparr>)"
    proof (cases "1 < sint (ad_block_factor d)")
      case big: True
      then have nb: "\<not> sint (1 :: u16) > 1" by simp
      define d1 where "d1 = (if multi then d else d\<lparr>ad_block_factor := 1\<rparr>)"
      define s2 where "s2 = (if \<not> multi then upd_drv dr (\<lambda>d. d\<lparr>ad_block_factor := 1\<rparr>) (s\<lparr>ac_log := l2\<rparr>) else s\<lparr>ac_log := l2\<rparr>)"
      have d1: "drv s2 dr = d1" using drv_upd_drv [OF assms] d by (simp add: d1_def s2_def)
      have s3: "upd_drv dr (\<lambda>d. d\<lparr>ad_bytes_per_block := push_bit SCTRSHFT (ad_block_factor d)\<rparr>)
          (if 1 < sint (ad_block_factor d1) then upd_drv dr (\<lambda>d. d\<lparr>ad_rd_cmd := ATC_RDMULT, ad_wr_cmd := ATC_WRMULT\<rparr>) s2
           else upd_drv dr (\<lambda>d. d\<lparr>ad_rd_cmd := ATC_RDSEC, ad_wr_cmd := ATC_WRSEC\<rparr>) s2) = s3"
        using big nb assms by (cases multi) (simp_all add: d1_def s2_def s3_def upd_drv_def setup_drv_def Let_def)
      show ?thesis
        using i True big m t w s3 by (simp add: ata_disk_setup_parms_def d Let_def s2_def [symmetric] d1 ata_disk_do_standby_timer_def split del: if_split)
    next
      case small: False
      have s3: "upd_drv dr (\<lambda>d. d\<lparr>ad_bytes_per_block := push_bit SCTRSHFT (ad_block_factor d)\<rparr>)
          (upd_drv dr (\<lambda>d. d\<lparr>ad_rd_cmd := ATC_RDSEC, ad_wr_cmd := ATC_WRSEC\<rparr>) (s\<lparr>ac_log := l1\<rparr>)) = s3"
        using small assms by (simp add: s3_def upd_drv_def setup_drv_def Let_def)
      show ?thesis
        using i True small t w s3 by (simp add: ata_disk_setup_parms_def d Let_def ata_disk_do_standby_timer_def split del: if_split)
    qed
    then show ?thesis unfolding s3_def by auto
  qed
qed

text \<open>The geometry part leaves the unit, the multiple mode data and the packet flag alone.\<close>

lemma fix_geometry_frame:
  "ad_id (fix_geometry_loop d) = ad_id d \<and> ad_flags (fix_geometry_loop d) = ad_flags d \<and> ad_lun (fix_geometry_loop d) = ad_lun d \<and>
   ad_drive_bits (fix_geometry_loop d) = ad_drive_bits d \<and> ad_capacity (fix_geometry_loop d) = ad_capacity d \<and>
   unat (ad_drvrcyl (fix_geometry_loop d)) \<le> USHRT_MAX"
proof (induction d rule: fix_geometry_loop.induct)
  case (1 d)
  note unf = fix_geometry_loop.simps [of d, unfolded Let_def]
  show ?case
  proof (cases "unat (ad_drvrcyl d) > USHRT_MAX")
    case True
    show ?thesis
    proof (cases "sint (2 * ad_drvrhd d) > int USHRT_MAX")
      case False
      with True 1 [OF True refl False] unf show ?thesis by simp
    qed (use True unf in \<open>simp add: USHRT_MAX_def\<close>)
  qed (use unf in simp)
qed

lemma flag_set_or_iff: "flag_set (x OR y) m \<longleftrightarrow> flag_set x m \<or> flag_set y m"
  by (simp add: flag_set_def bit.conj_disj_distrib2 or_eq_0_iff)

lemma set_swab: "set (swab xs) \<subseteq> set xs"
  by (induction xs rule: swab.induct) auto

text \<open>Reading beyond the end of a blacklisted name takes a NUL in the model name.\<close>

lemma strncmp_total: "0 \<notin> set p1 \<Longrightarrow> 0 \<notin> set p2 \<Longrightarrow> ata_strncmp p1 p2 \<noteq> None"
proof -
  assume a: "0 \<notin> set p1" "0 \<notin> set p2"
  have "\<not> prefix (squeeze p1 @ [0]) (squeeze p2)"
  proof
    assume "prefix (squeeze p1 @ [0]) (squeeze p2)"
    then have "0 \<in> set (squeeze p2)" by (auto simp: prefix_def)
    with a(2) show False by (simp add: squeeze_def)
  qed
  with ata_strncmp_spec [OF a(1), of p2] show ?thesis by simp
qed

lemma blacklist_total:
  "\<forall>e\<in>set bl. 0 \<notin> set (fst e) \<Longrightarrow> 0 \<notin> set model \<Longrightarrow> drive_blacklist_from bl model flags \<noteq> None"
proof (induction bl)
  case (Cons e bl)
  obtain m f where e: "e = (m, f)" by fastforce
  then have "ata_strncmp m model \<noteq> None" using Cons.prems by (intro strncmp_total) auto
  with Cons e show ?case by (auto split: bool.splits)
qed simp

lemma blacklist_names: "\<forall>e\<in>set sol11ata_drive_blacklist. 0 \<notin> set (fst e)" "0 \<notin> set nec_260"
  by (simp_all add: sol11ata_drive_blacklist_def nec_260_def c_string_def of_char_def)

lemma new_drive_total:
  assumes "new_drive pr targ lun ty idp = None"
  shows "0 \<in> set (ai_model idp)"
proof (rule ccontr)
  assume n: "0 \<notin> set (ai_model idp)"
  then obtain nec where "ata_strncmp nec_260 (ai_model idp) = Some nec" using strncmp_total [OF blacklist_names(2) n] by auto
  then obtain i where i: "ata_swap_strings idp = Some i" "ai_model i = (if nec then ai_model idp else swab (ai_model idp))"
    by (cases nec) (simp_all add: ata_swap_strings_def)
  have "0 \<notin> set (ai_model i)" using n i(2) set_swab [of "ai_model idp"] by auto
  then obtain one where "ata_check_drive_blacklist i ATA_BL_1SECTOR = Some one"
    using blacklist_total [OF blacklist_names(1)] by (fastforce simp: ata_check_drive_blacklist_def)
  with assms i(1) show False by (simp add: new_drive_def Let_def)
qed

lemma new_drive_result:
  assumes "new_drive pr targ lun ty idp = Some d"
  shows "(flag_set (ad_flags d) AD_ATAPI \<longleftrightarrow> ty = ATA_DEV_ATAPI) \<and> \<not> flag_set (ad_flags d) AD_EXT48 \<and> ad_lun d = lun \<and>
     ad_targ d = targ \<and> ai_config (ad_id d) = ai_config idp \<and> ai_heads (ad_id d) = ai_heads idp \<and> ai_sectors (ad_id d) = ai_sectors idp"
proof -
  obtain i where i: "ata_swap_strings idp = Some i" using assms by (cases "ata_swap_strings idp") (simp_all add: new_drive_def)
  then have f: "ai_config i = ai_config idp" "ai_heads i = ai_heads idp" "ai_sectors i = ai_sectors idp"
    by (auto simp: ata_swap_strings_def split: option.splits)
  obtain one where o: "ata_check_drive_blacklist i ATA_BL_1SECTOR = Some one"
    using assms i by (cases "ata_check_drive_blacklist i ATA_BL_1SECTOR") (simp_all add: new_drive_def)
  show ?thesis
    using assms i o f
    by (cases "ty = ATA_DEV_ATAPI"; cases one)
      (auto simp: new_drive_def Let_def zero_drv_def flag_set_def AD_ATAPI_def AD_DISK_def AD_1SECTOR_def AD_NORVRT_def
        AD_EXT48_def split: if_splits)
qed

text \<open>A drive that is set up.\<close>

definition drive_ok :: "ata_drv \<Rightarrow> bool" where
  "drive_ok d \<longleftrightarrow>
    (if flag_set (ad_flags d) AD_ATAPI
     then ai_config (ad_id d) AND ATAC_ATAPI_TYPE_MASK = ATAC_ATAPI_TYPE \<and> ad_cdb_len d \<in> {12, 16}
     else ad_lun d = 0 \<and> drive_cmds_ok d \<and> ad_bytes_per_block d = push_bit SCTRSHFT (ad_block_factor d) \<and>
          ad_block_factor d \<noteq> 0 \<and>
          (flag_set (ad_flags d) AD_EXT48 \<longrightarrow> MAX_28BIT_CAPACITY < ad_capacity d) \<and>
          (ad_drive_bits d AND ATDH_LBA \<noteq> 0 \<longrightarrow> unat (ad_drvrcyl d) \<le> USHRT_MAX))"

lemma get_capacity_result:
  assumes "ata_get_capacity d = (ext, cap, d')"
  shows "d' = d\<lparr>ad_id := ad_id d'\<rparr> \<and> ai_config (ad_id d') = ai_config (ad_id d) \<and> ai_mult1 (ad_id d') = ai_mult1 (ad_id d) \<and>
     (ext \<longrightarrow> MAX_28BIT_CAPACITY < cap)"
  using assms by (auto simp: ata_get_capacity_def Let_def ata_fixup_ata6_geometry_def split: if_splits)

lemma track_nonzero:
  assumes "h \<noteq> 0" "n \<noteq> 0"
  shows "(ucast (h :: u16) :: u32) * ucast (n :: u16) \<noteq> 0"
proof -
  have b: "unat h < 65536" "unat n < 65536" using unsigned_less [of h] unsigned_less [of n] by simp_all
  have "unat h * unat n \<le> 65535 * 65535" using b by (intro mult_le_mono) simp_all
  then have "unat ((ucast h :: u32) * ucast n) = unat h * unat n"
    using b by (simp add: unat_word_ariths unsigned_ucast_eq take_bit_nat_eq_self)
  moreover have "unat h \<noteq> 0" "unat n \<noteq> 0" using assms by (simp_all add: unat_eq_zero)
  ultimately show ?thesis by (metis mult_is_0 unat_0)
qed

lemma disk_geometry_result:
  assumes "ai_heads (ad_id d) \<noteq> 0" "ai_sectors (ad_id d) \<noteq> 0" "\<not> flag_set (ad_flags d) AD_EXT48"
  shows "\<exists>d'. disk_geometry pr d = Some d' \<and> ad_lun d' = ad_lun d \<and>
     (flag_set (ad_flags d') AD_ATAPI \<longleftrightarrow> flag_set (ad_flags d) AD_ATAPI) \<and> ai_mult1 (ad_id d') = ai_mult1 (ad_id d) \<and>
     (flag_set (ad_flags d') AD_EXT48 \<longrightarrow> MAX_28BIT_CAPACITY < ad_capacity d') \<and>
     (ad_drive_bits d' AND ATDH_LBA \<noteq> 0 \<longrightarrow> unat (ad_drvrcyl d') \<le> USHRT_MAX)"
proof -
  define d1 where "d1 = d\<lparr>ad_phhd := ai_heads (ad_id d), ad_phsec := ai_sectors (ad_id d), ad_drvrhd := ucast (ai_heads (ad_id d)),
    ad_drvrsec := ucast (ai_sectors (ad_id d)), ad_drvrcyl := ucast (ai_fixcyls (ad_id d)), ad_acyl := 0\<rparr>"
  define d2 where "d2 = (if ata_test_lba_support (ad_id d1) then d1\<lparr>ad_drive_bits := ad_drive_bits d1 OR ATDH_LBA\<rparr> else d1)"
  obtain ext cap d3 where g: "ata_get_capacity d2 = (ext, cap, d3)" using prod_cases3 by blast
  note gr = get_capacity_result [OF g]
  define d4 where "d4 = (if ext then (d3\<lparr>ad_capacity := cap\<rparr>)\<lparr>ad_flags := ad_flags (d3\<lparr>ad_capacity := cap\<rparr>) OR AD_EXT48\<rparr> else d3\<lparr>ad_capacity := cap\<rparr>)"
  have other: "\<not> flag_set AD_EXT48 AD_ATAPI" "\<not> flag_set AD_INT13LBA AD_ATAPI" "\<not> flag_set AD_INT13LBA AD_EXT48"
    by (simp_all add: flag_set_def AD_EXT48_def AD_ATAPI_def AD_INT13LBA_def)
  have d2: "ad_flags d2 = ad_flags d" "ad_lun d2 = ad_lun d" "ad_id d2 = ad_id d"
    "ad_drvrhd d2 = ucast (ai_heads (ad_id d))" "ad_drvrsec d2 = ucast (ai_sectors (ad_id d))"
    by (simp_all add: d2_def d1_def)
  have d3: "ad_flags d3 = ad_flags d" "ad_lun d3 = ad_lun d" "ai_mult1 (ad_id d3) = ai_mult1 (ad_id d)"
    "ad_drvrhd d3 = ucast (ai_heads (ad_id d))" "ad_drvrsec d3 = ucast (ai_sectors (ad_id d))"
  proof -
    obtain i where "d3 = d2\<lparr>ad_id := i\<rparr>" "ai_mult1 i = ai_mult1 (ad_id d2)" using gr by metis
    then show "ad_flags d3 = ad_flags d" "ad_lun d3 = ad_lun d" "ai_mult1 (ad_id d3) = ai_mult1 (ad_id d)"
      "ad_drvrhd d3 = ucast (ai_heads (ad_id d))" "ad_drvrsec d3 = ucast (ai_sectors (ad_id d))" by (simp_all add: d2)
  qed
  have d4: "ad_lun d4 = ad_lun d" "flag_set (ad_flags d4) AD_ATAPI = flag_set (ad_flags d) AD_ATAPI"
    "flag_set (ad_flags d4) AD_EXT48 \<longrightarrow> MAX_28BIT_CAPACITY < ad_capacity d4" "ai_mult1 (ad_id d4) = ai_mult1 (ad_id d)"
    "ad_drvrhd d4 = ucast (ai_heads (ad_id d))" "ad_drvrsec d4 = ucast (ai_sectors (ad_id d))"
    using d3 assms(3) gr other by (auto simp: d4_def flag_set_or_iff)
  have t: "ad_drvrhd d4 * ad_drvrsec d4 \<noteq> 0" unfolding d4(5,6) by (rule track_nonzero [OF assms(1,2)])
  have "\<exists>d5. (case pr_chs pr of Some (chs0, chs1, chs2) \<Rightarrow> Some (disk_bios_geometry chs0 chs1 chs2 d4) | None \<Rightarrow> disk_lba_geometry d4) = Some d5 \<and>
      ad_lun d5 = ad_lun d \<and> flag_set (ad_flags d5) AD_ATAPI = flag_set (ad_flags d) AD_ATAPI \<and>
      (flag_set (ad_flags d5) AD_EXT48 \<longrightarrow> MAX_28BIT_CAPACITY < ad_capacity d5) \<and> ai_mult1 (ad_id d5) = ai_mult1 (ad_id d)"
  proof (cases "pr_chs pr")
    case None
    then show ?thesis using d4 t other by (auto simp: disk_lba_geometry_def Let_def flag_set_or_iff)
  next
    case (Some a)
    then show ?thesis using d4 by (cases a) (auto simp: disk_bios_geometry_def Let_def)
  qed
  then obtain d5 where d5: "(case pr_chs pr of Some (chs0, chs1, chs2) \<Rightarrow> Some (disk_bios_geometry chs0 chs1 chs2 d4) | None \<Rightarrow> disk_lba_geometry d4) = Some d5"
      "ad_lun d5 = ad_lun d" "flag_set (ad_flags d5) AD_ATAPI = flag_set (ad_flags d) AD_ATAPI"
      "flag_set (ad_flags d5) AD_EXT48 \<longrightarrow> MAX_28BIT_CAPACITY < ad_capacity d5" "ai_mult1 (ad_id d5) = ai_mult1 (ad_id d)" by blast
  have "disk_geometry pr d = Some (ata_fix_large_disk_geometry d5)"
    unfolding disk_geometry_def Let_def d1_def [symmetric] d2_def [symmetric] g
    by (simp only: prod.case d4_def [symmetric] d5(1) bind.bind_lunit)
  then show ?thesis
    using d5 fix_geometry_frame [of d5] by (simp add: ata_fix_large_disk_geometry_def)
qed

lemma block_factor_nonzero: "disk_block_factor pr d \<noteq> 0"
  by (simp add: disk_block_factor_def Let_def)

lemma setup_drv_cmds: "drive_cmds_ok (setup_drv multi d)" "ad_bytes_per_block (setup_drv multi d) = push_bit SCTRSHFT (ad_block_factor (setup_drv multi d))"
  "ad_block_factor d \<noteq> 0 \<Longrightarrow> ad_block_factor (setup_drv multi d) \<noteq> 0"
  by (simp_all add: setup_drv_def Let_def drive_cmds_ok_def)

text \<open>A disk in its slot is set up or refused; nothing but the slot and the log changes.\<close>

lemma disk_init_drive_result:
  assumes "ai_heads (ad_id d) \<noteq> 0" "ai_sectors (ad_id d) \<noteq> 0" "\<not> flag_set (ad_flags d) AD_EXT48" "\<not> flag_set (ad_flags d) AD_ATAPI"
  shows "\<exists>ok d' l. sol11ata_disk_init_drive dev pr dr (set_slot dr (Some d) s) = Some (ok, (set_slot dr (Some d') s)\<lparr>ac_log := l\<rparr>) \<and>
     (ok \<longrightarrow> drive_ok d')"
proof -
  let ?s = "set_slot dr (Some d) s"
  have d: "drv ?s dr = d" by (simp add: set_slot_def drv_def)
  have log: "(set_slot dr (Some x) s)\<lparr>ac_log := ac_log s\<rparr> = set_slot dr (Some x) s" for x by (simp add: set_slot_def)
  show ?thesis
  proof (cases "ad_lun d = 0")
    case False
    then show ?thesis
      using log [of d] by (intro exI [of _ False] exI [of _ d] exI [of _ "ac_log s"]) (simp add: sol11ata_disk_init_drive_def d)
  next
    case True
    obtain d1 where g: "disk_geometry pr d = Some d1" "ad_lun d1 = ad_lun d" "\<not> flag_set (ad_flags d1) AD_ATAPI"
        "flag_set (ad_flags d1) AD_EXT48 \<longrightarrow> MAX_28BIT_CAPACITY < ad_capacity d1"
        "ad_drive_bits d1 AND ATDH_LBA \<noteq> 0 \<longrightarrow> unat (ad_drvrcyl d1) \<le> USHRT_MAX"
      using disk_geometry_result [OF assms(1-3), of pr] assms(4) by auto
    define d2 where "d2 = d1\<lparr>ad_flags := ad_flags d1 OR AD_MUTEX_INIT\<rparr>"
    define d3 where "d3 = d2\<lparr>ad_block_factor := disk_block_factor pr d2\<rparr>"
    have m: "\<not> flag_set AD_MUTEX_INIT AD_ATAPI" "\<not> flag_set AD_MUTEX_INIT AD_EXT48"
      by (simp_all add: flag_set_def AD_MUTEX_INIT_def AD_ATAPI_def AD_EXT48_def)
    have up: "upd_drv dr (\<lambda>_. d3) ?s = set_slot dr (Some d3) s" "upd_drv dr f (set_slot dr (Some x) s) = set_slot dr (Some (f x)) s" for f x
      by (simp_all add: upd_drv_def set_slot_def)
    have e: "sol11ata_disk_init_drive dev pr dr ?s = ata_disk_setup_parms dev dr (set_slot dr (Some d3) s) \<bind> (\<lambda>(ok, s). Some (ok, s))"
      using True g(1) up(1) by (simp add: sol11ata_disk_init_drive_def d Let_def d2_def [symmetric] d3_def [symmetric])
    have sl: "ac_drvp (set_slot dr (Some d3) s) (fst dr) (snd dr) = Some d3" by (simp add: set_slot_def)
    have ok: "drive_ok (setup_drv multi d3)" for multi
    proof -
      have "ad_flags (setup_drv multi d3) = ad_flags d1 OR AD_MUTEX_INIT" "ad_lun (setup_drv multi d3) = 0"
        "ad_capacity (setup_drv multi d3) = ad_capacity d1" "ad_drive_bits (setup_drv multi d3) = ad_drive_bits d1"
        "ad_drvrcyl (setup_drv multi d3) = ad_drvrcyl d1" "ad_block_factor d3 \<noteq> 0"
        using g(2) True by (simp_all add: setup_drv_def Let_def d3_def d2_def block_factor_nonzero)
      with g m setup_drv_cmds(1,2) [of multi d3] setup_drv_cmds(3) [of d3 multi] show ?thesis by (simp add: drive_ok_def flag_set_or_iff)
    qed
    from setup_parms_result [OF sl, of dev] obtain l where
      "ata_disk_setup_parms dev dr (set_slot dr (Some d3) s) = Some (False, (set_slot dr (Some d3) s)\<lparr>ac_log := l\<rparr>) \<or>
       (\<exists>multi. ata_disk_setup_parms dev dr (set_slot dr (Some d3) s) = Some (True, (set_slot dr (Some (setup_drv multi d3)) s)\<lparr>ac_log := l\<rparr>))"
      unfolding up(2) by blast
    then show ?thesis using e ok by (elim disjE exE) fastforce+
  qed
qed

text \<open>C12: setting up a drive.\<close>

theorem ata_init_drive_result:
  "case ata_init_drive dev pr targ lun s of
     None \<Rightarrow> 0 \<in> set (ai_model (fst (snd (the (ata_drive_type dev ((if targ = 0 then ATDH_DRIVE0 else ATDH_DRIVE1) OR lun) (ac_log s))))))
   | Some (ok, s') \<Rightarrow>
       (if ac_drvp s targ (unat lun) \<noteq> None then ok \<and> s' = s
        else if ok then \<exists>d l. s' = (set_slot (targ, unat lun) (Some d) s)\<lparr>ac_log := l\<rparr> \<and> drive_ok d
        else \<exists>l. s' = s\<lparr>ac_log := l\<rparr>)"
proof (cases "ac_drvp s targ (unat lun) \<noteq> None")
  case True
  then show ?thesis by (simp add: ata_init_drive_def Let_def)
next
  case False
  let ?dr = "(targ, unat lun)"
  let ?bits = "(if targ = 0 then ATDH_DRIVE0 else ATDH_DRIVE1) OR lun"
  obtain ty idp l where t: "ata_drive_type dev ?bits (ac_log s) = Some (ty, idp, l)" "id_matches ty idp"
    using ata_drive_type_result [of dev ?bits "ac_log s"] by blast
  let ?s = "s\<lparr>ac_log := l\<rparr>"
  have none: "set_slot ?dr None ((set_slot ?dr x ?s)\<lparr>ac_log := l'\<rparr>) = s\<lparr>ac_log := l'\<rparr>" for x l'
    using False by (simp add: set_slot_def fun_upd_idem)
  have slot: "(set_slot ?dr (Some d) ?s)\<lparr>ac_log := l'\<rparr> = (set_slot ?dr (Some d) s)\<lparr>ac_log := l'\<rparr>" for d l' by (simp add: set_slot_def)
  have feat: "\<exists>b l'. ctl_set_feature dev ?dr 0x66 0 ((set_slot ?dr (Some d) ?s)\<lparr>ac_log := l1\<rparr>) = Some (b, (set_slot ?dr (Some d) s)\<lparr>ac_log := l'\<rparr>)" for d l1
    using setup_calls_log(4) [of dev ?dr "0x66" 0 "(set_slot ?dr (Some d) ?s)\<lparr>ac_log := l1\<rparr>"] slot by simp
  note start = ata_init_drive_def [of dev pr targ lun s, unfolded Let_def, unfolded if_not_P [OF False] t(1) bind.bind_lunit prod.case]
  show ?thesis
  proof (cases "ty = ATA_DEV_NONE")
    case True
    then show ?thesis using False by (simp add: start) (rule exI [of _ l], simp)
  next
    case ty: False
    show ?thesis
    proof (cases "new_drive pr targ lun ty idp")
      case None
      then show ?thesis using False ty new_drive_total [OF None] by (simp add: start t(1))
    next
      case (Some d)
      note n = new_drive_result [OF Some]
      define res where "res = (if flag_set (ad_flags d) AD_ATAPI
          then (let (ok, d) = sol11atapi_init_drive d in Some (ok, set_slot ?dr (Some d) ?s))
          else sol11ata_disk_init_drive dev pr ?dr (set_slot ?dr (Some d) ?s))"
      have "\<exists>ok d' l'. res = Some (ok, (set_slot ?dr (Some d') ?s)\<lparr>ac_log := l'\<rparr>) \<and> (ok \<longrightarrow> drive_ok d')"
      proof (cases "flag_set (ad_flags d) AD_ATAPI")
        case True
        then have c: "ai_config (ad_id d) AND ATAC_ATAPI_TYPE_MASK = ATAC_ATAPI_TYPE" using n t(2) by simp
        obtain ok d' where i: "sol11atapi_init_drive d = (ok, d')" by fastforce
        have "ok \<longrightarrow> drive_ok d'"
          using i True c by (auto simp: sol11atapi_init_drive_def Let_def drive_ok_def flag_set_or_iff split: if_splits)
        moreover have "(set_slot ?dr (Some d') ?s)\<lparr>ac_log := l\<rparr> = set_slot ?dr (Some d') ?s" by (simp add: set_slot_def)
        ultimately show ?thesis using True i unfolding res_def
          by (intro exI [of _ ok] exI [of _ d'] exI [of _ l]) simp
      next
        case disk: False
        then have "ai_heads (ad_id d) \<noteq> 0" "ai_sectors (ad_id d) \<noteq> 0" using n t(2) ty by (cases ty; simp)+
        with disk_init_drive_result [of d dev pr ?dr ?s] n disk show ?thesis unfolding res_def by simp
      qed
      then obtain ok d' l' where r: "res = Some (ok, (set_slot ?dr (Some d') ?s)\<lparr>ac_log := l'\<rparr>)" "ok \<longrightarrow> drive_ok d'" by blast
      have e: "ata_init_drive dev pr targ lun s = (case res of None \<Rightarrow> None | Some (ok, s) \<Rightarrow>
          if \<not> ok then Some (False, set_slot ?dr None s) else (case ctl_set_feature dev ?dr 0x66 0 s of None \<Rightarrow> None | Some (b, s) \<Rightarrow> Some (True, s)))"
        unfolding start if_not_P [OF ty] Some bind.bind_lunit res_def [unfolded Let_def, symmetric]
        by (cases res) (auto split: option.splits)
      show ?thesis
      proof (cases ok)
        case True
        obtain b l2 where f: "ctl_set_feature dev ?dr 0x66 0 ((set_slot ?dr (Some d') ?s)\<lparr>ac_log := l'\<rparr>) = Some (b, (set_slot ?dr (Some d') s)\<lparr>ac_log := l2\<rparr>)"
          using feat by blast
        have "ata_init_drive dev pr targ lun s = Some (True, (set_slot ?dr (Some d') s)\<lparr>ac_log := l2\<rparr>)"
          unfolding e r(1) using True f by simp
        moreover have "\<exists>d l. (set_slot ?dr (Some d') s)\<lparr>ac_log := l2\<rparr> = (set_slot ?dr (Some d) s)\<lparr>ac_log := l\<rparr> \<and> drive_ok d"
          using r(2) True by blast
        ultimately show ?thesis using False by (simp only: option.case prod.case if_False if_True not_not simp_thms)
      next
        case nok: False
        have "ata_init_drive dev pr targ lun s = Some (False, s\<lparr>ac_log := l'\<rparr>)"
          unfolding e r(1) using nok none by simp
        moreover have "\<exists>l. s\<lparr>ac_log := l'\<rparr> = s\<lparr>ac_log := l\<rparr>" by blast
        ultimately show ?thesis using False by (simp only: option.case prod.case if_False not_not simp_thms)
      qed
    qed
  qed
qed

end
