(* ===== verification/Atapi_Scsa.thy ===== *)
theory Atapi_Scsa
  imports Ata_System Ata_Ident
begin

text \<open>
  The SCSA layer for packet devices (\<open>atapi.c\<close>) with the part of GHD it goes through (\<open>ghd_scsa.c\<close>): allocating
  a packet and setting it up for the next piece of a request (\<open>atapi_tran_init_pkt\<close>,
  \<open>ghd_tran_init_pkt_attr\<close>, \<open>atapi_ccballoc\<close>), submitting it (\<open>atapi_tran_start\<close>), reporting its outcome
  (\<open>atapi_complete\<close>), capabilities, aborts and resets.

  A request is a \<open>scsi_pkt\<close>, an \<open>ata_pkt\<close> with the two fields only this layer uses, and the DMA fields of the
  \<open>gcmd_t\<close>. The kernel's allocations, its DMA calls and \<open>bp_mapin\<close> are arguments. State and statistics
  bits of the \<open>scsi_pkt\<close> are sets of constructors.
\<close>

subsection \<open>Packets\<close>

datatype scsi_reason = CMD_CMPLT | CMD_TRAN_ERR | CMD_RESET | CMD_ABORTED | CMD_TIMEOUT

datatype scsi_state =
    STATE_GOT_BUS
  | STATE_GOT_TARGET
  | STATE_SENT_CMD
  | STATE_XFERRED_DATA
  | STATE_GOT_STATUS
  | STATE_ARQ_DONE

datatype scsi_stat = STAT_BUS_RESET | STAT_DEV_RESET | STAT_ABORTED | STAT_TIMEOUT

text \<open>The request sense part of \<open>struct scsi_arq_status\<close>, without the sense data.\<close>

record arq_status =
  sts_rqpkt_reason :: scsi_reason
  sts_rqpkt_state :: "scsi_state set"
  sts_rqpkt_status :: u8
  sts_rqpkt_resid :: u64
  sts_rqpkt_statistics :: "scsi_stat set"

record scsi_pkt =
  pkt_cdbp :: "u8 list"
  pkt_scbp :: u64            \<comment> \<open>address of the status block\<close>
  pkt_sts_chk :: bool        \<comment> \<open>\<open>sts_chk\<close> in the status block\<close>
  pkt_arq :: arq_status      \<comment> \<open>the rest of the status block, if it has room for it\<close>
  pkt_resid :: u64
  pkt_reason :: scsi_reason
  pkt_state :: "scsi_state set"
  pkt_statistics :: "scsi_stat set"
  pkt_nointr :: bool         \<comment> \<open>\<open>FLAG_NOINTR\<close>\<close>
  pkt_time :: int

record 'h scsi_req =
  sq_spkt :: scsi_pkt
  sq_pkt :: ata_pkt
  sq_baddr :: u64            \<comment> \<open>\<open>ap_baddr\<close>\<close>
  sq_boffset :: u64          \<comment> \<open>\<open>ap_boffset\<close>\<close>
  sq_dma :: "'h gdma_t"

text \<open>The target's instance data (\<open>ata_tgt_t\<close>), and the sizes of the status structures: the bytes in front of the
  sense data and all of \<open>struct scsi_arq_status\<close>.\<close>

record ata_tgt =
  at_arq :: int
  at_total_sectors :: u64
  at_granular :: u32         \<comment> \<open>\<open>at_dma_attr.dma_attr_granular\<close>\<close>

record arq_sizes =
  arq_header :: u64
  arq_size :: nat

definition ATC_PACKET :: u8 where "ATC_PACKET = 0xa0"
definition SCMD_REQUEST_SENSE :: u8 where "SCMD_REQUEST_SENSE = 0x03"
definition atapi_arq_enable :: bool where "atapi_arq_enable = True"

text \<open>\<open>atapi_ccballoc\<close>, called with a zeroed packet. \<open>None\<close> is FALSE: the command is longer than the drive's.\<close>

definition atapi_ccballoc :: "ata_drv \<Rightarrow> nat \<Rightarrow> nat \<Rightarrow> ata_pkt \<Rightarrow> ata_pkt option" where
  "atapi_ccballoc d gcmdp cmdlen k =
    (let k = k\<lparr>ap_gcmdp := Some gcmdp\<rparr>
     in if cmdlen > unat (ad_cdb_len d) then None
        else
          (let k = k\<lparr>ap_cdb_len := of_nat cmdlen\<rparr>;
               k = k\<lparr>ap_cdb_pad := ucast (drop_bit 1 (ucast (ad_cdb_len d) - of_nat cmdlen :: u32))\<rparr>;
               k = k\<lparr>ap_start := Start_atapi_fsm_start, ap_intr := Intr_atapi_fsm_intr, ap_complete := Complete_atapi_complete\<rparr>;
               k = k\<lparr>ap_flags := AP_ATAPI, ap_hd := ad_drive_bits d, ap_cmd := ATC_PACKET\<rparr>
           in Some k))"

definition atapi_init_arq :: "ata_ctl \<Rightarrow> ata_ctl" where
  "atapi_init_arq s =
    (let s = upd_pkt ArqPkt (\<lambda>k. k\<lparr>ap_cdb_len := of_nat (length (ac_arq_cdb s)), ap_start := Start_atapi_fsm_start,
               ap_intr := Intr_atapi_fsm_intr, ap_complete := Complete_atapi_complete, ap_flags := AP_ATAPI,
               ap_cmd := ATC_PACKET\<rparr>) s
     in s\<lparr>ac_arq_cdb := (ac_arq_cdb s)[0 := SCMD_REQUEST_SENSE]\<rparr>)"

subsection \<open>GHD's part\<close>

text \<open>The private areas that come with a packet from \<open>scsi_hba_pkt_alloc\<close> are zeroed.\<close>

definition zero_gdma :: "'h gdma_t" where
  "zero_gdma = \<lparr>cmd_dma_handle = None, cmd_wcount = 0, cmd_windex = 0, cmd_ccount = 0, cmd_cindex = 0, cmd_totxfer = 0,
     cmd_first_cookie = \<lparr>dmac_address = 0, dmac_size = 0\<rparr>, use_first = False\<rparr>"

definition ghd_pktalloc :: "scsi_pkt option \<Rightarrow> ata_drv \<Rightarrow> nat \<Rightarrow> nat \<Rightarrow> 'h scsi_req option" where
  "ghd_pktalloc allocated d gcmdp cmdlen =
    (case allocated of
       None \<Rightarrow> None
     | Some sp \<Rightarrow>
         (case atapi_ccballoc d gcmdp cmdlen zero_ata_pkt of
            None \<Rightarrow> None
          | Some k \<Rightarrow> Some \<lparr>sq_spkt = sp, sq_pkt = k, sq_baddr = 0, sq_boffset = 0, sq_dma = zero_gdma\<rparr>))"

text \<open>The outcome \<open>False\<close> is NULL; then a packet of the caller stays allocated, a new one is freed. \<open>dma\<close> says whether a
  set of DMA attributes was passed.\<close>

definition ghd_tran_init_pkt_attr ::
  "'h ddi_dma_ops \<Rightarrow> bool \<Rightarrow> (bool \<Rightarrow> 'h bind_result) \<Rightarrow> 'h scsi_req option \<Rightarrow> 'h scsi_req option \<Rightarrow> iobuf option \<Rightarrow>
   nat \<Rightarrow> bool \<Rightarrow> bool \<times> 'h scsi_req option" where
  "ghd_tran_init_pkt_attr ops alloc_ok bound new pktp bp cmdlen dma =
    (case (case pktp of None \<Rightarrow> new | Some r \<Rightarrow> Some r) of
       None \<Rightarrow> (False, None)
     | Some r \<Rightarrow>
         (let fail = (\<lambda>r. (False, if pktp = None then None else Some r));
              r = (if cmdlen \<noteq> 0 \<and> cmd_dma_handle (sq_dma r) \<noteq> None then r\<lparr>sq_dma := ghd_dmafree_attr (sq_dma r)\<rparr> else r)
          in case bp of
               None \<Rightarrow> (True, Some (r\<lparr>sq_spkt := (sq_spkt r)\<lparr>pkt_resid := 0\<rparr>\<rparr>))
             | Some b \<Rightarrow>
                 if ib_bcount b = 0 \<or> \<not> dma then (True, Some (r\<lparr>sq_spkt := (sq_spkt r)\<lparr>pkt_resid := 0\<rparr>\<rparr>))
                 else
                   (let (ok, m, _) = (if cmd_dma_handle (sq_dma r) = None
                                      then ghd_dma_buf_bind_attr alloc_ok (bound (ib_read b)) (sq_dma r)
                                      else (True, sq_dma r, None));
                        r = r\<lparr>sq_dma := m\<rparr>
                    in case (if ok then cmd_dma_handle m else None) of
                         None \<Rightarrow> fail r
                       | Some h \<Rightarrow>
                           (case ghd_dmaget_attr ops (\<lambda>ck single i k. ata_pciide_dma_sg_func ck i k)
                                   (ib_bcount b - cmd_totxfer m) ATA_DMA_NSEGS h m (sq_pkt r) of
                              None \<Rightarrow> fail r
                            | Some (_, m, k) \<Rightarrow>
                                (True, Some (r\<lparr>sq_dma := m, sq_pkt := k,
                                   sq_spkt := (sq_spkt r)\<lparr>pkt_resid := ib_bcount b - cmd_totxfer m\<rparr>\<rparr>))))))"

subsection \<open>Setting up a packet\<close>

text \<open>\<open>ap_hicyl\<close> and \<open>ap_lwcyl\<close> tell the drive how many bytes to move for each DRQ.\<close>

definition set_drq_bytes :: "ata_pkt \<Rightarrow> ata_pkt" where
  "set_drq_bytes k =
    (let bytes = min (ap_bcount k) (ucast ATAPI_MAX_BYTES_PER_DRQ)
     in k\<lparr>ap_hicyl := ucast (drop_bit 8 bytes), ap_lwcyl := ucast bytes\<rparr>)"

definition dir_flag :: "iobuf \<Rightarrow> u32" where
  "dir_flag b = (if ib_read b then AP_READ else AP_WRITE)"

text \<open>The tail of \<open>atapi_tran_init_pkt\<close> for a transfer without DMA.\<close>

definition init_pkt_pio :: "(u64 \<Rightarrow> u64) \<Rightarrow> ata_drv \<Rightarrow> iobuf option \<Rightarrow> nat \<Rightarrow> 'h scsi_req \<Rightarrow> 'h scsi_req" where
  "init_pkt_pio mapin d bp cmdlen r =
    (let r = r\<lparr>sq_pkt := (sq_pkt r)\<lparr>ap_pciide_dma := False\<rparr>\<rparr>;
         r = (case bp of
            Some b \<Rightarrow>
              if ib_bcount b \<noteq> 0 then
                (let r = (if cmdlen \<noteq> 0
                          then r\<lparr>sq_baddr := mapin (ib_addr b), sq_boffset := 0, sq_pkt := (sq_pkt r)\<lparr>ap_bcount := 0\<rparr>\<rparr> else r);
                     r = r\<lparr>sq_pkt := (sq_pkt r)\<lparr>ap_flags := ap_flags (sq_pkt r) OR dir_flag b\<rparr>\<rparr>
                 in if flag_set (ad_flags d) AD_1SECTOR
                    then (let r = r\<lparr>sq_boffset := sq_boffset r + ap_bcount (sq_pkt r)\<rparr>;
                              resid = ib_bcount b - sq_boffset r;
                              tmp = min 2048 resid
                          in r\<lparr>sq_pkt := (sq_pkt r)\<lparr>ap_bcount := tmp\<rparr>, sq_spkt := (sq_spkt r)\<lparr>pkt_resid := resid - tmp\<rparr>\<rparr>)
                    else r\<lparr>sq_pkt := (sq_pkt r)\<lparr>ap_bcount := ib_bcount b\<rparr>, sq_spkt := (sq_spkt r)\<lparr>pkt_resid := 0\<rparr>\<rparr>)
              else r\<lparr>sq_baddr := 0, sq_boffset := 0, sq_pkt := (sq_pkt r)\<lparr>ap_bcount := 0\<rparr>\<rparr>
          | None \<Rightarrow> r\<lparr>sq_baddr := 0, sq_boffset := 0, sq_pkt := (sq_pkt r)\<lparr>ap_bcount := 0\<rparr>\<rparr>)
     in r\<lparr>sq_pkt := set_drq_bytes (sq_pkt r)\<rparr>)"

text \<open>From the packet GHD returns to the choice between DMA and programmed transfers.\<close>

definition init_pkt_fields :: "arq_sizes \<Rightarrow> ata_tgt \<Rightarrow> bool \<Rightarrow> nat \<Rightarrow> 'h scsi_req \<Rightarrow> 'h scsi_req" where
  "init_pkt_fields sz tgt old statuslen r =
    (let sp = sq_spkt r;
         k = (sq_pkt r)\<lparr>ap_cdbp := pkt_cdbp sp, ap_statuslen := of_nat statuslen\<rparr>;
         k = (if old then k\<lparr>ap_flags := ap_flags k AND NOT (AP_READ OR AP_WRITE)\<rparr> else k);
         k = (if atapi_arq_enable \<and> at_arq tgt = 1 \<and> unat (ap_statuslen k) \<ge> arq_size sz
              then k\<lparr>ap_scbp_sense := pkt_scbp sp + arq_header sz, ap_flags := ap_flags k OR AP_ARQ_ON_ERROR\<rparr> else k)
     in r\<lparr>sq_pkt := k\<lparr>ap_sec := 0, ap_count := 0\<rparr>\<rparr>)"

text \<open>The outer option is a memory fault: with a scatter/gather list the buffer is read without a test for NULL.\<close>

definition wants_dma :: "ata_drv \<Rightarrow> iobuf option \<Rightarrow> bool" where
  "wants_dma d bp \<longleftrightarrow> (case bp of None \<Rightarrow> False | Some b \<Rightarrow> ib_bcount b \<noteq> 0 \<and> use_dma d b)"

definition atapi_tran_init_pkt ::
  "'h ddi_dma_ops \<Rightarrow> bool \<Rightarrow> (bool \<Rightarrow> 'h bind_result) \<Rightarrow> (u64 \<Rightarrow> u64) \<Rightarrow> arq_sizes \<Rightarrow> scsi_pkt option \<Rightarrow> ata_tgt \<Rightarrow> ata_drv \<Rightarrow>
   nat \<Rightarrow> 'h scsi_req option \<Rightarrow> iobuf option \<Rightarrow> nat \<Rightarrow> nat \<Rightarrow> (bool \<times> 'h scsi_req option) option" where
  "atapi_tran_init_pkt ops alloc_ok bound mapin sz allocated tgt d gcmdp spktp bp cmdlen statuslen =
    (case ghd_tran_init_pkt_attr ops alloc_ok bound (ghd_pktalloc allocated d gcmdp cmdlen) spktp bp cmdlen (wants_dma d bp) of
       (True, Some r) \<Rightarrow>
         (let r = init_pkt_fields sz tgt (spktp \<noteq> None) statuslen r
          in if ap_sg_cnt (sq_pkt r) \<noteq> 0
             then map_option (\<lambda>b. (True, Some (r\<lparr>sq_pkt := (sq_pkt r)\<lparr>ap_flags := ap_flags (sq_pkt r) OR dir_flag b,
                     ap_pciide_dma := True, ap_hicyl := 0, ap_lwcyl := 0\<rparr>\<rparr>))) bp
             else Some (True, Some (init_pkt_pio mapin d bp cmdlen r)))
     | (_, r) \<Rightarrow> Some (False, r))"

definition atapi_tran_dmafree :: "'h scsi_req \<Rightarrow> 'h scsi_req" where
  "atapi_tran_dmafree r =
    (if cmd_dma_handle (sq_dma r) \<noteq> None then r\<lparr>sq_dma := ghd_dmafree_attr (sq_dma r)\<rparr> else r)"

text \<open>\<open>atapi_tran_destroy_pkt\<close>: the DMA state at the time the packet is freed.\<close>

definition atapi_tran_destroy_pkt :: "'h scsi_req \<Rightarrow> 'h gdma_t" where
  "atapi_tran_destroy_pkt r =
    (if cmd_dma_handle (sq_dma r) \<noteq> None then ghd_dmafree_attr (sq_dma r) else sq_dma r)"

subsection \<open>Submitting a packet, aborts and resets\<close>

definition AP_KEPT :: u32 where "AP_KEPT = AP_ATAPI OR AP_READ OR AP_WRITE OR AP_ARQ_ON_ERROR"

text \<open>The initialisation done each time a packet is submitted.\<close>

definition tran_start_init :: "'h scsi_req \<Rightarrow> 'h scsi_req" where
  "tran_start_init r =
    (let k = (sq_pkt r)\<lparr>ap_v_addr := sq_baddr r + sq_boffset r\<rparr>;
         k = k\<lparr>ap_resid := ap_bcount k\<rparr>;
         k = k\<lparr>ap_flags := ap_flags k AND AP_KEPT\<rparr>
     in r\<lparr>sq_pkt := k, sq_spkt := (sq_spkt r)\<lparr>pkt_reason := CMD_CMPLT, pkt_state := {}, pkt_statistics := {}\<rparr>\<rparr>)"

text \<open>The packet of command \<open>g\<close> lives in the driver's state while it is submitted. \<open>got_mutex\<close>, the clocks
  and the interrupt status are those of \<open>sol11ghd_transport\<close>.\<close>

definition atapi_tran_start ::
  "ata_env \<Rightarrow> ata_upper \<Rightarrow> kenv \<Rightarrow> (nat \<Rightarrow> kenv) \<Rightarrow> kenv \<Rightarrow> bool \<Rightarrow> bool option \<Rightarrow> nat \<Rightarrow> 'h scsi_req \<Rightarrow> actl \<Rightarrow>
   ('h scsi_req \<times> actl) option" where
  "atapi_tran_start env up k ks k' got_mutex i g r c =
    (let r = tran_start_init r;
         c = c\<lparr>ccc_hba := upd_pkt (PktOf g) (\<lambda>_. sq_pkt r) (ccc_hba c)\<rparr>;
         d = cmd_gdev (ccc_gcmd c g)
     in map_option (Pair r)
          (if pkt_nointr (sq_spkt r)
           then transport_polled (ata_status env) (ata_process_intr env) (ata_hba_start env) (ata_timeout_func env)
                  (ata_hba_complete env up) k ks k' g d (pkt_time (sq_spkt r)) i c
           else sol11ghd_transport (ata_hba_start env) k got_mutex c g d (pkt_time (sq_spkt r))))"

definition atapi_tran_abort ::
  "ata_env \<Rightarrow> kenv \<Rightarrow> (nat \<Rightarrow> kenv) \<Rightarrow> kenv \<Rightarrow> nat option \<Rightarrow> nat \<Rightarrow> bool option \<Rightarrow> actl \<Rightarrow> (bool \<times> actl) option" where
  "atapi_tran_abort env k ks k' spktp d i c =
    (case spktp of
       Some g \<Rightarrow> sol11ghd_tran_abort (ata_status env) (ata_process_intr env) (ata_hba_start env) (ata_timeout_func env)
                   k ks k' g d i c
     | None \<Rightarrow> sol11ghd_tran_abort_lun (ata_status env) (ata_process_intr env) (ata_hba_start env) (ata_timeout_func env)
                   k ks k' d i c)"

datatype reset_level = RESET_TARGET | RESET_ALL | RESET_OTHER

definition atapi_tran_reset ::
  "ata_env \<Rightarrow> kenv \<Rightarrow> (nat \<Rightarrow> kenv) \<Rightarrow> kenv \<Rightarrow> reset_level \<Rightarrow> nat \<Rightarrow> bool option \<Rightarrow> actl \<Rightarrow> (bool \<times> actl) option" where
  "atapi_tran_reset env k ks k' level d i c =
    (case level of
       RESET_TARGET \<Rightarrow> sol11ghd_tran_reset_target (ata_status env) (ata_process_intr env) (ata_hba_start env)
                         (ata_timeout_func env) k ks k' d i c
     | RESET_ALL \<Rightarrow> sol11ghd_tran_reset_bus (ata_status env) (ata_process_intr env) (ata_hba_start env)
                         (ata_timeout_func env) k ks k' d i c
     | RESET_OTHER \<Rightarrow> Some (False, c))"

subsection \<open>Completion\<close>

definition complete_state :: "u32 \<Rightarrow> scsi_state set" where
  "complete_state fl =
    (if flag_set fl AP_SENT_CMD then {STATE_GOT_BUS, STATE_GOT_TARGET, STATE_SENT_CMD} else {}) \<union>
    (if flag_set fl AP_XFERRED_DATA then {STATE_XFERRED_DATA} else {}) \<union>
    (if flag_set fl AP_GOT_STATUS then {STATE_GOT_STATUS} else {})"

definition complete_reason :: "u32 \<Rightarrow> scsi_reason \<times> scsi_stat set" where
  "complete_reason fl =
    (if flag_set fl AP_TRAN_ERROR then (CMD_TRAN_ERR, {})
     else if flag_set fl AP_BUS_RESET then (CMD_RESET, {STAT_BUS_RESET})
     else if flag_set fl AP_DEV_RESET then (CMD_RESET, {STAT_DEV_RESET})
     else if flag_set fl AP_ABORT then (CMD_ABORTED, {STAT_ABORTED})
     else if flag_set fl AP_TIMEOUT then (CMD_TIMEOUT, {STAT_TIMEOUT})
     else (CMD_CMPLT, {}))"

text \<open>\<open>atapi_complete\<close> reads the driver's packet and writes the SCSA packet; its last act, the target's callback
  (when \<open>do_callback\<close>), is outside.\<close>

definition atapi_complete :: "ata_pkt \<Rightarrow> scsi_pkt \<Rightarrow> scsi_pkt" where
  "atapi_complete k sp =
    (let sp = sp\<lparr>pkt_resid := ap_resid k\<rparr>;
         sp = sp\<lparr>pkt_state := pkt_state sp \<union> complete_state (ap_flags k)\<rparr>;
         (reason, stats) = complete_reason (ap_flags k);
         sp = sp\<lparr>pkt_reason := reason, pkt_statistics := pkt_statistics sp \<union> stats\<rparr>;
         sp = sp\<lparr>pkt_sts_chk := flag_set (ap_flags k) AP_ERROR\<rparr>
     in if flag_set (ap_flags k) AP_ARQ_ERROR then sp\<lparr>pkt_reason := CMD_TRAN_ERR\<rparr>
        else if flag_set (ap_flags k) AP_ARQ_OKAY
        then sp\<lparr>pkt_state := pkt_state sp \<union> {STATE_ARQ_DONE},
                pkt_arq := \<lparr>sts_rqpkt_reason = CMD_CMPLT, sts_rqpkt_state = {STATE_XFERRED_DATA}, sts_rqpkt_status = 0,
                  sts_rqpkt_resid = 0, sts_rqpkt_statistics = {}\<rparr>\<rparr>
        else sp)"

subsection \<open>Capabilities\<close>

datatype scsi_cap =
    SCSI_CAP_SECTOR_SIZE
  | SCSI_CAP_ARQ
  | SCSI_CAP_TOTAL_SECTORS
  | SCSI_CAP_INITIATOR_ID
  | SCSI_CAP_DMA_MAX
  | SCSI_CAP_GEOMETRY
  | SCSI_CAP_OTHER

definition atapi_tran_setcap :: "scsi_cap \<Rightarrow> int \<Rightarrow> bool \<Rightarrow> ata_tgt \<Rightarrow> bool \<times> ata_tgt" where
  "atapi_tran_setcap cap v whom t =
    (case cap of
       SCSI_CAP_SECTOR_SIZE \<Rightarrow> (True, t\<lparr>at_granular := word_of_int v\<rparr>)
     | SCSI_CAP_ARQ \<Rightarrow> if whom then (True, t\<lparr>at_arq := v\<rparr>) else (False, t)
     | SCSI_CAP_TOTAL_SECTORS \<Rightarrow> (True, t\<lparr>at_total_sectors := word_of_int v\<rparr>)
     | _ \<Rightarrow> (False, t))"

definition ATAPI_HEADS :: int where "ATAPI_HEADS = 64"
definition ATAPI_SECTORS_PER_TRK :: int where "ATAPI_SECTORS_PER_TRK = 32"

text \<open>The geometry from the drive's identify data is only used when the static geometry is turned off, which
  nothing does; it is left out.\<close>

definition atapi_tran_getcap :: "scsi_cap option \<Rightarrow> bool \<Rightarrow> int" where
  "atapi_tran_getcap cap whom =
    (case cap of
       None \<Rightarrow> -1
     | Some cap \<Rightarrow>
         if \<not> whom then -1
         else (case cap of
             SCSI_CAP_ARQ \<Rightarrow> 1
           | SCSI_CAP_INITIATOR_ID \<Rightarrow> 7
           | SCSI_CAP_DMA_MAX \<Rightarrow> 4096 * (int ATA_DMA_NSEGS - 1)
           | SCSI_CAP_GEOMETRY \<Rightarrow> push_bit 16 ATAPI_HEADS OR ATAPI_SECTORS_PER_TRK
           | _ \<Rightarrow> -1))"

subsection \<open>The pieces of a request\<close>

text \<open>The packet for the next piece: the target calls \<open>tran_init_pkt\<close> again with the packet it has, and no command.\<close>

definition next_piece ::
  "'h ddi_dma_ops \<Rightarrow> (u64 \<Rightarrow> u64) \<Rightarrow> arq_sizes \<Rightarrow> ata_tgt \<Rightarrow> ata_drv \<Rightarrow> iobuf \<Rightarrow> nat \<Rightarrow> 'h scsi_req \<Rightarrow> 'h scsi_req option" where
  "next_piece ops mapin sz tgt d b statuslen r =
    (case atapi_tran_init_pkt ops False (\<lambda>_. DDI_DMA_NOMAPPING) mapin sz None tgt d 0 (Some r) (Some b) 0 statuslen of
       Some (True, Some r) \<Rightarrow> Some r
     | _ \<Rightarrow> None)"

primrec piece ::
  "'h ddi_dma_ops \<Rightarrow> (u64 \<Rightarrow> u64) \<Rightarrow> arq_sizes \<Rightarrow> ata_tgt \<Rightarrow> ata_drv \<Rightarrow> iobuf \<Rightarrow> nat \<Rightarrow> 'h scsi_req \<Rightarrow> nat \<Rightarrow> 'h scsi_req option" where
  "piece ops mapin sz tgt d b statuslen r 0 = Some r"
| "piece ops mapin sz tgt d b statuslen r (Suc i) =
     Option.bind (piece ops mapin sz tgt d b statuslen r i) (next_piece ops mapin sz tgt d b statuslen)"

text \<open>Where the pieces of a drive with the single sector bug stand.\<close>

definition sector_piece :: "(u64 \<Rightarrow> u64) \<Rightarrow> iobuf \<Rightarrow> nat \<Rightarrow> 'h scsi_req \<Rightarrow> bool" where
  "sector_piece mapin b i r \<longleftrightarrow> sq_baddr r = mapin (ib_addr b) \<and> unat (sq_boffset r) = 2048 * i \<and>
     unat (ap_bcount (sq_pkt r)) = min 2048 (unat (ib_bcount b) - 2048 * i) \<and>
     unat (pkt_resid (sq_spkt r)) = unat (ib_bcount b) - 2048 * i - unat (ap_bcount (sq_pkt r)) \<and>
     cmd_dma_handle (sq_dma r) = None \<and> ap_sg_cnt (sq_pkt r) = 0 \<and> ap_pciide_dma (sq_pkt r) = False \<and>
     ap_hicyl (sq_pkt r) = ucast (drop_bit 8 (ap_bcount (sq_pkt r))) \<and> ap_lwcyl (sq_pkt r) = ucast (ap_bcount (sq_pkt r))"

lemma init_fields_simps [simp]:
  "sq_spkt (init_pkt_fields sz tgt old sl r) = sq_spkt r" "sq_dma (init_pkt_fields sz tgt old sl r) = sq_dma r"
  "sq_baddr (init_pkt_fields sz tgt old sl r) = sq_baddr r" "sq_boffset (init_pkt_fields sz tgt old sl r) = sq_boffset r"
  "ap_bcount (sq_pkt (init_pkt_fields sz tgt old sl r)) = ap_bcount (sq_pkt r)"
  "ap_sg_cnt (sq_pkt (init_pkt_fields sz tgt old sl r)) = ap_sg_cnt (sq_pkt r)"
  "ap_sg_list (sq_pkt (init_pkt_fields sz tgt old sl r)) = ap_sg_list (sq_pkt r)"
  "ap_gcmdp (sq_pkt (init_pkt_fields sz tgt old sl r)) = ap_gcmdp (sq_pkt r)"
  "ap_start (sq_pkt (init_pkt_fields sz tgt old sl r)) = ap_start (sq_pkt r)"
  by (simp_all add: init_pkt_fields_def Let_def)

lemma min_2048: "unat (min 2048 (x :: u64)) = min 2048 (unat x)"
  by (simp add: min_def word_le_nat_alt)

lemma pio_sector_piece:
  assumes "flag_set (ad_flags d) AD_1SECTOR" "ib_bcount b \<noteq> 0" "2048 * i < unat (ib_bcount b)"
    and "cmd_dma_handle (sq_dma r) = None" "ap_sg_cnt (sq_pkt r) = 0"
    and "if cmdlen \<noteq> 0 then i = 0
         else sq_baddr r = mapin (ib_addr b) \<and> unat (sq_boffset r + ap_bcount (sq_pkt r)) = 2048 * i"
  shows "sector_piece mapin b i (init_pkt_pio mapin d (Some b) cmdlen r)"
proof -
  let ?o = "if cmdlen \<noteq> 0 then 0 else sq_boffset r + ap_bcount (sq_pkt r)"
  have o: "unat ?o = 2048 * i" using assms(6) by (auto split: if_splits)
  have le: "?o \<le> ib_bcount b" using assms(3) o by (simp only: word_le_nat_alt)
  define t where "t = min 2048 (ib_bcount b - ?o)"
  have t: "unat t = min 2048 (unat (ib_bcount b) - 2048 * i)"
    unfolding t_def min_2048 unat_sub [OF le] o ..
  have res: "unat (ib_bcount b - ?o - t) = unat (ib_bcount b) - 2048 * i - unat t"
  proof -
    have "t \<le> ib_bcount b - ?o" unfolding t_def by simp
    then show ?thesis by (simp only: unat_sub unat_sub [OF le] o)
  qed
  have drq: "min t (ucast ATAPI_MAX_BYTES_PER_DRQ) = t"
  proof -
    have "t \<le> 2048" unfolding t_def by simp
    moreover have "(2048 :: u64) \<le> ucast ATAPI_MAX_BYTES_PER_DRQ" by (simp add: ATAPI_MAX_BYTES_PER_DRQ_def)
    ultimately show ?thesis using order_trans by (auto simp: min_def)
  qed
  have r: "init_pkt_pio mapin d (Some b) cmdlen r =
      (let r1 = (if cmdlen \<noteq> 0 then r\<lparr>sq_baddr := mapin (ib_addr b)\<rparr> else r)
       in r1\<lparr>sq_boffset := ?o, sq_spkt := (sq_spkt r)\<lparr>pkt_resid := ib_bcount b - ?o - t\<rparr>,
             sq_pkt := set_drq_bytes ((sq_pkt r)\<lparr>ap_pciide_dma := False, ap_flags := ap_flags (sq_pkt r) OR dir_flag b, ap_bcount := t\<rparr>)\<rparr>)"
    using assms(1,2) by (simp add: init_pkt_pio_def Let_def t_def)
  show ?thesis
    unfolding r sector_piece_def using assms(4-6) o t res
    by (auto simp: Let_def set_drq_bytes_def drq split: if_splits)
qed

lemma pio_init_pkt:
  assumes "\<not> use_dma d b"
  shows "atapi_tran_init_pkt ops ao bound mapin sz al tgt d g None (Some b) cmdlen sl =
     (case ghd_pktalloc al d g cmdlen of
        None \<Rightarrow> Some (False, None)
      | Some r \<Rightarrow> Some (True, Some (init_pkt_pio mapin d (Some b) cmdlen
          (init_pkt_fields sz tgt False sl (r\<lparr>sq_spkt := (sq_spkt r)\<lparr>pkt_resid := 0\<rparr>\<rparr>)))))"
    and "cmd_dma_handle (sq_dma r) = None \<Longrightarrow> ap_sg_cnt (sq_pkt r) = 0 \<Longrightarrow>
     atapi_tran_init_pkt ops ao bound mapin sz al tgt d g (Some r) (Some b) cmdlen sl =
       Some (True, Some (init_pkt_pio mapin d (Some b) cmdlen
          (init_pkt_fields sz tgt True sl (r\<lparr>sq_spkt := (sq_spkt r)\<lparr>pkt_resid := 0\<rparr>\<rparr>))))"
  using assms
  by (auto simp: atapi_tran_init_pkt_def ghd_tran_init_pkt_attr_def wants_dma_def Let_def ghd_pktalloc_def zero_gdma_def
      atapi_ccballoc_def zero_ata_pkt_def split: option.splits)

text \<open>The sector ranges of the pieces, one behind the other.\<close>

lemma pieces_tile:
  "concat (map (\<lambda>i. [2048 * i..<2048 * i + min 2048 (n - 2048 * i)]) [0..<k]) = [0..<min n (2048 * k)]"
proof (induction k)
  case (Suc k)
  have "[0..<min n (2048 * k)] @ [2048 * k..<2048 * k + min 2048 (n - 2048 * k)] = [0..<min n (2048 * Suc k)]"
  proof (cases "2048 * k \<le> n")
    case True
    then have "min n (2048 * k) = 2048 * k" "min n (2048 * Suc k) = 2048 * k + min 2048 (n - 2048 * k)" by simp_all
    then show ?thesis by (metis upt_add_eq_append zero_le)
  qed simp
  with Suc show ?case by simp
qed simp

lemma sector_pieces:
  assumes d: "flag_set (ad_flags d) AD_1SECTOR" "\<not> use_dma d b" "ib_bcount b \<noteq> 0"
    and r: "sector_piece mapin b 0 r0"
  shows "2048 * i < unat (ib_bcount b) \<Longrightarrow>
    \<exists>r. piece ops mapin sz tgt d b sl r0 i = Some r \<and> sector_piece mapin b i r"
proof (induction i)
  case (Suc i)
  then obtain r where p: "piece ops mapin sz tgt d b sl r0 i = Some r" "sector_piece mapin b i r" by auto
  let ?f = "init_pkt_fields sz tgt True sl (r\<lparr>sq_spkt := (sq_spkt r)\<lparr>pkt_resid := 0\<rparr>\<rparr>)"
  have n: "next_piece ops mapin sz tgt d b sl r = Some (init_pkt_pio mapin d (Some b) 0 ?f)"
    using p(2) pio_init_pkt(2) [OF d(2), of r] by (simp add: next_piece_def sector_piece_def)
  have c: "unat (ap_bcount (sq_pkt r)) = 2048" "unat (sq_boffset r) = 2048 * i" using p(2) Suc.prems by (simp_all add: sector_piece_def)
  have "unat (ib_bcount b) < 2 ^ 64" using unsigned_less [of "ib_bcount b"] by simp
  then have "unat (sq_boffset r) + unat (ap_bcount (sq_pkt r)) < 2 ^ LENGTH(64)" using c Suc.prems by simp
  then have "unat (sq_boffset r + ap_bcount (sq_pkt r)) = 2048 * Suc i"
    using c by (simp add: unat_add_lem [THEN iffD1])
  then have "sector_piece mapin b (Suc i) (init_pkt_pio mapin d (Some b) 0 ?f)"
    using p(2) d Suc.prems by (intro pio_sector_piece) (simp_all add: sector_piece_def)
  with p(1) n show ?case by simp
qed (simp add: r)

text \<open>C36: On a drive that moves one sector per command (and without DMA), setting up a packet again and again until its
  residual count is zero divides the buffer into pieces of at most 2048 bytes that follow one another and cover it
  exactly; each piece, once submitted, reads or writes from the buffer address plus its offset, and tells the drive
  its own byte count.\<close>

theorem atapi_sector_pieces:
  fixes b :: iobuf and r0 :: "'h scsi_req"
  defines "n \<equiv> unat (ib_bcount b)"
  assumes "flag_set (ad_flags d) AD_1SECTOR" "\<not> use_dma d b" "0 < n" "cmdlen \<noteq> 0"
    and "atapi_tran_init_pkt ops ao bound mapin sz al tgt d g None (Some b) cmdlen sl = Some (True, Some r0)"
  shows "\<exists>rs. length rs = (n + 2047) div 2048 \<and> (\<forall>i<length rs. piece ops mapin sz tgt d b sl r0 i = Some (rs ! i)) \<and>
    concat (map (\<lambda>r. [unat (sq_boffset r)..<unat (sq_boffset r) + unat (ap_bcount (sq_pkt r))]) rs) = [0..<n] \<and>
    (\<forall>i<length rs. pkt_resid (sq_spkt (rs ! i)) = 0 \<longleftrightarrow> i + 1 = length rs) \<and>
    (\<forall>r\<in>set rs. unat (ap_bcount (sq_pkt r)) \<le> 2048 \<and>
       ap_v_addr (sq_pkt (tran_start_init r)) = mapin (ib_addr b) + sq_boffset r \<and>
       ap_resid (sq_pkt (tran_start_init r)) = ap_bcount (sq_pkt r) \<and>
       256 * unat (ap_hicyl (sq_pkt r)) + unat (ap_lwcyl (sq_pkt r)) = unat (ap_bcount (sq_pkt r)))"
proof -
  have b0: "ib_bcount b \<noteq> 0" using assms(4) by (auto simp: n_def)
  obtain r :: "'h scsi_req" where r: "ghd_pktalloc al d g cmdlen = Some r" using assms(6) by (auto simp: pio_init_pkt(1) [OF assms(3)] split: option.splits)
  then have z: "cmd_dma_handle (sq_dma r) = None" "ap_sg_cnt (sq_pkt r) = 0"
    by (auto simp: ghd_pktalloc_def atapi_ccballoc_def zero_ata_pkt_def zero_gdma_def Let_def split: option.splits if_splits)
  have r0: "r0 = init_pkt_pio mapin d (Some b) cmdlen
      (init_pkt_fields sz tgt False sl (r\<lparr>sq_spkt := (sq_spkt r)\<lparr>pkt_resid := 0\<rparr>\<rparr>))"
    using assms(6) by (simp add: pio_init_pkt(1) [OF assms(3)] r)
  have f: "sector_piece mapin b 0 r0"
    unfolding r0 by (rule pio_sector_piece) (use assms(2,4,5) b0 z in \<open>simp_all add: n_def\<close>)
  have ex: "\<exists>r. piece ops mapin sz tgt d b sl r0 i = Some r \<and> sector_piece mapin b i r" if "2048 * i < n" for i
    using sector_pieces [OF assms(2,3) b0 f] that by (simp add: n_def)
  define m where "m = (n + 2047) div 2048"
  have m: "i < m \<longleftrightarrow> 2048 * i < n" for i unfolding m_def by linarith
  define p where "p i = the (piece ops mapin sz tgt d b sl r0 i)" for i
  have p: "piece ops mapin sz tgt d b sl r0 i = Some (p i) \<and> sector_piece mapin b i (p i)" if "i < m" for i
  proof -
    from ex [of i] that m obtain r where "piece ops mapin sz tgt d b sl r0 i = Some r" "sector_piece mapin b i r" by blast
    then show ?thesis by (simp add: p_def)
  qed
  let ?rs = "map p [0..<m]"
  have t: "concat (map (\<lambda>r. [unat (sq_boffset r)..<unat (sq_boffset r) + unat (ap_bcount (sq_pkt r))]) ?rs) = [0..<n]"
  proof -
    have "[unat (sq_boffset (p i))..<unat (sq_boffset (p i)) + unat (ap_bcount (sq_pkt (p i)))] =
        [2048 * i..<2048 * i + min 2048 (n - 2048 * i)]" if "i < m" for i
      using p [OF that] unfolding sector_piece_def n_def by presburger
    then have "map (\<lambda>r. [unat (sq_boffset r)..<unat (sq_boffset r) + unat (ap_bcount (sq_pkt r))]) ?rs =
        map (\<lambda>i. [2048 * i..<2048 * i + min 2048 (n - 2048 * i)]) [0..<m]" by simp
    moreover have "min n (2048 * m) = n" unfolding m_def by linarith
    ultimately show ?thesis by (simp only: pieces_tile)
  qed
  have res: "pkt_resid (sq_spkt (p i)) = 0 \<longleftrightarrow> i + 1 = m" if "i < m" for i
  proof -
    have "pkt_resid (sq_spkt (p i)) = 0 \<longleftrightarrow> n - 2048 * i - min 2048 (n - 2048 * i) = 0"
      using p [OF that] by (auto simp: sector_piece_def n_def unat_eq_zero)
    also have "\<dots> \<longleftrightarrow> i + 1 = m" using that unfolding m_def by linarith
    finally show ?thesis .
  qed
  have each: "unat (ap_bcount (sq_pkt (p i))) \<le> 2048 \<and>
       ap_v_addr (sq_pkt (tran_start_init (p i))) = mapin (ib_addr b) + sq_boffset (p i) \<and>
       ap_resid (sq_pkt (tran_start_init (p i))) = ap_bcount (sq_pkt (p i)) \<and>
       256 * unat (ap_hicyl (sq_pkt (p i))) + unat (ap_lwcyl (sq_pkt (p i))) = unat (ap_bcount (sq_pkt (p i)))" if "i < m" for i
  proof -
    from p [OF that] have s: "sector_piece mapin b i (p i)" ..
    then have c: "unat (ap_bcount (sq_pkt (p i))) \<le> 2048" by (simp add: sector_piece_def)
    have "256 * unat (ucast (drop_bit 8 x) :: u8) + unat (ucast x :: u8) = unat x" if "unat x \<le> 2048" for x :: u64
    proof -
      have "unat (ucast (drop_bit 8 x) :: u8) = unat x div 256 mod 256" "unat (ucast x :: u8) = unat x mod 256"
        by (simp_all add: unsigned_ucast_eq take_bit_eq_mod drop_bit_eq_div unat_div)
      then show ?thesis using that by simp
    qed
    with s c show ?thesis by (simp add: sector_piece_def tran_start_init_def Let_def)
  qed
  show ?thesis using p t res each by (intro exI [of _ ?rs]) (auto simp: m_def [symmetric])
qed

subsection \<open>Transfers by DMA\<close>

text \<open>A packet that goes on to the next piece of a bound buffer.\<close>

lemma dma_next_pkt:
  assumes "use_dma d b" "ib_bcount b \<noteq> 0" "cmd_dma_handle (sq_dma r) = Some h"
  shows "atapi_tran_init_pkt ops ao bound mapin sz al tgt d g (Some r) (Some b) 0 sl =
     (case ghd_dmaget_attr ops (\<lambda>ck single i k. ata_pciide_dma_sg_func ck i k) (ib_bcount b - cmd_totxfer (sq_dma r))
         ATA_DMA_NSEGS h (sq_dma r) (sq_pkt r) of
        None \<Rightarrow> Some (False, Some r)
      | Some (n, m, k) \<Rightarrow>
          (let r = init_pkt_fields sz tgt True sl (r\<lparr>sq_dma := m, sq_pkt := k,
                     sq_spkt := (sq_spkt r)\<lparr>pkt_resid := ib_bcount b - cmd_totxfer m\<rparr>\<rparr>)
           in if ap_sg_cnt (sq_pkt r) \<noteq> 0
              then Some (True, Some (r\<lparr>sq_pkt := (sq_pkt r)\<lparr>ap_flags := ap_flags (sq_pkt r) OR dir_flag b,
                     ap_pciide_dma := True, ap_hicyl := 0, ap_lwcyl := 0\<rparr>\<rparr>))
              else Some (True, Some (init_pkt_pio mapin d (Some b) 0 r))))"
proof -
  have w: "wants_dma d (Some b)" using assms by (simp add: wants_dma_def)
  show ?thesis
  proof (cases "ghd_dmaget_attr ops (\<lambda>ck single i k. ata_pciide_dma_sg_func ck i k) (ib_bcount b - cmd_totxfer (sq_dma r))
         ATA_DMA_NSEGS h (sq_dma r) (sq_pkt r)")
    case None
    with w assms(2,3) show ?thesis by (simp add: atapi_tran_init_pkt_def ghd_tran_init_pkt_attr_def Let_def)
  next
    case (Some x)
    obtain n m k where x: "x = (n, m, k)" by (cases x)
    with Some w assms(2,3) show ?thesis by (simp add: atapi_tran_init_pkt_def ghd_tran_init_pkt_attr_def Let_def)
  qed
qed

text \<open>The direction bits of a packet that is set up again.\<close>

lemma redirect_flags:
  "(ap_flags (sq_pkt (init_pkt_fields sz tgt True sl r)) OR dir_flag b) AND (AP_READ OR AP_WRITE) = dir_flag b"
proof -
  let ?m = "AP_READ OR AP_WRITE"
  have d: "dir_flag b AND ?m = dir_flag b" by (simp add: ap_flag_defs dir_flag_def)
  have a: "AP_ARQ_ON_ERROR AND ?m = 0" by (simp add: ap_flag_defs)
  have x: "(x AND NOT ?m) AND ?m = 0" for x :: u32
    using bit.conj_cancel_left [of ?m] by (simp only: and.assoc and_zero_eq)
  show ?thesis
    unfolding init_pkt_fields_def Let_def by (simp add: bit.conj_disj_distrib2 d a x [simplified])
qed

text \<open>C37: Setting up a packet again for a buffer bound for DMA always succeeds while cookies are left, and takes the next of
  them, at most the size of the scatter/gather table: the table holds their descriptors in order, the byte count is
  their sum, the residual count what is left behind them, the direction bits those of the buffer, and the DMA state is
  ready for the piece that follows.\<close>

theorem atapi_dma_piece:
  fixes r :: "'h scsi_req" and wins :: "cookie_t list list"
  defines "rest \<equiv> dma_rest wins (sq_dma r)"
  assumes "dma_handle_ok ops wins pos" "dma_between wins pos h (sq_dma r)" "cmd_dma_handle (sq_dma r) = Some h"
    and "use_dma d b" "ib_bcount b \<noteq> 0" "rest \<noteq> []" "length (ap_sg_list (sq_pkt r)) = ATA_DMA_NSEGS"
  shows "\<exists>r' k h'. atapi_tran_init_pkt ops ao bound mapin sz al tgt d g (Some r) (Some b) 0 sl = Some (True, Some r') \<and>
     0 < k \<and> k \<le> ATA_DMA_NSEGS \<and> ap_sg_cnt (sq_pkt r') = k \<and>
     take k (ap_sg_list (sq_pkt r')) = map prd_of (take k rest) \<and>
     ap_bcount (sq_pkt r') = sum_list (map dmac_size (take k rest)) \<and>
     pkt_resid (sq_spkt r') = ib_bcount b - (cmd_totxfer (sq_dma r) + ap_bcount (sq_pkt r')) \<and>
     ap_pciide_dma (sq_pkt r') \<and> ap_flags (sq_pkt r') AND (AP_READ OR AP_WRITE) = dir_flag b \<and>
     cmd_dma_handle (sq_dma r') = Some h' \<and> dma_between wins pos h' (sq_dma r') \<and> dma_rest wins (sq_dma r') = drop k rest"
proof -
  let ?sg = "\<lambda>ck (single :: bool) i k. ata_pciide_dma_sg_func ck i k"
  from dmaget_spec [OF assms(2,3), of ATA_DMA_NSEGS "ib_bcount b - cmd_totxfer (sq_dma r)" ?sg "sq_pkt r"] assms(7)
  obtain k m' h' single where
    k: "0 < k" "k \<le> max 1 ATA_DMA_NSEGS" "k \<le> length (wins ! cmd_windex (sq_dma r)) - cmd_cindex (sq_dma r)"
       "cmd_windex (sq_dma r) < length wins" and
    g: "ghd_dmaget_attr ops ?sg (ib_bcount b - cmd_totxfer (sq_dma r)) ATA_DMA_NSEGS h (sq_dma r) (sq_pkt r) =
          Some (ucast (sum_list (map dmac_size (take k rest))), m', sg_calls ?sg single 0 (take k rest) (sq_pkt r))" and
    m: "cmd_dma_handle m' = Some h'" "dma_between wins pos h' m'" "dma_rest wins m' = drop k rest"
       "cmd_totxfer m' = cmd_totxfer (sq_dma r) + sum_list (map dmac_size (take k rest))"
    unfolding rest_def by blast
  have len: "length (take k rest) = k"
  proof -
    have "length rest \<ge> length (wins ! cmd_windex (sq_dma r)) - cmd_cindex (sq_dma r)"
      using k(4) unfolding rest_def dma_rest_def by (simp add: Cons_nth_drop_Suc [symmetric])
    with k(3) show ?thesis by simp
  qed
  have n: "k \<le> ATA_DMA_NSEGS" using k(2) by (simp add: ATA_DMA_NSEGS_def)
  have ne: "take k rest \<noteq> []" using k(1) assms(7) by simp
  let ?k' = "sg_build (take k rest) (sq_pkt r)"
  have sp: "ap_sg_list ?k' = map prd_of (take k rest) @ drop k (ap_sg_list (sq_pkt r))" "ap_sg_cnt ?k' = k"
    "ap_bcount ?k' = sum_list (map dmac_size (take k rest))"
    using sg_build_spec [of "take k rest" "sq_pkt r"] len n ne assms(8) by simp_all
  let ?r1 = "r\<lparr>sq_dma := m', sq_pkt := ?k', sq_spkt := (sq_spkt r)\<lparr>pkt_resid := ib_bcount b - cmd_totxfer m'\<rparr>\<rparr>"
  let ?r2 = "init_pkt_fields sz tgt True sl ?r1"
  let ?r' = "?r2\<lparr>sq_pkt := (sq_pkt ?r2)\<lparr>ap_flags := ap_flags (sq_pkt ?r2) OR dir_flag b, ap_pciide_dma := True, ap_hicyl := 0, ap_lwcyl := 0\<rparr>\<rparr>"
  have "atapi_tran_init_pkt ops ao bound mapin sz al tgt d g (Some r) (Some b) 0 sl = Some (True, Some ?r')"
    using dma_next_pkt [OF assms(5,6,4), of ops ao bound mapin sz al tgt g sl] g sp(2) k(1)
    by (simp add: sg_calls_build Let_def)
  with k n m sp len redirect_flags [of sz tgt sl ?r1 b] show ?thesis
    by (intro exI [of _ ?r'] exI [of _ k] exI [of _ h']) simp
qed

text \<open>The scatter/gather list of a packet outlives its DMA resources: released and set up again for a buffer that cannot
  use DMA, the packet is still run as a DMA transfer with the old list; without a buffer the setup reads through a null
  pointer.\<close>

theorem atapi_stale_sg_list:
  fixes r :: "'h scsi_req"
  assumes "ap_sg_cnt (sq_pkt r) \<noteq> 0" "\<not> use_dma d b"
  shows "(\<exists>r'. atapi_tran_init_pkt ops ao bound mapin sz al tgt d g (Some (atapi_tran_dmafree r)) (Some b) cmdlen sl = Some (True, Some r') \<and>
       cmd_dma_handle (sq_dma r') = None \<and> ap_pciide_dma (sq_pkt r') \<and> ap_sg_cnt (sq_pkt r') = ap_sg_cnt (sq_pkt r) \<and>
       ap_sg_list (sq_pkt r') = ap_sg_list (sq_pkt r) \<and> ap_bcount (sq_pkt r') = ap_bcount (sq_pkt r)) \<and>
     atapi_tran_init_pkt ops ao bound mapin sz al tgt d g (Some (atapi_tran_dmafree r)) None cmdlen sl = None"
proof -
  let ?f = "atapi_tran_dmafree r"
  have "cmd_dma_handle (sq_dma ?f) = None" "sq_pkt ?f = sq_pkt r"
    by (auto simp: atapi_tran_dmafree_def ghd_dmafree_attr_def split: option.splits)
  with assms show ?thesis by (simp add: atapi_tran_init_pkt_def ghd_tran_init_pkt_attr_def wants_dma_def Let_def)
qed

subsection \<open>What setting up a packet keeps\<close>

definition sg_only :: "ata_pkt \<Rightarrow> ata_pkt \<Rightarrow> bool" where
  "sg_only k k' \<longleftrightarrow> k'\<lparr>ap_sg_list := [], ap_sg_cnt := 0, ap_bcount := 0\<rparr> = k\<lparr>ap_sg_list := [], ap_sg_cnt := 0, ap_bcount := 0\<rparr>"

lemma sg_only_refl: "sg_only k k"
  by (simp add: sg_only_def)

lemma sg_only_sg_func: "sg_only k k' \<Longrightarrow> sg_only k (ata_pciide_dma_sg_func ck i k')"
  by (simp add: sg_only_def ata_pciide_dma_sg_func_def Let_def)

definition init_kept :: "'h scsi_req \<Rightarrow> 'h scsi_req \<Rightarrow> bool" where
  "init_kept r r' \<longleftrightarrow> sg_only (sq_pkt r) (sq_pkt r') \<and> sq_baddr r' = sq_baddr r \<and> sq_boffset r' = sq_boffset r \<and>
     (sq_spkt r')\<lparr>pkt_resid := 0\<rparr> = (sq_spkt r)\<lparr>pkt_resid := 0\<rparr>"

lemma ghd_init_pkt_kept:
  assumes "ghd_tran_init_pkt_attr ops ao bound new pktp bp cmdlen dma = (True, Some r')"
  shows "\<exists>r. (case pktp of None \<Rightarrow> new | Some r \<Rightarrow> Some r) = Some r \<and> init_kept r r'"
proof (cases "case pktp of None \<Rightarrow> new | Some r \<Rightarrow> Some r")
  case None
  then show ?thesis using assms by (simp add: ghd_tran_init_pkt_attr_def)
next
  case (Some r)
  let ?sg = "\<lambda>ck (single :: bool) i k. ata_pciide_dma_sg_func ck i k"
  have sg: "ghd_dmaget_attr ops ?sg n sz h m (sq_pkt r) = Some (x, m', k') \<Longrightarrow> sg_only (sq_pkt r) k'" for n sz h m x m' k'
    by (erule dmaget_inv) (simp_all add: sg_only_refl sg_only_sg_func)
  have "init_kept r r'"
    using assms Some sg
    by (auto simp: ghd_tran_init_pkt_attr_def Let_def init_kept_def sg_only_refl
        split: option.splits if_splits prod.splits dest!: sg)
  with Some show ?thesis by blast
qed

lemma sg_onlyD:
  assumes "sg_only k k'"
  shows "ap_flags k' = ap_flags k" "ap_gcmdp k' = ap_gcmdp k" "ap_start k' = ap_start k" "ap_scbp_sense k' = ap_scbp_sense k"
    "ap_cdb_len k' = ap_cdb_len k" "ap_cdb_pad k' = ap_cdb_pad k"
  using assms by (cases k; cases k'; simp add: sg_only_def)+

lemma arq_flag_dir [simp]: "\<not> flag_set (dir_flag b) AP_ARQ_ON_ERROR" "flag_set AP_ARQ_ON_ERROR AP_ARQ_ON_ERROR"
  by (simp_all add: dir_flag_def flag_set_def ap_flag_defs)

lemma set_drq_bytes_keeps [simp]:
  "ap_flags (set_drq_bytes k) = ap_flags k" "ap_gcmdp (set_drq_bytes k) = ap_gcmdp k" "ap_start (set_drq_bytes k) = ap_start k"
  "ap_scbp_sense (set_drq_bytes k) = ap_scbp_sense k" "ap_statuslen (set_drq_bytes k) = ap_statuslen k"
  "ap_cdb_len (set_drq_bytes k) = ap_cdb_len k" "ap_cdb_pad (set_drq_bytes k) = ap_cdb_pad k"
  by (simp_all add: set_drq_bytes_def Let_def)

lemma init_pio_keeps:
  "ap_gcmdp (sq_pkt (init_pkt_pio mapin d bp cl r)) = ap_gcmdp (sq_pkt r)"
  "ap_start (sq_pkt (init_pkt_pio mapin d bp cl r)) = ap_start (sq_pkt r)"
  "ap_scbp_sense (sq_pkt (init_pkt_pio mapin d bp cl r)) = ap_scbp_sense (sq_pkt r)"
  "ap_statuslen (sq_pkt (init_pkt_pio mapin d bp cl r)) = ap_statuslen (sq_pkt r)"
  "flag_set (ap_flags (sq_pkt (init_pkt_pio mapin d bp cl r))) AP_ARQ_ON_ERROR = flag_set (ap_flags (sq_pkt r)) AP_ARQ_ON_ERROR"
  by (simp_all add: init_pkt_pio_def Let_def split: option.splits)

definition arq_fits :: "arq_sizes \<Rightarrow> ata_tgt \<Rightarrow> nat \<Rightarrow> bool" where
  "arq_fits sz tgt sl \<longleftrightarrow> at_arq tgt = 1 \<and> arq_size sz \<le> unat (of_nat sl :: u8)"

lemma init_fields_arq:
  "ap_statuslen (sq_pkt (init_pkt_fields sz tgt old sl r)) = of_nat sl"
  "ap_scbp_sense (sq_pkt (init_pkt_fields sz tgt old sl r)) =
     (if arq_fits sz tgt sl then pkt_scbp (sq_spkt r) + arq_header sz else ap_scbp_sense (sq_pkt r))"
  "flag_set (ap_flags (sq_pkt (init_pkt_fields sz tgt old sl r))) AP_ARQ_ON_ERROR =
     (arq_fits sz tgt sl \<or> flag_set (ap_flags (sq_pkt r)) AP_ARQ_ON_ERROR)"
proof -
  have "flag_set (x AND NOT (AP_READ OR AP_WRITE)) AP_ARQ_ON_ERROR = flag_set x AP_ARQ_ON_ERROR" for x
  proof -
    have "NOT (AP_READ OR AP_WRITE) AND AP_ARQ_ON_ERROR = AP_ARQ_ON_ERROR" by (simp add: ap_flag_defs)
    then show ?thesis by (simp only: flag_set_def and.assoc)
  qed
  then show "flag_set (ap_flags (sq_pkt (init_pkt_fields sz tgt old sl r))) AP_ARQ_ON_ERROR =
     (arq_fits sz tgt sl \<or> flag_set (ap_flags (sq_pkt r)) AP_ARQ_ON_ERROR)"
    by (auto simp: init_pkt_fields_def arq_fits_def Let_def atapi_arq_enable_def simp del: bit.de_Morgan_disj)
qed (auto simp: init_pkt_fields_def arq_fits_def Let_def atapi_arq_enable_def)

lemma init_pkt_result:
  fixes r' :: "'h scsi_req"
  assumes "atapi_tran_init_pkt ops ao bound mapin sz al tgt d g spktp bp cmdlen sl = Some (True, Some r')"
  obtains r :: "'h scsi_req" where "(case spktp of None \<Rightarrow> ghd_pktalloc al d g cmdlen | Some r \<Rightarrow> Some r) = Some r"
    "ap_statuslen (sq_pkt r') = of_nat sl"
    "flag_set (ap_flags (sq_pkt r')) AP_ARQ_ON_ERROR = (arq_fits sz tgt sl \<or> flag_set (ap_flags (sq_pkt r)) AP_ARQ_ON_ERROR)"
    "ap_scbp_sense (sq_pkt r') = (if arq_fits sz tgt sl then pkt_scbp (sq_spkt r) + arq_header sz else ap_scbp_sense (sq_pkt r))"
    "ap_gcmdp (sq_pkt r') = ap_gcmdp (sq_pkt r)" "ap_start (sq_pkt r') = ap_start (sq_pkt r)"
proof -
  obtain r1 :: "'h scsi_req" where r1: "ghd_tran_init_pkt_attr ops ao bound (ghd_pktalloc al d g cmdlen) spktp bp cmdlen (wants_dma d bp) = (True, Some r1)"
    using assms by (auto simp: atapi_tran_init_pkt_def split: prod.splits bool.splits option.splits)
  from ghd_init_pkt_kept [OF r1] obtain r where
    r: "(case spktp of None \<Rightarrow> ghd_pktalloc al d g cmdlen | Some r \<Rightarrow> Some r) = Some r" "init_kept r r1" by blast
  have sp: "pkt_scbp (sq_spkt r1) = pkt_scbp (sq_spkt r)"
  proof -
    have "(sq_spkt r1)\<lparr>pkt_resid := 0\<rparr> = (sq_spkt r)\<lparr>pkt_resid := 0\<rparr>" using r(2) by (simp add: init_kept_def)
    from arg_cong [OF this, of pkt_scbp] show ?thesis by simp
  qed
  have k: "sg_only (sq_pkt r) (sq_pkt r1)" using r(2) by (simp add: init_kept_def)
  let ?f = "init_pkt_fields sz tgt (spktp \<noteq> None) sl r1"
  have "ap_statuslen (sq_pkt r') = ap_statuslen (sq_pkt ?f) \<and> ap_scbp_sense (sq_pkt r') = ap_scbp_sense (sq_pkt ?f) \<and>
      ap_gcmdp (sq_pkt r') = ap_gcmdp (sq_pkt ?f) \<and> ap_start (sq_pkt r') = ap_start (sq_pkt ?f) \<and>
      flag_set (ap_flags (sq_pkt r')) AP_ARQ_ON_ERROR = flag_set (ap_flags (sq_pkt ?f)) AP_ARQ_ON_ERROR"
    using assms by (auto simp: atapi_tran_init_pkt_def r1 Let_def init_pio_keeps split: if_splits)
  with sp sg_onlyD [OF k] init_fields_arq [of sz tgt "spktp \<noteq> None" sl r1] that [OF r(1)] show thesis by simp
qed

subsection \<open>Automatic request sense\<close>

lemma arq_init_sense:
  "ap_v_addr (ac_pkt (arq_init hdr dr (PktOf g) s) ArqPkt) = ap_scbp_sense (ac_pkt s (PktOf g))"
  "ap_resid (ac_pkt (arq_init hdr dr (PktOf g) s) ArqPkt) = ucast (ucast (ap_statuslen (ac_pkt s (PktOf g))) - hdr)"
  by (simp_all add: arq_init_def Let_def upd_pkt_def)

lemma unat_ucast64: "unat (ucast (x :: u32) :: u64) = unat x"
proof -
  have "unat x < 2 ^ 32" using unsigned_less [of x, where 'a = nat] by simp
  then have "unat x < 2 ^ 64" by simp
  then show ?thesis by (simp add: unsigned_ucast_eq take_bit_nat_eq_self del: of_nat_unat)
qed

text \<open>C38: A new packet with automatic request sense leaves the sense data room in the status block: the transfer that the
  protocol machine sets up for it starts behind the header of the block, is not empty and ends within the length the
  caller gave.\<close>

theorem atapi_sense_fits:
  fixes r' :: "'h scsi_req"
  assumes "atapi_tran_init_pkt ops ao bound mapin sz al tgt d g None bp cmdlen sl = Some (True, Some r')"
    and "flag_set (ap_flags (sq_pkt r')) AP_ARQ_ON_ERROR" "ac_pkt s (PktOf g) = sq_pkt r'"
    and "unat hdr < arq_size sz" "arq_header sz = ucast hdr"
  shows "\<exists>sp. al = Some sp \<and>
     ap_v_addr (ac_pkt (arq_init hdr dr (PktOf g) s) ArqPkt) = pkt_scbp sp + ucast hdr \<and>
     0 < ap_resid (ac_pkt (arq_init hdr dr (PktOf g) s) ArqPkt) \<and>
     unat hdr + unat (ap_resid (ac_pkt (arq_init hdr dr (PktOf g) s) ArqPkt)) \<le> sl"
proof -
  from init_pkt_result [OF assms(1)] obtain r :: "'h scsi_req" where
    r: "ghd_pktalloc al d g cmdlen = Some r" "ap_statuslen (sq_pkt r') = of_nat sl"
      "flag_set (ap_flags (sq_pkt r')) AP_ARQ_ON_ERROR = (arq_fits sz tgt sl \<or> flag_set (ap_flags (sq_pkt r)) AP_ARQ_ON_ERROR)"
      "ap_scbp_sense (sq_pkt r') = (if arq_fits sz tgt sl then pkt_scbp (sq_spkt r) + arq_header sz else ap_scbp_sense (sq_pkt r))"
    by auto
  from r(1) have al: "al = Some (sq_spkt r)" "ap_flags (sq_pkt r) = AP_ATAPI"
    by (auto simp: ghd_pktalloc_def atapi_ccballoc_def Let_def split: option.splits if_splits)
  have "\<not> flag_set AP_ATAPI AP_ARQ_ON_ERROR" by (simp add: flag_set_def ap_flag_defs)
  with r(3) assms(2) al(2) have f: "arq_fits sz tgt sl" by simp
  then have lt: "unat hdr < unat (of_nat sl :: u8)" using assms(4) by (simp add: arq_fits_def)
  let ?n = "ucast (of_nat sl :: u8) :: u32"
  have "unat (of_nat sl :: u8) < 2 ^ 32" using unsigned_less [of "of_nat sl :: u8", where 'a = nat] by simp
  then have n: "unat ?n = unat (of_nat sl :: u8)" by (simp add: unsigned_ucast_eq take_bit_nat_eq_self)
  have le: "hdr \<le> ?n" unfolding word_le_nat_alt n using lt by simp
  have u: "unat (?n - hdr) = unat (of_nat sl :: u8) - unat hdr" unfolding unat_sub [OF le] n ..
  have "unat (of_nat sl :: u8) \<le> sl" by (simp add: unat_of_nat take_bit_eq_mod)
  moreover have "unat (ucast (?n - hdr) :: u64) = unat (?n - hdr)" by (rule unat_ucast64)
  ultimately have "0 < (ucast (?n - hdr) :: u64) \<and> unat hdr + unat (ucast (?n - hdr) :: u64) \<le> sl"
    using u lt by (simp add: word_less_nat_alt)
  with al r(2,4) f assms(3,5) show ?thesis by (auto simp: arq_init_sense)
qed

text \<open>A packet set up again with status length zero keeps automatic request sense turned on, and the request sense that
  follows an error computes a length just below 4 GB, at the address of the earlier setup.\<close>

theorem atapi_sense_overrun:
  fixes r r' :: "'h scsi_req"
  assumes "atapi_tran_init_pkt ops ao bound mapin sz al tgt d g (Some r) bp 0 0 = Some (True, Some r')"
    and "flag_set (ap_flags (sq_pkt r)) AP_ARQ_ON_ERROR" "ac_pkt s (PktOf g) = sq_pkt r'" "0 < arq_size sz" "0 < hdr"
  shows "flag_set (ap_flags (sq_pkt (tran_start_init r'))) AP_ARQ_ON_ERROR \<and>
     ap_v_addr (ac_pkt (arq_init hdr dr (PktOf g) s) ArqPkt) = ap_scbp_sense (sq_pkt r) \<and>
     unat (ap_resid (ac_pkt (arq_init hdr dr (PktOf g) s) ArqPkt)) = 2 ^ 32 - unat hdr"
proof -
  from init_pkt_result [OF assms(1)] have r: "ap_statuslen (sq_pkt r') = 0" "flag_set (ap_flags (sq_pkt r')) AP_ARQ_ON_ERROR"
    "ap_scbp_sense (sq_pkt r') = ap_scbp_sense (sq_pkt r)"
    using assms(2,4) by (auto simp: arq_fits_def)
  have "AP_KEPT AND AP_ARQ_ON_ERROR = AP_ARQ_ON_ERROR" by (simp add: AP_KEPT_def ap_flag_defs)
  then have k: "flag_set (ap_flags (sq_pkt (tran_start_init r'))) AP_ARQ_ON_ERROR"
    using r(2) by (simp add: tran_start_init_def Let_def flag_set_def and.assoc)
  have "unat (- hdr) = 2 ^ 32 - unat hdr"
  proof -
    have "0 < uint hdr" "uint hdr < 2 ^ 32" using assms(5) unsigned_less [of hdr, where 'a = int] by (simp_all add: word_less_def)
    then have "uint (- hdr) = 2 ^ 32 - uint hdr" by (simp add: uint_word_ariths(4) zmod_zminus1_eq_if)
    then have "int (unat (- hdr) + unat hdr) = int (2 ^ 32)" by simp
    then have "unat (- hdr) + unat hdr = 2 ^ 32" by (simp only: of_nat_eq_iff)
    then show ?thesis by simp
  qed
  moreover have "unat (ucast (- hdr) :: u64) = unat (- hdr)" by (rule unat_ucast64)
  ultimately show ?thesis using k r assms(3) by (simp add: arq_init_sense)
qed

subsection \<open>Submitting a packet is a run of the system\<close>

lemma upd_pkt_const:
  assumes "ap_gcmdp k' = ap_gcmdp (ac_pkt s p)"
  shows "upd_pkt p (\<lambda>_. k') s = upd_pkt p (\<lambda>k. k'\<lparr>ap_gcmdp := ap_gcmdp k\<rparr>) s"
proof -
  have "k'\<lparr>ap_gcmdp := ap_gcmdp (ac_pkt s p)\<rparr> = k'" using assms by (cases k') simp
  then show ?thesis by (simp add: upd_pkt_def)
qed

lemma tran_start_keeps [simp]:
  "ap_gcmdp (sq_pkt (tran_start_init r)) = ap_gcmdp (sq_pkt r)" "ap_start (sq_pkt (tran_start_init r)) = ap_start (sq_pkt r)"
  "pkt_nointr (sq_spkt (tran_start_init r)) = pkt_nointr (sq_spkt r)" "pkt_time (sq_spkt (tran_start_init r)) = pkt_time (sq_spkt r)"
  by (simp_all add: tran_start_init_def Let_def)

text \<open>What a submitted packet looks like: the transfer starts at the beginning of the piece and has all of it to go, of the flags
  only those of the request are left (bits 0, 3, 4 and 12: \<open>AP_ATAPI\<close>, \<open>AP_READ\<close>, \<open>AP_WRITE\<close>, \<open>AP_ARQ_ON_ERROR\<close>),
  there is no reason, state or statistics yet, and everything else is as the caller had it.\<close>

definition submitted :: "'h scsi_req \<Rightarrow> 'h scsi_req \<Rightarrow> bool" where
  "submitted r r' \<longleftrightarrow>
     ap_v_addr (sq_pkt r') = sq_baddr r + sq_boffset r \<and> ap_resid (sq_pkt r') = ap_bcount (sq_pkt r) \<and>
     (\<forall>n. bit (ap_flags (sq_pkt r')) n \<longleftrightarrow> bit (ap_flags (sq_pkt r)) n \<and> n \<in> {0, 3, 4, 12}) \<and>
     r' = r\<lparr>sq_pkt := (sq_pkt r)\<lparr>ap_v_addr := ap_v_addr (sq_pkt r'), ap_resid := ap_resid (sq_pkt r'), ap_flags := ap_flags (sq_pkt r')\<rparr>,
            sq_spkt := (sq_spkt r)\<lparr>pkt_reason := CMD_CMPLT, pkt_state := {}, pkt_statistics := {}\<rparr>\<rparr>"

text \<open>A packet that comes back from a transfer, however it ended: its address and residual count have moved on, flags other
  than those of the request are set, and \<open>atapi_complete\<close> has reported.\<close>

definition returned :: "'h scsi_req \<Rightarrow> 'h scsi_req \<Rightarrow> bool" where
  "returned r r1 \<longleftrightarrow>
     (\<exists>addr resid fl s. (\<forall>n\<in>{0, 3, 4, 12}. \<not> bit fl n) \<and> pkt_nointr s = pkt_nointr (sq_spkt r) \<and> pkt_time s = pkt_time (sq_spkt r) \<and>
        r1 = r\<lparr>sq_spkt := s, sq_pkt := (sq_pkt r)\<lparr>ap_v_addr := addr, ap_resid := resid, ap_flags := ap_flags (sq_pkt r) OR fl\<rparr>\<rparr>)"

lemma kept_bits: "bit AP_KEPT n \<longleftrightarrow> n \<in> {0, 3, 4, 12}"
proof -
  have e: "AP_KEPT = 2 ^ 0 OR 2 ^ 3 OR 2 ^ 4 OR 2 ^ 12" by (simp add: AP_KEPT_def ap_flag_defs)
  show ?thesis unfolding e bit_or_iff bit_exp_iff by (auto simp: possible_bit_word)
qed

lemma tran_start_submitted: "submitted r (tran_start_init r)"
  by (simp add: submitted_def tran_start_init_def Let_def bit_and_iff kept_bits)

lemma tran_start_again:
  assumes "returned r r1"
  shows "sq_pkt (tran_start_init r1) = sq_pkt (tran_start_init r)"
proof -
  obtain addr resid fl s where r1: "\<forall>n\<in>{0, 3, 4, 12}. \<not> bit fl n"
      "r1 = r\<lparr>sq_spkt := s, sq_pkt := (sq_pkt r)\<lparr>ap_v_addr := addr, ap_resid := resid, ap_flags := ap_flags (sq_pkt r) OR fl\<rparr>\<rparr>"
    using assms by (auto simp: returned_def)
  have "(ap_flags (sq_pkt r) OR fl) AND AP_KEPT = ap_flags (sq_pkt r) AND AP_KEPT"
    by (rule bit_word_eqI) (use r1(1) in \<open>auto simp: bit_and_iff bit_or_iff kept_bits\<close>)
  then show ?thesis unfolding r1(2) by (simp add: tran_start_init_def Let_def)
qed

lemma tran_start_reach:
  fixes r :: "'h scsi_req"
  assumes c: "ata_reachable env up c" "cmd_state (ccc_gcmd c g) = GCMD_STATE_IDLE"
    and r: "ap_gcmdp (sq_pkt r) = ap_gcmdp (ac_pkt (ccc_hba c) (PktOf g))" "ap_start (sq_pkt r) = Start_atapi_fsm_start"
  shows "ata_reachable env up (c\<lparr>ccc_hba := upd_pkt (PktOf g) (\<lambda>_. sq_pkt (tran_start_init r)) (ccc_hba c)\<rparr>)"
proof -
  let ?k = "sq_pkt (tran_start_init r)"
  have "ata_step env up c (c\<lparr>ccc_hba := upd_pkt (PktOf g) (\<lambda>k. ?k\<lparr>ap_gcmdp := ap_gcmdp k\<rparr>) (ccc_hba c)\<rparr>)"
    by (rule ata_step.Prepare) (simp_all add: c(2) r(2) disk_start_fns_def)
  then have "ata_step env up c (c\<lparr>ccc_hba := upd_pkt (PktOf g) (\<lambda>_. ?k) (ccc_hba c)\<rparr>)"
    by (subst upd_pkt_const) (simp_all add: r(1))
  with c(1) show ?thesis by (rule ata_reachable.Step)
qed

text \<open>C39: Submitting a packet of this layer. An interrupt-driven submission always returns; what was submitted is a fresh
  transfer of the piece (\<open>submitted\<close>), the controller is in a reachable state of the system, and the request is in GHD's
  care, live or done; if the mutex was not free it is waiting, with that packet in the driver. A
  polled submission that returns has the request out of GHD's hands again. And it is idempotent: after any
  transfer, submitting the packet again in the same state of the controller does to it what the first submission did.\<close>

theorem atapi_start_runs:
  fixes r :: "'h scsi_req"
  assumes "ata_reachable env up c" "upper_ok up" "\<And>n. hz_ok (ks n)" "cmd_state (ccc_gcmd c g) = GCMD_STATE_IDLE"
    and "ap_gcmdp (sq_pkt r) = ap_gcmdp (ac_pkt (ccc_hba c) (PktOf g))" "ap_start (sq_pkt r) = Start_atapi_fsm_start"
  shows "(\<not> pkt_nointr (sq_spkt r) \<longrightarrow>
       (\<exists>r' c' B. atapi_tran_start env up k ks k' got_mutex i g r c = Some (r', c') \<and> submitted r r' \<and> ata_reachable env up c' \<and>
          ghd_inv c' B \<and> (g \<in> wq_live B \<or> g \<in> set (wq_done B)) \<and>
          (\<not> got_mutex \<longrightarrow> g \<in> wq_live B \<and> cmd_state (ccc_gcmd c' g) = GCMD_STATE_WAITQ \<and> ac_pkt (ccc_hba c') (PktOf g) = sq_pkt r'))) \<and>
     (pkt_nointr (sq_spkt r) \<longrightarrow>
       (\<forall>r' c'. atapi_tran_start env up k ks k' got_mutex i g r c = Some (r', c') \<longrightarrow> submitted r r' \<and> ata_reachable env up c' \<and>
          (\<exists>B. ghd_inv c' B \<and> g \<notin> wq_live B))) \<and>
     (\<forall>r1. returned r r1 \<longrightarrow> map_option snd (atapi_tran_start env up k ks k' got_mutex i g r1 c) =
       map_option snd (atapi_tran_start env up k ks k' got_mutex i g r c))"
proof -
  let ?r = "tran_start_init r" and ?d = "cmd_gdev (ccc_gcmd c g)"
  define c1 where "c1 = c\<lparr>ccc_hba := upd_pkt (PktOf g) (\<lambda>_. sq_pkt ?r) (ccc_hba c)\<rparr>"
  have rc: "ata_reachable env up c1" unfolding c1_def by (rule tran_start_reach [OF assms(1,4-6)])
  have g: "cmd_state (ccc_gcmd c1 g) = GCMD_STATE_IDLE" "cmd_gdev (ccc_gcmd c1 g) = ?d" using assms(4) by (simp_all add: c1_def)
  have st: "atapi_tran_start env up k ks k' got_mutex i g r c = map_option (Pair ?r)
      (if pkt_nointr (sq_spkt r)
       then transport_polled (ata_status env) (ata_process_intr env) (ata_hba_start env) (ata_timeout_func env)
              (ata_hba_complete env up) k ks k' g ?d (pkt_time (sq_spkt r)) i c1
       else sol11ghd_transport (ata_hba_start env) k got_mutex c1 g ?d (pkt_time (sq_spkt r)))"
    by (simp add: atapi_tran_start_def Let_def c1_def)
  have reach: "ata_reachable env up c'" if "ata_step env up c1 c'" for c' using rc that by (rule ata_reachable.Step)
  from ata_reachable_inv [OF rc assms(2)] obtain A where A: "ghd_inv c1 A" "hw_inv (ctl_ok env) ata_owned c1 A" "wq_hold A = []"
    by (auto simp: ata_inv_def)
  have intr: "\<exists>r' c' B. atapi_tran_start env up k ks k' got_mutex i g r c = Some (r', c') \<and> submitted r r' \<and>
      ata_reachable env up c' \<and> ghd_inv c' B \<and> (g \<in> wq_live B \<or> g \<in> set (wq_done B)) \<and>
      (\<not> got_mutex \<longrightarrow> g \<in> wq_live B \<and> cmd_state (ccc_gcmd c' g) = GCMD_STATE_WAITQ \<and> ac_pkt (ccc_hba c') (PktOf g) = sq_pkt r')"
    if n: "\<not> pkt_nointr (sq_spkt r)"
  proof -
    let ?tr = "sol11ghd_transport (ata_hba_start env) k got_mutex c1 g ?d (pkt_time (sq_spkt r))"
    obtain c' B where c': "?tr = Some c'" "ghd_inv c' B" "wq_progress (wq_submit A g ?d) B"
      "\<not> got_mutex \<longrightarrow> g \<in> wq_live B \<and> cmd_state (ccc_gcmd c' g) = GCMD_STATE_WAITQ \<and> ccc_hba c' = ccc_hba c1"
    proof (cases got_mutex)
      case True
      with ata.transport_inv [OF A(1,2) g, of k got_mutex "pkt_time (sq_spkt r)"] that show thesis by auto
    next
      case False
      from transport_enqueue_spec [OF A(1) g, of k "pkt_time (sq_spkt r)"] obtain c' n where
        "transport_enqueue k c1 g ?d (pkt_time (sq_spkt r)) = Some c'" "ghd_inv c' (wq_promote (wq_submit A g ?d) ?d n)"
        "cmd_state (ccc_gcmd c' g) = GCMD_STATE_WAITQ" "ccc_hba c' = ccc_hba c1" by auto
      then show thesis using False
        by (intro that [of c' "wq_promote (wq_submit A g ?d) ?d n"])
          (auto simp: sol11ghd_transport_def wq_submit_frame intro: wq_progress_queues)
    qed
    have "g \<in> wq_live B \<or> g \<in> set (wq_done B)" using c'(3) by (auto simp: wq_progress_def wq_submit_frame)
    moreover have "ata_reachable env up c'" using reach [OF ata_step.Transport [OF g(1)]] c'(1) g(2) by simp
    moreover have "ac_pkt (ccc_hba c1) (PktOf g) = sq_pkt ?r" by (simp add: c1_def upd_pkt_def)
    ultimately show ?thesis using c' n tran_start_submitted [of r]
      by (intro exI [of _ ?r] exI [of _ c'] exI [of _ B]) (simp add: st)
  qed
  have polled: "submitted r r' \<and> ata_reachable env up c' \<and> (\<exists>B. ghd_inv c' B \<and> g \<notin> wq_live B)"
    if n: "pkt_nointr (sq_spkt r)" and r': "atapi_tran_start env up k ks k' got_mutex i g r c = Some (r', c')" for r' c'
  proof -
    have t: "r' = ?r" "transport_polled (ata_status env) (ata_process_intr env) (ata_hba_start env) (ata_timeout_func env)
              (ata_hba_complete env up) k ks k' g ?d (pkt_time (sq_spkt r)) i c1 = Some c'"
      using n r' by (auto simp: st)
    from ata.transport_polled_inv [OF t(2) assms(3) A g ata_complete_ok [OF assms(2)]]
    have "\<exists>B. ghd_inv c' B \<and> g \<notin> wq_live B" by blast
    moreover have "ata_reachable env up c'" using reach [OF ata_step.Polled [OF g(1) assms(3)]] t(2) g(2) by simp
    ultimately show ?thesis using t(1) tran_start_submitted [of r] by simp
  qed
  have again: "map_option snd (atapi_tran_start env up k ks k' got_mutex i g r1 c) =
      map_option snd (atapi_tran_start env up k ks k' got_mutex i g r c)" if "returned r r1" for r1
  proof -
    have "pkt_nointr (sq_spkt r1) = pkt_nointr (sq_spkt r)" "pkt_time (sq_spkt r1) = pkt_time (sq_spkt r)"
      using that by (auto simp: returned_def)
    then show ?thesis
      by (simp add: atapi_tran_start_def Let_def tran_start_again [OF that] option.map_comp comp_def)
  qed
  show ?thesis using intr polled again by blast
qed

lemma atapi_abort_reset_runs:
  assumes "ata_reachable env up c" "hz_ok k" "\<And>n. hz_ok (ks n)"
  shows "atapi_tran_abort env k ks k' sp d i c = Some (rc, c') \<Longrightarrow> ata_reachable env up c'"
    and "atapi_tran_reset env k ks k' level d i c = Some (rc, c') \<Longrightarrow> ata_reachable env up c'"
  using ata_reachable.Step [OF assms(1)] ata_step.Abort [OF assms(2,3), where env = env and up = up]
    ata_step.Abort_lun [OF assms(3), where env = env and up = up] ata_step.Reset_target [OF assms(3), where env = env and up = up]
    ata_step.Reset_bus [OF assms(3), where env = env and up = up] assms(1)
  by (auto simp: atapi_tran_abort_def atapi_tran_reset_def split: option.splits reset_level.splits)

subsection \<open>Examples\<close>

definition spkt0 :: scsi_pkt where
  "spkt0 = \<lparr>pkt_cdbp = [0x28, 0, 0, 0, 0, 16, 0, 0, 3, 0], pkt_scbp = 0x9000, pkt_sts_chk = False,
     pkt_arq = \<lparr>sts_rqpkt_reason = CMD_CMPLT, sts_rqpkt_state = {}, sts_rqpkt_status = 0, sts_rqpkt_resid = 0, sts_rqpkt_statistics = {}\<rparr>,
     pkt_resid = 0, pkt_reason = CMD_CMPLT, pkt_state = {}, pkt_statistics = {}, pkt_nointr = False, pkt_time = 60\<rparr>"

definition atapi0 :: ata_drv where "atapi0 = drv0\<lparr>ad_flags := AD_ATAPI OR AD_1SECTOR\<rparr>"
definition cdbuf0 :: iobuf where "cdbuf0 = \<lparr>ib_bcount = 5000, ib_read = True, ib_pageio = False, ib_addr = 0x4002\<rparr>"
definition tgt0 :: ata_tgt where "tgt0 = \<lparr>at_arq = 1, at_total_sectors = 0, at_granular = 512\<rparr>"
definition sizes0 :: arq_sizes where "sizes0 = \<lparr>arq_header = 16, arq_size = 36\<rparr>"

definition first0 :: "(bool \<times> (nat \<times> nat) scsi_req option) option" where
  "first0 = atapi_tran_init_pkt (ops2 wins2) True (\<lambda>_. DDI_DMA_NORESOURCES) id sizes0 (Some spkt0) tgt0 atapi0 0 None (Some cdbuf0) 10 36"

lemma first0_returns: "\<exists>r. first0 = Some (True, Some r)"
  by (simp add: first0_def pio_init_pkt(1) use_dma_def atapi0_def drv0_def ghd_pktalloc_def atapi_ccballoc_def Let_def)

theorem atapi_sector_pieces_witness:
  "\<exists>r0 rs. first0 = Some (True, Some r0) \<and> length rs = 3 \<and>
     (\<forall>i<3. piece (ops2 wins2) id sizes0 tgt0 atapi0 cdbuf0 36 r0 i = Some (rs ! i)) \<and>
     concat (map (\<lambda>r. [unat (sq_boffset r)..<unat (sq_boffset r) + unat (ap_bcount (sq_pkt r))]) rs) = [0..<5000]"
proof -
  obtain r0 where r0: "first0 = Some (True, Some r0)" using first0_returns by blast
  have d: "flag_set (ad_flags atapi0) AD_1SECTOR" "\<not> use_dma atapi0 cdbuf0" "0 < unat (ib_bcount cdbuf0)"
    by (simp_all add: atapi0_def use_dma_def drv0_def cdbuf0_def flag_set_def AD_1SECTOR_def AD_ATAPI_def)
  have n: "unat (ib_bcount cdbuf0) = 5000" by (simp add: cdbuf0_def)
  from atapi_sector_pieces [OF d _ r0 [unfolded first0_def], unfolded n] obtain rs where
    "length rs = (5000 + 2047) div 2048"
    "\<forall>i<length rs. piece (ops2 wins2) id sizes0 tgt0 atapi0 cdbuf0 36 r0 i = Some (rs ! i)"
    "concat (map (\<lambda>r. [unat (sq_boffset r)..<unat (sq_boffset r) + unat (ap_bcount (sq_pkt r))]) rs) = [0..<5000]" by auto
  with r0 show ?thesis by (intro exI [of _ r0] exI [of _ rs]) simp
qed

definition dmabuf0 :: iobuf where "dmabuf0 = \<lparr>ib_bcount = 2048, ib_read = True, ib_pageio = False, ib_addr = 0x4000\<rparr>"

definition bound0 :: "(nat \<times> nat) scsi_req" where
  "bound0 = \<lparr>sq_spkt = spkt0, sq_pkt = zero_ata_pkt, sq_baddr = 0, sq_boffset = 0,
     sq_dma = fst (snd (ghd_dma_buf_bind_attr True (DDI_DMA_PARTIAL_MAP (0, 0) (wins2 ! 0 ! 0) 2 (Some 2)) zero_gdma))\<rparr>"

theorem atapi_dma_piece_witness:
  "\<exists>r' k. atapi_tran_init_pkt (ops2 wins2) True (\<lambda>_. DDI_DMA_NORESOURCES) id sizes0 None tgt0 (drv0\<lparr>ad_pciide_dma := True\<rparr>) 0
     (Some bound0) (Some dmabuf0) 0 0 = Some (True, Some r') \<and> 0 < k \<and> ap_sg_cnt (sq_pkt r') = k \<and>
     dma_rest wins2 (sq_dma r') = drop k (concat wins2)"
proof -
  have b: "dma_between wins2 Some (0, 0) (sq_dma bound0)" "cmd_dma_handle (sq_dma bound0) = Some (0, 0)"
    "dma_rest wins2 (sq_dma bound0) = concat wins2"
    by (simp_all add: bound0_def ghd_dma_buf_bind_attr_def bind_init_def dma_between_def dma_rest_def wins2_def)
  have u: "use_dma (drv0\<lparr>ad_pciide_dma := True\<rparr>) dmabuf0" "ib_bcount dmabuf0 \<noteq> 0"
    by (simp_all add: use_dma_def dmabuf0_def ata_dma_disabled_def PCIIDE_PRDE_ADDR_MASK_def)
  have l: "length (ap_sg_list (sq_pkt bound0)) = ATA_DMA_NSEGS" by (simp add: bound0_def zero_ata_pkt_def)
  have ne: "dma_rest wins2 (sq_dma bound0) \<noteq> []" unfolding b(3) by (simp add: wins2_def)
  from atapi_dma_piece [OF wins2_attr(1) b(1,2) u ne l, of True "\<lambda>_. DDI_DMA_NORESOURCES" id sizes0 None tgt0 0 0] show ?thesis
    unfolding b(3) by blast
qed

theorem atapi_stale_sg_list_witness:
  "\<exists>r'. atapi_tran_init_pkt (ops2 wins2) True (\<lambda>_. DDI_DMA_NORESOURCES) id sizes0 None tgt0 atapi0 0
     (Some (atapi_tran_dmafree (bound0\<lparr>sq_pkt := zero_ata_pkt\<lparr>ap_sg_cnt := 2\<rparr>\<rparr>))) (Some cdbuf0) 10 36 = Some (True, Some r') \<and>
     cmd_dma_handle (sq_dma r') = None \<and> ap_pciide_dma (sq_pkt r') \<and> ap_sg_cnt (sq_pkt r') = 2"
proof -
  let ?r = "bound0\<lparr>sq_pkt := zero_ata_pkt\<lparr>ap_sg_cnt := 2\<rparr>\<rparr>"
  have "ap_sg_cnt (sq_pkt ?r) \<noteq> 0" "\<not> use_dma atapi0 cdbuf0" by (simp_all add: use_dma_def atapi0_def drv0_def)
  from atapi_stale_sg_list [OF this, of "ops2 wins2" True "\<lambda>_. DDI_DMA_NORESOURCES" id sizes0 None tgt0 0 10 36] show ?thesis by auto
qed

theorem atapi_sense_fits_witness:
  "\<exists>r. first0 = Some (True, Some r) \<and> flag_set (ap_flags (sq_pkt r)) AP_ARQ_ON_ERROR \<and>
     0 < ap_resid (ac_pkt (arq_init 16 (0, 0) (PktOf 0) (upd_pkt (PktOf 0) (\<lambda>_. sq_pkt r) ctl_sys)) ArqPkt) \<and>
     16 + unat (ap_resid (ac_pkt (arq_init 16 (0, 0) (PktOf 0) (upd_pkt (PktOf 0) (\<lambda>_. sq_pkt r) ctl_sys)) ArqPkt)) \<le> 36"
proof -
  obtain r where r: "first0 = Some (True, Some r)" using first0_returns by blast
  have "arq_fits sizes0 tgt0 36" by (simp add: arq_fits_def sizes0_def tgt0_def)
  with init_pkt_result [OF r [unfolded first0_def]] have f: "flag_set (ap_flags (sq_pkt r)) AP_ARQ_ON_ERROR" by metis
  from atapi_sense_fits [OF r [unfolded first0_def] f, of "upd_pkt (PktOf 0) (\<lambda>_. sq_pkt r) ctl_sys" 16 "(0, 0)"] r f show ?thesis
    by (auto simp: upd_pkt_def sizes0_def)
qed

theorem atapi_sense_overrun_witness:
  "\<exists>r'. atapi_tran_init_pkt (ops2 wins2) True (\<lambda>_. DDI_DMA_NORESOURCES) id sizes0 None tgt0 atapi0 0
     (Some (bound0\<lparr>sq_pkt := zero_ata_pkt\<lparr>ap_flags := AP_ARQ_ON_ERROR\<rparr>, sq_dma := zero_gdma\<rparr>)) (Some cdbuf0) 0 0 = Some (True, Some r') \<and>
     unat (ap_resid (ac_pkt (arq_init 16 (0, 0) (PktOf 0) (upd_pkt (PktOf 0) (\<lambda>_. sq_pkt r') ctl_sys)) ArqPkt)) = 2 ^ 32 - 16"
proof -
  let ?r = "bound0\<lparr>sq_pkt := zero_ata_pkt\<lparr>ap_flags := AP_ARQ_ON_ERROR\<rparr>, sq_dma := zero_gdma\<rparr>"
  have "\<exists>r'. atapi_tran_init_pkt (ops2 wins2) True (\<lambda>_. DDI_DMA_NORESOURCES) id sizes0 None tgt0 atapi0 0 (Some ?r) (Some cdbuf0) 0 0 =
      Some (True, Some r')"
    by (subst pio_init_pkt(2)) (simp_all add: use_dma_def atapi0_def drv0_def zero_gdma_def zero_ata_pkt_def)
  then obtain r' where r: "atapi_tran_init_pkt (ops2 wins2) True (\<lambda>_. DDI_DMA_NORESOURCES) id sizes0 None tgt0 atapi0 0 (Some ?r) (Some cdbuf0) 0 0 =
      Some (True, Some r')" by blast
  from atapi_sense_overrun [OF r, of "upd_pkt (PktOf 0) (\<lambda>_. sq_pkt r') ctl_sys" 16 "(0, 0)"] r show ?thesis
    by (auto simp: upd_pkt_def sizes0_def)
qed

theorem atapi_start_runs_witness:
  "\<exists>r' c'. atapi_tran_start env0 up0 kenv0 (\<lambda>n. kenv0) kenv0 False None 0
     (bound0\<lparr>sq_pkt := zero_ata_pkt\<lparr>ap_gcmdp := Some 0, ap_start := Start_atapi_fsm_start, ap_bcount := 2048, ap_resid := 7,
        ap_flags := AP_ATAPI OR AP_READ OR AP_ERROR\<rparr>\<rparr>) (ghd_zalloc ctl_sys) = Some (r', c') \<and>
     ata_reachable env0 up0 c' \<and> cmd_state (ccc_gcmd c' 0) = GCMD_STATE_WAITQ \<and>
     ap_resid (ac_pkt (ccc_hba c') (PktOf 0)) = 2048 \<and> \<not> bit (ap_flags (ac_pkt (ccc_hba c') (PktOf 0))) 1"
proof -
  let ?r = "bound0\<lparr>sq_pkt := zero_ata_pkt\<lparr>ap_gcmdp := Some 0, ap_start := Start_atapi_fsm_start, ap_bcount := 2048, ap_resid := 7,
        ap_flags := AP_ATAPI OR AP_READ OR AP_ERROR\<rparr>\<rparr>"
  have a: "cmd_state (ccc_gcmd (ghd_zalloc ctl_sys) 0) = GCMD_STATE_IDLE" "ap_start (sq_pkt ?r) = Start_atapi_fsm_start"
      "ap_gcmdp (sq_pkt ?r) = ap_gcmdp (ac_pkt (ccc_hba (ghd_zalloc ctl_sys)) (PktOf 0))" "\<not> pkt_nointr (sq_spkt ?r)"
    by (simp_all add: ghd_zalloc_def ctl_sys_def bound0_def spkt0_def)
  from atapi_start_runs [OF sys_idle up0_ok hz0 a(1,3,2), of kenv0 kenv0 False None] a(4) obtain r' c' where
    "atapi_tran_start env0 up0 kenv0 (\<lambda>n. kenv0) kenv0 False None 0 ?r (ghd_zalloc ctl_sys) = Some (r', c')"
    "submitted ?r r'" "ata_reachable env0 up0 c'" "cmd_state (ccc_gcmd c' 0) = GCMD_STATE_WAITQ"
    "ac_pkt (ccc_hba c') (PktOf 0) = sq_pkt r'" by auto
  then show ?thesis by (intro exI [of _ r'] exI [of _ c']) (simp add: submitted_def)
qed

end
