(* ===== verification/Strat_Queue.thy ===== *)
theory Strat_Queue
  imports Prelude "HOL-Library.Multiset" "HOL-Library.Monad_Syntax"
begin

text \<open>
  The queue objects of the disk strategy module (\<open>strategy.c\<close>): the FIFO queue, and the
  one-way scan (\<open>qsort\<close>, also used for tagged queueing), which keeps the requests ahead of the
  head in one list and those for the next pass in another. The model keeps the pointers
  (\<open>av_forw\<close>); \<open>buf_path\<close> relates them to lists. \<open>que_object\<close> is the contract the flow control
  rests on, interpreted on both queues.
\<close>

subsection \<open>Buffers and queue heads\<close>

text \<open>The fields of \<open>struct buf\<close> the module uses; \<open>b_read\<close> is the flag \<open>B_READ\<close> of \<open>b_flags\<close>, the block number (\<open>DBLK\<close>) is in \<open>b_private\<close>.\<close>

record buf =
  b_read :: bool
  b_bcount :: u64
  b_resid :: u64
  b_private :: u64
  av_forw :: "nat option"

type_synonym bstore = "nat \<Rightarrow> buf"

text \<open>\<open>struct diskhd\<close> inside \<open>struct que_data\<close>: \<open>b_actf\<close>, \<open>b_actl\<close> (the last of a FIFO), \<open>b_pasf\<close> (the next pass
  of a scan), \<open>q_cnt\<close>.\<close>

record que_data =
  b_actf :: "nat option"
  b_actl :: "nat option"
  b_pasf :: "nat option"
  q_cnt :: u64

definition que_zero :: que_data where
  "que_zero = \<lparr>b_actf = None, b_actl = None, b_pasf = None, q_cnt = 0\<rparr>"

definition set_forw :: "bstore \<Rightarrow> nat \<Rightarrow> nat option \<Rightarrow> bstore" where
  "set_forw h b v = h(b := (h b)\<lparr>av_forw := v\<rparr>)"

definition DBLK :: "bstore \<Rightarrow> nat \<Rightarrow> u64" where
  "DBLK h bp = b_private (h bp)"

subsection \<open>FIFO\<close>

definition qfifo_add :: "bstore \<Rightarrow> que_data \<Rightarrow> nat \<Rightarrow> (bstore \<times> que_data) option" where
  "qfifo_add h q bp =
    (let (h, q) = (if b_actf q = None then (h, q\<lparr>b_actf := Some bp\<rparr>)
                   else (set_forw h (the (b_actl q)) (Some bp), q));
         q = q\<lparr>b_actl := Some bp\<rparr>
     in Some (set_forw h bp None, q))"

definition que_del :: "bstore \<Rightarrow> que_data \<Rightarrow> nat option \<times> bstore \<times> que_data" where
  "que_del h q =
    (case b_actf q of
       None \<Rightarrow> (None, h, q)
     | Some bp \<Rightarrow>
         (let q = q\<lparr>b_actf := av_forw (h bp)\<rparr>;
              q = (if b_actf q = None then q\<lparr>b_actl := None\<rparr> else q)
          in (Some bp, set_forw h bp None, q)))"

subsection \<open>One-way scan\<close>

text \<open>The search for the place of a request; on a cyclic store it does not end.\<close>

partial_function (option) scan_search :: "bstore \<Rightarrow> nat \<Rightarrow> nat \<Rightarrow> nat option" where
  [code]: "scan_search h bp ap =
    (case av_forw (h ap) of
       None \<Rightarrow> Some ap
     | Some n \<Rightarrow> if DBLK h bp < DBLK h n then Some ap else scan_search h bp n)"

definition scan_link :: "bstore \<Rightarrow> nat \<Rightarrow> nat \<Rightarrow> bstore option" where
  "scan_link h bp ap = do {
     ap \<leftarrow> scan_search h bp ap;
     let h = set_forw h bp (av_forw (h ap));
     Some (set_forw h ap (Some bp))
   }"

definition oneway_scan_binary :: "bstore \<Rightarrow> que_data \<Rightarrow> nat \<Rightarrow> (bstore \<times> que_data) option" where
  "oneway_scan_binary h q bp =
    (case b_actf q of
       None \<Rightarrow> Some (set_forw h bp None, q\<lparr>b_actf := Some bp\<rparr>)
     | Some ap \<Rightarrow>
         if DBLK h bp < DBLK h ap
         then (case b_pasf q of
                 None \<Rightarrow> Some (set_forw h bp None, q\<lparr>b_pasf := Some bp\<rparr>)
               | Some p \<Rightarrow>
                   if DBLK h bp < DBLK h p then Some (set_forw h bp (Some p), q\<lparr>b_pasf := Some bp\<rparr>)
                   else map_option (\<lambda>h. (h, q)) (scan_link h bp p))
         else map_option (\<lambda>h. (h, q)) (scan_link h bp ap))"

definition qsort_add :: "bstore \<Rightarrow> que_data \<Rightarrow> nat \<Rightarrow> (bstore \<times> que_data) option" where
  "qsort_add h q bp = oneway_scan_binary h (q\<lparr>q_cnt := q_cnt q + 1\<rparr>) bp"

text \<open>A counted queue has a first request.\<close>

definition qsort_del :: "bstore \<Rightarrow> que_data \<Rightarrow> nat option \<times> bstore \<times> que_data" where
  "qsort_del h q =
    (if q_cnt q = 0 then (None, h, q)
     else (let q = q\<lparr>q_cnt := q_cnt q - 1\<rparr>;
               bp = the (b_actf q);
               q = q\<lparr>b_actf := av_forw (h bp)\<rparr>;
               h = set_forw h bp None;
               q = (if b_actf q = None \<and> b_pasf q \<noteq> None then q\<lparr>b_actf := b_pasf q, b_pasf := None\<rparr> else q)
           in (Some bp, h, q)))"

subsection \<open>Lists in the store\<close>

fun buf_path :: "bstore \<Rightarrow> nat option \<Rightarrow> nat list \<Rightarrow> bool" where
  "buf_path h p [] \<longleftrightarrow> p = None"
| "buf_path h p (x # xs) \<longleftrightarrow> p = Some x \<and> buf_path h (av_forw (h x)) xs"

lemma set_forw_simps [simp]:
  "av_forw (set_forw h b v x) = (if x = b then v else av_forw (h x))"
  "b_private (set_forw h b v x) = b_private (h x)" "b_read (set_forw h b v x) = b_read (h x)"
  "b_bcount (set_forw h b v x) = b_bcount (h x)" "b_resid (set_forw h b v x) = b_resid (h x)"
  "DBLK (set_forw h b v) = DBLK h"
  by (simp_all add: set_forw_def DBLK_def fun_eq_iff)

lemma buf_path_cong: "(\<And>x. x \<in> set xs \<Longrightarrow> av_forw (h x) = av_forw (h' x)) \<Longrightarrow> buf_path h p xs = buf_path h' p xs"
  by (induction xs arbitrary: p) auto

lemma buf_path_set_forw [simp]: "b \<notin> set xs \<Longrightarrow> buf_path (set_forw h b v) p xs = buf_path h p xs"
  by (rule buf_path_cong) auto

lemma buf_path_append:
  "buf_path h p (xs @ y # ys) \<Longrightarrow> distinct (xs @ y # ys) \<Longrightarrow> bp \<notin> set (xs @ y # ys) \<Longrightarrow>
   buf_path (set_forw (set_forw h bp (av_forw (h y))) y (Some bp)) p (xs @ y # bp # ys)"
  by (induction xs arbitrary: p) auto

lemma buf_path_head: "buf_path h p xs \<Longrightarrow> p = (if xs = [] then None else Some (hd xs))"
  by (cases xs) auto

text \<open>The store after an operation differs in links only.\<close>

definition links_only :: "bstore \<Rightarrow> bstore \<Rightarrow> bool" where
  "links_only h h' \<longleftrightarrow> (\<forall>x. (h' x)\<lparr>av_forw := None\<rparr> = (h x)\<lparr>av_forw := None\<rparr>)"

lemma links_only_intros [simp, intro]:
  "links_only h h" "links_only h h1 \<Longrightarrow> links_only h (set_forw h1 b v)"
  by (auto simp: links_only_def set_forw_def)

lemma links_only_trans: "links_only h1 h2 \<Longrightarrow> links_only h2 h3 \<Longrightarrow> links_only h1 h3"
  by (simp add: links_only_def)

lemma links_only_fields:
  assumes "links_only h h'"
  shows "b_private (h' x) = b_private (h x)" "b_read (h' x) = b_read (h x)"
    "b_bcount (h' x) = b_bcount (h x)" "b_resid (h' x) = b_resid (h x)"
proof -
  have e: "(h' x)\<lparr>av_forw := None\<rparr> = (h x)\<lparr>av_forw := None\<rparr>" using assms by (simp add: links_only_def)
  show "b_private (h' x) = b_private (h x)" using arg_cong [OF e, of b_private] by simp
  show "b_read (h' x) = b_read (h x)" using arg_cong [OF e, of b_read] by simp
  show "b_bcount (h' x) = b_bcount (h x)" using arg_cong [OF e, of b_bcount] by simp
  show "b_resid (h' x) = b_resid (h x)" using arg_cong [OF e, of b_resid] by simp
qed

text \<open>An operation on a queue changes the links of its members and of the request only.\<close>

definition touches :: "nat set \<Rightarrow> bstore \<Rightarrow> bstore \<Rightarrow> bool" where
  "touches X h h' \<longleftrightarrow> links_only h h' \<and> (\<forall>x. x \<notin> X \<longrightarrow> av_forw (h' x) = av_forw (h x))"

lemma touches_same: "touches X h h' \<Longrightarrow> x \<notin> X \<Longrightarrow> h' x = h x"
  by (simp add: touches_def links_only_fields buf.equality)

lemma touches_refl [simp, intro]: "touches X h h"
  by (simp add: touches_def)

lemma touches_set_forw [simp, intro]: "touches X h h1 \<Longrightarrow> b \<in> X \<Longrightarrow> touches X h (set_forw h1 b v)"
  by (auto simp: touches_def)

lemma touches_links: "touches X h h' \<Longrightarrow> links_only h h'"
  by (simp add: touches_def)

lemma touches_trans: "touches X h1 h2 \<Longrightarrow> touches Y h2 h3 \<Longrightarrow> X \<subseteq> Z \<Longrightarrow> Y \<subseteq> Z \<Longrightarrow> touches Z h1 h3"
  unfolding touches_def by (metis links_only_trans subsetD)

lemma links_only_DBLK: "links_only h h' \<Longrightarrow> DBLK h' = DBLK h"
  by (simp add: DBLK_def fun_eq_iff links_only_fields)

subsection \<open>The abstract scan\<close>

text \<open>The place of a request: after all requests at the same block or before it.\<close>

fun scan_insert :: "(nat \<Rightarrow> u64) \<Rightarrow> nat \<Rightarrow> nat list \<Rightarrow> nat list" where
  "scan_insert k x [] = [x]"
| "scan_insert k x (y # ys) = (if k x < k y then x # y # ys else y # scan_insert k x ys)"

text \<open>This pass and the next one.\<close>

type_synonym scan_state = "nat list \<times> nat list"

definition scan_add :: "(nat \<Rightarrow> u64) \<Rightarrow> nat \<Rightarrow> scan_state \<Rightarrow> scan_state" where
  "scan_add k x S = (case S of (act, pas) \<Rightarrow>
     if act = [] then ([x], pas)
     else if k x < k (hd act) then (act, scan_insert k x pas)
     else (scan_insert k x act, pas))"

definition scan_del :: "scan_state \<Rightarrow> scan_state" where
  "scan_del S = (case S of (act, pas) \<Rightarrow> if tl act = [] then (pas, []) else (tl act, pas))"

definition scan_inv :: "(nat \<Rightarrow> u64) \<Rightarrow> scan_state \<Rightarrow> bool" where
  "scan_inv k S \<longleftrightarrow> sorted (map k (fst S)) \<and> sorted (map k (snd S)) \<and> (fst S = [] \<longrightarrow> snd S = []) \<and>
     (\<forall>x \<in> set (snd S). \<forall>y \<in> set (fst S). k x < k y)"

lemma scan_insert_set [simp]: "set (scan_insert k x xs) = insert x (set xs)"
  by (induction xs) auto

lemma scan_insert_mset [simp]: "mset (scan_insert k x xs) = add_mset x (mset xs)"
  by (induction xs) auto

lemma scan_insert_nonempty [simp]: "scan_insert k x xs \<noteq> []"
  by (cases xs) auto

lemma scan_insert_sorted: "sorted (map k xs) \<Longrightarrow> sorted (map k (scan_insert k x xs))"
  by (induction xs) (auto simp: less_imp_le not_less)

lemma scan_insert_distinct: "distinct xs \<Longrightarrow> x \<notin> set xs \<Longrightarrow> distinct (scan_insert k x xs)"
  by (induction xs) auto

lemma scan_add_inv: "scan_inv k S \<Longrightarrow> scan_inv k (scan_add k x S)"
proof -
  obtain act pas where S: "S = (act, pas)" by fastforce
  assume inv: "scan_inv k S"
  show ?thesis
  proof (cases act)
    case (Cons a as)
    have tail: "k a \<le> k y" if "y \<in> set as" for y using inv that by (simp add: S Cons scan_inv_def)
    show ?thesis
      using inv tail order.strict_trans2 [OF _ tail] order.strict_trans1
      by (auto simp: S Cons scan_inv_def scan_add_def scan_insert_sorted dest: leI)
  qed (use inv in \<open>simp add: S scan_inv_def scan_add_def\<close>)
qed

lemma scan_del_inv: "scan_inv k S \<Longrightarrow> scan_inv k (scan_del S)"
  by (cases "fst S") (auto simp: scan_inv_def scan_del_def split: prod.splits)

lemma scan_add_mset:
  "mset (fst (scan_add k x S) @ snd (scan_add k x S)) = add_mset x (mset (fst S @ snd S))"
  by (auto simp: scan_add_def split: prod.splits)

subsection \<open>The queues as lists\<close>

definition fifo_repr :: "bstore \<Rightarrow> que_data \<Rightarrow> nat list \<Rightarrow> bool" where
  "fifo_repr h q xs \<longleftrightarrow> distinct xs \<and> buf_path h (b_actf q) xs \<and> (xs \<noteq> [] \<longrightarrow> b_actl q = Some (last xs))"

definition scan_repr :: "bstore \<Rightarrow> que_data \<Rightarrow> scan_state \<Rightarrow> bool" where
  "scan_repr h q S \<longleftrightarrow> distinct (fst S @ snd S) \<and> buf_path h (b_actf q) (fst S) \<and> buf_path h (b_pasf q) (snd S) \<and>
     scan_inv (DBLK h) S \<and> q_cnt q = of_nat (length (fst S @ snd S)) \<and> length (fst S @ snd S) < 2 ^ 64"

lemma fifo_repr_zero: "fifo_repr h que_zero []"
  by (simp add: fifo_repr_def que_zero_def)

lemma scan_repr_zero: "scan_repr h que_zero ([], [])"
  by (simp add: scan_repr_def que_zero_def scan_inv_def)

lemma buf_path_snoc:
  "buf_path h p (xs @ [y]) \<Longrightarrow> distinct (xs @ [y]) \<Longrightarrow> bp \<notin> set (xs @ [y]) \<Longrightarrow>
   buf_path (set_forw (set_forw h y (Some bp)) bp None) p (xs @ [y, bp])"
  by (induction xs arbitrary: p) auto

lemma qfifo_add_spec:
  assumes "fifo_repr h q xs" "bp \<notin> set xs"
  shows "\<exists>h' q'. qfifo_add h q bp = Some (h', q') \<and> fifo_repr h' q' (xs @ [bp]) \<and> touches (insert bp (set xs)) h h'"
proof (cases xs rule: rev_cases)
  case Nil
  with assms show ?thesis
    by (auto simp: fifo_repr_def qfifo_add_def Let_def)
next
  case (snoc ys y)
  have ne: "b_actf q \<noteq> None" using assms(1) buf_path_head [of h "b_actf q" xs] snoc by (auto simp: fifo_repr_def)
  have l: "b_actl q = Some y" using assms(1) snoc by (simp add: fifo_repr_def)
  have "buf_path (set_forw (set_forw h y (Some bp)) bp None) (b_actf q) (ys @ [y, bp])"
    by (rule buf_path_snoc) (use assms snoc in \<open>auto simp: fifo_repr_def\<close>)
  with ne l assms snoc show ?thesis
    by (auto simp: fifo_repr_def qfifo_add_def Let_def)
qed

lemma que_del_spec:
  assumes "fifo_repr h q xs"
  shows "case xs of [] \<Rightarrow> que_del h q = (None, h, q)
    | x # ys \<Rightarrow> \<exists>h' q'. que_del h q = (Some x, h', q') \<and> fifo_repr h' q' ys \<and> touches (set xs) h h'"
proof (cases xs)
  case (Cons x ys)
  with assms have "b_actf q = Some x" "buf_path h (av_forw (h x)) ys" "x \<notin> set ys" by (auto simp: fifo_repr_def)
  with assms Cons buf_path_head [of h "av_forw (h x)" ys] show ?thesis
    by (auto simp: fifo_repr_def que_del_def Let_def)
qed (use assms in \<open>simp add: fifo_repr_def que_del_def\<close>)

lemma scan_search_spec:
  assumes "buf_path h (Some ap) (ap # ys)" "\<not> DBLK h bp < DBLK h ap"
  shows "\<exists>us y vs. scan_search h bp ap = Some y \<and> ap # ys = us @ y # vs \<and>
    scan_insert (DBLK h) bp (ap # ys) = us @ y # bp # vs"
  using assms
proof (induction ys arbitrary: ap)
  case Nil
  then show ?case
    by (subst scan_search.simps) (auto intro!: exI [of _ "[]"])
next
  case (Cons z zs)
  then have f: "av_forw (h ap) = Some z" "buf_path h (Some z) (z # zs)" by auto
  show ?case
  proof (cases "DBLK h bp < DBLK h z")
    case True
    with f Cons.prems(2) show ?thesis
      by (intro exI [of _ "[]"] exI [of _ ap] exI [of _ "z # zs"], subst scan_search.simps) simp
  next
    case False
    from Cons.IH [OF f(2) False] obtain us y vs where
      "scan_search h bp z = Some y" "z # zs = us @ y # vs" "scan_insert (DBLK h) bp (z # zs) = us @ y # bp # vs" by blast
    with f False Cons.prems(2) show ?thesis
      by (intro exI [of _ "ap # us"] exI [of _ y] exI [of _ vs], subst scan_search.simps) simp
  qed
qed

lemma scan_link_spec:
  assumes "buf_path h (Some ap) (ap # ys)" "\<not> DBLK h bp < DBLK h ap" "distinct (ap # ys)" "bp \<notin> set (ap # ys)"
  shows "\<exists>h'. scan_link h bp ap = Some h' \<and> buf_path h' (Some ap) (scan_insert (DBLK h) bp (ap # ys)) \<and> touches (insert bp (set (ap # ys))) h h'"
proof -
  from scan_search_spec [OF assms(1,2)] obtain us y vs where
    s: "scan_search h bp ap = Some y" "ap # ys = us @ y # vs" "scan_insert (DBLK h) bp (ap # ys) = us @ y # bp # vs" by blast
  let ?h = "set_forw (set_forw h bp (av_forw (h y))) y (Some bp)"
  have "buf_path ?h (Some ap) (us @ y # bp # vs)"
    by (rule buf_path_append) (use assms s in auto)
  moreover have "y \<in> set (ap # ys)" by (simp add: s(2))
  ultimately show ?thesis
    using s by (intro exI [of _ ?h]) (auto simp: scan_link_def Let_def)
qed

lemma qsort_add_spec:
  assumes "scan_repr h q S" "bp \<notin> set (fst S @ snd S)" "length (fst S @ snd S) + 1 < 2 ^ 64"
  shows "\<exists>h' q'. qsort_add h q bp = Some (h', q') \<and> scan_repr h' q' (scan_add (DBLK h) bp S) \<and> touches (insert bp (set (fst S @ snd S))) h h'"
proof -
  obtain act pas where S: "S = (act, pas)" by fastforce
  let ?q = "q\<lparr>q_cnt := q_cnt q + 1\<rparr>"
  from assms S have r: "distinct (act @ pas)" "buf_path h (b_actf q) act" "buf_path h (b_pasf q) pas" "scan_inv (DBLK h) S"
    "q_cnt q = of_nat (length (act @ pas))" "bp \<notin> set act" "bp \<notin> set pas"
    by (auto simp: scan_repr_def)
  have len: "length (fst (scan_add (DBLK h) bp S) @ snd (scan_add (DBLK h) bp S)) = Suc (length (act @ pas))"
    using arg_cong [OF scan_add_mset [of "DBLK h" bp S], of size] by (simp add: S)
  have cnt: "q_cnt ?q = of_nat (Suc (length (act @ pas)))" using r(5) by simp
  have dist: "distinct (fst (scan_add (DBLK h) bp S) @ snd (scan_add (DBLK h) bp S))"
    using r by (auto simp: scan_add_def S scan_insert_distinct)
  have concl: ?thesis if "oneway_scan_binary h ?q bp = Some (h', q')" "buf_path h' (b_actf q') (fst (scan_add (DBLK h) bp S))"
      "buf_path h' (b_pasf q') (snd (scan_add (DBLK h) bp S))" "touches (insert bp (set (act @ pas))) h h'" "q_cnt q' = q_cnt ?q" for h' q'
    using that len cnt dist scan_add_inv [OF r(4), of bp] assms(3) S
    by (auto simp: scan_repr_def qsort_add_def links_only_DBLK [OF touches_links])
  show ?thesis
  proof (cases act)
    case Nil
    then have "pas = []" using r(4) by (simp add: S scan_inv_def)
    with Nil r show ?thesis
      by (intro concl [of "set_forw h bp None" "?q\<lparr>b_actf := Some bp\<rparr>"]) (auto simp: oneway_scan_binary_def scan_add_def S)
  next
    case (Cons a as)
    have a: "b_actf q = Some a" "buf_path h (Some a) (a # as)" using r(2) Cons by auto
    show ?thesis
    proof (cases "DBLK h bp < DBLK h a")
      case False
      from scan_link_spec [OF a(2) False] r Cons obtain h' where
        h': "scan_link h bp a = Some h'" "buf_path h' (Some a) (scan_insert (DBLK h) bp (a # as))" "touches (insert bp (set (a # as))) h h'" by auto
      have "buf_path h' (b_pasf q) pas"
        using r(3) buf_path_cong [of pas h h' "b_pasf q"] touches_same [OF h'(3)] r(1,7) Cons by fastforce
      moreover have "touches (insert bp (set (act @ pas))) h h'"
        by (rule touches_trans [OF h'(3) touches_refl]) (auto simp: Cons)
      ultimately show ?thesis using h'(1,2) a False Cons r
        by (intro concl [of h' ?q]) (auto simp: oneway_scan_binary_def scan_add_def S)
    next
      case True
      show ?thesis
      proof (cases pas)
        case Nil
        with True a r Cons show ?thesis
          by (intro concl [of "set_forw h bp None" "?q\<lparr>b_pasf := Some bp\<rparr>"]) (auto simp: oneway_scan_binary_def scan_add_def S)
      next
        case p: (Cons b bs)
        have b: "b_pasf q = Some b" "buf_path h (Some b) (b # bs)" using r(3) p by auto
        show ?thesis
        proof (cases "DBLK h bp < DBLK h b")
          case lt: True
          with True a b r Cons p show ?thesis
            by (intro concl [of "set_forw h bp (Some b)" "?q\<lparr>b_pasf := Some bp\<rparr>"])
              (auto simp: oneway_scan_binary_def scan_add_def S)
        next
          case False
          from scan_link_spec [OF b(2) False] r p obtain h' where
            h': "scan_link h bp b = Some h'" "buf_path h' (Some b) (scan_insert (DBLK h) bp (b # bs))" "touches (insert bp (set (b # bs))) h h'" by auto
          have "buf_path h' (b_actf q) act"
            using r(2) buf_path_cong [of act h h' "b_actf q"] touches_same [OF h'(3)] r(1,6) p by fastforce
          moreover have "touches (insert bp (set (act @ pas))) h h'"
            by (rule touches_trans [OF h'(3) touches_refl]) (auto simp: p)
          ultimately show ?thesis using h'(1,2) a b True False Cons p r
            by (intro concl [of h' ?q]) (auto simp: oneway_scan_binary_def scan_add_def S)
        qed
      qed
    qed
  qed
qed

lemma qsort_del_spec:
  assumes "scan_repr h q S"
  shows "if fst S = [] then qsort_del h q = (None, h, q)
    else \<exists>h' q'. qsort_del h q = (Some (hd (fst S)), h', q') \<and> scan_repr h' q' (scan_del S) \<and> touches (set (fst S @ snd S)) h h'"
proof -
  obtain act pas where S: "S = (act, pas)" by fastforce
  from assms S have r: "distinct (act @ pas)" "buf_path h (b_actf q) act" "buf_path h (b_pasf q) pas" "scan_inv (DBLK h) S"
    "q_cnt q = of_nat (length (act @ pas))" "length (act @ pas) < 2 ^ 64"
    by (auto simp: scan_repr_def)
  show ?thesis
  proof (cases act)
    case Nil
    then have "pas = []" using r(4) by (simp add: S scan_inv_def)
    with Nil r show ?thesis by (simp add: S qsort_del_def)
  next
    case (Cons a as)
    have "unat (of_nat (length (act @ pas)) :: u64) = length (act @ pas)"
      using r(6) by (simp only: unat_of_nat) simp
    then have c: "q_cnt q \<noteq> 0" using r(5) Cons by (metis length_0_conv append_is_Nil_conv list.distinct(1) unat_0)
    have d: "q_cnt q - 1 = of_nat (length (as @ pas))" using r(5) Cons by simp
    have nil: "av_forw (h a) = None \<longleftrightarrow> as = []" "b_pasf q = None \<longleftrightarrow> pas = []"
      using r(2,3) Cons buf_path_head [of h "av_forw (h a)" as] buf_path_head [of h "b_pasf q" pas] by (auto split: if_splits)
    have inv: "scan_inv (DBLK h) (scan_del S)" by (rule scan_del_inv [OF r(4)])
    show ?thesis
      using Cons c d r nil inv by (auto simp: S qsort_del_def Let_def scan_repr_def scan_del_def)
  qed
qed

subsection \<open>A burst of requests\<close>

fun que_add_all :: "(bstore \<Rightarrow> que_data \<Rightarrow> nat \<Rightarrow> (bstore \<times> que_data) option) \<Rightarrow> bstore \<Rightarrow> que_data \<Rightarrow> nat list \<Rightarrow>
    (bstore \<times> que_data) option" where
  "que_add_all add h q [] = Some (h, q)"
| "que_add_all add h q (x # xs) = (case add h q x of None \<Rightarrow> None | Some (h, q) \<Rightarrow> que_add_all add h q xs)"

text \<open>The requests that so many calls return, up to the first that returns none.\<close>

fun que_drain :: "(bstore \<Rightarrow> que_data \<Rightarrow> nat option \<times> bstore \<times> que_data) \<Rightarrow> nat \<Rightarrow> bstore \<Rightarrow> que_data \<Rightarrow> nat list" where
  "que_drain del 0 h q = []"
| "que_drain del (Suc n) h q = (case del h q of (None, _) \<Rightarrow> [] | (Some x, h, q) \<Rightarrow> x # que_drain del n h q)"

lemma scan_insert_filter:
  "sorted (map k xs) \<Longrightarrow>
   filter (\<lambda>y. k c = k y) (scan_insert k x xs) = filter (\<lambda>y. k c = k y) xs @ (if k c = k x then [x] else [])"
proof (induction xs)
  case (Cons y ys)
  have "filter (\<lambda>z. k c = k z) (y # ys) = []" if "k x < k y" "k c = k x"
    using Cons.prems that by (auto simp: filter_empty_conv)
  with Cons show ?case by auto
qed simp

lemma scan_insert_sort: "scan_insert k x (sort_key k xs) = sort_key k (xs @ [x])"
proof (rule sym, rule properties_for_sort_key)
  show "mset (scan_insert k x (sort_key k xs)) = mset (xs @ [x])" by simp
  show "filter (\<lambda>y. k c = k y) (scan_insert k x (sort_key k xs)) = filter (\<lambda>y. k c = k y) (xs @ [x])" for c
  proof -
    have "filter (\<lambda>y. k c = k y) (sort_key k xs) = filter (\<lambda>y. k c = k y) xs"
      using sort_key_stable [of k "k c" xs] by (simp add: eq_commute)
    then show ?thesis by (simp add: scan_insert_filter)
  qed
  show "sorted (map k (scan_insert k x (sort_key k xs)))" by (rule scan_insert_sorted) simp
qed

definition scan_order :: "(nat \<Rightarrow> u64) \<Rightarrow> nat list \<Rightarrow> scan_state" where
  "scan_order k xs = (sort_key k (filter (\<lambda>y. k (hd xs) \<le> k y) xs), sort_key k (filter (\<lambda>y. k y < k (hd xs)) xs))"

lemma scan_order_head:
  assumes "xs \<noteq> []"
  shows "fst (scan_order k xs) \<noteq> []" "k (hd (fst (scan_order k xs))) = k (hd xs)"
proof -
  let ?ys = "filter (\<lambda>y. k (hd xs) \<le> k y) xs"
  have m: "hd xs \<in> set (sort_key k ?ys)" using assms by simp
  then obtain z zs where z: "sort_key k ?ys = z # zs" by (cases "sort_key k ?ys") (simp_all only: list.set, auto)
  then show "fst (scan_order k xs) \<noteq> []" by (simp add: scan_order_def)
  have "sorted (map k (sort_key k ?ys))" by simp
  with z m have "k z \<le> k (hd xs)" by auto
  moreover have "z \<in> set ?ys" using z by (metis list.set_intros(1) set_sort)
  ultimately show "k (hd (fst (scan_order k xs))) = k (hd xs)" using z by (simp add: scan_order_def)
qed

lemma scan_order_add:
  assumes "xs \<noteq> []"
  shows "scan_add k x (scan_order k xs) = scan_order k (xs @ [x])"
  using scan_order_head [OF assms, of k] assms
  by (auto simp: scan_add_def scan_order_def scan_insert_sort filter_append not_less)

lemma scan_order_mset: "mset (fst (scan_order k xs) @ snd (scan_order k xs)) = mset xs"
  using multiset_partition [of "mset xs" "\<lambda>y. k (hd xs) \<le> k y"] by (simp add: scan_order_def not_le)

lemma que_add_all_sort:
  assumes "scan_repr h q (scan_order (DBLK h) (xs @ ys))" "xs \<noteq> []" "distinct (xs @ ys @ zs)" "length (xs @ ys @ zs) < 2 ^ 64"
  shows "\<exists>h' q'. que_add_all qsort_add h q zs = Some (h', q') \<and> scan_repr h' q' (scan_order (DBLK h) (xs @ ys @ zs)) \<and>
    DBLK h' = DBLK h"
  using assms
proof (induction zs arbitrary: h q ys)
  case (Cons z zs)
  let ?S = "scan_order (DBLK h) (xs @ ys)"
  have m: "mset (fst ?S @ snd ?S) = mset (xs @ ys)"
    by (rule scan_order_mset)
  have s: "z \<notin> set (fst ?S @ snd ?S)" using arg_cong [OF m, of set_mset] Cons.prems(3) by auto
  have l: "length (fst ?S @ snd ?S) + 1 < 2 ^ 64" using arg_cong [OF m, of size] Cons.prems(4) by simp
  from qsort_add_spec [OF Cons.prems(1) s l] scan_order_add [of "xs @ ys" "DBLK h" z] Cons.prems(2) obtain h1 q1 where
    1: "qsort_add h q z = Some (h1, q1)" "scan_repr h1 q1 (scan_order (DBLK h) (xs @ (ys @ [z])))" "DBLK h1 = DBLK h"
    using links_only_DBLK [OF touches_links] by auto
  from Cons.IH [of h1 q1 "ys @ [z]"] 1 Cons.prems show ?case by auto
qed simp

lemma que_drain_scan:
  "scan_repr h q S \<Longrightarrow> length (fst S @ snd S) \<le> n \<Longrightarrow> que_drain qsort_del n h q = fst S @ snd S"
proof (induction n arbitrary: h q S)
  case (Suc n)
  obtain act pas where S: "S = (act, pas)" by fastforce
  have e: "act = [] \<longrightarrow> pas = []" using Suc.prems(1) by (auto simp: S scan_repr_def scan_inv_def)
  note D = qsort_del_spec [OF Suc.prems(1)]
  show ?case
  proof (cases act)
    case Nil
    with D e show ?thesis by (simp add: S)
  next
    case (Cons a as)
    with D obtain h' q' where d: "qsort_del h q = (Some a, h', q')" "scan_repr h' q' (scan_del S)" by (auto simp: S)
    from Suc.IH [OF d(2)] Suc.prems(2) Cons show ?thesis by (simp add: d(1)) (simp add: S scan_del_def)
  qed
qed (simp add: scan_repr_def)

text \<open>C34: the one-way scan serves a burst of requests like a stable sort by block that starts at the block of the
  first request: those at or behind it in ascending order, then those before it, equal blocks first come, first served.\<close>

theorem oneway_scan_is_sort:
  assumes "distinct (x # xs)" "length (x # xs) < 2 ^ 64" "length (x # xs) \<le> n"
  shows "\<exists>h' q'. que_add_all qsort_add h que_zero (x # xs) = Some (h', q') \<and>
    que_drain qsort_del n h' q' =
      sort_key (DBLK h) (filter (\<lambda>y. DBLK h x \<le> DBLK h y) (x # xs)) @ sort_key (DBLK h) (filter (\<lambda>y. DBLK h y < DBLK h x) xs)"
proof -
  from qsort_add_spec [OF scan_repr_zero, of x h] obtain h1 q1 where
    1: "qsort_add h que_zero x = Some (h1, q1)" "scan_repr h1 q1 ([x], [])" "DBLK h1 = DBLK h"
    using links_only_DBLK [OF touches_links] by (auto simp: scan_add_def)
  have "scan_order (DBLK h1) ([x] @ []) = ([x], [])" by (simp add: scan_order_def)
  with que_add_all_sort [of h1 q1 "[x]" "[]" xs] 1 assms obtain h' q' where
    2: "que_add_all qsort_add h1 q1 xs = Some (h', q')" "scan_repr h' q' (scan_order (DBLK h) (x # xs))" by auto
  let ?S = "scan_order (DBLK h) (x # xs)"
  have "mset (fst ?S @ snd ?S) = mset (x # xs)"
    by (rule scan_order_mset)
  from arg_cong [OF this, of size] que_drain_scan [OF 2(2), of n] assms(3) have
    "que_drain qsort_del n h' q' = fst ?S @ snd ?S" by simp
  with 1 2 show ?thesis by (auto simp: scan_order_def)
qed

definition buf_at :: "u64 \<Rightarrow> buf" where
  "buf_at b = \<lparr>b_read = False, b_bcount = 512, b_resid = 0, b_private = b, av_forw = None\<rparr>"

theorem oneway_scan_witness:
  "\<exists>h' q'. que_add_all qsort_add (\<lambda>x. buf_at (if x = 0 then 50 else if x = 1 then 70 else if x = 2 then 10 else 50)) que_zero [0, 1, 2, 3] =
      Some (h', q') \<and> que_drain qsort_del 4 h' q' = [0, 3, 1, 2]"
proof -
  let ?h = "\<lambda>x :: nat. buf_at (if x = 0 then 50 else if x = 1 then 70 else if x = 2 then 10 else 50)"
  have "sort_key (DBLK ?h) (filter (\<lambda>y. DBLK ?h 0 \<le> DBLK ?h y) [0, 1, 2, 3]) = [0, 3, 1]"
    "sort_key (DBLK ?h) (filter (\<lambda>y. DBLK ?h y < DBLK ?h 0) [1, 2, 3]) = [2]"
    by (simp_all add: DBLK_def buf_at_def)
  with oneway_scan_is_sort [of 0 "[1, 2, 3]" 4 ?h] show ?thesis by simp
qed

subsection \<open>The contract of a queue object\<close>

text \<open>\<open>QUE_ADD\<close> and \<open>QUE_DEL\<close> as the flow control uses them: a queue holds a multiset of requests; what is added
  comes out once; a queue that holds something gives something; other requests are left alone.\<close>

locale que_object =
  fixes add :: "bstore \<Rightarrow> 'q \<Rightarrow> nat \<Rightarrow> (bstore \<times> 'q) option"
    and del :: "bstore \<Rightarrow> 'q \<Rightarrow> nat option \<times> bstore \<times> 'q"
    and repr :: "bstore \<Rightarrow> 'q \<Rightarrow> nat multiset \<Rightarrow> bool"
  assumes add_law: "repr h q M \<Longrightarrow> bp \<notin># M \<Longrightarrow> size M + 1 < 2 ^ 64 \<Longrightarrow>
      \<exists>h' q'. add h q bp = Some (h', q') \<and> repr h' q' (add_mset bp M) \<and> touches (insert bp (set_mset M)) h h'"
    and del_empty: "repr h q {#} \<Longrightarrow> del h q = (None, h, q)"
    and del_law: "repr h q M \<Longrightarrow> M \<noteq> {#} \<Longrightarrow>
      \<exists>bp h' q'. bp \<in># M \<and> del h q = (Some bp, h', q') \<and> repr h' q' (M - {#bp#}) \<and> touches (set_mset M) h h'"
    and repr_cong: "repr h q M \<Longrightarrow> (\<And>x. x \<in># M \<Longrightarrow> h' x = h x) \<Longrightarrow> repr h' q M"
begin

lemma del_cases:
  assumes "repr h q M"
  obtains "M = {#}" "del h q = (None, h, q)"
    | bp h' q' where "bp \<in># M" "del h q = (Some bp, h', q')" "repr h' q' (M - {#bp#})" "touches (set_mset M) h h'"
  using del_empty [of h q] del_law [OF assms] assms by (cases "M = {#}") auto

end

definition fifo_holds :: "bstore \<Rightarrow> que_data \<Rightarrow> nat multiset \<Rightarrow> bool" where
  "fifo_holds h q M \<longleftrightarrow> (\<exists>xs. fifo_repr h q xs \<and> mset xs = M)"

definition scan_holds :: "bstore \<Rightarrow> que_data \<Rightarrow> nat multiset \<Rightarrow> bool" where
  "scan_holds h q M \<longleftrightarrow> (\<exists>S. scan_repr h q S \<and> mset (fst S @ snd S) = M)"

lemma fifo_repr_cong: "fifo_repr h q xs \<Longrightarrow> (\<And>x. x \<in> set xs \<Longrightarrow> h' x = h x) \<Longrightarrow> fifo_repr h' q xs"
  using buf_path_cong [of xs h h' "b_actf q"] by (simp add: fifo_repr_def)

lemma scan_repr_cong:
  assumes "scan_repr h q S" "\<And>x. x \<in> set (fst S @ snd S) \<Longrightarrow> h' x = h x"
  shows "scan_repr h' q S"
proof -
  have d: "DBLK h' x = DBLK h x" if "x \<in> set (fst S @ snd S)" for x using that assms(2) by (simp add: DBLK_def)
  have m: "map (DBLK h') (fst S) = map (DBLK h) (fst S)" "map (DBLK h') (snd S) = map (DBLK h) (snd S)"
    by (rule map_cong; simp add: d)+
  have "scan_inv (DBLK h') S = scan_inv (DBLK h) S"
    unfolding scan_inv_def m using d by auto
  moreover have "buf_path h' p (fst S) = buf_path h p (fst S)" "buf_path h' p (snd S) = buf_path h p (snd S)" for p
    by (rule buf_path_cong; simp add: assms(2))+
  ultimately show ?thesis using assms(1) by (simp add: scan_repr_def)
qed

interpretation fifo: que_object qfifo_add que_del fifo_holds
proof
  fix h q M bp assume "fifo_holds h q M" and n: "bp \<notin># M"
  then obtain xs where xs: "fifo_repr h q xs" "mset xs = M" by (auto simp: fifo_holds_def)
  with n qfifo_add_spec [OF xs(1), of bp] obtain h' q' where
    "qfifo_add h q bp = Some (h', q')" "fifo_repr h' q' (xs @ [bp])" "touches (insert bp (set xs)) h h'" by auto
  with xs show "\<exists>h' q'. qfifo_add h q bp = Some (h', q') \<and> fifo_holds h' q' (add_mset bp M) \<and> touches (insert bp (set_mset M)) h h'"
    by (auto simp: fifo_holds_def intro!: exI [of _ "xs @ [bp]"])
next
  fix h q assume "fifo_holds h q {#}"
  then have "fifo_repr h q []" by (simp add: fifo_holds_def)
  from que_del_spec [OF this] show "que_del h q = (None, h, q)" by simp
next
  fix h q M assume "fifo_holds h q M" and n: "M \<noteq> {#}"
  then obtain ys where ys: "fifo_repr h q ys" "mset ys = M" unfolding fifo_holds_def by blast
  with n obtain x xs where xs: "fifo_repr h q (x # xs)" "mset (x # xs) = M" by (cases ys) auto
  from que_del_spec [OF xs(1)] obtain h' q' where
    "que_del h q = (Some x, h', q')" "fifo_repr h' q' xs" "touches (set (x # xs)) h h'" by auto
  with xs show "\<exists>bp h' q'. bp \<in># M \<and> que_del h q = (Some bp, h', q') \<and> fifo_holds h' q' (M - {#bp#}) \<and> touches (set_mset M) h h'"
    unfolding fifo_holds_def by (intro exI [of _ x] exI [of _ h'] exI [of _ q']) auto
next
  fix h q M h' assume "fifo_holds h q M" and e: "\<And>x. x \<in># M \<Longrightarrow> h' x = h x"
  then obtain xs where "fifo_repr h q xs" "mset xs = M" unfolding fifo_holds_def by blast
  with e have "fifo_repr h' q xs \<and> mset xs = M" by (intro conjI fifo_repr_cong [of h q xs h']) auto
  then show "fifo_holds h' q M" unfolding fifo_holds_def by blast
qed

interpretation scan: que_object qsort_add qsort_del scan_holds
proof
  fix h q M bp assume "scan_holds h q M" and n: "bp \<notin># M" "size M + 1 < 2 ^ 64"
  then obtain S where S: "scan_repr h q S" "mset (fst S @ snd S) = M" unfolding scan_holds_def by blast
  have s: "bp \<notin> set (fst S @ snd S)" "length (fst S @ snd S) + 1 < 2 ^ 64"
    using n unfolding S(2) [symmetric] by simp_all
  from qsort_add_spec [OF S(1) s] obtain h' q' where
    "qsort_add h q bp = Some (h', q')" "scan_repr h' q' (scan_add (DBLK h) bp S)" "touches (insert bp (set (fst S @ snd S))) h h'" by blast
  moreover have "set (fst S @ snd S) = set_mset M" unfolding S(2) [symmetric] by simp
  ultimately show "\<exists>h' q'. qsort_add h q bp = Some (h', q') \<and> scan_holds h' q' (add_mset bp M) \<and> touches (insert bp (set_mset M)) h h'"
    using scan_add_mset [of "DBLK h" bp S] S(2) unfolding scan_holds_def
    by (intro exI [of _ h'] exI [of _ q'] conjI exI [of _ "scan_add (DBLK h) bp S"]) simp_all
next
  fix h q assume "scan_holds h q {#}"
  then obtain S where "scan_repr h q S" "fst S = []" by (auto simp: scan_holds_def)
  with qsort_del_spec [of h q S] show "qsort_del h q = (None, h, q)" by simp
next
  fix h q M assume "scan_holds h q M" and n: "M \<noteq> {#}"
  then obtain S where S: "scan_repr h q S" "mset (fst S @ snd S) = M" unfolding scan_holds_def by blast
  have f: "fst S \<noteq> []" using S n unfolding scan_repr_def scan_inv_def by fastforce
  with qsort_del_spec [OF S(1)] obtain h' q' where
    d: "qsort_del h q = (Some (hd (fst S)), h', q')" "scan_repr h' q' (scan_del S)" "touches (set (fst S @ snd S)) h h'" by auto
  moreover have "mset (fst (scan_del S) @ snd (scan_del S)) = M - {#hd (fst S)#}"
    unfolding S(2) [symmetric] using f by (cases S; cases "fst S") (simp_all add: scan_del_def)
  moreover have "set (fst S @ snd S) = set_mset M" "hd (fst S) \<in># M" unfolding S(2) [symmetric] using f by simp_all
  ultimately show "\<exists>bp h' q'. bp \<in># M \<and> qsort_del h q = (Some bp, h', q') \<and> scan_holds h' q' (M - {#bp#}) \<and> touches (set_mset M) h h'"
    unfolding scan_holds_def
    by (intro exI [of _ "hd (fst S)"] exI [of _ h'] exI [of _ q'] conjI exI [of _ "scan_del S"]) simp_all
next
  fix h q M h' assume "scan_holds h q M" and e: "\<And>x. x \<in># M \<Longrightarrow> h' x = h x"
  then obtain S where "scan_repr h q S" "mset (fst S @ snd S) = M" unfolding scan_holds_def by blast
  with e have "scan_repr h' q S \<and> mset (fst S @ snd S) = M" by (intro conjI scan_repr_cong [of h q S h']) auto
  then show "scan_holds h' q M" unfolding scan_holds_def by blast
qed

end
