(* ===== verification/Strat_Flow.thy ===== *)
theory Strat_Flow
  imports Strat_Queue
begin

text \<open>
  The flow control objects of the disk strategy module (\<open>strategy.c\<close>): one command at a time
  (\<open>dsngl\<close>), several (\<open>dmult\<close>, also used for tagged queueing) and separate read and write queues
  (\<open>duplx\<close>). The queue object is an argument (\<open>que_object\<close>); so is \<open>TGCOM_PKT\<close>, which prepares a
  packet, or fails, with the restart callback registered or without. \<open>TGCOM_TRANSPORT\<close> is recorded. The mutex is dropped around
  a transport, so the unit of interleaving is the section under the mutex.
\<close>

subsection \<open>Requests, statistics, state\<close>

text \<open>The kernel's queue statistics are a log of the calls; the byte counters are fields the code updates.\<close>

datatype kstat_call = Waitq_enter | Waitq_to_runq | Runq_exit

record kstat_io =
  ks_calls :: "kstat_call list"
  ks_reads :: u32
  ks_writes :: u32
  ks_nread :: u64
  ks_nwritten :: u64

text \<open>The outcome of \<open>TGCOM_PKT\<close>: \<open>DDI_SUCCESS\<close>, or a failure, after which the restart function passed to it will be
  called back or not. \<open>dadk_pkt\<close> fails without a callback: \<open>ata_disk_pktalloc\<close> takes no callback, and its allocation does
  not sleep.\<close>

datatype pkt_result = Pkt_ready | Pkt_callback | Pkt_failed

text \<open>\<open>fc_callback\<close>: a failed \<open>TGCOM_PKT\<close> has registered the restart function. \<open>fc_failed\<close>, which the code does not
  keep: the requests whose last preparation failed with nothing registered. \<open>fc_sent\<close>: the transported
  requests in order. \<open>fc_res\<close>: the resources packets are made from.\<close>

record ('q, 'w) fc_data =
  fc_bufs :: bstore
  ds_queobj :: 'q
  ds_bp :: "nat option"
  ds_outcnt :: int
  ds_waitcnt :: int
  ds_kstat :: "kstat_io option"
  fc_callback :: bool
  fc_failed :: "nat set"
  fc_sent :: "nat list"
  fc_res :: 'w

record ('q, 'w) fc_env =
  que_add :: "bstore \<Rightarrow> 'q \<Rightarrow> nat \<Rightarrow> (bstore \<times> 'q) option"
  que_get :: "bstore \<Rightarrow> 'q \<Rightarrow> nat option \<times> bstore \<times> 'q"
  tgcom_pkt :: "'w \<Rightarrow> nat \<Rightarrow> pkt_result \<times> 'w"

definition DMULT_MAXCNT :: int where "DMULT_MAXCNT = 2"

definition fc_init :: "bstore \<Rightarrow> 'q \<Rightarrow> 'w \<Rightarrow> ('q, 'w) fc_data" where
  "fc_init h q w = \<lparr>fc_bufs = h, ds_queobj = q, ds_bp = None, ds_outcnt = 0, ds_waitcnt = DMULT_MAXCNT, ds_kstat = None,
     fc_callback = False, fc_failed = {}, fc_sent = [], fc_res = w\<rparr>"

definition fc_start_kstat :: "('q, 'w) fc_data \<Rightarrow> ('q, 'w) fc_data" where
  "fc_start_kstat s = (if ds_kstat s = None
     then s\<lparr>ds_kstat := Some \<lparr>ks_calls = [], ks_reads = 0, ks_writes = 0, ks_nread = 0, ks_nwritten = 0\<rparr>\<rparr> else s)"

definition fc_stop_kstat :: "('q, 'w) fc_data \<Rightarrow> ('q, 'w) fc_data" where
  "fc_stop_kstat s = s\<lparr>ds_kstat := None\<rparr>"

definition ks_call :: "kstat_call \<Rightarrow> ('q, 'w) fc_data \<Rightarrow> ('q, 'w) fc_data" where
  "ks_call c s = s\<lparr>ds_kstat := map_option (\<lambda>k. k\<lparr>ks_calls := ks_calls k @ [c]\<rparr>) (ds_kstat s)\<rparr>"

definition ks_count :: "buf \<Rightarrow> kstat_io \<Rightarrow> kstat_io" where
  "ks_count b k =
    (if b_read b
     then k\<lparr>ks_reads := ks_reads k + 1, ks_nread := ks_nread k + (b_bcount b - b_resid b)\<rparr>
     else k\<lparr>ks_writes := ks_writes k + 1, ks_nwritten := ks_nwritten k + (b_bcount b - b_resid b)\<rparr>)"

definition ks_finish :: "nat \<Rightarrow> ('q, 'w) fc_data \<Rightarrow> ('q, 'w) fc_data" where
  "ks_finish bp s = ks_call Runq_exit (s\<lparr>ds_kstat := map_option (ks_count (fc_bufs s bp)) (ds_kstat s)\<rparr>)"

subsection \<open>The calls\<close>

definition call_pkt :: "('q, 'w) fc_env \<Rightarrow> nat \<Rightarrow> ('q, 'w) fc_data \<Rightarrow> bool \<times> ('q, 'w) fc_data" where
  "call_pkt e bp s =
    (case tgcom_pkt e (fc_res s) bp of
       (r, w) \<Rightarrow> (r = Pkt_ready,
         s\<lparr>fc_res := w, fc_callback := (fc_callback s \<or> r = Pkt_callback),
           fc_failed := (if r = Pkt_failed then insert bp (fc_failed s) else fc_failed s - {bp})\<rparr>))"

definition call_transport :: "nat \<Rightarrow> ('q, 'w) fc_data \<Rightarrow> ('q, 'w) fc_data" where
  "call_transport bp s = s\<lparr>fc_sent := fc_sent s @ [bp]\<rparr>"

definition call_add :: "('q, 'w) fc_env \<Rightarrow> nat \<Rightarrow> ('q, 'w) fc_data \<Rightarrow> ('q, 'w) fc_data option" where
  "call_add e bp s = map_option (\<lambda>(h, q). s\<lparr>fc_bufs := h, ds_queobj := q\<rparr>) (que_add e (fc_bufs s) (ds_queobj s) bp)"

text \<open>\<open>ds_bp = QUE_DEL\<close>\<close>

definition fetch_bp :: "('q, 'w) fc_env \<Rightarrow> ('q, 'w) fc_data \<Rightarrow> ('q, 'w) fc_data" where
  "fetch_bp e s = (case que_get e (fc_bufs s) (ds_queobj s) of (b, h, q) \<Rightarrow> s\<lparr>fc_bufs := h, ds_queobj := q, ds_bp := b\<rparr>)"

subsection \<open>Enqueueing and dequeueing\<close>

text \<open>The two objects differ in when they are full.\<close>

type_synonym ('q, 'w) fc_full = "('q, 'w) fc_data \<Rightarrow> bool"

definition fc_enque :: "('q, 'w) fc_full \<Rightarrow> ('q, 'w) fc_env \<Rightarrow> nat option \<Rightarrow> ('q, 'w) fc_data \<Rightarrow> ('q, 'w) fc_data option" where
  "fc_enque full e in_bp s =
    (case in_bp of
       None \<Rightarrow> Some s
     | Some bp \<Rightarrow>
         if full s \<or> ds_bp s \<noteq> None then map_option (ks_call Waitq_enter) (call_add e bp s)
         else (let s = ks_call Waitq_enter s;
                   (ok, s) = call_pkt e bp s
               in if \<not> ok then Some (s\<lparr>ds_bp := Some bp\<rparr>)
                  else (let s = s\<lparr>ds_outcnt := ds_outcnt s + 1\<rparr>;
                            s = ks_call Waitq_to_runq s
                        in Some (call_transport bp s))))"

definition fc_done :: "nat option \<Rightarrow> ('q, 'w) fc_data \<Rightarrow> ('q, 'w) fc_data" where
  "fc_done in_bp s =
    (case in_bp of
       None \<Rightarrow> s
     | Some bp \<Rightarrow> ks_finish bp (s\<lparr>ds_outcnt := ds_outcnt s - 1\<rparr>))"

text \<open>One pass of the loop, up to the transport.\<close>

definition fc_pass :: "('q, 'w) fc_full \<Rightarrow> ('q, 'w) fc_env \<Rightarrow> ('q, 'w) fc_data \<Rightarrow> nat option \<times> ('q, 'w) fc_data" where
  "fc_pass full e s =
    (let s = (if ds_bp s = None then fetch_bp e s else s)
     in case ds_bp s of
          None \<Rightarrow> (None, s)
        | Some bp \<Rightarrow>
            (let (ok, s) = call_pkt e bp s
             in if \<not> ok \<or> full s then (None, s)
                else (let s = s\<lparr>ds_outcnt := ds_outcnt s + 1\<rparr>;
                          s = fetch_bp e s;
                          s = ks_call Waitq_to_runq s
                      in (Some bp, call_transport bp s))))"

text \<open>The mutex is tried again after each transport; \<open>n\<close> is how often that succeeds.\<close>

fun fc_loop :: "('q, 'w) fc_full \<Rightarrow> ('q, 'w) fc_env \<Rightarrow> nat \<Rightarrow> ('q, 'w) fc_data \<Rightarrow> ('q, 'w) fc_data" where
  "fc_loop full e n s =
    (case fc_pass full e s of
       (None, s) \<Rightarrow> s
     | (Some bp, s) \<Rightarrow> (case n of 0 \<Rightarrow> s | Suc n \<Rightarrow> fc_loop full e n s))"

declare fc_loop.simps [simp del]

definition fc_deque ::
  "('q, 'w) fc_full \<Rightarrow> ('q, 'w) fc_env \<Rightarrow> nat \<Rightarrow> nat option \<Rightarrow> ('q, 'w) fc_data \<Rightarrow> ('q, 'w) fc_data" where
  "fc_deque full e n in_bp s = fc_loop full e n (fc_done in_bp s)"

definition dsngl_full :: "('q, 'w) fc_full" where "dsngl_full s \<longleftrightarrow> ds_outcnt s \<noteq> 0"
definition dmult_full :: "('q, 'w) fc_full" where "dmult_full s \<longleftrightarrow> ds_outcnt s \<ge> ds_waitcnt s"

definition dsngl_enque :: "('q, 'w) fc_env \<Rightarrow> nat option \<Rightarrow> ('q, 'w) fc_data \<Rightarrow> ('q, 'w) fc_data option" where
  "dsngl_enque = fc_enque dsngl_full"
definition dsngl_deque :: "('q, 'w) fc_env \<Rightarrow> nat \<Rightarrow> nat option \<Rightarrow> ('q, 'w) fc_data \<Rightarrow> ('q, 'w) fc_data" where
  "dsngl_deque = fc_deque dsngl_full"
definition dsngl_restart :: "('q, 'w) fc_env \<Rightarrow> nat \<Rightarrow> ('q, 'w) fc_data \<Rightarrow> ('q, 'w) fc_data" where
  "dsngl_restart e n s = dsngl_deque e n None s"

definition dmult_enque :: "('q, 'w) fc_env \<Rightarrow> nat option \<Rightarrow> ('q, 'w) fc_data \<Rightarrow> ('q, 'w) fc_data option" where
  "dmult_enque = fc_enque dmult_full"
definition dmult_deque :: "('q, 'w) fc_env \<Rightarrow> nat \<Rightarrow> nat option \<Rightarrow> ('q, 'w) fc_data \<Rightarrow> ('q, 'w) fc_data" where
  "dmult_deque = fc_deque dmult_full"
definition dmult_restart :: "('q, 'w) fc_env \<Rightarrow> nat \<Rightarrow> ('q, 'w) fc_data \<Rightarrow> ('q, 'w) fc_data" where
  "dmult_restart e n s = dmult_deque e n None s"

subsection \<open>What flow control guarantees\<close>

datatype fc_object = Dsngl | Dmult

definition fc_full :: "fc_object \<Rightarrow> ('q, 'w) fc_full" where
  "fc_full k = (case k of Dsngl \<Rightarrow> dsngl_full | Dmult \<Rightarrow> dmult_full)"

definition fc_limit :: "fc_object \<Rightarrow> int" where
  "fc_limit k = (case k of Dsngl \<Rightarrow> 1 | Dmult \<Rightarrow> DMULT_MAXCNT)"

text \<open>The requests waiting, with the one at the head (\<open>ds_bp\<close>).\<close>

definition fc_held :: "('q, 'w) fc_data \<Rightarrow> nat multiset" where
  "fc_held s = (case ds_bp s of None \<Rightarrow> {#} | Some b \<Rightarrow> {#b#})"

definition ks_ok :: "kstat_io \<Rightarrow> nat \<Rightarrow> nat \<Rightarrow> bool" where
  "ks_ok k waiting running \<longleftrightarrow>
     count_list (ks_calls k) Waitq_enter = count_list (ks_calls k) Waitq_to_runq + waiting \<and>
     count_list (ks_calls k) Waitq_to_runq = count_list (ks_calls k) Runq_exit + running"

definition kstat_ok :: "('q, 'w) fc_data \<Rightarrow> nat \<Rightarrow> nat \<Rightarrow> bool" where
  "kstat_ok s waiting running \<longleftrightarrow> (case ds_kstat s of None \<Rightarrow> True | Some k \<Rightarrow> ks_ok k waiting running)"

text \<open>\<open>M\<close> is in the queue object, \<open>Out\<close> has been transported and is not finished. A request waits only while the
  object is full or one waits at the head; the head waits only for a completion or a callback, or is stuck: its
  last preparation failed and registered no callback.\<close>

definition fc_stuck :: "('q, 'w) fc_data \<Rightarrow> bool" where
  "fc_stuck s \<longleftrightarrow> ds_bp s \<in> Some ` fc_failed s"

definition flow_inv :: "(bstore \<Rightarrow> 'q \<Rightarrow> nat multiset \<Rightarrow> bool) \<Rightarrow> int \<Rightarrow> ('q, 'w) fc_data \<Rightarrow> nat multiset \<Rightarrow> nat multiset \<Rightarrow> bool" where
  "flow_inv repr lim s M Out \<longleftrightarrow> repr (fc_bufs s) (ds_queobj s) M \<and> (\<forall>x. count (M + fc_held s + Out) x \<le> 1) \<and>
     ds_outcnt s = int (size Out) \<and> int (size Out) \<le> lim \<and> ds_waitcnt s = DMULT_MAXCNT \<and>
     (M \<noteq> {#} \<longrightarrow> ds_bp s \<noteq> None \<or> lim \<le> int (size Out)) \<and>
     (ds_bp s \<noteq> None \<longrightarrow> Out \<noteq> {#} \<or> fc_callback s \<or> fc_stuck s) \<and>
     kstat_ok s (size M + size (fc_held s)) (size Out)"

lemma fc_full_iff:
  "ds_outcnt s = int n \<Longrightarrow> ds_waitcnt s = DMULT_MAXCNT \<Longrightarrow> fc_full k s \<longleftrightarrow> fc_limit k \<le> int n"
  by (cases k) (auto simp: fc_full_def fc_limit_def dsngl_full_def dmult_full_def)

lemma fc_limit_pos: "1 \<le> fc_limit k"
  by (cases k) (simp_all add: fc_limit_def DMULT_MAXCNT_def)

lemma ks_call_simps [simp]:
  "fc_bufs (ks_call c s) = fc_bufs s" "ds_queobj (ks_call c s) = ds_queobj s" "ds_bp (ks_call c s) = ds_bp s"
  "ds_outcnt (ks_call c s) = ds_outcnt s" "ds_waitcnt (ks_call c s) = ds_waitcnt s" "fc_callback (ks_call c s) = fc_callback s"
  "fc_sent (ks_call c s) = fc_sent s" "fc_held (ks_call c s) = fc_held s" "fc_failed (ks_call c s) = fc_failed s"
  "fc_stuck (ks_call c s) = fc_stuck s" "fc_res (ks_call c s) = fc_res s"
  by (simp_all add: ks_call_def fc_held_def fc_stuck_def)

lemma kstat_ok_call:
  "kstat_ok s w r \<Longrightarrow> kstat_ok (ks_call Waitq_enter s) (Suc w) r"
  "kstat_ok s (Suc w) r \<Longrightarrow> kstat_ok (ks_call Waitq_to_runq s) w (Suc r)"
  "kstat_ok s w (Suc r) \<Longrightarrow> kstat_ok (ks_call Runq_exit s) w r"
  by (auto simp: kstat_ok_def ks_call_def ks_ok_def split: option.splits)

lemma kstat_ok_finish: "kstat_ok s w (Suc r) \<Longrightarrow> kstat_ok (ks_finish bp s) w r"
  unfolding ks_finish_def
  by (rule kstat_ok_call) (auto simp: kstat_ok_def ks_ok_def ks_count_def split: option.splits)

lemma kstat_ok_cong: "ds_kstat s' = ds_kstat s \<Longrightarrow> kstat_ok s' w r = kstat_ok s w r"
  by (simp add: kstat_ok_def)

lemma fc_held_simps: "fc_held (s\<lparr>ds_bp := b\<rparr>) = (case b of None \<Rightarrow> {#} | Some b \<Rightarrow> {#b#})"
  by (simp add: fc_held_def)

definition fc_fits ::
  "(bstore \<Rightarrow> 'q \<Rightarrow> nat \<Rightarrow> (bstore \<times> 'q) option) \<Rightarrow> (bstore \<Rightarrow> 'q \<Rightarrow> nat option \<times> bstore \<times> 'q) \<Rightarrow> ('q, 'w) fc_env \<Rightarrow> bool" where
  "fc_fits add del e \<longleftrightarrow> que_add e = add \<and> que_get e = del"

definition flow_pre :: "(bstore \<Rightarrow> 'q \<Rightarrow> nat multiset \<Rightarrow> bool) \<Rightarrow> int \<Rightarrow> ('q, 'w) fc_data \<Rightarrow> nat multiset \<Rightarrow> nat multiset \<Rightarrow> bool" where
  "flow_pre repr lim s M Out \<longleftrightarrow> repr (fc_bufs s) (ds_queobj s) M \<and> (\<forall>x. count (M + fc_held s + Out) x \<le> 1) \<and>
     ds_outcnt s = int (size Out) \<and> int (size Out) \<le> lim \<and> ds_waitcnt s = DMULT_MAXCNT \<and>
     kstat_ok s (size M + size (fc_held s)) (size Out)"

lemma flow_inv_pre: "flow_inv repr lim s M Out \<Longrightarrow> flow_pre repr lim s M Out"
  by (simp add: flow_inv_def flow_pre_def)

lemma call_pkt_simps:
  "fc_bufs (snd (call_pkt e b s)) = fc_bufs s" "ds_queobj (snd (call_pkt e b s)) = ds_queobj s"
  "ds_bp (snd (call_pkt e b s)) = ds_bp s" "ds_outcnt (snd (call_pkt e b s)) = ds_outcnt s"
  "ds_waitcnt (snd (call_pkt e b s)) = ds_waitcnt s" "ds_kstat (snd (call_pkt e b s)) = ds_kstat s"
  "fc_sent (snd (call_pkt e b s)) = fc_sent s" "\<not> fst (call_pkt e b s) \<Longrightarrow> fc_callback (snd (call_pkt e b s)) \<or> b \<in> fc_failed (snd (call_pkt e b s))"
  "fc_callback s \<Longrightarrow> fc_callback (snd (call_pkt e b s))"
  by (auto simp: call_pkt_def split: prod.splits) (metis pkt_result.exhaust)+

lemma flow_pre_frame:
  assumes "flow_pre repr lim s M Out" "fc_bufs s' = fc_bufs s" "ds_queobj s' = ds_queobj s" "ds_bp s' = ds_bp s"
    "ds_outcnt s' = ds_outcnt s" "ds_waitcnt s' = ds_waitcnt s" "ds_kstat s' = ds_kstat s"
  shows "flow_pre repr lim s' M Out" "fc_held s' = fc_held s"
  using assms kstat_ok_cong [of s' s] by (simp_all add: flow_pre_def fc_held_def)

context que_object
begin

lemma fetch_spec:
  assumes "fc_fits add del e" "repr (fc_bufs s) (ds_queobj s) M"
  obtains "M = {#}" "fetch_bp e s = s\<lparr>ds_bp := None\<rparr>"
    | b h q where "b \<in># M" "fetch_bp e s = s\<lparr>fc_bufs := h, ds_queobj := q, ds_bp := Some b\<rparr>" "repr h q (M - {#b#})"
proof (rule del_cases [OF assms(2)], goal_cases)
  case 1
  then show ?case using that(1) assms(1) by (simp add: fetch_bp_def fc_fits_def)
next
  case (2 bp h' q')
  then show ?case using that(2) assms(1) by (simp add: fetch_bp_def fc_fits_def)
qed

text \<open>Fetching the next head moves it out of the queue.\<close>

lemma fetch_pre:
  assumes e: "fc_fits add del e" and pre: "flow_pre repr lim s M Out" and n: "ds_bp s = None"
  shows "\<exists>M'. flow_pre repr lim (fetch_bp e s) M' Out \<and> M' + fc_held (fetch_bp e s) = M \<and>
    (ds_bp (fetch_bp e s) = None \<longrightarrow> M' = {#}) \<and> fc_sent (fetch_bp e s) = fc_sent s \<and>
    fc_callback (fetch_bp e s) = fc_callback s"
proof -
  have r: "repr (fc_bufs s) (ds_queobj s) M" using pre by (simp add: flow_pre_def)
  from e r show ?thesis
  proof (cases rule: fetch_spec)
    case 1
    with pre n show ?thesis
      by (intro exI [of _ "{#}"]) (auto simp: flow_pre_def fc_held_def kstat_ok_def)
  next
    case (2 b h q)
    have m: "M - {#b#} + {#b#} = M" using 2(1) by simp
    have "Suc (size (M - {#b#})) = size M" using arg_cong [OF m, of size] by simp
    with 2 pre n m show ?thesis
      by (intro exI [of _ "M - {#b#}"]) (simp add: flow_pre_def fc_held_def kstat_ok_def)
  qed
qed

lemma start_pre:
  assumes e: "fc_fits add del e" and pre: "flow_pre repr lim s M Out" and b: "ds_bp s = Some b" and lim: "int (size Out) < lim"
  defines "s' \<equiv> call_transport b (ks_call Waitq_to_runq (fetch_bp e (s\<lparr>ds_outcnt := ds_outcnt s + 1\<rparr>)))"
  shows "\<exists>M'. flow_inv repr lim s' M' (add_mset b Out) \<and> M' + fc_held s' + {#b#} = M + fc_held s \<and> fc_sent s' = fc_sent s @ [b]"
proof -
  let ?t = "s\<lparr>ds_outcnt := ds_outcnt s + 1\<rparr>"
  have r: "repr (fc_bufs ?t) (ds_queobj ?t) M" using pre by (simp add: flow_pre_def)
  have k: "kstat_ok s (Suc (size M)) (size Out)" using pre b by (simp add: flow_pre_def fc_held_def)
  have c: "count (add_mset b (M + Out)) x \<le> 1" for x using pre b by (simp add: flow_pre_def fc_held_def ac_simps)
  from e r show ?thesis
  proof (cases rule: fetch_spec)
    case 1
    have "kstat_ok (ks_call Waitq_to_runq (s\<lparr>ds_outcnt := ds_outcnt s + 1, ds_bp := None\<rparr>)) 0 (Suc (size Out))"
      by (rule kstat_ok_call) (use k 1 in \<open>simp add: kstat_ok_def\<close>)
    with 1 pre b lim c show ?thesis
      by (intro exI [of _ "{#}"]) (auto simp: s'_def flow_pre_def flow_inv_def call_transport_def ks_call_def fc_held_def kstat_ok_def)
  next
    case (2 a h q)
    have m: "M - {#a#} + {#a#} = M" using 2(1) by simp
    have sz: "Suc (size (M - {#a#})) = size M" using arg_cong [OF m, of size] by simp
    have "kstat_ok (ks_call Waitq_to_runq (s\<lparr>ds_outcnt := ds_outcnt s + 1, fc_bufs := h, ds_queobj := q, ds_bp := Some a\<rparr>))
        (size M) (Suc (size Out))"
      by (rule kstat_ok_call) (use k in \<open>simp add: kstat_ok_def\<close>)
    with 2 pre b lim c m sz show ?thesis
      by (intro exI [of _ "M - {#a#}"])
        (simp add: s'_def flow_pre_def flow_inv_def call_transport_def ks_call_def fc_held_def kstat_ok_def)
  qed
qed

end

context que_object
begin

lemma pass_spec:
  assumes e: "fc_fits add del e" and pre: "flow_pre repr (fc_limit k) s M Out" and p: "fc_pass (fc_full k) e s = (r, s')"
  shows "\<exists>M' Out'. flow_inv repr (fc_limit k) s' M' Out' \<and>
    (case r of None \<Rightarrow> Out' = Out \<and> M' + fc_held s' = M + fc_held s \<and> fc_sent s' = fc_sent s
     | Some b \<Rightarrow> Out' = add_mset b Out \<and> M' + fc_held s' + {#b#} = M + fc_held s \<and> fc_sent s' = fc_sent s @ [b])"
proof -
  define s1 where "s1 = (if ds_bp s = None then fetch_bp e s else s)"
  have "\<exists>M1. flow_pre repr (fc_limit k) s1 M1 Out \<and> M1 + fc_held s1 = M + fc_held s \<and> (ds_bp s1 = None \<longrightarrow> M1 = {#}) \<and>
      fc_sent s1 = fc_sent s"
  proof (cases "ds_bp s = None")
    case True
    from fetch_pre [OF e pre True] True show ?thesis by (auto simp: s1_def fc_held_def)
  next
    case False
    then have "s1 = s" unfolding s1_def by (rule if_not_P)
    from False obtain b where "ds_bp s = Some b" by blast
    with \<open>s1 = s\<close> pre show ?thesis by (intro exI [of _ M]) simp
  qed
  then obtain M1 where 1: "flow_pre repr (fc_limit k) s1 M1 Out" "M1 + fc_held s1 = M + fc_held s"
    "ds_bp s1 = None \<longrightarrow> M1 = {#}" "fc_sent s1 = fc_sent s" by (elim exE conjE)
  show ?thesis
  proof (cases "ds_bp s1")
    case None
    with p have "r = None" "s' = s1" by (auto simp: fc_pass_def s1_def Let_def)
    with 1 None show ?thesis by (intro exI [of _ M1] exI [of _ Out]) (simp add: flow_inv_def flow_pre_def)
  next
    case (Some b)
    obtain ok s2 where c: "call_pkt e b s1 = (ok, s2)" by fastforce
    note f = call_pkt_simps [where e = e and b = b and s = s1, unfolded c snd_conv fst_conv]
    have 2: "flow_pre repr (fc_limit k) s2 M1 Out" "fc_held s2 = fc_held s1"
      using flow_pre_frame [OF 1(1), of s2] f by simp_all
    have full: "fc_full k s2 \<longleftrightarrow> fc_limit k \<le> int (size Out)"
      using 2(1) by (intro fc_full_iff) (simp_all add: flow_pre_def)
    show ?thesis
    proof (cases "\<not> ok \<or> fc_full k s2")
      case True
      then have "r = None" "s' = s2" using p Some c by (auto simp: fc_pass_def s1_def Let_def)
      moreover have "Out \<noteq> {#} \<or> fc_callback s2 \<or> fc_stuck s2" using True f(3,8) Some full fc_limit_pos [of k] by (auto simp: fc_stuck_def)
      ultimately show ?thesis using 1 2 Some f(3,7) by (intro exI [of _ M1] exI [of _ Out]) (simp add: flow_inv_def flow_pre_def)
    next
      case False
      then have rs: "r = Some b" "s' = call_transport b (ks_call Waitq_to_runq (fetch_bp e (s2\<lparr>ds_outcnt := ds_outcnt s2 + 1\<rparr>)))"
        using p Some c by (auto simp: fc_pass_def s1_def Let_def)
      have "ds_bp s2 = Some b" "int (size Out) < fc_limit k" using Some f(3) False full by simp_all
      from start_pre [OF e 2(1) this] rs 1 2(2) f(7) show ?thesis by fastforce
    qed
  qed
qed

lemma done_pre:
  assumes inv: "flow_inv repr lim s M Out" and b: "b \<in># Out"
  shows "flow_pre repr lim (fc_done (Some b) s) M (Out - {#b#})" "fc_held (fc_done (Some b) s) = fc_held s"
    "fc_sent (fc_done (Some b) s) = fc_sent s" "fc_callback (fc_done (Some b) s) = fc_callback s"
proof -
  have sz: "Suc (size (Out - {#b#})) = size Out" using b by (metis size_Suc_Diff1)
  have "kstat_ok (ks_finish b (s\<lparr>ds_outcnt := ds_outcnt s - 1\<rparr>)) (size M + size (fc_held s)) (size (Out - {#b#}))"
    by (rule kstat_ok_finish) (use inv sz in \<open>simp add: flow_inv_def kstat_ok_def\<close>)
  moreover have "count (M + fc_held s + (Out - {#b#})) x \<le> 1" for x
  proof -
    have "count (M + fc_held s + Out) x \<le> 1" using inv unfolding flow_inv_def by blast
    then show ?thesis by simp
  qed
  ultimately show "flow_pre repr lim (fc_done (Some b) s) M (Out - {#b#})"
    using inv sz by (simp add: flow_inv_def flow_pre_def fc_done_def ks_finish_def ks_call_def fc_held_def)
qed (simp_all add: fc_done_def ks_finish_def ks_call_def fc_held_def)

lemma enque_spec:
  assumes e: "fc_fits add del e" and inv: "flow_inv repr (fc_limit k) s M Out"
    and b: "b \<notin># M + fc_held s + Out" "size M + 1 < 2 ^ 64"
  shows "\<exists>s' M' Out'. fc_enque (fc_full k) e (Some b) s = Some s' \<and> flow_inv repr (fc_limit k) s' M' Out' \<and>
    M' + fc_held s' + Out' = add_mset b (M + fc_held s + Out) \<and>
    (fc_sent s' = fc_sent s \<and> Out' = Out \<or> M' + fc_held s' = {#} \<and> fc_sent s' = fc_sent s @ [b] \<and> Out' = add_mset b Out)"
proof -
  have full: "fc_full k s \<longleftrightarrow> fc_limit k \<le> int (size Out)"
    using inv by (intro fc_full_iff) (simp_all add: flow_inv_def)
  have one: "count (add_mset b (M + fc_held s + Out)) x \<le> 1" for x
    using inv b(1) by (auto simp: flow_inv_def count_eq_zero_iff)
  show ?thesis
  proof (cases "fc_full k s \<or> ds_bp s \<noteq> None")
    case True
    have "repr (fc_bufs s) (ds_queobj s) M" using inv by (simp add: flow_inv_def)
    from add_law [OF this _ b(2), of b] b(1) obtain h q where
      a: "add (fc_bufs s) (ds_queobj s) b = Some (h, q)" "repr h q (add_mset b M)" by auto
    let ?s = "ks_call Waitq_enter (s\<lparr>fc_bufs := h, ds_queobj := q\<rparr>)"
    have "kstat_ok ?s (Suc (size M + size (fc_held s))) (size Out)"
      by (rule kstat_ok_call) (use inv in \<open>simp add: flow_inv_def kstat_ok_def\<close>)
    moreover have "fc_enque (fc_full k) e (Some b) s = Some ?s"
      using True a e by (simp add: fc_enque_def call_add_def fc_fits_def)
    moreover have "ds_bp s \<noteq> None \<or> fc_limit k \<le> int (size Out)" using True full by blast
    moreover have "fc_held ?s = fc_held s" by (simp add: fc_held_def)
    moreover have "fc_stuck ?s = fc_stuck s" by (simp add: fc_stuck_def)
    ultimately show ?thesis
      using inv a(2) one by (intro exI [of _ ?s] exI [of _ "add_mset b M"] exI [of _ Out]) (simp add: flow_inv_def)
  next
    case False
    then have m: "M = {#}" "fc_held s = {#}" "ds_bp s = None" using inv full by (auto simp: flow_inv_def fc_held_def)
    let ?s0 = "ks_call Waitq_enter s"
    obtain ok s1 where c: "call_pkt e b ?s0 = (ok, s1)" by fastforce
    note f = call_pkt_simps [where e = e and b = b and s = ?s0, unfolded c snd_conv fst_conv]
    have k0: "kstat_ok ?s0 1 (size Out)" using kstat_ok_call(1) [of s 0 "size Out"] inv m by (simp add: flow_inv_def)
    then have k1: "kstat_ok s1 (Suc 0) (size Out)" using f(6) by (simp add: kstat_ok_def)
    show ?thesis
    proof (cases ok)
      case False
      let ?s = "s1\<lparr>ds_bp := Some b\<rparr>"
      have "fc_enque (fc_full k) e (Some b) s = Some ?s"
        using \<open>\<not> (fc_full k s \<or> ds_bp s \<noteq> None)\<close> c False by (simp add: fc_enque_def Let_def)
      moreover have "kstat_ok ?s (Suc 0) (size Out)" using k1 by (simp add: kstat_ok_def)
      moreover have "fc_callback ?s \<or> fc_stuck ?s" using f(8) False by (auto simp: fc_stuck_def)
      ultimately show ?thesis
        using inv f False m one by (intro exI [of _ ?s] exI [of _ "{#}"] exI [of _ Out]) (simp add: flow_inv_def fc_held_def)
    next
      case True
      let ?s = "call_transport b (ks_call Waitq_to_runq (s1\<lparr>ds_outcnt := ds_outcnt s1 + 1\<rparr>))"
      have "fc_enque (fc_full k) e (Some b) s = Some ?s"
        using \<open>\<not> (fc_full k s \<or> ds_bp s \<noteq> None)\<close> c True by (simp add: fc_enque_def Let_def)
      moreover have "kstat_ok (ks_call Waitq_to_runq (s1\<lparr>ds_outcnt := ds_outcnt s1 + 1\<rparr>)) 0 (Suc (size Out))"
        by (rule kstat_ok_call) (use k1 in \<open>simp add: kstat_ok_def\<close>)
      then have "kstat_ok ?s 0 (Suc (size Out))" by (simp add: kstat_ok_def call_transport_def)
      moreover have "int (size Out) < fc_limit k" using \<open>\<not> (fc_full k s \<or> ds_bp s \<noteq> None)\<close> full by simp
      ultimately show ?thesis
        using inv f m one by (intro exI [of _ ?s] exI [of _ "{#}"] exI [of _ "add_mset b Out"])
          (simp add: flow_inv_def fc_held_def call_transport_def)
    qed
  qed
qed

end

subsection \<open>Interleaved use\<close>

text \<open>Sections under the mutex, in any order: a new request, a completion, the restart callback, a thread that got
  the mutex again after a transport. \<open>Q\<close>: the requests accepted so far; \<open>F\<close>: those finished.\<close>

inductive flow_reach ::
  "fc_object \<Rightarrow> ('q, 'w) fc_env \<Rightarrow> ('q, 'w) fc_data \<Rightarrow> ('q, 'w) fc_data \<Rightarrow> nat multiset \<Rightarrow> nat multiset \<Rightarrow> bool"
  for k :: fc_object and e :: "('q, 'w) fc_env" and s0 :: "('q, 'w) fc_data" where
  Init: "flow_reach k e s0 s0 {#} {#}"
| Enque: "flow_reach k e s0 s Q F \<Longrightarrow> b \<notin># Q - F \<Longrightarrow> size (Q - F) + 1 < 2 ^ 64 \<Longrightarrow>
     fc_enque (fc_full k) e (Some b) s = Some s' \<Longrightarrow> flow_reach k e s0 s' (add_mset b Q) F"
| Finish: "flow_reach k e s0 s Q F \<Longrightarrow> b \<in># mset (fc_sent s) - F \<Longrightarrow>
     fc_pass (fc_full k) e (fc_done (Some b) s) = (r, s') \<Longrightarrow> flow_reach k e s0 s' Q (add_mset b F)"
| Restart: "flow_reach k e s0 s Q F \<Longrightarrow> fc_callback s \<Longrightarrow>
     fc_pass (fc_full k) e (s\<lparr>fc_callback := False\<rparr>) = (r, s') \<Longrightarrow> flow_reach k e s0 s' Q F"
| Resume: "flow_reach k e s0 s Q F \<Longrightarrow> fc_pass (fc_full k) e s = (r, s') \<Longrightarrow> flow_reach k e s0 s' Q F"

definition flow_ok ::
  "(bstore \<Rightarrow> 'q \<Rightarrow> nat multiset \<Rightarrow> bool) \<Rightarrow> fc_object \<Rightarrow> ('q, 'w) fc_data \<Rightarrow> nat multiset \<Rightarrow> nat multiset \<Rightarrow> bool" where
  "flow_ok repr k s Q F \<longleftrightarrow> (\<exists>M Out. flow_inv repr (fc_limit k) s M Out \<and> mset (fc_sent s) = Out + F \<and>
     Q = M + fc_held s + Out + F)"

context que_object
begin

lemma pass_ok:
  assumes e: "fc_fits add del e" and pre: "flow_pre repr (fc_limit k) s M Out" and p: "fc_pass (fc_full k) e s = (r, s')"
    and c: "mset (fc_sent s) = Out + F" "Q = M + fc_held s + Out + F"
  shows "flow_ok repr k s' Q F"
proof -
  from pass_spec [OF e pre p] obtain M' Out' where 1: "flow_inv repr (fc_limit k) s' M' Out'"
    "case r of None \<Rightarrow> Out' = Out \<and> M' + fc_held s' = M + fc_held s \<and> fc_sent s' = fc_sent s
     | Some b \<Rightarrow> Out' = add_mset b Out \<and> M' + fc_held s' + {#b#} = M + fc_held s \<and> fc_sent s' = fc_sent s @ [b]" by blast
  have "mset (fc_sent s') = Out' + F" using 1(2) c by (cases r) simp_all
  moreover have "M' + fc_held s' + Out' = M + fc_held s + Out"
  proof (cases r)
    case (Some b)
    with 1(2) have "M' + fc_held s' + Out' = (M' + fc_held s' + {#b#}) + Out" by (simp add: ac_simps)
    with 1(2) Some show ?thesis by simp
  qed (use 1(2) in simp)
  ultimately show ?thesis using 1(1) c unfolding flow_ok_def by (intro exI [of _ M'] exI [of _ Out']) simp
qed

lemma reach_ok:
  assumes "flow_reach k e s0 s Q F" and e: "fc_fits add del e" and s0: "flow_inv repr (fc_limit k) s0 {#} {#}" "fc_sent s0 = []" "ds_bp s0 = None"
  shows "flow_ok repr k s Q F"
  using assms(1)
proof induction
  case Init
  then show ?case using s0 by (auto simp: flow_ok_def fc_held_def intro!: exI [of _ "{#}"])
next
  case (Enque s Q F b s')
  then obtain M Out where I: "flow_inv repr (fc_limit k) s M Out" "mset (fc_sent s) = Out + F" "Q = M + fc_held s + Out + F"
    by (auto simp: flow_ok_def)
  have d: "Q - F = M + fc_held s + Out" by (simp add: I(3))
  have "b \<notin># M + fc_held s + Out" "size M + 1 < 2 ^ 64" using Enque.hyps d by simp_all
  from enque_spec [OF e I(1) this] Enque.hyps obtain M' Out' where 1: "flow_inv repr (fc_limit k) s' M' Out'"
    "M' + fc_held s' + Out' = add_mset b (M + fc_held s + Out)"
    "fc_sent s' = fc_sent s \<and> Out' = Out \<or> fc_sent s' = fc_sent s @ [b] \<and> Out' = add_mset b Out" by auto
  from 1(3) I(2) have "mset (fc_sent s') = Out' + F" by auto
  with 1(1,2) I(3) show ?case unfolding flow_ok_def by (intro exI [of _ M'] exI [of _ Out']) simp
next
  case (Finish s Q F b r s')
  then obtain M Out where I: "flow_inv repr (fc_limit k) s M Out" "mset (fc_sent s) = Out + F" "Q = M + fc_held s + Out + F"
    by (auto simp: flow_ok_def)
  have b: "b \<in># Out" using Finish.hyps(2) I(2) by simp
  note D = done_pre [OF I(1) b]
  have m: "Out - {#b#} + add_mset b F = Out + F" using b by simp
  show ?case
    by (rule pass_ok [OF e D(1) Finish.hyps(3)]) (use I D m in \<open>simp_all add: add.assoc\<close>)
next
  case (Restart s Q F r s')
  then obtain M Out where I: "flow_inv repr (fc_limit k) s M Out" "mset (fc_sent s) = Out + F" "Q = M + fc_held s + Out + F"
    by (auto simp: flow_ok_def)
  note P = flow_pre_frame [OF flow_inv_pre [OF I(1)], of "s\<lparr>fc_callback := False\<rparr>"]
  show ?case
    by (rule pass_ok [OF e P(1) Restart.hyps(3)]) (use I P(2) in simp_all)
next
  case (Resume s Q F r s')
  then obtain M Out where I: "flow_inv repr (fc_limit k) s M Out" "mset (fc_sent s) = Out + F" "Q = M + fc_held s + Out + F"
    by (auto simp: flow_ok_def)
  show ?case by (rule pass_ok [OF e flow_inv_pre [OF I(1)] Resume.hyps(2) I(2,3)])
qed

lemma pass_none:
  assumes e: "fc_fits add del e" and pre: "flow_pre repr (fc_limit k) s M Out" and p: "fc_pass (fc_full k) e s = (None, s')"
  shows "ds_bp s' = None \<or> fc_callback s' \<or> fc_stuck s' \<or> fc_limit k \<le> ds_outcnt s'"
proof -
  define s1 where "s1 = (if ds_bp s = None then fetch_bp e s else s)"
  have n: "ds_outcnt s1 = int (size Out)" "ds_waitcnt s1 = DMULT_MAXCNT"
    using pre by (auto simp: s1_def fetch_bp_def flow_pre_def split: prod.splits)
  show ?thesis
  proof (cases "ds_bp s1")
    case None
    with p show ?thesis by (auto simp: fc_pass_def s1_def Let_def)
  next
    case (Some b)
    obtain ok s2 where c: "call_pkt e b s1 = (ok, s2)" by fastforce
    note f = call_pkt_simps [where e = e and b = b and s = s1, unfolded c snd_conv fst_conv]
    have "s' = s2" "\<not> ok \<or> fc_full k s2" using p Some c by (auto simp: fc_pass_def s1_def Let_def split: if_splits)
    moreover have "fc_full k s2 \<longleftrightarrow> fc_limit k \<le> int (size Out)" using n f(4,5) by (intro fc_full_iff) simp_all
    ultimately show ?thesis using f(3,4,8) n Some by (auto simp: fc_stuck_def)
  qed
qed

text \<open>The loop of \<open>deque\<close> is a sequence of such sections; it ends with nothing to start.\<close>

lemma loop_ok:
  assumes e: "fc_fits add del e" and s0: "flow_inv repr (fc_limit k) s0 {#} {#}" "fc_sent s0 = []" "ds_bp s0 = None"
    and r: "\<And>r s'. fc_pass (fc_full k) e s = (r, s') \<Longrightarrow> flow_reach k e s0 s' Q F"
    and n: "nat (fc_limit k - ds_outcnt s) \<le> Suc n" and out: "ds_outcnt s = int (size Out)" "flow_pre repr (fc_limit k) s M Out"
  shows "flow_reach k e s0 (fc_loop (fc_full k) e n s) Q F \<and>
    (ds_bp (fc_loop (fc_full k) e n s) = None \<or> fc_callback (fc_loop (fc_full k) e n s) \<or> fc_stuck (fc_loop (fc_full k) e n s) \<or>
     fc_limit k \<le> ds_outcnt (fc_loop (fc_full k) e n s))"
  using r n out
proof (induction n arbitrary: s Out M)
  case 0
  obtain r s' where p: "fc_pass (fc_full k) e s = (r, s')" by fastforce
  have l: "fc_loop (fc_full k) e 0 s = s'" by (subst fc_loop.simps) (simp add: p split: option.split)
  from pass_spec [OF e 0(4) p] obtain M' Out' where 1: "flow_inv repr (fc_limit k) s' M' Out'"
    "case r of None \<Rightarrow> Out' = Out | Some b \<Rightarrow> Out' = add_mset b Out" by (auto split: option.splits)
  have "ds_bp s' = None \<or> fc_callback s' \<or> fc_stuck s' \<or> fc_limit k \<le> ds_outcnt s'"
  proof (cases r)
    case None
    then show ?thesis using pass_none [OF e 0(4)] p by blast
  next
    case (Some b)
    have "fc_limit k \<le> int (size Out) + 1" using 0(2,3) by (simp add: nat_le_iff)
    moreover have "ds_outcnt s' = int (size Out) + 1" using 1 Some by (simp add: flow_inv_def)
    ultimately show ?thesis by simp
  qed
  with 0(1) [OF p] show ?case by (simp add: l)
next
  case (Suc n)
  obtain r s' where p: "fc_pass (fc_full k) e s = (r, s')" by fastforce
  from pass_spec [OF e Suc.prems(4) p] obtain M' Out' where 1: "flow_inv repr (fc_limit k) s' M' Out'"
    "case r of None \<Rightarrow> Out' = Out | Some b \<Rightarrow> Out' = add_mset b Out" by (auto split: option.splits)
  have r': "flow_reach k e s0 s' Q F" by (rule Suc.prems(1) [OF p])
  show ?case
  proof (cases r)
    case None
    have "fc_loop (fc_full k) e (Suc n) s = s'" by (subst fc_loop.simps) (simp add: p None)
    with r' pass_none [OF e Suc.prems(4)] p None show ?thesis by simp
  next
    case (Some b)
    have l: "fc_loop (fc_full k) e (Suc n) s = fc_loop (fc_full k) e n s'" by (subst fc_loop.simps) (simp add: p Some)
    have o: "ds_outcnt s' = int (size Out')" using 1(1) by (simp add: flow_inv_def)
    show ?thesis unfolding l
    proof (rule Suc.IH [OF _ _ o flow_inv_pre [OF 1(1)]])
      show "flow_reach k e s0 s'' Q F" if "fc_pass (fc_full k) e s' = (r, s'')" for r s''
        by (rule flow_reach.Resume [OF r' that])
      show "nat (fc_limit k - ds_outcnt s') \<le> Suc n" using Suc.prems(2,3) 1(2) Some o by simp
    qed
  qed
qed

end

subsection \<open>The objects of the module\<close>

datatype que_kind = Qfifo | Qsort

definition que_ops ::
  "que_kind \<Rightarrow> (bstore \<Rightarrow> que_data \<Rightarrow> nat \<Rightarrow> (bstore \<times> que_data) option) \<times> (bstore \<Rightarrow> que_data \<Rightarrow> nat option \<times> bstore \<times> que_data)" where
  "que_ops qk = (case qk of Qfifo \<Rightarrow> (qfifo_add, que_del) | Qsort \<Rightarrow> (qsort_add, qsort_del))"

definition flow_env :: "que_kind \<Rightarrow> ('w \<Rightarrow> nat \<Rightarrow> pkt_result \<times> 'w) \<Rightarrow> (que_data, 'w) fc_env" where
  "flow_env qk pkt = \<lparr>que_add = fst (que_ops qk), que_get = snd (que_ops qk), tgcom_pkt = pkt\<rparr>"

definition que_holds :: "que_kind \<Rightarrow> bstore \<Rightarrow> que_data \<Rightarrow> nat multiset \<Rightarrow> bool" where
  "que_holds qk = (case qk of Qfifo \<Rightarrow> fifo_holds | Qsort \<Rightarrow> scan_holds)"

interpretation que: que_object "fst (que_ops qk)" "snd (que_ops qk)" "que_holds qk" for qk
  using fifo.que_object_axioms scan.que_object_axioms by (cases qk) (simp_all add: que_ops_def que_holds_def)

lemma flow_env_fits: "fc_fits (fst (que_ops qk)) (snd (que_ops qk)) (flow_env qk pkt)"
  by (simp add: fc_fits_def flow_env_def)

definition flow_start :: "bstore \<Rightarrow> 'w \<Rightarrow> (que_data, 'w) fc_data" where
  "flow_start h w = fc_start_kstat (fc_init h que_zero w)"

lemma flow_start_inv:
  "flow_inv (que_holds qk) (fc_limit k) (flow_start h w) {#} {#}" "fc_sent (flow_start h w) = []" "ds_bp (flow_start h w) = None"
  using fifo_repr_zero [of h] scan_repr_zero [of h]
  by (auto simp: flow_inv_def flow_start_def fc_start_kstat_def fc_init_def fc_held_def kstat_ok_def ks_ok_def que_holds_def
      fifo_holds_def scan_holds_def fc_limit_def DMULT_MAXCNT_def split: que_kind.splits fc_object.splits)

text \<open>Where the two flags come from.\<close>

definition pkt_history :: "('q, 'w) fc_env \<Rightarrow> ('q, 'w) fc_data \<Rightarrow> bool" where
  "pkt_history e s \<longleftrightarrow> (\<forall>b\<in>fc_failed s. \<exists>w. fst (tgcom_pkt e w b) = Pkt_failed) \<and>
     (fc_callback s \<longrightarrow> (\<exists>w b. fst (tgcom_pkt e w b) = Pkt_callback))"

lemma pkt_history_frame:
  "fc_failed s' = fc_failed s \<Longrightarrow> fc_callback s' \<longrightarrow> fc_callback s \<Longrightarrow> pkt_history e s \<Longrightarrow> pkt_history e s'"
  by (auto simp: pkt_history_def)

lemma pkt_history_call:
  assumes "pkt_history e s"
  shows "pkt_history e (snd (call_pkt e b s))"
proof -
  obtain r w where t: "tgcom_pkt e (fc_res s) b = (r, w)" by fastforce
  have "r = Pkt_failed \<Longrightarrow> \<exists>w. fst (tgcom_pkt e w b) = Pkt_failed" "r = Pkt_callback \<Longrightarrow> \<exists>w b. fst (tgcom_pkt e w b) = Pkt_callback"
    using t by (metis fst_conv)+
  with assms t show ?thesis unfolding pkt_history_def call_pkt_def by (cases r) simp_all
qed

lemma pkt_history_fetch: "pkt_history e s \<Longrightarrow> pkt_history e (fetch_bp e s)"
  by (rule pkt_history_frame [of _ s]) (simp_all add: fetch_bp_def split: prod.splits)

lemma pkt_history_pass:
  assumes "fc_pass full e s = (r, s')" "pkt_history e s"
  shows "pkt_history e s'"
proof -
  define s1 where "s1 = (if ds_bp s = None then fetch_bp e s else s)"
  have 1: "pkt_history e s1" using assms(2) pkt_history_fetch [OF assms(2)] by (simp add: s1_def)
  show ?thesis
  proof (cases "ds_bp s1")
    case None
    with assms(1) 1 show ?thesis by (simp add: fc_pass_def Let_def s1_def [symmetric])
  next
    case (Some b)
    obtain ok s2 where c: "call_pkt e b s1 = (ok, s2)" by fastforce
    have 2: "pkt_history e s2" using pkt_history_call [OF 1, of b] c by simp
    have "pkt_history e (fetch_bp e (s2\<lparr>ds_outcnt := ds_outcnt s2 + 1\<rparr>))"
      by (rule pkt_history_fetch, rule pkt_history_frame [OF _ _ 2]) simp_all
    from pkt_history_frame [OF _ _ this]
    have "pkt_history e (call_transport b (ks_call Waitq_to_runq (fetch_bp e (s2\<lparr>ds_outcnt := ds_outcnt s2 + 1\<rparr>))))"
      by (simp add: call_transport_def)
    with assms(1) Some c 2 show ?thesis by (auto simp: fc_pass_def Let_def s1_def [symmetric] split: if_splits)
  qed
qed

lemma pkt_history_enque:
  assumes "fc_enque full e (Some b) s = Some s'" "pkt_history e s"
  shows "pkt_history e s'"
proof (cases "full s \<or> ds_bp s \<noteq> None")
  case True
  with assms(1) show ?thesis
    by (intro pkt_history_frame [OF _ _ assms(2)]) (auto simp: fc_enque_def call_add_def)
next
  case False
  let ?s0 = "ks_call Waitq_enter s"
  obtain ok s1 where c: "call_pkt e b ?s0 = (ok, s1)" by fastforce
  have "pkt_history e ?s0" by (rule pkt_history_frame [OF _ _ assms(2)]) simp_all
  from pkt_history_call [OF this, of b] c have 1: "pkt_history e s1" by simp
  with assms(1) False c show ?thesis
    by (intro pkt_history_frame [OF _ _ 1]) (auto simp: fc_enque_def Let_def call_transport_def split: if_splits)
qed

lemma pkt_history_reach: "flow_reach k e s0 s Q F \<Longrightarrow> pkt_history e s0 \<Longrightarrow> pkt_history e s"
proof (induction rule: flow_reach.induct)
  case (Finish s Q F b r s')
  have "pkt_history e (fc_done (Some b) s)"
    by (rule pkt_history_frame [OF _ _ Finish.IH [OF Finish.prems]]) (simp_all add: fc_done_def ks_finish_def)
  with Finish.hyps(3) show ?case by (rule pkt_history_pass)
next
  case (Restart s Q F r s')
  have "pkt_history e (s\<lparr>fc_callback := False\<rparr>)"
    by (rule pkt_history_frame [OF _ _ Restart.IH [OF Restart.prems]]) simp_all
  with Restart.hyps(3) show ?case by (rule pkt_history_pass)
qed (auto intro: pkt_history_enque pkt_history_pass)

text \<open>A head that is stuck stays so: with nothing outstanding and no callback, new requests only queue up behind it.\<close>

lemma flow_stuck_stays:
  assumes "fc_stuck s" "fc_enque full e (Some b) s = Some s'"
  shows "fc_stuck s' \<and> ds_bp s' = ds_bp s \<and> fc_sent s' = fc_sent s \<and> fc_callback s' = fc_callback s \<and> ds_outcnt s' = ds_outcnt s"
  using assms by (auto simp: fc_enque_def fc_stuck_def call_add_def split: option.splits)

text \<open>With a preparation that fails so, the first request is stuck at once.\<close>

lemma flow_hangs:
  "\<exists>s. fc_enque (fc_full k) (flow_env qk (\<lambda>w b. (Pkt_failed, w))) (Some b) (flow_start h w) = Some s \<and>
     fc_stuck s \<and> \<not> fc_callback s \<and> ds_outcnt s = 0"
proof -
  let ?e = "flow_env qk (\<lambda>w b. (Pkt_failed, w))"
  have n: "\<not> (fc_full k (flow_start h w) \<or> ds_bp (flow_start h w) \<noteq> None)"
    by (cases k) (simp_all add: fc_full_def dsngl_full_def dmult_full_def flow_start_def fc_start_kstat_def fc_init_def DMULT_MAXCNT_def)
  obtain s1 where s1: "call_pkt ?e b (ks_call Waitq_enter (flow_start h w)) = (False, s1)" "b \<in> fc_failed s1"
      "\<not> fc_callback s1" "ds_outcnt s1 = 0"
    by (auto simp: call_pkt_def flow_env_def flow_start_def fc_start_kstat_def fc_init_def ks_call_def)
  then show ?thesis using n by (simp add: fc_enque_def fc_stuck_def Let_def)
qed

text \<open>C33: however new requests, completions, callbacks and retries interleave, flow control loses and repeats no
  request: those accepted are waiting, outstanding or finished; what was transported is outstanding or finished; never
  more than the limit is outstanding. While a request waits, something is outstanding, so that it will be looked at
  again, or a callback is registered, or the last preparation of the request at the head failed without
  registering one, and then nothing wakes it. A callback is registered only by a preparation that does so, and a request counts
  as failed only if preparing it can fail so; where every failure registers the callback no request is left without.
  The kernel's statistics agree.\<close>

theorem flow_control_sound:
  fixes pkt :: "'w \<Rightarrow> nat \<Rightarrow> pkt_result \<times> 'w"
  assumes "flow_reach k (flow_env qk pkt) (flow_start h w) s Q F"
  shows "(\<exists>M Out. Q = M + fc_held s + Out + F \<and> mset (fc_sent s) = Out + F \<and> que_holds qk (fc_bufs s) (ds_queobj s) M \<and>
    ds_outcnt s = int (size Out) \<and> int (size Out) \<le> fc_limit k \<and>
    (M + fc_held s \<noteq> {#} \<longrightarrow> Out \<noteq> {#} \<or> fc_callback s \<or> (\<exists>b. ds_bp s = Some b \<and> b \<in> fc_failed s)) \<and>
    (M \<noteq> {#} \<longrightarrow> ds_bp s \<noteq> None \<or> fc_limit k \<le> int (size Out)) \<and>
    kstat_ok s (size (M + fc_held s)) (size Out)) \<and>
    (\<forall>b\<in>fc_failed s. \<exists>w. fst (pkt w b) = Pkt_failed) \<and> (fc_callback s \<longrightarrow> (\<exists>w b. fst (pkt w b) = Pkt_callback))"
proof -
  from que.reach_ok [OF assms flow_env_fits flow_start_inv(1) flow_start_inv(2,3)] obtain M Out where
    I: "flow_inv (que_holds qk) (fc_limit k) s M Out" "mset (fc_sent s) = Out + F" "Q = M + fc_held s + Out + F"
    by (auto simp: flow_ok_def)
  have "ds_bp s \<noteq> None \<or> M \<noteq> {#}" if "M + fc_held s \<noteq> {#}" using that by (auto simp: fc_held_def split: option.splits)
  then have w: "M + fc_held s \<noteq> {#} \<longrightarrow> Out \<noteq> {#} \<or> fc_callback s \<or> fc_stuck s"
    using I(1) fc_limit_pos [of k] by (cases "Out = {#}") (auto simp: flow_inv_def)
  have "fc_stuck s \<longleftrightarrow> (\<exists>b. ds_bp s = Some b \<and> b \<in> fc_failed s)" by (auto simp: fc_stuck_def)
  note w = w [unfolded this]
  have "pkt_history (flow_env qk pkt) (flow_start h w)"
    by (simp add: pkt_history_def flow_start_def fc_start_kstat_def fc_init_def)
  from pkt_history_reach [OF assms this]
  have "(\<forall>b\<in>fc_failed s. \<exists>w. fst (pkt w b) = Pkt_failed) \<and> (fc_callback s \<longrightarrow> (\<exists>w b. fst (pkt w b) = Pkt_callback))"
    by (simp add: pkt_history_def flow_env_def)
  with I w show ?thesis unfolding flow_inv_def by (intro conjI exI [of _ M] exI [of _ Out]) simp_all
qed

text \<open>Finishing a request starts what can be started: when \<open>deque\<close> could retake the mutex as often as the limit,
  it leaves nothing waiting, or the object full, or a callback registered, or the head stuck; it is a sequence of the sections above.\<close>

theorem flow_deque_conserving:
  fixes pkt :: "'w \<Rightarrow> nat \<Rightarrow> pkt_result \<times> 'w"
  assumes "flow_reach k (flow_env qk pkt) (flow_start h w) s Q F" "b \<in># mset (fc_sent s) - F" "nat (fc_limit k) \<le> Suc n"
  defines "s' \<equiv> fc_deque (fc_full k) (flow_env qk pkt) n (Some b) s"
  shows "flow_reach k (flow_env qk pkt) (flow_start h w) s' Q (add_mset b F) \<and>
    (ds_bp s' = None \<or> fc_callback s' \<or> fc_stuck s' \<or> fc_limit k \<le> ds_outcnt s')"
proof -
  from que.reach_ok [OF assms(1) flow_env_fits flow_start_inv(1) flow_start_inv(2,3)] obtain M Out where
    I: "flow_inv (que_holds qk) (fc_limit k) s M Out" "mset (fc_sent s) = Out + F" "Q = M + fc_held s + Out + F"
    by (auto simp: flow_ok_def)
  have b: "b \<in># Out" using assms(2) I(2) by simp
  note D = que.done_pre [OF I(1) b]
  let ?s = "fc_done (Some b) s"
  have o: "ds_outcnt ?s = int (size (Out - {#b#}))" using D(1) by (simp add: flow_pre_def)
  have "nat (fc_limit k - ds_outcnt ?s) \<le> Suc n" using assms(3) o by linarith
  from que.loop_ok [OF flow_env_fits flow_start_inv flow_reach.Finish [OF assms(1,2)] this o D(1)]
  show ?thesis by (simp add: s'_def fc_deque_def)
qed

text \<open>Three requests at the blocks 10, 20 and 30; the second is finished first.\<close>

definition flow_bufs :: bstore where
  "flow_bufs = (\<lambda>x. buf_at (10 * of_nat (Suc x)))"

definition flow_pkt :: "unit \<Rightarrow> nat \<Rightarrow> pkt_result \<times> unit" where
  "flow_pkt w b = (Pkt_ready, w)"

definition flow_enqued :: "nat list \<Rightarrow> (que_data, unit) fc_data" where
  "flow_enqued bs = fold (\<lambda>b s. the (fc_enque (fc_full Dmult) (flow_env Qsort flow_pkt) (Some b) s)) bs (flow_start flow_bufs ())"

declare scan_search.simps [code]

lemma flow_enqued_next:
  assumes "flow_reach Dmult (flow_env Qsort flow_pkt) (flow_start flow_bufs ()) (flow_enqued bs) Q {#}" "b \<notin># Q" "size Q < 9"
    "fc_enque (fc_full Dmult) (flow_env Qsort flow_pkt) (Some b) (flow_enqued bs) \<noteq> None"
  shows "flow_reach Dmult (flow_env Qsort flow_pkt) (flow_start flow_bufs ()) (flow_enqued (bs @ [b])) (add_mset b Q) {#}"
  by (rule flow_reach.Enque [OF assms(1)]) (use assms in \<open>auto simp: flow_enqued_def\<close>)

lemma flow_three: "flow_reach Dmult (flow_env Qsort flow_pkt) (flow_start flow_bufs ()) (flow_enqued [0, 1, 2]) {#0, 1, 2#} {#}"
proof -
  have 0: "flow_reach Dmult (flow_env Qsort flow_pkt) (flow_start flow_bufs ()) (flow_enqued []) {#} {#}"
    by (simp add: flow_enqued_def flow_reach.Init)
  have 1: "fc_enque (fc_full Dmult) (flow_env Qsort flow_pkt) (Some 0) (flow_enqued []) \<noteq> None"
    "fc_enque (fc_full Dmult) (flow_env Qsort flow_pkt) (Some 1) (flow_enqued [0]) \<noteq> None"
    "fc_enque (fc_full Dmult) (flow_env Qsort flow_pkt) (Some 2) (flow_enqued [0, 1]) \<noteq> None" by code_simp+
  from flow_enqued_next [OF flow_enqued_next [OF flow_enqued_next [OF 0 _ _ 1(1)], of 1], of 2] 1 show ?thesis
    by (simp add: add_mset_commute)
qed

theorem flow_control_witness:
  "\<exists>M Out. {#0, 1, 2#} = M + fc_held (flow_enqued [0, 1, 2]) + Out \<and> mset (fc_sent (flow_enqued [0, 1, 2])) = Out \<and>
     int (size Out) \<le> 2 \<and> fc_sent (flow_enqued [0, 1, 2]) = [0, 1]"
proof -
  have "fc_sent (flow_enqued [0, 1, 2]) = [0, 1]" by code_simp
  with flow_control_sound [OF flow_three] show ?thesis by (auto simp: fc_limit_def DMULT_MAXCNT_def)
qed

theorem flow_deque_witness:
  "ds_bp (fc_deque (fc_full Dmult) (flow_env Qsort flow_pkt) 2 (Some 1) (flow_enqued [0, 1, 2])) = None \<or>
   fc_callback (fc_deque (fc_full Dmult) (flow_env Qsort flow_pkt) 2 (Some 1) (flow_enqued [0, 1, 2])) \<or>
   fc_stuck (fc_deque (fc_full Dmult) (flow_env Qsort flow_pkt) 2 (Some 1) (flow_enqued [0, 1, 2])) \<or>
   2 \<le> ds_outcnt (fc_deque (fc_full Dmult) (flow_env Qsort flow_pkt) 2 (Some 1) (flow_enqued [0, 1, 2]))"
proof -
  have "fc_sent (flow_enqued [0, 1, 2]) = [0, 1]" by code_simp
  then have b: "1 \<in># mset (fc_sent (flow_enqued [0, 1, 2])) - {#}" by simp
  from flow_deque_conserving [OF flow_three b, of 2] show ?thesis by (simp add: fc_limit_def DMULT_MAXCNT_def)
qed

end
