(* ===== verification/Strat_Duplex.thy ===== *)
theory Strat_Duplex
  imports Strat_Flow
begin

text \<open>
  The duplex flow control object (\<open>duplx_*\<close> of \<open>strategy.c\<close>): reads and writes wait in queue objects of their own, each
  with a limit of its own, and are started in turn. As in \<open>Strat_Flow\<close> the unit of interleaving is the section under the
  mutex, and the number of successful \<open>mutex_tryenter\<close> calls is an argument. The two queues share one store of
  buffers; the locale \<open>two_queues\<close> puts two \<open>que_object\<close>s side by side.
\<close>

subsection \<open>The object\<close>

datatype dx_dir = Readq | Writeq

fun dx_next :: "dx_dir \<Rightarrow> dx_dir" where
  "dx_next Readq = Writeq"
| "dx_next Writeq = Readq"

record 'q fc_que =
  fc_qobjp :: 'q
  fc_bp :: "nat option"
  fc_outcnt :: int
  fc_maxcnt :: int

record ('q, 'w) duplx_data =
  dx_bufs :: bstore
  dx_que :: "dx_dir \<Rightarrow> 'q fc_que"
  dx_kstat :: "kstat_io option"
  dx_callback :: bool
  dx_failed :: "nat set"
  dx_sent :: "nat list"
  dx_res :: 'w

record ('q, 'w) dx_env =
  dx_add :: "dx_dir \<Rightarrow> bstore \<Rightarrow> 'q \<Rightarrow> nat \<Rightarrow> (bstore \<times> 'q) option"
  dx_get :: "dx_dir \<Rightarrow> bstore \<Rightarrow> 'q \<Rightarrow> nat option \<times> bstore \<times> 'q"
  dx_pkt :: "'w \<Rightarrow> nat \<Rightarrow> pkt_result \<times> 'w"

definition DUPLX_MAXCNT :: int where "DUPLX_MAXCNT = 2"

definition duplx_init :: "bstore \<Rightarrow> 'q \<Rightarrow> 'q \<Rightarrow> 'w \<Rightarrow> ('q, 'w) duplx_data" where
  "duplx_init h readq writeq w =
     \<lparr>dx_bufs = h,
      dx_que = (\<lambda>d. \<lparr>fc_qobjp = (case d of Readq \<Rightarrow> readq | Writeq \<Rightarrow> writeq), fc_bp = None, fc_outcnt = 0,
                       fc_maxcnt = DUPLX_MAXCNT\<rparr>),
      dx_kstat = None, dx_callback = False, dx_failed = {}, dx_sent = [], dx_res = w\<rparr>"

definition upd_que :: "dx_dir \<Rightarrow> ('q fc_que \<Rightarrow> 'q fc_que) \<Rightarrow> ('q, 'w) duplx_data \<Rightarrow> ('q, 'w) duplx_data" where
  "upd_que d f s = s\<lparr>dx_que := (dx_que s)(d := f (dx_que s d))\<rparr>"

definition dx_ks :: "(kstat_io \<Rightarrow> kstat_io) \<Rightarrow> ('q, 'w) duplx_data \<Rightarrow> ('q, 'w) duplx_data" where
  "dx_ks f s = s\<lparr>dx_kstat := map_option f (dx_kstat s)\<rparr>"

definition ks_log :: "kstat_call \<Rightarrow> kstat_io \<Rightarrow> kstat_io" where
  "ks_log c k = k\<lparr>ks_calls := ks_calls k @ [c]\<rparr>"

definition dx_call_pkt :: "('q, 'w) dx_env \<Rightarrow> nat \<Rightarrow> ('q, 'w) duplx_data \<Rightarrow> bool \<times> ('q, 'w) duplx_data" where
  "dx_call_pkt e bp s =
    (case dx_pkt e (dx_res s) bp of
       (r, w) \<Rightarrow> (r = Pkt_ready,
         s\<lparr>dx_res := w, dx_callback := (dx_callback s \<or> r = Pkt_callback),
           dx_failed := (if r = Pkt_failed then insert bp (dx_failed s) else dx_failed s - {bp})\<rparr>))"

text \<open>\<open>fc_bp = QUE_DEL\<close>\<close>

definition dx_fetch :: "('q, 'w) dx_env \<Rightarrow> dx_dir \<Rightarrow> ('q, 'w) duplx_data \<Rightarrow> ('q, 'w) duplx_data" where
  "dx_fetch e d s =
    (case dx_get e d (dx_bufs s) (fc_qobjp (dx_que s d)) of
       (b, h, q) \<Rightarrow> upd_que d (\<lambda>r. r\<lparr>fc_qobjp := q, fc_bp := b\<rparr>) (s\<lparr>dx_bufs := h\<rparr>))"

text \<open>The test made on one queue, then on the other: a request, a packet for it, and room.\<close>

definition dx_try :: "('q, 'w) dx_env \<Rightarrow> dx_dir \<Rightarrow> ('q, 'w) duplx_data \<Rightarrow> nat option \<times> ('q, 'w) duplx_data" where
  "dx_try e d s =
    (let s = (if fc_bp (dx_que s d) = None then dx_fetch e d s else s)
     in case fc_bp (dx_que s d) of
          None \<Rightarrow> (None, s)
        | Some bp \<Rightarrow>
            (let (ok, s) = dx_call_pkt e bp s
             in if \<not> ok \<or> fc_outcnt (dx_que s d) \<ge> fc_maxcnt (dx_que s d) then (None, s) else (Some bp, s)))"

definition dx_start :: "dx_dir \<Rightarrow> nat \<Rightarrow> ('q, 'w) duplx_data \<Rightarrow> ('q, 'w) duplx_data" where
  "dx_start d bp s =
    (let s = upd_que d (\<lambda>r. r\<lparr>fc_outcnt := fc_outcnt r + 1, fc_bp := None\<rparr>) s;
         s = dx_ks (ks_log Waitq_to_runq) s
     in s\<lparr>dx_sent := dx_sent s @ [bp]\<rparr>)"

text \<open>One pass of the loop: the queue that started a request, if one did.\<close>

definition dx_pass :: "('q, 'w) dx_env \<Rightarrow> dx_dir \<Rightarrow> ('q, 'w) duplx_data \<Rightarrow> dx_dir option \<times> ('q, 'w) duplx_data" where
  "dx_pass e d s =
    (case dx_try e d s of
       (Some bp, s) \<Rightarrow> (Some d, dx_start d bp s)
     | (None, s) \<Rightarrow>
         (let d = dx_next d
          in case dx_try e d s of
               (Some bp, s) \<Rightarrow> (Some d, dx_start d bp s)
             | (None, s) \<Rightarrow> (None, s)))"

fun dx_loop :: "('q, 'w) dx_env \<Rightarrow> nat \<Rightarrow> dx_dir \<Rightarrow> ('q, 'w) duplx_data \<Rightarrow> ('q, 'w) duplx_data" where
  "dx_loop e n d s =
    (case dx_pass e d s of
       (None, s) \<Rightarrow> s
     | (Some d, s) \<Rightarrow> (case n of 0 \<Rightarrow> s | Suc n \<Rightarrow> dx_loop e n (dx_next d) s))"

declare dx_loop.simps [simp del]

definition dx_of :: "buf \<Rightarrow> dx_dir" where
  "dx_of b = (if b_read b then Readq else Writeq)"

text \<open>Up to the loop: the queue to start with.\<close>

definition duplx_accept :: "('q, 'w) dx_env \<Rightarrow> nat option \<Rightarrow> ('q, 'w) duplx_data \<Rightarrow> (dx_dir \<times> ('q, 'w) duplx_data) option" where
  "duplx_accept e in_bp s =
    (case in_bp of
       None \<Rightarrow> Some (Readq, s)
     | Some bp \<Rightarrow>
         (let s = dx_ks (ks_log Waitq_enter) s;
              d = dx_of (dx_bufs s bp)
          in map_option (\<lambda>(h, q). (d, upd_que d (\<lambda>r. r\<lparr>fc_qobjp := q\<rparr>) (s\<lparr>dx_bufs := h\<rparr>)))
               (dx_add e d (dx_bufs s) (fc_qobjp (dx_que s d)) bp)))"

definition duplx_enque :: "('q, 'w) dx_env \<Rightarrow> nat \<Rightarrow> nat option \<Rightarrow> ('q, 'w) duplx_data \<Rightarrow> ('q, 'w) duplx_data option" where
  "duplx_enque e n in_bp s = map_option (\<lambda>(d, s). dx_loop e n d s) (duplx_accept e in_bp s)"

definition duplx_finish :: "nat \<Rightarrow> ('q, 'w) duplx_data \<Rightarrow> ('q, 'w) duplx_data" where
  "duplx_finish bp s =
    (let s = upd_que (dx_of (dx_bufs s bp)) (\<lambda>r. r\<lparr>fc_outcnt := fc_outcnt r - 1\<rparr>) s
     in dx_ks (ks_log Runq_exit) (dx_ks (ks_count (dx_bufs s bp)) s))"

definition duplx_deque :: "('q, 'w) dx_env \<Rightarrow> nat \<Rightarrow> nat \<Rightarrow> ('q, 'w) duplx_data \<Rightarrow> ('q, 'w) duplx_data" where
  "duplx_deque e n bp s = dx_loop e n (dx_of (dx_bufs s bp)) (duplx_finish bp s)"

definition duplx_restart :: "('q, 'w) dx_env \<Rightarrow> nat \<Rightarrow> ('q, 'w) duplx_data \<Rightarrow> ('q, 'w) duplx_data option" where
  "duplx_restart e n s = duplx_enque e n None s"

subsection \<open>The invariant\<close>

definition dx_held :: "('q, 'w) duplx_data \<Rightarrow> dx_dir \<Rightarrow> nat multiset" where
  "dx_held s d = (case fc_bp (dx_que s d) of None \<Rightarrow> {#} | Some b \<Rightarrow> {#b#})"

text \<open>Waiting in queue \<open>d\<close>, with the one at its head; a sum over both.\<close>

definition dx_wait :: "('q, 'w) duplx_data \<Rightarrow> (dx_dir \<Rightarrow> nat multiset) \<Rightarrow> dx_dir \<Rightarrow> nat multiset" where
  "dx_wait s M d = M d + dx_held s d"

definition dx_both :: "(dx_dir \<Rightarrow> nat multiset) \<Rightarrow> nat multiset" where
  "dx_both f = f Readq + f Writeq"

definition dx_kstat_ok :: "('q, 'w) duplx_data \<Rightarrow> nat \<Rightarrow> nat \<Rightarrow> bool" where
  "dx_kstat_ok s w r \<longleftrightarrow> (case dx_kstat s of None \<Rightarrow> True | Some k \<Rightarrow> ks_ok k w r)"

definition dx_inv ::
  "(dx_dir \<Rightarrow> bstore \<Rightarrow> 'q \<Rightarrow> nat multiset \<Rightarrow> bool) \<Rightarrow> ('q, 'w) duplx_data \<Rightarrow> (dx_dir \<Rightarrow> nat multiset) \<Rightarrow> (dx_dir \<Rightarrow> nat multiset) \<Rightarrow> bool" where
  "dx_inv repr s M Out \<longleftrightarrow>
     (\<forall>d. repr d (dx_bufs s) (fc_qobjp (dx_que s d)) (M d)) \<and>
     (\<forall>x. count (dx_both (dx_wait s M) + dx_both Out) x \<le> 1) \<and>
     (\<forall>d. fc_outcnt (dx_que s d) = int (size (Out d)) \<and> int (size (Out d)) \<le> DUPLX_MAXCNT \<and> fc_maxcnt (dx_que s d) = DUPLX_MAXCNT) \<and>
     (\<forall>d. \<forall>x\<in>#dx_wait s M d + Out d. dx_of (dx_bufs s x) = d) \<and>
     dx_kstat_ok s (size (dx_both (dx_wait s M))) (size (dx_both Out))"

text \<open>The last preparation of the request at the head of queue \<open>d\<close> failed and registered no callback. Otherwise what waits
  will be looked at again.\<close>

definition dx_stuck :: "('q, 'w) duplx_data \<Rightarrow> dx_dir \<Rightarrow> bool" where
  "dx_stuck s d \<longleftrightarrow> fc_bp (dx_que s d) \<in> Some ` dx_failed s"

definition dx_live :: "('q, 'w) duplx_data \<Rightarrow> (dx_dir \<Rightarrow> nat multiset) \<Rightarrow> (dx_dir \<Rightarrow> nat multiset) \<Rightarrow> bool" where
  "dx_live s M Out \<longleftrightarrow> (dx_both (dx_wait s M) \<noteq> {#} \<longrightarrow> dx_both Out \<noteq> {#} \<or> dx_callback s \<or> (\<exists>d. dx_stuck s d))"

lemma dx_dir_all: "(\<forall>d. P d) \<longleftrightarrow> P Readq \<and> P Writeq"
  by (metis dx_dir.exhaust)

lemma upd_que_simps [simp]:
  "dx_bufs (upd_que d f s) = dx_bufs s" "dx_kstat (upd_que d f s) = dx_kstat s" "dx_callback (upd_que d f s) = dx_callback s"
  "dx_sent (upd_que d f s) = dx_sent s" "dx_failed (upd_que d f s) = dx_failed s" "dx_res (upd_que d f s) = dx_res s" "dx_que (upd_que d f s) d' = (if d' = d then f (dx_que s d) else dx_que s d')"
  by (simp_all add: upd_que_def)

lemma dx_ks_simps [simp]:
  "dx_bufs (dx_ks f s) = dx_bufs s" "dx_que (dx_ks f s) = dx_que s" "dx_callback (dx_ks f s) = dx_callback s"
  "dx_sent (dx_ks f s) = dx_sent s" "dx_failed (dx_ks f s) = dx_failed s" "dx_held (dx_ks f s) = dx_held s" "dx_wait (dx_ks f s) M = dx_wait s M"
  by (simp_all add: dx_ks_def dx_held_def dx_wait_def fun_eq_iff)

lemma dx_call_pkt_simps:
  "dx_bufs (snd (dx_call_pkt e b s)) = dx_bufs s" "dx_que (snd (dx_call_pkt e b s)) = dx_que s"
  "dx_kstat (snd (dx_call_pkt e b s)) = dx_kstat s" "dx_sent (snd (dx_call_pkt e b s)) = dx_sent s"
  "\<not> fst (dx_call_pkt e b s) \<Longrightarrow> dx_callback (snd (dx_call_pkt e b s)) \<or> b \<in> dx_failed (snd (dx_call_pkt e b s))"
  "dx_callback s \<Longrightarrow> dx_callback (snd (dx_call_pkt e b s))"
  "dx_failed s - {b} \<subseteq> dx_failed (snd (dx_call_pkt e b s))"
  by (auto simp: dx_call_pkt_def split: prod.splits) (metis pkt_result.exhaust)+

lemma dx_inv_cong:
  assumes "dx_inv repr s M Out" "dx_bufs s' = dx_bufs s" "dx_que s' = dx_que s" "dx_kstat s' = dx_kstat s"
  shows "dx_inv repr s' M Out" "dx_wait s' M = dx_wait s M"
proof -
  show w: "dx_wait s' M = dx_wait s M" by (simp add: fun_eq_iff dx_wait_def dx_held_def assms(3))
  have "dx_kstat_ok s' = dx_kstat_ok s" by (simp add: fun_eq_iff dx_kstat_ok_def assms(4))
  with w assms show "dx_inv repr s' M Out" by (simp add: dx_inv_def)
qed

subsection \<open>Two queue objects over one store\<close>

locale two_queues =
  fixes add :: "dx_dir \<Rightarrow> bstore \<Rightarrow> 'q \<Rightarrow> nat \<Rightarrow> (bstore \<times> 'q) option"
    and del :: "dx_dir \<Rightarrow> bstore \<Rightarrow> 'q \<Rightarrow> nat option \<times> bstore \<times> 'q"
    and repr :: "dx_dir \<Rightarrow> bstore \<Rightarrow> 'q \<Rightarrow> nat multiset \<Rightarrow> bool"
  assumes object: "que_object (add d) (del d) (repr d)"
begin

definition fits :: "('q, 'w) dx_env \<Rightarrow> bool" where
  "fits e \<longleftrightarrow> dx_add e = add \<and> dx_get e = del"

lemma other_members:
  assumes "\<forall>x. count (dx_both f + g) x \<le> (1 :: nat)" "d \<noteq> d'" "x \<in># f d'"
  shows "x \<notin># f d"
proof
  assume "x \<in># f d"
  then have "1 \<le> count (f d) x" "1 \<le> count (f d') x" using assms(3) by (simp_all add: Suc_le_eq)
  moreover have "count (f d) x + count (f d') x \<le> count (dx_both f + g) x"
    using assms(2) by (cases d; cases d'; simp add: dx_both_def)
  ultimately show False using assms(1) [rule_format, of x] by linarith
qed

text \<open>The head of a queue is fetched: what waits stays the same.\<close>

lemma fetch_inv:
  assumes e: "fits e" and inv: "dx_inv repr s M Out" and n: "fc_bp (dx_que s d) = None"
  shows "\<exists>M'. dx_inv repr (dx_fetch e d s) M' Out \<and> dx_wait (dx_fetch e d s) M' = dx_wait s M \<and>
    (fc_bp (dx_que (dx_fetch e d s) d) = None \<longrightarrow> M' d = {#}) \<and> (\<forall>d'. d' \<noteq> d \<longrightarrow> M' d' = M d' \<and> dx_que (dx_fetch e d s) d' = dx_que s d') \<and>
    dx_sent (dx_fetch e d s) = dx_sent s \<and> dx_callback (dx_fetch e d s) = dx_callback s \<and> dx_failed (dx_fetch e d s) = dx_failed s"
proof -
  let ?q = "dx_que s d"
  have r: "repr d' (dx_bufs s) (fc_qobjp (dx_que s d')) (M d')" for d' using inv by (simp add: dx_inv_def)
  have get: "dx_get e = del" using e by (simp add: fits_def)
  show ?thesis
  proof (rule que_object.del_cases [OF object r [of d]], goal_cases)
    case 1
    have "(dx_que s)(d := ?q\<lparr>fc_qobjp := fc_qobjp ?q, fc_bp := None\<rparr>) = dx_que s" using n by (simp add: fun_eq_iff)
    with 1 have "dx_fetch e d s = s" by (simp add: dx_fetch_def get upd_que_def)
    with inv 1 show ?case by (intro exI [of _ M]) simp
  next
    case (2 bp h q)
    let ?s = "dx_fetch e d s" and ?M = "M(d := M d - {#bp#})"
    have s': "?s = upd_que d (\<lambda>r. r\<lparr>fc_qobjp := q, fc_bp := Some bp\<rparr>) (s\<lparr>dx_bufs := h\<rparr>)" by (simp add: dx_fetch_def get 2(2))
    have w: "dx_wait ?s ?M = dx_wait s M" using 2(1) n by (auto simp: fun_eq_iff dx_wait_def dx_held_def s')
    have k: "dx_of (h x) = dx_of (dx_bufs s x)" for x using links_only_fields(2) [OF touches_links [OF 2(4)]] by (simp add: dx_of_def)
    have "repr d' h (fc_qobjp (dx_que s d')) (M d')" if "d' \<noteq> d" for d'
    proof (rule que_object.repr_cong [OF object r])
      fix x assume "x \<in># M d'"
      then have "x \<in># dx_wait s M d'" by (simp add: dx_wait_def)
      with other_members [of "dx_wait s M" "dx_both Out" d d' x] that inv have "x \<notin># dx_wait s M d"
        unfolding dx_inv_def by blast
      then have "x \<notin># M d" by (simp add: dx_wait_def)
      then show "h x = dx_bufs s x" by (intro touches_same [OF 2(4)]) simp
    qed
    with 2(3) have rp: "\<forall>d'. repr d' (dx_bufs ?s) (fc_qobjp (dx_que ?s d')) (?M d')" by (simp add: s')
    have ks: "dx_kstat_ok ?s = dx_kstat_ok s" by (simp add: fun_eq_iff dx_kstat_ok_def s')
    have "dx_inv repr ?s ?M Out"
      using inv rp unfolding dx_inv_def w ks by (simp add: s' k)
    with w show ?case by (intro exI [of _ ?M]) (simp add: s')
  qed
qed

text \<open>Trying one queue.\<close>

lemma try_inv:
  assumes e: "fits e" and inv: "dx_inv repr s M Out" and t: "dx_try e d s = (r, s')"
  shows "\<exists>M'. dx_inv repr s' M' Out \<and> dx_wait s' M' = dx_wait s M \<and> dx_sent s' = dx_sent s \<and> (dx_callback s \<longrightarrow> dx_callback s') \<and>
    (\<forall>d'. d' \<noteq> d \<and> dx_stuck s d' \<longrightarrow> dx_stuck s' d') \<and>
    (case r of
       None \<Rightarrow> dx_wait s' M' d = {#} \<or> dx_callback s' \<or> dx_stuck s' d \<or> size (Out d) = nat DUPLX_MAXCNT
     | Some bp \<Rightarrow> fc_bp (dx_que s' d) = Some bp \<and> size (Out d) < nat DUPLX_MAXCNT)"
proof -
  define s1 where "s1 = (if fc_bp (dx_que s d) = None then dx_fetch e d s else s)"
  have "\<exists>M1. dx_inv repr s1 M1 Out \<and> dx_wait s1 M1 = dx_wait s M \<and> (fc_bp (dx_que s1 d) = None \<longrightarrow> M1 d = {#}) \<and>
      dx_sent s1 = dx_sent s \<and> dx_callback s1 = dx_callback s \<and> (\<forall>d'. d' \<noteq> d \<and> dx_stuck s d' \<longrightarrow> dx_stuck s1 d')"
  proof (cases "fc_bp (dx_que s d) = None")
    case True
    from fetch_inv [OF e inv True] True show ?thesis by (auto simp: s1_def dx_stuck_def)
  next
    case False
    then have "s1 = s" unfolding s1_def by (rule if_not_P)
    from False obtain b where "fc_bp (dx_que s d) = Some b" by blast
    with \<open>s1 = s\<close> inv show ?thesis by (intro exI [of _ M]) simp
  qed
  then obtain M1 where 1: "dx_inv repr s1 M1 Out" "dx_wait s1 M1 = dx_wait s M" "fc_bp (dx_que s1 d) = None \<longrightarrow> M1 d = {#}"
    "dx_sent s1 = dx_sent s" "dx_callback s1 = dx_callback s" "\<forall>d'. d' \<noteq> d \<and> dx_stuck s d' \<longrightarrow> dx_stuck s1 d'" by (elim exE conjE)
  show ?thesis
  proof (cases "fc_bp (dx_que s1 d)")
    case None
    then have "r = None" "s' = s1" using t by (auto simp: dx_try_def s1_def Let_def)
    moreover have "dx_wait s1 M1 d = {#}" using 1(3) None by (simp add: dx_wait_def dx_held_def)
    ultimately show ?thesis using 1 by (intro exI [of _ M1]) simp
  next
    case (Some b)
    obtain ok s2 where c: "dx_call_pkt e b s1 = (ok, s2)" by fastforce
    note f = dx_call_pkt_simps [where e = e and b = b and s = s1, unfolded c snd_conv fst_conv]
    note 2 = dx_inv_cong [OF 1(1) f(1-3)]
    have others: "\<forall>d'. d' \<noteq> d \<and> dx_stuck s d' \<longrightarrow> dx_stuck s2 d'"
    proof (intro allI impI)
      fix d' assume d': "d' \<noteq> d \<and> dx_stuck s d'"
      then have "dx_stuck s1 d'" using 1(6) by blast
      then obtain a where a: "fc_bp (dx_que s1 d') = Some a" "a \<in> dx_failed s1" by (auto simp: dx_stuck_def)
      have "a \<in># dx_wait s1 M1 d'" "b \<in># dx_wait s1 M1 d" using a(1) Some by (simp_all add: dx_wait_def dx_held_def)
      then have "dx_of (dx_bufs s1 a) = d'" "dx_of (dx_bufs s1 b) = d" using 1(1) by (simp_all add: dx_inv_def)
      then have "a \<noteq> b" using d' by auto
      then show "dx_stuck s2 d'" using a f(2,7) by (auto simp: dx_stuck_def)
    qed
    have n: "fc_outcnt (dx_que s2 d) = int (size (Out d))" "int (size (Out d)) \<le> DUPLX_MAXCNT" "fc_maxcnt (dx_que s2 d) = DUPLX_MAXCNT"
      using 2(1) by (simp_all add: dx_inv_def)
    show ?thesis
    proof (cases "\<not> ok \<or> fc_outcnt (dx_que s2 d) \<ge> fc_maxcnt (dx_que s2 d)")
      case True
      then have "r = None" "s' = s2" using t Some c by (auto simp: dx_try_def s1_def Let_def)
      moreover have "dx_callback s2 \<or> dx_stuck s2 d \<or> size (Out d) = nat DUPLX_MAXCNT"
        using True n f(2,5) Some by (auto simp: dx_stuck_def)
      ultimately show ?thesis using 1 2 f(4,6) others by (intro exI [of _ M1]) simp
    next
      case False
      then have "r = Some b" "s' = s2" using t Some c by (auto simp: dx_try_def s1_def Let_def)
      moreover have "size (Out d) < nat DUPLX_MAXCNT" using False n by linarith
      ultimately show ?thesis using 1 2 f(2,4,6) Some others by (intro exI [of _ M1]) simp
    qed
  qed
qed

text \<open>Starting the request at the head.\<close>

lemma start_inv:
  assumes inv: "dx_inv repr s M Out" and b: "fc_bp (dx_que s d) = Some b" "size (Out d) < nat DUPLX_MAXCNT"
  shows "dx_inv repr (dx_start d b s) M (Out(d := add_mset b (Out d)))"
    "dx_wait (dx_start d b s) M d + {#b#} = dx_wait s M d" "d' \<noteq> d \<Longrightarrow> dx_wait (dx_start d b s) M d' = dx_wait s M d'"
    "dx_sent (dx_start d b s) = dx_sent s @ [b]" "dx_callback (dx_start d b s) = dx_callback s"
proof -
  let ?s = "dx_start d b s" and ?O = "Out(d := add_mset b (Out d))"
  have s': "dx_bufs ?s = dx_bufs s" "dx_que ?s = (dx_que s)(d := (dx_que s d)\<lparr>fc_outcnt := fc_outcnt (dx_que s d) + 1, fc_bp := None\<rparr>)"
    "dx_kstat ?s = map_option (ks_log Waitq_to_runq) (dx_kstat s)"
    by (simp_all add: dx_start_def Let_def fun_eq_iff, simp_all add: dx_ks_def upd_que_def)
  show w: "dx_wait ?s M d + {#b#} = dx_wait s M d" using b(1) by (simp add: dx_wait_def dx_held_def s')
  show w': "d' \<noteq> d \<Longrightarrow> dx_wait ?s M d' = dx_wait s M d'" for d' by (simp add: dx_wait_def dx_held_def s')
  show "dx_sent ?s = dx_sent s @ [b]" "dx_callback ?s = dx_callback s" by (simp_all add: dx_start_def Let_def)
  have tot: "dx_both (dx_wait ?s M) + {#b#} = dx_both (dx_wait s M)" "dx_both ?O = add_mset b (dx_both Out)"
    using w w' [of "dx_next d"] by (cases d; simp add: dx_both_def ac_simps)+
  have sum: "dx_both (dx_wait ?s M) + dx_both ?O = dx_both (dx_wait s M) + dx_both Out"
    unfolding tot(1) [symmetric] tot(2) by simp
  have mem: "dx_wait ?s M d' + ?O d' = dx_wait s M d' + Out d'" for d' using w w' [of d'] by (cases "d' = d") (auto simp: ac_simps)
  have sz: "size (dx_both (dx_wait s M)) = Suc (size (dx_both (dx_wait ?s M)))" "size (dx_both ?O) = Suc (size (dx_both Out))"
    unfolding tot(1) [symmetric] tot(2) by simp_all
  have "dx_kstat_ok ?s (size (dx_both (dx_wait ?s M))) (size (dx_both ?O))"
    using inv unfolding dx_inv_def sz dx_kstat_ok_def s'(3)
    by (auto simp: ks_ok_def ks_log_def split: option.splits)
  with inv b(2) show "dx_inv repr ?s M ?O"
    unfolding dx_inv_def sum mem by (auto simp: s' DUPLX_MAXCNT_def)
qed

text \<open>One pass: something is started, or nothing can be.\<close>

lemma pass_inv:
  assumes e: "fits e" and inv: "dx_inv repr s M Out" and p: "dx_pass e d s = (r, s')"
  shows "\<exists>M' Out'. dx_inv repr s' M' Out' \<and> dx_live s' M' Out' \<and>
    (case r of
       None \<Rightarrow> Out' = Out \<and> dx_wait s' M' = dx_wait s M \<and> dx_sent s' = dx_sent s \<and>
         (\<forall>d. dx_wait s' M' d = {#} \<or> dx_callback s' \<or> dx_stuck s' d \<or> size (Out' d) = nat DUPLX_MAXCNT)
     | Some d' \<Rightarrow> \<exists>b. Out' = Out(d' := add_mset b (Out d')) \<and> dx_both (dx_wait s' M') + {#b#} = dx_both (dx_wait s M) \<and>
         dx_sent s' = dx_sent s @ [b])"
proof -
  have started: "\<exists>M' Out'. dx_inv repr s' M' Out' \<and> dx_live s' M' Out' \<and>
      (\<exists>b. Out' = Out(d' := add_mset b (Out d')) \<and> dx_both (dx_wait s' M') + {#b#} = dx_both (dx_wait s M) \<and>
         dx_sent s' = dx_sent s @ [b])"
    if "dx_inv repr s1 M1 Out" "dx_wait s1 M1 = dx_wait s M" "dx_sent s1 = dx_sent s" "fc_bp (dx_que s1 d') = Some b"
      "size (Out d') < nat DUPLX_MAXCNT" "s' = dx_start d' b s1" for s1 M1 d' b
  proof -
    note S = start_inv [OF that(1,4,5)]
    have "dx_both (dx_wait s' M1) + {#b#} = dx_both (dx_wait s M)"
      using S(2) S(3) [of "dx_next d'"] that(2,6) by (cases d') (simp_all add: dx_both_def ac_simps)
    moreover have "dx_live s' M1 (Out(d' := add_mset b (Out d')))" by (cases d') (simp_all add: dx_live_def dx_both_def)
    ultimately show ?thesis
      using S(1,4) that(3,6) by (intro exI [of _ M1] exI [of _ "Out(d' := add_mset b (Out d'))"]) auto
  qed
  obtain r1 s1 where t1: "dx_try e d s = (r1, s1)" by fastforce
  from try_inv [OF e inv t1] obtain M1 where 1: "dx_inv repr s1 M1 Out" "dx_wait s1 M1 = dx_wait s M" "dx_sent s1 = dx_sent s"
    "case r1 of None \<Rightarrow> dx_wait s1 M1 d = {#} \<or> dx_callback s1 \<or> dx_stuck s1 d \<or> size (Out d) = nat DUPLX_MAXCNT
     | Some bp \<Rightarrow> fc_bp (dx_que s1 d) = Some bp \<and> size (Out d) < nat DUPLX_MAXCNT" by blast
  show ?thesis
  proof (cases r1)
    case (Some b)
    with p t1 have "r = Some d" "s' = dx_start d b s1" by (auto simp: dx_pass_def)
    with started [OF 1(1-3), of d b] 1(4) Some show ?thesis by auto
  next
    case None
    obtain r2 s2 where t2: "dx_try e (dx_next d) s1 = (r2, s2)" by fastforce
    from try_inv [OF e 1(1) t2] obtain M2 where 2: "dx_inv repr s2 M2 Out" "dx_wait s2 M2 = dx_wait s1 M1" "dx_sent s2 = dx_sent s1"
      "dx_callback s1 \<longrightarrow> dx_callback s2" "\<forall>d'. d' \<noteq> dx_next d \<and> dx_stuck s1 d' \<longrightarrow> dx_stuck s2 d'"
      "case r2 of None \<Rightarrow> dx_wait s2 M2 (dx_next d) = {#} \<or> dx_callback s2 \<or> dx_stuck s2 (dx_next d) \<or> size (Out (dx_next d)) = nat DUPLX_MAXCNT
       | Some bp \<Rightarrow> fc_bp (dx_que s2 (dx_next d)) = Some bp \<and> size (Out (dx_next d)) < nat DUPLX_MAXCNT" by blast
    show ?thesis
    proof (cases r2)
      case (Some b)
      with p t1 t2 None have "r = Some (dx_next d)" "s' = dx_start (dx_next d) b s2" by (auto simp: dx_pass_def Let_def)
      with started [OF 2(1), of "dx_next d" b] 1 2 Some show ?thesis by auto
    next
      case n2: None
      with p t1 t2 None have r: "r = None" "s' = s2" by (auto simp: dx_pass_def Let_def)
      have each: "\<forall>d. dx_wait s2 M2 d = {#} \<or> dx_callback s2 \<or> dx_stuck s2 d \<or> size (Out d) = nat DUPLX_MAXCNT"
        using 1(4) 2(2,4-6) None n2 by (cases d) (auto simp: dx_dir_all)
      have "dx_live s2 M2 Out"
        using each unfolding dx_live_def dx_dir_all dx_both_def by (auto simp: DUPLX_MAXCNT_def)
      with r each 1 2 show ?thesis by (intro exI [of _ M2] exI [of _ Out]) simp
    qed
  qed
qed

text \<open>A completion, and a new request.\<close>

lemma finish_inv:
  assumes inv: "dx_inv repr s M Out" and b: "b \<in># Out d"
  shows "dx_inv repr (duplx_finish b s) M (Out(d := Out d - {#b#}))" "dx_of (dx_bufs s b) = d"
    "dx_wait (duplx_finish b s) M = dx_wait s M" "dx_sent (duplx_finish b s) = dx_sent s"
proof -
  let ?s = "duplx_finish b s" and ?O = "Out(d := Out d - {#b#})"
  show d: "dx_of (dx_bufs s b) = d" using inv b by (auto simp: dx_inv_def)
  have s': "dx_bufs ?s = dx_bufs s" "dx_que ?s = (dx_que s)(d := (dx_que s d)\<lparr>fc_outcnt := fc_outcnt (dx_que s d) - 1\<rparr>)"
    "dx_kstat ?s = map_option (ks_log Runq_exit) (map_option (ks_count (dx_bufs s b)) (dx_kstat s))"
    using d by (simp_all add: duplx_finish_def Let_def fun_eq_iff, simp_all add: dx_ks_def upd_que_def)
  show w: "dx_wait ?s M = dx_wait s M" by (simp add: fun_eq_iff dx_wait_def dx_held_def s')
  show "dx_sent ?s = dx_sent s" by (simp add: duplx_finish_def Let_def)
  have tot: "dx_both Out = add_mset b (dx_both ?O)" using b by (cases d) (simp_all add: dx_both_def)
  have sz: "size (Out d) = Suc (size (Out d - {#b#}))" using b by (metis size_Suc_Diff1)
  have "dx_kstat_ok ?s (size (dx_both (dx_wait s M))) (size (dx_both ?O))"
    using inv unfolding dx_inv_def dx_kstat_ok_def s'(3) tot
    by (auto simp: ks_ok_def ks_log_def ks_count_def split: option.splits)
  moreover have "\<forall>x. count (dx_both (dx_wait s M) + dx_both ?O) x \<le> 1"
  proof
    fix x
    have "count (dx_both (dx_wait s M) + dx_both Out) x \<le> 1" using inv by (simp add: dx_inv_def)
    then show "count (dx_both (dx_wait s M) + dx_both ?O) x \<le> 1" by (simp add: tot split: if_splits)
  qed
  moreover have "int (size (Out d)) \<le> DUPLX_MAXCNT" "fc_outcnt (dx_que s d) = int (size (Out d))"
    using inv unfolding dx_inv_def by blast+
  moreover have "\<forall>d'. \<forall>x\<in>#dx_wait s M d' + ?O d'. dx_of (dx_bufs s x) = d'"
    using inv unfolding dx_inv_def by (auto dest: in_diffD)
  ultimately show "dx_inv repr ?s M ?O"
    using inv sz unfolding dx_inv_def w by (simp add: s')
qed

lemma accept_inv:
  assumes e: "fits e" and inv: "dx_inv repr s M Out"
    and b: "b \<notin># dx_both (dx_wait s M) + dx_both Out" "\<forall>d. size (M d) + 1 < 2 ^ 64"
  shows "\<exists>s' M'. duplx_accept e (Some b) s = Some (dx_of (dx_bufs s b), s') \<and> dx_inv repr s' M' Out \<and>
    dx_both (dx_wait s' M') = add_mset b (dx_both (dx_wait s M)) \<and> dx_sent s' = dx_sent s"
proof -
  obtain d where d: "dx_of (dx_bufs s b) = d" by blast
  have r: "repr d' (dx_bufs s) (fc_qobjp (dx_que s d')) (M d')" for d' using inv by (simp add: dx_inv_def)
  have nb: "b \<notin># M d'" "b \<notin># dx_wait s M d'" "b \<notin># Out d'" for d' using b(1) by (cases d'; simp add: dx_both_def dx_wait_def)+
  from que_object.add_law [OF object r nb(1), of d] b(2) obtain h q where
    a: "add d (dx_bufs s) (fc_qobjp (dx_que s d)) b = Some (h, q)" "repr d h q (add_mset b (M d))"
       "touches (insert b (set_mset (M d))) (dx_bufs s) h" by blast
  let ?s = "upd_que d (\<lambda>r. r\<lparr>fc_qobjp := q\<rparr>) ((dx_ks (ks_log Waitq_enter) s)\<lparr>dx_bufs := h\<rparr>)"
  let ?M = "M(d := add_mset b (M d))"
  have acc: "duplx_accept e (Some b) s = Some (d, ?s)" using a(1) e by (simp add: duplx_accept_def Let_def fits_def d)
  have s': "dx_bufs ?s = h" "dx_que ?s = (dx_que s)(d := (dx_que s d)\<lparr>fc_qobjp := q\<rparr>)" "dx_sent ?s = dx_sent s"
    "dx_kstat ?s = map_option (ks_log Waitq_enter) (dx_kstat s)"
    by (simp_all add: fun_eq_iff, simp_all add: dx_ks_def upd_que_def)
  have w: "dx_wait ?s ?M d' = (if d' = d then add_mset b (dx_wait s M d) else dx_wait s M d')" for d'
    by (simp add: dx_wait_def dx_held_def s')
  have tot: "dx_both (dx_wait ?s ?M) = add_mset b (dx_both (dx_wait s M))" unfolding dx_both_def w by (cases d) simp_all
  have k: "dx_of (h x) = dx_of (dx_bufs s x)" for x using links_only_fields(2) [OF touches_links [OF a(3)]] by (simp add: dx_of_def)
  have "repr d' h (fc_qobjp (dx_que s d')) (M d')" if "d' \<noteq> d" for d'
  proof (rule que_object.repr_cong [OF object r])
    fix x assume x: "x \<in># M d'"
    then have "x \<in># dx_wait s M d'" by (simp add: dx_wait_def)
    with other_members [of "dx_wait s M" "dx_both Out" d d' x] that inv have "x \<notin># dx_wait s M d"
      unfolding dx_inv_def by blast
    then have "x \<notin># M d" "x \<noteq> b" using x nb(1) [of d'] by (auto simp: dx_wait_def)
    then show "h x = dx_bufs s x" by (intro touches_same [OF a(3)]) simp
  qed
  with a(2) have rp: "\<forall>d'. repr d' (dx_bufs ?s) (fc_qobjp (dx_que ?s d')) (?M d')" by (simp add: s')
  have "dx_kstat_ok ?s (size (dx_both (dx_wait ?s ?M))) (size (dx_both Out))"
    using inv unfolding dx_inv_def dx_kstat_ok_def s'(4) tot by (auto simp: ks_ok_def ks_log_def split: option.splits)
  moreover have "\<forall>x. count (dx_both (dx_wait ?s ?M) + dx_both Out) x \<le> 1"
  proof
    fix x
    have "count (dx_both (dx_wait s M) + dx_both Out) x \<le> 1" using inv by (simp add: dx_inv_def)
    then show "count (dx_both (dx_wait ?s ?M) + dx_both Out) x \<le> 1"
      using b(1) by (auto simp: tot not_in_iff)
  qed
  moreover have "\<forall>d'. \<forall>x\<in>#dx_wait ?s ?M d' + Out d'. dx_of (dx_bufs ?s x) = d'"
    using inv by (auto simp: dx_inv_def w s' k d)
  ultimately have "dx_inv repr ?s ?M Out"
    using inv rp unfolding dx_inv_def by (simp add: s')
  with acc tot show ?thesis unfolding d by (intro exI [of _ ?s] exI [of _ ?M]) (simp add: s')
qed

end

subsection \<open>Interleaved use\<close>

text \<open>As for the other objects: \<open>Q\<close> are the requests accepted, \<open>F\<close> those finished.\<close>

inductive duplx_reach ::
  "('q, 'w) dx_env \<Rightarrow> ('q, 'w) duplx_data \<Rightarrow> ('q, 'w) duplx_data \<Rightarrow> nat multiset \<Rightarrow> nat multiset \<Rightarrow> bool"
  for e :: "('q, 'w) dx_env" and s0 :: "('q, 'w) duplx_data" where
  Init: "duplx_reach e s0 s0 {#} {#}"
| Enque: "duplx_reach e s0 s Q F \<Longrightarrow> b \<notin># Q - F \<Longrightarrow> size (Q - F) + 1 < 2 ^ 64 \<Longrightarrow>
     duplx_accept e (Some b) s = Some (d, s1) \<Longrightarrow> dx_pass e d s1 = (r, s') \<Longrightarrow> duplx_reach e s0 s' (add_mset b Q) F"
| Finish: "duplx_reach e s0 s Q F \<Longrightarrow> b \<in># mset (dx_sent s) - F \<Longrightarrow>
     dx_pass e (dx_of (dx_bufs s b)) (duplx_finish b s) = (r, s') \<Longrightarrow> duplx_reach e s0 s' Q (add_mset b F)"
| Restart: "duplx_reach e s0 s Q F \<Longrightarrow> dx_callback s \<Longrightarrow> dx_pass e Readq (s\<lparr>dx_callback := False\<rparr>) = (r, s') \<Longrightarrow>
     duplx_reach e s0 s' Q F"
| Resume: "duplx_reach e s0 s Q F \<Longrightarrow> dx_pass e d s = (r, s') \<Longrightarrow> duplx_reach e s0 s' Q F"

definition dx_ok ::
  "(dx_dir \<Rightarrow> bstore \<Rightarrow> 'q \<Rightarrow> nat multiset \<Rightarrow> bool) \<Rightarrow> ('q, 'w) duplx_data \<Rightarrow> nat multiset \<Rightarrow> nat multiset \<Rightarrow> bool" where
  "dx_ok repr s Q F \<longleftrightarrow> (\<exists>M Out. dx_inv repr s M Out \<and> dx_live s M Out \<and> mset (dx_sent s) = dx_both Out + F \<and>
     Q = dx_both (dx_wait s M) + dx_both Out + F)"

context two_queues
begin

lemma pass_ok:
  assumes e: "fits e" and inv: "dx_inv repr s M Out" and p: "dx_pass e d s = (r, s')"
    and c: "mset (dx_sent s) = dx_both Out + F" "Q = dx_both (dx_wait s M) + dx_both Out + F"
  shows "dx_ok repr s' Q F"
proof -
  from pass_inv [OF e inv p] obtain M' Out' where 1: "dx_inv repr s' M' Out'" "dx_live s' M' Out'"
    "case r of None \<Rightarrow> Out' = Out \<and> dx_wait s' M' = dx_wait s M \<and> dx_sent s' = dx_sent s
     | Some d' \<Rightarrow> \<exists>b. Out' = Out(d' := add_mset b (Out d')) \<and> dx_both (dx_wait s' M') + {#b#} = dx_both (dx_wait s M) \<and>
         dx_sent s' = dx_sent s @ [b]" by (auto split: option.splits)
  have "mset (dx_sent s') = dx_both Out' + F \<and> Q = dx_both (dx_wait s' M') + dx_both Out' + F"
  proof (cases r)
    case (Some d')
    with 1(3) obtain b where b: "Out' = Out(d' := add_mset b (Out d'))" "dx_both (dx_wait s' M') + {#b#} = dx_both (dx_wait s M)"
      "dx_sent s' = dx_sent s @ [b]" by auto
    have "dx_both Out' = add_mset b (dx_both Out)" by (cases d') (simp_all add: b(1) dx_both_def)
    with b c show ?thesis by (simp add: b(2) [symmetric])
  qed (use 1(3) c in simp)
  with 1(1,2) show ?thesis unfolding dx_ok_def by blast
qed

lemma size_half: "size (dx_both f) + 1 < (n :: nat) \<Longrightarrow> size (f d) + 1 < n"
  by (cases d) (simp_all add: dx_both_def)

lemma reach_ok:
  assumes "duplx_reach e s0 s Q F" and e: "fits e" and s0: "dx_ok repr s0 {#} {#}"
  shows "dx_ok repr s Q F"
  using assms(1)
proof induction
  case Init
  show ?case by (rule s0)
next
  case (Enque s Q F b d s1 r s')
  then obtain M Out where I: "dx_inv repr s M Out" "mset (dx_sent s) = dx_both Out + F"
    "Q = dx_both (dx_wait s M) + dx_both Out + F" by (auto simp: dx_ok_def)
  have qf: "Q - F = dx_both (dx_wait s M) + dx_both Out" by (simp add: I(3))
  have nb: "b \<notin># dx_both (dx_wait s M) + dx_both Out" using Enque.hyps(2) qf by simp
  have "size (dx_both M) + 1 < 2 ^ 64"
    using Enque.hyps(3) unfolding qf dx_both_def dx_wait_def by simp
  then have "\<forall>d. size (M d) + 1 < 2 ^ 64" using size_half by blast
  from accept_inv [OF e I(1) nb this] Enque.hyps(4) obtain M' where
    1: "dx_inv repr s1 M' Out" "dx_both (dx_wait s1 M') = add_mset b (dx_both (dx_wait s M))" "dx_sent s1 = dx_sent s" by auto
  show ?case by (rule pass_ok [OF e 1(1) Enque.hyps(5)]) (use 1 I in simp_all)
next
  case (Finish s Q F b r s')
  then obtain M Out where I: "dx_inv repr s M Out" "mset (dx_sent s) = dx_both Out + F"
    "Q = dx_both (dx_wait s M) + dx_both Out + F" by (auto simp: dx_ok_def)
  have "b \<in># dx_both Out" using Finish.hyps(2) I(2) by simp
  then obtain d where b: "b \<in># Out d" by (auto simp: dx_both_def)
  note D = finish_inv [OF I(1) b]
  have m: "dx_both Out = add_mset b (dx_both (Out(d := Out d - {#b#})))" using b by (cases d) (simp_all add: dx_both_def)
  show ?case by (rule pass_ok [OF e D(1) Finish.hyps(3)]) (use I D m in simp_all)
next
  case (Restart s Q F r s')
  then obtain M Out where I: "dx_inv repr s M Out" "mset (dx_sent s) = dx_both Out + F"
    "Q = dx_both (dx_wait s M) + dx_both Out + F" by (auto simp: dx_ok_def)
  note P = dx_inv_cong [OF I(1), of "s\<lparr>dx_callback := False\<rparr>"]
  show ?case by (rule pass_ok [OF e P(1) Restart.hyps(3)]) (use I P(2) in simp_all)
next
  case (Resume s Q F d r s')
  then obtain M Out where I: "dx_inv repr s M Out" "mset (dx_sent s) = dx_both Out + F"
    "Q = dx_both (dx_wait s M) + dx_both Out + F" by (auto simp: dx_ok_def)
  show ?case by (rule pass_ok [OF e I(1) Resume.hyps(2) I(2,3)])
qed

lemma pass_step:
  assumes "fits e" "dx_inv repr s M Out" "dx_pass e d s = (r, s')"
  shows "\<exists>M' Out'. dx_inv repr s' M' Out' \<and>
    (case r of None \<Rightarrow> \<forall>d. dx_wait s' M' d = {#} \<or> dx_callback s' \<or> dx_stuck s' d \<or> size (Out' d) = nat DUPLX_MAXCNT
     | Some d' \<Rightarrow> size (dx_both Out') = Suc (size (dx_both Out)))"
proof -
  have "size (dx_both (Out(d' := add_mset b (Out d')))) = Suc (size (dx_both Out))" for d' b
    by (cases d') (simp_all add: dx_both_def)
  with pass_inv [OF assms] show ?thesis by (cases r) fastforce+
qed

text \<open>The loop is a sequence of such sections; it ends with nothing to start on either queue.\<close>

lemma loop_ok:
  assumes e: "fits e" and inv: "dx_inv repr s M Out"
    and n: "2 * nat DUPLX_MAXCNT \<le> size (dx_both Out) + n"
    and r: "\<And>r s'. dx_pass e d s = (r, s') \<Longrightarrow> duplx_reach e s0 s' Q F"
  shows "duplx_reach e s0 (dx_loop e n d s) Q F \<and> (\<exists>M' Out'. dx_inv repr (dx_loop e n d s) M' Out' \<and>
    (\<forall>c. dx_wait (dx_loop e n d s) M' c = {#} \<or> dx_callback (dx_loop e n d s) \<or> dx_stuck (dx_loop e n d s) c \<or> size (Out' c) = nat DUPLX_MAXCNT))"
  using inv n r
proof (induction n arbitrary: s M Out d)
  case 0
  obtain r s' where p: "dx_pass e d s = (r, s')" by fastforce
  from pass_step [OF e 0(1) p] obtain M' Out' where 1: "dx_inv repr s' M' Out'" and
    2: "case r of None \<Rightarrow> \<forall>d. dx_wait s' M' d = {#} \<or> dx_callback s' \<or> dx_stuck s' d \<or> size (Out' d) = nat DUPLX_MAXCNT
      | Some d' \<Rightarrow> size (dx_both Out') = Suc (size (dx_both Out))" by blast
  have "r = None"
  proof (cases r)
    case (Some d')
    with 2 have "size (dx_both Out') = Suc (size (dx_both Out))" by simp
    moreover have "size (Out' d) \<le> nat DUPLX_MAXCNT" for d
    proof -
      have "int (size (Out' d)) \<le> DUPLX_MAXCNT" using 1 unfolding dx_inv_def by blast
      then show ?thesis by linarith
    qed
    from this [of Readq] this [of Writeq] have "size (dx_both Out') \<le> 2 * nat DUPLX_MAXCNT" by (simp add: dx_both_def)
    ultimately show ?thesis using 0(2) by simp
  qed simp
  then have l: "dx_loop e 0 d s = s'" by (subst dx_loop.simps) (simp add: p)
  have "\<forall>d. dx_wait s' M' d = {#} \<or> dx_callback s' \<or> dx_stuck s' d \<or> size (Out' d) = nat DUPLX_MAXCNT"
    using 2 \<open>r = None\<close> by simp
  with 0(3) [OF p] 1 show ?case unfolding l by blast
next
  case (Suc n)
  obtain r s' where p: "dx_pass e d s = (r, s')" by fastforce
  from pass_step [OF e Suc.prems(1) p] obtain M' Out' where 1: "dx_inv repr s' M' Out'" and
    2: "case r of None \<Rightarrow> \<forall>d. dx_wait s' M' d = {#} \<or> dx_callback s' \<or> dx_stuck s' d \<or> size (Out' d) = nat DUPLX_MAXCNT
      | Some d' \<Rightarrow> size (dx_both Out') = Suc (size (dx_both Out))" by blast
  note reach = Suc.prems(3) [OF p]
  show ?case
  proof (cases r)
    case None
    then have "dx_loop e (Suc n) d s = s'" by (subst dx_loop.simps) (simp add: p)
    with reach 1 2 None show ?thesis by auto
  next
    case (Some d')
    with 2 have sz: "size (dx_both Out') = Suc (size (dx_both Out))" by simp
    have l: "dx_loop e (Suc n) d s = dx_loop e n (dx_next d') s'" by (subst dx_loop.simps) (simp add: p Some)
    show ?thesis unfolding l
      by (rule Suc.IH [OF 1]) (use Suc.prems(2) sz duplx_reach.Resume [OF reach] in auto)
  qed
qed

end

subsection \<open>The object of the module\<close>

text \<open>Reads wait in the queue object passed in, writes in a FIFO the object creates itself.\<close>

definition dx_kind :: "que_kind \<Rightarrow> dx_dir \<Rightarrow> que_kind" where
  "dx_kind qk d = (case d of Readq \<Rightarrow> qk | Writeq \<Rightarrow> Qfifo)"

definition duplx_env :: "que_kind \<Rightarrow> ('w \<Rightarrow> nat \<Rightarrow> pkt_result \<times> 'w) \<Rightarrow> (que_data, 'w) dx_env" where
  "duplx_env qk pkt = \<lparr>dx_add = (\<lambda>d. fst (que_ops (dx_kind qk d))), dx_get = (\<lambda>d. snd (que_ops (dx_kind qk d))), dx_pkt = pkt\<rparr>"

definition duplx_start :: "bstore \<Rightarrow> 'w \<Rightarrow> (que_data, 'w) duplx_data" where
  "duplx_start h w = (duplx_init h que_zero que_zero w)\<lparr>dx_kstat := ds_kstat (fc_start_kstat (fc_init h que_zero w))\<rparr>"

interpretation dx: two_queues "\<lambda>d. fst (que_ops (dx_kind qk d))" "\<lambda>d. snd (que_ops (dx_kind qk d))" "\<lambda>d. que_holds (dx_kind qk d)" for qk
  by unfold_locales

lemma duplx_env_fits: "dx.fits qk (duplx_env qk pkt)"
  by (simp add: dx.fits_def duplx_env_def)

lemma duplx_start_ok: "dx_ok (\<lambda>d. que_holds (dx_kind qk d)) (duplx_start h w) {#} {#}"
proof -
  have "que_holds k h que_zero {#}" for k
    using fifo_repr_zero [of h] scan_repr_zero [of h]
    by (auto simp: que_holds_def fifo_holds_def scan_holds_def split: que_kind.splits)
  then have "dx_inv (\<lambda>d. que_holds (dx_kind qk d)) (duplx_start h w) (\<lambda>_. {#}) (\<lambda>_. {#})"
    by (auto simp: dx_inv_def dx_both_def dx_wait_def dx_held_def duplx_start_def duplx_init_def fc_start_kstat_def fc_init_def
        dx_kstat_ok_def ks_ok_def DUPLX_MAXCNT_def split: dx_dir.splits)
  then show ?thesis
    by (auto simp: dx_ok_def dx_live_def dx_both_def dx_wait_def dx_held_def duplx_start_def duplx_init_def
        intro!: exI [of _ "\<lambda>_. {#}"])
qed

text \<open>Where the two flags come from.\<close>

definition dx_history :: "('q, 'w) dx_env \<Rightarrow> ('q, 'w) duplx_data \<Rightarrow> bool" where
  "dx_history e s \<longleftrightarrow> (\<forall>b\<in>dx_failed s. \<exists>w. fst (dx_pkt e w b) = Pkt_failed) \<and>
     (dx_callback s \<longrightarrow> (\<exists>w b. fst (dx_pkt e w b) = Pkt_callback))"

lemma dx_history_frame:
  "dx_failed s' = dx_failed s \<Longrightarrow> dx_callback s' \<longrightarrow> dx_callback s \<Longrightarrow> dx_history e s \<Longrightarrow> dx_history e s'"
  by (auto simp: dx_history_def)

lemma dx_history_call:
  assumes "dx_history e s"
  shows "dx_history e (snd (dx_call_pkt e b s))"
proof -
  obtain r w where t: "dx_pkt e (dx_res s) b = (r, w)" by fastforce
  have "r = Pkt_failed \<Longrightarrow> \<exists>w. fst (dx_pkt e w b) = Pkt_failed" "r = Pkt_callback \<Longrightarrow> \<exists>w b. fst (dx_pkt e w b) = Pkt_callback"
    using t by (metis fst_conv)+
  with assms t show ?thesis unfolding dx_history_def dx_call_pkt_def by (cases r) simp_all
qed

lemma dx_history_try:
  assumes "dx_try e d s = (r, s')" "dx_history e s"
  shows "dx_history e s'"
proof -
  define s1 where "s1 = (if fc_bp (dx_que s d) = None then dx_fetch e d s else s)"
  have 1: "dx_history e s1"
    by (rule dx_history_frame [OF _ _ assms(2)]) (simp_all add: s1_def dx_fetch_def split: prod.splits)
  show ?thesis
  proof (cases "fc_bp (dx_que s1 d)")
    case None
    with assms(1) 1 show ?thesis by (simp add: dx_try_def Let_def s1_def [symmetric])
  next
    case (Some b)
    obtain ok s2 where c: "dx_call_pkt e b s1 = (ok, s2)" by fastforce
    have "dx_history e s2" using dx_history_call [OF 1, of b] c by simp
    with assms(1) Some c show ?thesis by (auto simp: dx_try_def Let_def s1_def [symmetric] split: if_splits)
  qed
qed

lemma dx_history_start: "dx_history e s \<Longrightarrow> dx_history e (dx_start d b s)"
  by (rule dx_history_frame [of _ s]) (simp_all add: dx_start_def Let_def)

lemma dx_history_pass: "dx_pass e d s = (r, s') \<Longrightarrow> dx_history e s \<Longrightarrow> dx_history e s'"
  by (auto simp: dx_pass_def Let_def split: prod.splits option.splits dest!: dx_history_try intro: dx_history_start)

lemma dx_history_reach: "duplx_reach e s0 s Q F \<Longrightarrow> dx_history e s0 \<Longrightarrow> dx_history e s"
proof (induction rule: duplx_reach.induct)
  case (Enque s Q F b d s1 r s')
  have "dx_history e s1"
    by (rule dx_history_frame [OF _ _ Enque.IH [OF Enque.prems]])
      (use Enque.hyps(4) in \<open>auto simp: duplx_accept_def Let_def\<close>)
  with Enque.hyps(5) show ?case by (rule dx_history_pass)
next
  case (Finish s Q F b r s')
  have "dx_history e (duplx_finish b s)"
    by (rule dx_history_frame [OF _ _ Finish.IH [OF Finish.prems]]) (simp_all add: duplx_finish_def Let_def)
  with Finish.hyps(3) show ?case by (rule dx_history_pass)
next
  case (Restart s Q F r s')
  have "dx_history e (s\<lparr>dx_callback := False\<rparr>)"
    by (rule dx_history_frame [OF _ _ Restart.IH [OF Restart.prems]]) simp_all
  with Restart.hyps(3) show ?case by (rule dx_history_pass)
qed (auto intro: dx_history_pass)

text \<open>C40: However requests, completions, callbacks and retries interleave, the duplex object loses and repeats no
  request, keeps reads and writes in their own queues and within a limit each, and counts them right. While anything
  waits, something is outstanding, or a callback is registered, or the last preparation of the request at the head of a queue failed
  without registering one, and then nothing wakes it until a request or completion makes the next pass. A
  callback is registered only by a preparation that does so, and a request counts as failed only if preparing it can fail so.\<close>

theorem duplx_sound:
  fixes pkt :: "'w \<Rightarrow> nat \<Rightarrow> pkt_result \<times> 'w"
  assumes "duplx_reach (duplx_env qk pkt) (duplx_start h w) s Q F"
  shows "(\<exists>M Out. Q = dx_both (dx_wait s M) + dx_both Out + F \<and> mset (dx_sent s) = dx_both Out + F \<and>
     (\<forall>d. que_holds (dx_kind qk d) (dx_bufs s) (fc_qobjp (dx_que s d)) (M d) \<and> fc_outcnt (dx_que s d) = int (size (Out d)) \<and>
        int (size (Out d)) \<le> DUPLX_MAXCNT \<and> (\<forall>x\<in>#dx_wait s M d + Out d. dx_of (dx_bufs s x) = d)) \<and>
     (dx_both (dx_wait s M) \<noteq> {#} \<longrightarrow> dx_both Out \<noteq> {#} \<or> dx_callback s \<or>
        (\<exists>d b. fc_bp (dx_que s d) = Some b \<and> b \<in> dx_failed s)) \<and>
     dx_kstat_ok s (size (dx_both (dx_wait s M))) (size (dx_both Out))) \<and>
    (\<forall>b\<in>dx_failed s. \<exists>w. fst (pkt w b) = Pkt_failed) \<and> (dx_callback s \<longrightarrow> (\<exists>w b. fst (pkt w b) = Pkt_callback))"
proof -
  from dx.reach_ok [OF assms duplx_env_fits duplx_start_ok] obtain M Out where
    I: "dx_inv (\<lambda>d. que_holds (dx_kind qk d)) s M Out" "dx_live s M Out" "mset (dx_sent s) = dx_both Out + F"
    "Q = dx_both (dx_wait s M) + dx_both Out + F" by (auto simp: dx_ok_def)
  have "(\<exists>d. dx_stuck s d) \<longleftrightarrow> (\<exists>d b. fc_bp (dx_que s d) = Some b \<and> b \<in> dx_failed s)" by (auto simp: dx_stuck_def)
  note live = I(2) [unfolded dx_live_def this]
  have "dx_history (duplx_env qk pkt) (duplx_start h w)" by (simp add: dx_history_def duplx_start_def duplx_init_def)
  from dx_history_reach [OF assms this]
  have "(\<forall>b\<in>dx_failed s. \<exists>w. fst (pkt w b) = Pkt_failed) \<and> (dx_callback s \<longrightarrow> (\<exists>w b. fst (pkt w b) = Pkt_callback))"
    by (simp add: dx_history_def duplx_env_def)
  with I live show ?thesis unfolding dx_inv_def by (intro conjI exI [of _ M] exI [of _ Out]) simp_all
qed

text \<open>Completing a request, with the mutex retaken often enough, leaves on neither queue a request that could be
  started.\<close>

theorem duplx_deque_conserving:
  fixes pkt :: "'w \<Rightarrow> nat \<Rightarrow> pkt_result \<times> 'w"
  assumes "duplx_reach (duplx_env qk pkt) (duplx_start h w) s Q F" "b \<in># mset (dx_sent s) - F" "4 \<le> n"
  defines "s' \<equiv> duplx_deque (duplx_env qk pkt) n b s"
  shows "duplx_reach (duplx_env qk pkt) (duplx_start h w) s' Q (add_mset b F) \<and>
     (\<forall>d. fc_bp (dx_que s' d) = None \<or> dx_callback s' \<or> dx_stuck s' d \<or> fc_outcnt (dx_que s' d) = DUPLX_MAXCNT)"
proof -
  from dx.reach_ok [OF assms(1) duplx_env_fits duplx_start_ok] obtain M Out where
    I: "dx_inv (\<lambda>d. que_holds (dx_kind qk d)) s M Out" "mset (dx_sent s) = dx_both Out + F" by (auto simp: dx_ok_def)
  then have "b \<in># dx_both Out" using assms(2) by simp
  then obtain d where bd: "b \<in># Out d" by (auto simp: dx_both_def)
  note D = dx.finish_inv [OF I(1) bd]
  have L: "duplx_reach (duplx_env qk pkt) (duplx_start h w) s' Q (add_mset b F) \<and>
    (\<exists>M' Out'. dx_inv (\<lambda>d. que_holds (dx_kind qk d)) s' M' Out' \<and>
       (\<forall>d. dx_wait s' M' d = {#} \<or> dx_callback s' \<or> dx_stuck s' d \<or> size (Out' d) = nat DUPLX_MAXCNT))"
    unfolding s'_def duplx_deque_def
    by (rule dx.loop_ok [OF duplx_env_fits D(1)]) (use assms(3) duplx_reach.Finish [OF assms(1,2)] in \<open>auto simp: DUPLX_MAXCNT_def\<close>)
  then obtain M' Out' where 2: "dx_inv (\<lambda>d. que_holds (dx_kind qk d)) s' M' Out'"
    "\<And>d. dx_wait s' M' d = {#} \<or> dx_callback s' \<or> dx_stuck s' d \<or> size (Out' d) = nat DUPLX_MAXCNT" by blast
  have "fc_bp (dx_que s' d) = None \<or> dx_callback s' \<or> dx_stuck s' d \<or> fc_outcnt (dx_que s' d) = DUPLX_MAXCNT" for d
  proof -
    have "fc_outcnt (dx_que s' d) = int (size (Out' d))" using 2(1) by (simp add: dx_inv_def)
    moreover have "fc_bp (dx_que s' d) = None" if "dx_wait s' M' d = {#}" using that by (auto simp: dx_wait_def dx_held_def split: option.splits)
    ultimately show ?thesis using 2(2) [of d] by (auto simp: DUPLX_MAXCNT_def)
  qed
  with L show ?thesis by blast
qed

text \<open>Two reads and a write, then the first read completes.\<close>

definition dx_bufs0 :: bstore where
  "dx_bufs0 = (\<lambda>x. (buf_at (10 * of_nat (Suc x)))\<lparr>b_read := (x \<noteq> 2)\<rparr>)"

definition dx_after :: "nat list \<Rightarrow> (que_data, unit) duplx_data" where
  "dx_after bs = fold (\<lambda>b s. case duplx_accept (duplx_env Qsort flow_pkt) (Some b) s of
     Some (d, s1) \<Rightarrow> snd (dx_pass (duplx_env Qsort flow_pkt) d s1) | None \<Rightarrow> s) bs (duplx_start dx_bufs0 ())"

lemma dx_after_next:
  assumes "duplx_reach (duplx_env Qsort flow_pkt) (duplx_start dx_bufs0 ()) (dx_after bs) Q {#}" "b \<notin># Q" "size Q < 9"
    "duplx_accept (duplx_env Qsort flow_pkt) (Some b) (dx_after bs) \<noteq> None"
  shows "duplx_reach (duplx_env Qsort flow_pkt) (duplx_start dx_bufs0 ()) (dx_after (bs @ [b])) (add_mset b Q) {#}"
proof -
  from assms(4) obtain d s1 where a: "duplx_accept (duplx_env Qsort flow_pkt) (Some b) (dx_after bs) = Some (d, s1)" by auto
  obtain r s' where p: "dx_pass (duplx_env Qsort flow_pkt) d s1 = (r, s')" by fastforce
  from duplx_reach.Enque [OF assms(1) _ _ a p] assms(2,3) a p show ?thesis by (simp add: dx_after_def)
qed

theorem duplx_sound_witness:
  "\<exists>M Out. {#0, 1, 2#} = dx_both (dx_wait (dx_after [0, 1, 2]) M) + dx_both Out \<and>
     mset (dx_sent (dx_after [0, 1, 2])) = dx_both Out \<and> (\<forall>d. int (size (Out d)) \<le> DUPLX_MAXCNT)"
proof -
  have 0: "duplx_reach (duplx_env Qsort flow_pkt) (duplx_start dx_bufs0 ()) (dx_after []) {#} {#}"
    by (simp add: dx_after_def duplx_reach.Init)
  have 1: "duplx_accept (duplx_env Qsort flow_pkt) (Some 0) (dx_after []) \<noteq> None"
    "duplx_accept (duplx_env Qsort flow_pkt) (Some 1) (dx_after [0]) \<noteq> None"
    "duplx_accept (duplx_env Qsort flow_pkt) (Some 2) (dx_after [0, 1]) \<noteq> None" by code_simp+
  from dx_after_next [OF dx_after_next [OF dx_after_next [OF 0 _ _ 1(1)], of 1], of 2] 1
  have "duplx_reach (duplx_env Qsort flow_pkt) (duplx_start dx_bufs0 ()) (dx_after [0, 1, 2]) {#0, 1, 2#} {#}"
    by (simp add: add_mset_commute)
  from duplx_sound [OF this] obtain M Out where
    "{#0, 1, 2#} = dx_both (dx_wait (dx_after [0, 1, 2]) M) + dx_both Out + {#}"
    "mset (dx_sent (dx_after [0, 1, 2])) = dx_both Out + {#}" "\<forall>d. int (size (Out d)) \<le> DUPLX_MAXCNT" by blast
  then show ?thesis by (intro exI [of _ M] exI [of _ Out]) simp
qed

end
