(* ===== verification/Cmdk_Bbh.thy ===== *)
theory Cmdk_Bbh
  imports Prelude
begin

text \<open>
  Bad block handling of the disk target driver (\<open>cmdk.c\<close>, \<open>altsctr.h\<close>, \<open>bbh.h\<close>). The alternates slice holds a
  table of bad sector clusters with their replacements. \<open>cmdk_bbh_reopen\<close> reads it and indexes it by slice;
  \<open>cmdk_bbh_gethandle\<close> splits a request into cookies, runs of sectors on the device, with a binary search
  for the first cluster that matters.

  Sector numbers are \<open>int\<close>, cut to 32 bits where the code stores a wider one (\<open>daddr32_t\<close>); the sums of
  32-bit signed sector numbers are not cut, except in \<open>bbh_first\<close>, as their overflow is undefined. Writing a cookie beyond the
  allocated table is the value \<open>None\<close>.
\<close>

record alts_ent =
  bad_start :: int
  bad_end :: int
  good_start :: int

record bbh_cookie =
  ck_sector :: int
  ck_seclen :: int

record bbh_handle =
  h_totck :: nat
  h_idx :: nat
  h_cktab :: "bbh_cookie list"

record alts_parttbl =
  alts_sanity :: int
  alts_ent_base :: int
  alts_ent_used :: nat
  alts_ent_end :: int

text \<open>\<open>dk_slc_ent\<close> of a slice is the table from the entry it points to. \<open>iob_live\<close> has the buffers the
  component has allocated and not freed (\<open>dadk_iob_alloc\<close>, \<open>dadk_iob_free\<close>), \<open>iob_next\<close> is the next one.\<close>

record cmdk_bbh =
  iob_live :: "nat list"
  iob_next :: nat
  dk_alts_hdl :: "nat option"
  dk_altused :: nat
  dk_slc_cnt :: "nat \<Rightarrow> nat"
  dk_slc_ent :: "nat \<Rightarrow> alts_ent list"

definition daddr32 :: "int \<Rightarrow> int" where "daddr32 x = signed_take_bit 31 x"

subsection \<open>The binary search\<close>

text \<open>The largest power of two up to \<open>cnt\<close>; \<open>i\<close> is positive.\<close>

function bsearch_start :: "nat \<Rightarrow> nat \<Rightarrow> nat \<Rightarrow> nat" where
  "bsearch_start cnt i ind = (if 0 < i \<and> i \<le> cnt then bsearch_start cnt (2 * i) i else ind)"
  by pat_completeness auto
termination by (relation "measure (\<lambda>(cnt, i, _). Suc cnt - i)") auto

function bsearch_loop :: "alts_ent list \<Rightarrow> nat \<Rightarrow> int \<Rightarrow> nat \<Rightarrow> nat \<Rightarrow> int \<Rightarrow> int" where
  "bsearch_loop buf cnt key ind interval mystatus =
    (if interval = 0 then mystatus
     else if key \<ge> bad_start (buf ! (ind - 1)) \<and> key \<le> bad_end (buf ! (ind - 1)) then int ind - 1
     else (let interval = interval div 2
           in if key < bad_start (buf ! (ind - 1))
              then (let mystatus = int ind - 1
                    in if interval = 0 then mystatus else bsearch_loop buf cnt key (ind - interval) interval mystatus)
              else if ind = cnt \<or> interval = 0 then mystatus
              else bsearch_loop buf cnt key (if ind + interval \<le> cnt then ind + interval else ind) interval mystatus))"
  by pat_completeness auto
termination by (relation "measure (\<lambda>(_, _, _, _, interval, _). interval)") auto

declare bsearch_start.simps [simp del] bsearch_loop.simps [simp del]

definition cmdk_bbh_bsearch :: "alts_ent list \<Rightarrow> nat \<Rightarrow> int \<Rightarrow> int" where
  "cmdk_bbh_bsearch buf cnt key =
    (if cnt = 0 then -1
     else (let ind = bsearch_start cnt 1 1 in bsearch_loop buf cnt key ind ind (-1)))"

subsection \<open>Splitting a request\<close>

definition put_ck :: "nat \<Rightarrow> (bbh_cookie \<Rightarrow> bbh_cookie) \<Rightarrow> bbh_cookie list \<Rightarrow> bbh_cookie list option" where
  "put_ck i f tab = (if i < length tab then Some (tab[i := f (tab ! i)]) else None)"

text \<open>The number of clusters up to the last sector.\<close>

fun bbh_count :: "int \<Rightarrow> alts_ent list \<Rightarrow> nat" where
  "bbh_count lastsec [] = 0"
| "bbh_count lastsec (a # as) = (if lastsec < bad_start a then 0 else Suc (bbh_count lastsec as))"

text \<open>The loop over the clusters, with the cases of the code's comment.\<close>

fun bbh_split :: "int \<Rightarrow> alts_ent list \<Rightarrow> nat \<Rightarrow> bbh_cookie list \<Rightarrow> bbh_cookie list option" where
  "bbh_split lastsec [] idx tab = Some tab"
| "bbh_split lastsec (a # as) idx tab =
    (let sector = ck_sector (tab ! idx); seclen = ck_seclen (tab ! idx)
     in if lastsec < bad_start a then Some tab
        else if sector > bad_end a then bbh_split lastsec as idx tab
        else if sector \<ge> bad_start a \<and> lastsec \<le> bad_end a
        then put_ck idx (\<lambda>c. c\<lparr>ck_sector := good_start a + ck_sector c - bad_start a\<rparr>) tab
        else if lastsec \<ge> bad_start a \<and> lastsec \<le> bad_end a
        then (let n = lastsec - bad_start a + 1
              in Option.bind (put_ck (idx + 1) (\<lambda>c. \<lparr>ck_sector = good_start a, ck_seclen = n\<rparr>) tab)
                   (put_ck idx (\<lambda>c. c\<lparr>ck_seclen := ck_seclen c - n\<rparr>)))
        else if sector \<le> bad_end a \<and> sector \<ge> bad_start a
        then (let n = bad_end a - sector + 1
              in Option.bind (put_ck (idx + 1) (\<lambda>c. \<lparr>ck_sector = bad_end a + 1, ck_seclen = seclen - n\<rparr>) tab)
                   (\<lambda>tab. Option.bind (put_ck idx (\<lambda>c. \<lparr>ck_sector = good_start a + sector - bad_start a, ck_seclen = n\<rparr>) tab)
                     (bbh_split lastsec as (idx + 1))))
        else Option.bind (put_ck idx (\<lambda>c. c\<lparr>ck_seclen := bad_start a - sector\<rparr>) tab)
               (\<lambda>tab. Option.bind (put_ck (idx + 1) (\<lambda>c. \<lparr>ck_sector = good_start a, ck_seclen = bad_end a - bad_start a + 1\<rparr>) tab)
                 (\<lambda>tab. Option.bind (put_ck (idx + 2) (\<lambda>c. \<lparr>ck_sector = bad_end a + 1, ck_seclen = lastsec - bad_end a\<rparr>) tab)
                   (bbh_split lastsec as (idx + 2)))))"

text \<open>The outer option is a memory fault, the inner one the NULL handle. The request is its slice, first sector
  and byte count; \<open>V_NUMPAR\<close> is the number of slices.\<close>

definition V_NUMPAR :: nat where "V_NUMPAR = 16"

definition cmdk_bbh_gethandle :: "cmdk_bbh \<Rightarrow> nat \<Rightarrow> int \<Rightarrow> int \<Rightarrow> bbh_handle option option" where
  "cmdk_bbh_gethandle dk part sec bcount =
    (if part \<ge> V_NUMPAR then Some None
     else if dk_alts_hdl dk = None then Some None
     else if dk_slc_cnt dk part = 0 then Some None
     else
       (let alts = take (dk_slc_cnt dk part) (dk_slc_ent dk part);
            i = cmdk_bbh_bsearch (dk_slc_ent dk part) (dk_slc_cnt dk part) (daddr32 sec)
        in if i = -1 then Some None
           else
             (let altp = drop (nat i) alts;
                  d_count = drop_bit 9 bcount;
                  lastsec = daddr32 (sec + d_count - 1);
                  cnt = bbh_count lastsec altp
              in if cnt = 0 then Some None
                 else
                   (let tot = 2 * cnt + 1;
                        tab = (replicate tot \<lparr>ck_sector = 0, ck_seclen = 0\<rparr>)[0 := \<lparr>ck_sector = daddr32 sec, ck_seclen = d_count\<rparr>]
                    in case bbh_split lastsec altp 0 tab of
                         None \<Rightarrow> None
                       | Some tab \<Rightarrow> Some (Some \<lparr>h_totck = tot, h_idx = 0, h_cktab = tab\<rparr>)))))"

definition cmdk_bbh_htoc :: "bbh_handle \<Rightarrow> bbh_cookie option \<times> bbh_handle" where
  "cmdk_bbh_htoc hp =
    (if h_idx hp < length (h_cktab hp) then Some (h_cktab hp ! h_idx hp) else None, hp\<lparr>h_idx := h_idx hp + 1\<rparr>)"

subsection \<open>The table\<close>

text \<open>Clusters are not empty, disjoint and in order.\<close>

definition alts_sorted :: "alts_ent list \<Rightarrow> bool" where
  "alts_sorted es \<longleftrightarrow> (\<forall>e\<in>set es. bad_start e \<le> bad_end e) \<and> sorted_wrt (\<lambda>a b. bad_end a < bad_start b) es"

text \<open>The first cluster that does not end before a sector, and where a sector is on the device.\<close>

definition alts_first :: "int \<Rightarrow> alts_ent list \<Rightarrow> nat" where
  "alts_first s es = length (takeWhile (\<lambda>e. bad_end e < s) es)"

fun alts_remap :: "alts_ent list \<Rightarrow> int \<Rightarrow> int" where
  "alts_remap [] s = s"
| "alts_remap (e # es) s = (if bad_start e \<le> s \<and> s \<le> bad_end e then good_start e + (s - bad_start e) else alts_remap es s)"

lemma alts_first_le: "alts_first s es \<le> length es"
  by (simp add: alts_first_def length_takeWhile_le)

lemma alts_sorted_ends:
  assumes "alts_sorted es" "i < j" "j < length es"
  shows "bad_end (es ! i) < bad_start (es ! j)" "bad_end (es ! i) < bad_end (es ! j)"
proof -
  show a: "bad_end (es ! i) < bad_start (es ! j)"
    using assms by (auto simp: alts_sorted_def sorted_wrt_iff_nth_less)
  have "es ! j \<in> set es" using assms by simp
  then have "bad_start (es ! j) \<le> bad_end (es ! j)" using assms by (auto simp: alts_sorted_def)
  with a show "bad_end (es ! i) < bad_end (es ! j)" by simp
qed

lemma alts_first_iff:
  assumes "alts_sorted es" "i < length es"
  shows "alts_first s es \<le> i \<longleftrightarrow> s \<le> bad_end (es ! i)"
proof
  assume f: "alts_first s es \<le> i"
  let ?f = "alts_first s es"
  have "s \<le> bad_end (es ! ?f)" using f assms(2) nth_length_takeWhile [of "\<lambda>e. bad_end e < s" es] by (simp add: alts_first_def)
  moreover have "bad_end (es ! ?f) \<le> bad_end (es ! i)"
    using f alts_sorted_ends(2) [OF assms(1) _ assms(2), of ?f] by (cases "?f = i") auto
  ultimately show "s \<le> bad_end (es ! i)" by simp
next
  assume e: "s \<le> bad_end (es ! i)"
  show "alts_first s es \<le> i"
  proof (rule ccontr)
    assume "\<not> alts_first s es \<le> i"
    then have "es ! i \<in> set (takeWhile (\<lambda>e. bad_end e < s) es)"
      by (metis alts_first_def not_le nth_mem takeWhile_nth)
    then show False using e by (auto dest: set_takeWhileD)
  qed
qed

subsection \<open>The search finds the first cluster\<close>

lemma bsearch_start_power:
  assumes "i = 2 ^ p" "ind \<le> cnt" "0 < ind" "cnt < 2 * ind \<or> 2 * ind = i" "\<exists>q. ind = 2 ^ q" "0 < cnt"
  shows "\<exists>q. bsearch_start cnt i ind = 2 ^ q \<and> bsearch_start cnt i ind \<le> cnt \<and> cnt < 2 * bsearch_start cnt i ind"
  using assms
proof (induction cnt i ind arbitrary: p rule: bsearch_start.induct)
  case (1 cnt i ind)
  show ?case
  proof (cases "i \<le> cnt")
    case True
    have i: "0 < i \<and> i \<le> cnt" using True "1.prems"(1) by simp
    have "2 * i = 2 ^ Suc p" using "1.prems"(1) by simp
    from "1.IH" [OF i this] i "1.prems"(1,6) show ?thesis by (subst (1 2 3) bsearch_start.simps) auto
  next
    case False
    then have "bsearch_start cnt i ind = ind" by (subst bsearch_start.simps) simp
    moreover have "cnt < 2 * ind" using False "1.prems"(4) by auto
    ultimately show ?thesis using "1.prems"(2,5) by auto
  qed
qed

lemma bsearch_loop_correct:
  fixes key :: int
  assumes s: "alts_sorted (take cnt buf)" and c: "cnt \<le> length buf"
  defines "f \<equiv> alts_first key (take cnt buf)"
  shows "interval \<le> ind \<Longrightarrow> ind \<le> cnt \<Longrightarrow> interval = 2 ^ p \<Longrightarrow> ind \<le> f + interval \<Longrightarrow> f < ind + interval \<Longrightarrow>
     mystatus = (if ind + interval \<le> cnt then int (ind + interval) - 1 else -1) \<Longrightarrow>
     bsearch_loop buf cnt key ind interval mystatus = (if f < cnt then int f else -1)"
proof (induction p arbitrary: ind interval mystatus)
  have fc: "f \<le> cnt" using alts_first_le [of key "take cnt buf"] c by (simp add: f_def)
  have e: "f \<le> i \<longleftrightarrow> key \<le> bad_end (buf ! i)" if "i < cnt" for i
    using alts_first_iff [OF s, of i key] that c by (simp add: f_def)
  have st: "key < bad_start (buf ! i) \<Longrightarrow> f \<le> i" "bad_start (buf ! i) \<le> key \<Longrightarrow> key \<le> bad_end (buf ! i) \<Longrightarrow> f = i" if "i < cnt" for i
  proof -
    have i: "take cnt buf ! i \<in> set (take cnt buf)" using that c by (intro nth_mem) simp
    then have "bad_start (buf ! i) \<le> bad_end (buf ! i)" using s that by (auto simp: alts_sorted_def)
    then show "key < bad_start (buf ! i) \<Longrightarrow> f \<le> i" using e [OF that] by simp
    assume k: "bad_start (buf ! i) \<le> key" "key \<le> bad_end (buf ! i)"
    have "\<not> f < i"
    proof
      assume fi: "f < i"
      have "i - 1 < i" "f \<le> i - 1" "i < length (take cnt buf)" using fi that c by simp_all
      have "bad_end (take cnt buf ! (i - 1)) < bad_start (take cnt buf ! i)" by (rule alts_sorted_ends(1) [OF s]) fact+
      then have "bad_end (buf ! (i - 1)) < key" using \<open>i - 1 < i\<close> that k(1) by simp
      moreover have "key \<le> bad_end (buf ! (i - 1))" using e [of "i - 1"] \<open>f \<le> i - 1\<close> \<open>i - 1 < i\<close> that by simp
      ultimately show False by simp
    qed
    with k(2) e [OF that] show "f = i" by simp
  qed
  note bounds = fc e st
  {
    case 0
    have i: "ind - 1 < cnt" using 0 by simp
    show ?case
      using 0 e [OF i] st [OF i] fc by (subst bsearch_loop.simps) (auto simp: Let_def)
  next
    case (Suc p)
    have half: "interval div 2 = 2 ^ p" "interval = 2 * 2 ^ p" "(2 :: nat) ^ p \<noteq> 0" using Suc.prems(3) by simp_all
    have "0 < interval" using half(2) by simp
    then have "0 < ind" using Suc.prems(1) by linarith
    then have i: "ind - 1 < cnt" "1 \<le> ind" using Suc.prems(2) by auto
    consider "bad_start (buf ! (ind - 1)) \<le> key" "key \<le> bad_end (buf ! (ind - 1))" | "key < bad_start (buf ! (ind - 1))"
      | "bad_end (buf ! (ind - 1)) < key" "bad_start (buf ! (ind - 1)) \<le> key" by linarith
    then show ?case
    proof cases
      case 1
      then have "bsearch_loop buf cnt key ind interval mystatus = int ind - 1"
        using half by (subst bsearch_loop.simps) simp
      then show ?thesis using i st(2) [OF i(1) 1] by (auto simp: of_nat_diff)
    next
      case 2
      have f: "f < ind" using i(2) st(1) [OF i(1) 2] Suc.prems(1) by simp
      have "bsearch_loop buf cnt key ind interval mystatus = bsearch_loop buf cnt key (ind - 2 ^ p) (2 ^ p) (int ind - 1)"
        using 2 half by (subst bsearch_loop.simps) (simp add: Let_def)
      moreover have "\<dots> = (if f < cnt then int f else -1)"
        by (rule Suc.IH) (use Suc.prems f half in auto)
      ultimately show ?thesis by simp
    next
      case 3
      have f: "ind \<le> f" using e [OF i(1)] i(2) 3(1) by simp
      show ?thesis
      proof (cases "ind = cnt")
        case True
        then show ?thesis using 3 half f Suc.prems(6) fc by (subst bsearch_loop.simps) (auto simp: Let_def)
      next
        case False
        define ind' where "ind' = (if ind + 2 ^ p \<le> cnt then ind + 2 ^ p else ind)"
        have "bsearch_loop buf cnt key ind interval mystatus = bsearch_loop buf cnt key ind' (2 ^ p) mystatus"
          using 3 half False by (subst bsearch_loop.simps) (simp add: Let_def ind'_def)
        moreover have "\<dots> = (if f < cnt then int f else -1)"
          by (rule Suc.IH) (use Suc.prems f fc half in \<open>auto simp: ind'_def\<close>)
        ultimately show ?thesis by simp
      qed
    qed
  }
qed

lemma cmdk_bbh_bsearch_spec:
  assumes "alts_sorted (take cnt buf)" "cnt \<le> length buf"
  shows "cmdk_bbh_bsearch buf cnt key =
    (if alts_first key (take cnt buf) < cnt then int (alts_first key (take cnt buf)) else -1)"
proof (cases "cnt = 0")
  case True
  then show ?thesis by (simp add: cmdk_bbh_bsearch_def)
next
  case False
  then obtain q where q: "bsearch_start cnt 1 1 = 2 ^ q" "bsearch_start cnt 1 1 \<le> cnt" "cnt < 2 * bsearch_start cnt 1 1"
  proof -
    have e: "bsearch_start cnt 1 1 = bsearch_start cnt 2 1"
      using False by (subst bsearch_start.simps) simp
    have "\<exists>q. bsearch_start cnt 2 1 = 2 ^ q \<and> bsearch_start cnt 2 1 \<le> cnt \<and> cnt < 2 * bsearch_start cnt 2 1"
      by (rule bsearch_start_power [where p = 1]) (use False in \<open>auto intro: exI [of _ 0]\<close>)
    then show ?thesis using that e by auto
  qed
  have f: "alts_first key (take cnt buf) \<le> cnt" using alts_first_le [of key "take cnt buf"] assms(2) by simp
  have "bsearch_loop buf cnt key (2 ^ q) (2 ^ q) (-1) =
      (if alts_first key (take cnt buf) < cnt then int (alts_first key (take cnt buf)) else -1)"
    by (rule bsearch_loop_correct [OF assms, where p = q]) (use q f in auto)
  then show ?thesis using False q(1) by (simp add: cmdk_bbh_bsearch_def Let_def)
qed

subsection \<open>Splitting covers the request, remapped\<close>

definition ck_sectors :: "bbh_cookie \<Rightarrow> int list" where
  "ck_sectors c = [ck_sector c..ck_sector c + ck_seclen c - 1]"

abbreviation ck_zero :: bbh_cookie where "ck_zero \<equiv> \<lparr>ck_sector = 0, ck_seclen = 0\<rparr>"

lemma map_shift_upto: "map (\<lambda>s. g + (s - b)) [i..j] = [g + i - b..g + j - b]" for g b i j :: int
  by (rule nth_equalityI) (auto simp: nth_upto)

lemma ck_sectors_zeros [simp]: "concat (map ck_sectors (replicate n ck_zero)) = []"
  by (induction n) (simp_all add: ck_sectors_def)

lemma ck_sectors_Cons [simp]: "ck_sectors \<lparr>ck_sector = a, ck_seclen = n\<rparr> = [a..a + n - 1]"
  by (simp add: ck_sectors_def)

text \<open>The cookies that are used come first and are not empty.\<close>

definition ck_prefix :: "bbh_cookie list \<Rightarrow> bool" where
  "ck_prefix r \<longleftrightarrow> (\<exists>xs m. r = xs @ replicate m ck_zero \<and> (\<forall>c\<in>set xs. 0 < ck_seclen c))"

lemma ck_prefix_zeros [simp]: "ck_prefix (replicate n ck_zero)"
  unfolding ck_prefix_def by (intro exI [of _ "[]"] exI [of _ n]) simp

lemma ck_prefix_ConsI: "0 < ck_seclen c \<Longrightarrow> ck_prefix r \<Longrightarrow> ck_prefix (c # r)"
  unfolding ck_prefix_def by (metis append_Cons set_ConsD)

lemma alts_sorted_Cons:
  "alts_sorted (e # es) \<longleftrightarrow> bad_start e \<le> bad_end e \<and> (\<forall>x\<in>set es. bad_end e < bad_start x) \<and> alts_sorted es"
  by (auto simp: alts_sorted_def)

lemma alts_remap_before: "(\<forall>x\<in>set es. s < bad_start x) \<Longrightarrow> alts_remap es s = s"
  by (induction es) auto

lemma alts_remap_before_sorted: "alts_sorted (e # es) \<Longrightarrow> s < bad_start e \<Longrightarrow> alts_remap (e # es) s = s"
  by (rule alts_remap_before) (force simp: alts_sorted_Cons)

lemma alts_remap_in: "alts_sorted (e # es) \<Longrightarrow> bad_start e \<le> s \<Longrightarrow> s \<le> bad_end e \<Longrightarrow> alts_remap (e # es) s = good_start e + (s - bad_start e)"
  by simp

lemma alts_remap_after: "bad_end e < s \<Longrightarrow> alts_remap (e # es) s = alts_remap es s"
  by simp

lemma map_remap_before:
  assumes "alts_sorted (e # es)" "y < bad_start e"
  shows "map (alts_remap (e # es)) [x..y] = [x..y]"
proof -
  have "map (alts_remap (e # es)) [x..y] = map id [x..y]"
    by (rule map_cong [OF refl]) (use alts_remap_before_sorted [OF assms(1)] assms(2) in auto)
  then show ?thesis by simp
qed

lemma map_remap_in:
  assumes "bad_start e \<le> x" "y \<le> bad_end e"
  shows "map (alts_remap (e # es)) [x..y] = [good_start e + x - bad_start e..good_start e + y - bad_start e]"
proof -
  have "map (alts_remap (e # es)) [x..y] = map (\<lambda>s. good_start e + (s - bad_start e)) [x..y]"
    by (rule map_cong [OF refl]) (use assms in auto)
  then show ?thesis by (simp only: map_shift_upto)
qed

lemma map_remap_after: "bad_end e < x \<Longrightarrow> map (alts_remap (e # es)) [x..y] = map (alts_remap es) [x..y]"
  by (rule map_cong [OF refl]) auto

declare alts_remap.simps(2) [simp del]

lemma bbh_split_covers:
  "alts_sorted es \<Longrightarrow> x \<le> lastsec \<Longrightarrow> 2 * bbh_count lastsec es \<le> n \<Longrightarrow>
   \<exists>r. bbh_split lastsec es (length pre) (pre @ \<lparr>ck_sector = x, ck_seclen = lastsec - x + 1\<rparr> # replicate n ck_zero) = Some (pre @ r) \<and>
     length r = Suc n \<and> concat (map ck_sectors r) = map (alts_remap es) [x..lastsec] \<and> ck_prefix r"
proof (induction es arbitrary: x n pre)
  case Nil
  have "map (alts_remap []) [x..lastsec] = [x..lastsec]" by (induction "[x..lastsec]") (simp_all add: map_idI)
  then show ?case using Nil by (auto intro!: ck_prefix_ConsI)
next
  case (Cons a es)
  let ?c = "\<lparr>ck_sector = x, ck_seclen = lastsec - x + 1\<rparr>"
  have s: "alts_sorted es" "bad_start a \<le> bad_end a" using Cons.prems(1) by (simp_all add: alts_sorted_Cons)
  consider "lastsec < bad_start a" | "bad_start a \<le> lastsec" "bad_end a < x"
    | "bad_start a \<le> x" "lastsec \<le> bad_end a"
    | "x < bad_start a" "bad_start a \<le> lastsec" "lastsec \<le> bad_end a"
    | "bad_start a \<le> x" "x \<le> bad_end a" "bad_end a < lastsec"
    | "x < bad_start a" "bad_end a < lastsec"
    by linarith
  then show ?case
  proof cases
    case 1
    then show ?thesis using map_remap_before [OF Cons.prems(1) 1] Cons.prems(2) by (auto intro!: ck_prefix_ConsI)
  next
    case 2
    have "2 * bbh_count lastsec es \<le> n" using Cons.prems(3) 2 by simp
    from Cons.IH [OF s(1) Cons.prems(2) this, of pre] 2 show ?thesis
      by (simp add: Let_def map_remap_after [OF 2(2)])
  next
    case 3
    then show ?thesis using Cons.prems(2) map_remap_in [of a x lastsec es]
      by (auto simp: Let_def put_ck_def algebra_simps intro!: ck_prefix_ConsI exI [of _ "_ # _"])
  next
    case 4
    obtain m where m: "n = Suc m" using Cons.prems(3) 4 by (cases n) auto
    have "[x..lastsec] = [x..bad_start a - 1] @ [bad_start a..lastsec]" using 4 by (intro upto_split1) auto
    then show ?thesis using 4 m map_remap_in [of a "bad_start a" lastsec es] map_remap_before [OF Cons.prems(1), of "bad_start a - 1" x]
      by (auto simp: Let_def put_ck_def nth_append list_update_append algebra_simps intro!: ck_prefix_ConsI exI [of _ "_ # _ # _"])
  next
    case 5
    obtain m where m: "n = Suc m" "2 * bbh_count lastsec es \<le> m" using Cons.prems(3) 5 by (cases n) auto
    let ?d = "\<lparr>ck_sector = good_start a + x - bad_start a, ck_seclen = bad_end a - x + 1\<rparr>"
    have "bad_end a + 1 \<le> lastsec" using 5 by simp
    from Cons.IH [OF s(1) this m(2), of "pre @ [?d]"] obtain r where
      r: "bbh_split lastsec es (Suc (length pre)) (pre @ ?d # \<lparr>ck_sector = bad_end a + 1, ck_seclen = lastsec - bad_end a\<rparr> # replicate m ck_zero) =
          Some (pre @ ?d # r)" "length r = Suc m" "concat (map ck_sectors r) = map (alts_remap es) [bad_end a + 1..lastsec]" "ck_prefix r"
      by auto
    have "[x..lastsec] = [x..bad_end a] @ [bad_end a + 1..lastsec]" using 5 upto_split1 [of x "bad_end a + 1" lastsec] by simp
    then have "map (alts_remap (a # es)) [x..lastsec] = ck_sectors ?d @ map (alts_remap es) [bad_end a + 1..lastsec]"
      using map_remap_in [OF 5(1), of "bad_end a" es] map_remap_after [of a "bad_end a + 1" es lastsec] by (simp add: algebra_simps)
    then show ?thesis using 5 m r
      by (auto simp: Let_def put_ck_def nth_append list_update_append algebra_simps intro!: ck_prefix_ConsI exI [of _ "_ # _"])
  next
    case 6
    obtain m where m: "n = Suc (Suc m)" "2 * bbh_count lastsec es \<le> m" using Cons.prems(3) 6 s(2)
      by (cases n; cases "n - 1") auto
    let ?d = "\<lparr>ck_sector = x, ck_seclen = bad_start a - x\<rparr>"
    let ?e = "\<lparr>ck_sector = good_start a, ck_seclen = bad_end a - bad_start a + 1\<rparr>"
    have "bad_end a + 1 \<le> lastsec" using 6 by simp
    from Cons.IH [OF s(1) this m(2), of "pre @ [?d, ?e]"] obtain r where
      r: "bbh_split lastsec es (Suc (Suc (length pre))) (pre @ ?d # ?e # \<lparr>ck_sector = bad_end a + 1, ck_seclen = lastsec - bad_end a\<rparr> # replicate m ck_zero) =
          Some (pre @ ?d # ?e # r)" "length r = Suc m" "concat (map ck_sectors r) = map (alts_remap es) [bad_end a + 1..lastsec]" "ck_prefix r"
      by auto
    have "[x..lastsec] = [x..bad_start a - 1] @ [bad_start a..bad_end a] @ [bad_end a + 1..lastsec]"
      using 6 s(2) upto_split1 [of x "bad_start a" lastsec] upto_split1 [of "bad_start a" "bad_end a + 1" lastsec] by simp
    then have "map (alts_remap (a # es)) [x..lastsec] = ck_sectors ?d @ ck_sectors ?e @ map (alts_remap es) [bad_end a + 1..lastsec]"
      using map_remap_in [of a "bad_start a" "bad_end a" es] map_remap_after [of a "bad_end a + 1" es lastsec]
        map_remap_before [OF Cons.prems(1), of "bad_start a - 1" x] by (simp add: algebra_simps)
    then show ?thesis using 6 m r s(2)
      by (auto simp: Let_def put_ck_def nth_append list_update_append algebra_simps intro!: ck_prefix_ConsI exI [of _ "_ # _ # _"])
  qed
qed

subsection \<open>Reading the table\<close>

definition NDKMAP :: nat where "NDKMAP = 16"
definition V_ALTSCTR :: int where "V_ALTSCTR = 9"
definition ALTS_SANITY :: int where "ALTS_SANITY = 0xaabbccdd"

text \<open>What the component reads from its surroundings: \<open>cmlb_partinfo\<close> (size, first block and tag of a slice, or
  an error), whether a buffer for a number of bytes at a block can be had, and the two reads, of the label block
  and of the table, by block and byte count.\<close>

record bbh_env =
  cmlb_partinfo :: "nat \<Rightarrow> (int \<times> int \<times> int) option"
  iob_can :: "int \<Rightarrow> int \<Rightarrow> bool"
  xfer_label :: "int \<Rightarrow> alts_parttbl option"
  xfer_table :: "int \<Rightarrow> int \<Rightarrow> alts_ent list option"

definition uint64 :: "int \<Rightarrow> int" where "uint64 x = x mod 2 ^ 64"

definition dadk_iob_alloc :: "bbh_env \<Rightarrow> int \<Rightarrow> int \<Rightarrow> cmdk_bbh \<Rightarrow> nat option \<times> cmdk_bbh" where
  "dadk_iob_alloc env blk n dk =
    (if iob_can env blk n
     then (Some (iob_next dk), dk\<lparr>iob_live := iob_next dk # iob_live dk, iob_next := Suc (iob_next dk)\<rparr>)
     else (None, dk))"

text \<open>Freeing a buffer twice is a fault.\<close>

definition dadk_iob_free :: "nat \<Rightarrow> cmdk_bbh \<Rightarrow> cmdk_bbh option" where
  "dadk_iob_free h dk = (if h \<in> set (iob_live dk) then Some (dk\<lparr>iob_live := remove1 h (iob_live dk)\<rparr>) else None)"

definition iob_free_opt :: "nat option \<Rightarrow> cmdk_bbh \<Rightarrow> cmdk_bbh option" where
  "iob_free_opt h dk = (case h of None \<Rightarrow> Some dk | Some h \<Rightarrow> dadk_iob_free h dk)"

text \<open>The label \<open>empty1\<close>.\<close>

definition bbh_empty :: "nat option \<Rightarrow> cmdk_bbh \<Rightarrow> cmdk_bbh option" where
  "bbh_empty handle dk =
    Option.bind (if handle \<noteq> None \<and> handle \<noteq> dk_alts_hdl dk then iob_free_opt handle dk else Some dk)
      (\<lambda>dk. Option.bind (iob_free_opt (dk_alts_hdl dk) dk) (\<lambda>dk. Some (dk\<lparr>dk_alts_hdl := None\<rparr>)))"

text \<open>The slice that holds the alternates.\<close>

fun find_alts :: "bbh_env \<Rightarrow> nat list \<Rightarrow> (int \<times> int) option" where
  "find_alts env [] = None"
| "find_alts env (p # ps) =
    (case cmlb_partinfo env p of
       None \<Rightarrow> None
     | Some (slcn, slcb, vtoctag) \<Rightarrow> if vtoctag = V_ALTSCTR \<and> slcn > 1 then Some (slcn, slcb) else find_alts env ps)"

text \<open>The two loops over the table; the count is of the entries the label block claims, \<open>None\<close> a read beyond
  the buffer.\<close>

fun bbh_first :: "int \<Rightarrow> nat \<Rightarrow> alts_ent list \<Rightarrow> nat option" where
  "bbh_first slcb 0 es = Some 0"
| "bbh_first slcb (Suc n) [] = None"
| "bbh_first slcb (Suc n) (e # es) =
    (if uint64 (daddr32 (bad_start e + bad_end e)) \<ge> slcb then Some 0 else map_option Suc (bbh_first slcb n es))"

fun bbh_until :: "int \<Rightarrow> nat \<Rightarrow> alts_ent list \<Rightarrow> nat option" where
  "bbh_until slce 0 es = Some 0"
| "bbh_until slce (Suc n) [] = None"
| "bbh_until slce (Suc n) (e # es) =
    (if uint64 (bad_start e) \<le> slce then map_option Suc (bbh_until slce n es) else Some 0)"

fun bbh_index :: "bbh_env \<Rightarrow> alts_ent list \<Rightarrow> nat \<Rightarrow> nat list \<Rightarrow> cmdk_bbh \<Rightarrow> (bool \<times> cmdk_bbh) option" where
  "bbh_index env ents altused [] dk = Some (True, dk)"
| "bbh_index env ents altused (i # is) dk =
    (case cmlb_partinfo env i of
       None \<Rightarrow> Some (False, dk)
     | Some (slcn, slcb, _) \<Rightarrow>
         (let dk = dk\<lparr>dk_slc_cnt := (dk_slc_cnt dk)(i := 0)\<rparr>
          in if slcn = 0 then bbh_index env ents altused is dk
             else
               (let slce = uint64 (slcb + slcn - 1)
                in Option.bind (bbh_first slcb altused ents)
                     (\<lambda>j. Option.bind (bbh_until slce (altused - j) (drop j ents))
                       (\<lambda>cnt. bbh_index env ents altused is
                         (dk\<lparr>dk_slc_cnt := (dk_slc_cnt dk)(i := cnt), dk_slc_ent := (dk_slc_ent dk)(i := drop j ents)\<rparr>))))))"

definition bbh_install :: "bbh_env \<Rightarrow> nat \<Rightarrow> nat \<Rightarrow> alts_ent list \<Rightarrow> cmdk_bbh \<Rightarrow> cmdk_bbh option" where
  "bbh_install env handle altused ents dk =
    Option.bind (iob_free_opt (dk_alts_hdl dk) dk)
      (\<lambda>dk. Option.bind (bbh_index env ents altused [0..<NDKMAP] (dk\<lparr>dk_alts_hdl := Some handle, dk_altused := altused\<rparr>))
        (\<lambda>(ok, dk). if ok then Some dk else bbh_empty (Some handle) dk))"

definition cmdk_bbh_reopen :: "bbh_env \<Rightarrow> cmdk_bbh \<Rightarrow> cmdk_bbh option" where
  "cmdk_bbh_reopen env dk =
    (case find_alts env [0..<NDKMAP] of
       None \<Rightarrow> bbh_empty None dk
     | Some (slcn, slcb) \<Rightarrow>
         (let (handle, dk) = dadk_iob_alloc env slcb 512 dk
          in case handle of
               None \<Rightarrow> bbh_empty None dk
             | Some h \<Rightarrow>
                 (case xfer_label env slcb of
                    None \<Rightarrow> bbh_empty handle dk
                  | Some ap \<Rightarrow>
                      if alts_sanity ap \<noteq> ALTS_SANITY then bbh_empty handle dk
                      else
                        (let altused = alts_ent_used ap; altbase = alts_ent_base ap mod 2 ^ 32; altlast = alts_ent_end ap mod 2 ^ 32
                         in if altused = 0 \<or> altbase < 1 \<or> altbase > altlast \<or> altlast \<ge> slcn then bbh_empty handle dk
                            else Option.bind (dadk_iob_free h dk)
                              (\<lambda>dk.
                                let blk = uint64 (slcb + altbase); n = ((altlast - altbase + 1) * 512) mod 2 ^ 32;
                                    (handle, dk) = dadk_iob_alloc env blk n dk
                                in case handle of
                                     None \<Rightarrow> bbh_empty None dk
                                   | Some h \<Rightarrow>
                                       (case xfer_table env blk n of
                                          None \<Rightarrow> bbh_empty handle dk
                                        | Some ents \<Rightarrow> bbh_install env h altused ents dk))))))"

text \<open>\<open>cmdk_bbh_free_alts\<close>; nothing in the driver calls it.\<close>

definition cmdk_bbh_free_alts :: "cmdk_bbh \<Rightarrow> cmdk_bbh option" where
  "cmdk_bbh_free_alts dk =
    (case dk_alts_hdl dk of
       None \<Rightarrow> Some dk
     | Some h \<Rightarrow> Option.bind (dadk_iob_free h dk) (\<lambda>dk. Some (dk\<lparr>dk_alts_hdl := None\<rparr>)))"

subsection \<open>The index of a slice\<close>

text \<open>The table the disk holds.\<close>

definition bad_table :: "bbh_env \<Rightarrow> alts_ent list" where
  "bad_table env =
    (case find_alts env [0..<NDKMAP] of
       None \<Rightarrow> []
     | Some (slcn, slcb) \<Rightarrow>
         (case xfer_label env slcb of
            None \<Rightarrow> []
          | Some ap \<Rightarrow>
              (let base = alts_ent_base ap mod 2 ^ 32; last = alts_ent_end ap mod 2 ^ 32
               in case xfer_table env (uint64 (slcb + base)) (((last - base + 1) * 512) mod 2 ^ 32) of
                    None \<Rightarrow> []
                  | Some ents \<Rightarrow> take (alts_ent_used ap) ents)))"

definition label_fits :: "bbh_env \<Rightarrow> bool" where
  "label_fits env \<longleftrightarrow>
    (\<forall>slcb ap blk n ents. xfer_label env slcb = Some ap \<longrightarrow> xfer_table env blk n = Some ents \<longrightarrow> alts_ent_used ap \<le> length ents)"

definition alts_valid :: "alts_ent list \<Rightarrow> bool" where
  "alts_valid es \<longleftrightarrow> alts_sorted es \<and> (\<forall>e\<in>set es. 0 \<le> bad_start e \<and> bad_end e < 2 ^ 31)"

lemma bbh_first_some:
  "n \<le> length es \<Longrightarrow> \<exists>j\<le>n. bbh_first slcb n es = Some j \<and> (\<forall>e\<in>set (take j es). uint64 (daddr32 (bad_start e + bad_end e)) < slcb)"
proof (induction slcb n es rule: bbh_first.induct)
  case (3 slcb n e es)
  show ?case
  proof (cases "uint64 (daddr32 (bad_start e + bad_end e)) \<ge> slcb")
    case False
    with 3 obtain j where j: "j \<le> n" "bbh_first slcb n es = Some j"
      "\<forall>e\<in>set (take j es). uint64 (daddr32 (bad_start e + bad_end e)) < slcb" by auto
    then have "Suc j \<le> Suc n" "bbh_first slcb (Suc n) (e # es) = Some (Suc j)"
      "\<forall>x\<in>set (take (Suc j) (e # es)). uint64 (daddr32 (bad_start x + bad_end x)) < slcb" using False by auto
    then show ?thesis by blast
  qed auto
qed auto

lemma bbh_until_some:
  "n \<le> length es \<Longrightarrow> \<exists>j\<le>n. bbh_until slce n es = Some j \<and> (j < n \<longrightarrow> slce < uint64 (bad_start (es ! j)))"
proof (induction slce n es rule: bbh_until.induct)
  case (3 slce n e es)
  show ?case
  proof (cases "uint64 (bad_start e) \<le> slce")
    case True
    with 3 obtain j where j: "j \<le> n" "bbh_until slce n es = Some j" "j < n \<longrightarrow> slce < uint64 (bad_start (es ! j))" by auto
    then have "Suc j \<le> Suc n" "bbh_until slce (Suc n) (e # es) = Some (Suc j)"
      "Suc j < Suc n \<longrightarrow> slce < uint64 (bad_start ((e # es) ! Suc j))" using True by auto
    then show ?thesis by blast
  qed auto
qed auto

lemma uint64_daddr32_sum_ge:
  assumes "0 \<le> a" "a \<le> b" "b < 2 ^ 31" "slcb < 2 ^ 62" "uint64 (daddr32 (a + b)) < slcb"
  shows "b < slcb"
proof (cases "a + b < 2 ^ 31")
  case True
  then have "daddr32 (a + b) = a + b" using assms by (simp add: daddr32_def signed_take_bit_int_eq_self)
  then show ?thesis using assms True by (simp add: uint64_def)
next
  case False
  define k where "k = a + b"
  have k: "2 ^ 31 \<le> k" "k < 2 ^ 32" using False assms by (simp_all add: k_def)
  have "daddr32 k = (k + 2 ^ 31) mod 2 ^ 32 - 2 ^ 31"
    by (simp add: daddr32_def signed_take_bit_eq_take_bit_shift take_bit_eq_mod)
  also have "(k + 2 ^ 31) mod 2 ^ 32 = (k + 2 ^ 31 - 2 ^ 32) mod (2 ^ 32 :: int)"
    by (simp only: minus_mod_self2)
  also have "\<dots> = k + 2 ^ 31 - 2 ^ 32" using k by (intro mod_pos_pos_trivial) simp_all
  finally have d: "daddr32 k = k - 2 ^ 32" by simp
  have "uint64 (k - 2 ^ 32) = (k - 2 ^ 32 + 2 ^ 64) mod 2 ^ 64" by (simp only: uint64_def mod_add_self2)
  also have "\<dots> = k - 2 ^ 32 + 2 ^ 64" using k by (intro mod_pos_pos_trivial) simp_all
  finally have "2 ^ 62 \<le> uint64 (daddr32 k)" using k d by simp
  then show ?thesis using assms by (simp add: k_def)
qed

lemma alts_remap_append_left: "\<forall>e\<in>set xs. \<not> (bad_start e \<le> s \<and> s \<le> bad_end e) \<Longrightarrow> alts_remap (xs @ ys) s = alts_remap ys s"
  by (induction xs) (auto simp: alts_remap.simps(2))

lemma alts_remap_append_right: "\<forall>e\<in>set ys. \<not> (bad_start e \<le> s \<and> s \<le> bad_end e) \<Longrightarrow> alts_remap (xs @ ys) s = alts_remap xs s"
proof (induction xs)
  case Nil
  then show ?case using alts_remap_append_left [of ys s "[]"] by simp
qed (auto simp: alts_remap.simps(2))

lemma alts_sorted_append: "alts_sorted (xs @ ys) \<longleftrightarrow> alts_sorted xs \<and> alts_sorted ys \<and> (\<forall>x\<in>set xs. \<forall>y\<in>set ys. bad_end x < bad_start y)"
  by (auto simp: alts_sorted_def sorted_wrt_append)

text \<open>What the index promises for a slice: its entries are a stretch of the table that remaps the sectors of the
  slice as the whole table does.\<close>

definition slice_index_ok :: "bbh_env \<Rightarrow> alts_ent list \<Rightarrow> cmdk_bbh \<Rightarrow> nat \<Rightarrow> bool" where
  "slice_index_ok env t dk i \<longleftrightarrow>
    (\<forall>slcn slcb tag. cmlb_partinfo env i = Some (slcn, slcb, tag) \<longrightarrow> 0 \<le> slcb \<longrightarrow> 0 \<le> slcn \<longrightarrow> slcb + slcn \<le> 2 ^ 31 \<longrightarrow>
      alts_valid t \<longrightarrow>
      dk_slc_cnt dk i = 0 \<and> (\<forall>s. slcb \<le> s \<and> s < slcb + slcn \<longrightarrow> alts_remap t s = s) \<or>
      dk_slc_cnt dk i \<le> length (dk_slc_ent dk i) \<and> alts_valid (take (dk_slc_cnt dk i) (dk_slc_ent dk i)) \<and>
      (\<forall>s. slcb \<le> s \<and> s < slcb + slcn \<longrightarrow> alts_remap (take (dk_slc_cnt dk i) (dk_slc_ent dk i)) s = alts_remap t s))"

lemma slice_stretch_remap:
  assumes v: "alts_valid (take n es)" and len: "n \<le> length es" and j: "j \<le> n"
    and before: "\<forall>e\<in>set (take j es). uint64 (daddr32 (bad_start e + bad_end e)) < slcb"
    and cnt: "cnt \<le> n - j" "cnt < n - j \<longrightarrow> uint64 (slcb + slcn - 1) < uint64 (bad_start (drop j es ! cnt))"
    and slc: "0 \<le> slcb" "0 < slcn" "slcb + slcn \<le> 2 ^ 31"
  shows "alts_valid (take cnt (drop j es))"
    "slcb \<le> s \<Longrightarrow> s < slcb + slcn \<Longrightarrow> alts_remap (take cnt (drop j es)) s = alts_remap (take n es) s"
proof -
  define A where "A = take j es"
  define B where "B = take cnt (drop j es)"
  define C where "C = take (n - j - cnt) (drop (j + cnt) es)"
  have split: "take n es = A @ B @ C"
    using j cnt(1) unfolding A_def B_def C_def by (metis (no_types, lifting) add.commute append_assoc drop_drop le_add_diff_inverse take_add)
  have vA: "alts_sorted (A @ B @ C)" "\<forall>e\<in>set (A @ B @ C). 0 \<le> bad_start e \<and> bad_end e < 2 ^ 31"
    using v unfolding split alts_valid_def by blast+
  then show "alts_valid (take cnt (drop j es))" unfolding alts_valid_def alts_sorted_append B_def [symmetric] by auto
  assume s: "slcb \<le> s" "s < slcb + slcn"
  have outA: "\<forall>e\<in>set A. \<not> (bad_start e \<le> s \<and> s \<le> bad_end e)"
  proof
    fix e assume e: "e \<in> set A"
    have "bad_end e < slcb"
    proof (rule uint64_daddr32_sum_ge)
      show "uint64 (daddr32 (bad_start e + bad_end e)) < slcb" using before e A_def by blast
      show "0 \<le> bad_start e" "bad_end e < 2 ^ 31" using vA(2) e by auto
      show "bad_start e \<le> bad_end e" using vA(1) e by (auto simp: alts_sorted_def)
      show "slcb < 2 ^ 62" using slc by simp
    qed
    then show "\<not> (bad_start e \<le> s \<and> s \<le> bad_end e)" using s(1) by simp
  qed
  have outC: "\<forall>e\<in>set C. \<not> (bad_start e \<le> s \<and> s \<le> bad_end e)"
  proof
    fix e assume e: "e \<in> set C"
    then have ne: "C \<noteq> []" by auto
    then have lt: "cnt < n - j" unfolding C_def by auto
    define x where "x = drop j es ! cnt"
    have x: "x = C ! 0" using ne unfolding C_def x_def by (simp add: nth_drop ac_simps)
    have xC: "x \<in> set C" using ne x by simp
    have "uint64 (bad_start x) = bad_start x" "uint64 (slcb + slcn - 1) = slcb + slcn - 1"
    proof -
      have "bad_start x \<le> bad_end x" "0 \<le> bad_start x" "bad_end x < 2 ^ 31" using vA xC by (auto simp: alts_sorted_def)
      then show "uint64 (bad_start x) = bad_start x" unfolding uint64_def by (intro mod_pos_pos_trivial) auto
      show "uint64 (slcb + slcn - 1) = slcb + slcn - 1" unfolding uint64_def using slc by (intro mod_pos_pos_trivial) auto
    qed
    then have sx: "s < bad_start x" using cnt(2) lt s(2) unfolding x_def by simp
    have sC: "alts_sorted C" using vA(1) by (simp add: alts_sorted_append)
    obtain k where k: "k < length C" "C ! k = e" using e by (auto simp: in_set_conv_nth)
    have "bad_start x \<le> bad_start e"
    proof (cases "k = 0")
      case False
      then have "bad_end (C ! 0) < bad_start (C ! k)" using alts_sorted_ends(1) [OF sC, of 0 k] k(1) by simp
      moreover have "bad_start x \<le> bad_end x" using sC xC by (auto simp: alts_sorted_def)
      ultimately show ?thesis using x k(2) by simp
    qed (use x k in simp)
    then show "\<not> (bad_start e \<le> s \<and> s \<le> bad_end e)" using sx by simp
  qed
  show "alts_remap (take cnt (drop j es)) s = alts_remap (take n es) s"
    unfolding split using alts_remap_append_left [OF outA, of "B @ C"] alts_remap_append_right [OF outC, of B]
    by (simp add: B_def)
qed

lemma bbh_index_spec:
  assumes "altused \<le> length ents"
  shows "distinct is \<Longrightarrow>
    (\<exists>ok dk'. bbh_index env ents altused is dk = Some (ok, dk') \<and>
      iob_live dk' = iob_live dk \<and> iob_next dk' = iob_next dk \<and> dk_alts_hdl dk' = dk_alts_hdl dk \<and>
      (\<forall>i. i \<notin> set is \<longrightarrow> dk_slc_cnt dk' i = dk_slc_cnt dk i \<and> dk_slc_ent dk' i = dk_slc_ent dk i) \<and>
      (ok \<longrightarrow> (\<forall>i\<in>set is. slice_index_ok env (take altused ents) dk' i)))"
proof (induction "is" arbitrary: dk)
  case Nil
  then show ?case by (intro exI [of _ True] exI [of _ dk]) simp
next
  case (Cons i "is")
  show ?case
  proof (cases "cmlb_partinfo env i")
    case None
    then show ?thesis by (intro exI [of _ False] exI [of _ dk]) simp
  next
    case (Some p)
    obtain slcn slcb tag where p: "p = (slcn, slcb, tag)" by (cases p)
    have step: ?thesis
      if ix: "bbh_index env ents altused (i # is) dk = bbh_index env ents altused is dk1"
        and same: "iob_live dk1 = iob_live dk" "iob_next dk1 = iob_next dk" "dk_alts_hdl dk1 = dk_alts_hdl dk"
          "\<forall>k. k \<noteq> i \<longrightarrow> dk_slc_cnt dk1 k = dk_slc_cnt dk k \<and> dk_slc_ent dk1 k = dk_slc_ent dk k"
        and ok: "slice_index_ok env (take altused ents) dk1 i" for dk1
    proof -
      obtain k dk' where IH: "bbh_index env ents altused is dk1 = Some (k, dk')"
        "iob_live dk' = iob_live dk1" "iob_next dk' = iob_next dk1" "dk_alts_hdl dk' = dk_alts_hdl dk1"
        "\<forall>i. i \<notin> set is \<longrightarrow> dk_slc_cnt dk' i = dk_slc_cnt dk1 i \<and> dk_slc_ent dk' i = dk_slc_ent dk1 i"
        "k \<longrightarrow> (\<forall>i\<in>set is. slice_index_ok env (take altused ents) dk' i)"
        using Cons.IH [of dk1] Cons.prems by auto
      have "slice_index_ok env (take altused ents) dk' i" using ok IH(5) Cons.prems by (simp add: slice_index_ok_def)
      then show ?thesis using ix same IH by auto
    qed
    show ?thesis
    proof (cases "slcn = 0")
      case True
      show ?thesis
        by (rule step [of "dk\<lparr>dk_slc_cnt := (dk_slc_cnt dk)(i := 0)\<rparr>"]) (use Some p True in \<open>auto simp: Let_def slice_index_ok_def\<close>)
    next
      case False
      obtain j where j: "j \<le> altused" "bbh_first slcb altused ents = Some j"
        "\<forall>e\<in>set (take j ents). uint64 (daddr32 (bad_start e + bad_end e)) < slcb" using bbh_first_some [OF assms] by blast
      have "altused - j \<le> length (drop j ents)" using assms by simp
      from bbh_until_some [OF this, of "uint64 (slcb + slcn - 1)"] obtain c where
        c: "c \<le> altused - j" "bbh_until (uint64 (slcb + slcn - 1)) (altused - j) (drop j ents) = Some c"
          "c < altused - j \<longrightarrow> uint64 (slcb + slcn - 1) < uint64 (bad_start (drop j ents ! c))" by blast
      let ?dk = "dk\<lparr>dk_slc_cnt := (dk_slc_cnt dk)(i := c), dk_slc_ent := (dk_slc_ent dk)(i := drop j ents)\<rparr>"
      have "slice_index_ok env (take altused ents) ?dk i"
        using slice_stretch_remap [OF _ assms j(1) j(3) c(1) c(3)] Some p False c(1) assms
        by (auto simp: slice_index_ok_def)
      then show ?thesis by (rule step [of ?dk, rotated -1]) (use Some p False j(2) c(2) in \<open>auto simp: Let_def\<close>)
    qed
  qed
qed

text \<open>The only buffer the component holds is the table in use.\<close>

definition bbh_inv :: "cmdk_bbh \<Rightarrow> bool" where
  "bbh_inv dk \<longleftrightarrow>
    iob_live dk = (case dk_alts_hdl dk of None \<Rightarrow> [] | Some h \<Rightarrow> [h]) \<and> (\<forall>h\<in>set (iob_live dk). h < iob_next dk)"

lemma bbh_empty_spec:
  assumes "iob_live dk = (case h of None \<Rightarrow> id | Some h \<Rightarrow> (#) h) (case dk_alts_hdl dk of None \<Rightarrow> [] | Some h \<Rightarrow> [h])"
    "h \<noteq> None \<longrightarrow> h \<noteq> dk_alts_hdl dk"
  shows "\<exists>dk'. bbh_empty h dk = Some dk' \<and> iob_live dk' = [] \<and> dk_alts_hdl dk' = None"
  using assms
  by (cases h; cases "dk_alts_hdl dk") (auto simp: bbh_empty_def iob_free_opt_def dadk_iob_free_def)

lemma bbh_empty_in_use:
  assumes "iob_live dk = [h]" "dk_alts_hdl dk = Some h"
  shows "\<exists>dk'. bbh_empty (Some h) dk = Some dk' \<and> iob_live dk' = [] \<and> dk_alts_hdl dk' = None"
  using assms by (simp add: bbh_empty_def iob_free_opt_def dadk_iob_free_def)

lemma dadk_iob_alloc_spec:
  "dadk_iob_alloc env blk n dk = (None, dk) \<or>
   dadk_iob_alloc env blk n dk = (Some (iob_next dk), dk\<lparr>iob_live := iob_next dk # iob_live dk, iob_next := Suc (iob_next dk)\<rparr>)"
  by (simp add: dadk_iob_alloc_def)

lemma bbh_install_spec:
  assumes "iob_live dk = h # (case dk_alts_hdl dk of None \<Rightarrow> [] | Some h \<Rightarrow> [h])" "dk_alts_hdl dk \<noteq> Some h"
    "h < iob_next dk" "altused \<le> length ents"
  shows "\<exists>dk'. bbh_install env h altused ents dk = Some dk' \<and> bbh_inv dk' \<and>
    (dk_alts_hdl dk' \<noteq> None \<longrightarrow> (\<forall>i<NDKMAP. slice_index_ok env (take altused ents) dk' i))"
proof -
  obtain dk1 where dk1: "iob_free_opt (dk_alts_hdl dk) dk = Some dk1" "iob_live dk1 = [h]" "iob_next dk1 = iob_next dk"
    using assms(1,2) by (cases "dk_alts_hdl dk") (auto simp: iob_free_opt_def dadk_iob_free_def)
  let ?dk2 = "dk1\<lparr>dk_alts_hdl := Some h, dk_altused := altused\<rparr>"
  from bbh_index_spec [OF assms(4), of "[0..<NDKMAP]" env ?dk2] obtain ok dk' where
    ix: "bbh_index env ents altused [0..<NDKMAP] ?dk2 = Some (ok, dk')" "iob_live dk' = [h]" "iob_next dk' = iob_next dk"
      "dk_alts_hdl dk' = Some h" "ok \<longrightarrow> (\<forall>i<NDKMAP. slice_index_ok env (take altused ents) dk' i)"
    using dk1 by auto
  show ?thesis
  proof (cases ok)
    case True
    then show ?thesis using dk1(1) ix assms(3) by (simp add: bbh_install_def bbh_inv_def)
  next
    case False
    with bbh_empty_in_use [OF ix(2,4)] show ?thesis using dk1(1) ix by (auto simp: bbh_install_def bbh_inv_def)
  qed
qed

lemma cmdk_bbh_reopen_spec:
  assumes inv: "bbh_inv dk" and fits: "label_fits env"
  shows "\<exists>dk'. cmdk_bbh_reopen env dk = Some dk' \<and> bbh_inv dk' \<and>
    (dk_alts_hdl dk' \<noteq> None \<longrightarrow> (\<forall>i<NDKMAP. slice_index_ok env (bad_table env) dk' i))"
proof -
  let ?ok = "\<lambda>dk'. bbh_inv dk' \<and> (dk_alts_hdl dk' \<noteq> None \<longrightarrow> (\<forall>i<NDKMAP. slice_index_ok env (bad_table env) dk' i))"
  have live: "iob_live dk = (case dk_alts_hdl dk of None \<Rightarrow> [] | Some h \<Rightarrow> [h])" "\<forall>h. dk_alts_hdl dk = Some h \<longrightarrow> h < iob_next dk"
    using inv by (auto simp: bbh_inv_def)
  have emp: "\<exists>dk'. bbh_empty h x = Some dk' \<and> ?ok dk'"
    if "\<exists>dk'. bbh_empty h x = Some dk' \<and> iob_live dk' = [] \<and> dk_alts_hdl dk' = None" for h x
    using that by (auto simp: bbh_inv_def)
  have none: "\<exists>dk'. bbh_empty None dk = Some dk' \<and> ?ok dk'"
    by (rule emp, rule bbh_empty_spec) (use live in auto)
  have new: "\<exists>dk'. bbh_empty (Some n) (dk\<lparr>iob_live := n # iob_live dk, iob_next := m\<rparr>) = Some dk' \<and> ?ok dk'" if "n \<ge> iob_next dk" for n m
    by (rule emp, rule bbh_empty_spec) (use live that in \<open>auto dest: sym [of "Some n"]\<close>)
  show ?thesis
  proof (cases "find_alts env [0..<NDKMAP]")
    case None
    then show ?thesis using none by (simp add: cmdk_bbh_reopen_def)
  next
    case (Some a)
    obtain slcn slcb where a: "find_alts env [0..<NDKMAP] = Some (slcn, slcb)" using Some by (cases a) auto
    show ?thesis
    proof (cases "iob_can env slcb 512")
      case False
      then show ?thesis using none a by (simp add: cmdk_bbh_reopen_def dadk_iob_alloc_def)
    next
      case can: True
      let ?dk1 = "dk\<lparr>iob_live := iob_next dk # iob_live dk, iob_next := Suc (iob_next dk)\<rparr>"
      show ?thesis
      proof (cases "xfer_label env slcb")
        case None
        then show ?thesis using new [of "iob_next dk" "Suc (iob_next dk)"] a can
          by (simp add: cmdk_bbh_reopen_def dadk_iob_alloc_def)
      next
        case (Some ap)
        define base where "base = alts_ent_base ap mod 2 ^ 32"
        define last where "last = alts_ent_end ap mod 2 ^ 32"
        define bad where "bad \<longleftrightarrow> alts_sanity ap \<noteq> ALTS_SANITY \<or> alts_ent_used ap = 0 \<or> base < 1 \<or> base > last \<or> last \<ge> slcn"
        define blk where "blk = uint64 (slcb + base)"
        define n where "n = ((last - base + 1) * 512) mod (2 ^ 32 :: int)"
        let ?dk2 = "dk\<lparr>iob_next := Suc (iob_next dk)\<rparr>"
        let ?dk3 = "dk\<lparr>iob_live := Suc (iob_next dk) # iob_live dk, iob_next := Suc (Suc (iob_next dk))\<rparr>"
        have bad_case: "cmdk_bbh_reopen env dk = bbh_empty (Some (iob_next dk)) ?dk1" if bad
          using that a can Some by (auto simp: cmdk_bbh_reopen_def dadk_iob_alloc_def Let_def bad_def base_def last_def)
        have good_case: "cmdk_bbh_reopen env dk =
            (if iob_can env blk n
             then (case xfer_table env blk n of
                     None \<Rightarrow> bbh_empty (Some (Suc (iob_next dk))) ?dk3
                   | Some ents \<Rightarrow> bbh_install env (Suc (iob_next dk)) (alts_ent_used ap) ents ?dk3)
             else bbh_empty None ?dk2)" if "\<not> bad"
          using that a can Some
          by (simp add: cmdk_bbh_reopen_def dadk_iob_alloc_def dadk_iob_free_def Let_def bad_def base_def last_def blk_def n_def split: option.split)
        show ?thesis
        proof (cases bad)
          case True
          then show ?thesis using bad_case new [of "iob_next dk" "Suc (iob_next dk)"] by simp
        next
          case good: False
          show ?thesis
          proof (cases "iob_can env blk n")
            case False
            then have e: "cmdk_bbh_reopen env dk = bbh_empty None ?dk2" using good_case [OF good] by simp
            show ?thesis unfolding e by (rule emp, rule bbh_empty_spec) (use live in auto)
          next
            case True
            show ?thesis
            proof (cases "xfer_table env blk n")
              case None
              then have e: "cmdk_bbh_reopen env dk = bbh_empty (Some (Suc (iob_next dk))) ?dk3" using good_case [OF good] True by simp
              show ?thesis unfolding e using new [of "Suc (iob_next dk)" "Suc (Suc (iob_next dk))"] by simp
            next
              case (Some ents)
              then have e: "cmdk_bbh_reopen env dk = bbh_install env (Suc (iob_next dk)) (alts_ent_used ap) ents ?dk3"
                using good_case [OF good] True by simp
              have t: "bad_table env = take (alts_ent_used ap) ents"
                using a \<open>xfer_label env slcb = Some ap\<close> Some by (simp add: bad_table_def base_def last_def blk_def n_def Let_def)
              have l: "alts_ent_used ap \<le> length ents" using fits \<open>xfer_label env slcb = Some ap\<close> Some by (auto simp: label_fits_def)
              have "\<exists>dk'. bbh_install env (Suc (iob_next dk)) (alts_ent_used ap) ents ?dk3 = Some dk' \<and> bbh_inv dk' \<and>
                (dk_alts_hdl dk' \<noteq> None \<longrightarrow> (\<forall>i<NDKMAP. slice_index_ok env (take (alts_ent_used ap) ents) dk' i))"
                by (rule bbh_install_spec) (use live l in auto)
              then show ?thesis unfolding e t .
            qed
          qed
        qed
      qed
    qed
  qed
qed

subsection \<open>A request through the index\<close>

lemma alts_remap_drop_first:
  assumes "alts_sorted es" "x \<le> s"
  shows "alts_remap (drop (alts_first x es) es) s = alts_remap es s"
proof -
  have "\<forall>e\<in>set (take (alts_first x es) es). \<not> (bad_start e \<le> s \<and> s \<le> bad_end e)"
    using assms(2) unfolding alts_first_def by (auto simp: takeWhile_eq_take [symmetric] dest!: set_takeWhileD)
  from alts_remap_append_left [OF this, of "drop (alts_first x es) es"] show ?thesis by simp
qed

lemma alts_sorted_drop: "alts_sorted es \<Longrightarrow> alts_sorted (drop n es)"
  using alts_sorted_append [of "take n es" "drop n es"] by simp

lemma bbh_count_0: "bbh_count lastsec es = 0 \<longleftrightarrow> es = [] \<or> lastsec < bad_start (es ! 0)"
  by (cases es) auto

lemma alts_remap_count_0: "alts_sorted es \<Longrightarrow> bbh_count lastsec es = 0 \<Longrightarrow> s \<le> lastsec \<Longrightarrow> alts_remap es s = s"
  by (cases es) (auto simp: alts_remap_before_sorted split: if_splits)

lemma daddr32_id: "0 \<le> x \<Longrightarrow> x < 2 ^ 31 \<Longrightarrow> daddr32 x = x"
  by (simp add: daddr32_def signed_take_bit_int_eq_self)

lemma cmdk_bbh_gethandle_spec:
  assumes hdl: "dk_alts_hdl dk \<noteq> None" and part: "part < V_NUMPAR"
    and n: "0 < n" "0 \<le> sec" "sec + n \<le> 2 ^ 31"
    and cnt: "dk_slc_cnt dk part \<noteq> 0 \<longrightarrow> dk_slc_cnt dk part \<le> length (dk_slc_ent dk part)"
    and srt: "alts_sorted (take (dk_slc_cnt dk part) (dk_slc_ent dk part))"
  defines "es \<equiv> take (dk_slc_cnt dk part) (dk_slc_ent dk part)"
  shows "\<exists>r. cmdk_bbh_gethandle dk part sec (512 * n) = Some r \<and>
    (case r of
       None \<Rightarrow> \<forall>s. sec \<le> s \<and> s < sec + n \<longrightarrow> alts_remap es s = s
     | Some hp \<Rightarrow> h_idx hp = 0 \<and> h_totck hp = length (h_cktab hp) \<and>
         concat (map ck_sectors (h_cktab hp)) = map (alts_remap es) [sec..sec + n - 1] \<and> ck_prefix (h_cktab hp))"
proof (cases "dk_slc_cnt dk part = 0")
  case True
  then show ?thesis using hdl part by (simp add: cmdk_bbh_gethandle_def es_def)
next
  case False
  define f where "f = alts_first sec es"
  have sec: "daddr32 sec = sec" using n by (intro daddr32_id) auto
  have last: "daddr32 (sec + n - 1) = sec + n - 1" using n by (intro daddr32_id) auto
  have shift: "drop_bit 9 (512 * n) = n" by (simp add: drop_bit_eq_div)
  have len: "length es = dk_slc_cnt dk part" using cnt False by (simp add: es_def)
  have b: "cmdk_bbh_bsearch (dk_slc_ent dk part) (dk_slc_cnt dk part) sec = (if f < length es then int f else -1)"
    using cmdk_bbh_bsearch_spec [OF srt] cnt False len by (simp add: f_def es_def)
  have es: "alts_sorted es" using srt by (simp add: es_def)
  let ?altp = "drop f es"
  have rm: "alts_remap ?altp s = alts_remap es s" if "sec \<le> s" for s
    using alts_remap_drop_first [OF es that] by (simp add: f_def)
  have so: "alts_sorted ?altp" using es by (rule alts_sorted_drop)
  show ?thesis
  proof (cases "f < length es \<and> bbh_count (sec + n - 1) ?altp \<noteq> 0")
    case False
    have "cmdk_bbh_gethandle dk part sec (512 * n) = Some None"
      using False hdl part \<open>dk_slc_cnt dk part \<noteq> 0\<close> b
      by (auto simp: cmdk_bbh_gethandle_def sec shift last Let_def es_def)
    moreover have "alts_remap es s = s" if "sec \<le> s" "s < sec + n" for s
    proof (cases "f < length es")
      case True
      then show ?thesis using False rm [OF that(1)] alts_remap_count_0 [OF so, of "sec + n - 1" s] that by simp
    next
      case False
      then show ?thesis using rm [OF that(1)] by simp
    qed
    ultimately show ?thesis by auto
  next
    case True
    define cnt where "cnt = bbh_count (sec + n - 1) ?altp"
    let ?tab = "[] @ \<lparr>ck_sector = sec, ck_seclen = sec + n - 1 - sec + 1\<rparr> # replicate (2 * cnt) ck_zero"
    from bbh_split_covers [OF so, of sec "sec + n - 1" "2 * cnt" "[]"] n obtain r where
      r: "bbh_split (sec + n - 1) ?altp 0 ?tab = Some r" "length r = Suc (2 * cnt)"
         "concat (map ck_sectors r) = map (alts_remap ?altp) [sec..sec + n - 1]" "ck_prefix r"
      by (auto simp: cnt_def)
    have m: "map (alts_remap ?altp) [sec..sec + n - 1] = map (alts_remap es) [sec..sec + n - 1]"
      by (rule map_cong [OF refl]) (use rm in auto)
    have "cmdk_bbh_gethandle dk part sec (512 * n) = Some (Some \<lparr>h_totck = 2 * cnt + 1, h_idx = 0, h_cktab = r\<rparr>)"
      using True hdl part \<open>dk_slc_cnt dk part \<noteq> 0\<close> b r(1)
      by (simp add: cmdk_bbh_gethandle_def sec shift last Let_def es_def [symmetric] cnt_def [symmetric])
    then show ?thesis using r(2-4) m by simp
  qed
qed

subsection \<open>Properties\<close>

text \<open>The binary search returns the index of the first cluster of a sorted table that does not end before the
  sector, and -1 when there is none, as a linear search would.\<close>

theorem bbh_bsearch_correct:
  assumes "alts_sorted (take cnt buf)" "cnt \<le> length buf"
  shows "cmdk_bbh_bsearch buf cnt key =
    (if alts_first key (take cnt buf) < cnt then int (alts_first key (take cnt buf)) else -1)"
  using assms by (rule cmdk_bbh_bsearch_spec)

text \<open>A table of two clusters: sectors 10 to 12 are replaced by 50 to 52, sector 20 by 60. One slice covers blocks
  0 to 39 of the disk, the alternates are in another at 40.\<close>

definition demo_alts :: "alts_ent list" where
  "demo_alts = [\<lparr>bad_start = 10, bad_end = 12, good_start = 50\<rparr>, \<lparr>bad_start = 20, bad_end = 20, good_start = 60\<rparr>]"

definition demo_env :: bbh_env where
  "demo_env =
    \<lparr>cmlb_partinfo = (\<lambda>p. if p = 0 then Some (40, 0, 2) else if p = 1 then Some (40, 40, 9) else Some (0, 0, 0)),
     iob_can = (\<lambda>_ _. True),
     xfer_label = (\<lambda>_. Some \<lparr>alts_sanity = 0xaabbccdd, alts_ent_base = 1, alts_ent_used = 2, alts_ent_end = 1\<rparr>),
     xfer_table = (\<lambda>_ _. Some demo_alts)\<rparr>"

definition demo_dk :: cmdk_bbh where
  "demo_dk = \<lparr>iob_live = [3], iob_next = 4, dk_alts_hdl = Some 3, dk_altused = 1, dk_slc_cnt = (\<lambda>_. 0), dk_slc_ent = (\<lambda>_. [])\<rparr>"

lemma demo_alts_valid: "alts_valid demo_alts"
  by (simp add: alts_valid_def alts_sorted_def demo_alts_def)

theorem bbh_bsearch_correct_witness:
  "cmdk_bbh_bsearch demo_alts 2 13 = (if alts_first 13 (take 2 demo_alts) < 2 then int (alts_first 13 (take 2 demo_alts)) else -1) \<and>
   cmdk_bbh_bsearch demo_alts 2 13 = 1"
proof -
  have a: "alts_sorted (take 2 demo_alts)" "2 \<le> length demo_alts" by (simp_all add: alts_sorted_def demo_alts_def)
  show ?thesis using bbh_bsearch_correct [OF a, of 13] by (simp add: alts_first_def demo_alts_def)
qed

text \<open>C20: Re-reading the table ends without a fault, whatever fails on the way, and afterwards the component holds
  exactly the buffer of the table in use, or none: every other buffer it allocated has been freed once.\<close>

theorem bbh_reopen_buffers:
  assumes "bbh_inv dk" "label_fits env"
  shows "\<exists>dk'. cmdk_bbh_reopen env dk = Some dk' \<and>
    iob_live dk' = (case dk_alts_hdl dk' of None \<Rightarrow> [] | Some h \<Rightarrow> [h]) \<and> bbh_inv dk'"
  using cmdk_bbh_reopen_spec [OF assms] by (auto simp: bbh_inv_def)

lemma demo_inv: "bbh_inv demo_dk" by (simp add: bbh_inv_def demo_dk_def)
lemma demo_fits: "label_fits demo_env" by (simp add: label_fits_def demo_env_def demo_alts_def)

theorem bbh_reopen_buffers_witness:
  "\<exists>dk'. cmdk_bbh_reopen demo_env demo_dk = Some dk' \<and>
    iob_live dk' = (case dk_alts_hdl dk' of None \<Rightarrow> [] | Some h \<Rightarrow> [h]) \<and> bbh_inv dk'"
  using bbh_reopen_buffers [OF demo_inv demo_fits] .

lemma bbh_request_spec:
  assumes "bbh_inv dk" "label_fits env" "cmdk_bbh_reopen env dk = Some dk'" "dk_alts_hdl dk' \<noteq> None"
    and "alts_valid (bad_table env)" "part < NDKMAP" "cmlb_partinfo env part = Some (slcn, slcb, tag)"
    and "0 \<le> slcb" "slcb + slcn \<le> 2 ^ 31" "0 < n" "slcb \<le> sec" "sec + n \<le> slcb + slcn"
  shows "\<exists>r. cmdk_bbh_gethandle dk' part sec (512 * n) = Some r \<and>
    (case r of
       None \<Rightarrow> \<forall>s. sec \<le> s \<and> s < sec + n \<longrightarrow> alts_remap (bad_table env) s = s
     | Some hp \<Rightarrow> h_idx hp = 0 \<and> h_totck hp = length (h_cktab hp) \<and>
         concat (map ck_sectors (h_cktab hp)) = map (alts_remap (bad_table env)) [sec..sec + n - 1] \<and> ck_prefix (h_cktab hp))"
proof -
  have ix: "slice_index_ok env (bad_table env) dk' part" using cmdk_bbh_reopen_spec [OF assms(1,2)] assms(3,4,6) by auto
  have slc: "0 \<le> slcn" using assms(10-12) by simp
  define es where "es = take (dk_slc_cnt dk' part) (dk_slc_ent dk' part)"
  have p: "part < V_NUMPAR" using assms(6) by (simp add: NDKMAP_def V_NUMPAR_def)
  have es: "dk_slc_cnt dk' part \<noteq> 0 \<longrightarrow> dk_slc_cnt dk' part \<le> length (dk_slc_ent dk' part)" "alts_sorted es"
    "\<forall>s. slcb \<le> s \<and> s < slcb + slcn \<longrightarrow> alts_remap es s = alts_remap (bad_table env) s"
    using ix assms(5,7,8,9) slc
    by (auto simp: slice_index_ok_def es_def alts_valid_def alts_sorted_def)
  have m: "map (alts_remap es) [sec..sec + n - 1] = map (alts_remap (bad_table env)) [sec..sec + n - 1]"
    by (rule map_cong [OF refl]) (use es(3) assms(11,12) in auto)
  have e: "\<forall>s. sec \<le> s \<and> s < sec + n \<longrightarrow> alts_remap es s = alts_remap (bad_table env) s" using es(3) assms(11,12) by auto
  have "0 \<le> sec" "sec + n \<le> 2 ^ 31" using assms(8,9,11,12) by auto
  from cmdk_bbh_gethandle_spec [OF assms(4) p assms(10) this es(1) es(2) [unfolded es_def]] show ?thesis
    unfolding es_def [symmetric] m using e by (auto split: option.splits)
qed

text \<open>C19: After the table has been read, a request in a slice gets the sectors of the device that the whole table
  gives: without a handle no sector of the request is remapped, and the cookies of a handle are, in order,
  the replacement of every sector; the handle never writes beyond its cookies.\<close>

theorem bbh_request_remapped:
  assumes "bbh_inv dk" "label_fits env" "cmdk_bbh_reopen env dk = Some dk'" "dk_alts_hdl dk' \<noteq> None"
    and "alts_valid (bad_table env)" "part < NDKMAP" "cmlb_partinfo env part = Some (slcn, slcb, tag)"
    and "0 \<le> slcb" "slcb + slcn \<le> 2 ^ 31" "0 < n" "slcb \<le> sec" "sec + n \<le> slcb + slcn"
  shows "\<exists>r. cmdk_bbh_gethandle dk' part sec (512 * n) = Some r \<and>
    (case r of
       None \<Rightarrow> \<forall>s. sec \<le> s \<and> s < sec + n \<longrightarrow> alts_remap (bad_table env) s = s
     | Some hp \<Rightarrow> h_idx hp = 0 \<and> h_totck hp = length (h_cktab hp) \<and>
         concat (map ck_sectors (h_cktab hp)) = map (alts_remap (bad_table env)) [sec..sec + n - 1])"
  using bbh_request_spec [OF assms] by (auto split: option.splits)

lemma demo_reopen:
  "cmdk_bbh_reopen demo_env demo_dk \<noteq> None" "dk_alts_hdl (the (cmdk_bbh_reopen demo_env demo_dk)) \<noteq> None"
  "bad_table demo_env = demo_alts"
  by (code_simp, code_simp, code_simp)

lemma demo_cookies:
  "map_option (map_option h_cktab) (cmdk_bbh_gethandle (the (cmdk_bbh_reopen demo_env demo_dk)) 0 8 (512 * 14)) =
    Some (Some [\<lparr>ck_sector = 8, ck_seclen = 2\<rparr>, \<lparr>ck_sector = 50, ck_seclen = 3\<rparr>, \<lparr>ck_sector = 13, ck_seclen = 7\<rparr>,
      \<lparr>ck_sector = 60, ck_seclen = 1\<rparr>, \<lparr>ck_sector = 21, ck_seclen = 1\<rparr>])"
  by code_simp

theorem bbh_request_remapped_witness:
  "\<exists>dk' hp. cmdk_bbh_reopen demo_env demo_dk = Some dk' \<and> cmdk_bbh_gethandle dk' 0 8 (512 * 14) = Some (Some hp) \<and>
    concat (map ck_sectors (h_cktab hp)) = map (alts_remap demo_alts) [8..21] \<and> length (h_cktab hp) = 5"
proof -
  define dk' where "dk' = the (cmdk_bbh_reopen demo_env demo_dk)"
  have r: "cmdk_bbh_reopen demo_env demo_dk = Some dk'" using demo_reopen(1) by (auto simp: dk'_def)
  have v: "alts_valid (bad_table demo_env)" using demo_alts_valid by (simp add: demo_reopen(3))
  have q: "cmlb_partinfo demo_env 0 = Some (40, 0, 2)" by (simp add: demo_env_def)
  have w: "\<exists>r. cmdk_bbh_gethandle dk' 0 8 (512 * 14) = Some r \<and>
    (case r of
       None \<Rightarrow> \<forall>s. 8 \<le> s \<and> s < 8 + 14 \<longrightarrow> alts_remap (bad_table demo_env) s = s
     | Some hp \<Rightarrow> h_idx hp = 0 \<and> h_totck hp = length (h_cktab hp) \<and>
         concat (map ck_sectors (h_cktab hp)) = map (alts_remap (bad_table demo_env)) [8..8 + 14 - 1])"
    by (rule bbh_request_remapped [OF demo_inv demo_fits r demo_reopen(2) [folded dk'_def] v _ q]) (simp_all add: NDKMAP_def)
  then obtain x where x: "cmdk_bbh_gethandle dk' 0 8 (512 * 14) = Some x"
    "case x of None \<Rightarrow> \<forall>s. 8 \<le> s \<and> s < 8 + 14 \<longrightarrow> alts_remap (bad_table demo_env) s = s
     | Some hp \<Rightarrow> h_idx hp = 0 \<and> h_totck hp = length (h_cktab hp) \<and>
         concat (map ck_sectors (h_cktab hp)) = map (alts_remap (bad_table demo_env)) [8..8 + 14 - 1]"
    by blast
  then obtain hp where "x = Some hp" "length (h_cktab hp) = 5" using demo_cookies [folded dk'_def] by auto
  then show ?thesis using r x by (auto simp: demo_reopen(3))
qed

end
