(* ===== verification/Dadk.thy ===== *)
theory Dadk
  imports Ata_Iosetup Cmdk_Bbh
begin

text \<open>
  The direct access device object (\<open>dadk.c\<close>, \<open>gda.c\<close>): it prepares the packet of a buffer, splits the request
  into transfers the controller sets up and the sections of the bad block handle, retries failed transfers and
  finishes the buffer.

  One request is followed at a time. A request is a packet of the controller (\<open>disk_req\<close>) with the fields of its
  buffer. The calls of the surroundings (controller object, flow control, timeouts, buffer completion) are the
  parameters \<open>dadk_env\<close>, or are logged as events. Console messages (\<open>gda_errmsg\<close>, \<open>gda_log\<close>) are left out.
  The value \<open>None\<close> is a read beyond the cookies of a bad block handle.
\<close>

subsection \<open>State\<close>

datatype errno = EIO | ENXIO | ENOMEM | EROFS | ENOTSUP | EINVAL | EBUSY | EFAULT

text \<open>\<open>struct dadk\<close>; \<open>dad_g_secsiz\<close> is \<open>dad_phyg.g_secsiz\<close>.\<close>

record dadk =
  dad_rmb :: bool
  dad_rdonly :: bool
  dad_cdrom :: bool
  dad_noflush :: bool
  dad_wce :: bool
  dad_secshf :: nat
  dad_blkshf :: nat
  dad_g_secsiz :: int

datatype iodone_fn = Iodone_dadk_iodone | Iodone_dadk_rmb_iodone | Iodone_dadk_polldone

datatype rw_stat = DADKIO_STAT_NO_ERROR | DADKIO_STAT_NOT_READY | DADKIO_STAT_MEDIUM_ERROR | DADKIO_STAT_HARDWARE_ERROR
  | DADKIO_STAT_ILLEGAL_REQUEST | DADKIO_STAT_ILLEGAL_ADDRESS | DADKIO_STAT_NOT_SUPPORTED

record dadkio_status =
  st_status :: rw_stat
  st_failed_blk :: u64
  st_failed_blk_is_valid :: bool
  st_resid :: u64

datatype dadk_event =
    Ev_transport u64 u64   \<comment> \<open>\<open>CTL_TRANSPORT\<close> of a first sector and a byte count\<close>
  | Ev_busy_timer          \<comment> \<open>\<open>timeout(dadk_restart, pktp, DADK_BSY_TIMEOUT)\<close>\<close>
  | Ev_flc_deque | Ev_freehandle | Ev_memfree | Ev_pktfree | Ev_biodone

text \<open>\<open>b_cmd\<close> is \<open>b_back\<close> when \<open>b_forw\<close> is the dadk object, and \<open>io_haspkt\<close> whether \<open>av_back\<close> holds the packet.
  \<open>cp_passthru\<close> with the value \<open>DADK_SILENT\<close> is \<open>io_silent\<close>.\<close>

record 'h dadk_io =
  io_dad :: dadk
  io_haspkt :: bool
  io_req :: "'h disk_req"
  io_iodone :: iodone_fn
  io_silent :: bool
  io_nointr :: bool
  io_private :: "bbh_handle option"
  io_status :: dadkio_status
  b_sec :: u64
  b_bcount :: u64
  b_resid :: u64
  b_error :: "errno option"
  b_read :: bool
  b_cmd :: "dcmd option"
  io_sends :: nat
  io_events :: "dadk_event list"

text \<open>\<open>ctl_transport n\<close> is whether the controller accepts the \<open>n\<close>-th transport of the request.\<close>

record 'h dadk_env =
  ctl_iosetup :: "'h disk_req \<Rightarrow> bool \<times> 'h disk_req"
  ctl_transport :: "nat \<Rightarrow> bool"
  bbh_gethandle :: "u64 \<Rightarrow> u64 \<Rightarrow> bbh_handle option"

abbreviation io_cp :: "'h dadk_io \<Rightarrow> cmpkt" where "io_cp io \<equiv> rq_cp (io_req io)"

definition put_cp :: "(cmpkt \<Rightarrow> cmpkt) \<Rightarrow> 'h dadk_io \<Rightarrow> 'h dadk_io" where
  "put_cp f io = io\<lparr>io_req := (io_req io)\<lparr>rq_cp := f (rq_cp (io_req io))\<rparr>\<rparr>"

definition log_ev :: "dadk_event list \<Rightarrow> 'h dadk_io \<Rightarrow> 'h dadk_io" where
  "log_ev es io = io\<lparr>io_events := io_events io @ es\<rparr>"

definition bioerror :: "errno \<Rightarrow> 'h dadk_io \<Rightarrow> 'h dadk_io" where
  "bioerror e io = io\<lparr>b_error := Some e\<rparr>"

definition call_ctl_transport :: "'h dadk_env \<Rightarrow> 'h dadk_io \<Rightarrow> bool \<times> 'h dadk_io" where
  "call_ctl_transport env io =
    (ctl_transport env (io_sends io),
     (log_ev [Ev_transport (cp_srtsec (io_cp io)) (cp_bytexfer (io_cp io))] io)\<lparr>io_sends := io_sends io + 1\<rparr>)"

subsection \<open>Preparing a packet\<close>

definition DADK_IO_TIME :: int where "DADK_IO_TIME = 35"
definition DADK_FLUSH_CACHE_TIME :: int where "DADK_FLUSH_CACHE_TIME = 60"
definition DADK_RETRY_COUNT :: u16 where "DADK_RETRY_COUNT = 5"

text \<open>A new request (\<open>CTL_PKTALLOC\<close>) or none, and \<open>CTL_MEMSETUP\<close>.\<close>

definition gda_pktprep ::
  "'h disk_req option \<Rightarrow> ('h disk_req \<Rightarrow> 'h disk_req option) \<Rightarrow> 'h dadk_io \<Rightarrow> bool \<times> 'h dadk_io" where
  "gda_pktprep pkt memsetup io =
    (case pkt of
       None \<Rightarrow> (False, io)
     | Some r \<Rightarrow>
         (case (if b_bcount io \<noteq> 0 then memsetup r else Some r) of
            None \<Rightarrow> (False, log_ev [Ev_pktfree] io)
          | Some r \<Rightarrow> (True, put_cp (\<lambda>c. c\<lparr>cp_retry := 0\<rparr>) (io\<lparr>io_req := r, io_haspkt := True\<rparr>))))"

definition dadk_pktprep ::
  "'h disk_req option \<Rightarrow> ('h disk_req \<Rightarrow> 'h disk_req option) \<Rightarrow> iodone_fn \<Rightarrow> 'h dadk_io \<Rightarrow> bool \<times> 'h dadk_io" where
  "dadk_pktprep pkt memsetup cb_func io =
    (let (ok, io) = gda_pktprep pkt memsetup io
     in if ok then (True, put_cp (\<lambda>c. c\<lparr>cp_time := DADK_IO_TIME\<rparr>) (io\<lparr>io_nointr := False, io_iodone := cb_func\<rparr>))
        else (False, io))"

text \<open>The next transfer of the request. A sector count is an \<open>int\<close>.\<close>

definition sec_shift :: "nat \<Rightarrow> u64 \<Rightarrow> u64" where
  "sec_shift sh n = scast (ucast (signed_drop_bit sh n) :: u32)"

definition dadk_next_section :: "'h dadk_io \<Rightarrow> 'h dadk_io option" where
  "dadk_next_section io =
    (let sh = dad_secshf (io_dad io); seccnt = sec_shift sh (cp_bytexfer (io_cp io));
         io = put_cp (\<lambda>c. c\<lparr>cp_secleft := cp_secleft c - seccnt\<rparr>) io
     in if cp_secleft (io_cp io) \<noteq> 0 then Some (put_cp (\<lambda>c. c\<lparr>cp_srtsec := cp_srtsec c + seccnt\<rparr>) io)
        else (case io_private io of
            None \<Rightarrow> Some (put_cp (\<lambda>c. c\<lparr>cp_srtsec := b_sec io, cp_secleft := drop_bit sh (b_bcount io)\<rparr>) io)
          | Some hp \<Rightarrow>
              (case cmdk_bbh_htoc hp of
                 (None, hp) \<Rightarrow> None
               | (Some ck, hp) \<Rightarrow>
                   Some (put_cp (\<lambda>c. c\<lparr>cp_srtsec := word_of_int (ck_sector ck), cp_secleft := word_of_int (ck_seclen ck)\<rparr>)
                     (io\<lparr>io_private := Some hp\<rparr>)))))"

definition dadk_iosetup :: "'h dadk_env \<Rightarrow> 'h dadk_io \<Rightarrow> (bool \<times> 'h dadk_io) option" where
  "dadk_iosetup env io =
    map_option (\<lambda>io.
      let io = put_cp (\<lambda>c. c\<lparr>cp_bytexfer := push_bit (dad_secshf (io_dad io)) (cp_secleft c)\<rparr>) io;
          (ok, r) = ctl_iosetup env (io_req io)
      in (ok, io\<lparr>io_req := r\<rparr>)) (dadk_next_section io)"

definition dadk_ioprep :: "'h dadk_env \<Rightarrow> 'h dadk_io \<Rightarrow> (bool \<times> 'h dadk_io) option" where
  "dadk_ioprep env io =
    (let cdb = (case b_cmd io of Some c \<Rightarrow> c | None \<Rightarrow> if b_read io then DCMD_READ else DCMD_WRITE);
         r = io_req io;
         io = io\<lparr>io_req := r\<lparr>rq_pkt := (rq_pkt r)\<lparr>ap_cdb := cdb\<rparr>, rq_cp := (rq_cp r)\<lparr>cp_byteleft := b_bcount io\<rparr>\<rparr>,
                io_private := bbh_gethandle env (b_sec io) (b_bcount io)\<rparr>
     in dadk_iosetup env io)"

definition dadk_pkt ::
  "'h dadk_env \<Rightarrow> 'h disk_req option \<Rightarrow> ('h disk_req \<Rightarrow> 'h disk_req option) \<Rightarrow> 'h dadk_io \<Rightarrow> (bool \<times> 'h dadk_io) option" where
  "dadk_pkt env pkt memsetup io =
    (if io_haspkt io then Some (True, io)
     else (let (ok, io) = dadk_pktprep pkt memsetup Iodone_dadk_iodone io
           in if \<not> ok then Some (False, io) else dadk_ioprep env io))"

subsection \<open>Errors and retries\<close>

datatype dadk_action = COMMAND_DONE | COMMAND_DONE_ERROR | QUE_COMMAND | QUE_SENSE | JUST_RETURN
datatype gda_severity = GDA_INFORMATIONAL | GDA_RETRYABLE | GDA_FATAL

fun dadk_errtab :: "derr \<Rightarrow> dadk_action \<times> gda_severity" where
  "dadk_errtab DERR_SUCCESS = (COMMAND_DONE, GDA_INFORMATIONAL)"
| "dadk_errtab DERR_AMNF = (QUE_COMMAND, GDA_FATAL)"
| "dadk_errtab DERR_TKONF = (QUE_COMMAND, GDA_FATAL)"
| "dadk_errtab DERR_ABORT = (COMMAND_DONE_ERROR, GDA_INFORMATIONAL)"
| "dadk_errtab DERR_DWF = (QUE_COMMAND, GDA_RETRYABLE)"
| "dadk_errtab DERR_IDNF = (QUE_COMMAND, GDA_FATAL)"
| "dadk_errtab DERR_BUSY = (JUST_RETURN, GDA_INFORMATIONAL)"
| "dadk_errtab DERR_UNC = (QUE_COMMAND, GDA_FATAL)"
| "dadk_errtab DERR_BBK = (QUE_COMMAND, GDA_RETRYABLE)"
| "dadk_errtab DERR_INVCDB = (COMMAND_DONE_ERROR, GDA_FATAL)"
| "dadk_errtab DERR_HARD = (COMMAND_DONE_ERROR, GDA_FATAL)"
| "dadk_errtab DERR_ILI = (COMMAND_DONE_ERROR, GDA_FATAL)"
| "dadk_errtab DERR_EOM = (COMMAND_DONE_ERROR, GDA_FATAL)"
| "dadk_errtab DERR_MCR = (COMMAND_DONE, GDA_INFORMATIONAL)"
| "dadk_errtab DERR_RECOVER = (COMMAND_DONE, GDA_INFORMATIONAL)"
| "dadk_errtab DERR_NOTREADY = (COMMAND_DONE_ERROR, GDA_FATAL)"
| "dadk_errtab DERR_MEDIUM = (QUE_COMMAND, GDA_RETRYABLE)"
| "dadk_errtab DERR_HW = (COMMAND_DONE_ERROR, GDA_FATAL)"
| "dadk_errtab DERR_ILL = (COMMAND_DONE, GDA_FATAL)"
| "dadk_errtab DERR_UNIT_ATTN = (COMMAND_DONE, GDA_FATAL)"
| "dadk_errtab DERR_DATA_PROT = (COMMAND_DONE_ERROR, GDA_FATAL)"
| "dadk_errtab DERR_MISCOMPARE = (COMMAND_DONE_ERROR, GDA_FATAL)"
| "dadk_errtab DERR_ICRC = (QUE_COMMAND, GDA_RETRYABLE)"
| "dadk_errtab DERR_RESV = (COMMAND_DONE_ERROR, GDA_FATAL)"

abbreviation io_scb :: "'h dadk_io \<Rightarrow> derr" where "io_scb io \<equiv> ap_scb (rq_pkt (io_req io))"
abbreviation io_cdb :: "'h dadk_io \<Rightarrow> dcmd" where "io_cdb io \<equiv> ap_cdb (rq_pkt (io_req io))"

text \<open>The case \<open>COMMAND_DONE_ERROR\<close> of \<open>dadk_ioretry\<close>; \<open>cp_dev_private\<close> is the dadk object of every packet.\<close>

definition ioretry_error :: "'h dadk_io \<Rightarrow> 'h dadk_io" where
  "ioretry_error io =
    (let cp = io_cp io; io = io\<lparr>b_resid := b_resid io + (cp_byteleft cp - cp_bytexfer cp + cp_resid cp)\<rparr>
     in if b_error io = None
        then (if io_cdb io = DCMD_FLUSH_CACHE \<and> io_scb io = DERR_ABORT
              then (bioerror ENOTSUP io)\<lparr>io_dad := (io_dad io)\<lparr>dad_noflush := True\<rparr>\<rparr>
              else bioerror EIO io)
        else io)"

text \<open>\<open>True\<close> is \<open>JUST_RETURN\<close>, \<open>False\<close> is \<open>COMMAND_DONE\<close>.\<close>

definition dadk_ioretry :: "'h dadk_env \<Rightarrow> dadk_action \<Rightarrow> 'h dadk_io \<Rightarrow> bool \<times> 'h dadk_io" where
  "dadk_ioretry env action io =
    (case action of
       QUE_COMMAND \<Rightarrow>
         (let again = cp_retry (io_cp io) < DADK_RETRY_COUNT; io = put_cp (\<lambda>c. c\<lparr>cp_retry := cp_retry c + 1\<rparr>) io
          in if again
             then (let io = io\<lparr>io_req := snd (ctl_iosetup env (io_req io))\<rparr>;
                       (sent, io) = call_ctl_transport env io
                   in if sent then (True, io) else (False, ioretry_error (bioerror ENXIO io)))
             else (False, ioretry_error (bioerror ENXIO io)))
     | COMMAND_DONE_ERROR \<Rightarrow> (False, ioretry_error io)
     | _ \<Rightarrow> (False, io))"

text \<open>What a function leaves behind: a transfer with the controller, a busy drive to be tried again after a while,
  or a request whose completion function has run to its end.\<close>

datatype io_phase = Ph_sent | Ph_busy | Ph_over

text \<open>\<open>dadk_iodone\<close> from \<open>FLC_DEQUE\<close> on.\<close>

definition iodone_finish :: "'h dadk_io \<Rightarrow> 'h dadk_io" where
  "iodone_finish io =
    log_ev ([Ev_flc_deque] @ (if io_private io \<noteq> None then [Ev_freehandle] else []) @ [Ev_memfree, Ev_pktfree, Ev_biodone])
      (io\<lparr>io_req := ata_disk_memfree (io_req io)\<rparr>)"

definition dadk_iodone :: "'h dadk_env \<Rightarrow> 'h dadk_io \<Rightarrow> (io_phase \<times> 'h dadk_io) option" where
  "dadk_iodone env io =
    (let io = put_cp (\<lambda>c. c\<lparr>cp_byteleft := cp_byteleft c - cp_bytexfer c\<rparr>) io
     in if b_error io = None \<and> cp_byteleft (io_cp io) \<noteq> 0
        then Option.bind (dadk_iosetup env (put_cp (\<lambda>c. c\<lparr>cp_retry := 0\<rparr>) io))
          (\<lambda>(_, io).
            let (sent, io) = call_ctl_transport env io
            in if sent then Some (Ph_sent, io)
               else (let (ret, io) = dadk_ioretry env QUE_COMMAND io
                     in if ret then Some (Ph_sent, io) else Some (Ph_over, iodone_finish io)))
        else Some (Ph_over, iodone_finish io))"

definition dadk_rmb_iodone :: "'h dadk_io \<Rightarrow> 'h dadk_io" where
  "dadk_rmb_iodone io = log_ev [Ev_flc_deque, Ev_biodone] io"

definition dadk_polldone :: "'h dadk_io \<Rightarrow> 'h dadk_io" where
  "dadk_polldone io = io"

text \<open>\<open>pktp->cp_iodone(pktp->cp_bp)\<close>\<close>

definition call_iodone :: "'h dadk_env \<Rightarrow> 'h dadk_io \<Rightarrow> (io_phase \<times> 'h dadk_io) option" where
  "call_iodone env io =
    (case io_iodone io of
       Iodone_dadk_iodone \<Rightarrow> dadk_iodone env io
     | Iodone_dadk_rmb_iodone \<Rightarrow> Some (Ph_over, dadk_rmb_iodone io)
     | Iodone_dadk_polldone \<Rightarrow> Some (Ph_over, dadk_polldone io))"

definition dadk_restart :: "'h dadk_env \<Rightarrow> 'h dadk_io \<Rightarrow> (io_phase \<times> 'h dadk_io) option" where
  "dadk_restart env io =
    (let (ret, io) = dadk_ioretry env QUE_COMMAND io
     in if ret then Some (Ph_sent, io) else call_iodone env io)"

definition dadk_transport :: "'h dadk_env \<Rightarrow> 'h dadk_io \<Rightarrow> (io_phase \<times> 'h dadk_io) option" where
  "dadk_transport env io =
    (let (sent, io) = call_ctl_transport env io in if sent then Some (Ph_sent, io) else dadk_restart env io)"

definition dadk_chkerr :: "'h dadk_io \<Rightarrow> dadk_action \<times> 'h dadk_io" where
  "dadk_chkerr io =
    (if io_scb io = DERR_SUCCESS then (COMMAND_DONE, io)
     else if dad_cdrom (io_dad io) \<and> io_cdb io = DCMD_READ \<and> io_scb io = DERR_ILL then (COMMAND_DONE, io)
     else (fst (dadk_errtab (io_scb io)), if io_scb io = DERR_BUSY then log_ev [Ev_busy_timer] io else io))"

definition dadk_recorderr :: "dadkio_rwcmd \<Rightarrow> 'h dadk_io \<Rightarrow> 'h dadk_io" where
  "dadk_recorderr rwcmdp io =
    (let cp = io_cp io;
         st = (io_status io)\<lparr>
           st_failed_blk := rw_blkaddr rwcmdp + signed_drop_bit (dad_secshf (io_dad io)) (cp_bytexfer cp - cp_resid cp),
           st_resid := b_resid io + cp_byteleft cp - cp_bytexfer cp + cp_resid cp\<rparr>;
         scb = io_scb io;
         st = (if scb = DERR_AMNF \<or> scb = DERR_ABORT then st\<lparr>st_status := DADKIO_STAT_ILLEGAL_REQUEST\<rparr>
               else if scb = DERR_DWF \<or> scb = DERR_IDNF then st\<lparr>st_status := DADKIO_STAT_ILLEGAL_ADDRESS\<rparr>
               else if scb = DERR_TKONF \<or> scb = DERR_UNC \<or> scb = DERR_BBK
               then st\<lparr>st_status := DADKIO_STAT_MEDIUM_ERROR, st_failed_blk_is_valid := True, st_resid := 0\<rparr>
               else if scb = DERR_BUSY then st\<lparr>st_status := DADKIO_STAT_NOT_READY\<rparr>
               else if scb = DERR_INVCDB \<or> scb = DERR_HARD then st\<lparr>st_status := DADKIO_STAT_HARDWARE_ERROR\<rparr>
               else st\<lparr>st_status := DADKIO_STAT_NOT_SUPPORTED\<rparr>)
     in io\<lparr>io_status := st\<rparr>)"

text \<open>The completion callback of the packet.\<close>

definition dadk_pktcb :: "'h dadk_env \<Rightarrow> 'h dadk_io \<Rightarrow> (io_phase \<times> 'h dadk_io) option" where
  "dadk_pktcb env io =
    (let cp = io_cp io
     in if cp_reason cp = CPS_SUCCESS
        then call_iodone env
          (if cp_passthru cp \<noteq> None then io\<lparr>io_status := (io_status io)\<lparr>st_status := DADKIO_STAT_NO_ERROR\<rparr>\<rparr> else io)
        else (case cp_passthru cp of
            Some rwcmdp \<Rightarrow> dadk_iodone env (if cp_reason cp = CPS_CHKERR then dadk_recorderr rwcmdp io else io)
          | None \<Rightarrow>
              (let (action, io) = (if cp_reason cp = CPS_CHKERR then dadk_chkerr io else (COMMAND_DONE_ERROR, io))
               in if action = JUST_RETURN then Some (Ph_busy, io)
                  else if action = COMMAND_DONE then call_iodone env io
                  else (let (ret, io) = dadk_ioretry env action io
                        in if ret then Some (Ph_sent, io) else call_iodone env io))))"

subsection \<open>Entry points\<close>

text \<open>\<open>DTYPE_DIRECT\<close>, \<open>DTYPE_RODIRECT\<close>; \<open>False\<close> is \<open>DDI_PROBE_FAILURE\<close>.\<close>

datatype inq_dtype = DTYPE_DIRECT | DTYPE_RODIRECT | DTYPE_NOTPRESENT | DTYPE_UNKNOWN | DTYPE_OTHER

definition dadk_probe :: "(inq_dtype \<times> bool) option \<Rightarrow> dadk \<Rightarrow> bool \<times> dadk" where
  "dadk_probe inq d =
    (let ready = (\<lambda>rmb d. (True, d\<lparr>dad_rmb := rmb, dad_secshf := 9, dad_blkshf := 0\<rparr>))
     in case inq of
          Some (DTYPE_DIRECT, rmb) \<Rightarrow> ready rmb d
        | Some (DTYPE_RODIRECT, rmb) \<Rightarrow> ready rmb (d\<lparr>dad_rdonly := True, dad_cdrom := True\<rparr>)
        | _ \<Rightarrow> (False, d))"

text \<open>The loop of \<open>dadk_setcap\<close> ends only at one; \<open>None\<close> is a loop that does not end.\<close>

partial_function (option) setcap_loop :: "int \<Rightarrow> nat \<Rightarrow> nat option" where
  "setcap_loop totsize i = (if totsize = 1 then Some i else setcap_loop (drop_bit 1 totsize) (i + 1))"

definition dadk_setcap :: "dadk \<Rightarrow> dadk option" where
  "dadk_setcap d =
    (let totsize = dad_g_secsiz d;
         totsize = (if totsize = 0 then (if dad_cdrom d then 2048 else 512) else and totsize (not 511));
         d = d\<lparr>dad_g_secsiz := totsize\<rparr>
     in map_option (\<lambda>i. d\<lparr>dad_blkshf := i, dad_secshf := i + 9\<rparr>) (setcap_loop (drop_bit 9 totsize) 0))"

text \<open>\<open>True\<close>: the buffer has been handed to the flow control. \<open>dad_g_secsiz\<close> is extended to 64 bits.\<close>

definition dadk_check_bp :: "'h dadk_io \<Rightarrow> bool" where
  "dadk_check_bp io \<longleftrightarrow> b_bcount io AND word_of_int (dad_g_secsiz (io_dad io) - 1) = 0"

definition dadk_set_sec :: "'h dadk_io \<Rightarrow> 'h dadk_io" where
  "dadk_set_sec io = io\<lparr>b_sec := signed_drop_bit (dad_blkshf (io_dad io)) (b_sec io)\<rparr>"

definition dadk_strategy :: "'h dadk_io \<Rightarrow> bool \<times> 'h dadk_io" where
  "dadk_strategy io =
    (if dad_rdonly (io_dad io) \<and> \<not> b_read io then (False, bioerror EROFS io)
     else if \<not> dadk_check_bp io then (False, bioerror ENXIO io)
     else (True, dadk_set_sec io))"

text \<open>Flushing the write cache: \<open>Inl\<close> is a return value without a request, \<open>Inr\<close> the request that is queued.\<close>

definition dadk_flush_write_cache ::
  "'h dadk_env \<Rightarrow> 'h disk_req \<Rightarrow> 'h dadk_io \<Rightarrow> errno option + 'h dadk_io" where
  "dadk_flush_write_cache env pkt io =
    (if dad_noflush (io_dad io) \<or> \<not> dad_wce (io_dad io) then Inl (if dad_noflush (io_dad io) then Some ENOTSUP else None)
     else
       (let io = io\<lparr>b_resid := 0, b_bcount := 0, b_sec := 0, b_error := None\<rparr>;
            (_, io) = dadk_pktprep (Some pkt) Some Iodone_dadk_iodone io;
            io = put_cp (\<lambda>c. c\<lparr>cp_time := DADK_FLUSH_CACHE_TIME, cp_byteleft := 0, cp_secleft := 0, cp_srtsec := -1,
                   cp_bytexfer := 0\<rparr>) (io\<lparr>io_private := None\<rparr>);
            r = (io_req io)\<lparr>rq_pkt := (rq_pkt (io_req io))\<lparr>ap_cdb := DCMD_FLUSH_CACHE\<rparr>\<rparr>
        in Inr (io\<lparr>io_req := snd (ctl_iosetup env r)\<rparr>)))"

definition dadkmin :: "u64 \<Rightarrow> u64" where "dadkmin n = (if n > 0x80000 then 0x80000 else n)"

text \<open>A pass-through command; \<open>Some (False, _)\<close> is a request that ends at once with an error.\<close>

definition dadk_dk ::
  "'h dadk_env \<Rightarrow> 'h disk_req option \<Rightarrow> ('h disk_req \<Rightarrow> 'h disk_req option) \<Rightarrow> dadkio_rwcmd \<Rightarrow> 'h dadk_io
    \<Rightarrow> (bool \<times> 'h dadk_io) option" where
  "dadk_dk env pkt memsetup rwcmdp io =
    (let (ok, io) = dadk_pktprep pkt memsetup Iodone_dadk_iodone io
     in if \<not> ok then Some (False, log_ev [Ev_biodone] (bioerror ENOMEM io))
        else map_option (\<lambda>(_, io). (True, io)) (dadk_ioprep env (put_cp (\<lambda>c. c\<lparr>cp_passthru := Some rwcmdp\<rparr>) io)))"

text \<open>Block buffers: the first sector, the offset of the block in it and the bytes to transfer.\<close>

record tgdk_iob =
  b_psec :: u64
  b_pbyteoff :: u16
  b_pbytecnt :: u64
  b_lblk :: u64
  b_xfer :: u64

definition iob_extent :: "dadk \<Rightarrow> u64 \<Rightarrow> u64 \<Rightarrow> tgdk_iob" where
  "iob_extent d blkno xfer =
    (let off = ucast (push_bit 9 (blkno AND (scast (push_bit (dad_blkshf d) 1 - 1 :: u32)))) :: u16
     in \<lparr>b_psec = signed_drop_bit (dad_blkshf d) blkno, b_pbyteoff = off,
         b_pbytecnt = push_bit (dad_secshf d)
           (signed_drop_bit (dad_secshf d) (scast off + xfer + word_of_int (dad_g_secsiz d) - 1)),
         b_lblk = blkno, b_xfer = xfer\<rparr>)"

text \<open>The direction is added to the flags of the buffer, which are not cleared of it after a transfer.\<close>

definition dadk_iob_xfer_start :: "tgdk_iob \<Rightarrow> bool \<Rightarrow> 'h dadk_io \<Rightarrow> bool \<times> 'h dadk_io" where
  "dadk_iob_xfer_start iob rw_read io =
    (if dad_rdonly (io_dad io) \<and> \<not> rw_read then (False, bioerror EROFS io)
     else (True, io\<lparr>b_read := b_read io \<or> rw_read, b_bcount := b_pbytecnt iob, b_sec := b_psec iob, io_haspkt := False, b_resid := 0\<rparr>))"

subsection \<open>The shift of the sector size\<close>

lemma and_not_511: "and x (not 511) = 512 * (x div 512)" for x :: int
proof -
  have "and x (not (mask 9)) = push_bit 9 (drop_bit 9 x)"
    by (rule bit_eqI) (auto simp: bit_simps)
  then show ?thesis by (simp add: mask_eq_exp_minus_1 push_bit_eq_mult drop_bit_eq_div mult.commute)
qed

lemma setcap_loop_pos: "setcap_loop t i = Some j \<Longrightarrow> 1 \<le> t"
  by (rule setcap_loop.raw_induct [where P = "\<lambda>t i j. 1 \<le> t"]) (force simp: drop_bit_eq_div split: if_splits)+

lemma setcap_loop_log: "1 \<le> t \<Longrightarrow> \<exists>j. setcap_loop t i = Some (i + j) \<and> 2 ^ j \<le> t \<and> t < 2 ^ (j + 1)"
proof (induction "nat t" arbitrary: t i rule: less_induct)
  case less
  show ?case
  proof (cases "t = 1")
    case True
    then show ?thesis by (subst setcap_loop.simps) (intro exI [of _ 0], simp)
  next
    case False
    then have h: "1 \<le> drop_bit 1 t" "nat (drop_bit 1 t) < nat t" using less.prems by (simp_all add: drop_bit_eq_div)
    from less.hyps [OF h(2,1), of "i + 1"] obtain j where
      j: "setcap_loop (drop_bit 1 t) (i + 1) = Some (i + 1 + j)" "2 ^ j \<le> t div 2" "t div 2 < 2 ^ (j + 1)"
      by (auto simp: drop_bit_eq_div)
    have "setcap_loop t i = Some (i + Suc j)" using False j(1) by (subst setcap_loop.simps) simp
    moreover have "2 ^ Suc j \<le> t" "t < 2 ^ (Suc j + 1)" using j(2,3) by auto
    ultimately show ?thesis by blast
  qed
qed

text \<open>\<open>dadk_setcap\<close> returns exactly for a sector size of zero or of at least 512 bytes (for any other size its
  loop does not end). Then the size is a multiple of 512 bytes and the shifts are its binary logarithm, rounded
  down.\<close>

theorem dadk_setcap_returns:
  "(dadk_setcap d = None \<longleftrightarrow> dad_g_secsiz d < 512 \<and> dad_g_secsiz d \<noteq> 0) \<and>
   (\<forall>d'. dadk_setcap d = Some d' \<longrightarrow>
      512 dvd dad_g_secsiz d' \<and> dad_secshf d' = dad_blkshf d' + 9 \<and>
      2 ^ dad_secshf d' \<le> dad_g_secsiz d' \<and> dad_g_secsiz d' < 2 ^ (dad_secshf d' + 1))"
proof -
  define q where "q = (if dad_g_secsiz d = 0 then (if dad_cdrom d then 4 else 1) else dad_g_secsiz d div 512)"
  have q: "dadk_setcap d = map_option (\<lambda>i. d\<lparr>dad_g_secsiz := 512 * q, dad_blkshf := i, dad_secshf := i + 9\<rparr>) (setcap_loop q 0)"
    by (simp add: dadk_setcap_def Let_def and_not_511 [simplified] q_def drop_bit_eq_div)
  have pos: "1 \<le> q \<longleftrightarrow> \<not> (dad_g_secsiz d < 512 \<and> dad_g_secsiz d \<noteq> 0)" by (auto simp: q_def)
  show ?thesis
  proof (cases "1 \<le> q")
    case False
    then have "setcap_loop q 0 = None" using setcap_loop_pos by (cases "setcap_loop q 0") auto
    then show ?thesis using q pos False by simp
  next
    case True
    from setcap_loop_log [OF this, of 0] obtain j where "setcap_loop q 0 = Some j" "2 ^ j \<le> q" "q < 2 ^ (j + 1)" by auto
    then show ?thesis using q pos True by (auto simp: power_add)
  qed
qed

theorem dadk_setcap_witness:
  "\<exists>d'. dadk_setcap \<lparr>dad_rmb = True, dad_rdonly = True, dad_cdrom = True, dad_noflush = False, dad_wce = False,
        dad_secshf = 9, dad_blkshf = 0, dad_g_secsiz = 2352\<rparr> = Some d' \<and>
     512 dvd dad_g_secsiz d' \<and> dad_secshf d' = dad_blkshf d' + 9 \<and>
     2 ^ dad_secshf d' \<le> dad_g_secsiz d' \<and> dad_g_secsiz d' < 2 ^ (dad_secshf d' + 1)"
proof -
  let ?d = "\<lparr>dad_rmb = True, dad_rdonly = True, dad_cdrom = True, dad_noflush = False, dad_wce = False,
    dad_secshf = 9, dad_blkshf = 0, dad_g_secsiz = 2352\<rparr>"
  note p = dadk_setcap_returns [of ?d]
  have "dadk_setcap ?d \<noteq> None" using p by simp
  then obtain d' where "dadk_setcap ?d = Some d'" by auto
  with p show ?thesis by blast
qed

end
