(* ===== verification/Dadk_Run.thy ===== *)
theory Dadk_Run
  imports Dadk
begin

text \<open>
  A request of the direct access device object from the moment it is prepared to its end. The contract
  \<open>dada_controller\<close> says what \<open>Dadk\<close> needs of the controller's transfer setup; it is interpreted on
  \<open>ata_disk_iosetup\<close> for programmed transfers. \<open>dadk_step\<close> is the run of a request: the controller ends a
  transfer, in any way it likes or as the ATA controller does, or the timer of a busy drive fires.
\<close>

subsection \<open>The controller's contract\<close>

text \<open>
  What the retries and the splitting rely on. A prepared read or write of some sectors is set up for at least one
  sector and no more than asked, the byte counts in the packet say how many, and nothing else the object keeps in
  the packet changes. The controller may fail a transfer in any way without spoiling that.
\<close>

locale dada_controller =
  fixes iosetup :: "'h disk_req \<Rightarrow> bool \<times> 'h disk_req" and good :: "'h disk_req \<Rightarrow> bool"
  assumes iosetup_takes:
      "good r \<Longrightarrow> cp_bytexfer (rq_cp r) = of_nat (512 * n) \<Longrightarrow> 0 < n \<Longrightarrow> n < 2 ^ 31 \<Longrightarrow>
       \<exists>k r'. iosetup r = (True, r') \<and> good r' \<and> 0 < k \<and> k \<le> n \<and> ap_cdb (rq_pkt r') = ap_cdb (rq_pkt r) \<and>
         rq_cp r' = (rq_cp r)\<lparr>cp_bytexfer := of_nat (512 * k), cp_resid := of_nat (512 * k)\<rparr>"
    and good_stable:
      "good r \<Longrightarrow> rq_dma r' = rq_dma r \<Longrightarrow> ap_cdb (rq_pkt r') = ap_cdb (rq_pkt r) \<Longrightarrow>
       cp_passthru (rq_cp r') = cp_passthru (rq_cp r) \<Longrightarrow> good r'"
    and good_plain: "good r \<Longrightarrow> cp_passthru (rq_cp r) = None \<and> ap_cdb (rq_pkt r) \<noteq> DCMD_FLUSH_CACHE"

text \<open>Programmed transfers of the ATA disk controller.\<close>

definition pio_request :: "'h disk_req \<Rightarrow> bool" where
  "pio_request r \<longleftrightarrow> cmd_dma_handle (rq_dma r) = None \<and> cp_passthru (rq_cp r) = None \<and>
     (ap_cdb (rq_pkt r) = DCMD_READ \<or> ap_cdb (rq_pkt r) = DCMD_WRITE)"

lemma unat_bytes64: "n < 2 ^ 31 \<Longrightarrow> unat (of_nat (512 * n) :: u64) = 512 * n"
  by (simp only: unat_of_nat) (simp add: take_bit_nat_eq_self)

lemma pio_iosetup:
  assumes good: "pio_request r" and n: "cp_bytexfer (rq_cp r) = of_nat (512 * n)" "0 < n" "n < 2 ^ 31"
    and mx: "0 < max_transfer" "max_transfer \<le> 256"
  shows "\<exists>k r'. ata_disk_iosetup ops d max_transfer r = (True, r') \<and> pio_request r' \<and> 0 < k \<and> k \<le> n \<and>
     ap_cdb (rq_pkt r') = ap_cdb (rq_pkt r) \<and>
     rq_cp r' = (rq_cp r)\<lparr>cp_bytexfer := of_nat (512 * k), cp_resid := of_nat (512 * k)\<rparr>"
proof -
  have g: "cmd_dma_handle (rq_dma r) = None" "cp_passthru (rq_cp r) = None" "ap_cdb (rq_pkt r) = DCMD_READ \<or> ap_cdb (rq_pkt r) = DCMD_WRITE"
    using good by (simp_all add: pio_request_def)
  obtain w k0 where c: "iosetup_count max_transfer (rq_cp r) (rq_pkt r) = (w, k0)" by fastforce
  have cdb: "ap_cdb k0 = ap_cdb (rq_pkt r)" using c by (auto simp: iosetup_count_def Let_def split: if_splits)
  obtain ok cp' k' where e: "iosetup_command d w (rq_cp r) (clear_setup k0) = (ok, cp', k')" using prod_cases3 by blast
  have "ap_cdb (clear_setup k0) = DCMD_READ \<or> ap_cdb (clear_setup k0) = DCMD_WRITE" using cdb g(3) by (simp add: clear_setup_def)
  note sp = iosetup_command_spec [OF e g(2) this]
  have nf: "cp_passthru (rq_cp r) \<noteq> None \<or> ap_cdb (rq_pkt r) \<noteq> DCMD_FLUSH_CACHE" using g(3) by auto
  have r': "ata_disk_iosetup ops d max_transfer r = (ok, \<lparr>rq_cp = cp', rq_pkt = k', rq_dma = rq_dma r\<rparr>)"
    by (rule iosetup_nodma [OF c e _ nf]) (simp add: g(1))
  have "\<exists>k. 0 < k \<and> k \<le> n \<and> k \<le> 256 \<and> w = of_nat k"
  proof (cases "flag_set (ap_flags (rq_pkt r)) AP_ERROR")
    case True
    then have "w = of_nat 1" using c by (simp add: iosetup_count_def Let_def)
    then show ?thesis using n(2) by (intro exI [of _ 1]) auto
  next
    case False
    then have w: "w = io_sec_count (of_nat (512 * n)) max_transfer" using c n(1) by (simp add: iosetup_count_def)
    have m: "max_transfer \<le> 65535" using mx(2) by simp
    have u: "unat w = min (unat (of_nat (512 * n) :: u64) div 512) max_transfer"
      unfolding w by (rule io_sec_count_bytes(1) [where j = 0 and S = 0, OF m]) (use n(3) in \<open>simp_all add: unat_bytes64 del: of_nat_mult\<close>)
    then have "unat w = min n max_transfer" using n(3) by (simp add: unat_bytes64 del: of_nat_mult)
    then have "0 < unat w" "unat w \<le> n" "unat w \<le> 256" using n(2) mx by auto
    moreover have "w = of_nat (unat w)" by simp
    ultimately show ?thesis by blast
  qed
  then obtain k where k: "0 < k" "k \<le> n" "k \<le> 256" "w = of_nat k" by blast
  have "(ucast (push_bit SCTRSHFT w) :: u64) = of_nat (512 * k)"
    by (rule word_unat_eq_iff [THEN iffD2])
      (use k sector_words(3,4) [OF k(3)] in \<open>simp add: unat_bytes64 del: of_nat_mult\<close>)
  then show ?thesis using r' sp k g cdb
    by (intro exI [of _ k] exI [of _ "\<lparr>rq_cp = cp', rq_pkt = k', rq_dma = rq_dma r\<rparr>"])
      (auto simp: set_bytes_def pio_request_def clear_setup_def simp del: of_nat_mult)
qed

text \<open>The limit as the attach function takes it from the property \<open>max_transfer\<close>.\<close>

definition ac_max_transfer :: "int \<Rightarrow> nat" where
  "ac_max_transfer prop = nat (if prop < 1 then 1 else if prop > 0x100 then 0x100 else prop)"

interpretation pio: dada_controller "ata_disk_iosetup ops d (ac_max_transfer prop)" pio_request
proof
  fix r :: "'a disk_req" and n
  assume "pio_request r" "cp_bytexfer (rq_cp r) = of_nat (512 * n)" "0 < n" "n < 2 ^ 31"
  then show "\<exists>k r'. ata_disk_iosetup ops d (ac_max_transfer prop) r = (True, r') \<and> pio_request r' \<and> 0 < k \<and> k \<le> n \<and>
      ap_cdb (rq_pkt r') = ap_cdb (rq_pkt r) \<and> rq_cp r' = (rq_cp r)\<lparr>cp_bytexfer := of_nat (512 * k), cp_resid := of_nat (512 * k)\<rparr>"
    by (rule pio_iosetup) (auto simp: ac_max_transfer_def)
qed (auto simp: pio_request_def)

subsection \<open>The run of a request\<close>

text \<open>
  The controller ends a transfer. In \<open>ctl_ends\<close> it may be any controller: reason, residual count, status and its own
  fields are its choice. \<open>ata_ends\<close> is the ATA controller: the packet has whatever flags, status, error register and
  residual count the transfer left in it, and \<open>ata_disk_complete\<close> reports these.
\<close>

definition ctl_ends :: "'h dadk_io \<Rightarrow> 'h dadk_io \<Rightarrow> bool" where
  "ctl_ends io io' \<longleftrightarrow> (\<exists>why m k. ap_cdb k = io_cdb io \<and>
     io' = io\<lparr>io_req := (io_req io)\<lparr>rq_cp := (io_cp io)\<lparr>cp_reason := why, cp_resid := m\<rparr>, rq_pkt := k\<rparr>\<rparr>)"

definition completed :: "ata_drv \<Rightarrow> ata_pkt \<Rightarrow> 'h dadk_io \<Rightarrow> 'h dadk_io" where
  "completed dv k io = (let (k, c) = ata_disk_complete dv k (io_cp io) in io\<lparr>io_req := (io_req io)\<lparr>rq_cp := c, rq_pkt := k\<rparr>\<rparr>)"

definition ata_ends :: "ata_drv \<Rightarrow> 'h dadk_io \<Rightarrow> 'h dadk_io \<Rightarrow> bool" where
  "ata_ends dv io io' \<longleftrightarrow> (\<exists>k. ap_cdb k = io_cdb io \<and> io' = completed dv k io)"

text \<open>The sectors a transfer that ended so has moved: all of them when the controller reports success, none for certain
  otherwise.\<close>

definition xfer_sectors :: "'h dadk_io \<Rightarrow> int list" where
  "xfer_sectors io =
    (let s = uint (cp_srtsec (io_cp io)) in [s..s + uint (cp_bytexfer (io_cp io)) div 512 - 1])"

definition moved_sectors :: "'h dadk_io \<Rightarrow> int list" where
  "moved_sectors io = (if cp_reason (io_cp io) = CPS_SUCCESS then xfer_sectors io else [])"

text \<open>The last part of a state is the sectors moved so far.\<close>

inductive dadk_step ::
  "('h dadk_io \<Rightarrow> 'h dadk_io \<Rightarrow> bool) \<Rightarrow> 'h dadk_env \<Rightarrow>
   io_phase \<times> 'h dadk_io \<times> int list \<Rightarrow> io_phase \<times> 'h dadk_io \<times> int list \<Rightarrow> bool"
  for ends env where
  step_end: "ends io io1 \<Longrightarrow> dadk_pktcb env io1 = Some (ph, io2) \<Longrightarrow>
    dadk_step ends env (Ph_sent, io, done) (ph, io2, done @ moved_sectors io1)"
| step_busy: "dadk_restart env io = Some (ph, io2) \<Longrightarrow> dadk_step ends env (Ph_busy, io, done) (ph, io2, done)"

text \<open>Does the completion callback count the transfer as done and go on to the next? After an ending of the ATA
  controller it does exactly when the sectors were moved.\<close>

definition counted :: "'h dadk_io \<Rightarrow> bool" where
  "counted io \<longleftrightarrow> cp_reason (io_cp io) = CPS_SUCCESS \<or>
     cp_reason (io_cp io) = CPS_CHKERR \<and> fst (dadk_chkerr io) = COMMAND_DONE"

lemma ata_ends_ctl: "ata_ends dv io io1 \<Longrightarrow> ctl_ends io io1"
proof -
  assume "ata_ends dv io io1"
  then obtain k where k: "ap_cdb k = io_cdb io" "io1 = completed dv k io" by (auto simp: ata_ends_def)
  obtain k' c' where c: "ata_disk_complete dv k (io_cp io) = (k', c')" by fastforce
  then have "ap_cdb k' = ap_cdb k" "c' = (io_cp io)\<lparr>cp_reason := cp_reason c', cp_resid := cp_resid c'\<rparr>"
    by (auto simp: ata_disk_complete_def Let_def split: if_splits)
  then show ?thesis using k c unfolding ctl_ends_def completed_def
    by (intro exI [of _ "cp_reason c'"] exI [of _ "cp_resid c'"] exI [of _ k']) simp
qed

lemma complete_codes:
  assumes "ata_disk_complete dv k c = (k', c')" "cp_reason c' \<noteq> CPS_SUCCESS"
  shows "ap_scb k' \<in> {DERR_ICRC, DERR_BBK, DERR_UNC, DERR_IDNF, DERR_TKONF, DERR_AMNF, DERR_BUSY, DERR_DWF, DERR_ABORT}"
  using assms unfolding ata_disk_complete_def Let_def by (simp split: if_split_asm) auto

lemma ata_ends_counted: "ata_ends dv io io1 \<Longrightarrow> counted io1 \<longleftrightarrow> cp_reason (io_cp io1) = CPS_SUCCESS"
proof -
  assume "ata_ends dv io io1"
  then obtain k where k: "io1 = completed dv k io" by (auto simp: ata_ends_def)
  obtain k' c' where c: "ata_disk_complete dv k (io_cp io) = (k', c')" by fastforce
  have io1: "io_cp io1 = c'" "io_scb io1 = ap_scb k'" using k c by (simp_all add: completed_def)
  have "fst (dadk_chkerr io1) \<noteq> COMMAND_DONE" if "cp_reason c' \<noteq> CPS_SUCCESS"
    using complete_codes [OF c that] unfolding dadk_chkerr_def io1(2) by (elim insertE) auto
  then show ?thesis using io1(1) by (auto simp: counted_def)
qed

definition counts_moved :: "('h dadk_io \<Rightarrow> 'h dadk_io \<Rightarrow> bool) \<Rightarrow> bool" where
  "counts_moved ends \<longleftrightarrow> (\<forall>io io1. ends io io1 \<longrightarrow> (counted io1 \<longleftrightarrow> cp_reason (io_cp io1) = CPS_SUCCESS))"

text \<open>The flow control prepares the packet and transports it.\<close>

definition dadk_start ::
  "'h dadk_env \<Rightarrow> 'h disk_req option \<Rightarrow> ('h disk_req \<Rightarrow> 'h disk_req option) \<Rightarrow> 'h dadk_io \<Rightarrow> (io_phase \<times> 'h dadk_io) option" where
  "dadk_start env pkt memsetup io =
    Option.bind (dadk_pkt env pkt memsetup io)
      (\<lambda>(ok, io). if ok then dadk_transport env io else Some (Ph_over, io))"

text \<open>The sectors of the request on the device, and those after the current section.\<close>

definition io_plan :: "'h dadk_env \<Rightarrow> 'h dadk_io \<Rightarrow> int list" where
  "io_plan env io =
    (case bbh_gethandle env (b_sec io) (b_bcount io) of
       None \<Rightarrow> [uint (b_sec io)..uint (b_sec io) + uint (b_bcount io) div 512 - 1]
     | Some hp \<Rightarrow> concat (map ck_sectors (h_cktab hp)))"

definition rest_sectors :: "'h dadk_io \<Rightarrow> int list" where
  "rest_sectors io =
    (case io_private io of None \<Rightarrow> [] | Some hp \<Rightarrow> concat (map ck_sectors (drop (h_idx hp) (h_cktab hp))))"

text \<open>A request that is under way: the sectors done, those of the current section and those after it make up the
  request. \<open>m\<close> is one when a transport is still to come.\<close>

definition io_at ::
  "('h disk_req \<Rightarrow> bool) \<Rightarrow> int list \<Rightarrow> nat \<Rightarrow> int \<Rightarrow> nat \<Rightarrow> nat \<Rightarrow> 'h dadk_io \<Rightarrow> int list \<Rightarrow> bool" where
  "io_at good plan m x S L io done \<longleftrightarrow>
     dad_secshf (io_dad io) = 9 \<and> io_iodone io = Iodone_dadk_iodone \<and> b_error io = None \<and> b_resid io = 0 \<and> good (io_req io) \<and>
     cp_srtsec (io_cp io) = word_of_int x \<and> cp_secleft (io_cp io) = of_nat S \<and> cp_byteleft (io_cp io) = of_nat (512 * L) \<and>
     L = S + length (rest_sectors io) \<and> L < 2 ^ 31 \<and> plan = done @ [x..x + int S - 1] @ rest_sectors io \<and>
     (\<forall>s\<in>set plan. 0 \<le> s \<and> s < 2 ^ 31) \<and>
     (\<forall>hp. io_private io = Some hp \<longrightarrow> ck_prefix (drop (h_idx hp) (h_cktab hp))) \<and>
     unat (cp_retry (io_cp io)) \<le> 5 \<and> io_sends io + m + (5 - unat (cp_retry (io_cp io))) + 6 * (L - 1) \<le> 6 * length plan \<and>
     Ev_biodone \<notin> set (io_events io) \<and> Ev_flc_deque \<notin> set (io_events io)"

definition io_live :: "('h disk_req \<Rightarrow> bool) \<Rightarrow> int list \<Rightarrow> nat \<Rightarrow> 'h dadk_io \<Rightarrow> int list \<Rightarrow> bool" where
  "io_live good plan m io done \<longleftrightarrow>
    (\<exists>K x S L. cp_bytexfer (io_cp io) = of_nat (512 * K) \<and> 0 < K \<and> K \<le> S \<and> io_at good plan m x S L io done)"

text \<open>A request that is over.\<close>

definition io_over :: "int list \<Rightarrow> 'h dadk_io \<Rightarrow> int list \<Rightarrow> bool" where
  "io_over plan io done \<longleftrightarrow>
     io_sends io \<le> 6 * length plan \<and> count_list (io_events io) Ev_biodone = 1 \<and> count_list (io_events io) Ev_flc_deque = 1 \<and>
     (case b_error io of
        None \<Rightarrow> done = plan
      | Some e \<Rightarrow> (\<exists>left. plan = done @ left \<and> left \<noteq> [] \<and>
          b_resid io - cp_resid (io_cp io) + cp_bytexfer (io_cp io) = of_nat (512 * length left)))"

subsection \<open>Word arithmetic of the sections\<close>

lemma sec_shift_bytes: "n < 2 ^ 31 \<Longrightarrow> sec_shift 9 (of_nat (512 * n)) = of_nat n"
proof -
  assume n: "n < 2 ^ 31"
  have "int (512 * n) < 2 ^ 63" using n by simp
  then have "sint (of_nat (512 * n) :: u64) = int (512 * n)"
    unfolding sint_uint by (subst uint_nat) (simp add: unat_bytes64 [OF n] signed_take_bit_int_eq_self del: of_nat_mult of_nat_unat)
  then have "sint (signed_drop_bit 9 (of_nat (512 * n) :: u64)) = int (512 * n) div 2 ^ 9"
    by (simp only: sint_signed_drop_bit_eq drop_bit_eq_div)
  then have i: "sint (signed_drop_bit 9 (of_nat (512 * n) :: u64)) = int n" by simp
  have "signed_drop_bit 9 (of_nat (512 * n) :: u64) = word_of_int (sint (signed_drop_bit 9 (of_nat (512 * n) :: u64)))"
    by (simp del: of_nat_mult)
  then have e: "signed_drop_bit 9 (of_nat (512 * n) :: u64) = of_nat n" by (simp only: i of_int_of_nat_eq)
  have "uint (ucast (of_nat n :: u64) :: u32) = int n"
    using n by (simp add: unsigned_ucast_eq take_bit_int_eq_self uint_nat unat_of_nat take_bit_nat_eq_self flip: of_nat_take_bit)
  then have "sint (ucast (of_nat n :: u64) :: u32) = int n" unfolding sint_uint using n by (simp add: signed_take_bit_int_eq_self)
  then have "(scast (ucast (of_nat n :: u64) :: u32) :: u64) = of_nat n" 
    unfolding scast_eq by simp
  then show ?thesis unfolding sec_shift_def e .
qed

lemma bytes_diff: "k \<le> n \<Longrightarrow> of_nat (512 * n) - of_nat (512 * k) = (of_nat (512 * (n - k)) :: u64)"
  by (simp only: of_nat_diff [symmetric] mult_le_mono2 diff_mult_distrib2)

lemma of_nat_zero_iff: "n < 2 ^ 32 \<Longrightarrow> (of_nat n :: u64) = 0 \<longleftrightarrow> n = 0"
proof
  assume "n < 2 ^ 32" "(of_nat n :: u64) = 0"
  moreover have "unat (of_nat n :: u64) = n" using \<open>n < 2 ^ 32\<close> by (simp only: unat_of_nat) (simp add: take_bit_nat_eq_self)
  ultimately show "n = 0" by simp
qed simp

lemma bytes_zero_iff: "n < 2 ^ 31 \<Longrightarrow> (of_nat (512 * n) :: u64) = 0 \<longleftrightarrow> n = 0"
  using unat_bytes64 [of n] by (metis mult_eq_0_iff numeral_eq_iff unat_0 zero_neq_numeral mult_0_right of_nat_0)

lemma push_bit_sectors: "push_bit 9 (of_nat n) = (of_nat (512 * n) :: u64)"
  by (simp add: push_bit_eq_mult)

subsection \<open>Frames\<close>

lemma put_cp_simps [simp]:
  "io_cp (put_cp f io) = f (io_cp io)" "rq_pkt (io_req (put_cp f io)) = rq_pkt (io_req io)"
  "rq_dma (io_req (put_cp f io)) = rq_dma (io_req io)" "io_dad (put_cp f io) = io_dad io" "io_iodone (put_cp f io) = io_iodone io"
  "io_private (put_cp f io) = io_private io" "b_error (put_cp f io) = b_error io" "b_resid (put_cp f io) = b_resid io"
  "b_sec (put_cp f io) = b_sec io" "b_bcount (put_cp f io) = b_bcount io" "io_sends (put_cp f io) = io_sends io"
  "io_events (put_cp f io) = io_events io" "b_read (put_cp f io) = b_read io" "b_cmd (put_cp f io) = b_cmd io"
  by (simp_all add: put_cp_def)

lemma log_ev_simps [simp]:
  "io_req (log_ev es io) = io_req io" "io_dad (log_ev es io) = io_dad io" "io_iodone (log_ev es io) = io_iodone io"
  "io_private (log_ev es io) = io_private io" "b_error (log_ev es io) = b_error io" "b_resid (log_ev es io) = b_resid io"
  "io_sends (log_ev es io) = io_sends io" "io_events (log_ev es io) = io_events io @ es"
  by (simp_all add: log_ev_def)

context dada_controller
begin

lemma good_put_cp:
  "good (io_req io) \<Longrightarrow> cp_passthru (f (io_cp io)) = cp_passthru (io_cp io) \<Longrightarrow> good (io_req (put_cp f io))"
  by (rule good_stable) simp_all

lemma rest_after_take:
  assumes "io_private io = Some hp" "ck_prefix (drop (h_idx hp) (h_cktab hp))" "rest_sectors io \<noteq> []"
  obtains ck where "cmdk_bbh_htoc hp = (Some ck, hp\<lparr>h_idx := h_idx hp + 1\<rparr>)" "0 < ck_seclen ck"
    "rest_sectors io = ck_sectors ck @ concat (map ck_sectors (drop (h_idx hp + 1) (h_cktab hp)))"
    "ck_prefix (drop (h_idx hp + 1) (h_cktab hp))"
proof -
  let ?t = "drop (h_idx hp) (h_cktab hp)"
  obtain xs m where xs: "?t = xs @ replicate m ck_zero" "\<forall>c\<in>set xs. 0 < ck_seclen c" using assms(2) by (auto simp: ck_prefix_def)
  have "concat (map ck_sectors ?t) \<noteq> []" using assms(1,3) by (simp add: rest_sectors_def)
  then have "xs \<noteq> []" using xs(1) by auto
  then obtain ck ys where ck: "xs = ck # ys" by (cases xs) auto
  then have t: "?t = ck # ys @ replicate m ck_zero" using xs(1) by simp
  then have i: "h_idx hp < length (h_cktab hp)" using not_le_imp_less by fastforce
  then have "?t = h_cktab hp ! h_idx hp # drop (Suc (h_idx hp)) (h_cktab hp)" by (rule Cons_nth_drop_Suc [symmetric])
  then have "ck = h_cktab hp ! h_idx hp" "drop (h_idx hp + 1) (h_cktab hp) = ys @ replicate m ck_zero" using t by auto
  moreover have "0 < ck_seclen ck" "\<forall>c\<in>set ys. 0 < ck_seclen c" using xs(2) ck by auto
  ultimately show ?thesis
    using i assms(1) t by (intro that [of ck]) (auto simp: cmdk_bbh_htoc_def rest_sectors_def ck_prefix_def)
qed

end

lemma rest_sectors_cong: "io_private io' = io_private io \<Longrightarrow> rest_sectors io' = rest_sectors io"
  by (simp add: rest_sectors_def)

text \<open>What \<open>io_at\<close> looks at.\<close>

lemma io_at_cong:
  assumes "io_at good plan m x S L io done" "good (io_req io')"
    and "dad_secshf (io_dad io') = dad_secshf (io_dad io)" "io_iodone io' = io_iodone io" "b_error io' = b_error io"
      "b_resid io' = b_resid io" "cp_srtsec (io_cp io') = cp_srtsec (io_cp io)" "cp_secleft (io_cp io') = cp_secleft (io_cp io)"
      "cp_byteleft (io_cp io') = cp_byteleft (io_cp io)" "io_private io' = io_private io"
      "set (io_events io') \<subseteq> set (io_events io) \<union> {e. e \<noteq> Ev_biodone \<and> e \<noteq> Ev_flc_deque}"
      "unat (cp_retry (io_cp io')) \<le> 5"
      "io_sends io' + m' + (5 - unat (cp_retry (io_cp io'))) \<le> io_sends io + m + (5 - unat (cp_retry (io_cp io)))"
  shows "io_at good plan m' x S L io' done"
  using assms unfolding io_at_def rest_sectors_cong [OF assms(10)] by auto

lemma io_liveI:
  "cp_bytexfer (io_cp io) = of_nat (512 * K) \<Longrightarrow> 0 < K \<Longrightarrow> K \<le> S \<Longrightarrow> io_at good plan m x S L io done \<Longrightarrow> io_live good plan m io done"
  unfolding io_live_def by blast

context dada_controller
begin

lemma iosetup_live:
  assumes at: "io_at good plan m x S L io done" and bytes: "cp_bytexfer (io_cp io) = of_nat (512 * K)" and K: "0 < K" "K \<le> S"
  shows "\<exists>r. iosetup (io_req io) = (True, r) \<and> io_live good plan m (io\<lparr>io_req := r\<rparr>) done"
proof -
  have g: "good (io_req io)" and S: "S < 2 ^ 31" using at by (auto simp: io_at_def)
  have "K < 2 ^ 31" using K(2) S by simp
  from iosetup_takes [OF g bytes K(1) this] obtain k r where r: "iosetup (io_req io) = (True, r)" "good r" "0 < k" "k \<le> K"
    "rq_cp r = (io_cp io)\<lparr>cp_bytexfer := of_nat (512 * k), cp_resid := of_nat (512 * k)\<rparr>" by blast
  have "io_at good plan m x S L (io\<lparr>io_req := r\<rparr>) done"
    by (rule io_at_cong [OF at]) (use r in \<open>simp_all add: at [unfolded io_at_def]\<close>)
  then have "io_live good plan m (io\<lparr>io_req := r\<rparr>) done" by (rule io_liveI [where K = k, rotated -1]) (use r K(2) in simp_all)
  then show ?thesis using r(1) by blast
qed

lemma dadk_iosetup_live:
  assumes env: "ctl_iosetup env = iosetup"
    and n: "dadk_next_section io = Some io1" "io_at good plan m x S L io1 done" "0 < S"
  shows "\<exists>io2. dadk_iosetup env io = Some (True, io2) \<and> io_live good plan m io2 done \<and> cp_retry (io_cp io2) = cp_retry (io_cp io1)"
proof -
  let ?io = "put_cp (\<lambda>c. c\<lparr>cp_bytexfer := push_bit (dad_secshf (io_dad io1)) (cp_secleft c)\<rparr>) io1"
  have b: "cp_bytexfer (io_cp ?io) = of_nat (512 * S)"
    using n(2) by (simp add: io_at_def push_bit_sectors del: of_nat_mult)
  have at: "io_at good plan m x S L ?io done"
    by (rule io_at_cong [OF n(2)]) (use n(2) in \<open>simp_all add: io_at_def good_put_cp\<close>)
  have g: "good (io_req ?io)" and S: "S < 2 ^ 31" using at by (auto simp: io_at_def)
  from iosetup_takes [OF g b n(3) S] obtain r where
    r: "iosetup (io_req ?io) = (True, r)" "cp_retry (rq_cp r) = cp_retry (io_cp io1)" by auto
  from iosetup_live [OF at b n(3) order_refl] r have "io_live good plan m (?io\<lparr>io_req := r\<rparr>) done" by auto
  then show ?thesis using n(1) r env
    by (intro exI [of _ "?io\<lparr>io_req := r\<rparr>"]) (simp add: dadk_iosetup_def Let_def)
qed

text \<open>The next section after a transfer of \<open>K\<close> sectors.\<close>

lemma next_section_at:
  assumes at: "io_at good plan m x S L io done" and bytes: "cp_bytexfer (io_cp io) = of_nat (512 * K)"
    and K: "0 < K" "K \<le> S" "K < L"
  defines "io0 \<equiv> put_cp (\<lambda>c. c\<lparr>cp_retry := 0\<rparr>) (put_cp (\<lambda>c. c\<lparr>cp_byteleft := cp_byteleft c - cp_bytexfer c\<rparr>) io)"
  shows "\<exists>io1 x' S'. dadk_next_section io0 = Some io1 \<and> 0 < S' \<and> cp_retry (io_cp io1) = 0 \<and>
    io_at good plan 1 x' S' (L - K) io1 (done @ [x..x + int K - 1])"
proof -
  note at' = at [unfolded io_at_def]
  have sh: "dad_secshf (io_dad io0) = 9" using at' by (simp add: io0_def)
  have L: "L < 2 ^ 31" "L = S + length (rest_sectors io)" using at' by auto
  have cnt: "sec_shift 9 (cp_bytexfer (io_cp io0)) = of_nat K"
    using K(2) L by (simp add: io0_def bytes sec_shift_bytes del: of_nat_mult)
  have left: "cp_byteleft (io_cp io0) = of_nat (512 * (L - K))"
  proof -
    have "cp_byteleft (io_cp io0) = of_nat (512 * L) - of_nat (512 * K)" using at' by (simp add: io0_def bytes del: of_nat_mult)
    also have "\<dots> = of_nat (512 * (L - K))" using K(3) by (intro bytes_diff) simp
    finally show ?thesis .
  qed
  have secs: "cp_secleft (io_cp io0) - of_nat K = of_nat (S - K)" using at' K(2) by (simp add: io0_def of_nat_diff)
  have sends: "io_sends io + 1 + 5 + 6 * (L - K - 1) \<le> 6 * length plan" using at' K(1,3) by auto
  have g0: "good (io_req io0)" unfolding io0_def by (intro good_put_cp) (use at' in auto)
  have split: "[x..x + int S - 1] = [x..x + int K - 1] @ [x + int K..x + int S - 1]"
    using K(1,2) upto_split1 [of x "x + int K" "x + int S - 1"] by (cases "K = S") auto
  let ?put = "put_cp (\<lambda>c. c\<lparr>cp_secleft := cp_secleft c - of_nat K\<rparr>) io0"
  have put: "cp_secleft (io_cp ?put) = of_nat (S - K)" using secs by simp
  show ?thesis
  proof (cases "K = S")
    case False
    then have nz: "(of_nat (S - K) :: u64) \<noteq> 0" using K(2) L by (subst of_nat_zero_iff) auto
    define io1 where "io1 = put_cp (\<lambda>c. c\<lparr>cp_srtsec := cp_srtsec c + of_nat K\<rparr>) ?put"
    have n: "dadk_next_section io0 = Some io1"
      unfolding dadk_next_section_def Let_def sh cnt io1_def put by (simp only: nz not_False_eq_True if_True)
    have "good (io_req io1)" unfolding io1_def by (intro good_put_cp) (use g0 in auto)
    moreover have "rest_sectors io1 = rest_sectors io" by (rule rest_sectors_cong) (simp add: io1_def io0_def)
    moreover have "L - K < 2 ^ 31" "L - K = (S - K) + length (rest_sectors io)"
      "plan = (done @ [x..x + int K - 1]) @ [x + int K..x + int K + int (S - K) - 1] @ rest_sectors io"
      using L K at' split by (auto simp: of_nat_diff)
    ultimately have "io_at good plan 1 (x + int K) (S - K) (L - K) io1 (done @ [x..x + int K - 1])"
      using at' left secs sends K False unfolding io_at_def
      by (intro conjI) (simp_all add: io1_def io0_def)
    moreover have "cp_retry (io_cp io1) = 0" "0 < S - K" using False K(2) by (simp_all add: io1_def io0_def)
    ultimately show ?thesis using n by blast
  next
    case True
    then have ne: "rest_sectors io \<noteq> []" using K(3) L(2) by auto
    then obtain hp where hp: "io_private io = Some hp" by (auto simp: rest_sectors_def split: option.splits)
    have pre: "ck_prefix (drop (h_idx hp) (h_cktab hp))" using at' hp by auto
    from rest_after_take [OF hp pre ne] obtain ck where ck: "cmdk_bbh_htoc hp = (Some ck, hp\<lparr>h_idx := h_idx hp + 1\<rparr>)"
      "0 < ck_seclen ck" "rest_sectors io = ck_sectors ck @ concat (map ck_sectors (drop (h_idx hp + 1) (h_cktab hp)))"
      "ck_prefix (drop (h_idx hp + 1) (h_cktab hp))" by blast
    define io1 where "io1 = put_cp (\<lambda>c. c\<lparr>cp_srtsec := word_of_int (ck_sector ck), cp_secleft := word_of_int (ck_seclen ck)\<rparr>)
      (?put\<lparr>io_private := Some (hp\<lparr>h_idx := h_idx hp + 1\<rparr>)\<rparr>)"
    have n: "dadk_next_section io0 = Some io1"
      using True hp ck(1) unfolding dadk_next_section_def Let_def sh cnt io1_def put by (simp add: io0_def)
    have "good (io_req io1)" unfolding io1_def using g0 by (intro good_put_cp) (auto intro: good_put_cp)
    moreover have r1: "rest_sectors io1 = concat (map ck_sectors (drop (h_idx hp + 1) (h_cktab hp)))"
      by (simp add: rest_sectors_def io1_def)
    moreover have "ck_sectors ck = [ck_sector ck..ck_sector ck + int (nat (ck_seclen ck)) - 1]"
      using ck(2) by (simp add: ck_sectors_def)
    moreover have "length (ck_sectors ck) = nat (ck_seclen ck)" using ck(2) by (simp add: ck_sectors_def)
    moreover have "L - K < 2 ^ 31" "L - K = length (rest_sectors io)" using L K True by auto
    ultimately have "io_at good plan 1 (ck_sector ck) (nat (ck_seclen ck)) (L - K) io1 (done @ [x..x + int K - 1])"
      using at' left sends K True ck(2-4) unfolding io_at_def
      by (intro conjI) (simp_all add: io1_def io0_def)
    moreover have "cp_retry (io_cp io1) = 0" "0 < nat (ck_seclen ck)" using ck(2) by (simp_all add: io1_def io0_def)
    ultimately show ?thesis using n by blast
  qed
qed

end

text \<open>A request that has failed and is about to be finished.\<close>

definition io_err :: "int list \<Rightarrow> 'h dadk_io \<Rightarrow> int list \<Rightarrow> bool" where
  "io_err plan io done \<longleftrightarrow>
     io_sends io \<le> 6 * length plan \<and> Ev_biodone \<notin> set (io_events io) \<and> Ev_flc_deque \<notin> set (io_events io) \<and>
     io_iodone io = Iodone_dadk_iodone \<and> b_error io \<noteq> None \<and>
     (\<exists>left. plan = done @ left \<and> left \<noteq> [] \<and>
        b_resid io - cp_resid (io_cp io) + cp_bytexfer (io_cp io) = of_nat (512 * length left))"

lemma count_finish:
  "Ev_biodone \<notin> set (io_events io) \<Longrightarrow> Ev_flc_deque \<notin> set (io_events io) \<Longrightarrow>
   count_list (io_events (iodone_finish io)) Ev_biodone = 1 \<and> count_list (io_events (iodone_finish io)) Ev_flc_deque = 1"
  by (auto simp: iodone_finish_def count_notin)

lemma iodone_finish_simps [simp]:
  "b_error (iodone_finish io) = b_error io" "b_resid (iodone_finish io) = b_resid io" "io_cp (iodone_finish io) = io_cp io"
  "io_sends (iodone_finish io) = io_sends io"
  by (auto simp: iodone_finish_def ata_disk_memfree_def)

lemma err_finish:
  assumes "io_err plan io done"
  shows "\<exists>io'. dadk_iodone env io = Some (Ph_over, io') \<and> io_over plan io' done"
proof -
  let ?io = "put_cp (\<lambda>c. c\<lparr>cp_byteleft := cp_byteleft c - cp_bytexfer c\<rparr>) io"
  obtain e where "b_error io = Some e" using assms by (auto simp: io_err_def)
  then have "dadk_iodone env io = Some (Ph_over, iodone_finish ?io)" by (simp add: dadk_iodone_def Let_def)
  moreover have "io_over plan (iodone_finish ?io) done"
    using assms count_finish [of ?io] unfolding io_over_def io_err_def by auto
  ultimately show ?thesis by blast
qed

lemma io_at_left:
  assumes "io_at good plan m x S L io done"
  shows "\<exists>left. plan = done @ left \<and> length left = L"
proof -
  have "plan = done @ [x..x + int S - 1] @ rest_sectors io" "L = S + length (rest_sectors io)" using assms by (auto simp: io_at_def)
  then show ?thesis by (intro exI [of _ "[x..x + int S - 1] @ rest_sectors io"]) simp
qed

context dada_controller
begin

lemma transport_live:
  assumes "io_live good plan 1 io done"
  shows "\<exists>io'. call_ctl_transport env io = (ctl_transport env (io_sends io), io') \<and> io_live good plan 0 io' done \<and>
    cp_retry (io_cp io') = cp_retry (io_cp io)"
proof -
  obtain K x S L where k: "cp_bytexfer (io_cp io) = of_nat (512 * K)" "0 < K" "K \<le> S" "io_at good plan 1 x S L io done"
    using assms unfolding io_live_def by blast
  let ?io = "(log_ev [Ev_transport (cp_srtsec (io_cp io)) (cp_bytexfer (io_cp io))] io)\<lparr>io_sends := io_sends io + 1\<rparr>"
  have "io_at good plan 0 x S L ?io done"
    by (rule io_at_cong [OF k(4)]) (use k(4) in \<open>auto simp: io_at_def\<close>)
  then have "io_live good plan 0 ?io done" by (rule io_liveI [OF _ k(2,3), rotated]) (use k(1) in simp)
  then show ?thesis by (simp add: call_ctl_transport_def)
qed

lemma live_error:
  assumes "io_live good plan 0 io done" "io' = io \<or> io' = bioerror ENXIO io"
  shows "io_err plan (ioretry_error io') done"
proof -
  obtain K x S L where k: "cp_bytexfer (io_cp io) = of_nat (512 * K)" "0 < K" "K \<le> S" "io_at good plan 0 x S L io done"
    using assms unfolding io_live_def by blast
  obtain left where left: "plan = done @ left" "length left = L" using io_at_left [OF k(4)] by blast
  have L: "0 < L" using k(2-4) by (auto simp: io_at_def)
  have pl: "io_cdb io \<noteq> DCMD_FLUSH_CACHE" using good_plain [of "io_req io"] k(4) by (simp add: io_at_def)
  have e: "b_error (ioretry_error io') \<noteq> None" "io_cp (ioretry_error io') = io_cp io"
    "b_resid (ioretry_error io') = of_nat (512 * L) - cp_bytexfer (io_cp io) + cp_resid (io_cp io)"
    "io_sends (ioretry_error io') = io_sends io" "io_events (ioretry_error io') = io_events io" "io_iodone (ioretry_error io') = io_iodone io"
    using assms(2) k(4) pl by (auto simp: ioretry_error_def bioerror_def io_at_def Let_def simp del: of_nat_mult)
  have "io_sends io \<le> 6 * length plan" "Ev_biodone \<notin> set (io_events io)" "Ev_flc_deque \<notin> set (io_events io)"
    "io_iodone io = Iodone_dadk_iodone" using k(4) by (auto simp: io_at_def)
  moreover have "left \<noteq> []" using left L by auto
  ultimately show ?thesis unfolding io_err_def e(2-6) using e(1) left by (auto simp del: of_nat_mult intro!: exI [of _ left])
qed

lemma ioretry_live:
  assumes env: "ctl_iosetup env = iosetup" and live: "io_live good plan 0 io done"
  shows "\<exists>ret io'. dadk_ioretry env QUE_COMMAND io = (ret, io') \<and> (if ret then io_live good plan 0 io' done else io_err plan io' done)"
proof -
  obtain K x S L where k: "cp_bytexfer (io_cp io) = of_nat (512 * K)" "0 < K" "K \<le> S" "io_at good plan 0 x S L io done"
    using live unfolding io_live_def by blast
  let ?io = "put_cp (\<lambda>c. c\<lparr>cp_retry := cp_retry c + 1\<rparr>) io"
  show ?thesis
  proof (cases "cp_retry (io_cp io) < DADK_RETRY_COUNT")
    case False
    have "ioretry_error (bioerror ENXIO ?io) = put_cp (\<lambda>c. c\<lparr>cp_retry := cp_retry c + 1\<rparr>) (ioretry_error (bioerror ENXIO io))"
      by (simp add: ioretry_error_def bioerror_def put_cp_def Let_def)
    moreover have "io_err plan (ioretry_error (bioerror ENXIO io)) done" by (rule live_error [OF live]) simp
    ultimately have "io_err plan (ioretry_error (bioerror ENXIO ?io)) done" by (simp add: io_err_def)
    moreover have "dadk_ioretry env QUE_COMMAND io = (False, ioretry_error (bioerror ENXIO ?io))"
      using False by (simp add: dadk_ioretry_def Let_def)
    ultimately show ?thesis by auto
  next
    case True
    then have r: "unat (cp_retry (io_cp io) + 1) = unat (cp_retry (io_cp io)) + 1" "unat (cp_retry (io_cp io)) < 5"
      by (auto simp: DADK_RETRY_COUNT_def word_less_nat_alt unat_word_ariths)
    have "io_at good plan 1 x S L ?io done"
      by (rule io_at_cong [OF k(4)]) (use k(4) r in \<open>auto simp: io_at_def good_put_cp\<close>)
    from iosetup_live [OF this _ k(2,3)] k(1) obtain rq where
      rq: "iosetup (io_req ?io) = (True, rq)" "io_live good plan 1 (?io\<lparr>io_req := rq\<rparr>) done" by auto
    from transport_live [OF rq(2), of env] obtain io2 where
      t: "call_ctl_transport env (?io\<lparr>io_req := rq\<rparr>) = (ctl_transport env (io_sends (?io\<lparr>io_req := rq\<rparr>)), io2)" "io_live good plan 0 io2 done" by blast
    have "io_err plan (ioretry_error (bioerror ENXIO io2)) done" by (rule live_error [OF t(2)]) simp
    moreover have "dadk_ioretry env QUE_COMMAND io =
        (if ctl_transport env (io_sends (?io\<lparr>io_req := rq\<rparr>)) then (True, io2) else (False, ioretry_error (bioerror ENXIO io2)))"
      using True env rq(1) t(1) by (simp add: dadk_ioretry_def Let_def)
    ultimately show ?thesis using t(2) by (cases "ctl_transport env (io_sends (?io\<lparr>io_req := rq\<rparr>))") auto
  qed
qed

end

text \<open>What every state of a request satisfies.\<close>

definition io_state :: "('h disk_req \<Rightarrow> bool) \<Rightarrow> int list \<Rightarrow> io_phase \<times> 'h dadk_io \<times> int list \<Rightarrow> bool" where
  "io_state good plan s \<longleftrightarrow>
    (case s of (ph, io, done) \<Rightarrow> if ph = Ph_over then io_over plan io done else io_live good plan 0 io done)"

lemma call_ctl_transport_sends: "call_ctl_transport env io = (sent, io') \<Longrightarrow> io_sends io' = io_sends io + 1"
  by (auto simp: call_ctl_transport_def)

lemma next_section_sends: "dadk_next_section io = Some io' \<Longrightarrow> io_sends io' = io_sends io"
  by (auto simp: dadk_next_section_def Let_def split: if_splits option.splits prod.splits)

lemma dadk_iosetup_sends: "dadk_iosetup env io = Some (ok, io') \<Longrightarrow> io_sends io' = io_sends io"
proof -
  assume a: "dadk_iosetup env io = Some (ok, io')"
  then obtain z where z: "dadk_next_section io = Some z" "io_sends io' = io_sends z"
    by (force simp: dadk_iosetup_def Let_def case_prod_beta)
  then show ?thesis using next_section_sends by force
qed

lemma ioretry_sends:
  "dadk_ioretry env act io = (rt, io') \<Longrightarrow> io_sends io \<le> io_sends io' \<and> (rt \<longrightarrow> io_sends io < io_sends io')"
  by (auto simp: dadk_ioretry_def Let_def ioretry_error_def bioerror_def call_ctl_transport_def
      split: dadk_action.splits if_splits)

context dada_controller
begin

lemma live_xfer_sectors:
  assumes "io_at good plan m x S L io done" "cp_bytexfer (io_cp io) = of_nat (512 * K)" "0 < K" "K \<le> S"
  shows "xfer_sectors io = [x..x + int K - 1]"
proof -
  have x: "0 \<le> x" "x < 2 ^ 31" using assms by (auto simp: io_at_def)
  have "K < 2 ^ 31" using assms(1,4) by (simp add: io_at_def)
  then have "uint (cp_bytexfer (io_cp io)) = 512 * int K" unfolding assms(2) uint_nat by (simp add: unat_bytes64 del: of_nat_mult of_nat_unat)
  moreover have "uint (cp_srtsec (io_cp io)) = x"
    using assms(1) x by (simp add: io_at_def uint_word_of_int)
  ultimately show ?thesis by (simp add: xfer_sectors_def)
qed

lemma iodone_live:
  assumes env: "ctl_iosetup env = iosetup" and live: "io_live good plan 0 io done"
  shows "\<exists>ph io'. dadk_iodone env io = Some (ph, io') \<and> ph \<noteq> Ph_busy \<and> io_state good plan (ph, io', done @ xfer_sectors io) \<and>
    (ph = Ph_sent \<longrightarrow> io_sends io < io_sends io')"
proof -
  obtain K x S L where k: "cp_bytexfer (io_cp io) = of_nat (512 * K)" "0 < K" "K \<le> S" "io_at good plan 0 x S L io done"
    using live unfolding io_live_def by blast
  note at' = k(4) [unfolded io_at_def]
  note xs = live_xfer_sectors [OF k(4,1-3)]
  let ?io = "put_cp (\<lambda>c. c\<lparr>cp_byteleft := cp_byteleft c - cp_bytexfer c\<rparr>) io"
  let ?jo = "put_cp (\<lambda>c. c\<lparr>cp_retry := 0\<rparr>) ?io"
  have left: "cp_byteleft (io_cp ?io) = of_nat (512 * (L - K))"
  proof -
    have "cp_byteleft (io_cp ?io) = of_nat (512 * L) - of_nat (512 * K)" using at' by (simp add: k(1) del: of_nat_mult)
    also have "\<dots> = of_nat (512 * (L - K))" using k(3) at' by (intro bytes_diff) simp
    finally show ?thesis .
  qed
  have L: "L < 2 ^ 31" using at' by blast
  show ?thesis
  proof (cases "K < L")
    case True
    have "\<not> L - K = 0" using True by simp
    then have nz: "cp_byteleft (io_cp ?io) \<noteq> 0" unfolding left using bytes_zero_iff [of "L - K"] L by simp
    from next_section_at [OF k(4,1-3) True] obtain io1 x' S' where
      n: "dadk_next_section ?jo = Some io1" "0 < S'" "cp_retry (io_cp io1) = 0"
        "io_at good plan 1 x' S' (L - K) io1 (done @ [x..x + int K - 1])" by blast
    from dadk_iosetup_live [OF env n(1,4,2)] obtain io2 where
      i: "dadk_iosetup env ?jo = Some (True, io2)" "io_live good plan 1 io2 (done @ xfer_sectors io)" by (auto simp: xs)
    from transport_live [OF i(2), of env] obtain io3 where
      t: "call_ctl_transport env io2 = (ctl_transport env (io_sends io2), io3)" "io_live good plan 0 io3 (done @ xfer_sectors io)" by blast
    from ioretry_live [OF env t(2)] obtain ret io4 where
      r: "dadk_ioretry env QUE_COMMAND io3 = (ret, io4)"
         "if ret then io_live good plan 0 io4 (done @ xfer_sectors io) else io_err plan io4 (done @ xfer_sectors io)" by blast
    have e: "dadk_iodone env io =
        (if ctl_transport env (io_sends io2) then Some (Ph_sent, io3)
         else if ret then Some (Ph_sent, io4) else Some (Ph_over, iodone_finish io4))"
      using nz at' i(1) t(1) r(1) by (simp add: dadk_iodone_def Let_def)
    have sends: "io_sends io < io_sends io3" "ret \<Longrightarrow> io_sends io < io_sends io4"
      using call_ctl_transport_sends [OF t(1)] dadk_iosetup_sends [OF i(1)] ioretry_sends [OF r(1)] by auto
    have over: "io_over plan (iodone_finish io4) (done @ xfer_sectors io)" if "\<not> ret"
      using r(2) that count_finish [of io4] by (auto simp: io_err_def io_over_def)
    show ?thesis unfolding e using t(2) r(2) over sends by (auto simp: io_state_def)
  next
    case False
    have LS: "L = S + length (rest_sectors io)" using at' by blast
    then have KL: "K = L" "K = S" using False k(3) by simp_all
    then have "rest_sectors io = []" using LS by simp
    note KL = KL this
    then have "cp_byteleft (io_cp ?io) = 0" using left by simp
    then have "dadk_iodone env io = Some (Ph_over, iodone_finish ?io)" by (simp add: dadk_iodone_def Let_def)
    moreover have "io_over plan (iodone_finish ?io) (done @ xfer_sectors io)"
      using at' KL count_finish [of ?io] by (auto simp: io_over_def xs)
    ultimately show ?thesis by (simp add: io_state_def)
  qed
qed

end

text \<open>The steps left to a request.\<close>

definition steps_left :: "int list \<Rightarrow> io_phase \<times> 'h dadk_io \<times> int list \<Rightarrow> nat" where
  "steps_left plan s =
    (case s of (ph, io, done) \<Rightarrow>
       if ph = Ph_over then 0 else 1 + 2 * (6 * length plan - io_sends io) + (if ph = Ph_sent then 1 else 0))"

lemma io_live_sends: "io_live good plan 0 io done \<Longrightarrow> io_sends io \<le> 6 * length plan"
  by (auto simp: io_live_def io_at_def)

lemma io_live_iodone: "io_live good plan m io done \<Longrightarrow> io_iodone io = Iodone_dadk_iodone"
  by (auto simp: io_live_def io_at_def)

lemma io_err_iodone: "io_err plan io done \<Longrightarrow> io_iodone io = Iodone_dadk_iodone"
  by (simp add: io_err_def)

lemma errtab_actions: "fst (dadk_errtab e) \<in> {COMMAND_DONE, COMMAND_DONE_ERROR, QUE_COMMAND} \<or> e = DERR_BUSY \<and> fst (dadk_errtab e) = JUST_RETURN"
  by (cases e) simp_all

context dada_controller
begin

lemma live_cong:
  assumes "io_live good plan m io done" "good (io_req io')"
    and "dad_secshf (io_dad io') = dad_secshf (io_dad io)" "io_iodone io' = io_iodone io" "b_error io' = b_error io"
      "b_resid io' = b_resid io" "io_sends io' = io_sends io"
      "cp_srtsec (io_cp io') = cp_srtsec (io_cp io)" "cp_secleft (io_cp io') = cp_secleft (io_cp io)"
      "cp_byteleft (io_cp io') = cp_byteleft (io_cp io)" "cp_bytexfer (io_cp io') = cp_bytexfer (io_cp io)"
      "cp_retry (io_cp io') = cp_retry (io_cp io)" "io_private io' = io_private io"
      "set (io_events io') \<subseteq> set (io_events io) \<union> {e. e \<noteq> Ev_biodone \<and> e \<noteq> Ev_flc_deque}"
  shows "io_live good plan m io' done"
proof -
  obtain K x S L where k: "cp_bytexfer (io_cp io) = of_nat (512 * K)" "0 < K" "K \<le> S" "io_at good plan m x S L io done"
    using assms(1) unfolding io_live_def by blast
  have "unat (cp_retry (io_cp io)) \<le> 5" using k(4) by (simp add: io_at_def)
  then have "io_at good plan m x S L io' done" by (intro io_at_cong [OF k(4)]) (use assms(2-) in simp_all)
  then show ?thesis by (rule io_liveI [OF _ k(2,3), rotated]) (use k(1) assms(11) in simp)
qed

lemma live_good: "io_live good plan m io done \<Longrightarrow> good (io_req io)"
  by (auto simp: io_live_def io_at_def)

lemma ends_live:
  assumes "io_live good plan 0 io done" "ctl_ends io io1"
  shows "io_live good plan 0 io1 done" "io_sends io1 = io_sends io" "cp_passthru (io_cp io1) = None"
proof -
  obtain why m k where io1: "ap_cdb k = io_cdb io"
    "io1 = io\<lparr>io_req := (io_req io)\<lparr>rq_cp := (io_cp io)\<lparr>cp_reason := why, cp_resid := m\<rparr>, rq_pkt := k\<rparr>\<rparr>"
    using assms(2) by (auto simp: ctl_ends_def)
  have g: "good (io_req io1)" by (rule good_stable [OF live_good [OF assms(1)]]) (use io1 in simp_all)
  show "io_live good plan 0 io1 done" by (rule live_cong [OF assms(1) g]) (use io1 in simp_all)
  show "io_sends io1 = io_sends io" using io1 by simp
  show "cp_passthru (io_cp io1) = None" using good_plain [OF g] by simp
qed

lemma finish_state:
  assumes "io_err plan io done"
  shows "\<exists>io'. call_iodone env io = Some (Ph_over, io') \<and> io_state good plan (Ph_over, io', done)"
  using err_finish [OF assms] io_err_iodone [OF assms] by (auto simp: call_iodone_def io_state_def)

lemma retry_state:
  assumes env: "ctl_iosetup env = iosetup" and live: "io_live good plan 0 io done"
  shows "\<exists>ph io'. dadk_restart env io = Some (ph, io') \<and> ph \<noteq> Ph_busy \<and> io_state good plan (ph, io', done) \<and>
    (ph = Ph_sent \<longrightarrow> io_sends io < io_sends io')"
proof -
  from ioretry_live [OF env live] obtain again io1 where
    r: "dadk_ioretry env QUE_COMMAND io = (again, io1)" "if again then io_live good plan 0 io1 done else io_err plan io1 done" by blast
  show ?thesis
  proof (cases again)
    case True
    then show ?thesis using r ioretry_sends [OF r(1)] by (auto simp: dadk_restart_def io_state_def)
  next
    case False
    then have "io_err plan io1 done" using r(2) by simp
    from finish_state [OF this, of env] show ?thesis using r(1) False by (auto simp: dadk_restart_def)
  qed
qed

lemma pktcb_state:
  assumes env: "ctl_iosetup env = iosetup" and live: "io_live good plan 0 io done" and ends: "ctl_ends io io1"
  shows "\<exists>ph io2. dadk_pktcb env io1 = Some (ph, io2) \<and>
    io_state good plan (ph, io2, done @ (if counted io1 then xfer_sectors io1 else [])) \<and>
    (ph = Ph_sent \<longrightarrow> io_sends io < io_sends io2) \<and> (ph = Ph_busy \<longrightarrow> io_sends io \<le> io_sends io2)"
proof -
  note l1 = ends_live [OF live ends]
  have ci: "call_iodone env io1 = dadk_iodone env io1" using io_live_iodone [OF l1(1)] by (simp add: call_iodone_def)
  consider (ok) "cp_reason (io_cp io1) = CPS_SUCCESS" | (chk) "cp_reason (io_cp io1) = CPS_CHKERR"
    | (fail) "cp_reason (io_cp io1) \<noteq> CPS_SUCCESS" "cp_reason (io_cp io1) \<noteq> CPS_CHKERR" by blast
  then show ?thesis
  proof cases
    case ok
    then have "dadk_pktcb env io1 = dadk_iodone env io1" "counted io1" using l1(3) ci by (simp_all add: dadk_pktcb_def counted_def)
    with iodone_live [OF env l1(1)] show ?thesis using l1(2) by auto
  next
    case fail
    have "io_err plan (ioretry_error io1) done" by (rule live_error [OF l1(1)]) simp
    from finish_state [OF this, of env] fail l1(3) show ?thesis
      by (auto simp: dadk_pktcb_def counted_def dadk_ioretry_def Let_def)
  next
    case chk
    obtain act io2 where c: "dadk_chkerr io1 = (act, io2)" by fastforce
    have io2: "io2 = io1 \<or> io2 = log_ev [Ev_busy_timer] io1" using c by (auto simp: dadk_chkerr_def split: if_splits)
    then have l2: "io_live good plan 0 io2 done" "io_sends io2 = io_sends io" "xfer_sectors io2 = xfer_sectors io1"
      using l1 by (auto simp: xfer_sectors_def live_good intro: live_cong [OF l1(1)])
    have act: "act \<in> {COMMAND_DONE, COMMAND_DONE_ERROR, QUE_COMMAND, JUST_RETURN}"
      using c errtab_actions [of "io_scb io1"] by (auto simp: dadk_chkerr_def split: if_splits)
    have t: "counted io1 \<longleftrightarrow> act = COMMAND_DONE" using chk c by (simp add: counted_def)
    have cb: "dadk_pktcb env io1 =
        (if act = JUST_RETURN then Some (Ph_busy, io2)
         else if act = COMMAND_DONE then call_iodone env io2
         else (case dadk_ioretry env act io2 of (rt, io) \<Rightarrow> if rt then Some (Ph_sent, io) else call_iodone env io))"
      using chk l1(3) c by (simp add: dadk_pktcb_def)
    have ci2: "call_iodone env io2 = dadk_iodone env io2" using io_live_iodone [OF l2(1)] by (simp add: call_iodone_def)
    from act consider "act = JUST_RETURN" | "act = COMMAND_DONE" | "act = COMMAND_DONE_ERROR" | "act = QUE_COMMAND" by blast
    then show ?thesis
    proof cases
      case 1
      then show ?thesis using cb t l2 by (simp add: io_state_def)
    next
      case 2
      with iodone_live [OF env l2(1)] show ?thesis using cb t ci2 l2 by auto
    next
      case 3
      have "io_err plan (ioretry_error io2) done" by (rule live_error [OF l2(1)]) simp
      from finish_state [OF this, of env] 3 show ?thesis using cb t by (auto simp: dadk_ioretry_def)
    next
      case 4
      then have "dadk_pktcb env io1 = dadk_restart env io2" using cb by (simp add: dadk_restart_def Let_def)
      with retry_state [OF env l2(1)] show ?thesis using t 4 l2(2) by auto
    qed
  qed
qed

text \<open>A step keeps the state of the request, with the sectors counted as done; they are those that were moved when
  the endings are such that only these are counted.\<close>

lemma step_state:
  assumes env: "ctl_iosetup env = iosetup" and ends: "\<And>io io1. ends io io1 \<Longrightarrow> ctl_ends io io1"
    and st: "io_state good plan (ph, io, e)" and step: "dadk_step ends env (ph, io, d) (ph', io', d')"
  shows "\<exists>e'. io_state good plan (ph', io', e') \<and> steps_left plan (ph', io', e') < steps_left plan (ph, io, e) \<and>
     (counts_moved ends \<and> e = d \<longrightarrow> e' = d')"
  using step
proof cases
  case (step_end io1)
  have live: "io_live good plan 0 io e" using st step_end(1) by (simp add: io_state_def)
  let ?e = "e @ (if counted io1 then xfer_sectors io1 else [])"
  from pktcb_state [OF env live ends [OF step_end(3)]] step_end(4)
  have s: "io_state good plan (ph', io', ?e)"
    "ph' = Ph_sent \<longrightarrow> io_sends io < io_sends io'" "ph' = Ph_busy \<longrightarrow> io_sends io \<le> io_sends io'" by auto
  have "ph' = Ph_sent \<longrightarrow> io_sends io' \<le> 6 * length plan" using s(1) by (auto simp: io_state_def dest: io_live_sends)
  then have "steps_left plan (ph', io', ?e) < steps_left plan (ph, io, e)"
    using s(2,3) step_end(1) by (cases ph') (auto simp: steps_left_def)
  moreover have "counts_moved ends \<and> e = d \<longrightarrow> ?e = d'"
    using step_end(2,3) by (auto simp: counts_moved_def moved_sectors_def)
  ultimately show ?thesis using s(1) by blast
next
  case step_busy
  have live: "io_live good plan 0 io e" using st step_busy(1) by (simp add: io_state_def)
  from retry_state [OF env live] step_busy(3)
  have s: "io_state good plan (ph', io', e)" "ph' = Ph_sent \<longrightarrow> io_sends io < io_sends io'" "ph' \<noteq> Ph_busy" by auto
  have "ph' = Ph_sent \<longrightarrow> io_sends io' \<le> 6 * length plan" using s(1) by (auto simp: io_state_def dest: io_live_sends)
  then have "steps_left plan (ph', io', e) < steps_left plan (ph, io, e)"
    using s(2,3) step_busy(1) by (cases ph') (auto simp: steps_left_def)
  then show ?thesis using s(1) step_busy(2) by blast
qed

end

subsection \<open>Starting a request\<close>

text \<open>A buffer of \<open>n\<close> sectors for a read or write, and a packet of the controller that is fit for it.\<close>

definition buffer_ok ::
  "('h disk_req \<Rightarrow> bool) \<Rightarrow> 'h disk_req option \<Rightarrow> ('h disk_req \<Rightarrow> 'h disk_req option) \<Rightarrow> nat \<Rightarrow> 'h dadk_io \<Rightarrow> bool" where
  "buffer_ok good pkt memsetup n io \<longleftrightarrow>
     \<not> io_haspkt io \<and> b_error io = None \<and> b_resid io = 0 \<and> b_bcount io = of_nat (512 * n) \<and> 0 < n \<and> n < 2 ^ 31 \<and>
     dad_secshf (io_dad io) = 9 \<and> io_sends io = 0 \<and> io_events io = [] \<and> b_cmd io = None \<and>
     (\<exists>r. Option.bind pkt memsetup = Some r \<and> cp_bytexfer (rq_cp r) = 0 \<and> cp_secleft (rq_cp r) = 0 \<and>
        good (r\<lparr>rq_pkt := (rq_pkt r)\<lparr>ap_cdb := if b_read io then DCMD_READ else DCMD_WRITE\<rparr>\<rparr>))"

text \<open>The handle of the request: without one it lies on the device as it is, the cookies of one make up its sectors.\<close>

definition request_ok ::
  "('h disk_req \<Rightarrow> bool) \<Rightarrow> 'h dadk_env \<Rightarrow> 'h disk_req option \<Rightarrow> ('h disk_req \<Rightarrow> 'h disk_req option) \<Rightarrow> nat \<Rightarrow> 'h dadk_io \<Rightarrow> bool" where
  "request_ok good env pkt memsetup n io \<longleftrightarrow> buffer_ok good pkt memsetup n io \<and>
     (case bbh_gethandle env (b_sec io) (b_bcount io) of
        None \<Rightarrow> uint (b_sec io) + int n \<le> 2 ^ 31
      | Some hp \<Rightarrow> h_idx hp = 0 \<and> ck_prefix (h_cktab hp) \<and> length (io_plan env io) = n \<and>
          (\<forall>s\<in>set (io_plan env io). 0 \<le> s \<and> s < 2 ^ 31))"

context dada_controller
begin

lemma ioprep_live:
  assumes env: "ctl_iosetup env = iosetup"
    and n: "b_bcount io = of_nat (512 * n)" "0 < n" "n < 2 ^ 31" "dad_secshf (io_dad io) = 9" "b_error io = None" "b_resid io = 0"
      "io_sends io = 0" "io_events io = []" "b_cmd io = None" "io_iodone io = Iodone_dadk_iodone"
    and r: "cp_bytexfer (io_cp io) = 0" "cp_secleft (io_cp io) = 0" "cp_retry (io_cp io) = 0"
      "good ((io_req io)\<lparr>rq_pkt := (rq_pkt (io_req io))\<lparr>ap_cdb := if b_read io then DCMD_READ else DCMD_WRITE\<rparr>\<rparr>)"
    and h: "case bbh_gethandle env (b_sec io) (b_bcount io) of
        None \<Rightarrow> uint (b_sec io) + int n \<le> 2 ^ 31
      | Some hp \<Rightarrow> h_idx hp = 0 \<and> ck_prefix (h_cktab hp) \<and> length (io_plan env io) = n \<and>
          (\<forall>s\<in>set (io_plan env io). 0 \<le> s \<and> s < 2 ^ 31)"
  shows "\<exists>io'. dadk_ioprep env io = Some (True, io') \<and> io_live good (io_plan env io) 1 io' []"
proof -
  let ?cdb = "if b_read io then DCMD_READ else DCMD_WRITE"
  define h where "h = bbh_gethandle env (b_sec io) (b_bcount io)"
  define ia where "ia = io\<lparr>io_req := (io_req io)\<lparr>rq_pkt := (rq_pkt (io_req io))\<lparr>ap_cdb := ?cdb\<rparr>,
     rq_cp := (io_cp io)\<lparr>cp_byteleft := b_bcount io\<rparr>\<rparr>, io_private := h\<rparr>"
  have prep: "dadk_ioprep env io = dadk_iosetup env ia" using n(9) by (simp add: dadk_ioprep_def ia_def h_def Let_def)
  have ga: "good (io_req ia)" by (rule good_stable [OF r(4)]) (simp_all add: ia_def)
  let ?ib = "put_cp (\<lambda>c. c\<lparr>cp_secleft := cp_secleft c - 0\<rparr>) ia"
  have cnt: "sec_shift (dad_secshf (io_dad ia)) (cp_bytexfer (io_cp ia)) = 0"
    using sec_shift_bytes [of 0] n(4) r(1) by (simp add: ia_def)
  have sl: "cp_secleft (io_cp ?ib) = 0" using r(2) by (simp add: ia_def)
  have u: "uint (b_bcount io) div 512 = int n" unfolding n(1) uint_nat using n(3) by (simp add: unat_bytes64 del: of_nat_mult of_nat_unat)
  have "\<exists>io1 x S. dadk_next_section ia = Some io1 \<and> 0 < S \<and> io_at good (io_plan env io) 1 x S n io1 []"
  proof (cases h)
    case None
    define io1 where "io1 = put_cp (\<lambda>c. c\<lparr>cp_srtsec := b_sec ia, cp_secleft := drop_bit 9 (b_bcount ia)\<rparr>) ?ib"
    have sh: "dad_secshf (io_dad ia) = 9" using n(4) by (simp add: ia_def)
    have nx: "dadk_next_section ia = Some io1"
      using None sl unfolding dadk_next_section_def Let_def cnt by (simp add: io1_def ia_def n(4))
    have d: "drop_bit 9 (b_bcount io) = of_nat n"
    proof (rule word_unat_eq_iff [THEN iffD2])
      have "unat (of_nat n :: u64) = n" using n(3) by (simp only: unat_of_nat) (simp add: take_bit_nat_eq_self)
      moreover have "take_bit 64 (512 * n) = 512 * n" using n(3) by (intro take_bit_nat_eq_self) simp
      ultimately show "unat (drop_bit 9 (b_bcount io)) = unat (of_nat n :: u64)"
        unfolding unsigned_drop_bit_eq n(1) unat_bytes64 [OF n(3)] by (simp add: drop_bit_eq_div)
    qed
    have pl: "io_plan env io = [uint (b_sec io)..uint (b_sec io) + int n - 1]" using None u by (simp add: io_plan_def h_def)
    have bd: "uint (b_sec io) + int n \<le> 2 ^ 31" using h None by (simp add: h_def)
    have g1: "good (io_req io1)" unfolding io1_def by (intro good_put_cp) (use ga in auto)
    have "io_at good (io_plan env io) 1 (uint (b_sec io)) n n io1 []"
      unfolding io_at_def pl using g1 n d bd r(3) None order_trans [OF uint_ge_0 [of "b_sec io"]]
      by (intro conjI) (auto simp: io1_def ia_def rest_sectors_def simp del: of_nat_mult)
    then show ?thesis using nx n(2) by blast
  next
    case (Some hp)
    then have hp: "h_idx hp = 0" "ck_prefix (h_cktab hp)" "length (io_plan env io) = n" "\<forall>s\<in>set (io_plan env io). 0 \<le> s \<and> s < 2 ^ 31"
      using h by (simp_all add: h_def)
    have pl: "rest_sectors ia = io_plan env io" using Some hp(1) by (simp add: rest_sectors_def io_plan_def ia_def h_def)
    have p: "io_private ia = Some hp" "ck_prefix (drop (h_idx hp) (h_cktab hp))" "rest_sectors ia \<noteq> []"
      using Some hp pl n(2) by (auto simp: ia_def)
    from rest_after_take [OF p] obtain ck where ck: "cmdk_bbh_htoc hp = (Some ck, hp\<lparr>h_idx := h_idx hp + 1\<rparr>)" "0 < ck_seclen ck"
      "rest_sectors ia = ck_sectors ck @ concat (map ck_sectors (drop (h_idx hp + 1) (h_cktab hp)))"
      "ck_prefix (drop (h_idx hp + 1) (h_cktab hp))" by blast
    define io1 where "io1 = put_cp (\<lambda>c. c\<lparr>cp_srtsec := word_of_int (ck_sector ck), cp_secleft := word_of_int (ck_seclen ck)\<rparr>)
      (?ib\<lparr>io_private := Some (hp\<lparr>h_idx := h_idx hp + 1\<rparr>)\<rparr>)"
    have nx: "dadk_next_section ia = Some io1"
      using p(1) ck(1) sl unfolding dadk_next_section_def Let_def cnt by (simp add: io1_def)
    have g1: "good (io_req io1)" unfolding io1_def using ga by (intro good_put_cp) (auto intro: good_put_cp)
    have r1: "rest_sectors io1 = concat (map ck_sectors (drop (h_idx hp + 1) (h_cktab hp)))" by (simp add: rest_sectors_def io1_def)
    have cs: "ck_sectors ck = [ck_sector ck..ck_sector ck + int (nat (ck_seclen ck)) - 1]" using ck(2) by (simp add: ck_sectors_def)
    have "length (ck_sectors ck) = nat (ck_seclen ck)" using ck(2) by (simp add: ck_sectors_def)
    then have "length (rest_sectors ia) = nat (ck_seclen ck) + length (rest_sectors io1)" unfolding ck(3) r1 by simp
    then have "n = nat (ck_seclen ck) + length (rest_sectors io1)" using hp(3) pl by simp
    then have "io_at good (io_plan env io) 1 (ck_sector ck) (nat (ck_seclen ck)) n io1 []"
      unfolding io_at_def using g1 n r(3) hp(3,4) cs ck(2-4) pl r1
      by (intro conjI) (auto simp: io1_def ia_def simp del: of_nat_mult)
    then show ?thesis using nx ck(2) by (metis zero_less_nat_eq)
  qed
  then obtain io1 x S where i: "dadk_next_section ia = Some io1" "0 < S" "io_at good (io_plan env io) 1 x S n io1 []" by blast
  from dadk_iosetup_live [OF env i(1,3,2)] show ?thesis unfolding prep by blast
qed

lemma transport_state:
  assumes env: "ctl_iosetup env = iosetup" and live: "io_live good plan 1 io d"
  shows "\<exists>ph io'. dadk_transport env io = Some (ph, io') \<and> io_state good plan (ph, io', d)"
proof -
  from transport_live [OF live, of env] obtain io1 where
    t: "call_ctl_transport env io = (ctl_transport env (io_sends io), io1)" "io_live good plan 0 io1 d" by blast
  show ?thesis
  proof (cases "ctl_transport env (io_sends io)")
    case True
    then have "dadk_transport env io = Some (Ph_sent, io1)" using t(1) by (simp add: dadk_transport_def)
    then show ?thesis using t(2) by (simp add: io_state_def)
  next
    case False
    then have "dadk_transport env io = dadk_restart env io1" using t(1) by (simp add: dadk_transport_def)
    with retry_state [OF env t(2)] show ?thesis by auto
  qed
qed

lemma start_state:
  assumes env: "ctl_iosetup env = iosetup" and ok: "request_ok good env pkt memsetup n io"
  shows "\<exists>ph io'. dadk_start env pkt memsetup io = Some (ph, io') \<and> io_state good (io_plan env io) (ph, io', [])"
proof -
  note o = ok [unfolded request_ok_def buffer_ok_def]
  obtain r0 r where r: "pkt = Some r0" "memsetup r0 = Some r" "cp_bytexfer (rq_cp r) = 0" "cp_secleft (rq_cp r) = 0"
    "good (r\<lparr>rq_pkt := (rq_pkt r)\<lparr>ap_cdb := if b_read io then DCMD_READ else DCMD_WRITE\<rparr>\<rparr>)"
    using o by (cases pkt) auto
  have nz: "b_bcount io \<noteq> 0" using o bytes_zero_iff [of n] by auto
  define i1 where "i1 = put_cp (\<lambda>c. c\<lparr>cp_time := DADK_IO_TIME\<rparr>)
    ((put_cp (\<lambda>c. c\<lparr>cp_retry := 0\<rparr>) (io\<lparr>io_req := r, io_haspkt := True\<rparr>))\<lparr>io_nointr := False, io_iodone := Iodone_dadk_iodone\<rparr>)"
  have pk: "dadk_pkt env pkt memsetup io = dadk_ioprep env i1"
    using o r(1,2) nz by (simp add: dadk_pkt_def dadk_pktprep_def gda_pktprep_def i1_def)
  have pl: "io_plan env i1 = io_plan env io" by (simp add: io_plan_def i1_def put_cp_def split: option.split)
  have g: "good ((io_req i1)\<lparr>rq_pkt := (rq_pkt (io_req i1))\<lparr>ap_cdb := if b_read i1 then DCMD_READ else DCMD_WRITE\<rparr>\<rparr>)"
    by (rule good_stable [OF r(5)]) (simp_all add: i1_def put_cp_def)
  have "\<exists>io'. dadk_ioprep env i1 = Some (True, io') \<and> io_live good (io_plan env i1) 1 io' []"
  proof (rule ioprep_live [OF env, of i1 n])
    have f: "b_sec i1 = b_sec io" "b_bcount i1 = b_bcount io" by (simp_all add: i1_def)
    show "case bbh_gethandle env (b_sec i1) (b_bcount i1) of
        None \<Rightarrow> uint (b_sec i1) + int n \<le> 2 ^ 31
      | Some hp \<Rightarrow> h_idx hp = 0 \<and> ck_prefix (h_cktab hp) \<and> length (io_plan env i1) = n \<and>
          (\<forall>s\<in>set (io_plan env i1). 0 \<le> s \<and> s < 2 ^ 31)"
      unfolding f pl using o by blast
  qed (use o r g in \<open>simp_all add: i1_def\<close>)
  then obtain io' where i: "dadk_ioprep env i1 = Some (True, io')" "io_live good (io_plan env io) 1 io' []" using pl by auto
  from transport_state [OF env i(2)] show ?thesis using pk i(1) by (auto simp: dadk_start_def)
qed

end

end
