(* ===== verification/Dadk_Disk.thy ===== *)
theory Dadk_Disk
  imports Dadk_Run
begin

text \<open>
  The properties of a disk request (\<open>Dadk_Run\<close>) with the ATA controller's programmed transfers, and with the bad
  block handles of \<open>Cmdk_Bbh\<close>.
\<close>

context dada_controller
begin

lemma run_state:
  assumes env: "ctl_iosetup env = iosetup" and ends: "\<And>io io1. ends io io1 \<Longrightarrow> ctl_ends io io1"
    and st: "io_state good plan (ph0, io0, e0)" and run: "(dadk_step ends env ^^ k) (ph0, io0, d0) (ph, io, d)"
  shows "\<exists>e. io_state good plan (ph, io, e) \<and> k + steps_left plan (ph, io, e) \<le> steps_left plan (ph0, io0, e0) \<and>
     (counts_moved ends \<and> e0 = d0 \<longrightarrow> e = d)"
  using run
proof (induction k arbitrary: ph io d)
  case 0
  then show ?case using st by auto
next
  case (Suc k)
  then obtain ph1 io1 d1 where s1: "(dadk_step ends env ^^ k) (ph0, io0, d0) (ph1, io1, d1)"
      "dadk_step ends env (ph1, io1, d1) (ph, io, d)" by auto
  from Suc.IH [OF s1(1)] obtain e1 where e1: "io_state good plan (ph1, io1, e1)"
      "k + steps_left plan (ph1, io1, e1) \<le> steps_left plan (ph0, io0, e0)" "counts_moved ends \<and> e0 = d0 \<longrightarrow> e1 = d1" by blast
  obtain e where "io_state good plan (ph, io, e)" "steps_left plan (ph, io, e) < steps_left plan (ph1, io1, e1)"
      "counts_moved ends \<and> e1 = d1 \<longrightarrow> e = d"
    using step_state [OF env ends e1(1) s1(2)] by blast
  with e1(2,3) show ?case by (intro exI [of _ e]) auto
qed

lemma run_done:
  assumes "io_state good plan (ph, io, d)"
  shows "(\<exists>left. plan = d @ left) \<and> (ph = Ph_over \<and> b_error io = None \<longrightarrow> d = plan)"
proof (cases "ph = Ph_over")
  case True
  then show ?thesis using assms by (auto simp: io_state_def io_over_def split: option.splits)
next
  case False
  then show ?thesis using assms by (auto simp: io_state_def io_live_def dest: io_at_left)
qed

lemma run_sends: "io_state good plan (ph, io, d) \<Longrightarrow> io_sends io \<le> 6 * length plan"
  by (cases "ph = Ph_over") (auto simp: io_state_def io_over_def dest: io_live_sends)

lemma run_moves:
  assumes env: "ctl_iosetup env = iosetup" and st: "io_state good plan (ph, io, e)"
  shows "ph = Ph_busy \<Longrightarrow> \<exists>s. dadk_step ends env (ph, io, d) s"
    "ph = Ph_sent \<Longrightarrow> ctl_ends io io1 \<Longrightarrow> dadk_pktcb env io1 \<noteq> None"
proof -
  assume p: "ph = Ph_busy"
  then have "io_live good plan 0 io e" using st by (simp add: io_state_def)
  from retry_state [OF env this] show "\<exists>s. dadk_step ends env (ph, io, d) s" unfolding p by (blast intro: step_busy)
next
  assume p: "ph = Ph_sent" and c: "ctl_ends io io1"
  then have "io_live good plan 0 io e" using st by (simp add: io_state_def)
  from pktcb_state [OF env this c] show "dadk_pktcb env io1 \<noteq> None" by auto
qed

end

text \<open>Under the ATA controller the sectors moved are those of the state.\<close>

lemma ata_counts: "counts_moved (ata_ends dv)"
  unfolding counts_moved_def by (blast dest: ata_ends_counted)

lemma ata_run:
  fixes io :: "'h dadk_io"
  assumes "ctl_iosetup env = ata_disk_iosetup ops d (ac_max_transfer prop)" "request_ok pio_request env pkt memsetup n io"
    and "dadk_start env pkt memsetup io = Some (ph0, io0)" "(dadk_step (ata_ends dv) env ^^ k) (ph0, io0, []) (ph, io', dn)"
  shows "io_state pio_request (io_plan env io) (ph, io', dn)"
proof -
  have "io_state pio_request (io_plan env io) (ph0, io0, [])" using pio.start_state [OF assms(1,2)] assms(3) by auto
  note R = pio.run_state [where ends = "ata_ends dv", OF assms(1) _ this assms(4)]
  from R [OF ata_ends_ctl [of dv]] show ?thesis using ata_counts [of dv] by auto
qed

lemma buffer_length:
  assumes "request_ok good env pkt memsetup n io"
  shows "length (io_plan env io) = n"
proof -
  have n: "b_bcount io = of_nat (512 * n)" "n < 2 ^ 31" using assms by (simp_all add: request_ok_def buffer_ok_def)
  have "uint (b_bcount io) div 512 = int n" unfolding n(1) uint_nat using n(2) by (simp add: unat_bytes64 del: of_nat_mult of_nat_unat)
  then show ?thesis using assms
    by (cases "bbh_gethandle env (b_sec io) (b_bcount io)") (simp_all add: request_ok_def io_plan_def)
qed

subsection \<open>Properties\<close>

text \<open>C18: A request by programmed transfers (no DMA handle) that finishes without an error has had every one of its sectors
  moved once, in order, whatever was retried or refused; until then the sectors moved are an initial part of it. Moved
  are the sectors of the transfers that \<open>ata_disk_complete\<close> reports as successful; what else it may report, from
  any status and error register, is never taken for a success.\<close>

theorem dadk_request_covers:
  assumes "ctl_iosetup env = ata_disk_iosetup ops d (ac_max_transfer prop)" "request_ok pio_request env pkt memsetup n io"
    and "dadk_start env pkt memsetup io = Some (ph0, io0)" "(dadk_step (ata_ends d) env ^^ k) (ph0, io0, []) (ph, io', dn)"
  shows "(\<exists>left. io_plan env io = dn @ left) \<and> (ph = Ph_over \<and> b_error io' = None \<longrightarrow> dn = io_plan env io)"
  by (rule pio.run_done [OF ata_run [OF assms]])

text \<open>C17: A request by programmed transfers (no DMA handle) of \<open>n\<close> sectors ends after at most \<open>12 n + 2\<close> steps and
  \<open>6 n\<close> transports, however often the controller, here any controller, fails or refuses a transfer. Until it is over it can
  always go on, whatever the end of the transfer; then the buffer is completed and the flow control told exactly once. With
  a DMA handle the setup of a retry fails (\<open>ata_disk_iosetup\<close>) and the request is not covered.\<close>

theorem dadk_request_ends:
  assumes "ctl_iosetup env = ata_disk_iosetup ops d (ac_max_transfer prop)" "request_ok pio_request env pkt memsetup n io"
  shows "\<exists>ph0 io0. dadk_start env pkt memsetup io = Some (ph0, io0) \<and>
    (\<forall>k ph io' dn. (dadk_step ctl_ends env ^^ k) (ph0, io0, []) (ph, io', dn) \<longrightarrow>
      k \<le> 12 * n + 2 \<and> io_sends io' \<le> 6 * n \<and>
      (ph = Ph_sent \<longrightarrow> (\<forall>io1. ctl_ends io' io1 \<longrightarrow> dadk_pktcb env io1 \<noteq> None)) \<and>
      (ph = Ph_busy \<longrightarrow> (\<exists>s. dadk_step ctl_ends env (ph, io', dn) s)) \<and>
      (ph = Ph_over \<longrightarrow> count_list (io_events io') Ev_biodone = 1 \<and> count_list (io_events io') Ev_flc_deque = 1))"
proof -
  obtain ph0 io0 where s: "dadk_start env pkt memsetup io = Some (ph0, io0)" "io_state pio_request (io_plan env io) (ph0, io0, [])"
    using pio.start_state [OF assms] by blast
  have len: "length (io_plan env io) = n" by (rule buffer_length [OF assms(2)])
  have "k \<le> 12 * n + 2 \<and> io_sends io' \<le> 6 * n \<and>
      (ph = Ph_sent \<longrightarrow> (\<forall>io1. ctl_ends io' io1 \<longrightarrow> dadk_pktcb env io1 \<noteq> None)) \<and>
      (ph = Ph_busy \<longrightarrow> (\<exists>s. dadk_step ctl_ends env (ph, io', dn) s)) \<and>
      (ph = Ph_over \<longrightarrow> count_list (io_events io') Ev_biodone = 1 \<and> count_list (io_events io') Ev_flc_deque = 1)"
    if run: "(dadk_step ctl_ends env ^^ k) (ph0, io0, []) (ph, io', dn)" for k ph io' dn
  proof -
    obtain e where r: "io_state pio_request (io_plan env io) (ph, io', e)" "k \<le> steps_left (io_plan env io) (ph0, io0, [])"
      using pio.run_state [OF assms(1) _ s(2) run] by fastforce
    then have "k \<le> 12 * n + 2" by (auto simp: steps_left_def len split: if_splits)
    moreover have "io_sends io' \<le> 6 * n" using pio.run_sends [OF r(1)] by (simp add: len)
    moreover note pio.run_moves [OF assms(1) r(1)]
    moreover have "ph = Ph_over \<Longrightarrow> count_list (io_events io') Ev_biodone = 1 \<and> count_list (io_events io') Ev_flc_deque = 1"
      using r(1) by (simp add: io_state_def io_over_def)
    ultimately show ?thesis by blast
  qed
  with s(1) show ?thesis by blast
qed

text \<open>C35: When a request by programmed transfers (no DMA handle) fails under the ATA controller, the residual count of the
  buffer is the bytes of the sectors not moved, less what the last transfer moved all the same (its byte count less its
  residual).\<close>

theorem dadk_error_resid:
  assumes "ctl_iosetup env = ata_disk_iosetup ops d (ac_max_transfer prop)" "request_ok pio_request env pkt memsetup n io"
    and "dadk_start env pkt memsetup io = Some (ph0, io0)" "(dadk_step (ata_ends d) env ^^ k) (ph0, io0, []) (Ph_over, io', dn)"
    and "b_error io' \<noteq> None"
  shows "length dn < n \<and>
    b_resid io' = of_nat (512 * (n - length dn)) - (cp_bytexfer (io_cp io') - cp_resid (io_cp io'))"
proof -
  obtain left where l: "io_plan env io = dn @ left" "left \<noteq> []"
    "b_resid io' - cp_resid (io_cp io') + cp_bytexfer (io_cp io') = of_nat (512 * length left)"
    using ata_run [OF assms(1-4)] assms(5) by (auto simp: io_state_def io_over_def split: option.splits)
  have n: "n = length dn + length left" using buffer_length [OF assms(2)] l(1) by simp
  moreover have "0 < length left" using l(2) by simp
  moreover have "b_resid io' = of_nat (512 * length left) - (cp_bytexfer (io_cp io') - cp_resid (io_cp io'))"
    unfolding l(3) [symmetric] by simp
  ultimately show ?thesis by simp
qed

subsection \<open>A request of three sectors\<close>

text \<open>The controller refuses the first transport, so the packet is retried.\<close>

definition demo_req :: "(nat \<times> nat) disk_req" where
  "demo_req = \<lparr>rq_cp = cmpkt0, rq_pkt = zero_ata_pkt, rq_dma = gdma0\<rparr>"

definition demo_buf :: "u64 \<Rightarrow> nat \<Rightarrow> (nat \<times> nat) dadk_io" where
  "demo_buf sec n =
    \<lparr>io_dad = \<lparr>dad_rmb = False, dad_rdonly = False, dad_cdrom = False, dad_noflush = False, dad_wce = True,
       dad_secshf = 9, dad_blkshf = 0, dad_g_secsiz = 512\<rparr>,
     io_haspkt = False, io_req = demo_req, io_iodone = Iodone_dadk_polldone, io_silent = False, io_nointr = False,
     io_private = None,
     io_status = \<lparr>st_status = DADKIO_STAT_NO_ERROR, st_failed_blk = 0, st_failed_blk_is_valid = False, st_resid = 0\<rparr>,
     b_sec = sec, b_bcount = of_nat (512 * n), b_resid = 0, b_error = None, b_read = True, b_cmd = None,
     io_sends = 0, io_events = []\<rparr>"

definition demo_ctl :: "(u64 \<Rightarrow> u64 \<Rightarrow> bbh_handle option) \<Rightarrow> (nat \<times> nat) dadk_env" where
  "demo_ctl h = \<lparr>ctl_iosetup = ata_disk_iosetup (ops2 wins2) (disk0 0xe0) (ac_max_transfer 0x100),
     ctl_transport = (\<lambda>n. n \<noteq> 0), bbh_gethandle = h\<rparr>"

lemma demo_ctl_setup: "ctl_iosetup (demo_ctl h) = ata_disk_iosetup (ops2 wins2) (disk0 0xe0) (ac_max_transfer 0x100)"
  by (simp add: demo_ctl_def)

lemma demo_buffer_ok: "0 < n \<Longrightarrow> n < 2 ^ 31 \<Longrightarrow> buffer_ok pio_request (Some demo_req) Some n (demo_buf sec n)"
  by (simp add: buffer_ok_def demo_buf_def demo_req_def pio_request_def cmpkt0_def gdma0_def)

lemma demo_request_ok: "request_ok pio_request (demo_ctl (\<lambda>_ _. None)) (Some demo_req) Some 3 (demo_buf 8 3)"
  using demo_buffer_ok [of 3 8] by (simp add: request_ok_def demo_ctl_def demo_buf_def)

text \<open>A run in which every transfer ends with the same flags in the packet, to look at the model.\<close>

fun run_ends ::
  "ata_drv \<Rightarrow> 'h dadk_env \<Rightarrow> u32 \<Rightarrow> nat \<Rightarrow> io_phase \<times> 'h dadk_io \<times> int list \<Rightarrow> (io_phase \<times> 'h dadk_io \<times> int list) option" where
  "run_ends dv env fl 0 s = Some s"
| "run_ends dv env fl (Suc k) (ph, io, d) =
    (if ph = Ph_sent
     then (let io1 = completed dv ((rq_pkt (io_req io))\<lparr>ap_flags := fl\<rparr>) io
           in case dadk_pktcb env io1 of
                None \<Rightarrow> None
              | Some (ph, io2) \<Rightarrow> run_ends dv env fl k (ph, io2, d @ moved_sectors io1))
     else None)"

lemma run_ends_steps: "run_ends dv env fl k s = Some s' \<Longrightarrow> (dadk_step (ata_ends dv) env ^^ k) s s'"
proof (induction dv env fl k s rule: run_ends.induct)
  case (2 dv env fl k ph io d)
  let ?io1 = "completed dv ((rq_pkt (io_req io))\<lparr>ap_flags := fl\<rparr>) io"
  obtain ph2 io2 where p: "ph = Ph_sent" "dadk_pktcb env ?io1 = Some (ph2, io2)"
    "run_ends dv env fl k (ph2, io2, d @ moved_sectors ?io1) = Some s'"
    using "2.prems" by (auto simp: Let_def split: if_splits option.splits)
  have "ata_ends dv io ?io1" unfolding ata_ends_def by (intro exI [of _ "(rq_pkt (io_req io))\<lparr>ap_flags := fl\<rparr>"]) simp
  from step_end [where ends = "ata_ends dv", OF this p(2)]
  have "dadk_step (ata_ends dv) env (ph, io, d) (ph2, io2, d @ moved_sectors ?io1)" unfolding p(1) .
  moreover note "2.IH" [OF p(1) refl p(2) refl p(3)]
  ultimately show ?case by (rule relpowp_Suc_I2)
qed simp

definition demo_first :: "io_phase \<times> (nat \<times> nat) dadk_io" where
  "demo_first = the (dadk_start (demo_ctl (\<lambda>_ _. None)) (Some demo_req) Some (demo_buf 8 3))"

lemma demo_start: "dadk_start (demo_ctl (\<lambda>_ _. None)) (Some demo_req) Some (demo_buf 8 3) = Some (fst demo_first, snd demo_first)"
proof -
  have "dadk_start (demo_ctl (\<lambda>_ _. None)) (Some demo_req) Some (demo_buf 8 3) \<noteq> None" by code_simp
  then show ?thesis by (auto simp: demo_first_def)
qed

lemma demo_run_ok:
  "map_option (\<lambda>(ph, io, d). (ph, b_error io, d)) (run_ends (disk0 0xe0) (demo_ctl (\<lambda>_ _. None)) 0 1 (fst demo_first, snd demo_first, []))
    = Some (Ph_over, None, [8, 9, 10])"
  "map_option (\<lambda>(ph, io, d). (ph, b_error io, b_resid io)) (run_ends (disk0 0xe0) (demo_ctl (\<lambda>_ _. None)) AP_TIMEOUT 1 (fst demo_first, snd demo_first, []))
    = Some (Ph_over, Some EIO, 1536)"
  by (code_simp, code_simp)

theorem dadk_request_covers_witness:
  "\<exists>io' d. (dadk_step (ata_ends (disk0 0xe0)) (demo_ctl (\<lambda>_ _. None)) ^^ 1) (fst demo_first, snd demo_first, []) (Ph_over, io', d) \<and>
     b_error io' = None \<and> d = io_plan (demo_ctl (\<lambda>_ _. None)) (demo_buf 8 3)"
proof -
  obtain ph io' d where r: "run_ends (disk0 0xe0) (demo_ctl (\<lambda>_ _. None)) 0 1 (fst demo_first, snd demo_first, []) = Some (ph, io', d)"
    "ph = Ph_over" "b_error io' = None"
    using demo_run_ok(1) by auto
  note run = run_ends_steps [OF r(1), unfolded r(2)]
  from dadk_request_covers [OF demo_ctl_setup demo_request_ok demo_start run] r(3) run show ?thesis by blast
qed

theorem dadk_request_ends_witness:
  "\<exists>ph0 io0. dadk_start (demo_ctl (\<lambda>_ _. None)) (Some demo_req) Some (demo_buf 8 3) = Some (ph0, io0) \<and>
    (\<forall>k ph io' dn. (dadk_step ctl_ends (demo_ctl (\<lambda>_ _. None)) ^^ k) (ph0, io0, []) (ph, io', dn) \<longrightarrow>
      k \<le> 12 * 3 + 2 \<and> io_sends io' \<le> 6 * 3 \<and>
      (ph = Ph_sent \<longrightarrow> (\<forall>io1. ctl_ends io' io1 \<longrightarrow> dadk_pktcb (demo_ctl (\<lambda>_ _. None)) io1 \<noteq> None)) \<and>
      (ph = Ph_busy \<longrightarrow> (\<exists>s. dadk_step ctl_ends (demo_ctl (\<lambda>_ _. None)) (ph, io', dn) s)) \<and>
      (ph = Ph_over \<longrightarrow> count_list (io_events io') Ev_biodone = 1 \<and> count_list (io_events io') Ev_flc_deque = 1))"
  by (rule dadk_request_ends [OF demo_ctl_setup demo_request_ok])

theorem dadk_error_resid_witness:
  "\<exists>io' d. (dadk_step (ata_ends (disk0 0xe0)) (demo_ctl (\<lambda>_ _. None)) ^^ 1) (fst demo_first, snd demo_first, []) (Ph_over, io', d) \<and>
     b_error io' = Some EIO \<and> length d < 3 \<and>
     b_resid io' = of_nat (512 * (3 - length d)) - (cp_bytexfer (io_cp io') - cp_resid (io_cp io'))"
proof -
  obtain ph io' d where r: "run_ends (disk0 0xe0) (demo_ctl (\<lambda>_ _. None)) AP_TIMEOUT 1 (fst demo_first, snd demo_first, []) = Some (ph, io', d)"
    "ph = Ph_over" "b_error io' = Some EIO"
    using demo_run_ok(2) by auto
  note run = run_ends_steps [OF r(1), unfolded r(2)]
  have "b_error io' \<noteq> None" using r(3) by simp
  from dadk_error_resid [OF demo_ctl_setup demo_request_ok demo_start run this] r(3) run show ?thesis by blast
qed

subsection \<open>With bad blocks\<close>

text \<open>\<open>BBH_GETHANDLE\<close> of a buffer in slice \<open>part\<close>; a fault of the splitting, which does not happen, is no handle.\<close>

definition cmdk_handle :: "cmdk_bbh \<Rightarrow> nat \<Rightarrow> u64 \<Rightarrow> u64 \<Rightarrow> bbh_handle option" where
  "cmdk_handle dk part sec bcount =
    (case cmdk_bbh_gethandle dk part (sint sec) (uint bcount) of Some h \<Rightarrow> h | None \<Rightarrow> None)"

lemma handle_plan:
  assumes dk: "bbh_inv dk" "label_fits benv" "cmdk_bbh_reopen benv dk = Some dk'" "dk_alts_hdl dk' \<noteq> None"
      "alts_valid (bad_table benv)" "part < NDKMAP" "cmlb_partinfo benv part = Some (slcn, slcb, tag)"
    and slc: "0 \<le> slcb" "slcb + slcn \<le> 2 ^ 31" "slcb \<le> uint (b_sec io)" "uint (b_sec io) + int n \<le> slcb + slcn"
    and good: "\<forall>s. uint (b_sec io) \<le> s \<and> s < uint (b_sec io) + int n \<longrightarrow> 0 \<le> alts_remap (bad_table benv) s \<and> alts_remap (bad_table benv) s < 2 ^ 31"
    and env: "bbh_gethandle env = cmdk_handle dk' part" and ok: "buffer_ok good pkt memsetup n io"
  shows "request_ok good env pkt memsetup n io \<and>
    io_plan env io = map (alts_remap (bad_table benv)) [uint (b_sec io)..uint (b_sec io) + int n - 1]"
proof -
  let ?s = "uint (b_sec io)"
  have n: "b_bcount io = of_nat (512 * n)" "0 < n" "n < 2 ^ 31" using ok by (simp_all add: buffer_ok_def)
  have bc: "uint (b_bcount io) = 512 * int n" unfolding n(1) uint_nat using n(3) by (simp add: unat_bytes64 del: of_nat_mult of_nat_unat)
  have "?s < 2 ^ 63" using slc(2,4) n(2) by simp
  then have sec: "sint (b_sec io) = ?s" 
    unfolding sint_uint using order_trans [OF _ uint_ge_0 [of "b_sec io"], of "- (2 ^ 63)"]
    by (intro signed_take_bit_int_eq_self) simp_all
  have "0 < int n" using n(2) by simp
  from bbh_request_spec [OF dk slc(1,2) this slc(3,4)] obtain r where
    r: "cmdk_bbh_gethandle dk' part ?s (512 * int n) = Some r"
    "case r of
       None \<Rightarrow> \<forall>s. ?s \<le> s \<and> s < ?s + int n \<longrightarrow> alts_remap (bad_table benv) s = s
     | Some hp \<Rightarrow> h_idx hp = 0 \<and> h_totck hp = length (h_cktab hp) \<and>
         concat (map ck_sectors (h_cktab hp)) = map (alts_remap (bad_table benv)) [?s..?s + int n - 1] \<and> ck_prefix (h_cktab hp)"
    by blast
  have h: "bbh_gethandle env (b_sec io) (b_bcount io) = r" using r(1) by (simp add: env cmdk_handle_def sec bc)
  have pl: "io_plan env io = map (alts_remap (bad_table benv)) [?s..?s + int n - 1]"
  proof (cases r)
    case None
    then have "map (alts_remap (bad_table benv)) [?s..?s + int n - 1] = map id [?s..?s + int n - 1]" using r(2) by (intro map_cong) auto
    then show ?thesis using None h bc by (simp add: io_plan_def)
  qed (use r(2) h in \<open>simp add: io_plan_def\<close>)
  have "request_ok good env pkt memsetup n io"
    unfolding request_ok_def h pl using ok r(2) slc(2,4) good by (cases r) auto
  with pl show ?thesis by blast
qed

lemma remapped_run:
  assumes "bbh_inv dk" "label_fits benv" "cmdk_bbh_reopen benv dk = Some dk'" "dk_alts_hdl dk' \<noteq> None"
    and "alts_valid (bad_table benv)" "part < NDKMAP" "cmlb_partinfo benv part = Some (slcn, slcb, tag)"
    and "0 \<le> slcb" "slcb + slcn \<le> 2 ^ 31" "slcb \<le> uint (b_sec io)" "uint (b_sec io) + int n \<le> slcb + slcn"
    and "\<forall>s. uint (b_sec io) \<le> s \<and> s < uint (b_sec io) + int n \<longrightarrow>
          0 \<le> alts_remap (bad_table benv) s \<and> alts_remap (bad_table benv) s < 2 ^ 31"
    and "bbh_gethandle env = cmdk_handle dk' part" "buffer_ok pio_request pkt memsetup n io"
    and "ctl_iosetup env = ata_disk_iosetup ops d (ac_max_transfer prop)"
    and "dadk_start env pkt memsetup io = Some (ph0, io0)" "(dadk_step (ata_ends d) env ^^ k) (ph0, io0, []) (Ph_over, io', dn)" "b_error io' = None"
  shows "dn = map (alts_remap (bad_table benv)) [uint (b_sec io)..uint (b_sec io) + int n - 1]"
proof -
  note p = handle_plan [OF assms(1-14)]
  from pio.run_done [OF ata_run [OF assms(15) conjunct1 [OF p] assms(16,17)]] assms(18) p show ?thesis by simp
qed

text \<open>A request on a disk with a table of alternates that finishes without an error has transferred, in order,
  the replacement of every sector of the request, as the table gives it: the table as read and indexed, the binary search,
  the splitting, the sections and the retries together.\<close>

theorem disk_request_remapped:
  assumes "bbh_inv dk" "label_fits benv" "cmdk_bbh_reopen benv dk = Some dk'" "dk_alts_hdl dk' \<noteq> None"
    and "alts_valid (bad_table benv)" "part < NDKMAP" "cmlb_partinfo benv part = Some (slcn, slcb, tag)"
    and "0 \<le> slcb" "slcb + slcn \<le> 2 ^ 31" "slcb \<le> uint (b_sec io)" "uint (b_sec io) + int n \<le> slcb + slcn"
    and "\<forall>s. uint (b_sec io) \<le> s \<and> s < uint (b_sec io) + int n \<longrightarrow>
          0 \<le> alts_remap (bad_table benv) s \<and> alts_remap (bad_table benv) s < 2 ^ 31"
    and "bbh_gethandle env = cmdk_handle dk' part" "buffer_ok pio_request pkt memsetup n io"
    and "ctl_iosetup env = ata_disk_iosetup ops d (ac_max_transfer prop)"
    and "dadk_start env pkt memsetup io = Some (ph0, io0)" "(dadk_step (ata_ends d) env ^^ k) (ph0, io0, []) (Ph_over, io', dn)" "b_error io' = None"
  shows "dn = map (alts_remap (bad_table benv)) [uint (b_sec io)..uint (b_sec io) + int n - 1]"
  using assms by (rule remapped_run)

text \<open>What runs after the start does not look at the handles again.\<close>

lemma env_cong:
  assumes "ctl_iosetup env = ctl_iosetup env'" "ctl_transport env = ctl_transport env'"
  shows "dadk_iosetup env io = dadk_iosetup env' io" "dadk_ioretry env act io = dadk_ioretry env' act io"
    "dadk_iodone env io = dadk_iodone env' io" "call_iodone env io = call_iodone env' io" "dadk_pktcb env io = dadk_pktcb env' io"
    "dadk_restart env io = dadk_restart env' io" "dadk_transport env io = dadk_transport env' io"
proof -
  have t: "call_ctl_transport env = call_ctl_transport env'" by (intro ext) (unfold call_ctl_transport_def assms, rule refl)
  have s: "dadk_iosetup env = dadk_iosetup env'" by (intro ext) (unfold dadk_iosetup_def assms, rule refl)
  have r: "dadk_ioretry env = dadk_ioretry env'" by (intro ext) (unfold dadk_ioretry_def assms t, rule refl)
  have d: "dadk_iodone env = dadk_iodone env'" by (intro ext) (unfold dadk_iodone_def s t r, rule refl)
  have c: "call_iodone env = call_iodone env'" by (intro ext) (unfold call_iodone_def d, rule refl)
  show "dadk_iosetup env io = dadk_iosetup env' io" "dadk_ioretry env act io = dadk_ioretry env' act io"
    "dadk_iodone env io = dadk_iodone env' io" "call_iodone env io = call_iodone env' io" by (simp_all add: s r d c)
  show "dadk_pktcb env io = dadk_pktcb env' io" by (unfold dadk_pktcb_def d c r, rule refl)
  show "dadk_restart env io = dadk_restart env' io" by (unfold dadk_restart_def c r, rule refl)
  show "dadk_transport env io = dadk_transport env' io" by (unfold dadk_transport_def dadk_restart_def c r t, rule refl)
qed

lemma run_ends_cong:
  assumes "ctl_iosetup env = ctl_iosetup env'" "ctl_transport env = ctl_transport env'"
  shows "run_ends dv env fl k s = run_ends dv env' fl k s"
proof (induction k arbitrary: s)
  case (Suc k)
  then show ?case by (cases s) (auto simp: env_cong(5) [OF assms] Let_def split: option.split)
qed simp

lemma start_cong:
  assumes "ctl_iosetup env = ctl_iosetup env'" "ctl_transport env = ctl_transport env'"
    "bbh_gethandle env (b_sec io) (b_bcount io) = bbh_gethandle env' (b_sec io) (b_bcount io)"
  shows "dadk_start env pkt memsetup io = dadk_start env' pkt memsetup io"
proof -
  have p: "b_sec io1 = b_sec io \<and> b_bcount io1 = b_bcount io" if "dadk_pktprep pkt memsetup f io = (ok, io1)" for f ok io1
    using that by (auto simp: dadk_pktprep_def gda_pktprep_def Let_def put_cp_def log_ev_def split: option.splits prod.splits if_splits)
  have "dadk_pkt env pkt memsetup io = dadk_pkt env' pkt memsetup io"
    using p assms(3) by (auto simp: dadk_pkt_def dadk_ioprep_def Let_def env_cong(1) [OF assms(1,2)] split: prod.splits)
  then show ?thesis by (unfold dadk_start_def env_cong(7) [OF assms(1,2)]) simp
qed

text \<open>Sectors 12 and 13 of the example of \<open>Cmdk_Bbh\<close>: the first is replaced.\<close>

definition demo_table :: cmdk_bbh where "demo_table = the (cmdk_bbh_reopen demo_env demo_dk)"

definition demo_hp :: bbh_handle where
  "demo_hp = \<lparr>h_totck = 3, h_idx = 0, h_cktab = [\<lparr>ck_sector = 52, ck_seclen = 1\<rparr>, \<lparr>ck_sector = 13, ck_seclen = 1\<rparr>, \<lparr>ck_sector = 0, ck_seclen = 0\<rparr>]\<rparr>"

definition demo_bad :: "io_phase \<times> (nat \<times> nat) dadk_io" where
  "demo_bad = the (dadk_start (demo_ctl (\<lambda>_ _. Some demo_hp)) (Some demo_req) Some (demo_buf 12 2))"

lemma demo_bad_handle: "cmdk_handle demo_table 0 12 1024 = Some demo_hp"
  by code_simp

lemma demo_bad_start: "dadk_start (demo_ctl (\<lambda>_ _. Some demo_hp)) (Some demo_req) Some (demo_buf 12 2) \<noteq> None"
  by code_simp

lemma demo_bad_run:
  "map_option (\<lambda>(ph, io, d). (ph, b_error io, d))
     (run_ends (disk0 0xe0) (demo_ctl (\<lambda>_ _. Some demo_hp)) 0 2 (fst demo_bad, snd demo_bad, [])) = Some (Ph_over, None, [52, 13])"
  by code_simp

lemma demo_bad_case:
  defines "env \<equiv> demo_ctl (cmdk_handle demo_table 0)"
  shows "\<exists>io'. dadk_start env (Some demo_req) Some (demo_buf 12 2) = Some (fst demo_bad, snd demo_bad) \<and>
     (dadk_step (ata_ends (disk0 0xe0)) env ^^ 2) (fst demo_bad, snd demo_bad, []) (Ph_over, io', [52, 13]) \<and> b_error io' = None"
proof -
  let ?env' = "demo_ctl (\<lambda>_ _. Some demo_hp)"
  have same: "ctl_iosetup env = ctl_iosetup ?env'" "ctl_transport env = ctl_transport ?env'" by (simp_all add: demo_ctl_def env_def)
  have h: "bbh_gethandle env (b_sec (demo_buf 12 2)) (b_bcount (demo_buf 12 2)) =
      bbh_gethandle ?env' (b_sec (demo_buf 12 2)) (b_bcount (demo_buf 12 2))"
    using demo_bad_handle by (simp add: demo_ctl_def demo_buf_def env_def)
  have st: "dadk_start env (Some demo_req) Some (demo_buf 12 2) = Some (fst demo_bad, snd demo_bad)"
    unfolding start_cong [OF same h] using demo_bad_start by (auto simp: demo_bad_def)
  obtain ph io' d where r: "run_ends (disk0 0xe0) ?env' 0 2 (fst demo_bad, snd demo_bad, []) = Some (ph, io', d)"
    "ph = Ph_over" "b_error io' = None" "d = [52, 13]" using demo_bad_run by auto
  have "(dadk_step (ata_ends (disk0 0xe0)) env ^^ 2) (fst demo_bad, snd demo_bad, []) (Ph_over, io', [52, 13])"
    by (rule run_ends_steps [where fl = 0]) (use r in \<open>simp add: run_ends_cong [OF same]\<close>)
  with st r(3) show ?thesis by blast
qed

lemma demo_table_facts:
  "cmdk_bbh_reopen demo_env demo_dk = Some demo_table" "dk_alts_hdl demo_table \<noteq> None" "alts_valid (bad_table demo_env)"
  "cmlb_partinfo demo_env 0 = Some (40, 0, 2)" "bad_table demo_env = demo_alts"
  using demo_reopen demo_alts_valid by (auto simp: demo_table_def demo_env_def)

lemma demo_alts_in_range: "s < 40 \<Longrightarrow> 0 \<le> s \<Longrightarrow> 0 \<le> alts_remap demo_alts s \<and> alts_remap demo_alts s < 2 ^ 31"
  by (auto simp: demo_alts_def alts_remap.simps)

theorem disk_request_remapped_witness:
  "\<exists>ph0 io0 io' d. dadk_start (demo_ctl (cmdk_handle demo_table 0)) (Some demo_req) Some (demo_buf 12 2) = Some (ph0, io0) \<and>
     (dadk_step (ata_ends (disk0 0xe0)) (demo_ctl (cmdk_handle demo_table 0)) ^^ 2) (ph0, io0, []) (Ph_over, io', d) \<and>
     d = map (alts_remap demo_alts) [12..13] \<and> d = [52, 13]"
proof -
  obtain io' where r: "dadk_start (demo_ctl (cmdk_handle demo_table 0)) (Some demo_req) Some (demo_buf 12 2) = Some (fst demo_bad, snd demo_bad)"
    "(dadk_step (ata_ends (disk0 0xe0)) (demo_ctl (cmdk_handle demo_table 0)) ^^ 2) (fst demo_bad, snd demo_bad, []) (Ph_over, io', [52, 13])" "b_error io' = None"
    using demo_bad_case by blast
  have sec: "uint (b_sec (demo_buf 12 2)) = 12" by (simp add: demo_buf_def)
  have "[52, 13] = map (alts_remap (bad_table demo_env)) [uint (b_sec (demo_buf 12 2))..uint (b_sec (demo_buf 12 2)) + int 2 - 1]"
    by (rule disk_request_remapped [OF demo_inv demo_fits demo_table_facts(1-3) _ demo_table_facts(4) _ _ _ _ _ _ demo_buffer_ok
          demo_ctl_setup r]) (use demo_alts_in_range in \<open>auto simp: demo_table_facts(5) NDKMAP_def sec demo_ctl_def\<close>)
  then have "[52, 13] = map (alts_remap demo_alts) [12..13]" by (simp add: demo_table_facts(5) sec)
  with r show ?thesis
    by (intro exI [of _ "fst demo_bad"] exI [of _ "snd demo_bad"] exI [of _ io'] exI [of _ "[52, 13]"] conjI refl)
qed

end
