(* ===== verification/Cmdk.thy ===== *)
theory Cmdk
  imports Dadk_Disk "HOL-Library.Multiset"
begin

text \<open>
  The entry points of the disk target driver (\<open>cmdk.c\<close>, \<open>cmdk.h\<close>): opens and closes of partitions, the strategy and
  dump routines. The label of the disk (\<open>cmlb\<close>) is a parameter: whether it is valid, and the first block and the
  block count of each partition. A missing soft state is \<open>None\<close>, a return value of zero the error \<open>None\<close>.
\<close>

subsection \<open>Opens and closes\<close>

definition CMDK_UNITSHF :: nat where "CMDK_UNITSHF = 6"
definition CMDK_MAXPART :: nat where "CMDK_MAXPART = 2 ^ CMDK_UNITSHF"

definition CMDKUNIT :: "u32 \<Rightarrow> nat" where "CMDKUNIT minor = unat (drop_bit CMDK_UNITSHF minor)"
definition CMDKPART :: "u32 \<Rightarrow> nat" where "CMDKPART minor = unat (minor AND (of_nat CMDK_MAXPART - 1))"

text \<open>The kinds of open, the indices of \<open>dk_open_reg\<close>. In the arguments \<open>None\<close> is a value of \<open>OTYPCNT\<close> or more.\<close>

datatype otyp = OTYP_BLK | OTYP_MNT | OTYP_CHR | OTYP_SWP | OTYP_LYR

definition otyps :: "otyp list" where "otyps = [OTYP_BLK, OTYP_MNT, OTYP_CHR, OTYP_SWP, OTYP_LYR]"

text \<open>\<open>dk_open\<close> is the flag \<open>CMDK_OPEN\<close>.\<close>

record cmdk_opens =
  dk_open :: bool
  dk_open_reg :: "otyp \<Rightarrow> u64"
  dk_open_lyr :: "nat \<Rightarrow> u64"
  dk_open_exl :: u64

record open_flags =
  fl_nodelay :: bool
  fl_write :: bool
  fl_excl :: bool

record cmlb_label =
  lb_valid :: bool
  lb_part :: "nat \<Rightarrow> (u64 \<times> u64) option"

text \<open>\<open>1 << part\<close> is computed in an \<open>int\<close> and extended. C does not define it from partition 32 on; there it is the
  parameter \<open>far\<close>.\<close>

definition partbit :: "(nat \<Rightarrow> u64) \<Rightarrow> nat \<Rightarrow> u64" where
  "partbit far part = (if part < 32 then scast (push_bit part 1 :: u32) else far part)"

definition open_label_ok :: "cmlb_label \<Rightarrow> nat \<Rightarrow> bool \<Rightarrow> otyp \<Rightarrow> bool" where
  "open_label_ok lb part nodelay t =
    (if \<not> lb_valid lb then nodelay
     else (case lb_part lb part of
         Some (p_lblksrt, p_lblkcnt) \<Rightarrow> \<not> (p_lblkcnt = 0 \<and> (\<not> nodelay \<or> t \<noteq> OTYP_CHR))
       | None \<Rightarrow> nodelay))"

definition part_opened :: "cmdk_opens \<Rightarrow> nat \<Rightarrow> u64 \<Rightarrow> bool" where
  "part_opened k part pbit \<longleftrightarrow> dk_open_lyr k part \<noteq> 0 \<or> list_ex (\<lambda>t. dk_open_reg k t AND pbit \<noteq> 0) otyps"

definition account_open :: "nat \<Rightarrow> u64 \<Rightarrow> otyp \<Rightarrow> bool \<Rightarrow> cmdk_opens \<Rightarrow> cmdk_opens" where
  "account_open part pbit t excl k =
    (let k = k\<lparr>dk_open := True\<rparr>;
         k = (if t = OTYP_LYR then k\<lparr>dk_open_lyr := (dk_open_lyr k)(part := dk_open_lyr k part + 1)\<rparr>
              else k\<lparr>dk_open_reg := (dk_open_reg k)(t := dk_open_reg k t OR pbit)\<rparr>)
     in if excl then k\<lparr>dk_open_exl := dk_open_exl k OR pbit\<rparr> else k)"

definition cmdkopen ::
  "(nat \<Rightarrow> u64) \<Rightarrow> cmlb_label \<Rightarrow> bool \<Rightarrow> u32 \<Rightarrow> open_flags \<Rightarrow> otyp option \<Rightarrow> cmdk_opens option \<Rightarrow>
   errno option \<times> cmdk_opens option" where
  "cmdkopen far lb rdonly minor fl otyp s =
    (case s of
       None \<Rightarrow> (Some ENXIO, s)
     | Some k \<Rightarrow>
         (case otyp of
            None \<Rightarrow> (Some EINVAL, s)
          | Some t \<Rightarrow>
              (let part = CMDKPART minor; pbit = partbit far part
               in if \<not> open_label_ok lb part (fl_nodelay fl) t then (Some ENXIO, s)
                  else if rdonly \<and> fl_write fl then (Some EROFS, s)
                  else if dk_open_exl k AND pbit \<noteq> 0 then (Some EBUSY, s)
                  else if fl_excl fl \<and> part_opened k part pbit then (Some EBUSY, s)
                  else (None, Some (account_open part pbit t (fl_excl fl) k)))))"

definition account_close :: "nat \<Rightarrow> u64 \<Rightarrow> otyp \<Rightarrow> cmdk_opens \<Rightarrow> cmdk_opens" where
  "account_close part pbit t k =
    (let k = (if t = OTYP_LYR
              then (if dk_open_lyr k part \<noteq> 0 then k\<lparr>dk_open_lyr := (dk_open_lyr k)(part := dk_open_lyr k part - 1)\<rparr> else k)
              else k\<lparr>dk_open_reg := (dk_open_reg k)(t := dk_open_reg k t AND NOT pbit)\<rparr>)
     in k\<lparr>dk_open_exl := dk_open_exl k AND NOT pbit\<rparr>)"

definition no_opens :: "cmdk_opens \<Rightarrow> bool" where
  "no_opens k \<longleftrightarrow> list_all (\<lambda>i. dk_open_lyr k i = 0) [0..<CMDK_MAXPART] \<and> list_all (\<lambda>t. dk_open_reg k t = 0) otyps"

text \<open>The middle component says whether the label is invalidated (\<open>cmlb_invalidate\<close>).\<close>

definition cmdkclose ::
  "(nat \<Rightarrow> u64) \<Rightarrow> u32 \<Rightarrow> otyp option \<Rightarrow> cmdk_opens option \<Rightarrow> errno option \<times> bool \<times> cmdk_opens option" where
  "cmdkclose far minor otyp s =
    (case (s, otyp) of
       (Some k, Some t) \<Rightarrow>
         if \<not> dk_open k then (Some ENXIO, False, s)
         else (let k = account_close (CMDKPART minor) (partbit far (CMDKPART minor)) t k
               in (None, no_opens k, Some k))
     | _ \<Rightarrow> (Some ENXIO, False, s))"

text \<open>A history of opens and closes: \<open>H\<close> holds the open handles that are not layered (the kernel closes such a handle once,
  after its last user), \<open>Y\<close> the layered ones, \<open>X\<close> the partitions opened exclusively. The kernel closes only what
  is open. The soft state was zeroed when it was allocated. Partitions are below 31: sixteen slices and the fdisk partitions.\<close>

definition opens_zero :: cmdk_opens where
  "opens_zero = \<lparr>dk_open = False, dk_open_reg = (\<lambda>_. 0), dk_open_lyr = (\<lambda>_. 0), dk_open_exl = 0\<rparr>"

inductive cmdk_reach ::
  "(nat \<Rightarrow> u64) \<Rightarrow> cmdk_opens \<Rightarrow> (nat \<times> otyp) set \<Rightarrow> nat multiset \<Rightarrow> nat set \<Rightarrow> bool" for far where
  Init: "cmdk_reach far opens_zero {} {#} {}"
| Open: "\<lbrakk>cmdk_reach far k H Y X; p = CMDKPART minor; p < 31; size Y + 1 < 2 ^ 64;
    cmdkopen far lb rdonly minor fl (Some t) (Some k) = (None, Some k')\<rbrakk> \<Longrightarrow>
    cmdk_reach far k' (if t = OTYP_LYR then H else insert (p, t) H) (if t = OTYP_LYR then add_mset p Y else Y)
      (if fl_excl fl then insert p X else X)"
| Close: "\<lbrakk>cmdk_reach far k H Y X; p = CMDKPART minor; p < 31; if t = OTYP_LYR then p \<in># Y else (p, t) \<in> H;
    cmdkclose far minor (Some t) (Some k) = (None, l, Some k')\<rbrakk> \<Longrightarrow>
    cmdk_reach far k' (if t = OTYP_LYR then H else H - {(p, t)}) (if t = OTYP_LYR then Y - {#p#} else Y) (X - {p})"

text \<open>What the fields mean; a partition opened exclusively has one handle.\<close>

definition sole :: "(nat \<times> otyp) set \<Rightarrow> nat multiset \<Rightarrow> nat \<Rightarrow> bool" where
  "sole H Y p \<longleftrightarrow> (\<exists>t. (\<forall>t'. (p, t') \<in> H \<longleftrightarrow> t' = t \<and> t \<noteq> OTYP_LYR) \<and> count Y p = of_bool (t = OTYP_LYR))"

definition opens_ok :: "cmdk_opens \<Rightarrow> (nat \<times> otyp) set \<Rightarrow> nat multiset \<Rightarrow> nat set \<Rightarrow> bool" where
  "opens_ok k H Y X \<longleftrightarrow>
     (\<forall>t p. bit (dk_open_reg k t) p \<longleftrightarrow> (p, t) \<in> H) \<and> (\<forall>p. bit (dk_open_exl k) p \<longleftrightarrow> p \<in> X) \<and>
     (\<forall>p. unat (dk_open_lyr k p) = count Y p) \<and> (\<forall>p t. (p, t) \<in> H \<longrightarrow> p < 31 \<and> t \<noteq> OTYP_LYR) \<and> (\<forall>p\<in>#Y. p < 31) \<and>
     (\<forall>p\<in>X. sole H Y p) \<and>
     (H \<noteq> {} \<or> Y \<noteq> {#} \<longrightarrow> dk_open k)"

lemma partbit_bit:
  assumes "p < 31"
  shows "partbit far p = 2 ^ p"
proof -
  have "partbit far p = (push_bit p 1 :: u64)"
    using assms by (intro bit_word_eqI) (auto simp: partbit_def bit_simps)
  then show ?thesis by (simp add: push_bit_of_1)
qed

lemma otyps_all [simp]: "list_all P otyps \<longleftrightarrow> (\<forall>t. P t)" "list_ex P otyps \<longleftrightarrow> (\<exists>t. P t)"
proof -
  have "set otyps = UNIV" by (auto simp: otyps_def intro: otyp.exhaust)
  then show "list_all P otyps \<longleftrightarrow> (\<forall>t. P t)" "list_ex P otyps \<longleftrightarrow> (\<exists>t. P t)" by (simp_all add: list_all_iff list_ex_iff)
qed

lemma bit_exp64: "p < 31 \<Longrightarrow> bit (2 ^ p :: u64) n \<longleftrightarrow> n = p"
  by (auto simp: bit_simps)

lemma word_no_bits: "(x :: u64) = 0 \<longleftrightarrow> (\<forall>n. \<not> bit x n)"
  by (metis bit_0_eq bot_apply bot_bool_def bit_eq_iff)

lemma bit_clear: "bit (x AND NOT y) n \<longleftrightarrow> bit x n \<and> \<not> bit y n" for x y :: u64
  by (auto simp: bit_simps dest: bit_imp_le_length)

lemma sole_open:
  assumes "\<forall>t. (p, t) \<notin> H" "p \<notin># Y"
  shows "sole (if t = OTYP_LYR then H else insert (p, t) H) (if t = OTYP_LYR then add_mset p Y else Y) p"
  unfolding sole_def using assms by (intro exI [of _ t]) (auto simp: not_in_iff)

lemma sole_other:
  assumes "p' \<noteq> p"
  shows "sole (insert (p, t) H) Y p' \<longleftrightarrow> sole H Y p'" "sole (H - {(p, t)}) Y p' \<longleftrightarrow> sole H Y p'"
    "sole H (add_mset p Y) p' \<longleftrightarrow> sole H Y p'" "sole H (Y - {#p#}) p' \<longleftrightarrow> sole H Y p'"
  using assms by (simp_all add: sole_def)

lemma opens_ok_zero: "opens_ok opens_zero {} {#} {}"
  by (simp add: opens_ok_def opens_zero_def)

lemma opens_ok_tests:
  assumes "opens_ok k H Y X" "p < 31"
  shows "dk_open_exl k AND partbit far p \<noteq> 0 \<longleftrightarrow> p \<in> X"
    and "part_opened k p (partbit far p) \<longleftrightarrow> (\<exists>t. (p, t) \<in> H) \<or> p \<in># Y"
proof -
  have l: "dk_open_lyr k p \<noteq> 0 \<longleftrightarrow> p \<in># Y"
    using assms(1) unfolding opens_ok_def by (metis count_eq_zero_iff unat_eq_zero)
  show "dk_open_exl k AND partbit far p \<noteq> 0 \<longleftrightarrow> p \<in> X"
    using assms by (simp add: partbit_bit and_exp_eq_0_iff_not_bit opens_ok_def)
  show "part_opened k p (partbit far p) \<longleftrightarrow> (\<exists>t. (p, t) \<in> H) \<or> p \<in># Y"
    using assms l by (auto simp: part_opened_def partbit_bit and_exp_eq_0_iff_not_bit opens_ok_def)
qed

lemma open_ok:
  assumes ok: "opens_ok k H Y X" and p: "p = CMDKPART minor" "p < 31" and Y: "size Y + 1 < 2 ^ 64"
    and o: "cmdkopen far lb rdonly minor fl (Some t) (Some k) = (None, Some k')"
  shows "opens_ok k' (if t = OTYP_LYR then H else insert (p, t) H) (if t = OTYP_LYR then add_mset p Y else Y)
      (if fl_excl fl then insert p X else X)"
proof -
  note T = opens_ok_tests [OF ok p(2), of far]
  from o have k': "k' = account_open p (partbit far p) t (fl_excl fl) k" and X: "p \<notin> X"
    and E: "fl_excl fl \<longrightarrow> (\<forall>t. (p, t) \<notin> H) \<and> p \<notin># Y"
    using T by (auto simp: cmdkopen_def p(1) [symmetric] Let_def split: if_splits)
  have cnt: "count Y p + 1 < 2 ^ 64" using Y count_le_size [of Y p] by simp
  have u: "unat (dk_open_lyr k p + 1) = Suc (count Y p)"
  proof -
    have "unat (dk_open_lyr k p) = count Y p" using ok by (simp add: opens_ok_def)
    moreover from this cnt have "unat (dk_open_lyr k p) + unat (1 :: u64) < 2 ^ LENGTH(64)" by simp
    ultimately show ?thesis by (simp add: unat_add_lem [THEN iffD1])
  qed
  have sole: "sole (if t = OTYP_LYR then H else insert (p, t) H) (if t = OTYP_LYR then add_mset p Y else Y) p'"
    if "p' \<in> (if fl_excl fl then insert p X else X)" for p'
  proof (cases "p' = p")
    case True
    with that X E have "fl_excl fl" by (auto split: if_splits)
    with E have "\<forall>t. (p, t) \<notin> H" "p \<notin># Y" by auto
    from sole_open [OF this] True show ?thesis by simp
  next
    case False
    with that ok show ?thesis by (auto simp: opens_ok_def sole_other [OF False] split: if_splits)
  qed
  have "opens_ok k' (if t = OTYP_LYR then H else insert (p, t) H) (if t = OTYP_LYR then add_mset p Y else Y)
      (if fl_excl fl then insert p X else X) = (\<forall>p'\<in>(if fl_excl fl then insert p X else X).
        sole (if t = OTYP_LYR then H else insert (p, t) H) (if t = OTYP_LYR then add_mset p Y else Y) p')"
    using ok k' u p(2) by (auto simp: opens_ok_def account_open_def Let_def partbit_bit bit_or_iff bit_exp64)
  with sole show ?thesis by blast
qed

lemma close_ok:
  assumes ok: "opens_ok k H Y X" and p: "p = CMDKPART minor" "p < 31" and h: "if t = OTYP_LYR then p \<in># Y else (p, t) \<in> H"
  defines "H' \<equiv> if t = OTYP_LYR then H else H - {(p, t)}" and "Y' \<equiv> if t = OTYP_LYR then Y - {#p#} else Y"
  shows "\<exists>k'. cmdkclose far minor (Some t) (Some k) = (None, H' = {} \<and> Y' = {#}, Some k') \<and> opens_ok k' H' Y' (X - {p})"
proof -
  let ?k' = "account_close p (partbit far p) t k"
  have o: "dk_open k" using ok h by (auto simp: opens_ok_def split: if_splits)
  have pos: "t = OTYP_LYR \<Longrightarrow> dk_open_lyr k p \<noteq> 0"
    using ok h unfolding opens_ok_def by (metis count_eq_zero_iff unat_eq_zero)
  have u: "t = OTYP_LYR \<Longrightarrow> unat (dk_open_lyr k p - 1) = count Y p - 1"
    using pos ok by (simp add: opens_ok_def unat_minus_one)
  have ok': "opens_ok ?k' H' Y' (X - {p})"
  proof (cases "t = OTYP_LYR")
    case True
    with ok u pos p(2) o h show ?thesis
      by (auto simp: opens_ok_def account_close_def Let_def partbit_bit bit_clear bit_exp64 sole_other H'_def Y'_def dest: in_diffD)
  next
    case False
    with ok p(2) o h show ?thesis
      by (auto simp: opens_ok_def account_close_def Let_def partbit_bit bit_clear bit_exp64 sole_other H'_def Y'_def)
  qed
  have "(\<forall>i<CMDK_MAXPART. dk_open_lyr ?k' i = 0) \<longleftrightarrow> Y' = {#}"
  proof -
    have "dk_open_lyr ?k' i = 0 \<longleftrightarrow> i \<notin># Y'" for i
      using ok' unfolding opens_ok_def by (metis count_eq_zero_iff unat_eq_zero)
    moreover have "i < CMDK_MAXPART" if "i \<in># Y'" for i
      using ok' that by (auto simp: opens_ok_def CMDK_MAXPART_def CMDK_UNITSHF_def)
    ultimately show ?thesis by (metis multiset_nonemptyE empty_iff set_mset_empty)
  qed
  moreover have "(\<forall>t. dk_open_reg ?k' t = 0) \<longleftrightarrow> H' = {}"
    using ok' by (auto simp: word_no_bits opens_ok_def)
  ultimately have "no_opens ?k' \<longleftrightarrow> H' = {} \<and> Y' = {#}" by (auto simp: no_opens_def list_all_iff [of _ "[0..<CMDK_MAXPART]"])
  with ok' o show ?thesis by (auto simp: cmdkclose_def p(1) [symmetric] Let_def)
qed

lemma reach_opens_ok: "cmdk_reach far k H Y X \<Longrightarrow> opens_ok k H Y X"
proof (induction rule: cmdk_reach.induct)
  case (Close k H Y X p minor t l k')
  from close_ok [OF Close.IH Close.hyps(2-4), of far] Close.hyps(5) show ?case by auto
qed (simp_all add: opens_ok_zero open_ok)

text \<open>C15: Through every history of opens and closes the open bits, the layered counts and the exclusive bits say exactly which
  handles are open; a partition opened exclusively has one handle, cannot be opened again in any way, and is never
  opened exclusively while it is open.\<close>

theorem cmdk_opens_sound:
  assumes "cmdk_reach far k H Y X"
  shows "(\<forall>t p. bit (dk_open_reg k t) p \<longleftrightarrow> (p, t) \<in> H) \<and> (\<forall>p. unat (dk_open_lyr k p) = count Y p) \<and>
    (\<forall>p. bit (dk_open_exl k) p \<longleftrightarrow> p \<in> X) \<and> (\<forall>p\<in>X. sole H Y p) \<and>
    (\<forall>lb rdonly minor fl t. CMDKPART minor < 31 \<and> (CMDKPART minor \<in> X \<or>
        fl_excl fl \<and> ((\<exists>t. (CMDKPART minor, t) \<in> H) \<or> CMDKPART minor \<in># Y)) \<longrightarrow>
       fst (cmdkopen far lb rdonly minor fl (Some t) (Some k)) \<noteq> None)"
proof -
  note ok = reach_opens_ok [OF assms]
  then have "(\<forall>t p. bit (dk_open_reg k t) p \<longleftrightarrow> (p, t) \<in> H) \<and> (\<forall>p. unat (dk_open_lyr k p) = count Y p) \<and>
    (\<forall>p. bit (dk_open_exl k) p \<longleftrightarrow> p \<in> X) \<and> (\<forall>p\<in>X. sole H Y p)"
    by (simp add: opens_ok_def)
  moreover have "fst (cmdkopen far lb rdonly minor fl (Some t) (Some k)) \<noteq> None"
    if "CMDKPART minor < 31" "CMDKPART minor \<in> X \<or> fl_excl fl \<and> ((\<exists>t. (CMDKPART minor, t) \<in> H) \<or> CMDKPART minor \<in># Y)"
    for lb rdonly minor fl t
    using that opens_ok_tests [OF ok that(1), of far] by (auto simp: cmdkopen_def Let_def)
  ultimately show ?thesis by blast
qed

text \<open>C16: Closing an open handle always succeeds, and invalidates the label of the disk exactly when it was the last
  handle of any partition.\<close>

theorem cmdk_close_last:
  assumes "cmdk_reach far k H Y X" "CMDKPART minor < 31"
    and "if t = OTYP_LYR then CMDKPART minor \<in># Y else (CMDKPART minor, t) \<in> H"
  defines "H' \<equiv> if t = OTYP_LYR then H else H - {(CMDKPART minor, t)}"
    and "Y' \<equiv> if t = OTYP_LYR then Y - {#CMDKPART minor#} else Y"
  shows "\<exists>k'. cmdkclose far minor (Some t) (Some k) = (None, H' = {} \<and> Y' = {#}, Some k') \<and>
    cmdk_reach far k' H' Y' (X - {CMDKPART minor})"
  using close_ok [OF reach_opens_ok [OF assms(1)] refl assms(2,3), where far = far] cmdk_reach.Close [OF assms(1) refl assms(2,3)]
  unfolding H'_def Y'_def by blast

subsection \<open>Reads and writes\<close>

text \<open>\<open>cmdk_indump\<close>, whether the soft state exists, the extent of the partition, \<open>dkblock(bp)\<close> (a \<open>longlong_t\<close>) and the
  buffer. \<open>True\<close> says that \<open>dadk_strategy\<close> took the buffer; otherwise it is finished. With no extent the code compares
  with a variable it has not set, and fails whatever it holds.\<close>

definition cmdkstrategy :: "bool \<Rightarrow> bool \<Rightarrow> (u64 \<times> u64) option \<Rightarrow> u64 \<Rightarrow> 'h dadk_io \<Rightarrow> bool \<times> 'h dadk_io" where
  "cmdkstrategy indump state part blk io =
    (if indump \<or> \<not> state \<or> sint blk < 0
     then (False, log_ev [Ev_biodone] (bioerror ENXIO (io\<lparr>b_resid := b_bcount io\<rparr>)))
     else
       (let io = io\<lparr>b_error := None, b_resid := 0, io_haspkt := False\<rparr>;
            (p_lblksrt, p_lblkcnt) = (case part of Some x \<Rightarrow> x | None \<Rightarrow> (0, 0));
            io = (if part = None then bioerror ENXIO io else io);
            io = (if b_bcount io AND 511 \<noteq> 0 \<or> blk > p_lblkcnt then bioerror ENXIO io else io)
        in if b_error io \<noteq> None \<or> blk = p_lblkcnt
           then (False, log_ev [Ev_biodone] (io\<lparr>b_resid := b_bcount io\<rparr>))
           else
             (let d_cnt = drop_bit 9 (b_bcount io);
                  io = (if blk + d_cnt > p_lblkcnt
                        then (let resid = push_bit 9 (blk + d_cnt - p_lblkcnt)
                              in io\<lparr>b_resid := resid, b_bcount := b_bcount io - resid\<rparr>)
                        else io);
                  io = io\<lparr>b_sec := p_lblksrt + blk\<rparr>;
                  (ok, io) = dadk_strategy io
              in if ok then (True, io) else (False, log_ev [Ev_biodone] (io\<lparr>b_resid := b_resid io + b_bcount io\<rparr>)))))"

definition cmdkmin :: "u64 \<Rightarrow> u64" where "cmdkmin n = (if n > 0x40000 then 0x40000 else n)"

text \<open>\<open>Inr\<close> is the buffer handed to \<open>dadk_dump\<close>: its first sector and byte count; \<open>nblk << SCTRSHFT\<close> is an \<open>int\<close>.\<close>

definition cmdkdump :: "bool \<Rightarrow> (u64 \<times> u64) option \<Rightarrow> u64 \<Rightarrow> u32 \<Rightarrow> errno + u64 \<times> u64" where
  "cmdkdump state part blkno nblk =
    (if \<not> state \<or> sint blkno < 0 then Inl ENXIO
     else (case part of
         None \<Rightarrow> Inl ENXIO
       | Some (p_lblksrt, p_lblkcnt) \<Rightarrow>
           if blkno + scast nblk > p_lblkcnt then Inl EINVAL
           else Inr (p_lblksrt + blkno, scast (push_bit 9 nblk))))"

lemma aligned: "x AND 511 = 0 \<longleftrightarrow> unat x mod 512 = 0" for x :: u64
proof -
  have "(511 :: u64) = mask 9" by (simp add: mask_eq_exp_minus_1)
  then have "x AND 511 = 0 \<longleftrightarrow> take_bit 9 x = 0" by (simp only: take_bit_eq_mask)
  also have "\<dots> \<longleftrightarrow> unat (take_bit 9 x) = 0" by (simp only: unat_eq_zero)
  also have "unat (take_bit 9 x) = unat x mod 512" by (simp add: take_bit_eq_mod unat_mod)
  finally show ?thesis .
qed

text \<open>Cutting a request off at the end of the partition.\<close>

lemma clip:
  fixes blk cnt bc :: u64
  assumes "unat blk < unat cnt" "unat cnt < 2 ^ 62" "unat bc mod 512 = 0"
  defines "resid \<equiv> push_bit 9 (blk + drop_bit 9 bc - cnt)"
  shows "blk + drop_bit 9 bc > cnt \<longleftrightarrow> 512 * (unat cnt - unat blk) < unat bc"
    and "blk + drop_bit 9 bc > cnt \<Longrightarrow> unat resid = unat bc - 512 * (unat cnt - unat blk)"
    and "blk + drop_bit 9 bc > cnt \<Longrightarrow> unat (bc - resid) = 512 * (unat cnt - unat blk)"
proof -
  have bc: "unat bc < 2 ^ 64" using unsigned_less [of bc, where 'a = nat] by simp
  obtain m where m: "unat bc = 512 * m" using assms(3) by auto
  have d: "unat (drop_bit 9 bc) = unat bc div 512" by (simp add: drop_bit_eq_div unat_div)
  have lt: "unat blk + unat (drop_bit 9 bc) < 2 ^ LENGTH(64)" using assms(1,2) bc by (simp add: d)
  then have s: "unat (blk + drop_bit 9 bc) = unat blk + unat bc div 512" using d by (simp add: unat_add_lem [THEN iffD1])
  show i: "blk + drop_bit 9 bc > cnt \<longleftrightarrow> 512 * (unat cnt - unat blk) < unat bc"
    unfolding word_less_nat_alt s m using assms(1) by auto
  have push: "unat (push_bit 9 x) = (512 * unat x) mod 2 ^ 64" for x :: u64
    by (simp add: push_bit_eq_mult unat_word_ariths(2) mult.commute)
  assume g: "blk + drop_bit 9 bc > cnt"
  then have le: "cnt \<le> blk + drop_bit 9 bc" by simp
  have u: "unat (blk + drop_bit 9 bc - cnt) = unat blk + unat bc div 512 - unat cnt" using unat_sub [OF le] s by simp
  have "unat resid = (512 * (unat blk + unat bc div 512 - unat cnt)) mod 2 ^ 64"
    unfolding resid_def push u ..
  also have "512 * (unat blk + unat bc div 512 - unat cnt) = unat bc - 512 * (unat cnt - unat blk)"
    unfolding m using assms(1) by simp
  finally show r: "unat resid = unat bc - 512 * (unat cnt - unat blk)" using bc by simp
  then have "resid \<le> bc" by (simp add: word_le_nat_alt)
  then show "unat (bc - resid) = 512 * (unat cnt - unat blk)" using r i g by (simp add: unat_sub)
qed

lemma dadk_strategy_cases:
  assumes "dadk_strategy io = (ok, io')"
  shows "if ok then io' = dadk_set_sec io else \<exists>e. io' = bioerror e io"
  using assms by (auto simp: dadk_strategy_def split: if_splits)

lemma strategy_within:
  assumes "cmdkstrategy indump state (Some (srt, cnt)) blk io = (ok, io')"
    and "unat srt + unat cnt < 2 ^ 62" "dad_blkshf (io_dad io) = 0"
  shows "if ok
    then unat blk < unat cnt \<and> unat (b_sec io') = unat srt + unat blk \<and> unat (b_bcount io') mod 512 = 0 \<and>
      unat (b_bcount io') = min (unat (b_bcount io)) (512 * (unat cnt - unat blk)) \<and>
      unat (b_bcount io') + unat (b_resid io') = unat (b_bcount io) \<and> b_error io' = None \<and> io_events io' = io_events io
    else b_resid io' = b_bcount io \<and> io_events io' = io_events io @ [Ev_biodone] \<and>
      (b_error io' = None \<longleftrightarrow> \<not> indump \<and> state \<and> blk = cnt \<and> unat (b_bcount io) mod 512 = 0)"
proof -
  have nn: "0 \<le> sint blk" if "unat blk \<le> unat cnt"
  proof -
    have "unat blk < 2 ^ 62" using that assms(2) by linarith
    then have "int (unat blk) < int (2 ^ 62)" by (simp only: of_nat_less_iff)
    then have "uint blk < 2 ^ 63" unfolding uint_nat by simp
    then show ?thesis unfolding sint_uint using order_trans [OF _ uint_ge_0 [of blk], of "- (2 ^ 63)"]
      by (subst signed_take_bit_int_eq_self) simp_all
  qed
  show ?thesis
  proof (cases "indump \<or> \<not> state \<or> sint blk < 0")
    case True
    moreover have "unat blk > unat cnt" if "sint blk < 0" using nn that by force
    ultimately show ?thesis using assms(1) by (auto simp: cmdkstrategy_def log_ev_def bioerror_def)
  next
    case False
    let ?a = "unat (b_bcount io) mod 512 = 0"
    show ?thesis
    proof (cases "?a \<and> unat blk < unat cnt")
      case False
      moreover have "blk = cnt \<longleftrightarrow> unat blk = unat cnt" by (rule word_unat_eq_iff)
      ultimately show ?thesis using \<open>\<not> (indump \<or> \<not> state \<or> sint blk < 0)\<close> assms(1)
        by (auto simp: cmdkstrategy_def Let_def aligned word_less_nat_alt log_ev_def bioerror_def split: if_splits)
    next
      case True
      then have a: ?a "unat blk < unat cnt" by auto
      then have ne: "blk \<noteq> cnt" "\<not> cnt < blk" "b_bcount io AND 511 = 0" by (auto simp: word_less_nat_alt aligned)
      have c: "unat cnt < 2 ^ 62" using assms(2) by simp
      have sec: "unat (srt + blk) = unat srt + unat blk"
        using a(2) assms(2) by (intro unat_add_lem [THEN iffD1]) simp
      define io2 where "io2 = (if blk + drop_bit 9 (b_bcount io) > cnt
          then io\<lparr>b_error := None, b_resid := 0, io_haspkt := False, b_resid := push_bit 9 (blk + drop_bit 9 (b_bcount io) - cnt),
            b_bcount := b_bcount io - push_bit 9 (blk + drop_bit 9 (b_bcount io) - cnt)\<rparr>
          else io\<lparr>b_error := None, b_resid := 0, io_haspkt := False\<rparr>)\<lparr>b_sec := srt + blk\<rparr>"
      have "cmdkstrategy indump state (Some (srt, cnt)) blk io = (let (ok, io) = dadk_strategy io2
              in if ok then (True, io) else (False, log_ev [Ev_biodone] (io\<lparr>b_resid := b_resid io + b_bcount io\<rparr>)))"
        using \<open>\<not> (indump \<or> \<not> state \<or> sint blk < 0)\<close> ne by (simp add: cmdkstrategy_def io2_def Let_def)
      moreover obtain ok3 io3 where s: "dadk_strategy io2 = (ok3, io3)" by fastforce
      ultimately have r: "ok = ok3" "io' = (if ok3 then io3 else log_ev [Ev_biodone] (io3\<lparr>b_resid := b_resid io3 + b_bcount io3\<rparr>))"
        using assms(1) by (auto split: if_splits)
      have e: "b_error io2 = None" "b_sec io2 = srt + blk" "io_events io2 = io_events io" "io_dad io2 = io_dad io"
        by (simp_all add: io2_def)
      have m: "unat (b_bcount io2) = min (unat (b_bcount io)) (512 * (unat cnt - unat blk)) \<and>
          unat (b_bcount io2) + unat (b_resid io2) = unat (b_bcount io)"
        using clip [OF a(2) c a(1)] by (auto simp: io2_def min_def)
      have t: "b_resid io2 + b_bcount io2 = b_bcount io"
      proof -
        have "b_resid io2 + b_bcount io2 = of_nat (unat (b_bcount io2) + unat (b_resid io2))" by (simp add: add.commute)
        also have "\<dots> = of_nat (unat (b_bcount io))" by (rule arg_cong [OF conjunct2 [OF m]])
        finally show ?thesis by simp
      qed
      have al: "unat (b_bcount io2) mod 512 = 0" using m a(1) by (simp add: min_def)
      show ?thesis
        using dadk_strategy_cases [OF s] assms(3) e m t al a(2) sec ne(1) unfolding r
        by (cases ok3) (auto simp: dadk_set_sec_def log_ev_def bioerror_def)
    qed
  qed
qed

text \<open>C14: A buffer that the strategy routine hands on lies inside its partition: it starts at its block, ends at its own end
  or that of the partition, and the bytes cut off are its residual count. Any other buffer is finished at once, nothing of it
  transferred, and without an error only if it is an aligned one that starts at the end of the partition.\<close>

theorem cmdkstrategy_within:
  assumes "cmdkstrategy indump state (Some (srt, cnt)) blk io = (ok, io')"
    and "unat srt + unat cnt < 2 ^ 62" "dad_blkshf (io_dad io) = 0"
  shows "if ok
    then unat blk < unat cnt \<and> unat (b_sec io') = unat srt + unat blk \<and> unat (b_bcount io') mod 512 = 0 \<and>
      unat (b_bcount io') = min (unat (b_bcount io)) (512 * (unat cnt - unat blk)) \<and>
      unat (b_bcount io') + unat (b_resid io') = unat (b_bcount io) \<and> b_error io' = None \<and> io_events io' = io_events io
    else b_resid io' = b_bcount io \<and> io_events io' = io_events io @ [Ev_biodone] \<and>
      (b_error io' = None \<longleftrightarrow> \<not> indump \<and> state \<and> blk = cnt \<and> unat (b_bcount io) mod 512 = 0)"
  using assms by (rule strategy_within)

text \<open>C13: A request by programmed transfers (no DMA handle) to a partition of a disk with a table of alternates, from the
  strategy routine of the driver to the ATA disk controller: if it lies in the partition and finishes without an error, the
  sectors moved by its successful transfers are, in order, its own sectors counted from the start of the partition,
  each replaced as the table says.\<close>

theorem partition_request_remapped:
  assumes "cmdkstrategy indump state (Some (srt, cnt)) blk io = (True, io1)" "dad_blkshf (io_dad io) = 0"
    and "bbh_inv dk" "label_fits benv" "cmdk_bbh_reopen benv dk = Some dk'" "dk_alts_hdl dk' \<noteq> None" "alts_valid (bad_table benv)"
    and "part < NDKMAP" "cmlb_partinfo benv part = Some (uint cnt, uint srt, tag)" "uint srt + uint cnt \<le> 2 ^ 31"
    and "uint blk + int n \<le> uint cnt" "buffer_ok pio_request pkt memsetup n io1"
    and "\<forall>s. uint srt + uint blk \<le> s \<and> s < uint srt + uint blk + int n \<longrightarrow>
          0 \<le> alts_remap (bad_table benv) s \<and> alts_remap (bad_table benv) s < 2 ^ 31"
    and "bbh_gethandle env = cmdk_handle dk' part" "ctl_iosetup env = ata_disk_iosetup ops d (ac_max_transfer prop)"
    and "dadk_start env pkt memsetup io1 = Some (ph0, io0)" "(dadk_step (ata_ends d) env ^^ k) (ph0, io0, []) (Ph_over, io', dn)" "b_error io' = None"
  shows "dn = map (alts_remap (bad_table benv)) [uint srt + uint blk..uint srt + uint blk + int n - 1]"
proof -
  have "unat srt + unat cnt < 2 ^ 62"
  proof -
    have "int (unat srt + unat cnt) \<le> int (2 ^ 31)" using assms(10) by (simp flip: uint_nat)
    then have "unat srt + unat cnt \<le> 2 ^ 31" by (simp only: of_nat_le_iff)
    then show ?thesis by simp
  qed
  from strategy_within [OF assms(1) this assms(2)] have "unat (b_sec io1) = unat srt + unat blk" by simp
  then have s: "uint (b_sec io1) = uint srt + uint blk" unfolding uint_nat by simp
  have "uint srt \<le> uint (b_sec io1)" "uint (b_sec io1) + int n \<le> uint srt + uint cnt" unfolding s using assms(11) by simp_all
  from remapped_run [OF assms(3-9) uint_ge_0 assms(10) this _ assms(14,12,15-18)] assms(13) show ?thesis unfolding s by blast
qed

text \<open>Two opens of the same partition, and a close.\<close>

definition demo_label :: cmlb_label where
  "demo_label = \<lparr>lb_valid = True, lb_part = (\<lambda>p. if p = 0 then Some (0, 40) else None)\<rparr>"

definition demo_flags :: open_flags where "demo_flags = \<lparr>fl_nodelay = False, fl_write = True, fl_excl = False\<rparr>"

definition demo_open :: cmdk_opens where
  "demo_open = the (snd (cmdkopen (\<lambda>_. 0) demo_label False 0 (demo_flags\<lparr>fl_excl := True\<rparr>) (Some OTYP_BLK) (Some opens_zero)))"

lemma demo_open_reach: "cmdk_reach (\<lambda>_. 0) demo_open {(0, OTYP_BLK)} {#} {0}"
proof -
  have "cmdkopen (\<lambda>_. 0) demo_label False 0 (demo_flags\<lparr>fl_excl := True\<rparr>) (Some OTYP_BLK) (Some opens_zero) = (None, Some demo_open)"
    by (simp add: demo_open_def cmdkopen_def demo_label_def open_label_ok_def opens_zero_def part_opened_def CMDKPART_def demo_flags_def Let_def)
  from cmdk_reach.Open [OF cmdk_reach.Init refl _ _ this] show ?thesis by (simp add: CMDKPART_def demo_flags_def)
qed

theorem cmdk_opens_sound_witness:
  "bit (dk_open_reg demo_open OTYP_BLK) 0 \<and> unat (dk_open_lyr demo_open 0) = 0 \<and>
   fst (cmdkopen (\<lambda>_. 0) demo_label False 0 demo_flags (Some OTYP_LYR) (Some demo_open)) \<noteq> None"
  using cmdk_opens_sound [OF demo_open_reach] by (simp add: CMDKPART_def)

theorem cmdk_close_last_witness:
  "\<exists>k'. cmdkclose (\<lambda>_. 0) 0 (Some OTYP_BLK) (Some demo_open) = (None, True, Some k') \<and> cmdk_reach (\<lambda>_. 0) k' {} {#} {}"
  using cmdk_close_last [OF demo_open_reach, of 0 OTYP_BLK] by (simp add: CMDKPART_def)

text \<open>Three blocks from block 38 of a partition of 40: the last is cut off.\<close>

theorem cmdkstrategy_within_witness:
  "\<exists>io'. cmdkstrategy False True (Some (100, 40)) 38 (demo_buf 0 3) = (True, io') \<and>
     unat (b_sec io') = 138 \<and> unat (b_bcount io') = 1024 \<and> unat (b_resid io') = 512"
proof -
  have "fst (cmdkstrategy False True (Some (100, 40)) 38 (demo_buf 0 3))" by code_simp
  then obtain io' where r: "cmdkstrategy False True (Some (100, 40)) 38 (demo_buf 0 3) = (True, io')"
    by (cases "cmdkstrategy False True (Some (100, 40)) 38 (demo_buf 0 3)") auto
  from cmdkstrategy_within [OF r] r show ?thesis by (simp add: demo_buf_def)
qed

theorem partition_request_remapped_witness:
  "\<exists>io1 ph0 io0 io'. cmdkstrategy False True (Some (0, 40)) 12 (demo_buf 0 2) = (True, io1) \<and>
     dadk_start (demo_ctl (cmdk_handle demo_table 0)) (Some demo_req) Some io1 = Some (ph0, io0) \<and>
     (dadk_step (ata_ends (disk0 0xe0)) (demo_ctl (cmdk_handle demo_table 0)) ^^ 2) (ph0, io0, []) (Ph_over, io', map (alts_remap demo_alts) [12..13])"
proof -
  have c: "cmdkstrategy False True (Some (0, 40)) 12 (demo_buf 0 2) = (True, demo_buf 12 2)"
    by (simp add: cmdkstrategy_def demo_buf_def dadk_strategy_def dadk_set_sec_def dadk_check_bp_def Let_def)
  obtain io' where r: "dadk_start (demo_ctl (cmdk_handle demo_table 0)) (Some demo_req) Some (demo_buf 12 2) = Some (fst demo_bad, snd demo_bad)"
    "(dadk_step (ata_ends (disk0 0xe0)) (demo_ctl (cmdk_handle demo_table 0)) ^^ 2) (fst demo_bad, snd demo_bad, []) (Ph_over, io', [52, 13])" "b_error io' = None"
    using demo_bad_case by blast
  have p: "cmlb_partinfo demo_env 0 = Some (uint (40 :: u64), uint (0 :: u64), 2)" by (simp add: demo_table_facts(4))
  have "[52, 13] = map (alts_remap (bad_table demo_env)) [uint (0 :: u64) + uint (12 :: u64)..uint (0 :: u64) + uint (12 :: u64) + int 2 - 1]"
    by (rule partition_request_remapped [OF c _ demo_inv demo_fits demo_table_facts(1-3) _ p _ _ demo_buffer_ok _ _
          demo_ctl_setup r]) (use demo_alts_in_range in \<open>auto simp: demo_table_facts(5) NDKMAP_def demo_ctl_def demo_buf_def\<close>)
  then have "[52, 13] = map (alts_remap demo_alts) [12..13]" by (simp add: demo_table_facts(5))
  with c r show ?thesis by metis
qed

end
