(* ===== verification/Resources.thy ===== *)
theory Resources
  imports Prelude "HOL-Library.Multiset"
begin

text \<open>
  The kernel resources a driver holds while it attaches and detaches, as a multiset. Acquiring adds one; releasing
  one that is not held, or that another resource still uses, is a fault (\<open>None\<close>): \<open>uses x r\<close> says that \<open>x\<close> must be
  released before \<open>r\<close> (an interrupt handler before the mutex it takes).
\<close>

definition release :: "('r \<Rightarrow> 'r \<Rightarrow> bool) \<Rightarrow> 'r \<Rightarrow> 'r multiset \<Rightarrow> 'r multiset option" where
  "release uses r L = (if r \<in># L \<and> (\<forall>x\<in>#L - {#r#}. \<not> uses x r) then Some (L - {#r#}) else None)"

text \<open>What is held when \<open>b\<close> is.\<close>

definition held_if :: "bool \<Rightarrow> 'r \<Rightarrow> 'r multiset" where
  "held_if b r = (if b then {#r#} else {#})"

lemma held_if_simps [simp]:
  "held_if True r = {#r#}" "held_if False r = {#}" "x \<in># held_if b r \<longleftrightarrow> b \<and> x = r"
  by (simp_all add: held_if_def)

lemma release_add [simp]: "release uses r (add_mset r L) = (if \<forall>x\<in>#L. \<not> uses x r then Some L else None)"
  by (simp add: release_def)

end
