(* ===== verification/Ata_Attach.thy ===== *)
theory Ata_Attach
  imports Resources
begin

text \<open>
  Attaching and detaching a controller (\<open>ata_common.c\<close>, with its parts in \<open>atapi.c\<close>, \<open>ata_dma.c\<close> and \<open>ghd.c\<close>): which kernel
  resources each step acquires, and that every path releases them. A pointer or handle of \<open>ata_ctl_t\<close> that says
  what has been acquired is a boolean (not \<open>NULL\<close>), as is a bit of \<open>ac_flags\<close>. What the kernel's calls return
  and what the probing of drives finds (\<open>Ata_Ident\<close>) are the environment \<open>att_env\<close>. Register accesses, the
  selection of a drive, messages and the per-drive mutex are left out.
\<close>

subsection \<open>State\<close>

datatype ata_res =
    Res_soft_state | Res_arq_pkt
  | Res_io1 | Res_io2 | Res_bm              \<comment> \<open>register mappings\<close>
  | Res_sg_handle | Res_sg_mem | Res_sg_bind
  | Res_intr | Res_hba_mutex | Res_waitq_mutex | Res_notify_mutex | Res_timer | Res_done_intr | Res_done_mutex
  | Res_tran | Res_scsi | Res_minor
  | Res_drive nat nat | Res_id_buf

text \<open>What must go first. The reset notification mutex lives in the soft state too, but see \<open>sol11ghd_unregister\<close>.\<close>

fun ata_uses :: "ata_res \<Rightarrow> ata_res \<Rightarrow> bool" where
  "ata_uses x Res_soft_state \<longleftrightarrow> x \<noteq> Res_notify_mutex"
| "ata_uses Res_intr Res_hba_mutex = True"
| "ata_uses Res_intr Res_waitq_mutex = True"
| "ata_uses Res_timer Res_waitq_mutex = True"
| "ata_uses Res_timer Res_hba_mutex = True"
| "ata_uses Res_done_intr Res_done_mutex = True"
| "ata_uses Res_scsi Res_tran = True"
| "ata_uses Res_sg_bind Res_sg_mem = True"
| "ata_uses Res_sg_mem Res_sg_handle = True"
| "ata_uses Res_intr Res_arq_pkt = True"
| "ata_uses _ _ = False"

record att_ctl =
  ac_attached :: bool
  ac_ghd_init :: bool
  ac_atapi_init :: bool
  ac_disk_init :: bool
  ac_tran_alloc :: bool
  ac_scsi_attach :: bool
  ah_io1 :: bool
  ah_io2 :: bool
  ah_bm :: bool
  ah_sg :: bool
  ah_pciide :: bool
  ah_drv :: "(nat \<times> nat) set"

record att =
  at_live :: "ata_res multiset"
  at_ctl :: "att_ctl option"   \<comment> \<open>the soft state\<close>

definition zero_ctl :: att_ctl where
  "zero_ctl = \<lparr>ac_attached = False, ac_ghd_init = False, ac_atapi_init = False, ac_disk_init = False, ac_tran_alloc = False,
     ac_scsi_attach = False, ah_io1 = False, ah_io2 = False, ah_bm = False, ah_sg = False, ah_pciide = False, ah_drv = {}\<rparr>"

record att_env =
  ev_soft :: bool
  ev_regsize :: "nat \<Rightarrow> int option"
  ev_pnp :: bool
  ev_pciide_parent :: bool      \<comment> \<open>the parent's \<open>device_type\<close> is \<open>sol11pci-ide\<close>\<close>
  ev_map :: "nat \<Rightarrow> bool"       \<comment> \<open>\<open>ddi_regs_map_setup\<close> of a register tuple\<close>
  ev_addr1 :: u64
  ev_pciide :: bool             \<comment> \<open>\<open>ata_init_pciide\<close> sets \<open>ac_pciide\<close> \<dots>\<close>
  ev_bus_master :: bool         \<comment> \<open>\<dots> and comes to allocate the table\<close>
  ev_sg_handle :: bool
  ev_sg_mem :: bool
  ev_sg_bind :: bool
  ev_isa :: bool                \<comment> \<open>the property \<open>SUNW-ata-xxxx-isa\<close> exists\<close>
  ev_dummy_intr :: bool
  ev_intr :: bool
  ev_timer :: bool
  ev_softintr :: bool
  ev_drive :: "nat \<Rightarrow> nat \<Rightarrow> (bool \<times> nat) option"  \<comment> \<open>\<open>ata_init_drive\<close>: packet device?, last unit\<close>
  ev_luns :: bool               \<comment> \<open>\<open>ata_enable_atapi_luns\<close>\<close>
  ev_tran :: bool
  ev_scsi :: bool
  ev_minor :: bool

definition take_res :: "ata_res \<Rightarrow> att \<Rightarrow> att" where
  "take_res r w = w\<lparr>at_live := add_mset r (at_live w)\<rparr>"

definition drop_res :: "ata_res \<Rightarrow> att \<Rightarrow> att option" where
  "drop_res r w = map_option (\<lambda>L. w\<lparr>at_live := L\<rparr>) (release ata_uses r (at_live w))"

definition drop_if :: "bool \<Rightarrow> ata_res \<Rightarrow> att \<Rightarrow> att option" where
  "drop_if b r w = (if b then drop_res r w else Some w)"

primrec drop_all :: "ata_res list \<Rightarrow> att \<Rightarrow> att option" where
  "drop_all [] w = Some w"
| "drop_all (r # rs) w = Option.bind (drop_res r w) (drop_all rs)"

definition set_ctl :: "(att_ctl \<Rightarrow> att_ctl) \<Rightarrow> att \<Rightarrow> att" where
  "set_ctl f w = w\<lparr>at_ctl := map_option f (at_ctl w)\<rparr>"

subsection \<open>Register mappings\<close>

definition ATA_MAXTARG :: nat where "ATA_MAXTARG = 2"
definition ATA_MAXLUN :: nat where "ATA_MAXLUN = 16"

text \<open>The result: success, and which of the three handles are mapped (the first, the second, the bus master's).\<close>

definition map_bus_master :: "att_env \<Rightarrow> bool" where
  "map_bus_master ev \<longleftrightarrow> \<not> ev_pnp ev \<and> ev_pciide_parent ev \<and>
     (case ev_regsize ev 2 of Some n \<Rightarrow> \<not> n < 8 | None \<Rightarrow> False) \<and> ev_map ev 2"

definition ata_setup_ioaddr :: "att_env \<Rightarrow> att \<Rightarrow> (bool \<times> bool \<times> bool \<times> bool \<times> att) option" where
  "ata_setup_ioaddr ev w =
    (case (ev_regsize ev 0, ev_regsize ev 1) of
       (Some n0, Some n1) \<Rightarrow>
         if n0 \<le> 7 \<or> n1 \<le> 0 then Some (False, False, False, False, w)
         else
           (let bm = map_bus_master ev;
                w = (if bm then take_res Res_bm w else w);
                rnumber = (if ev_pnp ev then 1 else 0);
                out1 = (\<lambda>w. map_option (\<lambda>w. (False, False, False, False, w)) (drop_if bm Res_bm w))
            in if \<not> ev_map ev rnumber then out1 w
               else
                 (let w = take_res Res_io1 w; out2 = (\<lambda>w. Option.bind (drop_res Res_io1 w) out1)
                  in if ev_addr1 ev = 0 then out2 w
                     else if ev_map ev (rnumber + 1) then Some (True, True, True, bm, take_res Res_io2 w)
                     else out2 w))
     | _ \<Rightarrow> Some (False, False, False, False, w))"

subsection \<open>The scatter/gather table\<close>

definition ata_pciide_alloc :: "att_env \<Rightarrow> att \<Rightarrow> (bool \<times> att) option" where
  "ata_pciide_alloc ev w =
    (if \<not> ev_sg_handle ev then Some (False, w)
     else
       (let w = set_ctl (\<lambda>c. c\<lparr>ah_sg := True\<rparr>) (take_res Res_sg_handle w);
            err2 = (\<lambda>w. map_option (\<lambda>w. (False, set_ctl (\<lambda>c. c\<lparr>ah_sg := False\<rparr>) w)) (drop_res Res_sg_handle w))
        in if \<not> ev_sg_mem ev then err2 w
           else
             (let w = take_res Res_sg_mem w
              in if \<not> ev_sg_bind ev then Option.bind (drop_res Res_sg_mem w) err2
                 else Some (True, take_res Res_sg_bind w))))"

definition ata_pciide_free :: "att_ctl \<Rightarrow> att \<Rightarrow> att option" where
  "ata_pciide_free c w =
    (if \<not> ah_sg c then Some w
     else map_option (set_ctl (\<lambda>c. c\<lparr>ah_sg := False\<rparr>)) (drop_all [Res_sg_bind, Res_sg_mem, Res_sg_handle] w))"

subsection \<open>Registration with GHD\<close>

text \<open>The done queue's soft interrupt and mutex.\<close>

definition ghd_doneq_init :: "att_env \<Rightarrow> att \<Rightarrow> bool \<times> att" where
  "ghd_doneq_init ev w =
    (if \<not> ev_softintr ev then (False, w) else (True, take_res Res_done_mutex (take_res Res_done_intr w)))"

definition sol11ghd_register :: "att_env \<Rightarrow> att \<Rightarrow> (bool \<times> att) option" where
  "sol11ghd_register ev w =
    (if \<not> ev_dummy_intr ev then Some (False, w)
     else
       Option.bind (drop_res Res_intr (take_res Res_hba_mutex (take_res Res_intr w))) (\<lambda>w.
         if \<not> ev_intr ev then map_option (Pair False) (drop_res Res_hba_mutex w)
         else
           (let w = take_res Res_notify_mutex (take_res Res_waitq_mutex (take_res Res_intr w))
            in if \<not> ev_timer ev
               then map_option (Pair False) (drop_all [Res_intr, Res_hba_mutex, Res_waitq_mutex] w)
               else
                 (case ghd_doneq_init ev (take_res Res_timer w) of
                    (True, w) \<Rightarrow> Some (True, w)
                  | (False, w) \<Rightarrow>
                      map_option (Pair False) (drop_all [Res_timer, Res_intr, Res_hba_mutex, Res_waitq_mutex] w)))))"

definition sol11ghd_unregister :: "att \<Rightarrow> att option" where
  "sol11ghd_unregister w =
    drop_all [Res_timer, Res_intr, Res_done_intr, Res_hba_mutex, Res_waitq_mutex, Res_done_mutex] w"

subsection \<open>The SCSA half\<close>

definition atapi_detach :: "att \<Rightarrow> att option" where
  "atapi_detach w =
    (case at_ctl w of
       None \<Rightarrow> None
     | Some c \<Rightarrow> Option.bind (drop_if (ac_scsi_attach c) Res_scsi w) (drop_if (ac_tran_alloc c) Res_tran))"

definition atapi_attach :: "att_env \<Rightarrow> att \<Rightarrow> (bool \<times> att) option" where
  "atapi_attach ev w =
    (if \<not> ev_tran ev then map_option (Pair False) (atapi_detach w)
     else
       (let w = set_ctl (\<lambda>c. c\<lparr>ac_tran_alloc := True\<rparr>) (take_res Res_tran w)
        in if \<not> ev_scsi ev then map_option (Pair False) (atapi_detach w)
           else Some (True, set_ctl (\<lambda>c. c\<lparr>ac_scsi_attach := True\<rparr>) (take_res Res_scsi w))))"

text \<open>Nothing to do for disks.\<close>

definition ata_disk_attach :: "att \<Rightarrow> bool \<times> att" where "ata_disk_attach w = (True, w)"
definition ata_disk_detach :: "att \<Rightarrow> att" where "ata_disk_detach w = w"

subsection \<open>Detach\<close>

definition ata_destroy_controller :: "att \<Rightarrow> att option" where
  "ata_destroy_controller w =
    (case at_ctl w of
       None \<Rightarrow> Some w
     | Some c \<Rightarrow>
         Option.bind (if ac_ghd_init c then sol11ghd_unregister w else Some w) (\<lambda>w.
           Option.bind (ata_pciide_free c w) (\<lambda>w.
             map_option (\<lambda>w. w\<lparr>at_ctl := None\<rparr>) (drop_all [Res_arq_pkt, Res_soft_state] w))))"

text \<open>\<open>ddi_remove_minor_node(dip, NULL)\<close> removes all minor nodes, if there are any.\<close>

definition remove_minor :: "att \<Rightarrow> att" where
  "remove_minor w = w\<lparr>at_live := filter_mset (\<lambda>r. r \<noteq> Res_minor) (at_live w)\<rparr>"

primrec uninit_drives :: "(nat \<times> nat) set \<Rightarrow> (nat \<times> nat) list \<Rightarrow> att \<Rightarrow> att option" where
  "uninit_drives D [] w = Some w"
| "uninit_drives D (p # ps) w =
     Option.bind (drop_if (p \<in> D) (Res_drive (fst p) (snd p)) w) (uninit_drives D ps)"

definition detach_controller :: "att \<Rightarrow> att option" where
  "detach_controller w =
    (case at_ctl w of
       None \<Rightarrow> Some w
     | Some c \<Rightarrow>
         (let w = set_ctl (\<lambda>c. c\<lparr>ac_attached := False\<rparr>) w;
              w = (if ac_disk_init c then ata_disk_detach w else w)
          in Option.bind (if ac_atapi_init c then atapi_detach w else Some w) (\<lambda>w.
               Option.bind (uninit_drives (ah_drv c) (List.product [0..<ATA_MAXTARG] [0..<ATA_MAXLUN]) (remove_minor w)) (\<lambda>w.
                 Option.bind (drop_if (ah_io1 c) Res_io1 w) (\<lambda>w.
                   Option.bind (drop_if (ah_io2 c) Res_io2 w) (\<lambda>w.
                     Option.bind (drop_if (ah_bm c) Res_bm w) ata_destroy_controller))))))"

text \<open>The entry point; \<open>detaching\<close>: the command is \<open>DDI_DETACH\<close>.\<close>

definition ata_detach :: "bool \<Rightarrow> att \<Rightarrow> (bool \<times> att) option" where
  "ata_detach detaching w = (if \<not> detaching then Some (False, w) else map_option (Pair True) (detach_controller w))"

subsection \<open>Attach\<close>

text \<open>A detach inside the initialisation frees the soft state, so that the one of the caller finds none.\<close>

definition ata_init_controller :: "att_env \<Rightarrow> att \<Rightarrow> (bool \<times> att) option" where
  "ata_init_controller ev w =
    (if \<not> ev_soft ev then Some (False, w)
     else
       (let w = take_res Res_arq_pkt ((take_res Res_soft_state w)\<lparr>at_ctl := Some zero_ctl\<rparr>);
            fail = (\<lambda>w. map_option (Pair False) (detach_controller w))
        in Option.bind (ata_setup_ioaddr ev w) (\<lambda>(ok, h1, h2, hb, w).
             let w = set_ctl (\<lambda>c. c\<lparr>ah_io1 := h1, ah_io2 := h2, ah_bm := hb\<rparr>) w
             in if \<not> ok then fail w
                else
                  (let pciide = hb \<and> ev_pciide ev;
                       w = set_ctl (\<lambda>c. c\<lparr>ah_pciide := pciide\<rparr>) w
                   in Option.bind (if pciide \<and> ev_bus_master ev then map_option snd (ata_pciide_alloc ev w) else Some w) (\<lambda>w.
                        if pciide \<and> ((ucast (ev_addr1 ev) :: u32) > 0xffff \<or> ev_isa ev) then fail w
                        else Option.bind (sol11ghd_register ev w) (\<lambda>(ok, w).
                          if \<not> ok then fail w else Some (True, set_ctl (\<lambda>c. c\<lparr>ac_ghd_init := True\<rparr>) w)))))))"

text \<open>What \<open>ata_init_drive\<close> does to the controller: a drive it has found keeps its structure.\<close>

definition init_drive :: "att_env \<Rightarrow> nat \<Rightarrow> nat \<Rightarrow> att \<Rightarrow> att" where
  "init_drive ev targ lun w =
    (case at_ctl w of
       None \<Rightarrow> w
     | Some c \<Rightarrow>
         if (targ, lun) \<in> ah_drv c \<or> ev_drive ev targ lun = None then w
         else set_ctl (\<lambda>c. c\<lparr>ah_drv := insert (targ, lun) (ah_drv c)\<rparr>) (take_res (Res_drive targ lun) w))"

definition init_target :: "att_env \<Rightarrow> nat \<Rightarrow> nat \<times> nat \<times> att \<Rightarrow> nat \<times> nat \<times> att" where
  "init_target ev targ = (\<lambda>(atapi_count, disk_count, w).
    (let w = init_drive ev targ 0 w
     in case ev_drive ev targ 0 of
          None \<Rightarrow> (atapi_count, disk_count, w)
        | Some (atapi, ai_lastlun) \<Rightarrow>
            (let lastlun = (if atapi \<and> ev_luns ev then ai_lastlun else 0);
                 w = fold (init_drive ev targ) [1..<min (lastlun + 1) ATA_MAXLUN] w
             in if atapi then (atapi_count + 1, disk_count, w) else (atapi_count, disk_count + 1, w))))"

definition attach_controller :: "att_env \<Rightarrow> att \<Rightarrow> (bool \<times> att) option" where
  "attach_controller ev w =
    (let fail = (\<lambda>w. map_option (Pair False) (detach_controller w))
     in Option.bind (ata_init_controller ev w) (\<lambda>(ok, w).
          if \<not> ok then fail w
          else
            (let (atapi_count, disk_count, w) = fold (init_target ev) [0..<ATA_MAXTARG] (0, 0, w)
             in if atapi_count = 0 \<and> disk_count = 0 then fail w
                else
                  Option.bind
                    (if atapi_count > 0
                     then map_option (\<lambda>(ok, w). (ok, if ok then set_ctl (\<lambda>c. c\<lparr>ac_atapi_init := True\<rparr>) w else w)) (atapi_attach ev w)
                     else Some (True, w)) (\<lambda>(ok, w).
                    if \<not> ok then fail w
                    else
                      (let (ok, w) = (if disk_count > 0 then ata_disk_attach w else (True, w))
                       in if \<not> ok then fail w
                          else
                            (let w = (if disk_count > 0 then set_ctl (\<lambda>c. c\<lparr>ac_disk_init := True\<rparr>) w else w);
                                 pciide = (case at_ctl w of Some c \<Rightarrow> ah_pciide c | None \<Rightarrow> False)
                             in if pciide \<and> \<not> ev_minor ev then fail w
                                else Some (True, set_ctl (\<lambda>c. c\<lparr>ac_attached := True\<rparr>)
                                       (if pciide then take_res Res_minor w else w))))))))"

text \<open>The entry point; \<open>attaching\<close>: the command is \<open>DDI_ATTACH\<close>.\<close>

definition ata_attach :: "bool \<Rightarrow> att_env \<Rightarrow> att \<Rightarrow> (bool \<times> att) option" where
  "ata_attach attaching ev w = (if \<not> attaching then Some (False, w) else attach_controller ev w)"

text \<open>Probing maps the registers for a while.\<close>

definition ata_probe :: "att_env \<Rightarrow> (nat \<Rightarrow> bool) \<Rightarrow> att \<Rightarrow> (bool \<times> att) option" where
  "ata_probe ev drive_found w =
    Option.bind (ata_setup_ioaddr ev w) (\<lambda>(ok, h1, h2, hb, w).
      if \<not> ok then Some (False, w)
      else
        (let w = take_res Res_id_buf w; rc = list_ex drive_found [0..<ATA_MAXTARG]
         in Option.bind (drop_res Res_id_buf w) (\<lambda>w.
              Option.bind (drop_if h1 Res_io1 w) (\<lambda>w.
                Option.bind (drop_if h2 Res_io2 w) (\<lambda>w.
                  map_option (Pair rc) (drop_if hb Res_bm w))))))"

subsection \<open>What is held\<close>

definition ghd_res :: "ata_res list" where
  "ghd_res = [Res_timer, Res_intr, Res_done_intr, Res_hba_mutex, Res_waitq_mutex, Res_done_mutex]"

definition drive_res :: "(nat \<times> nat) set \<Rightarrow> ata_res multiset" where
  "drive_res D = image_mset (\<lambda>p. Res_drive (fst p) (snd p)) (mset_set D)"

definition held_ctl :: "att_ctl \<Rightarrow> ata_res multiset" where
  "held_ctl c =
    (if ac_ghd_init c then mset ghd_res else {#}) + ((if ah_sg c then {#Res_sg_bind, Res_sg_mem, Res_sg_handle#} else {#}) +
    {#Res_arq_pkt, Res_soft_state#})"

definition held :: "att_ctl \<Rightarrow> ata_res multiset" where
  "held c =
    (if ac_atapi_init c then {#Res_scsi, Res_tran#} else {#}) + (drive_res (ah_drv c) + (held_if (ah_io1 c) Res_io1 +
    (held_if (ah_io2 c) Res_io2 + (held_if (ah_bm c) Res_bm + held_ctl c))))"

definition all_drives :: "(nat \<times> nat) set" where "all_drives = {..<ATA_MAXTARG} \<times> {..<ATA_MAXLUN}"

text \<open>Between calls the flags and handles of the controller tell what is held, apart from \<open>N\<close>.\<close>

definition att_ok :: "ata_res multiset \<Rightarrow> att \<Rightarrow> bool" where
  "att_ok N w \<longleftrightarrow> (\<exists>c. at_ctl w = Some c \<and> at_live w = held c + N \<and> ah_drv c \<subseteq> all_drives \<and>
     (ac_atapi_init c \<longrightarrow> ac_tran_alloc c \<and> ac_scsi_attach c))"

lemma drop_res_add:
  "at_live w = add_mset r L \<Longrightarrow> \<forall>x\<in>#L. \<not> ata_uses x r \<Longrightarrow> drop_res r w = Some (w\<lparr>at_live := L\<rparr>)"
  by (simp add: drop_res_def)

lemma drop_if_held:
  "at_live w = held_if b r + L \<Longrightarrow> b \<longrightarrow> (\<forall>x\<in>#L. \<not> ata_uses x r) \<Longrightarrow> drop_if b r w = Some (w\<lparr>at_live := L\<rparr>)"
  by (cases b) (simp_all add: drop_if_def drop_res_add)

lemma drive_res_mem [simp]: "x \<in># drive_res D \<longleftrightarrow> finite D \<and> (\<exists>p\<in>D. x = Res_drive (fst p) (snd p))"
  by (cases "finite D") (auto simp: drive_res_def)

lemma uses_drive [simp]: "\<not> ata_uses x (Res_drive i j)" by (cases x) simp_all

lemma uninit_drives_spec:
  assumes "distinct ps" "D \<subseteq> all_drives"
  shows "at_live w = drive_res (D \<inter> set ps) + L \<Longrightarrow> uninit_drives D ps w = Some (w\<lparr>at_live := L\<rparr>)"
  using assms(1)
proof (induction ps arbitrary: w)
  case Nil
  then show ?case by (simp add: drive_res_def)
next
  case (Cons p ps)
  have fin: "finite (D \<inter> set ps)" by simp
  show ?case
  proof (cases "p \<in> D")
    case True
    then have "D \<inter> set (p # ps) = insert p (D \<inter> set ps)" "p \<notin> D \<inter> set ps" using Cons.prems by auto
    then have "at_live w = add_mset (Res_drive (fst p) (snd p)) (drive_res (D \<inter> set ps) + L)"
      using Cons.prems(1) fin by (simp add: drive_res_def)
    then have "drop_res (Res_drive (fst p) (snd p)) w = Some (w\<lparr>at_live := drive_res (D \<inter> set ps) + L\<rparr>)"
      by (rule drop_res_add) simp
    with Cons True show ?thesis by (simp add: drop_if_def)
  next
    case False
    with Cons show ?thesis by (simp add: drop_if_def)
  qed
qed

lemma destroy_spec:
  assumes "at_ctl w = Some c" "at_live w = held_ctl c + N" "set_mset N \<subseteq> {Res_notify_mutex}"
  shows "ata_destroy_controller w = Some (w\<lparr>at_live := N, at_ctl := None\<rparr>)"
proof -
  have N: "x = Res_notify_mutex" if "x \<in># N" for x using assms(3) that by auto
  let ?L = "(if ah_sg c then {#Res_sg_bind, Res_sg_mem, Res_sg_handle#} else {#}) + {#Res_arq_pkt, Res_soft_state#} + N"
  let ?M = "{#Res_arq_pkt, Res_soft_state#} + N"
  have 1: "(if ac_ghd_init c then sol11ghd_unregister w else Some w) = Some (w\<lparr>at_live := ?L\<rparr>)"
    using assms(2) by (auto simp: sol11ghd_unregister_def held_ctl_def ghd_res_def drop_res_def release_def simp del: release_add dest!: N)
  have 2: "ata_pciide_free c (w\<lparr>at_live := ?L\<rparr>) = Some (w\<lparr>at_live := ?M, at_ctl := Some (c\<lparr>ah_sg := False\<rparr>)\<rparr>)"
    using assms(1) by (auto simp: ata_pciide_free_def drop_res_def release_def set_ctl_def simp del: release_add dest!: N)
  have 3: "drop_all [Res_arq_pkt, Res_soft_state] (w\<lparr>at_live := ?M, at_ctl := Some (c\<lparr>ah_sg := False\<rparr>)\<rparr>) =
      Some (w\<lparr>at_live := N, at_ctl := Some (c\<lparr>ah_sg := False\<rparr>)\<rparr>)"
    by (auto simp: drop_res_def release_def simp del: release_add dest!: N)
  show ?thesis unfolding ata_destroy_controller_def assms(1) using 1 2 3 by simp
qed

lemma filter_held:
  assumes "set_mset M \<subseteq> {Res_minor}" "set_mset N \<subseteq> {Res_notify_mutex}"
  shows "filter_mset (\<lambda>r. r \<noteq> Res_minor) (drive_res D + K + M + N) = drive_res D + filter_mset (\<lambda>r. r \<noteq> Res_minor) K + N"
proof -
  have "filter_mset (\<lambda>r. r \<noteq> Res_minor) M = {#}" using assms(1) by (auto simp: filter_mset_eq_conv)
  moreover have "filter_mset (\<lambda>r. r \<noteq> Res_minor) N = N" using assms(2) by (auto simp: filter_mset_eq_conv)
  moreover have "filter_mset (\<lambda>r. r \<noteq> Res_minor) (drive_res D) = drive_res D" by (auto simp: filter_mset_eq_conv)
  ultimately show ?thesis by simp
qed

text \<open>Detaching releases everything that the controller says it holds.\<close>

lemma detach_spec:
  assumes "at_ctl w = Some c" "at_live w = held c + M + N" "set_mset M \<subseteq> {Res_minor}" "set_mset N \<subseteq> {Res_notify_mutex}"
    and "ah_drv c \<subseteq> all_drives" "ac_atapi_init c \<longrightarrow> ac_tran_alloc c \<and> ac_scsi_attach c"
  shows "detach_controller w = Some (w\<lparr>at_live := N, at_ctl := None\<rparr>)"
proof -
  have N: "x = Res_notify_mutex" if "x \<in># N" for x using assms(4) that by auto
  have M: "x = Res_minor" if "x \<in># M" for x using assms(3) that by auto
  let ?c = "c\<lparr>ac_attached := False\<rparr>"
  let ?K = "held_if (ah_io1 c) Res_io1 + (held_if (ah_io2 c) Res_io2 + (held_if (ah_bm c) Res_bm + held_ctl c))"
  let ?w = "w\<lparr>at_ctl := Some ?c\<rparr>"
  have 1: "(if ac_atapi_init c then atapi_detach ?w else Some ?w) = Some (?w\<lparr>at_live := drive_res (ah_drv c) + ?K + M + N\<rparr>)"
  proof (cases "ac_atapi_init c")
    case True
    have "drop_res Res_scsi ?w = Some (?w\<lparr>at_live := add_mset Res_tran (drive_res (ah_drv c) + ?K + M + N)\<rparr>)"
      by (rule drop_res_add) (use assms(2) True in \<open>auto simp: held_def ac_simps\<close>)
    moreover have "drop_res Res_tran (?w\<lparr>at_live := add_mset Res_tran (drive_res (ah_drv c) + ?K + M + N)\<rparr>) =
        Some (?w\<lparr>at_live := drive_res (ah_drv c) + ?K + M + N\<rparr>)"
      by (subst drop_res_add [OF _ _]) (auto simp: held_ctl_def ghd_res_def dest!: N M)
    ultimately show ?thesis using True assms(6) by (simp add: atapi_detach_def drop_if_def)
  next
    case False
    then show ?thesis using assms(2) by (simp add: held_def ac_simps)
  qed
  have K: "filter_mset (\<lambda>r. r \<noteq> Res_minor) ?K = ?K"
    by (simp add: held_ctl_def ghd_res_def held_if_def)
  have f: "filter_mset (\<lambda>r. r \<noteq> Res_minor) (drive_res (ah_drv c) + ?K + M + N) = drive_res (ah_drv c) + (?K + N)"
    by (rule trans [OF filter_held [OF assms(3,4)]]) (simp only: K, simp only: add.assoc)
  have 2: "remove_minor (?w\<lparr>at_live := drive_res (ah_drv c) + ?K + M + N\<rparr>) = ?w\<lparr>at_live := drive_res (ah_drv c) + (?K + N)\<rparr>"
    unfolding remove_minor_def f [symmetric] by simp
  have 3: "uninit_drives (ah_drv c) (List.product [0..<ATA_MAXTARG] [0..<ATA_MAXLUN]) (?w\<lparr>at_live := drive_res (ah_drv c) + (?K + N)\<rparr>) =
      Some (?w\<lparr>at_live := ?K + N\<rparr>)"
  proof -
    have "ah_drv c \<inter> set (List.product [0..<ATA_MAXTARG] [0..<ATA_MAXLUN]) = ah_drv c"
      using assms(5) by (auto simp: all_drives_def)
    then have "at_live (?w\<lparr>at_live := drive_res (ah_drv c) + (?K + N)\<rparr>) =
        drive_res (ah_drv c \<inter> set (List.product [0..<ATA_MAXTARG] [0..<ATA_MAXLUN])) + (?K + N)" by simp
    from uninit_drives_spec [OF _ assms(5) this] show ?thesis by (simp add: distinct_product)
  qed
  let ?K2 = "held_if (ah_io2 c) Res_io2 + (held_if (ah_bm c) Res_bm + held_ctl c)"
  let ?K3 = "held_if (ah_bm c) Res_bm + held_ctl c"
  have 4: "drop_if (ah_io1 c) Res_io1 (?w\<lparr>at_live := ?K + N\<rparr>) = Some (?w\<lparr>at_live := ?K2 + N\<rparr>)"
    by (subst drop_if_held [where L = "?K2 + N"]) (auto simp: held_ctl_def ghd_res_def ac_simps dest!: N)
  have 5: "drop_if (ah_io2 c) Res_io2 (?w\<lparr>at_live := ?K2 + N\<rparr>) = Some (?w\<lparr>at_live := ?K3 + N\<rparr>)"
    by (subst drop_if_held [where L = "?K3 + N"]) (auto simp: held_ctl_def ghd_res_def ac_simps dest!: N)
  have 6: "drop_if (ah_bm c) Res_bm (?w\<lparr>at_live := ?K3 + N\<rparr>) = Some (?w\<lparr>at_live := held_ctl c + N\<rparr>)"
    by (subst drop_if_held [where L = "held_ctl c + N"]) (auto simp: held_ctl_def ghd_res_def ac_simps dest!: N)
  have "held_ctl c = held_ctl ?c" by (simp add: held_ctl_def)
  then have 7: "ata_destroy_controller (?w\<lparr>at_live := held_ctl c + N\<rparr>) = Some (w\<lparr>at_live := N, at_ctl := None\<rparr>)"
    using destroy_spec [of "?w\<lparr>at_live := held_ctl c + N\<rparr>" ?c N] assms(4) by simp
  have s: "set_ctl (\<lambda>c. c\<lparr>ac_attached := False\<rparr>) w = ?w" by (simp add: set_ctl_def assms(1))
  show ?thesis
    by (simp only: detach_controller_def assms(1) option.case Let_def s ata_disk_detach_def if_cancel 1 2 3 4 5 6 7 Option.bind.simps)
qed

subsection \<open>Acquiring\<close>

lemma uses_free [simp]:
  "\<not> ata_uses x Res_io1" "\<not> ata_uses x Res_io2" "\<not> ata_uses x Res_bm" "\<not> ata_uses x Res_intr" "\<not> ata_uses x Res_timer"
  "\<not> ata_uses x Res_scsi" "\<not> ata_uses x Res_id_buf" "\<not> ata_uses x Res_sg_bind"
  by (cases x; simp)+

lemma drop_taken [simp]:
  "\<forall>x\<in>#at_live w. \<not> ata_uses x r \<Longrightarrow> drop_res r (take_res r w) = Some w"
  by (simp add: drop_res_def take_res_def)

lemma take_res_simps [simp]:
  "at_ctl (take_res r w) = at_ctl w" "at_live (take_res r w) = add_mset r (at_live w)"
  "at_live (set_ctl f w) = at_live w" "at_ctl (set_ctl f w) = map_option f (at_ctl w)"
  by (simp_all add: take_res_def set_ctl_def)

lemma drop_set_ctl [simp]: "drop_res r (set_ctl f w) = map_option (set_ctl f) (drop_res r w)"
  by (cases "release ata_uses r (at_live w)") (simp_all add: drop_res_def set_ctl_def)

lemma take_set_ctl [simp]: "take_res r (set_ctl f w) = set_ctl f (take_res r w)"
  by (simp add: take_res_def set_ctl_def)

lemma setup_ioaddr_spec:
  "\<exists>ok h1 h2 hb w'. ata_setup_ioaddr ev w = Some (ok, h1, h2, hb, w') \<and> at_ctl w' = at_ctl w \<and>
     at_live w' = held_if h1 Res_io1 + (held_if h2 Res_io2 + (held_if hb Res_bm + at_live w)) \<and>
     (if ok then h1 \<and> h2 else \<not> h1 \<and> \<not> h2 \<and> \<not> hb \<and> w' = w)"
proof -
  have bm: "drop_if b Res_bm (if b then take_res Res_bm w else w) = Some w" for b by (simp add: drop_if_def)
  have "ata_setup_ioaddr ev w = Some (False, False, False, False, w) \<or>
    (\<exists>b. ata_setup_ioaddr ev w = Some (True, True, True, b, take_res Res_io2 (take_res Res_io1 (if b then take_res Res_bm w else w))))"
    unfolding ata_setup_ioaddr_def Let_def
    by (cases "ev_regsize ev 0"; cases "ev_regsize ev 1") (simp_all add: bm)
  then show ?thesis
  proof (elim disjE exE)
    assume "ata_setup_ioaddr ev w = Some (False, False, False, False, w)"
    then show ?thesis by (intro exI [of _ False] exI [of _ w]) simp
  next
    fix b assume "ata_setup_ioaddr ev w = Some (True, True, True, b, take_res Res_io2 (take_res Res_io1 (if b then take_res Res_bm w else w)))"
    then show ?thesis
      by (intro exI [of _ True] exI [of _ b] exI [of _ "take_res Res_io2 (take_res Res_io1 (if b then take_res Res_bm w else w))"]) simp
  qed
qed

lemma register_spec:
  assumes "\<forall>x\<in>#at_live w. x \<notin> {Res_intr, Res_timer, Res_done_intr}"
  shows "\<exists>ok w' N. sol11ghd_register ev w = Some (ok, w') \<and> at_ctl w' = at_ctl w \<and> N \<subseteq># {#Res_notify_mutex#} \<and>
     at_live w' = (if ok then mset ghd_res else {#}) + (at_live w + N)"
proof -
  let ?w1 = "take_res Res_hba_mutex w"
  have u: "\<forall>x\<in>#at_live w. \<not> ata_uses x Res_hba_mutex \<and> \<not> ata_uses x Res_waitq_mutex"
    using assms by (intro ballI; rename_tac x; case_tac x) auto
  have 1: "drop_res Res_intr (take_res Res_hba_mutex (take_res Res_intr w)) = Some ?w1"
    by (simp add: drop_res_def take_res_def release_def)
  let ?w2 = "take_res Res_notify_mutex (take_res Res_waitq_mutex (take_res Res_intr ?w1))"
  have 2: "drop_all [Res_intr, Res_hba_mutex, Res_waitq_mutex] ?w2 = Some (take_res Res_notify_mutex w)"
    using u by (simp add: drop_res_def take_res_def release_def)
  have 3: "drop_all [Res_timer, Res_intr, Res_hba_mutex, Res_waitq_mutex] (take_res Res_timer ?w2) = Some (take_res Res_notify_mutex w)"
    using u by (simp add: drop_res_def take_res_def release_def)
  have 4: "drop_res Res_hba_mutex ?w1 = Some w" using u by simp
  show ?thesis
  proof (cases "ev_dummy_intr ev \<and> ev_intr ev")
    case False
    then show ?thesis
      unfolding sol11ghd_register_def using 1 4 by (auto intro!: exI [of _ "{#}"])
  next
    case True
    note T = this
    show ?thesis
    proof (cases "ev_timer ev \<and> ev_softintr ev")
      case True
      with T 1 show ?thesis
        by (intro exI [of _ True] exI [of _ "take_res Res_done_mutex (take_res Res_done_intr (take_res Res_timer ?w2))"]
            exI [of _ "{#Res_notify_mutex#}"]) (simp add: sol11ghd_register_def ghd_doneq_init_def ghd_res_def Let_def)
    next
      case False
      with T 1 2 3 have "sol11ghd_register ev w = Some (False, take_res Res_notify_mutex w)"
        by (auto simp del: drop_all.simps simp: sol11ghd_register_def ghd_doneq_init_def Let_def)
      then show ?thesis by (intro exI [of _ False] exI [of _ "take_res Res_notify_mutex w"] exI [of _ "{#Res_notify_mutex#}"]) simp
    qed
  qed
qed

lemma pciide_alloc_spec:
  assumes "\<forall>x\<in>#at_live w. x \<noteq> Res_sg_bind \<and> x \<noteq> Res_sg_mem" "at_ctl w = Some c" "\<not> ah_sg c"
  shows "\<exists>ok w'. ata_pciide_alloc ev w = Some (ok, w') \<and> at_ctl w' = Some (c\<lparr>ah_sg := ok\<rparr>) \<and>
     at_live w' = (if ok then {#Res_sg_bind, Res_sg_mem, Res_sg_handle#} else {#}) + at_live w"
proof -
  have u: "\<forall>x\<in>#at_live w. \<not> ata_uses x Res_sg_mem \<and> \<not> ata_uses x Res_sg_handle"
    using assms(1) by (intro ballI; rename_tac x; case_tac x) auto
  have c: "c\<lparr>ah_sg := False\<rparr> = c" using assms(3) by (cases c) simp
  let ?t = "set_ctl (\<lambda>c. c\<lparr>ah_sg := True\<rparr>)" and ?f = "set_ctl (\<lambda>c. c\<lparr>ah_sg := False\<rparr>)"
  have "ata_pciide_alloc ev w \<in> {Some (False, w), Some (False, ?f (?t w)),
      Some (True, ?t (take_res Res_sg_bind (take_res Res_sg_mem (take_res Res_sg_handle w))))}"
    using u by (simp add: ata_pciide_alloc_def Let_def)
  then show ?thesis
    by (elim insertE emptyE) (use assms(2) c in auto)
qed

lemma atapi_attach_spec:
  assumes "\<forall>x\<in>#at_live w. x \<noteq> Res_scsi" "at_ctl w = Some c" "\<not> ac_tran_alloc c" "\<not> ac_scsi_attach c"
  shows "\<exists>ok w' t. atapi_attach ev w = Some (ok, w') \<and> at_ctl w' = Some (c\<lparr>ac_tran_alloc := t, ac_scsi_attach := ok\<rparr>) \<and> (ok \<longrightarrow> t) \<and>
     at_live w' = (if ok then {#Res_scsi, Res_tran#} else {#}) + at_live w"
proof -
  have u: "\<forall>x\<in>#at_live w. \<not> ata_uses x Res_tran"
    using assms(1) by (intro ballI; rename_tac x; case_tac x) auto
  have c: "c\<lparr>ac_tran_alloc := t, ac_scsi_attach := False\<rparr> = c\<lparr>ac_tran_alloc := t\<rparr>" for t using assms(4) by (cases c) simp
  have c': "c\<lparr>ac_tran_alloc := False\<rparr> = c" using assms(3) by (cases c) simp
  show ?thesis
  proof (cases "ev_tran ev")
    case False
    then show ?thesis using assms c c'
      by (intro exI [of _ False] exI [of _ w]) (auto simp: atapi_attach_def atapi_detach_def drop_if_def)
  next
    case True
    note T = this
    let ?w = "set_ctl (\<lambda>c. c\<lparr>ac_tran_alloc := True\<rparr>) (take_res Res_tran w)"
    show ?thesis
    proof (cases "ev_scsi ev")
      case True
      with T assms(2) show ?thesis
        by (intro exI [of _ True] exI [of _ "set_ctl (\<lambda>c. c\<lparr>ac_scsi_attach := True\<rparr>) (take_res Res_scsi ?w)"])
          (simp add: atapi_attach_def Let_def)
    next
      case False
      have "atapi_detach ?w = Some (set_ctl (\<lambda>c. c\<lparr>ac_tran_alloc := True\<rparr>) w)"
        using assms u by (simp add: atapi_detach_def drop_if_def)
      with T False assms c [of True] show ?thesis
        by (intro exI [of _ False] exI [of _ "set_ctl (\<lambda>c. c\<lparr>ac_tran_alloc := True\<rparr>) w"] exI [of _ True])
          (simp add: atapi_attach_def Let_def)
    qed
  qed
qed

lemma probe_balanced: "\<exists>rc. ata_probe ev found w = Some (rc, w)"
proof -
  from setup_ioaddr_spec [of ev w] obtain ok h1 h2 hb w' where
    w: "ata_setup_ioaddr ev w = Some (ok, h1, h2, hb, w')" "at_ctl w' = at_ctl w"
    "at_live w' = held_if h1 Res_io1 + (held_if h2 Res_io2 + (held_if hb Res_bm + at_live w))"
    "if ok then h1 \<and> h2 else \<not> h1 \<and> \<not> h2 \<and> \<not> hb \<and> w' = w" by blast
  show ?thesis
  proof (cases ok)
    case True
    have "drop_if h1 Res_io1 w' = Some (w'\<lparr>at_live := held_if h2 Res_io2 + (held_if hb Res_bm + at_live w)\<rparr>)"
      by (rule drop_if_held [OF w(3)]) simp
    moreover have "drop_if h2 Res_io2 (w'\<lparr>at_live := held_if h2 Res_io2 + (held_if hb Res_bm + at_live w)\<rparr>) =
        Some (w'\<lparr>at_live := held_if hb Res_bm + at_live w\<rparr>)"
      by (subst drop_if_held [where L = "held_if hb Res_bm + at_live w"]) simp_all
    moreover have "drop_if hb Res_bm (w'\<lparr>at_live := held_if hb Res_bm + at_live w\<rparr>) = Some (w'\<lparr>at_live := at_live w\<rparr>)"
      by (subst drop_if_held [where L = "at_live w"]) simp_all
    moreover have "w'\<lparr>at_live := at_live w\<rparr> = w" using w(2) by (cases w; cases w') simp
    ultimately show ?thesis using True w(1) by (simp add: ata_probe_def Let_def)
  qed (use w in \<open>auto simp: ata_probe_def\<close>)
qed

subsection \<open>Attach\<close>

definition att_early :: "ata_res multiset \<Rightarrow> att \<Rightarrow> bool" where
  "att_early N w \<longleftrightarrow> (\<exists>c. at_ctl w = Some c \<and> at_live w = held c + N \<and> ah_drv c \<subseteq> all_drives \<and>
     ac_ghd_init c \<and> \<not> ac_atapi_init c \<and> \<not> ac_tran_alloc c \<and> \<not> ac_scsi_attach c)"

lemma finite_all_drives [simp]: "finite all_drives"
  by (simp add: all_drives_def)

lemma init_drive_early:
  assumes "att_early N w" "targ < ATA_MAXTARG" "lun < ATA_MAXLUN"
  shows "att_early N (init_drive ev targ lun w)"
proof -
  from assms(1) obtain c where c: "at_ctl w = Some c" "at_live w = held c + N" "ah_drv c \<subseteq> all_drives"
    "ac_ghd_init c" "\<not> ac_atapi_init c" "\<not> ac_tran_alloc c" "\<not> ac_scsi_attach c" by (auto simp: att_early_def)
  show ?thesis
  proof (cases "(targ, lun) \<in> ah_drv c \<or> ev_drive ev targ lun = None")
    case True
    with assms(1) c(1) show ?thesis by (auto simp: init_drive_def)
  next
    case False
    let ?c = "c\<lparr>ah_drv := insert (targ, lun) (ah_drv c)\<rparr>"
    have "finite (ah_drv c)" by (rule finite_subset [OF c(3)]) simp
    with False have "drive_res (insert (targ, lun) (ah_drv c)) = add_mset (Res_drive targ lun) (drive_res (ah_drv c))"
      by (simp add: drive_res_def)
    then have "held ?c = add_mset (Res_drive targ lun) (held c)" by (simp add: held_def held_ctl_def)
    moreover have "(targ, lun) \<in> all_drives" using assms(2,3) by (simp add: all_drives_def)
    ultimately show ?thesis
      using False c unfolding att_early_def init_drive_def by (intro exI [of _ ?c]) auto
  qed
qed

lemma fold_drives_early:
  "att_early N w \<Longrightarrow> targ < ATA_MAXTARG \<Longrightarrow> \<forall>l\<in>set ls. l < ATA_MAXLUN \<Longrightarrow> att_early N (fold (init_drive ev targ) ls w)"
  by (induction ls arbitrary: w) (simp_all add: init_drive_early)

lemma init_target_early:
  assumes "att_early N w" "targ < ATA_MAXTARG"
  shows "att_early N (snd (snd (init_target ev targ (a, d, w))))"
proof -
  have "att_early N (init_drive ev targ 0 w)" using assms by (rule init_drive_early) (simp add: ATA_MAXLUN_def)
  then show ?thesis
    using fold_drives_early [OF _ assms(2)] by (auto simp: init_target_def Let_def split: option.split)
qed

lemma targets_early:
  "att_early N (snd (snd x)) \<Longrightarrow> \<forall>t\<in>set ts. t < ATA_MAXTARG \<Longrightarrow> att_early N (snd (snd (fold (init_target ev) ts x)))"
proof (induction ts arbitrary: x)
  case (Cons t ts)
  obtain a d w where x: "x = (a, d, w)" by (cases x)
  with Cons show ?case by (simp add: init_target_early)
qed simp

lemma init_controller_spec:
  assumes "at_ctl w = None" "at_live w = {#}"
  shows "\<exists>ok w' N. ata_init_controller ev w = Some (ok, w') \<and> N \<subseteq># {#Res_notify_mutex#} \<and>
    (if ok then att_early N w' else at_ctl w' = None \<and> at_live w' = N)"
proof (cases "ev_soft ev")
  case False
  with assms show ?thesis by (intro exI [of _ False] exI [of _ w] exI [of _ "{#}"]) (simp add: ata_init_controller_def)
next
  case True
  define w1 where "w1 = take_res Res_arq_pkt ((take_res Res_soft_state w)\<lparr>at_ctl := Some zero_ctl\<rparr>)"
  have w1: "at_ctl w1 = Some zero_ctl" "at_live w1 = {#Res_arq_pkt, Res_soft_state#}" by (simp_all add: w1_def assms)
  from setup_ioaddr_spec [of ev w1] obtain ok2 h1 h2 hb w2 where
    w2: "ata_setup_ioaddr ev w1 = Some (ok2, h1, h2, hb, w2)" "at_ctl w2 = Some zero_ctl"
    "at_live w2 = held_if h1 Res_io1 + (held_if h2 Res_io2 + (held_if hb Res_bm + {#Res_arq_pkt, Res_soft_state#}))"
    using w1 by auto
  define c3 where "c3 = zero_ctl\<lparr>ah_io1 := h1, ah_io2 := h2, ah_bm := hb\<rparr>"
  define w3 where "w3 = set_ctl (\<lambda>c. c\<lparr>ah_io1 := h1, ah_io2 := h2, ah_bm := hb\<rparr>) w2"
  have w3: "at_ctl w3 = Some c3" "at_live w3 = held c3" using w2(2,3)
    by (simp_all add: w3_def c3_def held_def held_ctl_def drive_res_def zero_ctl_def)
  have fail: "map_option (Pair False) (detach_controller v) = Some (False, v\<lparr>at_live := N, at_ctl := None\<rparr>)"
    if "at_ctl v = Some c" "at_live v = held c + N" "ah_drv c = {}" "\<not> ac_atapi_init c" "N \<subseteq># {#Res_notify_mutex#}" for v c N
    using detach_spec [of v c "{#}" N] that set_mset_mono [OF that(5)] by simp
  have start: "ata_init_controller ev w = (if \<not> ok2 then map_option (Pair False) (detach_controller w3) else
      (let pciide = hb \<and> ev_pciide ev; w = set_ctl (\<lambda>c. c\<lparr>ah_pciide := pciide\<rparr>) w3
       in Option.bind (if pciide \<and> ev_bus_master ev then map_option snd (ata_pciide_alloc ev w) else Some w) (\<lambda>w.
            if pciide \<and> ((ucast (ev_addr1 ev) :: u32) > 0xffff \<or> ev_isa ev) then map_option (Pair False) (detach_controller w)
            else Option.bind (sol11ghd_register ev w) (\<lambda>(ok, w).
              if \<not> ok then map_option (Pair False) (detach_controller w) else Some (True, set_ctl (\<lambda>c. c\<lparr>ac_ghd_init := True\<rparr>) w)))))"
    using True w2(1) by (simp add: ata_init_controller_def w1_def w3_def Let_def)
  show ?thesis
  proof (cases ok2)
    case False
    have "map_option (Pair False) (detach_controller w3) = Some (False, w3\<lparr>at_live := {#}, at_ctl := None\<rparr>)"
      using w3 by (intro fail [of w3 c3 "{#}"]) (simp_all add: c3_def zero_ctl_def)
    with False start show ?thesis
      by (intro exI [of _ False] exI [of _ "w3\<lparr>at_live := {#}, at_ctl := None\<rparr>"] exI [of _ "{#}"]) simp
  next
    case True
    define pciide where "pciide \<longleftrightarrow> hb \<and> ev_pciide ev"
    define c4 where "c4 = c3\<lparr>ah_pciide := pciide\<rparr>"
    define w4 where "w4 = set_ctl (\<lambda>c. c\<lparr>ah_pciide := pciide\<rparr>) w3"
    have w4: "at_ctl w4 = Some c4" "at_live w4 = held c4" "\<not> ah_sg c4"
      using w3 by (simp_all add: w4_def c4_def c3_def held_def held_ctl_def zero_ctl_def)
    have "\<exists>w5 b. (if pciide \<and> ev_bus_master ev then map_option snd (ata_pciide_alloc ev w4) else Some w4) = Some w5 \<and>
        at_ctl w5 = Some (c4\<lparr>ah_sg := b\<rparr>) \<and> at_live w5 = held (c4\<lparr>ah_sg := b\<rparr>)"
    proof (cases "pciide \<and> ev_bus_master ev")
      case True
      have f: "\<forall>x\<in>#at_live w4. x \<noteq> Res_sg_bind \<and> x \<noteq> Res_sg_mem"
        unfolding w4(2) by (auto simp: held_def held_ctl_def c4_def c3_def zero_ctl_def drive_res_def)
      from pciide_alloc_spec [OF f w4(1,3), of ev] obtain b w5 where
        p: "ata_pciide_alloc ev w4 = Some (b, w5)" "at_ctl w5 = Some (c4\<lparr>ah_sg := b\<rparr>)"
        "at_live w5 = (if b then {#Res_sg_bind, Res_sg_mem, Res_sg_handle#} else {#}) + at_live w4" by blast
      moreover have "at_live w5 = held (c4\<lparr>ah_sg := b\<rparr>)"
        using p(3) w4(2,3) by (simp add: held_def held_ctl_def)
      ultimately show ?thesis using True by (intro exI [of _ w5] exI [of _ b]) (simp del: p(3))
    next
      case False
      have "c4\<lparr>ah_sg := False\<rparr> = c4" using w4(3) by (cases c4) simp
      with False w4 show ?thesis by (intro exI [of _ w4] exI [of _ False]) (simp only: if_False)
    qed
    then obtain w5 b where w5: "(if pciide \<and> ev_bus_master ev then map_option snd (ata_pciide_alloc ev w4) else Some w4) = Some w5"
      "at_ctl w5 = Some (c4\<lparr>ah_sg := b\<rparr>)" "at_live w5 = held (c4\<lparr>ah_sg := b\<rparr>)" by blast
    define c5 where "c5 = c4\<lparr>ah_sg := b\<rparr>"
    have c5: "ah_drv c5 = {}" "\<not> ac_atapi_init c5" "\<not> ac_ghd_init c5" "\<not> ac_tran_alloc c5" "\<not> ac_scsi_attach c5"
      by (simp_all add: c5_def c4_def c3_def zero_ctl_def)
    have next5: "ata_init_controller ev w =
      (if pciide \<and> ((ucast (ev_addr1 ev) :: u32) > 0xffff \<or> ev_isa ev) then map_option (Pair False) (detach_controller w5)
       else Option.bind (sol11ghd_register ev w5) (\<lambda>(ok, w).
         if \<not> ok then map_option (Pair False) (detach_controller w) else Some (True, set_ctl (\<lambda>c. c\<lparr>ac_ghd_init := True\<rparr>) w)))"
      by (simp only: start True not_True_eq_False if_False Let_def pciide_def [symmetric] w4_def [symmetric] w5(1) Option.bind.simps)
    have bad: ?thesis if "ata_init_controller ev w = map_option (Pair False) (detach_controller v)" "at_ctl v = Some c5" "at_live v = held c5 + N"
      "N \<subseteq># {#Res_notify_mutex#}" for v N
      using that fail [OF that(2,3) c5(1,2) that(4)]
      by (intro exI [of _ False] exI [of _ "v\<lparr>at_live := N, at_ctl := None\<rparr>"] exI [of _ N]) simp
    show ?thesis
    proof (cases "pciide \<and> ((ucast (ev_addr1 ev) :: u32) > 0xffff \<or> ev_isa ev)")
      case True
      with next5 w5(2,3) show ?thesis by (intro bad [of w5 "{#}"]) (simp_all add: c5_def)
    next
      case False
      have f: "\<forall>x\<in>#at_live w5. x \<notin> {Res_intr, Res_timer, Res_done_intr}"
        unfolding w5(3) c5_def [symmetric] using c5 by (auto simp: held_def held_ctl_def drive_res_def)
      from register_spec [OF f, of ev] obtain ok6 w6 N where r: "sol11ghd_register ev w5 = Some (ok6, w6)" "at_ctl w6 = Some c5"
        "N \<subseteq># {#Res_notify_mutex#}" "at_live w6 = (if ok6 then mset ghd_res else {#}) + (held c5 + N)"
        using w5(2,3) by (auto simp: c5_def)
      show ?thesis
      proof (cases ok6)
        case False
        with next5 r \<open>\<not> (pciide \<and> _)\<close> show ?thesis by (intro bad [of w6 N]) simp_all
      next
        case True
        have "at_live w6 = held (c5\<lparr>ac_ghd_init := True\<rparr>) + N"
          using r(4) True c5 by (simp add: held_def held_ctl_def ac_simps)
        with True next5 r \<open>\<not> (pciide \<and> _)\<close> c5 show ?thesis
          by (intro exI [of _ True] exI [of _ "set_ctl (\<lambda>c. c\<lparr>ac_ghd_init := True\<rparr>) w6"] exI [of _ N])
            (simp add: att_early_def)
      qed
    qed
  qed
qed

text \<open>After the drives have been found: what is left of attach, from the state the drives leave.\<close>

definition att_ready :: "ata_res multiset \<Rightarrow> att \<Rightarrow> bool" where
  "att_ready N w \<longleftrightarrow> (\<exists>c. at_ctl w = Some c \<and> at_live w = held c + N \<and> ah_drv c \<subseteq> all_drives \<and> ac_ghd_init c \<and>
     (ac_atapi_init c \<longrightarrow> ac_tran_alloc c \<and> ac_scsi_attach c))"

lemma detach_after:
  assumes "at_ctl w = Some c" "at_live w = held c + M + N" "set_mset M \<subseteq> {Res_minor}" "N \<subseteq># {#Res_notify_mutex#}"
    and "ah_drv c \<subseteq> all_drives" "ac_atapi_init c \<longrightarrow> ac_tran_alloc c \<and> ac_scsi_attach c"
  shows "\<exists>w'. detach_controller w = Some w' \<and> at_ctl w' = None \<and> at_live w' = N"
  using detach_spec [OF assms(1-3) _ assms(5,6)] set_mset_mono [OF assms(4)] by simp

lemma detach_ready:
  assumes "att_ready N w" "N \<subseteq># {#Res_notify_mutex#}"
  shows "\<exists>w'. detach_controller w = Some w' \<and> at_ctl w' = None \<and> at_live w' = N"
proof -
  from assms(1) obtain c where "at_ctl w = Some c" "at_live w = held c + {#} + N" "ah_drv c \<subseteq> all_drives"
    "ac_atapi_init c \<longrightarrow> ac_tran_alloc c \<and> ac_scsi_attach c" by (auto simp: att_ready_def)
  from detach_after [OF this(1,2) _ assms(2) this(3,4)] show ?thesis by simp
qed

lemma early_ready: "att_early N w \<Longrightarrow> att_ready N w"
  by (auto simp: att_early_def att_ready_def)

lemma ready_flags:
  "att_ready N w \<Longrightarrow> att_ready N (set_ctl (\<lambda>c. c\<lparr>ac_disk_init := b\<rparr>) w)"
proof -
  assume "att_ready N w"
  then obtain c where c: "at_ctl w = Some c" "at_live w = held c + N" "ah_drv c \<subseteq> all_drives" "ac_ghd_init c"
    "ac_atapi_init c \<longrightarrow> ac_tran_alloc c \<and> ac_scsi_attach c" by (auto simp: att_ready_def)
  have "held (c\<lparr>ac_disk_init := b\<rparr>) = held c" by (simp add: held_def held_ctl_def)
  with c show ?thesis unfolding att_ready_def by (intro exI [of _ "c\<lparr>ac_disk_init := b\<rparr>"]) simp
qed

text \<open>The step that attaches the SCSA half, as \<open>ata_attach\<close> makes it.\<close>

lemma attach_scsa:
  assumes "att_early N w" "N \<subseteq># {#Res_notify_mutex#}"
  shows "\<exists>ok w'. (if b then map_option (\<lambda>(ok, w). (ok, if ok then set_ctl (\<lambda>c. c\<lparr>ac_atapi_init := True\<rparr>) w else w)) (atapi_attach ev w)
      else Some (True, w)) = Some (ok, w') \<and> att_ready N w'"
proof (cases b)
  case True
  from assms(1) obtain c where c: "at_ctl w = Some c" "at_live w = held c + N" "ah_drv c \<subseteq> all_drives" "ac_ghd_init c"
    "\<not> ac_atapi_init c" "\<not> ac_tran_alloc c" "\<not> ac_scsi_attach c" by (auto simp: att_early_def)
  have "\<forall>x\<in>#at_live w. x \<noteq> Res_scsi"
    unfolding c(2) using c(5) set_mset_mono [OF assms(2)] by (auto simp: held_def held_ctl_def ghd_res_def)
  from atapi_attach_spec [OF this c(1,6,7), of ev] obtain ok w' t where
    a: "atapi_attach ev w = Some (ok, w')" "at_ctl w' = Some (c\<lparr>ac_tran_alloc := t, ac_scsi_attach := ok\<rparr>)" "ok \<longrightarrow> t"
    "at_live w' = (if ok then {#Res_scsi, Res_tran#} else {#}) + at_live w" by blast
  show ?thesis
  proof (cases ok)
    case True
    have "held (c\<lparr>ac_tran_alloc := t, ac_scsi_attach := ok, ac_atapi_init := True\<rparr>) = {#Res_scsi, Res_tran#} + held c"
      using c(5) by (simp add: held_def held_ctl_def)
    with a c True \<open>b\<close> show ?thesis
      by (intro exI [of _ True] exI [of _ "set_ctl (\<lambda>c. c\<lparr>ac_atapi_init := True\<rparr>) w'"]) (simp add: att_ready_def)
  next
    case False
    have "held (c\<lparr>ac_tran_alloc := t, ac_scsi_attach := False\<rparr>) = held c" by (simp add: held_def held_ctl_def)
    with a c False \<open>b\<close> show ?thesis
      by (intro exI [of _ False] exI [of _ w']) (simp add: att_ready_def)
  qed
qed (use early_ready [OF assms(1)] in auto)

text \<open>The last step, with the minor node.\<close>

lemma attach_last:
  fixes m :: bool
  assumes "att_ready N w" "N \<subseteq># {#Res_notify_mutex#}"
  defines "w' \<equiv> set_ctl (\<lambda>c. c\<lparr>ac_attached := True\<rparr>) (if m then take_res Res_minor w else w)"
  shows "(\<exists>c. at_ctl w' = Some c \<and> ac_attached c \<and> ac_ghd_init c) \<and>
     (\<exists>w2. detach_controller w' = Some w2 \<and> at_ctl w2 = None \<and> at_live w2 = N)"
proof -
  from assms(1) obtain c where c: "at_ctl w = Some c" "at_live w = held c + N" "ah_drv c \<subseteq> all_drives" "ac_ghd_init c"
    "ac_atapi_init c \<longrightarrow> ac_tran_alloc c \<and> ac_scsi_attach c" by (auto simp: att_ready_def)
  let ?c = "c\<lparr>ac_attached := True\<rparr>"
  have w': "at_ctl w' = Some ?c" "at_live w' = held ?c + held_if m Res_minor + N"
    using c by (simp_all add: w'_def held_def held_ctl_def)
  have "\<exists>w2. detach_controller w' = Some w2 \<and> at_ctl w2 = None \<and> at_live w2 = N"
    by (rule detach_after [OF w' _ assms(2)]) (use c in auto)
  with w'(1) c(4) show ?thesis by simp
qed

lemma attach_controller_balanced:
  "\<exists>ok w. attach_controller ev \<lparr>at_live = {#}, at_ctl = None\<rparr> = Some (ok, w) \<and>
    (if ok then (\<exists>c. at_ctl w = Some c \<and> ac_attached c \<and> ac_ghd_init c) \<and>
       (\<exists>w'. detach_controller w = Some w' \<and> at_ctl w' = None \<and> at_live w' \<subseteq># {#Res_notify_mutex#})
     else at_ctl w = None \<and> at_live w \<subseteq># {#Res_notify_mutex#})"
proof -
  let ?w = "\<lparr>at_live = {#}, at_ctl = None\<rparr> :: att"
  from init_controller_spec [of ?w ev] obtain ok w1 N where
    i: "ata_init_controller ev ?w = Some (ok, w1)" and N: "N \<subseteq># {#Res_notify_mutex#}" and
    j: "if ok then att_early N w1 else at_ctl w1 = None \<and> at_live w1 = N" by auto
  show ?thesis
  proof (cases ok)
    case False
    with i j N show ?thesis by (intro exI [of _ False] exI [of _ w1]) (simp add: attach_controller_def detach_controller_def)
  next
    case True
    obtain a d w2 where f: "fold (init_target ev) [0..<ATA_MAXTARG] (0, 0, w1) = (a, d, w2)" by (cases "fold (init_target ev) [0..<ATA_MAXTARG] (0, 0, w1)")
    with True j targets_early [of N "(0, 0, w1)" "[0..<ATA_MAXTARG]" ev] have e: "att_early N w2" by auto
    from attach_scsa [OF e N, of "a > 0" ev] obtain ok3 w3 where
      s: "(if a > 0 then map_option (\<lambda>(ok, w). (ok, if ok then set_ctl (\<lambda>c. c\<lparr>ac_atapi_init := True\<rparr>) w else w)) (atapi_attach ev w2)
          else Some (True, w2)) = Some (ok3, w3)" and r3: "att_ready N w3" by blast
    define w4 where "w4 = (if d > 0 then set_ctl (\<lambda>c. c\<lparr>ac_disk_init := True\<rparr>) w3 else w3)"
    have r4: "att_ready N w4" using r3 ready_flags [OF r3, of True] by (simp add: w4_def)
    define m where "m = (case at_ctl w4 of Some c \<Rightarrow> ah_pciide c | None \<Rightarrow> False)"
    have fail: "\<exists>w'. map_option (Pair False) (detach_controller v) = Some (False, w') \<and> at_ctl w' = None \<and> at_live w' = N"
      if "att_ready N v" for v using detach_ready [OF that N] by auto
    have dd: "(if d > 0 then ata_disk_attach w3 else (True, w3)) = (True, w3)" by (simp add: ata_disk_attach_def)
    have at: "attach_controller ev ?w =
      (if a = 0 \<and> d = 0 then map_option (Pair False) (detach_controller w2)
       else if \<not> ok3 then map_option (Pair False) (detach_controller w3)
       else if m \<and> \<not> ev_minor ev then map_option (Pair False) (detach_controller w4)
       else Some (True, set_ctl (\<lambda>c. c\<lparr>ac_attached := True\<rparr>) (if m then take_res Res_minor w4 else w4)))"
      by (simp only: attach_controller_def Let_def i Option.bind.simps prod.case f s True dd not_True_eq_False if_False
          w4_def [symmetric] m_def [symmetric])
    have bad: ?thesis if "attach_controller ev ?w = map_option (Pair False) (detach_controller v)" "att_ready N v" for v
      using fail [OF that(2)] that(1) N by auto
    consider "a = 0 \<and> d = 0" | "\<not> (a = 0 \<and> d = 0)" "\<not> ok3" | "\<not> (a = 0 \<and> d = 0)" "\<not> \<not> ok3" "m \<and> \<not> ev_minor ev"
      | "\<not> (a = 0 \<and> d = 0)" "\<not> \<not> ok3" "\<not> (m \<and> \<not> ev_minor ev)" by blast
    then show ?thesis
    proof cases
      case 1
      have "attach_controller ev ?w = map_option (Pair False) (detach_controller w2)" unfolding at by (rule if_P [OF 1])
      then show ?thesis by (rule bad [OF _ early_ready [OF e]])
    next
      case 2
      have "attach_controller ev ?w = map_option (Pair False) (detach_controller w3)"
        unfolding at if_not_P [OF 2(1)] by (rule if_P [OF 2(2)])
      then show ?thesis by (rule bad [OF _ r3])
    next
      case 3
      have "attach_controller ev ?w = map_option (Pair False) (detach_controller w4)"
        unfolding at if_not_P [OF 3(1)] if_not_P [OF 3(2)] by (rule if_P [OF 3(3)])
      then show ?thesis by (rule bad [OF _ r4])
    next
      case 4
      let ?v = "set_ctl (\<lambda>c. c\<lparr>ac_attached := True\<rparr>) (if m then take_res Res_minor w4 else w4)"
      have "attach_controller ev ?w = Some (True, ?v)"
        unfolding at if_not_P [OF 4(1)] if_not_P [OF 4(2)] by (rule if_not_P [OF 4(3)])
      moreover from attach_last [OF r4 N, of m] N
      have "(\<exists>c. at_ctl ?v = Some c \<and> ac_attached c \<and> ac_ghd_init c) \<and>
        (\<exists>w'. detach_controller ?v = Some w' \<and> at_ctl w' = None \<and> at_live w' \<subseteq># {#Res_notify_mutex#})" by blast
      ultimately show ?thesis by (intro exI [of _ True] exI [of _ ?v] conjI) (simp_all only: if_True)
    qed
  qed
qed

text \<open>C29: Whatever fails while a controller is attached, nothing is released that is not held or that something else still
  uses, a failed attach has released everything it had acquired, and so has the detach that follows a successful one;
  the mutex of the reset notification list alone is never destroyed.\<close>

theorem attach_balanced:
  "\<exists>ok w. ata_attach attaching ev \<lparr>at_live = {#}, at_ctl = None\<rparr> = Some (ok, w) \<and>
    (if ok then (\<exists>c. at_ctl w = Some c \<and> ac_attached c \<and> ac_ghd_init c) \<and>
       (\<exists>w'. ata_detach True w = Some (True, w') \<and> at_ctl w' = None \<and> at_live w' \<subseteq># {#Res_notify_mutex#})
     else at_ctl w = None \<and> at_live w \<subseteq># {#Res_notify_mutex#})"
proof (cases attaching)
  case True
  with attach_controller_balanced [of ev] show ?thesis by (fastforce simp: ata_attach_def ata_detach_def)
qed (auto simp: ata_attach_def intro: exI [of _ False])

end
