(* ===== verification/Sil3xxx.thy ===== *)
theory Sil3xxx
  imports Prelude
begin

text \<open>
  Initialisation of the SiI 3112, 3114 and 3512 chips (\<open>sil3xxx.c\<close>, \<open>sil3xxx.h\<close>), and its choice by the PCI identifiers
  (\<open>ata_common.c\<close>). The chip's registers behind base address 5 are reached through a pair of registers of the PCI
  configuration space: a write of an address to the first selects the register that the second then reads and writes.
  The state is that of the chip; whether the property \<open>sil3xxx-initialized\<close> exists and whether the configuration space
  can be mapped are arguments.
\<close>

definition SILICON_IMAGE_VENDOR_ID :: u16 where "SILICON_IMAGE_VENDOR_ID = 0x1095"
definition SIL3112_DEVICE_ID :: u16 where "SIL3112_DEVICE_ID = 0x3112"
definition SIL3114_DEVICE_ID :: u16 where "SIL3114_DEVICE_ID = 0x3114"
definition SIL3512_DEVICE_ID :: u16 where "SIL3512_DEVICE_ID = 0x3512"

definition fifocntctl :: "u32 list" where "fifocntctl = [0x40, 0x44, 0x240, 0x244]"
definition sfiscfg :: "u32 list" where "sfiscfg = [0x14c, 0x1cc, 0x34c, 0x3cc]"
definition SFISCFG_ERRATA :: u32 where "SFISCFG_ERRATA = 0x10401554"

record sil_chip =
  ba5_ind_address :: u32
  ba5 :: "u32 \<Rightarrow> u32"
  sil_initialized :: bool   \<comment> \<open>the property of the parent node\<close>

definition PUT_BAR5_INDIRECT :: "u32 \<Rightarrow> u32 \<Rightarrow> sil_chip \<Rightarrow> sil_chip" where
  "PUT_BAR5_INDIRECT address v c =
    (let c = c\<lparr>ba5_ind_address := address\<rparr> in c\<lparr>ba5 := (ba5 c)(ba5_ind_address c := v)\<rparr>)"

definition GET_BAR5_INDIRECT :: "u32 \<Rightarrow> sil_chip \<Rightarrow> u32 \<times> sil_chip" where
  "GET_BAR5_INDIRECT address c = (let c = c\<lparr>ba5_ind_address := address\<rparr> in (ba5 c (ba5_ind_address c), c))"

text \<open>The field of the FIFO control register for a cache line of \<open>cache_lnsz\<close> words of four bytes.\<close>

definition sil_frrc :: "u8 \<Rightarrow> u8" where
  "sil_frrc cache_lnsz =
    (if cache_lnsz \<noteq> 0
     then word_of_int (uint cache_lnsz * 4 div 32 + (if uint cache_lnsz * 4 mod 32 \<noteq> 0 then 1 else 0) - 1) else 0)"

definition sil_port :: "u8 \<Rightarrow> nat \<Rightarrow> sil_chip \<Rightarrow> sil_chip" where
  "sil_port frrc i c =
    (let (fifo_cnt_ctl, c) = GET_BAR5_INDIRECT (fifocntctl ! i) c;
         fifo_cnt_ctl = (fifo_cnt_ctl AND NOT 7) OR (ucast frrc AND 7);
         c = PUT_BAR5_INDIRECT (fifocntctl ! i) fifo_cnt_ctl c
     in PUT_BAR5_INDIRECT (sfiscfg ! i) SFISCFG_ERRATA c)"

definition sil3xxx_init_controller :: "bool \<Rightarrow> u8 \<Rightarrow> u16 \<Rightarrow> sil_chip \<Rightarrow> bool \<times> sil_chip" where
  "sil3xxx_init_controller config_setup cache_lnsz device_id c =
    (if sil_initialized c then (True, c)
     else if \<not> config_setup then (False, c)
     else
       (let frrc = sil_frrc cache_lnsz;
            ports = (if device_id = SIL3114_DEVICE_ID then 4 else 2)
        in (True, (fold (sil_port frrc) [0..<ports] c)\<lparr>sil_initialized := True\<rparr>)))"

text \<open>The chips with an initialisation of their own; \<open>True\<close> for all others.\<close>

definition ata_cntrls_spec :: "(u16 \<times> u16) list" where
  "ata_cntrls_spec = [(0x1095, 0x3114), (0x1095, 0x3512), (0x1095, 0x3112)]"

definition ata_spec_init_controller :: "bool \<Rightarrow> u8 \<Rightarrow> u16 \<Rightarrow> u16 \<Rightarrow> sil_chip \<Rightarrow> bool \<times> sil_chip" where
  "ata_spec_init_controller config_setup cache_lnsz vendor_id device_id c =
    (case List.find (\<lambda>p. p = (vendor_id, device_id)) ata_cntrls_spec of
       None \<Rightarrow> (True, c)
     | Some _ \<Rightarrow> sil3xxx_init_controller config_setup cache_lnsz device_id c)"

subsection \<open>What it leaves in the chip\<close>

definition sil_ports :: "u16 \<Rightarrow> nat" where "sil_ports device_id = (if device_id = SIL3114_DEVICE_ID then 4 else 2)"

lemma sil_port_regs:
  "ba5 (sil_port frrc i c) = (ba5 c)(fifocntctl ! i := (ba5 c (fifocntctl ! i) AND NOT 7) OR (ucast frrc AND 7), sfiscfg ! i := SFISCFG_ERRATA)"
  by (simp add: sil_port_def GET_BAR5_INDIRECT_def PUT_BAR5_INDIRECT_def Let_def)

lemma less_four: "i < 4 \<longleftrightarrow> i = 0 \<or> i = 1 \<or> i = 2 \<or> i = (3 :: nat)" by linarith

lemma port_regs_distinct:
  assumes "i < 4" "j < 4"
  shows "fifocntctl ! i = fifocntctl ! j \<longleftrightarrow> i = j" "sfiscfg ! i = sfiscfg ! j \<longleftrightarrow> i = j" "fifocntctl ! i \<noteq> sfiscfg ! j"
  using assms by (auto simp: less_four fifocntctl_def sfiscfg_def)

lemma sil_fold_regs:
  assumes "n \<le> 4"
  shows "ba5 (fold (sil_port frrc) [0..<n] c) r =
    (if \<exists>i<n. r = sfiscfg ! i then SFISCFG_ERRATA
     else if \<exists>i<n. r = fifocntctl ! i then (ba5 c r AND NOT 7) OR (ucast frrc AND 7) else ba5 c r)"
  using assms
proof (induction n)
  case (Suc n)
  have o: "fifocntctl ! i \<noteq> fifocntctl ! n" "sfiscfg ! i \<noteq> sfiscfg ! n" "fifocntctl ! n \<noteq> sfiscfg ! i" "fifocntctl ! i \<noteq> sfiscfg ! n"
    if "i < n" for i
    using port_regs_distinct [of i n] port_regs_distinct [of n i] that Suc.prems by auto
  have s: "fifocntctl ! n \<noteq> sfiscfg ! n" using port_regs_distinct(3) [of n n] Suc.prems by simp
  show ?case using Suc o s by (auto simp: sil_port_regs less_Suc_eq)
qed simp

lemma low_bits: "((x AND NOT 7) OR (y AND 7)) AND 7 = y AND 7" "((x AND NOT 7) OR (y AND 7)) AND NOT 7 = x AND NOT 7" for x y :: u32
  by (auto intro!: bit_word_eqI simp: bit_simps)

lemmas low_bits_neg = low_bits [simplified]

lemma frrc_covers:
  assumes "unat cache_lnsz \<le> 64"
  shows "4 * unat cache_lnsz \<le> 32 * (unat ((ucast (sil_frrc cache_lnsz) :: u32) AND 7) + 1)"
proof (cases "cache_lnsz = 0")
  case False
  define x where "x = uint cache_lnsz"
  have x: "1 \<le> x" "x \<le> 64"
  proof -
    have "int (unat cache_lnsz) \<le> 64" using assms by linarith
    then show "x \<le> 64" by (simp only: x_def uint_nat)
    have "x \<noteq> 0" using False unfolding x_def by (metis uint_0_iff)
    moreover have "0 \<le> x" unfolding x_def by (rule uint_ge_0)
    ultimately show "1 \<le> x" by linarith
  qed
  define k where "k = x * 4 div 32 + (if x * 4 mod 32 \<noteq> 0 then 1 else 0) - 1"
  have k: "0 \<le> k" "k < 8" "4 * x \<le> 32 * (k + 1)" using x unfolding k_def by (auto split: if_splits) presburger+
  have f: "sil_frrc cache_lnsz = word_of_int k" using False by (simp add: sil_frrc_def k_def x_def)
  have "k = 0 \<or> k = 1 \<or> k = 2 \<or> k = 3 \<or> k = 4 \<or> k = 5 \<or> k = 6 \<or> k = 7" using k(1,2) by linarith
  then have "int (unat ((ucast (sil_frrc cache_lnsz) :: u32) AND 7)) = k" unfolding f by (elim disjE) simp_all
  moreover have "int (unat cache_lnsz) = x" by (simp add: x_def)
  ultimately have "int (4 * unat cache_lnsz) \<le> int (32 * (unat ((ucast (sil_frrc cache_lnsz) :: u32) AND 7) + 1))" using k(3) by simp
  then show ?thesis by (simp only: of_nat_le_iff)
qed (simp add: sil_frrc_def)

text \<open>C30: Initialising the chip leaves on every port a FIFO threshold of at least a cache line (of up to 256 bytes) and the
  errata value in the SFIS configuration, touches no other bit or register, and is done once.\<close>

theorem sil3xxx_init_correct:
  assumes "\<not> sil_initialized c" "unat cache_lnsz \<le> 64"
  shows "\<exists>c'. sil3xxx_init_controller True cache_lnsz device_id c = (True, c') \<and>
    (\<forall>i < sil_ports device_id. ba5 c' (sfiscfg ! i) = SFISCFG_ERRATA \<and>
       4 * unat cache_lnsz \<le> 32 * (unat (ba5 c' (fifocntctl ! i) AND 7) + 1) \<and>
       ba5 c' (fifocntctl ! i) AND NOT 7 = ba5 c (fifocntctl ! i) AND NOT 7) \<and>
    (\<forall>r. (\<forall>i < sil_ports device_id. r \<noteq> sfiscfg ! i \<and> r \<noteq> fifocntctl ! i) \<longrightarrow> ba5 c' r = ba5 c r) \<and>
    (\<forall>ok n d. sil3xxx_init_controller ok n d c' = (True, c'))"
proof -
  let ?n = "sil_ports device_id"
  let ?f = "fold (sil_port (sil_frrc cache_lnsz)) [0..<?n] c"
  have n: "?n \<le> 4" by (simp add: sil_ports_def)
  note regs = sil_fold_regs [OF n, of "sil_frrc cache_lnsz" c]
  have "sil3xxx_init_controller True cache_lnsz device_id c = (True, ?f\<lparr>sil_initialized := True\<rparr>)"
    using assms(1) by (simp add: sil3xxx_init_controller_def sil_ports_def Let_def)
  moreover have "ba5 ?f (sfiscfg ! i) = SFISCFG_ERRATA" if "i < ?n" for i using regs [of "sfiscfg ! i"] that by auto
  moreover have "ba5 ?f (fifocntctl ! i) = (ba5 c (fifocntctl ! i) AND NOT 7) OR (ucast (sil_frrc cache_lnsz) AND 7)"
    if "i < ?n" for i
  proof -
    have "\<not> (\<exists>j < ?n. fifocntctl ! i = sfiscfg ! j)" using port_regs_distinct(3) that n by fastforce
    then show ?thesis using regs [of "fifocntctl ! i"] that by auto
  qed
  moreover have "ba5 ?f r = ba5 c r" if "\<forall>i < ?n. r \<noteq> sfiscfg ! i \<and> r \<noteq> fifocntctl ! i" for r
    using regs [of r] that by auto
  moreover note frrc_covers [OF assms(2)]
  ultimately show ?thesis
    by (intro exI [of _ "?f\<lparr>sil_initialized := True\<rparr>"]) (simp add: low_bits low_bits_neg sil3xxx_init_controller_def)
qed

definition sil0 :: sil_chip where
  "sil0 = \<lparr>ba5_ind_address = 0, ba5 = (\<lambda>r. if r = 0x40 then 0xff5 else 0x10401555), sil_initialized = False\<rparr>"

theorem sil3xxx_init_correct_witness:
  "\<exists>c'. sil3xxx_init_controller True 16 SIL3112_DEVICE_ID sil0 = (True, c') \<and> ba5 c' 0x14c = 0x10401554 \<and>
     ba5 c' 0x40 AND NOT 7 = 0xff0 \<and> 64 \<le> 32 * (unat (ba5 c' 0x40 AND 7) + 1) \<and> ba5 c' 0x240 = 0x10401555"
proof -
  have n: "sil_ports SIL3112_DEVICE_ID = 2" by (simp add: sil_ports_def SIL3112_DEVICE_ID_def SIL3114_DEVICE_ID_def)
  have "\<not> sil_initialized sil0" "unat (16 :: u8) \<le> 64" by (simp_all add: sil0_def)
  from sil3xxx_init_correct [OF this, of SIL3112_DEVICE_ID, unfolded n] obtain c' where
    c: "sil3xxx_init_controller True 16 SIL3112_DEVICE_ID sil0 = (True, c')"
    "\<forall>i < 2. ba5 c' (sfiscfg ! i) = SFISCFG_ERRATA \<and> 4 * unat (16 :: u8) \<le> 32 * (unat (ba5 c' (fifocntctl ! i) AND 7) + 1) \<and>
       ba5 c' (fifocntctl ! i) AND NOT 7 = ba5 sil0 (fifocntctl ! i) AND NOT 7"
    "\<forall>r. (\<forall>i < 2. r \<noteq> sfiscfg ! i \<and> r \<noteq> fifocntctl ! i) \<longrightarrow> ba5 c' r = ba5 sil0 r" by blast
  have "ba5 c' 0x240 = ba5 sil0 0x240"
    by (rule c(3) [rule_format]) (auto simp: less_2_cases_iff sfiscfg_def fifocntctl_def)
  with c(1) c(2) [rule_format, of 0] show ?thesis
    by (simp add: sfiscfg_def fifocntctl_def SFISCFG_ERRATA_def sil0_def)
qed

end
