(* ===== verification/Spec2Isabelle.thy ===== *)
theory Spec2Isabelle
  imports Atapi_Scsa Strat_Duplex Cmdk Ata_Attach Sil3xxx
begin

text \<open>
  A verification development for the Solaris ATA driver with SiI3112 support.

  \<^bold>\<open>The program.\<close> A disk request enters the target driver (\<open>cmdk\<close>), passes the disk object (\<open>dadk\<close>) and its
  strategy module (\<open>strategy.c\<close>: a flow control object over a queue object), and becomes a packet of the
  ATA driver (\<open>src/dktp/controller/ata\<close>). The packet is queued, started, timed and completed by the generic
  HBA driver GHD (\<open>src/dktp/hba/ghd\<close>), which calls back the ATA driver's controller state machine
  (\<open>ata_ctlr_fsm\<close>); that machine calls the packet's protocol callbacks: \<open>ata_disk_intr_*\<close> for disks,
  \<open>atapi_fsm_intr\<close> for packet devices, over the task file registers and the PCI-IDE bus master.

  \<^bold>\<open>Theories and what they model.\<close>
  \<^item> \<open>Prelude\<close>: C integer types (LP64), rule collections, generic lemmas.
  \<^item> \<open>Ghd_Queue\<close> (\<open>ghd_queue.c\<close>): \<open>L1\<close> and \<open>L2\<close> lists over an explicit store; the locale \<open>list_world\<close>.
  \<^item> \<open>Ghd_State\<close>, \<open>Ghd_Waitq\<close>, \<open>Ghd_Doneq\<close>, \<open>Ghd_Process\<close>, \<open>Ghd_System\<close> (\<open>ghd.h\<close>, \<open>ghd_waitq.c\<close>, \<open>ghd.c\<close>): the
    controller state, the two-level wait queues with their throttles, completion and done queue, starting
    requests through the driver (locale \<open>hba_driver\<close>), and all of it as an interleaved step relation.
  \<^item> \<open>Ghd_Timer\<close> (\<open>ghd_timer.c\<close>): expiry, escalation (locale \<open>hba_recovery\<close>), the controller list.
  \<^item> \<open>Ghd_Poll\<close> (\<open>ghd.c\<close>): interrupt handler (locale \<open>hba_interrupt\<close>), polling, abort and reset entries.
  \<^item> \<open>Ghd_Dma\<close> (\<open>ghd_dma.c\<close>): windows and cookies of a bound buffer.
  \<^item> \<open>Ata_Io\<close> (\<open>ata_common.c\<close>): register access as a log, waits, identify, non-data commands.
  \<^item> \<open>Ata_State\<close> (\<open>ata_common.h\<close>): the soft state; \<open>Ata_Dma\<close> (\<open>ata_dma.c\<close>): the bus master.
  \<^item> \<open>Atapi_Fsm\<close> (\<open>atapi_fsm.c\<close>, \<open>ata_fsm.h\<close>): the packet protocol machine.
  \<^item> \<open>Ata_Disk\<close>, \<open>Ata_Disk_Setup\<close> (\<open>ata_disk.c\<close>): the disk I/O path; identify data, capacity, geometry.
  \<^item> \<open>Ata_Iosetup\<close> (\<open>ata_disk.c\<close>): packets, buffer mapping, setting up the next transfer of a request from the
    windows of \<open>Ghd_Dma\<close>; \<open>Ata_Ident\<close> (\<open>ata_common.c\<close>, \<open>atapi.c\<close>, \<open>ata_blacklist.c\<close>): finding and initialising drives.
  \<^item> \<open>Ata_Ctlr\<close>, \<open>Ata_System\<close> (\<open>ata_common.c\<close>): the controller machine, resets and callbacks, and the driver
    and GHD as one transition system in which the three GHD interfaces are interpreted.
  \<^item> \<open>Atapi_Scsa\<close> (\<open>atapi.c\<close>, \<open>ghd_scsa.c\<close>): packets of packet devices: setting them up piece by piece, automatic request
    sense, submission, completion, capabilities, aborts and resets, on top of \<open>Ata_System\<close>.
  \<^item> \<open>Resources\<close>, \<open>Ata_Attach\<close> (\<open>ata_common.c\<close>, \<open>ata_dma.c\<close>, \<open>atapi.c\<close>, \<open>ghd.c\<close>): probe, attach and detach as acquisition and
    release of kernel resources, on every error path.
  \<^item> \<open>Sil3xxx\<close> (\<open>sil3xxx.c\<close>, \<open>sil3xxx.h\<close>): initialisation of the SiI 3112, 3114 and 3512 chips.
  \<^item> \<open>Strat_Queue\<close>, \<open>Strat_Flow\<close>, \<open>Strat_Duplex\<close> (\<open>strategy.c\<close>): queue objects (locale \<open>que_object\<close>); flow control with
    one queue, and with one for reads and one for writes (locale \<open>two_queues\<close>).
  \<^item> \<open>Cmdk_Bbh\<close> (\<open>cmdk.c\<close>, \<open>altsctr.h\<close>, \<open>bbh.h\<close>): bad blocks: reading the table of alternates of a disk, its index by
    slice, the binary search for a request's first bad block, the splitting of a request into cookies.
  \<^item> \<open>Dadk\<close> (\<open>dadk.c\<close>, \<open>gda.c\<close>): the disk object: probing, sector size, strategy, preparation of packets, the sections
    of a request, the error table, retries, completion, cache flush and pass-through requests.
  \<^item> \<open>Dadk_Run\<close>, \<open>Dadk_Disk\<close>: the packet of a request run against a controller (\<open>dadk_step\<close>). The locale
    \<open>dada_controller\<close> states what the disk object relies on; it is interpreted on \<open>ata_disk_iosetup\<close> of \<open>Ata_Iosetup\<close>
    for PIO transfers, and composed with \<open>Cmdk_Bbh\<close> for disks with bad blocks. With DMA the setup of the ATA
    driver refuses a retry, and it may prepare more than the section asked for (\<open>disk_dma_request_is_window\<close>), which the contract
    excludes; the interpretation, and with it every property of \<open>dadk_step\<close>, is therefore restricted to PIO. That a
    request ends is shown for any controller (\<open>ctl_ends\<close>), what it has moved for the endings that
    \<open>ata_disk_complete\<close> reports (\<open>ata_ends\<close>).
  \<^item> \<open>Cmdk\<close> (\<open>cmdk.c\<close>): opens and closes of partitions, the strategy and dump routines; with \<open>Dadk_Disk\<close> the whole way of a
    request from the partition to the transfers of the disk.

  \<^bold>\<open>How the model is made.\<close> A struct is a record with the fields the code uses, an enumeration a datatype, an integer
  a word of its width; \<open>clock_t\<close> and counters that cannot wrap are \<open>int\<close> or \<open>nat\<close>. A C function is a function on
  the state; register accesses and delays are appended to a log in their order. Callback pointers are
  datatype constructors dispatched by \<open>call_start\<close>, \<open>call_intr\<close>. A loop whose end depends on the device or on the
  shape of a list is a \<open>partial_function (option)\<close>: \<open>None\<close> is "does not return", and that the code returns is
  proved (\<open>ata_entries_return\<close>, \<open>waitq_shuffle_up_correct\<close>, \<open>L1_delete_correct\<close> and others). Where the code has a
  bound (the watchdogs of 1000 rounds, the countdown of a wait) the model has the same bound. The only count
  that is not in the code is the number of successful \<open>mutex_tryenter\<close> calls of \<open>fc_loop\<close>, an argument over
  which the properties are quantified.

  \<^bold>\<open>Parameters and hypotheses.\<close> The device (\<open>device\<close>: any function from the access log to the value read), the
  kernel clock (\<open>kenv\<close>, with \<open>hz_ok\<close>: a tick rate is positive), the drive of a command (\<open>env_drv\<close>), the size of the SCSA status header,
  the completion callback of the packet layer (\<open>up_atapi_complete\<close>, which changes only its own packet), the
  kernel's DMA calls (\<open>dma_handle_ok\<close>: the windows and cookies the DDI documents; \<open>dma_attr_ok\<close>: the limits the driver
  asks for), the properties of the device tree (\<open>ctl_props\<close>, \<open>drv_props\<close>) and \<open>TGCOM_PKT\<close>, which may fail with the restart
  callback registered or without (\<open>pkt_result\<close>); for the disk object
  the resources the kernel grants (\<open>dadk_env\<close>), for bad blocks the partition table and the sectors read from the
  disk (\<open>bbh_env\<close>).

  \<^bold>\<open>What the lemmas show.\<close> Lists and queues keep their representation and invariant under every operation;
  the driver and GHD together keep \<open>ata_inv\<close> in every reachable state, so that no request is lost, repeated or
  completed twice, and every entry point returns for every device; the protocol machines transfer exactly
  the requested bytes, in order; addresses and DMA tables survive their encoding; timeout recovery
  escalates in order and ends; the strategy module loses no request, though one whose preparation fails without a callback
  can wait forever (\<open>flow_hangs\<close>), and serves a burst in scan order; the
  disk object, by programmed transfers, moves every block of a request once, to the sectors the bad block table gives, and ends
  with the residual count of what was not moved; attaching leaks nothing, whatever fails. Some
  theorems show what the code does where that is not what it means to do (\<open>timer_newstate_frozen_reset\<close>,
  \<open>ata_wait_timeout_wraps\<close>, \<open>disk_resid_after_error\<close>).

  \<^bold>\<open>Not modelled.\<close> The kernel-facing parts (attach, ioctls and device ids of \<open>cmdk.c\<close>, \<open>pci-ide.c\<close>, the bus nexus
  operations of \<open>ata_common.c\<close>, the reset notification list of GHD) and the allocation of packets in \<open>ghd_gcmd.c\<close>, whose work is calls of
  kernel functions; of attach and detach only the resources are modelled, not the register accesses and messages; debug
  printing; in \<open>dadk.c\<close> the polled dump and the removable media ioctls with their watch thread; in \<open>strategy.c\<close> the
  merging queue.
\<close>

end
